(* ===== verification/Prelude.thy ===== *)
theory Prelude
  imports Main "HOL-Library.Word" "HOL-Library.List_Lexorder"
begin

text \<open>
  Shared vocabulary of the development: the fixed-width integer types of the C++ sources, the
  named collections that carry the component proofs, and the generic facts on lists, options and
  words that more than one component needs.  Nothing here models code.
\<close>

unbundle bit_operations_syntax

type_synonym byte = "8 word"
type_synonym u16 = "16 word"
type_synonym u32 = "32 word"
type_synonym u64 = "64 word"

named_theorems codec "round trips and lengths of encoders and decoders"
named_theorems limb "value of the limb-level big integer operations"
named_theorems index_simps "field laws of the block index"
named_theorems preserve "operations that keep an invariant"

section \<open>Words read as natural numbers\<close>

lemma unat_bound [simp]: "unat (w :: 'a::len word) < 2 ^ LENGTH('a)"
  by (rule unsigned_less)

lemma unat_byte_bound [simp]: "unat (b :: byte) < 256"
  using unat_bound [of b] by simp

lemma unat_u32_bound [simp]: "unat (w :: u32) < 2 ^ 32"
  using unat_bound [of w] by simp

lemma unat_drop_bit: "unat (drop_bit n (w :: 'a::len word)) = unat w div 2 ^ n"
  by (subst unat_drop_bit_eq) (rule drop_bit_eq_div)

lemma unat_ucast_down:
  "unat (ucast (w :: 'a::len word) :: 'b::len word) = unat w mod 2 ^ LENGTH('b)"
  by (simp add: unsigned_ucast_eq take_bit_eq_mod)

lemma word_eq_unatI: "unat (a :: 'a::len word) = unat b \<Longrightarrow> a = b"
  by (simp add: word_unat_eq_iff)

section \<open>Lists\<close>

lemma nth_drop_take: "i < n \<Longrightarrow> k + i < length xs \<Longrightarrow> take n (drop k xs) ! i = xs ! (k + i)"
  by simp

lemma take_drop_append3:
  assumes "length xs = n" and "length ys = m"
  shows "take m (drop n (xs @ ys @ zs)) = ys"
  using assms by simp

lemma sorted_wrt_filter: "sorted_wrt P xs \<Longrightarrow> sorted_wrt P (filter Q xs)"
  by (induction xs) auto

section \<open>Digit lists\<close>

text \<open>
  The value of a list of words read as digits, least significant first: byte buffers with 8-bit
  digits, the limbs of the big integers with 32-bit digits.
\<close>

primrec wval :: "'a::len word list \<Rightarrow> nat" where
  "wval [] = 0"
| "wval (x # xs) = unat x + 2 ^ LENGTH('a) * wval xs"

lemma wval_bound: "wval xs < 2 ^ (LENGTH('a) * length (xs :: 'a::len word list))"
proof (induction xs)
  case Nil
  then show ?case by simp
next
  case (Cons x xs)
  let ?m = "(2::nat) ^ LENGTH('a)" and ?p = "(2::nat) ^ (LENGTH('a) * length xs)"
  from Cons.IH have "Suc (wval xs) \<le> ?p" by simp
  then have "?m * Suc (wval xs) \<le> ?m * ?p" by (rule mult_le_mono2)
  then have "unat x + ?m * wval xs < ?m * ?p"
    using unat_bound [of x] unfolding mult_Suc_right by linarith
  then show ?case by (simp add: power_add)
qed

lemma wval_append:
  "wval (xs @ ys) = wval xs + 2 ^ (LENGTH('a) * length xs) * wval (ys :: 'a::len word list)"
  by (induction xs) (simp_all add: power_add algebra_simps)

lemma wval_zeros [simp]: "wval (replicate n 0) = 0"
  by (induction n) auto

lemma wval_eq_0: "wval xs = 0 \<longleftrightarrow> (\<forall>x \<in> set xs. x = 0)"
  by (induction xs) (auto simp: unat_eq_0)

lemma wval_inj: "length xs = length ys \<Longrightarrow> wval xs = wval ys \<Longrightarrow> xs = ys"
proof (induction xs ys rule: list_induct2)
  case Nil
  then show ?case by simp
next
  case (Cons x xs y ys)
  from Cons.prems have e: "unat x + 2 ^ LENGTH('a) * wval xs = unat y + 2 ^ LENGTH('a) * wval ys" by simp
  then have "(unat x + 2 ^ LENGTH('a) * wval xs) mod 2 ^ LENGTH('a) =
      (unat y + 2 ^ LENGTH('a) * wval ys) mod 2 ^ LENGTH('a)" by (rule arg_cong)
  then have "unat x = unat y" by simp
  with e have "x = y" and "wval xs = wval ys" by (simp_all add: word_unat_eq_iff)
  then show ?case using Cons.IH by simp
qed

lemma bit_nat_iff_odd: "bit (n :: nat) i = odd (n div 2 ^ i)"
  by (rule bit_iff_odd)

lemma bit_digit_sum:
  fixes u v :: nat
  assumes "u < 2 ^ l"
  shows "bit (u + 2 ^ l * v) i = (if i < l then bit u i else bit v (i - l))"
proof (cases "i < l")
  case True
  define j where "j = l - i"
  from True have j: "0 < j" by (simp add: j_def)
  from True have "(2::nat) ^ i * 2 ^ j = 2 ^ l"
    by (simp only: j_def power_add [symmetric] le_add_diff_inverse less_imp_le)
  then have "(2::nat) ^ i * (2 ^ j * v) = 2 ^ l * v" by (simp only: mult.assoc [symmetric])
  then have "(u + 2 ^ l * v) div 2 ^ i = (u + 2 ^ i * (2 ^ j * v)) div 2 ^ i" by (simp only:)
  also have "\<dots> = 2 ^ j * v + u div 2 ^ i" by (rule div_mult_self2) simp
  finally have "odd ((u + 2 ^ l * v) div 2 ^ i) = odd (u div 2 ^ i)" using j by simp
  then show ?thesis using True by (simp add: bit_nat_iff_odd)
next
  case False
  then obtain j where j: "i = l + j" using le_Suc_ex not_less by blast
  have "(u + 2 ^ l * v) div 2 ^ l = v" using assms by simp
  then have "(u + 2 ^ l * v) div 2 ^ i = v div 2 ^ j"
    by (simp add: j power_add div_mult2_eq)
  then show ?thesis using False j by (simp add: bit_nat_iff_odd)
qed

lemma bit_wval:
  "bit (wval (xs :: 'a::len word list)) i =
     (i div LENGTH('a) < length xs \<and> bit (xs ! (i div LENGTH('a))) (i mod LENGTH('a)))"
proof (induction xs arbitrary: i)
  case Nil
  then show ?case by simp
next
  case (Cons x xs)
  have step: "bit (wval (x # xs)) i =
      (if i < LENGTH('a) then bit (unat x) i else bit (wval xs) (i - LENGTH('a)))"
    unfolding wval.simps by (rule bit_digit_sum) simp
  show ?case
  proof (cases "i < LENGTH('a)")
    case True
    then show ?thesis unfolding step by (simp add: bit_unsigned_iff)
  next
    case False
    then obtain j where j: "i = LENGTH('a) + j" using le_Suc_ex not_less by blast
    then have "i div LENGTH('a) = Suc (j div LENGTH('a))" and "i mod LENGTH('a) = j mod LENGTH('a)"
      by (simp_all add: div_add_self1)
    then show ?thesis unfolding step using False j by (simp add: Cons.IH)
  qed
qed

section \<open>Bit length\<close>

fun bit_length :: "nat \<Rightarrow> nat" where
  "bit_length n = (if n = 0 then 0 else Suc (bit_length (n div 2)))"

declare bit_length.simps [simp del]

lemma bit_length_0 [simp]: "bit_length 0 = 0"
  by (simp add: bit_length.simps)

lemma bit_length_bounds: "n < 2 ^ bit_length n \<and> (0 < n \<longrightarrow> 2 ^ (bit_length n - 1) \<le> n \<and> 0 < bit_length n)"
proof (induction n rule: bit_length.induct)
  case (1 n)
  show ?case
  proof (cases "n = 0")
    case False
    then have l: "bit_length n = Suc (bit_length (n div 2))" by (subst bit_length.simps) simp
    show ?thesis
    proof (cases "n div 2 = 0")
      case True
      with False have "n = 1" by auto
      then show ?thesis by (simp add: bit_length.simps)
    next
      case F: False
      with 1 [OF False] obtain k where "bit_length (n div 2) = Suc k" by (auto simp: gr0_conv_Suc)
      with 1 [OF False] F show ?thesis by (auto simp: l)
    qed
  qed simp
qed

lemma less_bit_length: "n < 2 ^ bit_length n"
  using bit_length_bounds by blast

lemma bit_length_le: "0 < n \<Longrightarrow> 2 ^ (bit_length n - 1) \<le> n"
  using bit_length_bounds by blast

lemma bit_length_eq_0 [simp]: "bit_length n = 0 \<longleftrightarrow> n = 0"
  by (subst bit_length.simps) simp

lemma bit_length_le_iff: "bit_length n \<le> b \<longleftrightarrow> n < 2 ^ b"
proof
  assume "bit_length n \<le> b"
  then have "(2::nat) ^ bit_length n \<le> 2 ^ b" by simp
  with less_bit_length [of n] show "n < 2 ^ b" by linarith
next
  assume n: "n < 2 ^ b"
  show "bit_length n \<le> b"
  proof (cases "n = 0")
    case False
    with n bit_length_le [of n] have "(2::nat) ^ (bit_length n - 1) < 2 ^ b" by linarith
    then show ?thesis by simp
  qed simp
qed

lemma bit_length_eqI: "2 ^ b \<le> n \<Longrightarrow> n < 2 ^ Suc b \<Longrightarrow> bit_length n = Suc b"
  by (meson bit_length_le_iff le_antisym not_less not_less_eq_eq)

end
