(* ===== verification/Endian.thy ===== *)
theory Endian
  imports Prelude
begin

text \<open>
  Byte order (src/include/chain/endian.hpp).  A buffer is a list of bytes and a pointer into it is
  the remaining list, so \<open>ReadLE32 (drop k d)\<close> is \<open>endian::ReadLE32(d + k)\<close>.  The accessors
  copy the bytes of a native integer and swap them on a big-endian host; the host's byte order is
  the argument \<open>native\<close>, and the first group of lemmas shows that it does not matter.
\<close>

section \<open>Little- and big-endian values of byte lists\<close>

primrec le_bytes :: "nat \<Rightarrow> 'a::len word \<Rightarrow> byte list" where
  "le_bytes 0 w = []"
| "le_bytes (Suc n) w = ucast w # le_bytes n (drop_bit 8 w)"

abbreviation le_nat :: "byte list \<Rightarrow> nat" where
  "le_nat bs \<equiv> wval bs"

definition le_word :: "byte list \<Rightarrow> 'a::len word" where
  "le_word bs = of_nat (le_nat bs)"

lemma unat_le_word: "le_nat bs < 2 ^ LENGTH('a) \<Longrightarrow> unat (le_word bs :: 'a::len word) = le_nat bs"
  by (simp add: le_word_def unat_of_nat)

lemma length_le_bytes [simp, codec]: "length (le_bytes n w) = n"
  by (induction n arbitrary: w) auto

lemma le_nat_bound: "le_nat bs < 256 ^ length bs"
  using wval_bound [of bs] by (simp add: power_mult)

lemma le_nat_le_bytes [codec]: "le_nat (le_bytes n w) = unat w mod 256 ^ n"
proof (induction n arbitrary: w)
  case 0
  then show ?case by simp
next
  case (Suc n)
  have "unat w mod (256 * 256 ^ n) = 256 * (unat w div 256 mod 256 ^ n) + unat w mod 256"
    by (rule mod_mult2_eq)
  then show ?case
    by (simp add: Suc.IH unat_ucast_down unat_drop_bit)
qed

lemma le_word_le_bytes [codec]:
  "LENGTH('a) \<le> 8 * n \<Longrightarrow> le_word (le_bytes n w) = (w :: 'a::len word)"
proof -
  assume "LENGTH('a) \<le> 8 * n"
  then have "(2::nat) ^ LENGTH('a) \<le> 2 ^ (8 * n)" by (rule power_increasing) simp
  also have "(2::nat) ^ (8 * n) = 256 ^ n" by (simp add: power_mult)
  finally have "unat w < 256 ^ n" using unat_bound [of w] by linarith
  then show ?thesis by (simp add: le_word_def le_nat_le_bytes)
qed

lemma le_bytes_le_nat: "length bs = n \<Longrightarrow> 8 * n \<le> LENGTH('a) \<Longrightarrow>
    le_bytes n (le_word bs :: 'a::len word) = bs"
proof (induction bs arbitrary: n)
  case Nil
  then show ?case by simp
next
  case (Cons b bs)
  then obtain m where m: "n = Suc m" "length bs = m" by auto
  let ?w = "le_word (b # bs) :: 'a word"
  have "le_nat (b # bs) < 256 ^ n" using le_nat_bound [of "b # bs"] Cons.prems by auto
  also have "(256::nat) ^ n = 2 ^ (8 * n)" by (simp add: power_mult)
  also have "(2::nat) ^ (8 * n) \<le> 2 ^ LENGTH('a)" using Cons.prems by (intro power_increasing) auto
  finally have uw: "unat ?w = unat b + 256 * le_nat bs"
    by (subst unat_le_word) simp_all
  have "ucast ?w = b"
    by (rule word_eq_unatI) (simp add: unat_ucast_down uw)
  moreover have "drop_bit 8 ?w = le_word bs"
  proof (rule word_eq_unatI)
    have "le_nat bs \<le> unat ?w" using uw by simp
    then have "le_nat bs < 2 ^ LENGTH('a)"
      using unat_bound [of ?w] by linarith
    then show "unat (drop_bit 8 ?w) = unat (le_word bs :: 'a word)"
      by (simp add: unat_drop_bit uw unat_le_word)
  qed
  ultimately show ?case using Cons.IH [of m] Cons.prems m by simp
qed

lemma bit_le_word:
  "bit (le_word bs :: 'a::len word) i =
     (i < LENGTH('a) \<and> i div 8 < length bs \<and> bit (bs ! (i div 8)) (i mod 8))"
  by (simp add: le_word_def bit_of_nat_iff bit_wval)

lemma nth_le_bytes: "i < n \<Longrightarrow> le_bytes n w ! i = ucast (drop_bit (8 * i) w)"
proof (induction n arbitrary: w i)
  case 0
  then show ?case by simp
next
  case (Suc n)
  then show ?case by (cases i) (simp_all add: add.commute)
qed

section \<open>Accessors\<close>

datatype native = Little | Big

text \<open>\<open>std::memcpy\<close> from a buffer into an integer of n bytes, and back, on a given host.\<close>

definition load :: "native \<Rightarrow> nat \<Rightarrow> byte list \<Rightarrow> 'a::len word" where
  "load ne n p = le_word (case ne of Little \<Rightarrow> take n p | Big \<Rightarrow> rev (take n p))"

definition store :: "native \<Rightarrow> nat \<Rightarrow> 'a::len word \<Rightarrow> byte list" where
  "store ne n v = (case ne of Little \<Rightarrow> le_bytes n v | Big \<Rightarrow> rev (le_bytes n v))"

definition byteswap16 :: "u16 \<Rightarrow> u16" where
  "byteswap16 x = drop_bit 8 x OR push_bit 8 x"

definition byteswap32 :: "u32 \<Rightarrow> u32" where
  "byteswap32 x =
     (drop_bit 24 x AND 0x000000FF) OR (drop_bit 8 x AND 0x0000FF00) OR
     (push_bit 8 x AND 0x00FF0000) OR (push_bit 24 x AND 0xFF000000)"

definition byteswap64 :: "u64 \<Rightarrow> u64" where
  "byteswap64 x =
     (drop_bit 56 x AND 0x00000000000000FF) OR
     (drop_bit 40 x AND 0x000000000000FF00) OR
     (drop_bit 24 x AND 0x0000000000FF0000) OR
     (drop_bit 8 x AND 0x00000000FF000000) OR
     (push_bit 8 x AND 0x000000FF00000000) OR
     (push_bit 24 x AND 0x0000FF0000000000) OR
     (push_bit 40 x AND 0x00FF000000000000) OR
     (push_bit 56 x AND 0xFF00000000000000)"

definition ReadLE16 :: "native \<Rightarrow> byte list \<Rightarrow> u16" where
  "ReadLE16 ne p = (let r = load ne 2 p in if ne = Big then byteswap16 r else r)"

definition ReadLE32 :: "native \<Rightarrow> byte list \<Rightarrow> u32" where
  "ReadLE32 ne p = (let r = load ne 4 p in if ne = Big then byteswap32 r else r)"

definition ReadLE64 :: "native \<Rightarrow> byte list \<Rightarrow> u64" where
  "ReadLE64 ne p = (let r = load ne 8 p in if ne = Big then byteswap64 r else r)"

definition WriteLE16 :: "native \<Rightarrow> u16 \<Rightarrow> byte list" where
  "WriteLE16 ne v = store ne 2 (if ne = Big then byteswap16 v else v)"

definition WriteLE32 :: "native \<Rightarrow> u32 \<Rightarrow> byte list" where
  "WriteLE32 ne v = store ne 4 (if ne = Big then byteswap32 v else v)"

definition WriteLE64 :: "native \<Rightarrow> u64 \<Rightarrow> byte list" where
  "WriteLE64 ne v = store ne 8 (if ne = Big then byteswap64 v else v)"

definition ReadBE16 :: "native \<Rightarrow> byte list \<Rightarrow> u16" where
  "ReadBE16 ne p = (let r = load ne 2 p in if ne = Little then byteswap16 r else r)"

definition ReadBE32 :: "native \<Rightarrow> byte list \<Rightarrow> u32" where
  "ReadBE32 ne p = (let r = load ne 4 p in if ne = Little then byteswap32 r else r)"

definition ReadBE64 :: "native \<Rightarrow> byte list \<Rightarrow> u64" where
  "ReadBE64 ne p = (let r = load ne 8 p in if ne = Little then byteswap64 r else r)"

definition WriteBE16 :: "native \<Rightarrow> u16 \<Rightarrow> byte list" where
  "WriteBE16 ne v = store ne 2 (if ne = Little then byteswap16 v else v)"

definition WriteBE32 :: "native \<Rightarrow> u32 \<Rightarrow> byte list" where
  "WriteBE32 ne v = store ne 4 (if ne = Little then byteswap32 v else v)"

definition WriteBE64 :: "native \<Rightarrow> u64 \<Rightarrow> byte list" where
  "WriteBE64 ne v = store ne 8 (if ne = Little then byteswap64 v else v)"

section \<open>The host's byte order does not matter\<close>

lemma byte_position: "i < 8 * n \<Longrightarrow> \<exists>k r. i = 8 * k + r \<and> k < n \<and> r < (8::nat)"
  by (rule exI [of _ "i div 8"], rule exI [of _ "i mod 8"]) auto

text \<open>The byte masks of the sources as shifted masks, whose bits the simplifier knows.\<close>

lemma byte_masks32:
  "(0x000000FF :: u32) = mask 8" "(0x0000FF00 :: u32) = push_bit 8 (mask 8)"
  "(0x00FF0000 :: u32) = push_bit 16 (mask 8)" "(0xFF000000 :: u32) = push_bit 24 (mask 8)"
  by (simp_all add: mask_eq_exp_minus_1 push_bit_eq_mult)

lemma byte_masks64:
  "(0x00000000000000FF :: u64) = mask 8" "(0x000000000000FF00 :: u64) = push_bit 8 (mask 8)"
  "(0x0000000000FF0000 :: u64) = push_bit 16 (mask 8)" "(0x00000000FF000000 :: u64) = push_bit 24 (mask 8)"
  "(0x000000FF00000000 :: u64) = push_bit 32 (mask 8)" "(0x0000FF0000000000 :: u64) = push_bit 40 (mask 8)"
  "(0x00FF000000000000 :: u64) = push_bit 48 (mask 8)" "(0xFF00000000000000 :: u64) = push_bit 56 (mask 8)"
  by (simp_all add: mask_eq_exp_minus_1 push_bit_eq_mult)

lemma byte_div:
  assumes "r < (8::nat)"
  shows "(8 + r) div 8 = 1" "(16 + r) div 8 = 2" "(24 + r) div 8 = 3" "(32 + r) div 8 = 4"
    "(40 + r) div 8 = 5" "(48 + r) div 8 = 6" "(56 + r) div 8 = 7"
  using assms by linarith+

lemma byte_mod:
  assumes "r < (8::nat)"
  shows "(8 + r) mod 8 = r" "(16 + r) mod 8 = r" "(24 + r) mod 8 = r" "(32 + r) mod 8 = r"
    "(40 + r) mod 8 = r" "(48 + r) mod 8 = r" "(56 + r) mod 8 = r"
  using assms by presburger+

lemmas swap_bits = bit_le_word byte_div byte_mod rev_nth bit_simps

lemma byteswap16_rev: "length bs = 2 \<Longrightarrow> byteswap16 (le_word (rev bs)) = le_word bs"
proof (rule bit_word_eqI)
  fix i assume l: "length bs = 2" and "i < LENGTH(16)"
  then obtain k r where i: "i = 8 * k + r" and r: "r < 8" and "k < 2"
    using byte_position [of i 2] by auto
  from this(3) consider "k = 0" | "k = 1" by linarith
  then show "bit (byteswap16 (le_word (rev bs))) i = bit (le_word bs :: u16) i"
    by cases (use l i r in \<open>simp_all add: byteswap16_def swap_bits\<close>)
qed

lemma byteswap32_rev: "length bs = 4 \<Longrightarrow> byteswap32 (le_word (rev bs)) = le_word bs"
proof (rule bit_word_eqI)
  fix i assume l: "length bs = 4" and "i < LENGTH(32)"
  then obtain k r where i: "i = 8 * k + r" and r: "r < 8" and "k < 4"
    using byte_position [of i 4] by auto
  from this(3) consider "k = 0" | "k = 1" | "k = 2" | "k = 3" by linarith
  then show "bit (byteswap32 (le_word (rev bs))) i = bit (le_word bs :: u32) i"
    by cases (use l i r in \<open>simp_all only: byteswap32_def byte_masks32\<close>,
      use l i r in \<open>simp_all add: swap_bits\<close>)
qed

lemma byteswap64_rev: "length bs = 8 \<Longrightarrow> byteswap64 (le_word (rev bs)) = le_word bs"
proof (rule bit_word_eqI)
  fix i assume l: "length bs = 8" and "i < LENGTH(64)"
  then obtain k r where i: "i = 8 * k + r" and r: "r < 8" and "k < 8"
    using byte_position [of i 8] by auto
  from this(3) consider "k = 0" | "k = 1" | "k = 2" | "k = 3" | "k = 4" | "k = 5" | "k = 6" | "k = 7"
    by linarith
  then show "bit (byteswap64 (le_word (rev bs))) i = bit (le_word bs :: u64) i"
    by cases (use l i r in \<open>simp_all only: byteswap64_def byte_masks64\<close>,
      use l i r in \<open>simp_all add: swap_bits\<close>)
qed

lemma le_bytes_swap:
  assumes "\<And>bs. length bs = n \<Longrightarrow> swap (le_word (rev bs)) = (le_word bs :: 'a::len word)"
    and "LENGTH('a) = 8 * n"
  shows "le_bytes n (swap v) = rev (le_bytes n (v :: 'a word))"
proof -
  have "swap v = swap (le_word (rev (rev (le_bytes n v))))" using assms(2) by (simp add: codec)
  also have "\<dots> = le_word (rev (le_bytes n v))" by (rule assms(1)) simp
  finally show ?thesis using assms(2) by (simp add: le_bytes_le_nat)
qed

lemmas swap_simps =
  le_bytes_swap [of 2 byteswap16, OF byteswap16_rev, simplified]
  le_bytes_swap [of 4 byteswap32, OF byteswap32_rev, simplified]
  le_bytes_swap [of 8 byteswap64, OF byteswap64_rev, simplified]
  byteswap16_rev byteswap32_rev byteswap64_rev

lemmas swap_rev =
  byteswap16_rev [of "rev _", simplified] byteswap32_rev [of "rev _", simplified]
  byteswap64_rev [of "rev _", simplified]

lemma WriteLE_bytes [codec]:
  "WriteLE16 ne v2 = le_bytes 2 v2" "WriteLE32 ne v4 = le_bytes 4 v4" "WriteLE64 ne v8 = le_bytes 8 v8"
  by (cases ne; simp add: WriteLE16_def WriteLE32_def WriteLE64_def store_def swap_simps)+

lemma WriteBE_bytes [codec]:
  "WriteBE16 ne v2 = rev (le_bytes 2 v2)" "WriteBE32 ne v4 = rev (le_bytes 4 v4)"
  "WriteBE64 ne v8 = rev (le_bytes 8 v8)"
  by (cases ne; simp add: WriteBE16_def WriteBE32_def WriteBE64_def store_def swap_simps)+

lemma ReadLE_word [codec]:
  "2 \<le> length p \<Longrightarrow> ReadLE16 ne p = le_word (take 2 p)"
  "4 \<le> length p \<Longrightarrow> ReadLE32 ne p = le_word (take 4 p)"
  "8 \<le> length p \<Longrightarrow> ReadLE64 ne p = le_word (take 8 p)"
  by (cases ne; simp add: ReadLE16_def ReadLE32_def ReadLE64_def load_def swap_simps)+

lemma ReadBE_word [codec]:
  "2 \<le> length p \<Longrightarrow> ReadBE16 ne p = le_word (rev (take 2 p))"
  "4 \<le> length p \<Longrightarrow> ReadBE32 ne p = le_word (rev (take 4 p))"
  "8 \<le> length p \<Longrightarrow> ReadBE64 ne p = le_word (rev (take 8 p))"
  by (cases ne; simp add: ReadBE16_def ReadBE32_def ReadBE64_def load_def swap_rev)+

section \<open>Properties\<close>

text \<open>
  Host independence: a value written on one host and read on another is the value, for every
  width and both byte orders, whatever the two hosts' native orders are.
\<close>

theorem endian_cross_host:
  "ReadLE16 host2 (WriteLE16 host1 v16 @ rest) = v16 \<and>
   ReadLE32 host2 (WriteLE32 host1 v32 @ rest) = v32 \<and>
   ReadLE64 host2 (WriteLE64 host1 v64 @ rest) = v64 \<and>
   ReadBE16 host2 (WriteBE16 host1 v16 @ rest) = v16 \<and>
   ReadBE32 host2 (WriteBE32 host1 v32 @ rest) = v32 \<and>
   ReadBE64 host2 (WriteBE64 host1 v64 @ rest) = v64"
  by (simp add: ReadLE_word ReadBE_word WriteLE_bytes WriteBE_bytes le_word_le_bytes)

end
