(* ===== verification/Blob.thy ===== *)
theory Blob
  imports Endian
begin

text \<open>
  Opaque fixed-size blobs \<open>base_blob\<close>, \<open>uint160\<close> and \<open>uint256\<close>
  (src/include/util/uint.hpp, src/src/util/uint.cpp).  A blob is its byte array \<open>m_data\<close>; the
  array's static size is the predicate \<open>is_uint256\<close> (or \<open>is_uint160\<close>).  C strings are
  character lists: reading past the end yields the terminator, which is no hex digit.
\<close>

type_synonym blob = "byte list"
type_synonym uint256 = blob
type_synonym uint160 = blob

definition is_uint256 :: "blob \<Rightarrow> bool" where "is_uint256 b \<longleftrightarrow> length b = 32"
definition is_uint160 :: "blob \<Rightarrow> bool" where "is_uint160 b \<longleftrightarrow> length b = 20"

definition blob_SetNull :: "nat \<Rightarrow> blob" where
  "blob_SetNull WIDTH = replicate WIDTH 0"

definition blob_IsNull :: "blob \<Rightarrow> bool" where
  "blob_IsNull b = list_all (\<lambda>v. v = 0) b"

definition blob_of_byte :: "nat \<Rightarrow> byte \<Rightarrow> blob" where
  "blob_of_byte WIDTH v = v # replicate (WIDTH - 1) 0"

definition uint256_ZERO :: uint256 where "uint256_ZERO = blob_of_byte 32 0"
definition uint256_ONE :: uint256 where "uint256_ONE = blob_of_byte 32 1"

fun memcmp :: "byte list \<Rightarrow> byte list \<Rightarrow> int" where
  "memcmp (a # as) (b # bs) = (if a = b then memcmp as bs else uint a - uint b)"
| "memcmp _ _ = 0"

definition blob_Compare :: "blob \<Rightarrow> blob \<Rightarrow> int" where
  "blob_Compare a b = memcmp a b"

definition blob_eq :: "blob \<Rightarrow> blob \<Rightarrow> bool" where
  "blob_eq a b = (blob_Compare a b = 0)"

definition blob_less :: "blob \<Rightarrow> blob \<Rightarrow> bool" where
  "blob_less a b = (blob_Compare a b < 0)"

definition GetUint64 :: "blob \<Rightarrow> nat \<Rightarrow> u64" where
  "GetUint64 b pos = ReadLE64 Little (drop (pos * 8) b)"

definition GetUint32 :: "blob \<Rightarrow> nat \<Rightarrow> u32" where
  "GetUint32 b pos = ReadLE32 Little (drop (pos * 4) b)"

section \<open>Hexadecimal\<close>

definition HexDigit :: "char \<Rightarrow> int" where
  "HexDigit c =
     (let n = of_char c :: nat in
      if 48 \<le> n \<and> n \<le> 57 then int n - 48
      else if 97 \<le> n \<and> n \<le> 102 then int n - 97 + 10
      else if 65 \<le> n \<and> n \<le> 70 then int n - 65 + 10
      else -1)"

text \<open>One byte printed by \<open>std::hex\<close> with \<open>setw(2)\<close> and fill character 0.\<close>

definition hex_char :: "nat \<Rightarrow> char" where
  "hex_char n = (if n < 10 then char_of (48 + n) else char_of (87 + n))"

definition hex_byte :: "byte \<Rightarrow> string" where
  "hex_byte b = [hex_char (unat b div 16), hex_char (unat b mod 16)]"

definition GetHex :: "blob \<Rightarrow> string" where
  "GetHex b = concat (map hex_byte (rev b))"

text \<open>
  The loop of \<open>SetHex\<close> walks the digits backwards, two per byte, until the digits or the
  blob run out; what is left of the blob stays null.
\<close>

fun hex_fill :: "nat \<Rightarrow> char list \<Rightarrow> blob" where
  "hex_fill 0 ds = []"
| "hex_fill (Suc n) [] = 0 # hex_fill n []"
| "hex_fill (Suc n) [d] = of_int (HexDigit d) # hex_fill n []"
| "hex_fill (Suc n) (d # e # ds) =
     (of_int (HexDigit d) OR push_bit 4 (of_int (HexDigit e))) # hex_fill n ds"

definition SetHex :: "nat \<Rightarrow> string \<Rightarrow> blob" where
  "SetHex WIDTH psz =
     (let digits = (case psz of
            c0 # c1 # r \<Rightarrow> if c0 = CHR ''0'' \<and> (c1 = CHR ''x'' \<or> c1 = CHR ''X'') then r else psz
          | _ \<Rightarrow> psz)
      in hex_fill WIDTH (rev (takeWhile (\<lambda>c. HexDigit c \<noteq> -1) digits)))"

definition uint256S :: "string \<Rightarrow> uint256" where
  "uint256S str = SetHex 32 str"

section \<open>Laws\<close>

lemma memcmp_eq0: "length a = length b \<Longrightarrow> memcmp a b = 0 \<longleftrightarrow> a = b"
  by (induction a b rule: memcmp.induct) (auto simp: word_uint_eq_iff)

lemma memcmp_less0: "length a = length b \<Longrightarrow> memcmp a b < 0 \<longleftrightarrow> a < b"
  by (induction a b rule: memcmp.induct) (auto simp: word_less_def)

lemma blob_eq_iff: "length a = length b \<Longrightarrow> blob_eq a b \<longleftrightarrow> a = b"
  by (simp add: blob_eq_def blob_Compare_def memcmp_eq0)

lemma blob_less_iff: "length a = length b \<Longrightarrow> blob_less a b \<longleftrightarrow> a < b"
  by (simp add: blob_less_def blob_Compare_def memcmp_less0)

lemma blob_IsNull_iff: "blob_IsNull b \<longleftrightarrow> b = replicate (length b) 0"
  by (induction b) (auto simp: blob_IsNull_def)

lemma blob_IsNull_SetNull [simp]: "blob_IsNull (blob_SetNull n)"
  by (simp add: blob_IsNull_def blob_SetNull_def list_all_iff)

lemma length_hex_fill [simp, codec]: "length (hex_fill n ds) = n"
  by (induction n ds rule: hex_fill.induct) auto

lemma length_SetHex [simp, codec]: "length (SetHex n s) = n"
  by (simp add: SetHex_def)

lemma of_char_hex_char: "n < 16 \<Longrightarrow> of_char (hex_char n) = (if n < 10 then 48 + n else 87 + n)"
  by (simp add: hex_char_def)

lemma HexDigit_hex_char: "n < 16 \<Longrightarrow> HexDigit (hex_char n) = int n"
  by (simp add: HexDigit_def of_char_hex_char)

lemma hex_char_not_x: "n < 16 \<Longrightarrow> hex_char n \<noteq> CHR ''x'' \<and> hex_char n \<noteq> CHR ''X''"
proof -
  assume n: "n < 16"
  have "of_char (CHR ''x'') = (120::nat)" "of_char (CHR ''X'') = (88::nat)" by simp_all
  with of_char_hex_char [OF n] n show ?thesis by (auto split: if_splits)
qed

lemma high_nibble [simp]: "unat (b :: byte) div 16 < 16"
  using unat_byte_bound [of b] by (simp add: div_less_iff_less_mult)

lemma nibbles_join:
  "(of_nat (unat b mod 16) OR push_bit 4 (of_nat (unat b div 16))) = (b :: byte)"
proof -
  have "of_nat (unat b mod 16) = take_bit 4 b"
    by (rule word_eq_unatI) (simp add: unat_of_nat unsigned_take_bit_eq take_bit_eq_mod [where ?'a = nat])
  moreover have "of_nat (unat b div 16) = drop_bit 4 b"
    by (intro word_eq_unatI) (simp add: unat_of_nat unat_drop_bit mod_less [OF less_trans [OF high_nibble]])
  moreover have "take_bit 4 b OR push_bit 4 (drop_bit 4 b) = b"
  proof (rule bit_word_eqI)
    fix n show "bit (take_bit 4 b OR push_bit 4 (drop_bit 4 b)) n = bit b n" if "n < LENGTH(8)"
      using that by (cases "n < 4") (simp_all add: bit_simps)
  qed
  ultimately show ?thesis by simp
qed

lemma hex_fill_bytes: "hex_fill (length b) (concat (map (\<lambda>x. rev (hex_byte x)) b)) = b"
proof (induction b)
  case Nil
  then show ?case by simp
next
  case (Cons x b)
  then show ?case by (simp add: hex_byte_def HexDigit_hex_char nibbles_join)
qed

lemma GetHex_digits: "c \<in> set (GetHex b) \<Longrightarrow> HexDigit c \<noteq> -1 \<and> c \<noteq> CHR ''x'' \<and> c \<noteq> CHR ''X''"
  by (auto simp: GetHex_def hex_byte_def HexDigit_hex_char hex_char_not_x)

lemma SetHex_GetHex [codec]: "length b = n \<Longrightarrow> SetHex n (GetHex b) = b"
proof -
  assume n: "length b = n"
  have skip: "(case GetHex b of c0 # c1 # r \<Rightarrow>
      if c0 = CHR ''0'' \<and> (c1 = CHR ''x'' \<or> c1 = CHR ''X'') then r else GetHex b | _ \<Rightarrow> GetHex b) = GetHex b"
    using GetHex_digits [of _ b] by (auto split: list.splits)
  have "takeWhile (\<lambda>c. HexDigit c \<noteq> -1) (GetHex b) = GetHex b"
    using GetHex_digits [of _ b] by (simp add: takeWhile_eq_all_conv)
  moreover have "rev (GetHex b) = concat (map (\<lambda>x. rev (hex_byte x)) b)"
    by (simp add: GetHex_def rev_concat rev_map [symmetric] comp_def)
  ultimately show ?thesis unfolding SetHex_def Let_def skip using n hex_fill_bytes [of b] by (simp only:)
qed

lemma length_GetHex: "length (GetHex b) = 2 * length b"
  by (induction b) (simp_all add: GetHex_def hex_byte_def)

section \<open>Properties\<close>

text \<open>
  Hex round trip: \<open>uint256S\<close> reads back every hash printed by \<open>GetHex\<close> (byte-reversed, two digits
  per byte), so the text form of a hash determines it.
\<close>

theorem hex_roundtrip: "is_uint256 h \<Longrightarrow> uint256S (GetHex h) = h"
  by (simp add: is_uint256_def uint256S_def SetHex_GetHex)

theorem hex_roundtrip_witness:
  "is_uint256 (1 # replicate 31 0xab) \<and> uint256S (GetHex (1 # replicate 31 0xab)) = 1 # replicate 31 0xab"
  using hex_roundtrip [of "1 # replicate 31 0xab"] by (simp add: is_uint256_def)

end
