(* ===== verification/Sha256.thy ===== *)
theory Sha256
  imports Blob
begin

text \<open>
  The SHA-256 hasher (src/util/sha256.cpp, include/util/sha256.hpp).  \<open>Transform_block\<close> is the body of
  the loop of \<open>sha256::Transform\<close>, all 64 rounds written out with the sixteen rolling schedule words
  as the source has them; \<open>Write\<close> and \<open>Finalize\<close> keep the 64-byte buffer and the byte counter.
  The reference is the textbook function: expand the schedule to 64 words, fold the round function
  over it, pad the whole message.  The unrolled code and the streaming interface are shown to compute
  it.  The vectorised back ends behind \<open>SHA256AutoDetect\<close> are not modelled.
\<close>

section \<open>The compression function\<close>

definition Ch :: "u32 \<Rightarrow> u32 \<Rightarrow> u32 \<Rightarrow> u32" where
  "Ch x y z = z XOR (x AND (y XOR z))"

definition Maj :: "u32 \<Rightarrow> u32 \<Rightarrow> u32 \<Rightarrow> u32" where
  "Maj x y z = (x AND y) OR (z AND (x OR y))"

definition Sigma0 :: "u32 \<Rightarrow> u32" where
  "Sigma0 x = (drop_bit 2 x OR push_bit 30 x) XOR (drop_bit 13 x OR push_bit 19 x)
     XOR (drop_bit 22 x OR push_bit 10 x)"

definition Sigma1 :: "u32 \<Rightarrow> u32" where
  "Sigma1 x = (drop_bit 6 x OR push_bit 26 x) XOR (drop_bit 11 x OR push_bit 21 x)
     XOR (drop_bit 25 x OR push_bit 7 x)"

definition sigma0 :: "u32 \<Rightarrow> u32" where
  "sigma0 x = (drop_bit 7 x OR push_bit 25 x) XOR (drop_bit 18 x OR push_bit 14 x) XOR drop_bit 3 x"

definition sigma1 :: "u32 \<Rightarrow> u32" where
  "sigma1 x = (drop_bit 17 x OR push_bit 15 x) XOR (drop_bit 19 x OR push_bit 13 x) XOR drop_bit 10 x"

text \<open>\<open>Round\<close> returns the two registers it updates by reference, \<open>(d, h)\<close>.\<close>

definition Round :: "u32 \<Rightarrow> u32 \<Rightarrow> u32 \<Rightarrow> u32 \<Rightarrow> u32 \<Rightarrow> u32 \<Rightarrow> u32 \<Rightarrow> u32 \<Rightarrow> u32 \<Rightarrow> u32 \<times> u32" where
  "Round a b c d e f g h k =
     (let t1 = h + Sigma1 e + Ch e f g + k;
          t2 = Sigma0 a + Maj a b c
      in (d + t1, t1 + t2))"

definition Initialize_sha :: "u32 list" where
  "Initialize_sha = [0x6a09e667, 0xbb67ae85, 0x3c6ef372, 0xa54ff53a,
     0x510e527f, 0x9b05688c, 0x1f83d9ab, 0x5be0cd19]"

definition Transform_block :: "u32 list \<Rightarrow> byte list \<Rightarrow> u32 list" where
  "Transform_block s chunk = (case s of [s0, s1, s2, s3, s4, s5, s6, s7] \<Rightarrow>
     (let a = s0; b = s1; c = s2; d = s3; e = s4; f = s5; g = s6; h = s7;
        w0 = ReadBE32 Little (drop 0 chunk);
        (d, h) = Round a b c d e f g h (0x428a2f98 + w0);
        w1 = ReadBE32 Little (drop 4 chunk);
        (c, g) = Round h a b c d e f g (0x71374491 + w1);
        w2 = ReadBE32 Little (drop 8 chunk);
        (b, f) = Round g h a b c d e f (0xb5c0fbcf + w2);
        w3 = ReadBE32 Little (drop 12 chunk);
        (a, e) = Round f g h a b c d e (0xe9b5dba5 + w3);
        w4 = ReadBE32 Little (drop 16 chunk);
        (h, d) = Round e f g h a b c d (0x3956c25b + w4);
        w5 = ReadBE32 Little (drop 20 chunk);
        (g, c) = Round d e f g h a b c (0x59f111f1 + w5);
        w6 = ReadBE32 Little (drop 24 chunk);
        (f, b) = Round c d e f g h a b (0x923f82a4 + w6);
        w7 = ReadBE32 Little (drop 28 chunk);
        (e, a) = Round b c d e f g h a (0xab1c5ed5 + w7);
        w8 = ReadBE32 Little (drop 32 chunk);
        (d, h) = Round a b c d e f g h (0xd807aa98 + w8);
        w9 = ReadBE32 Little (drop 36 chunk);
        (c, g) = Round h a b c d e f g (0x12835b01 + w9);
        w10 = ReadBE32 Little (drop 40 chunk);
        (b, f) = Round g h a b c d e f (0x243185be + w10);
        w11 = ReadBE32 Little (drop 44 chunk);
        (a, e) = Round f g h a b c d e (0x550c7dc3 + w11);
        w12 = ReadBE32 Little (drop 48 chunk);
        (h, d) = Round e f g h a b c d (0x72be5d74 + w12);
        w13 = ReadBE32 Little (drop 52 chunk);
        (g, c) = Round d e f g h a b c (0x80deb1fe + w13);
        w14 = ReadBE32 Little (drop 56 chunk);
        (f, b) = Round c d e f g h a b (0x9bdc06a7 + w14);
        w15 = ReadBE32 Little (drop 60 chunk);
        (e, a) = Round b c d e f g h a (0xc19bf174 + w15);
        w0 = w0 + (sigma1 w14 + w9 + sigma0 w1);
        (d, h) = Round a b c d e f g h (0xe49b69c1 + w0);
        w1 = w1 + (sigma1 w15 + w10 + sigma0 w2);
        (c, g) = Round h a b c d e f g (0xefbe4786 + w1);
        w2 = w2 + (sigma1 w0 + w11 + sigma0 w3);
        (b, f) = Round g h a b c d e f (0x0fc19dc6 + w2);
        w3 = w3 + (sigma1 w1 + w12 + sigma0 w4);
        (a, e) = Round f g h a b c d e (0x240ca1cc + w3);
        w4 = w4 + (sigma1 w2 + w13 + sigma0 w5);
        (h, d) = Round e f g h a b c d (0x2de92c6f + w4);
        w5 = w5 + (sigma1 w3 + w14 + sigma0 w6);
        (g, c) = Round d e f g h a b c (0x4a7484aa + w5);
        w6 = w6 + (sigma1 w4 + w15 + sigma0 w7);
        (f, b) = Round c d e f g h a b (0x5cb0a9dc + w6);
        w7 = w7 + (sigma1 w5 + w0 + sigma0 w8);
        (e, a) = Round b c d e f g h a (0x76f988da + w7);
        w8 = w8 + (sigma1 w6 + w1 + sigma0 w9);
        (d, h) = Round a b c d e f g h (0x983e5152 + w8);
        w9 = w9 + (sigma1 w7 + w2 + sigma0 w10);
        (c, g) = Round h a b c d e f g (0xa831c66d + w9);
        w10 = w10 + (sigma1 w8 + w3 + sigma0 w11);
        (b, f) = Round g h a b c d e f (0xb00327c8 + w10);
        w11 = w11 + (sigma1 w9 + w4 + sigma0 w12);
        (a, e) = Round f g h a b c d e (0xbf597fc7 + w11);
        w12 = w12 + (sigma1 w10 + w5 + sigma0 w13);
        (h, d) = Round e f g h a b c d (0xc6e00bf3 + w12);
        w13 = w13 + (sigma1 w11 + w6 + sigma0 w14);
        (g, c) = Round d e f g h a b c (0xd5a79147 + w13);
        w14 = w14 + (sigma1 w12 + w7 + sigma0 w15);
        (f, b) = Round c d e f g h a b (0x06ca6351 + w14);
        w15 = w15 + (sigma1 w13 + w8 + sigma0 w0);
        (e, a) = Round b c d e f g h a (0x14292967 + w15);
        w0 = w0 + (sigma1 w14 + w9 + sigma0 w1);
        (d, h) = Round a b c d e f g h (0x27b70a85 + w0);
        w1 = w1 + (sigma1 w15 + w10 + sigma0 w2);
        (c, g) = Round h a b c d e f g (0x2e1b2138 + w1);
        w2 = w2 + (sigma1 w0 + w11 + sigma0 w3);
        (b, f) = Round g h a b c d e f (0x4d2c6dfc + w2);
        w3 = w3 + (sigma1 w1 + w12 + sigma0 w4);
        (a, e) = Round f g h a b c d e (0x53380d13 + w3);
        w4 = w4 + (sigma1 w2 + w13 + sigma0 w5);
        (h, d) = Round e f g h a b c d (0x650a7354 + w4);
        w5 = w5 + (sigma1 w3 + w14 + sigma0 w6);
        (g, c) = Round d e f g h a b c (0x766a0abb + w5);
        w6 = w6 + (sigma1 w4 + w15 + sigma0 w7);
        (f, b) = Round c d e f g h a b (0x81c2c92e + w6);
        w7 = w7 + (sigma1 w5 + w0 + sigma0 w8);
        (e, a) = Round b c d e f g h a (0x92722c85 + w7);
        w8 = w8 + (sigma1 w6 + w1 + sigma0 w9);
        (d, h) = Round a b c d e f g h (0xa2bfe8a1 + w8);
        w9 = w9 + (sigma1 w7 + w2 + sigma0 w10);
        (c, g) = Round h a b c d e f g (0xa81a664b + w9);
        w10 = w10 + (sigma1 w8 + w3 + sigma0 w11);
        (b, f) = Round g h a b c d e f (0xc24b8b70 + w10);
        w11 = w11 + (sigma1 w9 + w4 + sigma0 w12);
        (a, e) = Round f g h a b c d e (0xc76c51a3 + w11);
        w12 = w12 + (sigma1 w10 + w5 + sigma0 w13);
        (h, d) = Round e f g h a b c d (0xd192e819 + w12);
        w13 = w13 + (sigma1 w11 + w6 + sigma0 w14);
        (g, c) = Round d e f g h a b c (0xd6990624 + w13);
        w14 = w14 + (sigma1 w12 + w7 + sigma0 w15);
        (f, b) = Round c d e f g h a b (0xf40e3585 + w14);
        w15 = w15 + (sigma1 w13 + w8 + sigma0 w0);
        (e, a) = Round b c d e f g h a (0x106aa070 + w15);
        w0 = w0 + (sigma1 w14 + w9 + sigma0 w1);
        (d, h) = Round a b c d e f g h (0x19a4c116 + w0);
        w1 = w1 + (sigma1 w15 + w10 + sigma0 w2);
        (c, g) = Round h a b c d e f g (0x1e376c08 + w1);
        w2 = w2 + (sigma1 w0 + w11 + sigma0 w3);
        (b, f) = Round g h a b c d e f (0x2748774c + w2);
        w3 = w3 + (sigma1 w1 + w12 + sigma0 w4);
        (a, e) = Round f g h a b c d e (0x34b0bcb5 + w3);
        w4 = w4 + (sigma1 w2 + w13 + sigma0 w5);
        (h, d) = Round e f g h a b c d (0x391c0cb3 + w4);
        w5 = w5 + (sigma1 w3 + w14 + sigma0 w6);
        (g, c) = Round d e f g h a b c (0x4ed8aa4a + w5);
        w6 = w6 + (sigma1 w4 + w15 + sigma0 w7);
        (f, b) = Round c d e f g h a b (0x5b9cca4f + w6);
        w7 = w7 + (sigma1 w5 + w0 + sigma0 w8);
        (e, a) = Round b c d e f g h a (0x682e6ff3 + w7);
        w8 = w8 + (sigma1 w6 + w1 + sigma0 w9);
        (d, h) = Round a b c d e f g h (0x748f82ee + w8);
        w9 = w9 + (sigma1 w7 + w2 + sigma0 w10);
        (c, g) = Round h a b c d e f g (0x78a5636f + w9);
        w10 = w10 + (sigma1 w8 + w3 + sigma0 w11);
        (b, f) = Round g h a b c d e f (0x84c87814 + w10);
        w11 = w11 + (sigma1 w9 + w4 + sigma0 w12);
        (a, e) = Round f g h a b c d e (0x8cc70208 + w11);
        w12 = w12 + (sigma1 w10 + w5 + sigma0 w13);
        (h, d) = Round e f g h a b c d (0x90befffa + w12);
        w13 = w13 + (sigma1 w11 + w6 + sigma0 w14);
        (g, c) = Round d e f g h a b c (0xa4506ceb + w13);
        (f, b) = Round c d e f g h a b (0xbef9a3f7 + (w14 + sigma1 w12 + w7 + sigma0 w15));
        (e, a) = Round b c d e f g h a (0xc67178f2 + (w15 + sigma1 w13 + w8 + sigma0 w0))
      in [s0 + a, s1 + b, s2 + c, s3 + d, s4 + e, s5 + f, s6 + g, s7 + h])
     | _ \<Rightarrow> s)"

primrec Transform :: "nat \<Rightarrow> u32 list \<Rightarrow> byte list \<Rightarrow> u32 list" where
  "Transform 0 s chunk = s"
| "Transform (Suc blocks) s chunk = Transform blocks (Transform_block s chunk) (drop 64 chunk)"

section \<open>The streaming hasher\<close>

record csha256 =
  sha_s :: "u32 list"
  sha_buf :: "byte list"
  sha_bytes :: u64

text \<open>The buffer of a fresh hasher is whatever its storage \<open>mem\<close> held: the constructor does not clear it.\<close>

definition CSHA256 :: "byte list \<Rightarrow> csha256" where
  "CSHA256 mem = \<lparr>sha_s = Initialize_sha, sha_buf = mem, sha_bytes = 0\<rparr>"

definition memcpy_at :: "'a list \<Rightarrow> nat \<Rightarrow> 'a list \<Rightarrow> 'a list" where
  "memcpy_at dst off src = take off dst @ src @ drop (off + length src) dst"

definition Write_fill :: "csha256 \<Rightarrow> byte list \<Rightarrow> csha256 \<times> byte list \<times> nat" where
  "Write_fill c data =
     (let bufsize = unat (sha_bytes c mod 64) in
      if bufsize \<noteq> 0 \<and> bufsize + length data \<ge> 64 then
        let buf = memcpy_at (sha_buf c) bufsize (take (64 - bufsize) data) in
        (c\<lparr>sha_buf := buf, sha_bytes := sha_bytes c + of_nat (64 - bufsize),
           sha_s := Transform 1 (sha_s c) buf\<rparr>, drop (64 - bufsize) data, 0)
      else (c, data, bufsize))"

definition Write :: "csha256 \<Rightarrow> byte list \<Rightarrow> csha256" where
  "Write c data =
     (let (c, data, bufsize) = Write_fill c data;
          (c, data) = (if length data \<ge> 64 then
             let blocks = length data div 64 in
             (c\<lparr>sha_s := Transform blocks (sha_s c) data,
                sha_bytes := sha_bytes c + of_nat (64 * blocks)\<rparr>, drop (64 * blocks) data)
           else (c, data))
      in if data \<noteq> [] then
           c\<lparr>sha_buf := memcpy_at (sha_buf c) bufsize data,
             sha_bytes := sha_bytes c + of_nat (length data)\<rparr>
         else c)"

definition Finalize :: "csha256 \<Rightarrow> byte list" where
  "Finalize c =
     (let pad = 0x80 # replicate 63 0;
          sizedesc = WriteBE64 Little (push_bit 3 (sha_bytes c));
          c1 = Write c (take (1 + unat ((119 - sha_bytes c mod 64) mod 64)) pad);
          c2 = Write c1 sizedesc
      in concat (map (\<lambda>i. WriteBE32 Little (sha_s c2 ! i)) [0..<8]))"

definition Reset_sha :: "csha256 \<Rightarrow> csha256" where
  "Reset_sha c = c\<lparr>sha_bytes := 0, sha_s := Initialize_sha\<rparr>"

section \<open>The reference function\<close>

text \<open>The sixty-four round constants, in decimal.\<close>

definition sha_K :: "u32 list" where
  "sha_K = [1116352408, 1899447441, 3049323471, 3921009573, 961987163, 1508970993, 2453635748, 2870763221,
     3624381080, 310598401, 607225278, 1426881987, 1925078388, 2162078206, 2614888103, 3248222580,
     3835390401, 4022224774, 264347078, 604807628, 770255983, 1249150122, 1555081692, 1996064986,
     2554220882, 2821834349, 2952996808, 3210313671, 3336571891, 3584528711, 113926993, 338241895,
     666307205, 773529912, 1294757372, 1396182291, 1695183700, 1986661051, 2177026350, 2456956037,
     2730485921, 2820302411, 3259730800, 3345764771, 3516065817, 3600352804, 4094571909, 275423344,
     430227734, 506948616, 659060556, 883997877, 958139571, 1322822218, 1537002063, 1747873779,
     1955562222, 2024104815, 2227730452, 2361852424, 2428436474, 2756734187, 3204031479, 3329325298]"

fun sha_round :: "u32 list \<Rightarrow> u32 \<Rightarrow> u32 list" where
  "sha_round [a, b, c, d, e, f, g, h] kw =
     (let t1 = h + Sigma1 e + Ch e f g + kw; t2 = Sigma0 a + Maj a b c
      in [t1 + t2, a, b, c, d + t1, e, f, g])"
| "sha_round s kw = s"

primrec schedule :: "nat \<Rightarrow> u32 list \<Rightarrow> u32 list" where
  "schedule 0 ws = ws"
| "schedule (Suc n) ws =
     (let v = schedule n ws; t = length v
      in v @ [v ! (t - 16) + (sigma1 (v ! (t - 2)) + v ! (t - 7) + sigma0 (v ! (t - 15)))])"

definition chunk_words :: "byte list \<Rightarrow> u32 list" where
  "chunk_words chunk = map (\<lambda>i. ReadBE32 Little (drop (4 * i) chunk)) [0..<16]"

definition compress :: "u32 list \<Rightarrow> byte list \<Rightarrow> u32 list" where
  "compress s chunk = map2 (+) s (foldl sha_round s (map2 (+) sha_K (schedule 48 (chunk_words chunk))))"

definition sha_pad :: "byte list \<Rightarrow> byte list" where
  "sha_pad msg = msg @ [0x80] @ replicate ((119 - length msg mod 64) mod 64) 0
     @ WriteBE64 Little (of_nat (8 * length msg))"

fun sha_blocks :: "u32 list \<Rightarrow> byte list \<Rightarrow> u32 list" where
  "sha_blocks s msg = (if length msg < 64 then s else sha_blocks (compress s (take 64 msg)) (drop 64 msg))"

declare sha_blocks.simps [simp del]

definition SHA256 :: "byte list \<Rightarrow> byte list" where
  "SHA256 msg = concat (map (WriteBE32 Little) (sha_blocks Initialize_sha (sha_pad msg)))"

section \<open>The unrolled rounds compute the reference\<close>

text \<open>
  The reference in the shape of the unrolled code: \<open>feed\<close> consumes the words already read, \<open>roll\<close> keeps
  the last sixteen schedule words and produces one new word per round.
\<close>

fun roll :: "u32 list \<Rightarrow> u32 list \<Rightarrow> u32 list \<Rightarrow> u32 list \<Rightarrow> u32 list" where
  "roll (k # ks) [v0, v1, v2, v3, v4, v5, v6, v7, v8, v9, v10, v11, v12, v13, v14, v15] s s0 =
     (let w = v0 + (sigma1 v14 + v9 + sigma0 v1)
      in roll ks [v1, v2, v3, v4, v5, v6, v7, v8, v9, v10, v11, v12, v13, v14, v15, w] (sha_round s (k + w)) s0)"
| "roll ks win s s0 = map2 (+) s0 s"

fun feed :: "u32 list \<Rightarrow> u32 list \<Rightarrow> u32 list \<Rightarrow> u32 list \<Rightarrow> u32 list \<Rightarrow> u32 list" where
  "feed (x # xs) ks win s s0 = feed xs ks win (sha_round s x) s0"
| "feed [] ks win s s0 = roll ks win s s0"

definition roll_with :: "u32 \<Rightarrow> u32 list \<Rightarrow> u32 list \<Rightarrow> u32 list \<Rightarrow> u32 list \<Rightarrow> u32 list" where
  "roll_with w ks win s s0 = roll (tl ks) win (sha_round s (hd ks + w)) s0"

lemma unroll_let: "F x = feed (y # xs) ks win s s0 \<Longrightarrow> (let w = x in F w) = feed (y # xs) ks win s s0"
  by simp

lemma unroll_feed:
  "(\<And>d' h'. F d' h' = feed xs ks win [h', a, b, c, d', e, f, g] s0) \<Longrightarrow>
   (let (d', h') = Round a b c d e f g h x in F d' h') = feed (x # xs) ks win [a, b, c, d, e, f, g, h] s0"
  by (simp add: Round_def Let_def)

lemma unroll_word:
  "(\<And>w. F w = roll_with w (k # ks) [v1, v2, v3, v4, v5, v6, v7, v8, v9, v10, v11, v12, v13, v14, v15, w] s s0) \<Longrightarrow>
   (let w = v0 + (sigma1 v14 + v9 + sigma0 v1) in F w) =
     roll (k # ks) [v0, v1, v2, v3, v4, v5, v6, v7, v8, v9, v10, v11, v12, v13, v14, v15] s s0"
  by (simp add: Let_def roll_with_def)

lemma unroll_round:
  "(\<And>d' h'. F d' h' = roll ks win [h', a, b, c, d', e, f, g] s0) \<Longrightarrow>
   (let (d', h') = Round a b c d e f g h (k + w) in F d' h') =
     roll_with w (k # ks) win [a, b, c, d, e, f, g, h] s0"
  by (simp add: Round_def Let_def roll_with_def)

lemma unroll_last:
  "(\<And>d' h'. F d' h' = roll ks [v1, v2, v3, v4, v5, v6, v7, v8, v9, v10, v11, v12, v13, v14, v15, v0 + (sigma1 v14 + v9 + sigma0 v1)]
      [h', a, b, c, d', e, f, g] s0) \<Longrightarrow>
   (let (d', h') = Round a b c d e f g h (k + (v0 + sigma1 v14 + v9 + sigma0 v1)) in F d' h') =
     roll (k # ks) [v0, v1, v2, v3, v4, v5, v6, v7, v8, v9, v10, v11, v12, v13, v14, v15] [a, b, c, d, e, f, g, h] s0"
  by (simp add: Round_def Let_def add.assoc)


lemma chunk_words_list:
  "chunk_words chunk =
     [ReadBE32 Little (drop 0 chunk), ReadBE32 Little (drop 4 chunk), ReadBE32 Little (drop 8 chunk),
      ReadBE32 Little (drop 12 chunk), ReadBE32 Little (drop 16 chunk), ReadBE32 Little (drop 20 chunk),
      ReadBE32 Little (drop 24 chunk), ReadBE32 Little (drop 28 chunk), ReadBE32 Little (drop 32 chunk),
      ReadBE32 Little (drop 36 chunk), ReadBE32 Little (drop 40 chunk), ReadBE32 Little (drop 44 chunk),
      ReadBE32 Little (drop 48 chunk), ReadBE32 Little (drop 52 chunk), ReadBE32 Little (drop 56 chunk),
      ReadBE32 Little (drop 60 chunk)]"
  by (simp add: chunk_words_def upt_rec)

lemma sha_K_parts:
  "take 16 sha_K = [1116352408, 1899447441, 3049323471, 3921009573, 961987163, 1508970993, 2453635748, 2870763221,
     3624381080, 310598401, 607225278, 1426881987, 1925078388, 2162078206, 2614888103, 3248222580]"
  "drop 16 sha_K = [3835390401, 4022224774, 264347078, 604807628, 770255983, 1249150122, 1555081692, 1996064986,
     2554220882, 2821834349, 2952996808, 3210313671, 3336571891, 3584528711, 113926993, 338241895,
     666307205, 773529912, 1294757372, 1396182291, 1695183700, 1986661051, 2177026350, 2456956037,
     2730485921, 2820302411, 3259730800, 3345764771, 3516065817, 3600352804, 4094571909, 275423344,
     430227734, 506948616, 659060556, 883997877, 958139571, 1322822218, 1537002063, 1747873779,
     1955562222, 2024104815, 2227730452, 2361852424, 2428436474, 2756734187, 3204031479, 3329325298]"
  by (simp_all add: sha_K_def)

lemma Transform_block_roll:
  "Transform_block [s0, s1, s2, s3, s4, s5, s6, s7] chunk =
     feed (map2 (+) (take 16 sha_K) (chunk_words chunk)) (drop 16 sha_K) (chunk_words chunk)
       [s0, s1, s2, s3, s4, s5, s6, s7] [s0, s1, s2, s3, s4, s5, s6, s7]"
  unfolding Transform_block_def list.case sha_K_parts chunk_words_list zip_Cons_Cons zip.simps(1)
    list.map prod.case
  apply (rule unroll_feed unroll_let)+
  apply (unfold feed.simps)
  apply (rule unroll_round unroll_last unroll_word)+
  apply simp
  done

section \<open>The rolling window is the schedule\<close>

lemma schedule_prefix: "\<exists>vs. schedule n ws = ws @ vs \<and> length vs = n"
  by (induction n) (auto simp: Let_def)

lemma length_schedule [simp]: "length (schedule n ws) = length ws + n"
  by (induction n) (auto simp: Let_def)

lemma nth_schedule: "i < length ws \<Longrightarrow> schedule n ws ! i = ws ! i"
  using schedule_prefix [of n ws] by (auto simp: nth_append)

lemma schedule_Cons:
  assumes "16 \<le> length ws"
  shows "schedule n (x # ws) = x # schedule n ws"
proof (induction n)
  case 0
  then show ?case by simp
next
  case (Suc n)
  let ?t = "length (schedule n ws)"
  have "Suc ?t - 16 = Suc (?t - 16)" "Suc ?t - 15 = Suc (?t - 15)"
    "Suc ?t - 7 = Suc (?t - 7)" "Suc ?t - 2 = Suc (?t - 2)"
    using assms by auto
  then show ?case by (simp only: schedule.simps Suc.IH Let_def length_Cons nth_Cons_Suc append_Cons)
qed

lemma schedule_shift: "schedule (Suc n) ws = schedule n (schedule 1 ws)"
  by (induction n) (simp_all add: Let_def)

lemma schedule_window:
  "schedule (Suc n) [v0, v1, v2, v3, v4, v5, v6, v7, v8, v9, v10, v11, v12, v13, v14, v15] =
     v0 # schedule n [v1, v2, v3, v4, v5, v6, v7, v8, v9, v10, v11, v12, v13, v14, v15,
       v0 + (sigma1 v14 + v9 + sigma0 v1)]"
  by (simp only: schedule_shift) (simp add: Let_def schedule_Cons)

lemma drop_schedule:
  "length vs = 15 \<Longrightarrow> drop 15 (schedule n (vs @ [w])) = w # drop 16 (schedule n (vs @ [w]))"
  by (subst Cons_nth_drop_Suc [symmetric]) (simp_all add: nth_schedule nth_append)

lemma roll_schedule:
  "length win = 16 \<Longrightarrow>
   roll ks win s s0 = map2 (+) s0 (foldl sha_round s (map2 (+) ks (drop 16 (schedule (length ks) win))))"
proof (induction ks win s s0 rule: roll.induct)
  case (1 k ks v0 v1 v2 v3 v4 v5 v6 v7 v8 v9 v10 v11 v12 v13 v14 v15 s s0)
  let ?w = "v0 + (sigma1 v14 + v9 + sigma0 v1)"
  let ?vs = "[v1, v2, v3, v4, v5, v6, v7, v8, v9, v10, v11, v12, v13, v14, v15]"
  have "drop 16 (schedule (length (k # ks)) (v0 # ?vs)) = ?w # drop 16 (schedule (length ks) (?vs @ [?w]))"
    using drop_schedule [of ?vs "length ks" ?w] by (simp del: schedule.simps add: schedule_window)
  then show ?case using 1 by (simp del: schedule.simps add: Let_def)
qed simp_all

lemma feed_foldl: "feed xs ks win s s0 = roll ks win (foldl sha_round s xs) s0"
  by (induction xs arbitrary: s) auto

lemma length_sha_K [simp]: "length sha_K = 64"
  by (simp add: sha_K_def)

lemma length_chunk_words [simp]: "length (chunk_words chunk) = 16"
  by (simp add: chunk_words_def)

lemma list8_cases:
  assumes "length s = 8"
  obtains a b c d e f g h where "s = [a, b, c, d, e, f, g, h]"
  using assms by (auto simp: length_Suc_conv eval_nat_numeral)

lemma Transform_block_compress:
  assumes "length s = 8"
  shows "Transform_block s chunk = compress s chunk"
proof -
  let ?cw = "chunk_words chunk"
  obtain vs where vs: "schedule 48 ?cw = ?cw @ vs" using schedule_prefix by blast
  have "map2 (+) sha_K (schedule 48 ?cw) =
      map2 (+) (take 16 sha_K @ drop 16 sha_K) (?cw @ drop 16 (schedule 48 ?cw))"
    by (simp add: vs)
  also have "\<dots> = map2 (+) (take 16 sha_K) ?cw @ map2 (+) (drop 16 sha_K) (drop 16 (schedule 48 ?cw))"
    by (subst zip_append) simp_all
  finally have "compress s chunk =
      roll (drop 16 sha_K) ?cw (foldl sha_round s (map2 (+) (take 16 sha_K) ?cw)) s"
    by (simp add: compress_def roll_schedule)
  moreover from assms obtain a b c d e f g h where "s = [a, b, c, d, e, f, g, h]" by (rule list8_cases)
  ultimately show ?thesis by (simp only: Transform_block_roll feed_foldl)
qed

lemma length_sha_round [simp]: "length (sha_round s x) = length s"
  by (cases "(s, x)" rule: sha_round.cases) (auto simp: Let_def)

lemma length_rounds [simp]: "length (foldl sha_round s xs) = length s"
  by (induction xs arbitrary: s) auto

lemma length_compress [simp]: "length (compress s chunk) = length s"
  by (simp add: compress_def)

lemma chunk_words_take: "chunk_words (take 64 chunk) = chunk_words chunk"
proof -
  have "take 4 (drop (4 * i) (take 64 chunk)) = take 4 (drop (4 * i) chunk)" if "i < 16" for i
    using that by (simp add: drop_take take_take min_def)
  then show ?thesis by (simp add: chunk_words_def ReadBE32_def load_def)
qed

lemma compress_take: "compress s (take 64 chunk) = compress s chunk"
  by (simp add: compress_def chunk_words_take)

lemma length_sha_blocks [simp]: "length (sha_blocks s msg) = length s"
  by (induction s msg rule: sha_blocks.induct) (subst sha_blocks.simps, simp)

lemma sha_blocks_short: "length msg < 64 \<Longrightarrow> sha_blocks s msg = s"
  by (subst sha_blocks.simps) simp

lemma sha_blocks_long: "64 \<le> length msg \<Longrightarrow> sha_blocks s msg = sha_blocks (compress s msg) (drop 64 msg)"
  by (subst sha_blocks.simps) (simp add: compress_take)

lemma sha_blocks_append:
  "64 dvd length a \<Longrightarrow> sha_blocks s (a @ b) = sha_blocks (sha_blocks s a) b"
proof (induction s a rule: sha_blocks.induct)
  case (1 s a)
  show ?case
  proof (cases "length a < 64")
    case True
    with 1(2) have "a = []" by (auto dest: dvd_imp_le)
    then show ?thesis by (simp add: sha_blocks_short)
  next
    case False
    have "compress s (a @ b) = compress s (take 64 a)"
      using False compress_take [of s "a @ b"] by simp
    with False 1 show ?thesis
      by (simp add: sha_blocks_long compress_take)
  qed
qed

lemma Transform_blocks:
  "length s = 8 \<Longrightarrow> length data = 64 * n \<Longrightarrow> Transform n s data = sha_blocks s data"
proof (induction n arbitrary: s data)
  case 0
  then show ?case by (simp add: sha_blocks_short)
next
  case (Suc n)
  then show ?case by (simp add: sha_blocks_long Transform_block_compress)
qed

lemma Transform_append:
  "length s = 8 \<Longrightarrow> length data = 64 * n \<Longrightarrow> Transform n s (data @ rest) = sha_blocks s data"
proof (induction n arbitrary: s data)
  case 0
  then show ?case by (simp add: sha_blocks_short)
next
  case (Suc n)
  then have "compress s (data @ rest) = compress s data"
    using compress_take [of s "data @ rest"] compress_take [of s data] by simp
  with Suc show ?case by (simp add: sha_blocks_long Transform_block_compress)
qed
section \<open>Streaming\<close>

text \<open>A hasher that has absorbed \<open>a @ r\<close>: the full blocks \<open>a\<close> are compressed, \<open>r\<close> waits in the buffer.\<close>

definition sha_absorbed :: "csha256 \<Rightarrow> byte list \<Rightarrow> bool" where
  "sha_absorbed c msg \<longleftrightarrow>
     sha_bytes c = of_nat (length msg) \<and> length (sha_buf c) = 64 \<and>
     sha_s c = sha_blocks Initialize_sha (take (64 * (length msg div 64)) msg) \<and>
     take (length msg mod 64) (sha_buf c) = drop (64 * (length msg div 64)) msg"

lemma length_Initialize_sha [simp]: "length Initialize_sha = 8"
  by (simp add: Initialize_sha_def)

lemma sha_absorbed_split:
  assumes "64 dvd length a" and "length r < 64"
  shows "sha_absorbed c (a @ r) \<longleftrightarrow> sha_bytes c = of_nat (length a + length r) \<and>
    length (sha_buf c) = 64 \<and> sha_s c = sha_blocks Initialize_sha a \<and> take (length r) (sha_buf c) = r"
proof -
  from assms obtain k where "length a = 64 * k" by (auto simp: dvd_def)
  with assms(2) have "64 * (length (a @ r) div 64) = length a" and "length (a @ r) mod 64 = length r" by auto
  then show ?thesis by (simp add: sha_absorbed_def)
qed

lemma sha_absorbed_full:
  "64 dvd length a \<Longrightarrow> sha_absorbed c a \<longleftrightarrow> sha_bytes c = of_nat (length a) \<and>
    length (sha_buf c) = 64 \<and> sha_s c = sha_blocks Initialize_sha a"
  using sha_absorbed_split [of a "[]" c] by simp

lemma split_blocks:
  obtains a r where "msg = a @ r" and "64 dvd length a" and "length r < 64"
proof (rule that)
  let ?n = "64 * (length msg div 64)"
  show "msg = take ?n msg @ drop ?n msg" by simp
  show "64 dvd length (take ?n msg)" by (subst length_take) (metis div_times_less_eq_dividend dvd_triv_left min.absorb2 mult.commute)
  show "length (drop ?n msg) < 64" by (simp add: minus_mult_div_eq_mod)
qed

lemma unat_bytes_mod: "unat ((of_nat n :: u64) mod 64) = n mod 64"
proof -
  have "n mod 2 ^ 64 mod 64 = n mod (64 :: nat)" by (rule mod_mod_cancel) simp
  then show ?thesis by (simp add: unat_mod unat_of_nat)
qed

lemma buffered:
  assumes "64 dvd length a" and "length r < 64" and "sha_absorbed c (a @ r)"
  shows "unat (sha_bytes c mod 64) = length r"
proof -
  from assms(1) obtain k where "length a = 64 * k" by (auto simp: dvd_def)
  then have "(length a + length r) mod 64 = length r" using assms(2) by simp
  moreover have "sha_bytes c = of_nat (length a + length r)" using assms(3) by (simp add: sha_absorbed_def)
  ultimately show ?thesis by (simp only: unat_bytes_mod)
qed

lemma absorb_fill:
  assumes "sha_absorbed c msg" and "Write_fill c data = (c', data', n)"
  obtains m where "sha_absorbed c' m" and "m @ data' = msg @ data" and "n = length m mod 64"
    and "n = 0 \<or> n + length data' < 64"
proof -
  obtain a r where msg: "msg = a @ r" and a: "64 dvd length a" and r: "length r < 64"
    by (rule split_blocks)
  note n = buffered [OF a r assms(1) [unfolded msg]]
  from a have lm: "length (a @ r) mod 64 = length r" using r by (auto simp: dvd_def)
  note c = sha_absorbed_split [OF a r, THEN iffD1, OF assms(1) [unfolded msg]]
  show ?thesis
  proof (cases "length r \<noteq> 0 \<and> length r + length data \<ge> 64")
    case True
    let ?d = "take (64 - length r) data"
    let ?buf = "memcpy_at (sha_buf c) (length r) ?d"
    have d: "length ?d = 64 - length r" using True by (simp add: min_def, linarith?)
    with c r have buf: "?buf = r @ ?d" by (simp add: memcpy_at_def)
    from True r assms(2) have c': "c' = c\<lparr>sha_buf := ?buf,
        sha_bytes := sha_bytes c + of_nat (64 - length r), sha_s := Transform 1 (sha_s c) ?buf\<rparr>"
      and data': "data' = drop (64 - length r) data" and n0: "n = 0"
      unfolding Write_fill_def n by (simp_all add: Let_def)
    have dv: "64 dvd length (a @ r @ ?d)" using a d r by simp
    have lbuf: "length (r @ ?d) = 64 * 1" using d r by simp
    have "Transform 1 (sha_s c) (r @ ?d) = sha_blocks (sha_s c) (r @ ?d)"
      by (rule Transform_blocks) (use c lbuf in simp_all)
    moreover have "length (a @ r @ ?d) = length a + length r + (64 - length r)" using d by simp
    ultimately have "sha_absorbed c' (a @ r @ ?d)"
      unfolding sha_absorbed_full [OF dv] using c lbuf
      by (simp only: c' buf sha_blocks_append [OF a] of_nat_add) simp
    moreover have "(a @ r @ ?d) @ data' = msg @ data" by (simp add: data' msg)
    moreover have "n = length (a @ r @ ?d) mod 64" using dv n0 by auto
    ultimately show ?thesis by (rule that) (rule disjI1 [OF n0])
  next
    case False
    with assms(2) have "c' = c" "data' = data" "n = length r"
      unfolding Write_fill_def n by (auto simp: Let_def)
    with False lm show ?thesis using assms(1) that [of msg] by (auto simp: msg)
  qed
qed

lemma absorb_blocks:
  assumes "sha_absorbed c msg" and "length msg mod 64 = 0" and that: "64 * k \<le> length data"
  shows "sha_absorbed (c\<lparr>sha_s := Transform k (sha_s c) data, sha_bytes := sha_bytes c + of_nat (64 * k)\<rparr>)
    (msg @ take (64 * k) data)"
proof -
  let ?d = "take (64 * k) data"
  from assms have dv: "64 dvd length msg" by auto
  then have dv2: "64 dvd length (msg @ ?d)" using that by (simp add: min_def)
  note c = sha_absorbed_full [OF dv, THEN iffD1, OF assms(1)]
  have "Transform k (sha_s c) (?d @ drop (64 * k) data) = sha_blocks (sha_s c) ?d"
    by (rule Transform_append) (use c that in simp_all)
  then show ?thesis
    using c that sha_absorbed_full [OF dv2]
    by (simp add: sha_blocks_append [OF dv] min_def)
qed

lemma absorb_rest:
  assumes "sha_absorbed c msg" and "length msg mod 64 + length data < 64"
  shows "sha_absorbed (c\<lparr>sha_buf := memcpy_at (sha_buf c) (length msg mod 64) data,
    sha_bytes := sha_bytes c + of_nat (length data)\<rparr>) (msg @ data)"
proof -
  obtain a r where msg: "msg = a @ r" and a: "64 dvd length a" and r: "length r < 64"
    by (rule split_blocks)
  from a have lm: "length msg mod 64 = length r" using r by (auto simp: dvd_def msg)
  with assms(2) have rd: "length (r @ data) < 64" by simp
  note c = sha_absorbed_split [OF a r, THEN iffD1, OF assms(1) [unfolded msg]]
  have mem: "memcpy_at (sha_buf c) (length r) data = (r @ data) @ drop (length r + length data) (sha_buf c)"
    using c by (simp add: memcpy_at_def)
  then have "length (memcpy_at (sha_buf c) (length r) data) = 64"
    and "take (length (r @ data)) (memcpy_at (sha_buf c) (length r) data) = r @ data"
    using c rd by simp_all
  then show ?thesis
    unfolding lm unfolding msg append_assoc sha_absorbed_split [OF a rd] using c by simp
qed

lemma Write_absorbed:
  assumes "sha_absorbed c msg"
  shows "sha_absorbed (Write c data) (msg @ data)"
proof -
  obtain c1 d1 n where f: "Write_fill c data = (c1, d1, n)" by (cases "Write_fill c data")
  from assms f obtain m where m: "sha_absorbed c1 m" "m @ d1 = msg @ data" "n = length m mod 64"
    and n: "n = 0 \<or> n + length d1 < 64" by (rule absorb_fill)
  define k where "k = length d1 div 64"
  define c2 where "c2 = (if length d1 \<ge> 64 then c1\<lparr>sha_s := Transform k (sha_s c1) d1,
      sha_bytes := sha_bytes c1 + of_nat (64 * k)\<rparr> else c1)"
  define d2 where "d2 = (if length d1 \<ge> 64 then drop (64 * k) d1 else d1)"
  define m2 where "m2 = (if length d1 \<ge> 64 then m @ take (64 * k) d1 else m)"
  have W: "Write c data = (if d2 \<noteq> [] then c2\<lparr>sha_buf := memcpy_at (sha_buf c2) n d2,
      sha_bytes := sha_bytes c2 + of_nat (length d2)\<rparr> else c2)"
    by (simp add: Write_def f Let_def c2_def d2_def k_def)
  have k: "64 * k \<le> length d1" by (simp add: k_def)
  have a2: "sha_absorbed c2 m2"
    using m(1) n m(3) absorb_blocks [OF m(1) _ k] by (auto simp: c2_def m2_def)
  have n2: "n = length m2 mod 64" and md: "m2 @ d2 = msg @ data"
    using m(2,3) k by (auto simp: m2_def d2_def min_def)
  have "length d2 < 64" by (simp add: d2_def k_def minus_mult_div_eq_mod)
  then have "n + length d2 < 64" using n by (auto simp: d2_def)
  then show ?thesis
    using absorb_rest [OF a2, of d2] a2 md by (auto simp: W n2)
qed

lemma CSHA256_absorbed: "length mem = 64 \<Longrightarrow> sha_absorbed (CSHA256 mem) []"
  by (simp add: sha_absorbed_def CSHA256_def sha_blocks_short)

lemma Reset_absorbed: "sha_absorbed c msg \<Longrightarrow> sha_absorbed (Reset_sha c) []"
  by (simp add: sha_absorbed_def Reset_sha_def sha_blocks_short)

lemma Finalize_SHA256:
  assumes "sha_absorbed c msg"
  shows "Finalize c = SHA256 msg"
proof -
  let ?n = "length msg" and ?p = "1 + unat ((119 - sha_bytes c mod 64) mod 64)"
  have b: "sha_bytes c = of_nat ?n" using assms by (simp add: sha_absorbed_def)
  have bits: "push_bit 3 (sha_bytes c) = of_nat (8 * ?n)"
    by (simp add: b push_bit_eq_mult mult.commute)
  have le: "sha_bytes c mod 64 \<le> 119"
    unfolding word_le_nat_alt b unat_bytes_mod by (simp add: less_imp_le order.strict_trans1)
  have p: "?p = 1 + (119 - ?n mod 64) mod 64"
    by (subst unat_mod, subst unat_sub [OF le]) (simp add: unat_bytes_mod [of ?n, folded b])
  have "(119 - ?n mod 64) mod 64 < 64" by simp
  then have pad: "take ?p (0x80 # replicate 63 0) = 0x80 # replicate ((119 - ?n mod 64) mod 64) (0 :: byte)"
    unfolding p by (simp add: take_Cons' min_def)
  let ?c2 = "Write (Write c (take ?p (0x80 # replicate 63 0))) (WriteBE64 Little (push_bit 3 (sha_bytes c)))"
  have abs: "sha_absorbed ?c2 (sha_pad msg)"
    unfolding pad bits sha_pad_def
    using Write_absorbed [OF Write_absorbed [OF assms], of "0x80 # replicate ((119 - ?n mod 64) mod 64) 0"
      "WriteBE64 Little (of_nat (8 * ?n))"] by (simp only: append_assoc append_Cons append_Nil)
  have len: "64 dvd length (sha_pad msg)"
  proof -
    obtain k r where n: "?n = 64 * k + r" and r: "r < 64"
      by (metis mod_less_divisor mult_div_mod_eq zero_less_numeral)
    then have "length (sha_pad msg) = 64 * k + (r + 9 + (119 - r) mod 64)"
      by (simp add: sha_pad_def WriteBE_bytes)
    moreover have "64 dvd r + 9 + (119 - r) mod 64"
    proof (cases "r < 56")
      case True
      then have e: "119 - r = 64 + (55 - r)" by simp
      have "(119 - r) mod 64 = 55 - r" unfolding e by simp
      with True have "r + 9 + (119 - r) mod 64 = 64 * 1" by linarith
      then show ?thesis by (rule dvdI)
    next
      case False
      then have "(119 - r) mod 64 = 119 - r" by simp
      with False r have "r + 9 + (119 - r) mod 64 = 64 * 2" by linarith
      then show ?thesis by (rule dvdI)
    qed
    ultimately show ?thesis by simp
  qed
  have "sha_s ?c2 = sha_blocks Initialize_sha (sha_pad msg)"
    using abs unfolding sha_absorbed_full [OF len] by blast
  moreover have "map (\<lambda>i. WriteBE32 Little (s ! i)) [0..<8] = map (WriteBE32 Little) s"
    if "length s = 8" for s
    by (rule nth_equalityI) (simp_all add: that)
  ultimately show ?thesis
    by (simp only: Finalize_def SHA256_def Let_def length_sha_blocks length_Initialize_sha)
qed

section \<open>Incremental hashing as an interface\<close>

text \<open>
  What the users of a hasher rely on: feeding data piecewise is feeding its concatenation, and the
  digest is a function of the data fed.
\<close>

locale incremental_hash =
  fixes absorbed :: "'c \<Rightarrow> byte list \<Rightarrow> bool"
    and absorb :: "'c \<Rightarrow> byte list \<Rightarrow> 'c"
    and finish :: "'c \<Rightarrow> byte list"
    and digest :: "byte list \<Rightarrow> byte list"
  assumes absorb: "absorbed c msg \<Longrightarrow> absorbed (absorb c data) (msg @ data)"
    and finish: "absorbed c msg \<Longrightarrow> finish c = digest msg"
begin

lemma writes: "absorbed c msg \<Longrightarrow> absorbed (foldl absorb c ds) (msg @ concat ds)"
proof (induction ds arbitrary: c msg)
  case Nil
  then show ?case by simp
next
  case (Cons d ds)
  have "absorbed (foldl absorb (absorb c d) ds) ((msg @ d) @ concat ds)"
    by (rule Cons.IH) (rule absorb [OF Cons.prems])
  then show ?case by simp
qed

lemma digest_writes: "absorbed c [] \<Longrightarrow> finish (foldl absorb c ds) = digest (concat ds)"
  using writes [of c "[]" ds] finish by simp

lemma digest_split: "absorbed c [] \<Longrightarrow> concat ds = concat es \<Longrightarrow>
    finish (foldl absorb c ds) = finish (foldl absorb c es)"
  by (simp add: digest_writes)

end

interpretation csha: incremental_hash sha_absorbed Write Finalize SHA256
  by unfold_locales (auto intro: Write_absorbed Finalize_SHA256)

lemma length_SHA256 [simp]: "length (SHA256 msg) = 32"
proof -
  have "length (concat (map (WriteBE32 Little) s)) = 4 * length s" for s
    by (induction s) (simp_all add: WriteBE_bytes)
  then show ?thesis by (simp add: SHA256_def)
qed

section \<open>Properties\<close>

text \<open>
  \<^bold>\<open>C36.\<close> The unrolled compression loop of \<open>sha256::Transform\<close>, with its sixteen rolling schedule words,
  computes the SHA-256 compression function (64-word schedule, one generic round) on every state of
  eight words and every chunk.
\<close>

theorem Transform_is_compress:
  "length s = 8 \<Longrightarrow> length data = 64 * n \<Longrightarrow> Transform n s (data @ rest) = sha_blocks s data"
  by (rule Transform_append)

theorem Transform_is_compress_witness:
  "Transform 1 Initialize_sha (replicate 64 7 @ [1, 2]) = sha_blocks Initialize_sha (replicate 64 7)"
  by (rule Transform_is_compress) simp_all

text \<open>
  \<^bold>\<open>C35.\<close> Streaming: however a message is cut into pieces, writing the pieces to a fresh \<open>CSHA256\<close> (whatever
  its uninitialised buffer holds) and finalising gives the SHA-256 digest of the whole message.
\<close>

theorem CSHA256_streaming:
  "length mem = 64 \<Longrightarrow> Finalize (foldl Write (CSHA256 mem) pieces) = SHA256 (concat pieces)"
  by (rule csha.digest_writes) (rule CSHA256_absorbed)

theorem CSHA256_streaming_witness:
  "Finalize (foldl Write (CSHA256 (replicate 64 9)) [[1, 2], [], [3]]) = SHA256 [1, 2, 3]"
  using CSHA256_streaming [of "replicate 64 9" "[[1, 2], [], [3]]"] by simp

end
