(* ===== verification/Block_Header.thy ===== *)
theory Block_Header
  imports Sha256
begin

text \<open>
  The block header (include/chain/block.hpp, src/chain/block.cpp): the seven fields, the 100-byte wire
  format and the header hash.  \<open>SerializeFixed\<close> writes each field at its offset into a zeroed array,
  as the code does; \<open>Deserialize\<close> reads the fields back and rejects every other length.
\<close>

section \<open>The header and its wire format\<close>

record CBlockHeader =
  nVersion :: u32
  hashPrevBlock :: blob
  minerAddress :: blob
  nTime :: u32
  nBits :: u32
  nNonce :: u32
  hashRandomX :: blob

text \<open>The static type of the blob fields: 32, 20 and 32 bytes.\<close>

definition header_typed :: "CBlockHeader \<Rightarrow> bool" where
  "header_typed b \<longleftrightarrow> is_uint256 (hashPrevBlock b) \<and> is_uint160 (minerAddress b) \<and> is_uint256 (hashRandomX b)"

definition HEADER_SIZE :: nat where "HEADER_SIZE = 4 + 32 + 20 + 4 + 4 + 4 + 32"
definition OFF_VERSION :: nat where "OFF_VERSION = 0"
definition OFF_PREV :: nat where "OFF_PREV = OFF_VERSION + 4"
definition OFF_MINER :: nat where "OFF_MINER = OFF_PREV + 32"
definition OFF_TIME :: nat where "OFF_TIME = OFF_MINER + 20"
definition OFF_BITS :: nat where "OFF_BITS = OFF_TIME + 4"
definition OFF_NONCE :: nat where "OFF_NONCE = OFF_BITS + 4"
definition OFF_RANDOMX :: nat where "OFF_RANDOMX = OFF_NONCE + 4"

definition header_SetNull :: CBlockHeader where
  "header_SetNull = \<lparr>nVersion = 0, hashPrevBlock = blob_SetNull 32, minerAddress = blob_SetNull 20,
     nTime = 0, nBits = 0, nNonce = 0, hashRandomX = blob_SetNull 32\<rparr>"

definition header_IsNull :: "CBlockHeader \<Rightarrow> bool" where
  "header_IsNull b \<longleftrightarrow> nTime b = 0 \<and> nBits b = 0 \<and> nNonce b = 0 \<and>
     blob_IsNull (hashPrevBlock b) \<and> blob_IsNull (minerAddress b) \<and> blob_IsNull (hashRandomX b)"

definition SerializeFixed :: "CBlockHeader \<Rightarrow> byte list" where
  "SerializeFixed b =
     (let data = replicate HEADER_SIZE 0;
          data = memcpy_at data OFF_VERSION (WriteLE32 Little (nVersion b));
          data = memcpy_at data OFF_PREV (hashPrevBlock b);
          data = memcpy_at data OFF_MINER (minerAddress b);
          data = memcpy_at data OFF_TIME (WriteLE32 Little (nTime b));
          data = memcpy_at data OFF_BITS (WriteLE32 Little (nBits b));
          data = memcpy_at data OFF_NONCE (WriteLE32 Little (nNonce b));
          data = memcpy_at data OFF_RANDOMX (hashRandomX b)
      in data)"

definition Serialize :: "CBlockHeader \<Rightarrow> byte list" where
  "Serialize b = SerializeFixed b"

text \<open>\<open>None\<close> is the result \<open>false\<close>, which leaves the target object as it was.\<close>

definition Deserialize :: "byte list \<Rightarrow> CBlockHeader option" where
  "Deserialize data =
     (if length data \<noteq> HEADER_SIZE then None
      else Some \<lparr>
        nVersion = ReadLE32 Little (drop OFF_VERSION data),
        hashPrevBlock = take 32 (drop OFF_PREV data),
        minerAddress = take 20 (drop OFF_MINER data),
        nTime = ReadLE32 Little (drop OFF_TIME data),
        nBits = ReadLE32 Little (drop OFF_BITS data),
        nNonce = ReadLE32 Little (drop OFF_NONCE data),
        hashRandomX = take 32 (drop OFF_RANDOMX data)\<rparr>)"

definition GetBlockTime :: "CBlockHeader \<Rightarrow> int" where
  "GetBlockTime b = uint (nTime b)"

text \<open>The header hash: SHA-256 twice, through the streaming hasher on fresh objects.\<close>

definition GetHash :: "CBlockHeader \<Rightarrow> blob" where
  "GetHash b =
     (let s = SerializeFixed b;
          tmp = Finalize (Write (CSHA256 (replicate 64 0)) s)
      in Finalize (Write (CSHA256 (replicate 64 0)) tmp))"

section \<open>Layout and round trip\<close>

lemmas header_offsets = HEADER_SIZE_def OFF_VERSION_def OFF_PREV_def OFF_MINER_def OFF_TIME_def
  OFF_BITS_def OFF_NONCE_def OFF_RANDOMX_def

lemma memcpy_at_replicate:
  "length p = n \<Longrightarrow> length src = k \<Longrightarrow> k \<le> m \<Longrightarrow>
   memcpy_at (p @ replicate m x) n src = (p @ src) @ replicate (m - k) x"
  by (simp add: memcpy_at_def)

lemma memcpy_at_start: "length src = k \<Longrightarrow> memcpy_at (replicate m x) 0 src = src @ replicate (m - k) x"
  by (simp add: memcpy_at_def)

lemma SerializeFixed_layout:
  assumes "header_typed b"
  shows "SerializeFixed b = WriteLE32 Little (nVersion b) @ hashPrevBlock b @ minerAddress b @
    WriteLE32 Little (nTime b) @ WriteLE32 Little (nBits b) @ WriteLE32 Little (nNonce b) @ hashRandomX b"
proof -
  have len: "length (hashPrevBlock b) = 32" "length (minerAddress b) = 20" "length (hashRandomX b) = 32"
    using assms by (simp_all add: header_typed_def is_uint256_def is_uint160_def)
  show ?thesis
    by (simp add: SerializeFixed_def Let_def header_offsets memcpy_at_start memcpy_at_replicate len
        WriteLE_bytes flip: append_assoc)
qed

lemma length_SerializeFixed [simp]: "header_typed b \<Longrightarrow> length (SerializeFixed b) = 100"
  by (simp add: SerializeFixed_layout WriteLE_bytes) (simp add: header_typed_def is_uint256_def is_uint160_def)

lemma Deserialize_typed: "Deserialize data = Some b \<Longrightarrow> header_typed b"
  by (auto simp: Deserialize_def header_typed_def is_uint256_def is_uint160_def header_offsets split: if_splits)

lemma take_drop_part:
  "length p = n \<Longrightarrow> length x = k \<Longrightarrow> take k (drop n (p @ x @ r)) = x"
  by simp

lemma Deserialize_SerializeFixed:
  assumes "header_typed b"
  shows "Deserialize (SerializeFixed b) = Some b"
proof -
  have len: "length (hashPrevBlock b) = 32" "length (minerAddress b) = 20" "length (hashRandomX b) = 32"
    using assms by (simp_all add: header_typed_def is_uint256_def is_uint160_def)
  have "length (SerializeFixed b) = HEADER_SIZE" using assms by (simp add: header_offsets)
  then show ?thesis
    by (simp add: Deserialize_def SerializeFixed_layout [OF assms] header_offsets len codec)
qed

lemma split_fields:
  "length data = 100 \<Longrightarrow>
   take 4 data @ take 32 (drop 4 data) @ take 20 (drop 36 data) @ take 4 (drop 56 data) @
   take 4 (drop 60 data) @ take 4 (drop 64 data) @ take 32 (drop 68 data) = data"
  using append_take_drop_id [of 4 data] append_take_drop_id [of 32 "drop 4 data"]
    append_take_drop_id [of 20 "drop 36 data"] append_take_drop_id [of 4 "drop 56 data"]
    append_take_drop_id [of 4 "drop 60 data"] append_take_drop_id [of 4 "drop 64 data"]
  by simp

lemma SerializeFixed_Deserialize:
  assumes "Deserialize data = Some b"
  shows "SerializeFixed b = data"
proof -
  have len: "length data = 100" using assms by (auto simp: Deserialize_def header_offsets split: if_splits)
  have b: "b = \<lparr>nVersion = ReadLE32 Little (drop 0 data), hashPrevBlock = take 32 (drop 4 data),
      minerAddress = take 20 (drop 36 data), nTime = ReadLE32 Little (drop 56 data),
      nBits = ReadLE32 Little (drop 60 data), nNonce = ReadLE32 Little (drop 64 data),
      hashRandomX = take 32 (drop 68 data)\<rparr>"
    using assms len by (simp add: Deserialize_def header_offsets)
  have w: "WriteLE32 Little (ReadLE32 Little (drop n data)) = take 4 (drop n data)" if "n + 4 \<le> 100" for n
    using that len by (simp add: WriteLE_bytes ReadLE_word le_bytes_le_nat)
  show ?thesis
    unfolding SerializeFixed_layout [OF Deserialize_typed [OF assms]]
    using split_fields [OF len] w [of 0] by (simp add: b w)
qed

lemma GetHash_SHA256: "GetHash b = SHA256 (SHA256 (SerializeFixed b))"
proof -
  have "Finalize (Write (CSHA256 (replicate 64 0)) d) = SHA256 d" for d
    using csha.digest_writes [OF CSHA256_absorbed, of "replicate 64 0" "[d]"] by simp
  then show ?thesis by (simp add: GetHash_def Let_def)
qed

lemma is_uint256_GetHash [simp]: "is_uint256 (GetHash b)"
  by (simp add: GetHash_SHA256 is_uint256_def)

section \<open>Properties\<close>

text \<open>
  The 100-byte wire format is a bijection: \<open>Deserialize\<close> accepts a buffer with result \<open>b\<close> exactly
  when \<open>b\<close> is a well-typed header whose serialisation is that buffer.  In particular every other length
  is rejected, no accepted buffer is lost or altered and no two buffers give the same header.
\<close>

theorem header_wire_bijection:
  "Deserialize data = Some b \<longleftrightarrow> header_typed b \<and> SerializeFixed b = data"
  by (metis Deserialize_SerializeFixed Deserialize_typed SerializeFixed_Deserialize)

end
