(* ===== verification/Wire.thy ===== *)
theory Wire
  imports Block_Header "HOL-Library.State_Monad"
begin

text \<open>
  The primitive wire codecs (src/network/message.cpp, first half): the variable-length integer, the
  \<open>MessageSerializer\<close> that appends to a buffer and the \<open>MessageDeserializer\<close> that walks over one.  The
  serializer is the buffer it holds.  The deserializer is a record threaded through its calls by the
  state monad; its error flag is sticky, so after the first failed bounds check every read returns its
  default and leaves the position alone.
\<close>

section \<open>Variable-length integers\<close>

definition VarInt_encoded_size :: "u64 \<Rightarrow> nat" where
  "VarInt_encoded_size value =
     (if value < 0xfd then 1 else if value \<le> 0xffff then 3 else if value \<le> 0xffffffff then 5 else 9)"

text \<open>The bytes that \<open>encode\<close> leaves in the buffer; their number is the value it returns.\<close>

definition VarInt_encode :: "u64 \<Rightarrow> byte list" where
  "VarInt_encode value =
     (if value < 0xfd then [ucast value]
      else if value \<le> 0xffff then 0xfd # WriteLE16 Little (ucast value)
      else if value \<le> 0xffffffff then 0xfe # WriteLE32 Little (ucast value)
      else 0xff # WriteLE64 Little value)"

text \<open>
  \<open>decode\<close> returns the number of bytes consumed, 0 when too few are available, and the new value of the
  object, which keeps its old value \<open>value\<close> in that case.
\<close>

definition VarInt_decode :: "u64 \<Rightarrow> byte list \<Rightarrow> nat \<times> u64" where
  "VarInt_decode value buffer =
     (if length buffer < 1 then (0, value)
      else let first = buffer ! 0 in
        if first < 0xfd then (1, ucast first)
        else if first = 0xfd then (if length buffer < 3 then (0, value) else (3, ucast (ReadLE16 Little (drop 1 buffer))))
        else if first = 0xfe then (if length buffer < 5 then (0, value) else (5, ucast (ReadLE32 Little (drop 1 buffer))))
        else (if length buffer < 9 then (0, value) else (9, ReadLE64 Little (drop 1 buffer))))"

lemma length_VarInt_encode [simp]: "length (VarInt_encode v) = VarInt_encoded_size v"
  by (simp add: VarInt_encode_def VarInt_encoded_size_def codec)

lemma VarInt_encoded_size_pos [simp]: "0 < VarInt_encoded_size v"
  by (simp add: VarInt_encoded_size_def)

lemma ucast_up_down:
  "unat (v :: 'a::len word) < 2 ^ LENGTH('b) \<Longrightarrow> ucast (ucast v :: 'b::len word) = v"
  by (rule word_eq_unatI) (simp add: unat_ucast_down order.strict_trans1 [OF mod_less_eq_dividend])

lemma VarInt_decode_encode:
  "VarInt_decode v0 (VarInt_encode v @ rest) = (VarInt_encoded_size v, v)"
proof -
  have b: "ucast (ucast v :: byte) = v" if "v < 0xfd"
    using that by (intro ucast_up_down) (simp add: word_less_nat_alt)
  have c: "(ucast v :: byte) < 0xfd" if "v < 0xfd"
  proof -
    have "unat (ucast v :: byte) = unat v mod 256" by (simp add: unat_ucast_down)
    also have "\<dots> \<le> unat v" by (rule mod_less_eq_dividend)
    finally show ?thesis using that by (simp add: word_less_nat_alt)
  qed
  have w: "ucast (ucast v :: u16) = v" if "v \<le> 0xffff"
    using that by (intro ucast_up_down) (simp add: word_le_nat_alt)
  have d: "ucast (ucast v :: u32) = v" if "v \<le> 0xffffffff"
    using that by (intro ucast_up_down) (simp add: word_le_nat_alt)
  consider "v < 0xfd" | "\<not> v < 0xfd" "v \<le> 0xffff" | "\<not> v \<le> 0xffff" "v \<le> 0xffffffff" | "\<not> v \<le> 0xffffffff" "\<not> v \<le> 0xffff" "\<not> v < 0xfd"
    using order.trans [of v "0xffff" "0xffffffff"] less_imp_le by fastforce
  then show ?thesis
  proof cases
    case 3
    then have "\<not> v < 0xfd" using order.trans [of v "0xfd" "0xffff", OF less_imp_le] by auto
    with 3 show ?thesis by (simp add: VarInt_decode_def VarInt_encode_def VarInt_encoded_size_def codec d)
  qed (simp_all add: VarInt_decode_def VarInt_encode_def VarInt_encoded_size_def codec b c w)
qed

section \<open>The serializer\<close>

text \<open>A \<open>std::string\<close> holds 8-bit characters; the serializer casts between them and bytes.\<close>

definition byte_of_char :: "char \<Rightarrow> byte" where "byte_of_char c = of_nat (of_char c)"
definition char_of_byte :: "byte \<Rightarrow> char" where "char_of_byte b = char_of (unat b)"

lemma of_char_less [simp]: "(of_char c :: nat) < 256"
  using of_char_mod_256 [of c, where 'a = nat] by (metis mod_less_divisor zero_less_numeral)

lemma char_of_byte_of_char [simp]: "char_of_byte (byte_of_char c) = c"
  by (simp add: char_of_byte_def byte_of_char_def unat_of_nat)

lemma byte_of_char_of_byte [simp]: "byte_of_char (char_of_byte b) = b"
  by (simp add: char_of_byte_def byte_of_char_def)

lemma map_char_of_byte [simp]: "map char_of_byte (map byte_of_char str) = str"
  by (simp add: comp_def)

type_synonym serializer = "byte list"

text \<open>Growing the buffer and writing into the new space, as the fixed-width writers do.\<close>

definition write_at_end :: "nat \<Rightarrow> byte list \<Rightarrow> serializer \<Rightarrow> serializer" where
  "write_at_end n bytes buffer =
     (let pos = length buffer; buffer = buffer @ replicate n 0 in memcpy_at buffer pos bytes)"

definition write_uint8 :: "byte \<Rightarrow> serializer \<Rightarrow> serializer" where
  "write_uint8 value s = s @ [value]"

definition write_uint16 :: "u16 \<Rightarrow> serializer \<Rightarrow> serializer" where
  "write_uint16 value s = write_at_end 2 (WriteLE16 Little value) s"

definition write_uint32 :: "u32 \<Rightarrow> serializer \<Rightarrow> serializer" where
  "write_uint32 value s = write_at_end 4 (WriteLE32 Little value) s"

definition write_uint64 :: "u64 \<Rightarrow> serializer \<Rightarrow> serializer" where
  "write_uint64 value s = write_at_end 8 (WriteLE64 Little value) s"

definition write_int32 :: "int \<Rightarrow> serializer \<Rightarrow> serializer" where
  "write_int32 value s = write_uint32 (word_of_int value) s"

definition write_int64 :: "int \<Rightarrow> serializer \<Rightarrow> serializer" where
  "write_int64 value s = write_uint64 (word_of_int value) s"

definition write_bool :: "bool \<Rightarrow> serializer \<Rightarrow> serializer" where
  "write_bool value s = write_uint8 (if value then 1 else 0) s"

definition write_varint :: "u64 \<Rightarrow> serializer \<Rightarrow> serializer" where
  "write_varint value s = write_at_end (VarInt_encoded_size value) (VarInt_encode value) s"

definition write_bytes :: "byte list \<Rightarrow> serializer \<Rightarrow> serializer" where
  "write_bytes data s = s @ data"

definition write_string :: "string \<Rightarrow> serializer \<Rightarrow> serializer" where
  "write_string str s = write_bytes (map byte_of_char str) (write_varint (of_nat (length str)) s)"

lemma write_at_end_append [simp]: "length bytes = n \<Longrightarrow> write_at_end n bytes s = s @ bytes"
  by (simp add: write_at_end_def memcpy_at_def)

lemma write_append:
  "write_uint8 v8 s = s @ [v8]" "write_uint16 v16 s = s @ le_bytes 2 v16"
  "write_uint32 v32 s = s @ le_bytes 4 v32" "write_uint64 v64 s = s @ le_bytes 8 v64"
  "write_int32 i s = s @ le_bytes 4 (word_of_int i :: u32)" "write_int64 i s = s @ le_bytes 8 (word_of_int i :: u64)"
  "write_bool b s = s @ [if b then 1 else 0]" "write_varint v64 s = s @ VarInt_encode v64"
  "write_bytes d s = s @ d" "write_string str s = s @ VarInt_encode (of_nat (length str)) @ map byte_of_char str"
  by (simp_all add: write_uint8_def write_uint16_def write_uint32_def write_uint64_def write_int32_def
      write_int64_def write_bool_def write_varint_def write_bytes_def write_string_def codec)

section \<open>The deserializer\<close>

record deserializer =
  des_data :: "byte list"
  des_position :: nat
  des_error :: bool

type_synonym 'a reader = "(deserializer, 'a) state"

abbreviation ret :: "'a \<Rightarrow> 'a reader" where "ret \<equiv> State_Monad.return"

definition MessageDeserializer :: "byte list \<Rightarrow> deserializer" where
  "MessageDeserializer data = \<lparr>des_data = data, des_position = 0, des_error = False\<rparr>"

definition bytes_remaining :: "deserializer \<Rightarrow> nat" where
  "bytes_remaining d = length (des_data d) - des_position d"

definition has_error :: "bool reader" where
  "has_error = map_state des_error State_Monad.get"

definition set_error :: "unit reader" where
  "set_error = State_Monad.update (des_error_update (\<lambda>_. True))"

definition check_available :: "nat \<Rightarrow> unit reader" where
  "check_available bytes = State_Monad.update (\<lambda>d. if bytes_remaining d < bytes then d\<lparr>des_error := True\<rparr> else d)"

text \<open>The pointer \<open>data_ + position_\<close>, and moving it.\<close>

definition cursor :: "deserializer \<Rightarrow> byte list" where
  "cursor d = drop (des_position d) (des_data d)"

definition here :: "byte list reader" where
  "here = map_state cursor State_Monad.get"

definition advance :: "nat \<Rightarrow> unit reader" where
  "advance n = State_Monad.update (des_position_update (\<lambda>p. p + n))"

text \<open>
  A bounds check, then \<open>return dflt\<close> when the object is in error, and otherwise the value of the next
  bytes: the shape that every fixed-size read of the class has.
\<close>

definition read_fixed :: "nat \<Rightarrow> 'a \<Rightarrow> (byte list \<Rightarrow> 'a) \<Rightarrow> 'a reader" where
  "read_fixed n dflt val = do {
     check_available n;
     e \<leftarrow> has_error;
     if e then ret dflt
     else do { p \<leftarrow> here; advance n; ret (val p) }
   }"

definition read_uint8 :: "byte reader" where
  "read_uint8 = read_fixed 1 0 (\<lambda>p. p ! 0)"

definition read_uint16 :: "u16 reader" where
  "read_uint16 = read_fixed 2 0 (ReadLE16 Little)"

definition read_uint32 :: "u32 reader" where
  "read_uint32 = read_fixed 4 0 (ReadLE32 Little)"

definition read_uint64 :: "u64 reader" where
  "read_uint64 = read_fixed 8 0 (ReadLE64 Little)"

definition read_int32 :: "int reader" where
  "read_int32 = map_state sint read_uint32"

definition read_int64 :: "int reader" where
  "read_int64 = map_state sint read_uint64"

definition read_bool :: "bool reader" where
  "read_bool = map_state (\<lambda>b. b \<noteq> 0) read_uint8"

definition MAX_SIZE :: u64 where "MAX_SIZE = 0x02000000"

definition read_varint :: "u64 reader" where
  "read_varint = do {
     check_available 1;
     e \<leftarrow> has_error;
     if e then ret 0
     else do {
       p \<leftarrow> here;
       let (consumed, value) = VarInt_decode 0 p;
       if consumed = 0 then do { set_error; ret 0 }
       else if value > MAX_SIZE then do { set_error; ret 0 }
       else do { advance consumed; ret value }
     }
   }"

definition read_string :: "nat \<Rightarrow> string reader" where
  "read_string max_length = do {
     len \<leftarrow> read_varint;
     e \<leftarrow> has_error;
     p \<leftarrow> here;
     if e \<or> unat len > max_length \<or> unat len > length p then do { set_error; ret [] }
     else do { advance (unat len); ret (map char_of_byte (take (unat len) p)) }
   }"

definition read_bytes :: "nat \<Rightarrow> byte list reader" where
  "read_bytes count = read_fixed count [] (take count)"

section \<open>Readers that stay inside their buffer\<close>

text \<open>
  What every composition of reads keeps: the buffer, the position within it and never moved back, an
  error once raised, and, when no error is raised, a result that more bytes behind the buffer do not
  change.  The last part says that a reader looks only at what it consumes.
\<close>

definition des_wf :: "deserializer \<Rightarrow> bool" where
  "des_wf d \<longleftrightarrow> des_position d \<le> length (des_data d)"

definition with_more :: "byte list \<Rightarrow> deserializer \<Rightarrow> deserializer" where
  "with_more rest d = d\<lparr>des_data := des_data d @ rest\<rparr>"

definition well_behaved :: "'a reader \<Rightarrow> bool" where
  "well_behaved m \<longleftrightarrow> (\<forall>d v d'. des_wf d \<longrightarrow> run_state m d = (v, d') \<longrightarrow>
     des_wf d' \<and> des_data d' = des_data d \<and> des_position d \<le> des_position d' \<and> (des_error d \<longrightarrow> des_error d') \<and>
     (\<not> des_error d' \<longrightarrow> (\<forall>rest. run_state m (with_more rest d) = (v, with_more rest d'))))"

named_theorems readers "readers that stay inside their buffer"

lemma with_more_simps [simp]:
  "des_data (with_more rest d) = des_data d @ rest" "des_position (with_more rest d) = des_position d"
  "des_error (with_more rest d) = des_error d" "des_wf d \<Longrightarrow> des_wf (with_more rest d)"
  "des_wf d \<Longrightarrow> cursor (with_more rest d) = cursor d @ rest"
  by (simp_all add: with_more_def des_wf_def cursor_def)

lemma with_more_update [simp]:
  "with_more rest (d\<lparr>des_error := e\<rparr>) = (with_more rest d)\<lparr>des_error := e\<rparr>"
  "with_more rest (d\<lparr>des_position := p\<rparr>) = (with_more rest d)\<lparr>des_position := p\<rparr>"
  by (simp_all add: with_more_def)

lemma well_behavedI:
  assumes "\<And>d v d'. des_wf d \<Longrightarrow> run_state m d = (v, d') \<Longrightarrow>
     des_wf d' \<and> des_data d' = des_data d \<and> des_position d \<le> des_position d' \<and> (des_error d \<longrightarrow> des_error d')"
    and "\<And>d v d' rest. des_wf d \<Longrightarrow> run_state m d = (v, d') \<Longrightarrow> \<not> des_error d' \<Longrightarrow>
     run_state m (with_more rest d) = (v, with_more rest d')"
  shows "well_behaved m"
  unfolding well_behaved_def using assms by blast

lemma well_behavedD:
  assumes "well_behaved m" "des_wf d" "run_state m d = (v, d')"
  shows "des_wf d'" "des_data d' = des_data d" "des_position d \<le> des_position d'" "des_error d \<Longrightarrow> des_error d'"
    "\<not> des_error d' \<Longrightarrow> run_state m (with_more rest d) = (v, with_more rest d')"
  using assms unfolding well_behaved_def by blast+

lemma well_behaved_ret [readers]: "well_behaved (ret v)"
  by (simp add: well_behaved_def)

lemma well_behaved_bind [readers]:
  assumes m: "well_behaved m" and f: "\<And>v. well_behaved (f v)"
  shows "well_behaved (State_Monad.bind m f)"
proof (rule well_behavedI)
  fix d v d' assume d: "des_wf d" and r: "run_state (State_Monad.bind m f) d = (v, d')"
  obtain v1 d1 where 1: "run_state m d = (v1, d1)" by fastforce
  with r have 2: "run_state (f v1) d1 = (v, d')" by simp
  note a = well_behavedD [OF m d 1] and b = well_behavedD [OF f well_behavedD(1) [OF m d 1] 2]
  show "des_wf d' \<and> des_data d' = des_data d \<and> des_position d \<le> des_position d' \<and> (des_error d \<longrightarrow> des_error d')"
    using a(1-4) b(1-4) by simp
  fix rest assume e: "\<not> des_error d'"
  then have "\<not> des_error d1" using b(4) by blast
  then show "run_state (State_Monad.bind m f) (with_more rest d) = (v, with_more rest d')"
    using a(5) [of rest] b(5) [OF e, of rest] by simp
qed

lemma map_state_bind: "map_state f m = State_Monad.bind m (\<lambda>v. ret (f v))"
  by (rule state_ext) (simp add: state.map_sel split: prod.splits)

lemma well_behaved_map [readers]: "well_behaved m \<Longrightarrow> well_behaved (map_state f m)"
  unfolding map_state_bind by (intro readers)

lemma well_behaved_if [readers]: "well_behaved m \<Longrightarrow> well_behaved n \<Longrightarrow> well_behaved (if b then m else n)"
  by simp

lemma well_behaved_prod [readers]: "(\<And>a b. well_behaved (f a b)) \<Longrightarrow> well_behaved (case p of (a, b) \<Rightarrow> f a b)"
  by (cases p) simp

lemma well_behaved_option [readers]:
  "well_behaved m \<Longrightarrow> (\<And>a. well_behaved (f a)) \<Longrightarrow> well_behaved (case x of None \<Rightarrow> m | Some a \<Rightarrow> f a)"
  by (cases x) simp_all

lemma run_basic [simp]:
  "run_state has_error d = (des_error d, d)" "run_state set_error d = ((), d\<lparr>des_error := True\<rparr>)"
  "run_state here d = (cursor d, d)" "run_state (advance n) d = ((), d\<lparr>des_position := des_position d + n\<rparr>)"
  "run_state (check_available n) d = ((), if bytes_remaining d < n then d\<lparr>des_error := True\<rparr> else d)"
  by (simp_all add: has_error_def set_error_def here_def advance_def check_available_def State_Monad.update_def
      state.map_sel)

lemma length_cursor [simp]: "length (cursor d) = bytes_remaining d"
  by (simp add: cursor_def bytes_remaining_def)

lemma bytes_remaining_update [simp]:
  "bytes_remaining (d\<lparr>des_error := e\<rparr>) = bytes_remaining d" "cursor (d\<lparr>des_error := e\<rparr>) = cursor d"
  "bytes_remaining (d\<lparr>des_position := des_position d + n\<rparr>) = bytes_remaining d - n"
  "cursor (d\<lparr>des_position := des_position d + n\<rparr>) = drop n (cursor d)"
  by (simp_all add: bytes_remaining_def cursor_def add.commute)

lemma bytes_remaining_more [simp]: "des_wf d \<Longrightarrow> bytes_remaining (with_more rest d) = bytes_remaining d + length rest"
  by (simp add: bytes_remaining_def des_wf_def)

lemma des_wf_update [simp]:
  "des_wf (d\<lparr>des_error := e\<rparr>) = des_wf d"
  "des_wf d \<Longrightarrow> n \<le> bytes_remaining d \<Longrightarrow> des_wf (d\<lparr>des_position := des_position d + n\<rparr>)"
  by (simp_all add: des_wf_def bytes_remaining_def)

lemma error_same [simp]: "des_error d \<Longrightarrow> d\<lparr>des_error := True\<rparr> = d"
  by (cases d) simp

lemma well_behaved_error [readers]: "well_behaved has_error" "well_behaved set_error"
  by (auto simp: well_behaved_def)

lemma run_read_fixed:
  "run_state (read_fixed n dflt val) d =
     (if des_error d \<or> bytes_remaining d < n then (dflt, d\<lparr>des_error := True\<rparr>)
      else (val (cursor d), d\<lparr>des_position := des_position d + n\<rparr>))"
  by (simp add: read_fixed_def)

lemma well_behaved_fixed:
  assumes "\<And>p rest. n \<le> length p \<Longrightarrow> val (p @ rest) = val p"
  shows "well_behaved (read_fixed n dflt val)"
  by (rule well_behavedI) (auto simp: run_read_fixed assms split: if_splits)

lemma well_behaved_reads [readers]:
  "well_behaved read_uint8" "well_behaved read_uint16" "well_behaved read_uint32" "well_behaved read_uint64"
  "well_behaved (read_bytes n)"
  unfolding read_uint8_def read_uint16_def read_uint32_def read_uint64_def read_bytes_def
  by (rule well_behaved_fixed; auto simp: nth_append ReadLE_word)+

lemma well_behaved_signed [readers]: "well_behaved read_int32" "well_behaved read_int64" "well_behaved read_bool"
  unfolding read_int32_def read_int64_def read_bool_def by (intro readers)+

lemma VarInt_decode_prefix:
  assumes "VarInt_decode v0 p = (n, v)" "n \<noteq> 0"
  shows "n \<le> length p" "VarInt_decode v0 (p @ rest) = (n, v)"
  using assms by (auto simp: VarInt_decode_def Let_def nth_append ReadLE_word Suc_le_eq split: if_splits)

lemma run_read_varint:
  "run_state read_varint d =
     (case VarInt_decode 0 (cursor d) of (n, v) \<Rightarrow>
        if des_error d \<or> n = 0 \<or> MAX_SIZE < v then (0, d\<lparr>des_error := True\<rparr>)
        else (v, d\<lparr>des_position := des_position d + n\<rparr>))"
proof -
  have "bytes_remaining d < 1 \<Longrightarrow> VarInt_decode 0 (cursor d) = (0, 0)" by (simp add: VarInt_decode_def)
  then show ?thesis by (auto simp: read_varint_def split: prod.splits)
qed

lemma well_behaved_varint [readers]: "well_behaved read_varint"
  by (rule well_behavedI)
    (auto simp: run_read_varint VarInt_decode_prefix split: prod.splits if_splits dest: VarInt_decode_prefix(1))

lemma well_behaved_string [readers]: "well_behaved (read_string max_length)"
proof -
  have "well_behaved (do { p \<leftarrow> here;
     if e \<or> unat len > max_length \<or> unat len > length p then do { set_error; ret [] }
     else do { advance (unat len); ret (map char_of_byte (take (unat len) p)) } })" for e and len :: u64
    by (rule well_behavedI) (auto split: if_splits)
  then show ?thesis unfolding read_string_def
    by (rule well_behaved_bind [OF well_behaved_varint well_behaved_bind [OF well_behaved_error(1)]])
qed

section \<open>Codecs\<close>

text \<open>
  \<open>reads m bs v\<close>: on input that begins with the bytes \<open>bs\<close> the reader returns \<open>v\<close> and moves past exactly
  those bytes.  \<open>yields m P\<close>: whatever the reader returns without error satisfies \<open>P\<close>.
\<close>

definition reads :: "'a reader \<Rightarrow> byte list \<Rightarrow> 'a \<Rightarrow> bool" where
  "reads m bs v \<longleftrightarrow> (\<forall>d rest. des_wf d \<longrightarrow> \<not> des_error d \<longrightarrow> cursor d = bs @ rest \<longrightarrow>
     run_state m d = (v, d\<lparr>des_position := des_position d + length bs\<rparr>))"

definition yields :: "'a reader \<Rightarrow> ('a \<Rightarrow> bool) \<Rightarrow> bool" where
  "yields m P \<longleftrightarrow> (\<forall>d v d'. des_wf d \<longrightarrow> run_state m d = (v, d') \<longrightarrow> \<not> des_error d' \<longrightarrow> P v)"

lemma readsD:
  "reads m bs v \<Longrightarrow> des_wf d \<Longrightarrow> \<not> des_error d \<Longrightarrow> cursor d = bs @ rest \<Longrightarrow>
   run_state m d = (v, d\<lparr>des_position := des_position d + length bs\<rparr>)"
  by (simp add: reads_def)

lemma reads_ret: "reads (ret v) [] v"
  by (simp add: reads_def)

lemma reads_bind:
  assumes m: "reads m bs v" and f: "reads (f v) cs w"
  shows "reads (State_Monad.bind m f) (bs @ cs) w"
  unfolding reads_def
proof (intro allI impI)
  fix d rest assume d: "des_wf d" "\<not> des_error d" "cursor d = (bs @ cs) @ rest"
  let ?d = "d\<lparr>des_position := des_position d + length bs\<rparr>"
  have "length (cursor d) = length bs + length cs + length rest" using d(3) by simp
  then have wf: "des_wf ?d" using d(1) by (intro des_wf_update(2)) simp_all
  have 1: "run_state m d = (v, ?d)" by (rule readsD [OF m d(1,2), of "cs @ rest"]) (simp add: d(3))
  have 2: "run_state (f v) ?d = (w, ?d\<lparr>des_position := des_position ?d + length cs\<rparr>)"
    by (rule readsD [OF f wf, of rest]) (simp_all add: d)
  show "run_state (State_Monad.bind m f) d = (w, d\<lparr>des_position := des_position d + length (bs @ cs)\<rparr>)"
    using 1 2 by (simp add: add.assoc)
qed

lemma reads_bind_last: "reads m bs v \<Longrightarrow> reads (f v) [] w \<Longrightarrow> reads (State_Monad.bind m f) bs w"
  using reads_bind [of m bs v f "[]" w] by simp

lemma reads_map: "reads m bs v \<Longrightarrow> reads (map_state f m) bs (f v)"
  unfolding map_state_bind by (erule reads_bind_last) (rule reads_ret)

lemma reads_has_error: "reads has_error [] False"
  by (simp add: reads_def)

lemma reads_fixed: "length bs = n \<Longrightarrow> (\<And>rest. val (bs @ rest) = v) \<Longrightarrow> reads (read_fixed n dflt val) bs v"
  unfolding reads_def
proof (intro allI impI)
  fix d rest
  assume a: "length bs = n" "\<And>rest. val (bs @ rest) = v" and d: "des_wf d" "\<not> des_error d" "cursor d = bs @ rest"
  have "bytes_remaining d = n + length rest" using length_cursor [of d] a(1) d(3) by simp
  then show "run_state (read_fixed n dflt val) d = (v, d\<lparr>des_position := des_position d + length bs\<rparr>)"
    using a d by (simp add: run_read_fixed)
qed

lemma yieldsD: "yields m P \<Longrightarrow> des_wf d \<Longrightarrow> run_state m d = (v, d') \<Longrightarrow> \<not> des_error d' \<Longrightarrow> P v"
  unfolding yields_def by blast

lemma yields_any: "(\<And>v. P v) \<Longrightarrow> yields m P"
  by (simp add: yields_def)

lemma yields_ret: "P v \<Longrightarrow> yields (ret v) P"
  by (simp add: yields_def)

lemma yields_bind:
  assumes "well_behaved m" "\<And>v. well_behaved (f v)" "yields m P" "\<And>v. P v \<Longrightarrow> yields (f v) Q"
  shows "yields (State_Monad.bind m f) Q"
  unfolding yields_def
proof (intro allI impI)
  fix d w d' assume d: "des_wf d" and r: "run_state (State_Monad.bind m f) d = (w, d')" and e: "\<not> des_error d'"
  obtain v d1 where 1: "run_state m d = (v, d1)" by fastforce
  with r have 2: "run_state (f v) d1 = (w, d')" by simp
  have wf: "des_wf d1" by (rule well_behavedD(1) [OF assms(1) d 1])
  have "\<not> des_error d1" using well_behavedD(4) [OF assms(2) wf 2] e by blast
  then have "P v" by (rule yieldsD [OF assms(3) d 1])
  then show "Q w" using yieldsD [OF assms(4) wf 2 e] by blast
qed

lemma yields_map: "well_behaved m \<Longrightarrow> yields m (\<lambda>v. P (f v)) \<Longrightarrow> yields (map_state f m) P"
  unfolding map_state_bind by (erule yields_bind [where P = "\<lambda>v. P (f v)"]) (auto intro: readers yields_ret)

lemma yields_fixed:
  "(\<And>p. n \<le> length p \<Longrightarrow> P (val p)) \<Longrightarrow> yields (read_fixed n dflt val) P"
  by (auto simp: yields_def run_read_fixed split: if_splits)

lemma yields_if: "(b \<Longrightarrow> yields m P) \<Longrightarrow> (\<not> b \<Longrightarrow> yields n P) \<Longrightarrow> yields (if b then m else n) P"
  by simp

text \<open>The contract between a writer and a reader of the same values.\<close>

locale wire_codec =
  fixes enc :: "'a \<Rightarrow> byte list" and dec :: "'a reader" and valid :: "'a \<Rightarrow> bool"
  assumes dec_enc: "valid x \<Longrightarrow> reads dec (enc x) x"
    and dec_local: "well_behaved dec"
    and dec_valid: "yields dec valid"
begin

lemma decode_whole:
  "valid x \<Longrightarrow> run_state dec (MessageDeserializer (enc x @ rest)) =
     (x, \<lparr>des_data = enc x @ rest, des_position = length (enc x), des_error = False\<rparr>)"
  by (subst readsD [OF dec_enc]) (auto simp: MessageDeserializer_def des_wf_def cursor_def)

lemma enc_inj: "valid x \<Longrightarrow> valid y \<Longrightarrow> enc x = enc y \<Longrightarrow> x = y"
  using decode_whole [of x "[]"] decode_whole [of y "[]"] by simp

text \<open>No strict prefix of an encoding is read without error.\<close>

lemma decode_truncated:
  assumes "valid x" "n < length (enc x)" "run_state dec (MessageDeserializer (take n (enc x))) = (y, d')"
  shows "des_error d'"
proof (rule ccontr)
  let ?d = "MessageDeserializer (take n (enc x))"
  assume e: "\<not> des_error d'"
  have wf: "des_wf ?d" by (simp add: MessageDeserializer_def des_wf_def)
  note w = well_behavedD [OF dec_local wf assms(3)]
  have "with_more (drop n (enc x)) ?d = MessageDeserializer (enc x @ [])"
    by (simp add: with_more_def MessageDeserializer_def)
  then have "des_position (with_more (drop n (enc x)) d') = length (enc x)"
    using w(5) [OF e, of "drop n (enc x)"] decode_whole [OF assms(1), of "[]"] by simp
  moreover have "des_position d' \<le> n" using w(1,2) by (simp add: des_wf_def MessageDeserializer_def)
  ultimately show False using assms(2) by simp
qed

end

abbreviation any_value :: "'a \<Rightarrow> bool" where "any_value \<equiv> \<lambda>_. True"

definition in_int32 :: "int \<Rightarrow> bool" where "in_int32 i \<longleftrightarrow> - (2 ^ 31) \<le> i \<and> i < 2 ^ 31"
definition in_int64 :: "int \<Rightarrow> bool" where "in_int64 i \<longleftrightarrow> - (2 ^ 63) \<le> i \<and> i < 2 ^ 63"

lemma sint_word_of_int32: "in_int32 i \<Longrightarrow> sint (word_of_int i :: u32) = i"
  by (simp add: in_int32_def signed_of_int signed_take_bit_int_eq_self)

lemma sint_word_of_int64: "in_int64 i \<Longrightarrow> sint (word_of_int i :: u64) = i"
  by (simp add: in_int64_def signed_of_int signed_take_bit_int_eq_self)

lemma sint_in_range: "in_int32 (sint (w :: u32))" "in_int64 (sint (v :: u64))"
  using sint_greater_eq [of w] sint_less [of w] sint_greater_eq [of v] sint_less [of v]
  by (simp_all add: in_int32_def in_int64_def)

interpretation wire8: wire_codec "\<lambda>v. [v]" read_uint8 any_value
proof unfold_locales
  show "reads read_uint8 [v] v" for v unfolding read_uint8_def by (rule reads_fixed) simp_all
qed (auto intro: readers yields_any)

interpretation wire16: wire_codec "le_bytes 2" read_uint16 any_value
  by unfold_locales (auto simp: read_uint16_def codec intro: reads_fixed yields_any well_behaved_fixed)

interpretation wire32: wire_codec "le_bytes 4" read_uint32 any_value
  by unfold_locales (auto simp: read_uint32_def codec intro: reads_fixed yields_any well_behaved_fixed)

interpretation wire64: wire_codec "le_bytes 8" read_uint64 any_value
  by unfold_locales (auto simp: read_uint64_def codec intro: reads_fixed yields_any well_behaved_fixed)

interpretation wire_int32: wire_codec "\<lambda>i. le_bytes 4 (word_of_int i :: u32)" read_int32 in_int32
proof unfold_locales
  show "reads read_int32 (le_bytes 4 (word_of_int i :: u32)) i" if "in_int32 i" for i
    using reads_map [OF wire32.dec_enc [of "word_of_int i"], of sint] that by (simp add: read_int32_def sint_word_of_int32)
qed (auto simp: read_int32_def intro: readers yields_map yields_any sint_in_range)

interpretation wire_int64: wire_codec "\<lambda>i. le_bytes 8 (word_of_int i :: u64)" read_int64 in_int64
proof unfold_locales
  show "reads read_int64 (le_bytes 8 (word_of_int i :: u64)) i" if "in_int64 i" for i
    using reads_map [OF wire64.dec_enc [of "word_of_int i"], of sint] that by (simp add: read_int64_def sint_word_of_int64)
qed (auto simp: read_int64_def intro: readers yields_map yields_any sint_in_range)

interpretation wire_bool: wire_codec "\<lambda>b. [if b then 1 else 0]" read_bool any_value
proof unfold_locales
  show "reads read_bool [if b then 1 else 0] b" for b
    using reads_map [OF wire8.dec_enc [of "if b then 1 else 0"], of "\<lambda>b. b \<noteq> 0"] by (cases b) (simp_all add: read_bool_def)
qed (auto intro: readers yields_any)

interpretation wire_bytes: wire_codec "\<lambda>bs. bs" "read_bytes n" "\<lambda>bs. length bs = n" for n
  by unfold_locales (auto simp: read_bytes_def intro: reads_fixed well_behaved_fixed yields_fixed)

interpretation wire_varint: wire_codec VarInt_encode read_varint "\<lambda>v. v \<le> MAX_SIZE"
proof unfold_locales
  show "reads read_varint (VarInt_encode v) v" if "v \<le> MAX_SIZE" for v
    using that by (auto simp: reads_def run_read_varint VarInt_decode_encode VarInt_encoded_size_def)
qed (auto simp: yields_def run_read_varint intro: readers split: prod.splits if_splits)

lemma unat_size: "unat MAX_SIZE = 0x2000000" "n \<le> 0x2000000 \<Longrightarrow> unat (of_nat n :: u64) = n"
  "n \<le> 0x2000000 \<Longrightarrow> (of_nat n :: u64) \<le> MAX_SIZE"
  by (simp_all add: MAX_SIZE_def unat_of_nat word_le_nat_alt)

interpretation wire_string: wire_codec "\<lambda>str. VarInt_encode (of_nat (length str)) @ map byte_of_char str" "read_string m"
  "\<lambda>str. length str \<le> m \<and> length str \<le> 0x2000000" for m
proof unfold_locales
  fix str :: string assume l: "length str \<le> m \<and> length str \<le> 0x2000000"
  have "reads (do { e \<leftarrow> has_error; p \<leftarrow> here;
     if e \<or> unat (of_nat (length str) :: u64) > m \<or> unat (of_nat (length str) :: u64) > length p then do { set_error; ret [] }
     else do { advance (unat (of_nat (length str) :: u64)); ret (map char_of_byte (take (unat (of_nat (length str) :: u64)) p)) } })
     (map byte_of_char str) str"
    unfolding reads_def
  proof (intro allI impI)
    fix d rest assume d: "des_wf d" "\<not> des_error d" "cursor d = map byte_of_char str @ rest"
    have "bytes_remaining d = length str + length rest" using length_cursor [of d] d(3) by simp
    then show "run_state (do { e \<leftarrow> has_error; p \<leftarrow> here;
       if e \<or> unat (of_nat (length str) :: u64) > m \<or> unat (of_nat (length str) :: u64) > length p then do { set_error; ret [] }
       else do { advance (unat (of_nat (length str) :: u64)); ret (map char_of_byte (take (unat (of_nat (length str) :: u64)) p)) } }) d =
       (str, d\<lparr>des_position := des_position d + length (map byte_of_char str)\<rparr>)"
      using d l by (simp add: unat_size del: map_map)
  qed
  then show "reads (read_string m) (VarInt_encode (of_nat (length str)) @ map byte_of_char str) str"
    unfolding read_string_def using l by (intro reads_bind [OF wire_varint.dec_enc]) (simp_all add: unat_size)
next
  show "yields (read_string m) (\<lambda>str. length str \<le> m \<and> length str \<le> 0x2000000)"
    unfolding yields_def
  proof (intro allI impI)
    fix d v d' assume d: "des_wf d" and r: "run_state (read_string m) d = (v, d')" and e: "\<not> des_error d'"
    obtain len d1 where 1: "run_state read_varint d = (len, d1)" by fastforce
    have "\<not> des_error d1" "unat len \<le> m" "length v = unat len" using r e by (auto simp: read_string_def 1 split: if_splits)
    moreover have "unat len \<le> 0x2000000"
      using yieldsD [OF wire_varint.dec_valid d 1] calculation(1) by (simp add: word_le_nat_alt MAX_SIZE_def)
    ultimately show "length v \<le> m \<and> length v \<le> 0x2000000" by simp
  qed
qed (rule readers)

end
