(* ===== verification/Protocol.thy ===== *)
theory Protocol
  imports Wire
begin

text \<open>
  The protocol structures (include/network/protocol.hpp, src/network/protocol.cpp) and the 24-byte
  message header (serialize_header and deserialize_header of src/network/message.cpp).  The IP address
  library is a parameter.
\<close>

section \<open>Constants\<close>

definition PROTOCOL_VERSION :: u32 where "PROTOCOL_VERSION = 1"
definition MIN_PROTOCOL_VERSION :: u32 where "MIN_PROTOCOL_VERSION = 1"
definition magic_MAINNET :: u32 where "magic_MAINNET = 0x554E4943"
definition magic_TESTNET :: u32 where "magic_TESTNET = 0xA3F8D412"
definition magic_REGTEST :: u32 where "magic_REGTEST = 0x4B7C2E91"
definition port_MAINNET :: u16 where "port_MAINNET = 9590"
definition port_TESTNET :: u16 where "port_TESTNET = 19590"
definition port_REGTEST :: u16 where "port_REGTEST = 29590"
definition NODE_NONE :: u64 where "NODE_NONE = 0"
definition NODE_NETWORK :: u64 where "NODE_NETWORK = 1"
definition MESSAGE_HEADER_SIZE :: nat where "MESSAGE_HEADER_SIZE = 24"
definition COMMAND_SIZE :: nat where "COMMAND_SIZE = 12"
definition CHECKSUM_SIZE :: nat where "CHECKSUM_SIZE = 4"
definition MAX_VECTOR_ALLOCATE :: nat where "MAX_VECTOR_ALLOCATE = 5 * 1000 * 1000"
definition MAX_PROTOCOL_MESSAGE_LENGTH :: nat where "MAX_PROTOCOL_MESSAGE_LENGTH = 4 * 1000 * 1000"
definition DEFAULT_SEND_QUEUE_SIZE :: nat where "DEFAULT_SEND_QUEUE_SIZE = 5 * 1000 * 1000"
definition DEFAULT_RECV_FLOOD_SIZE :: nat where "DEFAULT_RECV_FLOOD_SIZE = 5 * 1000 * 1000"
definition MAX_LOCATOR_SZ :: nat where "MAX_LOCATOR_SZ = 101"
definition MAX_INV_SIZE :: nat where "MAX_INV_SIZE = 50000"
definition MAX_HEADERS_SIZE :: nat where "MAX_HEADERS_SIZE = 2000"
definition MAX_ADDR_SIZE :: nat where "MAX_ADDR_SIZE = 1000"
definition MAX_SUBVERSION_LENGTH :: nat where "MAX_SUBVERSION_LENGTH = 256"

text \<open>\<open>InventoryType\<close> has the underlying type \<open>uint32_t\<close>, and the code casts any such value to it.\<close>

type_synonym InventoryType = u32

definition INV_ERROR :: InventoryType where "INV_ERROR = 0"
definition MSG_BLOCK :: InventoryType where "MSG_BLOCK = 2"

lemmas limit_defs = MAX_VECTOR_ALLOCATE_def MAX_PROTOCOL_MESSAGE_LENGTH_def MAX_LOCATOR_SZ_def MAX_INV_SIZE_def
  MAX_HEADERS_SIZE_def MAX_ADDR_SIZE_def MAX_SUBVERSION_LENGTH_def

section \<open>Message header\<close>

record MessageHeader =
  mh_magic :: u32
  mh_command :: string
  mh_length :: u32
  mh_checksum :: "byte list"

abbreviation NUL :: char where "NUL \<equiv> CHR 0x00"

definition set_command :: "string \<Rightarrow> MessageHeader \<Rightarrow> MessageHeader" where
  "set_command cmd h =
     (let command = replicate COMMAND_SIZE NUL; copy_len = min (length cmd) COMMAND_SIZE
      in h\<lparr>mh_command := take copy_len cmd @ drop copy_len command\<rparr>)"

definition get_command :: "MessageHeader \<Rightarrow> string" where
  "get_command h = takeWhile (\<lambda>c. c \<noteq> NUL) (mh_command h)"

definition null_MessageHeader :: MessageHeader where
  "null_MessageHeader = \<lparr>mh_magic = 0, mh_command = replicate COMMAND_SIZE NUL, mh_length = 0, mh_checksum = replicate CHECKSUM_SIZE 0\<rparr>"

definition new_MessageHeader :: "u32 \<Rightarrow> string \<Rightarrow> u32 \<Rightarrow> MessageHeader" where
  "new_MessageHeader magic cmd len =
     (set_command cmd (null_MessageHeader\<lparr>mh_magic := magic, mh_length := len\<rparr>))\<lparr>mh_checksum := replicate CHECKSUM_SIZE 0\<rparr>"

definition serialize_header :: "MessageHeader \<Rightarrow> byte list" where
  "serialize_header header =
     (let buffer = replicate MESSAGE_HEADER_SIZE 0; pos = 0;
          buffer = memcpy_at buffer pos (WriteLE32 Little (mh_magic header)); pos = pos + 4;
          buffer = memcpy_at buffer pos (map byte_of_char (mh_command header)); pos = pos + COMMAND_SIZE;
          buffer = memcpy_at buffer pos (WriteLE32 Little (mh_length header)); pos = pos + 4
      in memcpy_at buffer pos (mh_checksum header))"

text \<open>The loop over the command field: \<open>found_nul\<close> so far, then the bytes left; \<open>None\<close> is \<open>return false\<close>.\<close>

fun command_scan :: "bool \<Rightarrow> byte list \<Rightarrow> bool option" where
  "command_scan found_nul [] = Some found_nul"
| "command_scan found_nul (c # cs) =
     (if \<not> found_nul then
        if c = 0 then command_scan True cs
        else if c < 0x20 \<or> c > 0x7e then None
        else command_scan found_nul cs
      else if c \<noteq> 0 then None
      else command_scan found_nul cs)"

text \<open>
  \<open>None\<close> is the result \<open>false\<close>; the caller's header object then holds the fields read so far, which no
  caller looks at.
\<close>

definition deserialize_header :: "byte list \<Rightarrow> MessageHeader option" where
  "deserialize_header data =
     (if length data < MESSAGE_HEADER_SIZE then None
      else
        let magic = ReadLE32 Little data;
            command = take COMMAND_SIZE (drop 4 data)
        in case command_scan False command of
             None \<Rightarrow> None
           | Some found_nul \<Rightarrow>
               if \<not> found_nul then None
               else
                 let len = ReadLE32 Little (drop (4 + COMMAND_SIZE) data)
                 in if unat len > MAX_PROTOCOL_MESSAGE_LENGTH then None
                    else Some \<lparr>mh_magic = magic, mh_command = map char_of_byte command, mh_length = len,
                           mh_checksum = take CHECKSUM_SIZE (drop (4 + COMMAND_SIZE + 4) data)\<rparr>)"

lemmas header_sizes = MESSAGE_HEADER_SIZE_def COMMAND_SIZE_def CHECKSUM_SIZE_def

text \<open>The headers a peer may send: a printable command that ends in NULs, a bounded payload.\<close>

definition printable :: "char \<Rightarrow> bool" where
  "printable c \<longleftrightarrow> 0x20 \<le> (of_char c :: nat) \<and> (of_char c :: nat) \<le> 0x7e"

definition message_header_ok :: "MessageHeader \<Rightarrow> bool" where
  "message_header_ok h \<longleftrightarrow>
     (let cmd = takeWhile (\<lambda>c. c \<noteq> NUL) (mh_command h)
      in length cmd < COMMAND_SIZE \<and> mh_command h = cmd @ replicate (COMMAND_SIZE - length cmd) NUL \<and>
         list_all printable cmd) \<and>
     length (mh_checksum h) = CHECKSUM_SIZE \<and> unat (mh_length h) \<le> MAX_PROTOCOL_MESSAGE_LENGTH"

lemma command_scan_tail: "command_scan True cs = (if list_all (\<lambda>c. c = 0) cs then Some True else None)"
  by (induction cs) auto

definition printable_byte :: "byte \<Rightarrow> bool" where
  "printable_byte c \<longleftrightarrow> 0x20 \<le> c \<and> c \<le> 0x7e"

lemma command_scan_iff:
  "command_scan False cs = Some True \<longleftrightarrow>
     (let cmd = takeWhile (\<lambda>c. c \<noteq> 0) cs
      in length cmd < length cs \<and> cs = cmd @ replicate (length cs - length cmd) 0 \<and> list_all printable_byte cmd)"
proof (induction cs)
  case (Cons c cs)
  have z: "list_all (\<lambda>c. c = 0) cs \<longleftrightarrow> cs = replicate (length cs) 0"
    by (induction cs) auto
  show ?case
    using Cons.IH z by (auto simp: Let_def command_scan_tail printable_byte_def not_less not_le)
qed simp

lemma byte_of_char_inj: "byte_of_char c = byte_of_char c' \<longleftrightarrow> c = c'"
  by (metis char_of_byte_of_char)

lemma byte_of_NUL [simp]: "byte_of_char NUL = 0"
  by (simp add: byte_of_char_def)

lemma byte_of_char_eq_0 [simp]: "byte_of_char c = 0 \<longleftrightarrow> c = NUL"
  using byte_of_char_inj [of c NUL] by simp

lemma printable_byte_of_char [simp]: "printable_byte (byte_of_char c) = printable c"
  by (simp add: printable_byte_def printable_def byte_of_char_def word_le_nat_alt unat_of_nat)

lemma takeWhile_command: "takeWhile (\<lambda>b. b \<noteq> 0) (map byte_of_char s) = map byte_of_char (takeWhile (\<lambda>c. c \<noteq> NUL) s)"
  by (simp add: takeWhile_map comp_def)

lemma map_byte_of_char_eq: "map byte_of_char s = map byte_of_char t \<longleftrightarrow> s = t"
  by (metis map_char_of_byte)

lemma command_scan_ok:
  "length (mh_command h) = COMMAND_SIZE \<Longrightarrow>
   command_scan False (map byte_of_char (mh_command h)) = Some True \<longleftrightarrow>
   (let cmd = takeWhile (\<lambda>c. c \<noteq> NUL) (mh_command h)
    in length cmd < COMMAND_SIZE \<and> mh_command h = cmd @ replicate (COMMAND_SIZE - length cmd) NUL \<and> list_all printable cmd)"
proof -
  assume l: "length (mh_command h) = COMMAND_SIZE"
  define cmd where "cmd = takeWhile (\<lambda>c. c \<noteq> NUL) (mh_command h)"
  have "map byte_of_char (mh_command h) = map byte_of_char cmd @ replicate (COMMAND_SIZE - length cmd) 0 \<longleftrightarrow>
      mh_command h = cmd @ replicate (COMMAND_SIZE - length cmd) NUL"
    using map_byte_of_char_eq [of "mh_command h" "cmd @ replicate (COMMAND_SIZE - length cmd) NUL"] by simp
  then show ?thesis
    using l by (simp add: command_scan_iff takeWhile_command Let_def list_all_length flip: cmd_def)
qed

lemma serialize_header_layout:
  assumes "length (mh_command h) = COMMAND_SIZE" "length (mh_checksum h) = CHECKSUM_SIZE"
  shows "serialize_header h = WriteLE32 Little (mh_magic h) @ map byte_of_char (mh_command h) @
    WriteLE32 Little (mh_length h) @ mh_checksum h"
  using assms by (simp add: serialize_header_def Let_def header_sizes memcpy_at_start memcpy_at_replicate
        WriteLE_bytes flip: append_assoc)

lemma message_header_ok_typed:
  "message_header_ok h \<Longrightarrow> length (mh_command h) = COMMAND_SIZE \<and> length (mh_checksum h) = CHECKSUM_SIZE"
  unfolding message_header_ok_def Let_def by (metis add_diff_inverse_nat length_append length_replicate less_imp_not_less)

lemma deserialize_serialize_header:
  assumes "message_header_ok h"
  shows "deserialize_header (serialize_header h @ rest) = Some h"
proof -
  note l = message_header_ok_typed [OF assms]
  have "command_scan False (map byte_of_char (mh_command h)) = Some True"
    using assms l command_scan_ok [of h] by (simp add: message_header_ok_def)
  then show ?thesis
    using assms l unfolding deserialize_header_def serialize_header_layout [OF conjunct1 [OF l] conjunct2 [OF l]]
    by (simp add: header_sizes codec Let_def message_header_ok_def comp_def)
qed

lemma deserialize_header_sound:
  assumes "deserialize_header data = Some h"
  shows "message_header_ok h \<and> serialize_header h = take MESSAGE_HEADER_SIZE data \<and> MESSAGE_HEADER_SIZE \<le> length data"
proof -
  let ?c = "take 12 (drop 4 data)"
  have len: "24 \<le> length data" and scan: "command_scan False ?c = Some True"
    and max: "unat (ReadLE32 Little (drop 16 data)) \<le> MAX_PROTOCOL_MESSAGE_LENGTH"
    and h: "h = \<lparr>mh_magic = ReadLE32 Little data, mh_command = map char_of_byte ?c, mh_length = ReadLE32 Little (drop 16 data),
                 mh_checksum = take 4 (drop 20 data)\<rparr>"
    using assms by (auto simp: deserialize_header_def header_sizes Let_def not_less split: if_splits option.splits)
  have l: "length (mh_command h) = COMMAND_SIZE" "length (mh_checksum h) = CHECKSUM_SIZE"
    using len by (simp_all add: h header_sizes)
  have c: "map byte_of_char (mh_command h) = ?c" by (simp add: h comp_def)
  have "message_header_ok h"
    using command_scan_ok [OF l(1)] scan max l(2) unfolding c by (simp add: message_header_ok_def h)
  moreover have w: "WriteLE32 Little (ReadLE32 Little (drop n data)) = take 4 (drop n data)" if "n + 4 \<le> 24" for n
    using that len by (simp add: WriteLE_bytes ReadLE_word le_bytes_le_nat)
  have "serialize_header h = take 4 data @ ?c @ take 4 (drop 16 data) @ take 4 (drop 20 data)"
    using w [of 0] w [of 16] unfolding serialize_header_layout [OF l] c by (simp add: h)
  moreover have "take 24 data = take 4 data @ take 12 (drop 4 data) @ take 4 (drop 16 data) @ take 4 (drop 20 data)"
    using take_add [of 4 20 data] take_add [of 12 8 "drop 4 data"] take_add [of 4 4 "drop 16 data"] by simp
  ultimately show ?thesis using len by (simp add: header_sizes)
qed

section \<open>Network addresses\<close>

record NetworkAddress =
  na_services :: u64
  na_ip :: "byte list"
  na_port :: u16

definition na_typed :: "NetworkAddress \<Rightarrow> bool" where
  "na_typed a \<longleftrightarrow> length (na_ip a) = 16"

definition null_NetworkAddress :: NetworkAddress where
  "null_NetworkAddress = \<lparr>na_services = 0, na_ip = replicate 16 0, na_port = 0\<rparr>"

definition from_ipv4 :: "u64 \<Rightarrow> u32 \<Rightarrow> u16 \<Rightarrow> NetworkAddress" where
  "from_ipv4 services ipv4 port =
     (let addr = null_NetworkAddress\<lparr>na_services := services, na_port := port\<rparr>;
          ip = replicate 16 0;
          ip = ip[10 := 0xff];
          ip = ip[11 := 0xff];
          ip = ip[12 := ucast (drop_bit 24 ipv4 AND 0xff)];
          ip = ip[13 := ucast (drop_bit 16 ipv4 AND 0xff)];
          ip = ip[14 := ucast (drop_bit 8 ipv4 AND 0xff)];
          ip = ip[15 := ucast (ipv4 AND 0xff)]
      in addr\<lparr>na_ip := ip\<rparr>)"

definition is_ipv4 :: "NetworkAddress \<Rightarrow> bool" where
  "is_ipv4 a \<longleftrightarrow>
     na_ip a ! 0 = 0 \<and> na_ip a ! 1 = 0 \<and> na_ip a ! 2 = 0 \<and> na_ip a ! 3 = 0 \<and> na_ip a ! 4 = 0 \<and>
     na_ip a ! 5 = 0 \<and> na_ip a ! 6 = 0 \<and> na_ip a ! 7 = 0 \<and> na_ip a ! 8 = 0 \<and> na_ip a ! 9 = 0 \<and>
     na_ip a ! 10 = 0xff \<and> na_ip a ! 11 = 0xff"

definition get_ipv4 :: "NetworkAddress \<Rightarrow> u32" where
  "get_ipv4 a =
     (if \<not> is_ipv4 a then 0
      else push_bit 24 (ucast (na_ip a ! 12)) OR push_bit 16 (ucast (na_ip a ! 13)) OR
           push_bit 8 (ucast (na_ip a ! 14)) OR ucast (na_ip a ! 15))"

text \<open>The comparison operators; \<open>std::array\<close> compares lexicographically.\<close>

definition na_less :: "NetworkAddress \<Rightarrow> NetworkAddress \<Rightarrow> bool" where
  "na_less a b =
     (if na_ip a \<noteq> na_ip b then na_ip a < na_ip b
      else if na_port a \<noteq> na_port b then na_port a < na_port b
      else na_services a < na_services b)"

definition na_equal :: "NetworkAddress \<Rightarrow> NetworkAddress \<Rightarrow> bool" where
  "na_equal a b \<longleftrightarrow> na_ip a = na_ip b \<and> na_port a = na_port b \<and> na_services a = na_services b"

lemma na_equal_iff [simp]: "na_equal a b \<longleftrightarrow> a = b"
  by (cases a; cases b) (auto simp: na_equal_def)

lemma na_less_linear: "\<not> na_less a a" "na_less a b \<Longrightarrow> na_less b c \<Longrightarrow> na_less a c" "na_less a b \<or> a = b \<or> na_less b a"
proof -
  show "\<not> na_less a a" by (simp add: na_less_def)
  show "na_less a b \<Longrightarrow> na_less b c \<Longrightarrow> na_less a c"
    by (auto simp: na_less_def split: if_splits)
  show "na_less a b \<or> a = b \<or> na_less b a"
    by (cases a; cases b) (auto simp: na_less_def split: if_splits)
qed

lemma na_typed_from_ipv4 [simp]: "na_typed (from_ipv4 s v p)"
  by (simp add: na_typed_def from_ipv4_def Let_def)

lemma get_ipv4_from_ipv4 [simp]: "get_ipv4 (from_ipv4 s v p) = v"
proof -
  have m: "(0xff :: u32) = mask 8" by (simp add: mask_eq_exp_minus_1)
  have i: "is_ipv4 (from_ipv4 s v p)" by (simp add: is_ipv4_def from_ipv4_def Let_def)
  let ?w = "push_bit 24 (ucast (ucast (drop_bit 24 v AND mask 8) :: byte)) OR push_bit 16 (ucast (ucast (drop_bit 16 v AND mask 8) :: byte)) OR
      push_bit 8 (ucast (ucast (drop_bit 8 v AND mask 8) :: byte)) OR ucast (ucast (v AND mask 8) :: byte) :: u32"
  have "get_ipv4 (from_ipv4 s v p) = ?w"
    using i by (simp add: get_ipv4_def from_ipv4_def Let_def m)
  also have "\<dots> = v"
  proof (rule bit_word_eqI)
    fix n assume "n < LENGTH(32)"
    then obtain k r where n: "n = 8 * k + r" and r: "r < 8" and "k < 4"
      using byte_position [of n 4] by auto
    from this(3) consider "k = 0" | "k = 1" | "k = 2" | "k = 3" by linarith
    then show "bit ?w n = bit v n"
      by cases (use n r in \<open>simp_all add: bit_simps\<close>)
  qed
  finally show ?thesis .
qed

section \<open>Address strings\<close>

text \<open>
  The parts of \<open>boost::asio::ip\<close> the code calls.  An IPv6 address is its 16 bytes, an IPv4 address its
  number; \<open>None\<close> is an error code or an exception.
\<close>

datatype ip_address = V4 u32 | V6 "byte list"

record ip_lib =
  make_address :: "string \<Rightarrow> ip_address option"
  make_address_v6 :: "u32 \<Rightarrow> byte list"
  is_v4_mapped :: "byte list \<Rightarrow> bool"
  make_address_v4 :: "byte list \<Rightarrow> u32"
  v4_to_string :: "u32 \<Rightarrow> string option"
  v6_to_string :: "byte list \<Rightarrow> string option"

definition from_string :: "ip_lib \<Rightarrow> string \<Rightarrow> u16 \<Rightarrow> u64 \<Rightarrow> NetworkAddress" where
  "from_string lib ip_str port services =
     (let addr = null_NetworkAddress\<lparr>na_services := services, na_port := port\<rparr>
      in case make_address lib ip_str of
           None \<Rightarrow> addr\<lparr>na_ip := replicate 16 0\<rparr>
         | Some (V4 v4) \<Rightarrow> addr\<lparr>na_ip := make_address_v6 lib v4\<rparr>
         | Some (V6 bytes) \<Rightarrow> addr\<lparr>na_ip := bytes\<rparr>)"

definition NetworkAddressToString :: "ip_lib \<Rightarrow> NetworkAddress \<Rightarrow> string option" where
  "NetworkAddressToString lib addr =
     (let v6_addr = na_ip addr
      in if is_v4_mapped lib v6_addr then v4_to_string lib (make_address_v4 lib v6_addr)
         else v6_to_string lib v6_addr)"

text \<open>
  The documented behaviour of the library: the mapped range is \<open>::ffff:0:0/96\<close>, the conversions between
  an IPv4 address and its mapped form are inverse to each other, printing never fails on an address and
  parsing inverts it.
\<close>

definition v4_prefix :: "byte list" where
  "v4_prefix = replicate 10 0 @ [0xff, 0xff]"

definition ip_lib_ok :: "ip_lib \<Rightarrow> bool" where
  "ip_lib_ok lib \<longleftrightarrow>
     (\<forall>b. length b = 16 \<longrightarrow> is_v4_mapped lib b = (take 12 b = v4_prefix)) \<and>
     (\<forall>v. make_address_v6 lib v = v4_prefix @ rev (le_bytes 4 v)) \<and>
     (\<forall>v. make_address_v4 lib (v4_prefix @ rev (le_bytes 4 v)) = v) \<and>
     (\<forall>v. \<exists>s. v4_to_string lib v = Some s \<and> make_address lib s = Some (V4 v)) \<and>
     (\<forall>b. length b = 16 \<longrightarrow> (\<exists>s. v6_to_string lib b = Some s \<and> make_address lib s = Some (V6 b))) \<and>
     (\<forall>s b. make_address lib s = Some (V6 b) \<longrightarrow> length b = 16)"

lemma mapped_bytes:
  assumes "length b = 16" "take 12 b = v4_prefix"
  shows "\<exists>v :: u32. b = v4_prefix @ rev (le_bytes 4 v)"
proof -
  have l: "length (rev (drop 12 b)) = 4" using assms(1) by simp
  have "b = v4_prefix @ rev (rev (drop 12 b))" using append_take_drop_id [of 12 b] assms(2) by simp
  also have "rev (drop 12 b) = le_bytes 4 (le_word (rev (drop 12 b)) :: u32)" using l by (subst le_bytes_le_nat) simp_all
  finally show ?thesis by blast
qed

lemma is_ipv4_prefix: "na_typed a \<Longrightarrow> is_ipv4 a \<longleftrightarrow> take 12 (na_ip a) = v4_prefix"
proof -
  assume "na_typed a"
  then have "12 \<le> length (na_ip a)" by (simp add: na_typed_def)
  then have t: "take 12 (na_ip a) = map (\<lambda>i. na_ip a ! i) [0 ..< 12]"
    by (intro nth_equalityI) simp_all
  show ?thesis unfolding t by (simp add: is_ipv4_def v4_prefix_def upt_rec numeral_eq_Suc)
qed

text \<open>Printing an address never fails, and parsing the text gives the address back.\<close>

lemma address_string_inverse:
  assumes lib: "ip_lib_ok lib" and a: "na_typed a"
  shows "\<exists>s. NetworkAddressToString lib a = Some s \<and> from_string lib s (na_port a) (na_services a) = a"
proof (cases "take 12 (na_ip a) = v4_prefix")
  case True
  then obtain v where v: "na_ip a = v4_prefix @ rev (le_bytes 4 (v :: u32))"
    using mapped_bytes a by (auto simp: na_typed_def)
  from lib obtain s where "v4_to_string lib v = Some s" "make_address lib s = Some (V4 v)" unfolding ip_lib_ok_def by meson
  then show ?thesis
    using lib a True v by (cases a) (auto simp: ip_lib_ok_def NetworkAddressToString_def from_string_def null_NetworkAddress_def na_typed_def)
next
  case False
  from lib a obtain s where "v6_to_string lib (na_ip a) = Some s" "make_address lib s = Some (V6 (na_ip a))"
    by (auto simp: ip_lib_ok_def na_typed_def)
  then show ?thesis
    using lib a False by (cases a) (auto simp: ip_lib_ok_def NetworkAddressToString_def from_string_def null_NetworkAddress_def na_typed_def)
qed

lemma na_typed_from_string: "ip_lib_ok lib \<Longrightarrow> na_typed (from_string lib s p v)"
  by (auto simp: ip_lib_ok_def from_string_def na_typed_def null_NetworkAddress_def v4_prefix_def Let_def split: option.splits ip_address.splits)

section \<open>Timestamped addresses and inventory vectors\<close>

record TimestampedAddress =
  ta_timestamp :: u32
  ta_address :: NetworkAddress

definition null_TimestampedAddress :: TimestampedAddress where
  "null_TimestampedAddress = \<lparr>ta_timestamp = 0, ta_address = null_NetworkAddress\<rparr>"

record InventoryVector =
  iv_type :: InventoryType
  iv_hash :: "byte list"

definition null_InventoryVector :: InventoryVector where
  "null_InventoryVector = \<lparr>iv_type = INV_ERROR, iv_hash = replicate 32 0\<rparr>"

section \<open>Properties\<close>

text \<open>
  The 24-byte message header: \<open>deserialize_header\<close> accepts a buffer with result \<open>h\<close> exactly when the
  buffer begins with the serialisation of \<open>h\<close> and \<open>h\<close> is admissible, which means a printable command of at
  most 11 characters padded with NULs and a payload length of at most 4,000,000.
\<close>

theorem message_header_exact:
  "deserialize_header data = Some h \<longleftrightarrow>
     message_header_ok h \<and> (\<exists>rest. data = serialize_header h @ rest)"
proof
  assume "deserialize_header data = Some h"
  from deserialize_header_sound [OF this] have "message_header_ok h" "data = serialize_header h @ drop MESSAGE_HEADER_SIZE data"
    by simp_all
  then show "message_header_ok h \<and> (\<exists>rest. data = serialize_header h @ rest)" by blast
next
  assume "message_header_ok h \<and> (\<exists>rest. data = serialize_header h @ rest)"
  then show "deserialize_header data = Some h" using deserialize_serialize_header by auto
qed

end
