(* ===== verification/Transport.thy ===== *)
theory Transport
  imports Protocol "HOL-Library.Sublist"
begin

text \<open>
  A TCP connection (include/network/real_transport.hpp, \<open>RealTransportConnection\<close> of
  src/network/real_transport.cpp): the send queue with its byte limit, the asynchronous writes and reads,
  and closing.  The operations the event loop runs later are the tasks of \<open>co_posted\<close>; the completion
  handlers of the socket are operations of their own.  An operation that blocks on the mutex it holds
  itself, or that reads the front of an empty queue, has the result \<open>None\<close>.
\<close>

section \<open>State\<close>

datatype conn_task = DoWrite | CloseAndNotify

text \<open>What the connection tells its owner through the callbacks.\<close>

datatype conn_event = Received "byte list" | Disconnected

record connection =
  co_is_inbound :: bool
  co_id :: u64
  co_receive_callback :: bool
  co_disconnect_callback :: bool
  co_send_mutex :: bool
  co_send_queue :: "byte list list"
  co_send_queue_bytes :: nat
  co_writing :: bool
  co_open :: bool
  co_remote_addr :: string
  co_remote_port :: u16
  co_socket_open :: bool
  co_reading :: bool
  co_write_pending :: bool
  co_posted :: "conn_task list"
  co_written :: "byte list"

text \<open>
  The last five fields are the environment's: whether the operating system's socket is still there, whether
  the handler of a read and of a write is outstanding, the posted tasks, and the bytes handed to the socket.
\<close>

definition new_connection :: "u64 \<Rightarrow> bool \<Rightarrow> connection" where
  "new_connection next_id is_inbound = \<lparr>co_is_inbound = is_inbound, co_id = next_id, co_receive_callback = False,
     co_disconnect_callback = False, co_send_mutex = False, co_send_queue = [], co_send_queue_bytes = 0,
     co_writing = False, co_open = False, co_remote_addr = [], co_remote_port = 0, co_socket_open = False,
     co_reading = False, co_write_pending = False, co_posted = [], co_written = []\<rparr>"

section \<open>Operations\<close>

text \<open>\<open>endpoint\<close> is the remote end as the socket reports it, \<open>None\<close> when asking for it throws.\<close>

definition create_inbound :: "u64 \<Rightarrow> (string \<times> u16) option \<Rightarrow> connection" where
  "create_inbound next_id endpoint =
     (let conn = (new_connection next_id True)\<lparr>co_open := True, co_socket_open := True\<rparr>
      in case endpoint of None \<Rightarrow> conn
         | Some (addr, port) \<Rightarrow> conn\<lparr>co_remote_addr := addr, co_remote_port := port\<rparr>)"

definition create_outbound :: "u64 \<Rightarrow> string \<Rightarrow> u16 \<Rightarrow> connection" where
  "create_outbound next_id address port =
     (new_connection next_id False)\<lparr>co_remote_addr := address, co_remote_port := port\<rparr>"

text \<open>The handlers of \<open>do_connect\<close>: resolution and connection succeed or not; the result goes to the callback.\<close>

definition on_connect :: "bool \<Rightarrow> (string \<times> u16) option \<Rightarrow> connection \<Rightarrow> bool \<times> connection" where
  "on_connect ec endpoint c =
     (if ec then (False, c)
      else
        let c = c\<lparr>co_open := True, co_socket_open := True\<rparr>;
            c = (case endpoint of None \<Rightarrow> c | Some (addr, port) \<Rightarrow> c\<lparr>co_remote_addr := addr, co_remote_port := port\<rparr>)
        in (True, c))"

definition start_read :: "connection \<Rightarrow> connection" where
  "start_read c = (if \<not> co_open c then c else c\<lparr>co_reading := True\<rparr>)"

definition conn_start :: "connection \<Rightarrow> connection" where
  "conn_start c = (if \<not> co_open c then c else start_read c)"

definition conn_close :: "connection \<Rightarrow> connection option" where
  "conn_close c =
     (if \<not> co_open c then Some c
      else
        let c = c\<lparr>co_open := False, co_receive_callback := False, co_disconnect_callback := False, co_socket_open := False\<rparr>
        in if co_send_mutex c then None
           else Some (c\<lparr>co_writing := False, co_send_queue := [], co_send_queue_bytes := 0\<rparr>))"

text \<open>The completion of a read: an error (which includes the end of the stream) or some bytes.\<close>

definition read_handler :: "bool \<Rightarrow> byte list \<Rightarrow> connection \<Rightarrow> (conn_event list \<times> connection) option" where
  "read_handler ec data c =
     (let c = c\<lparr>co_reading := False\<rparr> in
      if ec then
        let saved_disconnect_cb = co_disconnect_callback c
        in map_option (\<lambda>c. (if saved_disconnect_cb then [Disconnected] else [], c)) (conn_close c)
      else
        let events = (if 0 < length data \<and> co_receive_callback c then [Received data] else [])
        in Some (events, start_read c))"

definition send :: "byte list \<Rightarrow> connection \<Rightarrow> (bool \<times> connection) option" where
  "send data c =
     (if \<not> co_open c then Some (False, c)
      else if co_send_mutex c then None
      else if co_send_queue_bytes c + length data > DEFAULT_SEND_QUEUE_SIZE then
        Some (False, c\<lparr>co_open := False, co_posted := co_posted c @ [CloseAndNotify]\<rparr>)
      else
        Some (True, c\<lparr>co_send_queue := co_send_queue c @ [data], co_send_queue_bytes := co_send_queue_bytes c + length data,
          co_posted := co_posted c @ [DoWrite]\<rparr>))"

definition do_write :: "connection \<Rightarrow> connection option" where
  "do_write c =
     (if \<not> co_open c then Some c
      else if co_send_mutex c then None
      else if co_writing c \<or> co_send_queue c = [] then Some c
      else Some (c\<lparr>co_writing := True, co_write_pending := True\<rparr>))"

text \<open>
  The completion of a write.  The handler holds the mutex to its end, the call of \<open>close\<close> included.  A
  completed write has put the whole front message on the socket.
\<close>

definition write_handler :: "bool \<Rightarrow> connection \<Rightarrow> (conn_event list \<times> connection) option" where
  "write_handler ec c =
     (if co_send_mutex c then None
      else
        let c = c\<lparr>co_send_mutex := True, co_writing := False, co_write_pending := False\<rparr> in
        if ec then
          let saved_disconnect_cb = co_disconnect_callback c
          in map_option (\<lambda>c. (if saved_disconnect_cb then [Disconnected] else [], c\<lparr>co_send_mutex := False\<rparr>)) (conn_close c)
        else case co_send_queue c of
          [] \<Rightarrow> None
        | front # queue \<Rightarrow>
            let c = c\<lparr>co_written := co_written c @ front, co_send_queue := queue,
                      co_send_queue_bytes := co_send_queue_bytes c - length front\<rparr>;
                c = (if queue \<noteq> [] then c\<lparr>co_posted := co_posted c @ [DoWrite]\<rparr> else c)
            in Some ([], c\<lparr>co_send_mutex := False\<rparr>))"

text \<open>A posted task; the overflow task of \<open>send\<close> closes and then calls the disconnect callback if it is set.\<close>

fun run_task :: "conn_task \<Rightarrow> connection \<Rightarrow> (conn_event list \<times> connection) option" where
  "run_task DoWrite c = map_option (Pair []) (do_write c)"
| "run_task CloseAndNotify c =
     map_option (\<lambda>c. (if co_disconnect_callback c then [Disconnected] else [], c)) (conn_close c)"

definition set_receive_callback :: "bool \<Rightarrow> connection \<Rightarrow> connection" where
  "set_receive_callback cb c = c\<lparr>co_receive_callback := cb\<rparr>"

definition set_disconnect_callback :: "bool \<Rightarrow> connection \<Rightarrow> connection" where
  "set_disconnect_callback cb c = c\<lparr>co_disconnect_callback := cb\<rparr>"

section \<open>Runs\<close>

text \<open>The connection with the messages \<open>send\<close> has accepted; handlers run only while they are outstanding.\<close>

inductive conn_reachable :: "connection \<Rightarrow> byte list list \<Rightarrow> bool" where
  inbound: "conn_reachable (create_inbound next_id ep) []"
| outbound: "on_connect ec ep (create_outbound next_id addr port) = (r, c) \<Longrightarrow> conn_reachable c []"
| start: "conn_reachable c acc \<Longrightarrow> conn_reachable (conn_start c) acc"
| sent: "conn_reachable c acc \<Longrightarrow> send data c = Some (ok, c') \<Longrightarrow> conn_reachable c' (if ok then acc @ [data] else acc)"
| task: "conn_reachable c acc \<Longrightarrow> co_posted c = t # ts \<Longrightarrow> run_task t (c\<lparr>co_posted := ts\<rparr>) = Some (ev, c') \<Longrightarrow> conn_reachable c' acc"
| wrote: "conn_reachable c acc \<Longrightarrow> co_write_pending c \<Longrightarrow> write_handler ec c = Some (ev, c') \<Longrightarrow> conn_reachable c' acc"
| read: "conn_reachable c acc \<Longrightarrow> co_reading c \<Longrightarrow> read_handler ec data c = Some (ev, c') \<Longrightarrow> conn_reachable c' acc"
| close: "conn_reachable c acc \<Longrightarrow> conn_close c = Some c' \<Longrightarrow> conn_reachable c' acc"
| set_receive: "conn_reachable c acc \<Longrightarrow> conn_reachable (set_receive_callback cb c) acc"
| set_disconnect: "conn_reachable c acc \<Longrightarrow> conn_reachable (set_disconnect_callback cb c) acc"

text \<open>
  What every run keeps: the mutex is free between operations, the byte counter is exact and within the
  limit, a write is outstanding only for a queued message, and what has been written is a prefix of what was
  accepted; while the connection is open the queue is exactly the rest.
\<close>

definition conn_inv :: "connection \<Rightarrow> byte list list \<Rightarrow> bool" where
  "conn_inv c acc \<longleftrightarrow> \<not> co_send_mutex c \<and> co_send_queue_bytes c = length (concat (co_send_queue c)) \<and>
     co_send_queue_bytes c \<le> DEFAULT_SEND_QUEUE_SIZE \<and> (co_writing c \<longrightarrow> co_send_queue c \<noteq> []) \<and>
     prefix (co_written c @ concat (co_send_queue c)) (concat acc) \<and>
     (co_open c \<longrightarrow> co_written c @ concat (co_send_queue c) = concat acc)"

lemma conn_inv_written: "conn_inv c acc \<Longrightarrow> prefix (co_written c) (concat acc)"
  unfolding conn_inv_def by (meson append_prefixD)

lemma close_inv: "conn_inv c acc \<Longrightarrow> conn_close c = Some c' \<Longrightarrow> conn_inv c' acc"
  using conn_inv_written [of c acc] by (auto simp: conn_inv_def conn_close_def Let_def split: if_splits)

lemma start_read_inv: "conn_inv c acc \<Longrightarrow> conn_inv (start_read c) acc"
  by (simp add: conn_inv_def start_read_def)

lemma send_inv: "conn_inv c acc \<Longrightarrow> send data c = Some (ok, c') \<Longrightarrow> conn_inv c' (if ok then acc @ [data] else acc)"
  by (auto simp: conn_inv_def send_def split: if_splits) (metis append.assoc prefix_order.order_refl)+

lemma do_write_inv: "conn_inv c acc \<Longrightarrow> do_write c = Some c' \<Longrightarrow> conn_inv c' acc"
  by (auto simp: conn_inv_def do_write_def split: if_splits)

lemma run_task_inv: "conn_inv c acc \<Longrightarrow> run_task t c = Some (ev, c') \<Longrightarrow> conn_inv c' acc"
  by (cases t) (auto intro: do_write_inv close_inv)

lemma write_handler_inv:
  assumes i: "conn_inv c acc" and r: "write_handler ec c = Some (ev, c')"
  shows "conn_inv c' acc"
proof (cases ec)
  case True
  let ?c = "c\<lparr>co_send_mutex := True, co_writing := False, co_write_pending := False\<rparr>"
  obtain c1 where c1: "conn_close ?c = Some c1" "c' = c1\<lparr>co_send_mutex := False\<rparr>"
    using i r True by (auto simp: conn_inv_def write_handler_def)
  then have "c1 = ?c" by (auto simp: conn_close_def Let_def split: if_splits)
  then show ?thesis using i c1(2) by (simp add: conn_inv_def)
next
  case False
  then show ?thesis using i r by (auto simp: conn_inv_def write_handler_def Let_def split: list.splits if_splits)
qed

lemma read_handler_inv: "conn_inv c acc \<Longrightarrow> read_handler ec data c = Some (ev, c') \<Longrightarrow> conn_inv c' acc"
  using close_inv [of "c\<lparr>co_reading := False\<rparr>" acc] start_read_inv [of "c\<lparr>co_reading := False\<rparr>" acc]
  by (auto simp: read_handler_def Let_def conn_inv_def split: if_splits)

lemma conn_reachable_inv: "conn_reachable c acc \<Longrightarrow> conn_inv c acc"
proof (induction rule: conn_reachable.induct)
  case (inbound next_id ep)
  then show ?case by (auto simp: conn_inv_def create_inbound_def new_connection_def Let_def split: option.splits)
next
  case (outbound ec ep next_id addr port r c)
  then show ?case by (auto simp: conn_inv_def on_connect_def create_outbound_def new_connection_def Let_def split: option.splits if_splits)
next
  case (task c acc t ts ev c')
  have "conn_inv (c\<lparr>co_posted := ts\<rparr>) acc" using task.IH by (simp add: conn_inv_def)
  then show ?case using run_task_inv task by blast
next
  case (start c acc)
  then show ?case by (simp add: conn_start_def start_read_inv)
next
  case (sent c acc data ok c')
  show ?case by (rule send_inv [OF sent.IH sent.hyps(2)])
next
  case (wrote c acc ec ev c')
  show ?case by (rule write_handler_inv [OF wrote.IH wrote.hyps(3)])
next
  case (read c acc ec data ev c')
  show ?case by (rule read_handler_inv [OF read.IH read.hyps(3)])
next
  case (close c acc c')
  show ?case by (rule close_inv [OF close.IH close.hyps(2)])
qed (simp_all add: conn_inv_def set_receive_callback_def set_disconnect_callback_def)

section \<open>Where an operation gets stuck\<close>

text \<open>
  A failed write on an open connection: the completion handler calls \<open>close\<close> while it holds the mutex that
  \<open>close\<close> locks.
\<close>

lemma write_error_blocks: "co_open c \<Longrightarrow> write_handler True c = None"
  by (simp add: write_handler_def conn_close_def Let_def)

text \<open>
  A write that has completed when the connection is closed: its handler then looks for the message in the
  queue that \<open>close\<close> has emptied.
\<close>

lemma completed_write_after_close: "co_open c \<Longrightarrow> conn_close c = Some c' \<Longrightarrow> write_handler False c' = None"
  by (auto simp: conn_close_def write_handler_def Let_def split: if_splits)

text \<open>
  After a send queue overflow closing has no effect: \<open>send\<close> has already cleared the flag that \<open>close\<close> tests,
  so the socket stays open and the queue keeps its messages.
\<close>

lemma overflow_not_closed:
  assumes "co_open c" "send data c = Some (False, c1)" "run_task CloseAndNotify c1 = Some (ev, c2)"
  shows "co_socket_open c2 = co_socket_open c \<and> co_send_queue c2 = co_send_queue c \<and> conn_close c2 = Some c2"
  using assms by (auto simp: send_def conn_close_def split: if_splits)

section \<open>Properties\<close>

text \<open>
  \<^bold>\<open>C23.\<close> In-order delivery within a bounded queue: in every state a connection can reach, the send queue holds
  at most 5,000,000 bytes and its counter is exact, the bytes written to the socket are a prefix of the
  accepted messages in the order of the calls of \<open>send\<close>, and while the connection is open the queue is exactly
  what is still to be written.
\<close>

theorem send_queue_in_order:
  assumes "conn_reachable c acc"
  shows "co_send_queue_bytes c = length (concat (co_send_queue c)) \<and> length (concat (co_send_queue c)) \<le> DEFAULT_SEND_QUEUE_SIZE \<and>
    prefix (co_written c) (concat acc) \<and> (co_open c \<longrightarrow> co_written c @ concat (co_send_queue c) = concat acc)"
  using conn_inv_written [OF conn_reachable_inv [OF assms]] conn_reachable_inv [OF assms] by (simp add: conn_inv_def)

theorem send_queue_in_order_witness:
  "\<exists>c acc. conn_reachable c acc \<and> acc = [[1, 2], [3]] \<and> co_written c = [1, 2] \<and> co_send_queue c = [[3]] \<and>
     co_written c @ concat (co_send_queue c) = concat acc"
proof -
  let ?c0 = "create_inbound 1 None"
  obtain c1 where c1: "send [1, 2] ?c0 = Some (True, c1)" "co_posted c1 = [DoWrite]" "co_send_queue c1 = [[1, 2]]"
      "co_open c1" "\<not> co_send_mutex c1" "\<not> co_writing c1" "co_written c1 = []" "co_send_queue_bytes c1 = 2"
    by (auto simp: send_def create_inbound_def new_connection_def DEFAULT_SEND_QUEUE_SIZE_def)
  have r1: "conn_reachable c1 [[1, 2]]" using conn_reachable.sent [OF conn_reachable.inbound c1(1)] by simp
  obtain c2 where c2: "run_task DoWrite (c1\<lparr>co_posted := []\<rparr>) = Some ([], c2)" "co_write_pending c2" "co_send_queue c2 = [[1, 2]]"
      "co_open c2" "\<not> co_send_mutex c2" "co_written c2 = []" "co_send_queue_bytes c2 = 2" "co_posted c2 = []"
    using c1 by (auto simp: do_write_def)
  have r2: "conn_reachable c2 [[1, 2]]" by (rule conn_reachable.task [OF r1 c1(2) c2(1)])
  obtain c3 where c3: "send [3] c2 = Some (True, c3)" "co_send_queue c3 = [[1, 2], [3]]" "co_write_pending c3"
      "\<not> co_send_mutex c3" "co_open c3" "co_written c3 = []"
    using c2 by (auto simp: send_def DEFAULT_SEND_QUEUE_SIZE_def)
  have r3: "conn_reachable c3 [[1, 2], [3]]" using conn_reachable.sent [OF r2 c3(1)] by simp
  obtain c4 where c4: "write_handler False c3 = Some ([], c4)" "co_written c4 = [1, 2]" "co_send_queue c4 = [[3]]" "co_open c4"
    using c3 by (auto simp: write_handler_def)
  have r4: "conn_reachable c4 [[1, 2], [3]]" by (rule conn_reachable.wrote [OF r3 c3(3) c4(1)])
  from send_queue_in_order [OF r4] r4 c4 show ?thesis by blast
qed

end
