(* ===== verification/Std_String.thy ===== *)
theory Std_String
  imports Prelude
begin

text \<open>
  Decimal printing as the C library does it (\<open>snprintf\<close> with \<open>%d\<close>, \<open>std::to_string\<close>) and its inverse on
  digit strings.
\<close>

fun dec_nat :: "nat \<Rightarrow> string" where
  "dec_nat n = (if n < 10 then [char_of (48 + n)] else dec_nat (n div 10) @ [char_of (48 + n mod 10)])"

declare dec_nat.simps [simp del]

definition dec_int :: "int \<Rightarrow> string" where
  "dec_int i = (if i < 0 then CHR ''-'' # dec_nat (nat (- i)) else dec_nat (nat i))"

definition digit_val :: "char \<Rightarrow> nat option" where
  "digit_val c = (let n = of_char c :: nat in if 48 \<le> n \<and> n \<le> 57 then Some (n - 48) else None)"

fun dec_parse :: "nat \<Rightarrow> string \<Rightarrow> nat option" where
  "dec_parse acc [] = Some acc"
| "dec_parse acc (c # cs) = (case digit_val c of None \<Rightarrow> None | Some d \<Rightarrow> dec_parse (acc * 10 + d) cs)"

lemma digit_val_char_of [simp]: "d < 10 \<Longrightarrow> digit_val (char_of (48 + d)) = Some d"
  by (simp add: digit_val_def)

lemma dec_parse_append: "dec_parse acc (xs @ ys) = Option.bind (dec_parse acc xs) (\<lambda>a. dec_parse a ys)"
  by (induction xs arbitrary: acc) (auto split: option.splits)

lemma dec_parse_dec_nat: "dec_parse 0 (dec_nat n) = Some n"
proof (induction n rule: dec_nat.induct)
  case (1 n)
  show ?case
  proof (cases "n < 10")
    case False
    then have "dec_parse 0 (dec_nat n) = Some ((n div 10) * 10 + n mod 10)"
      using 1 by (subst dec_nat.simps) (simp add: dec_parse_append)
    then show ?thesis by simp
  qed (subst dec_nat.simps, simp)
qed

lemma dec_nat_inj: "dec_nat m = dec_nat n \<longleftrightarrow> m = n"
  by (metis dec_parse_dec_nat option.inject)

lemma dec_nat_digits: "c \<in> set (dec_nat n) \<Longrightarrow> digit_val c \<noteq> None"
proof (induction n rule: dec_nat.induct)
  case (1 n)
  then show ?case by (subst (asm) dec_nat.simps) (auto split: if_splits)
qed

lemma dec_int_inj: "dec_int i = dec_int j \<longleftrightarrow> i = j"
proof -
  have minus: "CHR ''-'' # xs \<noteq> dec_nat n" for xs n
  proof
    assume "CHR ''-'' # xs = dec_nat n"
    then have "CHR ''-'' \<in> set (dec_nat n)" by (metis list.set_intros(1))
    from dec_nat_digits [OF this] show False by (simp add: digit_val_def)
  qed
  show ?thesis using minus [symmetric] minus
    by (auto simp: dec_int_def dec_nat_inj split: if_splits)
qed

end
