(* ===== verification/Message.thy ===== *)
theory Message
  imports Protocol Std_String
begin

text \<open>
  The payloads of the nine messages (include/network/message.hpp, second half of
  src/network/message.cpp) and the checksummed framing.  A message object is a value of the datatype
  \<open>Message\<close>, one constructor per class; \<open>deserialize\<close> returns its boolean result and the object it leaves.
\<close>

section \<open>Protocol structures on the wire\<close>

definition write_network_address :: "NetworkAddress \<Rightarrow> bool \<Rightarrow> serializer \<Rightarrow> serializer" where
  "write_network_address addr include_timestamp s =
     (let s = write_uint64 (na_services addr) s;
          s = write_bytes (na_ip addr) s
      in write_at_end 2 (WriteBE16 Little (na_port addr)) s)"

definition write_inventory_vector :: "InventoryVector \<Rightarrow> serializer \<Rightarrow> serializer" where
  "write_inventory_vector iv s = write_bytes (iv_hash iv) (write_uint32 (iv_type iv) s)"

text \<open>A failed check returns the object as far as it has been filled in.\<close>

definition read_network_address :: "bool \<Rightarrow> NetworkAddress reader" where
  "read_network_address has_timestamp = do {
     _ \<leftarrow> (if has_timestamp then read_uint32 else ret 0);
     services \<leftarrow> read_uint64;
     let addr = null_NetworkAddress\<lparr>na_services := services\<rparr>;
     check_available 16;
     e \<leftarrow> has_error;
     if e then ret addr
     else do {
       p \<leftarrow> here;
       advance 16;
       let addr = addr\<lparr>na_ip := take 16 p\<rparr>;
       check_available 2;
       e \<leftarrow> has_error;
       if e then ret addr
       else do {
         p \<leftarrow> here;
         advance 2;
         ret (addr\<lparr>na_port := ReadBE16 Little p\<rparr>)
       }
     }
   }"

definition read_timestamped_address :: "TimestampedAddress reader" where
  "read_timestamped_address = do {
     timestamp \<leftarrow> read_uint32;
     address \<leftarrow> read_network_address False;
     ret \<lparr>ta_timestamp = timestamp, ta_address = address\<rparr>
   }"

definition read_inventory_vector :: "InventoryVector reader" where
  "read_inventory_vector = do {
     type \<leftarrow> read_uint32;
     let iv = null_InventoryVector\<lparr>iv_type := type\<rparr>;
     check_available 32;
     e \<leftarrow> has_error;
     if e then ret iv
     else do {
       p \<leftarrow> here;
       advance 32;
       ret (iv\<lparr>iv_hash := take 32 p\<rparr>)
     }
   }"

section \<open>Messages\<close>

record VersionMessage =
  vm_version :: int
  vm_services :: u64
  vm_timestamp :: int
  vm_addr_recv :: NetworkAddress
  vm_addr_from :: NetworkAddress
  vm_nonce :: u64
  vm_user_agent :: string
  vm_start_height :: int

record GetHeadersMessage =
  gh_version :: u32
  gh_block_locator_hashes :: "blob list"
  gh_hash_stop :: blob

datatype Message =
    Version VersionMessage
  | Verack
  | Ping u64
  | Pong u64
  | Addr "TimestampedAddress list"
  | GetAddr
  | Inv "InventoryVector list"
  | GetHeaders GetHeadersMessage
  | Headers "CBlockHeader list"

definition GetVersionString :: string where
  "GetVersionString = dec_int 1 @ ''.'' @ dec_int 0 @ ''.'' @ dec_int 0"

definition GetUserAgent :: string where
  "GetUserAgent = ''/CoinbaseChain:'' @ GetVersionString @ ''/''"

definition new_VersionMessage :: VersionMessage where
  "new_VersionMessage = \<lparr>vm_version = uint PROTOCOL_VERSION, vm_services = NODE_NETWORK, vm_timestamp = 0,
     vm_addr_recv = null_NetworkAddress, vm_addr_from = null_NetworkAddress, vm_nonce = 0,
     vm_user_agent = GetUserAgent, vm_start_height = 0\<rparr>"

definition new_GetHeadersMessage :: GetHeadersMessage where
  "new_GetHeadersMessage = \<lparr>gh_version = PROTOCOL_VERSION, gh_block_locator_hashes = [], gh_hash_stop = replicate 32 0\<rparr>"

fun command :: "Message \<Rightarrow> string" where
  "command (Version _) = ''version''"
| "command Verack = ''verack''"
| "command (Ping _) = ''ping''"
| "command (Pong _) = ''pong''"
| "command (Addr _) = ''addr''"
| "command GetAddr = ''getaddr''"
| "command (Inv _) = ''inv''"
| "command (GetHeaders _) = ''getheaders''"
| "command (Headers _) = ''headers''"

definition create_message :: "string \<Rightarrow> Message option" where
  "create_message cmd =
     (if cmd = ''version'' then Some (Version new_VersionMessage)
      else if cmd = ''verack'' then Some Verack
      else if cmd = ''ping'' then Some (Ping 0)
      else if cmd = ''pong'' then Some (Pong 0)
      else if cmd = ''addr'' then Some (Addr [])
      else if cmd = ''getaddr'' then Some GetAddr
      else if cmd = ''inv'' then Some (Inv [])
      else if cmd = ''getheaders'' then Some (GetHeaders new_GetHeadersMessage)
      else if cmd = ''headers'' then Some (Headers [])
      else None)"

section \<open>Serialisation\<close>

definition Version_serialize :: "VersionMessage \<Rightarrow> byte list" where
  "Version_serialize m =
     (let s = [];
          s = write_int32 (vm_version m) s;
          s = write_uint64 (vm_services m) s;
          s = write_int64 (vm_timestamp m) s;
          s = write_network_address (vm_addr_recv m) False s;
          s = write_network_address (vm_addr_from m) False s;
          s = write_uint64 (vm_nonce m) s;
          s = write_string (vm_user_agent m) s;
          s = write_int32 (vm_start_height m) s
      in s)"

definition Addr_serialize :: "TimestampedAddress list \<Rightarrow> byte list" where
  "Addr_serialize addresses =
     (let s = write_varint (of_nat (length addresses)) []
      in fold (\<lambda>addr s. write_network_address (ta_address addr) False (write_uint32 (ta_timestamp addr) s)) addresses s)"

definition Inv_serialize :: "InventoryVector list \<Rightarrow> byte list" where
  "Inv_serialize inventory =
     (let s = write_varint (of_nat (length inventory)) []
      in fold write_inventory_vector inventory s)"

definition GetHeaders_serialize :: "GetHeadersMessage \<Rightarrow> byte list" where
  "GetHeaders_serialize m =
     (let s = write_uint32 (gh_version m) [];
          s = write_varint (of_nat (length (gh_block_locator_hashes m))) s;
          s = fold write_bytes (gh_block_locator_hashes m) s
      in write_bytes (gh_hash_stop m) s)"

definition Headers_serialize :: "CBlockHeader list \<Rightarrow> byte list" where
  "Headers_serialize headers =
     (let s = write_varint (of_nat (length headers)) []
      in fold (\<lambda>header s. write_bytes (Serialize header) s) headers s)"

fun serialize :: "Message \<Rightarrow> byte list" where
  "serialize (Version m) = Version_serialize m"
| "serialize Verack = []"
| "serialize (Ping nonce) = write_uint64 nonce []"
| "serialize (Pong nonce) = write_uint64 nonce []"
| "serialize (Addr addresses) = Addr_serialize addresses"
| "serialize GetAddr = []"
| "serialize (Inv inventory) = Inv_serialize inventory"
| "serialize (GetHeaders m) = GetHeaders_serialize m"
| "serialize (Headers headers) = Headers_serialize headers"

section \<open>Deserialisation\<close>

definition Version_deserialize :: "(bool \<times> VersionMessage) reader" where
  "Version_deserialize = do {
     version \<leftarrow> read_int32;
     services \<leftarrow> read_uint64;
     timestamp \<leftarrow> read_int64;
     addr_recv \<leftarrow> read_network_address False;
     addr_from \<leftarrow> read_network_address False;
     nonce \<leftarrow> read_uint64;
     user_agent \<leftarrow> read_string MAX_SUBVERSION_LENGTH;
     start_height \<leftarrow> read_int32;
     e \<leftarrow> has_error;
     ret (\<not> e, \<lparr>vm_version = version, vm_services = services, vm_timestamp = timestamp, vm_addr_recv = addr_recv,
       vm_addr_from = addr_from, vm_nonce = nonce, vm_user_agent = user_agent, vm_start_height = start_height\<rparr>)
   }"

text \<open>
  The element loop that four messages share: \<open>i\<close> elements are to come, \<open>allocated\<close> is the capacity reserved
  so far (in elements, grown by at most \<open>batch_size\<close> when the vector has reached it), and \<open>item\<close> reads one
  element, \<open>None\<close> meaning \<open>return false\<close>.  The result is the boolean, the elements and the capacity.
\<close>

fun item_loop :: "nat \<Rightarrow> nat \<Rightarrow> 'a option reader \<Rightarrow> nat \<Rightarrow> nat \<Rightarrow> 'a list \<Rightarrow> (bool \<times> 'a list \<times> nat) reader" where
  "item_loop count batch_size item 0 allocated items = ret (True, items, allocated)"
| "item_loop count batch_size item (Suc i) allocated items = do {
     let allocated = (if length items \<ge> allocated then min count (allocated + batch_size) else allocated);
     x \<leftarrow> item;
     case x of None \<Rightarrow> ret (False, items, allocated)
     | Some x \<Rightarrow> item_loop count batch_size item i allocated (items @ [x])
   }"

text \<open>The sizes of the element types in memory, which the batch sizes divide by.\<close>

definition sizeof_TimestampedAddress :: nat where "sizeof_TimestampedAddress = 40"
definition sizeof_InventoryVector :: nat where "sizeof_InventoryVector = 36"
definition sizeof_CBlockHeader :: nat where "sizeof_CBlockHeader = 100"

text \<open>An element read and pushed, then \<open>if (d.has_error()) return false\<close>.\<close>

definition checked :: "'a reader \<Rightarrow> 'a option reader" where
  "checked m = do { x \<leftarrow> m; e \<leftarrow> has_error; ret (if e then None else Some x) }"

definition Addr_deserialize :: "TimestampedAddress list \<Rightarrow> (bool \<times> TimestampedAddress list) reader" where
  "Addr_deserialize this = do {
     count \<leftarrow> read_varint;
     if unat count > MAX_ADDR_SIZE then ret (False, this)
     else do {
       (ok, addresses, _) \<leftarrow> item_loop (unat count) (MAX_VECTOR_ALLOCATE div sizeof_TimestampedAddress)
         (checked read_timestamped_address) (unat count) 0 [];
       e \<leftarrow> has_error;
       ret (ok \<and> \<not> e, addresses)
     }
   }"

definition Inv_deserialize :: "InventoryVector list \<Rightarrow> (bool \<times> InventoryVector list) reader" where
  "Inv_deserialize this = do {
     count \<leftarrow> read_varint;
     if unat count > MAX_INV_SIZE then ret (False, this)
     else do {
       (ok, inventory, _) \<leftarrow> item_loop (unat count) (MAX_VECTOR_ALLOCATE div sizeof_InventoryVector)
         (checked read_inventory_vector) (unat count) 0 [];
       e \<leftarrow> has_error;
       ret (ok \<and> \<not> e, inventory)
     }
   }"

definition read_hash :: "blob option reader" where
  "read_hash = do { bytes \<leftarrow> read_bytes 32; ret (if length bytes \<noteq> 32 then None else Some bytes) }"

definition GetHeaders_deserialize :: "GetHeadersMessage \<Rightarrow> (bool \<times> GetHeadersMessage) reader" where
  "GetHeaders_deserialize this = do {
     version \<leftarrow> read_uint32;
     let this = this\<lparr>gh_version := version\<rparr>;
     count \<leftarrow> read_varint;
     if unat count > MAX_LOCATOR_SZ then ret (False, this)
     else do {
       (ok, hashes, _) \<leftarrow> item_loop (unat count) (MAX_VECTOR_ALLOCATE div 32) read_hash (unat count) 0 [];
       let this = this\<lparr>gh_block_locator_hashes := hashes\<rparr>;
       if \<not> ok then ret (False, this)
       else do {
         stop_hash \<leftarrow> read_hash;
         case stop_hash of None \<Rightarrow> ret (False, this)
         | Some h \<Rightarrow> do { e \<leftarrow> has_error; ret (\<not> e, this\<lparr>gh_hash_stop := h\<rparr>) }
       }
     }
   }"

definition read_block_header :: "CBlockHeader option reader" where
  "read_block_header = do {
     header_bytes \<leftarrow> read_bytes HEADER_SIZE;
     ret (if length header_bytes \<noteq> HEADER_SIZE then None else Deserialize header_bytes)
   }"

definition Headers_deserialize :: "CBlockHeader list \<Rightarrow> (bool \<times> CBlockHeader list) reader" where
  "Headers_deserialize this = do {
     count \<leftarrow> read_varint;
     if unat count > MAX_HEADERS_SIZE then ret (False, this)
     else do {
       (ok, headers, _) \<leftarrow> item_loop (unat count) (MAX_VECTOR_ALLOCATE div sizeof_CBlockHeader)
         read_block_header (unat count) 0 [];
       e \<leftarrow> has_error;
       ret (ok \<and> \<not> e, headers)
     }
   }"

definition read_nonce :: "(bool \<times> u64) reader" where
  "read_nonce = do { nonce \<leftarrow> read_uint64; e \<leftarrow> has_error; ret (\<not> e, nonce) }"

fun deserialize_reader :: "Message \<Rightarrow> nat \<Rightarrow> (bool \<times> Message) reader" where
  "deserialize_reader (Version m) n = map_state (map_prod id Version) Version_deserialize"
| "deserialize_reader Verack n = ret (n = 0, Verack)"
| "deserialize_reader (Ping _) n = map_state (map_prod id Ping) read_nonce"
| "deserialize_reader (Pong _) n = map_state (map_prod id Pong) read_nonce"
| "deserialize_reader (Addr l) n = map_state (map_prod id Addr) (Addr_deserialize l)"
| "deserialize_reader GetAddr n = ret (n = 0, GetAddr)"
| "deserialize_reader (Inv l) n = map_state (map_prod id Inv) (Inv_deserialize l)"
| "deserialize_reader (GetHeaders m) n = map_state (map_prod id GetHeaders) (GetHeaders_deserialize m)"
| "deserialize_reader (Headers l) n = map_state (map_prod id Headers) (Headers_deserialize l)"

definition deserialize :: "Message \<Rightarrow> byte list \<Rightarrow> bool \<times> Message" where
  "deserialize this data = fst (run_state (deserialize_reader this (length data)) (MessageDeserializer data))"

section \<open>Framing\<close>

definition double_sha256 :: "byte list \<Rightarrow> byte list" where
  "double_sha256 data =
     (let first_hash = Finalize (Write (CSHA256 (replicate 64 0)) data)
      in Finalize (Write (CSHA256 (replicate 64 0)) first_hash))"

definition compute_checksum :: "byte list \<Rightarrow> byte list" where
  "compute_checksum payload = take 4 (double_sha256 payload)"

definition create_header :: "u32 \<Rightarrow> string \<Rightarrow> byte list \<Rightarrow> MessageHeader" where
  "create_header magic cmd payload =
     (new_MessageHeader magic cmd (of_nat (length payload)))\<lparr>mh_checksum := compute_checksum payload\<rparr>"

section \<open>Codecs of the structures\<close>

definition enc_address :: "NetworkAddress \<Rightarrow> byte list" where
  "enc_address a = le_bytes 8 (na_services a) @ na_ip a @ rev (le_bytes 2 (na_port a))"

definition enc_timestamped :: "TimestampedAddress \<Rightarrow> byte list" where
  "enc_timestamped t = le_bytes 4 (ta_timestamp t) @ enc_address (ta_address t)"

definition enc_inventory :: "InventoryVector \<Rightarrow> byte list" where
  "enc_inventory v = le_bytes 4 (iv_type v) @ iv_hash v"

lemma write_structures [simp]:
  "write_network_address a b s = s @ enc_address a" "write_inventory_vector v s = s @ enc_inventory v"
  by (simp_all add: write_network_address_def write_inventory_vector_def enc_address_def enc_inventory_def
      write_append codec Let_def)

text \<open>The reads of the structures, with the open-coded bounds checks as fixed-size reads.\<close>

lemma read_network_address_fixed:
  "read_network_address False = do {
     services \<leftarrow> read_uint64;
     ip \<leftarrow> read_fixed 16 (replicate 16 0) (take 16);
     port \<leftarrow> read_fixed 2 0 (ReadBE16 Little);
     ret \<lparr>na_services = services, na_ip = ip, na_port = port\<rparr> }"
  by (rule state_ext)
    (auto simp: read_network_address_def run_read_fixed Let_def null_NetworkAddress_def split: prod.splits)

lemma read_inventory_vector_fixed:
  "read_inventory_vector = do {
     type \<leftarrow> read_uint32;
     hash \<leftarrow> read_fixed 32 (replicate 32 0) (take 32);
     ret \<lparr>iv_type = type, iv_hash = hash\<rparr> }"
  by (rule state_ext)
    (auto simp: read_inventory_vector_def run_read_fixed Let_def null_InventoryVector_def split: prod.splits)

lemma well_behaved_take [readers]: "well_behaved (read_fixed n dflt (take n))"
  by (rule well_behaved_fixed) simp

lemma well_behaved_BE16 [readers]: "well_behaved (read_fixed 2 0 (ReadBE16 Little))"
  by (rule well_behaved_fixed) (simp add: ReadBE_word)

lemma well_behaved_structures [readers]:
  "well_behaved (read_network_address False)" "well_behaved read_inventory_vector" "well_behaved read_timestamped_address"
  unfolding read_network_address_fixed read_inventory_vector_fixed read_timestamped_address_def
  by (intro readers)+

interpretation wire_address: wire_codec enc_address "read_network_address False" na_typed
proof unfold_locales
  fix a assume a: "na_typed a"
  have ip: "reads (read_fixed 16 (replicate 16 0) (take 16)) (na_ip a) (na_ip a)"
    by (rule reads_fixed) (use a in \<open>simp_all add: na_typed_def\<close>)
  have port: "reads (read_fixed 2 0 (ReadBE16 Little)) (rev (le_bytes 2 (na_port a))) (na_port a)"
    by (rule reads_fixed) (simp_all add: codec)
  have "reads (read_network_address False) (le_bytes 8 (na_services a) @ na_ip a @ rev (le_bytes 2 (na_port a)))
      \<lparr>na_services = na_services a, na_ip = na_ip a, na_port = na_port a\<rparr>"
    unfolding read_network_address_fixed
    by (rule reads_bind [OF wire64.dec_enc], simp, rule reads_bind [OF ip], rule reads_bind_last [OF port reads_ret])
  then show "reads (read_network_address False) (enc_address a) a" by (cases a) (simp add: enc_address_def)
next
  show "yields (read_network_address False) na_typed"
    unfolding read_network_address_fixed
    by (rule yields_bind [where P = any_value], intro readers, intro readers, simp add: yields_any,
        rule yields_bind [where P = "\<lambda>ip. length ip = 16"], intro readers, intro readers,
        simp add: yields_fixed, rule yields_bind [where P = any_value])
      (auto intro: readers yields_any yields_ret simp: na_typed_def)
qed (rule readers)

interpretation wire_timestamped: wire_codec enc_timestamped read_timestamped_address "\<lambda>t. na_typed (ta_address t)"
proof unfold_locales
  fix t :: TimestampedAddress assume a: "na_typed (ta_address t)"
  have "reads read_timestamped_address (le_bytes 4 (ta_timestamp t) @ enc_address (ta_address t))
     \<lparr>ta_timestamp = ta_timestamp t, ta_address = ta_address t\<rparr>"
    unfolding read_timestamped_address_def
    by (rule reads_bind [OF wire32.dec_enc], simp, rule reads_bind_last [OF wire_address.dec_enc [OF a] reads_ret])
  then show "reads read_timestamped_address (enc_timestamped t) t" by (cases t) (simp add: enc_timestamped_def)
next
  show "yields read_timestamped_address (\<lambda>t. na_typed (ta_address t))"
    unfolding read_timestamped_address_def
    by (rule yields_bind [where P = any_value], intro readers, intro readers, simp add: yields_any,
        rule yields_bind [OF _ _ wire_address.dec_valid]) (auto intro: readers yields_ret)
qed (rule readers)

interpretation wire_inventory: wire_codec enc_inventory read_inventory_vector "\<lambda>v. length (iv_hash v) = 32"
proof unfold_locales
  fix v :: InventoryVector assume v: "length (iv_hash v) = 32"
  have "reads read_inventory_vector (le_bytes 4 (iv_type v) @ iv_hash v) \<lparr>iv_type = iv_type v, iv_hash = iv_hash v\<rparr>"
    unfolding read_inventory_vector_fixed
    by (rule reads_bind [OF wire32.dec_enc]) (use v in \<open>auto intro!: reads_bind_last reads_ret reads_fixed\<close>)
  then show "reads read_inventory_vector (enc_inventory v) v" by (cases v) (simp add: enc_inventory_def)
next
  show "yields read_inventory_vector (\<lambda>v. length (iv_hash v) = 32)"
    unfolding read_inventory_vector_fixed
    by (rule yields_bind [where P = any_value], intro readers, intro readers, simp add: yields_any,
        rule yields_bind [where P = "\<lambda>h. length h = 32"]) (auto intro: readers yields_ret yields_fixed)
qed (rule readers)

section \<open>Element loops\<close>

text \<open>The contract of an element reader inside a loop: it returns an element exactly when there is no error.\<close>

locale item_codec =
  fixes enc :: "'a \<Rightarrow> byte list" and item :: "'a option reader" and valid :: "'a \<Rightarrow> bool"
  assumes item_reads: "valid x \<Longrightarrow> reads item (enc x) (Some x)"
    and item_local: "well_behaved item"
    and item_valid: "yields item (\<lambda>r. \<exists>x. r = Some x \<and> valid x)"
    and item_error: "run_state item d = (Some x, d') \<Longrightarrow> \<not> des_error d'"
begin

lemma loop_local: "well_behaved (item_loop count b item i a items)"
  by (induction i arbitrary: a items) (auto intro!: readers item_local simp: Let_def split: option.split)

lemma loop_reads:
  "list_all valid xs \<Longrightarrow>
   \<exists>a'. reads (item_loop count b item (length xs) a items) (concat (map enc xs)) (True, items @ xs, a')"
proof (induction xs arbitrary: a items)
  case Nil
  then show ?case by (auto intro: reads_ret)
next
  case (Cons x xs)
  define a1 where "a1 = (if length items \<ge> a then min count (a + b) else a)"
  obtain a' where "reads (item_loop count b item (length xs) a1 (items @ [x])) (concat (map enc xs)) (True, (items @ [x]) @ xs, a')"
    using Cons.IH [of a1 "items @ [x]"] Cons.prems by auto
  then have "reads (item_loop count b item (length (x # xs)) a items) (enc x @ concat (map enc xs)) (True, (items @ [x]) @ xs, a')"
    using Cons.prems by (simp add: Let_def flip: a1_def) (rule reads_bind [OF item_reads], simp_all)
  then show ?case by auto
qed

lemma loop_yields:
  "list_all valid items \<Longrightarrow>
   yields (item_loop count b item i a items) (\<lambda>(ok, xs, a'). ok \<and> list_all valid xs \<and> length xs = length items + i)"
proof (induction i arbitrary: a items)
  case 0
  then show ?case by (simp add: yields_ret)
next
  case (Suc i)
  define a1 where "a1 = (if length items \<ge> a then min count (a + b) else a)"
  have "yields (State_Monad.bind item (\<lambda>x. case x of None \<Rightarrow> ret (False, items, a1)
        | Some x \<Rightarrow> item_loop count b item i a1 (items @ [x])))
      (\<lambda>(ok, xs, a'). ok \<and> list_all valid xs \<and> length xs = length items + Suc i)"
  proof (rule yields_bind [OF item_local _ item_valid])
    show "yields (case v of None \<Rightarrow> ret (False, items, a1) | Some x \<Rightarrow> item_loop count b item i a1 (items @ [x]))
        (\<lambda>(ok, xs, a'). ok \<and> list_all valid xs \<and> length xs = length items + Suc i)"
      if "\<exists>x. v = Some x \<and> valid x" for v
      using Suc.IH [of "items @ [_]" a1] Suc.prems that by auto
  qed (auto intro!: readers loop_local split: option.split)
  then show ?case by (simp add: Let_def flip: a1_def)
qed

lemma loop_ok_error:
  "run_state (item_loop count b item i a items) d = ((True, xs, a'), d') \<Longrightarrow> \<not> des_error d \<Longrightarrow> \<not> des_error d'"
proof (induction i arbitrary: a items d)
  case (Suc i)
  define a1 where "a1 = (if length items \<ge> a then min count (a + b) else a)"
  obtain r d1 where r: "run_state item d = (r, d1)" by fastforce
  with Suc.prems obtain x where x: "r = Some x" by (cases r) (auto simp: Let_def)
  then have "\<not> des_error d1" using item_error r by blast
  then show ?case using Suc.IH [of a1 "items @ [x]" d1] Suc.prems r x by (simp add: Let_def flip: a1_def)
qed simp

text \<open>Memory: the reserved capacity is never more than one batch ahead of the elements already read.\<close>

lemma loop_alloc:
  "run_state (item_loop count b item i a items) d = ((ok, xs, a'), d') \<Longrightarrow> a \<le> count \<Longrightarrow> a \<le> length items + b \<Longrightarrow>
   a' \<le> count \<and> a' \<le> length xs + b"
proof (induction i arbitrary: a items d)
  case (Suc i)
  define a1 where "a1 = (if length items \<ge> a then min count (a + b) else a)"
  have a1: "a1 \<le> count" "a1 \<le> length items + b" using Suc.prems by (auto simp: a1_def)
  obtain r d1 where r: "run_state item d = (r, d1)" by fastforce
  show ?case
  proof (cases r)
    case None
    then show ?thesis using Suc.prems(1) r a1 by (auto simp: Let_def simp flip: a1_def)
  next
    case (Some x)
    then show ?thesis using Suc.IH [of a1 "items @ [x]" d1] Suc.prems(1) r a1 by (simp add: Let_def flip: a1_def)
  qed
qed simp

end

context wire_codec
begin

lemma checked_item: "item_codec enc (checked dec) valid"
proof unfold_locales
  show "reads (checked dec) (enc x) (Some x)" if "valid x" for x
    unfolding checked_def
    by (rule reads_bind_last [OF dec_enc [OF that]], rule reads_bind_last [OF reads_has_error])
      (simp add: reads_ret)
  show "well_behaved (checked dec)" unfolding checked_def by (intro readers dec_local)
  show "yields (checked dec) (\<lambda>r. \<exists>x. r = Some x \<and> valid x)"
    using dec_valid dec_local unfolding checked_def yields_def
    by (auto split: prod.splits)
  show "run_state (checked dec) d = (Some x, d') \<Longrightarrow> \<not> des_error d'" for d x d'
    by (auto simp: checked_def split: prod.splits if_splits)
qed

end

interpretation addr_items: item_codec enc_timestamped "checked read_timestamped_address" "\<lambda>t. na_typed (ta_address t)"
  by (rule wire_timestamped.checked_item)

interpretation inv_items: item_codec enc_inventory "checked read_inventory_vector" "\<lambda>v. length (iv_hash v) = 32"
  by (rule wire_inventory.checked_item)

lemma run_read_bytes:
  "run_state (read_bytes n) d = (if des_error d \<or> bytes_remaining d < n then ([], d\<lparr>des_error := True\<rparr>)
     else (take n (cursor d), d\<lparr>des_position := des_position d + n\<rparr>))"
  by (simp add: read_bytes_def run_read_fixed)

interpretation hash_items: item_codec "\<lambda>h. h" read_hash "\<lambda>h. length h = 32"
proof unfold_locales
  show "reads read_hash h (Some h)" if "length h = 32" for h :: blob
    unfolding read_hash_def by (rule reads_bind_last [OF wire_bytes.dec_enc [OF that]]) (simp add: that reads_ret)
  show "well_behaved read_hash" unfolding read_hash_def by (intro readers)
  show "yields read_hash (\<lambda>r. \<exists>h. r = Some h \<and> length h = 32)"
    by (auto simp: yields_def read_hash_def run_read_bytes split: if_splits)
  show "run_state read_hash d = (Some x, d') \<Longrightarrow> \<not> des_error d'" for d x d'
    by (auto simp: read_hash_def run_read_bytes split: if_splits)
qed

interpretation header_items: item_codec SerializeFixed read_block_header header_typed
proof unfold_locales
  show "reads read_block_header (SerializeFixed h) (Some h)" if "header_typed h" for h
  proof -
    have l: "length (SerializeFixed h) = HEADER_SIZE" using that by (simp add: header_offsets)
    show ?thesis unfolding read_block_header_def
      by (rule reads_bind_last [OF wire_bytes.dec_enc [OF l]]) (simp add: l reads_ret Deserialize_SerializeFixed that)
  qed
  show "well_behaved read_block_header" unfolding read_block_header_def by (intro readers)
  show "yields read_block_header (\<lambda>r. \<exists>h. r = Some h \<and> header_typed h)"
  proof -
    have "\<exists>h. Deserialize p = Some h \<and> header_typed h" if "length p = HEADER_SIZE" for p
      using that Deserialize_typed [of p] by (auto simp: Deserialize_def)
    then show ?thesis by (auto simp: yields_def read_block_header_def run_read_bytes split: if_splits)
  qed
  show "run_state read_block_header d = (Some x, d') \<Longrightarrow> \<not> des_error d'" for d x d'
    by (auto simp: read_block_header_def run_read_bytes header_offsets split: if_splits)
qed

section \<open>Payload codecs\<close>

text \<open>
  The contract of a whole payload: \<open>dec\<close> returns its boolean and the object; it accepts only without error,
  and what it accepts is valid.
\<close>

locale payload_codec =
  fixes enc :: "'a \<Rightarrow> byte list" and dec :: "(bool \<times> 'a) reader" and valid :: "'a \<Rightarrow> bool"
  assumes dec_reads: "valid x \<Longrightarrow> reads dec (enc x) (True, x)"
    and dec_local: "well_behaved dec"
    and dec_accepts: "des_wf d \<Longrightarrow> run_state dec d = ((True, x), d') \<Longrightarrow> \<not> des_error d' \<and> valid x"
begin

lemma payload_whole:
  "valid x \<Longrightarrow> run_state dec (MessageDeserializer (enc x @ rest)) =
     ((True, x), \<lparr>des_data = enc x @ rest, des_position = length (enc x), des_error = False\<rparr>)"
  by (subst readsD [OF dec_reads]) (auto simp: MessageDeserializer_def des_wf_def cursor_def)

lemma payload_valid: "run_state dec (MessageDeserializer data) = ((True, x), d') \<Longrightarrow> valid x"
  using dec_accepts [of "MessageDeserializer data" x d'] by (simp add: MessageDeserializer_def des_wf_def)

lemma payload_truncated:
  assumes "valid x" "n < length (enc x)"
  shows "\<not> fst (fst (run_state dec (MessageDeserializer (take n (enc x)))))"
proof
  let ?d = "MessageDeserializer (take n (enc x))"
  assume ok: "fst (fst (run_state dec ?d))"
  obtain y d' where r: "run_state dec ?d = ((True, y), d')" using ok by (metis prod.collapse)
  have wf: "des_wf ?d" by (simp add: MessageDeserializer_def des_wf_def)
  have e: "\<not> des_error d'" using dec_accepts [OF wf r] by blast
  note w = well_behavedD [OF dec_local wf r]
  have "with_more (drop n (enc x)) ?d = MessageDeserializer (enc x @ [])"
    by (simp add: with_more_def MessageDeserializer_def)
  then have "des_position (with_more (drop n (enc x)) d') = length (enc x)"
    using w(5) [OF e, of "drop n (enc x)"] payload_whole [OF assms(1), of "[]"] by simp
  moreover have "des_position d' \<le> n" using w(1,2) by (simp add: des_wf_def MessageDeserializer_def)
  ultimately show False using assms(2) by simp
qed

end

lemma reads_check: "reads (do { e \<leftarrow> has_error; ret (\<not> e, x) }) [] (True, x)"
  by (rule reads_bind_last [OF reads_has_error]) (simp add: reads_ret)

interpretation nonce_payload: payload_codec "le_bytes 8" read_nonce any_value
proof unfold_locales
  show "reads read_nonce (le_bytes 8 x) (True, x)" for x
    unfolding read_nonce_def by (rule reads_bind_last [OF wire64.dec_enc reads_check]) simp
  show "well_behaved read_nonce" unfolding read_nonce_def by (intro readers)
qed (auto simp: read_nonce_def split: prod.splits)

definition version_ok :: "VersionMessage \<Rightarrow> bool" where
  "version_ok m \<longleftrightarrow> in_int32 (vm_version m) \<and> in_int64 (vm_timestamp m) \<and> na_typed (vm_addr_recv m) \<and>
     na_typed (vm_addr_from m) \<and> length (vm_user_agent m) \<le> MAX_SUBVERSION_LENGTH \<and> in_int32 (vm_start_height m)"

lemma Version_serialize_layout:
  "Version_serialize m = le_bytes 4 (word_of_int (vm_version m) :: u32) @ le_bytes 8 (vm_services m) @
     le_bytes 8 (word_of_int (vm_timestamp m) :: u64) @ enc_address (vm_addr_recv m) @ enc_address (vm_addr_from m) @
     le_bytes 8 (vm_nonce m) @ (VarInt_encode (of_nat (length (vm_user_agent m))) @ map byte_of_char (vm_user_agent m)) @
     le_bytes 4 (word_of_int (vm_start_height m) :: u32)"
  by (simp add: Version_serialize_def Let_def write_append)

interpretation version_payload: payload_codec Version_serialize Version_deserialize version_ok
proof unfold_locales
  fix m assume m: "version_ok m"
  then have v: "in_int32 (vm_version m)" "in_int64 (vm_timestamp m)" "na_typed (vm_addr_recv m)" "na_typed (vm_addr_from m)"
    "length (vm_user_agent m) \<le> MAX_SUBVERSION_LENGTH \<and> length (vm_user_agent m) \<le> 0x2000000" "in_int32 (vm_start_height m)"
    by (auto simp: version_ok_def limit_defs)
  have m': "m = \<lparr>vm_version = vm_version m, vm_services = vm_services m, vm_timestamp = vm_timestamp m, vm_addr_recv = vm_addr_recv m,
       vm_addr_from = vm_addr_from m, vm_nonce = vm_nonce m, vm_user_agent = vm_user_agent m, vm_start_height = vm_start_height m\<rparr>"
    by (cases m) simp
  show "reads Version_deserialize (Version_serialize m) (True, m)"
    unfolding Version_serialize_layout Version_deserialize_def
    by (subst (10) m')
      (rule reads_bind [OF wire_int32.dec_enc [OF v(1)]], rule reads_bind [OF wire64.dec_enc [OF TrueI]],
       rule reads_bind [OF wire_int64.dec_enc [OF v(2)]], rule reads_bind [OF wire_address.dec_enc [OF v(3)]],
       rule reads_bind [OF wire_address.dec_enc [OF v(4)]], rule reads_bind [OF wire64.dec_enc [OF TrueI]],
       rule reads_bind [OF wire_string.dec_enc [OF v(5)]], rule reads_bind_last [OF wire_int32.dec_enc [OF v(6)]], rule reads_check)
next
  fix d m d' assume d: "des_wf d" and r: "run_state Version_deserialize d = ((True, m), d')"
  have e: "\<not> des_error d'" using r by (auto simp: Version_deserialize_def split: prod.splits)
  have "yields Version_deserialize (\<lambda>(ok, m). version_ok m)"
    unfolding Version_deserialize_def
    apply (rule yields_bind [OF _ _ wire_int32.dec_valid], intro readers, intro readers)
    apply (rule yields_bind [OF _ _ wire64.dec_valid], intro readers, intro readers)
    apply (rule yields_bind [OF _ _ wire_int64.dec_valid], intro readers, intro readers)
    apply (rule yields_bind [OF _ _ wire_address.dec_valid], intro readers, intro readers)
    apply (rule yields_bind [OF _ _ wire_address.dec_valid], intro readers, intro readers)
    apply (rule yields_bind [OF _ _ wire64.dec_valid], intro readers, intro readers)
    apply (rule yields_bind [OF _ _ wire_string.dec_valid], intro readers, intro readers)
    apply (rule yields_bind [OF _ _ wire_int32.dec_valid], intro readers, intro readers)
    apply (rule yields_bind [where P = any_value], intro readers, intro readers, simp add: yields_any)
    by (simp add: yields_ret version_ok_def)
  from yieldsD [OF this d r e] e show "\<not> des_error d' \<and> version_ok m" by simp
next
  show "well_behaved Version_deserialize" unfolding Version_deserialize_def by (intro readers)
qed

text \<open>The shape of the three list payloads.\<close>

definition counted_list :: "nat \<Rightarrow> nat \<Rightarrow> 'a option reader \<Rightarrow> 'a list \<Rightarrow> (bool \<times> 'a list) reader" where
  "counted_list max_size batch_size item this = do {
     count \<leftarrow> read_varint;
     if unat count > max_size then ret (False, this)
     else do {
       (ok, items, _) \<leftarrow> item_loop (unat count) batch_size item (unat count) 0 [];
       e \<leftarrow> has_error;
       ret (ok \<and> \<not> e, items)
     }
   }"

lemma list_payloads:
  "Addr_deserialize = counted_list MAX_ADDR_SIZE (MAX_VECTOR_ALLOCATE div sizeof_TimestampedAddress) (checked read_timestamped_address)"
  "Inv_deserialize = counted_list MAX_INV_SIZE (MAX_VECTOR_ALLOCATE div sizeof_InventoryVector) (checked read_inventory_vector)"
  "Headers_deserialize = counted_list MAX_HEADERS_SIZE (MAX_VECTOR_ALLOCATE div sizeof_CBlockHeader) read_block_header"
  by (rule ext, simp add: counted_list_def Addr_deserialize_def Inv_deserialize_def Headers_deserialize_def)+

definition enc_list :: "('a \<Rightarrow> byte list) \<Rightarrow> 'a list \<Rightarrow> byte list" where
  "enc_list enc xs = VarInt_encode (of_nat (length xs)) @ concat (map enc xs)"

definition list_ok :: "nat \<Rightarrow> ('a \<Rightarrow> bool) \<Rightarrow> 'a list \<Rightarrow> bool" where
  "list_ok max_size valid xs \<longleftrightarrow> length xs \<le> max_size \<and> list_all valid xs"

lemma fold_append: "(\<And>x s. w x s = s @ enc x) \<Longrightarrow> fold w xs s = s @ concat (map enc xs)"
  by (induction xs arbitrary: s) simp_all

context item_codec
begin

lemma loop_reads_count:
  assumes "length xs \<le> 0x2000000" "list_all valid xs"
  shows "\<exists>a. reads (item_loop c b item (unat (of_nat (length xs) :: u64)) 0 []) (concat (map enc xs)) (True, xs, a)"
  using loop_reads [OF assms(2), of c b 0 "[]"] assms(1) by (simp add: unat_size)

lemma counted_payload:
  assumes max: "m \<le> 0x2000000"
  shows "payload_codec (enc_list enc) (counted_list m b item this) (list_ok m valid)"
proof unfold_locales
  fix xs assume xs: "list_ok m valid xs"
  then have l: "length xs \<le> m" "list_all valid xs" "length xs \<le> 0x2000000" using max by (auto simp: list_ok_def)
  have n: "unat (of_nat (length xs) :: u64) = length xs" and le: "of_nat (length xs) \<le> MAX_SIZE" using unat_size l(3) by blast+
  obtain a where a: "reads (item_loop (length xs) b item (length xs) 0 []) (concat (map enc xs)) (True, xs, a)"
    using loop_reads_count [OF l(3,2), of "length xs" b] n by auto
  have "reads (do { (ok, items, _) \<leftarrow> item_loop (length xs) b item (length xs) 0 []; e \<leftarrow> has_error; ret (ok \<and> \<not> e, items) })
      (concat (map enc xs)) (True, xs)"
    by (rule reads_bind_last [OF a]) (use reads_check in simp)
  then show "reads (counted_list m b item this) (enc_list enc xs) (True, xs)"
    unfolding counted_list_def enc_list_def by (intro reads_bind [OF wire_varint.dec_enc [OF le]]) (use l(1) in \<open>simp add: n\<close>)
next
  fix d xs d' assume d: "des_wf d" and r: "run_state (counted_list m b item this) d = ((True, xs), d')"
  obtain c d1 where c: "run_state read_varint d = (c, d1)" by fastforce
  have d1: "des_wf d1" by (rule well_behavedD(1) [OF well_behaved_varint d c])
  obtain ok ys a d2 where l: "run_state (item_loop (unat c) b item (unat c) 0 []) d1 = ((ok, ys, a), d2)" by (metis prod.collapse)
  from r have "unat c \<le> m" "ok" "\<not> des_error d2" "d' = d2" "xs = ys"
    by (auto simp: counted_list_def c l split: if_splits)
  moreover from yieldsD [OF loop_yields d1 l] calculation(3) have "list_all valid ys" "length ys = unat c" by auto
  ultimately show "\<not> des_error d' \<and> list_ok m valid xs" by (simp add: list_ok_def)
next
  show "well_behaved (counted_list m b item this)"
    unfolding counted_list_def by (intro readers loop_local)
qed

end

interpretation addr_payload: payload_codec "enc_list enc_timestamped" "Addr_deserialize this" "list_ok MAX_ADDR_SIZE (\<lambda>t. na_typed (ta_address t))" for this
  unfolding list_payloads by (rule addr_items.counted_payload) (simp add: limit_defs)

interpretation inv_payload: payload_codec "enc_list enc_inventory" "Inv_deserialize this" "list_ok MAX_INV_SIZE (\<lambda>v. length (iv_hash v) = 32)" for this
  unfolding list_payloads by (rule inv_items.counted_payload) (simp add: limit_defs)

interpretation headers_payload: payload_codec "enc_list SerializeFixed" "Headers_deserialize this" "list_ok MAX_HEADERS_SIZE header_typed" for this
  unfolding list_payloads by (rule header_items.counted_payload) (simp add: limit_defs)

definition getheaders_ok :: "GetHeadersMessage \<Rightarrow> bool" where
  "getheaders_ok m \<longleftrightarrow> list_ok MAX_LOCATOR_SZ (\<lambda>h. length h = 32) (gh_block_locator_hashes m) \<and> length (gh_hash_stop m) = 32"

definition enc_getheaders :: "GetHeadersMessage \<Rightarrow> byte list" where
  "enc_getheaders m = le_bytes 4 (gh_version m) @ VarInt_encode (of_nat (length (gh_block_locator_hashes m))) @
     concat (map (\<lambda>h. h) (gh_block_locator_hashes m)) @ gh_hash_stop m"

lemma GetHeaders_run:
  assumes "run_state read_uint32 d = (v, d0)" "run_state read_varint d0 = (c, d1)"
    "run_state (item_loop (unat c) (MAX_VECTOR_ALLOCATE div 32) read_hash (unat c) 0 []) d1 = ((ok, ys, a), d2)"
    "run_state read_hash d2 = (h, d3)"
  shows "run_state (GetHeaders_deserialize this) d =
      (if MAX_LOCATOR_SZ < unat c then ((False, this\<lparr>gh_version := v\<rparr>), d1)
       else if \<not> ok then ((False, this\<lparr>gh_version := v, gh_block_locator_hashes := ys\<rparr>), d2)
       else (case h of None \<Rightarrow> ((False, this\<lparr>gh_version := v, gh_block_locator_hashes := ys\<rparr>), d3)
             | Some s \<Rightarrow> ((\<not> des_error d3, this\<lparr>gh_version := v, gh_block_locator_hashes := ys, gh_hash_stop := s\<rparr>), d3)))"
  unfolding GetHeaders_deserialize_def Let_def
  by (simp only: run_state_bind assms(1,2) prod.case,
      simp only: if_distrib [of run_state] if_distribR run_state_bind run_state_return assms(3,4) prod.case,
      cases h, simp_all only: option.case run_state_bind run_state_return run_basic prod.case)

interpretation getheaders_payload: payload_codec enc_getheaders "GetHeaders_deserialize this" getheaders_ok for this
proof unfold_locales
  fix m assume m: "getheaders_ok m"
  let ?xs = "gh_block_locator_hashes m"
  have l: "length ?xs \<le> 101" "list_all (\<lambda>h. length h = 32) ?xs" "length ?xs \<le> 0x2000000" and s: "length (gh_hash_stop m) = 32"
    using m by (auto simp: getheaders_ok_def list_ok_def limit_defs)
  have n: "unat (of_nat (length ?xs) :: u64) = length ?xs" and le: "of_nat (length ?xs) \<le> MAX_SIZE" using unat_size l(3) by blast+
  obtain a where a: "reads (item_loop (length ?xs) (MAX_VECTOR_ALLOCATE div 32) read_hash (length ?xs) 0 []) (concat (map (\<lambda>h. h) ?xs)) (True, ?xs, a)"
    using hash_items.loop_reads_count [OF l(3,2), of "length ?xs" "MAX_VECTOR_ALLOCATE div 32"] n by auto
  have m': "this\<lparr>gh_version := gh_version m, gh_block_locator_hashes := gh_block_locator_hashes m, gh_hash_stop := gh_hash_stop m\<rparr> = m"
    by (cases m; cases this) simp
  show "reads (GetHeaders_deserialize this) (enc_getheaders m) (True, m)"
    unfolding GetHeaders_deserialize_def enc_getheaders_def
    apply (rule reads_bind [OF wire32.dec_enc [OF TrueI]])
    unfolding Let_def
    apply (rule reads_bind [OF wire_varint.dec_enc [OF le]])
    apply (simp only: n MAX_LOCATOR_SZ_def not_less [THEN iffD2, OF l(1)] if_False)
    apply (rule reads_bind [OF a])
    apply (simp only: prod.case not_True_eq_False if_False)
    apply (rule reads_bind_last [OF hash_items.item_reads [OF s]])
    by (simp only: option.case m') (rule reads_check)
next
  fix d m d' assume d: "des_wf d" and r: "run_state (GetHeaders_deserialize this) d = ((True, m), d')"
  obtain v d0 where v: "run_state read_uint32 d = (v, d0)" by fastforce
  have d0: "des_wf d0" by (rule well_behavedD(1) [OF well_behaved_reads(3) d v])
  obtain c d1 where c: "run_state read_varint d0 = (c, d1)" by fastforce
  have d1: "des_wf d1" by (rule well_behavedD(1) [OF well_behaved_varint d0 c])
  obtain ok ys a d2 where l: "run_state (item_loop (unat c) (MAX_VECTOR_ALLOCATE div 32) read_hash (unat c) 0 []) d1 = ((ok, ys, a), d2)"
    by (metis prod.collapse)
  have d2: "des_wf d2" by (rule well_behavedD(1) [OF hash_items.loop_local d1 l])
  obtain h d3 where h: "run_state read_hash d2 = (h, d3)" by fastforce
  note run = GetHeaders_run [OF v c l h, of this]
  have u: "\<not> MAX_LOCATOR_SZ < unat c" "ok" "h \<noteq> None"
    using run unfolding r by (cases "MAX_LOCATOR_SZ < unat c"; cases ok; cases h; simp only: if_True if_False option.case; simp)+
  then obtain s where s: "h = Some s" by blast
  have e: "((True, m), d') = ((\<not> des_error d3, this\<lparr>gh_version := v, gh_block_locator_hashes := ys, gh_hash_stop := s\<rparr>), d3)"
    using run unfolding r s by (simp only: u if_False not_True_eq_False option.case)
  have r': "unat c \<le> MAX_LOCATOR_SZ" "h = Some s" "\<not> des_error d3" "d' = d3" "gh_block_locator_hashes m = ys" "gh_hash_stop m = s"
    using e u(1) s by simp_all
  have "\<not> des_error d2" using well_behavedD(4) [OF hash_items.item_local d2 h] r'(3) by blast
  from yieldsD [OF hash_items.loop_yields d1 l this] have "list_all (\<lambda>h. length h = 32) ys" "length ys = unat c" by auto
  moreover have "length s = 32" using yieldsD [OF hash_items.item_valid d2 h r'(3)] r'(2) by simp
  ultimately show "\<not> des_error d' \<and> getheaders_ok m" using r' by (simp add: getheaders_ok_def list_ok_def)
next
  show "well_behaved (GetHeaders_deserialize this)"
    unfolding GetHeaders_deserialize_def Let_def by (intro readers hash_items.loop_local hash_items.item_local)
qed

section \<open>All messages\<close>

fun message_ok :: "Message \<Rightarrow> bool" where
  "message_ok (Version m) = version_ok m"
| "message_ok (Addr l) = list_ok MAX_ADDR_SIZE (\<lambda>t. na_typed (ta_address t)) l"
| "message_ok (Inv l) = list_ok MAX_INV_SIZE (\<lambda>v. length (iv_hash v) = 32) l"
| "message_ok (GetHeaders m) = getheaders_ok m"
| "message_ok (Headers l) = list_ok MAX_HEADERS_SIZE header_typed l"
| "message_ok _ = True"

lemma list_serialize:
  "Addr_serialize l = enc_list enc_timestamped l" "Inv_serialize v = enc_list enc_inventory v"
  "Headers_serialize h = enc_list SerializeFixed h" "GetHeaders_serialize m = enc_getheaders m"
  by (simp_all add: Addr_serialize_def Inv_serialize_def Headers_serialize_def GetHeaders_serialize_def enc_list_def
      enc_getheaders_def Let_def write_append Serialize_def enc_timestamped_def
      fold_append [where enc = enc_timestamped] fold_append [where enc = enc_inventory]
      fold_append [where enc = SerializeFixed] fold_append [where enc = "\<lambda>h. h"])

lemma create_message_command: "\<exists>m0. create_message (command m) = Some m0 \<and> command m0 = command m"
  by (cases m) (simp_all add: create_message_def)

lemma command_create: "create_message cmd = Some m0 \<Longrightarrow> command m0 = cmd"
  by (auto simp: create_message_def split: if_splits)

lemma run_map_prod:
  "run_state (map_state (map_prod id f) r) d = (case run_state r d of ((ok, x), d') \<Rightarrow> ((ok, f x), d'))"
  by (simp add: state.map_sel split: prod.splits)

lemma fst_run_map_prod [simp]: "fst (fst (run_state (map_state (map_prod id f) r) d)) = fst (fst (run_state r d))"
  by (simp add: run_map_prod split: prod.splits)

lemmas deserialize_simps = deserialize_def run_map_prod list_serialize write_append

text \<open>The object a payload is read into does not matter, only its class.\<close>

lemma deserialize_whole:
  assumes "message_ok m" "command m0 = command m"
  shows "deserialize m0 (serialize m) = (True, m)"
proof (cases m)
  case (Version v)
  then show ?thesis using assms version_payload.payload_whole [of v "[]"] by (cases m0) (simp_all add: deserialize_simps)
next
  case (Addr l)
  then show ?thesis using assms addr_payload.payload_whole [of l _ "[]"] by (cases m0) (simp_all add: deserialize_simps)
next
  case (Inv l)
  then show ?thesis using assms inv_payload.payload_whole [of l _ "[]"] by (cases m0) (simp_all add: deserialize_simps)
next
  case (GetHeaders g)
  then show ?thesis using assms getheaders_payload.payload_whole [of g _ "[]"] by (cases m0) (simp_all add: deserialize_simps)
next
  case (Headers l)
  then show ?thesis using assms headers_payload.payload_whole [of l _ "[]"] by (cases m0) (simp_all add: deserialize_simps)
next
  case (Ping n)
  then show ?thesis using assms nonce_payload.payload_whole [of n "[]"] by (cases m0) (simp_all add: deserialize_simps)
next
  case (Pong n)
  then show ?thesis using assms nonce_payload.payload_whole [of n "[]"] by (cases m0) (simp_all add: deserialize_simps)
qed (use assms in \<open>cases m0; simp add: deserialize_simps\<close>)+

lemma deserialize_command: "deserialize m0 data = (ok, m) \<Longrightarrow> command m = command m0"
  by (cases m0) (auto simp: deserialize_simps split: prod.splits)

lemma deserialize_valid: "deserialize m0 data = (True, m) \<Longrightarrow> message_ok m"
  by (cases m0)
    (auto simp: deserialize_simps split: prod.splits
      dest: version_payload.payload_valid addr_payload.payload_valid inv_payload.payload_valid
        getheaders_payload.payload_valid headers_payload.payload_valid)

lemma deserialize_truncated:
  assumes "message_ok m" "command m0 = command m" "n < length (serialize m)"
  shows "\<not> fst (deserialize m0 (take n (serialize m)))"
proof (cases m)
  case (Version v)
  then show ?thesis using assms version_payload.payload_truncated [of v n] by (cases m0) (simp_all add: deserialize_def list_serialize write_append)
next
  case (Addr l)
  then show ?thesis using assms addr_payload.payload_truncated [of l n] by (cases m0) (simp_all add: deserialize_def list_serialize write_append)
next
  case (Inv l)
  then show ?thesis using assms inv_payload.payload_truncated [of l n] by (cases m0) (simp_all add: deserialize_def list_serialize write_append)
next
  case (GetHeaders g)
  then show ?thesis using assms getheaders_payload.payload_truncated [of g n] by (cases m0) (simp_all add: deserialize_def list_serialize write_append)
next
  case (Headers l)
  then show ?thesis using assms headers_payload.payload_truncated [of l n] by (cases m0) (simp_all add: deserialize_def list_serialize write_append)
next
  case (Ping x)
  then show ?thesis using assms nonce_payload.payload_truncated [of n x] by (cases m0) (simp_all add: deserialize_def list_serialize write_append)
next
  case (Pong x)
  then show ?thesis using assms nonce_payload.payload_truncated [of n x] by (cases m0) (simp_all add: deserialize_def list_serialize write_append)
qed (use assms in simp_all)

text \<open>Every well-formed message fits into one frame, and its header is admissible.\<close>

lemma length_structures:
  "na_typed a \<Longrightarrow> length (enc_address a) = 26" "na_typed (ta_address t) \<Longrightarrow> length (enc_timestamped t) = 30"
  "length (iv_hash v) = 32 \<Longrightarrow> length (enc_inventory v) = 36"
  by (simp_all add: enc_address_def enc_timestamped_def enc_inventory_def na_typed_def)

lemma length_concat_const: "list_all valid xs \<Longrightarrow> (\<And>x. valid x \<Longrightarrow> length (enc x) = k) \<Longrightarrow> length (concat (map enc xs)) = k * length xs"
  by (induction xs) simp_all

lemma VarInt_encoded_size_le: "VarInt_encoded_size v \<le> 9"
  by (simp add: VarInt_encoded_size_def)

lemma length_enc_list:
  assumes "list_ok m valid xs" "\<And>x. valid x \<Longrightarrow> length (enc x) = k"
  shows "length (enc_list enc xs) \<le> 9 + k * m"
proof -
  have "length (concat (map enc xs)) = k * length xs" using assms by (intro length_concat_const [of valid]) (auto simp: list_ok_def)
  moreover have "k * length xs \<le> k * m" by (rule mult_le_mono2) (use assms(1) in \<open>simp add: list_ok_def\<close>)
  ultimately show ?thesis using VarInt_encoded_size_le [of "of_nat (length xs)"]
    unfolding enc_list_def length_append length_VarInt_encode by linarith
qed

lemma length_serialize:
  assumes "message_ok m"
  shows "length (serialize m) \<le> MAX_PROTOCOL_MESSAGE_LENGTH"
proof (cases m)
  case (Version v)
  then show ?thesis using assms VarInt_encoded_size_le [of "of_nat (length (vm_user_agent v))"]
    by (simp add: Version_serialize_layout version_ok_def length_structures limit_defs)
next
  case (Addr l)
  with assms have "length (enc_list enc_timestamped l) \<le> 9 + 30 * MAX_ADDR_SIZE"
    by (intro length_enc_list [where valid = "\<lambda>t. na_typed (ta_address t)"]) (auto simp: length_structures)
  then show ?thesis using Addr by (simp add: list_serialize limit_defs)
next
  case (Inv l)
  with assms have "length (enc_list enc_inventory l) \<le> 9 + 36 * MAX_INV_SIZE"
    by (intro length_enc_list [where valid = "\<lambda>v. length (iv_hash v) = 32"]) (auto simp: length_structures)
  then show ?thesis using Inv by (simp add: list_serialize limit_defs)
next
  case (Headers l)
  with assms have "length (enc_list SerializeFixed l) \<le> 9 + 100 * MAX_HEADERS_SIZE"
    by (intro length_enc_list [where valid = "header_typed"]) (auto simp: length_structures)
  then show ?thesis using Headers by (simp add: list_serialize limit_defs)
next
  case (GetHeaders g)
  have "length (concat (map (\<lambda>h. h) (gh_block_locator_hashes g))) = 32 * length (gh_block_locator_hashes g)"
    using assms GetHeaders by (intro length_concat_const [where valid = "\<lambda>h. length h = 32"]) (auto simp: getheaders_ok_def list_ok_def)
  then show ?thesis using assms GetHeaders VarInt_encoded_size_le [of "of_nat (length (gh_block_locator_hashes g))"]
    by (simp add: list_serialize enc_getheaders_def getheaders_ok_def list_ok_def limit_defs)
qed (simp_all add: write_append limit_defs)

lemma set_command_field:
  "length cmd \<le> COMMAND_SIZE \<Longrightarrow> mh_command (set_command cmd h) = cmd @ replicate (COMMAND_SIZE - length cmd) NUL"
  by (simp add: set_command_def Let_def min_def)

lemma create_header_fields:
  "mh_magic (create_header magic cmd p) = magic" "mh_length (create_header magic cmd p) = of_nat (length p)"
  "mh_checksum (create_header magic cmd p) = compute_checksum p"
  "length cmd \<le> COMMAND_SIZE \<Longrightarrow> mh_command (create_header magic cmd p) = cmd @ replicate (COMMAND_SIZE - length cmd) NUL"
  by (simp_all add: create_header_def new_MessageHeader_def set_command_field) (simp_all add: set_command_def Let_def)

lemma double_sha256_SHA256: "double_sha256 d = SHA256 (SHA256 d)"
proof -
  have "Finalize (Write (CSHA256 (replicate 64 0)) d) = SHA256 d" for d
    using csha.digest_writes [OF CSHA256_absorbed, of "replicate 64 0" "[d]"] by simp
  then show ?thesis by (simp add: double_sha256_def Let_def)
qed

lemma length_compute_checksum [simp]: "length (compute_checksum p) = CHECKSUM_SIZE"
  by (simp add: compute_checksum_def double_sha256_SHA256 header_sizes)

lemma command_printable: "list_all printable (command m)" "length (command m) < COMMAND_SIZE" "NUL \<notin> set (command m)"
  by (cases m; simp add: printable_def header_sizes)+

lemma takeWhile_command_field: "takeWhile (\<lambda>c. c \<noteq> NUL) (command m @ replicate n NUL) = command m"
  using command_printable(3) [of m] by (subst takeWhile_append2) (auto simp: takeWhile_eq_Nil_iff)

lemma create_header_ok:
  assumes "message_ok m"
  shows "message_header_ok (create_header magic (command m) (serialize m))"
    and "get_command (create_header magic (command m) (serialize m)) = command m"
    and "unat (mh_length (create_header magic (command m) (serialize m))) = length (serialize m)"
proof -
  have l: "length (serialize m) \<le> 4000000" using length_serialize [OF assms] by (simp add: limit_defs)
  then have u: "unat (of_nat (length (serialize m)) :: u32) = length (serialize m)" by (simp add: unat_of_nat)
  have c: "mh_command (create_header magic (command m) (serialize m)) = command m @ replicate (COMMAND_SIZE - length (command m)) NUL"
    using create_header_fields(4) command_printable(2) [of m] by (simp add: less_imp_le)
  show "unat (mh_length (create_header magic (command m) (serialize m))) = length (serialize m)"
    by (simp add: create_header_fields u)
  show "get_command (create_header magic (command m) (serialize m)) = command m"
    by (simp add: get_command_def c takeWhile_command_field)
  show "message_header_ok (create_header magic (command m) (serialize m))"
    using command_printable [of m] l
    by (simp add: message_header_ok_def c takeWhile_command_field create_header_fields u limit_defs Let_def)
qed

section \<open>Properties\<close>

text \<open>
  \<^bold>\<open>C13.\<close> Every message survives the wire: the object \<open>create_message\<close> makes for the message's command reads
  the serialised payload back as exactly that message, for all nine message types and all contents within
  the protocol limits.
\<close>

theorem message_roundtrip:
  assumes "message_ok m"
  shows "\<exists>m0. create_message (command m) = Some m0 \<and> deserialize m0 (serialize m) = (True, m)"
  using create_message_command [of m] deserialize_whole [OF assms] by blast

theorem message_roundtrip_witness:
  "\<exists>m0. create_message ''addr'' = Some m0 \<and>
    deserialize m0 (serialize (Addr [\<lparr>ta_timestamp = 7, ta_address = from_ipv4 1 0x7f000001 9590\<rparr>])) =
      (True, Addr [\<lparr>ta_timestamp = 7, ta_address = from_ipv4 1 0x7f000001 9590\<rparr>])"
  using message_roundtrip [of "Addr [\<lparr>ta_timestamp = 7, ta_address = from_ipv4 1 0x7f000001 9590\<rparr>]"]
  by (simp add: list_ok_def limit_defs del: serialize.simps)

text \<open>
  \<^bold>\<open>C14.\<close> Whatever bytes a peer sends, a payload that is accepted is a message of the announced type whose
  contents are within the static types and the protocol limits: 16-byte addresses and 32-byte hashes, at most
  1000 addresses, 50000 inventory entries, 2000 headers, 101 locator hashes and 256 bytes of user agent.
\<close>

theorem accepted_message_typed:
  assumes "create_message cmd = Some m0" and "deserialize m0 data = (True, m)"
  shows "command m = cmd \<and> message_ok m"
  using deserialize_command [OF assms(2)] deserialize_valid [OF assms(2)] command_create [OF assms(1)] by simp

theorem accepted_message_typed_witness:
  "\<exists>m0. create_message ''ping'' = Some m0 \<and> deserialize m0 (serialize (Ping 7)) = (True, Ping 7) \<and>
     command (Ping 7) = ''ping'' \<and> message_ok (Ping 7)"
proof -
  have c: "create_message ''ping'' = Some (Ping 0)" by (simp add: create_message_def)
  have d: "deserialize (Ping 0) (serialize (Ping 7)) = (True, Ping 7)" by (rule deserialize_whole) simp_all
  from accepted_message_typed [OF c d] c d show ?thesis by blast
qed

text \<open>
  \<^bold>\<open>C40.\<close> A truncated payload is rejected: no strict prefix of the serialisation of a message is accepted as
  a message of that type.
\<close>

theorem truncated_message_rejected:
  assumes "message_ok m" and "create_message (command m) = Some m0" and "n < length (serialize m)"
  shows "\<not> fst (deserialize m0 (take n (serialize m)))"
  using deserialize_truncated [OF assms(1) command_create [OF assms(2)] assms(3)] .

theorem truncated_message_rejected_witness:
  "\<not> fst (deserialize (Pong 0) (take 7 (serialize (Pong 0x0102030405060708))))"
proof (rule truncated_message_rejected)
  show "create_message (command (Pong 0x0102030405060708)) = Some (Pong 0)" by (simp add: create_message_def)
qed (simp_all add: write_append)

end
