(* ===== verification/Peer.thy ===== *)
theory Peer
  imports Message
begin

text \<open>
  One peer connection (include/network/peer.hpp, src/network/peer.cpp): the handshake, the framing of the
  byte stream, keep-alive and timeouts.  The transport is used through its abstract interface: \<open>pe_send\<close>
  answers a \<open>send\<close>, given what it was handed before.  Clocks and random numbers come from the environment.
  Effects outside the object are recorded in \<open>p_actions\<close> in the order they happen.
\<close>

section \<open>State\<close>

datatype ConnectionType = INBOUND | OUTBOUND | MANUAL | FEELER

definition ConnectionTypeAsString :: "ConnectionType \<Rightarrow> string" where
  "ConnectionTypeAsString t = (case t of INBOUND \<Rightarrow> ''inbound'' | OUTBOUND \<Rightarrow> ''outbound'' | MANUAL \<Rightarrow> ''manual'' | FEELER \<Rightarrow> ''feeler'')"

datatype PeerState = DISCONNECTED | CONNECTING | CONNECTED | VERSION_SENT | READY | DISCONNECTING

record PeerStats =
  st_bytes_sent :: u64
  st_bytes_received :: u64
  st_messages_sent :: u64
  st_messages_received :: u64
  st_connected_time :: int
  st_last_send :: int
  st_last_recv :: int
  st_ping_time_ms :: int

text \<open>
  \<open>Send\<close> is a message the transport has queued, \<open>PostDisconnect\<close> a disconnect posted to the event loop, \<open>SampleTime\<close> a call of \<open>AddTimeData\<close>,
  \<open>Framed\<close> a message taken off the stream, \<open>Deliver\<close> a call of the message handler.
\<close>

datatype peer_action =
    Send "byte list"
  | Framed MessageHeader "byte list"
  | Deliver Message
  | PostDisconnect
  | SampleTime NetworkAddress int
  | CloseConnection

text \<open>\<open>p_connection\<close> is the remote end of the connection object, \<open>None\<close> for a null pointer; a timer holds its deadline.\<close>

record peer =
  p_connection :: "(string \<times> u16) option"
  p_handshake_timer :: "int option"
  p_ping_timer :: "int option"
  p_inactivity_timer :: "int option"
  p_network_magic :: u32
  p_is_inbound :: bool
  p_connection_type :: ConnectionType
  p_id :: int
  p_local_nonce :: u64
  p_local_start_height :: int
  p_target_address :: string
  p_target_port :: u16
  p_state :: PeerState
  p_stats :: PeerStats
  p_successfully_connected :: bool
  p_sync_started :: bool
  p_getaddr_sent :: bool
  p_started :: bool
  p_peer_version :: int
  p_peer_services :: u64
  p_peer_start_height :: int
  p_peer_user_agent :: string
  p_peer_nonce :: u64
  p_recv_buffer :: "byte list"
  p_recv_buffer_offset :: nat
  p_last_ping_nonce :: u64
  p_ping_sent_time :: int
  p_unknown_command_count :: int
  p_last_unknown_reset :: int
  p_blocks_for_inv_relay :: "blob list"
  p_actions :: "peer_action list"

text \<open>The environment of one event: wall clock in seconds, steady clock in milliseconds, a random number, the transport, the address library.\<close>

record peer_env =
  pe_time :: int
  pe_steady :: int
  pe_random :: u64
  pe_send :: "peer_action list \<Rightarrow> byte list \<Rightarrow> bool"
  pe_ip :: ip_lib

type_synonym message_handler = "Message \<Rightarrow> peer \<Rightarrow> peer"

definition VERSION_HANDSHAKE_TIMEOUT_SEC :: int where "VERSION_HANDSHAKE_TIMEOUT_SEC = 60"
definition PING_INTERVAL_SEC :: int where "PING_INTERVAL_SEC = 120"
definition PING_TIMEOUT_SEC :: int where "PING_TIMEOUT_SEC = 20 * 60"
definition INACTIVITY_TIMEOUT_SEC :: int where "INACTIVITY_TIMEOUT_SEC = 20 * 60"
definition CHECK_INTERVAL_SEC :: int where "CHECK_INTERVAL_SEC = 60"

text \<open>\<open>duration_cast<seconds>\<close> of milliseconds truncates towards zero.\<close>

definition to_seconds :: "int \<Rightarrow> int" where
  "to_seconds ms = (if 0 \<le> ms then ms div 1000 else - ((- ms) div 1000))"

definition act :: "peer_action \<Rightarrow> peer \<Rightarrow> peer" where
  "act a p = p\<lparr>p_actions := p_actions p @ [a]\<rparr>"

section \<open>Construction\<close>

definition new_stats :: PeerStats where
  "new_stats = \<lparr>st_bytes_sent = 0, st_bytes_received = 0, st_messages_sent = 0, st_messages_received = 0,
     st_connected_time = 0, st_last_send = 0, st_last_recv = 0, st_ping_time_ms = -1\<rparr>"

text \<open>\<open>connection\<close> is the remote end and whether it is open; \<open>process_nonce\<close> the process-wide nonce.\<close>

definition new_Peer :: "peer_env \<Rightarrow> u64 \<Rightarrow> ((string \<times> u16) \<times> bool) option \<Rightarrow> u32 \<Rightarrow> bool \<Rightarrow> int \<Rightarrow> string \<Rightarrow> u16 \<Rightarrow> ConnectionType \<Rightarrow> peer" where
  "new_Peer env process_nonce connection network_magic is_inbound start_height target_address target_port conn_type =
     \<lparr>p_connection = map_option fst connection, p_handshake_timer = None, p_ping_timer = None, p_inactivity_timer = None,
      p_network_magic = network_magic, p_is_inbound = is_inbound, p_connection_type = conn_type, p_id = -1,
      p_local_nonce = (if process_nonce \<noteq> 0 then process_nonce else pe_random env),
      p_local_start_height = start_height, p_target_address = target_address, p_target_port = target_port,
      p_state = (case connection of Some (_, True) \<Rightarrow> CONNECTED | Some (_, False) \<Rightarrow> CONNECTING | None \<Rightarrow> DISCONNECTED),
      p_stats = new_stats, p_successfully_connected = False, p_sync_started = False, p_getaddr_sent = False,
      p_started = False, p_peer_version = 0, p_peer_services = 0, p_peer_start_height = 0, p_peer_user_agent = [],
      p_peer_nonce = 0, p_recv_buffer = [], p_recv_buffer_offset = 0, p_last_ping_nonce = 0, p_ping_sent_time = 0,
      p_unknown_command_count = 0, p_last_unknown_reset = pe_steady env, p_blocks_for_inv_relay = [], p_actions = []\<rparr>"

definition peer_create_outbound :: "peer_env \<Rightarrow> u64 \<Rightarrow> ((string \<times> u16) \<times> bool) option \<Rightarrow> u32 \<Rightarrow> int \<Rightarrow> string \<Rightarrow> u16 \<Rightarrow> ConnectionType \<Rightarrow> peer" where
  "peer_create_outbound env process_nonce connection network_magic start_height target_address target_port conn_type =
     new_Peer env process_nonce connection network_magic False start_height target_address target_port conn_type"

definition peer_create_inbound :: "peer_env \<Rightarrow> u64 \<Rightarrow> ((string \<times> u16) \<times> bool) option \<Rightarrow> u32 \<Rightarrow> int \<Rightarrow> peer" where
  "peer_create_inbound env process_nonce connection network_magic start_height =
     (let (addr, port) = (case connection of Some (r, _) \<Rightarrow> r | None \<Rightarrow> ([], 0))
      in new_Peer env process_nonce connection network_magic True start_height addr port INBOUND)"

definition is_feeler :: "peer \<Rightarrow> bool" where
  "is_feeler p \<longleftrightarrow> p_connection_type p = FEELER"

definition is_manual :: "peer \<Rightarrow> bool" where
  "is_manual p \<longleftrightarrow> p_connection_type p = MANUAL"

definition is_connected :: "peer \<Rightarrow> bool" where
  "is_connected p \<longleftrightarrow> p_state p \<noteq> DISCONNECTED \<and> p_state p \<noteq> DISCONNECTING"

definition peer_address :: "peer \<Rightarrow> string" where
  "peer_address p = (case p_connection p of Some (addr, _) \<Rightarrow> addr
     | None \<Rightarrow> if p_target_address p \<noteq> [] then p_target_address p else ''unknown'')"

definition peer_port :: "peer \<Rightarrow> u16" where
  "peer_port p = (case p_connection p of Some (_, port) \<Rightarrow> port
     | None \<Rightarrow> if p_target_port p \<noteq> 0 then p_target_port p else 0)"

section \<open>Disconnecting and sending\<close>

definition cancel_all_timers :: "peer \<Rightarrow> peer" where
  "cancel_all_timers p = p\<lparr>p_handshake_timer := None, p_ping_timer := None, p_inactivity_timer := None\<rparr>"

definition on_disconnect :: "peer \<Rightarrow> peer" where
  "on_disconnect p = p\<lparr>p_state := DISCONNECTED\<rparr>"

definition do_disconnect :: "peer \<Rightarrow> peer" where
  "do_disconnect p =
     (if p_state p = DISCONNECTED \<or> p_state p = DISCONNECTING then p
      else
        let p = p\<lparr>p_state := DISCONNECTING\<rparr>;
            p = cancel_all_timers p;
            p = (case p_connection p of None \<Rightarrow> p | Some _ \<Rightarrow> (act CloseConnection p)\<lparr>p_connection := None\<rparr>)
        in on_disconnect p)"

definition post_disconnect :: "peer \<Rightarrow> peer" where
  "post_disconnect p = act PostDisconnect p"

definition on_transport_disconnect :: "peer \<Rightarrow> peer" where
  "on_transport_disconnect p =
     (if p_state p \<noteq> DISCONNECTED then
        let p = cancel_all_timers p;
            p = p\<lparr>p_connection := None\<rparr>
        in on_disconnect p
      else p)"

definition send_message :: "peer_env \<Rightarrow> Message \<Rightarrow> peer \<Rightarrow> peer" where
  "send_message env msg p =
     (if p_state p = DISCONNECTED \<or> p_state p = DISCONNECTING then p
      else
        let payload = serialize msg;
            header = create_header (p_network_magic p) (command msg) payload;
            full_message = serialize_header header @ payload;
            send_result = (p_connection p \<noteq> None \<and> pe_send env (p_actions p) full_message)
        in if send_result then
             (act (Send full_message) p)\<lparr>p_stats := (p_stats p)\<lparr>st_messages_sent := st_messages_sent (p_stats p) + 1,
                 st_bytes_sent := st_bytes_sent (p_stats p) + of_nat (length full_message),
                 st_last_send := to_seconds (pe_steady env)\<rparr>\<rparr>
           else post_disconnect p)"

section \<open>Timers and keep-alive\<close>

definition start_handshake_timeout :: "peer_env \<Rightarrow> peer \<Rightarrow> peer" where
  "start_handshake_timeout env p = p\<lparr>p_handshake_timer := Some (pe_steady env + 1000 * VERSION_HANDSHAKE_TIMEOUT_SEC)\<rparr>"

definition handshake_timer_fired :: "peer_env \<Rightarrow> peer \<Rightarrow> peer" where
  "handshake_timer_fired env p =
     (let p = p\<lparr>p_handshake_timer := None\<rparr> in
      if p_state p = DISCONNECTED \<or> p_state p = DISCONNECTING then p
      else if p_state p \<noteq> READY then do_disconnect p
      else p)"

definition start_inactivity_timeout :: "peer_env \<Rightarrow> peer \<Rightarrow> peer" where
  "start_inactivity_timeout env p = p\<lparr>p_inactivity_timer := Some (pe_steady env + 1000 * CHECK_INTERVAL_SEC)\<rparr>"

definition inactivity_timer_fired :: "peer_env \<Rightarrow> peer \<Rightarrow> peer" where
  "inactivity_timer_fired env p =
     (let p = p\<lparr>p_inactivity_timer := None\<rparr> in
      if p_state p = DISCONNECTED \<or> p_state p = DISCONNECTING then p
      else
        let now_duration = to_seconds (pe_steady env);
            last_activity = max (st_last_send (p_stats p)) (st_last_recv (p_stats p));
            idle_time = now_duration - last_activity
        in if idle_time > INACTIVITY_TIMEOUT_SEC then do_disconnect p
           else start_inactivity_timeout env p)"

definition schedule_ping :: "peer_env \<Rightarrow> peer \<Rightarrow> peer" where
  "schedule_ping env p = p\<lparr>p_ping_timer := Some (pe_steady env + 1000 * PING_INTERVAL_SEC)\<rparr>"

definition send_ping :: "peer_env \<Rightarrow> peer \<Rightarrow> peer" where
  "send_ping env p =
     (let p = p\<lparr>p_last_ping_nonce := pe_random env, p_ping_sent_time := pe_steady env\<rparr>
      in send_message env (Ping (p_last_ping_nonce p)) p)"

definition ping_timer_fired :: "peer_env \<Rightarrow> peer \<Rightarrow> peer" where
  "ping_timer_fired env p =
     (let p = p\<lparr>p_ping_timer := None\<rparr> in
      if p_state p = DISCONNECTED \<or> p_state p = DISCONNECTING then p
      else if p_last_ping_nonce p \<noteq> 0 then
        let ping_age = to_seconds (pe_steady env - p_ping_sent_time p)
        in if ping_age > PING_TIMEOUT_SEC then do_disconnect p
           else schedule_ping env p
      else schedule_ping env (send_ping env p))"

definition handle_pong :: "peer_env \<Rightarrow> u64 \<Rightarrow> peer \<Rightarrow> peer" where
  "handle_pong env nonce p =
     (if nonce = p_last_ping_nonce p then
        p\<lparr>p_stats := (p_stats p)\<lparr>st_ping_time_ms := pe_steady env - p_ping_sent_time p\<rparr>, p_last_ping_nonce := 0\<rparr>
      else p)"

section \<open>Handshake\<close>

definition send_version :: "peer_env \<Rightarrow> peer \<Rightarrow> peer" where
  "send_version env p =
     (let version_msg = new_VersionMessage\<lparr>vm_version := uint PROTOCOL_VERSION, vm_services := NODE_NETWORK, vm_timestamp := pe_time env\<rparr>;
          version_msg = version_msg\<lparr>vm_addr_recv :=
            (case p_connection p of Some (peer_addr, port) \<Rightarrow> from_string (pe_ip env) peer_addr port NODE_NETWORK
             | None \<Rightarrow> null_NetworkAddress)\<rparr>;
          version_msg = version_msg\<lparr>vm_addr_from := null_NetworkAddress, vm_nonce := p_local_nonce p,
            vm_user_agent := GetUserAgent, vm_start_height := p_local_start_height p\<rparr>;
          p = send_message env (Version version_msg) p
      in p\<lparr>p_state := VERSION_SENT\<rparr>)"

text \<open>\<open>connection_open\<close> answers \<open>is_open\<close> at the time of the call.\<close>

definition start :: "peer_env \<Rightarrow> bool \<Rightarrow> peer \<Rightarrow> peer" where
  "start env connection_open p =
     (if p_started p then p
      else
        let p = p\<lparr>p_started := True\<rparr> in
        if p_state p \<noteq> CONNECTING \<and> p_state p \<noteq> CONNECTED then p
        else if p_state p = CONNECTING \<and> \<not> (p_connection p \<noteq> None \<and> connection_open) then p
        else
          let p = p\<lparr>p_state := CONNECTED\<rparr>;
              now = to_seconds (pe_steady env);
              p = p\<lparr>p_stats := (p_stats p)\<lparr>st_connected_time := now, st_last_send := now, st_last_recv := now\<rparr>\<rparr>
          in if p_is_inbound p then start_handshake_timeout env p
             else start_handshake_timeout env (send_version env p))"

definition handle_version :: "peer_env \<Rightarrow> VersionMessage \<Rightarrow> peer \<Rightarrow> peer" where
  "handle_version env msg p =
     (if p_peer_version p \<noteq> 0 then p
      else if vm_version msg < uint MIN_PROTOCOL_VERSION then post_disconnect p
      else
        let p = p\<lparr>p_peer_version := vm_version msg, p_peer_services := vm_services msg,
                  p_peer_start_height := vm_start_height msg, p_peer_user_agent := vm_user_agent msg,
                  p_peer_nonce := vm_nonce msg\<rparr>
        in if p_is_inbound p \<and> p_peer_nonce p = p_local_nonce p then post_disconnect p
           else
             let nTime = (if vm_timestamp msg < 0 then 0 else vm_timestamp msg);
                 time_offset = nTime - pe_time env;
                 p = (if \<not> p_is_inbound p
                      then act (SampleTime (from_string (pe_ip env) (peer_address p) (peer_port p) NODE_NETWORK) time_offset) p
                      else p);
                 p = (if p_is_inbound p \<and> p_state p = CONNECTED then send_version env p else p)
             in send_message env Verack p)"

definition handle_verack :: "peer_env \<Rightarrow> peer \<Rightarrow> peer" where
  "handle_verack env p =
     (if p_successfully_connected p then p
      else if is_feeler p then post_disconnect p
      else
        let p = p\<lparr>p_state := READY, p_successfully_connected := True, p_handshake_timer := None\<rparr>
        in start_inactivity_timeout env (schedule_ping env p))"

section \<open>Receiving\<close>

definition note_unknown_command :: "peer_env \<Rightarrow> peer \<Rightarrow> peer" where
  "note_unknown_command env p =
     (let now = pe_steady env;
          elapsed = to_seconds (now - p_last_unknown_reset p);
          p = (if elapsed > 60 then p\<lparr>p_unknown_command_count := 0, p_last_unknown_reset := now\<rparr> else p);
          count = p_unknown_command_count p + 1;
          p = p\<lparr>p_unknown_command_count := count\<rparr>
      in if count > 20 then post_disconnect p else p)"

definition process_message :: "message_handler \<Rightarrow> peer_env \<Rightarrow> MessageHeader \<Rightarrow> byte list \<Rightarrow> peer \<Rightarrow> peer" where
  "process_message handler env header payload p =
     (let p = act (Framed header payload) p;
          p = p\<lparr>p_stats := (p_stats p)\<lparr>st_messages_received := st_messages_received (p_stats p) + 1\<rparr>\<rparr>;
          cmd = get_command header
      in if p_peer_version p = 0 \<and> cmd \<noteq> ''version'' then post_disconnect p
         else case create_message cmd of
           None \<Rightarrow> note_unknown_command env p
         | Some msg \<Rightarrow>
             (case deserialize msg payload of (ok, msg) \<Rightarrow>
                if \<not> ok then post_disconnect p
                else (case msg of
                    Version m \<Rightarrow> handler msg (act (Deliver msg) (handle_version env m p))
                  | Verack \<Rightarrow> handler msg (act (Deliver msg) (handle_verack env p))
                  | Ping nonce \<Rightarrow> send_message env (Pong nonce) p
                  | Pong nonce \<Rightarrow> handle_pong env nonce p
                  | _ \<Rightarrow> handler msg (act (Deliver msg) p))))"

text \<open>
  The loop over the buffer, which is private to the object and which nothing called from the loop touches:
  \<open>buffer\<close> and \<open>offset\<close> are its value and the read offset, which is stored back after every message.
\<close>

function process_loop :: "message_handler \<Rightarrow> peer_env \<Rightarrow> byte list \<Rightarrow> nat \<Rightarrow> peer \<Rightarrow> peer" where
  "process_loop handler env buffer offset p =
     (if length buffer - offset \<ge> MESSAGE_HEADER_SIZE then
        let read_ptr = drop offset buffer;
            available = length buffer - offset
        in case deserialize_header (take MESSAGE_HEADER_SIZE read_ptr) of
             None \<Rightarrow> post_disconnect p
           | Some header \<Rightarrow>
               if mh_magic header \<noteq> p_network_magic p then post_disconnect p
               else if unat (mh_length header) > MAX_PROTOCOL_MESSAGE_LENGTH then post_disconnect p
               else
                 let total_message_size = MESSAGE_HEADER_SIZE + unat (mh_length header) in
                 if available < total_message_size then p
                 else
                   let payload = take (unat (mh_length header)) (drop MESSAGE_HEADER_SIZE read_ptr) in
                   if compute_checksum payload \<noteq> mh_checksum header then post_disconnect p
                   else if mh_length header = 0 \<and> get_command header \<noteq> ''verack'' \<and> get_command header \<noteq> ''getaddr''
                   then post_disconnect p
                   else
                     let p = process_message handler env header payload p;
                         offset = offset + total_message_size
                     in process_loop handler env buffer offset (p\<lparr>p_recv_buffer_offset := offset\<rparr>)
      else p)"
  by pat_completeness auto
termination
  by (relation "measure (\<lambda>(_, _, buffer, offset, _). length buffer - offset)")
    (auto simp: MESSAGE_HEADER_SIZE_def)

declare process_loop.simps [simp del]

definition process_received_data :: "message_handler \<Rightarrow> peer_env \<Rightarrow> peer \<Rightarrow> peer" where
  "process_received_data handler env p = process_loop handler env (p_recv_buffer p) (p_recv_buffer_offset p) p"

definition on_transport_receive :: "message_handler \<Rightarrow> peer_env \<Rightarrow> byte list \<Rightarrow> peer \<Rightarrow> peer" where
  "on_transport_receive handler env data p =
     (if length data > DEFAULT_RECV_FLOOD_SIZE then post_disconnect p
      else
        let usable_bytes = length (p_recv_buffer p) - p_recv_buffer_offset p in
        if usable_bytes + length data > DEFAULT_RECV_FLOOD_SIZE then post_disconnect p
        else
          let p = (if p_recv_buffer_offset p > 0 \<and> p_recv_buffer_offset p \<ge> length (p_recv_buffer p) div 2
                   then p\<lparr>p_recv_buffer := drop (p_recv_buffer_offset p) (p_recv_buffer p), p_recv_buffer_offset := 0\<rparr>
                   else p);
              p = p\<lparr>p_recv_buffer := p_recv_buffer p @ data\<rparr>;
              p = p\<lparr>p_stats := (p_stats p)\<lparr>st_bytes_received := st_bytes_received (p_stats p) + of_nat (length data),
                       st_last_recv := to_seconds (pe_steady env)\<rparr>\<rparr>
          in process_received_data handler env p)"

section \<open>What the other operations leave alone\<close>

text \<open>
  \<open>quiet p p'\<close>: between the two states only actions other than framing, delivery and time sampling have been
  taken, the private handshake and buffer fields are the same, and the peer has not become ready.
\<close>

fun boring :: "peer_action \<Rightarrow> bool" where
  "boring (Framed _ _) = False"
| "boring (Deliver _) = False"
| "boring (SampleTime _ _) = False"
| "boring _ = True"

definition quiet :: "peer \<Rightarrow> peer \<Rightarrow> bool" where
  "quiet p p' \<longleftrightarrow> (\<exists>as. p_actions p' = p_actions p @ as \<and> list_all boring as) \<and>
     p_network_magic p' = p_network_magic p \<and> p_is_inbound p' = p_is_inbound p \<and> p_peer_version p' = p_peer_version p \<and>
     p_successfully_connected p' = p_successfully_connected p \<and> p_recv_buffer p' = p_recv_buffer p \<and>
     p_recv_buffer_offset p' = p_recv_buffer_offset p \<and> (p_state p' = READY \<longrightarrow> p_state p = READY)"

lemma quiet_refl [simp]: "quiet p p"
  by (simp add: quiet_def)

lemma quiet_trans: "quiet p p' \<Longrightarrow> quiet p' p'' \<Longrightarrow> quiet p p''"
  unfolding quiet_def by fastforce

lemma quiet_act: "boring a \<Longrightarrow> quiet p (act a p)"
  by (simp add: quiet_def act_def)

lemma quiet_post [simp]: "quiet p (post_disconnect p)"
  by (simp add: post_disconnect_def quiet_act)

lemma quiet_disconnect [simp]: "quiet p (do_disconnect p)" "quiet p (on_transport_disconnect p)"
  by (auto simp: quiet_def do_disconnect_def on_transport_disconnect_def cancel_all_timers_def act_def on_disconnect_def Let_def
      split: option.splits)

lemma quiet_send [simp]: "quiet p (send_message env m p)"
  by (auto simp: quiet_def send_message_def act_def post_disconnect_def Let_def)

lemma quiet_send_version [simp]: "quiet p (send_version env p)"
proof -
  define m where "m = Version (new_VersionMessage\<lparr>vm_version := uint PROTOCOL_VERSION, vm_services := NODE_NETWORK,
    vm_timestamp := pe_time env, vm_addr_recv := (case p_connection p of Some (peer_addr, port) \<Rightarrow> from_string (pe_ip env) peer_addr port NODE_NETWORK
             | None \<Rightarrow> null_NetworkAddress), vm_addr_from := null_NetworkAddress, vm_nonce := p_local_nonce p,
            vm_user_agent := GetUserAgent, vm_start_height := p_local_start_height p\<rparr>)"
  have e: "send_version env p = (send_message env m p)\<lparr>p_state := VERSION_SENT\<rparr>"
    by (simp add: send_version_def m_def Let_def)
  have "quiet p (send_message env m p)" by simp
  then show ?thesis unfolding e by (simp add: quiet_def)
qed

lemma quiet_timers [simp]:
  "quiet p (start_handshake_timeout env p)" "quiet p (start_inactivity_timeout env p)" "quiet p (schedule_ping env p)"
  by (simp_all add: quiet_def start_handshake_timeout_def start_inactivity_timeout_def schedule_ping_def)

lemma quiet_send_ping [simp]: "quiet p (send_ping env p)"
proof -
  have "quiet p (p\<lparr>p_last_ping_nonce := pe_random env, p_ping_sent_time := pe_steady env\<rparr>)" by (simp add: quiet_def)
  then show ?thesis using quiet_trans [OF _ quiet_send] by (simp add: send_ping_def Let_def)
qed

lemma quiet_field [simp]:
  "quiet p (p\<lparr>p_handshake_timer := t\<rparr>)" "quiet p (p\<lparr>p_inactivity_timer := t\<rparr>)" "quiet p (p\<lparr>p_ping_timer := t\<rparr>)"
  "quiet p (p\<lparr>p_started := b\<rparr>)" "quiet p (p\<lparr>p_sync_started := b\<rparr>)" "quiet p (p\<lparr>p_getaddr_sent := b\<rparr>)" "quiet p (p\<lparr>p_stats := s\<rparr>)"
  "quiet p (p\<lparr>p_id := i\<rparr>)" "quiet p (p\<lparr>p_local_nonce := n\<rparr>)" "quiet p (p\<lparr>p_blocks_for_inv_relay := q\<rparr>)"
  by (simp_all add: quiet_def)

lemma quiet_fired [simp]:
  "quiet p (handshake_timer_fired env p)" "quiet p (inactivity_timer_fired env p)" "quiet p (ping_timer_fired env p)"
proof -
  have d: "quiet p (do_disconnect q)" if "quiet p q" for q using quiet_trans [OF that quiet_disconnect(1)] .
  show "quiet p (handshake_timer_fired env p)" by (simp add: handshake_timer_fired_def Let_def d)
  have "quiet p (start_inactivity_timeout env (p\<lparr>p_inactivity_timer := None\<rparr>))"
    by (rule quiet_trans [OF quiet_field(2) quiet_timers(2)])
  then show "quiet p (inactivity_timer_fired env p)" by (simp add: inactivity_timer_fired_def Let_def d)
  let ?q = "p\<lparr>p_ping_timer := None\<rparr>"
  have "quiet p (schedule_ping env ?q)" by (rule quiet_trans [OF quiet_field(3) quiet_timers(3)])
  moreover have "quiet p (schedule_ping env (send_ping env ?q))"
    by (rule quiet_trans [OF quiet_trans [OF quiet_field(3) quiet_send_ping] quiet_timers(3)])
  ultimately show "quiet p (ping_timer_fired env p)" by (simp add: ping_timer_fired_def Let_def d)
qed

lemma quiet_handle_pong [simp]: "quiet p (handle_pong env n p)"
  by (simp add: quiet_def handle_pong_def)

lemma quiet_unknown [simp]: "quiet p (note_unknown_command env p)"
  by (auto simp: quiet_def note_unknown_command_def act_def post_disconnect_def Let_def)

lemma quiet_start [simp]: "quiet p (start env op p)"
proof (cases "p_started p \<or> (p_state p \<noteq> CONNECTING \<and> p_state p \<noteq> CONNECTED) \<or> p_state p = CONNECTING \<and> \<not> (p_connection p \<noteq> None \<and> op)")
  case True
  then show ?thesis by (auto simp: start_def Let_def)
next
  case False
  let ?s = "(p_stats p)\<lparr>st_connected_time := to_seconds (pe_steady env), st_last_send := to_seconds (pe_steady env), st_last_recv := to_seconds (pe_steady env)\<rparr>"
  let ?q = "p\<lparr>p_started := True, p_state := CONNECTED, p_stats := ?s\<rparr>"
  have q: "quiet p ?q" by (simp add: quiet_def)
  have "quiet ?q (start_handshake_timeout env (send_version env ?q))" by (rule quiet_trans [OF quiet_send_version quiet_timers(1)])
  moreover have "start env op p = (if p_is_inbound p then start_handshake_timeout env ?q else start_handshake_timeout env (send_version env ?q))"
    using False by (auto simp: start_def Let_def)
  moreover have "quiet ?q (start_handshake_timeout env ?q)" by simp
  ultimately show ?thesis using quiet_trans [OF q] by metis
qed

end
