(* ===== verification/Peer_Stream.thy ===== *)
theory Peer_Stream
  imports Peer
begin

text \<open>
  The receive path of a peer against its specification: the byte stream cut into frames.  However the
  transport cuts the stream into chunks, the same messages are framed in the same order, and the receive
  buffer stays bounded.
\<close>

section \<open>Framing\<close>

text \<open>
  The stream a peer has sent, cut into messages: the frames, what is left over, and whether the stream is
  broken at that point.  This is the specification of the receive loop, with no buffer and no offset.
\<close>

function frames :: "u32 \<Rightarrow> byte list \<Rightarrow> (MessageHeader \<times> byte list) list \<times> byte list \<times> bool" where
  "frames magic s =
     (if length s < MESSAGE_HEADER_SIZE then ([], s, False)
      else case deserialize_header (take MESSAGE_HEADER_SIZE s) of
        None \<Rightarrow> ([], s, True)
      | Some h \<Rightarrow>
          let n = unat (mh_length h); payload = take n (drop MESSAGE_HEADER_SIZE s) in
          if mh_magic h \<noteq> magic then ([], s, True)
          else if length s < MESSAGE_HEADER_SIZE + n then ([], s, False)
          else if compute_checksum payload \<noteq> mh_checksum h \<or>
            (n = 0 \<and> get_command h \<noteq> ''verack'' \<and> get_command h \<noteq> ''getaddr'') then ([], s, True)
          else case frames magic (drop (MESSAGE_HEADER_SIZE + n) s) of (fs, rest, bad) \<Rightarrow> ((h, payload) # fs, rest, bad))"
  by pat_completeness auto
termination
  by (relation "measure (\<lambda>(_, s). length s)") (auto simp: MESSAGE_HEADER_SIZE_def)

declare frames.simps [simp del]

lemma frames_eq:
  "frames magic s =
     (if length s < MESSAGE_HEADER_SIZE then ([], s, False)
      else case deserialize_header (take MESSAGE_HEADER_SIZE s) of
        None \<Rightarrow> ([], s, True)
      | Some h \<Rightarrow>
          if mh_magic h \<noteq> magic then ([], s, True)
          else if length s < MESSAGE_HEADER_SIZE + unat (mh_length h) then ([], s, False)
          else if compute_checksum (take (unat (mh_length h)) (drop MESSAGE_HEADER_SIZE s)) \<noteq> mh_checksum h \<or>
            (unat (mh_length h) = 0 \<and> get_command h \<noteq> ''verack'' \<and> get_command h \<noteq> ''getaddr'') then ([], s, True)
          else case frames magic (drop (MESSAGE_HEADER_SIZE + unat (mh_length h)) s) of (fs, rest, bad) \<Rightarrow>
            ((h, take (unat (mh_length h)) (drop MESSAGE_HEADER_SIZE s)) # fs, rest, bad))"
  by (subst frames.simps, unfold Let_def) (rule refl)

text \<open>Cutting a stream that has grown is cutting what was left over; a broken stream stays broken.\<close>

lemma frames_append:
  "frames magic s = (fs, rest, bad) \<Longrightarrow>
   frames magic (s @ t) = (if bad then (fs, rest @ t, True)
     else case frames magic (rest @ t) of (fs', rest', bad') \<Rightarrow> (fs @ fs', rest', bad'))"
proof (induction magic s arbitrary: fs rest bad rule: frames.induct)
  case (1 magic s)
  show ?case
  proof (cases "length s < MESSAGE_HEADER_SIZE")
    case True
    then show ?thesis using 1(2) by (subst (asm) frames_eq) auto
  next
    case False
    then have t: "take MESSAGE_HEADER_SIZE (s @ t) = take MESSAGE_HEADER_SIZE s" and l: "\<not> length (s @ t) < MESSAGE_HEADER_SIZE" by simp_all
    show ?thesis
    proof (cases "deserialize_header (take MESSAGE_HEADER_SIZE s)")
      case None
      then show ?thesis using 1(2) False t l by (subst frames_eq, subst (asm) frames_eq) auto
    next
      case (Some h)
      let ?n = "unat (mh_length h)"
      show ?thesis
      proof (cases "mh_magic h \<noteq> magic")
        case True
        then show ?thesis using 1(2) False t l Some by (subst frames_eq, subst (asm) frames_eq) auto
      next
        case m: False
        show ?thesis
        proof (cases "length s < MESSAGE_HEADER_SIZE + ?n")
          case True
          then have "fs = []" "rest = s" "\<not> bad" using 1(2) False Some m by (auto simp: frames_eq [of magic s])
          then show ?thesis by simp
        next
          case n: False
          let ?p = "take ?n (drop MESSAGE_HEADER_SIZE s)"
          have p: "take ?n (drop MESSAGE_HEADER_SIZE (s @ t)) = ?p" and l2: "\<not> length (s @ t) < MESSAGE_HEADER_SIZE + ?n" using n by simp_all
          have d: "drop (MESSAGE_HEADER_SIZE + ?n) (s @ t) = drop (MESSAGE_HEADER_SIZE + ?n) s @ t" using n by simp
          show ?thesis
          proof (cases "compute_checksum ?p \<noteq> mh_checksum h \<or> (?n = 0 \<and> get_command h \<noteq> ''verack'' \<and> get_command h \<noteq> ''getaddr'')")
            case True
            then have "fs = []" "rest = s" "bad" using 1(2) False Some m n by (auto simp: frames_eq [of magic s])
            moreover have "frames magic (s @ t) = ([], s @ t, True)"
              using True by (subst frames_eq) (simp only: l t Some m l2 p if_False option.case simp_thms if_True)
            ultimately show ?thesis by simp
          next
            case c: False
            obtain gs rest1 bad1 where g: "frames magic (drop (MESSAGE_HEADER_SIZE + ?n) s) = (gs, rest1, bad1)" by (metis prod_cases3)
            have e: "fs = (h, ?p) # gs" "rest = rest1" "bad = bad1" using 1(2) False Some m n c g by (auto simp: frames_eq [of magic s])
            have "frames magic (s @ t) = (case frames magic (drop (MESSAGE_HEADER_SIZE + ?n) s @ t) of (fs, rest, bad) \<Rightarrow> ((h, ?p) # fs, rest, bad))"
              using c by (subst frames_eq) (simp only: l t Some m l2 p d if_False option.case simp_thms)
            then show ?thesis using 1(1) [OF False Some refl refl _ n c g] m e by (auto split: prod.splits)
          qed
        qed
      qed
    qed
  qed
qed

text \<open>The handler is the network manager's: it uses the peer only through its public operations.\<close>

definition handler_ok :: "message_handler \<Rightarrow> bool" where
  "handler_ok handler \<longleftrightarrow> (\<forall>m p. quiet p (handler m p))"

fun frame_of :: "peer_action \<Rightarrow> (MessageHeader \<times> byte list) option" where
  "frame_of (Framed h payload) = Some (h, payload)"
| "frame_of _ = None"

definition framed :: "peer \<Rightarrow> (MessageHeader \<times> byte list) list" where
  "framed p = List.map_filter frame_of (p_actions p)"

definition still :: "peer \<Rightarrow> peer \<Rightarrow> bool" where
  "still p p' \<longleftrightarrow> framed p' = framed p \<and> p_network_magic p' = p_network_magic p \<and> p_is_inbound p' = p_is_inbound p \<and>
     p_recv_buffer p' = p_recv_buffer p \<and> p_recv_buffer_offset p' = p_recv_buffer_offset p"

lemma framed_append:
  "p_actions p' = p_actions p @ as \<Longrightarrow> framed p' = framed p @ List.map_filter frame_of as"
  by (simp add: framed_def map_filter_def)

lemma map_filter_boring: "list_all boring as \<Longrightarrow> List.map_filter frame_of as = []"
proof (induction as)
  case (Cons a as)
  then show ?case by (cases a) (simp_all add: map_filter_simps)
qed (simp add: map_filter_simps)

lemma quiet_still: "quiet p p' \<Longrightarrow> still p p'"
  by (auto simp: quiet_def still_def framed_append map_filter_boring)

lemma still_refl [simp]: "still p p"
  by (simp add: still_def)

lemma still_trans: "still p p' \<Longrightarrow> still p' p'' \<Longrightarrow> still p p''"
  by (simp add: still_def)

lemma still_act: "frame_of a = None \<Longrightarrow> still p (act a p)"
  by (simp add: still_def framed_def act_def map_filter_def)

lemma still_fields [simp]:
  "still p (p\<lparr>p_peer_version := v, p_peer_services := s, p_peer_start_height := h, p_peer_user_agent := u, p_peer_nonce := n\<rparr>)"
  "still p (p\<lparr>p_state := q, p_successfully_connected := b, p_handshake_timer := t\<rparr>)"
  by (simp_all add: still_def framed_def)

text \<open>The four ways a version message is handled.\<close>

lemma handle_version_cases:
  obtains (duplicate) "p_peer_version p \<noteq> 0" "handle_version env m p = p"
  | (obsolete) "p_peer_version p = 0" "vm_version m < 1" "handle_version env m p = post_disconnect p"
  | (self) q where "p_peer_version p = 0" "1 \<le> vm_version m"
      "q = p\<lparr>p_peer_version := vm_version m, p_peer_services := vm_services m, p_peer_start_height := vm_start_height m,
         p_peer_user_agent := vm_user_agent m, p_peer_nonce := vm_nonce m\<rparr>"
      "p_is_inbound p" "vm_nonce m = p_local_nonce p" "handle_version env m p = post_disconnect q"
  | (accepted) q q' a off where "p_peer_version p = 0" "1 \<le> vm_version m"
      "q = p\<lparr>p_peer_version := vm_version m, p_peer_services := vm_services m, p_peer_start_height := vm_start_height m,
         p_peer_user_agent := vm_user_agent m, p_peer_nonce := vm_nonce m\<rparr>"
      "q' = (if p_is_inbound p then q else act (SampleTime a off) q)"
      "handle_version env m p = send_message env Verack (if p_is_inbound q' \<and> p_state q' = CONNECTED then send_version env q' else q')"
proof -
  define q where "q = p\<lparr>p_peer_version := vm_version m, p_peer_services := vm_services m, p_peer_start_height := vm_start_height m,
         p_peer_user_agent := vm_user_agent m, p_peer_nonce := vm_nonce m\<rparr>"
  define a where "a = from_string (pe_ip env) (peer_address q) (peer_port q) NODE_NETWORK"
  define off where "off = (if vm_timestamp m < 0 then 0 else vm_timestamp m) - pe_time env"
  define q' where "q' = (if p_is_inbound p then q else act (SampleTime a off) q)"
  have e: "handle_version env m p = (if p_peer_version p \<noteq> 0 then p else if vm_version m < 1 then post_disconnect p
      else if p_is_inbound p \<and> vm_nonce m = p_local_nonce p then post_disconnect q
      else send_message env Verack (if p_is_inbound q' \<and> p_state q' = CONNECTED then send_version env q' else q'))"
    unfolding q'_def a_def off_def q_def by (simp add: handle_version_def Let_def MIN_PROTOCOL_VERSION_def)
  show thesis
  proof (cases "p_peer_version p \<noteq> 0")
    case True
    then show thesis using that(1) e by simp
  next
    case v: False
    show thesis
    proof (cases "vm_version m < 1")
      case True
      then show thesis using that(2) e v by simp
    next
      case o: False
      show thesis
      proof (cases "p_is_inbound p \<and> vm_nonce m = p_local_nonce p")
        case True
        then show thesis using that(3) [OF _ _ q_def] e v o by simp
      next
        case False
        have "handle_version env m p = send_message env Verack (if p_is_inbound q' \<and> p_state q' = CONNECTED then send_version env q' else q')"
          unfolding e if_not_P [OF v] if_not_P [OF o] if_not_P [OF False] by (rule refl)
        then show thesis using v o by (intro that(4) [OF _ _ q_def q'_def]) simp_all
      qed
    qed
  qed
qed

lemma still_handle_version [simp]: "still p (handle_version env m p)"
proof (cases rule: handle_version_cases [of p env m])
  case (self q)
  then show ?thesis using still_trans [OF still_fields(1) quiet_still [OF quiet_post]] by simp
next
  case (accepted q q' a off)
  have "still p q" by (simp add: accepted(3))
  moreover have "still q q'" by (simp add: accepted(4) still_act)
  moreover have "still q' (if p_is_inbound q' \<and> p_state q' = CONNECTED then send_version env q' else q')" by (simp add: quiet_still)
  ultimately show ?thesis unfolding accepted(5) using quiet_still [OF quiet_send] still_trans by blast
qed (simp_all add: quiet_still)

lemma still_handle_verack [simp]: "still p (handle_verack env p)"
proof -
  let ?q = "p\<lparr>p_state := READY, p_successfully_connected := True, p_handshake_timer := None\<rparr>"
  have "still p (start_inactivity_timeout env (schedule_ping env ?q))"
    by (rule still_trans [OF still_fields(2) quiet_still [OF quiet_trans [OF quiet_timers(3) quiet_timers(2)]]])
  then show ?thesis by (simp add: handle_verack_def Let_def quiet_still)
qed

text \<open>Counting a message in, and what happens to it after that.\<close>

definition counted :: "MessageHeader \<Rightarrow> byte list \<Rightarrow> peer \<Rightarrow> peer" where
  "counted h payload p =
     (let p = act (Framed h payload) p
      in p\<lparr>p_stats := (p_stats p)\<lparr>st_messages_received := st_messages_received (p_stats p) + 1\<rparr>\<rparr>)"

definition handle_parsed :: "message_handler \<Rightarrow> peer_env \<Rightarrow> Message \<Rightarrow> peer \<Rightarrow> peer" where
  "handle_parsed handler env msg p =
     (case msg of
        Version m \<Rightarrow> handler msg (act (Deliver msg) (handle_version env m p))
      | Verack \<Rightarrow> handler msg (act (Deliver msg) (handle_verack env p))
      | Ping nonce \<Rightarrow> send_message env (Pong nonce) p
      | Pong nonce \<Rightarrow> handle_pong env nonce p
      | _ \<Rightarrow> handler msg (act (Deliver msg) p))"

lemma process_message_cases:
  obtains (unversioned) "p_peer_version p = 0" "get_command h \<noteq> ''version''"
      "process_message handler env h payload p = post_disconnect (counted h payload p)"
  | (unknown) "create_message (get_command h) = None" "p_peer_version p \<noteq> 0"
      "process_message handler env h payload p = note_unknown_command env (counted h payload p)"
  | (malformed) "process_message handler env h payload p = post_disconnect (counted h payload p)"
  | (parsed) msg where "command msg = get_command h" "message_ok msg" "p_peer_version p = 0 \<longrightarrow> command msg = ''version''"
      "process_message handler env h payload p = handle_parsed handler env msg (counted h payload p)"
proof -
  define q where "q = counted h payload p"
  have v: "p_peer_version q = p_peer_version p" by (simp add: q_def counted_def act_def Let_def)
  have e: "process_message handler env h payload p =
      (if p_peer_version q = 0 \<and> get_command h \<noteq> ''version'' then post_disconnect q
       else case create_message (get_command h) of None \<Rightarrow> note_unknown_command env q
         | Some msg \<Rightarrow> (case deserialize msg payload of (ok, msg) \<Rightarrow> if \<not> ok then post_disconnect q else handle_parsed handler env msg q))"
    unfolding process_message_def Let_def q_def counted_def handle_parsed_def by (rule refl)
  show thesis
  proof (cases "p_peer_version p = 0 \<and> get_command h \<noteq> ''version''")
    case True
    then show thesis using that(1) e v by (simp add: q_def)
  next
    case False
    show thesis
    proof (cases "create_message (get_command h)")
      case None
      then have "get_command h \<noteq> ''version''" by (auto simp: create_message_def)
      then show thesis using that(2) e v False None by (simp add: q_def)
    next
      case (Some m0)
      obtain ok msg where d: "deserialize m0 payload = (ok, msg)" by fastforce
      have c: "command msg = get_command h" using deserialize_command [OF d] command_create [OF Some] by simp
      show thesis
      proof (cases ok)
        case True
        then have "message_ok msg" using deserialize_valid d by simp
        moreover have "process_message handler env h payload p = handle_parsed handler env msg q"
          unfolding e if_not_P [OF False [folded v]] by (simp add: Some d True)
        ultimately show thesis using that(4) c False by (auto simp: q_def)
      next
        case no: False
        have "process_message handler env h payload p = post_disconnect q"
          unfolding e if_not_P [OF False [folded v]] by (simp add: Some d no)
        then show thesis using that(3) by (simp add: q_def)
      qed
    qed
  qed
qed

lemma framed_counted: "framed (counted h payload p) = framed p @ [(h, payload)]"
  by (simp add: framed_def counted_def act_def Let_def map_filter_def)

lemma counted_fields [simp]:
  "p_network_magic (counted h payload p) = p_network_magic p" "p_recv_buffer (counted h payload p) = p_recv_buffer p"
  "p_recv_buffer_offset (counted h payload p) = p_recv_buffer_offset p" "p_peer_version (counted h payload p) = p_peer_version p"
  "p_is_inbound (counted h payload p) = p_is_inbound p" "p_successfully_connected (counted h payload p) = p_successfully_connected p"
  "p_actions (counted h payload p) = p_actions p @ [Framed h payload]" "p_state (counted h payload p) = p_state p"
  by (simp_all add: counted_def act_def Let_def)

lemma still_handle_parsed:
  assumes "handler_ok handler"
  shows "still p (handle_parsed handler env msg p)"
proof -
  have h: "still q (handler m (act (Deliver m) q))" for q m
    by (rule still_trans [OF still_act [of "Deliver m"] quiet_still]) (use assms in \<open>simp_all add: handler_ok_def\<close>)
  show ?thesis
    using still_trans [OF still_handle_version h] still_trans [OF still_handle_verack h]
    by (cases msg) (auto simp: handle_parsed_def h quiet_still)
qed

lemma process_message_still:
  assumes "handler_ok handler"
  shows "still (counted h payload p) (process_message handler env h payload p)"
  by (cases rule: process_message_cases [of p h handler env payload])
    (simp_all add: quiet_still still_handle_parsed assms)

lemma parsed_header_short:
  "deserialize_header data = Some h \<Longrightarrow> unat (mh_length h) \<le> MAX_PROTOCOL_MESSAGE_LENGTH"
  using deserialize_header_sound [of data h] by (simp add: message_header_ok_def)

lemma process_loop_eq:
  "process_loop handler env buffer offset p =
     (if length (drop offset buffer) < MESSAGE_HEADER_SIZE then p
      else case deserialize_header (take MESSAGE_HEADER_SIZE (drop offset buffer)) of
        None \<Rightarrow> post_disconnect p
      | Some h \<Rightarrow>
          if mh_magic h \<noteq> p_network_magic p then post_disconnect p
          else if length (drop offset buffer) < MESSAGE_HEADER_SIZE + unat (mh_length h) then p
          else if compute_checksum (take (unat (mh_length h)) (drop MESSAGE_HEADER_SIZE (drop offset buffer))) \<noteq> mh_checksum h \<or>
            (unat (mh_length h) = 0 \<and> get_command h \<noteq> ''verack'' \<and> get_command h \<noteq> ''getaddr'') then post_disconnect p
          else process_loop handler env buffer (offset + (MESSAGE_HEADER_SIZE + unat (mh_length h)))
            ((process_message handler env h (take (unat (mh_length h)) (drop MESSAGE_HEADER_SIZE (drop offset buffer))) p)
              \<lparr>p_recv_buffer_offset := offset + (MESSAGE_HEADER_SIZE + unat (mh_length h))\<rparr>))"
proof (cases "deserialize_header (take MESSAGE_HEADER_SIZE (drop offset buffer))")
  case None
  then show ?thesis by (subst process_loop.simps) (simp add: not_less)
next
  case (Some h)
  have "\<not> MAX_PROTOCOL_MESSAGE_LENGTH < unat (mh_length h)" using parsed_header_short [OF Some] by simp
  moreover have "mh_length h = 0 \<longleftrightarrow> unat (mh_length h) = 0" by (simp add: unat_eq_0)
  ultimately show ?thesis by (subst process_loop.simps) (simp add: Some Let_def not_less)
qed

lemma process_loop_frames:
  assumes h: "handler_ok handler"
  shows "offset \<le> length buffer \<Longrightarrow> p_recv_buffer p = buffer \<Longrightarrow> p_recv_buffer_offset p = offset \<Longrightarrow>
    frames (p_network_magic p) (drop offset buffer) = (fs, rest, bad) \<Longrightarrow> p' = process_loop handler env buffer offset p \<Longrightarrow>
    framed p' = framed p @ fs \<and> p_network_magic p' = p_network_magic p \<and> p_recv_buffer p' = buffer \<and>
    p_recv_buffer_offset p' \<le> length buffer \<and> drop (p_recv_buffer_offset p') buffer = rest"
proof (induction "length buffer - offset" arbitrary: offset p fs rule: less_induct)
  case less
  let ?s = "drop offset buffer"
  note F = frames_eq [of "p_network_magic p" ?s] and L = process_loop_eq [of handler env buffer offset p]
  have post: "still p (post_disconnect p)" by (simp add: quiet_still)
  show ?case
  proof (cases "length ?s < MESSAGE_HEADER_SIZE")
    case True
    then show ?thesis using less.prems F L by auto
  next
    case l: False
    show ?thesis
    proof (cases "deserialize_header (take MESSAGE_HEADER_SIZE ?s)")
      case None
      then show ?thesis using less.prems l F L post by (auto simp: still_def)
    next
      case (Some hd)
      let ?n = "unat (mh_length hd)"
      let ?p = "take ?n (drop MESSAGE_HEADER_SIZE ?s)"
      consider (magic) "mh_magic hd \<noteq> p_network_magic p" | (short) "mh_magic hd = p_network_magic p" "length ?s < MESSAGE_HEADER_SIZE + ?n"
        | (bad) "mh_magic hd = p_network_magic p" "\<not> length ?s < MESSAGE_HEADER_SIZE + ?n"
            "compute_checksum ?p \<noteq> mh_checksum hd \<or> (?n = 0 \<and> get_command hd \<noteq> ''verack'' \<and> get_command hd \<noteq> ''getaddr'')"
        | (good) "mh_magic hd = p_network_magic p" "\<not> length ?s < MESSAGE_HEADER_SIZE + ?n"
            "\<not> (compute_checksum ?p \<noteq> mh_checksum hd \<or> (?n = 0 \<and> get_command hd \<noteq> ''verack'' \<and> get_command hd \<noteq> ''getaddr''))"
        by blast
      then show ?thesis
      proof cases
        case good
        let ?k = "offset + (MESSAGE_HEADER_SIZE + ?n)"
        define q where "q = (process_message handler env hd ?p p)\<lparr>p_recv_buffer_offset := ?k\<rparr>"
        obtain gs r b where g: "frames (p_network_magic p) (drop (MESSAGE_HEADER_SIZE + ?n) ?s) = (gs, r, b)" by (metis prod_cases3)
        have fr: "frames (p_network_magic p) ?s = ((hd, ?p) # gs, r, b)"
          unfolding F if_not_P [OF l] Some option.case using good g by (simp only: simp_thms if_False prod.case)
        then have e: "fs = (hd, ?p) # gs" "rest = r" "bad = b" using less.prems(4) by simp_all
        have pl: "process_loop handler env buffer offset p = process_loop handler env buffer ?k q"
          unfolding L if_not_P [OF l] Some option.case q_def using good by (simp only: simp_thms if_False)
        have "still (counted hd ?p p) (process_message handler env hd ?p p)" by (rule process_message_still [OF h])
        then have q: "framed q = framed p @ [(hd, ?p)]" "p_network_magic q = p_network_magic p" "p_recv_buffer q = buffer" "p_recv_buffer_offset q = ?k"
          using less.prems(2) framed_counted [of hd ?p p] by (simp_all add: q_def still_def) (simp add: framed_def)
        have k: "?k \<le> length buffer" using good(2) less.prems(1) by simp
        have dec: "length buffer - ?k < length buffer - offset" using l by (auto simp: MESSAGE_HEADER_SIZE_def)
        have g': "frames (p_network_magic q) (drop ?k buffer) = (gs, rest, bad)" using g e q(2) by (simp add: add.commute)
        show ?thesis using less.hyps [OF dec k q(3,4) g'] less.prems(5) pl q e by simp
      qed (use less.prems l Some F L post in \<open>auto simp: still_def\<close>)
    qed
  qed
qed

lemma frames_leftover:
  "frames magic s = (fs, rest, False) \<Longrightarrow> length rest < MESSAGE_HEADER_SIZE + MAX_PROTOCOL_MESSAGE_LENGTH"
proof (induction magic s arbitrary: fs rest rule: frames.induct)
  case (1 magic s)
  show ?case
  proof (cases "length s < MESSAGE_HEADER_SIZE")
    case False
    then obtain h where h: "deserialize_header (take MESSAGE_HEADER_SIZE s) = Some h" "mh_magic h = magic"
      using 1(2) by (cases "deserialize_header (take MESSAGE_HEADER_SIZE s)") (auto simp: frames_eq [of magic s] split: if_splits)
    show ?thesis
    proof (cases "length s < MESSAGE_HEADER_SIZE + unat (mh_length h)")
      case True
      then show ?thesis using 1(2) False h parsed_header_short [OF h(1)] by (auto simp: frames_eq [of magic s])
    next
      case l: False
      let ?n = "unat (mh_length h)" and ?p = "take (unat (mh_length h)) (drop MESSAGE_HEADER_SIZE s)"
      obtain gs r b where g: "frames magic (drop (MESSAGE_HEADER_SIZE + ?n) s) = (gs, r, b)" by (metis prod_cases3)
      have c: "\<not> (compute_checksum ?p \<noteq> mh_checksum h \<or> (?n = 0 \<and> get_command h \<noteq> ''verack'' \<and> get_command h \<noteq> ''getaddr''))"
        and e: "rest = r" "\<not> b"
        using 1(2) False h l g by (auto simp: frames_eq [of magic s] split: if_splits)
      have "frames magic (drop (MESSAGE_HEADER_SIZE + ?n) s) = (gs, r, False)" using g e by simp
      from 1(1) [OF False h(1) refl refl _ l c this] h(2) show ?thesis using e by simp
    qed
  qed (use 1(2) in \<open>auto simp: frames_eq [of magic s]\<close>)
qed

lemma frames_rest: "frames magic s = (fs, rest, bad) \<Longrightarrow> frames magic rest = ([], rest, bad)"
proof (induction magic s arbitrary: fs rest bad rule: frames.induct)
  case (1 magic s)
  show ?case
  proof (cases "\<exists>h. \<not> length s < MESSAGE_HEADER_SIZE \<and> deserialize_header (take MESSAGE_HEADER_SIZE s) = Some h \<and> mh_magic h = magic \<and>
      \<not> length s < MESSAGE_HEADER_SIZE + unat (mh_length h) \<and>
      \<not> (compute_checksum (take (unat (mh_length h)) (drop MESSAGE_HEADER_SIZE s)) \<noteq> mh_checksum h \<or>
         (unat (mh_length h) = 0 \<and> get_command h \<noteq> ''verack'' \<and> get_command h \<noteq> ''getaddr''))")
    case True
    then obtain h where h: "\<not> length s < MESSAGE_HEADER_SIZE" "deserialize_header (take MESSAGE_HEADER_SIZE s) = Some h" "mh_magic h = magic"
      "\<not> length s < MESSAGE_HEADER_SIZE + unat (mh_length h)"
      "\<not> (compute_checksum (take (unat (mh_length h)) (drop MESSAGE_HEADER_SIZE s)) \<noteq> mh_checksum h \<or>
         (unat (mh_length h) = 0 \<and> get_command h \<noteq> ''verack'' \<and> get_command h \<noteq> ''getaddr''))" by blast
    obtain gs r b where g: "frames magic (drop (MESSAGE_HEADER_SIZE + unat (mh_length h)) s) = (gs, r, b)" by (metis prod_cases3)
    have "rest = r" "bad = b" using 1(2) h g by (auto simp: frames_eq [of magic s])
    then show ?thesis using 1(1) [OF h(1,2) refl refl _ h(4,5) g] h(3) by simp
  next
    case False
    then have "fs = [] \<and> rest = s"
      using 1(2) by (auto simp: frames_eq [of magic s] split: if_splits option.splits)
    then show ?thesis using 1(2) by simp
  qed
qed

section \<open>Receiving a stream in pieces\<close>

definition receives :: "message_handler \<Rightarrow> (peer_env \<times> byte list) list \<Rightarrow> peer \<Rightarrow> peer" where
  "receives handler evs p = fold (\<lambda>(env, data). on_transport_receive handler env data) evs p"

definition RECV_BUFFER_SIZE :: nat where "RECV_BUFFER_SIZE = 256 * 1024"

text \<open>
  The peer after the stream \<open>s\<close>: it has framed what the stream consists of, and its buffer holds what is
  left over, or something that is broken at its start.
\<close>

definition after_stream :: "peer \<Rightarrow> byte list \<Rightarrow> peer \<Rightarrow> bool" where
  "after_stream p0 s p \<longleftrightarrow> (case frames (p_network_magic p0) s of (fs, rest, bad) \<Rightarrow>
     framed p = framed p0 @ fs \<and> p_network_magic p = p_network_magic p0 \<and> p_recv_buffer_offset p \<le> length (p_recv_buffer p) \<and>
     (if bad then \<exists>r. frames (p_network_magic p0) (drop (p_recv_buffer_offset p) (p_recv_buffer p)) = ([], r, True)
      else drop (p_recv_buffer_offset p) (p_recv_buffer p) = rest))"

text \<open>The buffer handling before the loop: the unread bytes are kept and the new ones follow.\<close>

definition buffered :: "peer_env \<Rightarrow> byte list \<Rightarrow> peer \<Rightarrow> peer" where
  "buffered env data p =
     (let p = (if p_recv_buffer_offset p > 0 \<and> p_recv_buffer_offset p \<ge> length (p_recv_buffer p) div 2
               then p\<lparr>p_recv_buffer := drop (p_recv_buffer_offset p) (p_recv_buffer p), p_recv_buffer_offset := 0\<rparr>
               else p);
          p = p\<lparr>p_recv_buffer := p_recv_buffer p @ data\<rparr>
      in p\<lparr>p_stats := (p_stats p)\<lparr>st_bytes_received := st_bytes_received (p_stats p) + of_nat (length data),
                       st_last_recv := to_seconds (pe_steady env)\<rparr>\<rparr>)"

lemma on_transport_receive_buffered:
  "on_transport_receive handler env data p =
     (if length data > DEFAULT_RECV_FLOOD_SIZE \<or> length (p_recv_buffer p) - p_recv_buffer_offset p + length data > DEFAULT_RECV_FLOOD_SIZE
      then post_disconnect p else process_received_data handler env (buffered env data p))"
  unfolding on_transport_receive_def buffered_def Let_def by simp

lemma buffered_fields:
  assumes "p_recv_buffer_offset p \<le> length (p_recv_buffer p)"
  shows "drop (p_recv_buffer_offset (buffered env data p)) (p_recv_buffer (buffered env data p)) =
      drop (p_recv_buffer_offset p) (p_recv_buffer p) @ data"
    and "p_recv_buffer_offset (buffered env data p) \<le> length (p_recv_buffer (buffered env data p))"
    and "framed (buffered env data p) = framed p" "p_network_magic (buffered env data p) = p_network_magic p"
    "p_actions (buffered env data p) = p_actions p" "p_is_inbound (buffered env data p) = p_is_inbound p"
    "p_peer_version (buffered env data p) = p_peer_version p" "p_state (buffered env data p) = p_state p"
    "p_successfully_connected (buffered env data p) = p_successfully_connected p"
  using assms by (simp_all add: buffered_def Let_def framed_def)

lemma after_stream_step:
  assumes h: "handler_ok handler" and a: "after_stream p0 s p" and d: "length data \<le> RECV_BUFFER_SIZE"
  shows "after_stream p0 (s @ data) (on_transport_receive handler env data p)"
proof -
  let ?m = "p_network_magic p0" and ?u = "drop (p_recv_buffer_offset p) (p_recv_buffer p)"
  obtain fs rest bad where f: "frames ?m s = (fs, rest, bad)" by (metis prod_cases3)
  have p: "framed p = framed p0 @ fs" "p_network_magic p = ?m" "p_recv_buffer_offset p \<le> length (p_recv_buffer p)"
      and r: "if bad then \<exists>r. frames ?m ?u = ([], r, True) else ?u = rest"
    using a f by (simp_all add: after_stream_def)
  show ?thesis
  proof (cases "length data > DEFAULT_RECV_FLOOD_SIZE \<or> length (p_recv_buffer p) - p_recv_buffer_offset p + length data > DEFAULT_RECV_FLOOD_SIZE")
    case True
    then have bad: bad using frames_leftover [of ?m s fs rest] f r d
      by (cases bad) (auto simp: RECV_BUFFER_SIZE_def DEFAULT_RECV_FLOOD_SIZE_def limit_defs header_sizes)
    have "still p (post_disconnect p)" by (simp add: quiet_still)
    then show ?thesis using True p r bad frames_append [OF f, of data]
      by (auto simp: on_transport_receive_buffered after_stream_def still_def)
  next
    case False
    let ?q = "buffered env data p"
    note b = buffered_fields [OF p(3), of env data]
    obtain gs r' bad' where g: "frames ?m (?u @ data) = (gs, r', bad')" by (metis prod_cases3)
    define p' where "p' = process_loop handler env (p_recv_buffer ?q) (p_recv_buffer_offset ?q) ?q"
    have "framed p' = framed ?q @ gs \<and> p_network_magic p' = p_network_magic ?q \<and> p_recv_buffer p' = p_recv_buffer ?q \<and>
        p_recv_buffer_offset p' \<le> length (p_recv_buffer ?q) \<and> drop (p_recv_buffer_offset p') (p_recv_buffer ?q) = r'"
      by (rule process_loop_frames [OF h b(2) refl refl _ p'_def]) (simp add: b p g)
    then have q: "framed p' = framed p @ gs" "p_network_magic p' = ?m" "p_recv_buffer_offset p' \<le> length (p_recv_buffer p')"
        "drop (p_recv_buffer_offset p') (p_recv_buffer p') = r'" using b p by simp_all
    have eq: "on_transport_receive handler env data p = p'"
      using False by (simp add: on_transport_receive_buffered process_received_data_def p'_def)
    show ?thesis
    proof (cases bad)
      case True
      then obtain r where "frames ?m ?u = ([], r, True)" using r by auto
      from frames_append [OF this, of data] g have "gs = []" "r' = r @ data" "bad'" by auto
      moreover have "frames ?m r' = ([], r', True)" using frames_rest [OF g] calculation by simp
      ultimately show ?thesis using True q p frames_append [OF f, of data] unfolding eq by (simp add: after_stream_def)
    next
      case False
      then have "?u = rest" using r by simp
      then have "frames ?m (s @ data) = (fs @ gs, r', bad')" using frames_append [OF f, of data] False g by simp
      then show ?thesis using q p frames_rest [OF g] unfolding eq by (auto simp: after_stream_def)
    qed
  qed
qed

lemma after_stream_receives:
  assumes "handler_ok handler" and "\<forall>(env, data) \<in> set evs. length data \<le> RECV_BUFFER_SIZE" and "after_stream p0 s p"
  shows "after_stream p0 (s @ concat (map snd evs)) (receives handler evs p)"
  using assms(2,3)
proof (induction evs arbitrary: p s)
  case (Cons ev evs)
  obtain env data where ev: "ev = (env, data)" by fastforce
  have "after_stream p0 (s @ data) (on_transport_receive handler env data p)"
    by (rule after_stream_step [OF assms(1)]) (use Cons.prems ev in auto)
  from Cons.IH [OF _ this] Cons.prems show ?case by (simp add: receives_def ev)
qed (simp add: receives_def)

section \<open>The buffer stays small\<close>

definition buffer_ok :: "peer \<Rightarrow> bool" where
  "buffer_ok p \<longleftrightarrow> p_recv_buffer_offset p \<le> length (p_recv_buffer p) \<and> length (p_recv_buffer p) \<le> 2 * DEFAULT_RECV_FLOOD_SIZE"

lemma buffered_bound:
  assumes "p_recv_buffer_offset p \<le> length (p_recv_buffer p)"
    and "length (p_recv_buffer p) - p_recv_buffer_offset p + length data \<le> DEFAULT_RECV_FLOOD_SIZE"
  shows "length (p_recv_buffer (buffered env data p)) \<le> 2 * DEFAULT_RECV_FLOOD_SIZE"
proof (cases "p_recv_buffer_offset p > 0 \<and> p_recv_buffer_offset p \<ge> length (p_recv_buffer p) div 2")
  case True
  then have "length (p_recv_buffer (buffered env data p)) = length (p_recv_buffer p) - p_recv_buffer_offset p + length data"
    by (simp add: buffered_def Let_def)
  then show ?thesis using assms by linarith
next
  case False
  have "length (p_recv_buffer (buffered env data p)) = length (p_recv_buffer p) + length data"
    unfolding buffered_def Let_def if_not_P [OF False] by simp
  moreover have "p_recv_buffer_offset p = 0 \<or> p_recv_buffer_offset p < length (p_recv_buffer p) div 2" using False by linarith
  then have "length (p_recv_buffer p) \<le> 2 * (length (p_recv_buffer p) - p_recv_buffer_offset p)" by linarith
  ultimately show ?thesis using assms by linarith
qed

lemma buffer_ok_receive:
  assumes h: "handler_ok handler" and b: "buffer_ok p"
  shows "buffer_ok (on_transport_receive handler env data p)"
proof (cases "length data > DEFAULT_RECV_FLOOD_SIZE \<or> length (p_recv_buffer p) - p_recv_buffer_offset p + length data > DEFAULT_RECV_FLOOD_SIZE")
  case True
  then show ?thesis using b quiet_still [OF quiet_post, of p] by (simp add: on_transport_receive_buffered buffer_ok_def still_def)
next
  case False
  let ?q = "buffered env data p"
  have o: "p_recv_buffer_offset p \<le> length (p_recv_buffer p)" using b by (simp add: buffer_ok_def)
  obtain gs r bad where g: "frames (p_network_magic ?q) (drop (p_recv_buffer_offset ?q) (p_recv_buffer ?q)) = (gs, r, bad)" by (metis prod_cases3)
  from process_loop_frames [OF h buffered_fields(2) [OF o, of env data] refl refl g refl, of env] buffered_bound [OF o, of data env] False
  show ?thesis by (simp add: on_transport_receive_buffered process_received_data_def buffer_ok_def)
qed

lemma buffer_ok_receives: "handler_ok handler \<Longrightarrow> buffer_ok p \<Longrightarrow> buffer_ok (receives handler evs p)"
  unfolding receives_def by (induction evs arbitrary: p) (auto intro: buffer_ok_receive)

section \<open>A framed message comes through\<close>

lemma frames_message:
  assumes m: "message_ok m" and e: "serialize m \<noteq> [] \<or> m = Verack \<or> m = GetAddr"
  shows "frames magic (serialize_header (create_header magic (command m) (serialize m)) @ serialize m @ rest) =
     (case frames magic rest of (fs, r, bad) \<Rightarrow> ((create_header magic (command m) (serialize m), serialize m) # fs, r, bad))"
proof -
  let ?h = "create_header magic (command m) (serialize m)"
  note c = create_header_ok [OF m, of magic]
  have l: "length (serialize_header ?h) = MESSAGE_HEADER_SIZE"
    using message_header_ok_typed [OF c(1)] by (simp add: serialize_header_layout codec header_sizes)
  have d: "deserialize_header (serialize_header ?h) = Some ?h" using deserialize_serialize_header [OF c(1), of "[]"] by simp
  show ?thesis
    using e by (subst frames_eq) (auto simp: l d c create_header_fields(1,3))
qed

section \<open>Properties\<close>

text \<open>
  \<^bold>\<open>C9.\<close> The transport's chunking is invisible: however the bytes a peer sends are cut into chunks of at most
  256 KB, and whatever the clocks say at each of them, the receive loop frames exactly the messages the byte
  stream consists of, in order, up to the first place where the stream is broken.
\<close>

theorem framing_independent_of_chunks:
  assumes "handler_ok handler" and "p_recv_buffer p = []" and "p_recv_buffer_offset p = 0"
    and "\<forall>(env, data) \<in> set evs. length data \<le> RECV_BUFFER_SIZE"
  shows "framed (receives handler evs p) = framed p @ fst (frames (p_network_magic p) (concat (map snd evs)))"
proof -
  have "after_stream p [] p" using assms by (simp add: after_stream_def frames_eq MESSAGE_HEADER_SIZE_def)
  from after_stream_receives [OF assms(1,4) this] show ?thesis by (auto simp: after_stream_def split: prod.splits)
qed

lemma handler_ok_id: "handler_ok (\<lambda>m p. p)"
  by (simp add: handler_ok_def)

definition sample_penv :: peer_env where
  "sample_penv = \<lparr>pe_time = 1000, pe_steady = 5000, pe_random = 7, pe_send = (\<lambda>_ _. True),
     pe_ip = \<lparr>make_address = (\<lambda>_. None), make_address_v6 = (\<lambda>_. []), is_v4_mapped = (\<lambda>_. False), make_address_v4 = (\<lambda>_. 0),
       v4_to_string = (\<lambda>_. None), v6_to_string = (\<lambda>_. None)\<rparr>\<rparr>"

definition sample_peer :: peer where
  "sample_peer = new_Peer sample_penv 5 (Some ((''10.0.0.1'', 9590), True)) magic_REGTEST True 0 ''10.0.0.1'' 9590 INBOUND"

lemma sample_peer_fields: "p_recv_buffer sample_peer = []" "p_recv_buffer_offset sample_peer = 0" "p_network_magic sample_peer = magic_REGTEST" "framed sample_peer = []"
  by (simp_all add: sample_peer_def new_Peer_def framed_def map_filter_def)

theorem framing_independent_of_chunks_witness:
  "let s = serialize_header (create_header magic_REGTEST ''verack'' []);
       p = receives (\<lambda>m p. p) [(sample_penv, take 10 s), (sample_penv, drop 10 s)] sample_peer
   in framed p = [(create_header magic_REGTEST ''verack'' [], [])]"
proof -
  let ?s = "serialize_header (create_header magic_REGTEST ''verack'' [])"
  have l: "length ?s = 24"
    using message_header_ok_typed [OF create_header_ok(1) [of Verack magic_REGTEST]]
    by (simp add: serialize_header_layout codec header_sizes)
  have b: "\<forall>(env, data) \<in> set [(sample_penv, take 10 ?s), (sample_penv, drop 10 ?s)]. length data \<le> RECV_BUFFER_SIZE"
    by (simp add: l RECV_BUFFER_SIZE_def)
  have "frames magic_REGTEST ?s = ([(create_header magic_REGTEST ''verack'' [], [])], [], False)"
    using frames_message [of Verack magic_REGTEST "[]"] by (simp add: frames_eq [of _ "[]"] MESSAGE_HEADER_SIZE_def)
  then show ?thesis
    using framing_independent_of_chunks [OF handler_ok_id sample_peer_fields(1,2) b] by (simp add: sample_peer_fields)
qed

text \<open>
  \<^bold>\<open>C25.\<close> Flood protection: whatever a peer sends, in whatever chunks, its receive buffer never holds more than
  10,000,000 bytes and the read offset stays inside it.
\<close>

theorem receive_buffer_bounded:
  assumes "handler_ok handler" and "p_recv_buffer p = []" and "p_recv_buffer_offset p = 0"
  shows "length (p_recv_buffer (receives handler evs p)) \<le> 10000000 \<and>
    p_recv_buffer_offset (receives handler evs p) \<le> length (p_recv_buffer (receives handler evs p))"
  using buffer_ok_receives [OF assms(1), of p evs] assms by (simp add: buffer_ok_def DEFAULT_RECV_FLOOD_SIZE_def)

theorem receive_buffer_bounded_witness:
  "let p = receives (\<lambda>m p. p) [(sample_penv, replicate 5 0), (sample_penv, [1])] sample_peer
   in length (p_recv_buffer p) \<le> 10000000 \<and> p_recv_buffer_offset p \<le> length (p_recv_buffer p)"
  using receive_buffer_bounded [OF handler_ok_id sample_peer_fields(1,2)] by (simp add: Let_def)

end
