(* ===== verification/Std_Map.thy ===== *)
theory Std_Map
  imports Prelude
begin

text \<open>
  The ordered containers of the C++ library as the program uses them: \<open>std::map\<close> as an association
  list in key order, \<open>std::set\<close> with a comparator as a list in comparator order.  The interface
  \<open>ordered_map\<close> states what the components rely on (lookup after update and erase, iteration in key
  order) and is interpreted on the lists.
\<close>

section \<open>Operations\<close>

type_synonym ('k, 'v) std_map = "('k \<times> 'v) list"

text \<open>\<open>m[k] = v\<close>, also the effect of \<open>emplace\<close> on an absent key.\<close>

fun om_update :: "'k::linorder \<Rightarrow> 'v \<Rightarrow> ('k, 'v) std_map \<Rightarrow> ('k, 'v) std_map" where
  "om_update k v [] = [(k, v)]"
| "om_update k v ((k', v') # m) =
     (if k < k' then (k, v) # (k', v') # m
      else if k = k' then (k, v) # m
      else (k', v') # om_update k v m)"

definition om_erase :: "'k::linorder \<Rightarrow> ('k, 'v) std_map \<Rightarrow> ('k, 'v) std_map" where
  "om_erase k m = filter (\<lambda>(k', v). k' \<noteq> k) m"

definition om_invar :: "('k::linorder, 'v) std_map \<Rightarrow> bool" where
  "om_invar m \<longleftrightarrow> sorted_wrt (<) (map fst m)"

section \<open>The interface\<close>

locale ordered_map =
  fixes invar :: "'m \<Rightarrow> bool"
    and lookup :: "'m \<Rightarrow> 'k::linorder \<Rightarrow> 'v option"
    and update :: "'k \<Rightarrow> 'v \<Rightarrow> 'm \<Rightarrow> 'm"
    and erase :: "'k \<Rightarrow> 'm \<Rightarrow> 'm"
    and entries :: "'m \<Rightarrow> ('k \<times> 'v) list"
    and size_of :: "'m \<Rightarrow> nat"
  assumes lookup_update: "lookup (update k v m) k' = (if k' = k then Some v else lookup m k')"
    and lookup_erase: "lookup (erase k m) k' = (if k' = k then None else lookup m k')"
    and invar_update: "invar m \<Longrightarrow> invar (update k v m)"
    and invar_erase: "invar m \<Longrightarrow> invar (erase k m)"
    and entries_iff: "invar m \<Longrightarrow> (k, v) \<in> set (entries m) \<longleftrightarrow> lookup m k = Some v"
    and entries_order: "invar m \<Longrightarrow> sorted_wrt (\<lambda>a b. fst a < fst b) (entries m)"
    and size_of: "size_of m = length (entries m)"
begin

lemma distinct_entries: "invar m \<Longrightarrow> distinct (map fst (entries m))"
  using entries_order [of m] by (simp add: sorted_wrt_map [symmetric] strict_sorted_iff)

lemma size_is_card: "invar m \<Longrightarrow> size_of m = card {k. lookup m k \<noteq> None}"
proof -
  assume m: "invar m"
  have "{k. lookup m k \<noteq> None} = set (map fst (entries m))"
    using entries_iff [OF m] by force
  moreover have "card (set (map fst (entries m))) = length (entries m)"
    using distinct_card [OF distinct_entries [OF m]] by simp
  ultimately show ?thesis by (simp only: size_of)
qed

lemma finite_keys: "invar m \<Longrightarrow> finite {k. lookup m k \<noteq> None}"
proof -
  assume m: "invar m"
  have "{k. lookup m k \<noteq> None} = set (map fst (entries m))"
    using entries_iff [OF m] by force
  then show ?thesis by simp
qed

lemma size_update_new: "invar m \<Longrightarrow> lookup m k = None \<Longrightarrow> size_of (update k v m) = Suc (size_of m)"
proof -
  assume m: "invar m" and k: "lookup m k = None"
  have "{k'. lookup (update k v m) k' \<noteq> None} = insert k {k'. lookup m k' \<noteq> None}"
    by (auto simp: lookup_update)
  then show ?thesis using finite_keys [OF m] k by (simp add: size_is_card m invar_update)
qed

lemma size_update_old: "invar m \<Longrightarrow> lookup m k \<noteq> None \<Longrightarrow> size_of (update k v m) = size_of m"
proof -
  assume m: "invar m" and k: "lookup m k \<noteq> None"
  then have "{k'. lookup (update k v m) k' \<noteq> None} = {k'. lookup m k' \<noteq> None}"
    by (auto simp: lookup_update)
  then show ?thesis by (simp add: size_is_card m invar_update)
qed

lemma size_erase: "invar m \<Longrightarrow> lookup m k \<noteq> None \<Longrightarrow> Suc (size_of (erase k m)) = size_of m"
proof -
  assume m: "invar m" and k: "lookup m k \<noteq> None"
  have "{k'. lookup m k' \<noteq> None} = insert k {k'. lookup (erase k m) k' \<noteq> None}"
    using k by (auto simp: lookup_erase)
  moreover have "k \<notin> {k'. lookup (erase k m) k' \<noteq> None}" by (simp add: lookup_erase)
  moreover have "finite {k'. lookup (erase k m) k' \<noteq> None}" using finite_keys [OF invar_erase [OF m]] .
  ultimately show ?thesis by (simp add: size_is_card m invar_erase)
qed

end

section \<open>The lists implement it\<close>

lemma map_of_om_update [simp]: "map_of (om_update k v m) = (map_of m)(k \<mapsto> v)"
  by (induction k v m rule: om_update.induct) (auto simp: fun_eq_iff)

lemma map_of_om_erase [simp]: "map_of (om_erase k m) k' = (if k' = k then None else map_of m k')"
  by (induction m) (auto simp: om_erase_def)

lemma set_om_update_fst: "fst ` set (om_update k v m) = insert k (fst ` set m)"
  by (induction k v m rule: om_update.induct) auto

lemma set_om_update: "set (om_update k v m) \<subseteq> insert (k, v) (set m)"
  by (induction k v m rule: om_update.induct) auto

lemma om_invar_update [simp]: "om_invar m \<Longrightarrow> om_invar (om_update k v m)"
proof (induction k v m rule: om_update.induct)
  case (2 k v k' v' m)
  then have rest: "om_invar m" and head: "\<forall>x \<in> fst ` set m. k' < x" by (auto simp: om_invar_def)
  show ?case
  proof (cases "k < k'")
    case True
    then show ?thesis using 2(2) head by (auto simp: om_invar_def)
  next
    case False
    then show ?thesis using 2(1) rest head set_om_update_fst [of k v m]
      by (auto simp: om_invar_def)
  qed
qed (simp add: om_invar_def)

lemma om_invar_erase [simp]: "om_invar m \<Longrightarrow> om_invar (om_erase k m)"
  by (induction m) (auto simp: om_invar_def om_erase_def)

lemma om_distinct: "om_invar m \<Longrightarrow> distinct (map fst m)"
  by (simp add: om_invar_def strict_sorted_iff)

lemma om_entries_iff: "om_invar m \<Longrightarrow> (k, v) \<in> set m \<longleftrightarrow> map_of m k = Some v"
  by (simp add: om_distinct)

interpretation om: ordered_map om_invar map_of om_update om_erase "\<lambda>m. m" length
  by unfold_locales
    (auto simp: om_entries_iff, simp add: om_invar_def sorted_wrt_map)

lemma om_update_twice: "om_update k v (om_update k w m) = om_update k v m"
  by (induction k w m rule: om_update.induct) auto

lemma om_invar_Nil: "om_invar []"
  by (simp add: om_invar_def)

lemma om_invar_filter: "om_invar m \<Longrightarrow> om_invar (filter P m)"
  by (induction m) (auto simp: om_invar_def)

lemma om_filter_lookup:
  "om_invar m \<Longrightarrow> map_of (filter (\<lambda>(k, v). P v) m) k =
     (case map_of m k of None \<Rightarrow> None | Some v \<Rightarrow> if P v then Some v else None)"
  by (induction m) (force simp: om_invar_def dest: map_of_SomeD split: option.splits)+

lemma fold_om_update_lookup:
  "om_invar m \<Longrightarrow> map_of (fold (\<lambda>(a, e) acc. om_update a e acc) m acc) k =
     (case map_of m k of None \<Rightarrow> map_of acc k | Some v \<Rightarrow> Some v)"
proof (induction m arbitrary: acc)
  case (Cons x m)
  obtain a e where x: "x = (a, e)" by force
  from Cons.prems have m: "om_invar m" and fresh: "map_of m a = None"
    by (auto simp: om_invar_def x map_of_eq_None_iff)
  show ?case using Cons.IH [OF m] fresh by (auto simp: x split: option.split)
qed simp

end
