(* ===== verification/Ban_Manager.thy ===== *)
theory Ban_Manager
  imports Std_Map "HOL-Library.Char_ord"
begin

text \<open>
  \<open>BanManager\<close> of \<open>ban_manager.cpp\<close>: the persistent ban list, the temporary list of discouraged
  addresses and the whitelist.  Strings are compared as the C++ library compares them, byte by byte.

  The JSON library is a parameter: \<open>json_dump\<close> prints the document the manager builds (and fails on
  strings that are not UTF-8), \<open>json_parse\<close> gives the items the loading loop iterates over, each
  either the three fields the code reads, present or not, or \<open>None\<close> where reading them raises an
  exception.  The file system is the map \<open>disk\<close> from paths to contents; the outcome of every system
  call of a save is part of the environment, and so is the clock, which does not advance within one
  operation.  Times are mathematical integers; the code keeps them in \<open>int64_t\<close>.
\<close>

section \<open>State and environment\<close>

record CBanEntry =
  ban_version :: int
  nCreateTime :: int
  nBanUntil :: int

definition CURRENT_VERSION :: int where "CURRENT_VERSION = 1"

definition CBanEntry_new :: "int \<Rightarrow> int \<Rightarrow> CBanEntry" where
  "CBanEntry_new create_time ban_until =
     \<lparr>ban_version = CURRENT_VERSION, nCreateTime = create_time, nBanUntil = ban_until\<rparr>"

definition IsExpired :: "CBanEntry \<Rightarrow> int \<Rightarrow> bool" where
  "IsExpired e now \<longleftrightarrow> nBanUntil e \<noteq> 0 \<and> nBanUntil e < now"

definition DISCOURAGE_DURATION_SEC :: int where "DISCOURAGE_DURATION_SEC = 24 * 60 * 60"
definition MAX_DISCOURAGED :: nat where "MAX_DISCOURAGED = 10000"
definition INT64_MAX :: int where "INT64_MAX = 2 ^ 63 - 1"

record BanManager =
  banned :: "(string, CBanEntry) std_map"
  discouraged :: "(string, int) std_map"
  whitelist :: "string list"
  ban_file_path :: string
  ban_auto_save :: bool
  disk :: "string \<Rightarrow> string option"

definition BanManager_new :: "(string \<Rightarrow> string option) \<Rightarrow> BanManager" where
  "BanManager_new files =
     \<lparr>banned = [], discouraged = [], whitelist = [], ban_file_path = [], ban_auto_save = True,
      disk = files\<rparr>"

record ban_fields =
  bf_version :: "int option"
  bf_create_time :: "int option"
  bf_ban_until :: "int option"

type_synonym ban_json = "(string \<times> ban_fields option) list"

record json_lib =
  json_dump :: "ban_json \<Rightarrow> string option"
  json_parse :: "string \<Rightarrow> ban_json option"

record ban_io =
  io_open :: bool
  io_write :: bool
  io_written :: nat
  io_fsync :: bool
  io_rename :: bool
  io_remove :: bool

record ban_env =
  be_now :: int
  be_json :: json_lib
  be_io :: ban_io

section \<open>Saving and loading\<close>

definition GetBanlistPath :: "BanManager \<Rightarrow> string" where
  "GetBanlistPath s = (if ban_file_path s = [] then [] else ban_file_path s)"

text \<open>\<open>dir / name\<close> of \<open>std::filesystem::path\<close>.\<close>

definition path_join :: "string \<Rightarrow> string \<Rightarrow> string" where
  "path_join dir name = (if dir \<noteq> [] \<and> last dir = CHR ''/'' then dir @ name else dir @ ''/'' @ name)"

definition ban_document :: "(string, CBanEntry) std_map \<Rightarrow> ban_json" where
  "ban_document m =
     map (\<lambda>(address, entry). (address, Some \<lparr>bf_version = Some (ban_version entry),
        bf_create_time = Some (nCreateTime entry), bf_ban_until = Some (nBanUntil entry)\<rparr>)) m"

definition write_banlist :: "ban_io \<Rightarrow> string \<Rightarrow> string \<Rightarrow> (string \<Rightarrow> string option)
    \<Rightarrow> bool \<times> (string \<Rightarrow> string option)" where
  "write_banlist io dest data files =
     (let tmp = dest @ ''.tmp'';
          cleanup = (\<lambda>left. if io_remove io then files(tmp := None) else files(tmp := Some left)) in
      if \<not> io_open io then (False, files)
      else if \<not> io_write io then (False, cleanup (take (io_written io) data))
      else if \<not> io_fsync io then (False, cleanup data)
      else if \<not> io_rename io then (False, cleanup data)
      else (True, files(tmp := None, dest := Some data)))"

definition SaveBansInternal :: "ban_env \<Rightarrow> BanManager \<Rightarrow> bool \<times> BanManager" where
  "SaveBansInternal env s =
     (if ban_file_path s = [] then (True, s)
      else
        let s = s\<lparr>banned := filter (\<lambda>(address, entry). \<not> IsExpired entry (be_now env)) (banned s)\<rparr> in
        case json_dump (be_json env) (ban_document (banned s)) of
          None \<Rightarrow> (False, s)
        | Some data \<Rightarrow>
            (case write_banlist (be_io env) (ban_file_path s) data (disk s) of
               (ok, files) \<Rightarrow> (ok, s\<lparr>disk := files\<rparr>)))"

definition SaveBans :: "ban_env \<Rightarrow> BanManager \<Rightarrow> bool \<times> BanManager" where
  "SaveBans env s = SaveBansInternal env s"

text \<open>The loop of \<open>LoadBans\<close>: the map, the number of expired entries, and whether it ran to the end.\<close>

fun load_entries :: "int \<Rightarrow> ban_json \<Rightarrow> (string, CBanEntry) std_map \<Rightarrow> nat
    \<Rightarrow> (string, CBanEntry) std_map \<times> nat \<times> bool" where
  "load_entries now [] m expired = (m, expired, True)"
| "load_entries now ((address, None) # items) m expired = (m, expired, False)"
| "load_entries now ((address, Some ban_data) # items) m expired =
     (let value = (\<lambda>field default. case field of None \<Rightarrow> default | Some v \<Rightarrow> v);
          entry = \<lparr>ban_version = value (bf_version ban_data) CURRENT_VERSION,
                   nCreateTime = value (bf_create_time ban_data) 0,
                   nBanUntil = value (bf_ban_until ban_data) 0\<rparr> in
      if IsExpired entry now then load_entries now items m (expired + 1)
      else load_entries now items (om_update address entry m) expired)"

definition LoadBans :: "ban_env \<Rightarrow> string \<Rightarrow> BanManager \<Rightarrow> bool \<times> BanManager" where
  "LoadBans env datadir s =
     (if datadir = [] then (True, s)
      else
        let s = s\<lparr>ban_file_path := path_join datadir ''banlist.json''\<rparr> in
        case disk s (ban_file_path s) of
          None \<Rightarrow> (True, s)
        | Some content \<Rightarrow>
            (case json_parse (be_json env) content of
               None \<Rightarrow> (False, s)
             | Some j \<Rightarrow>
                 (case load_entries (be_now env) j (banned s) 0 of (m, expired, complete) \<Rightarrow>
                    let s = s\<lparr>banned := m\<rparr> in
                    if \<not> complete then (False, s)
                    else if expired > 0 \<and> ban_auto_save s \<and> ban_file_path s \<noteq> []
                    then (True, snd (SaveBansInternal env s))
                    else (True, s))))"

section \<open>Bans\<close>

definition auto_save :: "ban_env \<Rightarrow> BanManager \<Rightarrow> BanManager" where
  "auto_save env s =
     (if ban_auto_save s \<and> ban_file_path s \<noteq> [] then snd (SaveBansInternal env s) else s)"

definition Ban :: "ban_env \<Rightarrow> string \<Rightarrow> int \<Rightarrow> BanManager \<Rightarrow> BanManager" where
  "Ban env address ban_time_offset s =
     (let now = be_now env;
          ban_until = (if ban_time_offset > 0 then now + ban_time_offset else 0) in
      auto_save env (s\<lparr>banned := om_update address (CBanEntry_new now ban_until) (banned s)\<rparr>))"

definition Unban :: "ban_env \<Rightarrow> string \<Rightarrow> BanManager \<Rightarrow> BanManager" where
  "Unban env address s =
     (if map_of (banned s) address \<noteq> None
      then auto_save env (s\<lparr>banned := om_erase address (banned s)\<rparr>)
      else s)"

definition IsBanned :: "int \<Rightarrow> string \<Rightarrow> BanManager \<Rightarrow> bool" where
  "IsBanned now address s =
     (case map_of (banned s) address of None \<Rightarrow> False | Some entry \<Rightarrow> \<not> IsExpired entry now)"

definition GetBanned :: "BanManager \<Rightarrow> (string, CBanEntry) std_map" where
  "GetBanned s = banned s"

definition ClearBanned :: "ban_env \<Rightarrow> BanManager \<Rightarrow> BanManager" where
  "ClearBanned env s = auto_save env (s\<lparr>banned := []\<rparr>)"

definition SweepBanned :: "ban_env \<Rightarrow> BanManager \<Rightarrow> BanManager" where
  "SweepBanned env s =
     (let before = length (banned s);
          s = s\<lparr>banned := filter (\<lambda>(address, entry). \<not> IsExpired entry (be_now env)) (banned s)\<rparr>;
          removed = before - length (banned s) in
      if removed > 0 then auto_save env s else s)"

section \<open>Discouragement\<close>

text \<open>The entry with the earliest expiry, the first of them in key order.\<close>

fun earliest_expiry :: "(string, int) std_map \<Rightarrow> int \<Rightarrow> string option \<Rightarrow> string option" where
  "earliest_expiry [] min_expiry victim = victim"
| "earliest_expiry ((address, expiry) # m) min_expiry victim =
     (if expiry < min_expiry then earliest_expiry m expiry (Some address)
      else earliest_expiry m min_expiry victim)"

definition Discourage :: "int \<Rightarrow> string \<Rightarrow> BanManager \<Rightarrow> BanManager" where
  "Discourage now address s =
     (let d = om_update address (now + DISCOURAGE_DURATION_SEC) (discouraged s) in
      if length d > MAX_DISCOURAGED then
        let d = filter (\<lambda>(a, expiry). \<not> now \<ge> expiry) d in
        if length d > MAX_DISCOURAGED then
          (case earliest_expiry d INT64_MAX None of
             None \<Rightarrow> s\<lparr>discouraged := d\<rparr>
           | Some victim \<Rightarrow> s\<lparr>discouraged := om_erase victim d\<rparr>)
        else s\<lparr>discouraged := d\<rparr>
      else s\<lparr>discouraged := d\<rparr>)"

definition IsDiscouraged :: "int \<Rightarrow> string \<Rightarrow> BanManager \<Rightarrow> bool" where
  "IsDiscouraged now address s =
     (case map_of (discouraged s) address of None \<Rightarrow> False | Some expiry \<Rightarrow> \<not> now \<ge> expiry)"

definition ClearDiscouraged :: "BanManager \<Rightarrow> BanManager" where
  "ClearDiscouraged s = s\<lparr>discouraged := []\<rparr>"

definition SweepDiscouraged :: "int \<Rightarrow> BanManager \<Rightarrow> BanManager" where
  "SweepDiscouraged now s =
     s\<lparr>discouraged := filter (\<lambda>(a, expiry). \<not> now \<ge> expiry) (discouraged s)\<rparr>"

section \<open>Whitelist\<close>

definition AddToWhitelist :: "string \<Rightarrow> BanManager \<Rightarrow> BanManager" where
  "AddToWhitelist address s = s\<lparr>whitelist := List.insert address (whitelist s)\<rparr>"

definition RemoveFromWhitelist :: "string \<Rightarrow> BanManager \<Rightarrow> BanManager" where
  "RemoveFromWhitelist address s = s\<lparr>whitelist := removeAll address (whitelist s)\<rparr>"

definition IsWhitelisted :: "string \<Rightarrow> BanManager \<Rightarrow> bool" where
  "IsWhitelisted address s \<longleftrightarrow> address \<in> set (whitelist s)"

section \<open>Ban status\<close>

definition ban_inv :: "BanManager \<Rightarrow> bool" where
  "ban_inv s \<longleftrightarrow> om_invar (banned s) \<and> om_invar (discouraged s)"

lemma save_banned:
  "banned (snd (SaveBansInternal env s)) =
     (if ban_file_path s = [] then banned s
      else filter (\<lambda>(address, entry). \<not> IsExpired entry (be_now env)) (banned s))"
  by (simp add: SaveBansInternal_def Let_def split: option.split prod.split)

lemma save_same [simp]:
  "ban_file_path (snd (SaveBansInternal env s)) = ban_file_path s"
  "ban_auto_save (snd (SaveBansInternal env s)) = ban_auto_save s"
  "discouraged (snd (SaveBansInternal env s)) = discouraged s"
  "whitelist (snd (SaveBansInternal env s)) = whitelist s"
  by (simp_all add: SaveBansInternal_def Let_def split: option.split prod.split)

lemma auto_save_same [simp]:
  "ban_file_path (auto_save env s) = ban_file_path s"
  "ban_auto_save (auto_save env s) = ban_auto_save s"
  "discouraged (auto_save env s) = discouraged s"
  "whitelist (auto_save env s) = whitelist s"
  by (simp_all add: auto_save_def)

lemma expired_later: "IsExpired e now \<Longrightarrow> now \<le> t \<Longrightarrow> IsExpired e t"
  by (simp add: IsExpired_def)

lemma filter_status:
  assumes "om_invar m" and "now \<le> t"
  shows "(case map_of (filter (\<lambda>(address, entry). \<not> IsExpired entry now) m) a of
            None \<Rightarrow> False | Some e \<Rightarrow> \<not> IsExpired e t) =
         (case map_of m a of None \<Rightarrow> False | Some e \<Rightarrow> \<not> IsExpired e t)"
  using assms by (auto simp: om_filter_lookup dest: expired_later split: option.split)

text \<open>Saving, which drops the expired entries, never changes who is banned from then on.\<close>

lemma auto_save_status:
  "ban_inv s \<Longrightarrow> be_now env \<le> t \<Longrightarrow> IsBanned t a (auto_save env s) = IsBanned t a s"
  by (simp add: auto_save_def IsBanned_def save_banned ban_inv_def filter_status)

lemma Ban_status:
  assumes "ban_inv s" and "be_now env \<le> t"
  shows "IsBanned t a (Ban env address d s) =
     (if a = address then d \<le> 0 \<or> be_now env + d = 0 \<or> t \<le> be_now env + d else IsBanned t a s)"
proof -
  have "ban_inv (s\<lparr>banned := om_update address x (banned s)\<rparr>)" for x
    using assms(1) by (simp add: ban_inv_def)
  note status = auto_save_status [OF this assms(2)]
  show ?thesis unfolding Ban_def Let_def status
    by (auto simp: IsBanned_def CBanEntry_new_def IsExpired_def)
qed

lemma Unban_status:
  assumes "ban_inv s" and "be_now env \<le> t"
  shows "IsBanned t a (Unban env address s) = (a \<noteq> address \<and> IsBanned t a s)"
proof -
  have "ban_inv (s\<lparr>banned := om_erase address (banned s)\<rparr>)"
    using assms(1) by (simp add: ban_inv_def)
  note status = auto_save_status [OF this assms(2)]
  show ?thesis by (auto simp: Unban_def status) (auto simp: IsBanned_def split: if_splits)
qed

lemma ClearBanned_status:
  assumes "ban_inv s" and "be_now env \<le> t"
  shows "\<not> IsBanned t a (ClearBanned env s)"
proof -
  have "ban_inv (s\<lparr>banned := []\<rparr>)" using assms(1) by (simp add: ban_inv_def om_invar_def)
  from auto_save_status [OF this assms(2)] show ?thesis by (simp add: ClearBanned_def IsBanned_def)
qed

lemma SweepBanned_status:
  assumes "ban_inv s" and "be_now env \<le> t"
  shows "IsBanned t a (SweepBanned env s) = IsBanned t a s"
proof -
  let ?s = "s\<lparr>banned := filter (\<lambda>(address, entry). \<not> IsExpired entry (be_now env)) (banned s)\<rparr>"
  have "ban_inv ?s" using assms(1) by (simp add: ban_inv_def om_invar_filter)
  note status = auto_save_status [OF this assms(2)]
  show ?thesis
    using assms by (simp add: SweepBanned_def Let_def status) (simp add: IsBanned_def ban_inv_def filter_status)
qed

section \<open>Persistence\<close>

text \<open>
  What the manager relies on of the JSON library: printed documents are read back.  An
  environment in which saving works: every system call succeeds and the document can be printed.
\<close>

definition json_ok :: "json_lib \<Rightarrow> bool" where
  "json_ok J \<longleftrightarrow> (\<forall>j data. json_dump J j = Some data \<longrightarrow> json_parse J data = Some j)"

definition io_ok :: "ban_io \<Rightarrow> bool" where
  "io_ok io \<longleftrightarrow> io_open io \<and> io_write io \<and> io_fsync io \<and> io_rename io"

definition printable :: "json_lib \<Rightarrow> (string, CBanEntry) std_map \<Rightarrow> bool" where
  "printable J m \<longleftrightarrow> json_dump J (ban_document m) \<noteq> None"

text \<open>A failed save leaves the ban list file as it was: it is replaced as a whole or not at all.\<close>

lemma save_atomic:
  "disk (snd (SaveBansInternal env s)) (ban_file_path s) = disk s (ban_file_path s)
   \<or> (\<exists>data. json_dump (be_json env) (ban_document (banned (snd (SaveBansInternal env s)))) = Some data
        \<and> disk (snd (SaveBansInternal env s)) (ban_file_path s) = Some data
        \<and> fst (SaveBansInternal env s))"
  by (simp add: SaveBansInternal_def write_banlist_def Let_def split: option.split)

lemma load_document:
  "load_entries now (ban_document m) acc n =
     (fold (\<lambda>(a, e) acc. om_update a e acc) (filter (\<lambda>(a, e). \<not> IsExpired e now) m) acc,
      n + length (filter (\<lambda>(a, e). IsExpired e now) m), True)"
proof (induction m arbitrary: acc n)
  case (Cons x m)
  obtain a e where x: "x = (a, e)" by force
  have e: "\<lparr>ban_version = ban_version e, nCreateTime = nCreateTime e, nBanUntil = nBanUntil e\<rparr> = e"
    by (cases e) simp
  show ?case using Cons by (simp add: x ban_document_def e)
qed (simp add: ban_document_def)

text \<open>
  The file and the manager agree: reading the file now would give the bans the manager has, from
  time \<open>T\<close> on.
\<close>

definition synced :: "json_lib \<Rightarrow> int \<Rightarrow> BanManager \<Rightarrow> bool" where
  "synced J T s \<longleftrightarrow> ban_inv s \<and> ban_auto_save s \<and> ban_file_path s \<noteq> [] \<and>
     (\<exists>m. om_invar m \<and>
        (case disk s (ban_file_path s) of None \<Rightarrow> m = []
         | Some data \<Rightarrow> json_parse J data = Some (ban_document m)) \<and>
        (\<forall>t \<ge> T. \<forall>a. IsBanned t a (s\<lparr>banned := m\<rparr>) = IsBanned t a s))"

lemma auto_save_synced:
  assumes inv: "ban_inv s" "ban_auto_save s" "ban_file_path s \<noteq> []"
    and json: "json_ok (be_json env)" and io: "io_ok (be_io env)"
    and dump: "printable (be_json env) (banned (auto_save env s))"
  shows "synced (be_json env) (be_now env) (auto_save env s)"
proof -
  let ?m = "banned (auto_save env s)"
  have m: "?m = filter (\<lambda>(address, entry). \<not> IsExpired entry (be_now env)) (banned s)"
    using inv by (simp add: auto_save_def save_banned)
  then have om: "om_invar ?m" using inv by (simp add: ban_inv_def om_invar_filter)
  obtain data where data: "json_dump (be_json env) (ban_document ?m) = Some data"
    using dump by (auto simp: printable_def)
  then have parse: "json_parse (be_json env) data = Some (ban_document ?m)"
    using json by (simp add: json_ok_def)
  have "disk (auto_save env s) (ban_file_path s) = Some data"
    using data inv io unfolding m
    by (simp add: auto_save_def SaveBansInternal_def write_banlist_def io_ok_def Let_def)
  then show ?thesis using inv om parse
    by (auto simp: synced_def ban_inv_def intro!: exI [of _ ?m])
qed

lemma synced_later: "synced J T s \<Longrightarrow> T \<le> T' \<Longrightarrow> synced J T' s"
  unfolding synced_def by (meson order_trans)

lemma ban_inv_save: "ban_inv s \<Longrightarrow> ban_inv (snd (SaveBansInternal env s))"
  by (simp add: ban_inv_def save_banned om_invar_filter)

lemma ban_inv_auto_save: "ban_inv s \<Longrightarrow> ban_inv (auto_save env s)"
  by (simp add: auto_save_def ban_inv_save)

text \<open>A restart reads the bans back, whether or not some of them have expired meanwhile.\<close>

lemma load_synced:
  assumes sync: "synced J T s" and J: "be_json env = J" and now: "T \<le> be_now env"
    and dir: "dir \<noteq> []" "ban_file_path s = path_join dir ''banlist.json''"
    and fresh: "s0 = BanManager_new (disk s)"
  shows "fst (LoadBans env dir s0) \<and> ban_inv (snd (LoadBans env dir s0)) \<and>
    (\<forall>t \<ge> be_now env. \<forall>a. IsBanned t a (snd (LoadBans env dir s0)) = IsBanned t a s) \<and>
    (disk (snd (LoadBans env dir s0)) = disk s \<and> synced J (be_now env) (snd (LoadBans env dir s0))
     \<or> (\<exists>s'. ban_inv s' \<and> ban_auto_save s' \<and> ban_file_path s' \<noteq> [] \<and>
          snd (LoadBans env dir s0) = auto_save env s'))"
proof -
  let ?p = "path_join dir ''banlist.json''"
  from sync obtain m where inv: "ban_inv s" and path: "?p \<noteq> []" and om: "om_invar m"
    and doc: "case disk s ?p of None \<Rightarrow> m = [] | Some data \<Rightarrow> json_parse J data = Some (ban_document m)"
    and status: "\<forall>t \<ge> T. \<forall>a. IsBanned t a (s\<lparr>banned := m\<rparr>) = IsBanned t a s"
    unfolding synced_def dir(2) by metis
  show ?thesis
  proof (cases "disk s ?p")
    case None
    then have m: "m = []" using doc by simp
    have load: "LoadBans env dir s0 = (True, s0\<lparr>ban_file_path := ?p\<rparr>)"
      using None dir by (simp add: LoadBans_def fresh BanManager_new_def)
    have "IsBanned t a (s0\<lparr>ban_file_path := ?p\<rparr>) = IsBanned t a s" if "be_now env \<le> t" for t a
      using status now that m by (simp add: IsBanned_def fresh BanManager_new_def)
    moreover have "synced J (be_now env) (s0\<lparr>ban_file_path := ?p\<rparr>)"
      using None path by (auto simp: synced_def fresh BanManager_new_def ban_inv_def om_invar_def)
    ultimately show ?thesis
      by (simp add: load) (simp add: fresh BanManager_new_def ban_inv_def om_invar_def)
  next
    case (Some data)
    let ?live = "filter (\<lambda>(a, e). \<not> IsExpired e (be_now env)) m"
    let ?b = "fold (\<lambda>(a, e) acc. om_update a e acc) ?live []"
    let ?n = "length (filter (\<lambda>(a, e). IsExpired e (be_now env)) m)"
    let ?s = "s0\<lparr>ban_file_path := ?p, banned := ?b\<rparr>"
    have parse: "json_parse (be_json env) data = Some (ban_document m)" using doc Some J by simp
    have load: "LoadBans env dir s0 = (True, if 0 < ?n then auto_save env ?s else ?s)"
      using Some dir parse path
      by (simp add: LoadBans_def fresh BanManager_new_def load_document auto_save_def Let_def)
    have ob: "om_invar (fold (\<lambda>(a, e) acc. om_update a e acc) l [])" for l :: "(string, CBanEntry) std_map"
    proof -
      have "om_invar acc \<Longrightarrow> om_invar (fold (\<lambda>(a, e) acc. om_update a e acc) l acc)"
        for acc :: "(string, CBanEntry) std_map"
        by (induction l arbitrary: acc) (auto split: prod.split)
      then show ?thesis by (simp add: om_invar_def)
    qed
    have inv': "ban_inv ?s" using ob by (simp add: ban_inv_def fresh BanManager_new_def om_invar_def)
    have lookup: "map_of ?b a = map_of ?live a" for a
      using fold_om_update_lookup [OF om_invar_filter [OF om]] by (simp split: option.split)
    have live: "IsBanned t a ?s = IsBanned t a s" if t: "be_now env \<le> t" for t a
    proof -
      have "IsBanned t a ?s = IsBanned t a (s\<lparr>banned := m\<rparr>)"
        using filter_status [OF om t] by (simp add: IsBanned_def lookup)
      also have "\<dots> = IsBanned t a s" using status now t by simp
      finally show ?thesis .
    qed
    show ?thesis
    proof (cases "0 < ?n")
      case True
      have L: "LoadBans env dir s0 = (True, auto_save env ?s)" using load True by simp
      have "\<forall>t \<ge> be_now env. \<forall>a. IsBanned t a (auto_save env ?s) = IsBanned t a s"
        using auto_save_status [OF inv'] live by simp
      moreover have "ban_auto_save ?s" "ban_file_path ?s \<noteq> []" using path by (simp_all add: fresh BanManager_new_def)
      ultimately show ?thesis unfolding L using ban_inv_auto_save [OF inv'] inv'
        by (simp only: fst_conv snd_conv) blast
    next
      case False
      have same: "IsBanned t a (?s\<lparr>banned := m\<rparr>) = IsBanned t a ?s" if "be_now env \<le> t" for t a
        using live [OF that] status now that by (simp add: IsBanned_def)
      have "synced J (be_now env) ?s"
        unfolding synced_def using inv' path om Some parse J same
        by (intro conjI exI [of _ m]) (auto simp: fresh BanManager_new_def)
      moreover have "LoadBans env dir s0 = (True, ?s)" using load False by simp
      moreover have "disk ?s = disk s" by (simp add: fresh BanManager_new_def)
      ultimately show ?thesis using live inv' by (simp only: fst_conv snd_conv) blast
    qed
  qed
qed

section \<open>Histories\<close>

datatype ban_op =
    OpBan string int | OpUnban string | OpClearBanned | OpSweepBanned | OpSaveBans
  | OpDiscourage string | OpClearDiscouraged | OpSweepDiscouraged
  | OpAddToWhitelist string | OpRemoveFromWhitelist string

fun ban_apply :: "ban_env \<Rightarrow> ban_op \<Rightarrow> BanManager \<Rightarrow> BanManager" where
  "ban_apply env (OpBan a d) s = Ban env a d s"
| "ban_apply env (OpUnban a) s = Unban env a s"
| "ban_apply env OpClearBanned s = ClearBanned env s"
| "ban_apply env OpSweepBanned s = SweepBanned env s"
| "ban_apply env OpSaveBans s = snd (SaveBans env s)"
| "ban_apply env (OpDiscourage a) s = Discourage (be_now env) a s"
| "ban_apply env OpClearDiscouraged s = ClearDiscouraged s"
| "ban_apply env OpSweepDiscouraged s = SweepDiscouraged (be_now env) s"
| "ban_apply env (OpAddToWhitelist a) s = AddToWhitelist a s"
| "ban_apply env (OpRemoveFromWhitelist a) s = RemoveFromWhitelist a s"

text \<open>
  A history of a data directory: a first run with no ban list file, then operations and restarts at
  times that do not decrease, with a working disk.
\<close>

inductive ban_history :: "json_lib \<Rightarrow> string \<Rightarrow> int \<Rightarrow> BanManager \<Rightarrow> bool"
  for J :: json_lib and dir :: string where
  first_run: "files (path_join dir ''banlist.json'') = None \<Longrightarrow> be_json env = J \<Longrightarrow>
     ban_history J dir (be_now env) (snd (LoadBans env dir (BanManager_new files)))"
| operation: "ban_history J dir T s \<Longrightarrow> be_json env = J \<Longrightarrow> io_ok (be_io env) \<Longrightarrow> T \<le> be_now env \<Longrightarrow>
     printable J (banned (ban_apply env op s)) \<Longrightarrow> ban_history J dir (be_now env) (ban_apply env op s)"
| restart: "ban_history J dir T s \<Longrightarrow> be_json env = J \<Longrightarrow> io_ok (be_io env) \<Longrightarrow> T \<le> be_now env \<Longrightarrow>
     printable J (banned (snd (LoadBans env dir (BanManager_new (disk s))))) \<Longrightarrow>
     ban_history J dir (be_now env) (snd (LoadBans env dir (BanManager_new (disk s))))"

lemma ban_inv_Discourage: "ban_inv s \<Longrightarrow> ban_inv (Discourage now a s)"
  by (simp add: ban_inv_def Discourage_def Let_def om_invar_filter split: option.split)

lemma Discourage_same [simp]:
  "banned (Discourage now a s) = banned s" "disk (Discourage now a s) = disk s"
  "ban_file_path (Discourage now a s) = ban_file_path s"
  "ban_auto_save (Discourage now a s) = ban_auto_save s"
  by (simp_all add: Discourage_def Let_def split: option.split)

lemma synced_same:
  assumes "synced J T s" and "ban_inv s'" and "banned s' = banned s" and "disk s' = disk s"
    and "ban_file_path s' = ban_file_path s" and "ban_auto_save s' = ban_auto_save s"
  shows "synced J T s'"
proof -
  have "IsBanned t a s' = IsBanned t a s" "IsBanned t a (s'\<lparr>banned := m\<rparr>) = IsBanned t a (s\<lparr>banned := m\<rparr>)"
    for t a m using assms by (simp_all add: IsBanned_def)
  then show ?thesis using assms(1,2) unfolding synced_def assms(4-6) by simp
qed

lemma synced_apply:
  assumes sync: "synced J T s" and J: "be_json env = J" "json_ok J" and io: "io_ok (be_io env)"
    and T: "T \<le> be_now env" and dump: "printable J (banned (ban_apply env op s))"
  shows "synced J (be_now env) (ban_apply env op s)"
proof -
  have later: "synced J (be_now env) s" by (rule synced_later [OF sync T])
  have inv: "ban_inv s" "ban_auto_save s" "ban_file_path s \<noteq> []" using sync by (auto simp: synced_def)
  have save: "synced J (be_now env) (auto_save env s')"
    if "ban_inv s'" "ban_auto_save s'" "ban_file_path s' \<noteq> []" "printable J (banned (auto_save env s'))" for s'
    using auto_save_synced [of s' env] that J io by simp
  note quiet = synced_same [OF later]
  show ?thesis
  proof (cases op)
    case (OpBan a d)
    then show ?thesis using dump inv by (auto simp: Ban_def Let_def ban_inv_def intro!: save)
  next
    case (OpUnban a)
    then show ?thesis using dump inv later by (auto simp: Unban_def ban_inv_def intro!: save)
  next
    case OpClearBanned
    then show ?thesis using dump inv by (auto simp: ClearBanned_def ban_inv_def om_invar_def intro!: save)
  next
    case OpSweepBanned
    have id: "filter P l = l" if "\<not> length (filter P l) < length l" for P and l :: "(string \<times> CBanEntry) list"
      using that length_filter_less by (metis filter_True)
    show ?thesis using OpSweepBanned dump inv later
      by (auto simp: SweepBanned_def Let_def ban_inv_def om_invar_filter id intro!: save)
  next
    case OpSaveBans
    then have "ban_apply env op s = auto_save env s" using inv by (simp add: SaveBans_def auto_save_def)
    then show ?thesis using dump inv save by simp
  next
    case (OpDiscourage a)
    then show ?thesis by (auto intro!: quiet simp: ban_inv_Discourage inv)
  qed (use inv in \<open>auto intro!: quiet simp: ban_inv_def om_invar_Nil om_invar_filter ClearDiscouraged_def
      SweepDiscouraged_def AddToWhitelist_def RemoveFromWhitelist_def\<close>)
qed

lemma ban_history_synced:
  assumes "ban_history J dir T s" and "json_ok J" and "dir \<noteq> []"
  shows "synced J T s \<and> ban_file_path s = path_join dir ''banlist.json''"
  using assms(1)
proof induction
  case (first_run files env)
  have "path_join dir ''banlist.json'' \<noteq> []" by (simp add: path_join_def)
  then show ?case using first_run assms(3)
    by (auto simp: LoadBans_def BanManager_new_def synced_def ban_inv_def om_invar_Nil
        intro!: exI [of _ "[]"])
next
  case (operation T s env op)
  have "ban_file_path (ban_apply env op s) = ban_file_path s"
    by (cases op) (simp_all add: Ban_def Unban_def ClearBanned_def SweepBanned_def SaveBans_def Let_def
        ClearDiscouraged_def SweepDiscouraged_def AddToWhitelist_def RemoveFromWhitelist_def)
  then show ?case using operation synced_apply assms(2) by metis
next
  case (restart T s env)
  let ?s = "snd (LoadBans env dir (BanManager_new (disk s)))"
  have path: "ban_file_path ?s = path_join dir ''banlist.json''"
    using assms(3) by (auto simp: LoadBans_def Let_def split: option.split prod.split)
  have "synced J (be_now env) ?s"
    using load_synced [OF conjunct1 [OF restart.IH] restart.hyps(2,4) assms(3) conjunct2 [OF restart.IH] refl]
      auto_save_synced [of _ env] restart.hyps assms(2) by metis
  with path show ?case by simp
qed

text \<open>
  \<^bold>\<open>C26.\<close> Bans survive a restart.  After any history of bans, unbans, sweeps, discouragements and
  earlier restarts of a data directory with a working disk, a new process that loads the ban list at
  any later time succeeds and, from then on, treats exactly the addresses as banned that the old one
  would have, for every address and every time.
\<close>

theorem bans_survive_restart:
  assumes "ban_history J dir T s" and "json_ok J" and "dir \<noteq> []"
    and "be_json env = J" and "T \<le> be_now env" and "be_now env \<le> t"
  shows "fst (LoadBans env dir (BanManager_new (disk s))) \<and>
    IsBanned t a (snd (LoadBans env dir (BanManager_new (disk s)))) = IsBanned t a s"
  using load_synced [OF _ assms(4,5,3) _ refl] ban_history_synced [OF assms(1-3)] assms(6) by blast

text \<open>A JSON library that prints two documents, a working disk, and a ban that outlives a restart.\<close>

definition sample_bans :: "(string, CBanEntry) std_map" where
  "sample_bans = [(''10.0.0.1'', CBanEntry_new 10 110)]"

definition sample_json :: json_lib where
  "sample_json = \<lparr>json_dump = (\<lambda>j. if j = ban_document sample_bans then Some ''{1}''
        else if j = [] then Some ''null'' else None),
      json_parse = (\<lambda>text. if text = ''{1}'' then Some (ban_document sample_bans)
        else if text = ''null'' then Some [] else None)\<rparr>"

definition sample_ban_env :: "int \<Rightarrow> ban_env" where
  "sample_ban_env now = \<lparr>be_now = now, be_json = sample_json,
     be_io = \<lparr>io_open = True, io_write = True, io_written = 0, io_fsync = True, io_rename = True,
       io_remove = True\<rparr>\<rparr>"

definition sample_banman :: BanManager where
  "sample_banman = ban_apply (sample_ban_env 10) (OpBan ''10.0.0.1'' 100)
     (snd (LoadBans (sample_ban_env 5) ''d'' (BanManager_new (\<lambda>_. None))))"

lemmas sample_ban_defs = sample_json_def sample_ban_env_def sample_banman_def sample_bans_def LoadBans_def
  BanManager_new_def Ban_def auto_save_def SaveBansInternal_def write_banlist_def path_join_def
  IsExpired_def CBanEntry_new_def IsBanned_def

lemma json_ok_sample: "json_ok sample_json"
  by (simp add: json_ok_def sample_json_def)

lemma sample_banned: "banned sample_banman = sample_bans"
  by (simp add: sample_ban_defs)

lemma sample_history: "ban_history sample_json ''d'' 10 sample_banman"
proof -
  have "ban_history sample_json ''d'' (be_now (sample_ban_env 5))
      (snd (LoadBans (sample_ban_env 5) ''d'' (BanManager_new (\<lambda>_. None))))"
    by (rule ban_history.first_run) (simp_all add: sample_ban_env_def)
  then have "ban_history sample_json ''d'' (be_now (sample_ban_env 10)) sample_banman"
    unfolding sample_banman_def
    by (rule ban_history.operation) (use sample_banned in
      \<open>simp_all add: sample_ban_env_def io_ok_def sample_banman_def printable_def sample_json_def\<close>)
  then show ?thesis by (simp add: sample_ban_env_def)
qed

theorem bans_survive_restart_witness:
  "IsBanned 100 ''10.0.0.1'' (snd (LoadBans (sample_ban_env 20) ''d'' (BanManager_new (disk sample_banman))))
   \<and> \<not> IsBanned 111 ''10.0.0.1'' (snd (LoadBans (sample_ban_env 20) ''d'' (BanManager_new (disk sample_banman))))"
proof -
  have t: "be_json (sample_ban_env 20) = sample_json" "10 \<le> be_now (sample_ban_env 20)"
    "be_now (sample_ban_env 20) \<le> 100" "be_now (sample_ban_env 20) \<le> 111"
    by (simp_all add: sample_ban_env_def)
  have "IsBanned 100 ''10.0.0.1'' sample_banman" "\<not> IsBanned 111 ''10.0.0.1'' sample_banman"
    by (simp_all add: IsBanned_def sample_banned sample_bans_def CBanEntry_new_def IsExpired_def)
  then show ?thesis
    using bans_survive_restart [OF sample_history json_ok_sample _ t(1,2,3)]
      bans_survive_restart [OF sample_history json_ok_sample _ t(1,2,4)] by simp
qed

section \<open>The bound on discouraged addresses\<close>

lemma earliest_expiry_Some: "\<exists>(a, e) \<in> set m. e < b \<Longrightarrow> earliest_expiry m b v \<noteq> None"
proof (induction m b v rule: earliest_expiry.induct)
  case (2 a e m b v)
  have some: "earliest_expiry m e' (Some a') \<noteq> None" for e' a'
    by (induction m e' "Some a'" arbitrary: a' rule: earliest_expiry.induct) auto
  show ?case using 2 some by auto
qed simp

lemma earliest_expiry_min:
  "earliest_expiry m b v = Some k \<Longrightarrow> v = Some k \<and> (\<forall>(a, e') \<in> set m. b \<le> e') \<or>
     (\<exists>e. (k, e) \<in> set m \<and> e < b \<and> (\<forall>(a, e') \<in> set m. e \<le> e'))"
proof (induction m b v rule: earliest_expiry.induct)
  case (2 a e m b v)
  show ?case
  proof (cases "e < b")
    case True
    with 2 have "Some a = Some k \<and> (\<forall>(a, e') \<in> set m. e \<le> e') \<or>
        (\<exists>e'. (k, e') \<in> set m \<and> e' < e \<and> (\<forall>(a, e'') \<in> set m. e' \<le> e''))" by simp
    then show ?thesis
    proof
      assume "Some a = Some k \<and> (\<forall>(a, e') \<in> set m. e \<le> e')"
      with True show ?thesis by (intro disjI2 exI [of _ e]) auto
    next
      assume "\<exists>e'. (k, e') \<in> set m \<and> e' < e \<and> (\<forall>(a, e'') \<in> set m. e' \<le> e'')"
      then obtain e' where "(k, e') \<in> set m" "e' < e" "\<forall>(a, e'') \<in> set m. e' \<le> e''" by blast
      with True show ?thesis by (intro disjI2 exI [of _ e']) auto
    qed
  next
    case False
    with 2 have "v = Some k \<and> (\<forall>(a, e') \<in> set m. b \<le> e') \<or>
        (\<exists>e'. (k, e') \<in> set m \<and> e' < b \<and> (\<forall>(a, e'') \<in> set m. e' \<le> e''))" by simp
    then show ?thesis
    proof
      assume "\<exists>e'. (k, e') \<in> set m \<and> e' < b \<and> (\<forall>(a, e'') \<in> set m. e' \<le> e'')"
      then obtain e' where "(k, e') \<in> set m" "e' < b" "\<forall>(a, e'') \<in> set m. e' \<le> e''" by blast
      with False show ?thesis by (intro disjI2 exI [of _ e']) auto
    qed (use False in auto)
  qed
qed simp

lemma length_om_update: "length (om_update k v m) \<le> Suc (length m)"
  by (induction k v m rule: om_update.induct) auto

lemma length_om_erase: "(k, v) \<in> set m \<Longrightarrow> length (om_erase k m) < length m"
  unfolding om_erase_def by (rule length_filter_less [of "(k, v)"]) auto

text \<open>
  The list of discouraged addresses stays within its bound, as long as the expiry times fit their
  type; when it is full the address dropped is one whose discouragement ends first.
\<close>

definition discouraged_ok :: "BanManager \<Rightarrow> bool" where
  "discouraged_ok s \<longleftrightarrow> ban_inv s \<and> length (discouraged s) \<le> MAX_DISCOURAGED
     \<and> (\<forall>(a, e) \<in> set (discouraged s). e < INT64_MAX)"

lemma Discourage_bounded:
  assumes ok: "discouraged_ok s" and now: "now + DISCOURAGE_DURATION_SEC < INT64_MAX"
  shows "discouraged_ok (Discourage now address s)"
proof -
  let ?u = "om_update address (now + DISCOURAGE_DURATION_SEC) (discouraged s)"
  let ?f = "filter (\<lambda>(a, expiry). \<not> now \<ge> expiry) ?u"
  have range: "\<forall>(a, e) \<in> set ?u. e < INT64_MAX"
    using ok now set_om_update [of address "now + DISCOURAGE_DURATION_SEC" "discouraged s"]
    unfolding discouraged_ok_def by blast
  have "length ?u \<le> Suc (length (discouraged s))" by (rule length_om_update)
  then have short: "length ?u \<le> Suc MAX_DISCOURAGED" using ok by (simp add: discouraged_ok_def)
  then have "length ?f \<le> Suc MAX_DISCOURAGED" by (rule order_trans [OF length_filter_le])
  have "length (discouraged (Discourage now address s)) \<le> MAX_DISCOURAGED"
  proof (cases "length ?u > MAX_DISCOURAGED \<and> length ?f > MAX_DISCOURAGED")
    case True
    then have "0 < length ?f" by linarith
    from nth_mem [OF this] obtain x where x: "x \<in> set ?f" by blast
    then have "\<exists>(a, e) \<in> set ?f. e < INT64_MAX" using range by (intro bexI [of _ x]) auto
    then obtain k where k: "earliest_expiry ?f INT64_MAX None = Some k"
      using earliest_expiry_Some by blast
    from earliest_expiry_min [OF k] obtain e where "(k, e) \<in> set ?f" by auto
    from length_om_erase [OF this] \<open>length ?f \<le> Suc MAX_DISCOURAGED\<close>
    show ?thesis using True k by (simp add: Discourage_def Let_def)
  next
    case False
    then show ?thesis by (auto simp: Discourage_def Let_def)
  qed
  moreover have "set (discouraged (Discourage now address s)) \<subseteq> set ?u"
    by (auto simp: Discourage_def Let_def om_erase_def split: option.split)
  ultimately show ?thesis
    using range ban_inv_Discourage [of s] ok by (auto simp: discouraged_ok_def)
qed

text \<open>
  No discouragement is lost that could be kept: an address is dropped only once its time is over or
  when every entry of a full list ends no earlier.
\<close>

lemma Discourage_keeps:
  assumes "ban_inv s" and "IsDiscouraged now a s" and "a \<noteq> address"
    and "\<not> IsDiscouraged now a (Discourage now address s)"
  shows "length (om_update address (now + DISCOURAGE_DURATION_SEC) (discouraged s)) > MAX_DISCOURAGED
    \<and> (\<forall>b e. IsDiscouraged now b s \<longrightarrow> b \<noteq> address \<longrightarrow> map_of (discouraged s) b = Some e \<longrightarrow>
          the (map_of (discouraged s) a) \<le> e)"
proof -
  let ?u = "om_update address (now + DISCOURAGE_DURATION_SEC) (discouraged s)"
  let ?f = "filter (\<lambda>(a, expiry). \<not> now \<ge> expiry) ?u"
  have om: "om_invar ?u" using assms(1) by (simp add: ban_inv_def)
  obtain ea where ea: "map_of (discouraged s) a = Some ea" "now < ea"
    using assms(2) by (auto simp: IsDiscouraged_def split: option.splits)
  have f: "map_of ?f b = (case map_of ?u b of None \<Rightarrow> None | Some e \<Rightarrow> if \<not> now \<ge> e then Some e else None)" for b
    by (rule om_filter_lookup [OF om])
  have big: "length ?u > MAX_DISCOURAGED \<and> length ?f > MAX_DISCOURAGED"
    and victim: "earliest_expiry ?f INT64_MAX None = Some a"
    using assms(3,4) ea f [of a]
    by (auto simp: Discourage_def Let_def IsDiscouraged_def split: if_splits option.splits)
  from earliest_expiry_min [OF victim] obtain e where e: "(a, e) \<in> set ?f"
    and min: "\<forall>(b, e') \<in> set ?f. e \<le> e'" by auto
  have "map_of ?f a = Some e" using e om_entries_iff [OF om_invar_filter [OF om]] by blast
  then have "e = ea" using ea f [of a] assms(3) by simp
  moreover have "e \<le> eb" if b: "IsDiscouraged now b s" "b \<noteq> address" "map_of (discouraged s) b = Some eb" for b eb
  proof -
    have "map_of ?f b = Some eb" using b f [of b] by (simp add: IsDiscouraged_def)
    from bspec [OF min map_of_SomeD [OF this]] show ?thesis by simp
  qed
  ultimately show ?thesis using big ea by auto
qed

end
