(* ===== verification/Misbehavior.thy ===== *)
theory Misbehavior
  imports Peer_Stream Ban_Manager "HOL-Library.AList"
begin

text \<open>
  The state kept per peer (\<open>peer_state.hpp\<close>, \<open>peer_misbehavior.hpp\<close>), the thread-safe map it lives in
  (\<open>threadsafe_containers.hpp\<close>; every access holds the lock, so operations are atomic), and the
  misbehaviour scores of \<open>misbehavior_manager.cpp\<close>.  \<open>PeerLifecycleManager\<close> exports the scoring
  operations under the same names.  Hash maps whose iteration order the language leaves open are
  iterated in key order.
\<close>

section \<open>Permissions and per-peer data\<close>

definition NoBan :: u32 where "NoBan = push_bit 0 1"
definition Manual :: u32 where "Manual = push_bit 1 1"
definition None_permissions :: u32 where "None_permissions = 0"

definition HasPermission :: "u32 \<Rightarrow> u32 \<Rightarrow> bool" where
  "HasPermission flags check \<longleftrightarrow> flags AND check = check \<and> check \<noteq> 0"

record PeerMisbehaviorData =
  misbehavior_score :: int
  should_discourage :: bool
  num_unconnecting_headers_msgs :: int
  unconnecting_penalized :: bool
  permissions :: u32
  mb_address :: string
  invalid_header_hashes :: "string list"

definition new_PeerMisbehaviorData :: PeerMisbehaviorData where
  "new_PeerMisbehaviorData = \<lparr>misbehavior_score = 0, should_discourage = False,
     num_unconnecting_headers_msgs = 0, unconnecting_penalized = False, permissions = None_permissions,
     mb_address = [], invalid_header_hashes = []\<rparr>"

definition DISCOURAGEMENT_THRESHOLD :: int where "DISCOURAGEMENT_THRESHOLD = 100"
definition INVALID_POW :: int where "INVALID_POW = 100"
definition OVERSIZED_MESSAGE :: int where "OVERSIZED_MESSAGE = 20"
definition NON_CONTINUOUS_HEADERS :: int where "NON_CONTINUOUS_HEADERS = 20"
definition LOW_WORK_HEADERS :: int where "LOW_WORK_HEADERS = 10"
definition INVALID_HEADER :: int where "INVALID_HEADER = 100"
definition TOO_MANY_UNCONNECTING :: int where "TOO_MANY_UNCONNECTING = 100"
definition TOO_MANY_ORPHANS :: int where "TOO_MANY_ORPHANS = 100"
definition MAX_UNCONNECTING_HEADERS :: int where "MAX_UNCONNECTING_HEADERS = 10"

lemmas penalty_defs = DISCOURAGEMENT_THRESHOLD_def INVALID_POW_def OVERSIZED_MESSAGE_def
  NON_CONTINUOUS_HEADERS_def LOW_WORK_HEADERS_def INVALID_HEADER_def TOO_MANY_UNCONNECTING_def
  TOO_MANY_ORPHANS_def MAX_UNCONNECTING_HEADERS_def

record AddressKey =
  ak_ip :: "byte list"
  ak_port :: u16

record LearnedEntry =
  ts_addr :: TimestampedAddress
  last_seen_s :: int

type_synonym LearnedMap = "(AddressKey \<times> LearnedEntry) list"

record PerPeerState =
  ps_peer :: peer
  created_at :: int
  misbehavior :: PeerMisbehaviorData
  blocks_for_inv_relay :: "blob list"
  last_announced_block :: blob
  last_announce_time_s :: int
  getaddr_replied :: bool
  learned_addresses :: LearnedMap

definition new_PerPeerState :: "peer \<Rightarrow> int \<Rightarrow> PerPeerState" where
  "new_PerPeerState p created = \<lparr>ps_peer = p, created_at = created, misbehavior = new_PeerMisbehaviorData,
     blocks_for_inv_relay = [], last_announced_block = replicate 32 0, last_announce_time_s = 0,
     getaddr_replied = False, learned_addresses = []\<rparr>"

type_synonym peer_states = "(int, PerPeerState) std_map"

definition Modify :: "'k::linorder \<Rightarrow> ('v \<Rightarrow> 'v) \<Rightarrow> ('k, 'v) std_map \<Rightarrow> ('k, 'v) std_map" where
  "Modify key modifier m = (case map_of m key of None \<Rightarrow> m | Some v \<Rightarrow> om_update key (modifier v) m)"

section \<open>Scores\<close>

text \<open>
  The score is an \<open>int\<close> of 32 bits that nothing caps.  The addition is written with the wrap-around of the machine; in C++ an overflow is
  undefined.
\<close>

definition int32 :: "int \<Rightarrow> int" where
  "int32 i = signed_take_bit 31 i"

definition add_penalty :: "int \<Rightarrow> PeerMisbehaviorData \<Rightarrow> PeerMisbehaviorData \<times> bool" where
  "add_penalty penalty data =
     (let old_score = misbehavior_score data;
          data = data\<lparr>misbehavior_score := int32 (old_score + penalty)\<rparr> in
      if misbehavior_score data \<ge> DISCOURAGEMENT_THRESHOLD \<and> old_score < DISCOURAGEMENT_THRESHOLD then
        if HasPermission (permissions data) NoBan then (data, False)
        else (data\<lparr>should_discourage := True\<rparr>, True)
      else (data, False))"

definition Misbehaving :: "int \<Rightarrow> int \<Rightarrow> peer_states \<Rightarrow> bool \<times> peer_states" where
  "Misbehaving peer_id penalty m =
     (let should_disconnect = (case map_of m peer_id of None \<Rightarrow> False
            | Some state \<Rightarrow> snd (add_penalty penalty (misbehavior state)));
          m = Modify peer_id (\<lambda>state. state\<lparr>misbehavior := fst (add_penalty penalty (misbehavior state))\<rparr>) m in
      if map_of m peer_id = None then (False, m) else (should_disconnect, m))"

definition ReportInvalidPoW :: "int \<Rightarrow> peer_states \<Rightarrow> peer_states" where
  "ReportInvalidPoW peer_id m = snd (Misbehaving peer_id INVALID_POW m)"

definition ReportOversizedMessage :: "int \<Rightarrow> peer_states \<Rightarrow> peer_states" where
  "ReportOversizedMessage peer_id m = snd (Misbehaving peer_id OVERSIZED_MESSAGE m)"

definition ReportNonContinuousHeaders :: "int \<Rightarrow> peer_states \<Rightarrow> peer_states" where
  "ReportNonContinuousHeaders peer_id m = snd (Misbehaving peer_id NON_CONTINUOUS_HEADERS m)"

definition ReportLowWorkHeaders :: "int \<Rightarrow> peer_states \<Rightarrow> peer_states" where
  "ReportLowWorkHeaders peer_id m = snd (Misbehaving peer_id LOW_WORK_HEADERS m)"

definition ReportInvalidHeader :: "int \<Rightarrow> peer_states \<Rightarrow> peer_states" where
  "ReportInvalidHeader peer_id m = snd (Misbehaving peer_id INVALID_HEADER m)"

definition ReportTooManyOrphans :: "int \<Rightarrow> peer_states \<Rightarrow> peer_states" where
  "ReportTooManyOrphans peer_id m = snd (Misbehaving peer_id TOO_MANY_ORPHANS m)"

definition ShouldDisconnect :: "int \<Rightarrow> peer_states \<Rightarrow> bool" where
  "ShouldDisconnect peer_id m =
     (case map_of m peer_id of None \<Rightarrow> False
      | Some state \<Rightarrow>
          if HasPermission (permissions (misbehavior state)) NoBan then False
          else should_discourage (misbehavior state))"

definition GetMisbehaviorScore :: "int \<Rightarrow> peer_states \<Rightarrow> int" where
  "GetMisbehaviorScore peer_id m =
     (case map_of m peer_id of None \<Rightarrow> 0 | Some state \<Rightarrow> misbehavior_score (misbehavior state))"

section \<open>Duplicates and unconnecting headers\<close>

definition NoteInvalidHeaderHash :: "int \<Rightarrow> blob \<Rightarrow> peer_states \<Rightarrow> peer_states" where
  "NoteInvalidHeaderHash peer_id hash m =
     Modify peer_id (\<lambda>state. state\<lparr>misbehavior := (misbehavior state)
       \<lparr>invalid_header_hashes := List.insert (GetHex hash) (invalid_header_hashes (misbehavior state))\<rparr>\<rparr>) m"

definition HasInvalidHeaderHash :: "int \<Rightarrow> blob \<Rightarrow> peer_states \<Rightarrow> bool" where
  "HasInvalidHeaderHash peer_id hash m =
     (case map_of m peer_id of None \<Rightarrow> False
      | Some state \<Rightarrow> GetHex hash \<in> set (invalid_header_hashes (misbehavior state)))"

definition count_unconnecting :: "PeerMisbehaviorData \<Rightarrow> PeerMisbehaviorData \<times> bool" where
  "count_unconnecting data =
     (if unconnecting_penalized data then (data, False)
      else
        let data = data\<lparr>num_unconnecting_headers_msgs := num_unconnecting_headers_msgs data + 1\<rparr> in
        if num_unconnecting_headers_msgs data \<ge> MAX_UNCONNECTING_HEADERS
        then (data\<lparr>unconnecting_penalized := True\<rparr>, True)
        else (data, False))"

definition IncrementUnconnectingHeaders :: "int \<Rightarrow> peer_states \<Rightarrow> peer_states" where
  "IncrementUnconnectingHeaders peer_id m =
     (let threshold_exceeded = (case map_of m peer_id of None \<Rightarrow> False
            | Some state \<Rightarrow> snd (count_unconnecting (misbehavior state)));
          m = Modify peer_id (\<lambda>state. state\<lparr>misbehavior := fst (count_unconnecting (misbehavior state))\<rparr>) m in
      if map_of m peer_id = None then m
      else if threshold_exceeded then snd (Misbehaving peer_id TOO_MANY_UNCONNECTING m)
      else m)"

definition ResetUnconnectingHeaders :: "int \<Rightarrow> peer_states \<Rightarrow> peer_states" where
  "ResetUnconnectingHeaders peer_id m =
     Modify peer_id (\<lambda>state. state\<lparr>misbehavior := (misbehavior state)\<lparr>num_unconnecting_headers_msgs := 0\<rparr>\<rparr>) m"

section \<open>What the operations do to each peer\<close>

lemma map_of_Modify:
  "map_of (Modify k f m) k' = (if k' = k then map_option f (map_of m k) else map_of m k')"
  by (simp add: Modify_def split: option.split)

lemma om_invar_Modify: "om_invar m \<Longrightarrow> om_invar (Modify k f m)"
  by (simp add: Modify_def split: option.split)

definition on_misbehavior :: "(PeerMisbehaviorData \<Rightarrow> PeerMisbehaviorData) \<Rightarrow> PerPeerState \<Rightarrow> PerPeerState" where
  "on_misbehavior f state = state\<lparr>misbehavior := f (misbehavior state)\<rparr>"

lemma Modify_twice: "Modify k g (Modify k f m) = Modify k (g \<circ> f) m"
  by (simp add: Modify_def om_update_twice split: option.split)

lemma Misbehaving_is_Modify:
  "snd (Misbehaving peer_id penalty m) = Modify peer_id (on_misbehavior (fst \<circ> add_penalty penalty)) m"
  by (simp add: Misbehaving_def Let_def on_misbehavior_def [abs_def])

text \<open>Counting an unconnecting message, with the penalty that may follow, on one peer's data.\<close>

definition unconnecting_data :: "PeerMisbehaviorData \<Rightarrow> PeerMisbehaviorData" where
  "unconnecting_data data =
     (case count_unconnecting data of (data, exceeded) \<Rightarrow>
        if exceeded then fst (add_penalty TOO_MANY_UNCONNECTING data) else data)"

lemma Increment_is_Modify:
  "IncrementUnconnectingHeaders peer_id m = Modify peer_id (on_misbehavior unconnecting_data) m"
proof (cases "map_of m peer_id")
  case None
  then show ?thesis by (simp add: IncrementUnconnectingHeaders_def Modify_def)
next
  case (Some state)
  let ?c = "\<lambda>state. state\<lparr>misbehavior := fst (count_unconnecting (misbehavior state))\<rparr>"
  have "map_of (Modify peer_id ?c m) peer_id \<noteq> None" using Some by (simp add: map_of_Modify)
  then have "IncrementUnconnectingHeaders peer_id m =
      (if snd (count_unconnecting (misbehavior state))
       then Modify peer_id (on_misbehavior (fst \<circ> add_penalty TOO_MANY_UNCONNECTING)) (Modify peer_id ?c m)
       else Modify peer_id ?c m)"
    using Some by (auto simp: IncrementUnconnectingHeaders_def Misbehaving_is_Modify Let_def)
  then show ?thesis using Some
    by (simp add: Modify_twice)
      (simp add: Modify_def on_misbehavior_def unconnecting_data_def split: prod.split)
qed

datatype mb_op =
    InvalidPoW | OversizedMessage | NonContinuousHeaders | LowWorkHeaders | InvalidHeader | TooManyOrphans
  | UnconnectingHeaders | ConnectingHeaders | InvalidHash blob

fun mb_apply :: "int \<times> mb_op \<Rightarrow> peer_states \<Rightarrow> peer_states" where
  "mb_apply (peer_id, InvalidPoW) = ReportInvalidPoW peer_id"
| "mb_apply (peer_id, OversizedMessage) = ReportOversizedMessage peer_id"
| "mb_apply (peer_id, NonContinuousHeaders) = ReportNonContinuousHeaders peer_id"
| "mb_apply (peer_id, LowWorkHeaders) = ReportLowWorkHeaders peer_id"
| "mb_apply (peer_id, InvalidHeader) = ReportInvalidHeader peer_id"
| "mb_apply (peer_id, TooManyOrphans) = ReportTooManyOrphans peer_id"
| "mb_apply (peer_id, UnconnectingHeaders) = IncrementUnconnectingHeaders peer_id"
| "mb_apply (peer_id, ConnectingHeaders) = ResetUnconnectingHeaders peer_id"
| "mb_apply (peer_id, InvalidHash hash) = NoteInvalidHeaderHash peer_id hash"

fun mb_data :: "mb_op \<Rightarrow> PeerMisbehaviorData \<Rightarrow> PeerMisbehaviorData" where
  "mb_data InvalidPoW = fst \<circ> add_penalty INVALID_POW"
| "mb_data OversizedMessage = fst \<circ> add_penalty OVERSIZED_MESSAGE"
| "mb_data NonContinuousHeaders = fst \<circ> add_penalty NON_CONTINUOUS_HEADERS"
| "mb_data LowWorkHeaders = fst \<circ> add_penalty LOW_WORK_HEADERS"
| "mb_data InvalidHeader = fst \<circ> add_penalty INVALID_HEADER"
| "mb_data TooManyOrphans = fst \<circ> add_penalty TOO_MANY_ORPHANS"
| "mb_data UnconnectingHeaders = unconnecting_data"
| "mb_data ConnectingHeaders = (\<lambda>data. data\<lparr>num_unconnecting_headers_msgs := 0\<rparr>)"
| "mb_data (InvalidHash hash) =
     (\<lambda>data. data\<lparr>invalid_header_hashes := List.insert (GetHex hash) (invalid_header_hashes data)\<rparr>)"

text \<open>Every operation changes the misbehaviour data of the peer it names and nothing else.\<close>

lemma mb_apply_local: "mb_apply (peer_id, op) m = Modify peer_id (on_misbehavior (mb_data op)) m"
  by (cases op) (simp_all add: ReportInvalidPoW_def ReportOversizedMessage_def ReportNonContinuousHeaders_def
      ReportLowWorkHeaders_def ReportInvalidHeader_def ReportTooManyOrphans_def Misbehaving_is_Modify
      Increment_is_Modify ResetUnconnectingHeaders_def NoteInvalidHeaderHash_def on_misbehavior_def [abs_def])

lemma map_of_mb_applies:
  "map_of (fold mb_apply events m) peer_id =
     map_option (on_misbehavior (fold mb_data (map snd (filter (\<lambda>e. fst e = peer_id) events)))) (map_of m peer_id)"
proof (induction events arbitrary: m)
  case Nil
  have "on_misbehavior (\<lambda>x. x) = id" by (simp add: on_misbehavior_def fun_eq_iff)
  then show ?case by (simp add: option.map_id id_def [symmetric])
next
  case (Cons e events)
  obtain i op where e: "e = (i, op)" by force
  show ?case using Cons by (cases "map_of m peer_id"; cases "i = peer_id")
    (simp_all add: e mb_apply_local map_of_Modify on_misbehavior_def)
qed

section \<open>The score is the sum of the penalties\<close>

text \<open>
  The penalties a sequence of events carries.  \<open>n\<close> counts the unconnecting messages since the last
  message that connected; the tenth costs the full threshold, once per connection.
\<close>

fun penalty_sum :: "int \<Rightarrow> bool \<Rightarrow> mb_op list \<Rightarrow> int" where
  "penalty_sum n latched [] = 0"
| "penalty_sum n latched (InvalidPoW # ops) = 100 + penalty_sum n latched ops"
| "penalty_sum n latched (OversizedMessage # ops) = 20 + penalty_sum n latched ops"
| "penalty_sum n latched (NonContinuousHeaders # ops) = 20 + penalty_sum n latched ops"
| "penalty_sum n latched (LowWorkHeaders # ops) = 10 + penalty_sum n latched ops"
| "penalty_sum n latched (InvalidHeader # ops) = 100 + penalty_sum n latched ops"
| "penalty_sum n latched (TooManyOrphans # ops) = 100 + penalty_sum n latched ops"
| "penalty_sum n latched (UnconnectingHeaders # ops) =
     (if latched then penalty_sum n True ops
      else if n + 1 = 10 then 100 + penalty_sum (n + 1) True ops
      else penalty_sum (n + 1) False ops)"
| "penalty_sum n latched (ConnectingHeaders # ops) = penalty_sum 0 latched ops"
| "penalty_sum n latched (InvalidHash hash # ops) = penalty_sum n latched ops"

lemma int32_small: "0 \<le> i \<Longrightarrow> i < 2 ^ 31 \<Longrightarrow> int32 i = i"
  by (simp add: int32_def signed_take_bit_int_eq_self_iff)

lemma int32_add: "int32 (int32 i + j) = int32 (i + j)"
  unfolding int32_def by (metis signed_take_bit_add signed_take_bit_signed_take_bit min.idem)

text \<open>
  The invariant of the data, over the sum of the penalties so far: the score is its value in 32 bits, and the peer is flagged
  exactly when the sum itself has reached the threshold and the peer is not exempt.
\<close>

definition mb_sum :: "int \<Rightarrow> PeerMisbehaviorData \<Rightarrow> bool" where
  "mb_sum points data \<longleftrightarrow> 0 \<le> points \<and> misbehavior_score data = int32 points
     \<and> should_discourage data = (points \<ge> DISCOURAGEMENT_THRESHOLD \<and> \<not> HasPermission (permissions data) NoBan)
     \<and> 0 \<le> num_unconnecting_headers_msgs data
     \<and> (\<not> unconnecting_penalized data \<longrightarrow> num_unconnecting_headers_msgs data < MAX_UNCONNECTING_HEADERS)"

lemma mb_sum_new: "mb_sum 0 (new_PeerMisbehaviorData\<lparr>permissions := perms, mb_address := a\<rparr>)"
  by (simp add: mb_sum_def new_PeerMisbehaviorData_def penalty_defs int32_small)

lemma mb_sum_penalty:
  assumes "mb_sum points data" and "0 \<le> penalty" and "penalty \<le> 100"
  shows "mb_sum (points + penalty) (fst (add_penalty penalty data))"
proof (cases "points < DISCOURAGEMENT_THRESHOLD")
  case True
  then have "int32 points = points" "int32 (points + penalty) = points + penalty"
    using assms by (auto simp: mb_sum_def penalty_defs intro!: int32_small)
  then show ?thesis using assms True by (auto simp: mb_sum_def add_penalty_def Let_def)
next
  case False
  then show ?thesis using assms by (auto simp: mb_sum_def add_penalty_def Let_def int32_add)
qed

lemma penalty_fields [simp]:
  "permissions (fst (add_penalty p data)) = permissions data"
  "num_unconnecting_headers_msgs (fst (add_penalty p data)) = num_unconnecting_headers_msgs data"
  "unconnecting_penalized (fst (add_penalty p data)) = unconnecting_penalized data"
  "mb_address (fst (add_penalty p data)) = mb_address data"
  "invalid_header_hashes (fst (add_penalty p data)) = invalid_header_hashes data"
  by (simp_all add: add_penalty_def Let_def)

text \<open>What one report costs, given the count of unconnecting messages.\<close>

abbreviation cost :: "mb_op \<Rightarrow> PeerMisbehaviorData \<Rightarrow> int" where
  "cost op data \<equiv> penalty_sum (num_unconnecting_headers_msgs data) (unconnecting_penalized data) [op]"

lemma mb_sum_data:
  assumes "mb_sum points data"
  shows "mb_sum (points + cost op data) (mb_data op data)"
proof (cases op)
  case UnconnectingHeaders
  let ?d = "data\<lparr>num_unconnecting_headers_msgs := num_unconnecting_headers_msgs data + 1\<rparr>"
  have "mb_sum points (?d\<lparr>unconnecting_penalized := True\<rparr>)" using assms by (simp add: mb_sum_def)
  from mb_sum_penalty [OF this, of TOO_MANY_UNCONNECTING]
  have over: "mb_sum (points + 100) (fst (add_penalty TOO_MANY_UNCONNECTING (?d\<lparr>unconnecting_penalized := True\<rparr>)))"
    by (simp add: penalty_defs)
  have under: "mb_sum points ?d" if "\<not> num_unconnecting_headers_msgs ?d \<ge> MAX_UNCONNECTING_HEADERS"
    using assms that by (simp add: mb_sum_def)
  have ten: "num_unconnecting_headers_msgs data + 1 = 10 \<longleftrightarrow> num_unconnecting_headers_msgs ?d \<ge> MAX_UNCONNECTING_HEADERS"
    if "\<not> unconnecting_penalized data" using assms that by (auto simp: mb_sum_def penalty_defs)
  show ?thesis using assms over under ten UnconnectingHeaders
    by (cases "unconnecting_penalized data")
      (auto simp: unconnecting_data_def count_unconnecting_def Let_def)
qed (use assms in \<open>auto simp: penalty_defs intro: mb_sum_penalty\<close>, use assms in \<open>auto simp: mb_sum_def penalty_defs\<close>)

lemma fold_mb_data:
  "mb_sum points data \<Longrightarrow> permissions (fold mb_data ops data) = permissions data \<and>
    mb_sum (points + penalty_sum (num_unconnecting_headers_msgs data) (unconnecting_penalized data) ops) (fold mb_data ops data)"
proof (induction ops arbitrary: points data)
  case (Cons op ops)
  note IH = Cons.IH [OF mb_sum_data [OF Cons.prems, of op]]
  show ?case
  proof (cases op)
    case UnconnectingHeaders
    have "num_unconnecting_headers_msgs data + 1 = 10" if "\<not> unconnecting_penalized data"
      "10 \<le> num_unconnecting_headers_msgs data + 1"
      using Cons.prems that by (simp add: mb_sum_def penalty_defs)
    with IH UnconnectingHeaders show ?thesis
      by (auto simp: unconnecting_data_def count_unconnecting_def penalty_defs Let_def add.assoc)
  qed (use IH in \<open>simp_all add: penalty_defs add.assoc\<close>)
qed simp

definition mb_ok :: "PeerMisbehaviorData \<Rightarrow> bool" where
  "mb_ok data \<longleftrightarrow> (\<exists>points. mb_sum points data)"

lemma mb_ok_new: "mb_ok (new_PeerMisbehaviorData\<lparr>permissions := perms, mb_address := a\<rparr>)"
  using mb_sum_new by (auto simp: mb_ok_def)

lemma mb_ok_data: "mb_ok data \<Longrightarrow> mb_ok (mb_data op data)"
  unfolding mb_ok_def using mb_sum_data by blast

text \<open>
  \<^bold>\<open>C29.\<close> Misbehaviour accounting is exact and local.  For any sequence of reports about any peers, the score of a peer that was
  fresh at the start is the sum of the penalties reported for it (ten unconnecting messages in a row count 100, once) as
  a 32-bit integer, that is, the sum itself as long as it is below $2^{31}$; it is marked for disconnection exactly when the sum reaches 100 and
  it has no \<open>NoBan\<close> permission, also after the score has wrapped around; its permissions never change; reports about other
  peers have no effect on it.
\<close>

theorem misbehavior_exact:
  fixes events :: "(int \<times> mb_op) list"
  assumes "map_of m peer_id = Some state"
    and "misbehavior state = new_PeerMisbehaviorData\<lparr>permissions := perms, mb_address := a\<rparr>"
  defines "points \<equiv> penalty_sum 0 False (map snd (filter (\<lambda>e. fst e = peer_id) events))"
  shows "GetMisbehaviorScore peer_id (fold mb_apply events m) = int32 points
    \<and> (points < 2 ^ 31 \<longrightarrow> GetMisbehaviorScore peer_id (fold mb_apply events m) = points)
    \<and> ShouldDisconnect peer_id (fold mb_apply events m) = (\<not> HasPermission perms NoBan \<and> 100 \<le> points)
    \<and> (\<exists>state'. map_of (fold mb_apply events m) peer_id = Some state'
        \<and> ps_peer state' = ps_peer state \<and> permissions (misbehavior state') = perms)"
proof -
  have "mb_sum 0 (misbehavior state)" using mb_sum_new assms(2) by simp
  note f = fold_mb_data [OF this, of "map snd (filter (\<lambda>e. fst e = peer_id) events)"]
  have n: "num_unconnecting_headers_msgs (misbehavior state) = 0" "\<not> unconnecting_penalized (misbehavior state)" "permissions (misbehavior state) = perms"
    by (simp_all add: assms(2) new_PeerMisbehaviorData_def)
  show ?thesis using assms(1) f int32_small [of points]
    by (simp add: map_of_mb_applies GetMisbehaviorScore_def ShouldDisconnect_def on_misbehavior_def n mb_sum_def points_def [symmetric])
      (auto simp: penalty_defs)
qed

theorem misbehavior_exact_witness:
  "\<exists>state. let m = [(1, state), (2, state)];
     events = replicate 9 (1, UnconnectingHeaders) @ [(2, LowWorkHeaders), (1, UnconnectingHeaders)] in
   ShouldDisconnect 1 (fold mb_apply events m) \<and> GetMisbehaviorScore 1 (fold mb_apply events m) = 100
   \<and> \<not> ShouldDisconnect 2 (fold mb_apply events m) \<and> GetMisbehaviorScore 2 (fold mb_apply events m) = 10"
proof -
  let ?state = "new_PerPeerState sample_peer 0"
  let ?m = "[(1, ?state), (2, ?state)]"
  let ?events = "replicate 9 (1, UnconnectingHeaders) @ [(2, LowWorkHeaders), (1, UnconnectingHeaders)]"
  have fresh: "misbehavior ?state = new_PeerMisbehaviorData\<lparr>permissions := 0, mb_address := []\<rparr>"
    by (simp add: new_PerPeerState_def new_PeerMisbehaviorData_def None_permissions_def)
  have "\<not> HasPermission 0 NoBan" by (simp add: HasPermission_def NoBan_def)
  then show ?thesis
    using misbehavior_exact [of ?m 1 ?state "[]" 0 ?events] misbehavior_exact [of ?m 2 ?state "[]" 0 ?events] fresh
    by (intro exI [of _ ?state]) (simp add: Let_def numeral_eq_Suc)
qed

text \<open>
  A peer with the \<open>NoBan\<close> permission is never disconnected, so its score can grow until it overflows: on the machine it becomes
  negative.
\<close>

lemma exempt_score_overflows:
  "misbehavior_score data = 2147483600 \<Longrightarrow> misbehavior_score (fst (add_penalty INVALID_HEADER data)) = - 2147483596"
  by (simp add: add_penalty_def Let_def penalty_defs int32_def signed_take_bit_code mask_eq_exp_minus_1 not_int_def)

end
