(* ===== verification/Peer_Manager.thy ===== *)
theory Peer_Manager
  imports Misbehavior Std_String
begin

text \<open>
  \<open>PeerLifecycleManager\<close> (\<open>peer_lifecycle_manager.cpp\<close>): admission, limits, eviction and removal of peers.
  The reactor is single threaded, so operations do not interleave.  Calls into other components (the
  notifications, the address manager, closing a connection) are recorded in \<open>pm_calls\<close> in order; what the
  transport and the address manager answer is part of the environment and may depend on the calls made
  before.  A peer that has left the table, and which other holders of the pointer may still see, is kept
  in \<open>detached\<close>.  Peer ids are mathematical integers; the code counts them in an \<open>int\<close>.
\<close>

section \<open>State and environment\<close>

record PeerManagerConfig =
  max_outbound_peers :: nat
  max_inbound_peers :: nat
  target_outbound_peers :: nat

definition DEFAULT_MAX_OUTBOUND_CONNECTIONS :: nat where "DEFAULT_MAX_OUTBOUND_CONNECTIONS = 8"
definition DEFAULT_MAX_INBOUND_CONNECTIONS :: nat where "DEFAULT_MAX_INBOUND_CONNECTIONS = 125"

definition default_config :: PeerManagerConfig where
  "default_config = \<lparr>max_outbound_peers = DEFAULT_MAX_OUTBOUND_CONNECTIONS,
     max_inbound_peers = DEFAULT_MAX_INBOUND_CONNECTIONS,
     target_outbound_peers = DEFAULT_MAX_OUTBOUND_CONNECTIONS\<rparr>"

definition MAX_INBOUND_PER_IP :: nat where "MAX_INBOUND_PER_IP = 2"
definition FEELER_MAX_LIFETIME_SEC :: int where "FEELER_MAX_LIFETIME_SEC = 120"
definition MAX_CONNECTION_ATTEMPTS_PER_CYCLE :: nat where "MAX_CONNECTION_ATTEMPTS_PER_CYCLE = 100"

datatype ConnectionResult =
    Success | NotRunning | AddressBanned | AddressDiscouraged | AlreadyConnected | NoSlotsAvailable
  | TransportFailed | PeerCreationFailed | ConnectionManagerFailed

datatype pm_call =
    NotifyPeerConnected int string u16 string
  | NotifyPeerDisconnected int string u16 string bool
  | CleanupStale
  | AddrGood NetworkAddress
  | AddrAttempt NetworkAddress
  | AddrFailed NetworkAddress
  | TransportConnect string u16
  | CloseTransport string u16

record PeerLifecycleManager =
  pm_config :: PeerManagerConfig
  peer_states :: peer_states
  next_peer_id :: int
  shutting_down :: bool
  stopping_all :: bool
  has_discovery :: bool
  ban_manager :: BanManager
  pm_calls :: "pm_call list"
  detached :: "peer list"

text \<open>
  \<open>pw_connect\<close> is the connection object \<open>connect\<close> returns: its remote end and whether it is open at
  once.  \<open>pw_select\<close> and \<open>pw_select_new\<close> are the choices of the address manager.
\<close>

record pm_env =
  pw_peer :: peer_env
  pw_process_nonce :: u64
  pw_connect :: "pm_call list \<Rightarrow> string \<Rightarrow> u16 \<Rightarrow> ((string \<times> u16) \<times> bool) option"
  pw_select :: "pm_call list \<Rightarrow> NetworkAddress option"
  pw_select_new :: "pm_call list \<Rightarrow> NetworkAddress option"

definition pm_call :: "pm_call \<Rightarrow> PeerLifecycleManager \<Rightarrow> PeerLifecycleManager" where
  "pm_call c pm = pm\<lparr>pm_calls := pm_calls pm @ [c]\<rparr>"

definition normalize_ip_string :: "ip_lib \<Rightarrow> string \<Rightarrow> string" where
  "normalize_ip_string lib s =
     (case make_address lib s of
        None \<Rightarrow> s
      | Some (V6 b) \<Rightarrow>
          if is_v4_mapped lib b
          then (case v4_to_string lib (make_address_v4 lib b) of None \<Rightarrow> s | Some t \<Rightarrow> t)
          else (case v6_to_string lib b of None \<Rightarrow> s | Some t \<Rightarrow> t)
      | Some (V4 v) \<Rightarrow> (case v4_to_string lib v of None \<Rightarrow> s | Some t \<Rightarrow> t))"

definition new_PeerLifecycleManager :: "PeerManagerConfig \<Rightarrow> ban_env \<Rightarrow> string \<Rightarrow> (string \<Rightarrow> string option) \<Rightarrow> PeerLifecycleManager" where
  "new_PeerLifecycleManager config benv datadir files =
     \<lparr>pm_config = config, peer_states = [], next_peer_id = 0, shutting_down = False, stopping_all = False,
      has_discovery = False,
      ban_manager = (if datadir \<noteq> [] then snd (LoadBans benv datadir (BanManager_new files)) else BanManager_new files),
      pm_calls = [], detached = []\<rparr>"

definition SetDiscoveryManager :: "bool \<Rightarrow> PeerLifecycleManager \<Rightarrow> PeerLifecycleManager" where
  "SetDiscoveryManager present pm = pm\<lparr>has_discovery := present\<rparr>"

definition Shutdown :: "PeerLifecycleManager \<Rightarrow> PeerLifecycleManager" where
  "Shutdown pm = pm\<lparr>shutting_down := True\<rparr>"

definition allocate_peer_id :: "PeerLifecycleManager \<Rightarrow> int \<times> PeerLifecycleManager" where
  "allocate_peer_id pm = (next_peer_id pm, pm\<lparr>next_peer_id := next_peer_id pm + 1\<rparr>)"

section \<open>Queries\<close>

definition get_peer :: "int \<Rightarrow> PeerLifecycleManager \<Rightarrow> peer option" where
  "get_peer peer_id pm = map_option ps_peer (map_of (peer_states pm) peer_id)"

fun find_in :: "ip_lib \<Rightarrow> string \<Rightarrow> u16 \<Rightarrow> peer_states \<Rightarrow> int" where
  "find_in lib needle_addr port [] = -1"
| "find_in lib needle_addr port ((i, state) # m) =
     (if normalize_ip_string lib (peer_address (ps_peer state)) \<noteq> needle_addr then find_in lib needle_addr port m
      else if port \<noteq> 0 then (if peer_port (ps_peer state) = port then i else find_in lib needle_addr port m)
      else i)"

definition find_peer_by_address :: "ip_lib \<Rightarrow> string \<Rightarrow> u16 \<Rightarrow> PeerLifecycleManager \<Rightarrow> int" where
  "find_peer_by_address lib address port pm = find_in lib (normalize_ip_string lib address) port (peer_states pm)"

definition all_peers :: "PeerLifecycleManager \<Rightarrow> peer list" where
  "all_peers pm = map (ps_peer \<circ> snd) (peer_states pm)"

definition get_all_peers :: "PeerLifecycleManager \<Rightarrow> peer list" where
  "get_all_peers pm = sort_key p_id (all_peers pm)"

definition get_outbound_peers :: "PeerLifecycleManager \<Rightarrow> peer list" where
  "get_outbound_peers pm = sort_key p_id (filter (\<lambda>p. \<not> p_is_inbound p) (all_peers pm))"

definition get_inbound_peers :: "PeerLifecycleManager \<Rightarrow> peer list" where
  "get_inbound_peers pm = sort_key p_id (filter p_is_inbound (all_peers pm))"

definition peer_count :: "PeerLifecycleManager \<Rightarrow> nat" where
  "peer_count pm = length (peer_states pm)"

definition outbound_count :: "PeerLifecycleManager \<Rightarrow> nat" where
  "outbound_count pm = length (filter (\<lambda>p. \<not> p_is_inbound p \<and> \<not> is_feeler p \<and> \<not> is_manual p) (all_peers pm))"

definition inbound_count :: "PeerLifecycleManager \<Rightarrow> nat" where
  "inbound_count pm = length (filter p_is_inbound (all_peers pm))"

definition needs_more_outbound :: "PeerLifecycleManager \<Rightarrow> bool" where
  "needs_more_outbound pm \<longleftrightarrow> outbound_count pm < target_outbound_peers (pm_config pm)"

definition can_accept_inbound :: "PeerLifecycleManager \<Rightarrow> bool" where
  "can_accept_inbound pm \<longleftrightarrow> inbound_count pm < max_inbound_peers (pm_config pm)"

definition same_ip_inbound :: "ip_lib \<Rightarrow> string \<Rightarrow> PeerLifecycleManager \<Rightarrow> nat" where
  "same_ip_inbound lib addr pm =
     length (filter (\<lambda>p. p_is_inbound p \<and> normalize_ip_string lib (peer_address p) = addr) (all_peers pm))"

definition can_accept_inbound_from :: "ip_lib \<Rightarrow> string \<Rightarrow> PeerLifecycleManager \<Rightarrow> bool" where
  "can_accept_inbound_from lib address pm =
     (if inbound_count pm \<ge> max_inbound_peers (pm_config pm) then False
      else same_ip_inbound lib (normalize_ip_string lib address) pm < MAX_INBOUND_PER_IP)"

section \<open>Removing peers\<close>

definition remove_peer :: "peer_env \<Rightarrow> int \<Rightarrow> PeerLifecycleManager \<Rightarrow> PeerLifecycleManager" where
  "remove_peer env peer_id pm =
     (case map_of (peer_states pm) peer_id of
        None \<Rightarrow> pm
      | Some state \<Rightarrow>
          let p = ps_peer state;
              score = misbehavior_score (misbehavior state);
              disconnect_reason = (if should_discourage (misbehavior state)
                then ''misbehavior (score: '' @ dec_int score @ '')'' else ''disconnected'');
              pm = (if should_discourage (misbehavior state)
                    then pm\<lparr>ban_manager := Discourage (pe_time env)
                          (normalize_ip_string (pe_ip env) (mb_address (misbehavior state))) (ban_manager pm)\<rparr>
                    else pm);
              mark_addr_good = (p_successfully_connected p \<and> score = 0 \<and> \<not> p_is_inbound p \<and> \<not> is_feeler p
                \<and> p_target_port p \<noteq> 0 \<and> p_target_address p \<noteq> []);
              skip_notifications = shutting_down pm;
              pm = pm\<lparr>peer_states := om_erase peer_id (peer_states pm)\<rparr>;
              pm = (if \<not> skip_notifications
                    then pm_call (NotifyPeerDisconnected peer_id (peer_address p) (peer_port p) disconnect_reason mark_addr_good) pm
                    else pm)
          in pm\<lparr>detached := detached pm @ [do_disconnect p]\<rparr>)"

text \<open>The candidates for eviction: id, connection time and ping of the inbound peers outside the protected window.\<close>

definition eviction_candidates :: "peer_env \<Rightarrow> PeerLifecycleManager \<Rightarrow> (int \<times> int \<times> int) list" where
  "eviction_candidates env pm =
     map (\<lambda>(i, state). (i, st_connected_time (p_stats (ps_peer state)), st_ping_time_ms (p_stats (ps_peer state))))
       (filter (\<lambda>(i, state). p_is_inbound (ps_peer state)
            \<and> \<not> to_seconds (pe_steady env) - st_connected_time (p_stats (ps_peer state)) < 10) (peer_states pm))"

definition map_ping :: "int \<Rightarrow> int" where
  "map_ping p = (if p < 0 then INT64_MAX div 2 else p)"

fun worst_candidate :: "(int \<times> int \<times> int) list \<Rightarrow> int \<Rightarrow> int \<Rightarrow> int \<Rightarrow> int" where
  "worst_candidate [] worst_score worst_peer_id oldest_connected = worst_peer_id"
| "worst_candidate ((i, connected_time, ping) # cs) worst_score worst_peer_id oldest_connected =
     (let cand = map_ping ping in
      if cand > worst_score then worst_candidate cs cand i connected_time
      else if cand = worst_score then
        if connected_time < oldest_connected then worst_candidate cs worst_score i connected_time
        else if connected_time = oldest_connected \<and> i < worst_peer_id
        then worst_candidate cs worst_score i oldest_connected
        else worst_candidate cs worst_score worst_peer_id oldest_connected
      else worst_candidate cs worst_score worst_peer_id oldest_connected)"

definition evict_inbound_peer :: "peer_env \<Rightarrow> PeerLifecycleManager \<Rightarrow> bool \<times> PeerLifecycleManager" where
  "evict_inbound_peer env pm =
     (let candidates = eviction_candidates env pm in
      if candidates = [] then (False, pm)
      else
        let worst_peer_id = worst_candidate candidates (- (2 ^ 63)) (-1) INT64_MAX in
        if worst_peer_id \<ge> 0 then (True, remove_peer env worst_peer_id pm)
        else (False, pm))"

definition disconnect_all :: "PeerLifecycleManager \<Rightarrow> PeerLifecycleManager" where
  "disconnect_all pm =
     (let pm = pm\<lparr>stopping_all := True\<rparr>;
          skip_notifications = shutting_down pm;
          peers_to_disconnect = map (\<lambda>(i, state). (i, ps_peer state)) (peer_states pm);
          pm = (if \<not> skip_notifications
                then fold (\<lambda>(i, p). pm_call (NotifyPeerDisconnected i (peer_address p) (peer_port p) ''shutdown'' False))
                       peers_to_disconnect pm
                else pm);
          pm = pm\<lparr>peer_states := []\<rparr>;
          pm = pm\<lparr>detached := detached pm @ map (do_disconnect \<circ> snd) peers_to_disconnect\<rparr>
      in pm\<lparr>stopping_all := False\<rparr>)"

text \<open>Whether \<open>process_periodic\<close> collects a peer for removal.\<close>

definition to_remove :: "peer_env \<Rightarrow> PerPeerState \<Rightarrow> bool" where
  "to_remove env state \<longleftrightarrow>
     (if \<not> is_connected (ps_peer state) then True
      else if is_feeler (ps_peer state) \<and> to_seconds (pe_steady env - created_at state) \<ge> FEELER_MAX_LIFETIME_SEC then True
      else if should_discourage (misbehavior state) then
        (if HasPermission (permissions (misbehavior state)) NoBan then False else True)
      else False)"

definition process_periodic :: "peer_env \<Rightarrow> PeerLifecycleManager \<Rightarrow> PeerLifecycleManager" where
  "process_periodic env pm =
     (let ids = map fst (filter (\<lambda>(i, state). to_remove env state) (peer_states pm));
          pm = fold (remove_peer env) ids pm
      in if has_discovery pm then pm_call CleanupStale pm else pm)"

section \<open>Adding peers\<close>

definition banned_or_discouraged :: "peer_env \<Rightarrow> u32 \<Rightarrow> string \<Rightarrow> peer \<Rightarrow> PeerLifecycleManager \<Rightarrow> bool" where
  "banned_or_discouraged env perms address p pm \<longleftrightarrow>
     \<not> HasPermission perms NoBan \<and>
     (let peer_addr = (if address = [] then peer_address p else address);
          normalized_addr = normalize_ip_string (pe_ip env) peer_addr in
      IsBanned (pe_time env) normalized_addr (ban_manager pm) \<or> IsDiscouraged (pe_time env) normalized_addr (ban_manager pm))"

definition outbound_nonfeeler :: "PeerLifecycleManager \<Rightarrow> nat" where
  "outbound_nonfeeler pm = length (filter (\<lambda>p. \<not> p_is_inbound p \<and> \<not> is_feeler p) (all_peers pm))"

definition make_room :: "peer_env \<Rightarrow> peer \<Rightarrow> PeerLifecycleManager \<Rightarrow> bool \<times> PeerLifecycleManager" where
  "make_room env p pm =
     (if \<not> p_is_inbound p \<and> \<not> is_feeler p \<and> outbound_nonfeeler pm \<ge> max_outbound_peers (pm_config pm) then (False, pm)
      else
        let (room, pm) =
          (if p_is_inbound p \<and> inbound_count pm \<ge> max_inbound_peers (pm_config pm) then
             let (evicted, pm) = evict_inbound_peer env pm in
             if \<not> evicted then (False, pm)
             else if inbound_count pm \<ge> max_inbound_peers (pm_config pm) then (False, pm)
             else (True, pm)
           else (True, pm)) in
        if \<not> room then (False, pm)
        else if p_is_inbound p \<and> same_ip_inbound (pe_ip env) (normalize_ip_string (pe_ip env) (peer_address p)) pm \<ge> MAX_INBOUND_PER_IP
        then (False, pm)
        else (True, pm))"

definition insert_peer :: "peer_env \<Rightarrow> int \<Rightarrow> u32 \<Rightarrow> string \<Rightarrow> peer \<Rightarrow> PeerLifecycleManager \<Rightarrow> PeerLifecycleManager" where
  "insert_peer env peer_id perms address p pm =
     (let addr = (if address = [] then peer_address p else address);
          state = new_PerPeerState p (pe_steady env);
          state = state\<lparr>misbehavior := (misbehavior state)\<lparr>permissions := perms, mb_address := addr\<rparr>\<rparr>;
          pm = pm\<lparr>peer_states := om_update peer_id state (peer_states pm)\<rparr>;
          connection_type = (if p_is_inbound p then ''inbound'' else if is_feeler p then ''feeler'' else ''outbound'')
      in pm_call (NotifyPeerConnected peer_id addr (peer_port p) connection_type) pm)"

definition add_peer :: "peer_env \<Rightarrow> peer option \<Rightarrow> u32 \<Rightarrow> string \<Rightarrow> PeerLifecycleManager \<Rightarrow> int \<times> PeerLifecycleManager" where
  "add_peer env new_peer perms address pm =
     (case new_peer of
        None \<Rightarrow> (-1, pm)
      | Some p \<Rightarrow>
          if stopping_all pm then (-1, pm)
          else if banned_or_discouraged env perms address p pm then (-1, pm)
          else
            (case make_room env p pm of (room, pm) \<Rightarrow>
               if \<not> room then (-1, pm)
               else
                 (case allocate_peer_id pm of (peer_id, pm) \<Rightarrow>
                    (peer_id, insert_peer env peer_id perms address (p\<lparr>p_id := peer_id\<rparr>) pm))))"

definition add_peer_with_id :: "peer_env \<Rightarrow> int \<Rightarrow> peer option \<Rightarrow> u32 \<Rightarrow> string \<Rightarrow> PeerLifecycleManager \<Rightarrow> bool \<times> PeerLifecycleManager" where
  "add_peer_with_id env peer_id new_peer perms address pm =
     (case new_peer of
        None \<Rightarrow> (False, pm)
      | Some p \<Rightarrow>
          if p_id p \<noteq> peer_id then (False, pm)
          else if stopping_all pm then (False, pm)
          else if map_of (peer_states pm) peer_id \<noteq> None then (False, pm)
          else if banned_or_discouraged env perms address p pm then (False, pm)
          else
            (case make_room env p pm of (room, pm) \<Rightarrow>
               if \<not> room then (False, pm)
               else (True, insert_peer env peer_id perms address p pm)))"

section \<open>State of a peer used by the other managers\<close>

definition GetLastAnnouncedBlock :: "int \<Rightarrow> PeerLifecycleManager \<Rightarrow> blob option" where
  "GetLastAnnouncedBlock peer_id pm = map_option last_announced_block (map_of (peer_states pm) peer_id)"

definition GetLastAnnounceTime :: "int \<Rightarrow> PeerLifecycleManager \<Rightarrow> int" where
  "GetLastAnnounceTime peer_id pm =
     (case map_of (peer_states pm) peer_id of None \<Rightarrow> 0 | Some state \<Rightarrow> last_announce_time_s state)"

definition SetLastAnnouncedBlock :: "int \<Rightarrow> blob \<Rightarrow> int \<Rightarrow> PeerLifecycleManager \<Rightarrow> PeerLifecycleManager" where
  "SetLastAnnouncedBlock peer_id hash time_s pm =
     pm\<lparr>peer_states := Modify peer_id
       (\<lambda>state. state\<lparr>last_announced_block := hash, last_announce_time_s := time_s\<rparr>) (peer_states pm)\<rparr>"

definition GetBlocksForInvRelay :: "int \<Rightarrow> PeerLifecycleManager \<Rightarrow> blob list" where
  "GetBlocksForInvRelay peer_id pm =
     (case map_of (peer_states pm) peer_id of None \<Rightarrow> [] | Some state \<Rightarrow> blocks_for_inv_relay state)"

definition AddBlockForInvRelay :: "int \<Rightarrow> blob \<Rightarrow> PeerLifecycleManager \<Rightarrow> PeerLifecycleManager" where
  "AddBlockForInvRelay peer_id hash pm =
     pm\<lparr>peer_states := Modify peer_id
       (\<lambda>state. state\<lparr>blocks_for_inv_relay := blocks_for_inv_relay state @ [hash]\<rparr>) (peer_states pm)\<rparr>"

definition ClearBlocksForInvRelay :: "int \<Rightarrow> PeerLifecycleManager \<Rightarrow> PeerLifecycleManager" where
  "ClearBlocksForInvRelay peer_id pm =
     pm\<lparr>peer_states := Modify peer_id (\<lambda>state. state\<lparr>blocks_for_inv_relay := []\<rparr>) (peer_states pm)\<rparr>"

definition HasRepliedToGetAddr :: "int \<Rightarrow> PeerLifecycleManager \<Rightarrow> bool" where
  "HasRepliedToGetAddr peer_id pm =
     (case map_of (peer_states pm) peer_id of None \<Rightarrow> False | Some state \<Rightarrow> getaddr_replied state)"

definition MarkGetAddrReplied :: "int \<Rightarrow> PeerLifecycleManager \<Rightarrow> PeerLifecycleManager" where
  "MarkGetAddrReplied peer_id pm =
     pm\<lparr>peer_states := Modify peer_id (\<lambda>state. state\<lparr>getaddr_replied := True\<rparr>) (peer_states pm)\<rparr>"

definition AddLearnedAddress :: "int \<Rightarrow> AddressKey \<Rightarrow> LearnedEntry \<Rightarrow> PeerLifecycleManager \<Rightarrow> PeerLifecycleManager" where
  "AddLearnedAddress peer_id key entry pm =
     pm\<lparr>peer_states := Modify peer_id
       (\<lambda>state. state\<lparr>learned_addresses := AList.update key entry (learned_addresses state)\<rparr>) (peer_states pm)\<rparr>"

definition GetLearnedAddresses :: "int \<Rightarrow> PeerLifecycleManager \<Rightarrow> LearnedMap option" where
  "GetLearnedAddresses peer_id pm = map_option learned_addresses (map_of (peer_states pm) peer_id)"

definition ClearLearnedAddresses :: "int \<Rightarrow> PeerLifecycleManager \<Rightarrow> PeerLifecycleManager" where
  "ClearLearnedAddresses peer_id pm =
     pm\<lparr>peer_states := Modify peer_id (\<lambda>state. state\<lparr>learned_addresses := []\<rparr>) (peer_states pm)\<rparr>"

definition GetAllLearnedAddresses :: "PeerLifecycleManager \<Rightarrow> (int \<times> LearnedMap) list" where
  "GetAllLearnedAddresses pm =
     sort_key fst (map (\<lambda>(i, state). (i, learned_addresses state))
       (filter (\<lambda>(i, state). learned_addresses state \<noteq> []) (peer_states pm)))"

section \<open>Making and accepting connections\<close>

text \<open>Running an operation of a peer object on the peer in the table.\<close>

definition on_peer :: "int \<Rightarrow> (peer \<Rightarrow> peer) \<Rightarrow> PeerLifecycleManager \<Rightarrow> PeerLifecycleManager" where
  "on_peer peer_id f pm =
     pm\<lparr>peer_states := Modify peer_id (\<lambda>state. state\<lparr>ps_peer := f (ps_peer state)\<rparr>) (peer_states pm)\<rparr>"

definition CheckIncomingNonce :: "u64 \<Rightarrow> u64 \<Rightarrow> PeerLifecycleManager \<Rightarrow> bool" where
  "CheckIncomingNonce nonce local_nonce pm =
     (if nonce = local_nonce then False
      else \<not> list_ex (\<lambda>p. p_successfully_connected p \<and> p_peer_nonce p = nonce) (get_all_peers pm))"

definition ConnectTo :: "pm_env \<Rightarrow> NetworkAddress \<Rightarrow> u32 \<Rightarrow> u32 \<Rightarrow> int \<Rightarrow> u64 \<Rightarrow> PeerLifecycleManager
    \<Rightarrow> ConnectionResult \<times> PeerLifecycleManager" where
  "ConnectTo env addr perms network_magic chain_height local_nonce pm =
     (let penv = pw_peer env; lib = pe_ip penv in
      case NetworkAddressToString lib addr of
        None \<Rightarrow> (TransportFailed, pm)
      | Some address \<Rightarrow>
          let port = na_port addr in
          if IsBanned (pe_time penv) address (ban_manager pm) then (AddressBanned, pm)
          else if IsDiscouraged (pe_time penv) address (ban_manager pm) then (AddressDiscouraged, pm)
          else if find_peer_by_address lib address port pm \<noteq> -1 then (AlreadyConnected, pm)
          else if \<not> needs_more_outbound pm then (NoSlotsAvailable, pm)
          else
            let (peer_id, pm) = allocate_peer_id pm;
                connection = pw_connect env (pm_calls pm) address port;
                pm = pm_call (TransportConnect address port) pm in
            if connection = None then (TransportFailed, pm)
            else
              let p = peer_create_outbound penv (pw_process_nonce env) connection network_magic chain_height address port OUTBOUND;
                  p = p\<lparr>p_id := peer_id\<rparr>;
                  p = p\<lparr>p_local_nonce := local_nonce\<rparr>;
                  (added, pm) = add_peer_with_id penv peer_id (Some p) perms address pm in
              if \<not> added then (ConnectionManagerFailed, pm_call (CloseTransport address port) pm)
              else (Success, pm))"

text \<open>The completion of an attempt, posted to the reactor; \<open>is_open\<close> is the state of the socket then.\<close>

definition connect_completed :: "pm_env \<Rightarrow> int \<Rightarrow> NetworkAddress \<Rightarrow> bool \<Rightarrow> bool \<Rightarrow> PeerLifecycleManager \<Rightarrow> PeerLifecycleManager" where
  "connect_completed env peer_id addr success is_open pm =
     (case get_peer peer_id pm of
        None \<Rightarrow> pm
      | Some p \<Rightarrow>
          if success then on_peer peer_id (start (pw_peer env) is_open) (pm_call (AddrGood addr) pm)
          else remove_peer (pw_peer env) peer_id (pm_call (AddrAttempt addr) pm))"

definition attempt_one :: "pm_env \<Rightarrow> u32 \<Rightarrow> int \<Rightarrow> u64 \<Rightarrow> NetworkAddress \<Rightarrow> PeerLifecycleManager \<Rightarrow> PeerLifecycleManager" where
  "attempt_one env network_magic chain_height local_nonce addr pm =
     (case NetworkAddressToString (pe_ip (pw_peer env)) addr of
        None \<Rightarrow> pm_call (AddrFailed addr) pm
      | Some ip_str \<Rightarrow>
          if find_peer_by_address (pe_ip (pw_peer env)) ip_str (na_port addr) pm \<noteq> -1 then pm
          else
            let pm = pm_call (AddrAttempt addr) pm;
                (result, pm) = ConnectTo env addr None_permissions network_magic chain_height local_nonce pm in
            if result = AddressBanned \<or> result = AddressDiscouraged then pm_call (AddrFailed addr) pm
            else pm)"

fun attempt_loop :: "nat \<Rightarrow> pm_env \<Rightarrow> u32 \<Rightarrow> int \<Rightarrow> u64 \<Rightarrow> PeerLifecycleManager \<Rightarrow> PeerLifecycleManager" where
  "attempt_loop 0 env network_magic chain_height local_nonce pm = pm"
| "attempt_loop (Suc n) env network_magic chain_height local_nonce pm =
     (if \<not> needs_more_outbound pm then pm
      else case pw_select env (pm_calls pm) of
          None \<Rightarrow> pm
        | Some addr \<Rightarrow> attempt_loop n env network_magic chain_height local_nonce
            (attempt_one env network_magic chain_height local_nonce addr pm))"

definition AttemptOutboundConnections :: "bool \<Rightarrow> pm_env \<Rightarrow> u32 \<Rightarrow> int \<Rightarrow> u64 \<Rightarrow> PeerLifecycleManager \<Rightarrow> PeerLifecycleManager" where
  "AttemptOutboundConnections is_running env network_magic chain_height local_nonce pm =
     (if \<not> is_running then pm
      else if \<not> has_discovery pm then pm
      else attempt_loop MAX_CONNECTION_ATTEMPTS_PER_CYCLE env network_magic chain_height local_nonce pm)"

definition AttemptFeelerConnection :: "bool \<Rightarrow> pm_env \<Rightarrow> u32 \<Rightarrow> int \<Rightarrow> u64 \<Rightarrow> PeerLifecycleManager \<Rightarrow> PeerLifecycleManager" where
  "AttemptFeelerConnection is_running env network_magic current_height local_nonce pm =
     (if \<not> is_running then pm
      else if \<not> has_discovery pm then pm
      else case pw_select_new env (pm_calls pm) of
          None \<Rightarrow> pm
        | Some addr \<Rightarrow>
            (case NetworkAddressToString (pe_ip (pw_peer env)) addr of
               None \<Rightarrow> pm
             | Some address \<Rightarrow>
                 let port = na_port addr;
                     (peer_id, pm) = allocate_peer_id pm;
                     connection = pw_connect env (pm_calls pm) address port;
                     pm = pm_call (TransportConnect address port) pm in
                 if connection = None then pm_call (AddrAttempt addr) pm
                 else
                   let p = peer_create_outbound (pw_peer env) (pw_process_nonce env) connection network_magic current_height
                         address port FEELER;
                       p = p\<lparr>p_id := peer_id\<rparr>;
                       p = p\<lparr>p_local_nonce := local_nonce\<rparr>;
                       (added, pm) = add_peer_with_id (pw_peer env) peer_id (Some p) None_permissions [] pm in
                   if \<not> added then pm_call (CloseTransport address port) pm else pm))"

fun ConnectToAnchors :: "NetworkAddress list \<Rightarrow> pm_env \<Rightarrow> u32 \<Rightarrow> int \<Rightarrow> u64 \<Rightarrow> PeerLifecycleManager \<Rightarrow> PeerLifecycleManager" where
  "ConnectToAnchors [] env network_magic chain_height local_nonce pm = pm"
| "ConnectToAnchors (addr # anchors) env network_magic chain_height local_nonce pm =
     (let pm = (case NetworkAddressToString (pe_ip (pw_peer env)) addr of
            None \<Rightarrow> pm
          | Some ip \<Rightarrow> pm\<lparr>ban_manager := AddToWhitelist ip (ban_manager pm)\<rparr>);
          (result, pm) = ConnectTo env addr NoBan network_magic chain_height local_nonce pm
      in ConnectToAnchors anchors env network_magic chain_height local_nonce pm)"

definition HandleInboundConnection :: "pm_env \<Rightarrow> bool \<Rightarrow> ((string \<times> u16) \<times> bool) option \<Rightarrow> u32 \<Rightarrow> int \<Rightarrow> u64 \<Rightarrow> u32
    \<Rightarrow> PeerLifecycleManager \<Rightarrow> PeerLifecycleManager" where
  "HandleInboundConnection env is_running connection network_magic current_height local_nonce perms pm =
     (let penv = pw_peer env in
      case connection of
        None \<Rightarrow> pm
      | Some ((remote_address, remote_port), is_open) \<Rightarrow>
          if \<not> is_running then pm
          else if IsBanned (pe_time penv) remote_address (ban_manager pm)
          then pm_call (CloseTransport remote_address remote_port) pm
          else if IsDiscouraged (pe_time penv) remote_address (ban_manager pm)
          then pm_call (CloseTransport remote_address remote_port) pm
          else if \<not> can_accept_inbound_from (pe_ip penv) remote_address pm
          then pm_call (CloseTransport remote_address remote_port) pm
          else
            let p = peer_create_inbound penv (pw_process_nonce env) connection network_magic current_height;
                p = p\<lparr>p_local_nonce := local_nonce\<rparr>;
                (peer_id, pm) = add_peer penv (Some p) perms [] pm in
            if peer_id < 0 then pm
            else if map_of (peer_states pm) peer_id \<noteq> None then on_peer peer_id (start penv is_open) pm
            else pm)"

text \<open>
  The handler works on the peer object alone.  \<open>None\<close> is the failed assertion, which stops the process
  in builds that keep assertions.
\<close>

definition HandleVerack :: "peer_env \<Rightarrow> peer \<Rightarrow> (bool \<times> peer) option" where
  "HandleVerack env p =
     (if \<not> is_connected p then Some (True, p)
      else if \<not> p_successfully_connected p then None
      else if \<not> p_is_inbound p \<and> \<not> is_feeler p \<and> \<not> p_getaddr_sent p
      then Some (True, (send_message env GetAddr p)\<lparr>p_getaddr_sent := True\<rparr>)
      else Some (True, p))"

text \<open>
  A feeler that completes its handshake runs into the assertion: \<open>handle_verack\<close> only posts the
  disconnect, so the peer is still connected and not marked as successfully connected when the
  message reaches \<open>HandleVerack\<close>.
\<close>

lemma feeler_verack_asserts:
  assumes "is_connected p" and "is_feeler p" and "\<not> p_successfully_connected p"
  shows "HandleVerack env (handle_verack env p) = None"
  using assms
  by (simp add: HandleVerack_def handle_verack_def is_connected_def post_disconnect_def act_def is_feeler_def)

text \<open>For every other connected peer the assertion holds.\<close>

lemma verack_no_assert:
  assumes "is_connected p" and "\<not> is_feeler p"
  shows "HandleVerack env (handle_verack env p) \<noteq> None"
  using assms
  by (auto simp: HandleVerack_def handle_verack_def schedule_ping_def start_inactivity_timeout_def Let_def)

end
