(* ===== verification/Peer_Handshake.thy ===== *)
theory Peer_Handshake
  imports Peer_Stream
begin

text \<open>
  A peer over its whole life: the operations the transport, the timers, the event loop and the managers call,
  in any order.  What is delivered to the managers respects the handshake, and a peer contributes at most one
  time sample.
\<close>

section \<open>Life of a peer\<close>

inductive peer_reachable :: "message_handler \<Rightarrow> peer \<Rightarrow> bool" for handler where
  create: "peer_reachable handler (new_Peer env process_nonce connection magic is_inbound start_height addr port conn_type)"
| start: "peer_reachable handler p \<Longrightarrow> peer_reachable handler (start env connection_open p)"
| receive: "peer_reachable handler p \<Longrightarrow> peer_reachable handler (on_transport_receive handler env data p)"
| lost: "peer_reachable handler p \<Longrightarrow> peer_reachable handler (on_transport_disconnect p)"
| disconnect: "peer_reachable handler p \<Longrightarrow> peer_reachable handler (do_disconnect p)"
| send: "peer_reachable handler p \<Longrightarrow> peer_reachable handler (send_message env m p)"
| handshake_timer: "peer_reachable handler p \<Longrightarrow> p_handshake_timer p \<noteq> None \<Longrightarrow> peer_reachable handler (handshake_timer_fired env p)"
| ping_timer: "peer_reachable handler p \<Longrightarrow> p_ping_timer p \<noteq> None \<Longrightarrow> peer_reachable handler (ping_timer_fired env p)"
| inactivity_timer: "peer_reachable handler p \<Longrightarrow> p_inactivity_timer p \<noteq> None \<Longrightarrow> peer_reachable handler (inactivity_timer_fired env p)"
| set_id: "peer_reachable handler p \<Longrightarrow> peer_reachable handler (p\<lparr>p_id := i\<rparr>)"
| set_nonce: "peer_reachable handler p \<Longrightarrow> peer_reachable handler (p\<lparr>p_local_nonce := n\<rparr>)"
| set_sync_started: "peer_reachable handler p \<Longrightarrow> peer_reachable handler (p\<lparr>p_sync_started := b\<rparr>)"
| mark_getaddr_sent: "peer_reachable handler p \<Longrightarrow> peer_reachable handler (p\<lparr>p_getaddr_sent := True\<rparr>)"
| block_inv_queue: "peer_reachable handler p \<Longrightarrow> peer_reachable handler (p\<lparr>p_blocks_for_inv_relay := q\<rparr>)"

section \<open>The order of deliveries\<close>

definition version_seen :: "peer_action list \<Rightarrow> bool" where
  "version_seen as \<longleftrightarrow> (\<exists>v. Deliver (Version v) \<in> set as \<and> 1 \<le> vm_version v)"

fun allowed :: "peer_action list \<Rightarrow> peer_action \<Rightarrow> bool" where
  "allowed before (Deliver (Version _)) = True"
| "allowed before (Deliver _) = version_seen before"
| "allowed before _ = True"

definition order_ok :: "peer_action list \<Rightarrow> bool" where
  "order_ok as \<longleftrightarrow> (\<forall>i < length as. allowed (take i as) (as ! i))"

lemma order_ok_snoc [simp]: "order_ok (as @ [a]) \<longleftrightarrow> order_ok as \<and> allowed as a"
  by (auto simp: order_ok_def less_Suc_eq nth_append)

lemma boring_allowed: "boring a \<Longrightarrow> allowed as a"
  by (cases a) simp_all

lemma version_seen_append [simp]: "version_seen as \<Longrightarrow> version_seen (as @ bs)"
  by (auto simp: version_seen_def)

lemma order_ok_boring: "list_all boring bs \<Longrightarrow> order_ok as \<Longrightarrow> order_ok (as @ bs)"
proof (induction bs rule: rev_induct)
  case (snoc b bs)
  then show ?case using boring_allowed order_ok_snoc [of "as @ bs" b] by simp
qed simp

fun is_sample :: "peer_action \<Rightarrow> bool" where
  "is_sample (SampleTime _ _) = True"
| "is_sample _ = False"

lemma boring_no_sample: "list_all boring bs \<Longrightarrow> filter is_sample bs = []"
proof (induction bs)
  case (Cons b bs)
  then show ?case by (cases b) simp_all
qed simp

definition handshake_inv :: "peer \<Rightarrow> bool" where
  "handshake_inv p \<longleftrightarrow> order_ok (p_actions p) \<and> (p_peer_version p \<noteq> 0 \<longrightarrow> version_seen (p_actions p)) \<and>
     (p_successfully_connected p \<longrightarrow> p_peer_version p \<noteq> 0 \<and> Deliver Verack \<in> set (p_actions p)) \<and>
     (p_state p = READY \<longrightarrow> p_successfully_connected p) \<and>
     length (filter is_sample (p_actions p)) \<le> (if p_is_inbound p \<or> p_peer_version p = 0 then 0 else 1)"

lemma handshake_inv_quiet:
  assumes "handshake_inv p" "quiet p p'"
  shows "handshake_inv p'"
proof -
  obtain as where as: "p_actions p' = p_actions p @ as" "list_all boring as" using assms(2) by (auto simp: quiet_def)
  show ?thesis
    using assms order_ok_boring [OF as(2)] boring_no_sample [OF as(2)] unfolding handshake_inv_def quiet_def as(1) by auto
qed

lemma handshake_inv_counted: "handshake_inv p \<Longrightarrow> handshake_inv (counted h payload p)"
  by (simp add: handshake_inv_def)

lemma deliver_accepted:
  assumes "order_ok (p_actions q)" "1 \<le> vm_version m" "p_peer_version q = vm_version m" "\<not> p_successfully_connected q" "p_state q \<noteq> READY"
    and s: "length (filter is_sample (p_actions q)) \<le> (if p_is_inbound q then 0 else 1)" and r: "quiet q r"
  shows "handshake_inv (act (Deliver (Version m)) r)"
proof -
  obtain as where as: "p_actions r = p_actions q @ as" "list_all boring as" using r by (auto simp: quiet_def)
  have f: "p_peer_version r = vm_version m" "\<not> p_successfully_connected r" "p_state r \<noteq> READY" "p_is_inbound r = p_is_inbound q"
    using r assms(3-5) by (auto simp: quiet_def)
  have "order_ok (p_actions r)" unfolding as(1) by (rule order_ok_boring [OF as(2) assms(1)])
  moreover have "filter is_sample (p_actions r) = filter is_sample (p_actions q)" unfolding as(1) by (simp add: boring_no_sample [OF as(2)])
  moreover have "version_seen (p_actions r @ [Deliver (Version m)])" using assms(2) by (auto simp: version_seen_def)
  ultimately show ?thesis using assms(2) s f by (simp add: handshake_inv_def act_def)
qed

lemma deliver_version_inv:
  assumes i: "handshake_inv p"
  shows "handshake_inv (act (Deliver (Version m)) (handle_version env m p))"
proof (cases rule: handle_version_cases [of p env m])
  case duplicate
  then show ?thesis using i by (simp add: handshake_inv_def act_def)
next
  case obsolete
  have "handshake_inv (post_disconnect p)" by (rule handshake_inv_quiet [OF i quiet_post])
  then show ?thesis using obsolete by (simp add: handshake_inv_def act_def)
next
  case (self q)
  show ?thesis unfolding self(6)
    by (rule deliver_accepted [OF _ self(2) _ _ _ _ quiet_post]) (use i self(1,3) in \<open>auto simp: handshake_inv_def\<close>)
next
  case (accepted q q' a off)
  define r where "r = (if p_is_inbound q' \<and> p_state q' = CONNECTED then send_version env q' else q')"
  have qr: "quiet q' (send_message env Verack r)" using quiet_trans [OF _ quiet_send, of q' r] by (simp add: r_def)
  have q': "p_actions q' = p_actions p @ (if p_is_inbound p then [] else [SampleTime a off])" "p_is_inbound q' = p_is_inbound p"
      "p_peer_version q' = vm_version m" "p_successfully_connected q' = p_successfully_connected p" "p_state q' = p_state p"
    by (simp_all add: accepted(3,4) act_def)
  show ?thesis unfolding accepted(5) r_def [symmetric]
    by (rule deliver_accepted [OF _ accepted(2) q'(3) _ _ _ qr]) (use i accepted(1) in \<open>auto simp: handshake_inv_def q'\<close>)
qed

lemma deliver_verack_inv:
  assumes i: "handshake_inv p" and v: "p_peer_version p \<noteq> 0"
  shows "handshake_inv (act (Deliver Verack) (handle_verack env p))"
proof (cases "p_successfully_connected p \<or> is_feeler p")
  case True
  then have "handshake_inv (handle_verack env p)" "p_peer_version (handle_verack env p) \<noteq> 0"
    using i v handshake_inv_quiet [OF i quiet_post] by (auto simp: handle_verack_def post_disconnect_def act_def)
  then show ?thesis by (simp add: handshake_inv_def act_def)
next
  case False
  let ?q = "p\<lparr>p_state := READY, p_successfully_connected := True, p_handshake_timer := None\<rparr>"
  have e: "handle_verack env p = start_inactivity_timeout env (schedule_ping env ?q)" using False by (simp add: handle_verack_def Let_def)
  show ?thesis using i v unfolding e
    by (simp add: handshake_inv_def act_def start_inactivity_timeout_def schedule_ping_def)
qed

lemma deliver_other_inv:
  "handshake_inv p \<Longrightarrow> p_peer_version p \<noteq> 0 \<Longrightarrow> handshake_inv (act (Deliver m) p)"
  by (cases m) (simp_all add: handshake_inv_def act_def)

lemma handle_parsed_inv:
  assumes h: "handler_ok handler" and i: "handshake_inv p" and v: "p_peer_version p = 0 \<longrightarrow> command msg = ''version''"
  shows "handshake_inv (handle_parsed handler env msg p)"
proof -
  have H: "handshake_inv (handler m q)" if "handshake_inv q" for m q
    using handshake_inv_quiet [OF that] h by (simp add: handler_ok_def)
  show ?thesis
    using v deliver_version_inv [OF i] deliver_verack_inv [OF i] deliver_other_inv [OF i]
      handshake_inv_quiet [OF i quiet_send] handshake_inv_quiet [OF i quiet_handle_pong]
    by (cases msg) (auto simp: handle_parsed_def intro: H)
qed

lemma process_message_inv:
  assumes "handler_ok handler" "handshake_inv p"
  shows "handshake_inv (process_message handler env h payload p)"
proof -
  have c: "handshake_inv (counted h payload p)" by (rule handshake_inv_counted [OF assms(2)])
  show ?thesis
    by (cases rule: process_message_cases [of p h handler env payload])
      (use c assms(1) in \<open>auto intro: handshake_inv_quiet [OF c] handle_parsed_inv\<close>)
qed

lemma process_loop_invariant:
  assumes "\<And>q. I q \<Longrightarrow> I (post_disconnect q)" "\<And>q h payload. I q \<Longrightarrow> I (process_message handler env h payload q)"
    "\<And>q k. I q \<Longrightarrow> I (q\<lparr>p_recv_buffer_offset := k\<rparr>)"
  shows "I p \<Longrightarrow> I (process_loop handler env buffer offset p)"
proof (induction "length buffer - offset" arbitrary: offset p rule: less_induct)
  case less
  show ?case
  proof (cases "length (drop offset buffer) < MESSAGE_HEADER_SIZE")
    case True
    then show ?thesis using less.prems by (simp add: process_loop_eq)
  next
    case l: False
    then have d: "length buffer - (offset + (MESSAGE_HEADER_SIZE + n)) < length buffer - offset" for n
      by (auto simp: MESSAGE_HEADER_SIZE_def)
    show ?thesis
    proof (cases "deserialize_header (take MESSAGE_HEADER_SIZE (drop offset buffer))")
      case None
      then show ?thesis using less.prems assms(1) l by (subst process_loop_eq) simp
    next
      case (Some h)
      let ?p = "take (unat (mh_length h)) (drop MESSAGE_HEADER_SIZE (drop offset buffer))"
      have "I (process_loop handler env buffer (offset + (MESSAGE_HEADER_SIZE + unat (mh_length h)))
          ((process_message handler env h ?p p)\<lparr>p_recv_buffer_offset := offset + (MESSAGE_HEADER_SIZE + unat (mh_length h))\<rparr>))"
        by (rule less.hyps [OF d]) (rule assms(3) [OF assms(2) [OF less.prems]])
      then show ?thesis using less.prems assms(1) unfolding process_loop_eq [of handler env buffer offset p] if_not_P [OF l] Some option.case
        by simp
    qed
  qed
qed

lemma receive_inv:
  assumes "handler_ok handler" "handshake_inv p"
  shows "handshake_inv (on_transport_receive handler env data p)"
proof -
  have "handshake_inv (buffered env data p)" using assms(2) by (simp add: handshake_inv_def buffered_def Let_def)
  then have "handshake_inv (process_received_data handler env (buffered env data p))"
    unfolding process_received_data_def
  proof (rule process_loop_invariant [rotated 3])
    show "handshake_inv (post_disconnect q)" if "handshake_inv q" for q by (rule handshake_inv_quiet [OF that quiet_post])
    show "handshake_inv (process_message handler env h payload q)" if "handshake_inv q" for q h payload
      by (rule process_message_inv [OF assms(1) that])
    show "handshake_inv (q\<lparr>p_recv_buffer_offset := k\<rparr>)" if "handshake_inv q" for q k using that by (simp add: handshake_inv_def)
  qed
  then show ?thesis using handshake_inv_quiet [OF assms(2) quiet_post] by (simp add: on_transport_receive_buffered)
qed

lemma reachable_handshake:
  assumes "handler_ok handler"
  shows "peer_reachable handler p \<Longrightarrow> handshake_inv p"
proof (induction rule: peer_reachable.induct)
  case (create env process_nonce connection magic is_inbound start_height addr port conn_type)
  then show ?case by (auto simp: handshake_inv_def new_Peer_def order_ok_def split: option.splits bool.splits)
qed (auto intro: receive_inv [OF assms] handshake_inv_quiet)

section \<open>Properties\<close>

text \<open>
  \<^bold>\<open>C5.\<close> The handshake comes first: in every state a peer can reach, every message delivered to the managers is a
  version message or was preceded by the delivery of a version message with an acceptable version number; a
  peer that counts as connected has sent both a version message and a verack; a ready peer counts as
  connected; and the peer has contributed no time sample if it is inbound and at most one otherwise.
\<close>

theorem handshake_comes_first:
  assumes "handler_ok handler" and "peer_reachable handler p"
  shows "(\<forall>xs m ys. p_actions p = xs @ Deliver m # ys \<longrightarrow> (\<exists>v. m = Version v) \<or> (\<exists>v. Deliver (Version v) \<in> set xs \<and> 1 \<le> vm_version v)) \<and>
    (p_successfully_connected p \<longrightarrow> Deliver Verack \<in> set (p_actions p) \<and> (\<exists>v. Deliver (Version v) \<in> set (p_actions p) \<and> 1 \<le> vm_version v)) \<and>
    (p_state p = READY \<longrightarrow> p_successfully_connected p) \<and>
    length (filter is_sample (p_actions p)) \<le> (if p_is_inbound p then 0 else 1)"
proof -
  note i = reachable_handshake [OF assms]
  have "(\<exists>v. m = Version v) \<or> (\<exists>v. Deliver (Version v) \<in> set xs \<and> 1 \<le> vm_version v)" if e: "p_actions p = xs @ Deliver m # ys" for xs m ys
  proof -
    have "order_ok (p_actions p)" using i by (simp add: handshake_inv_def)
    moreover have "length xs < length (p_actions p)" using e by simp
    ultimately have "allowed (take (length xs) (p_actions p)) (p_actions p ! length xs)" unfolding order_ok_def by blast
    then have "allowed xs (Deliver m)" using e by simp
    then show ?thesis by (cases m) (simp_all add: version_seen_def)
  qed
  then show ?thesis using i by (auto simp: handshake_inv_def version_seen_def split: if_splits)
qed

theorem handshake_comes_first_witness:
  "\<exists>p. peer_reachable (\<lambda>m p. p) p \<and> p_network_magic p = magic_REGTEST \<and> length (filter is_sample (p_actions p)) \<le> (if p_is_inbound p then 0 else 1)"
proof -
  have r: "peer_reachable (\<lambda>m p. p) (start sample_penv True sample_peer)"
    unfolding sample_peer_def by (rule peer_reachable.start [OF peer_reachable.create])
  have "p_network_magic (start sample_penv True sample_peer) = magic_REGTEST"
    using quiet_start [of sample_peer sample_penv True] sample_peer_fields(3) by (simp add: quiet_def)
  with handshake_comes_first [OF handler_ok_id r] r show ?thesis by blast
qed

section \<open>A disconnected peer that comes back\<close>

text \<open>
  The receive loop does not stop when the handler has disconnected the peer, and a verack is accepted in any
  state: after the disconnect that the managers make for a message sent too early, a verack in the same chunk
  makes the peer ready again, with no connection.
\<close>

lemma verack_revives_disconnected:
  assumes "p_connection p = Some r" "is_connected p" "\<not> p_successfully_connected p" "\<not> is_feeler p" "p_peer_version p \<noteq> 0"
    and "get_command h = ''verack''"
  shows "p_state (do_disconnect p) = DISCONNECTED"
    and "p_state (process_message (\<lambda>m p. p) env h [] (do_disconnect p)) = READY"
    and "p_connection (process_message (\<lambda>m p. p) env h [] (do_disconnect p)) = None"
proof -
  let ?d = "do_disconnect p"
  have d: "p_state ?d = DISCONNECTED" "p_connection ?d = None" "\<not> p_successfully_connected ?d" "\<not> is_feeler ?d" "p_peer_version ?d \<noteq> 0"
    using assms(1-5) by (simp_all add: do_disconnect_def cancel_all_timers_def on_disconnect_def act_def is_connected_def is_feeler_def Let_def)
  then show "p_state ?d = DISCONNECTED" by simp
  have "create_message ''verack'' = Some Verack" "deserialize Verack [] = (True, Verack)" by (simp_all add: create_message_def deserialize_def)
  then have e: "process_message (\<lambda>m p. p) env h [] ?d = act (Deliver Verack) (handle_verack env (counted h [] ?d))"
    using assms(6) d(5) by (simp add: process_message_def counted_def act_def Let_def)
  show "p_state (process_message (\<lambda>m p. p) env h [] ?d) = READY" "p_connection (process_message (\<lambda>m p. p) env h [] ?d) = None"
    unfolding e using d(2-4)
    by (simp_all add: handle_verack_def is_feeler_def act_def start_inactivity_timeout_def schedule_ping_def counted_def Let_def)
qed

end
