(* ===== verification/Peer_Limits.thy ===== *)
theory Peer_Limits
  imports Peer_Manager Peer_Handshake
begin

text \<open>
  Invariants of the peer table over all interleavings of connection attempts, inbound connections,
  peer events, reports and maintenance: the connection limits, the identity of peers, the discouragement flag.
\<close>

section \<open>What a peer never changes\<close>

text \<open>
  The events of a peer leave its id, direction, type and target alone; its connection is kept or dropped.
\<close>

definition keeps :: "peer \<Rightarrow> peer \<Rightarrow> bool" where
  "keeps p p' \<longleftrightarrow> p_id p' = p_id p \<and> p_is_inbound p' = p_is_inbound p \<and> p_connection_type p' = p_connection_type p
     \<and> p_target_address p' = p_target_address p \<and> p_target_port p' = p_target_port p
     \<and> (p_connection p' = p_connection p \<or> p_connection p' = None)"

lemma keeps_refl [simp]: "keeps p p"
  by (simp add: keeps_def)

lemma keeps_trans: "keeps p p' \<Longrightarrow> keeps p' p'' \<Longrightarrow> keeps p p''"
  by (auto simp: keeps_def)

lemma keeps_basic [simp]:
  "keeps p (act a p)" "keeps p (post_disconnect p)" "keeps p (do_disconnect p)" "keeps p (on_transport_disconnect p)"
  "keeps p (send_message env m p)" "keeps p (start_handshake_timeout env p)" "keeps p (start_inactivity_timeout env p)"
  "keeps p (schedule_ping env p)" "keeps p (handle_pong env n p)" "keeps p (note_unknown_command env p)"
  "keeps p (p\<lparr>p_recv_buffer_offset := n'\<rparr>)" "keeps p (p\<lparr>p_stats := s\<rparr>)" "keeps p (p\<lparr>p_recv_buffer := b\<rparr>)"
  "keeps p (p\<lparr>p_handshake_timer := t\<rparr>)" "keeps p (p\<lparr>p_inactivity_timer := t\<rparr>)" "keeps p (p\<lparr>p_ping_timer := t\<rparr>)"
  "keeps p (p\<lparr>p_state := x\<rparr>)" "keeps p (p\<lparr>p_started := y\<rparr>)" "keeps p (p\<lparr>p_sync_started := y\<rparr>)" "keeps p (p\<lparr>p_getaddr_sent := y\<rparr>)"
  by (auto simp: keeps_def act_def post_disconnect_def do_disconnect_def on_transport_disconnect_def cancel_all_timers_def
      on_disconnect_def send_message_def start_handshake_timeout_def start_inactivity_timeout_def schedule_ping_def
      handle_pong_def note_unknown_command_def Let_def split: option.splits)

lemma keeps_send_version [simp]: "keeps p (send_version env p)"
  unfolding send_version_def Let_def by (rule keeps_trans [OF keeps_basic(5) keeps_basic(17)])

lemma keeps_send_ping [simp]: "keeps p (send_ping env p)"
proof -
  have "keeps p (p\<lparr>p_last_ping_nonce := pe_random env, p_ping_sent_time := pe_steady env\<rparr>)" by (simp add: keeps_def)
  then show ?thesis unfolding send_ping_def Let_def by (rule keeps_trans) simp
qed

lemma keeps_fired [simp]:
  "keeps p (handshake_timer_fired env p)" "keeps p (inactivity_timer_fired env p)" "keeps p (ping_timer_fired env p)"
proof -
  have d: "keeps p (do_disconnect q)" if "keeps p q" for q using keeps_trans [OF that keeps_basic(3)] .
  show "keeps p (handshake_timer_fired env p)" by (simp add: handshake_timer_fired_def Let_def d)
  have "keeps p (start_inactivity_timeout env (p\<lparr>p_inactivity_timer := None\<rparr>))"
    by (rule keeps_trans [OF keeps_basic(15) keeps_basic(7)])
  then show "keeps p (inactivity_timer_fired env p)" by (simp add: inactivity_timer_fired_def Let_def d)
  let ?q = "p\<lparr>p_ping_timer := None\<rparr>"
  have "keeps p (schedule_ping env ?q)" by (rule keeps_trans [OF keeps_basic(16) keeps_basic(8)])
  moreover have "keeps p (schedule_ping env (send_ping env ?q))"
    by (rule keeps_trans [OF keeps_trans [OF keeps_basic(16) keeps_send_ping] keeps_basic(8)])
  ultimately show "keeps p (ping_timer_fired env p)" by (simp add: ping_timer_fired_def Let_def d)
qed

lemma keeps_start [simp]: "keeps p (start env is_open p)"
proof (cases "p_started p \<or> (p_state p \<noteq> CONNECTING \<and> p_state p \<noteq> CONNECTED) \<or> p_state p = CONNECTING \<and> \<not> (p_connection p \<noteq> None \<and> is_open)")
  case True
  then show ?thesis by (auto simp: start_def Let_def)
next
  case False
  let ?s = "(p_stats p)\<lparr>st_connected_time := to_seconds (pe_steady env), st_last_send := to_seconds (pe_steady env), st_last_recv := to_seconds (pe_steady env)\<rparr>"
  let ?q = "p\<lparr>p_started := True, p_state := CONNECTED, p_stats := ?s\<rparr>"
  have q: "keeps p ?q" by (simp add: keeps_def)
  have "start env is_open p = (if p_is_inbound p then start_handshake_timeout env ?q else start_handshake_timeout env (send_version env ?q))"
    using False by (auto simp: start_def Let_def)
  moreover have "keeps ?q (start_handshake_timeout env (send_version env ?q))" by (rule keeps_trans [OF keeps_send_version keeps_basic(6)])
  ultimately show ?thesis using keeps_trans [OF q keeps_basic(6)] keeps_trans [OF q] by (simp only: if_split) metis
qed

lemma keeps_version_fields:
  "keeps p (p\<lparr>p_peer_version := v, p_peer_services := sv, p_peer_start_height := h, p_peer_user_agent := u, p_peer_nonce := n\<rparr>)"
  by (simp add: keeps_def)

lemma keeps_handle_version [simp]: "keeps p (handle_version env m p)"
proof (cases rule: handle_version_cases [of p env m])
  case (self q)
  then show ?thesis using keeps_trans [OF keeps_version_fields keeps_basic(2)] by simp
next
  case (accepted q q' a off)
  have "keeps p q" by (simp add: accepted(3) keeps_version_fields)
  moreover have "keeps q q'" by (simp add: accepted(4))
  moreover have "keeps q' (if p_is_inbound q' \<and> p_state q' = CONNECTED then send_version env q' else q')" by simp
  ultimately show ?thesis unfolding accepted(5) using keeps_basic(5) keeps_trans by blast
qed simp_all

lemma keeps_handle_verack [simp]: "keeps p (handle_verack env p)"
proof -
  let ?q = "p\<lparr>p_state := READY, p_successfully_connected := True, p_handshake_timer := None\<rparr>"
  have "keeps p ?q" by (simp add: keeps_def)
  then have "keeps p (start_inactivity_timeout env (schedule_ping env ?q))"
    by (rule keeps_trans [OF _ keeps_trans [OF keeps_basic(8) keeps_basic(7)]])
  then show ?thesis by (simp add: handle_verack_def Let_def)
qed

lemma keeps_counted [simp]: "keeps p (counted h payload p)"
  unfolding counted_def Let_def by (rule keeps_trans [OF keeps_basic(1) keeps_basic(12)])

lemma keeps_receive:
  assumes handler: "\<And>m p. keeps p (handler m p)"
  shows "keeps p (on_transport_receive handler env data p)"
proof -
  have deliver: "keeps p (handler m (act a q))" if "keeps p q" for p q m a
    by (rule keeps_trans [OF keeps_trans [OF that keeps_basic(1)] handler])
  have parsed: "keeps p (handle_parsed handler env m p)" for p m
    by (cases m) (simp_all add: handle_parsed_def deliver)
  have message: "keeps p (process_message handler env h payload p)" for p h payload
    by (cases rule: process_message_cases [of p h handler env payload])
      (simp_all add: keeps_trans [OF keeps_counted keeps_basic(2)] keeps_trans [OF keeps_counted keeps_basic(10)]
        keeps_trans [OF keeps_counted parsed])
  have loop: "keeps p (process_loop handler env buffer offset q)" if "keeps p q" for p q buffer offset
    using that
    by (rule process_loop_invariant [of "keeps p", rotated -1])
      (erule keeps_trans [OF _ keeps_basic(2)] keeps_trans [OF _ message] keeps_trans [OF _ keeps_basic(11)])+
  let ?b = "\<lambda>p. p\<lparr>p_recv_buffer := p_recv_buffer p @ data\<rparr>"
  let ?c = "\<lambda>p. p\<lparr>p_stats := (p_stats p)\<lparr>st_bytes_received := st_bytes_received (p_stats p) + of_nat (length data),
      st_last_recv := to_seconds (pe_steady env)\<rparr>\<rparr>"
  have compact: "keeps p (if c then p\<lparr>p_recv_buffer := x, p_recv_buffer_offset := 0\<rparr> else p)" for c x
    by (simp add: keeps_def)
  have "keeps p (?c (?b (if c then p\<lparr>p_recv_buffer := x, p_recv_buffer_offset := 0\<rparr> else p)))" for c x
    by (rule keeps_trans [OF keeps_trans [OF compact keeps_basic(13)] keeps_basic(12)])
  then show ?thesis
    unfolding on_transport_receive_def Let_def process_received_data_def by (simp only: loop keeps_basic(2) split: if_split) simp
qed

section \<open>Counting over the table\<close>

definition count_peers :: "(peer \<Rightarrow> bool) \<Rightarrow> PeerLifecycleManager \<Rightarrow> nat" where
  "count_peers Q pm = length (filter Q (all_peers pm))"

lemma counts:
  "inbound_count pm = count_peers p_is_inbound pm"
  "outbound_nonfeeler pm = count_peers (\<lambda>p. \<not> p_is_inbound p \<and> \<not> is_feeler p) pm"
  "same_ip_inbound lib a pm = count_peers (\<lambda>p. p_is_inbound p \<and> normalize_ip_string lib (peer_address p) = a) pm"
  by (simp_all add: count_peers_def inbound_count_def outbound_nonfeeler_def same_ip_inbound_def)

definition entry_count :: "(peer \<Rightarrow> bool) \<Rightarrow> peer_states \<Rightarrow> nat" where
  "entry_count Q m = length (filter Q (map (ps_peer \<circ> snd) m))"

lemma count_entry: "count_peers Q pm = entry_count Q (peer_states pm)"
  by (simp add: count_peers_def entry_count_def all_peers_def)

lemma entry_count_new:
  "map_of m k = None \<Longrightarrow> entry_count Q (om_update k st m) = entry_count Q m + (if Q (ps_peer st) then 1 else 0)"
  unfolding entry_count_def by (induction k st m rule: om_update.induct) (auto split: if_splits)

lemma entry_count_erase_le: "entry_count Q (om_erase k m) \<le> entry_count Q m"
  unfolding entry_count_def om_erase_def by (induction m) auto

lemma entry_count_erase:
  "om_invar m \<Longrightarrow> map_of m k = Some st \<Longrightarrow>
     entry_count Q m = entry_count Q (om_erase k m) + (if Q (ps_peer st) then 1 else 0)"
proof (induction m)
  case (Cons x m)
  obtain i s where x: "x = (i, s)" by force
  from Cons.prems have m: "om_invar m" and fresh: "k = i \<Longrightarrow> om_erase k m = m"
    by (auto simp: om_invar_def x om_erase_def filter_id_conv)
  show ?case
  proof (cases "k = i")
    case True
    then show ?thesis using Cons.prems(2) fresh by (simp add: x entry_count_def om_erase_def)
  next
    case False
    then show ?thesis using Cons.IH [OF m] Cons.prems(2) by (simp add: x entry_count_def om_erase_def)
  qed
qed simp

lemma entry_count_Modify_le:
  assumes "\<And>st. map_of m k = Some st \<Longrightarrow> Q (ps_peer (f st)) \<Longrightarrow> Q (ps_peer st)" and "om_invar m"
  shows "entry_count Q (Modify k f m) \<le> entry_count Q m"
proof (cases "map_of m k")
  case (Some st)
  have "entry_count Q (om_update k v (om_erase k m)) = entry_count Q (om_erase k m) + (if Q (ps_peer v) then 1 else 0)" for v
    by (rule entry_count_new) simp
  moreover have "om_update k v (om_erase k m) = om_update k v m" for v
    using assms(2)
  proof (induction k v m rule: om_update.induct)
    case (2 k v k' v' m)
    from 2(2) have m: "om_invar m" and head: "\<forall>x \<in> set m. k' < fst x" by (auto simp: om_invar_def)
    have "om_erase k m = m" if "k \<le> k'" using head that by (force simp: om_erase_def filter_id_conv)
    moreover have "om_update k v m = (k, v) # m" if "k = k'" using head that by (cases m) auto
    ultimately show ?case using 2(1) m by (auto simp: om_erase_def)
  qed (simp add: om_erase_def)
  ultimately show ?thesis
    using entry_count_erase [OF assms(2) Some, of Q] assms(1) [OF Some] Some by (simp add: Modify_def)
qed (simp add: Modify_def)

section \<open>The invariant\<close>

text \<open>The address of an inbound peer is the remote end of its connection, for as long as the object lives.\<close>

definition addr_fixed :: "peer \<Rightarrow> bool" where
  "addr_fixed p \<longleftrightarrow> (p_is_inbound p \<longrightarrow> p_target_address p \<noteq> [] \<and>
     (\<forall>a port. p_connection p = Some (a, port) \<longrightarrow> a = p_target_address p))"

lemma addr_fixed_keeps: "addr_fixed p \<Longrightarrow> keeps p p' \<Longrightarrow> addr_fixed p'"
  by (auto simp: addr_fixed_def keeps_def)

lemma addr_fixed_address: "addr_fixed p \<Longrightarrow> p_is_inbound p \<Longrightarrow> peer_address p = p_target_address p"
  by (auto simp: addr_fixed_def peer_address_def split: option.split)

definition peer_ok :: "int \<Rightarrow> int \<Rightarrow> PerPeerState \<Rightarrow> bool" where
  "peer_ok next i st \<longleftrightarrow> 0 \<le> i \<and> i < next \<and> p_id (ps_peer st) = i \<and> mb_ok (misbehavior st) \<and> addr_fixed (ps_peer st)"

lemma peer_ok_keeps:
  assumes "peer_ok n i st" and "keeps (ps_peer st) (ps_peer st')" and "mb_ok (misbehavior st) \<longrightarrow> mb_ok (misbehavior st')"
  shows "peer_ok n i st'"
  using assms addr_fixed_keeps [OF _ assms(2)] by (simp add: peer_ok_def) (simp add: keeps_def)

definition limits_ok :: "ip_lib \<Rightarrow> PeerLifecycleManager \<Rightarrow> bool" where
  "limits_ok lib pm \<longleftrightarrow> inbound_count pm \<le> max_inbound_peers (pm_config pm)
     \<and> outbound_nonfeeler pm \<le> max_outbound_peers (pm_config pm)
     \<and> (\<forall>ip. same_ip_inbound lib ip pm \<le> MAX_INBOUND_PER_IP)"

definition pm_inv :: "ip_lib \<Rightarrow> PeerManagerConfig \<Rightarrow> PeerLifecycleManager \<Rightarrow> bool" where
  "pm_inv lib c pm \<longleftrightarrow> pm_config pm = c \<and> om_invar (peer_states pm) \<and> 0 \<le> next_peer_id pm
     \<and> (\<forall>i st. map_of (peer_states pm) i = Some st \<longrightarrow> peer_ok (next_peer_id pm) i st) \<and> limits_ok lib pm"

lemma limits_le:
  assumes "limits_ok lib pm" and "pm_config pm' = pm_config pm"
    and "count_peers p_is_inbound pm' \<le> count_peers p_is_inbound pm"
    and "count_peers (\<lambda>p. \<not> p_is_inbound p \<and> \<not> is_feeler p) pm' \<le> count_peers (\<lambda>p. \<not> p_is_inbound p \<and> \<not> is_feeler p) pm"
    and "\<And>a. count_peers (\<lambda>p. p_is_inbound p \<and> normalize_ip_string lib (peer_address p) = a) pm'
        \<le> count_peers (\<lambda>p. p_is_inbound p \<and> normalize_ip_string lib (peer_address p) = a) pm"
  shows "limits_ok lib pm'"
  using assms(1,3,4,5) unfolding limits_ok_def counts assms(2) by (blast intro: order_trans)

lemma pm_inv_same:
  assumes "pm_inv lib c pm" and "pm_config pm' = pm_config pm" and "peer_states pm' = peer_states pm"
    and "next_peer_id pm \<le> next_peer_id pm'"
  shows "pm_inv lib c pm'"
proof -
  have "count_peers Q pm' = count_peers Q pm" for Q by (simp add: count_entry assms(3))
  then have "limits_ok lib pm'" using assms(1,2) by (auto intro!: limits_le [of lib pm] simp: pm_inv_def)
  then show ?thesis using assms by (fastforce simp: pm_inv_def peer_ok_def)
qed

lemma pm_inv_call [simp]: "pm_inv lib c (pm_call cl pm) = pm_inv lib c pm"
proof -
  have "pm_inv lib c pm" if "pm_inv lib c (pm_call cl pm)" by (rule pm_inv_same [OF that]) (simp_all add: pm_call_def)
  moreover have "pm_inv lib c (pm_call cl pm)" if "pm_inv lib c pm" by (rule pm_inv_same [OF that]) (simp_all add: pm_call_def)
  ultimately show ?thesis by blast
qed

lemma pm_inv_Modify:
  assumes inv: "pm_inv lib c pm"
    and f: "\<And>st. map_of (peer_states pm) k = Some st \<Longrightarrow>
      keeps (ps_peer st) (ps_peer (f st)) \<and> (mb_ok (misbehavior st) \<longrightarrow> mb_ok (misbehavior (f st)))"
  shows "pm_inv lib c (pm\<lparr>peer_states := Modify k f (peer_states pm)\<rparr>)"
proof -
  let ?pm = "pm\<lparr>peer_states := Modify k f (peer_states pm)\<rparr>"
  have om: "om_invar (peer_states pm)" using inv by (simp add: pm_inv_def)
  have addr: "addr_fixed (ps_peer st)" if "map_of (peer_states pm) k = Some st" for st
    using inv that by (auto simp: pm_inv_def peer_ok_def)
  have le: "entry_count Q (Modify k f (peer_states pm)) \<le> entry_count Q (peer_states pm)"
    if "\<And>p p'. addr_fixed p \<Longrightarrow> keeps p p' \<Longrightarrow> Q p' \<Longrightarrow> Q p" for Q
    by (rule entry_count_Modify_le [OF _ om]) (use f that addr in blast)
  have "limits_ok lib ?pm"
  proof (rule limits_le [of lib pm])
    show "limits_ok lib pm" using inv by (simp add: pm_inv_def)
    have "normalize_ip_string lib (peer_address p) = normalize_ip_string lib (peer_address p')"
      if "addr_fixed p" "keeps p p'" "p_is_inbound p'" for p p'
    proof -
      have "p_is_inbound p" using that by (simp add: keeps_def)
      then have "peer_address p = p_target_address p" using addr_fixed_address that(1) by blast
      moreover have "peer_address p' = p_target_address p'" using addr_fixed_address addr_fixed_keeps that by blast
      ultimately show ?thesis using that(2) by (simp add: keeps_def)
    qed
    then show "count_peers (\<lambda>p. p_is_inbound p \<and> normalize_ip_string lib (peer_address p) = a) ?pm
        \<le> count_peers (\<lambda>p. p_is_inbound p \<and> normalize_ip_string lib (peer_address p) = a) pm" for a
      unfolding count_entry by (simp, intro le) (auto simp: keeps_def)
    show "count_peers p_is_inbound ?pm \<le> count_peers p_is_inbound pm"
      unfolding count_entry by (simp, intro le) (simp add: keeps_def)
    show "count_peers (\<lambda>p. \<not> p_is_inbound p \<and> \<not> is_feeler p) ?pm \<le> count_peers (\<lambda>p. \<not> p_is_inbound p \<and> \<not> is_feeler p) pm"
      unfolding count_entry by (simp, intro le) (simp add: keeps_def is_feeler_def)
  qed simp
  moreover have "peer_ok (next_peer_id ?pm) i st" if "map_of (peer_states ?pm) i = Some st" for i st
    using that f inv by (auto simp: map_of_Modify pm_inv_def intro: peer_ok_keeps split: if_splits)
  ultimately show ?thesis using inv om by (auto simp: pm_inv_def om_invar_Modify)
qed

lemma om_erase_absent: "map_of m k = None \<Longrightarrow> om_erase k m = m"
  by (induction m) (auto simp: om_erase_def split: if_splits)

lemma remove_peer_frame [simp]:
  "pm_config (remove_peer env i pm) = pm_config pm" "next_peer_id (remove_peer env i pm) = next_peer_id pm"
  "peer_states (remove_peer env i pm) = om_erase i (peer_states pm)"
  "stopping_all (remove_peer env i pm) = stopping_all pm" "shutting_down (remove_peer env i pm) = shutting_down pm"
  "has_discovery (remove_peer env i pm) = has_discovery pm"
  by (auto simp: remove_peer_def pm_call_def Let_def om_erase_absent split: option.split)

lemma pm_inv_erase:
  assumes "pm_inv lib c pm" and "pm_config pm' = pm_config pm" and "peer_states pm' = om_erase k (peer_states pm)"
    and "next_peer_id pm' = next_peer_id pm"
  shows "pm_inv lib c pm'"
proof -
  have "limits_ok lib pm'"
    using assms(1) by (auto intro!: limits_le [of lib pm] simp: pm_inv_def assms count_entry entry_count_erase_le)
  then show ?thesis using assms by (auto simp: pm_inv_def split: if_splits)
qed

lemma pm_inv_remove_peer: "pm_inv lib c pm \<Longrightarrow> pm_inv lib c (remove_peer env i pm)"
  by (erule pm_inv_erase) simp_all

lemma evict_frame:
  "pm_config (snd (evict_inbound_peer env pm)) = pm_config pm" "next_peer_id (snd (evict_inbound_peer env pm)) = next_peer_id pm"
  "stopping_all (snd (evict_inbound_peer env pm)) = stopping_all pm"
  by (simp_all add: evict_inbound_peer_def Let_def)

lemma pm_inv_evict: "pm_inv lib c pm \<Longrightarrow> pm_inv lib c (snd (evict_inbound_peer env pm))"
  by (simp add: evict_inbound_peer_def Let_def pm_inv_remove_peer)

lemma make_room_inv:
  assumes "pm_inv lib c pm" and "make_room env p pm = (room, pm')"
  shows "pm_inv lib c pm' \<and> pm_config pm' = pm_config pm \<and> next_peer_id pm' = next_peer_id pm \<and> stopping_all pm' = stopping_all pm
    \<and> set (map fst (peer_states pm')) \<subseteq> set (map fst (peer_states pm))"
proof -
  obtain e pm1 where e: "evict_inbound_peer env pm = (e, pm1)" by force
  have "pm_inv lib c pm1" "pm_config pm1 = pm_config pm" "next_peer_id pm1 = next_peer_id pm" "stopping_all pm1 = stopping_all pm"
    using pm_inv_evict [OF assms(1), of env] evict_frame [of env pm] by (simp_all add: e)
  moreover have "set (map fst (peer_states pm1)) \<subseteq> set (map fst (peer_states pm))"
    using e by (auto simp: evict_inbound_peer_def Let_def om_erase_def split: if_splits)
  ultimately show ?thesis using assms by (auto simp: make_room_def e Let_def split: if_splits)
qed

lemma make_room_True:
  assumes "make_room env p pm = (True, pm')" and "limits_ok (pe_ip env) pm'"
  shows "p_is_inbound p \<Longrightarrow> inbound_count pm' < max_inbound_peers (pm_config pm')"
    "p_is_inbound p \<Longrightarrow> same_ip_inbound (pe_ip env) (normalize_ip_string (pe_ip env) (peer_address p)) pm' < MAX_INBOUND_PER_IP"
    "\<not> p_is_inbound p \<Longrightarrow> \<not> is_feeler p \<Longrightarrow> outbound_nonfeeler pm' < max_outbound_peers (pm_config pm')"
  using assms by (auto simp: make_room_def Let_def split: if_splits prod.splits)

lemma pm_inv_insert:
  assumes inv: "pm_inv (pe_ip env) c pm" and room: "make_room env p pm0 = (True, pm1)" and inv1: "pm_inv (pe_ip env) c pm1"
    and pm: "peer_states pm = peer_states pm1" "pm_config pm = pm_config pm1"
    and new: "map_of (peer_states pm) i = None" and i: "0 \<le> i" "i < next_peer_id pm"
    and q: "q = p\<lparr>p_id := i\<rparr>" and addr: "addr_fixed p"
  shows "pm_inv (pe_ip env) c (insert_peer env i perms address q pm)"
proof -
  define a where "a = (if address = [] then peer_address q else address)"
  define st where "st = (new_PerPeerState q (pe_steady env))
    \<lparr>misbehavior := (misbehavior (new_PerPeerState q (pe_steady env)))\<lparr>permissions := perms, mb_address := a\<rparr>\<rparr>"
  define pm' where "pm' = pm\<lparr>peer_states := om_update i st (peer_states pm)\<rparr>"
  have ins: "pm_inv (pe_ip env) c (insert_peer env i perms address q pm) = pm_inv (pe_ip env) c pm'"
    by (simp add: insert_peer_def pm'_def st_def a_def Let_def)
  have st: "ps_peer st = q" "misbehavior st = new_PeerMisbehaviorData\<lparr>permissions := perms, mb_address := a\<rparr>"
    by (simp_all add: st_def new_PerPeerState_def)
  have same: "p_is_inbound q = p_is_inbound p" "is_feeler q = is_feeler p" "peer_address q = peer_address p" "addr_fixed q" "p_id q = i"
    using addr by (simp_all add: q is_feeler_def peer_address_def addr_fixed_def split: option.split)
  have count: "count_peers Q pm' = count_peers Q pm1 + (if Q q then 1 else 0)" for Q
    using entry_count_new [OF new, of Q st] by (simp add: count_entry pm'_def st pm)
  have lim: "limits_ok (pe_ip env) pm1" using inv1 by (simp add: pm_inv_def)
  have "limits_ok (pe_ip env) pm'"
    using make_room_True [OF room lim] lim unfolding limits_ok_def counts count
    by (auto simp: same pm'_def pm)
  moreover have "peer_ok (next_peer_id pm) i st"
    using i same(4,5) mb_ok_new [of a perms] by (simp add: peer_ok_def st)
  ultimately have "pm_inv (pe_ip env) c pm'" using inv by (auto simp: pm_inv_def pm'_def)
  then show ?thesis by (simp only: ins)
qed

lemma fresh_id: "pm_inv lib c pm \<Longrightarrow> next_peer_id pm \<le> i \<Longrightarrow> map_of (peer_states pm) i = None"
  by (rule ccontr) (fastforce simp: pm_inv_def peer_ok_def)

lemma make_room_absent:
  "pm_inv lib c pm \<Longrightarrow> make_room env p pm = (b, pm') \<Longrightarrow> map_of (peer_states pm) i = None \<Longrightarrow> map_of (peer_states pm') i = None"
  using make_room_inv [of lib c pm env p b pm'] by (auto simp: map_of_eq_None_iff)

lemma add_peer_inv:
  assumes inv: "pm_inv (pe_ip env) c pm" and addr: "addr_fixed p"
  shows "pm_inv (pe_ip env) c (snd (add_peer env (Some p) perms address pm))"
proof (cases "stopping_all pm \<or> banned_or_discouraged env perms address p pm")
  case True
  then show ?thesis using inv by (auto simp: add_peer_def)
next
  case False
  obtain b pm1 where room: "make_room env p pm = (b, pm1)" by force
  from make_room_inv [OF inv room] have inv1: "pm_inv (pe_ip env) c pm1" by blast
  show ?thesis
  proof (cases b)
    case True
    let ?pm = "pm1\<lparr>next_peer_id := next_peer_id pm1 + 1\<rparr>"
    have "pm_inv (pe_ip env) c ?pm" by (rule pm_inv_same [OF inv1]) simp_all
    moreover have "map_of (peer_states ?pm) (next_peer_id pm1) = None" using fresh_id [OF inv1, of "next_peer_id pm1"] by simp
    moreover have "0 \<le> next_peer_id pm1" using inv1 by (simp add: pm_inv_def)
    ultimately have "pm_inv (pe_ip env) c (insert_peer env (next_peer_id pm1) perms address (p\<lparr>p_id := next_peer_id pm1\<rparr>) ?pm)"
      using room True inv1 addr by (intro pm_inv_insert [of env c ?pm p pm pm1]) simp_all
    then show ?thesis using False room True by (simp add: add_peer_def allocate_peer_id_def)
  next
    case f: False
    then show ?thesis using False room inv1 by (simp add: add_peer_def)
  qed
qed

lemma add_peer_with_id_inv:
  assumes inv: "pm_inv (pe_ip env) c pm" and addr: "addr_fixed p" and i: "0 \<le> i" "i < next_peer_id pm"
  shows "pm_inv (pe_ip env) c (snd (add_peer_with_id env i (Some p) perms address pm))"
proof (cases "p_id p \<noteq> i \<or> stopping_all pm \<or> map_of (peer_states pm) i \<noteq> None \<or> banned_or_discouraged env perms address p pm")
  case True
  then show ?thesis using inv by (auto simp: add_peer_with_id_def)
next
  case False
  obtain b pm1 where room: "make_room env p pm = (b, pm1)" by force
  from make_room_inv [OF inv room] have inv1: "pm_inv (pe_ip env) c pm1" and n: "next_peer_id pm1 = next_peer_id pm" by blast+
  have new: "map_of (peer_states pm1) i = None" using make_room_absent [OF inv room] False by simp
  show ?thesis
  proof (cases b)
    case True
    have "p = p\<lparr>p_id := i\<rparr>" using False by (cases p) simp
    then have "pm_inv (pe_ip env) c (insert_peer env i perms address p pm1)"
      using room True inv1 addr new i n by (intro pm_inv_insert [of env c pm1 p pm pm1]) simp_all
    then show ?thesis using False room True by (simp add: add_peer_with_id_def)
  next
    case f: False
    then show ?thesis using False room inv1 by (simp add: add_peer_with_id_def)
  qed
qed

lemma pm_inv_allocate:
  assumes "pm_inv lib c pm"
  shows "pm_inv lib c (snd (allocate_peer_id pm))" "fst (allocate_peer_id pm) < next_peer_id (snd (allocate_peer_id pm))"
    "0 \<le> fst (allocate_peer_id pm)"
  using assms by (auto simp: allocate_peer_id_def intro: pm_inv_same [of lib c pm]) (simp add: pm_inv_def)

lemma ConnectTo_inv:
  assumes inv: "pm_inv (pe_ip (pw_peer env)) c pm"
  shows "pm_inv (pe_ip (pw_peer env)) c (snd (ConnectTo env addr perms magic height nonce pm))"
proof -
  obtain i pm1 where alloc: "allocate_peer_id pm = (i, pm1)" by force
  note a = pm_inv_allocate [OF inv, unfolded alloc fst_conv snd_conv]
  have added: "pm_inv (pe_ip (pw_peer env)) c pm2"
    if "add_peer_with_id (pw_peer env) i (Some p) perms address (pm_call cl pm1) = (b, pm2)" "\<not> p_is_inbound p" for p address cl b pm2
    using add_peer_with_id_inv [of "pw_peer env" _ "pm_call cl pm1" p i perms address] a that
    by (simp add: addr_fixed_def pm_call_def [of cl pm1, symmetric]) (simp add: pm_call_def)
  show ?thesis
    unfolding ConnectTo_def Let_def alloc using inv a
    by (auto split: option.split prod.split intro: added simp: peer_create_outbound_def new_Peer_def)
qed

lemma on_peer_inv: "pm_inv lib c pm \<Longrightarrow> (\<And>p. keeps p (f p)) \<Longrightarrow> pm_inv lib c (on_peer i f pm)"
  unfolding on_peer_def by (erule pm_inv_Modify) simp

lemma connect_completed_inv:
  "pm_inv (pe_ip (pw_peer env)) c pm \<Longrightarrow> pm_inv (pe_ip (pw_peer env)) c (connect_completed env i addr success is_open pm)"
  by (auto simp: connect_completed_def intro: on_peer_inv pm_inv_remove_peer split: option.split)

lemma attempt_one_inv:
  assumes "pm_inv (pe_ip (pw_peer env)) c pm"
  shows "pm_inv (pe_ip (pw_peer env)) c (attempt_one env magic height nonce addr pm)"
proof -
  have "pm_inv (pe_ip (pw_peer env)) c pm2"
    if "ConnectTo env addr None_permissions magic height nonce (pm_call cl pm) = (r, pm2)" for cl r pm2
    using ConnectTo_inv [of env _ "pm_call cl pm" addr None_permissions magic height nonce] assms that by simp
  then show ?thesis using assms by (auto simp: attempt_one_def Let_def split: option.split prod.split)
qed

lemma attempt_loop_inv:
  "pm_inv (pe_ip (pw_peer env)) c pm \<Longrightarrow> pm_inv (pe_ip (pw_peer env)) c (attempt_loop n env magic height nonce pm)"
  by (induction n arbitrary: pm) (auto intro: attempt_one_inv split: option.split)

lemma AttemptFeeler_inv:
  assumes inv: "pm_inv (pe_ip (pw_peer env)) c pm"
  shows "pm_inv (pe_ip (pw_peer env)) c (AttemptFeelerConnection is_running env magic height nonce pm)"
proof -
  obtain i pm1 where alloc: "allocate_peer_id pm = (i, pm1)" by force
  note a = pm_inv_allocate [OF inv, unfolded alloc fst_conv snd_conv]
  have added: "pm_inv (pe_ip (pw_peer env)) c pm2"
    if "add_peer_with_id (pw_peer env) i (Some p) perms address (pm_call cl pm1) = (b, pm2)" "\<not> p_is_inbound p" for p perms address cl b pm2
    using add_peer_with_id_inv [of "pw_peer env" _ "pm_call cl pm1" p i perms address] a that
    by (simp add: addr_fixed_def pm_call_def [of cl pm1, symmetric]) (simp add: pm_call_def)
  show ?thesis
    unfolding AttemptFeelerConnection_def Let_def alloc using inv a
    by (auto split: option.split prod.split intro: added simp: peer_create_outbound_def new_Peer_def)
qed

lemma ConnectToAnchors_inv:
  "pm_inv (pe_ip (pw_peer env)) c pm \<Longrightarrow> pm_inv (pe_ip (pw_peer env)) c (ConnectToAnchors anchors env magic height nonce pm)"
proof (induction anchors arbitrary: pm)
  case (Cons addr anchors)
  let ?pm = "case NetworkAddressToString (pe_ip (pw_peer env)) addr of None \<Rightarrow> pm
      | Some ip \<Rightarrow> pm\<lparr>ban_manager := AddToWhitelist ip (ban_manager pm)\<rparr>"
  have "pm_inv (pe_ip (pw_peer env)) c ?pm"
    by (rule pm_inv_same [OF Cons.prems]) (simp_all split: option.split)
  from ConnectTo_inv [OF this] have "pm_inv (pe_ip (pw_peer env)) c (snd (ConnectTo env addr NoBan magic height nonce ?pm))" .
  then show ?case using Cons.IH by (simp add: Let_def split: prod.split) (metis snd_conv)
qed simp

lemma HandleInbound_inv:
  assumes inv: "pm_inv (pe_ip (pw_peer env)) c pm" and remote: "\<forall>a port is_open. connection = Some ((a, port), is_open) \<longrightarrow> a \<noteq> []"
  shows "pm_inv (pe_ip (pw_peer env)) c (HandleInboundConnection env is_running connection magic height nonce perms pm)"
proof (cases connection)
  case (Some conn)
  then obtain a port is_open where conn: "connection = Some ((a, port), is_open)" by (metis surj_pair)
  define p where "p = (peer_create_inbound (pw_peer env) (pw_process_nonce env) connection magic height)\<lparr>p_local_nonce := nonce\<rparr>"
  have "addr_fixed p" using remote by (simp add: p_def conn peer_create_inbound_def new_Peer_def addr_fixed_def)
  from add_peer_inv [OF inv this]
  have added: "pm_inv (pe_ip (pw_peer env)) c pm2" if "add_peer (pw_peer env) (Some p) perms [] pm = (i, pm2)" for i pm2
    using that by (metis snd_conv)
  show ?thesis
    unfolding HandleInboundConnection_def Let_def p_def [symmetric] using inv
    by (auto simp: conn split: prod.split intro!: on_peer_inv intro: added)
qed (simp add: HandleInboundConnection_def inv)

lemma fold_remove_states:
  "peer_states (fold (remove_peer env) ids pm) = filter (\<lambda>(i, st). i \<notin> set ids) (peer_states pm)"
proof (induction ids arbitrary: pm)
  case (Cons i ids)
  show ?case by (simp add: Cons om_erase_def) (rule filter_cong [OF refl], auto)
qed (simp add: filter_id_conv)

lemma fold_remove_inv: "pm_inv lib c pm \<Longrightarrow> pm_inv lib c (fold (remove_peer env) ids pm)"
  by (induction ids arbitrary: pm) (auto intro: pm_inv_remove_peer)

lemma process_periodic_inv: "pm_inv lib c pm \<Longrightarrow> pm_inv lib c (process_periodic env pm)"
  by (simp add: process_periodic_def Let_def fold_remove_inv)

lemma disconnect_all_frame:
  "peer_states (disconnect_all pm) = []" "pm_config (disconnect_all pm) = pm_config pm"
  "next_peer_id (disconnect_all pm) = next_peer_id pm"
proof -
  have "pm_config (fold (\<lambda>(i, p). pm_call (f i p)) ps q) = pm_config q \<and> next_peer_id (fold (\<lambda>(i, p). pm_call (f i p)) ps q) = next_peer_id q"
    for f :: "int \<Rightarrow> peer \<Rightarrow> pm_call" and ps q
    by (induction ps arbitrary: q) (auto simp: pm_call_def)
  then show "peer_states (disconnect_all pm) = []" "pm_config (disconnect_all pm) = pm_config pm"
    "next_peer_id (disconnect_all pm) = next_peer_id pm"
    by (simp_all add: disconnect_all_def Let_def)
qed

lemma pm_inv_empty: "pm_config pm = c \<Longrightarrow> 0 \<le> next_peer_id pm \<Longrightarrow> peer_states pm = [] \<Longrightarrow> pm_inv lib c pm"
  by (simp add: pm_inv_def limits_ok_def counts count_entry entry_count_def om_invar_Nil)

section \<open>Reachable tables\<close>

text \<open>
  The events of a peer in the table: its timers, data from the transport (handed to a message handler
  that, like every handler of the node, leaves the peer's identity alone), losing the connection,
  sending, and the flags the managers set.
\<close>

inductive peer_event :: "(peer \<Rightarrow> peer) \<Rightarrow> bool" where
  "peer_event (start env is_open)"
| "(\<And>m p. keeps p (handler m p)) \<Longrightarrow> peer_event (on_transport_receive handler env data)"
| "peer_event on_transport_disconnect"
| "peer_event do_disconnect"
| "peer_event (send_message env m)"
| "peer_event (handshake_timer_fired env)"
| "peer_event (ping_timer_fired env)"
| "peer_event (inactivity_timer_fired env)"
| "peer_event (\<lambda>p. p\<lparr>p_sync_started := b\<rparr>)"
| "peer_event (\<lambda>p. p\<lparr>p_getaddr_sent := True\<rparr>)"

lemma peer_event_keeps: "peer_event f \<Longrightarrow> keeps p (f p)"
  by (induction rule: peer_event.induct) (simp_all add: keeps_receive)

inductive pm_reachable :: "ip_lib \<Rightarrow> PeerManagerConfig \<Rightarrow> PeerLifecycleManager \<Rightarrow> bool" for lib config where
  new: "pm_reachable lib config (new_PeerLifecycleManager config benv datadir files)"
| discovery: "pm_reachable lib config pm \<Longrightarrow> pm_reachable lib config (SetDiscoveryManager b pm)"
| shutdown: "pm_reachable lib config pm \<Longrightarrow> pm_reachable lib config (Shutdown pm)"
| inbound: "pm_reachable lib config pm \<Longrightarrow> pe_ip (pw_peer env) = lib \<Longrightarrow>
    \<forall>a port is_open. connection = Some ((a, port), is_open) \<longrightarrow> a \<noteq> [] \<Longrightarrow>
    pm_reachable lib config (HandleInboundConnection env is_running connection magic height nonce perms pm)"
| outbound: "pm_reachable lib config pm \<Longrightarrow> pe_ip (pw_peer env) = lib \<Longrightarrow>
    pm_reachable lib config (snd (ConnectTo env addr perms magic height nonce pm))"
| completed: "pm_reachable lib config pm \<Longrightarrow> pe_ip (pw_peer env) = lib \<Longrightarrow>
    pm_reachable lib config (connect_completed env i addr success is_open pm)"
| attempts: "pm_reachable lib config pm \<Longrightarrow> pe_ip (pw_peer env) = lib \<Longrightarrow>
    pm_reachable lib config (AttemptOutboundConnections is_running env magic height nonce pm)"
| feeler: "pm_reachable lib config pm \<Longrightarrow> pe_ip (pw_peer env) = lib \<Longrightarrow>
    pm_reachable lib config (AttemptFeelerConnection is_running env magic height nonce pm)"
| anchors: "pm_reachable lib config pm \<Longrightarrow> pe_ip (pw_peer env) = lib \<Longrightarrow>
    pm_reachable lib config (ConnectToAnchors addrs env magic height nonce pm)"
| remove: "pm_reachable lib config pm \<Longrightarrow> pm_reachable lib config (remove_peer penv i pm)"
| periodic: "pm_reachable lib config pm \<Longrightarrow> pm_reachable lib config (process_periodic penv pm)"
| disconnect: "pm_reachable lib config pm \<Longrightarrow> pm_reachable lib config (disconnect_all pm)"
| event: "pm_reachable lib config pm \<Longrightarrow> peer_event f \<Longrightarrow> pm_reachable lib config (on_peer i f pm)"
| report: "pm_reachable lib config pm \<Longrightarrow> pm_reachable lib config (pm\<lparr>peer_states := mb_apply (i, op) (peer_states pm)\<rparr>)"
| bans: "pm_reachable lib config pm \<Longrightarrow> pm_reachable lib config (pm\<lparr>ban_manager := ban_apply benv bop (ban_manager pm)\<rparr>)"
| announced: "pm_reachable lib config pm \<Longrightarrow> pm_reachable lib config (SetLastAnnouncedBlock i hash t pm)"
| queue_block: "pm_reachable lib config pm \<Longrightarrow> pm_reachable lib config (AddBlockForInvRelay i hash pm)"
| clear_blocks: "pm_reachable lib config pm \<Longrightarrow> pm_reachable lib config (ClearBlocksForInvRelay i pm)"
| replied: "pm_reachable lib config pm \<Longrightarrow> pm_reachable lib config (MarkGetAddrReplied i pm)"
| learned: "pm_reachable lib config pm \<Longrightarrow> pm_reachable lib config (AddLearnedAddress i key entry pm)"
| clear_learned: "pm_reachable lib config pm \<Longrightarrow> pm_reachable lib config (ClearLearnedAddresses i pm)"

lemma pm_reachable_inv: "pm_reachable lib config pm \<Longrightarrow> pm_inv lib config pm"
proof (induction rule: pm_reachable.induct)
  case (new benv datadir files)
  show ?case by (rule pm_inv_empty) (simp_all add: new_PeerLifecycleManager_def)
next
  case (discovery pm b)
  show ?case by (rule pm_inv_same [OF discovery.IH]) (simp_all add: SetDiscoveryManager_def)
next
  case (shutdown pm)
  show ?case by (rule pm_inv_same [OF shutdown.IH]) (simp_all add: Shutdown_def)
next
  case (attempts pm env is_running magic height nonce)
  then show ?case using attempt_loop_inv by (auto simp: AttemptOutboundConnections_def)
next
  case (disconnect pm)
  then show ?case by (intro pm_inv_empty) (simp_all add: disconnect_all_frame pm_inv_def)
next
  case (event pm f i)
  then show ?case using on_peer_inv peer_event_keeps by blast
next
  case (report pm i op)
  then show ?case unfolding mb_apply_local by (elim pm_inv_Modify) (simp add: on_misbehavior_def mb_ok_data)
next
  case (bans pm benv bop)
  show ?case by (rule pm_inv_same [OF bans.IH]) simp_all
qed (auto intro: HandleInbound_inv ConnectTo_inv connect_completed_inv AttemptFeeler_inv ConnectToAnchors_inv
    pm_inv_remove_peer process_periodic_inv pm_inv_Modify
    simp: SetLastAnnouncedBlock_def AddBlockForInvRelay_def ClearBlocksForInvRelay_def MarkGetAddrReplied_def
    AddLearnedAddress_def ClearLearnedAddresses_def)


definition sample_pm_env :: pm_env where
  "sample_pm_env = \<lparr>pw_peer = sample_penv, pw_process_nonce = 5, pw_connect = (\<lambda>_ a p. Some ((a, p), False)),
     pw_select = (\<lambda>_. None), pw_select_new = (\<lambda>_. None)\<rparr>"

definition sample_pm :: PeerLifecycleManager where
  "sample_pm = HandleInboundConnection sample_pm_env True (Some ((''10.0.0.1'', 9590), True)) magic_REGTEST 0 5 None_permissions
     (new_PeerLifecycleManager default_config (sample_ban_env 0) [] (\<lambda>_. None))"

lemma sample_pm_reachable: "pm_reachable (pe_ip sample_penv) default_config sample_pm"
  unfolding sample_pm_def
  by (rule pm_reachable.inbound [OF pm_reachable.new]) (simp_all add: sample_pm_env_def)

lemmas sample_pm_defs = sample_pm_def HandleInboundConnection_def new_PeerLifecycleManager_def BanManager_new_def IsBanned_def
  IsDiscouraged_def can_accept_inbound_from_def inbound_count_def all_peers_def default_config_def same_ip_inbound_def
  DEFAULT_MAX_INBOUND_CONNECTIONS_def MAX_INBOUND_PER_IP_def add_peer_def banned_or_discouraged_def make_room_def
  allocate_peer_id_def insert_peer_def pm_call_def on_peer_def Modify_def

lemma sample_pm_one: "inbound_count sample_pm = 1"
proof -
  have k: "p_is_inbound (start env is_open p) = p_is_inbound p" for env is_open p
    using keeps_start [of p env is_open] by (simp add: keeps_def)
  show ?thesis
    by (simp add: sample_pm_defs peer_create_inbound_def new_Peer_def new_PerPeerState_def k Let_def)
qed


section \<open>Eviction\<close>

text \<open>
  The victim is a candidate with the worst ping; among these one connected longest; among these the one
  with the lowest id.  The choice does not depend on the order of the candidates.
\<close>

definition evict_before :: "int \<times> int \<times> int \<Rightarrow> int \<times> int \<times> int \<Rightarrow> bool" where
  "evict_before v c \<longleftrightarrow> (case (v, c) of ((i, t, p), (i', t', p')) \<Rightarrow>
     map_ping p' < map_ping p \<or> map_ping p' = map_ping p \<and> (t < t' \<or> t = t' \<and> i \<le> i'))"

lemma evict_before_trans: "evict_before a b \<Longrightarrow> evict_before b c \<Longrightarrow> evict_before a c"
  by (cases a; cases b; cases c) (auto simp: evict_before_def)

lemma evict_before_refl: "evict_before a a"
  by (cases a) (simp add: evict_before_def)

lemma worst_candidate_step:
  "\<exists>v \<in> insert (i, t, p) (set cs). worst_candidate cs (map_ping p) i t = fst v \<and> evict_before v (i, t, p)
     \<and> (\<forall>c \<in> set cs. evict_before v c)"
proof (induction cs arbitrary: i t p)
  case Nil
  then show ?case by (simp add: evict_before_refl)
next
  case (Cons c cs)
  obtain i' t' p' where c: "c = (i', t', p')" by (metis prod_cases3)
  show ?case
  proof (cases "evict_before (i, t, p) c")
    case True
    from Cons.IH [of i t p] obtain v where v: "v \<in> insert (i, t, p) (set cs)" "worst_candidate cs (map_ping p) i t = fst v"
      "evict_before v (i, t, p)" "\<forall>c \<in> set cs. evict_before v c" by blast
    have "worst_candidate (c # cs) (map_ping p) i t = worst_candidate cs (map_ping p) i t"
      using True by (auto simp: c evict_before_def Let_def)
    then show ?thesis using v evict_before_trans [OF v(3) True] by (intro bexI [of _ v]) auto
  next
    case False
    from Cons.IH [of i' t' p'] obtain v where v: "v \<in> insert (i', t', p') (set cs)" "worst_candidate cs (map_ping p') i' t' = fst v"
      "evict_before v (i', t', p')" "\<forall>c \<in> set cs. evict_before v c" by blast
    have "worst_candidate (c # cs) (map_ping p) i t = worst_candidate cs (map_ping p') i' t'"
      using False by (auto simp: c evict_before_def Let_def)
    moreover have "evict_before (i', t', p') (i, t, p)" using False by (auto simp: c evict_before_def)
    ultimately show ?thesis using v evict_before_trans [OF v(3)] by (intro bexI [of _ v]) (auto simp: c)
  qed
qed

lemma worst_candidate_is_worst:
  assumes "cs \<noteq> []"
  shows "\<exists>v \<in> set cs. worst_candidate cs (- (2 ^ 63)) (-1) INT64_MAX = fst v \<and> (\<forall>c \<in> set cs. evict_before v c)"
proof (cases cs)
  case (Cons c cs')
  obtain i t p where c: "c = (i, t, p)" by (metis prod_cases3)
  have "0 \<le> map_ping p" by (simp add: map_ping_def INT64_MAX_def)
  then have "worst_candidate cs (- (2 ^ 63)) (-1) INT64_MAX = worst_candidate cs' (map_ping p) i t"
    by (simp add: Cons c Let_def)
  with worst_candidate_step [of i t p cs'] show ?thesis by (auto simp: Cons c)
qed (use assms in simp)

lemma evict_exact:
  assumes inv: "pm_inv lib c pm"
  shows "fst (evict_inbound_peer env pm) = (eviction_candidates env pm \<noteq> [])
    \<and> (eviction_candidates env pm \<noteq> [] \<longrightarrow>
        (\<exists>v \<in> set (eviction_candidates env pm). (\<forall>cand \<in> set (eviction_candidates env pm). evict_before v cand)
          \<and> snd (evict_inbound_peer env pm) = remove_peer env (fst v) pm))"
proof (cases "eviction_candidates env pm = []")
  case True
  then show ?thesis by (simp add: evict_inbound_peer_def)
next
  case False
  from worst_candidate_is_worst [OF False] obtain v where v: "v \<in> set (eviction_candidates env pm)"
    "worst_candidate (eviction_candidates env pm) (- (2 ^ 63)) (-1) INT64_MAX = fst v"
    "\<forall>cand \<in> set (eviction_candidates env pm). evict_before v cand" by blast
  have "fst v \<in> fst ` set (peer_states pm)" using v(1) by (force simp: eviction_candidates_def)
  then obtain st where "map_of (peer_states pm) (fst v) = Some st"
    by (metis map_of_eq_None_iff not_None_eq)
  then have "0 \<le> fst v" using inv by (auto simp: pm_inv_def peer_ok_def)
  then show ?thesis using False v by (auto simp: evict_inbound_peer_def Let_def)
qed

text \<open>
  An inbound connection never evicts anyone: a full table turns it away before \<open>add_peer\<close>, which holds the
  only call of the eviction, is reached.
\<close>

lemma inbound_keeps_peers:
  assumes inv: "pm_inv (pe_ip (pw_peer env)) c pm" and st: "map_of (peer_states pm) i = Some st"
  shows "map_of (peer_states (HandleInboundConnection env is_running connection magic height nonce perms pm)) i = Some st"
proof (cases connection)
  case (Some conn)
  then obtain a port is_open where conn: "connection = Some ((a, port), is_open)" by (metis surj_pair)
  define p where "p = (peer_create_inbound (pw_peer env) (pw_process_nonce env) connection magic height)\<lparr>p_local_nonce := nonce\<rparr>"
  have i: "i < next_peer_id pm" using inv st by (auto simp: pm_inv_def peer_ok_def)
  show ?thesis
  proof (cases "can_accept_inbound_from (pe_ip (pw_peer env)) a pm")
    case True
    then have "\<not> inbound_count pm \<ge> max_inbound_peers (pm_config pm)" by (simp add: can_accept_inbound_from_def split: if_splits)
    then have room: "snd (make_room (pw_peer env) p pm) = pm" by (auto simp: make_room_def)
    have add: "map_of (peer_states (snd (add_peer (pw_peer env) (Some p) perms [] pm))) i = Some st"
      "fst (add_peer (pw_peer env) (Some p) perms [] pm) \<noteq> i \<or> fst (add_peer (pw_peer env) (Some p) perms [] pm) < 0"
      using room i st
      by (auto simp: add_peer_def allocate_peer_id_def insert_peer_def pm_call_def Let_def split: prod.split)
    show ?thesis
      unfolding HandleInboundConnection_def Let_def p_def [symmetric] using add st
      by (auto simp: conn pm_call_def on_peer_def map_of_Modify split: prod.split)
  next
    case False
    then show ?thesis using st by (simp add: HandleInboundConnection_def conn pm_call_def Let_def)
  qed
qed (simp add: HandleInboundConnection_def st)

text \<open>
  Being on the whitelist does not let a banned address in: nothing on the way of a connection consults it.
\<close>

lemma whitelist_ignored:
  assumes "IsBanned (pe_time (pw_peer env)) a (ban_manager pm)" and "IsWhitelisted a (ban_manager pm)"
  shows "peer_states (HandleInboundConnection env is_running (Some ((a, port), is_open)) magic height nonce NoBan pm) = peer_states pm"
    "NetworkAddressToString (pe_ip (pw_peer env)) addr = Some a \<Longrightarrow>
       ConnectTo env addr NoBan magic height nonce pm = (AddressBanned, pm)"
  using assms by (simp_all add: HandleInboundConnection_def ConnectTo_def pm_call_def Let_def)

section \<open>Maintenance\<close>

text \<open>The addresses of the marked peers among \<open>ids\<close>.\<close>

definition marked_addresses :: "peer_env \<Rightarrow> PeerLifecycleManager \<Rightarrow> int list \<Rightarrow> string set" where
  "marked_addresses env pm ids =
     {normalize_ip_string (pe_ip env) (mb_address (misbehavior st)) |i st.
        i \<in> set ids \<and> map_of (peer_states pm) i = Some st \<and> should_discourage (misbehavior st)}"

lemma Discourage_room:
  assumes "length (discouraged s) < MAX_DISCOURAGED"
  shows "discouraged (Discourage now a s) = om_update a (now + DISCOURAGE_DURATION_SEC) (discouraged s)"
  using assms length_om_update [of a "now + DISCOURAGE_DURATION_SEC" "discouraged s"]
  by (simp add: Discourage_def Let_def)

lemma remove_peer_bans:
  "ban_manager (remove_peer env i pm) =
     (case map_of (peer_states pm) i of None \<Rightarrow> ban_manager pm
      | Some st \<Rightarrow> if should_discourage (misbehavior st)
          then Discourage (pe_time env) (normalize_ip_string (pe_ip env) (mb_address (misbehavior st))) (ban_manager pm)
          else ban_manager pm)"
  by (simp add: remove_peer_def pm_call_def Let_def split: option.split)

lemma fold_remove_bans:
  assumes "distinct ids" and "length (discouraged (ban_manager pm)) + length ids \<le> MAX_DISCOURAGED"
  shows "map_of (discouraged (ban_manager (fold (remove_peer env) ids pm))) a =
      (if a \<in> marked_addresses env pm ids then Some (pe_time env + DISCOURAGE_DURATION_SEC)
       else map_of (discouraged (ban_manager pm)) a)"
  using assms
proof (induction ids arbitrary: pm)
  case Nil
  then show ?case by (simp add: marked_addresses_def)
next
  case (Cons i ids)
  let ?pm = "remove_peer env i pm"
  have room: "length (discouraged (ban_manager pm)) < MAX_DISCOURAGED" using Cons.prems(2) by simp
  have len: "length (discouraged (ban_manager ?pm)) \<le> Suc (length (discouraged (ban_manager pm)))"
    using length_om_update by (auto simp: remove_peer_bans Discourage_room [OF room] split: option.split)
  have one: "map_of (discouraged (ban_manager ?pm)) a =
      (if a \<in> marked_addresses env pm [i] then Some (pe_time env + DISCOURAGE_DURATION_SEC)
       else map_of (discouraged (ban_manager pm)) a)"
    by (auto simp: remove_peer_bans Discourage_room [OF room] marked_addresses_def split: option.split)
  have "marked_addresses env ?pm ids = marked_addresses env pm ids"
    using Cons.prems(1) by (force simp: marked_addresses_def split: if_splits)
  moreover have "marked_addresses env pm (i # ids) = marked_addresses env pm [i] \<union> marked_addresses env pm ids"
    by (auto simp: marked_addresses_def)
  ultimately show ?case using Cons.IH [of ?pm] Cons.prems len one by simp
qed

text \<open>
  Periodic maintenance.  In every reachable table \<open>process_periodic\<close> removes exactly the peers that are disconnected,
  the feelers past their lifetime and the peers marked as discouraged, which have no \<open>NoBan\<close> permission, and leaves
  the others as they are.  If the list of discouraged addresses has room, the normalised address of every removed peer that was
  marked is discouraged for the next 24 hours, and from then on an inbound connection from it without \<open>NoBan\<close>
  is refused.
\<close>

theorem maintenance_exact:
  assumes reach: "pm_reachable lib config pm"
    and room: "length (discouraged (ban_manager pm)) + length (peer_states pm) \<le> MAX_DISCOURAGED"
    and env: "pe_ip (pw_peer env) = lib" "pe_ip penv = lib"
  defines "pm' \<equiv> process_periodic penv pm"
  shows "peer_states pm' = filter (\<lambda>(i, st). is_connected (ps_peer st)
        \<and> \<not> (is_feeler (ps_peer st) \<and> to_seconds (pe_steady penv - created_at st) \<ge> FEELER_MAX_LIFETIME_SEC)
        \<and> \<not> should_discourage (misbehavior st))
      (peer_states pm)
    \<and> (\<forall>i st. map_of (peer_states pm) i = Some st \<longrightarrow> should_discourage (misbehavior st) \<longrightarrow>
        pe_time penv \<le> pe_time (pw_peer env) \<longrightarrow> pe_time (pw_peer env) < pe_time penv + 24 * 60 * 60 \<longrightarrow>
        normalize_ip_string lib a = normalize_ip_string lib (mb_address (misbehavior st)) \<longrightarrow> \<not> HasPermission perms NoBan \<longrightarrow>
        peer_states (HandleInboundConnection env is_running (Some ((a, port), is_open)) magic height nonce perms pm') = peer_states pm')"
proof -
  note inv = pm_reachable_inv [OF reach]
  then have om: "om_invar (peer_states pm)" by (simp add: pm_inv_def)
  let ?ids = "map fst (filter (\<lambda>(i, st). to_remove penv st) (peer_states pm))"
  have mark: "\<not> HasPermission (permissions (misbehavior st)) NoBan" if "(i, st) \<in> set (peer_states pm)" "should_discourage (misbehavior st)" for i st
    using inv that om_entries_iff [OF om] by (auto simp: pm_inv_def peer_ok_def mb_ok_def mb_sum_def)
  have ids: "i \<in> set ?ids \<longleftrightarrow> to_remove penv st" if "(i, st) \<in> set (peer_states pm)" for i st
    using that om_distinct [OF om] by (force dest: eq_key_imp_eq_value)
  have states: "peer_states pm' = filter (\<lambda>(i, st). i \<notin> set ?ids) (peer_states pm)"
    by (simp add: pm'_def process_periodic_def Let_def fold_remove_states [of penv ?ids pm] pm_call_def)
  have bans: "ban_manager pm' = ban_manager (fold (remove_peer penv) ?ids pm)"
    by (simp add: pm'_def process_periodic_def Let_def pm_call_def)
  have part1: "peer_states pm' = filter (\<lambda>(i, st). is_connected (ps_peer st)
        \<and> \<not> (is_feeler (ps_peer st) \<and> to_seconds (pe_steady penv - created_at st) \<ge> FEELER_MAX_LIFETIME_SEC)
        \<and> \<not> should_discourage (misbehavior st))
      (peer_states pm)"
    unfolding states
  proof (rule filter_cong [OF refl], clarify)
    fix i st assume mem: "(i, st) \<in> set (peer_states pm)"
    show "(i \<notin> set ?ids) = (is_connected (ps_peer st)
        \<and> \<not> (is_feeler (ps_peer st) \<and> to_seconds (pe_steady penv - created_at st) \<ge> FEELER_MAX_LIFETIME_SEC)
        \<and> \<not> should_discourage (misbehavior st))"
      unfolding ids [OF mem] using mark [OF mem] by (auto simp: to_remove_def)
  qed
  have dist: "distinct ?ids" using distinct_map_filter [OF om_distinct [OF om]] by simp
  have short: "length (discouraged (ban_manager pm)) + length ?ids \<le> MAX_DISCOURAGED"
    using room length_filter_le [of "\<lambda>(i, st). to_remove penv st" "peer_states pm"] unfolding length_map by linarith
  have refused: "peer_states (HandleInboundConnection env is_running (Some ((a, port), is_open)) magic height nonce perms pm') = peer_states pm'"
    if st: "map_of (peer_states pm) i = Some st" and flag: "should_discourage (misbehavior st)"
      and time: "pe_time penv \<le> pe_time (pw_peer env)" "pe_time (pw_peer env) < pe_time penv + 24 * 60 * 60"
      and a: "normalize_ip_string lib a = normalize_ip_string lib (mb_address (misbehavior st))" and perms: "\<not> HasPermission perms NoBan"
    for i st
  proof -
    have mem: "(i, st) \<in> set (peer_states pm)" using st by (rule map_of_SomeD)
    have "i \<in> set ?ids" using ids [OF mem] flag mark [OF mem flag] by (simp add: to_remove_def)
    then have "normalize_ip_string lib a \<in> marked_addresses penv pm ?ids" using st flag a env(2) by (auto simp: marked_addresses_def)
    with fold_remove_bans [OF dist short, of penv "normalize_ip_string lib a"]
    have "IsDiscouraged (pe_time (pw_peer env)) (normalize_ip_string lib a) (ban_manager pm')"
      using time by (simp add: bans IsDiscouraged_def DISCOURAGE_DURATION_SEC_def)
    then have "add_peer (pw_peer env) (Some p) perms [] pm' = (-1, pm')" if "peer_address p = a" for p
      using that perms env(1) by (simp add: add_peer_def banned_or_discouraged_def)
    moreover have "peer_address ((peer_create_inbound (pw_peer env) n (Some ((a, port), is_open)) magic height)\<lparr>p_local_nonce := nonce\<rparr>) = a" for n
      by (simp add: peer_create_inbound_def new_Peer_def peer_address_def)
    ultimately show ?thesis by (simp add: HandleInboundConnection_def pm_call_def Let_def)
  qed
  show ?thesis using part1 refused by blast
qed

definition sample_offender :: PeerLifecycleManager where
  "sample_offender = sample_pm\<lparr>peer_states := mb_apply (0, InvalidPoW) (peer_states sample_pm)\<rparr>"

lemma sample_offender_reachable: "pm_reachable (pe_ip sample_penv) default_config sample_offender"
  unfolding sample_offender_def by (rule pm_reachable.report [OF sample_pm_reachable])

lemma sample_pm_state:
  "\<exists>st. peer_states sample_pm = [(0, st)] \<and> misbehavior st = new_PeerMisbehaviorData\<lparr>permissions := 0, mb_address := ''10.0.0.1''\<rparr>"
  "discouraged (ban_manager sample_pm) = []"
  by (simp_all add: sample_pm_defs peer_create_inbound_def new_Peer_def new_PerPeerState_def Let_def None_permissions_def
      peer_address_def)

theorem maintenance_exact_witness:
  "peer_count sample_offender = 1 \<and> peer_states (process_periodic sample_penv sample_offender) = []
   \<and> peer_states (HandleInboundConnection sample_pm_env True (Some ((''10.0.0.1'', 7), True)) magic_REGTEST 0 5 None_permissions
        (process_periodic sample_penv sample_offender)) = []"
proof -
  obtain st where st: "peer_states sample_pm = [(0, st)]"
    "misbehavior st = new_PeerMisbehaviorData\<lparr>permissions := 0, mb_address := ''10.0.0.1''\<rparr>" using sample_pm_state(1) by blast
  define st' where "st' = on_misbehavior (mb_data InvalidPoW) st"
  have s: "peer_states sample_offender = [(0, st')]" "discouraged (ban_manager sample_offender) = []"
    unfolding sample_offender_def mb_apply_local by (simp_all add: st Modify_def st'_def sample_pm_state)
  have nb: "\<not> HasPermission 0 NoBan" by (simp add: HasPermission_def NoBan_def)
  have m: "should_discourage (misbehavior st')" "mb_address (misbehavior st') = ''10.0.0.1''"
    using nb by (simp_all add: st'_def on_misbehavior_def st new_PeerMisbehaviorData_def penalty_defs add_penalty_def int32_small)
  note t = maintenance_exact [OF sample_offender_reachable, of sample_pm_env sample_penv "''10.0.0.1''" None_permissions True 7 True
      magic_REGTEST 0 5]
  have p: "pe_ip (pw_peer sample_pm_env) = pe_ip sample_penv" "pe_time (pw_peer sample_pm_env) = pe_time sample_penv"
    by (simp_all add: sample_pm_env_def)
  have room: "length (discouraged (ban_manager sample_offender)) + length (peer_states sample_offender) \<le> MAX_DISCOURAGED"
    by (simp add: s MAX_DISCOURAGED_def)
  note t = t [OF room p(1) refl]
  have none: "peer_states (process_periodic sample_penv sample_offender) = []"
    using conjunct1 [OF t] m nb by (simp add: s)
  have "map_of (peer_states sample_offender) 0 = Some st'" by (simp add: s)
  with conjunct2 [OF t, rule_format, of 0 st']
  have "peer_states (HandleInboundConnection sample_pm_env True (Some ((''10.0.0.1'', 7), True)) magic_REGTEST 0 5
      None_permissions (process_periodic sample_penv sample_offender)) = peer_states (process_periodic sample_penv sample_offender)"
    using m nb p by (simp add: None_permissions_def)
  with none show ?thesis by (simp add: s peer_count_def)
qed

end
