(* ===== verification/Arith_Uint.thy ===== *)
theory Arith_Uint
  imports Blob
begin

text \<open>
  The big integers \<open>base_uint<BITS>\<close> (include/util/arith_uint256.hpp, src/util/arith_uint256.cpp) at the
  level of their 32-bit limbs, least significant first: every operator is the loop of the source, with
  its 64-bit carries.  Each is shown to compute, modulo \<open>2 ^ BITS\<close>, the arithmetic of the value it
  represents; the interface \<open>big_uint\<close> collects these laws, and both the limb lists and the machine
  word of \<open>BITS\<close> bits (used in the rest of the development) satisfy it.
\<close>

section \<open>The operators\<close>

type_synonym base_uint = "u32 list"

definition uint_of_u64 :: "nat \<Rightarrow> u64 \<Rightarrow> base_uint" where
  "uint_of_u64 width b = [ucast b, ucast (drop_bit 32 b)] @ replicate (width - 2) 0"

definition uint_not :: "base_uint \<Rightarrow> base_uint" where
  "uint_not pn = map NOT pn"

fun uint_inc :: "base_uint \<Rightarrow> base_uint" where
  "uint_inc [] = []"
| "uint_inc (x # pn) = (let x' = x + 1 in x' # (if x' = 0 then uint_inc pn else pn))"

fun uint_dec :: "base_uint \<Rightarrow> base_uint" where
  "uint_dec [] = []"
| "uint_dec (x # pn) = (let x' = x - 1 in x' # (if x' = 0xffffffff then uint_dec pn else pn))"

definition uint_neg :: "base_uint \<Rightarrow> base_uint" where
  "uint_neg pn = uint_inc (map NOT pn)"

definition uint_and :: "base_uint \<Rightarrow> base_uint \<Rightarrow> base_uint" where
  "uint_and pn b = map2 (AND) pn b"

definition uint_or :: "base_uint \<Rightarrow> base_uint \<Rightarrow> base_uint" where
  "uint_or pn b = map2 (OR) pn b"

definition uint_xor :: "base_uint \<Rightarrow> base_uint \<Rightarrow> base_uint" where
  "uint_xor pn b = map2 (XOR) pn b"

fun uint_add_loop :: "u64 \<Rightarrow> base_uint \<Rightarrow> base_uint \<Rightarrow> base_uint" where
  "uint_add_loop carry (x # pn) (y # b) =
     (let n = carry + ucast x + ucast y
      in ucast (n AND 0xffffffff) # uint_add_loop (drop_bit 32 n) pn b)"
| "uint_add_loop carry pn b = pn"

definition uint_add :: "base_uint \<Rightarrow> base_uint \<Rightarrow> base_uint" where
  "uint_add pn b = uint_add_loop 0 pn b"

definition uint_sub :: "base_uint \<Rightarrow> base_uint \<Rightarrow> base_uint" where
  "uint_sub pn b = uint_add pn (uint_neg b)"

definition uint_shl_step :: "nat \<Rightarrow> nat \<Rightarrow> base_uint \<Rightarrow> base_uint \<Rightarrow> nat \<Rightarrow> base_uint" where
  "uint_shl_step k shift a pn i =
     (let pn = (if i + k + 1 < length a \<and> shift \<noteq> 0
                then pn[i + k + 1 := pn ! (i + k + 1) OR drop_bit (32 - shift) (a ! i)] else pn)
      in if i + k < length a then pn[i + k := pn ! (i + k) OR push_bit shift (a ! i)] else pn)"

definition uint_shl :: "base_uint \<Rightarrow> nat \<Rightarrow> base_uint" where
  "uint_shl a shift =
     foldl (uint_shl_step (shift div 32) (shift mod 32) a) (replicate (length a) 0) [0..<length a]"

definition uint_shr_step :: "nat \<Rightarrow> nat \<Rightarrow> base_uint \<Rightarrow> base_uint \<Rightarrow> nat \<Rightarrow> base_uint" where
  "uint_shr_step k shift a pn i =
     (let pn = (if i \<ge> k + 1 \<and> shift \<noteq> 0
                then pn[i - k - 1 := pn ! (i - k - 1) OR push_bit (32 - shift) (a ! i)] else pn)
      in if i \<ge> k then pn[i - k := pn ! (i - k) OR drop_bit shift (a ! i)] else pn)"

definition uint_shr :: "base_uint \<Rightarrow> nat \<Rightarrow> base_uint" where
  "uint_shr a shift =
     foldl (uint_shr_step (shift div 32) (shift mod 32) a) (replicate (length a) 0) [0..<length a]"

fun uint_mul32_loop :: "u64 \<Rightarrow> u32 \<Rightarrow> base_uint \<Rightarrow> base_uint" where
  "uint_mul32_loop carry b32 [] = []"
| "uint_mul32_loop carry b32 (x # pn) =
     (let n = carry + ucast b32 * ucast x
      in ucast (n AND 0xffffffff) # uint_mul32_loop (drop_bit 32 n) b32 pn)"

definition uint_mul32 :: "base_uint \<Rightarrow> u32 \<Rightarrow> base_uint" where
  "uint_mul32 pn b32 = uint_mul32_loop 0 b32 pn"

text \<open>The inner loop of the product, over \<open>a.pn[j], a.pn[j+1], ...\<close> and \<open>b.pn[0], b.pn[1], ...\<close>.\<close>

fun uint_mul_row :: "u64 \<Rightarrow> u32 \<Rightarrow> base_uint \<Rightarrow> base_uint \<Rightarrow> base_uint" where
  "uint_mul_row carry p (x # a) (y # b) =
     (let n = carry + ucast x + ucast p * ucast y
      in ucast (n AND 0xffffffff) # uint_mul_row (drop_bit 32 n) p a b)"
| "uint_mul_row carry p a b = a"

definition uint_mul :: "base_uint \<Rightarrow> base_uint \<Rightarrow> base_uint" where
  "uint_mul pn b =
     foldl (\<lambda>a j. take j a @ uint_mul_row 0 (pn ! j) (drop j a) b) (replicate (length pn) 0) [0..<length pn]"

fun uint_cmp_loop :: "base_uint \<Rightarrow> base_uint \<Rightarrow> int" where
  "uint_cmp_loop (x # pn) (y # b) = (if x < y then -1 else if x > y then 1 else uint_cmp_loop pn b)"
| "uint_cmp_loop pn b = 0"

definition CompareTo :: "base_uint \<Rightarrow> base_uint \<Rightarrow> int" where
  "CompareTo pn b = uint_cmp_loop (rev pn) (rev b)"

definition EqualTo :: "base_uint \<Rightarrow> u64 \<Rightarrow> bool" where
  "EqualTo pn b \<longleftrightarrow>
     list_all (\<lambda>x. x = 0) (drop 2 pn) \<and> ucast (pn ! 1) = drop_bit 32 b \<and> ucast (pn ! 0) = b AND 0xffffffff"

fun limb_bits :: "u32 \<Rightarrow> nat \<Rightarrow> nat" where
  "limb_bits x 0 = 1"
| "limb_bits x (Suc n) = (if x AND push_bit (Suc n) 1 \<noteq> 0 then Suc n + 1 else limb_bits x n)"

fun uint_bits_loop :: "base_uint \<Rightarrow> nat \<Rightarrow> nat" where
  "uint_bits_loop pn 0 = 0"
| "uint_bits_loop pn (Suc pos) =
     (if pn ! pos \<noteq> 0 then 32 * pos + limb_bits (pn ! pos) 31 else uint_bits_loop pn pos)"

definition uint_bits :: "base_uint \<Rightarrow> nat" where
  "uint_bits pn = uint_bits_loop pn (length pn)"

definition uint_set_bit :: "base_uint \<Rightarrow> nat \<Rightarrow> base_uint" where
  "uint_set_bit pn shift = pn[shift div 32 := pn ! (shift div 32) OR push_bit (shift mod 32) 1]"

text \<open>The division loop, counting \<open>shift + 1\<close> iterations: shift back, subtract, set a bit.\<close>

fun uint_div_loop :: "nat \<Rightarrow> base_uint \<Rightarrow> base_uint \<Rightarrow> base_uint \<Rightarrow> base_uint" where
  "uint_div_loop 0 num dv quo = quo"
| "uint_div_loop (Suc shift) num dv quo =
     (let (num, quo) = (if CompareTo num dv \<ge> 0 then (uint_sub num dv, uint_set_bit quo shift) else (num, quo))
      in uint_div_loop shift num (uint_shr dv 1) quo)"

datatype uint_error = Division_by_zero

definition uint_div :: "base_uint \<Rightarrow> base_uint \<Rightarrow> uint_error + base_uint" where
  "uint_div pn b =
     (let quo = replicate (length pn) 0; num_bits = uint_bits pn; div_bits = uint_bits b in
      if div_bits = 0 then Inl Division_by_zero
      else if div_bits > num_bits then Inr quo
      else let shift = num_bits - div_bits
           in Inr (uint_div_loop (shift + 1) pn (uint_shl b shift) quo))"

definition GetLow64 :: "base_uint \<Rightarrow> u64" where
  "GetLow64 pn = ucast (pn ! 0) OR push_bit 32 (ucast (pn ! 1))"

definition ArithToUint256 :: "base_uint \<Rightarrow> blob" where
  "ArithToUint256 a = concat (map (WriteLE32 Little) a)"

definition UintToArith256 :: "blob \<Rightarrow> base_uint" where
  "UintToArith256 a = map (\<lambda>x. ReadLE32 Little (drop (x * 4) a)) [0..<8]"

definition uint_GetHex :: "base_uint \<Rightarrow> string" where
  "uint_GetHex a = GetHex (concat (map (WriteLE32 Little) a))"

text \<open>
  The same integers as machine words: \<open>uint_to_word\<close> reads the limbs, \<open>word_quot\<close> is the division that
  reports a zero divisor.  The rest of the development uses \<open>arith_uint256\<close> and \<open>arith_uint512\<close>.
\<close>

type_synonym arith_uint256 = "256 word"
type_synonym arith_uint512 = "512 word"

definition uint_to_word :: "base_uint \<Rightarrow> 'a::len word" where
  "uint_to_word pn = of_nat (wval pn)"

definition word_quot :: "'a::len word \<Rightarrow> 'a word \<Rightarrow> uint_error + 'a word" where
  "word_quot a b = (if b = 0 then Inl Division_by_zero else Inr (a div b))"

definition word_bits :: "'a::len word \<Rightarrow> nat" where
  "word_bits a = bit_length (unat a)"

section \<open>Carries\<close>

lemma unat_lo32 [limb]: "unat (ucast (n AND 0xffffffff) :: u32) = unat (n :: u64) mod 2 ^ 32"
proof -
  have "(0xffffffff :: u64) = mask 32" by (simp add: mask_eq_exp_minus_1)
  then have "n AND 0xffffffff = take_bit 32 n" by (simp only: take_bit_eq_mask)
  then show ?thesis by (simp add: unat_ucast_down unat_mod take_bit_eq_mod)
qed

lemma unat_hi32 [limb]: "unat (drop_bit 32 (n :: u64)) = unat n div 2 ^ 32"
  by (simp add: unat_drop_bit)

lemma unat_ucast_u64 [limb]: "unat (ucast (x :: u32) :: u64) = unat x"
  using unat_bound [of x] by (simp add: unsigned_ucast_eq take_bit_nat_eq_self_iff)

lemma digit_step:
  "(n mod m + m * ((n div m + r) mod p) :: nat) = (n + m * r) mod (m * p)"
proof (cases "m = 0")
  case False
  have "(n + m * r) mod (m * p) = m * ((n + m * r) div m mod p) + (n + m * r) mod m"
    by (rule mod_mult2_eq)
  then show ?thesis using False by (simp add: add.commute)
qed simp

lemma product_bound:
  fixes x y p c :: nat
  assumes "c < 2 ^ 32" "x < 2 ^ 32" "y < 2 ^ 32" "p < 2 ^ 32"
  shows "c + x + p * y < 2 ^ 64"
proof -
  have "p * y \<le> (2 ^ 32 - 1) * (2 ^ 32 - 1)" using assms by (intro mult_le_mono) auto
  then show ?thesis using assms by simp
qed

lemma unat_carry [limb]:
  assumes "unat c < 2 ^ 32"
  shows "unat (c + ucast (x :: u32) + ucast (p :: u32) * ucast (y :: u32) :: u64) = unat c + unat x + unat p * unat y"
proof -
  have b: "unat c + unat x + unat p * unat y < 2 ^ 64"
    by (rule product_bound) (use assms unat_bound [of x] unat_bound [of p] unat_bound [of y] in simp_all)
  have "c + ucast x + ucast p * ucast y = (of_nat (unat c + unat x + unat p * unat y) :: u64)"
    by (simp add: unat_ucast_u64 [symmetric] del: unat_ucast_u64)
  then show ?thesis using b by (simp only: unat_of_nat) simp
qed

lemma carry_out_bound:
  assumes "unat c < 2 ^ 32"
  shows "(unat c + unat (x :: u32) + unat (p :: u32) * unat (y :: u32)) div 2 ^ 32 < 2 ^ 32"
proof -
  have "unat c + unat x + unat p * unat y < 2 ^ 64"
    by (rule product_bound) (use assms unat_bound [of x] unat_bound [of p] unat_bound [of y] in simp_all)
  then show ?thesis by (simp add: div_less_iff_less_mult)
qed

section \<open>Values of the operators\<close>

abbreviation modulus :: "base_uint \<Rightarrow> nat" where
  "modulus pn \<equiv> 2 ^ (32 * length pn)"

lemma wval_limb_bound [simp]: "wval (pn :: base_uint) < modulus pn"
  using wval_bound [of pn] by simp

lemma wval_limb_Cons: "wval (x # pn) = unat (x :: u32) + 2 ^ 32 * wval pn"
  by simp

lemma modulus_Cons: "modulus (x # pn) = 2 ^ 32 * modulus pn"
  by (simp add: power_add)

lemma wval_lo_hi:
  assumes "wval r = (unat (drop_bit 32 n) + s) mod p"
  shows "wval (ucast (n AND 0xffffffff) # r :: base_uint) = (unat (n :: u64) + 2 ^ 32 * s) mod (2 ^ 32 * p)"
  using assms digit_step [of "unat n" "2 ^ 32" s p]
  by (simp only: wval_limb_Cons unat_lo32 unat_hi32)

lemma length_uint_add_loop [simp]: "length (uint_add_loop c a b) = length a"
  by (induction c a b rule: uint_add_loop.induct) (simp_all add: Let_def)

lemma wval_uint_add_loop:
  "length a = length b \<Longrightarrow> unat c < 2 ^ 32 \<Longrightarrow>
   wval (uint_add_loop c a b) = (unat c + wval a + wval b) mod modulus a"
proof (induction c a b rule: uint_add_loop.induct)
  case (1 c x a y b)
  let ?n = "c + ucast x + ucast y :: u64"
  have n: "unat ?n = unat c + unat x + unat y"
    using unat_carry [OF 1(3), of x 1 y] by simp
  have "unat (drop_bit 32 ?n) < 2 ^ 32"
    using carry_out_bound [OF 1(3), of x 1 y] by (simp only: unat_hi32 n) simp
  then have "wval (uint_add_loop (drop_bit 32 ?n) a b) = (unat (drop_bit 32 ?n) + (wval a + wval b)) mod modulus a"
    using 1 by (simp only: add.assoc length_Cons nat.inject)
  from wval_lo_hi [OF this]
  have "wval (uint_add_loop c (x # a) (y # b)) = (unat ?n + 2 ^ 32 * (wval a + wval b)) mod (2 ^ 32 * modulus a)"
    by (simp only: uint_add_loop.simps Let_def)
  moreover have "unat ?n + 2 ^ 32 * (wval a + wval b) = unat c + wval (x # a) + wval (y # b)"
    unfolding n wval_limb_Cons by (simp only: distrib_left distrib_right ac_simps)
  ultimately show ?case by (simp only: modulus_Cons)
qed simp_all

lemma length_uint_add [simp]: "length (uint_add a b) = length a"
  by (simp add: uint_add_def)

lemma wval_uint_add: "length a = length b \<Longrightarrow> wval (uint_add a b) = (wval a + wval b) mod modulus a"
  using wval_uint_add_loop [of a b 0] by (simp add: uint_add_def)

lemma length_uint_inc [simp]: "length (uint_inc a) = length a"
  by (induction a) (simp_all add: Let_def)

lemma length_uint_dec [simp]: "length (uint_dec a) = length a"
  by (induction a) (simp_all add: Let_def)

lemma wval_uint_inc: "wval (uint_inc a) = (wval a + 1) mod modulus a"
proof (induction a)
  case Nil
  then show ?case by simp
next
  case (Cons x a)
  show ?case
  proof (cases "x + 1 = 0")
    case True
    then have "x = -1" by (simp add: eq_neg_iff_add_eq_0)
    then have "unat x = 2 ^ 32 - 1" by (simp add: unsigned_minus_1_eq_mask mask_eq_exp_minus_1)
    then show ?thesis using True Cons.IH digit_step [of "2 ^ 32" "2 ^ 32" "wval a" "modulus a"]
      by (simp add: Let_def power_add)
  next
    case False
    then have x: "unat (x + 1) = unat x + 1" by (simp add: unatSuc add.commute)
    have "wval ((x + 1) # a) < modulus (x # a)"
      using wval_limb_bound [of "(x + 1) # a"] by simp
    then have "unat x + 1 + 2 ^ 32 * wval a < modulus (x # a)" by (simp add: x)
    then show ?thesis using False by (simp add: Let_def x power_add)
  qed
qed


lemma length_uint_not [simp]: "length (uint_not a) = length a"
  by (simp add: uint_not_def)

lemma unat_NOT_u32: "unat (NOT (x :: u32)) = 2 ^ 32 - 1 - unat x"
proof -
  have "NOT x = -1 - x" by (simp add: not_eq_complement)
  then show ?thesis
    using unat_sub [of x "-1"] by (simp add: unsigned_minus_1_eq_mask mask_eq_exp_minus_1)
qed

lemma wval_uint_not: "wval (uint_not a) = modulus a - 1 - wval a"
proof (induction a)
  case Nil
  then show ?case by (simp add: uint_not_def)
next
  case (Cons x a)
  have "2 ^ 32 * (modulus a - 1 - wval a) = modulus (x # a) - 2 ^ 32 - 2 ^ 32 * wval a"
    by (simp add: power_add diff_mult_distrib2)
  moreover have "Suc (wval a) \<le> modulus a" by (rule Suc_leI) simp
  then have "2 ^ 32 * Suc (wval a) \<le> 2 ^ 32 * modulus a" by (rule mult_le_mono2)
  then have "2 ^ 32 + 2 ^ 32 * wval a \<le> modulus (x # a)" unfolding modulus_Cons by (simp only: mult_Suc_right)
  moreover have "unat x < 2 ^ 32" using unat_bound [of x] by simp
  moreover have "wval (uint_not (x # a)) = (2 ^ 32 - 1 - unat x) + 2 ^ 32 * wval (uint_not a)"
    by (simp add: uint_not_def unat_NOT_u32)
  ultimately show ?case unfolding Cons.IH wval_limb_Cons by linarith
qed

lemma length_uint_neg [simp]: "length (uint_neg a) = length a"
  by (simp add: uint_neg_def)

lemma wval_uint_neg: "wval (uint_neg a) = (modulus a - wval a) mod modulus a"
proof -
  have "wval (uint_not a) + 1 = modulus a - wval a"
    using wval_limb_bound [of a] unfolding wval_uint_not by linarith
  then show ?thesis
    using wval_uint_inc [of "uint_not a"] by (simp add: uint_neg_def uint_not_def)
qed

lemma length_uint_sub [simp]: "length (uint_sub a b) = length a"
  by (simp add: uint_sub_def)

lemma wval_uint_sub:
  "length a = length b \<Longrightarrow> wval (uint_sub a b) = (wval a + (modulus a - wval b)) mod modulus a"
  by (simp add: uint_sub_def wval_uint_add wval_uint_neg mod_simps)

lemma wval_uint_sub_le:
  assumes "length a = length b" and "wval b \<le> wval a"
  shows "wval (uint_sub a b) = wval a - wval b"
proof -
  have "modulus a = modulus b" using assms(1) by simp
  then have "wval a + (modulus a - wval b) = (wval a - wval b) + modulus a"
    using assms(2) wval_limb_bound [of b] by linarith
  moreover have "wval a - wval b < modulus a" using wval_limb_bound [of a] by linarith
  ultimately show ?thesis unfolding wval_uint_sub [OF assms(1)] by simp
qed

lemma length_uint_mul32_loop [simp]: "length (uint_mul32_loop c p a) = length a"
  by (induction c p a rule: uint_mul32_loop.induct) (simp_all add: Let_def)

lemma wval_uint_mul32_loop:
  "unat c < 2 ^ 32 \<Longrightarrow> wval (uint_mul32_loop c p a) = (unat c + unat p * wval a) mod modulus a"
proof (induction c p a rule: uint_mul32_loop.induct)
  case (2 c p x a)
  let ?n = "c + ucast p * ucast x :: u64"
  have n: "unat ?n = unat c + unat p * unat x"
    using unat_carry [OF 2(2), of 0 p x] by simp
  have "unat (drop_bit 32 ?n) < 2 ^ 32"
    using carry_out_bound [OF 2(2), of 0 p x] by (simp only: unat_hi32 n) simp
  from wval_lo_hi [OF 2(1) [OF refl this]]
  have "wval (uint_mul32_loop c p (x # a)) = (unat ?n + 2 ^ 32 * (unat p * wval a)) mod (2 ^ 32 * modulus a)"
    by (simp only: uint_mul32_loop.simps Let_def)
  moreover have "unat ?n + 2 ^ 32 * (unat p * wval a) = unat c + unat p * wval (x # a)"
    unfolding n wval_limb_Cons by (simp only: distrib_left ac_simps)
  ultimately show ?case by (simp only: modulus_Cons)
qed simp

lemma wval_uint_mul32: "wval (uint_mul32 a p) = wval a * unat p mod modulus a"
  using wval_uint_mul32_loop [of 0 p a] by (simp add: uint_mul32_def mult.commute)

lemma length_uint_mul_row [simp]: "length (uint_mul_row c p a b) = length a"
  by (induction c p a b rule: uint_mul_row.induct) (simp_all add: Let_def)

lemma wval_uint_mul_row:
  "length a \<le> length b \<Longrightarrow> unat c < 2 ^ 32 \<Longrightarrow>
   wval (uint_mul_row c p a b) = (unat c + wval a + unat p * wval b) mod modulus a"
proof (induction c p a b rule: uint_mul_row.induct)
  case (1 c p x a y b)
  let ?n = "c + ucast x + ucast p * ucast y :: u64"
  have n: "unat ?n = unat c + unat x + unat p * unat y" by (rule unat_carry [OF 1(3)])
  have "unat (drop_bit 32 ?n) < 2 ^ 32"
    using carry_out_bound [OF 1(3), of x p y] by (simp only: unat_hi32 n)
  then have "wval (uint_mul_row (drop_bit 32 ?n) p a b) =
      (unat (drop_bit 32 ?n) + (wval a + unat p * wval b)) mod modulus a"
    using 1 by (simp only: add.assoc length_Cons Suc_le_mono)
  from wval_lo_hi [OF this]
  have "wval (uint_mul_row c p (x # a) (y # b)) =
      (unat ?n + 2 ^ 32 * (wval a + unat p * wval b)) mod (2 ^ 32 * modulus a)"
    by (simp only: uint_mul_row.simps Let_def)
  moreover have "unat ?n + 2 ^ 32 * (wval a + unat p * wval b) =
      unat c + wval (x # a) + unat p * wval (y # b)"
    unfolding n wval_limb_Cons by (simp only: distrib_left distrib_right ac_simps)
  ultimately show ?case by (simp only: modulus_Cons)
qed simp_all

lemma uint_mul_rows:
  assumes "length b = length pn" and "n \<le> length pn"
  defines "r \<equiv> foldl (\<lambda>a j. take j a @ uint_mul_row 0 (pn ! j) (drop j a) b) (replicate (length pn) 0) [0..<n]"
  shows "length r = length pn \<and> wval r = wval (take n pn) * wval b mod modulus pn"
  using assms(2) unfolding r_def
proof (induction n)
  case 0
  then show ?case by simp
next
  case (Suc n)
  let ?a = "foldl (\<lambda>a j. take j a @ uint_mul_row 0 (pn ! j) (drop j a) b) (replicate (length pn) 0) [0..<n]"
  have la: "length ?a = length pn" and va: "wval ?a = wval (take n pn) * wval b mod modulus pn"
    using Suc by simp_all
  let ?m = "(2::nat) ^ (32 * n)" and ?r = "uint_mul_row 0 (pn ! n) (drop n ?a) b"
  have "wval ?r = (0 + wval (drop n ?a) + unat (pn ! n) * wval b) mod modulus (drop n ?a)"
    using wval_uint_mul_row [of "drop n ?a" b 0 "pn ! n"] la assms(1) by simp
  then have row: "wval ?r = (wval (drop n ?a) + unat (pn ! n) * wval b) mod 2 ^ (32 * (length pn - n))"
    by (simp add: la)
  have M: "?m * 2 ^ (32 * (length pn - n)) = modulus pn"
    using Suc.prems by (simp add: power_add [symmetric] diff_mult_distrib2)
  have lt: "length (take n ?a) = n" using la Suc.prems by simp
  have a: "wval (take n ?a) + ?m * wval (drop n ?a) = wval ?a"
    using wval_append [of "take n ?a" "drop n ?a"] lt by simp
  have tb: "wval (take n ?a) < ?m" using wval_limb_bound [of "take n ?a"] lt by simp
  have "wval (take n ?a @ ?r) = wval (take n ?a) + ?m * wval ?r"
    using wval_append [of "take n ?a" ?r] lt by simp
  also have "\<dots> = (wval (take n ?a) + ?m * (wval (drop n ?a) + unat (pn ! n) * wval b)) mod modulus pn"
    using digit_step [of "wval (take n ?a)" ?m "wval (drop n ?a) + unat (pn ! n) * wval b"
      "2 ^ (32 * (length pn - n))"] tb by (simp add: row M)
  also have "\<dots> = (wval ?a + ?m * unat (pn ! n) * wval b) mod modulus pn"
    by (simp only: distrib_left add.assoc [symmetric] a mult.assoc)
  also have "\<dots> = ((wval (take n pn) + ?m * unat (pn ! n)) * wval b) mod modulus pn"
    by (simp add: va mod_simps distrib_right)
  also have "wval (take n pn) + ?m * unat (pn ! n) = wval (take (Suc n) pn)"
    using Suc.prems wval_append [of "take n pn" "[pn ! n]"] by (simp add: take_Suc_conv_app_nth)
  finally show ?case using la by simp
qed

lemma length_uint_mul [simp]: "length b = length a \<Longrightarrow> length (uint_mul a b) = length a"
  using uint_mul_rows [of b a "length a"] by (simp add: uint_mul_def)

lemma wval_uint_mul: "length a = length b \<Longrightarrow> wval (uint_mul a b) = wval a * wval b mod modulus a"
  using uint_mul_rows [of b a "length a"] by (simp add: uint_mul_def)

section \<open>Shifts\<close>

lemma shl_limbs:
  fixes k :: nat
  assumes "s < 32" and "n \<le> length a"
  defines "r \<equiv> foldl (uint_shl_step k s a) (replicate (length a) 0) [0..<n]"
  shows "length r = length a \<and> (\<forall>j < length a. r ! j =
    (if k \<le> j \<and> j - k < n then push_bit s (a ! (j - k)) else 0) OR
    (if s \<noteq> 0 \<and> k + 1 \<le> j \<and> j - k - 1 < n then drop_bit (32 - s) (a ! (j - k - 1)) else 0))"
  using assms(2) unfolding r_def
proof (induction n)
  case 0
  then show ?case by simp
next
  case (Suc n)
  let ?r = "foldl (uint_shl_step k s a) (replicate (length a) 0) [0..<n]"
  have l: "length ?r = length a" using Suc by simp
  have v: "?r ! j = (if k \<le> j \<and> j - k < n then push_bit s (a ! (j - k)) else 0) OR
      (if s \<noteq> 0 \<and> k + 1 \<le> j \<and> j - k - 1 < n then drop_bit (32 - s) (a ! (j - k - 1)) else 0)"
    if "j < length a" for j
    using Suc that by simp
  have "uint_shl_step k s a ?r n ! j =
      (if k \<le> j \<and> j - k < Suc n then push_bit s (a ! (j - k)) else 0) OR
      (if s \<noteq> 0 \<and> k + 1 \<le> j \<and> j - k - 1 < Suc n then drop_bit (32 - s) (a ! (j - k - 1)) else 0)"
    if j: "j < length a" for j
  proof -
    consider "j = n + k" | "j = n + k + 1" | "j \<noteq> n + k" "j \<noteq> n + k + 1" by blast
    then show ?thesis
    proof cases
      case 1
      then show ?thesis using j l v [OF j] by (auto simp: uint_shl_step_def Let_def or.commute)
    next
      case 2
      then show ?thesis using j l v [OF j] by (auto simp: uint_shl_step_def Let_def)
    next
      case 3
      then have "k \<le> j \<Longrightarrow> (j - k < Suc n) = (j - k < n)" and "k + 1 \<le> j \<Longrightarrow> (j - k - 1 < Suc n) = (j - k - 1 < n)"
        by auto
      moreover have "uint_shl_step k s a ?r n ! j = ?r ! j"
        using 3 by (auto simp: uint_shl_step_def Let_def nth_list_update)
      ultimately show ?thesis using 3 v [OF j] by auto
    qed
  qed
  moreover have "length (uint_shl_step k s a ?r n) = length a"
    using l by (simp add: uint_shl_step_def Let_def)
  ultimately show ?case by simp
qed

lemma shr_limbs:
  fixes k :: nat
  assumes "s < 32" and "n \<le> length a"
  defines "r \<equiv> foldl (uint_shr_step k s a) (replicate (length a) 0) [0..<n]"
  shows "length r = length a \<and> (\<forall>j < length a. r ! j =
    (if j + k < n then drop_bit s (a ! (j + k)) else 0) OR
    (if s \<noteq> 0 \<and> j + k + 1 < n then push_bit (32 - s) (a ! (j + k + 1)) else 0))"
  using assms(2) unfolding r_def
proof (induction n)
  case 0
  then show ?case by simp
next
  case (Suc n)
  let ?r = "foldl (uint_shr_step k s a) (replicate (length a) 0) [0..<n]"
  have l: "length ?r = length a" using Suc by simp
  have v: "?r ! j = (if j + k < n then drop_bit s (a ! (j + k)) else 0) OR
      (if s \<noteq> 0 \<and> j + k + 1 < n then push_bit (32 - s) (a ! (j + k + 1)) else 0)"
    if "j < length a" for j
    using Suc that by simp
  have "uint_shr_step k s a ?r n ! j =
      (if j + k < Suc n then drop_bit s (a ! (j + k)) else 0) OR
      (if s \<noteq> 0 \<and> j + k + 1 < Suc n then push_bit (32 - s) (a ! (j + k + 1)) else 0)"
    if j: "j < length a" for j
  proof -
    consider "n = j + k" | "n = j + k + 1" | "n \<noteq> j + k" "n \<noteq> j + k + 1" by blast
    then show ?thesis
    proof cases
      case 1
      then show ?thesis using j l v [OF j] by (auto simp: uint_shr_step_def Let_def nth_list_update)
    next
      case 2
      then show ?thesis using j l v [OF j] by (auto simp: uint_shr_step_def Let_def nth_list_update)
    next
      case 3
      then have "uint_shr_step k s a ?r n ! j = ?r ! j"
        using j l by (auto simp: uint_shr_step_def Let_def nth_list_update)
      then show ?thesis using 3 v [OF j] by auto
    qed
  qed
  moreover have "length (uint_shr_step k s a ?r n) = length a"
    using l by (simp add: uint_shr_step_def Let_def)
  ultimately show ?case by simp
qed

lemma length_uint_shl [simp]: "length (uint_shl a n) = length a"
  using shl_limbs [where s = "n mod 32" and n = "length a" and a = a and k = "n div 32"] by (simp add: uint_shl_def)

lemma length_uint_shr [simp]: "length (uint_shr a n) = length a"
  using shr_limbs [where s = "n mod 32" and n = "length a" and a = a and k = "n div 32"] by (simp add: uint_shr_def)

lemma bit_limb: "r < 32 \<Longrightarrow> bit (wval (a :: base_uint)) (32 * j + r) \<longleftrightarrow> j < length a \<and> bit (a ! j) r"
  by (simp add: bit_wval)

lemma bit_if_0: "bit (if c then x else (0 :: 'a::len word)) r \<longleftrightarrow> c \<and> bit x r"
  by simp

lemma wval_uint_shl: "wval (uint_shl a n) = wval a * 2 ^ n mod modulus a"
proof -
  define k where "k = n div 32"
  define s where "s = n mod 32"
  have n: "n = 32 * k + s" and s: "s < 32" by (simp_all add: k_def s_def)
  have limb: "uint_shl a n ! j = (if k \<le> j then push_bit s (a ! (j - k)) else 0) OR
      (if s \<noteq> 0 \<and> k + 1 \<le> j then drop_bit (32 - s) (a ! (j - k - 1)) else 0)" if "j < length a" for j
    using shl_limbs [OF s order.refl, where k = k and a = a] that by (auto simp: uint_shl_def k_def s_def)
  have lb: "bit (uint_shl a n ! j) r \<longleftrightarrow> k \<le> j \<and> s \<le> r \<and> bit (a ! (j - k)) (r - s) \<or>
      s \<noteq> 0 \<and> k + 1 \<le> j \<and> bit (a ! (j - k - 1)) (32 - s + r)" if "j < length a" "r < 32" for j r
    unfolding limb [OF that(1)] bit_or_iff bit_if_0 using that(2) by (auto simp: bit_simps)
  have "bit (wval (uint_shl a n)) m = bit (take_bit (32 * length a) (push_bit n (wval a))) m" for m
  proof -
    define j where "j = m div 32"
    define r where "r = m mod 32"
    have m: "m = 32 * j + r" and r: "r < 32" by (simp_all add: j_def r_def)
    show ?thesis
    proof (cases "j < length a \<and> n \<le> m")
      case False
      then consider "length a \<le> j" | "j < length a" "m < n" by linarith
      then show ?thesis
      proof cases
        case 1
        then have "32 * length a \<le> m" unfolding m by simp
        then show ?thesis using 1 r by (simp add: bit_wval bit_simps m)
      next
        case 2
        then have "j \<le> k" and "j = k \<Longrightarrow> r < s" unfolding m n using r s by auto
        then have "\<not> bit (uint_shl a n ! j) r" using 2 r s by (cases "j = k") (auto simp: lb)
        moreover have "bit (wval (uint_shl a n)) m = bit (uint_shl a n ! j) r" unfolding m using 2 r by (simp add: bit_limb)
        ultimately show ?thesis using 2 by (simp add: bit_simps)
      qed
    next
      case True
      then have jk: "k \<le> j" and mb: "m < 32 * length a" unfolding m n using r s by auto
      then obtain d where d: "j = k + d" using le_Suc_ex by blast
      have l: "bit (wval (uint_shl a n)) m = bit (uint_shl a n ! j) r"
        unfolding m using True r by (simp add: bit_limb)
      have long: "32 \<le> i \<Longrightarrow> \<not> bit (x :: u32) i" for x i
        using bit_imp_le_length [of x i] by auto
      show ?thesis
      proof (cases "s \<le> r")
        case True
        then have "m - n = 32 * d + (r - s)" unfolding m n d by simp
        then have "bit (push_bit n (wval a)) m = bit (a ! d) (r - s)"
          using \<open>j < length a \<and> n \<le> m\<close> r by (simp add: bit_push_bit_iff bit_limb d)
        moreover have "bit (uint_shl a n ! j) r = bit (a ! d) (r - s)"
          using True \<open>j < length a \<and> n \<le> m\<close> r long [of "32 - s + r" "a ! (j - k - 1)"] by (auto simp: lb d)
        ultimately show ?thesis using mb l by (simp add: bit_take_bit_iff)
      next
        case False
        with True obtain e where e: "d = Suc e" unfolding m n d by (cases d) auto
        then have "m - n = 32 * e + (r + 32 - s)" and rs: "r + 32 - s < 32" unfolding m n d using False s r by auto
        then have "bit (push_bit n (wval a)) m = bit (a ! e) (r + 32 - s)"
          using \<open>j < length a \<and> n \<le> m\<close> by (simp add: bit_push_bit_iff bit_limb d e)
        moreover have "bit (uint_shl a n ! j) r = bit (a ! e) (r + 32 - s)"
          using False \<open>j < length a \<and> n \<le> m\<close> r s by (auto simp: lb d e add.commute)
        ultimately show ?thesis using mb l by (simp add: bit_take_bit_iff)
      qed
    qed
  qed
  then have "wval (uint_shl a n) = take_bit (32 * length a) (push_bit n (wval a))" by (rule bit_eqI)
  then show ?thesis by (simp add: take_bit_eq_mod push_bit_eq_mult)
qed

lemma wval_uint_shr: "wval (uint_shr a n) = wval a div 2 ^ n"
proof -
  define k where "k = n div 32"
  define s where "s = n mod 32"
  have n: "n = 32 * k + s" and s: "s < 32" by (simp_all add: k_def s_def)
  have limb: "uint_shr a n ! j = (if j + k < length a then drop_bit s (a ! (j + k)) else 0) OR
      (if s \<noteq> 0 \<and> j + k + 1 < length a then push_bit (32 - s) (a ! (j + k + 1)) else 0)" if "j < length a" for j
    using shr_limbs [OF s order.refl, where k = k and a = a] that by (auto simp: uint_shr_def k_def s_def)
  have lb: "bit (uint_shr a n ! j) r \<longleftrightarrow> j + k < length a \<and> bit (a ! (j + k)) (s + r) \<or>
      s \<noteq> 0 \<and> j + k + 1 < length a \<and> 32 - s \<le> r \<and> bit (a ! (j + k + 1)) (r - (32 - s))"
    if "j < length a" "r < 32" for j r
    unfolding limb [OF that(1)] bit_or_iff bit_if_0 using that(2) by (auto simp: bit_simps)
  have "bit (wval (uint_shr a n)) m = bit (drop_bit n (wval a)) m" for m
  proof -
    define j where "j = m div 32"
    define r where "r = m mod 32"
    have m: "m = 32 * j + r" and r: "r < 32" by (simp_all add: j_def r_def)
    have l: "bit (wval (uint_shr a n)) m \<longleftrightarrow> j < length a \<and> bit (uint_shr a n ! j) r"
      unfolding m using r by (simp add: bit_limb)
    show ?thesis
    proof (cases "r + s < 32")
      case True
      have "n + m = 32 * (j + k) + (r + s)" by (simp add: m n)
      then have "bit (drop_bit n (wval a)) m \<longleftrightarrow> j + k < length a \<and> bit (a ! (j + k)) (r + s)"
        using True by (simp only: bit_drop_bit_eq o_def bit_limb)
      then show ?thesis using True r s unfolding l by (auto simp: lb add.commute)
    next
      case False
      then have "n + m = 32 * (j + k + 1) + (r + s - 32)" and rs: "r + s - 32 < 32"
        using r s by (auto simp: m n)
      then have "bit (drop_bit n (wval a)) m \<longleftrightarrow> j + k + 1 < length a \<and> bit (a ! (j + k + 1)) (r + s - 32)"
        by (simp only: bit_drop_bit_eq o_def bit_limb)
      moreover have "32 - s \<le> r" "r - (32 - s) = r + s - 32" "s \<noteq> 0" using False r s by auto
      moreover have "\<not> bit (a ! i) (s + r)" for i using False bit_imp_le_length [of "a ! i" "s + r"] by auto
      ultimately show ?thesis using False r s unfolding l by (auto simp: lb)
    qed
  qed
  then have "wval (uint_shr a n) = drop_bit n (wval a)" by (rule bit_eqI)
  then show ?thesis by (simp add: drop_bit_eq_div)
qed

section \<open>Comparison, bit length and division\<close>

lemma wval_snoc: "wval (a @ [x] :: base_uint) = wval a + modulus a * unat x"
  by (simp add: wval_append)

lemma CompareTo_wval:
  assumes "length a = length b"
  shows "CompareTo a b = (if wval a < wval b then -1 else if wval a > wval b then 1 else 0)"
  using assms
proof (induction a arbitrary: b rule: rev_induct)
  case Nil
  then show ?case by (simp add: CompareTo_def)
next
  case (snoc x a)
  then obtain b' y where b: "b = b' @ [y]" and l: "length a = length b'"
    by (metis length_append_singleton length_0_conv nat.inject rev_exhaust Zero_not_Suc)
  then have m: "modulus a = modulus b'" by simp
  have less: "wval p + k * u < wval q + k * v" if "wval p < k" "u < v" for p q :: base_uint and k u v :: nat
  proof -
    from that(2) have "k * Suc u \<le> k * v" by (intro mult_le_mono2) simp
    then have "k + k * u \<le> k * v" by (simp only: mult_Suc_right)
    with that(1) show ?thesis by linarith
  qed
  consider "unat x < unat y" | "unat y < unat x" | "x = y" by (metis linorder_neqE_nat word_unat_eq_iff)
  then show ?case
  proof cases
    case 1
    then have "wval (a @ [x]) < wval b" unfolding b wval_snoc m [symmetric] by (intro less) simp_all
    then show ?thesis using 1 by (simp add: CompareTo_def b word_less_nat_alt)
  next
    case 2
    then have "wval b < wval (a @ [x])" unfolding b wval_snoc m [symmetric] by (intro less) (simp_all add: m)
    then show ?thesis using 2 by (simp add: CompareTo_def b word_less_nat_alt)
  next
    case 3
    then show ?thesis using snoc.IH [OF l] by (simp add: b CompareTo_def wval_snoc m)
  qed
qed

lemma even_less_2: "even n \<Longrightarrow> n < 2 \<Longrightarrow> n = (0 :: nat)"
  by presburger

lemma limb_bits_bit_length:
  "x \<noteq> 0 \<Longrightarrow> unat x < 2 ^ Suc n \<Longrightarrow> limb_bits x n = bit_length (unat x)"
proof (induction n)
  case 0
  then have "unat x = 1" by (simp add: unat_eq_0 [symmetric])
  then show ?case by (simp add: bit_length.simps)
next
  case (Suc n)
  have t: "x AND push_bit (Suc n) 1 = 0 \<longleftrightarrow> \<not> bit x (Suc n)"
    unfolding push_bit_of_1 by (rule and_exp_eq_0_iff_not_bit)
  have o: "odd (unat x div 2 ^ Suc n) \<longleftrightarrow> bit x (Suc n)"
    using bit_nat_iff_odd [of "unat x" "Suc n"] by (simp add: bit_unsigned_iff)
  show ?case
  proof (cases "bit x (Suc n)")
    case True
    with o have "odd (unat x div 2 ^ Suc n)" by simp
    then have "0 < unat x div 2 ^ Suc n" by (rule odd_pos)
    then have "2 ^ Suc n \<le> unat x" by (simp only: div_greater_zero_iff)
    then have "bit_length (unat x) = Suc (Suc n)" using Suc.prems by (intro bit_length_eqI)
    with True t show ?thesis by simp
  next
    case False
    with o have "even (unat x div 2 ^ Suc n)" by simp
    moreover have "unat x div 2 ^ Suc n < 2" using Suc.prems by (simp add: div_less_iff_less_mult)
    ultimately have "unat x div 2 ^ Suc n = 0" by (rule even_less_2)
    then have "unat x < 2 ^ Suc n" by (simp add: div_eq_0_iff)
    with False t Suc show ?thesis by simp
  qed
qed

lemma bit_length_high:
  assumes "low < 2 ^ k" and "0 < x"
  shows "bit_length (low + 2 ^ k * x) = k + bit_length x"
proof -
  obtain b where b: "bit_length x = Suc b" using assms(2) by (cases "bit_length x") auto
  have lo: "2 ^ b \<le> x" and hi: "Suc x \<le> 2 ^ Suc b"
    using bit_length_le [OF assms(2)] less_bit_length [of x] by (simp_all add: b)
  have "(2::nat) ^ k * Suc x \<le> 2 ^ k * 2 ^ Suc b" by (rule mult_le_mono2 [OF hi])
  then have "low + 2 ^ k * x < 2 ^ Suc (k + b)" using assms(1) by (simp add: power_add)
  moreover have "(2::nat) ^ k * 2 ^ b \<le> 2 ^ k * x" by (rule mult_le_mono2 [OF lo])
  then have "2 ^ (k + b) \<le> low + 2 ^ k * x" unfolding power_add by linarith
  ultimately show ?thesis by (simp add: b bit_length_eqI)
qed

lemma uint_bits_loop_bit_length:
  "n \<le> length pn \<Longrightarrow> uint_bits_loop pn n = bit_length (wval (take n pn))"
proof (induction n)
  case 0
  then show ?case by simp
next
  case (Suc n)
  then have w: "wval (take (Suc n) pn) = wval (take n pn) + 2 ^ (32 * n) * unat (pn ! n)"
    by (simp add: take_Suc_conv_app_nth wval_snoc)
  have "wval (take n pn) < 2 ^ (32 * n)" using wval_limb_bound [of "take n pn"] Suc.prems by simp
  then show ?case
    using Suc unat_bound [of "pn ! n"] unfolding w
    by (cases "pn ! n = 0") (simp_all add: bit_length_high limb_bits_bit_length word_unat_eq_iff)
qed

lemma uint_bits_bit_length: "uint_bits pn = bit_length (wval pn)"
  by (simp add: uint_bits_def uint_bits_loop_bit_length)

lemma uint_set_bit_wval:
  assumes "s < 32 * length q" and "2 ^ Suc s dvd wval q"
  shows "wval (uint_set_bit q s) = wval q + 2 ^ s"
proof -
  have "bit (wval (uint_set_bit q s)) m = bit (wval q OR 2 ^ s) m" for m
    using assms(1) by (cases "m div 32 = s div 32")
      (auto simp: bit_wval uint_set_bit_def bit_simps nth_list_update div_less_iff_less_mult
        dest: arg_cong [of _ _ "\<lambda>x. x * 32"] | metis div_mult_mod_eq)+
  then have "wval (uint_set_bit q s) = wval q OR 2 ^ s" by (rule bit_eqI)
  moreover have "\<not> bit (wval q) s"
    using assms(2) by (auto simp: bit_iff_odd dvd_def)
  then have "wval q + 2 ^ s = wval q OR 2 ^ s"
    by (intro disjunctive_add) (auto simp: bit_simps)
  ultimately show ?thesis by simp
qed

lemma length_uint_set_bit [simp]: "length (uint_set_bit q s) = length q"
  by (simp add: uint_set_bit_def)

lemma uint_div_loop_wval:
  "length num = length quo \<Longrightarrow> length dv = length quo \<Longrightarrow> c \<le> 32 * length quo \<Longrightarrow> 0 < d \<Longrightarrow>
   (0 < c \<Longrightarrow> wval dv = d * 2 ^ (c - 1)) \<Longrightarrow> wval num < d * 2 ^ c \<Longrightarrow> 2 ^ c dvd wval quo \<Longrightarrow>
   length (uint_div_loop c num dv quo) = length quo \<and>
   wval (uint_div_loop c num dv quo) = wval quo + wval num div d"
proof (induction c arbitrary: num dv quo)
  case 0
  then show ?case by simp
next
  case (Suc c)
  have dv: "wval dv = d * 2 ^ c" using Suc.prems(5) by simp
  have half: "wval (uint_shr dv 1) = d * 2 ^ (c - 1)" if "0 < c"
    using that dv by (cases c) (simp_all add: wval_uint_shr)
  have "2 ^ c dvd (2 :: nat) ^ Suc c" by simp
  then have even: "2 ^ c dvd wval quo" using Suc.prems(7) by (rule dvd_trans)
  show ?case
  proof (cases "wval dv \<le> wval num")
    case True
    let ?num = "uint_sub num dv" and ?quo = "uint_set_bit quo c"
    have n: "wval ?num = wval num - d * 2 ^ c" using True Suc.prems by (simp add: wval_uint_sub_le dv)
    have q: "wval ?quo = wval quo + 2 ^ c" using Suc.prems by (intro uint_set_bit_wval) simp_all
    have "wval ?num < d * 2 ^ c" using Suc.prems(6) True by (simp add: n dv)
    moreover have "2 ^ c dvd wval ?quo" using even by (simp add: q)
    moreover obtain x where x: "wval num = d * 2 ^ c + x" using True unfolding dv by (metis le_Suc_ex)
    then have "wval num div d = 2 ^ c + (wval num - d * 2 ^ c) div d" using Suc.prems(4) by simp
    ultimately show ?thesis
      using Suc.IH [of ?num ?quo "uint_shr dv 1"] Suc.prems True half
      by (simp add: CompareTo_wval n q)
  next
    case False
    then have "wval num < d * 2 ^ c" by (simp add: dv)
    then show ?thesis
      using Suc.IH [of num quo "uint_shr dv 1"] Suc.prems False half even by (simp add: CompareTo_wval)
  qed
qed

lemma uint_div_wval:
  assumes "length a = length b" and "wval b \<noteq> 0"
  shows "\<exists>q. uint_div a b = Inr q \<and> length q = length a \<and> wval q = wval a div wval b"
proof -
  let ?nb = "bit_length (wval a)" and ?db = "bit_length (wval b)"
  have d0: "0 < wval b" and db: "0 < ?db" using assms(2) by (simp_all only: neq0_conv [symmetric] bit_length_eq_0 simp_thms)
  have na: "wval a < 2 ^ ?nb" by (rule less_bit_length)
  have bl: "2 ^ (?db - 1) \<le> wval b" by (rule bit_length_le [OF d0])
  show ?thesis
  proof (cases "?nb < ?db")
    case True
    then have "(2::nat) ^ ?nb \<le> 2 ^ (?db - 1)" by (intro power_increasing) auto
    with na bl have "wval a < wval b" by linarith
    then have "wval a div wval b = 0" by (rule div_less)
    with True db d0 show ?thesis by (simp add: uint_div_def Let_def uint_bits_bit_length)
  next
    case False
    let ?s = "?nb - ?db"
    have s: "?nb = ?db + ?s" using False by simp
    have nW: "?nb \<le> 32 * length a" unfolding bit_length_le_iff by simp
    have "wval b * 2 ^ ?s < 2 ^ ?db * 2 ^ ?s" using less_bit_length [of "wval b"] by simp
    also have "\<dots> = 2 ^ ?nb" using s by (simp add: power_add [symmetric])
    also have "\<dots> \<le> modulus b" using nW assms(1) by simp
    finally have sh: "wval (uint_shl b ?s) = wval b * 2 ^ ?s" by (simp add: wval_uint_shl)
    have "(2::nat) ^ ?nb = 2 ^ (?db - 1) * 2 ^ (?s + 1)"
      using s db by (simp add: power_add [symmetric] del: power_Suc)
    also have "\<dots> \<le> wval b * 2 ^ (?s + 1)" using bl by simp
    finally have "wval a < wval b * 2 ^ (?s + 1)" using na by simp
    moreover have "?s + 1 \<le> 32 * length a" using nW db False by linarith
    ultimately show ?thesis
      using uint_div_loop_wval [of a "replicate (length a) 0" "uint_shl b ?s" "?s + 1" "wval b"]
        False db d0 assms(1) sh by (simp add: uint_div_def Let_def uint_bits_bit_length)
  qed
qed

lemma uint_div_by_zero: "wval b = 0 \<Longrightarrow> uint_div a b = Inl Division_by_zero"
  by (simp add: uint_div_def Let_def uint_bits_bit_length)

section \<open>Conversions\<close>

lemma length_uint_of_u64 [simp]: "2 \<le> w \<Longrightarrow> length (uint_of_u64 w b) = w"
  by (simp add: uint_of_u64_def)

lemma wval_uint_of_u64 [simp]: "wval (uint_of_u64 w b) = unat b"
proof -
  have "unat (drop_bit 32 b) < 2 ^ 32" using unat_bound [of b] by (simp add: unat_drop_bit div_less_iff_less_mult)
  then have "unat (ucast (drop_bit 32 b) :: u32) = unat b div 2 ^ 32"
    by (simp add: unat_ucast_down unat_drop_bit)
  moreover have "unat (ucast b :: u32) = unat b mod 2 ^ 32" by (simp add: unat_ucast_down)
  ultimately show ?thesis by (simp add: uint_of_u64_def)
qed

lemma limb_pair:
  "2 \<le> length pn \<Longrightarrow> wval (pn :: base_uint) = unat (pn ! 0) + 2 ^ 32 * unat (pn ! 1) + 2 ^ 64 * wval (drop 2 pn)"
  by (cases pn; cases "tl pn") auto

lemma GetLow64_wval:
  assumes "2 \<le> length pn"
  shows "GetLow64 pn = of_nat (wval pn)"
proof -
  have "ucast (pn ! 0) OR push_bit 32 (ucast (pn ! 1)) = (ucast (pn ! 0) + push_bit 32 (ucast (pn ! 1)) :: u64)"
    by (rule disjunctive_add [symmetric]) (auto simp: bit_simps dest: bit_imp_le_length)
  also have "\<dots> = of_nat (unat (pn ! 0) + 2 ^ 32 * unat (pn ! 1))"
    by (simp add: push_bit_eq_mult mult.commute flip: unat_ucast_u64)
  also have "\<dots> = of_nat (wval pn)"
  proof -
    have "(of_nat (2 ^ 64) :: u64) = 0" by simp
    then show ?thesis unfolding limb_pair [OF assms] by (simp only: of_nat_add of_nat_mult) simp
  qed
  finally show ?thesis by (simp add: GetLow64_def)
qed

lemma EqualTo_wval:
  assumes "2 \<le> length pn"
  shows "EqualTo pn b \<longleftrightarrow> wval pn = unat b"
proof -
  have m: "(0xffffffff :: u64) = mask 32" by (simp add: mask_eq_exp_minus_1)
  have lo: "ucast (pn ! 0) = b AND 0xffffffff \<longleftrightarrow> unat (pn ! 0) = unat b mod 2 ^ 32"
    unfolding m take_bit_eq_mask [symmetric] word_unat_eq_iff unat_ucast_u64
    by (simp add: unsigned_take_bit_eq take_bit_eq_mod unat_mod)
  have hi: "ucast (pn ! 1) = drop_bit 32 b \<longleftrightarrow> unat (pn ! 1) = unat b div 2 ^ 32"
    unfolding word_unat_eq_iff unat_ucast_u64 unat_hi32 ..
  have rest: "list_all (\<lambda>x. x = 0) (drop 2 pn) \<longleftrightarrow> wval (drop 2 pn) = 0"
    by (simp add: wval_eq_0 list_all_iff)
  have b: "unat b < 2 ^ 64" using unat_bound [of b] by simp
  have x0: "unat (pn ! 0) < 2 ^ 32" using unat_bound [of "pn ! 0"] by simp
  have x1: "unat (pn ! 1) < 2 ^ 32" using unat_bound [of "pn ! 1"] by simp
  show ?thesis
  proof
    assume "EqualTo pn b"
    then show "wval pn = unat b" using lo hi rest unfolding EqualTo_def limb_pair [OF assms] by simp
  next
    assume eq: "wval pn = unat b"
    then have r: "wval (drop 2 pn) = 0" using b unfolding limb_pair [OF assms] by (cases "wval (drop 2 pn)") auto
    then have e: "unat b = unat (pn ! 0) + 2 ^ 32 * unat (pn ! 1)" using eq unfolding limb_pair [OF assms] by simp
    then have "unat (pn ! 0) = unat b mod 2 ^ 32" "unat (pn ! 1) = unat b div 2 ^ 32" using x0 by simp_all
    then show "EqualTo pn b" using lo hi rest r by (simp add: EqualTo_def)
  qed
qed

lemma ArithToUint256_wval: "le_nat (ArithToUint256 a) = wval a \<and> length (ArithToUint256 a) = 4 * length a"
proof (induction a)
  case Nil
  then show ?case by (simp add: ArithToUint256_def)
next
  case (Cons x a)
  have "le_nat (le_bytes 4 x) = unat x" using unat_bound [of x] by (simp add: le_nat_le_bytes)
  then show ?case using Cons
    by (simp add: ArithToUint256_def WriteLE_bytes wval_append)
qed

lemma length_UintToArith256 [simp]: "length (UintToArith256 a) = 8"
  by (simp add: UintToArith256_def)

lemma UintToArith256_inverse: "length a = 8 \<Longrightarrow> UintToArith256 (ArithToUint256 a) = a"
proof (rule nth_equalityI)
  assume l: "length a = 8"
  fix i assume i: "i < length (UintToArith256 (ArithToUint256 a))"
  have split: "ArithToUint256 a = ArithToUint256 (take i a) @ WriteLE32 Little (a ! i) @ ArithToUint256 (drop (Suc i) a)"
    using i l id_take_nth_drop [of i a] by (simp add: ArithToUint256_def) (metis concat.simps(2) concat_append list.map(2) map_append)
  have "drop (i * 4) (ArithToUint256 a) = WriteLE32 Little (a ! i) @ ArithToUint256 (drop (Suc i) a)"
    unfolding split using ArithToUint256_wval [of "take i a"] i l by simp
  then show "UintToArith256 (ArithToUint256 a) ! i = a ! i"
    using i by (simp add: UintToArith256_def codec)
qed simp

lemma wval_UintToArith256: "is_uint256 h \<Longrightarrow> wval (UintToArith256 h) = le_nat h"
proof -
  assume h: "is_uint256 h"
  then have l: "length h = 32" by (simp add: is_uint256_def)
  have "ArithToUint256 (UintToArith256 h) = h"
  proof -
    have w: "WriteLE32 Little (ReadLE32 Little (drop (i * 4) h)) = take 4 (drop (i * 4) h)" if "i < 8" for i
      using that l by (simp add: WriteLE_bytes ReadLE_word le_bytes_le_nat)
    have "concat (map (\<lambda>i. take 4 (drop (i * 4) h)) [0..<n]) = take (n * 4) h" for n
      by (induction n) (simp_all add: take_add add.commute [of 4])
    from this [of 8] have "concat (map (\<lambda>i. take 4 (drop (i * 4) h)) [0..<8]) = h" using l by simp
    moreover have "map (\<lambda>i. WriteLE32 Little (ReadLE32 Little (drop (i * 4) h))) [0..<8] =
        map (\<lambda>i. take 4 (drop (i * 4) h)) [0..<8]"
      by (rule map_cong [OF refl]) (rule w, simp)
    ultimately show ?thesis
      by (simp only: ArithToUint256_def UintToArith256_def map_map comp_def)
  qed
  then show ?thesis using ArithToUint256_wval [of "UintToArith256 h"] by simp
qed

section \<open>The interface\<close>

text \<open>
  What the users of a big integer type rely on: the operators compute modulo \<open>2 ^ B\<close>, division is
  exact and reports a zero divisor, comparison and bit length are those of the value.
\<close>

locale big_uint =
  fixes width_ok :: "'u \<Rightarrow> bool"
    and val :: "'u \<Rightarrow> nat"
    and B :: nat
    and of_u64 :: "u64 \<Rightarrow> 'u"
    and compl :: "'u \<Rightarrow> 'u"
    and add :: "'u \<Rightarrow> 'u \<Rightarrow> 'u"
    and sub :: "'u \<Rightarrow> 'u \<Rightarrow> 'u"
    and mul :: "'u \<Rightarrow> 'u \<Rightarrow> 'u"
    and quot :: "'u \<Rightarrow> 'u \<Rightarrow> uint_error + 'u"
    and shl :: "'u \<Rightarrow> nat \<Rightarrow> 'u"
    and shr :: "'u \<Rightarrow> nat \<Rightarrow> 'u"
    and bits :: "'u \<Rightarrow> nat"
  assumes val_bound: "width_ok a \<Longrightarrow> val a < 2 ^ B"
    and val_inj: "width_ok a \<Longrightarrow> width_ok b \<Longrightarrow> val a = val b \<Longrightarrow> a = b"
    and of_u64: "width_ok (of_u64 x)" "val (of_u64 x) = unat x"
    and compl: "width_ok a \<Longrightarrow> width_ok (compl a)" "width_ok a \<Longrightarrow> val (compl a) = 2 ^ B - 1 - val a"
    and add: "width_ok a \<Longrightarrow> width_ok b \<Longrightarrow> width_ok (add a b)"
      "width_ok a \<Longrightarrow> width_ok b \<Longrightarrow> val (add a b) = (val a + val b) mod 2 ^ B"
    and sub: "width_ok a \<Longrightarrow> width_ok b \<Longrightarrow> width_ok (sub a b)"
      "width_ok a \<Longrightarrow> width_ok b \<Longrightarrow> val (sub a b) = (val a + (2 ^ B - val b)) mod 2 ^ B"
    and mul: "width_ok a \<Longrightarrow> width_ok b \<Longrightarrow> width_ok (mul a b)"
      "width_ok a \<Longrightarrow> width_ok b \<Longrightarrow> val (mul a b) = val a * val b mod 2 ^ B"
    and quot: "width_ok a \<Longrightarrow> width_ok b \<Longrightarrow> val b = 0 \<Longrightarrow> quot a b = Inl Division_by_zero"
      "width_ok a \<Longrightarrow> width_ok b \<Longrightarrow> val b \<noteq> 0 \<Longrightarrow>
        \<exists>q. quot a b = Inr q \<and> width_ok q \<and> val q = val a div val b"
    and shl: "width_ok a \<Longrightarrow> width_ok (shl a n)" "width_ok a \<Longrightarrow> val (shl a n) = val a * 2 ^ n mod 2 ^ B"
    and shr: "width_ok a \<Longrightarrow> width_ok (shr a n)" "width_ok a \<Longrightarrow> val (shr a n) = val a div 2 ^ n"
    and bits: "width_ok a \<Longrightarrow> bits a = bit_length (val a)"
begin

lemma add_exact: "width_ok a \<Longrightarrow> width_ok b \<Longrightarrow> val a + val b < 2 ^ B \<Longrightarrow> val (add a b) = val a + val b"
  by (simp add: add)

lemma mul_exact: "width_ok a \<Longrightarrow> width_ok b \<Longrightarrow> val a * val b < 2 ^ B \<Longrightarrow> val (mul a b) = val a * val b"
  by (simp add: mul)

lemma sub_exact: "width_ok a \<Longrightarrow> width_ok b \<Longrightarrow> val b \<le> val a \<Longrightarrow> val (sub a b) = val a - val b"
proof -
  assume w: "width_ok a" "width_ok b" and le: "val b \<le> val a"
  have "val a + (2 ^ B - val b) = val a - val b + 2 ^ B" using le val_bound [OF w(2)] by linarith
  moreover have "val a - val b < 2 ^ B" using val_bound [OF w(1)] by linarith
  ultimately show ?thesis by (simp add: sub w)
qed

text \<open>The work formula \<open>~t / (t + 1) + 1\<close> is the rounded-down quotient \<open>2 ^ B / (t + 1)\<close>.\<close>

lemma work_formula:
  assumes "width_ok t" and "0 < val t" and "val t + 1 < 2 ^ B" and "0 < B"
  shows "\<exists>q. quot (compl t) (add t (of_u64 1)) = Inr q \<and> width_ok q \<and>
    val (add q (of_u64 1)) = 2 ^ B div (val t + 1)"
proof -
  have one: "val (of_u64 1) = 1" by (simp add: of_u64)
  have d: "val (add t (of_u64 1)) = val t + 1" using assms by (simp add: add of_u64 one)
  have n: "val (compl t) = 2 ^ B - (val t + 1)" using assms(1) by (simp add: compl)
  have "\<exists>q. quot (compl t) (add t (of_u64 1)) = Inr q \<and> width_ok q \<and>
      val q = val (compl t) div val (add t (of_u64 1))"
    by (rule quot(2)) (use assms in \<open>simp_all add: compl add of_u64 d\<close>)
  then obtain q where q: "quot (compl t) (add t (of_u64 1)) = Inr q" "width_ok q"
      "val q = (2 ^ B - (val t + 1)) div (val t + 1)"
    unfolding d n by blast
  have "2 ^ B = (2 ^ B - (val t + 1)) + (val t + 1)" using assms(3) by simp
  then have e: "2 ^ B div (val t + 1) = val q + 1"
    unfolding q(3) by (metis add.commute add_is_0 div_add_self2 one_neq_zero plus_1_eq_Suc Suc_eq_plus1)
  have "2 ^ B div (val t + 1) \<le> 2 ^ B div 2" using assms(2) by (intro div_le_mono2) simp_all
  also have "\<dots> < (2::nat) ^ B" by simp
  finally have "val q + 1 < 2 ^ B" unfolding e .
  then have "val (add q (of_u64 1)) = val q + 1" using q(2) by (simp add: add of_u64 one)
  then show ?thesis using q e by auto
qed

end

lemma length_uint_mul32 [simp]: "length (uint_mul32 a c) = length a"
  by (simp add: uint_mul32_def)

section \<open>Both representations implement the interface\<close>

lemma limbs_big_uint:
  "2 \<le> w \<Longrightarrow> big_uint (\<lambda>a. length a = w) wval (32 * w) (uint_of_u64 w) uint_not uint_add uint_sub uint_mul
     uint_div uint_shl uint_shr uint_bits"
  by unfold_locales
    (auto simp: wval_uint_not wval_uint_add wval_uint_sub wval_uint_mul wval_uint_shl wval_uint_shr
      uint_bits_bit_length uint_div_by_zero intro: wval_inj uint_div_wval)

lemma unat_not: "unat (NOT (a :: 'a::len word)) = 2 ^ LENGTH('a) - 1 - unat a"
proof -
  have "NOT a = -1 - a" by (simp add: not_eq_complement)
  then show ?thesis using unat_sub [of a "-1"] by (simp add: unsigned_minus_1_eq_mask mask_eq_exp_minus_1)
qed

lemma unat_sub_mod: "unat (a - b :: 'a::len word) = (unat a + (2 ^ LENGTH('a) - unat b)) mod 2 ^ LENGTH('a)"
proof -
  have "unat b \<le> 2 ^ LENGTH('a)" using unat_bound [of b] by linarith
  then have "a - b = of_nat (unat a + (2 ^ LENGTH('a) - unat b))" by (simp add: of_nat_diff)
  then show ?thesis by (simp only: unat_of_nat)
qed

lemma words_big_uint:
  "64 \<le> LENGTH('a) \<Longrightarrow> big_uint (\<lambda>_. True) (unat :: 'a::len word \<Rightarrow> nat) LENGTH('a) ucast NOT (+) (-) (*)
     word_quot (\<lambda>a n. push_bit n a) (\<lambda>a n. drop_bit n a) word_bits"
proof unfold_locales
  assume w: "64 \<le> LENGTH('a)"
  show "unat (ucast x :: 'a word) = unat x" for x :: u64
  proof -
    have "(2::nat) ^ 64 \<le> 2 ^ LENGTH('a)" using w by (rule power_increasing) simp
    then have "unat x < 2 ^ LENGTH('a)" using unat_bound [of x] by simp
    then show ?thesis by (simp add: unsigned_ucast_eq take_bit_nat_eq_self_iff)
  qed
  show "unat (push_bit n a) = unat a * 2 ^ n mod 2 ^ LENGTH('a)" for a :: "'a word" and n
    unfolding unsigned_push_bit_eq by (simp add: take_bit_eq_mod push_bit_eq_mult)
  show "unat (a - b) = (unat a + (2 ^ LENGTH('a) - unat b)) mod 2 ^ LENGTH('a)" for a b :: "'a word"
    by (rule unat_sub_mod)
  show "unat (NOT a) = 2 ^ LENGTH('a) - 1 - unat a" for a :: "'a word"
    by (rule unat_not)
  show "a = b" if "unat a = unat b" for a b :: "'a word"
    using that by (simp add: word_unat_eq_iff)
qed (simp_all add: word_quot_def unat_div_distrib unat_eq_0 unat_word_ariths unat_drop_bit word_bits_def)

interpretation limbs256: big_uint "\<lambda>a. length a = 8" wval 256 "uint_of_u64 8" uint_not uint_add uint_sub
  uint_mul uint_div uint_shl uint_shr uint_bits
  using limbs_big_uint [of 8] by simp

interpretation limbs512: big_uint "\<lambda>a. length a = 16" wval 512 "uint_of_u64 16" uint_not uint_add uint_sub
  uint_mul uint_div uint_shl uint_shr uint_bits
  using limbs_big_uint [of 16] by simp

interpretation word256: big_uint "\<lambda>_. True" "unat :: arith_uint256 \<Rightarrow> nat" 256 ucast NOT "(+)" "(-)" "(*)"
  word_quot "\<lambda>a n. push_bit n a" "\<lambda>a n. drop_bit n a" word_bits
  using words_big_uint [where 'a = 256] by simp

interpretation word512: big_uint "\<lambda>_. True" "unat :: arith_uint512 \<Rightarrow> nat" 512 ucast NOT "(+)" "(-)" "(*)"
  word_quot "\<lambda>a n. push_bit n a" "\<lambda>a n. drop_bit n a" word_bits
  using words_big_uint [where 'a = 512] by simp

lemma unat_uint_to_word:
  "LENGTH('a) = 32 * length pn \<Longrightarrow> unat (uint_to_word pn :: 'a::len word) = wval pn"
  using wval_limb_bound [of pn] by (simp add: uint_to_word_def unat_of_nat)

section \<open>Properties\<close>

text \<open>
  \<^bold>\<open>C33.\<close> The limb loops are machine arithmetic: reading the limbs as one word, addition, subtraction, both products, complement,
  increment, both shifts, comparison, bit length and the low 64 bits of \<open>base_uint\<close> are the operations of machine words of
  the same width, wrap-around included, for every width of at least two limbs: the eight of \<open>base_uint<256>\<close> and the sixteen
  of \<open>base_uint<512>\<close> in particular.
\<close>

theorem base_uint_refines_word:
  assumes "LENGTH('a::len) = 32 * length a" and "length b = length a" and "2 \<le> length a"
  defines "w \<equiv> uint_to_word :: base_uint \<Rightarrow> 'a word"
  shows "w (uint_add a b) = w a + w b \<and> w (uint_sub a b) = w a - w b \<and> w (uint_mul a b) = w a * w b \<and>
    w (uint_mul32 a c) = w a * ucast c \<and> w (uint_not a) = NOT (w a) \<and> w (uint_inc a) = w a + 1 \<and>
    w (uint_shl a n) = push_bit n (w a) \<and> w (uint_shr a n) = drop_bit n (w a) \<and>
    (CompareTo a b < 0 \<longleftrightarrow> w a < w b) \<and> (CompareTo a b = 0 \<longleftrightarrow> w a = w b) \<and>
    uint_bits a = word_bits (w a) \<and> GetLow64 a = ucast (w a)"
proof -
  have u: "unat (w x) = wval x" if "length x = length a" for x
    unfolding w_def using that assms(1) by (intro unat_uint_to_word) simp
  have I: "w x = y" if "length x = length a" "wval x = unat y" for x and y :: "'a word"
    using that by (simp add: word_unat_eq_iff u)
  have long: "64 \<le> LENGTH('a)" using assms(1,3) by simp
  note L = limbs_big_uint [OF assms(3), folded assms(1)] and W = words_big_uint [where 'a = 'a, OF long]
  note limb = big_uint.add [OF L] big_uint.sub [OF L] big_uint.mul [OF L] big_uint.compl [OF L] big_uint.shl [OF L] big_uint.shr [OF L]
    and word = big_uint.add [OF W] big_uint.sub [OF W] big_uint.mul [OF W] big_uint.compl [OF W] big_uint.shl [OF W] big_uint.shr [OF W]
  note l = assms(2)
  have "unat c < 2 ^ LENGTH('a)" using unat_bound [of c] power_increasing [of 32 "LENGTH('a)" "2::nat"] long by simp
  then have uc: "unat (ucast c :: 'a word) = unat c" by (simp add: unsigned_ucast_eq take_bit_nat_eq_self_iff)
  have "w (uint_add a b) = w a + w b" by (rule I) (use l in \<open>simp_all add: word limb u\<close>)
  moreover have "w (uint_sub a b) = w a - w b" by (rule I) (use l in \<open>simp_all add: word limb u\<close>)
  moreover have "w (uint_mul a b) = w a * w b" by (rule I) (use l in \<open>simp_all add: word limb u\<close>)
  moreover have "w (uint_mul32 a c) = w a * ucast c" by (rule I) (simp_all add: wval_uint_mul32 word uc u assms(1))
  moreover have "w (uint_not a) = NOT (w a)" by (rule I) (simp_all add: word limb u)
  moreover have "w (uint_inc a) = w a + 1" by (rule I) (simp_all add: wval_uint_inc word u assms(1))
  moreover have "w (uint_shl a n) = push_bit n (w a)" by (rule I) (simp_all add: word limb u)
  moreover have "w (uint_shr a n) = drop_bit n (w a)" by (rule I) (simp_all add: word limb u)
  moreover have "CompareTo a b < 0 \<longleftrightarrow> w a < w b" "CompareTo a b = 0 \<longleftrightarrow> w a = w b"
    using l by (simp_all add: CompareTo_wval word_less_nat_alt word_unat_eq_iff u)
  moreover have "uint_bits a = word_bits (w a)" by (simp add: word_bits_def uint_bits_bit_length u)
  moreover have "GetLow64 a = ucast (w a)"
    using assms(3) long by (simp add: GetLow64_wval word_unat_eq_iff unat_of_nat unat_ucast_down u)
  ultimately show ?thesis by (simp only: simp_thms)
qed

theorem base_uint_refines_word_witness:
  "uint_to_word (uint_mul [0xffffffff, 1, 0, 0, 0, 0, 0, 0] [7, 0, 0, 0, 0, 0, 0, 3]) =
     (uint_to_word [0xffffffff, 1, 0, 0, 0, 0, 0, 0] * uint_to_word [7, 0, 0, 0, 0, 0, 0, 3] :: arith_uint256) \<and>
   uint_to_word (uint_add (replicate 16 0xffffffff) (1 # replicate 15 0)) =
     (uint_to_word (replicate 16 0xffffffff) + uint_to_word (1 # replicate 15 0) :: arith_uint512)"
  by (rule conjI [OF base_uint_refines_word [THEN conjunct2, THEN conjunct2, THEN conjunct1]
        base_uint_refines_word [THEN conjunct1]]) simp_all

text \<open>
  \<^bold>\<open>C34.\<close> Division: the shift-and-subtract loop of \<open>operator/=\<close> throws exactly on a zero divisor and
  otherwise returns the integer quotient, for every pair of equally wide integers.
\<close>

theorem base_uint_division:
  assumes "length a = length b"
  shows "if wval b = 0 then uint_div a b = Inl Division_by_zero
    else (case uint_div a b of Inl e \<Rightarrow> False | Inr q \<Rightarrow> length q = length a \<and> wval q = wval a div wval b)"
  using uint_div_by_zero [of b a] uint_div_wval [OF assms] by auto

theorem base_uint_division_witness:
  "case uint_div [0, 0, 1, 0] [10, 0, 0, 0] of Inl e \<Rightarrow> False
     | Inr q \<Rightarrow> length q = 4 \<and> wval q = 18446744073709551616 div 10"
  using base_uint_division [of "[0, 0, 1, 0]" "[10, 0, 0, 0]"] by (simp split: sum.splits)

end
