(* ===== verification/Compact.thy ===== *)
theory Compact
  imports Arith_Uint
begin

text \<open>
  The compact encoding of targets, \<open>nBits\<close> (\<open>arith_uint256::SetCompact\<close> and \<open>GetCompact\<close> of
  src/util/arith_uint256.cpp): a byte count and a 23-bit mantissa with a sign bit.  The assertions of
  \<open>GetCompact\<close> are branches of the model, shown never to fail; encoding keeps the leading bits of the
  target, and decoding an encoded target is a fixed point.
\<close>

section \<open>The encoding\<close>

text \<open>The result is the target with the flags \<open>*pfNegative\<close> and \<open>*pfOverflow\<close>.\<close>

definition SetCompact :: "u32 \<Rightarrow> arith_uint256 \<times> bool \<times> bool" where
  "SetCompact nCompact =
     (let nSize = unat (drop_bit 24 nCompact);
          nWord = nCompact AND 0x007fffff;
          nWord' = (if nSize \<le> 3 then drop_bit (8 * (3 - nSize)) nWord else nWord);
          this = (if nSize \<le> 3 then ucast nWord' else push_bit (8 * (nSize - 3)) (ucast nWord'))
      in (this,
          nWord' \<noteq> 0 \<and> nCompact AND 0x00800000 \<noteq> 0,
          nWord' \<noteq> 0 \<and> (nSize > 34 \<or> nWord' > 0xff \<and> nSize > 33 \<or> nWord' > 0xffff \<and> nSize > 32)))"

text \<open>\<open>None\<close> is a failed assertion.\<close>

definition GetCompact :: "arith_uint256 \<Rightarrow> bool \<Rightarrow> u32 option" where
  "GetCompact this fNegative =
     (let nSize = (word_bits this + 7) div 8;
          nCompact = (if nSize \<le> 3 then ucast (push_bit (8 * (3 - nSize)) (ucast this :: u64))
                      else ucast (ucast (drop_bit (8 * (nSize - 3)) this) :: u64)) :: u32;
          (nCompact, nSize) = (if nCompact AND 0x00800000 \<noteq> 0 then (drop_bit 8 nCompact, nSize + 1)
                               else (nCompact, nSize))
      in if nCompact AND NOT 0x007fffff \<noteq> 0 then None
         else if nSize \<ge> 256 then None
         else let nCompact = nCompact OR push_bit 24 (of_nat nSize)
              in Some (nCompact OR (if fNegative \<and> nCompact AND 0x007fffff \<noteq> 0 then 0x00800000 else 0)))"

section \<open>The encoding on numbers\<close>

definition byte_size :: "nat \<Rightarrow> nat" where
  "byte_size n = (bit_length n + 7) div 8"

definition mantissa :: "nat \<Rightarrow> nat" where
  "mantissa n = (let s = byte_size n in if s \<le> 3 then n * 256 ^ (3 - s) else n div 256 ^ (s - 3))"

definition compact_enc :: "nat \<Rightarrow> nat \<times> nat" where
  "compact_enc n = (if mantissa n \<ge> 2 ^ 23 then (byte_size n + 1, mantissa n div 256)
     else (byte_size n, mantissa n))"

fun compact_dec :: "nat \<times> nat \<Rightarrow> nat" where
  "compact_dec (s, m) = (if s \<le> 3 then m div 256 ^ (3 - s) else m * 256 ^ (s - 3))"

lemma byte_size_upper: "n < 256 ^ byte_size n"
proof -
  have "bit_length n \<le> 8 * byte_size n" unfolding byte_size_def by linarith
  then have "n < 2 ^ (8 * byte_size n)" by (simp only: bit_length_le_iff)
  then show ?thesis by (simp add: power_mult)
qed

lemma byte_size_lower: "0 < n \<Longrightarrow> 256 ^ (byte_size n - 1) \<le> n"
proof -
  assume n: "0 < n"
  then have "0 < bit_length n" by (simp only: neq0_conv [symmetric] bit_length_eq_0 simp_thms)
  then have "8 * (byte_size n - 1) \<le> bit_length n - 1" unfolding byte_size_def by linarith
  then have "(2::nat) ^ (8 * (byte_size n - 1)) \<le> 2 ^ (bit_length n - 1)" by (intro power_increasing) simp_all
  then show ?thesis using bit_length_le [OF n] by (simp add: power_mult)
qed

lemma byte_size_le: "n < 2 ^ 256 \<Longrightarrow> byte_size n \<le> 32"
  unfolding byte_size_def by (simp only: bit_length_le_iff [symmetric])

lemma byte_size_eqI: "256 ^ k \<le> n \<Longrightarrow> n < 256 ^ Suc k \<Longrightarrow> byte_size n = Suc k"
proof -
  assume a: "256 ^ k \<le> n" and b: "n < 256 ^ Suc k"
  have n: "0 < n" using a by (metis gr0I le_zero_eq power_not_zero zero_neq_numeral)
  have "(256::nat) ^ k < 256 ^ byte_size n" using a byte_size_upper [of n] by linarith
  then have "k < byte_size n" by simp
  moreover have "(256::nat) ^ (byte_size n - 1) < 256 ^ Suc k" using b byte_size_lower [OF n] by linarith
  then have "byte_size n - 1 < Suc k" by (rule power_less_imp_less_exp [rotated]) simp
  ultimately show ?thesis by linarith
qed

lemma mantissa_bound: "mantissa n < 2 ^ 24"
proof (cases "byte_size n \<le> 3")
  case True
  then have "(256::nat) ^ byte_size n * 256 ^ (3 - byte_size n) = 2 ^ 24" by (simp add: power_add [symmetric])
  then show ?thesis using byte_size_upper [of n] True by (simp add: mantissa_def Let_def)
      (metis mult_less_mono1 zero_less_numeral zero_less_power)
next
  case False
  then obtain j where "byte_size n = 3 + j" using le_Suc_ex not_less_eq_eq by (metis linear)
  then have "(256::nat) ^ byte_size n = 256 ^ 3 * 256 ^ (byte_size n - 3)" by (simp only: power_add diff_add_inverse)
  then show ?thesis using byte_size_upper [of n] False by (simp add: mantissa_def Let_def div_less_iff_less_mult)
qed

lemma compact_enc_bounds:
  assumes "compact_enc n = (s, m)" and "n < 2 ^ 256"
  shows "m < 2 ^ 23" and "s \<le> 33" and "s = 33 \<Longrightarrow> m \<le> 0xffff"
  using assms mantissa_bound [of n] byte_size_le [of n]
  by (auto simp: compact_enc_def split: if_splits)

text \<open>Decoding what was encoded clears the digits below the mantissa.\<close>

lemma compact_dec_enc:
  assumes "compact_enc n = (s, m)"
  shows "compact_dec (s, m) = n div 256 ^ (s - 3) * 256 ^ (s - 3)"
proof (cases "mantissa n \<ge> 2 ^ 23")
  case True
  then have s: "s = byte_size n + 1" and m: "m = mantissa n div 256" using assms by (simp_all add: compact_enc_def)
  consider "byte_size n \<le> 2" | "byte_size n = 3" | "byte_size n \<ge> 4" by linarith
  then show ?thesis
  proof cases
    case 1
    then obtain j where j: "2 - byte_size n = j" "3 - byte_size n = Suc j" by auto
    then have "m = n * 256 ^ j" using 1 by (simp add: m mantissa_def Let_def)
    moreover have "3 - s = j" using 1 j by (simp add: s)
    ultimately show ?thesis using 1 by (simp add: s)
  next
    case 2
    then show ?thesis by (simp add: s m mantissa_def Let_def)
  next
    case 3
    then obtain j where "byte_size n - 3 = j" "s - 3 = Suc j" by (auto simp: s)
    with 3 show ?thesis by (simp add: s m mantissa_def Let_def div_mult2_eq [symmetric] mult.commute)
  qed
next
  case False
  then have s: "s = byte_size n" and m: "m = mantissa n" using assms by (simp_all add: compact_enc_def)
  then show ?thesis by (cases "byte_size n \<le> 3") (simp_all add: mantissa_def Let_def)
qed

lemma compact_enc_dec:
  assumes "compact_enc n = (s, m)"
  shows "compact_enc (compact_dec (s, m)) = (s, m)"
proof (cases "n = 0")
  case True
  then show ?thesis using assms by (auto simp: compact_enc_def mantissa_def byte_size_def)
next
  case False
  define t where "t = compact_dec (s, m)"
  let ?b = "byte_size n" and ?k = "s - 3"
  have t: "t = n div 256 ^ ?k * 256 ^ ?k" unfolding t_def by (rule compact_dec_enc [OF assms])
  have s: "s = (if mantissa n \<ge> 2 ^ 23 then ?b + 1 else ?b)" and
    m: "m = (if mantissa n \<ge> 2 ^ 23 then mantissa n div 256 else mantissa n)"
    using assms by (simp_all add: compact_enc_def split: if_splits)
  have b: "0 < ?b" using False byte_size_upper [of n] by (cases ?b) simp_all
  have lo: "256 ^ (?b - 1) \<le> n" by (rule byte_size_lower) (use False in simp)
  have "?k \<le> ?b - 1" unfolding s by (auto intro: diff_le_mono2)
  then obtain j where j: "?b - 1 = ?k + j" using le_Suc_ex by blast
  have p: "(256::nat) ^ (?b - 1) = 256 ^ j * 256 ^ ?k" unfolding j power_add by (rule mult.commute)
  have "256 ^ j \<le> n div 256 ^ ?k" using lo unfolding p by (simp add: less_eq_div_iff_mult_less_eq)
  then have "256 ^ (?b - 1) \<le> t" unfolding t p by (rule mult_le_mono1)
  moreover have "t \<le> n" unfolding t by (rule div_times_less_eq_dividend)
  then have "t < 256 ^ ?b" using byte_size_upper [of n] by linarith
  ultimately have bt: "byte_size t = ?b" using byte_size_eqI [of "?b - 1" t] b by simp
  have round: "2 ^ 23 \<le> x div 256 * 256" if "2 ^ 23 \<le> x" for x :: nat
    using mult_le_mono1 [OF div_le_mono [OF that, of 256], of 256] by simp
  have "compact_enc t = (s, m)"
  proof (cases "mantissa n \<ge> 2 ^ 23")
    case False
    then have "s = ?b" by (simp add: s)
    then have "mantissa t = mantissa n" by (simp add: mantissa_def Let_def bt) (simp add: t)
    then show ?thesis using False by (simp add: compact_enc_def bt s m)
  next
    case True
    then have s': "s = ?b + 1" and m': "m = mantissa n div 256" by (simp_all add: s m)
    have "mantissa t = mantissa n div 256 * 256 \<or> mantissa t = mantissa n"
    proof (cases "?b \<le> 2")
      case False
      let ?J = "256 ^ (?b - 3) :: nat"
      have M: "mantissa x = x div ?J" if "byte_size x = ?b" for x
        using that False by (auto simp: mantissa_def Let_def)
      have "s - 3 = Suc (?b - 3)" using False by (simp add: s')
      then have "t = n div ?J div 256 * 256 * ?J" unfolding t by (simp add: div_mult2_eq [symmetric] mult.commute mult.left_commute)
      then have "t div ?J = n div ?J div 256 * 256" by simp
      then show ?thesis unfolding M [OF bt] M [OF refl] by (rule disjI1)
    qed (simp add: mantissa_def Let_def bt t s')
    then show ?thesis using True round [OF True] by (auto simp: compact_enc_def bt s' m')
  qed
  then show ?thesis unfolding t_def .
qed

lemma mantissa_top: "2 ^ 23 \<le> mantissa n \<longleftrightarrow> 0 < n \<and> bit_length n = 8 * byte_size n"
proof (cases "n = 0")
  case True
  then show ?thesis by (simp add: mantissa_def byte_size_def)
next
  case False
  then have b: "0 < byte_size n" using byte_size_upper [of n] by (cases "byte_size n") simp_all
  have le: "bit_length n \<le> 8 * byte_size n" unfolding byte_size_def by linarith
  have "2 ^ 23 \<le> mantissa n \<longleftrightarrow> 2 ^ (8 * byte_size n - 1) \<le> n"
  proof (cases "byte_size n \<le> 3")
    case True
    have "8 * byte_size n - 1 + 8 * (3 - byte_size n) = 23" using True b by linarith
    then have "2 ^ (8 * byte_size n - 1) * 256 ^ (3 - byte_size n) = (2::nat) ^ 23" using power_add [of "2::nat" "8 * byte_size n - 1" "8 * (3 - byte_size n)"] by (simp add: power_mult)
    then have "2 ^ 23 \<le> n * 256 ^ (3 - byte_size n) \<longleftrightarrow> 2 ^ (8 * byte_size n - 1) \<le> n" by (metis mult_le_cancel2 zero_less_numeral zero_less_power)
    then show ?thesis using True by (simp add: mantissa_def Let_def)
  next
    case False
    have "8 * byte_size n - 1 = 23 + 8 * (byte_size n - 3)" using False by linarith
    then have "(2::nat) ^ (8 * byte_size n - 1) = 2 ^ 23 * 256 ^ (byte_size n - 3)" by (simp add: power_add power_mult)
    then show ?thesis using False by (simp add: mantissa_def Let_def less_eq_div_iff_mult_less_eq)
  qed
  also have "\<dots> \<longleftrightarrow> \<not> bit_length n \<le> 8 * byte_size n - 1" by (simp only: bit_length_le_iff not_less)
  finally show ?thesis using False b le by linarith
qed

text \<open>The digits dropped: all but three, or all but two when the top bit of the leading byte is taken, where the sign bit sits.\<close>

lemma compact_enc_size:
  assumes "compact_enc n = (s, m)"
  shows "s - 3 = bit_length n div 8 - 2"
proof (cases "n = 0")
  case True
  then show ?thesis using assms by (auto simp: compact_enc_def mantissa_def byte_size_def)
next
  case False
  then have "0 < bit_length n" by (simp only: neq0_conv [symmetric] bit_length_eq_0 simp_thms)
  moreover have "s = (if bit_length n = 8 * byte_size n then byte_size n + 1 else byte_size n)"
    using assms False unfolding compact_enc_def mantissa_top by (simp split: if_splits)
  ultimately show ?thesis unfolding byte_size_def by (auto split: if_splits; linarith)
qed

section \<open>The words carry the numbers\<close>

lemma and_0x7fffff: "(c :: u32) AND 0x007fffff = take_bit 23 c"
  by (simp add: take_bit_eq_mask mask_eq_exp_minus_1)

lemma and_0x800000: "(c :: u32) AND 0x00800000 = 0 \<longleftrightarrow> \<not> bit c 23"
  using and_exp_eq_0_iff_not_bit [of c 23] by simp

lemma bit_top_iff: "unat (c :: u32) < 2 ^ 24 \<Longrightarrow> bit c 23 \<longleftrightarrow> 2 ^ 23 \<le> unat c"
proof -
  assume c: "unat c < 2 ^ 24"
  have "bit c 23 \<longleftrightarrow> odd (unat c div 2 ^ 23)"
    using bit_nat_iff_odd [of "unat c" 23] by (simp add: bit_unsigned_iff)
  moreover have "unat c div 2 ^ 23 < 2" using c by (simp add: div_less_iff_less_mult)
  ultimately show ?thesis using c even_less_2 [of "unat c div 2 ^ 23"]
    by (auto simp: div_greater_zero_iff dest: odd_pos)
qed

lemma compact_word_parts:
  assumes "m < 2 ^ 23" and "s < 256" and "unat c = m + s * 2 ^ 24"
  shows "unat (drop_bit 24 c :: u32) = s" and "unat (c AND 0x007fffff) = m" and "c AND 0x00800000 = 0"
proof -
  show "unat (drop_bit 24 c) = s" using assms by (simp add: unat_drop_bit)
  have e: "m + s * 2 ^ 24 = m + 2 ^ 23 * (2 * s)" by simp
  have "(m + s * 2 ^ 24) mod 2 ^ 23 = m" unfolding e mod_mult_self2 using assms(1) by simp
  then show "unat (c AND 0x007fffff) = m"
    by (simp add: and_0x7fffff take_bit_eq_mod unat_mod assms(3))
  have "(m + s * 2 ^ 24) div 2 ^ 23 = 2 * s" unfolding e using assms(1) by (simp only: div_mult_self2) simp
  then have "\<not> bit (unat c) 23" unfolding bit_nat_iff_odd assms(3) by simp
  then show "c AND 0x00800000 = 0" unfolding and_0x800000 by (simp add: bit_unsigned_iff)
qed

lemma SetCompact_dec:
  "unat (fst (SetCompact c)) = compact_dec (unat (drop_bit 24 c), unat (c AND 0x007fffff)) mod 2 ^ 256"
proof -
  have u: "unat (ucast x :: arith_uint256) = unat x" for x :: u32
    using unat_bound [of x] by (simp add: unsigned_ucast_eq take_bit_nat_eq_self_iff)
  have small: "unat x < 2 ^ 256" for x :: u32 using unat_bound [of x] by simp
  define w where "w = c AND 0x007fffff"
  define z where "z = unat (drop_bit 24 c)"
  have d: "unat w div 256 ^ i mod 2 ^ 256 = unat w div 256 ^ i" for i
    using small [of w] div_le_dividend [of "unat w" "256 ^ i"] by (intro mod_less) linarith
  show ?thesis
    unfolding SetCompact_def Let_def w_def [symmetric] z_def [symmetric]
    using d by (simp add: u unat_drop_bit word256.shl power_mult)
qed

lemma SetCompact_not_max: "unat (fst (SetCompact c)) + 1 < 2 ^ 256"
proof -
  let ?s = "unat (drop_bit 24 c)" and ?m = "unat (c AND 0x007fffff)"
  have m: "?m < 2 ^ 23" by (simp add: and_0x7fffff take_bit_eq_mod unat_mod)
  show ?thesis
  proof (cases "?s \<le> 3")
    case True
    have "?m div 256 ^ (3 - ?s) \<le> ?m" by (rule div_le_dividend)
    with m have "?m div 256 ^ (3 - ?s) < 2 ^ 23" by linarith
    with True have "compact_dec (?s, ?m) < 2 ^ 23" by simp
    moreover have "compact_dec (?s, ?m) mod 2 ^ 256 \<le> compact_dec (?s, ?m)" by (rule mod_less_eq_dividend)
    ultimately have "compact_dec (?s, ?m) mod 2 ^ 256 < 2 ^ 23" by (rule order.strict_trans1 [rotated])
    then show ?thesis unfolding SetCompact_dec by (rule less_trans [OF add_strict_right_mono]) simp
  next
    case False
    then have "?s - 3 = Suc (?s - 4)" by simp
    then have "even (256 ^ (?s - 3) :: nat)" by (simp only: power_Suc) simp
    with False have "even (compact_dec (?s, ?m))" by simp
    then have "even (unat (fst (SetCompact c)))" unfolding SetCompact_dec by (simp add: even_mod_2_iff dvd_mod)
    moreover have "odd (2 ^ 256 - 1 :: nat)" by simp
    ultimately have "unat (fst (SetCompact c)) \<noteq> 2 ^ 256 - 1" by metis
    then show ?thesis using unat_bound [of "fst (SetCompact c)"] by simp
  qed
qed


lemma GetCompact_enc:
  assumes "compact_enc (unat v) = (s, m)"
  shows "\<exists>c. GetCompact v False = Some c \<and> unat c = m + s * 2 ^ 24"
proof -
  let ?n = "unat v" and ?z = "byte_size (unat v)"
  have n256: "?n < 2 ^ 256" using unat_bound [of v] by simp
  note b = compact_enc_bounds [OF assms n256]
  define raw :: u32 where "raw = (if ?z \<le> 3 then ucast (push_bit (8 * (3 - ?z)) (ucast v :: u64))
      else ucast (ucast (drop_bit (8 * (?z - 3)) v) :: u64))"
  have raw: "unat raw = mantissa ?n"
  proof (cases "?z \<le> 3")
    case True
    then have "?n < 2 ^ 64" using byte_size_upper [of ?n] power_increasing [of ?z 3 "256::nat"] by simp
    then have u: "unat (ucast v :: u64) = ?n" by (simp add: unat_ucast_down)
    have m: "mantissa ?n = ?n * 2 ^ (8 * (3 - ?z))" using True by (simp add: mantissa_def Let_def power_mult)
    have "unat (push_bit (8 * (3 - ?z)) (ucast v :: u64)) = mantissa ?n mod 2 ^ 64"
      unfolding unsigned_push_bit_eq u m by (simp add: take_bit_eq_mod push_bit_eq_mult)
    then show ?thesis using True mantissa_bound [of ?n] by (simp add: raw_def unat_ucast_down)
  next
    case False
    have "unat (drop_bit (8 * (?z - 3)) v) = mantissa ?n"
      using False by (simp add: unat_drop_bit mantissa_def Let_def power_mult)
    then show ?thesis using False mantissa_bound [of ?n] by (simp add: raw_def unat_ucast_down)
  qed
  define x where "x = (if raw AND 0x00800000 \<noteq> 0 then drop_bit 8 raw else raw)"
  have top: "raw AND 0x00800000 \<noteq> 0 \<longleftrightarrow> 2 ^ 23 \<le> mantissa ?n"
    using bit_top_iff [of raw] mantissa_bound [of ?n] by (simp add: and_0x800000 raw)
  have x: "unat x = m" and s: "s = (if raw AND 0x00800000 \<noteq> 0 then ?z + 1 else ?z)"
    using assms top by (auto simp: x_def compact_enc_def unat_drop_bit raw split: if_splits)
  have "unat (take_bit 23 x) = unat x" using b(1) x by (simp add: take_bit_eq_mod unat_mod)
  then have tx: "take_bit 23 x = x" by (simp only: word_unat_eq_iff)
  have "x AND NOT 0x007fffff = 0"
    by (subst tx [symmetric]) (simp add: and_0x7fffff [symmetric] and.assoc)
  then have G: "GetCompact v False = Some (x OR push_bit 24 (of_nat s))"
    using b(2) s x_def unfolding GetCompact_def Let_def byte_size_def [symmetric] word_bits_def raw_def [symmetric]
    by (simp add: byte_size_def [symmetric] split: if_splits)
  have "x OR push_bit 24 (of_nat s) = x + push_bit 24 (of_nat s)"
    by (rule disjunctive_add [symmetric], subst tx [symmetric]) (auto simp: bit_simps)
  moreover have "unat (push_bit 24 (of_nat s :: u32)) = s * 2 ^ 24"
    unfolding unsigned_push_bit_eq using b(2) by (simp add: take_bit_eq_mod push_bit_eq_mult unat_of_nat)
  moreover have "m + s * 2 ^ 24 < 2 ^ 32" using b(1,2) by simp
  ultimately have "unat (x OR push_bit 24 (of_nat s)) = m + s * 2 ^ 24" by (simp add: unat_plus_if' x)
  with G show ?thesis by blast
qed

lemma SetCompact_enc:
  fixes v :: arith_uint256
  assumes "compact_enc (unat v) = (s, m)" and "unat c = m + s * 2 ^ 24"
  shows "\<exists>t. SetCompact c = (t, False, False) \<and> unat t = compact_dec (s, m)"
proof -
  have n256: "unat v < 2 ^ 256" using unat_bound [of v] by simp
  note b = compact_enc_bounds [OF assms(1) n256]
  have s: "s < 256" using b(2) by simp
  note p = compact_word_parts [OF b(1) s assms(2)]
  have "compact_dec (s, m) \<le> unat v"
    unfolding compact_dec_enc [OF assms(1)] by (rule div_times_less_eq_dividend)
  then have "compact_dec (s, m) mod 2 ^ 256 = compact_dec (s, m)" using n256 by (intro mod_less) linarith
  then have "unat (fst (SetCompact c)) = compact_dec (s, m)" unfolding SetCompact_dec p .
  moreover have "s \<noteq> 33 \<or> c AND 0x007fffff \<le> 0xffff" using b(3) p(2) by (auto simp: word_le_nat_alt)
  then have "snd (SetCompact c) = (False, False)"
    unfolding SetCompact_def Let_def p(1) using p(3) b(2) by (auto simp: not_less dest!: le_neq_implies_less)
  ultimately show ?thesis by (metis prod.collapse)
qed


section \<open>Properties\<close>

lemma compact_precision:
  assumes "compact_enc n = (s, m)" and "t = compact_dec (s, m)"
  shows "t \<le> n" and "(n - t) * 2 ^ 15 \<le> n"
proof -
  have t: "t = n div 256 ^ (s - 3) * 256 ^ (s - 3)" unfolding assms(2) by (rule compact_dec_enc [OF assms(1)])
  show "t \<le> n" unfolding t by (rule div_times_less_eq_dividend)
  have r: "n - t = n mod 256 ^ (s - 3)" unfolding t by (rule minus_div_mult_eq_mod)
  show "(n - t) * 2 ^ 15 \<le> n"
  proof (cases "s \<le> 3")
    case True
    then show ?thesis by (simp add: r)
  next
    case False
    have m: "2 ^ 15 \<le> n div 256 ^ (s - 3)"
    proof (cases "2 ^ 23 \<le> mantissa n")
      case True
      then have s: "s = byte_size n + 1" using assms(1) by (simp add: compact_enc_def)
      then have "n div 256 ^ (s - 3) = mantissa n div 256"
      proof -
        have "s - 3 = Suc (byte_size n - 3)" using False s by simp
        moreover have "mantissa n = n div 256 ^ (byte_size n - 3)" using False s by (auto simp: mantissa_def Let_def)
        ultimately show ?thesis by (simp add: div_mult2_eq [symmetric] mult.commute)
      qed
      then show ?thesis using div_le_mono [OF True, of 256] by simp
    next
      case low: False
      then have s: "s = byte_size n" using assms(1) by (simp add: compact_enc_def)
      have n: "0 < n" using False s by (cases n) (auto simp: byte_size_def)
      have "s - 1 = 2 + (s - 3)" using False by simp
      then have "256 ^ 2 * 256 ^ (s - 3) \<le> n" using byte_size_lower [OF n] by (metis power_add s)
      then have "256 ^ 2 \<le> n div 256 ^ (s - 3)" by (simp add: less_eq_div_iff_mult_less_eq)
      then show ?thesis by simp
    qed
    have "n mod 256 ^ (s - 3) \<le> 256 ^ (s - 3)" by (simp add: less_imp_le)
    then have "n mod 256 ^ (s - 3) * 2 ^ 15 \<le> 256 ^ (s - 3) * (n div 256 ^ (s - 3))"
      using m by (rule mult_le_mono)
    also have "\<dots> \<le> n" by (rule times_div_less_eq_dividend)
    finally show ?thesis unfolding r .
  qed
qed

text \<open>
  \<^bold>\<open>C37.\<close> Encoding a target: the two assertions of \<open>GetCompact\<close> never fail; decoding the result raises
  neither flag and gives the target with its low bytes cleared, \<open>bits div 8 - 2\<close> of them for a target of \<open>bits\<close> bits: the three leading bytes
  are kept, or two when the top bit of the leading byte is set, because the mantissa has a sign bit there.  So the result is at most the
  original and agrees with it to 15 bits, and encoding it again gives the same \<open>nBits\<close>: a target read from a header
  re-encodes to itself.
\<close>

theorem compact_roundtrip:
  "\<exists>c t. GetCompact v False = Some c \<and> SetCompact c = (t, False, False) \<and>
     unat t = unat v div 256 ^ (word_bits v div 8 - 2) * 256 ^ (word_bits v div 8 - 2) \<and> t \<le> v \<and>
     unat (v - t) * 2 ^ 15 \<le> unat v \<and> GetCompact t False = Some c"
proof -
  obtain s m where e: "compact_enc (unat v) = (s, m)" by (cases "compact_enc (unat v)")
  obtain c where c: "GetCompact v False = Some c" "unat c = m + s * 2 ^ 24" using GetCompact_enc [OF e] by blast
  obtain t where t: "SetCompact c = (t, False, False)" "unat t = compact_dec (s, m)"
    using SetCompact_enc [OF e c(2)] by blast
  note p = compact_precision [OF e t(2)]
  have d: "unat t = unat v div 256 ^ (word_bits v div 8 - 2) * 256 ^ (word_bits v div 8 - 2)"
    using compact_dec_enc [OF e] compact_enc_size [OF e] by (simp add: t(2) word_bits_def)
  have "compact_enc (unat t) = (s, m)" unfolding t(2) by (rule compact_enc_dec [OF e])
  then obtain c' where c': "GetCompact t False = Some c'" "unat c' = m + s * 2 ^ 24"
    using GetCompact_enc by blast
  have "c' = c" using c'(2) c(2) by (simp add: word_unat_eq_iff)
  moreover have "t \<le> v" using p(1) by (simp add: word_le_nat_alt)
  moreover have "unat (v - t) * 2 ^ 15 \<le> unat v" using p(2) unat_sub [OF \<open>t \<le> v\<close>] by simp
  ultimately show ?thesis using c t c' d by blast
qed

text \<open>
  No \<open>nBits\<close> value, canonical or not, decodes to the all-ones target, so \<open>target + 1\<close> never wraps
  to zero and the work computations never divide by zero.
\<close>

theorem SetCompact_plus_one_nonzero: "fst (SetCompact nBits) + 1 \<noteq> 0"
proof -
  have "unat (fst (SetCompact nBits) + 1) = unat (fst (SetCompact nBits)) + 1"
    using SetCompact_not_max [of nBits] by (simp add: unat_plus_if')
  then show ?thesis by (metis add_is_0 one_neq_zero unat_0)
qed

end
