(* ===== verification/Block_Tree.thy ===== *)
theory Block_Tree
  imports Prelude
begin

text \<open>
  The tree of headers, seen through parent pointers and heights.  \<open>ancs\<close> follows parent pointers;
  the interface \<open>block_tree\<close> states what the pointer structure of a block index promises, and its
  lemmas (ancestors by height, uniqueness, last common ancestors, paths) are proved once here and used
  by every walk over the index: skip-list search, fork search, the active chain and reorganisations.
\<close>

section \<open>Ancestors\<close>

primrec ancs :: "('k \<Rightarrow> 'k option) \<Rightarrow> nat \<Rightarrow> 'k \<Rightarrow> 'k option" where
  "ancs par 0 k = Some k"
| "ancs par (Suc n) k = (case par k of None \<Rightarrow> None | Some q \<Rightarrow> ancs par n q)"

definition anc_at :: "('k \<Rightarrow> 'k option) \<Rightarrow> ('k \<Rightarrow> int) \<Rightarrow> 'k \<Rightarrow> int \<Rightarrow> 'k option" where
  "anc_at par hgt k h = ancs par (nat (hgt k - h)) k"

definition descends :: "('k \<Rightarrow> 'k option) \<Rightarrow> 'k \<Rightarrow> 'k \<Rightarrow> bool" where
  "descends par k q \<longleftrightarrow> (\<exists>n. ancs par n k = Some q)"

text \<open>The keys from \<open>k\<close> down to its root, \<open>n\<close> steps at most.\<close>

primrec walk :: "('k \<Rightarrow> 'k option) \<Rightarrow> nat \<Rightarrow> 'k \<Rightarrow> 'k list" where
  "walk par 0 k = [k]"
| "walk par (Suc n) k = k # (case par k of None \<Rightarrow> [] | Some q \<Rightarrow> walk par n q)"

lemma ancs_add: "ancs par (m + n) k = Option.bind (ancs par m k) (ancs par n)"
  by (induction m arbitrary: k) (auto split: option.splits)

lemma ancs_Suc_right: "ancs par (Suc n) k = Option.bind (ancs par n k) par"
  using ancs_add [of par n 1 k] by (cases "ancs par n k") (auto split: option.splits)

lemma ancs_comp: "ancs par m k = Some q \<Longrightarrow> ancs par n q = r \<Longrightarrow> ancs par (m + n) k = r"
  by (simp add: ancs_add)

lemma descends_refl [simp, intro]: "descends par k k"
  unfolding descends_def by (rule exI [of _ 0]) simp

lemma descends_trans: "descends par k q \<Longrightarrow> descends par q r \<Longrightarrow> descends par k r"
  unfolding descends_def using ancs_comp by metis

lemma descends_parent: "par k = Some q \<Longrightarrow> descends par k q"
  unfolding descends_def by (rule exI [of _ 1]) simp

lemma descends_step: "descends par k q \<Longrightarrow> k \<noteq> q \<Longrightarrow> \<exists>p. par k = Some p \<and> descends par p q"
proof -
  assume "descends par k q" "k \<noteq> q"
  then obtain n where n: "ancs par n k = Some q" by (auto simp: descends_def)
  with \<open>k \<noteq> q\<close> obtain m where m: "n = Suc m" by (cases n) auto
  with n show ?thesis by (auto simp: descends_def split: option.splits)
qed

lemma ancs_cong: "(\<And>x. descends par k x \<Longrightarrow> par' x = par x) \<Longrightarrow> ancs par' n k = ancs par n k"
proof (induction n arbitrary: k)
  case 0
  then show ?case by simp
next
  case (Suc n)
  have k: "par' k = par k" by (rule Suc.prems) simp
  show ?case
  proof (cases "par k")
    case (Some q)
    then have "ancs par' n q = ancs par n q"
      by (intro Suc.IH Suc.prems) (metis descends_parent descends_trans)
    then show ?thesis by (simp add: k Some)
  qed (simp add: k)
qed

section \<open>The interface\<close>

locale block_tree =
  fixes wf :: "'s \<Rightarrow> bool"
    and member :: "'s \<Rightarrow> 'k \<Rightarrow> bool"
    and parent :: "'s \<Rightarrow> 'k \<Rightarrow> 'k option"
    and height :: "'s \<Rightarrow> 'k \<Rightarrow> int"
  assumes height_nonneg: "wf s \<Longrightarrow> member s k \<Longrightarrow> 0 \<le> height s k"
    and root_iff: "wf s \<Longrightarrow> member s k \<Longrightarrow> parent s k = None \<longleftrightarrow> height s k = 0"
    and parent_member: "wf s \<Longrightarrow> member s k \<Longrightarrow> parent s k = Some q \<Longrightarrow> member s q"
    and parent_height: "wf s \<Longrightarrow> member s k \<Longrightarrow> parent s k = Some q \<Longrightarrow> height s q = height s k - 1"
    and one_root: "wf s \<Longrightarrow> member s k \<Longrightarrow> member s k' \<Longrightarrow> height s k = 0 \<Longrightarrow> height s k' = 0 \<Longrightarrow> k' = k"
begin

lemma ancs_member: "wf s \<Longrightarrow> member s k \<Longrightarrow> ancs (parent s) n k = Some q \<Longrightarrow> member s q"
  by (induction n arbitrary: k) (auto split: option.splits dest: parent_member)

lemma ancs_height: "wf s \<Longrightarrow> member s k \<Longrightarrow> ancs (parent s) n k = Some q \<Longrightarrow> height s q = height s k - int n"
proof (induction n arbitrary: k)
  case (Suc n)
  then obtain p where p: "parent s k = Some p" "ancs (parent s) n p = Some q" by (auto split: option.splits)
  from Suc.IH [OF Suc.prems(1) parent_member [OF Suc.prems(1,2) p(1)] p(2)]
  show ?case using parent_height [OF Suc.prems(1,2) p(1)] by simp
qed simp

lemma ancs_defined: "wf s \<Longrightarrow> member s k \<Longrightarrow> int n \<le> height s k \<Longrightarrow> \<exists>q. ancs (parent s) n k = Some q"
proof (induction n arbitrary: k)
  case (Suc n)
  then obtain p where p: "parent s k = Some p" using root_iff [of s k] by (cases "parent s k") auto
  then show ?case using Suc parent_member [OF _ _ p] parent_height [OF _ _ p] by auto
qed simp

lemma ancs_undefined: "wf s \<Longrightarrow> member s k \<Longrightarrow> height s k < int n \<Longrightarrow> ancs (parent s) n k = None"
proof (cases "ancs (parent s) n k")
  case (Some q)
  assume s: "wf s" "member s k" and n: "height s k < int n"
  from ancs_height [OF s Some] n have "height s q < 0" by simp
  with height_nonneg [OF s(1) ancs_member [OF s Some]] show ?thesis by simp
qed

lemma descends_member: "wf s \<Longrightarrow> member s k \<Longrightarrow> descends (parent s) k q \<Longrightarrow> member s q"
  by (auto simp: descends_def dest: ancs_member)

lemma descends_height: "wf s \<Longrightarrow> member s k \<Longrightarrow> descends (parent s) k q \<Longrightarrow> height s q \<le> height s k"
  by (auto simp: descends_def dest: ancs_height)

lemma descends_anc_at:
  "wf s \<Longrightarrow> member s k \<Longrightarrow> descends (parent s) k q \<longleftrightarrow>
     height s q \<le> height s k \<and> anc_at (parent s) (height s) k (height s q) = Some q"
proof -
  assume s: "wf s" "member s k"
  show ?thesis
  proof
    assume "descends (parent s) k q"
    then obtain n where n: "ancs (parent s) n k = Some q" by (auto simp: descends_def)
    then have "n = nat (height s k - height s q)" using ancs_height [OF s n] by simp
    then show "height s q \<le> height s k \<and> anc_at (parent s) (height s) k (height s q) = Some q"
      using n ancs_height [OF s n] by (simp add: anc_at_def)
  qed (auto simp: descends_def anc_at_def)
qed

lemma anc_at_defined:
  assumes "wf s" "member s k" "0 \<le> h" "h \<le> height s k"
  obtains q where "anc_at (parent s) (height s) k h = Some q" "member s q" "height s q = h"
    "descends (parent s) k q"
proof -
  have "int (nat (height s k - h)) \<le> height s k" using assms by simp
  from ancs_defined [OF assms(1,2) this] obtain q where q: "ancs (parent s) (nat (height s k - h)) k = Some q" ..
  then show ?thesis
    using ancs_member [OF assms(1,2) q] ancs_height [OF assms(1,2) q] assms(4)
    by (intro that [of q]) (auto simp: anc_at_def descends_def)
qed

lemma anc_at_via:
  assumes "wf s" "member s k" "descends (parent s) k q" "h \<le> height s q"
  shows "anc_at (parent s) (height s) k h = anc_at (parent s) (height s) q h"
proof -
  obtain n where n: "ancs (parent s) n k = Some q" using assms(3) by (auto simp: descends_def)
  then have "nat (height s k - h) = n + nat (height s q - h)"
    using ancs_height [OF assms(1,2) n] assms(4) by simp
  then show ?thesis by (simp add: anc_at_def ancs_add n)
qed

lemma descends_antisym:
  "wf s \<Longrightarrow> member s k \<Longrightarrow> descends (parent s) k q \<Longrightarrow> descends (parent s) q k \<Longrightarrow> k = q"
proof -
  assume s: "wf s" "member s k" and d: "descends (parent s) k q" "descends (parent s) q k"
  have "height s q = height s k"
    using descends_height [OF s d(1)] descends_height [OF s(1) descends_member [OF s d(1)] d(2)] by simp
  moreover have "anc_at (parent s) (height s) k (height s q) = Some q"
    using d(1) descends_anc_at [OF s, of q] by blast
  ultimately show ?thesis by (simp add: anc_at_def)
qed

text \<open>Two ancestors of one block are on one line.\<close>

lemma ancestors_linear:
  assumes "wf s" "member s k" "descends (parent s) k a" "descends (parent s) k b" "height s b \<le> height s a"
  shows "descends (parent s) a b"
proof -
  have a: "member s a" using assms by (auto dest: descends_member)
  have "anc_at (parent s) (height s) a (height s b) = anc_at (parent s) (height s) k (height s b)"
    using anc_at_via [OF assms(1-3,5)] by simp
  also have "\<dots> = Some b" using assms(4) descends_anc_at [OF assms(1,2)] by blast
  finally show ?thesis using assms(5) descends_anc_at [OF assms(1) a] by blast
qed

lemma same_height_eq:
  "wf s \<Longrightarrow> member s k \<Longrightarrow> descends (parent s) k a \<Longrightarrow> descends (parent s) k b \<Longrightarrow>
   height s a = height s b \<Longrightarrow> a = b"
  using descends_anc_at [of s k a] descends_anc_at [of s k b] by simp

lemma root_common:
  assumes "wf s" "member s a" "member s b"
  obtains r where "descends (parent s) a r" "descends (parent s) b r"
proof -
  obtain p where p: "member s p" "height s p = 0" "descends (parent s) a p"
    by (rule anc_at_defined [OF assms(1,2) order.refl height_nonneg [OF assms(1,2)]])
  obtain q where q: "member s q" "height s q = 0" "descends (parent s) b q"
    by (rule anc_at_defined [OF assms(1,3) order.refl height_nonneg [OF assms(1,3)]])
  have "q = p" by (rule one_root [OF assms(1) p(1) q(1) p(2) q(2)])
  then show ?thesis using that p(3) q(3) by blast
qed

text \<open>If two blocks of one height are different, their common ancestors are those of their parents.\<close>

lemma common_parents:
  assumes "wf s" "member s a" "member s b" "height s a = height s b" "a \<noteq> b"
  obtains p q where "parent s a = Some p" "parent s b = Some q" "height s p = height s q"
    "\<forall>c. descends (parent s) a c \<and> descends (parent s) b c \<longleftrightarrow> descends (parent s) p c \<and> descends (parent s) q c"
proof -
  have "height s a \<noteq> 0" using one_root [OF assms(1,2,3)] assms(4,5) by auto
  then obtain p q where pq: "parent s a = Some p" "parent s b = Some q"
    using root_iff [OF assms(1,2)] root_iff [OF assms(1,3)] assms(4) by (metis not_None_eq)
  have "height s p = height s q" using parent_height [OF assms(1,2) pq(1)] parent_height [OF assms(1,3) pq(2)] assms(4) by simp
  moreover have "\<forall>c. descends (parent s) a c \<and> descends (parent s) b c \<longleftrightarrow>
      descends (parent s) p c \<and> descends (parent s) q c"
  proof (intro allI iffI)
    fix c assume c: "descends (parent s) a c \<and> descends (parent s) b c"
    have "a \<noteq> c"
    proof
      assume "a = c"
      with c have "descends (parent s) b a" by simp
      then show False using same_height_eq [OF assms(1,3) _ descends_refl] assms(4,5) by blast
    qed
    moreover have "b \<noteq> c"
    proof
      assume "b = c"
      with c have "descends (parent s) a b" by simp
      then show False using same_height_eq [OF assms(1,2) _ descends_refl] assms(4,5) by force
    qed
    ultimately show "descends (parent s) p c \<and> descends (parent s) q c"
      using c descends_step [of "parent s" a c] descends_step [of "parent s" b c] pq by auto
  next
    fix c assume "descends (parent s) p c \<and> descends (parent s) q c"
    then show "descends (parent s) a c \<and> descends (parent s) b c"
      using descends_parent [of "parent s"] descends_trans [of "parent s"] pq by blast
  qed
  ultimately show ?thesis using pq that by blast
qed

end

end
