(* ===== verification/Block_Index.thy ===== *)
theory Block_Index
  imports Block_Header Compact Std_Map Block_Tree
begin

text \<open>
  The block index (include/chain/block_index.hpp, src/chain/block_index.cpp): one entry per known
  header with its parent and skip pointers, height and cumulative work.  The entries live in the
  ordered map of the block manager; a pointer to an entry is the key it is stored under, which is also
  what \<open>phashBlock\<close> points to, and a null pointer is \<open>None\<close>.  The tree invariant makes the index an
  instance of \<open>block_tree\<close>; skip-list search and the last common ancestor are then shown to compute
  what plain parent walks define.
\<close>

section \<open>Entries\<close>

record CBlockIndex =
  nStatus :: u32
  pprev :: "blob option"
  pskip :: "blob option"
  nHeight :: int
  nChainWork :: arith_uint256
  bi_nVersion :: u32
  bi_minerAddress :: blob
  bi_nTime :: u32
  bi_nBits :: u32
  bi_nNonce :: u32
  bi_hashRandomX :: blob
  nTimeReceived :: int
  nTimeMax :: int

type_synonym block_map = "(blob, CBlockIndex) std_map"

definition BLOCK_VALID_UNKNOWN :: u32 where "BLOCK_VALID_UNKNOWN = 0"
definition BLOCK_VALID_HEADER :: u32 where "BLOCK_VALID_HEADER = 1"
definition BLOCK_VALID_TREE :: u32 where "BLOCK_VALID_TREE = 2"
definition BLOCK_FAILED_VALID :: u32 where "BLOCK_FAILED_VALID = 32"
definition BLOCK_FAILED_CHILD :: u32 where "BLOCK_FAILED_CHILD = 64"
definition BLOCK_FAILED_MASK :: u32 where "BLOCK_FAILED_MASK = BLOCK_FAILED_VALID OR BLOCK_FAILED_CHILD"
definition VALIDITY_LEVEL_MASK :: u32 where "VALIDITY_LEVEL_MASK = 0xFF"

definition new_block_index :: "CBlockHeader \<Rightarrow> CBlockIndex" where
  "new_block_index block = \<lparr>nStatus = 0, pprev = None, pskip = None, nHeight = 0, nChainWork = 0,
     bi_nVersion = nVersion block, bi_minerAddress = minerAddress block, bi_nTime = nTime block,
     bi_nBits = nBits block, bi_nNonce = nNonce block, bi_hashRandomX = hashRandomX block,
     nTimeReceived = 0, nTimeMax = 0\<rparr>"

definition index_time :: "CBlockIndex \<Rightarrow> int" where
  "index_time e = uint (bi_nTime e)"

definition GetBlockHeader :: "CBlockIndex \<Rightarrow> CBlockHeader" where
  "GetBlockHeader e = \<lparr>nVersion = bi_nVersion e,
     hashPrevBlock = (case pprev e of Some p \<Rightarrow> p | None \<Rightarrow> blob_SetNull 32),
     minerAddress = bi_minerAddress e, nTime = bi_nTime e, nBits = bi_nBits e, nNonce = bi_nNonce e,
     hashRandomX = bi_hashRandomX e\<rparr>"

definition IsValid :: "CBlockIndex \<Rightarrow> u32 \<Rightarrow> bool" where
  "IsValid e nUpTo \<longleftrightarrow>
     (if nStatus e AND BLOCK_FAILED_MASK \<noteq> 0 then False else nStatus e AND VALIDITY_LEVEL_MASK \<ge> nUpTo)"

definition RaiseValidity :: "CBlockIndex \<Rightarrow> u32 \<Rightarrow> CBlockIndex \<times> bool" where
  "RaiseValidity e nUpTo =
     (if nStatus e AND BLOCK_FAILED_MASK \<noteq> 0 then (e, False)
      else if nStatus e AND VALIDITY_LEVEL_MASK < nUpTo
      then (e\<lparr>nStatus := (nStatus e AND NOT VALIDITY_LEVEL_MASK) OR nUpTo\<rparr>, True)
      else (e, False))"

section \<open>Median time past\<close>

definition MEDIAN_TIME_SPAN :: nat where "MEDIAN_TIME_SPAN = 11"

primrec mtp_times :: "block_map \<Rightarrow> nat \<Rightarrow> blob option \<Rightarrow> int list" where
  "mtp_times m 0 pindex = []"
| "mtp_times m (Suc i) pindex =
     (case pindex of None \<Rightarrow> []
      | Some k \<Rightarrow> (case map_of m k of None \<Rightarrow> []
          | Some e \<Rightarrow> index_time e # mtp_times m i (pprev e)))"

definition GetMedianTimePast :: "block_map \<Rightarrow> blob \<Rightarrow> int" where
  "GetMedianTimePast m k =
     (let pmedian = sort (mtp_times m MEDIAN_TIME_SPAN (Some k)) in pmedian ! (length pmedian div 2))"

section \<open>Skip pointers\<close>

definition InvertLowestOne :: "int \<Rightarrow> int" where
  "InvertLowestOne n = n AND (n - 1)"

definition GetSkipHeight :: "int \<Rightarrow> int" where
  "GetSkipHeight height =
     (if height < 2 then 0
      else if height AND 1 \<noteq> 0 then InvertLowestOne (InvertLowestOne (height - 1)) + 1
      else InvertLowestOne height)"

lemma InvertLowestOne_bounds: "0 < n \<Longrightarrow> 0 \<le> InvertLowestOne n \<and> InvertLowestOne n < n"
  unfolding InvertLowestOne_def using AND_upper2 [of "n - 1" n] by auto

lemma GetSkipHeight_bounds: "0 < h \<Longrightarrow> 0 \<le> GetSkipHeight h \<and> GetSkipHeight h < h"
proof -
  assume h: "0 < h"
  show ?thesis
  proof (cases "h < 2")
    case False
    show ?thesis
    proof (cases "h AND 1 = 0")
      case True
      then show ?thesis using False InvertLowestOne_bounds [of h] by (simp add: GetSkipHeight_def)
    next
      case odd: False
      let ?a = "InvertLowestOne (h - 1)"
      have a: "0 \<le> ?a" "?a < h - 1" using InvertLowestOne_bounds [of "h - 1"] False by auto
      have "h \<noteq> 2" using odd by auto
      have "0 \<le> InvertLowestOne ?a \<and> InvertLowestOne ?a < h - 1"
      proof (cases "?a = 0")
        case True
        then show ?thesis using False by (simp add: InvertLowestOne_def)
      qed (use a InvertLowestOne_bounds [of ?a] in auto)
      then show ?thesis using False odd by (simp add: GetSkipHeight_def)
    qed
  qed (use h in \<open>simp add: GetSkipHeight_def\<close>)
qed

text \<open>
  The search for an ancestor.  \<open>None\<close> is the failed assertion (a null parent above the height sought);
  a null result is \<open>Some None\<close>.
\<close>

definition use_skip :: "int \<Rightarrow> int \<Rightarrow> int \<Rightarrow> bool" where
  "use_skip heightSkip heightSkipPrev height \<longleftrightarrow>
     heightSkip = height \<or>
     heightSkip > height \<and> \<not> (heightSkipPrev < heightSkip - 2 \<and> heightSkipPrev \<ge> height)"

function GetAncestor_loop :: "block_map \<Rightarrow> nat \<Rightarrow> blob \<Rightarrow> nat \<Rightarrow> blob option" where
  "GetAncestor_loop m height pindexWalk heightWalk =
     (if heightWalk \<le> height then Some pindexWalk
      else case map_of m pindexWalk of None \<Rightarrow> None
      | Some e \<Rightarrow>
          (let heightSkip = GetSkipHeight (int heightWalk);
               heightSkipPrev = GetSkipHeight (int heightWalk - 1)
           in if pskip e \<noteq> None \<and> use_skip heightSkip heightSkipPrev (int height)
              then GetAncestor_loop m height (the (pskip e)) (nat heightSkip)
              else case pprev e of None \<Rightarrow> None
                   | Some p \<Rightarrow> GetAncestor_loop m height p (heightWalk - 1)))"
  by auto
termination
proof (relation "measure (\<lambda>(m, height, k, heightWalk). heightWalk)", goal_cases)
  case (2 m height k hw e hs hsp)
  then have "GetSkipHeight (int hw) < int hw" using GetSkipHeight_bounds [of "int hw"] by simp
  then show ?case using 2 by simp
qed auto

declare GetAncestor_loop.simps [simp del]

definition GetAncestor :: "block_map \<Rightarrow> blob \<Rightarrow> int \<Rightarrow> blob option option" where
  "GetAncestor m k height =
     (case map_of m k of None \<Rightarrow> None
      | Some e \<Rightarrow>
          (if height > nHeight e \<or> height < 0 then Some None
           else map_option Some (GetAncestor_loop m (nat height) k (nat (nHeight e)))))"

text \<open>\<open>BuildSkip\<close> on the entry under construction, whose parent and height are set.\<close>

definition BuildSkip :: "block_map \<Rightarrow> CBlockIndex \<Rightarrow> CBlockIndex option" where
  "BuildSkip m e =
     (case pprev e of None \<Rightarrow> Some e
      | Some p \<Rightarrow> map_option (\<lambda>s. e\<lparr>pskip := s\<rparr>) (GetAncestor m p (GetSkipHeight (nHeight e))))"

section \<open>Work and common ancestors\<close>

text \<open>The division cannot meet a zero divisor: all-ones targets return before it.\<close>

definition GetBlockProof :: "CBlockIndex \<Rightarrow> arith_uint256" where
  "GetBlockProof e =
     (let (bnTarget, fNegative, fOverflow) = SetCompact (bi_nBits e) in
      if fNegative \<or> fOverflow \<or> bnTarget = 0 then 0
      else if bnTarget = NOT 0 then 1
      else (NOT bnTarget div (bnTarget + 1)) + 1)"

text \<open>The walk to the last common ancestor; \<open>None\<close> is a walk that does not end.\<close>

definition parent_of :: "block_map \<Rightarrow> blob \<Rightarrow> blob option" where
  "parent_of m k = (case map_of m k of None \<Rightarrow> None | Some e \<Rightarrow> pprev e)"

definition height_of :: "block_map \<Rightarrow> blob \<Rightarrow> int" where
  "height_of m k = (case map_of m k of None \<Rightarrow> -1 | Some e \<Rightarrow> nHeight e)"

partial_function (option) lca_walk :: "block_map \<Rightarrow> blob option \<Rightarrow> blob option \<Rightarrow> blob option option" where
  "lca_walk m pa pb =
     (case (pa, pb) of
        (Some a, Some b) \<Rightarrow> if a = b then Some (Some a) else lca_walk m (parent_of m a) (parent_of m b)
      | _ \<Rightarrow> Some pa)"

definition LastCommonAncestor :: "block_map \<Rightarrow> blob option \<Rightarrow> blob option \<Rightarrow> blob option option" where
  "LastCommonAncestor m pa pb =
     (case (pa, pb) of
        (Some a, Some b) \<Rightarrow>
          (if height_of m a > height_of m b
           then Option.bind (GetAncestor m a (height_of m b)) (\<lambda>a'. lca_walk m a' pb)
           else if height_of m b > height_of m a
           then Option.bind (GetAncestor m b (height_of m a)) (\<lambda>b'. lca_walk m pa b')
           else lca_walk m pa pb)
      | _ \<Rightarrow> Some None)"

section \<open>The tree invariant\<close>

definition entry_ok :: "block_map \<Rightarrow> blob \<Rightarrow> CBlockIndex \<Rightarrow> bool" where
  "entry_ok m k e \<longleftrightarrow> 0 \<le> nHeight e \<and>
     (case pprev e of
        None \<Rightarrow> nHeight e = 0 \<and> nChainWork e = GetBlockProof e \<and> nTimeMax e = index_time e \<and> pskip e = None
      | Some p \<Rightarrow> (case map_of m p of None \<Rightarrow> False
          | Some f \<Rightarrow> nHeight e = nHeight f + 1 \<and> nChainWork e = nChainWork f + GetBlockProof e \<and>
              nTimeMax e = max (nTimeMax f) (index_time e) \<and>
              pskip e = anc_at (parent_of m) (height_of m) p (GetSkipHeight (nHeight e))))"

definition index_inv :: "block_map \<Rightarrow> bool" where
  "index_inv m \<longleftrightarrow> om_invar m \<and> (\<forall>(k, e) \<in> set m. entry_ok m k e) \<and>
     (\<forall>(k, e) \<in> set m. \<forall>(k', e') \<in> set m. nHeight e = 0 \<longrightarrow> nHeight e' = 0 \<longrightarrow> k' = k)"

lemma index_entry: "index_inv m \<Longrightarrow> map_of m k = Some e \<Longrightarrow> entry_ok m k e"
  by (auto simp: index_inv_def om_entries_iff [symmetric])

lemma index_om: "index_inv m \<Longrightarrow> om_invar m"
  by (simp add: index_inv_def)

lemma index_one_root:
  "index_inv m \<Longrightarrow> map_of m k = Some e \<Longrightarrow> map_of m k' = Some e' \<Longrightarrow> nHeight e = 0 \<Longrightarrow> nHeight e' = 0 \<Longrightarrow> k' = k"
  by (fastforce simp: index_inv_def dest: map_of_SomeD)

lemma parent_of_Some [index_simps]: "map_of m k = Some e \<Longrightarrow> parent_of m k = pprev e"
  by (simp add: parent_of_def)

lemma height_of_Some [index_simps]: "map_of m k = Some e \<Longrightarrow> height_of m k = nHeight e"
  by (simp add: height_of_def)

lemma index_height: "index_inv m \<Longrightarrow> map_of m k = Some e \<Longrightarrow> 0 \<le> nHeight e"
  by (drule (1) index_entry) (simp add: entry_ok_def)

lemma index_root: "index_inv m \<Longrightarrow> map_of m k = Some e \<Longrightarrow> pprev e = None \<longleftrightarrow> nHeight e = 0"
proof -
  assume m: "index_inv m" "map_of m k = Some e"
  show ?thesis
  proof (cases "pprev e")
    case None
    then show ?thesis using index_entry [OF m] by (simp add: entry_ok_def)
  next
    case (Some p)
    then obtain f where f: "map_of m p = Some f" "nHeight e = nHeight f + 1"
      using index_entry [OF m] by (auto simp: entry_ok_def split: option.splits)
    then show ?thesis using index_height [OF m(1) f(1)] Some by simp
  qed
qed

lemma index_parent:
  assumes "index_inv m" "map_of m k = Some e" "pprev e = Some p"
  obtains f where "map_of m p = Some f" "nHeight e = nHeight f + 1"
    "nChainWork e = nChainWork f + GetBlockProof e" "nTimeMax e = max (nTimeMax f) (index_time e)"
    "pskip e = anc_at (parent_of m) (height_of m) p (GetSkipHeight (nHeight e))"
  using index_entry [OF assms(1,2)] assms(3) by (auto simp: entry_ok_def split: option.splits)

interpretation tree: block_tree index_inv "\<lambda>m k. map_of m k \<noteq> None" parent_of height_of
proof unfold_locales
  fix m k q assume m: "index_inv m" "map_of m k \<noteq> None" and q: "parent_of m k = Some q"
  then obtain e where e: "map_of m k = Some e" "pprev e = Some q" by (auto simp: parent_of_def)
  obtain f where f: "map_of m q = Some f" "nHeight e = nHeight f + 1"
    by (rule index_parent [OF m(1) e]) auto
  show "map_of m q \<noteq> None" using f by simp
  show "height_of m q = height_of m k - 1" using e f by (simp add: height_of_Some)
qed (auto simp: index_simps index_height index_root dest: index_one_root)

section \<open>Skip-list search\<close>

lemma index_skip:
  assumes "index_inv m" "map_of m k = Some e" "pskip e = Some q"
  shows "0 < nHeight e" "descends (parent_of m) k q" "height_of m q = GetSkipHeight (nHeight e)"
proof -
  obtain p where p: "pprev e = Some p"
    using index_entry [OF assms(1,2)] assms(3) by (cases "pprev e") (auto simp: entry_ok_def)
  obtain f where f: "map_of m p = Some f" "nHeight e = nHeight f + 1"
      "pskip e = anc_at (parent_of m) (height_of m) p (GetSkipHeight (nHeight e))"
    by (rule index_parent [OF assms(1,2) p])
  show pos: "0 < nHeight e" using f(2) index_height [OF assms(1) f(1)] by simp
  have s: "0 \<le> GetSkipHeight (nHeight e)" "GetSkipHeight (nHeight e) \<le> height_of m p"
    using GetSkipHeight_bounds [OF pos] f(1,2) by (simp_all add: height_of_Some)
  have pm: "map_of m p \<noteq> None" using f(1) by simp
  obtain r where "anc_at (parent_of m) (height_of m) p (GetSkipHeight (nHeight e)) = Some r"
      "height_of m r = GetSkipHeight (nHeight e)" "descends (parent_of m) p r"
    by (rule tree.anc_at_defined [OF assms(1) pm s])
  then have "height_of m q = GetSkipHeight (nHeight e)" "descends (parent_of m) p q" using f(3) assms(3) by simp_all
  moreover have "descends (parent_of m) k p" using p assms(2) by (intro descends_parent) (simp add: parent_of_Some)
  ultimately show "height_of m q = GetSkipHeight (nHeight e)" "descends (parent_of m) k q"
    by (auto intro: descends_trans)
qed

lemma GetAncestor_loop_correct:
  assumes m: "index_inv m"
  shows "map_of m k \<noteq> None \<Longrightarrow> height_of m k = int hw \<Longrightarrow> h \<le> hw \<Longrightarrow>
    GetAncestor_loop m h k hw = anc_at (parent_of m) (height_of m) k (int h)"
proof (induction hw arbitrary: k rule: less_induct)
  case (less hw)
  obtain e where e: "map_of m k = Some e" using less.prems(1) by blast
  have hw: "nHeight e = int hw" using less.prems(2) e by (simp add: height_of_Some)
  have via: "anc_at (parent_of m) (height_of m) k (int h) = anc_at (parent_of m) (height_of m) q (int h)"
    if "descends (parent_of m) k q" "int h \<le> height_of m q" for q
    by (rule tree.anc_at_via [OF m less.prems(1) that])
  show ?case
  proof (cases "hw = h")
    case True
    then show ?thesis using less.prems by (subst GetAncestor_loop.simps) (simp add: anc_at_def)
  next
    case False
    then have lt: "h < hw" using less.prems(3) by simp
    let ?hs = "GetSkipHeight (int hw)" and ?hp = "GetSkipHeight (int hw - 1)"
    have step: "GetAncestor_loop m h k hw =
        (if pskip e \<noteq> None \<and> use_skip ?hs ?hp (int h) then GetAncestor_loop m h (the (pskip e)) (nat ?hs)
         else case pprev e of None \<Rightarrow> None | Some p \<Rightarrow> GetAncestor_loop m h p (hw - 1))"
      using lt by (subst GetAncestor_loop.simps) (simp add: e Let_def)
    show ?thesis
    proof (cases "pskip e \<noteq> None \<and> use_skip ?hs ?hp (int h)")
      case True
      then obtain q where q: "pskip e = Some q" by auto
      note s = index_skip [OF m e q, unfolded hw]
      have b: "0 \<le> ?hs" "?hs < int hw" using GetSkipHeight_bounds [of "int hw"] lt by simp_all
      have le: "int h \<le> ?hs" using True by (auto simp: use_skip_def)
      have "map_of m q \<noteq> None" by (rule tree.descends_member [OF m less.prems(1) s(2)])
      then have "GetAncestor_loop m h q (nat ?hs) = anc_at (parent_of m) (height_of m) q (int h)"
        using b le s(3) by (intro less.IH) auto
      then show ?thesis using True q via [OF s(2)] le s(3) by (simp add: step)
    next
      case False
      obtain p where p: "pprev e = Some p" using index_root [OF m e] hw lt by (cases "pprev e") auto
      obtain f where f: "map_of m p = Some f" "nHeight e = nHeight f + 1" by (rule index_parent [OF m e p])
      have "descends (parent_of m) k p" using p e by (intro descends_parent) (simp add: parent_of_Some)
      moreover have hp: "height_of m p = int (hw - 1)" using f hw lt by (simp add: height_of_Some)
      moreover have "GetAncestor_loop m h p (hw - 1) = anc_at (parent_of m) (height_of m) p (int h)"
        using f hp lt by (intro less.IH) auto
      ultimately show ?thesis using False p lt via [of p] by (simp only: step) (simp add: p)
    qed
  qed
qed

lemma GetAncestor_correct:
  assumes "index_inv m" "map_of m k = Some e"
  shows "GetAncestor m k h =
    Some (if 0 \<le> h \<and> h \<le> nHeight e then anc_at (parent_of m) (height_of m) k h else None)"
proof (cases "0 \<le> h \<and> h \<le> nHeight e")
  case True
  have k: "map_of m k \<noteq> None" "height_of m k = int (nat (nHeight e))"
    using assms index_height [OF assms] by (simp_all add: height_of_Some)
  have hh: "h \<le> height_of m k" using True assms(2) by (simp add: height_of_Some)
  obtain q where q: "anc_at (parent_of m) (height_of m) k h = Some q"
    by (rule tree.anc_at_defined [OF assms(1) k(1) conjunct1 [OF True] hh])
  have "GetAncestor_loop m (nat h) k (nat (nHeight e)) = anc_at (parent_of m) (height_of m) k h"
    using GetAncestor_loop_correct [OF assms(1) k, of "nat h"] True by (simp add: nat_mono)
  then show ?thesis using True assms(2) q by (auto simp: GetAncestor_def)
qed (use assms in \<open>auto simp: GetAncestor_def\<close>)

section \<open>Last common ancestor\<close>

definition is_lca :: "('k \<Rightarrow> 'k option) \<Rightarrow> 'k \<Rightarrow> 'k \<Rightarrow> 'k \<Rightarrow> bool" where
  "is_lca par a b c \<longleftrightarrow> descends par a c \<and> descends par b c \<and>
     (\<forall>d. descends par a d \<and> descends par b d \<longrightarrow> descends par c d)"

lemma lca_walk_correct:
  assumes m: "index_inv m"
  shows "map_of m a \<noteq> None \<Longrightarrow> map_of m b \<noteq> None \<Longrightarrow> height_of m a = int n \<Longrightarrow> height_of m b = int n \<Longrightarrow>
    \<exists>c. lca_walk m (Some a) (Some b) = Some (Some c) \<and> is_lca (parent_of m) a b c"
proof (induction n arbitrary: a b)
  case 0
  then have "b = a" by (intro tree.one_root [OF m]) auto
  then show ?case by (subst lca_walk.simps) (simp add: is_lca_def)
next
  case (Suc n)
  show ?case
  proof (cases "a = b")
    case True
    then show ?thesis by (subst lca_walk.simps) (simp add: is_lca_def)
  next
    case False
    obtain p q where pq: "parent_of m a = Some p" "parent_of m b = Some q" "height_of m p = height_of m q"
      and c: "\<forall>c. descends (parent_of m) a c \<and> descends (parent_of m) b c \<longleftrightarrow>
        descends (parent_of m) p c \<and> descends (parent_of m) q c"
      by (rule tree.common_parents [OF m Suc.prems(1,2) trans [OF Suc.prems(3) Suc.prems(4) [symmetric]] False])
    have "map_of m p \<noteq> None" "map_of m q \<noteq> None" "height_of m p = int n" "height_of m q = int n"
      using tree.parent_member [OF m] tree.parent_height [OF m] pq Suc.prems by auto
    then obtain d where "lca_walk m (Some p) (Some q) = Some (Some d)" "is_lca (parent_of m) p q d"
      using Suc.IH by blast
    then show ?thesis using False c pq by (subst lca_walk.simps) (simp add: is_lca_def)
  qed
qed

lemma is_lca_sym: "is_lca par a b c \<Longrightarrow> is_lca par b a c"
  by (auto simp: is_lca_def)

lemma is_lca_shift:
  assumes m: "index_inv m" "map_of m a \<noteq> None" and "map_of m b \<noteq> None"
    and a': "descends (parent_of m) a a'" and h: "height_of m b \<le> height_of m a'" and l: "is_lca (parent_of m) a' b c"
  shows "is_lca (parent_of m) a b c"
proof -
  have "descends (parent_of m) a' d" if "descends (parent_of m) a d" "descends (parent_of m) b d" for d
    using tree.ancestors_linear [OF m a' that(1)] tree.descends_height [OF m(1) assms(3) that(2)] h by simp
  then show ?thesis using l a' by (auto simp: is_lca_def intro: descends_trans)
qed

lemma LastCommonAncestor_correct:
  assumes m: "index_inv m" and a: "map_of m a \<noteq> None" and b: "map_of m b \<noteq> None"
  shows "\<exists>c. LastCommonAncestor m (Some a) (Some b) = Some (Some c) \<and> is_lca (parent_of m) a b c"
proof -
  have na: "0 \<le> height_of m a" and nb: "0 \<le> height_of m b"
    using tree.height_nonneg [OF m] a b by auto
  have ga: "GetAncestor m a h = Some (anc_at (parent_of m) (height_of m) a h)" if "0 \<le> h" "h \<le> height_of m a" for h
    using a that GetAncestor_correct [OF m] by (auto simp: height_of_Some)
  have gb: "GetAncestor m b h = Some (anc_at (parent_of m) (height_of m) b h)" if "0 \<le> h" "h \<le> height_of m b" for h
    using b that GetAncestor_correct [OF m] by (auto simp: height_of_Some)
  consider "height_of m a > height_of m b" | "height_of m b > height_of m a" | "height_of m a = height_of m b"
    by linarith
  then show ?thesis
  proof cases
    case 1
    then obtain a' where a': "anc_at (parent_of m) (height_of m) a (height_of m b) = Some a'"
        "map_of m a' \<noteq> None" "height_of m a' = height_of m b" "descends (parent_of m) a a'"
      using tree.anc_at_defined [OF m a nb] by auto
    obtain c where "lca_walk m (Some a') (Some b) = Some (Some c)" "is_lca (parent_of m) a' b c"
      using lca_walk_correct [OF m a'(2) b, of "nat (height_of m b)"] nb a'(3) by auto
    then show ?thesis
      using 1 a' ga [OF nb] is_lca_shift [OF m a b a'(4)] by (auto simp: LastCommonAncestor_def)
  next
    case 2
    then obtain b' where b': "anc_at (parent_of m) (height_of m) b (height_of m a) = Some b'"
        "map_of m b' \<noteq> None" "height_of m b' = height_of m a" "descends (parent_of m) b b'"
      using tree.anc_at_defined [OF m b na] by auto
    obtain c where c: "lca_walk m (Some a) (Some b') = Some (Some c)" "is_lca (parent_of m) a b' c"
      using lca_walk_correct [OF m a b'(2), of "nat (height_of m a)"] na b'(3) by auto
    have "is_lca (parent_of m) b a c"
      by (rule is_lca_shift [OF m b a b'(4) _ is_lca_sym [OF c(2)]]) (simp add: b'(3))
    then have "is_lca (parent_of m) a b c" by (rule is_lca_sym)
    then show ?thesis using 2 b' gb [OF na] c by (auto simp: LastCommonAncestor_def)
  next
    case 3
    have "\<exists>c. lca_walk m (Some a) (Some b) = Some (Some c) \<and> is_lca (parent_of m) a b c"
      by (rule lca_walk_correct [OF m a b, of "nat (height_of m b)"]) (use 3 nb in simp_all)
    then show ?thesis using 3 by (simp add: LastCommonAncestor_def)
  qed
qed

section \<open>Changing the index\<close>

lemma parent_of_update [index_simps]: "parent_of (om_update k e m) = (parent_of m)(k := pprev e)"
  by (auto simp: parent_of_def fun_eq_iff)

lemma height_of_update [index_simps]: "height_of (om_update k e m) = (height_of m)(k := nHeight e)"
  by (auto simp: height_of_def fun_eq_iff)

text \<open>Fields outside the tree structure may change freely.\<close>

definition same_node :: "CBlockIndex \<Rightarrow> CBlockIndex \<Rightarrow> bool" where
  "same_node e e' \<longleftrightarrow> pprev e' = pprev e \<and> pskip e' = pskip e \<and> nHeight e' = nHeight e \<and>
     nChainWork e' = nChainWork e \<and> bi_nBits e' = bi_nBits e \<and> bi_nTime e' = bi_nTime e \<and> nTimeMax e' = nTimeMax e"

lemma same_node_refl [simp]: "same_node e e"
  by (simp add: same_node_def)

lemma GetBlockProof_bits: "bi_nBits e' = bi_nBits e \<Longrightarrow> GetBlockProof e' = GetBlockProof e"
  by (simp add: GetBlockProof_def)

lemma parent_of_same: "map_of m k = Some e \<Longrightarrow> same_node e e' \<Longrightarrow> parent_of (om_update k e' m) = parent_of m"
  by (auto simp: parent_of_update parent_of_def same_node_def fun_eq_iff)

lemma height_of_same: "map_of m k = Some e \<Longrightarrow> same_node e e' \<Longrightarrow> height_of (om_update k e' m) = height_of m"
  by (auto simp: height_of_update height_of_def same_node_def fun_eq_iff)

lemma entry_ok_same_map:
  assumes "parent_of m' = parent_of m" "height_of m' = height_of m"
    and "\<And>p f. map_of m p = Some f \<Longrightarrow> \<exists>f'. map_of m' p = Some f' \<and> same_node f f'"
    and "entry_ok m k e" "same_node e e'"
  shows "entry_ok m' k e'"
proof -
  have t: "index_time e' = index_time e" and pr: "GetBlockProof e' = GetBlockProof e"
    using assms(5) GetBlockProof_bits [of e' e] by (simp_all add: index_time_def same_node_def)
  show ?thesis
  proof (cases "pprev e")
    case None
    then show ?thesis using assms(4,5) t pr by (simp add: entry_ok_def same_node_def)
  next
    case (Some p)
    then obtain f where f: "map_of m p = Some f" using assms(4) by (auto simp: entry_ok_def split: option.splits)
    then obtain f' where "map_of m' p = Some f'" "same_node f f'" using assms(3) by blast
    then show ?thesis using Some f assms(1,2,4,5) t pr by (simp add: entry_ok_def same_node_def)
  qed
qed

lemma index_invI:
  assumes "om_invar m" "\<And>k e. map_of m k = Some e \<Longrightarrow> entry_ok m k e"
    and "\<And>k e k' e'. map_of m k = Some e \<Longrightarrow> map_of m k' = Some e' \<Longrightarrow> nHeight e = 0 \<Longrightarrow> nHeight e' = 0 \<Longrightarrow> k' = k"
  shows "index_inv m"
  using assms by (auto simp: index_inv_def om_entries_iff)

lemma index_inv_same:
  assumes "index_inv m" "map_of m k = Some e" "same_node e e'"
  shows "index_inv (om_update k e' m)"
proof (rule index_invI)
  let ?m = "om_update k e' m"
  show "om_invar ?m" using index_om [OF assms(1)] by simp
  have lk: "\<exists>f'. map_of ?m p = Some f' \<and> same_node f f'" if "map_of m p = Some f" for p f
    using that assms by auto
  have bk: "\<exists>f. map_of m p = Some f \<and> same_node f f'" if "map_of ?m p = Some f'" for p f'
    using that assms by (auto split: if_splits)
  show "entry_ok ?m q f'" if g: "map_of ?m q = Some f'" for q f'
  proof -
    obtain f where f: "map_of m q = Some f" "same_node f f'" using bk [OF g] by blast
    show ?thesis
      by (rule entry_ok_same_map [OF parent_of_same [OF assms(2,3)] height_of_same [OF assms(2,3)] lk
            index_entry [OF assms(1) f(1)] f(2)])
  qed
  show "q' = q" if "map_of ?m q = Some f" "map_of ?m q' = Some f'" "nHeight f = 0" "nHeight f' = 0" for q f q' f'
    using bk [OF that(1)] bk [OF that(2)] that(3,4) index_one_root [OF assms(1)] by (fastforce simp: same_node_def)
qed

text \<open>Adding a child of a known block.\<close>

lemma ancs_new:
  assumes m: "index_inv m" and k: "map_of m k = None" and p: "map_of m p \<noteq> None"
  shows "ancs (parent_of (om_update k e m)) n p = ancs (parent_of m) n p"
proof (rule ancs_cong)
  fix x assume "descends (parent_of m) p x"
  then have "map_of m x \<noteq> None" using tree.descends_member [OF m p] by blast
  then show "parent_of (om_update k e m) x = parent_of m x" using k by (auto simp: parent_of_update)
qed

lemma anc_at_new:
  assumes "index_inv m" "map_of m k = None" "map_of m p \<noteq> None"
  shows "anc_at (parent_of (om_update k e m)) (height_of (om_update k e m)) p h =
    anc_at (parent_of m) (height_of m) p h"
  using assms ancs_new [OF assms] by (auto simp: anc_at_def height_of_update)

lemma descends_new:
  assumes "index_inv m" "map_of m k = None" "map_of m p \<noteq> None"
  shows "descends (parent_of (om_update k e m)) p q \<longleftrightarrow> descends (parent_of m) p q"
  using ancs_new [OF assms] by (simp add: descends_def)

lemma index_inv_add:
  assumes m: "index_inv m" and k: "map_of m k = None" and p: "map_of m p = Some f"
    and e: "pprev e = Some p" "nHeight e = nHeight f + 1" "nChainWork e = nChainWork f + GetBlockProof e"
      "nTimeMax e = max (nTimeMax f) (index_time e)"
      "pskip e = anc_at (parent_of m) (height_of m) p (GetSkipHeight (nHeight e))"
  shows "index_inv (om_update k e m)"
proof (rule index_invI)
  let ?m = "om_update k e m"
  have pos: "0 < nHeight e" using e(2) index_height [OF m p] by simp
  have pk: "p \<noteq> k" and pm: "map_of m p \<noteq> None" using p k by auto
  show "om_invar ?m" using index_om [OF m] by simp
  show "entry_ok ?m q g" if "map_of ?m q = Some g" for q g
  proof (cases "q = k")
    case True
    then have "g = e" using that by simp
    then show ?thesis using e p pk pos anc_at_new [OF m k pm] by (simp add: entry_ok_def del: fun_upd_apply) simp
  next
    case False
    then have g: "map_of m q = Some g" using that by simp
    show ?thesis
    proof (cases "pprev g")
      case None
      then show ?thesis using index_entry [OF m g] by (simp add: entry_ok_def)
    next
      case (Some r)
      then obtain u where u: "map_of m r = Some u" by (rule index_parent [OF m g])
      moreover have "r \<noteq> k" using u k by auto
      ultimately show ?thesis using index_entry [OF m g] Some anc_at_new [OF m k, of r] by (simp add: entry_ok_def)
    qed
  qed
  show "q' = q" if "map_of ?m q = Some g" "map_of ?m q' = Some g'" "nHeight g = 0" "nHeight g' = 0" for q g q' g'
    using that pos index_one_root [OF m] by (auto split: if_splits)
qed

lemma index_inv_genesis:
  assumes "pprev e = None" "nHeight e = 0" "nChainWork e = GetBlockProof e" "nTimeMax e = index_time e" "pskip e = None"
  shows "index_inv [(k, e)]"
  using assms by (simp add: index_inv_def om_invar_def entry_ok_def)

section \<open>Work\<close>

lemma GetBlockProof_quotient:
  assumes "SetCompact (bi_nBits e) = (t, False, False)" "t \<noteq> 0"
  shows "unat (GetBlockProof e) = 2 ^ 256 div (unat t + 1)"
proof -
  have lt: "unat t + 1 < 2 ^ 256" using SetCompact_not_max [of "bi_nBits e"] assms(1) by simp
  have nz: "t + 1 \<noteq> 0"
  proof
    assume "t + 1 = 0"
    then have "t = -1" by (simp add: eq_neg_iff_add_eq_0)
    then show False using lt by (simp add: unsigned_minus_1_eq_mask mask_eq_exp_minus_1)
  qed
  have "t \<noteq> NOT 0"
  proof
    assume "t = NOT 0"
    then show False using lt by (simp add: unsigned_minus_1_eq_mask mask_eq_exp_minus_1)
  qed
  then have g: "GetBlockProof e = (NOT t div (t + 1)) + 1" using assms by (simp add: GetBlockProof_def)
  have "0 < unat t" using assms(2) by (simp add: unat_gt_0)
  then obtain q where "word_quot (NOT t) (t + ucast (1 :: u64)) = Inr q" "unat (q + ucast (1 :: u64)) = 2 ^ 256 div (unat t + 1)"
    using word256.work_formula [of t] lt by auto
  then show ?thesis using nz g by (simp add: word_quot_def)
qed

lemma GetBlockProof_zero_iff:
  "GetBlockProof e = 0 \<longleftrightarrow> (case SetCompact (bi_nBits e) of (t, neg, ovf) \<Rightarrow> neg \<or> ovf \<or> t = 0)"
proof -
  obtain t neg ovf where s: "SetCompact (bi_nBits e) = (t, neg, ovf)" by (cases "SetCompact (bi_nBits e)")
  show ?thesis
  proof (cases "neg \<or> ovf \<or> t = 0")
    case True
    then show ?thesis by (simp add: GetBlockProof_def s)
  next
    case False
    then have u: "unat (GetBlockProof e) = 2 ^ 256 div (unat t + 1)" using GetBlockProof_quotient [of e t] s by simp
    have "unat t + 1 \<le> 2 ^ 256" using SetCompact_not_max [of "bi_nBits e"] s by simp
    then have "0 < (2::nat) ^ 256 div (unat t + 1)" by (simp add: div_greater_zero_iff)
    then have "GetBlockProof e \<noteq> 0" unfolding u [symmetric] by (simp add: unat_gt_0)
    with False s show ?thesis by simp
  qed
qed

section \<open>A sample index\<close>

text \<open>A root, two blocks on it and a fork at height 2, with the easiest target of the test network.\<close>

definition sample_entry :: "blob option \<Rightarrow> blob option \<Rightarrow> int \<Rightarrow> arith_uint256 \<Rightarrow> u32 \<Rightarrow> CBlockIndex" where
  "sample_entry prev skip h work t = \<lparr>nStatus = 2, pprev = prev, pskip = skip, nHeight = h, nChainWork = work,
     bi_nVersion = 1, bi_minerAddress = replicate 20 0, bi_nTime = t, bi_nBits = 0x207fffff, bi_nNonce = 0,
     bi_hashRandomX = replicate 32 0, nTimeReceived = 0, nTimeMax = uint t\<rparr>"

definition sample_index :: block_map where
  "sample_index =
     [([0], sample_entry None None 0 2 100),
      ([1], sample_entry (Some [0]) (Some [0]) 1 4 200),
      ([2], sample_entry (Some [1]) (Some [0]) 2 6 300),
      ([3], sample_entry (Some [1]) (Some [0]) 2 6 400)]"

lemma SetCompact_regtest: "SetCompact 0x207fffff = (push_bit 232 0x7fffff, False, False)"
  by (simp add: SetCompact_def Let_def)

lemma regtest_proof: "bi_nBits e = 0x207fffff \<Longrightarrow> GetBlockProof e = 2"
  by (simp add: GetBlockProof_def SetCompact_regtest)

lemma sample_index_inv: "index_inv sample_index"
  by (simp add: index_inv_def om_invar_def sample_index_def entry_ok_def regtest_proof sample_entry_def
      index_time_def anc_at_def parent_of_def height_of_def GetSkipHeight_def InvertLowestOne_def)

section \<open>Properties\<close>

text \<open>
  \<^bold>\<open>C31.\<close> Skip-list search is correct and total: on every well-formed index, \<open>GetAncestor\<close> never trips its
  null-parent assertion, returns null exactly for heights outside \<open>[0, nHeight]\<close>, and otherwise returns
  the block reached by following \<open>nHeight - height\<close> parent pointers.
\<close>

theorem GetAncestor_is_ancestor:
  assumes "index_inv m" and "map_of m k = Some e"
  shows "GetAncestor m k height = Some
    (if 0 \<le> height \<and> height \<le> nHeight e then ancs (parent_of m) (nat (nHeight e - height)) k else None)"
  using GetAncestor_correct [OF assms] assms(2) by (simp add: anc_at_def height_of_Some)

theorem GetAncestor_is_ancestor_witness:
  "GetAncestor sample_index [3] 1 = Some (Some [1])"
  using GetAncestor_is_ancestor [OF sample_index_inv, of "[3]" "sample_entry (Some [1]) (Some [0]) 2 6 400" 1]
  by (simp add: sample_index_def) (simp add: sample_entry_def parent_of_def)

text \<open>
  \<open>LastCommonAncestor\<close> ends and returns the last common ancestor: an ancestor of both blocks
  from which every other common ancestor is reached; it is never null inside one index.
\<close>

theorem LastCommonAncestor_is_last:
  assumes "index_inv m" and "map_of m a = Some e" and "map_of m b = Some f"
  shows "\<exists>c. LastCommonAncestor m (Some a) (Some b) = Some (Some c) \<and>
    descends (parent_of m) a c \<and> descends (parent_of m) b c \<and>
    (\<forall>d. descends (parent_of m) a d \<and> descends (parent_of m) b d \<longrightarrow> descends (parent_of m) c d)"
  using LastCommonAncestor_correct [OF assms(1), of a b] assms(2,3) by (auto simp: is_lca_def)

theorem LastCommonAncestor_is_last_witness:
  "\<exists>c. LastCommonAncestor sample_index (Some [2]) (Some [3]) = Some (Some c) \<and>
     descends (parent_of sample_index) [2] c \<and> descends (parent_of sample_index) [3] c"
proof -
  have "map_of sample_index [2] = Some (sample_entry (Some [1]) (Some [0]) 2 6 300)"
    "map_of sample_index [3] = Some (sample_entry (Some [1]) (Some [0]) 2 6 400)" by (simp_all add: sample_index_def)
  from LastCommonAncestor_is_last [OF sample_index_inv this] show ?thesis by blast
qed

text \<open>
  \<open>GetBlockProof\<close> is the expected number of hashes: for a target \<open>t\<close> decoded without flags it is
  \<open>2 ^ 256 div (t + 1)\<close>, a value no 256-bit quotient of \<open>2 ^ 256\<close> could be computed from directly; it is
  zero exactly for negative, overflowing or zero targets.
\<close>

theorem GetBlockProof_is_work:
  "case SetCompact (bi_nBits e) of (t, neg, ovf) \<Rightarrow>
     if neg \<or> ovf \<or> t = 0 then GetBlockProof e = 0
     else unat (GetBlockProof e) = 2 ^ 256 div (unat t + 1) \<and> GetBlockProof e \<noteq> 0"
  using GetBlockProof_quotient [of e "fst (SetCompact (bi_nBits e))"] GetBlockProof_zero_iff [of e]
  by (auto split: prod.splits)

end
