(* ===== verification/Chain_Active.thy ===== *)
theory Chain_Active
  imports Block_Index
begin

text \<open>
  The active chain (include/chain/chain.hpp, src/chain/chain.cpp): a vector of block pointers indexed
  by height.  \<open>chain_inv\<close> says the vector is the path from the root to its tip; \<open>SetTip\<close>, which stops as
  soon as it meets an entry left from a previous walk, is shown to install exactly the path of the new
  tip.  Fork search, locators and the time search are proved against their definitions on the tree.
\<close>

section \<open>The vector\<close>

type_synonym CChain = "blob option list"

definition chain_Genesis :: "CChain \<Rightarrow> blob option" where
  "chain_Genesis vChain = (if length vChain > 0 then vChain ! 0 else None)"

definition chain_Tip :: "CChain \<Rightarrow> blob option" where
  "chain_Tip vChain = (if length vChain > 0 then vChain ! (length vChain - 1) else None)"

definition chain_at :: "CChain \<Rightarrow> int \<Rightarrow> blob option" where
  "chain_at vChain h = (if h < 0 \<or> h \<ge> int (length vChain) then None else vChain ! nat h)"

definition chain_Contains :: "block_map \<Rightarrow> CChain \<Rightarrow> blob option \<Rightarrow> bool" where
  "chain_Contains m vChain pindex \<longleftrightarrow>
     (case pindex of None \<Rightarrow> False
      | Some k \<Rightarrow> (if height_of m k < 0 \<or> height_of m k \<ge> int (length vChain) then False
                  else vChain ! nat (height_of m k) = Some k))"

definition chain_Next :: "block_map \<Rightarrow> CChain \<Rightarrow> blob option \<Rightarrow> blob option" where
  "chain_Next m vChain pindex =
     (case pindex of None \<Rightarrow> None
      | Some k \<Rightarrow> if chain_Contains m vChain pindex then chain_at vChain (height_of m k + 1) else None)"

definition chain_Height :: "CChain \<Rightarrow> int" where
  "chain_Height vChain = int (length vChain) - 1"

definition chain_Clear :: "CChain \<Rightarrow> CChain" where
  "chain_Clear vChain = []"

definition vec_resize :: "'a option list \<Rightarrow> nat \<Rightarrow> 'a option list" where
  "vec_resize v n = take n v @ replicate (n - length v) None"

section \<open>Setting the tip\<close>

text \<open>\<open>None\<close> is a walk that does not end (or a dangling pointer).\<close>

partial_function (option) SetTip_loop :: "block_map \<Rightarrow> CChain \<Rightarrow> blob option \<Rightarrow> CChain option" where
  "SetTip_loop m vChain pindex =
     (case pindex of None \<Rightarrow> Some vChain
      | Some k \<Rightarrow> (case map_of m k of None \<Rightarrow> None
          | Some e \<Rightarrow>
              if nHeight e < 0 then Some vChain
              else let idx = nat (nHeight e);
                       vChain = (if idx \<ge> length vChain then vec_resize vChain (idx + 1) else vChain)
                   in if vChain ! idx = Some k then Some vChain
                      else SetTip_loop m (vChain[idx := Some k]) (pprev e)))"

definition SetTip :: "block_map \<Rightarrow> CChain \<Rightarrow> blob \<Rightarrow> CChain option" where
  "SetTip m vChain k =
     (case map_of m k of None \<Rightarrow> None
      | Some e \<Rightarrow>
          if nHeight e < 0 then Some vChain
          else SetTip_loop m (vec_resize vChain (nat (nHeight e) + 1)) (Some k))"

section \<open>Searching\<close>

partial_function (option) FindFork_loop :: "block_map \<Rightarrow> CChain \<Rightarrow> blob option \<Rightarrow> blob option option" where
  "FindFork_loop m vChain pindex =
     (case pindex of None \<Rightarrow> Some None
      | Some k \<Rightarrow> if chain_Contains m vChain (Some k) then Some (Some k)
                  else FindFork_loop m vChain (parent_of m k))"

definition FindFork :: "block_map \<Rightarrow> CChain \<Rightarrow> blob option \<Rightarrow> blob option option" where
  "FindFork m vChain pindex =
     (case pindex of None \<Rightarrow> Some None
      | Some k \<Rightarrow>
          if height_of m k > chain_Height vChain
          then Option.bind (GetAncestor m k (chain_Height vChain)) (FindFork_loop m vChain)
          else FindFork_loop m vChain pindex)"

partial_function (option) LocatorEntries_loop :: "block_map \<Rightarrow> blob option \<Rightarrow> int \<Rightarrow> blob list \<Rightarrow> blob list option" where
  "LocatorEntries_loop m index step hashes =
     (case index of None \<Rightarrow> Some hashes
      | Some k \<Rightarrow>
          let hashes = hashes @ [k] in
          if height_of m k = 0 then Some hashes
          else let height = max (height_of m k - step) 0
               in Option.bind (GetAncestor m k height)
                    (\<lambda>index. LocatorEntries_loop m index (if length hashes > 10 then step * 2 else step) hashes))"

definition LocatorEntries :: "block_map \<Rightarrow> blob option \<Rightarrow> blob list option" where
  "LocatorEntries m index = LocatorEntries_loop m index 1 []"

definition chain_GetLocator :: "block_map \<Rightarrow> CChain \<Rightarrow> blob list option" where
  "chain_GetLocator m vChain = LocatorEntries m (chain_Tip vChain)"

text \<open>\<open>std::lower_bound\<close>: the first position of \<open>[first, first + len)\<close> where \<open>before\<close> fails.\<close>

function lower_bound :: "(nat \<Rightarrow> bool) \<Rightarrow> nat \<Rightarrow> nat \<Rightarrow> nat" where
  "lower_bound before first len =
     (if len = 0 then first
      else let half = len div 2; mid = first + half
           in if before mid then lower_bound before (mid + 1) (len - half - 1)
              else lower_bound before first half)"
  by auto
termination
  by (relation "measure (\<lambda>(before, first, len). len)") auto

declare lower_bound.simps [simp del]

definition FindEarliestAtLeast :: "block_map \<Rightarrow> CChain \<Rightarrow> int \<Rightarrow> int \<Rightarrow> blob option" where
  "FindEarliestAtLeast m vChain time height =
     (let before = (\<lambda>i. case vChain ! i of None \<Rightarrow> False
            | Some k \<Rightarrow> (case map_of m k of None \<Rightarrow> False
                | Some e \<Rightarrow> nTimeMax e < time \<or> nHeight e < height));
          lower = lower_bound before 0 (length vChain)
      in if lower = length vChain then None else vChain ! lower)"

section \<open>The vector is a path\<close>

definition path_to :: "block_map \<Rightarrow> blob \<Rightarrow> CChain" where
  "path_to m k = map (\<lambda>i. anc_at (parent_of m) (height_of m) k (int i)) [0..<nat (height_of m k) + 1]"

definition chain_inv :: "block_map \<Rightarrow> CChain \<Rightarrow> bool" where
  "chain_inv m vChain \<longleftrightarrow>
     (vChain = [] \<or> (case chain_Tip vChain of None \<Rightarrow> False | Some k \<Rightarrow> map_of m k \<noteq> None \<and> vChain = path_to m k))"

lemma length_path_to: "length (path_to m k) = nat (height_of m k) + 1"
  by (simp add: path_to_def)

lemma nth_path_to: "i \<le> nat (height_of m k) \<Longrightarrow> path_to m k ! i = anc_at (parent_of m) (height_of m) k (int i)"
  by (simp add: path_to_def del: upt_Suc)

lemma path_to_tip: "0 \<le> height_of m k \<Longrightarrow> chain_Tip (path_to m k) = Some k"
  by (simp add: chain_Tip_def length_path_to nth_path_to) (simp add: anc_at_def)

lemma chain_invD:
  assumes "chain_inv m v" "v \<noteq> []"
  obtains k where "chain_Tip v = Some k" "map_of m k \<noteq> None" "v = path_to m k"
  using assms by (auto simp: chain_inv_def split: option.splits)

lemma chain_inv_path: "index_inv m \<Longrightarrow> map_of m k \<noteq> None \<Longrightarrow> chain_inv m (path_to m k)"
  using path_to_tip tree.height_nonneg by (simp add: chain_inv_def)

text \<open>A block of the chain sits at its height, and everything below it is its ancestors.\<close>

lemma chain_entry:
  assumes m: "index_inv m" and v: "chain_inv m v" and i: "i < length v" "v ! i = Some q"
  shows "map_of m q \<noteq> None" "height_of m q = int i"
    "j \<le> i \<Longrightarrow> v ! j = anc_at (parent_of m) (height_of m) q (int j)"
proof -
  from i have "v \<noteq> []" by auto
  then obtain k where k: "map_of m k \<noteq> None" "v = path_to m k" using chain_invD [OF v] by metis
  have nn: "0 \<le> height_of m k" using tree.height_nonneg [OF m k(1)] .
  then have ik: "int i \<le> height_of m k" using i(1) k(2) by (simp add: length_path_to)
  then have a: "anc_at (parent_of m) (height_of m) k (int i) = Some q"
    using i(2) k(2) nth_path_to [of i m k] by simp
  obtain r where "anc_at (parent_of m) (height_of m) k (int i) = Some r" "map_of m r \<noteq> None"
      "height_of m r = int i" "descends (parent_of m) k r"
    by (rule tree.anc_at_defined [OF m k(1) _ ik]) simp
  with a have q: "map_of m q \<noteq> None" "height_of m q = int i" "descends (parent_of m) k q" by simp_all
  show "map_of m q \<noteq> None" "height_of m q = int i" by (rule q)+
  show "v ! j = anc_at (parent_of m) (height_of m) q (int j)" if "j \<le> i"
    using that ik q tree.anc_at_via [OF m k(1) q(3), of "int j"] k(2) nth_path_to [of j m k] nn by simp
qed

lemma chain_entry_Some: "index_inv m \<Longrightarrow> chain_inv m v \<Longrightarrow> i < length v \<Longrightarrow> \<exists>q. v ! i = Some q"
proof -
  assume m: "index_inv m" and v: "chain_inv m v" and i: "i < length v"
  then obtain k where k: "map_of m k \<noteq> None" "v = path_to m k" using chain_invD [OF v] by (metis length_0_conv not_less_zero)
  then have "int i \<le> height_of m k" using i tree.height_nonneg [OF m k(1)] by (simp add: length_path_to)
  then obtain q where "anc_at (parent_of m) (height_of m) k (int i) = Some q"
    using tree.anc_at_defined [OF m k(1), of "int i"] by auto
  then show ?thesis using i k(2) by (simp add: nth_path_to length_path_to)
qed

lemma chain_Contains_iff:
  assumes m: "index_inv m" and v: "chain_inv m v"
  shows "chain_Contains m v (Some q) \<longleftrightarrow> (\<exists>i < length v. v ! i = Some q)"
proof
  assume "chain_Contains m v (Some q)"
  then show "\<exists>i < length v. v ! i = Some q"
    by (intro exI [of _ "nat (height_of m q)"]) (auto simp: chain_Contains_def split: if_splits)
next
  assume "\<exists>i < length v. v ! i = Some q"
  then obtain i where i: "i < length v" "v ! i = Some q" by blast
  then show "chain_Contains m v (Some q)" using chain_entry(2) [OF m v i] by (simp add: chain_Contains_def)
qed

lemma chain_Contains_descends:
  assumes m: "index_inv m" and k: "map_of m k \<noteq> None"
  shows "chain_Contains m (path_to m k) (Some q) \<longleftrightarrow> descends (parent_of m) k q"
proof -
  have v: "chain_inv m (path_to m k)" by (rule chain_inv_path [OF m k])
  have nn: "0 \<le> height_of m k" by (rule tree.height_nonneg [OF m k])
  show ?thesis
  proof
    assume "chain_Contains m (path_to m k) (Some q)"
    then obtain i where i: "i < length (path_to m k)" "path_to m k ! i = Some q"
      using chain_Contains_iff [OF m v] by blast
    then have "ancs (parent_of m) (nat (height_of m k - int i)) k = Some q"
      using nth_path_to [of i m k] by (simp add: length_path_to anc_at_def)
    then show "descends (parent_of m) k q" by (auto simp: descends_def)
  next
    assume d: "descends (parent_of m) k q"
    have q: "map_of m q \<noteq> None" by (rule tree.descends_member [OF m k d])
    have h: "0 \<le> height_of m q" by (rule tree.height_nonneg [OF m q])
    have a: "height_of m q \<le> height_of m k" "anc_at (parent_of m) (height_of m) k (height_of m q) = Some q"
      using d tree.descends_anc_at [OF m k] by auto
    have "nat (height_of m q) \<le> nat (height_of m k)" using a(1) by simp
    then have "path_to m k ! nat (height_of m q) = Some q" using nth_path_to [of "nat (height_of m q)" m k] a h by simp
    moreover have "nat (height_of m q) < length (path_to m k)" using a(1) by (simp add: length_path_to)
    ultimately show "chain_Contains m (path_to m k) (Some q)" using chain_Contains_iff [OF m v] by blast
  qed
qed

section \<open>SetTip installs the path\<close>

lemma SetTip_loop_step:
  "map_of m q = Some e \<Longrightarrow> 0 \<le> nHeight e \<Longrightarrow> nat (nHeight e) < length v \<Longrightarrow>
   SetTip_loop m v (Some q) = (if v ! nat (nHeight e) = Some q then Some v
     else SetTip_loop m (v[nat (nHeight e) := Some q]) (pprev e))"
  by (subst SetTip_loop.simps) (simp add: Let_def)

lemma SetTip_loop_path:
  assumes m: "index_inv m" and old: "chain_inv m old" and k: "map_of m k \<noteq> None"
  shows "descends (parent_of m) k q \<Longrightarrow> height_of m q = int j \<Longrightarrow> length v = length (path_to m k) \<Longrightarrow>
    (\<And>i. j < i \<Longrightarrow> i < length v \<Longrightarrow> v ! i = path_to m k ! i) \<Longrightarrow>
    (\<And>i. i \<le> j \<Longrightarrow> v ! i = (if i < length old then old ! i else None)) \<Longrightarrow>
    SetTip_loop m v (Some q) = Some (path_to m k)"
proof (induction j arbitrary: q v)
  case (0 q v)
  then obtain e where e: "map_of m q = Some e" "nHeight e = 0"
    using tree.descends_member [OF m k] by (auto simp: height_of_def split: option.splits)
  have lv: "0 < length v" using 0(3) by (simp add: length_path_to)
  have q0: "path_to m k ! 0 = Some q"
    using tree.descends_anc_at [OF m k, of q] 0(1,2) nth_path_to [of 0 m k] by simp
  have "v[0 := Some q] ! i = path_to m k ! i" if "i < length v" for i
    using that 0(4) [of i] q0 by (cases "i = 0") auto
  then have "v[0 := Some q] = path_to m k" by (intro nth_equalityI) (use 0(3) in simp_all)
  moreover have "v[0 := Some q] = v" if "v ! 0 = Some q" using that by (metis list_update_id)
  moreover have "pprev e = None" using index_root [OF m e(1)] e(2) by simp
  ultimately show ?case
    using e lv by (auto simp: SetTip_loop_step SetTip_loop.simps [of m _ None])
next
  case (Suc j q v)
  then obtain e where e: "map_of m q = Some e" "nHeight e = int (Suc j)"
    using tree.descends_member [OF m k] by (auto simp: height_of_def split: option.splits)
  have hq: "int (Suc j) \<le> height_of m k" using tree.descends_height [OF m k Suc.prems(1)] Suc.prems(2) by simp
  have lv: "Suc j < length v" using hq Suc.prems(3) by (simp add: length_path_to)
  have qj: "path_to m k ! Suc j = Some q"
    using tree.descends_anc_at [OF m k, of q] Suc.prems(1,2) nth_path_to [of "Suc j" m k] hq by simp
  have nat_e: "nat (nHeight e) = Suc j" "0 \<le> nHeight e" using e(2) by simp_all
  show ?case
  proof (cases "v ! Suc j = Some q")
    case True
    then have o: "Suc j < length old" "old ! Suc j = Some q" using Suc.prems(5) [of "Suc j"] by (auto split: if_splits)
    have "v ! i = path_to m k ! i" if "i < length v" for i
    proof (cases "i \<le> Suc j")
      case le: True
      then have "v ! i = old ! i" using Suc.prems(5) [OF le] o(1) by simp
      also have "\<dots> = anc_at (parent_of m) (height_of m) q (int i)" by (rule chain_entry(3) [OF m old o le])
      also have "\<dots> = anc_at (parent_of m) (height_of m) k (int i)"
        using tree.anc_at_via [OF m k Suc.prems(1)] Suc.prems(2) le by simp
      also have "\<dots> = path_to m k ! i" using le hq by (intro nth_path_to [symmetric]) simp
      finally show ?thesis .
    qed (use Suc.prems(4) that in simp)
    then have "v = path_to m k" by (intro nth_equalityI) (use Suc.prems(3) in simp_all)
    then show ?thesis using SetTip_loop_step [OF e(1) nat_e(2)] lv True by (simp add: nat_e)
  next
    case False
    obtain p where p: "pprev e = Some p" using index_root [OF m e(1)] e(2) by (cases "pprev e") auto
    have pq: "parent_of m q = Some p" using e(1) p by (simp add: parent_of_Some)
    have q: "map_of m q \<noteq> None" using e(1) by simp
    have hp: "height_of m p = int j" using tree.parent_height [OF m q pq] Suc.prems(2) by simp
    have dp: "descends (parent_of m) k p" using Suc.prems(1) pq descends_parent descends_trans by metis
    have "SetTip_loop m (v[Suc j := Some q]) (Some p) = Some (path_to m k)"
      by (rule Suc.IH [OF dp hp]) (use Suc.prems(3-5) qj lv in \<open>auto simp: nth_list_update\<close>)
    then show ?thesis using SetTip_loop_step [OF e(1) nat_e(2)] lv False p by (simp add: nat_e)
  qed
qed

lemma SetTip_path:
  assumes m: "index_inv m" and old: "chain_inv m old" and k: "map_of m k \<noteq> None"
  shows "SetTip m old k = Some (path_to m k)"
proof -
  obtain e where e: "map_of m k = Some e" using k by blast
  have h: "0 \<le> nHeight e" by (rule index_height [OF m e])
  let ?v = "vec_resize old (nat (nHeight e) + 1)"
  have hk: "height_of m k = int (nat (nHeight e))" using e h by (simp add: height_of_Some)
  have l: "length ?v = length (path_to m k)" using e h by (simp add: vec_resize_def length_path_to height_of_Some)
  have "SetTip_loop m ?v (Some k) = Some (path_to m k)"
  proof (rule SetTip_loop_path [OF m old k descends_refl hk l])
    show "?v ! i = (if i < length old then old ! i else None)" if "i \<le> nat (nHeight e)" for i
      using that by (auto simp: vec_resize_def nth_append)
    show "?v ! i = path_to m k ! i" if "nat (nHeight e) < i" "i < length ?v" for i
      using that by (simp add: vec_resize_def)
  qed
  then show ?thesis using e h by (simp add: SetTip_def)
qed

section \<open>Fork search\<close>

lemma FindFork_loop_correct:
  assumes m: "index_inv m" and t: "map_of m t \<noteq> None"
  shows "map_of m k \<noteq> None \<Longrightarrow> height_of m k = int n \<Longrightarrow>
    \<exists>c. FindFork_loop m (path_to m t) (Some k) = Some (Some c) \<and> is_lca (parent_of m) t k c"
proof (induction n arbitrary: k)
  case 0
  obtain r where r: "descends (parent_of m) t r" "descends (parent_of m) k r" by (rule tree.root_common [OF m t 0(1)])
  have "map_of m r \<noteq> None" by (rule tree.descends_member [OF m 0(1) r(2)])
  then have "height_of m r = 0"
    using tree.descends_height [OF m 0(1) r(2)] tree.height_nonneg [OF m] 0(2) by fastforce
  then have "r = k" using tree.one_root [OF m 0(1) \<open>map_of m r \<noteq> None\<close>] 0(2) by simp
  then have d: "descends (parent_of m) t k" using r(1) by simp
  then have "FindFork_loop m (path_to m t) (Some k) = Some (Some k)"
    by (subst FindFork_loop.simps) (simp add: chain_Contains_descends [OF m t])
  then show ?case using d by (auto simp: is_lca_def)
next
  case (Suc n)
  show ?case
  proof (cases "descends (parent_of m) t k")
    case True
    then have "FindFork_loop m (path_to m t) (Some k) = Some (Some k)"
      by (subst FindFork_loop.simps) (simp add: chain_Contains_descends [OF m t])
    then show ?thesis using True by (auto simp: is_lca_def)
  next
    case False
    obtain p where p: "parent_of m k = Some p" using tree.root_iff [OF m Suc.prems(1)] Suc.prems(2) by fastforce
    have pm: "map_of m p \<noteq> None" by (rule tree.parent_member [OF m Suc.prems(1) p])
    have "height_of m p = int n" using tree.parent_height [OF m Suc.prems(1) p] Suc.prems(2) by simp
    then obtain c where c: "FindFork_loop m (path_to m t) (Some p) = Some (Some c)" "is_lca (parent_of m) t p c"
      using Suc.IH [OF pm] by blast
    have "FindFork_loop m (path_to m t) (Some k) = Some (Some c)"
      using False c(1) p by (subst FindFork_loop.simps) (simp add: chain_Contains_descends [OF m t])
    moreover have "descends (parent_of m) p d" if "descends (parent_of m) k d" "descends (parent_of m) t d" for d
      using descends_step [OF that(1)] that(2) False p by auto
    then have "is_lca (parent_of m) t k c"
      using c(2) descends_trans [OF descends_parent [of "parent_of m", OF p]] unfolding is_lca_def by blast
    ultimately show ?thesis by blast
  qed
qed

lemma FindFork_correct:
  assumes m: "index_inv m" and t: "map_of m t \<noteq> None" and k: "map_of m k \<noteq> None"
  shows "\<exists>c. FindFork m (path_to m t) (Some k) = Some (Some c) \<and> is_lca (parent_of m) t k c"
proof (cases "height_of m k > height_of m t")
  case True
  have nt: "0 \<le> height_of m t" by (rule tree.height_nonneg [OF m t])
  have ht: "chain_Height (path_to m t) = height_of m t" using nt by (simp add: chain_Height_def length_path_to)
  have le: "height_of m t \<le> height_of m k" using True by simp
  obtain a where a: "anc_at (parent_of m) (height_of m) k (height_of m t) = Some a" "map_of m a \<noteq> None"
      "height_of m a = height_of m t" "descends (parent_of m) k a"
    by (rule tree.anc_at_defined [OF m k nt le])
  obtain e where e: "map_of m k = Some e" using k by blast
  have g: "GetAncestor m k (height_of m t) = Some (Some a)"
    using GetAncestor_correct [OF m e, of "height_of m t"] a(1) nt le e by (simp add: height_of_Some)
  obtain c where c: "FindFork_loop m (path_to m t) (Some a) = Some (Some c)" "is_lca (parent_of m) t a c"
    using FindFork_loop_correct [OF m t a(2), of "nat (height_of m t)"] a(3) nt by auto
  have "is_lca (parent_of m) k t c"
    by (rule is_lca_shift [OF m k t a(4) _ is_lca_sym [OF c(2)]]) (simp add: a(3))
  then have "is_lca (parent_of m) t k c" by (rule is_lca_sym)
  then show ?thesis using True ht g c(1) by (simp add: FindFork_def)
next
  case False
  have nk: "0 \<le> height_of m k" "0 \<le> height_of m t" using tree.height_nonneg [OF m] k t by auto
  have "chain_Height (path_to m t) = height_of m t" using nk(2) by (simp add: chain_Height_def length_path_to)
  moreover have "\<exists>c. FindFork_loop m (path_to m t) (Some k) = Some (Some c) \<and> is_lca (parent_of m) t k c"
    by (rule FindFork_loop_correct [OF m t k, of "nat (height_of m k)"]) (simp add: nk)
  ultimately show ?thesis using False by (simp add: FindFork_def)
qed

section \<open>Locators\<close>

definition locator_ok :: "block_map \<Rightarrow> blob \<Rightarrow> blob list \<Rightarrow> bool" where
  "locator_ok m k hashes \<longleftrightarrow> hashes \<noteq> [] \<and> hd hashes = k \<and> height_of m (last hashes) = 0 \<and>
     sorted_wrt (\<lambda>a b. height_of m b < height_of m a) hashes \<and> (\<forall>q \<in> set hashes. descends (parent_of m) k q)"

lemma LocatorEntries_loop_correct:
  assumes m: "index_inv m"
  shows "map_of m k \<noteq> None \<Longrightarrow> height_of m k = int n \<Longrightarrow> 1 \<le> step \<Longrightarrow>
    \<exists>hashes. LocatorEntries_loop m (Some k) step acc = Some (acc @ hashes) \<and> locator_ok m k hashes"
proof (induction n arbitrary: k step acc rule: less_induct)
  case (less n)
  show ?case
  proof (cases "n = 0")
    case True
    then show ?thesis using less.prems
      by (intro exI [of _ "[k]"]) (simp add: LocatorEntries_loop.simps [of m "Some k"] Let_def locator_ok_def)
  next
    case False
    let ?h = "max (height_of m k - step) 0"
    have h: "0 \<le> ?h" "?h \<le> height_of m k" "nat ?h < n" using False less.prems by auto
    obtain a where a: "anc_at (parent_of m) (height_of m) k ?h = Some a" "map_of m a \<noteq> None" "height_of m a = ?h"
        "descends (parent_of m) k a"
      by (rule tree.anc_at_defined [OF m less.prems(1) h(1,2)])
    obtain e where e: "map_of m k = Some e" using less.prems(1) by blast
    have g: "GetAncestor m k ?h = Some (Some a)"
      using GetAncestor_correct [OF m e, of ?h] a(1) h(1,2) e by (simp add: height_of_Some)
    let ?s = "if length (acc @ [k]) > 10 then step * 2 else step"
    have s1: "1 \<le> ?s" using less.prems(3) by auto
    obtain L where L: "LocatorEntries_loop m (Some a) ?s (acc @ [k]) = Some ((acc @ [k]) @ L)" "locator_ok m a L"
      using less.IH [OF h(3) a(2) _ s1, of "acc @ [k]"] a(3) h(1) by auto
    have "LocatorEntries_loop m (Some k) step acc = Some (acc @ (k # L))"
      using L(1) g False less.prems(2) by (subst LocatorEntries_loop.simps) (simp add: Let_def)
    moreover have "height_of m q < height_of m k" if "q \<in> set L" for q
    proof -
      have "descends (parent_of m) a q" using L(2) that by (simp add: locator_ok_def)
      then have "height_of m q \<le> height_of m a" by (rule tree.descends_height [OF m a(2)])
      then show ?thesis using a(3) h(3) less.prems(2) by simp
    qed
    then have "locator_ok m k (k # L)"
      using L(2) descends_trans [OF a(4)] by (auto simp: locator_ok_def)
    ultimately show ?thesis by blast
  qed
qed

section \<open>Time search\<close>

lemma lower_bound_correct:
  assumes mono: "\<And>i j. i \<le> j \<Longrightarrow> j < n \<Longrightarrow> before j \<Longrightarrow> before i"
  shows "first + len \<le> n \<Longrightarrow> (\<forall>i < first. before i) \<Longrightarrow> (first + len < n \<longrightarrow> \<not> before (first + len)) \<Longrightarrow>
    lower_bound before first len \<le> n \<and> (\<forall>i < lower_bound before first len. before i) \<and>
    (lower_bound before first len < n \<longrightarrow> \<not> before (lower_bound before first len))"
proof (induction len arbitrary: first rule: less_induct)
  case (less len)
  show ?case
  proof (cases "len = 0")
    case True
    then have "lower_bound before first len = first" by (subst lower_bound.simps) simp
    then show ?thesis using less.prems True by simp
  next
    case False
    let ?mid = "first + len div 2"
    have mid: "?mid < n" using False less.prems(1) by linarith
    have step: "lower_bound before first len =
        (if before ?mid then lower_bound before (?mid + 1) (len - len div 2 - 1) else lower_bound before first (len div 2))"
      using False by (subst lower_bound.simps) (simp add: Let_def)
    show ?thesis
    proof (cases "before ?mid")
      case True
      have "\<forall>i < ?mid + 1. before i" using True mono [of _ ?mid] mid by auto
      moreover have "?mid + 1 + (len - len div 2 - 1) = first + len" using False by linarith
      ultimately show ?thesis using less.IH [of "len - len div 2 - 1" "?mid + 1"] less.prems False True
        unfolding step by simp
    next
      case nb: False
      then have eq: "lower_bound before first len = lower_bound before first (len div 2)" by (simp only: step if_False)
      have "len div 2 < len" "first + len div 2 \<le> n" using False mid by simp_all
      then show ?thesis unfolding eq using less.prems(2) nb by (intro less.IH) simp_all
    qed
  qed
qed

lemma path_parent:
  assumes m: "index_inv m" and v: "chain_inv m v" and i: "Suc i < length v" "v ! Suc i = Some q"
  shows "parent_of m q = v ! i"
proof -
  note c = chain_entry [OF m v i]
  have "v ! i = anc_at (parent_of m) (height_of m) q (int i)" by (rule c(3)) simp
  also have "\<dots> = parent_of m q" using c(2) by (simp add: anc_at_def split: option.splits)
  finally show ?thesis by simp
qed

text \<open>The running maximum of the timestamps does not decrease along the chain.\<close>

lemma timemax_mono:
  assumes m: "index_inv m" and v: "chain_inv m v"
  shows "i \<le> j \<Longrightarrow> j < length v \<Longrightarrow> v ! i = Some p \<Longrightarrow> v ! j = Some q \<Longrightarrow> map_of m p = Some e \<Longrightarrow>
    map_of m q = Some f \<Longrightarrow> nTimeMax e \<le> nTimeMax f"
proof (induction j arbitrary: q f)
  case 0
  then show ?case by simp
next
  case (Suc j)
  show ?case
  proof (cases "i = Suc j")
    case False
    then have ij: "i \<le> j" using Suc.prems(1) by simp
    obtain r where r: "v ! j = Some r" using chain_entry_Some [OF m v, of j] Suc.prems(2) by auto
    have "pprev f = Some r"
      using path_parent [OF m v Suc.prems(2,4)] r Suc.prems(6) by (simp add: parent_of_Some)
    then obtain g where "map_of m r = Some g" "nTimeMax f = max (nTimeMax g) (index_time f)"
      by (rule index_parent [OF m Suc.prems(6)])
    then show ?thesis using Suc.IH [OF ij _ Suc.prems(3) r Suc.prems(5)] Suc.prems(2) by fastforce
  qed (use Suc.prems in simp)
qed

definition at_least :: "block_map \<Rightarrow> int \<Rightarrow> int \<Rightarrow> blob \<Rightarrow> bool" where
  "at_least m time height k \<longleftrightarrow>
     (case map_of m k of None \<Rightarrow> False | Some e \<Rightarrow> time \<le> nTimeMax e \<and> height \<le> nHeight e)"

lemma FindEarliestAtLeast_correct:
  assumes m: "index_inv m" and v: "chain_inv m v"
  shows "case FindEarliestAtLeast m v time height of
      None \<Rightarrow> \<forall>i < length v. \<not> at_least m time height (the (v ! i))
    | Some k \<Rightarrow> chain_Contains m v (Some k) \<and> at_least m time height k \<and>
        (\<forall>i < length v. int i < height_of m k \<longrightarrow> \<not> at_least m time height (the (v ! i)))"
proof -
  let ?before = "\<lambda>i. case v ! i of None \<Rightarrow> False | Some k \<Rightarrow> (case map_of m k of None \<Rightarrow> False
      | Some e \<Rightarrow> nTimeMax e < time \<or> nHeight e < height)"
  have entry: "\<exists>k e. v ! i = Some k \<and> map_of m k = Some e \<and> nHeight e = int i" if il: "i < length v" for i
  proof -
    obtain k where k: "v ! i = Some k" using chain_entry_Some [OF m v il] by blast
    note c = chain_entry(1,2) [OF m v il k]
    then show ?thesis using k by (auto simp: height_of_def)
  qed
  have b: "?before i \<longleftrightarrow> \<not> at_least m time height (the (v ! i))" if "i < length v" for i
    using entry [OF that] by (auto simp: at_least_def)
  have mono: "?before i" if ij: "i \<le> j" "j < length v" "?before j" for i j
  proof -
    obtain p e where p: "v ! i = Some p" "map_of m p = Some e" "nHeight e = int i" using entry [of i] ij(1,2) by auto
    obtain q f where q: "v ! j = Some q" "map_of m q = Some f" "nHeight f = int j" using entry [of j] ij(2) by auto
    have "nTimeMax e \<le> nTimeMax f" by (rule timemax_mono [OF m v ij(1,2) p(1) q(1) p(2) q(2)])
    then show ?thesis using ij(1,3) p q by auto
  qed
  define r where "r = lower_bound ?before 0 (length v)"
  have r: "r \<le> length v" "\<forall>i < r. ?before i" "r < length v \<longrightarrow> \<not> ?before r"
    using lower_bound_correct [of "length v" ?before 0 "length v", OF mono] unfolding r_def by auto
  have f: "FindEarliestAtLeast m v time height = (if r = length v then None else v ! r)"
    by (simp add: FindEarliestAtLeast_def Let_def r_def)
  show ?thesis
  proof (cases "r = length v")
    case True
    then show ?thesis using f r(2) b by simp
  next
    case False
    then have rl: "r < length v" using r(1) by simp
    obtain k e where k: "v ! r = Some k" "map_of m k = Some e" "nHeight e = int r" using entry [OF rl] by auto
    have "at_least m time height k" using r(3) rl b [OF rl] k(1) by simp
    moreover have "chain_Contains m v (Some k)" using chain_Contains_iff [OF m v] rl k(1) by blast
    moreover have "\<not> at_least m time height (the (v ! i))" if "i < length v" "int i < height_of m k" for i
      using that r(2) b [OF that(1)] k by (simp add: height_of_Some)
    ultimately show ?thesis using f False k(1) by simp
  qed
qed

section \<open>Properties\<close>

lemma sample_chain: "chain_inv sample_index (path_to sample_index [2])"
  by (rule chain_inv_path [OF sample_index_inv]) (simp add: sample_index_def)

lemma sample_known: "map_of sample_index [2] \<noteq> None" "map_of sample_index [3] \<noteq> None"
  by (simp_all add: sample_index_def)

text \<open>
  \<open>SetTip\<close> refines "replace the chain by the path to the new tip": from any vector that is a path of
  the index, whatever fork it is on, the early-exit walk ends and leaves exactly the path from the root
  to the new tip, which is again a well-formed chain whose tip is that block.
\<close>

theorem SetTip_installs_path:
  assumes "index_inv m" and "chain_inv m vChain" and "map_of m k \<noteq> None"
  shows "SetTip m vChain k = Some (path_to m k) \<and> chain_inv m (path_to m k) \<and> chain_Tip (path_to m k) = Some k \<and>
    (\<forall>q. chain_Contains m (path_to m k) (Some q) \<longleftrightarrow> descends (parent_of m) k q)"
  using SetTip_path [OF assms] chain_inv_path [OF assms(1,3)] path_to_tip tree.height_nonneg [OF assms(1,3)]
    chain_Contains_descends [OF assms(1,3)] by blast

theorem SetTip_installs_path_witness:
  "SetTip sample_index (path_to sample_index [2]) [3] = Some (path_to sample_index [3])"
  using SetTip_installs_path [OF sample_index_inv sample_chain sample_known(2)] by blast

text \<open>
  \<open>FindFork\<close> ends and returns the last block the active chain shares with the given block's branch:
  the last common ancestor of the block and the chain's tip.
\<close>

theorem FindFork_is_last_common:
  assumes "index_inv m" and "map_of m tip \<noteq> None" and "map_of m k \<noteq> None"
  shows "\<exists>c. FindFork m (path_to m tip) (Some k) = Some (Some c) \<and> is_lca (parent_of m) tip k c"
  by (rule FindFork_correct [OF assms])

theorem FindFork_is_last_common_witness:
  "\<exists>c. FindFork sample_index (path_to sample_index [2]) (Some [3]) = Some (Some c) \<and>
     is_lca (parent_of sample_index) [2] [3] c"
  by (rule FindFork_is_last_common [OF sample_index_inv sample_known])

text \<open>
  \<open>LocatorEntries\<close> ends for every known block and yields a locator: it starts with the block itself,
  ends at the root, lists only its ancestors, and their heights strictly decrease.
\<close>

theorem LocatorEntries_is_locator:
  assumes "index_inv m" and "map_of m k \<noteq> None"
  shows "\<exists>hashes. LocatorEntries m (Some k) = Some hashes \<and> hashes \<noteq> [] \<and> hd hashes = k \<and>
    height_of m (last hashes) = 0 \<and> sorted_wrt (\<lambda>a b. height_of m b < height_of m a) hashes \<and>
    (\<forall>q \<in> set hashes. descends (parent_of m) k q)"
proof -
  have "height_of m k = int (nat (height_of m k))" using tree.height_nonneg [OF assms] by simp
  from LocatorEntries_loop_correct [OF assms this, of 1 "[]"] show ?thesis
    by (simp add: LocatorEntries_def locator_ok_def)
qed

theorem LocatorEntries_is_locator_witness:
  "\<exists>hashes. LocatorEntries sample_index (Some [3]) = Some hashes \<and> hd hashes = [3] \<and>
     height_of sample_index (last hashes) = 0"
  using LocatorEntries_is_locator [OF sample_index_inv sample_known(2)] by blast

text \<open>
  \<open>FindEarliestAtLeast\<close>: the binary search over the chain returns the lowest block whose running
  maximum time and height both reach the bounds, and null exactly when the chain has none.
\<close>

theorem FindEarliestAtLeast_is_earliest:
  assumes "index_inv m" and "chain_inv m vChain"
  shows "case FindEarliestAtLeast m vChain time height of
      None \<Rightarrow> \<forall>i < length vChain. \<not> at_least m time height (the (vChain ! i))
    | Some k \<Rightarrow> chain_Contains m vChain (Some k) \<and> at_least m time height k \<and>
        (\<forall>i < length vChain. int i < height_of m k \<longrightarrow> \<not> at_least m time height (the (vChain ! i)))"
  by (rule FindEarliestAtLeast_correct [OF assms])

theorem FindEarliestAtLeast_is_earliest_witness:
  "case FindEarliestAtLeast sample_index (path_to sample_index [2]) 150 0 of
      None \<Rightarrow> \<forall>i < length (path_to sample_index [2]). \<not> at_least sample_index 150 0 (the (path_to sample_index [2] ! i))
    | Some k \<Rightarrow> at_least sample_index 150 0 k"
  using FindEarliestAtLeast_is_earliest [OF sample_index_inv sample_chain, of 150 0]
  by (simp split: option.splits)

end
