(* ===== verification/Chain_Params.thy ===== *)
theory Chain_Params
  imports Block_Index
begin

text \<open>
  Chain parameters (include/chain/chainparams.hpp, src/chain/chainparams.cpp): the consensus constants
  of the three networks and their genesis headers.  The constructors assert the genesis hash; the
  assertion is a branch of the model, and the header hash is an argument so that the constructors can
  be evaluated with any hash function (the program's is \<open>GetHash\<close>).
\<close>

section \<open>Parameters\<close>

datatype ChainType = MAIN | TESTNET | REGTEST

record ConsensusParams =
  powLimit :: blob
  nPowTargetSpacing :: int
  nRandomXEpochDuration :: int
  nASERTHalfLife :: int
  nASERTAnchorHeight :: int
  hashGenesisBlock :: blob
  nMinimumChainWork :: blob
  nNetworkExpirationInterval :: int
  nNetworkExpirationGracePeriod :: int
  nOrphanHeaderExpireTime :: int
  nSuspiciousReorgDepth :: int
  nAntiDosWorkBufferBlocks :: int

record ChainParams =
  consensus :: ConsensusParams
  nDefaultPort :: u16
  chainType :: ChainType
  genesis :: CBlockHeader
  vFixedSeeds :: "string list"

definition CreateGenesisBlock :: "u32 \<Rightarrow> u32 \<Rightarrow> u32 \<Rightarrow> u32 \<Rightarrow> CBlockHeader" where
  "CreateGenesisBlock time nonce bits version =
     header_SetNull\<lparr>nVersion := version, nTime := time, nBits := bits, nNonce := nonce\<rparr>"

definition GetChainTypeString :: "ChainParams \<Rightarrow> string" where
  "GetChainTypeString p =
     (case chainType p of MAIN \<Rightarrow> ''main'' | TESTNET \<Rightarrow> ''test'' | REGTEST \<Rightarrow> ''regtest'')"

definition GetNetworkMagic :: "ChainParams \<Rightarrow> u32" where
  "GetNetworkMagic p = (case chainType p of MAIN \<Rightarrow> 0x554E4943 | TESTNET \<Rightarrow> 0xA3F8D412 | REGTEST \<Rightarrow> 0x4B7C2E91)"

definition SetSuspiciousReorgDepth :: "int \<Rightarrow> ChainParams \<Rightarrow> ChainParams" where
  "SetSuspiciousReorgDepth depth p = p\<lparr>consensus := (consensus p)\<lparr>nSuspiciousReorgDepth := depth\<rparr>\<rparr>"

section \<open>The three networks\<close>

text \<open>\<open>None\<close> is the failed genesis assertion.\<close>

definition main_genesis :: CBlockHeader where
  "main_genesis = CreateGenesisBlock 1761330012 8497 0x1f06a000 1"

definition CMainParams :: "(CBlockHeader \<Rightarrow> blob) \<Rightarrow> ChainParams option" where
  "CMainParams hash =
     (if hash main_genesis = uint256S ''0xb675bea090e27659c91885afe341facf399cf84997918bac927948ee75409ebf''
      then Some \<lparr>
        consensus = \<lparr>
          powLimit = uint256S ''000fffff00000000000000000000000000000000000000000000000000000000'',
          nPowTargetSpacing = 60 * 60,
          nRandomXEpochDuration = 7 * 24 * 60 * 60,
          nASERTHalfLife = 2 * 24 * 60 * 60,
          nASERTAnchorHeight = 1,
          hashGenesisBlock = hash main_genesis,
          nMinimumChainWork = uint256S ''0x0000000000000000000000000000000000000000000000000000000000000000'',
          nNetworkExpirationInterval = 0,
          nNetworkExpirationGracePeriod = 0,
          nOrphanHeaderExpireTime = 6 * 60 * 60,
          nSuspiciousReorgDepth = 2,
          nAntiDosWorkBufferBlocks = 6\<rparr>,
        nDefaultPort = 9590,
        chainType = MAIN,
        genesis = main_genesis,
        vFixedSeeds = [''178.18.251.16:9590'', ''185.225.233.49:9590'', ''207.244.248.15:9590'',
          ''194.140.197.98:9590'', ''173.212.251.205:9590'', ''144.126.138.46:9590'', ''194.163.184.29:9590'']\<rparr>
      else None)"

definition test_genesis :: CBlockHeader where
  "test_genesis = CreateGenesisBlock 1760549555 253 0x1f7fffff 1"

definition CTestNetParams :: "(CBlockHeader \<Rightarrow> blob) \<Rightarrow> ChainParams option" where
  "CTestNetParams hash =
     (if hash test_genesis = uint256S ''0xcb608755c4b2bee0b929fe5760dec6cc578b48976ee164bb06eb9597c17575f8''
      then Some \<lparr>
        consensus = \<lparr>
          powLimit = uint256S ''007fffff00000000000000000000000000000000000000000000000000000000'',
          nPowTargetSpacing = 2 * 60,
          nRandomXEpochDuration = 7 * 24 * 60 * 60,
          nASERTHalfLife = 60 * 60,
          nASERTAnchorHeight = 1,
          hashGenesisBlock = hash test_genesis,
          nMinimumChainWork = uint256S ''0x0000000000000000000000000000000000000000000000000000000000000000'',
          nNetworkExpirationInterval = 2160,
          nNetworkExpirationGracePeriod = 24,
          nOrphanHeaderExpireTime = 12 * 60,
          nSuspiciousReorgDepth = 100,
          nAntiDosWorkBufferBlocks = 144\<rparr>,
        nDefaultPort = 19590,
        chainType = TESTNET,
        genesis = test_genesis,
        vFixedSeeds = [''178.18.251.16:19590'', ''185.225.233.49:19590'', ''207.244.248.15:19590'',
          ''194.140.197.98:19590'', ''173.212.251.205:19590'', ''144.126.138.46:19590'', ''194.163.184.29:19590'']\<rparr>
      else None)"

definition regtest_genesis :: CBlockHeader where
  "regtest_genesis = CreateGenesisBlock 1296688602 2 0x207fffff 1"

text \<open>
  The constructor of the test network leaves the two ASERT fields unset; they are the arguments \<open>half\<close>
  and \<open>anchor\<close> here and nothing reads them on this network.
\<close>

definition CRegTestParams :: "int \<Rightarrow> int \<Rightarrow> (CBlockHeader \<Rightarrow> blob) \<Rightarrow> ChainParams option" where
  "CRegTestParams half anchor hash =
     (if hash regtest_genesis = uint256S ''0x0233b37bb6942bfb471cfd7fb95caab0e0f7b19cc8767da65fbef59eb49e45bd''
      then Some \<lparr>
        consensus = \<lparr>
          powLimit = uint256S ''7fffffffffffffffffffffffffffffffffffffffffffffffffffffffffffffff'',
          nPowTargetSpacing = 2 * 60,
          nRandomXEpochDuration = 365 * 24 * 60 * 60 * 100,
          nASERTHalfLife = half,
          nASERTAnchorHeight = anchor,
          hashGenesisBlock = hash regtest_genesis,
          nMinimumChainWork = uint256S ''0x0000000000000000000000000000000000000000000000000000000000000000'',
          nNetworkExpirationInterval = 0,
          nNetworkExpirationGracePeriod = 0,
          nOrphanHeaderExpireTime = 12 * 60,
          nSuspiciousReorgDepth = 100,
          nAntiDosWorkBufferBlocks = 144\<rparr>,
        nDefaultPort = 29590,
        chainType = REGTEST,
        genesis = regtest_genesis,
        vFixedSeeds = []\<rparr>
      else None)"

section \<open>Limits as numbers\<close>

definition arith_of_blob :: "blob \<Rightarrow> arith_uint256" where
  "arith_of_blob h = uint_to_word (UintToArith256 h)"

lemma unat_arith_of_blob: "is_uint256 h \<Longrightarrow> unat (arith_of_blob h) = le_nat h"
  by (simp add: arith_of_blob_def unat_uint_to_word wval_UintToArith256)

lemma is_uint256_uint256S [simp]: "is_uint256 (uint256S s)"
  by (simp add: is_uint256_def uint256S_def length_SetHex)

lemma hex_fill_numeral:
  "hex_fill (numeral n) (d # e # ds) =
     (of_int (HexDigit d) OR push_bit 4 (of_int (HexDigit e))) # hex_fill (pred_numeral n) ds"
  by (simp add: numeral_eq_Suc)

lemmas hex_eval = uint256S_def SetHex_def HexDigit_def hex_fill_numeral

lemma main_powLimit:
  "unat (arith_of_blob (uint256S ''000fffff00000000000000000000000000000000000000000000000000000000'')) = 0xfffff * 2 ^ 224"
  by (simp add: unat_arith_of_blob) (simp add: hex_eval)

lemma test_powLimit:
  "unat (arith_of_blob (uint256S ''007fffff00000000000000000000000000000000000000000000000000000000'')) = 0x7fffff * 2 ^ 224"
  by (simp add: unat_arith_of_blob) (simp add: hex_eval)

lemma regtest_powLimit:
  "unat (arith_of_blob (uint256S ''7fffffffffffffffffffffffffffffffffffffffffffffffffffffffffffffff'')) = 2 ^ 255 - 1"
  by (simp add: unat_arith_of_blob) (simp add: hex_eval)

end
