(* ===== verification/Median_Time.thy ===== *)
theory Median_Time
  imports Block_Index
begin

text \<open>
  Median time past along a chain.  \<open>GetMedianTimePast\<close> sorts the times of the last eleven headers and
  takes the middle one; here it is shown never to fall from a header to its child when the child passes
  the timestamp rule, which is what keeps times after the difficulty anchor above the anchor's.
\<close>

section \<open>Medians of lists\<close>

definition median :: "int list \<Rightarrow> int" where
  "median xs = sort xs ! (length xs div 2)"

definition count_ge :: "int \<Rightarrow> int list \<Rightarrow> nat" where
  "count_ge v xs = length (filter (\<lambda>x. v \<le> x) xs)"

lemma count_ge_sort: "count_ge v (sort xs) = count_ge v xs"
  by (simp add: count_ge_def filter_sort)

lemma count_ge_append: "count_ge v (xs @ ys) = count_ge v xs + count_ge v ys"
  by (simp add: count_ge_def)

lemma count_ge_Cons: "count_ge v (x # xs) = (if v \<le> x then 1 else 0) + count_ge v xs"
  by (simp add: count_ge_def)

lemma count_ge_length: "count_ge v xs \<le> length xs"
  by (simp add: count_ge_def)

lemma count_ge_take: "count_ge v xs \<le> count_ge v (take n xs) + (length xs - n)"
  using count_ge_append [of v "take n xs" "drop n xs"] count_ge_length [of v "drop n xs"] by simp

lemma sorted_nth_ge_iff:
  assumes "sorted ys" "i < length ys"
  shows "v \<le> ys ! i \<longleftrightarrow> length ys - i \<le> count_ge v ys"
proof
  assume v: "v \<le> ys ! i"
  have "\<forall>y \<in> set (drop i ys). v \<le> y"
  proof
    fix y assume "y \<in> set (drop i ys)"
    then obtain j where "j < length ys - i" "y = ys ! (i + j)" using assms(2) by (auto simp: in_set_conv_nth)
    then have "ys ! i \<le> y" using assms(1) by (simp add: sorted_iff_nth_mono)
    with v show "v \<le> y" by simp
  qed
  then have "count_ge v (drop i ys) = length ys - i" by (simp add: count_ge_def filter_id_conv [THEN iffD2])
  then show "length ys - i \<le> count_ge v ys" using count_ge_append [of v "take i ys" "drop i ys"] by simp
next
  assume c: "length ys - i \<le> count_ge v ys"
  show "v \<le> ys ! i"
  proof (rule ccontr)
    assume v: "\<not> v \<le> ys ! i"
    have "ys ! j \<le> ys ! i" if "j \<le> i" for j using assms that by (simp add: sorted_iff_nth_mono)
    then have "\<forall>y \<in> set (take (Suc i) ys). \<not> v \<le> y"
      using v by (force simp: in_set_conv_nth less_Suc_eq_le)
    then have "count_ge v (take (Suc i) ys) = 0" by (simp add: count_ge_def filter_empty_conv)
    then have "count_ge v ys \<le> length ys - Suc i" using count_ge_take [of v ys "Suc i"] by simp
    then show False using c assms(2) by simp
  qed
qed

lemma median_ge_iff: "xs \<noteq> [] \<Longrightarrow> v \<le> median xs \<longleftrightarrow> length xs - length xs div 2 \<le> count_ge v xs"
  using sorted_nth_ge_iff [of "sort xs" "length xs div 2" v] by (simp add: median_def count_ge_sort)

lemma median_push:
  assumes "xs \<noteq> []" "length xs \<le> Suc n" "even n" "median xs \<le> x"
  shows "median xs \<le> median (x # take n xs)"
proof -
  let ?m = "median xs"
  have c: "length xs - length xs div 2 \<le> count_ge ?m xs" using median_ge_iff [OF assms(1), of ?m] by simp
  have "length (x # take n xs) - length (x # take n xs) div 2 \<le> count_ge ?m (x # take n xs)"
  proof (cases "length xs \<le> n")
    case True
    then show ?thesis using c assms(4) by (simp add: count_ge_Cons)
  next
    case False
    then have "length xs = Suc n" using assms(2) by simp
    then show ?thesis using c count_ge_take [of ?m xs n] assms(3,4) by (auto simp: count_ge_Cons)
  qed
  then show ?thesis by (subst median_ge_iff) auto
qed

lemma median_majority:
  assumes "length xs < 2 * length (filter (\<lambda>v. lo \<le> v \<and> v \<le> hi) xs)"
  shows "lo \<le> median xs" "median xs \<le> hi"
proof -
  let ?c = "length (filter (\<lambda>v. lo \<le> v \<and> v \<le> hi) xs)"
  have ne: "xs \<noteq> []" using assms by auto
  have "?c \<le> count_ge lo xs" unfolding count_ge_def by (induction xs) auto
  then show "lo \<le> median xs" using assms by (subst median_ge_iff [OF ne]) linarith
  have "?c + count_ge (hi + 1) xs \<le> length xs" unfolding count_ge_def by (induction xs) auto
  then have "\<not> hi + 1 \<le> median xs" using assms by (subst median_ge_iff [OF ne]) linarith
  then show "median xs \<le> hi" by simp
qed

section \<open>The window of a block\<close>

lemma GetMedianTimePast_median: "GetMedianTimePast m k = median (mtp_times m MEDIAN_TIME_SPAN (Some k))"
  by (simp add: GetMedianTimePast_def median_def Let_def)

lemma mtp_times_take: "mtp_times m i p = take i (mtp_times m (i + j) p)"
  by (induction i arbitrary: p) (auto split: option.splits)

lemma mtp_times_length: "length (mtp_times m i p) \<le> i"
  by (induction i arbitrary: p) (auto split: option.splits)

lemma mtp_times_step:
  "map_of m k = Some e \<Longrightarrow> mtp_times m MEDIAN_TIME_SPAN (Some k) = index_time e # take 10 (mtp_times m MEDIAN_TIME_SPAN (pprev e))"
  using mtp_times_take [of m 10 "pprev e" 1] by (simp add: MEDIAN_TIME_SPAN_def numeral_eq_Suc)

lemma mtp_times_nonempty: "map_of m k \<noteq> None \<Longrightarrow> mtp_times m MEDIAN_TIME_SPAN (Some k) \<noteq> []"
  by (auto simp: mtp_times_step)

lemma mtp_grows:
  assumes "map_of m k = Some e" "pprev e = Some p" "map_of m p \<noteq> None" "GetMedianTimePast m p < index_time e"
  shows "GetMedianTimePast m p \<le> GetMedianTimePast m k"
  unfolding GetMedianTimePast_median mtp_times_step [OF assms(1)] assms(2)
proof (rule median_push)
  show "mtp_times m MEDIAN_TIME_SPAN (Some p) \<noteq> []" using assms(3) by (rule mtp_times_nonempty)
  show "length (mtp_times m MEDIAN_TIME_SPAN (Some p)) \<le> Suc 10"
    using mtp_times_length [of m MEDIAN_TIME_SPAN "Some p"] by (simp add: MEDIAN_TIME_SPAN_def)
qed (use assms(4) in \<open>simp_all add: GetMedianTimePast_median\<close>)

section \<open>Along a chain\<close>

text \<open>The timestamp rule on every header of the index that has a parent.\<close>

definition times_ok :: "block_map \<Rightarrow> bool" where
  "times_ok m \<longleftrightarrow> list_all (\<lambda>(k, e). case pprev e of None \<Rightarrow> True | Some p \<Rightarrow> GetMedianTimePast m p < index_time e) m"

lemma times_okD: "times_ok m \<Longrightarrow> map_of m k = Some e \<Longrightarrow> pprev e = Some p \<Longrightarrow> GetMedianTimePast m p < index_time e"
  by (auto simp: times_ok_def list_all_iff dest!: map_of_SomeD)


lemma mtp_descends:
  assumes "index_inv m" "times_ok m" "map_of m k \<noteq> None" "descends (parent_of m) k q"
  shows "GetMedianTimePast m q \<le> GetMedianTimePast m k"
proof -
  obtain n where "ancs (parent_of m) n k = Some q" using assms(4) by (auto simp: descends_def)
  then show ?thesis using assms(3)
  proof (induction n arbitrary: k)
    case (Suc n)
    then obtain e where e: "map_of m k = Some e" by auto
    then obtain p where p: "pprev e = Some p" "ancs (parent_of m) n p = Some q"
      using Suc.prems(1) by (auto simp: parent_of_Some [OF e] split: option.splits)
    obtain f where f: "map_of m p = Some f" by (rule index_parent [OF assms(1) e p(1)])
    have "GetMedianTimePast m q \<le> GetMedianTimePast m p" using Suc.IH [OF p(2)] f by simp
    also have "\<dots> \<le> GetMedianTimePast m k"
      using mtp_grows [OF e p(1)] f times_okD [OF assms(2) e p(1)] by simp
    finally show ?case .
  qed simp
qed

lemma mtp_second:
  assumes "index_inv m" "map_of m a = Some g" "nHeight g = 1"
  shows "index_time g \<le> GetMedianTimePast m a"
proof -
  have "pprev g \<noteq> None" using index_root [OF assms(1,2)] assms(3) by simp
  then obtain z where z: "pprev g = Some z" by auto
  obtain f where f: "map_of m z = Some f" "nHeight f = 0"
    by (rule index_parent [OF assms(1,2) z]) (use assms(3) in simp)
  have n: "pprev f = None" using index_root [OF assms(1) f(1)] f(2) by simp
  have "mtp_times m MEDIAN_TIME_SPAN (Some a) = [index_time g, index_time f]"
    by (simp add: mtp_times_step [OF assms(2)] z mtp_times_step [OF f(1)] n) (simp add: MEDIAN_TIME_SPAN_def numeral_eq_Suc)
  then show ?thesis by (simp add: GetMedianTimePast_median median_def)
qed

lemma time_after_second:
  assumes "index_inv m" "times_ok m" "map_of m k = Some e" "map_of m a = Some g" "nHeight g = 1"
    and "descends (parent_of m) k a" "k \<noteq> a"
  shows "index_time g < index_time e"
proof -
  obtain p where p: "pprev e = Some p" "descends (parent_of m) p a"
    using descends_step [OF assms(6,7)] assms(3) by (auto simp: parent_of_def)
  obtain f where f: "map_of m p = Some f" by (rule index_parent [OF assms(1,3) p(1)])
  have "index_time g \<le> GetMedianTimePast m a" using mtp_second [OF assms(1,4,5)] .
  also have "\<dots> \<le> GetMedianTimePast m p" using mtp_descends [OF assms(1,2) _ p(2)] f by simp
  also have "\<dots> < index_time e" using times_okD [OF assms(2,3) p(1)] .
  finally show ?thesis .
qed

end
