(* ===== verification/Pow.thy ===== *)
theory Pow
  imports Chain_Params Std_String Median_Time "HOL-Library.Signed_Division"
begin

text \<open>
  Proof of work (src/chain/pow.cpp, src/chain/randomx_pow.cpp): the ASERT difficulty rule, the check of
  a header against its target, and the per-thread table of RandomX machines.  The RandomX library is not
  part of the repository: its hash and commitment functions are fields of the record \<open>crypto\<close>.  The
  header hash is a field too, so that statements about the chain can be evaluated with a small hash; the
  program's is \<open>GetHash\<close>.  Signed 64-bit values are integers; \<open>asert_no_overflow\<close> bounds them.
\<close>

section \<open>ASERT\<close>

definition asert_factor :: "u16 \<Rightarrow> u32" where
  "asert_factor frac =
     (let f = ucast frac :: u64
      in ucast (65536 + drop_bit 48 (195766423245049 * f + 971821376 * f * f + 5127 * f * f * f + push_bit 47 1)))"

text \<open>
  The shift amounts are converted to \<open>unsigned int\<close> at the call of the shift operators.  \<open>None\<close> is a
  failed assertion or the division by a zero half-life.
\<close>

definition CalculateASERT :: "arith_uint256 \<Rightarrow> int \<Rightarrow> int \<Rightarrow> int \<Rightarrow> arith_uint256 \<Rightarrow> int \<Rightarrow> arith_uint256 option" where
  "CalculateASERT refTarget spacing nTimeDiff nHeightDiff limit nHalfLife =
     (if \<not> (refTarget > 0 \<and> refTarget \<le> limit) then None
      else if \<not> nHeightDiff \<ge> 0 then None
      else let exponentBase = nTimeDiff - spacing * (nHeightDiff + 1) in
        if \<not> \<bar>exponentBase\<bar> < 2 ^ (63 - 16) then None
        else if nHalfLife = 0 then None
        else let exponent = (exponentBase * 65536) sdiv nHalfLife;
                 shifts = drop_bit 16 exponent;
                 frac = of_int exponent :: u16 in
          if \<not> exponent = shifts * 65536 + uint frac then None
          else let factor = asert_factor frac;
                   nextTarget512 = ucast refTarget * ucast factor :: arith_uint512;
                   powLimit512 = ucast limit :: arith_uint512;
                   shifts = shifts - 16;
                   nextTarget512 =
                     (if shifts \<le> 0 then drop_bit (nat ((- shifts) mod 2 ^ 32)) nextTarget512
                      else let n = nat (shifts mod 2 ^ 32);
                               nextTarget512Shifted = push_bit n nextTarget512
                           in if drop_bit n nextTarget512Shifted \<noteq> nextTarget512 then powLimit512
                              else nextTarget512Shifted);
                   nextTarget512 = (if nextTarget512 > powLimit512 then powLimit512 else nextTarget512);
                   nextTarget = ucast nextTarget512 :: arith_uint256
               in Some (if nextTarget = 0 then 1 else if nextTarget > limit then limit else nextTarget))"

text \<open>The time difference is a difference of two \<open>uint32_t\<close> and wraps as such.\<close>

definition GetNextWorkRequired :: "block_map \<Rightarrow> blob option \<Rightarrow> ChainParams \<Rightarrow> u32 option" where
  "GetNextWorkRequired m pindexPrev params =
     (let cons = consensus params; limit = arith_of_blob (powLimit cons) in
      case pindexPrev of None \<Rightarrow> GetCompact limit False
      | Some p \<Rightarrow>
          (if chainType params = REGTEST then GetCompact limit False
           else case map_of m p of None \<Rightarrow> None
           | Some e \<Rightarrow>
               (if nHeight e < nASERTAnchorHeight cons then GetCompact limit False
                else case GetAncestor m p (nASERTAnchorHeight cons) of
                    Some (Some a) \<Rightarrow>
                      (case map_of m a of None \<Rightarrow> None
                       | Some anchor \<Rightarrow>
                           (if nHeight anchor \<noteq> nASERTAnchorHeight cons then None
                            else let refTarget = fst (SetCompact (bi_nBits anchor));
                                     nTimeDiff = uint (bi_nTime e - bi_nTime anchor);
                                     nHeightDiff = nHeight e - nASERTAnchorHeight cons
                                 in Option.bind (CalculateASERT refTarget (nPowTargetSpacing cons) nTimeDiff
                                      nHeightDiff limit (nASERTHalfLife cons)) (\<lambda>t. GetCompact t False)))
                  | _ \<Rightarrow> None)))"

definition GetTargetFromBits :: "u32 \<Rightarrow> arith_uint256" where
  "GetTargetFromBits bits =
     (let (target, fNegative, fOverflow) = SetCompact bits
      in if fNegative \<or> fOverflow \<or> target = 0 then 0 else target)"

section \<open>ASERT on numbers\<close>

definition asert_poly :: "nat \<Rightarrow> nat" where
  "asert_poly F = 65536 + (195766423245049 * F + 971821376 * F * F + 5127 * F * F * F + 2 ^ 47) div 2 ^ 48"

definition asert_nat :: "nat \<Rightarrow> int \<Rightarrow> nat" where
  "asert_nat ref e =
     (let s = e div 65536; m = ref * asert_poly (nat (e mod 65536))
      in if 16 < s then m * 2 ^ nat (s - 16) else m div 2 ^ nat (16 - s))"

lemma unat_ucast_up: "LENGTH('a) \<le> LENGTH('b) \<Longrightarrow> unat (ucast (x :: 'a::len word) :: 'b::len word) = unat x"
proof -
  assume l: "LENGTH('a) \<le> LENGTH('b)"
  have "unat x < 2 ^ LENGTH('a)" by (rule unat_bound)
  also have "\<dots> \<le> 2 ^ LENGTH('b)" using l by (rule power_increasing) simp
  finally show ?thesis by (simp add: unsigned_ucast_eq take_bit_nat_eq_self_iff)
qed

lemma unat_ucast_mod: "unat (ucast (x :: 'a::len word) :: 'b::len word) = unat x mod 2 ^ LENGTH('b)"
  by (simp add: unsigned_ucast_eq take_bit_eq_mod)

lemma asert_poly_mono: "F \<le> G \<Longrightarrow> asert_poly F \<le> asert_poly G"
  unfolding asert_poly_def
  by (intro add_mono div_le_mono mult_le_mono order_refl)

lemma asert_poly_lower: "65536 \<le> asert_poly F"
  by (simp add: asert_poly_def)

lemma asert_poly_upper: "F < 65536 \<Longrightarrow> asert_poly F \<le> 131072"
  using asert_poly_mono [of F 65535] by (simp add: asert_poly_def)

lemma unat_asert_factor: "unat (asert_factor f) = asert_poly (unat f)"
proof -
  let ?F = "unat f"
  have F: "?F \<le> 65535" using unat_bound [of f] by simp
  have u: "unat (ucast f :: u64) = ?F" by (rule unat_ucast_up) simp
  have FF: "?F * ?F \<le> 65535 * 65535" using F by (intro mult_le_mono)
  have FFF: "?F * ?F * ?F \<le> 65535 * 65535 * 65535" using F FF by (intro mult_le_mono)
  have a: "unat (195766423245049 * ucast f :: u64) = 195766423245049 * ?F"
    using F u by (simp add: unat_mult_lem [THEN iffD1])
  have b: "unat (971821376 * ucast f * ucast f :: u64) = 971821376 * ?F * ?F"
    using F FF u by (simp add: unat_word_ariths)
  have c: "unat (5127 * ucast f * ucast f * ucast f :: u64) = 5127 * ?F * ?F * ?F"
    using F FF FFF u by (simp add: unat_word_ariths)
  have d: "unat (push_bit 47 1 :: u64) = 2 ^ 47" by simp
  let ?w = "195766423245049 * ucast f + 971821376 * ucast f * ucast f + 5127 * ucast f * ucast f * ucast f + push_bit 47 1 :: u64"
  have w: "unat ?w = 195766423245049 * ?F + 971821376 * ?F * ?F + 5127 * ?F * ?F * ?F + 2 ^ 47"
    using F FF FFF by (simp only: unat_word_ariths(1) a b c d) simp
  have "unat (65536 + drop_bit 48 ?w) = (65536 + unat ?w div 2 ^ 48) mod 2 ^ 64"
    by (simp only: unat_word_ariths(1) unat_drop_bit) simp
  then have "unat (65536 + drop_bit 48 ?w) = asert_poly ?F"
    using asert_poly_upper [of ?F] F unfolding w asert_poly_def by simp
  moreover have "asert_poly ?F < 2 ^ 32" using asert_poly_upper [of ?F] F by simp
  ultimately show ?thesis by (simp add: asert_factor_def Let_def unat_ucast_mod)
qed


lemma asert_nat_scaled:
  assumes "0 \<le> e div 65536 + int K"
  shows "asert_nat ref e = (ref * asert_poly (nat (e mod 65536)) * 2 ^ nat (e div 65536 + int K)) div 2 ^ (16 + K)"
proof -
  let ?s = "e div 65536" and ?m = "ref * asert_poly (nat (e mod 65536))"
  show ?thesis
  proof (cases "16 < ?s")
    case True
    then have "nat (?s + int K) = nat (?s - 16) + (16 + K)" by simp
    then have "?m * 2 ^ nat (?s + int K) = ?m * 2 ^ nat (?s - 16) * 2 ^ (16 + K)" by (simp only: power_add mult.assoc)
    then show ?thesis using True by (simp only: asert_nat_def Let_def if_True) simp
  next
    case False
    then have "16 + K = nat (?s + int K) + nat (16 - ?s)" using assms by simp
    then have "(2::nat) ^ (16 + K) = 2 ^ nat (?s + int K) * 2 ^ nat (16 - ?s)" by (simp only: power_add)
    then show ?thesis using False by (simp only: asert_nat_def Let_def if_False mult.commute [of ?m] div_mult_mult1) simp
  qed
qed

lemma nat_step: "0 \<le> a \<Longrightarrow> a < b \<Longrightarrow> nat b = Suc (nat a) + nat (b - a - 1)" for a b :: int
  by simp

lemma asert_nat_mono:
  assumes "e \<le> e'"
  shows "asert_nat ref e \<le> asert_nat ref e'"
proof -
  let ?s = "e div 65536" and ?s' = "e' div 65536"
  let ?p = "asert_poly (nat (e mod 65536))" and ?p' = "asert_poly (nat (e' mod 65536))"
  define K where "K = nat (- ?s)"
  have ss: "?s \<le> ?s'" using assms by (rule zdiv_mono1) simp
  have k: "0 \<le> ?s + int K" "0 \<le> ?s' + int K" using ss by (auto simp: K_def)
  have "?p * 2 ^ nat (?s + int K) \<le> ?p' * 2 ^ nat (?s' + int K)"
  proof (cases "?s = ?s'")
    case True
    then have "e mod 65536 \<le> e' mod 65536" using assms by (simp only: minus_div_mult_eq_mod [symmetric])
    then have "?p \<le> ?p'" by (intro asert_poly_mono) simp
    then show ?thesis using True by simp
  next
    case False
    then have "nat (?s' + int K) = Suc (nat (?s + int K)) + nat (?s' - ?s - 1)"
      using ss k nat_step [of "?s + int K" "?s' + int K"] by simp
    then have two: "(2::nat) ^ nat (?s' + int K) = 2 * 2 ^ nat (?s + int K) * 2 ^ nat (?s' - ?s - 1)"
      by (simp only: power_add power_Suc)
    have "nat (e mod 65536) < 65536" by simp
    then have "?p * 2 ^ nat (?s + int K) \<le> 131072 * 2 ^ nat (?s + int K)" by (intro mult_le_mono asert_poly_upper) auto
    also have "\<dots> \<le> 65536 * 2 ^ nat (?s' + int K)" unfolding two by simp
    also have "\<dots> \<le> ?p' * 2 ^ nat (?s' + int K)" by (intro mult_le_mono asert_poly_lower) auto
    finally show ?thesis .
  qed
  then show ?thesis
    unfolding asert_nat_scaled [OF k(1)] asert_nat_scaled [OF k(2)]
    by (intro div_le_mono) (simp add: mult.assoc)
qed

lemma asert_nat_shift: "asert_nat ref (65536 * s) = (if 0 \<le> s then ref * 2 ^ nat s else ref div 2 ^ nat (- s))"
proof -
  have p: "asert_poly 0 = 65536" by (simp add: asert_poly_def)
  show ?thesis
  proof (cases "0 \<le> s")
    case True
    then show ?thesis using asert_nat_scaled [of "65536 * s" 0 ref] by (simp add: p)
  next
    case False
    then show ?thesis
      using asert_nat_scaled [of "65536 * s" "nat (- s)" ref] by (simp add: p power_add)
  qed
qed


lemma shift_overflow:
  fixes x :: "'a::len word"
  assumes "x \<noteq> 0"
  shows "drop_bit n (push_bit n x) = x \<longleftrightarrow> unat x * 2 ^ n < 2 ^ LENGTH('a)"
    and "unat x * 2 ^ n < 2 ^ LENGTH('a) \<Longrightarrow> unat (push_bit n x) = unat x * 2 ^ n"
proof -
  have p: "unat (push_bit n x) = unat x * 2 ^ n mod 2 ^ LENGTH('a)"
    unfolding unsigned_push_bit_eq by (simp add: take_bit_eq_mod push_bit_eq_mult)
  show q: "unat x * 2 ^ n < 2 ^ LENGTH('a) \<Longrightarrow> unat (push_bit n x) = unat x * 2 ^ n"
    unfolding p by (rule mod_less)
  show "drop_bit n (push_bit n x) = x \<longleftrightarrow> unat x * 2 ^ n < 2 ^ LENGTH('a)"
  proof
    assume "drop_bit n (push_bit n x) = x"
    then have "unat (push_bit n x) div 2 ^ n = unat x" by (metis unat_drop_bit)
    then have "unat x * 2 ^ n \<le> unat (push_bit n x)" by (metis div_times_less_eq_dividend)
    also have "\<dots> < 2 ^ LENGTH('a)" by (rule unat_bound)
    finally show "unat x * 2 ^ n < 2 ^ LENGTH('a)" .
  next
    assume "unat x * 2 ^ n < 2 ^ LENGTH('a)"
    from q [OF this] show "drop_bit n (push_bit n x) = x" by (simp add: word_unat_eq_iff unat_drop_bit)
  qed
qed

text \<open>The exponent of the rule: the deviation from schedule in units of a half-life, 16 fractional bits.\<close>

definition asert_exponent :: "int \<Rightarrow> int \<Rightarrow> int \<Rightarrow> int \<Rightarrow> int" where
  "asert_exponent spacing nTimeDiff nHeightDiff nHalfLife =
     ((nTimeDiff - spacing * (nHeightDiff + 1)) * 65536) sdiv nHalfLife"

definition asert_in_range :: "int \<Rightarrow> int \<Rightarrow> int \<Rightarrow> int \<Rightarrow> bool" where
  "asert_in_range spacing nTimeDiff nHeightDiff nHalfLife \<longleftrightarrow>
     0 \<le> nHeightDiff \<and> 0 < nHalfLife \<and> \<bar>nTimeDiff - spacing * (nHeightDiff + 1)\<bar> < 2 ^ 47 \<and>
     \<bar>nTimeDiff - spacing * (nHeightDiff + 1)\<bar> < 2 ^ 30 * nHalfLife"

lemma sdiv_bound:
  fixes a b :: int
  assumes "0 < b"
  shows "\<bar>a sdiv b\<bar> * b \<le> \<bar>a\<bar>"
proof -
  have "\<bar>a sdiv b\<bar> = \<bar>a\<bar> div b"
    using assms by (auto simp: signed_divide_int_def sgn_if abs_mult pos_imp_zdiv_nonneg_iff)
  moreover have "\<bar>a\<bar> div b * b = \<bar>a\<bar> - \<bar>a\<bar> mod b" by (rule minus_mod_eq_div_mult [symmetric])
  moreover have "0 \<le> \<bar>a\<bar> mod b" using assms by simp
  ultimately show ?thesis by simp
qed

lemma sdiv_mono:
  fixes a a' b :: int
  assumes "a \<le> a'" "0 < b"
  shows "a sdiv b \<le> a' sdiv b"
proof -
  have n: "0 \<le> \<bar>x\<bar> div b" for x using assms(2) by (simp add: pos_imp_zdiv_nonneg_iff)
  show ?thesis
    using assms n [of a] n [of a'] zdiv_mono1 [of a a' b] zdiv_mono1 [of "-a'" "-a" b]
    by (auto simp: signed_divide_int_def sgn_if)
qed

lemma exponent_split: "e = drop_bit 16 e * 65536 + uint (of_int e :: u16)" for e :: int
  by (simp add: drop_bit_eq_div uint_word_of_int)

lemma asert_exponent_bound:
  assumes "asert_in_range spacing td hdiff hl"
  shows "\<bar>asert_exponent spacing td hdiff hl div 65536 - 16\<bar> < 2 ^ 32"
proof -
  let ?b = "td - spacing * (hdiff + 1)" and ?e = "asert_exponent spacing td hdiff hl"
  have hl: "0 < hl" and b: "\<bar>?b\<bar> < 2 ^ 30 * hl" using assms by (auto simp: asert_in_range_def)
  have "\<bar>?e\<bar> * hl \<le> \<bar>?b * 65536\<bar>" unfolding asert_exponent_def by (rule sdiv_bound [OF hl])
  also have "\<dots> < 65536 * 2 ^ 30 * hl" using b by (simp add: abs_mult)
  finally have "\<bar>?e\<bar> < 65536 * 2 ^ 30" using hl by (simp add: mult_less_cancel_right)
  then show ?thesis by simp
qed


text \<open>What the 512-bit computation returns, as numbers.\<close>

lemma CalculateASERT_exact:
  assumes r: "0 < refTarget" "refTarget \<le> limit" and g: "asert_in_range spacing td hdiff hl"
  shows "\<exists>t. CalculateASERT refTarget spacing td hdiff limit hl = Some t \<and>
     unat t = max 1 (min (unat limit) (asert_nat (unat refTarget) (asert_exponent spacing td hdiff hl)))"
proof -
  let ?e = "asert_exponent spacing td hdiff hl"
  let ?s = "drop_bit 16 ?e" and ?p = "asert_poly (nat (?e mod 65536))"
  have s: "?s = ?e div 65536" by (simp add: drop_bit_eq_div)
  let ?x = "ucast refTarget * ucast (asert_factor (of_int ?e)) :: arith_uint512"
  let ?l = "ucast limit :: arith_uint512"
  have l: "unat ?l = unat limit" by (rule unat_ucast_up) simp
  have lb: "unat limit < 2 ^ 256" using unat_bound [of limit] by simp
  have l0: "0 < unat limit" using r by (simp add: word_le_nat_alt word_less_nat_alt)
  have fr: "unat (of_int ?e :: u16) = nat (?e mod 65536)"
    by (simp add: unat_eq_nat_uint uint_word_of_int)
  have pu: "?p \<le> 131072" by (rule asert_poly_upper) simp
  have rb: "unat refTarget < 2 ^ 256" using unat_bound [of refTarget] by simp
  have "unat refTarget * ?p \<le> 2 ^ 256 * 131072" using rb pu by (intro mult_le_mono) auto
  then have x: "unat ?x = unat refTarget * ?p"
    by (simp add: unat_word_ariths unat_ucast_up unat_asert_factor fr)
  have "0 < unat refTarget" using r(1) by (simp add: word_less_nat_alt)
  then have x0: "0 < unat ?x" unfolding x using asert_poly_lower [of "nat (?e mod 65536)"] by simp
  then have xn: "?x \<noteq> 0" by (metis less_irrefl unat_0)
  define y where "y = (if ?s - 16 \<le> 0 then drop_bit (nat ((- (?s - 16)) mod 2 ^ 32)) ?x
      else if drop_bit (nat ((?s - 16) mod 2 ^ 32)) (push_bit (nat ((?s - 16) mod 2 ^ 32)) ?x) \<noteq> ?x then ?l
      else push_bit (nat ((?s - 16) mod 2 ^ 32)) ?x)"
  note sb = asert_exponent_bound [OF g, folded s]
  have y: "min (unat limit) (unat y) = min (unat limit) (asert_nat (unat refTarget) ?e)"
  proof (cases "?s - 16 \<le> 0")
    case True
    then have "(- (?s - 16)) mod 2 ^ 32 = 16 - ?s" using sb by (subst mod_pos_pos_trivial) auto
    then have "unat y = asert_nat (unat refTarget) ?e"
      using True by (simp add: y_def unat_drop_bit x asert_nat_def Let_def s [symmetric])
    then show ?thesis by simp
  next
    case False
    define n where "n = nat (?s - 16)"
    have n: "nat ((?s - 16) mod 2 ^ 32) = n" using False sb unfolding n_def by (subst mod_pos_pos_trivial) auto
    have a: "asert_nat (unat refTarget) ?e = unat ?x * 2 ^ n"
      using False by (simp add: asert_nat_def Let_def x n_def s [symmetric])
    show ?thesis
    proof (cases "unat ?x * 2 ^ n < 2 ^ LENGTH(512)")
      case True
      then have "drop_bit n (push_bit n ?x) = ?x" "unat (push_bit n ?x) = unat ?x * 2 ^ n"
        using shift_overflow [OF xn] by blast+
      then have "unat y = unat ?x * 2 ^ n" using False unfolding y_def n by simp
      then show ?thesis using a by simp
    next
      case big: False
      then have "drop_bit n (push_bit n ?x) \<noteq> ?x" using shift_overflow(1) [OF xn] by blast
      then have "y = ?l" using False unfolding y_def n by simp
      moreover have "unat limit \<le> unat ?x * 2 ^ n" using big lb by simp
      ultimately show ?thesis using a l by simp
    qed
  qed
  define z where "z = (if y > ?l then ?l else y)"
  have z: "unat z = min (unat limit) (unat y)"
    by (auto simp: z_def l word_less_nat_alt)
  then have zb: "unat z < 2 ^ 256" using lb by simp
  then have zu: "unat (ucast z :: arith_uint256) = unat z" by (simp add: unat_ucast_mod)
  have c: "(refTarget > 0 \<and> refTarget \<le> limit) = True" "(hdiff \<ge> 0) = True" "(hl = 0) = False"
      "(\<bar>td - spacing * (hdiff + 1)\<bar> < 2 ^ (63 - 16)) = True" "(?e = ?s * 65536 + uint (of_int ?e :: u16)) = True"
    using r g exponent_split [of ?e] by (auto simp: asert_in_range_def)
  let ?t = "if (ucast z :: arith_uint256) = 0 then 1 else if ucast z > limit then limit else ucast z"
  have "CalculateASERT refTarget spacing td hdiff limit hl = Some ?t"
    unfolding CalculateASERT_def z_def y_def Let_def asert_exponent_def [symmetric]
    using c by (simp only: if_True if_False simp_thms not_not)
  moreover have "unat ?t = max 1 (unat z)"
  proof (cases "unat z = 0")
    case True
    then show ?thesis using zu by (simp add: unat_eq_zero)
  next
    case False
    then have "(ucast z :: arith_uint256) \<noteq> 0" using zu by (metis unat_0)
    moreover have "\<not> ucast z > limit" using z zu by (simp add: word_less_nat_alt)
    ultimately show ?thesis using False zu by simp
  qed
  ultimately show ?thesis unfolding z y by blast
qed

section \<open>The difficulty rule on a valid index\<close>

lemma asert_params_range:
  assumes "0 \<le> hdiff" "hdiff + 1 < 2 ^ 31" "0 \<le> td" "td < 2 ^ 32"
    and "0 < spacing" "spacing \<le> 3600" "0 < hl" "spacing * 2 ^ 31 + 2 ^ 32 \<le> 2 ^ 30 * hl"
  shows "asert_in_range spacing td hdiff hl"
proof -
  have a: "0 \<le> spacing * (hdiff + 1)" using assms by simp
  have b: "spacing * (hdiff + 1) \<le> spacing * 2 ^ 31" using assms by (intro mult_left_mono) auto
  have c: "spacing * 2 ^ 31 \<le> 3600 * 2 ^ 31" using assms by (intro mult_right_mono) auto
  define d where "d = spacing * (hdiff + 1)"
  have "\<bar>td - d\<bar> < 2 ^ 47" "\<bar>td - d\<bar> < 2 ^ 30 * hl"
    using assms(3,4,6,8) a b c unfolding d_def [symmetric] by simp_all
  then show ?thesis using assms(1,7) by (simp add: asert_in_range_def d_def)
qed

text \<open>
  The constants of a network under which the rule is safe: the production networks satisfy them
  (\<open>main_asert_params\<close>, \<open>test_asert_params\<close>).
\<close>

definition asert_params :: "ChainParams \<Rightarrow> bool" where
  "asert_params p \<longleftrightarrow> (let c = consensus p in
     chainType p \<noteq> REGTEST \<and> nASERTAnchorHeight c = 1 \<and> 0 < nPowTargetSpacing c \<and> nPowTargetSpacing c \<le> 3600 \<and>
     0 < nASERTHalfLife c \<and> nPowTargetSpacing c * 2 ^ 31 + 2 ^ 32 \<le> 2 ^ 30 * nASERTHalfLife c \<and>
     arith_of_blob (powLimit c) \<noteq> 0)"

lemma main_asert_params: "CMainParams hash = Some p \<Longrightarrow> asert_params p"
  using main_powLimit by (auto simp: CMainParams_def asert_params_def Let_def split: if_splits)

lemma test_asert_params: "CTestNetParams hash = Some p \<Longrightarrow> asert_params p"
  using test_powLimit by (auto simp: CTestNetParams_def asert_params_def Let_def split: if_splits)

text \<open>Every header of the index below genesis carries the difficulty the rule asks for.\<close>

definition bits_ok :: "block_map \<Rightarrow> ChainParams \<Rightarrow> bool" where
  "bits_ok m params \<longleftrightarrow> list_all (\<lambda>(k, e). case pprev e of None \<Rightarrow> True
     | Some p \<Rightarrow> GetNextWorkRequired m (Some p) params = Some (bi_nBits e)) m"

lemma bits_okD:
  "bits_ok m params \<Longrightarrow> map_of m k = Some e \<Longrightarrow> pprev e = Some p \<Longrightarrow> GetNextWorkRequired m (Some p) params = Some (bi_nBits e)"
  by (auto simp: bits_ok_def list_all_iff dest!: map_of_SomeD)

lemma compact_positive:
  assumes "(v :: arith_uint256) \<noteq> 0"
  obtains c t where "GetCompact v False = Some c" "SetCompact c = (t, False, False)" "0 < t" "t \<le> v"
proof -
  obtain s m where e: "compact_enc (unat v) = (s, m)" by (cases "compact_enc (unat v)")
  obtain c where c: "GetCompact v False = Some c" "unat c = m + s * 2 ^ 24" using GetCompact_enc [OF e] by blast
  obtain t where t: "SetCompact c = (t, False, False)" "unat t = compact_dec (s, m)"
    using SetCompact_enc [OF e c(2)] by blast
  note p = compact_precision [OF e t(2)]
  have "0 < unat t"
  proof (rule ccontr)
    assume "\<not> 0 < unat t"
    then have "unat v * 2 ^ 15 \<le> unat v" using p(2) by simp
    then show False using assms by (simp add: unat_eq_zero)
  qed
  then show ?thesis using p(1) c(1) t(1) by (intro that [of c t]) (auto simp: word_le_nat_alt word_less_nat_alt)
qed

lemma GetNextWorkRequired_total:
  assumes "index_inv m" "times_ok m" "bits_ok m params" "asert_params params"
    and "map_of m k = Some e" "nHeight e < 2 ^ 31 - 1"
  shows "\<exists>c t. GetNextWorkRequired m (Some k) params = Some c \<and> SetCompact c = (t, False, False) \<and>
     0 < t \<and> t \<le> arith_of_blob (powLimit (consensus params))"
proof -
  let ?c = "consensus params" and ?l = "arith_of_blob (powLimit (consensus params))"
  have p: "chainType params \<noteq> REGTEST" "nASERTAnchorHeight ?c = 1" "?l \<noteq> 0" "0 < nPowTargetSpacing ?c"
      "nPowTargetSpacing ?c \<le> 3600" "0 < nASERTHalfLife ?c"
      "nPowTargetSpacing ?c * 2 ^ 31 + 2 ^ 32 \<le> 2 ^ 30 * nASERTHalfLife ?c"
    using assms(4) by (auto simp: asert_params_def Let_def)
  obtain cl tl where cl: "GetCompact ?l False = Some cl" "SetCompact cl = (tl, False, False)" "0 < tl" "tl \<le> ?l"
    using compact_positive [OF p(3)] .
  show ?thesis
  proof (cases "nHeight e < 1")
    case True
    then have "GetNextWorkRequired m (Some k) params = Some cl"
      using p assms(5) cl by (simp add: GetNextWorkRequired_def Let_def)
    then show ?thesis using cl by blast
  next
    case False
    have km: "map_of m k \<noteq> None" using assms(5) by simp
    have hk: "height_of m k = nHeight e" using assms(5) by (simp add: height_of_Some)
    obtain a where a: "anc_at (parent_of m) (height_of m) k 1 = Some a" "map_of m a \<noteq> None" "height_of m a = 1"
        "descends (parent_of m) k a"
      using tree.anc_at_defined [OF assms(1) km, of 1] False hk by auto
    then obtain g where g: "map_of m a = Some g" "nHeight g = 1" by (auto simp: height_of_def)
    have anc: "GetAncestor m k 1 = Some (Some a)" using GetAncestor_correct [OF assms(1,5), of 1] a(1) False by simp
    have "pprev g \<noteq> None" using index_root [OF assms(1) g(1)] g(2) by simp
    then obtain z where z: "pprev g = Some z" by auto
    obtain f where f: "map_of m z = Some f" "nHeight f = 0"
      by (rule index_parent [OF assms(1) g(1) z]) (use g(2) in simp)
    have "GetNextWorkRequired m (Some z) params = Some cl"
      using p f cl by (simp add: GetNextWorkRequired_def Let_def)
    then have bits: "bi_nBits g = cl" using bits_okD [OF assms(3) g(1) z] by simp
    let ?td = "uint (bi_nTime e - bi_nTime g)" and ?hd = "nHeight e - 1"
    have td: "0 \<le> ?td" "?td < 2 ^ 32" using uint_bounded [of "bi_nTime e - bi_nTime g"] by auto
    have range: "asert_in_range (nPowTargetSpacing ?c) ?td ?hd (nASERTHalfLife ?c)"
      by (rule asert_params_range) (use p td False assms(6) in auto)
    obtain t where t: "CalculateASERT tl (nPowTargetSpacing ?c) ?td ?hd ?l (nASERTHalfLife ?c) = Some t"
        "unat t = max 1 (min (unat ?l) (asert_nat (unat tl) (asert_exponent (nPowTargetSpacing ?c) ?td ?hd (nASERTHalfLife ?c))))"
      using CalculateASERT_exact [OF cl(3,4) range] by blast
    have "1 \<le> unat ?l" using p(3) by (simp add: Suc_le_eq unat_gt_0)
    then have tb: "t \<noteq> 0" "t \<le> ?l" using t(2) by (auto simp: word_le_nat_alt)
    obtain ct tt where ct: "GetCompact t False = Some ct" "SetCompact ct = (tt, False, False)" "0 < tt" "tt \<le> t"
      using compact_positive [OF tb(1)] .
    have "GetNextWorkRequired m (Some k) params = Some ct"
      using p assms(5) False anc g bits cl(2) t(1) ct(1) by (simp add: GetNextWorkRequired_def Let_def)
    then show ?thesis using ct tb(2) by (intro exI [of _ ct] exI [of _ tt]) auto
  qed
qed


lemma asert_time_no_wrap:
  assumes "index_inv m" "times_ok m" "map_of m k = Some e" "map_of m a = Some g" "nHeight g = 1"
    and "descends (parent_of m) k a"
  shows "uint (bi_nTime e - bi_nTime g) = index_time e - index_time g"
proof -
  have "index_time g \<le> index_time e"
  proof (cases "k = a")
    case True
    then show ?thesis using assms(3,4) by simp
  next
    case False
    then show ?thesis using time_after_second [OF assms(1-6)] by simp
  qed
  then have "bi_nTime g \<le> bi_nTime e" by (simp add: index_time_def word_le_def)
  then show ?thesis by (simp add: index_time_def uint_sub_lem word_le_def)
qed

section \<open>A sample network\<close>

text \<open>The main network's constants with the easiest limit, and a chain of two headers under them.\<close>

definition sample_params :: ChainParams where
  "sample_params = \<lparr>
     consensus = \<lparr>
       powLimit = uint256S ''7fffffffffffffffffffffffffffffffffffffffffffffffffffffffffffffff'',
       nPowTargetSpacing = 3600, nRandomXEpochDuration = 604800, nASERTHalfLife = 172800,
       nASERTAnchorHeight = 1, hashGenesisBlock = [0], nMinimumChainWork = replicate 32 0,
       nNetworkExpirationInterval = 0, nNetworkExpirationGracePeriod = 0, nOrphanHeaderExpireTime = 720,
       nSuspiciousReorgDepth = 2, nAntiDosWorkBufferBlocks = 6\<rparr>,
     nDefaultPort = 9590, chainType = MAIN, genesis = regtest_genesis, vFixedSeeds = []\<rparr>"

lemma sample_limit: "arith_of_blob (powLimit (consensus sample_params)) = 0x7fffffffffffffffffffffffffffffffffffffffffffffffffffffffffffffff"
  using regtest_powLimit by (simp add: word_unat_eq_iff sample_params_def)

lemma sample_params_asert: "asert_params sample_params"
  using sample_limit by (simp add: asert_params_def Let_def) (simp add: sample_params_def)

lemma sample_limit_compact: "GetCompact (arith_of_blob (powLimit (consensus sample_params))) False = Some 0x207fffff"
proof -
  have "bit_length 0x7fffffffffffffffffffffffffffffffffffffffffffffffffffffffffffffff = Suc 254"
    by (rule bit_length_eqI) simp_all
  then show ?thesis unfolding sample_limit by (simp add: GetCompact_def word_bits_def Let_def)
qed

lemma sample_pair_inv: "index_inv (take 2 sample_index)"
  by (simp add: index_inv_def om_invar_def sample_index_def entry_ok_def regtest_proof sample_entry_def
      index_time_def anc_at_def parent_of_def height_of_def GetSkipHeight_def InvertLowestOne_def)

lemma span_Suc: "MEDIAN_TIME_SPAN = Suc (Suc (Suc (Suc (Suc (Suc (Suc (Suc (Suc (Suc (Suc 0))))))))))"
  by (simp add: MEDIAN_TIME_SPAN_def)

lemma sample_pair_times: "times_ok (take 2 sample_index)"
  by (simp add: times_ok_def sample_index_def sample_entry_def GetMedianTimePast_def span_Suc index_time_def)

lemma sample_pair_bits: "bits_ok (take 2 sample_index) sample_params"
  using sample_limit_compact
  by (simp add: bits_ok_def sample_index_def sample_entry_def sample_params_def GetNextWorkRequired_def Let_def)

section \<open>Properties of the difficulty rule\<close>

text \<open>
  \<^bold>\<open>C30.\<close> On every index whose headers satisfy the tree invariant, the timestamp rule and the difficulty
  rule, and below height \<open>2 ^ 31 - 1\<close>, computing the next difficulty never fails one of the six assertions
  of \<open>GetNextWorkRequired\<close> and \<open>CalculateASERT\<close>; the 32-bit subtraction of times does not wrap, because
  median time past keeps every later header after the anchor; and the answer is a canonical, non-zero
  target at most the limit.
\<close>

theorem next_work_required_safe:
  assumes "index_inv m" and "times_ok m" and "bits_ok m params" and "asert_params params"
    and "map_of m k = Some e" and "nHeight e < 2 ^ 31 - 1"
  shows "(\<exists>c t. GetNextWorkRequired m (Some k) params = Some c \<and> SetCompact c = (t, False, False) \<and>
            0 < t \<and> t \<le> arith_of_blob (powLimit (consensus params))) \<and>
     (1 \<le> nHeight e \<longrightarrow> (\<exists>a g. GetAncestor m k 1 = Some (Some a) \<and> map_of m a = Some g \<and>
            uint (bi_nTime e - bi_nTime g) = index_time e - index_time g))"
proof
  show "\<exists>c t. GetNextWorkRequired m (Some k) params = Some c \<and> SetCompact c = (t, False, False) \<and>
      0 < t \<and> t \<le> arith_of_blob (powLimit (consensus params))"
    by (rule GetNextWorkRequired_total [OF assms])
  show "1 \<le> nHeight e \<longrightarrow> (\<exists>a g. GetAncestor m k 1 = Some (Some a) \<and> map_of m a = Some g \<and>
      uint (bi_nTime e - bi_nTime g) = index_time e - index_time g)"
  proof
    assume h: "1 \<le> nHeight e"
    have km: "map_of m k \<noteq> None" and hk: "height_of m k = nHeight e" using assms(5) by (auto simp: height_of_Some)
    obtain a where a: "anc_at (parent_of m) (height_of m) k 1 = Some a" "map_of m a \<noteq> None" "height_of m a = 1"
        "descends (parent_of m) k a"
      using tree.anc_at_defined [OF assms(1) km, of 1] h hk by auto
    then obtain g where g: "map_of m a = Some g" "nHeight g = 1" by (auto simp: height_of_def)
    have "GetAncestor m k 1 = Some (Some a)" using GetAncestor_correct [OF assms(1,5), of 1] a(1) h by simp
    then show "\<exists>a g. GetAncestor m k 1 = Some (Some a) \<and> map_of m a = Some g \<and>
        uint (bi_nTime e - bi_nTime g) = index_time e - index_time g"
      using g asert_time_no_wrap [OF assms(1,2,5) g a(4)] by blast
  qed
qed

theorem next_work_required_safe_witness:
  "\<exists>c t. GetNextWorkRequired (take 2 sample_index) (Some [1]) sample_params = Some c \<and>
     SetCompact c = (t, False, False) \<and> 0 < t"
  using next_work_required_safe [OF sample_pair_inv sample_pair_times sample_pair_bits sample_params_asert, of "[1]"
      "sample_entry (Some [0]) (Some [0]) 1 4 200"]
  by (simp add: sample_index_def) (auto simp: sample_entry_def)

text \<open>
  The rule is monotone: a later time never gives a harder target, and every result lies
  between 1 and the limit.
\<close>

theorem asert_monotone:
  assumes "0 < refTarget" and "refTarget \<le> limit" and "td \<le> td'"
    and "asert_in_range spacing td hdiff hl" and "asert_in_range spacing td' hdiff hl"
  shows "\<exists>t t'. CalculateASERT refTarget spacing td hdiff limit hl = Some t \<and>
     CalculateASERT refTarget spacing td' hdiff limit hl = Some t' \<and> 0 < t \<and> t \<le> t' \<and> t' \<le> limit"
proof -
  let ?n = "\<lambda>td. asert_nat (unat refTarget) (asert_exponent spacing td hdiff hl)"
  obtain t t' where t: "CalculateASERT refTarget spacing td hdiff limit hl = Some t" "unat t = max 1 (min (unat limit) (?n td))"
    and t': "CalculateASERT refTarget spacing td' hdiff limit hl = Some t'" "unat t' = max 1 (min (unat limit) (?n td'))"
    using CalculateASERT_exact [OF assms(1,2,4)] CalculateASERT_exact [OF assms(1,2,5)] by blast
  have "0 < hl" using assms(4) by (simp add: asert_in_range_def)
  then have "asert_exponent spacing td hdiff hl \<le> asert_exponent spacing td' hdiff hl"
    using assms(3) unfolding asert_exponent_def by (intro sdiv_mono) auto
  then have "?n td \<le> ?n td'" by (rule asert_nat_mono)
  moreover have "1 \<le> unat limit" using assms(1,2) by (simp add: word_le_nat_alt word_less_nat_alt)
  ultimately show ?thesis using t t' by (intro exI [of _ t] exI [of _ t']) (auto simp: word_le_nat_alt word_less_nat_alt)
qed

theorem asert_monotone_witness:
  "\<exists>t t'. CalculateASERT 1000 3600 7200 0 100000 172800 = Some t \<and>
     CalculateASERT 1000 3600 90000 0 100000 172800 = Some t' \<and> 0 < t \<and> t \<le> t' \<and> t' \<le> 100000"
  by (rule asert_monotone) (simp_all add: asert_in_range_def)

text \<open>
  A deviation of \<open>k\<close> whole half-lives from the schedule multiplies the target by exactly
  \<open>2 ^ k\<close> (divides it, rounding down, when ahead of schedule), within the limits; a chain that is on
  schedule keeps the reference target.
\<close>

theorem asert_half_lives:
  assumes "0 < refTarget" and "refTarget \<le> limit" and "asert_in_range spacing td hdiff hl"
    and "td = spacing * (hdiff + 1) + j * hl"
  shows "\<exists>t. CalculateASERT refTarget spacing td hdiff limit hl = Some t \<and>
     unat t = max 1 (min (unat limit) (if 0 \<le> j then unat refTarget * 2 ^ nat j else unat refTarget div 2 ^ nat (- j)))"
proof -
  have "0 < hl" using assms(3) by (simp add: asert_in_range_def)
  then have "asert_exponent spacing td hdiff hl = 65536 * j"
    using assms(4) by (simp add: asert_exponent_def signed_divide_int_def abs_mult sgn_mult mult.assoc [symmetric] sgn_mult_abs)
  then show ?thesis using CalculateASERT_exact [OF assms(1-3)] by (simp add: asert_nat_shift)
qed

theorem asert_half_lives_witness:
  "\<exists>t. CalculateASERT 1000 3600 (3600 * (4 + 1) + (- 2) * 172800 :: int) 4 100000 172800 = Some t \<and> unat t = 250"
  using asert_half_lives [of 1000 100000 3600 "3600 * (4 + 1) + (- 2) * 172800" 4 172800 "- 2"]
  by (simp add: asert_in_range_def)

end
