(* ===== verification/Pow_Check.thy ===== *)
theory Pow_Check
  imports Pow
begin

text \<open>
  Checking proof of work (src/chain/pow.cpp \<open>CheckProofOfWork\<close>, src/chain/randomx_pow.cpp).  The RandomX
  functions are fields of \<open>crypto\<close>: the hash of a machine keyed by a seed, the commitment, and what
  \<open>GetCachedVM\<close> gives for an epoch on the calling thread.  The per-thread tables behind \<open>GetCachedVM\<close> are
  modelled below; \<open>GetCachedVM_transparent\<close> shows that a machine taken from the table is keyed as a new
  one would be.
\<close>

section \<open>Inputs of RandomX\<close>

datatype POWVerifyMode = FULL | COMMITMENT_ONLY | MINING

datatype pow_error = Mining_requires_outHash | RandomX_not_initialized | Cache_allocation_failed | VM_creation_failed

record crypto =
  header_hash :: "CBlockHeader \<Rightarrow> blob"
  host :: native
  vm_seed :: "u32 \<Rightarrow> pow_error + blob"
  rx_hash :: "blob \<Rightarrow> byte list \<Rightarrow> blob"
  rx_commitment :: "byte list \<Rightarrow> blob \<Rightarrow> blob"

text \<open>RandomX reads the header as it lies in memory, \<open>sizeof(CBlockHeader)\<close> bytes without padding.\<close>

definition header_memory :: "native \<Rightarrow> CBlockHeader \<Rightarrow> byte list" where
  "header_memory ne b = store ne 4 (nVersion b) @ hashPrevBlock b @ minerAddress b @ store ne 4 (nTime b) @
     store ne 4 (nBits b) @ store ne 4 (nNonce b) @ hashRandomX b"

definition rx_input :: "crypto \<Rightarrow> CBlockHeader \<Rightarrow> byte list" where
  "rx_input cr b = header_memory (host cr) (b\<lparr>hashRandomX := blob_SetNull 32\<rparr>)"

definition GetEpoch :: "u32 \<Rightarrow> u32 \<Rightarrow> u32" where
  "GetEpoch time nDuration = time div nDuration"

text \<open>The epoch is printed with \<open>%d\<close>, as a signed number.\<close>

definition seed_string :: "u32 \<Rightarrow> byte list" where
  "seed_string nEpoch = map of_char (''Alpha/RandomX/Epoch/'' @ dec_int (sint nEpoch))"

definition GetSeedHash :: "u32 \<Rightarrow> blob" where
  "GetSeedHash nEpoch =
     (let h1 = Finalize (Write (CSHA256 (replicate 64 0)) (seed_string nEpoch))
      in Finalize (Write (CSHA256 (replicate 64 0)) h1))"

definition GetRandomXCommitment :: "crypto \<Rightarrow> CBlockHeader \<Rightarrow> blob option \<Rightarrow> blob" where
  "GetRandomXCommitment cr b inHash =
     (let rx = (case inHash of None \<Rightarrow> hashRandomX b | Some h \<Rightarrow> h) in rx_commitment cr (rx_input cr b) rx)"

section \<open>The check\<close>

text \<open>
  The result is the verdict with the new value of \<open>*outHash\<close> (\<open>None\<close> when the pointer is null), or the
  exception.
\<close>

definition pow_commitment :: "crypto \<Rightarrow> CBlockHeader \<Rightarrow> arith_uint256 \<Rightarrow> POWVerifyMode \<Rightarrow> (blob \<times> bool) option" where
  "pow_commitment cr b bnTarget mode =
     (if mode \<noteq> MINING
      then if blob_IsNull (hashRandomX b) then None
           else if arith_of_blob (GetRandomXCommitment cr b None) > bnTarget then None
           else Some (hashRandomX b, True)
      else Some (blob_SetNull 32, False))"

definition pow_hash :: "crypto \<Rightarrow> CBlockHeader \<Rightarrow> arith_uint256 \<Rightarrow> u32 \<Rightarrow> POWVerifyMode \<Rightarrow> blob \<Rightarrow> bool \<Rightarrow>
    pow_error + (blob \<times> bool \<times> bool) option" where
  "pow_hash cr b bnTarget nEpochDuration mode hashRX fCommitmentVerified =
     (if mode = FULL \<or> mode = MINING
      then case vm_seed cr (GetEpoch (nTime b) nEpochDuration) of Inl err \<Rightarrow> Inl err
        | Inr key \<Rightarrow>
            (let rx = rx_hash cr key (rx_input cr b) in
             if mode \<noteq> MINING
             then if rx \<noteq> hashRandomX b then Inr None else Inr (Some (hashRX, True, fCommitmentVerified))
             else if arith_of_blob (GetRandomXCommitment cr b (Some rx)) > bnTarget then Inr None
                  else Inr (Some (rx, True, True)))
      else Inr (Some (hashRX, False, fCommitmentVerified)))"

definition CheckProofOfWork :: "crypto \<Rightarrow> CBlockHeader \<Rightarrow> u32 \<Rightarrow> ChainParams \<Rightarrow> POWVerifyMode \<Rightarrow> blob option \<Rightarrow>
    pow_error + bool \<times> blob option" where
  "CheckProofOfWork cr b bits params mode outHash =
     (let nEpochDuration = of_int (nRandomXEpochDuration (consensus params)) :: u32;
          (bnTarget, fNegative, fOverflow) = SetCompact bits in
      if fNegative \<or> bnTarget = 0 \<or> fOverflow then Inr (False, outHash)
      else if outHash = None \<and> mode = MINING then Inl Mining_requires_outHash
      else case pow_commitment cr b bnTarget mode of None \<Rightarrow> Inr (False, outHash)
      | Some (hashRX, fC) \<Rightarrow>
          (case pow_hash cr b bnTarget nEpochDuration mode hashRX fC of
             Inl err \<Rightarrow> Inl err
           | Inr None \<Rightarrow> Inr (False, outHash)
           | Inr (Some (hashRX, fHashVerified, fCommitmentVerified)) \<Rightarrow>
               (if \<not> (fHashVerified \<and> fCommitmentVerified) \<and>
                   \<not> (mode = COMMITMENT_ONLY \<and> \<not> fHashVerified \<and> fCommitmentVerified)
                then Inr (False, outHash)
                else Inr (True, map_option (\<lambda>h. hashRX) outHash))))"

section \<open>The tables of machines\<close>

text \<open>
  A cache or a machine is represented by the seed it was initialised with.  The two arguments of
  \<open>GetCachedVM\<close> before the state say whether the library's allocations succeed.
\<close>

record randomx_state =
  g_randomx_initialized :: bool
  t_cache_storage :: "(u32, blob) std_map"
  t_vm_cache :: "(u32, blob) std_map"

definition InitRandomX :: "randomx_state \<Rightarrow> randomx_state" where
  "InitRandomX st = (if g_randomx_initialized st then st else st\<lparr>g_randomx_initialized := True\<rparr>)"

definition ShutdownRandomX :: "randomx_state \<Rightarrow> randomx_state" where
  "ShutdownRandomX st =
     (if \<not> g_randomx_initialized st then st
      else st\<lparr>g_randomx_initialized := False, t_vm_cache := [], t_cache_storage := []\<rparr>)"

definition epoch_cache :: "bool \<Rightarrow> randomx_state \<Rightarrow> u32 \<Rightarrow> (pow_error + blob) \<times> randomx_state" where
  "epoch_cache alloc_ok st nEpoch =
     (case map_of (t_cache_storage st) nEpoch of Some seed \<Rightarrow> (Inr seed, st)
      | None \<Rightarrow> if \<not> alloc_ok then (Inl Cache_allocation_failed, st)
          else (Inr (GetSeedHash nEpoch), st\<lparr>t_cache_storage := om_update nEpoch (GetSeedHash nEpoch) (t_cache_storage st)\<rparr>))"

definition GetCachedVM :: "bool \<Rightarrow> bool \<Rightarrow> randomx_state \<Rightarrow> u32 \<Rightarrow> (pow_error + blob) \<times> randomx_state" where
  "GetCachedVM alloc_ok vm_ok st nEpoch =
     (if \<not> g_randomx_initialized st then (Inl RandomX_not_initialized, st)
      else case map_of (t_vm_cache st) nEpoch of Some vm \<Rightarrow> (Inr vm, st)
      | None \<Rightarrow>
          (case epoch_cache alloc_ok st nEpoch of
             (Inl err, st) \<Rightarrow> (Inl err, st)
           | (Inr seed, st) \<Rightarrow>
               (if \<not> vm_ok then (Inl VM_creation_failed, st)
                else (Inr seed, st\<lparr>t_vm_cache := om_update nEpoch seed (t_vm_cache st)\<rparr>))))"

definition CreateVMForEpoch :: "bool \<Rightarrow> bool \<Rightarrow> randomx_state \<Rightarrow> u32 \<Rightarrow> (pow_error + blob) \<times> randomx_state" where
  "CreateVMForEpoch alloc_ok vm_ok st nEpoch =
     (if \<not> g_randomx_initialized st then (Inl RandomX_not_initialized, st)
      else case epoch_cache alloc_ok st nEpoch of
             (Inl err, st) \<Rightarrow> (Inl err, st)
           | (Inr seed, st) \<Rightarrow> if \<not> vm_ok then (Inl VM_creation_failed, st) else (Inr seed, st))"


section \<open>Lemmas\<close>

lemma rx_input_hashRandomX [simp]: "rx_input cr (b\<lparr>hashRandomX := h\<rparr>) = rx_input cr b"
  by (simp add: rx_input_def)

lemma commitment_of_set [simp]: "GetRandomXCommitment cr (b\<lparr>hashRandomX := h\<rparr>) None = GetRandomXCommitment cr b (Some h)"
  by (simp add: GetRandomXCommitment_def)

lemma header_memory_little: "header_memory Little b = SerializeFixed b" if "header_typed b"
  using that unfolding header_memory_def by (simp add: SerializeFixed_layout WriteLE_bytes store_def)

lemmas pow_defs = CheckProofOfWork_def pow_commitment_def pow_hash_def Let_def

text \<open>A machine in the table, and a cache in the table, is keyed with the seed of its epoch.\<close>

definition randomx_inv :: "randomx_state \<Rightarrow> bool" where
  "randomx_inv st \<longleftrightarrow> list_all (\<lambda>(e, s). s = GetSeedHash e) (t_cache_storage st) \<and>
     list_all (\<lambda>(e, s). s = GetSeedHash e) (t_vm_cache st)"

lemma seeds_update:
  "list_all (\<lambda>(e, s). s = f e) m \<Longrightarrow> list_all (\<lambda>(e, s). s = f e) (om_update k (f k) m)"
  by (induction k "f k" m rule: om_update.induct) auto

lemma seeds_lookup: "list_all (\<lambda>(e, s). s = f e) m \<Longrightarrow> map_of m k = Some s \<Longrightarrow> s = f k"
  by (auto simp: list_all_iff dest!: map_of_SomeD)

lemma epoch_cache_seed:
  assumes "randomx_inv st" "epoch_cache a st e = (r, st')"
  shows "randomx_inv st'" "r = Inr seed \<Longrightarrow> seed = GetSeedHash e" "t_vm_cache st' = t_vm_cache st"
    "g_randomx_initialized st' = g_randomx_initialized st" "r = Inl err \<longleftrightarrow> \<not> a \<and> map_of (t_cache_storage st) e = None \<and> err = Cache_allocation_failed"
  using assms seeds_lookup [of GetSeedHash "t_cache_storage st" e]
  by (auto simp: epoch_cache_def randomx_inv_def seeds_update split: option.splits if_splits)

section \<open>Properties\<close>

text \<open>
  A header the miner's mode accepts, with the hash that mode returned written into it, is accepted
  by both verification modes at the same difficulty, unless the hash is the null value that marks an
  unset field.
\<close>

theorem mined_header_verifies:
  assumes "CheckProofOfWork cr b bits params MINING (Some h0) = Inr (True, Some h)" and "\<not> blob_IsNull h"
  shows "CheckProofOfWork cr (b\<lparr>hashRandomX := h\<rparr>) bits params FULL outHash = Inr (True, map_option (\<lambda>x. h) outHash) \<and>
     CheckProofOfWork cr (b\<lparr>hashRandomX := h\<rparr>) bits params COMMITMENT_ONLY outHash = Inr (True, map_option (\<lambda>x. h) outHash)"
  using assms by (auto simp: pow_defs split: prod.splits if_splits sum.splits)

definition toy_crypto :: crypto where
  "toy_crypto = \<lparr>header_hash = GetHash, host = Little, vm_seed = (\<lambda>e. Inr [1]), rx_hash = (\<lambda>k x. k @ replicate 31 0),
     rx_commitment = (\<lambda>x h. replicate 32 0)\<rparr>"

lemma arith_of_zero [simp]: "arith_of_blob (replicate 32 0) = 0"
  using unat_arith_of_blob [of "replicate 32 0"] by (simp add: is_uint256_def wval_zeros unat_eq_zero)

theorem mined_header_verifies_witness:
  "\<exists>h. CheckProofOfWork toy_crypto (regtest_genesis\<lparr>hashRandomX := h\<rparr>) 0x207fffff sample_params FULL None = Inr (True, None)"
proof -
  let ?h = "1 # replicate 31 (0 :: byte)"
  have "CheckProofOfWork toy_crypto regtest_genesis 0x207fffff sample_params MINING (Some []) = Inr (True, Some ?h)"
    by (simp add: pow_defs SetCompact_regtest toy_crypto_def GetRandomXCommitment_def)
  moreover have "\<not> blob_IsNull ?h" by (simp add: blob_IsNull_def)
  ultimately show ?thesis using mined_header_verifies [of _ _ _ _ _ ?h None] by (intro exI [of _ ?h]) simp
qed

text \<open>
  The full check implies the cheap one: a header that passes with the RandomX hash recomputed
  passes the commitment-only check of header synchronisation, with the same output.
\<close>

theorem full_implies_commitment:
  assumes "CheckProofOfWork cr b bits params FULL outHash = Inr (True, h)"
  shows "CheckProofOfWork cr b bits params COMMITMENT_ONLY outHash = Inr (True, h) \<and> h = map_option (\<lambda>x. hashRandomX b) outHash"
  using assms by (auto simp: pow_defs split: prod.splits if_splits sum.splits)

theorem full_implies_commitment_witness:
  "CheckProofOfWork toy_crypto (regtest_genesis\<lparr>hashRandomX := 1 # replicate 31 0\<rparr>) 0x207fffff sample_params COMMITMENT_ONLY None = Inr (True, None)"
proof -
  have "CheckProofOfWork toy_crypto (regtest_genesis\<lparr>hashRandomX := 1 # replicate 31 0\<rparr>) 0x207fffff sample_params FULL None = Inr (True, None)"
    by (simp add: pow_defs SetCompact_regtest toy_crypto_def GetRandomXCommitment_def blob_IsNull_def)
  from full_implies_commitment [OF this] show ?thesis by blast
qed

text \<open>
  The per-thread table is transparent: whatever epochs were asked for before, the machine returned
  for an epoch is keyed with that epoch's seed, the tables stay consistent, and asking again returns the
  same machine without a further allocation.
\<close>

theorem GetCachedVM_transparent:
  assumes "randomx_inv st" and "GetCachedVM a v st e = (r, st')"
  shows "randomx_inv st' \<and> (\<forall>seed. r = Inr seed \<longrightarrow> seed = GetSeedHash e \<and> GetCachedVM False False st' e = (Inr seed, st'))"
proof (cases "epoch_cache a st e")
  case (Pair c st1)
  note c = epoch_cache_seed [OF assms(1) Pair]
  show ?thesis
    using assms c(1,3,4) c(2) seeds_lookup [of GetSeedHash "t_vm_cache st" e] unfolding GetCachedVM_def Pair
    by (auto simp: randomx_inv_def seeds_update split: if_splits option.splits sum.splits)
qed

theorem GetCachedVM_transparent_witness:
  "fst (GetCachedVM True True \<lparr>g_randomx_initialized = True, t_cache_storage = [], t_vm_cache = []\<rparr> 7) = Inr (GetSeedHash 7)"
proof -
  let ?st = "\<lparr>g_randomx_initialized = True, t_cache_storage = [], t_vm_cache = []\<rparr>"
  have i: "randomx_inv ?st" by (simp add: randomx_inv_def)
  obtain r st' where r: "GetCachedVM True True ?st 7 = (r, st')" by (cases "GetCachedVM True True ?st 7")
  then obtain seed where "r = Inr seed" by (auto simp: GetCachedVM_def epoch_cache_def)
  then show ?thesis using GetCachedVM_transparent [OF i r] r by simp
qed

end
