(* ===== verification/Timedata.thy ===== *)
theory Timedata
  imports Median_Time "HOL-Library.Signed_Division"
begin

text \<open>
  Network-adjusted time (include/chain/timedata.hpp, src/chain/timedata.cpp): a median filter over the
  clock offsets reported by peers, one sample per source address.  The addresses are any type.
\<close>

section \<open>The median filter\<close>

record CMedianFilter =
  vValues :: "int list"
  vSorted :: "int list"
  nSize :: nat

definition new_CMedianFilter :: "nat \<Rightarrow> int \<Rightarrow> CMedianFilter" where
  "new_CMedianFilter n initial_value = \<lparr>vValues = [initial_value], vSorted = [initial_value], nSize = n\<rparr>"

definition filter_input :: "int \<Rightarrow> CMedianFilter \<Rightarrow> CMedianFilter" where
  "filter_input val f =
     (let vs = (if length (vValues f) = nSize f then tl (vValues f) else vValues f) @ [val]
      in f\<lparr>vValues := vs, vSorted := sort vs\<rparr>)"

text \<open>\<open>None\<close> is the failed assertion on an empty filter.\<close>

definition filter_median :: "CMedianFilter \<Rightarrow> int option" where
  "filter_median f =
     (let s = vSorted f; n = length s in
      if \<not> n > 0 then None
      else if odd n then Some (s ! (n div 2))
      else Some ((s ! (n div 2 - 1) + s ! (n div 2)) sdiv 2))"

section \<open>The offset\<close>

definition DEFAULT_MAX_TIME_ADJUSTMENT :: int where "DEFAULT_MAX_TIME_ADJUSTMENT = 70 * 60"
definition BITCOIN_TIMEDATA_MAX_SAMPLES :: nat where "BITCOIN_TIMEDATA_MAX_SAMPLES = 200"

record 'ip timedata =
  nTimeOffset :: int
  g_sources :: "'ip list"
  g_time_offsets :: CMedianFilter
  g_warning_emitted :: bool

definition TestOnlyResetTimeData :: "'ip timedata" where
  "TestOnlyResetTimeData = \<lparr>nTimeOffset = 0, g_sources = [],
     g_time_offsets = new_CMedianFilter BITCOIN_TIMEDATA_MAX_SAMPLES 0, g_warning_emitted = False\<rparr>"

definition GetTimeOffset :: "'ip timedata \<Rightarrow> int" where
  "GetTimeOffset st = nTimeOffset st"

definition clock_matches :: "int list \<Rightarrow> bool" where
  "clock_matches s = list_ex (\<lambda>nOffset. nOffset \<noteq> 0 \<and> nOffset > - 5 * 60 \<and> nOffset < 5 * 60) s"

definition AddTimeData :: "'ip \<Rightarrow> int \<Rightarrow> 'ip timedata \<Rightarrow> 'ip timedata option" where
  "AddTimeData ip nOffsetSample st =
     (if length (g_sources st) = BITCOIN_TIMEDATA_MAX_SAMPLES then Some st
      else if ip \<in> set (g_sources st) then Some st
      else
        let f = filter_input nOffsetSample (g_time_offsets st);
            st = st\<lparr>g_sources := ip # g_sources st, g_time_offsets := f\<rparr>;
            n = length (vValues f) in
        if n \<ge> 5 \<and> n mod 2 = 1
        then case filter_median f of None \<Rightarrow> None
          | Some nMedian \<Rightarrow>
              (if nMedian \<ge> - DEFAULT_MAX_TIME_ADJUSTMENT \<and> nMedian \<le> DEFAULT_MAX_TIME_ADJUSTMENT
               then Some (st\<lparr>nTimeOffset := nMedian\<rparr>)
               else Some (st\<lparr>nTimeOffset := 0,
                      g_warning_emitted := g_warning_emitted st \<or> \<not> clock_matches (vSorted f)\<rparr>))
        else Some st)"

section \<open>The invariant\<close>

definition filter_inv :: "CMedianFilter \<Rightarrow> bool" where
  "filter_inv f \<longleftrightarrow> vValues f \<noteq> [] \<and> length (vValues f) \<le> nSize f \<and> vSorted f = sort (vValues f)"

definition timedata_inv :: "'ip timedata \<Rightarrow> bool" where
  "timedata_inv st \<longleftrightarrow> filter_inv (g_time_offsets st) \<and> nSize (g_time_offsets st) = BITCOIN_TIMEDATA_MAX_SAMPLES \<and>
     distinct (g_sources st) \<and> length (g_sources st) \<le> BITCOIN_TIMEDATA_MAX_SAMPLES \<and>
     length (vValues (g_time_offsets st)) = min BITCOIN_TIMEDATA_MAX_SAMPLES (Suc (length (g_sources st))) \<and>
     \<bar>nTimeOffset st\<bar> \<le> DEFAULT_MAX_TIME_ADJUSTMENT"

lemma filter_inv_input: "filter_inv f \<Longrightarrow> filter_inv (filter_input v f)"
  by (cases "vValues f") (auto simp: filter_inv_def filter_input_def Let_def)

lemma filter_input_length:
  "filter_inv f \<Longrightarrow> length (vValues (filter_input v f)) = min (nSize f) (Suc (length (vValues f)))"
  by (cases "vValues f") (auto simp: filter_inv_def filter_input_def Let_def)

lemma filter_input_nSize [simp]: "nSize (filter_input v f) = nSize f"
  by (simp add: filter_input_def Let_def)

lemma filter_median_odd: "filter_inv f \<Longrightarrow> odd (length (vValues f)) \<Longrightarrow> filter_median f = Some (median (vValues f))"
  by (auto simp: filter_inv_def filter_median_def median_def Let_def simp flip: length_greater_0_conv)

lemma timedata_inv_reset: "timedata_inv TestOnlyResetTimeData"
  by (simp add: timedata_inv_def TestOnlyResetTimeData_def new_CMedianFilter_def filter_inv_def
      BITCOIN_TIMEDATA_MAX_SAMPLES_def DEFAULT_MAX_TIME_ADJUSTMENT_def)

lemma AddTimeData_fresh:
  fixes s :: int
  assumes "timedata_inv st" "length (g_sources st) \<noteq> BITCOIN_TIMEDATA_MAX_SAMPLES" "ip \<notin> set (g_sources st)"
  defines "f \<equiv> filter_input s (g_time_offsets st)"
  defines "n \<equiv> length (vValues f)"
  shows "\<exists>st'. AddTimeData ip s st = Some st' \<and> g_sources st' = ip # g_sources st \<and> g_time_offsets st' = f \<and>
     nTimeOffset st' = (if 5 \<le> n \<and> odd n
            then if \<bar>median (vValues f)\<bar> \<le> DEFAULT_MAX_TIME_ADJUSTMENT then median (vValues f) else 0
            else nTimeOffset st)"
proof -
  have f: "filter_inv f" using assms(1) filter_inv_input by (auto simp: timedata_inv_def f_def)
  show ?thesis
    using assms(2,3) filter_median_odd [OF f]
    by (auto simp: AddTimeData_def Let_def f_def [symmetric] n_def [symmetric] odd_iff_mod_2_eq_one abs_le_iff split: if_splits)
qed

lemma AddTimeData_inv:
  assumes "timedata_inv st"
  shows "\<exists>st'. AddTimeData ip s st = Some st' \<and> timedata_inv st'"
proof (cases "length (g_sources st) = BITCOIN_TIMEDATA_MAX_SAMPLES \<or> ip \<in> set (g_sources st)")
  case True
  then have "AddTimeData ip s st = Some st" by (auto simp: AddTimeData_def)
  then show ?thesis using assms by blast
next
  case False
  let ?f = "filter_input s (g_time_offsets st)"
  obtain st' where a: "AddTimeData ip s st = Some st'" "g_sources st' = ip # g_sources st" "g_time_offsets st' = ?f"
    and off: "nTimeOffset st' = (if 5 \<le> length (vValues ?f) \<and> odd (length (vValues ?f))
            then if \<bar>median (vValues ?f)\<bar> \<le> DEFAULT_MAX_TIME_ADJUSTMENT then median (vValues ?f) else 0
            else nTimeOffset st)"
    using AddTimeData_fresh [OF assms, of ip s] False by blast
  have off: "\<bar>nTimeOffset st'\<bar> \<le> DEFAULT_MAX_TIME_ADJUSTMENT"
    using assms unfolding off by (simp add: timedata_inv_def DEFAULT_MAX_TIME_ADJUSTMENT_def)
  have "timedata_inv st'"
    using assms off False a(2,3) by (auto simp: timedata_inv_def filter_inv_input filter_input_length)
  then show ?thesis using a(1) by blast
qed

fun add_samples :: "('ip \<times> int) list \<Rightarrow> 'ip timedata \<Rightarrow> 'ip timedata option" where
  "add_samples [] st = Some st"
| "add_samples ((ip, s) # xs) st = Option.bind (AddTimeData ip s st) (add_samples xs)"

lemma add_samples_inv: "timedata_inv st \<Longrightarrow> \<exists>st'. add_samples xs st = Some st' \<and> timedata_inv st'"
proof (induction xs st rule: add_samples.induct)
  case (2 ip s xs st)
  obtain st' where st': "AddTimeData ip s st = Some st'" "timedata_inv st'" using AddTimeData_inv [OF 2(2)] by blast
  from 2(1) [OF st'] show ?case by (simp add: st'(1))
qed simp

section \<open>Properties\<close>

text \<open>
  Whatever samples peers report, from whatever addresses, no assertion of the median filter
  fails, at most 200 sources are recorded, each once, the filter holds at most 200 values, and the
  offset never leaves plus or minus 70 minutes.
\<close>

theorem time_offset_bounded:
  "\<exists>st. add_samples xs TestOnlyResetTimeData = Some st \<and> \<bar>GetTimeOffset st\<bar> \<le> 4200 \<and>
     distinct (g_sources st) \<and> length (g_sources st) \<le> 200 \<and>
     length (vValues (g_time_offsets st)) = min 200 (Suc (length (g_sources st)))"
  using add_samples_inv [OF timedata_inv_reset, of xs]
  by (auto simp: timedata_inv_def GetTimeOffset_def BITCOIN_TIMEDATA_MAX_SAMPLES_def DEFAULT_MAX_TIME_ADJUSTMENT_def)

text \<open>
  A majority of samples fixes the offset: when a new sample moves the offset (an odd number of
  values, at least five) and more than half of the values lie in an interval within the permitted
  adjustment, the new offset lies in that interval, whatever the others reported.
\<close>

theorem majority_fixes_offset:
  assumes "timedata_inv st" and "length (g_sources st) < 200" and "ip \<notin> set (g_sources st)"
    and "AddTimeData ip s st = Some st'" and "vs = vValues (g_time_offsets st')"
    and "5 \<le> length vs" and "odd (length vs)"
    and "length vs < 2 * length (filter (\<lambda>v. lo \<le> v \<and> v \<le> hi) vs)" and "- 4200 \<le> lo" and "hi \<le> 4200"
  shows "lo \<le> GetTimeOffset st' \<and> GetTimeOffset st' \<le> hi"
proof -
  let ?f = "filter_input s (g_time_offsets st)"
  have "length (g_sources st) \<noteq> BITCOIN_TIMEDATA_MAX_SAMPLES" using assms(2) by (simp add: BITCOIN_TIMEDATA_MAX_SAMPLES_def)
  from AddTimeData_fresh [OF assms(1) this assms(3), of s] assms(4)
  have v: "vs = vValues ?f" and o: "nTimeOffset st' = (if 5 \<le> length (vValues ?f) \<and> odd (length (vValues ?f))
            then if \<bar>median (vValues ?f)\<bar> \<le> DEFAULT_MAX_TIME_ADJUSTMENT then median (vValues ?f) else 0
            else nTimeOffset st)" unfolding assms(5) by auto
  have b: "lo \<le> median vs" "median vs \<le> hi" using median_majority [OF assms(8)] by auto
  then have "\<bar>median vs\<bar> \<le> 4200" using assms(9,10) by (simp add: abs_le_iff)
  then have "nTimeOffset st' = median vs"
    using o assms(6,7) unfolding v [symmetric] by (simp add: DEFAULT_MAX_TIME_ADJUSTMENT_def)
  then show ?thesis using b by (simp add: GetTimeOffset_def)
qed

definition four_samples :: "nat timedata" where
  "four_samples = \<lparr>nTimeOffset = 0, g_sources = [3, 2, 1],
     g_time_offsets = \<lparr>vValues = [0, 10, 20, 9000], vSorted = [0, 10, 20, 9000], nSize = 200\<rparr>, g_warning_emitted = False\<rparr>"

theorem majority_fixes_offset_witness:
  "\<exists>st'. AddTimeData 4 15 four_samples = Some st' \<and> 10 \<le> GetTimeOffset st' \<and> GetTimeOffset st' \<le> 20"
proof -
  have i: "timedata_inv four_samples"
    by (simp add: timedata_inv_def four_samples_def filter_inv_def BITCOIN_TIMEDATA_MAX_SAMPLES_def DEFAULT_MAX_TIME_ADJUSTMENT_def)
  obtain st' where st': "AddTimeData 4 15 four_samples = Some st'" using AddTimeData_inv [OF i] by blast
  have v: "[0, 10, 20, 9000, 15] = vValues (g_time_offsets st')"
    using st' by (auto simp: AddTimeData_def four_samples_def filter_input_def BITCOIN_TIMEDATA_MAX_SAMPLES_def Let_def
        split: option.splits if_splits)
  from majority_fixes_offset [OF i _ _ st' v, of 10 20] st' show ?thesis by (simp add: four_samples_def)
qed

end
