(* ===== verification/Validation.thy ===== *)
theory Validation
  imports Pow_Check Timedata
begin

text \<open>
  Header validation (src/chain/validation.cpp): the context-free and contextual checks, the cheap checks
  of a batch of headers, and the work threshold against header spam.  A thrown exception is the left
  value of a sum; \<open>None\<close> is a failed assertion inside the difficulty rule.
\<close>

section \<open>Validation state\<close>

datatype Result = VALID | INVALID | ERROR

record ValidationState =
  vs_result :: Result
  reject_reason :: string
  debug_message :: string

definition new_ValidationState :: ValidationState where
  "new_ValidationState = \<lparr>vs_result = VALID, reject_reason = [], debug_message = []\<rparr>"

definition state_Invalid :: "string \<Rightarrow> string \<Rightarrow> ValidationState \<Rightarrow> bool \<times> ValidationState" where
  "state_Invalid reason msg st = (False, st\<lparr>vs_result := INVALID, reject_reason := reason, debug_message := msg\<rparr>)"

definition state_Error :: "string \<Rightarrow> string \<Rightarrow> ValidationState \<Rightarrow> bool \<times> ValidationState" where
  "state_Error reason msg st = (False, st\<lparr>vs_result := ERROR, reject_reason := reason, debug_message := msg\<rparr>)"

section \<open>Checks of one header\<close>

definition CheckBlockHeader :: "crypto \<Rightarrow> CBlockHeader \<Rightarrow> ChainParams \<Rightarrow> ValidationState \<Rightarrow> pow_error + bool \<times> ValidationState" where
  "CheckBlockHeader cr header params st =
     (case CheckProofOfWork cr header (nBits header) params FULL None of
        Inl err \<Rightarrow> Inl err
      | Inr (ok, out) \<Rightarrow> Inr (if \<not> ok then state_Invalid ''high-hash'' ''proof of work failed'' st else (True, st)))"

definition MAX_FUTURE_BLOCK_TIME :: int where "MAX_FUTURE_BLOCK_TIME = 2 * 60 * 60"

definition ContextualCheckBlockHeader :: "block_map \<Rightarrow> CBlockHeader \<Rightarrow> blob option \<Rightarrow> ChainParams \<Rightarrow> int \<Rightarrow>
    ValidationState \<Rightarrow> (bool \<times> ValidationState) option" where
  "ContextualCheckBlockHeader m header pindexPrev params adjusted_time st =
     (case GetNextWorkRequired m pindexPrev params of None \<Rightarrow> None
      | Some expected_bits \<Rightarrow> Some (
          if nBits header \<noteq> expected_bits
          then state_Invalid ''bad-diffbits'' (''incorrect difficulty: expected '' @ dec_nat (unat expected_bits) @
                 '', got '' @ dec_nat (unat (nBits header))) st
          else if (case pindexPrev of None \<Rightarrow> False | Some p \<Rightarrow> uint (nTime header) \<le> GetMedianTimePast m p)
          then state_Invalid ''time-too-old'' (''block's timestamp is too early: '' @ dec_nat (unat (nTime header)) @
                 '' <= '' @ dec_int (GetMedianTimePast m (the pindexPrev))) st
          else if uint (nTime header) > adjusted_time + MAX_FUTURE_BLOCK_TIME
          then state_Invalid ''time-too-new'' (''block timestamp too far in future: '' @ dec_nat (unat (nTime header)) @
                 '' > '' @ dec_int (adjusted_time + MAX_FUTURE_BLOCK_TIME)) st
          else if sint (nVersion header) < 1
          then state_Invalid ''bad-version'' (''block version too old: '' @ dec_int (sint (nVersion header))) st
          else let expirationHeight = nNetworkExpirationInterval (consensus params);
                   currentHeight = (case pindexPrev of None \<Rightarrow> 0 | Some p \<Rightarrow> height_of m p + 1) in
            if expirationHeight > 0 \<and> currentHeight \<ge> expirationHeight
            then state_Invalid ''network-expired'' (''Network expired at block '' @ dec_int expirationHeight @
                   ''. This version is outdated. Please update to the latest version to continue.'') st
            else (True, st)))"

definition GetAdjustedTime :: "int \<Rightarrow> 'ip timedata \<Rightarrow> int" where
  "GetAdjustedTime now td = now + GetTimeOffset td"

section \<open>Batches of headers\<close>

definition GetAntiDoSWorkThreshold :: "CBlockIndex option \<Rightarrow> ChainParams \<Rightarrow> bool \<Rightarrow> arith_uint256" where
  "GetAntiDoSWorkThreshold tip params is_ibd =
     (if is_ibd then 0
      else let near_tip_work = (case tip of None \<Rightarrow> 0
                 | Some e \<Rightarrow>
                     (let buffer = GetBlockProof e * ucast (of_int (nAntiDosWorkBufferBlocks (consensus params)) :: u32)
                      in nChainWork e - min buffer (nChainWork e)));
               min_chain_work = arith_of_blob (nMinimumChainWork (consensus params))
           in max near_tip_work min_chain_work)"

fun CalculateHeadersWork_loop :: "arith_uint256 \<Rightarrow> CBlockHeader list \<Rightarrow> arith_uint256" where
  "CalculateHeadersWork_loop total_work [] = total_work"
| "CalculateHeadersWork_loop total_work (header # headers) =
     (let (bnTarget, fNegative, fOverflow) = SetCompact (nBits header) in
      if fNegative \<or> fOverflow \<or> bnTarget = 0 then CalculateHeadersWork_loop total_work headers
      else CalculateHeadersWork_loop (total_work + ((NOT bnTarget div (bnTarget + 1)) + 1)) headers)"

definition CalculateHeadersWork :: "CBlockHeader list \<Rightarrow> arith_uint256" where
  "CalculateHeadersWork headers = CalculateHeadersWork_loop 0 headers"

fun CheckHeadersPoW :: "crypto \<Rightarrow> CBlockHeader list \<Rightarrow> ChainParams \<Rightarrow> pow_error + bool" where
  "CheckHeadersPoW cr [] params = Inr True"
| "CheckHeadersPoW cr (header # headers) params =
     (case CheckProofOfWork cr header (nBits header) params COMMITMENT_ONLY None of
        Inl err \<Rightarrow> Inl err
      | Inr (ok, out) \<Rightarrow> if \<not> ok then Inr False else CheckHeadersPoW cr headers params)"

fun continuous_from :: "crypto \<Rightarrow> CBlockHeader \<Rightarrow> CBlockHeader list \<Rightarrow> bool" where
  "continuous_from cr prev [] = True"
| "continuous_from cr prev (header # headers) =
     (if hashPrevBlock header \<noteq> header_hash cr prev then False else continuous_from cr header headers)"

definition CheckHeadersAreContinuous :: "crypto \<Rightarrow> CBlockHeader list \<Rightarrow> bool" where
  "CheckHeadersAreContinuous cr headers =
     (case headers of [] \<Rightarrow> True | header # rest \<Rightarrow> continuous_from cr header rest)"

section \<open>Lemmas\<close>

lemma CalculateHeadersWork_loop_sum:
  "CalculateHeadersWork_loop acc hs = acc + sum_list (map (\<lambda>h. GetBlockProof (new_block_index h)) hs)"
proof (induction acc hs rule: CalculateHeadersWork_loop.induct)
  case (2 acc h hs)
  let ?t = "fst (SetCompact (nBits h))"
  have "unat (?t + 1) = unat ?t + 1" using SetCompact_not_max [of "nBits h"] by (simp add: unat_plus_if')
  then have "?t + 1 \<noteq> 0" by (metis add_is_0 one_neq_zero unat_0)
  then have "?t \<noteq> NOT 0" by auto
  then show ?case using 2 by (auto simp: GetBlockProof_def new_block_index_def Let_def split: prod.splits)
qed simp

lemma continuous_from_iff:
  "continuous_from cr h hs \<longleftrightarrow> (\<forall>i < length hs. hashPrevBlock (hs ! i) = header_hash cr ((h # hs) ! i))"
proof (induction cr h hs rule: continuous_from.induct)
  case (2 cr h g gs)
  then show ?case by (auto simp: All_less_Suc2)
qed simp

lemma CheckHeadersPoW_iff:
  "CheckHeadersPoW cr hs params = Inr (\<forall>h \<in> set hs. CheckProofOfWork cr h (nBits h) params COMMITMENT_ONLY None = Inr (True, None))"
proof (induction cr hs params rule: CheckHeadersPoW.induct)
  case (2 cr h hs params)
  have "\<exists>ok. CheckProofOfWork cr h (nBits h) params COMMITMENT_ONLY None = Inr (ok, None)"
    by (auto simp: pow_defs split: prod.splits)
  then show ?case using 2 by (auto split: sum.splits)
qed simp

end
