(* ===== verification/Block_Manager.thy ===== *)
theory Block_Manager
  imports Chain_Active Validation
begin

text \<open>
  The block manager (src/chain/block_manager.cpp): the index of all known headers and the active chain.
  \<open>None\<close> around a result is a failed assertion or a walk that does not end.
\<close>

section \<open>State and operations\<close>

record block_manager =
  m_block_index :: block_map
  m_active_chain :: CChain
  m_genesis_hash :: blob
  m_initialized :: bool

definition BlockManager :: block_manager where
  "BlockManager = \<lparr>m_block_index = [], m_active_chain = [], m_genesis_hash = blob_SetNull 32, m_initialized = False\<rparr>"

definition LookupBlockIndex :: "block_manager \<Rightarrow> blob \<Rightarrow> blob option" where
  "LookupBlockIndex bm h = (case map_of (m_block_index bm) h of None \<Rightarrow> None | Some e \<Rightarrow> Some h)"

definition bm_GetTip :: "block_manager \<Rightarrow> blob option" where
  "bm_GetTip bm = chain_Tip (m_active_chain bm)"

definition SetActiveTip :: "block_manager \<Rightarrow> blob \<Rightarrow> block_manager option" where
  "SetActiveTip bm k = map_option (\<lambda>v. bm\<lparr>m_active_chain := v\<rparr>) (SetTip (m_block_index bm) (m_active_chain bm) k)"

text \<open>
  The walk of the continuity check gives the block it stops at and the number of steps, or nothing when
  it exceeds its million.
\<close>

function continuity_walk :: "block_map \<Rightarrow> blob \<Rightarrow> nat \<Rightarrow> (blob \<times> nat) option" where
  "continuity_walk m w blocks_walked =
     (case parent_of m w of None \<Rightarrow> Some (w, blocks_walked)
      | Some p \<Rightarrow> if blocks_walked + 1 > 1000000 then None else continuity_walk m p (blocks_walked + 1))"
  by auto
termination by (relation "measure (\<lambda>(m, k, n). 1000001 - n)") auto

declare continuity_walk.simps [simp del]

definition VerifyChainContinuity :: "block_map \<Rightarrow> blob option \<Rightarrow> blob \<Rightarrow> bool \<times> string" where
  "VerifyChainContinuity m pindex expected_genesis_hash =
     (case pindex of None \<Rightarrow> (False, ''null pointer'')
      | Some k \<Rightarrow>
          (case continuity_walk m k 0 of
             None \<Rightarrow> (False, ''chain walk exceeded 1M blocks (circular reference?)'')
           | Some (w, blocks_walked) \<Rightarrow>
               (if w \<noteq> expected_genesis_hash
                then (False, ''chain does not descend from expected genesis (found '' @ take 16 (GetHex w) @
                        '', expected '' @ take 16 (GetHex expected_genesis_hash) @ '')'')
                else if height_of m w \<noteq> 0
                then (False, ''genesis block has non-zero height '' @ dec_int (height_of m w))
                else if height_of m k \<noteq> int blocks_walked
                then (False, ''height mismatch: pindex->nHeight='' @ dec_int (height_of m k) @ '' but walked '' @
                        dec_nat blocks_walked @ '' blocks'')
                else (True, []))))"

text \<open>
  \<open>AddToBlockIndex\<close> inserts the entry before it looks its parent up, so the lookup is in the extended
  map; an entry whose parent is missing is erased again.
\<close>

definition AddToBlockIndex :: "crypto \<Rightarrow> CBlockHeader \<Rightarrow> block_manager \<Rightarrow> (blob option \<times> block_manager) option" where
  "AddToBlockIndex cr header bm =
     (let h = header_hash cr header; m = m_block_index bm in
      case map_of m h of Some e \<Rightarrow> Some (Some h, bm)
      | None \<Rightarrow>
          let e = new_block_index header;
              m = om_update h e m;
              e = e\<lparr>pprev := (case map_of m (hashPrevBlock header) of None \<Rightarrow> None | Some f \<Rightarrow> Some (hashPrevBlock header))\<rparr>;
              m = om_update h e m in
          (case pprev e of
             Some p \<Rightarrow>
               (case map_of m p of None \<Rightarrow> None
                | Some f \<Rightarrow>
                    let e = e\<lparr>nHeight := nHeight f + 1, nChainWork := nChainWork f + GetBlockProof e,
                              nTimeMax := max (nTimeMax f) (index_time e)\<rparr>
                    in map_option (\<lambda>e. (Some h, bm\<lparr>m_block_index := om_update h e m\<rparr>)) (BuildSkip (om_update h e m) e))
           | None \<Rightarrow>
               if \<not> blob_IsNull (hashPrevBlock header)
               then Some (None, bm\<lparr>m_block_index := om_erase h m\<rparr>)
               else let e = e\<lparr>nHeight := 0, nChainWork := GetBlockProof e, nTimeMax := index_time e\<rparr>
                    in map_option (\<lambda>e. (Some h, bm\<lparr>m_block_index := om_update h e m\<rparr>)) (BuildSkip (om_update h e m) e)))"

definition bm_Initialize :: "crypto \<Rightarrow> CBlockHeader \<Rightarrow> block_manager \<Rightarrow> (bool \<times> block_manager) option" where
  "bm_Initialize cr gen bm =
     (if m_initialized bm then Some (False, bm)
      else case AddToBlockIndex cr gen bm of None \<Rightarrow> None
        | Some (None, bm) \<Rightarrow> Some (False, bm)
        | Some (Some k, bm) \<Rightarrow>
            (case SetActiveTip bm k of None \<Rightarrow> None
             | Some bm \<Rightarrow>
                 let bm = bm\<lparr>m_genesis_hash := header_hash cr gen\<rparr> in
                 if \<not> fst (VerifyChainContinuity (m_block_index bm) (Some k) (m_genesis_hash bm)) then Some (False, bm)
                 else Some (True, bm\<lparr>m_initialized := True\<rparr>)))"

section \<open>Updates that cancel\<close>

lemma om_erase_update_new: "om_invar m \<Longrightarrow> map_of m k = None \<Longrightarrow> om_erase k (om_update k v m) = m"
proof (induction k v m rule: om_update.induct)
  case (2 k v k' v' m)
  then have "k' \<noteq> k" and m: "map_of m k = None" "om_invar m" by (auto simp: om_invar_def split: if_splits)
  moreover have "\<forall>x \<in> set m. fst x \<noteq> k" using m(1) by (auto simp: map_of_eq_None_iff)
  ultimately show ?case using 2(1) by (auto simp: om_erase_def filter_id_conv split: if_splits)
qed (simp add: om_erase_def)

section \<open>What insertion does\<close>

lemma GetAncestor_loop_new:
  assumes m: "index_inv m" and k: "map_of m k = None"
  shows "map_of m p \<noteq> None \<Longrightarrow> GetAncestor_loop (om_update k e m) h p hw = GetAncestor_loop m h p hw"
proof (induction hw arbitrary: p rule: less_induct)
  case (less hw)
  then obtain f where f: "map_of m p = Some f" by blast
  have pk: "p \<noteq> k" using f k by auto
  show ?case
  proof (cases "hw \<le> h")
    case True
    then show ?thesis by (simp add: GetAncestor_loop.simps)
  next
    case False
    have s: "GetAncestor_loop (om_update k e m) h s (nat (GetSkipHeight (int hw))) = GetAncestor_loop m h s (nat (GetSkipHeight (int hw)))"
      if g: "pskip f = Some s" for s
    proof (rule less.IH)
      show "nat (GetSkipHeight (int hw)) < hw" using False GetSkipHeight_bounds [of "int hw"] by (simp add: nat_less_iff)
      have "descends (parent_of m) p s" using index_skip(2) [OF m f g] .
      then show "map_of m s \<noteq> None" by (rule tree.descends_member [OF m less.prems])
    qed
    have q: "GetAncestor_loop (om_update k e m) h q (hw - 1) = GetAncestor_loop m h q (hw - 1)" if g: "pprev f = Some q" for q
    proof (rule less.IH)
      show "hw - 1 < hw" using False by simp
      show "map_of m q \<noteq> None" by (rule index_parent [OF m f g]) simp
    qed
    show ?thesis using False f pk s q
      by (subst (1 2) GetAncestor_loop.simps) (auto simp: Let_def split: option.splits)
  qed
qed

lemma GetAncestor_new:
  "index_inv m \<Longrightarrow> map_of m k = None \<Longrightarrow> map_of m p \<noteq> None \<Longrightarrow> GetAncestor (om_update k e m) p g = GetAncestor m p g"
  by (auto simp: GetAncestor_def GetAncestor_loop_new)

text \<open>The entry of a new header with a known parent.\<close>

definition child_entry :: "block_map \<Rightarrow> CBlockHeader \<Rightarrow> CBlockIndex \<Rightarrow> CBlockIndex" where
  "child_entry m header f =
     (new_block_index header)\<lparr>pprev := Some (hashPrevBlock header), nHeight := nHeight f + 1,
        nChainWork := nChainWork f + GetBlockProof (new_block_index header),
        nTimeMax := max (nTimeMax f) (index_time (new_block_index header)),
        pskip := anc_at (parent_of m) (height_of m) (hashPrevBlock header) (GetSkipHeight (nHeight f + 1))\<rparr>"

lemma new_block_index_fields [simp]:
  "pprev (new_block_index h) = None" "pskip (new_block_index h) = None" "nHeight (new_block_index h) = 0"
  "nStatus (new_block_index h) = 0" "nChainWork (new_block_index h) = 0" "nTimeMax (new_block_index h) = 0"
  "bi_nTime (new_block_index h) = nTime h" "bi_nBits (new_block_index h) = nBits h"
  "nTimeReceived (new_block_index h) = 0"
  by (simp_all add: new_block_index_def)

lemma new_block_index_time [simp]: "index_time (new_block_index h) = uint (nTime h)"
  by (simp add: index_time_def)

lemma proof_fields [simp]:
  "GetBlockProof (e\<lparr>pprev := p\<rparr>) = GetBlockProof e" "index_time (e\<lparr>pprev := p\<rparr>) = index_time e"
  "GetBlockProof (e\<lparr>pskip := s\<rparr>) = GetBlockProof e" "index_time (e\<lparr>pskip := s\<rparr>) = index_time e"
  "GetBlockProof (e\<lparr>nHeight := h\<rparr>) = GetBlockProof e" "index_time (e\<lparr>nHeight := h\<rparr>) = index_time e"
  "GetBlockProof (e\<lparr>nChainWork := w\<rparr>) = GetBlockProof e" "index_time (e\<lparr>nChainWork := w\<rparr>) = index_time e"
  "GetBlockProof (e\<lparr>nTimeMax := t\<rparr>) = GetBlockProof e" "index_time (e\<lparr>nTimeMax := t\<rparr>) = index_time e"
  "GetBlockProof (e\<lparr>nStatus := s'\<rparr>) = GetBlockProof e" "index_time (e\<lparr>nStatus := s'\<rparr>) = index_time e"
  "GetBlockProof (e\<lparr>nTimeReceived := t'\<rparr>) = GetBlockProof e" "index_time (e\<lparr>nTimeReceived := t'\<rparr>) = index_time e"
  by (simp_all add: GetBlockProof_def index_time_def)

lemma index_inv_child:
  assumes m: "index_inv m" and k: "map_of m k = None" and p: "map_of m (hashPrevBlock header) = Some f"
  shows "index_inv (om_update k (child_entry m header f) m)"
  by (rule index_inv_add [OF m k p]) (simp_all add: child_entry_def)

lemma AddToBlockIndex_known:
  "map_of (m_block_index bm) (header_hash cr header) = Some e \<Longrightarrow> AddToBlockIndex cr header bm = Some (Some (header_hash cr header), bm)"
  by (simp add: AddToBlockIndex_def Let_def)

lemma AddToBlockIndex_orphan:
  assumes "om_invar (m_block_index bm)" "map_of (m_block_index bm) (header_hash cr header) = None"
    and "map_of (m_block_index bm) (hashPrevBlock header) = None" "hashPrevBlock header \<noteq> header_hash cr header"
    and "\<not> blob_IsNull (hashPrevBlock header)"
  shows "AddToBlockIndex cr header bm = Some (None, bm)"
  using assms by (simp add: AddToBlockIndex_def Let_def om_update_twice om_erase_update_new)

lemma AddToBlockIndex_child:
  assumes m: "index_inv (m_block_index bm)" and h: "map_of (m_block_index bm) (header_hash cr header) = None"
    and p: "map_of (m_block_index bm) (hashPrevBlock header) = Some f"
  shows "AddToBlockIndex cr header bm =
    Some (Some (header_hash cr header),
      bm\<lparr>m_block_index := om_update (header_hash cr header) (child_entry (m_block_index bm) header f) (m_block_index bm)\<rparr>)"
proof -
  let ?m = "m_block_index bm" and ?k = "header_hash cr header" and ?p = "hashPrevBlock header"
  let ?e = "(new_block_index header)\<lparr>pprev := Some ?p, nHeight := nHeight f + 1,
      nChainWork := nChainWork f + GetBlockProof (new_block_index header), nTimeMax := max (nTimeMax f) (index_time (new_block_index header))\<rparr>"
  have pk: "?p \<noteq> ?k" using h p by auto
  have sk: "GetAncestor (om_update ?k ?e ?m) ?p (GetSkipHeight (nHeight f + 1)) =
      Some (anc_at (parent_of ?m) (height_of ?m) ?p (GetSkipHeight (nHeight f + 1)))"
  proof -
    have "0 \<le> GetSkipHeight (nHeight f + 1)" "GetSkipHeight (nHeight f + 1) \<le> nHeight f"
      using GetSkipHeight_bounds [of "nHeight f + 1"] index_height [OF m p] by auto
    then show ?thesis using GetAncestor_correct [OF m p] GetAncestor_new [OF m h, of ?p ?e] p by simp
  qed
  show ?thesis using h p pk sk
    by (simp add: AddToBlockIndex_def Let_def om_update_twice BuildSkip_def child_entry_def)
qed

section \<open>The continuity check\<close>

lemma continuity_walk_iff:
  "n \<le> 1000000 \<Longrightarrow> continuity_walk m k n = Some (w, n') \<longleftrightarrow>
     n \<le> n' \<and> n' \<le> 1000000 \<and> ancs (parent_of m) (n' - n) k = Some w \<and> parent_of m w = None"
proof (induction m k n rule: continuity_walk.induct)
  case (1 m k n)
  show ?case
  proof (cases "parent_of m k")
    case None
    then have "ancs (parent_of m) (n' - n) k = Some w \<longleftrightarrow> n' - n = 0 \<and> w = k" by (cases "n' - n") auto
    then show ?thesis using None 1(2) by (subst continuity_walk.simps) auto
  next
    case (Some p)
    have step: "continuity_walk m k n = (if n + 1 > 1000000 then None else continuity_walk m p (n + 1))"
      using Some by (subst continuity_walk.simps) simp
    show ?thesis
    proof (cases "n + 1 > 1000000")
      case True
      then have "n' - n = 0" if "n' \<le> 1000000" using that by simp
      then show ?thesis using True Some step by auto
    next
      case False
      have "ancs (parent_of m) (n' - n) k = ancs (parent_of m) (n' - (n + 1)) p" if "n + 1 \<le> n'"
      proof -
        have "n' - n = Suc (n' - (n + 1))" using that by simp
        then show ?thesis by (simp only: ancs.simps Some option.case)
      qed
      then show ?thesis using 1(1) [OF Some False] False step Some 1(2) by (cases "n + 1 \<le> n'") auto
    qed
  qed
qed

lemma VerifyChainContinuity_iff:
  "fst (VerifyChainContinuity m (Some k) g) \<longleftrightarrow>
     (\<exists>n \<le> 1000000. ancs (parent_of m) n k = Some g \<and> parent_of m g = None \<and> height_of m g = 0 \<and> height_of m k = int n)"
proof -
  have "fst (VerifyChainContinuity m (Some k) g) \<longleftrightarrow>
      (\<exists>w n. continuity_walk m k 0 = Some (w, n) \<and> w = g \<and> height_of m w = 0 \<and> height_of m k = int n)"
    by (auto simp: VerifyChainContinuity_def split: option.splits)
  then show ?thesis by (auto simp: continuity_walk_iff)
qed

section \<open>Initialisation and batches\<close>

text \<open>The entry of the first header.\<close>

definition genesis_entry :: "CBlockHeader \<Rightarrow> CBlockIndex" where
  "genesis_entry header = (new_block_index header)\<lparr>nChainWork := GetBlockProof (new_block_index header),
     nTimeMax := index_time (new_block_index header)\<rparr>"

lemma genesis_index_inv: "index_inv [(k, genesis_entry header)]"
  by (rule index_inv_genesis) (simp_all add: genesis_entry_def)

lemma bm_Initialize_fresh:
  assumes "blob_IsNull (hashPrevBlock gen)" "hashPrevBlock gen \<noteq> header_hash cr gen"
  shows "bm_Initialize cr gen BlockManager = Some (True, \<lparr>m_block_index = [(header_hash cr gen, genesis_entry gen)],
     m_active_chain = [Some (header_hash cr gen)], m_genesis_hash = header_hash cr gen, m_initialized = True\<rparr>)"
proof -
  let ?k = "header_hash cr gen" and ?m = "[(header_hash cr gen, genesis_entry gen)]"
  have a: "AddToBlockIndex cr gen BlockManager = Some (Some ?k, BlockManager\<lparr>m_block_index := ?m\<rparr>)"
    using assms by (simp add: AddToBlockIndex_def BlockManager_def Let_def BuildSkip_def genesis_entry_def)
  have t: "SetTip ?m [] ?k = Some (path_to ?m ?k)"
    by (rule SetTip_path [OF genesis_index_inv]) (simp_all add: chain_inv_def)
  have h: "height_of ?m ?k = 0" "parent_of ?m ?k = None"
    by (simp_all add: height_of_def parent_of_def genesis_entry_def)
  have p: "path_to ?m ?k = [Some ?k]" by (simp add: path_to_def h anc_at_def)
  have "fst (VerifyChainContinuity ?m (Some ?k) ?k)"
    unfolding VerifyChainContinuity_iff by (rule exI [of _ 0]) (simp add: h)
  moreover have "m_initialized BlockManager = False" "m_active_chain BlockManager = []" by (simp_all add: BlockManager_def)
  ultimately have "bm_Initialize cr gen BlockManager = Some (True, BlockManager\<lparr>m_block_index := ?m,
      m_active_chain := [Some ?k], m_genesis_hash := ?k, m_initialized := True\<rparr>)"
    using t p by (simp add: bm_Initialize_def a SetActiveTip_def Let_def)
  then show ?thesis by (simp add: BlockManager_def)
qed

fun add_headers :: "crypto \<Rightarrow> CBlockHeader list \<Rightarrow> block_manager \<Rightarrow> block_manager option" where
  "add_headers cr [] bm = Some bm"
| "add_headers cr (h # hs) bm = (case AddToBlockIndex cr h bm of None \<Rightarrow> None | Some (r, bm) \<Rightarrow> add_headers cr hs bm)"

lemma add_headers_chain:
  "index_inv (m_block_index bm) \<Longrightarrow> map_of (m_block_index bm) k = Some f \<Longrightarrow>
   hs \<noteq> [] \<Longrightarrow> hashPrevBlock (hd hs) = k \<Longrightarrow> continuous_from cr (hd hs) (tl hs) \<Longrightarrow>
   distinct (map (header_hash cr) hs) \<Longrightarrow> (\<forall>h \<in> set hs. map_of (m_block_index bm) (header_hash cr h) = None) \<Longrightarrow>
   \<exists>bm' e. add_headers cr hs bm = Some bm' \<and> index_inv (m_block_index bm') \<and>
     map_of (m_block_index bm') (header_hash cr (last hs)) = Some e \<and>
     nHeight e = nHeight f + int (length hs) \<and>
     nChainWork e = nChainWork f + sum_list (map (\<lambda>h. GetBlockProof (new_block_index h)) hs)"
proof (induction hs arbitrary: bm k f)
  case (Cons h hs)
  let ?m = "m_block_index bm" and ?k = "header_hash cr h"
  have n: "map_of ?m ?k = None" and p: "map_of ?m (hashPrevBlock h) = Some f" using Cons.prems by auto
  define e where "e = child_entry ?m h f"
  define bm1 where "bm1 = bm\<lparr>m_block_index := om_update ?k e ?m\<rparr>"
  have a: "AddToBlockIndex cr h bm = Some (Some ?k, bm1)"
    unfolding bm1_def e_def by (rule AddToBlockIndex_child [OF Cons.prems(1) n p])
  have i: "index_inv (m_block_index bm1)" using index_inv_child [OF Cons.prems(1) n p] by (simp add: bm1_def e_def)
  have l: "map_of (m_block_index bm1) ?k = Some e" by (simp add: bm1_def)
  have e1: "nHeight e = nHeight f + 1" "nChainWork e = nChainWork f + GetBlockProof (new_block_index h)"
    by (simp_all add: e_def child_entry_def)
  show ?case
  proof (cases "hs = []")
    case True
    then show ?thesis using a i l e1 by simp
  next
    case False
    then obtain g gs where hs: "hs = g # gs" by (cases hs) auto
    have fresh: "\<forall>h \<in> set hs. map_of (m_block_index bm1) (header_hash cr h) = None"
      using Cons.prems(6,7) by (auto simp: bm1_def intro: rev_image_eqI)
    have "\<exists>bm' e'. add_headers cr hs bm1 = Some bm' \<and> index_inv (m_block_index bm') \<and>
       map_of (m_block_index bm') (header_hash cr (last hs)) = Some e' \<and>
       nHeight e' = nHeight e + int (length hs) \<and>
       nChainWork e' = nChainWork e + sum_list (map (\<lambda>h. GetBlockProof (new_block_index h)) hs)"
      by (rule Cons.IH [OF i l False _ _ _ fresh]) (use Cons.prems(5,6) hs in \<open>auto split: if_splits\<close>)
    then show ?thesis using a e1 False by (auto simp: add.assoc)
  qed
qed simp

section \<open>Properties\<close>

text \<open>
  Work of a batch: adding a continuous batch of new headers to a well-formed index, the first on a
  known block, keeps the index well formed, and the last header's height and cumulative work are those of
  the known block plus the length of the batch and the value \<open>CalculateHeadersWork\<close> gives for it.  So the
  work that header synchronisation adds up before accepting a batch is the work the index ends up with.
\<close>

theorem batch_work_is_chain_work:
  assumes "index_inv (m_block_index bm)" and "map_of (m_block_index bm) k = Some f"
    and "hs \<noteq> []" and "hashPrevBlock (hd hs) = k" and "CheckHeadersAreContinuous cr hs"
    and "distinct (map (header_hash cr) hs)"
    and "\<forall>h \<in> set hs. map_of (m_block_index bm) (header_hash cr h) = None"
  shows "\<exists>bm' e. add_headers cr hs bm = Some bm' \<and> index_inv (m_block_index bm') \<and>
     map_of (m_block_index bm') (header_hash cr (last hs)) = Some e \<and>
     nHeight e = nHeight f + int (length hs) \<and> nChainWork e = nChainWork f + CalculateHeadersWork hs"
proof -
  have "continuous_from cr (hd hs) (tl hs)" using assms(3,5) by (cases hs) (auto simp: CheckHeadersAreContinuous_def)
  from add_headers_chain [OF assms(1-4) this assms(6,7)] show ?thesis
    by (simp add: CalculateHeadersWork_def CalculateHeadersWork_loop_sum)
qed

text \<open>A hash that reads the nonce, for evaluations, and two headers under it.\<close>

definition sample_crypto :: crypto where
  "sample_crypto = toy_crypto\<lparr>header_hash := (\<lambda>h. [ucast (nNonce h)])\<rparr>"

definition sample_header :: "blob \<Rightarrow> u32 \<Rightarrow> u32 \<Rightarrow> CBlockHeader" where
  "sample_header prev t nonce = \<lparr>nVersion = 1, hashPrevBlock = prev, minerAddress = replicate 20 0, nTime = t,
     nBits = 0x207fffff, nNonce = nonce, hashRandomX = 1 # replicate 31 0\<rparr>"

definition sample_manager :: block_manager where
  "sample_manager = \<lparr>m_block_index = sample_index, m_active_chain = path_to sample_index [2],
     m_genesis_hash = [0], m_initialized = True\<rparr>"

theorem batch_work_is_chain_work_witness:
  "\<exists>bm' e. add_headers sample_crypto [sample_header [3] 500 4, sample_header [4] 600 5] sample_manager = Some bm' \<and>
     map_of (m_block_index bm') [5] = Some e \<and> nHeight e = 4 \<and> nChainWork e = 10"
proof -
  let ?hs = "[sample_header [3] 500 4, sample_header [4] 600 5]"
  have k: "map_of (m_block_index sample_manager) [3] = Some (sample_entry (Some [1]) (Some [0]) 2 6 400)"
    by (simp add: sample_manager_def sample_index_def)
  have i: "index_inv (m_block_index sample_manager)" using sample_index_inv by (simp add: sample_manager_def)
  have "\<exists>bm' e. add_headers sample_crypto ?hs sample_manager = Some bm' \<and> index_inv (m_block_index bm') \<and>
     map_of (m_block_index bm') (header_hash sample_crypto (last ?hs)) = Some e \<and>
     nHeight e = nHeight (sample_entry (Some [1]) (Some [0]) 2 6 400) + int (length ?hs) \<and>
     nChainWork e = nChainWork (sample_entry (Some [1]) (Some [0]) 2 6 400) + CalculateHeadersWork ?hs"
    by (rule batch_work_is_chain_work [OF i k])
      (simp_all add: sample_header_def sample_crypto_def CheckHeadersAreContinuous_def sample_manager_def sample_index_def)
  then obtain bm' e where b: "add_headers sample_crypto ?hs sample_manager = Some bm'"
      "map_of (m_block_index bm') (header_hash sample_crypto (last ?hs)) = Some e" "nHeight e = 2 + 2"
      "nChainWork e = 6 + CalculateHeadersWork ?hs"
    by (auto simp: sample_entry_def)
  have "CalculateHeadersWork ?hs = 4" by (simp add: sample_header_def CalculateHeadersWork_def SetCompact_regtest)
  moreover have "header_hash sample_crypto (last ?hs) = [5]" by (simp add: sample_crypto_def sample_header_def)
  ultimately show ?thesis using b by auto
qed

text \<open>
  The continuity check is exact, on any index however corrupt: it accepts a block precisely when
  following at most a million parent pointers from it reaches the expected genesis, which has no parent
  and height zero, in as many steps as the block's recorded height.
\<close>

theorem continuity_check_exact:
  "fst (VerifyChainContinuity m (Some k) g) =
     (\<exists>n \<le> 1000000. ancs (parent_of m) n k = Some g \<and> parent_of m g = None \<and> height_of m g = 0 \<and> height_of m k = int n)"
  by (rule VerifyChainContinuity_iff)

end
