(* ===== verification/Chain_Selector.thy ===== *)
theory Chain_Selector
  imports Block_Manager
begin

text \<open>
  Candidate tips (src/chain/chain_selector.cpp).  The candidates are a \<open>std::set\<close> of block pointers
  ordered by a comparator that reads the blocks; it is a list in that order, and the interface
  \<open>priority_set\<close> states what the chain logic relies on: membership after insert and erase, and that the
  first element precedes every other.
\<close>

section \<open>State and operations\<close>

record chain_selector =
  m_candidates :: "blob list"
  m_best_header :: "blob option"

definition ChainSelector :: chain_selector where
  "ChainSelector = \<lparr>m_candidates = [], m_best_header = None\<rparr>"

definition work_of :: "block_map \<Rightarrow> blob \<Rightarrow> arith_uint256" where
  "work_of m k = (case map_of m k of None \<Rightarrow> 0 | Some e \<Rightarrow> nChainWork e)"

definition CBlockIndexWorkComparator :: "block_map \<Rightarrow> blob \<Rightarrow> blob \<Rightarrow> bool" where
  "CBlockIndexWorkComparator m pa pb =
     (if work_of m pa \<noteq> work_of m pb then work_of m pa > work_of m pb
      else if height_of m pa \<noteq> height_of m pb then height_of m pa > height_of m pb
      else pa < pb)"

fun cand_insert :: "block_map \<Rightarrow> blob \<Rightarrow> blob list \<Rightarrow> blob list" where
  "cand_insert m k [] = [k]"
| "cand_insert m k (x # xs) =
     (if k = x then x # xs
      else if CBlockIndexWorkComparator m k x then k # x # xs
      else x # cand_insert m k xs)"

definition cand_erase :: "blob \<Rightarrow> blob list \<Rightarrow> blob list" where
  "cand_erase k xs = filter (\<lambda>x. x \<noteq> k) xs"

definition valid_tip :: "block_map \<Rightarrow> blob \<Rightarrow> bool" where
  "valid_tip m k =
     (case map_of m k of None \<Rightarrow> False
      | Some e \<Rightarrow> \<not> (nStatus e AND BLOCK_FAILED_MASK \<noteq> 0 \<or> \<not> IsValid e BLOCK_VALID_TREE))"

fun drop_invalid :: "block_map \<Rightarrow> blob list \<Rightarrow> blob list" where
  "drop_invalid m [] = []"
| "drop_invalid m (k # xs) = (if \<not> valid_tip m k then drop_invalid m xs else k # xs)"

definition FindMostWorkChain :: "block_map \<Rightarrow> chain_selector \<Rightarrow> blob option \<times> chain_selector" where
  "FindMostWorkChain m cs =
     (let xs = drop_invalid m (m_candidates cs)
      in (case xs of [] \<Rightarrow> None | k # ys \<Rightarrow> Some k, cs\<lparr>m_candidates := xs\<rparr>))"

definition has_children :: "block_map \<Rightarrow> blob \<Rightarrow> bool" where
  "has_children m k = list_ex (\<lambda>(h, e). pprev e = Some k) m"

text \<open>\<open>None\<close> is one of the two failed assertions.\<close>

definition TryAddBlockIndexCandidate :: "block_map \<Rightarrow> blob option \<Rightarrow> chain_selector \<Rightarrow> chain_selector option" where
  "TryAddBlockIndexCandidate m pindex cs =
     (case pindex of None \<Rightarrow> Some cs
      | Some k \<Rightarrow>
          (case map_of m k of None \<Rightarrow> None
           | Some e \<Rightarrow>
               (if \<not> nHeight e \<ge> 0 then None
                else if \<not> nChainWork e > 0 then None
                else if \<not> IsValid e BLOCK_VALID_TREE then Some cs
                else if has_children m k then Some cs
                else let xs = (case pprev e of None \<Rightarrow> m_candidates cs | Some p \<Rightarrow> cand_erase p (m_candidates cs))
                     in Some (cs\<lparr>m_candidates := cand_insert m k xs\<rparr>))))"

definition prune_keeps :: "block_map \<Rightarrow> CChain \<Rightarrow> blob \<Rightarrow> blob \<Rightarrow> bool" where
  "prune_keeps m vChain pindexTip k \<longleftrightarrow>
     \<not> (if work_of m k < work_of m pindexTip then True
        else if k = pindexTip then True
        else if chain_Contains m vChain (Some k) then True
        else if has_children m k then True
        else \<not> valid_tip m k)"

definition PruneBlockIndexCandidates :: "block_manager \<Rightarrow> chain_selector \<Rightarrow> chain_selector" where
  "PruneBlockIndexCandidates bm cs =
     (case bm_GetTip bm of None \<Rightarrow> cs
      | Some pindexTip \<Rightarrow>
          cs\<lparr>m_candidates := filter (prune_keeps (m_block_index bm) (m_active_chain bm) pindexTip) (m_candidates cs)\<rparr>)"

definition AddCandidateUnchecked :: "block_map \<Rightarrow> blob option \<Rightarrow> chain_selector \<Rightarrow> chain_selector" where
  "AddCandidateUnchecked m pindex cs =
     (case pindex of None \<Rightarrow> cs | Some k \<Rightarrow> cs\<lparr>m_candidates := cand_insert m k (m_candidates cs)\<rparr>)"

definition ClearCandidates :: "chain_selector \<Rightarrow> chain_selector" where
  "ClearCandidates cs = cs\<lparr>m_candidates := []\<rparr>"

definition SetBestHeader :: "blob option \<Rightarrow> chain_selector \<Rightarrow> chain_selector" where
  "SetBestHeader pindex cs = cs\<lparr>m_best_header := pindex\<rparr>"

definition UpdateBestHeader :: "block_map \<Rightarrow> blob option \<Rightarrow> chain_selector \<Rightarrow> chain_selector" where
  "UpdateBestHeader m pindex cs =
     (case pindex of None \<Rightarrow> cs
      | Some k \<Rightarrow>
          (case m_best_header cs of None \<Rightarrow> cs\<lparr>m_best_header := Some k\<rparr>
           | Some b \<Rightarrow> if work_of m k > work_of m b then cs\<lparr>m_best_header := Some k\<rparr> else cs))"

definition RemoveCandidate :: "blob option \<Rightarrow> chain_selector \<Rightarrow> chain_selector" where
  "RemoveCandidate pindex cs =
     (case pindex of None \<Rightarrow> cs | Some k \<Rightarrow> cs\<lparr>m_candidates := cand_erase k (m_candidates cs)\<rparr>)"

section \<open>The comparator\<close>

lemma work_order_irrefl: "\<not> CBlockIndexWorkComparator m a a"
  by (simp add: CBlockIndexWorkComparator_def)

lemma work_order_trans:
  "CBlockIndexWorkComparator m a b \<Longrightarrow> CBlockIndexWorkComparator m b c \<Longrightarrow> CBlockIndexWorkComparator m a c"
  by (auto simp: CBlockIndexWorkComparator_def split: if_splits)

lemma work_order_total: "a = b \<or> CBlockIndexWorkComparator m a b \<or> CBlockIndexWorkComparator m b a"
  by (auto simp: CBlockIndexWorkComparator_def)

lemma work_order_work: "CBlockIndexWorkComparator m a b \<Longrightarrow> work_of m b \<le> work_of m a"
  by (auto simp: CBlockIndexWorkComparator_def split: if_splits)

section \<open>The interface of the candidate set\<close>

locale priority_set =
  fixes before :: "'c \<Rightarrow> 'k \<Rightarrow> 'k \<Rightarrow> bool"
    and wf :: "'c \<Rightarrow> 'q \<Rightarrow> bool"
    and elems :: "'q \<Rightarrow> 'k set"
    and insert_key :: "'c \<Rightarrow> 'k \<Rightarrow> 'q \<Rightarrow> 'q"
    and erase :: "'k \<Rightarrow> 'q \<Rightarrow> 'q"
    and first :: "'q \<Rightarrow> 'k option"
  assumes elems_insert: "elems (insert_key c k q) = insert k (elems q)"
    and elems_erase: "elems (erase k q) = elems q - {k}"
    and wf_insert: "wf c q \<Longrightarrow> wf c (insert_key c k q)"
    and wf_erase: "wf c q \<Longrightarrow> wf c (erase k q)"
    and first_None: "first q = None \<longleftrightarrow> elems q = {}"
    and first_elem: "first q = Some k \<Longrightarrow> k \<in> elems q"
    and first_least: "wf c q \<Longrightarrow> first q = Some k \<Longrightarrow> j \<in> elems q \<Longrightarrow> j = k \<or> before c k j"
    and finite_elems: "finite (elems q)"
begin

lemma erase_smaller: "k \<in> elems q \<Longrightarrow> card (elems (erase k q)) < card (elems q)"
  using card_Diff1_less [OF finite_elems] by (simp only: elems_erase)

lemma first_monotone:
  assumes "\<And>a b. before c a b \<Longrightarrow> (measure_of b :: 'w::linorder) \<le> measure_of a" "wf c q" "first q = Some k" "j \<in> elems q"
  shows "measure_of j \<le> measure_of k"
  using first_least [OF assms(2-4)] assms(1) by auto

lemma insert_first:
  assumes "wf c q" "first (insert_key c k q) = Some j" "j \<noteq> k"
  shows "first q = Some j \<or> (\<exists>i. first q = Some i \<and> before c j i)"
proof -
  have "j \<in> elems q" using first_elem [OF assms(2)] assms(3) by (simp add: elems_insert)
  then obtain i where i: "first q = Some i" using first_None [of q] by (cases "first q") auto
  have "i \<in> elems (insert_key c k q)" using first_elem [OF i] by (simp add: elems_insert)
  from first_least [OF wf_insert [OF assms(1)] assms(2) this] i show ?thesis by auto
qed

end

definition cands_ok :: "block_map \<Rightarrow> blob list \<Rightarrow> bool" where
  "cands_ok m xs \<longleftrightarrow> sorted_wrt (CBlockIndexWorkComparator m) xs"

definition cand_first :: "blob list \<Rightarrow> blob option" where
  "cand_first xs = (case xs of [] \<Rightarrow> None | k # ys \<Rightarrow> Some k)"

lemma set_cand_insert: "set (cand_insert m k xs) = insert k (set xs)"
  by (induction m k xs rule: cand_insert.induct) auto

lemma set_cand_erase: "set (cand_erase k xs) = set xs - {k}"
  by (auto simp: cand_erase_def)

lemma cands_ok_insert: "cands_ok m xs \<Longrightarrow> cands_ok m (cand_insert m k xs)"
proof (induction m k xs rule: cand_insert.induct)
  case (2 m k x xs)
  then show ?case using work_order_total [of k x m] work_order_trans [of m k x]
    by (auto simp: cands_ok_def set_cand_insert)
qed (simp add: cands_ok_def)

lemma cands_ok_filter: "cands_ok m xs \<Longrightarrow> cands_ok m (filter P xs)"
  by (simp add: cands_ok_def sorted_wrt_filter)

lemma cand_first_least:
  "cands_ok m xs \<Longrightarrow> cand_first xs = Some k \<Longrightarrow> j \<in> set xs \<Longrightarrow> j = k \<or> CBlockIndexWorkComparator m k j"
  by (auto simp: cand_first_def cands_ok_def split: list.splits)

interpretation cand: priority_set CBlockIndexWorkComparator cands_ok set cand_insert cand_erase cand_first
  by unfold_locales
    (auto simp: set_cand_insert set_cand_erase cands_ok_insert cands_ok_filter [folded cand_erase_def] cand_first_least,
     auto simp: cand_first_def cand_erase_def cands_ok_filter split: list.splits)

section \<open>Selection\<close>

lemma set_drop_invalid: "set (drop_invalid m xs) \<subseteq> set xs"
  by (induction m xs rule: drop_invalid.induct) auto

lemma drop_invalid_keeps: "k \<in> set xs \<Longrightarrow> valid_tip m k \<Longrightarrow> k \<in> set (drop_invalid m xs)"
  by (induction m xs rule: drop_invalid.induct) auto

lemma drop_invalid_ok: "cands_ok m xs \<Longrightarrow> cands_ok m (drop_invalid m xs)"
  by (induction m xs rule: drop_invalid.induct) (auto simp: cands_ok_def)

lemma drop_invalid_first: "cand_first (drop_invalid m xs) = Some k \<Longrightarrow> valid_tip m k"
  by (induction m xs rule: drop_invalid.induct) (auto simp: cand_first_def split: if_splits)

lemma FindMostWorkChain_first: "FindMostWorkChain m cs = (r, cs') \<Longrightarrow> r = cand_first (m_candidates cs')"
  by (auto simp: FindMostWorkChain_def Let_def cand_first_def)

lemma FindMostWorkChain_frame:
  assumes "FindMostWorkChain m cs = (r, cs')"
  shows "set (m_candidates cs') \<subseteq> set (m_candidates cs)" "m_best_header cs' = m_best_header cs"
    "cands_ok m (m_candidates cs) \<Longrightarrow> cands_ok m (m_candidates cs')"
    "k \<in> set (m_candidates cs) \<Longrightarrow> valid_tip m k \<Longrightarrow> k \<in> set (m_candidates cs')"
  using assms set_drop_invalid [of m "m_candidates cs"] drop_invalid_ok [of m "m_candidates cs"]
    drop_invalid_keeps [of k "m_candidates cs" m] by (auto simp: FindMostWorkChain_def Let_def)

lemma FindMostWorkChain_Some:
  assumes "cands_ok m (m_candidates cs)" "FindMostWorkChain m cs = (Some k, cs')"
  shows "k \<in> set (m_candidates cs')" "valid_tip m k"
    "j \<in> set (m_candidates cs) \<Longrightarrow> valid_tip m j \<Longrightarrow> work_of m j \<le> work_of m k"
proof -
  have f: "cand_first (m_candidates cs') = Some k" using FindMostWorkChain_first [OF assms(2)] by simp
  then show "k \<in> set (m_candidates cs')" by (rule cand.first_elem)
  show "valid_tip m k" using assms(2) drop_invalid_first [of m "m_candidates cs" k] f by (auto simp: FindMostWorkChain_def Let_def)
  assume "j \<in> set (m_candidates cs)" "valid_tip m j"
  then have j: "j \<in> set (m_candidates cs')" using FindMostWorkChain_frame(4) [OF assms(2)] by blast
  show "work_of m j \<le> work_of m k"
    by (rule cand.first_monotone [OF work_order_work FindMostWorkChain_frame(3) [OF assms(2,1)] f j])
qed

lemma FindMostWorkChain_None:
  assumes "FindMostWorkChain m cs = (None, cs')" "j \<in> set (m_candidates cs)"
  shows "\<not> valid_tip m j"
  using FindMostWorkChain_first [OF assms(1)] FindMostWorkChain_frame(4) [OF assms] by (auto simp: cand_first_def split: list.splits)

lemma has_children_iff: "om_invar m \<Longrightarrow> has_children m k \<longleftrightarrow> (\<exists>h e. map_of m h = Some e \<and> pprev e = Some k)"
  by (fastforce simp: has_children_def list_ex_iff om_entries_iff [symmetric])

section \<open>Properties\<close>

text \<open>
  \<^bold>\<open>C38.\<close> Selection: with candidates in comparator order, \<open>FindMostWorkChain\<close> returns a candidate that is
  fully validated and not failed, and no such candidate has more work; it returns null exactly when there
  is none; and it never drops a valid candidate.
\<close>

theorem FindMostWorkChain_is_best:
  assumes "cands_ok m (m_candidates cs)"
  shows "case FindMostWorkChain m cs of
      (None, cs') \<Rightarrow> (\<forall>j \<in> set (m_candidates cs). \<not> valid_tip m j)
    | (Some k, cs') \<Rightarrow> k \<in> set (m_candidates cs) \<and> valid_tip m k \<and> cands_ok m (m_candidates cs') \<and>
        (\<forall>j \<in> set (m_candidates cs). valid_tip m j \<longrightarrow> j \<in> set (m_candidates cs') \<and> work_of m j \<le> work_of m k)"
proof (cases "FindMostWorkChain m cs")
  case (Pair r cs')
  show ?thesis
  proof (cases r)
    case None
    then show ?thesis using FindMostWorkChain_None Pair by auto
  next
    case (Some k)
    with Pair have p: "FindMostWorkChain m cs = (Some k, cs')" by simp
    show ?thesis
      using FindMostWorkChain_Some [OF assms p] FindMostWorkChain_frame [OF p] assms unfolding p by auto
  qed
qed

theorem FindMostWorkChain_is_best_witness:
  "cands_ok sample_index [[2], [3]] \<and>
   (case FindMostWorkChain sample_index \<lparr>m_candidates = [[2], [3]], m_best_header = None\<rparr> of
      (None, cs') \<Rightarrow> False | (Some k, cs') \<Rightarrow> k = [2] \<and> valid_tip sample_index k)"
proof -
  let ?cs = "\<lparr>m_candidates = [[2], [3]], m_best_header = None\<rparr>"
  have ok: "cands_ok sample_index (m_candidates ?cs)"
    by (simp add: cands_ok_def CBlockIndexWorkComparator_def work_of_def height_of_def sample_index_def sample_entry_def)
  have v: "valid_tip sample_index [2]"
    by (simp add: valid_tip_def sample_index_def sample_entry_def IsValid_def BLOCK_FAILED_MASK_def BLOCK_FAILED_VALID_def
        BLOCK_FAILED_CHILD_def VALIDITY_LEVEL_MASK_def BLOCK_VALID_TREE_def)
  have "FindMostWorkChain sample_index ?cs = (Some [2], ?cs)" using v by (simp add: FindMostWorkChain_def Let_def)
  then show ?thesis using FindMostWorkChain_is_best [OF ok] ok by simp
qed

text \<open>
  Pruning: after \<open>PruneBlockIndexCandidates\<close> the candidates are exactly the previous ones that are
  valid leaves outside the active chain with at least the tip's work (ties are kept), in the same order.
\<close>

theorem prune_exact:
  assumes "om_invar (m_block_index bm)" and "bm_GetTip bm = Some t"
  shows "set (m_candidates (PruneBlockIndexCandidates bm cs)) =
      {k \<in> set (m_candidates cs). valid_tip (m_block_index bm) k \<and> work_of (m_block_index bm) t \<le> work_of (m_block_index bm) k \<and>
         k \<noteq> t \<and> \<not> chain_Contains (m_block_index bm) (m_active_chain bm) (Some k) \<and>
         \<not> (\<exists>h e. map_of (m_block_index bm) h = Some e \<and> pprev e = Some k)} \<and>
    (cands_ok (m_block_index bm) (m_candidates cs) \<longrightarrow>
       cands_ok (m_block_index bm) (m_candidates (PruneBlockIndexCandidates bm cs)))"
  using assms(2) by (auto simp: PruneBlockIndexCandidates_def prune_keeps_def has_children_iff [OF assms(1)] cands_ok_filter)

theorem prune_exact_witness:
  "set (m_candidates (PruneBlockIndexCandidates sample_manager \<lparr>m_candidates = [[2], [3], [1]], m_best_header = None\<rparr>)) = {[3]}"
proof -
  have o: "om_invar (m_block_index sample_manager)" by (simp add: sample_manager_def sample_index_def om_invar_def)
  have t: "bm_GetTip sample_manager = Some [2]"
    using path_to_tip [of sample_index "[2]"] by (simp add: bm_GetTip_def sample_manager_def height_of_def sample_index_def sample_entry_def)
  have c: "\<not> chain_Contains sample_index (path_to sample_index [2]) (Some [3])"
    by (simp add: chain_Contains_def height_of_def sample_index_def sample_entry_def path_to_def anc_at_def parent_of_def)
  show ?thesis
    unfolding conjunct1 [OF prune_exact [OF o t]] using c
    by (auto simp: sample_manager_def valid_tip_def work_of_def sample_index_def sample_entry_def IsValid_def BLOCK_FAILED_MASK_def
        BLOCK_FAILED_VALID_def BLOCK_FAILED_CHILD_def VALIDITY_LEVEL_MASK_def BLOCK_VALID_TREE_def)
qed

end
