(* ===== verification/Orphan_Pool.thy ===== *)
theory Orphan_Pool
  imports Chain_Selector
begin

text \<open>
  Orphan headers (src/chain/chainstate_manager.cpp, \<open>TryAddOrphanHeader\<close>, \<open>EvictOrphanHeaders\<close> and the
  bookkeeping of \<open>ProcessOrphanHeaders\<close>): headers whose parent is unknown, kept per peer up to a limit.
  The two maps \<open>m_orphan_headers\<close> and \<open>m_peer_orphan_count\<close> of the chainstate manager are one record here.
\<close>

section \<open>State and operations\<close>

record OrphanHeader =
  oh_header :: CBlockHeader
  oh_nTimeReceived :: int
  oh_peer_id :: int

record orphan_pool =
  m_orphan_headers :: "(blob, OrphanHeader) std_map"
  m_peer_orphan_count :: "(int, int) std_map"

definition empty_pool :: orphan_pool where
  "empty_pool = \<lparr>m_orphan_headers = [], m_peer_orphan_count = []\<rparr>"

definition MAX_ORPHAN_HEADERS :: nat where "MAX_ORPHAN_HEADERS = 1000"
definition MAX_ORPHAN_HEADERS_PER_PEER :: int where "MAX_ORPHAN_HEADERS_PER_PEER = 50"

definition decrement_peer :: "int \<Rightarrow> (int, int) std_map \<Rightarrow> (int, int) std_map" where
  "decrement_peer peer counts =
     (case map_of counts peer of None \<Rightarrow> counts
      | Some n \<Rightarrow> if n - 1 = 0 then om_erase peer counts else om_update peer (n - 1) counts)"

definition drop_orphan :: "blob \<Rightarrow> OrphanHeader \<Rightarrow> orphan_pool \<Rightarrow> orphan_pool" where
  "drop_orphan h orphan pool =
     pool\<lparr>m_orphan_headers := om_erase h (m_orphan_headers pool),
          m_peer_orphan_count := decrement_peer (oh_peer_id orphan) (m_peer_orphan_count pool)\<rparr>"

fun evict_expired :: "int \<Rightarrow> int \<Rightarrow> (blob \<times> OrphanHeader) list \<Rightarrow> nat \<Rightarrow> orphan_pool \<Rightarrow> nat \<times> orphan_pool" where
  "evict_expired now expire [] evicted pool = (evicted, pool)"
| "evict_expired now expire ((h, orphan) # rest) evicted pool =
     (if now - oh_nTimeReceived orphan > expire
      then evict_expired now expire rest (evicted + 1) (drop_orphan h orphan pool)
      else evict_expired now expire rest evicted pool)"

fun find_oldest :: "blob \<times> OrphanHeader \<Rightarrow> (blob \<times> OrphanHeader) list \<Rightarrow> blob \<times> OrphanHeader" where
  "find_oldest oldest [] = oldest"
| "find_oldest oldest (it # rest) =
     (if oh_nTimeReceived (snd it) < oh_nTimeReceived (snd oldest) then find_oldest it rest else find_oldest oldest rest)"

definition EvictOrphanHeaders :: "ChainParams \<Rightarrow> int \<Rightarrow> orphan_pool \<Rightarrow> nat \<times> orphan_pool" where
  "EvictOrphanHeaders params now pool =
     (case m_orphan_headers pool of [] \<Rightarrow> (0, pool)
      | first # rest \<Rightarrow>
          let (evicted, pool) = evict_expired now (nOrphanHeaderExpireTime (consensus params)) (first # rest) 0 pool in
          (case m_orphan_headers pool of
             first # rest \<Rightarrow>
               (if evicted = 0 \<and> length (m_orphan_headers pool) \<ge> MAX_ORPHAN_HEADERS
                then let (h, orphan) = find_oldest first (first # rest) in (evicted + 1, drop_orphan h orphan pool)
                else (evicted, pool))
           | [] \<Rightarrow> (evicted, pool)))"

definition count_of :: "(int, int) std_map \<Rightarrow> int \<Rightarrow> int" where
  "count_of counts peer = (case map_of counts peer of None \<Rightarrow> 0 | Some n \<Rightarrow> n)"

text \<open>The first access with \<open>operator[]\<close> creates a zero entry when the peer has none.\<close>

definition TryAddOrphanHeader :: "crypto \<Rightarrow> ChainParams \<Rightarrow> int \<Rightarrow> CBlockHeader \<Rightarrow> int \<Rightarrow> orphan_pool \<Rightarrow> bool \<times> orphan_pool" where
  "TryAddOrphanHeader cr params now header peer_id pool =
     (let h = header_hash cr header in
      if map_of (m_orphan_headers pool) h \<noteq> None then (True, pool)
      else
        let peer_orphan_count = count_of (m_peer_orphan_count pool) peer_id;
            pool = pool\<lparr>m_peer_orphan_count := om_update peer_id peer_orphan_count (m_peer_orphan_count pool)\<rparr> in
        if peer_orphan_count \<ge> MAX_ORPHAN_HEADERS_PER_PEER then (False, pool)
        else
          let (ok, pool) = (if length (m_orphan_headers pool) \<ge> MAX_ORPHAN_HEADERS
                            then let (evicted, pool) = EvictOrphanHeaders params now pool in (evicted \<noteq> 0, pool)
                            else (True, pool)) in
          if \<not> ok then (False, pool)
          else (True, pool\<lparr>m_orphan_headers := om_update h \<lparr>oh_header = header, oh_nTimeReceived = now, oh_peer_id = peer_id\<rparr> (m_orphan_headers pool),
                  m_peer_orphan_count := om_update peer_id (count_of (m_peer_orphan_count pool) peer_id + 1) (m_peer_orphan_count pool)\<rparr>))"

definition orphans_of :: "blob \<Rightarrow> orphan_pool \<Rightarrow> blob list" where
  "orphans_of parentHash pool = map fst (filter (\<lambda>(h, orphan). hashPrevBlock (oh_header orphan) = parentHash) (m_orphan_headers pool))"

section \<open>Counting entries of a map\<close>

lemma filter_update_new:
  "om_invar m \<Longrightarrow> map_of m k = None \<Longrightarrow> length (filter P (om_update k v m)) = length (filter P m) + (if P (k, v) then 1 else 0)"
  by (induction k v m rule: om_update.induct) (auto simp: om_invar_def split: if_splits)

lemma filter_erase_old:
  "om_invar m \<Longrightarrow> map_of m k = Some v \<Longrightarrow> length (filter P (om_erase k m)) + (if P (k, v) then 1 else 0) = length (filter P m)"
proof (induction m)
  case (Cons x m)
  obtain k' v' where x: "x = (k', v')" by (cases x)
  show ?case
  proof (cases "k' = k")
    case True
    then have "om_erase k (x # m) = m"
      using Cons.prems(1) by (auto simp: x om_erase_def om_invar_def filter_id_conv)
    then show ?thesis using Cons.prems(2) x True by auto
  next
    case False
    then show ?thesis using Cons x by (auto simp: om_erase_def om_invar_def)
  qed
qed simp

section \<open>The invariant\<close>

definition peer_orphans :: "orphan_pool \<Rightarrow> int \<Rightarrow> nat" where
  "peer_orphans pool p = length (filter (\<lambda>(h, orphan). oh_peer_id orphan = p) (m_orphan_headers pool))"

definition pool_ok :: "orphan_pool \<Rightarrow> bool" where
  "pool_ok pool \<longleftrightarrow> om_invar (m_orphan_headers pool) \<and> om_invar (m_peer_orphan_count pool) \<and>
     (\<forall>p. count_of (m_peer_orphan_count pool) p = int (peer_orphans pool p) \<and> peer_orphans pool p \<le> 50)"

definition pool_inv :: "orphan_pool \<Rightarrow> bool" where
  "pool_inv pool \<longleftrightarrow> pool_ok pool \<and> length (m_orphan_headers pool) \<le> MAX_ORPHAN_HEADERS"

lemma count_of_update [simp]: "count_of (om_update p n c) q = (if q = p then n else count_of c q)"
  by (simp add: count_of_def)

lemma count_of_decrement: "count_of c p \<noteq> 0 \<Longrightarrow> count_of (decrement_peer p c) q = count_of c q - (if q = p then 1 else 0)"
  by (auto simp: count_of_def decrement_peer_def split: option.splits)

lemma om_invar_decrement: "om_invar c \<Longrightarrow> om_invar (decrement_peer p c)"
  by (auto simp: decrement_peer_def split: option.splits)

lemma drop_orphan_peer:
  assumes "om_invar (m_orphan_headers pool)" "map_of (m_orphan_headers pool) h = Some orphan"
  shows "peer_orphans (drop_orphan h orphan pool) p + (if oh_peer_id orphan = p then 1 else 0) = peer_orphans pool p"
  using filter_erase_old [OF assms, of "\<lambda>(h, orphan). oh_peer_id orphan = p"] by (simp add: peer_orphans_def drop_orphan_def)

lemma drop_orphan_ok:
  assumes "pool_ok pool" "map_of (m_orphan_headers pool) h = Some orphan"
  shows "pool_ok (drop_orphan h orphan pool)"
proof -
  let ?p = "oh_peer_id orphan"
  have o: "om_invar (m_orphan_headers pool)" using assms(1) by (simp add: pool_ok_def)
  note d = drop_orphan_peer [OF o assms(2)]
  have c: "count_of (m_peer_orphan_count pool) q = int (peer_orphans pool q)" "peer_orphans pool q \<le> 50" for q
    using assms(1) by (auto simp: pool_ok_def)
  have "count_of (m_peer_orphan_count pool) ?p \<noteq> 0" using d [of ?p] c(1) [of ?p] by simp
  note n = count_of_decrement [OF this]
  have "count_of (m_peer_orphan_count (drop_orphan h orphan pool)) q = int (peer_orphans (drop_orphan h orphan pool) q) \<and>
      peer_orphans (drop_orphan h orphan pool) q \<le> 50" for q
    using d [of q] n [of q] c [of q] by (auto simp: drop_orphan_def split: if_splits)
  then show ?thesis using assms(1) by (simp add: pool_ok_def drop_orphan_def om_invar_decrement)
qed

section \<open>Eviction\<close>

lemma evict_expired_spec:
  "pool_ok pool \<Longrightarrow> distinct (map fst xs) \<Longrightarrow> (\<forall>(h, orphan) \<in> set xs. map_of (m_orphan_headers pool) h = Some orphan) \<Longrightarrow>
   \<exists>pool'. evict_expired now ex xs n pool = (n + length (filter (\<lambda>(h, orphan). now - oh_nTimeReceived orphan > ex) xs), pool') \<and>
     pool_ok pool' \<and> m_orphan_headers pool' =
       filter (\<lambda>(h, orphan). h \<notin> fst ` set (filter (\<lambda>(h, orphan). now - oh_nTimeReceived orphan > ex) xs)) (m_orphan_headers pool)"
proof (induction now ex xs n pool rule: evict_expired.induct)
  case (1 now ex n pool)
  then show ?case by (simp add: filter_id_conv [THEN iffD2])
next
  case (2 now ex h orphan rest n pool)
  have l: "map_of (m_orphan_headers pool) h = Some orphan" using 2(5) by auto
  show ?case
  proof (cases "now - oh_nTimeReceived orphan > ex")
    case True
    have "\<forall>(g, o2) \<in> set rest. map_of (m_orphan_headers (drop_orphan h orphan pool)) g = Some o2"
      using 2(4,5) by (force simp: drop_orphan_def)
    from 2(1) [OF True drop_orphan_ok [OF 2(3) l] _ this] 2(4) obtain pool' where p:
      "evict_expired now ex rest (n + 1) (drop_orphan h orphan pool) =
         (n + 1 + length (filter (\<lambda>(h, orphan). now - oh_nTimeReceived orphan > ex) rest), pool')" "pool_ok pool'"
      "m_orphan_headers pool' = filter (\<lambda>(h, orphan). h \<notin> fst ` set (filter (\<lambda>(h, orphan). now - oh_nTimeReceived orphan > ex) rest))
         (m_orphan_headers (drop_orphan h orphan pool))" by auto
    have "m_orphan_headers pool' = filter (\<lambda>(g, o2). g \<notin> fst ` set (filter (\<lambda>(h, orphan). now - oh_nTimeReceived orphan > ex) ((h, orphan) # rest))) (m_orphan_headers pool)"
      using True by (auto simp: p(3) drop_orphan_def om_erase_def intro!: filter_cong)
    then show ?thesis using p(1,2) True by auto
  next
    case False
    then show ?thesis using 2(2) [OF False 2(3)] 2(4,5) by auto
  qed
qed

lemma find_oldest_in: "find_oldest first rest \<in> insert first (set rest)"
  by (induction first rest rule: find_oldest.induct) auto

lemma find_oldest_min:
  "oh_nTimeReceived (snd (find_oldest first rest)) \<le> oh_nTimeReceived (snd first) \<and>
   (\<forall>x \<in> set rest. oh_nTimeReceived (snd (find_oldest first rest)) \<le> oh_nTimeReceived (snd x))"
  by (induction first rest rule: find_oldest.induct) (auto simp: not_less)

lemma evict_all_expired:
  assumes "pool_ok pool"
  shows "\<exists>pool'. evict_expired now ex (m_orphan_headers pool) 0 pool =
     (length (filter (\<lambda>(h, orphan). now - oh_nTimeReceived orphan > ex) (m_orphan_headers pool)), pool') \<and>
     pool_ok pool' \<and> m_orphan_headers pool' = filter (\<lambda>(h, orphan). \<not> now - oh_nTimeReceived orphan > ex) (m_orphan_headers pool)"
proof -
  let ?m = "m_orphan_headers pool"
  let ?E = "filter (\<lambda>(h, orphan). now - oh_nTimeReceived orphan > ex) ?m"
  have o: "om_invar ?m" using assms by (simp add: pool_ok_def)
  have d: "distinct (map fst ?m)" by (rule om_distinct [OF o])
  have l: "\<forall>(h, orphan) \<in> set ?m. map_of ?m h = Some orphan" using om_entries_iff [OF o] by auto
  have "filter (\<lambda>(h, orphan). h \<notin> fst ` set ?E) ?m = filter (\<lambda>(h, orphan). \<not> now - oh_nTimeReceived orphan > ex) ?m"
  proof (rule filter_cong)
    fix x assume x: "x \<in> set ?m"
    obtain h orphan where ho: "x = (h, orphan)" by (cases x)
    have "h \<in> fst ` set ?E \<longleftrightarrow> now - oh_nTimeReceived orphan > ex"
    proof
      assume "h \<in> fst ` set ?E"
      then obtain o2 where o2: "(h, o2) \<in> set ?m" "now - oh_nTimeReceived o2 > ex" by auto
      have "map_of ?m h = Some o2" "map_of ?m h = Some orphan" using l o2(1) x ho by auto
      then show "now - oh_nTimeReceived orphan > ex" using o2(2) by simp
    qed (use x ho in force)
    then show "(case x of (h, orphan) \<Rightarrow> h \<notin> fst ` set ?E) = (case x of (h, orphan) \<Rightarrow> \<not> now - oh_nTimeReceived orphan > ex)"
      by (simp add: ho)
  qed simp
  then show ?thesis using evict_expired_spec [OF assms d l, of now ex 0] by simp
qed

text \<open>What eviction leaves: without the expired orphans; or, when none expired and the pool is full, without an oldest one.\<close>

lemma EvictOrphanHeaders_spec:
  assumes "pool_ok pool"
  shows "\<exists>n pool'. EvictOrphanHeaders params now pool = (n, pool') \<and> pool_ok pool' \<and>
     n + length (m_orphan_headers pool') = length (m_orphan_headers pool) \<and>
     (length (m_orphan_headers pool) \<ge> MAX_ORPHAN_HEADERS \<longrightarrow> 0 < n) \<and>
     (n = 0 \<longrightarrow> pool' = pool) \<and> set (m_orphan_headers pool') \<subseteq> set (m_orphan_headers pool)"
proof (cases "m_orphan_headers pool")
  case Nil
  then show ?thesis using assms by (auto simp: EvictOrphanHeaders_def MAX_ORPHAN_HEADERS_def)
next
  case (Cons x xs)
  let ?ex = "nOrphanHeaderExpireTime (consensus params)"
  let ?n = "length (filter (\<lambda>(h, orphan). now - oh_nTimeReceived orphan > ?ex) (m_orphan_headers pool))"
  obtain p1 where p1: "evict_expired now ?ex (m_orphan_headers pool) 0 pool = (?n, p1)" "pool_ok p1"
      "m_orphan_headers p1 = filter (\<lambda>(h, orphan). \<not> now - oh_nTimeReceived orphan > ?ex) (m_orphan_headers pool)"
    using evict_all_expired [OF assms] by blast
  have len: "?n + length (m_orphan_headers p1) = length (m_orphan_headers pool)"
  proof -
    have "(\<lambda>(h, orphan). \<not> now - oh_nTimeReceived orphan > ?ex) = (\<lambda>x :: blob \<times> OrphanHeader. \<not> (case x of (h, orphan) \<Rightarrow> now - oh_nTimeReceived orphan > ?ex))"
      by (simp add: fun_eq_iff)
    then show ?thesis unfolding p1(3) by (simp only: sum_length_filter_compl)
  qed
  have u: "EvictOrphanHeaders params now pool =
      (let (evicted, pool) = evict_expired now ?ex (m_orphan_headers pool) 0 pool in
          (case m_orphan_headers pool of
             first # rest \<Rightarrow>
               (if evicted = 0 \<and> length (m_orphan_headers pool) \<ge> MAX_ORPHAN_HEADERS
                then let (h, orphan) = find_oldest first (first # rest) in (evicted + 1, drop_orphan h orphan pool)
                else (evicted, pool))
           | [] \<Rightarrow> (evicted, pool)))"
    by (simp add: EvictOrphanHeaders_def Cons)
  show ?thesis
  proof (cases "?n = 0 \<and> length (m_orphan_headers p1) \<ge> MAX_ORPHAN_HEADERS")
    case True
    then obtain y ys where y: "m_orphan_headers p1 = y # ys" by (cases "m_orphan_headers p1") (auto simp: MAX_ORPHAN_HEADERS_def)
    obtain h orphan where ho: "find_oldest y (y # ys) = (h, orphan)" by (cases "find_oldest y (y # ys)")
    have "(h, orphan) \<in> set (m_orphan_headers p1)" using find_oldest_in [of y "y # ys"] ho y by auto
    then have l: "map_of (m_orphan_headers p1) h = Some orphan" using p1(2) by (simp add: pool_ok_def om_entries_iff)
    have o: "om_invar (m_orphan_headers p1)" using p1(2) by (simp add: pool_ok_def)
    have "EvictOrphanHeaders params now pool = (1, drop_orphan h orphan p1)"
      using True y ho unfolding u p1(1) by simp
    moreover have "1 + length (m_orphan_headers (drop_orphan h orphan p1)) = length (m_orphan_headers pool)"
      using filter_erase_old [OF o l, of "\<lambda>x. True"] len True by (simp add: drop_orphan_def)
    moreover have "set (m_orphan_headers (drop_orphan h orphan p1)) \<subseteq> set (m_orphan_headers pool)"
      using p1(3) by (auto simp: drop_orphan_def om_erase_def)
    ultimately show ?thesis using drop_orphan_ok [OF p1(2) l] by auto
  next
    case False
    then have e: "EvictOrphanHeaders params now pool = (?n, p1)"
      unfolding u p1(1) by (auto split: list.split)
    have same: "p1 = pool" if "?n = 0"
    proof -
      have "evict_expired now ?ex ys k q = (k, q)" if "filter (\<lambda>(h, orphan). now - oh_nTimeReceived orphan > ?ex) ys = []" for ys k q
        using that by (induction ys) (auto split: if_splits)
      then show ?thesis using p1(1) \<open>?n = 0\<close> by simp
    qed
    have "length (m_orphan_headers pool) \<ge> MAX_ORPHAN_HEADERS \<longrightarrow> 0 < ?n" using False len by auto
    then show ?thesis using e p1(2) len same by (auto simp: p1(3))
  qed
qed

section \<open>Insertion\<close>

lemma pool_ok_touch:
  assumes "pool_ok pool"
  shows "pool_ok (pool\<lparr>m_peer_orphan_count := om_update p (count_of (m_peer_orphan_count pool) p) (m_peer_orphan_count pool)\<rparr>)"
  using assms by (auto simp: pool_ok_def peer_orphans_def)

lemma pool_ok_add:
  assumes "pool_ok pool" "map_of (m_orphan_headers pool) h = None" "peer_orphans pool (oh_peer_id orphan) < 50"
  shows "pool_ok (pool\<lparr>m_orphan_headers := om_update h orphan (m_orphan_headers pool),
     m_peer_orphan_count := om_update (oh_peer_id orphan) (count_of (m_peer_orphan_count pool) (oh_peer_id orphan) + 1) (m_peer_orphan_count pool)\<rparr>)"
proof -
  have o: "om_invar (m_orphan_headers pool)" using assms(1) by (simp add: pool_ok_def)
  note n = filter_update_new [OF o assms(2), of "\<lambda>(h, orphan). oh_peer_id orphan = p" orphan for p]
  show ?thesis using assms(1,3) n by (auto simp: pool_ok_def peer_orphans_def)
qed

lemma TryAddOrphanHeader_spec:
  assumes "pool_inv pool"
  shows "\<exists>ok pool'. TryAddOrphanHeader cr params now header peer pool = (ok, pool') \<and> pool_inv pool' \<and>
     (ok \<longleftrightarrow> map_of (m_orphan_headers pool) (header_hash cr header) \<noteq> None \<or> peer_orphans pool peer < 50) \<and>
     (ok \<longrightarrow> map_of (m_orphan_headers pool') (header_hash cr header) \<noteq> None)"
proof (cases "map_of (m_orphan_headers pool) (header_hash cr header) \<noteq> None")
  case True
  then show ?thesis using assms by (auto simp: TryAddOrphanHeader_def Let_def)
next
  case False
  let ?h = "header_hash cr header" and ?n = "count_of (m_peer_orphan_count pool) peer"
  let ?orphan = "\<lparr>oh_header = header, oh_nTimeReceived = now, oh_peer_id = peer\<rparr>"
  define p0 where "p0 = pool\<lparr>m_peer_orphan_count := om_update peer ?n (m_peer_orphan_count pool)\<rparr>"
  have ok: "pool_ok pool" and len: "length (m_orphan_headers pool) \<le> MAX_ORPHAN_HEADERS" using assms by (auto simp: pool_inv_def)
  have ok0: "pool_ok p0" unfolding p0_def by (rule pool_ok_touch [OF ok])
  have h0: "m_orphan_headers p0 = m_orphan_headers pool" by (simp add: p0_def)
  have n: "?n = int (peer_orphans pool peer)" using ok by (simp add: pool_ok_def)
  show ?thesis
  proof (cases "peer_orphans pool peer < 50")
    case few: False
    then have "TryAddOrphanHeader cr params now header peer pool = (False, p0)"
      using False n by (simp add: TryAddOrphanHeader_def Let_def p0_def MAX_ORPHAN_HEADERS_PER_PEER_def)
    then show ?thesis using ok0 len h0 False few by (auto simp: pool_inv_def)
  next
    case few: True
    obtain k p1 where e: "EvictOrphanHeaders params now p0 = (k, p1)" "pool_ok p1"
        "k + length (m_orphan_headers p1) = length (m_orphan_headers p0)"
        "length (m_orphan_headers p0) \<ge> MAX_ORPHAN_HEADERS \<longrightarrow> 0 < k" "set (m_orphan_headers p1) \<subseteq> set (m_orphan_headers p0)"
      using EvictOrphanHeaders_spec [OF ok0] by blast
    define p2 where "p2 = (if length (m_orphan_headers p0) \<ge> MAX_ORPHAN_HEADERS then p1 else p0)"
    define p3 where "p3 = p2\<lparr>m_orphan_headers := om_update ?h ?orphan (m_orphan_headers p2),
        m_peer_orphan_count := om_update peer (count_of (m_peer_orphan_count p2) peer + 1) (m_peer_orphan_count p2)\<rparr>"
    have added: "TryAddOrphanHeader cr params now header peer pool = (True, p3)"
      using False n few e(1,4) unfolding p3_def p2_def p0_def
      by (simp add: TryAddOrphanHeader_def Let_def MAX_ORPHAN_HEADERS_PER_PEER_def)
    have ok2: "pool_ok p2" using ok0 e(2) by (simp add: p2_def)
    have sub: "set (m_orphan_headers p2) \<subseteq> set (m_orphan_headers pool)" using e(5) h0 by (auto simp: p2_def)
    have new: "map_of (m_orphan_headers p2) ?h = None"
    proof -
      have "?h \<notin> fst ` set (m_orphan_headers pool)" using False by (simp add: map_of_eq_None_iff)
      then have "?h \<notin> fst ` set (m_orphan_headers p2)" using sub by blast
      then show ?thesis by (simp add: map_of_eq_None_iff)
    qed
    have o2: "om_invar (m_orphan_headers p2)" and o: "om_invar (m_orphan_headers pool)" using ok2 ok by (auto simp: pool_ok_def)
    have "peer_orphans p2 peer \<le> peer_orphans pool peer"
    proof -
      have "distinct (m_orphan_headers p2)" "distinct (m_orphan_headers pool)"
        using om_distinct [OF o2] om_distinct [OF o] by (auto simp: distinct_map)
      then have "peer_orphans p2 peer = card {x \<in> set (m_orphan_headers p2). oh_peer_id (snd x) = peer}"
        "peer_orphans pool peer = card {x \<in> set (m_orphan_headers pool). oh_peer_id (snd x) = peer}"
        by (simp_all add: peer_orphans_def distinct_card [symmetric] case_prod_beta)
      then show ?thesis using sub by (auto intro: card_mono)
    qed
    then have "peer_orphans p2 (oh_peer_id ?orphan) < 50" using few by simp
    from pool_ok_add [OF ok2 new this] have ok3: "pool_ok p3" by (simp add: p3_def)
    have "length (m_orphan_headers p2) < MAX_ORPHAN_HEADERS" using e(3,4) h0 len by (auto simp: p2_def)
    then have "length (m_orphan_headers p3) \<le> MAX_ORPHAN_HEADERS"
      using filter_update_new [OF o2 new, of "\<lambda>x. True"] by (simp add: p3_def)
    then show ?thesis using added ok3 few by (auto simp: pool_inv_def p3_def)
  qed
qed

section \<open>The pool as a state machine\<close>

text \<open>One step: a header offered by a peer, an eviction, or an orphan taken out when its parent arrives.\<close>

inductive orphan_step :: "crypto \<Rightarrow> ChainParams \<Rightarrow> orphan_pool \<Rightarrow> orphan_pool \<Rightarrow> bool" for cr params where
  offer: "TryAddOrphanHeader cr params now header peer pool = (ok, pool') \<Longrightarrow> orphan_step cr params pool pool'"
| evict: "EvictOrphanHeaders params now pool = (n, pool') \<Longrightarrow> orphan_step cr params pool pool'"
| adopt: "map_of (m_orphan_headers pool) h = Some orphan \<Longrightarrow> orphan_step cr params pool (drop_orphan h orphan pool)"

inductive orphan_reachable :: "crypto \<Rightarrow> ChainParams \<Rightarrow> orphan_pool \<Rightarrow> bool" for cr params where
  start: "orphan_reachable cr params empty_pool"
| step: "orphan_reachable cr params pool \<Longrightarrow> orphan_step cr params pool pool' \<Longrightarrow> orphan_reachable cr params pool'"

lemma pool_inv_empty: "pool_inv empty_pool"
  by (simp add: pool_inv_def pool_ok_def empty_pool_def om_invar_def count_of_def peer_orphans_def MAX_ORPHAN_HEADERS_def)

lemma drop_orphan_inv:
  "pool_inv pool \<Longrightarrow> map_of (m_orphan_headers pool) h = Some orphan \<Longrightarrow> pool_inv (drop_orphan h orphan pool)"
  using drop_orphan_ok [of pool h orphan]
  by (auto simp: pool_inv_def drop_orphan_def om_erase_def intro: order_trans [OF length_filter_le])

lemma orphan_step_inv: "orphan_step cr params pool pool' \<Longrightarrow> pool_inv pool \<Longrightarrow> pool_inv pool'"
proof (induction rule: orphan_step.induct)
  case (offer now header peer pool ok pool')
  then show ?case using TryAddOrphanHeader_spec [OF offer(2), of cr params now header peer] by auto
next
  case (evict now pool n pool')
  then show ?case using EvictOrphanHeaders_spec [of pool params now] by (auto simp: pool_inv_def)
next
  case (adopt pool h orphan)
  then show ?case by (intro drop_orphan_inv)
qed

section \<open>Properties\<close>

text \<open>
  In every reachable pool, whatever peers send and whenever eviction runs, there are at most 1000
  orphans, at most 50 of any peer, and the counter of each peer equals the number of its orphans.
\<close>

theorem orphan_pool_bounded:
  assumes "orphan_reachable cr params pool"
  shows "length (m_orphan_headers pool) \<le> 1000 \<and> peer_orphans pool p \<le> 50 \<and>
     count_of (m_peer_orphan_count pool) p = int (peer_orphans pool p)"
proof -
  have "pool_inv pool" using assms by (induction rule: orphan_reachable.induct) (auto intro: pool_inv_empty orphan_step_inv)
  then show ?thesis by (simp add: pool_inv_def pool_ok_def MAX_ORPHAN_HEADERS_def)
qed

theorem orphan_pool_bounded_witness:
  "\<exists>pool. orphan_reachable sample_crypto sample_params pool \<and> m_orphan_headers pool \<noteq> [] \<and> peer_orphans pool 7 \<le> 50"
proof -
  obtain ok pool where p: "TryAddOrphanHeader sample_crypto sample_params 0 (sample_header [9] 1 8) 7 empty_pool = (ok, pool)"
    by (cases "TryAddOrphanHeader sample_crypto sample_params 0 (sample_header [9] 1 8) 7 empty_pool")
  then have r: "orphan_reachable sample_crypto sample_params pool"
    by (intro orphan_reachable.step [OF orphan_reachable.start] orphan_step.offer)
  have "m_orphan_headers pool \<noteq> []"
    using p by (auto simp: TryAddOrphanHeader_def Let_def empty_pool_def count_of_def MAX_ORPHAN_HEADERS_PER_PEER_def MAX_ORPHAN_HEADERS_def)
  then show ?thesis using r orphan_pool_bounded [OF r, of 7] by blast
qed

text \<open>
  No starvation: a header offered by a peer below its own limit always ends up in the pool, however
  full the pool is of other peers' orphans; it is refused exactly when it is not known and the peer holds
  50 already.
\<close>

theorem orphan_admission:
  assumes "pool_inv pool" and "TryAddOrphanHeader cr params now header peer pool = (ok, pool')"
  shows "(ok \<longleftrightarrow> map_of (m_orphan_headers pool) (header_hash cr header) \<noteq> None \<or> peer_orphans pool peer < 50) \<and>
     (ok \<longrightarrow> map_of (m_orphan_headers pool') (header_hash cr header) \<noteq> None) \<and> pool_inv pool'"
  using TryAddOrphanHeader_spec [OF assms(1), of cr params now header peer] assms(2) by auto

theorem orphan_admission_witness:
  "\<exists>pool'. TryAddOrphanHeader sample_crypto sample_params 0 (sample_header [9] 1 8) 7 empty_pool = (True, pool') \<and> pool_inv pool'"
proof -
  obtain ok pool' where p: "TryAddOrphanHeader sample_crypto sample_params 0 (sample_header [9] 1 8) 7 empty_pool = (ok, pool')"
    by (cases "TryAddOrphanHeader sample_crypto sample_params 0 (sample_header [9] 1 8) 7 empty_pool")
  have "peer_orphans empty_pool 7 < 50" by (simp add: peer_orphans_def empty_pool_def)
  with orphan_admission [OF pool_inv_empty p] have "ok" "pool_inv pool'" by auto
  then show ?thesis using p by auto
qed

end
