(* ===== verification/Chainstate.thy ===== *)
theory Chainstate
  imports Orphan_Pool
begin

text \<open>
  The chainstate manager (src/chain/chainstate_manager.cpp): its state, connecting and disconnecting
  blocks, and the activation of the best chain.  The field \<open>notified\<close> records the notifications handed to
  subscribers, in order.  \<open>None\<close> around a result is a failed assertion or a walk that does not end;
  the properties show that neither happens in a well-formed state.
\<close>

section \<open>State\<close>

datatype notification =
    BlockConnected CBlockHeader blob int
  | BlockDisconnected CBlockHeader blob int
  | ChainTip blob int
  | SuspiciousReorg int int
  | NetworkExpired int int

record chainstate =
  cs_block_manager :: block_manager
  cs_chain_selector :: chain_selector
  cs_suspicious_reorg_depth :: int
  cs_orphans :: orphan_pool
  m_failed_blocks :: "blob list"
  m_cached_finished_ibd :: bool
  notified :: "notification list"

definition ChainstateManager :: "ChainParams \<Rightarrow> chainstate" where
  "ChainstateManager params = \<lparr>cs_block_manager = BlockManager, cs_chain_selector = ChainSelector,
     cs_suspicious_reorg_depth = nSuspiciousReorgDepth (consensus params), cs_orphans = empty_pool,
     m_failed_blocks = [], m_cached_finished_ibd = False, notified = []\<rparr>"

abbreviation the_index :: "chainstate \<Rightarrow> block_map" where
  "the_index st \<equiv> m_block_index (cs_block_manager st)"

abbreviation the_chain :: "chainstate \<Rightarrow> CChain" where
  "the_chain st \<equiv> m_active_chain (cs_block_manager st)"

definition GetTip :: "chainstate \<Rightarrow> blob option" where
  "GetTip st = bm_GetTip (cs_block_manager st)"

definition cs_GetLocator :: "chainstate \<Rightarrow> blob option \<Rightarrow> blob list option" where
  "cs_GetLocator st pindex =
     (case pindex of Some k \<Rightarrow> LocatorEntries (the_index st) (Some k)
      | None \<Rightarrow> chain_GetLocator (the_index st) (the_chain st))"

definition IsOnActiveChain :: "chainstate \<Rightarrow> blob option \<Rightarrow> bool" where
  "IsOnActiveChain st pindex \<longleftrightarrow> pindex \<noteq> None \<and> chain_Contains (the_index st) (the_chain st) pindex"

definition GetBlockAtHeight :: "chainstate \<Rightarrow> int \<Rightarrow> blob option" where
  "GetBlockAtHeight st height =
     (if height < 0 \<or> height > chain_Height (the_chain st) then None else chain_at (the_chain st) height)"

definition GetBlockCount :: "chainstate \<Rightarrow> nat" where
  "GetBlockCount st = length (the_index st)"

definition GetChainHeight :: "chainstate \<Rightarrow> int" where
  "GetChainHeight st = chain_Height (the_chain st)"

section \<open>Connecting and disconnecting\<close>

definition ConnectTip :: "blob option \<Rightarrow> notification list \<Rightarrow> chainstate \<Rightarrow> (bool \<times> notification list \<times> chainstate) option" where
  "ConnectTip pindexNew events st =
     (case pindexNew of None \<Rightarrow> Some (False, events, st)
      | Some k \<Rightarrow>
          (case SetActiveTip (cs_block_manager st) k of None \<Rightarrow> None
           | Some bm \<Rightarrow>
               (case map_of (m_block_index bm) k of None \<Rightarrow> None
                | Some e \<Rightarrow> Some (True, events @ [BlockConnected (GetBlockHeader e) k (nHeight e)], st\<lparr>cs_block_manager := bm\<rparr>))))"

definition DisconnectTip :: "notification list \<Rightarrow> chainstate \<Rightarrow> (bool \<times> notification list \<times> chainstate) option" where
  "DisconnectTip events st =
     (case GetTip st of None \<Rightarrow> Some (False, events, st)
      | Some k \<Rightarrow>
          (case map_of (the_index st) k of None \<Rightarrow> None
           | Some e \<Rightarrow>
               (case pprev e of None \<Rightarrow> Some (False, events, st)
                | Some p \<Rightarrow>
                    let events = events @ [BlockDisconnected (GetBlockHeader e) k (nHeight e)] in
                    (case SetActiveTip (cs_block_manager st) p of None \<Rightarrow> None
                     | Some bm \<Rightarrow> Some (True, events, st\<lparr>cs_block_manager := bm\<rparr>)))))"

section \<open>One activation attempt\<close>

datatype ActivateResult = Activate_OK | CONSENSUS_INVALID | POLICY_REFUSED | SYSTEM_ERROR

partial_function (option) disconnect_to :: "blob option \<Rightarrow> blob option \<Rightarrow> blob list \<Rightarrow> notification list \<Rightarrow> chainstate \<Rightarrow>
    (bool \<times> blob list \<times> notification list \<times> chainstate) option" where
  "disconnect_to pindexWalk pindexFork disconnected events st =
     (case pindexWalk of None \<Rightarrow> Some (True, disconnected, events, st)
      | Some k \<Rightarrow>
          if pindexWalk = pindexFork then Some (True, disconnected, events, st)
          else case DisconnectTip events st of None \<Rightarrow> None
            | Some (ok, events, st) \<Rightarrow>
                if \<not> ok then Some (False, disconnected @ [k], events, st)
                else disconnect_to (GetTip st) pindexFork (disconnected @ [k]) events st)"

partial_function (option) connect_list :: "block_map \<Rightarrow> blob option \<Rightarrow> blob option \<Rightarrow> blob list \<Rightarrow> blob list option" where
  "connect_list m pindexWalk pindexFork connect_blocks =
     (case pindexWalk of None \<Rightarrow> Some connect_blocks
      | Some k \<Rightarrow> if pindexWalk = pindexFork then Some connect_blocks
          else connect_list m (parent_of m k) pindexFork (connect_blocks @ [k]))"

partial_function (option) rollback_to :: "blob option \<Rightarrow> notification list \<Rightarrow> chainstate \<Rightarrow> (bool \<times> notification list \<times> chainstate) option" where
  "rollback_to pindexFork events st =
     (if GetTip st = pindexFork then Some (True, events, st)
      else case DisconnectTip events st of None \<Rightarrow> None
        | Some (ok, events, st) \<Rightarrow> if \<not> ok then Some (False, events, st) else rollback_to pindexFork events st)"

text \<open>Connect the listed blocks in order; the flag is false when one fails.\<close>

fun connect_all :: "blob list \<Rightarrow> notification list \<Rightarrow> chainstate \<Rightarrow> (bool \<times> notification list \<times> chainstate) option" where
  "connect_all [] events st = Some (True, events, st)"
| "connect_all (k # ks) events st =
     (case ConnectTip (Some k) events st of None \<Rightarrow> None
      | Some (ok, events, st) \<Rightarrow> if \<not> ok then Some (False, events, st) else connect_all ks events st)"

definition ActivateBestChainStep :: "blob option \<Rightarrow> notification list \<Rightarrow> chainstate \<Rightarrow>
    (ActivateResult \<times> notification list \<times> chainstate) option" where
  "ActivateBestChainStep pindexMostWork events st =
     (case pindexMostWork of None \<Rightarrow> Some (Activate_OK, events, st)
      | Some k \<Rightarrow>
          let m = the_index st; pindexOldTip = GetTip st in
          if pindexOldTip = Some k then Some (Activate_OK, events, st)
          else if (case pindexOldTip of None \<Rightarrow> False | Some t \<Rightarrow> work_of m k \<le> work_of m t) then Some (Activate_OK, events, st)
          else case LastCommonAncestor m pindexOldTip (Some k) of None \<Rightarrow> None
          | Some pindexFork \<Rightarrow>
              if pindexFork = None \<and> pindexOldTip \<noteq> None then Some (CONSENSUS_INVALID, events, st)
              else
                let reorg_depth = (case (pindexOldTip, pindexFork) of (Some t, Some f) \<Rightarrow> height_of m t - height_of m f | _ \<Rightarrow> 0) in
                if pindexOldTip \<noteq> None \<and> pindexFork \<noteq> None \<and> cs_suspicious_reorg_depth st > 0 \<and> reorg_depth \<ge> cs_suspicious_reorg_depth st
                then Some (POLICY_REFUSED, events,
                       st\<lparr>notified := notified st @ [SuspiciousReorg reorg_depth (cs_suspicious_reorg_depth st - 1)]\<rparr>)
                else case (if pindexOldTip \<noteq> None \<and> pindexFork \<noteq> None then disconnect_to pindexOldTip pindexFork [] [] st
                           else Some (True, [], [], st)) of None \<Rightarrow> None
                | Some (ok, disconnected_blocks, local_events, st) \<Rightarrow>
                    if \<not> ok then Some (SYSTEM_ERROR, events, st)
                    else case connect_list m (Some k) pindexFork [] of None \<Rightarrow> None
                    | Some connect_blocks \<Rightarrow>
                        (case connect_all (rev connect_blocks) local_events st of None \<Rightarrow> None
                         | Some (True, local_events, st) \<Rightarrow>
                             let local_events = local_events @ [ChainTip k (height_of m k)];
                                 st = st\<lparr>cs_chain_selector := PruneBlockIndexCandidates (cs_block_manager st) (cs_chain_selector st)\<rparr>
                             in Some (Activate_OK, events @ local_events, st)
                         | Some (False, local_events, st) \<Rightarrow>
                             (case rollback_to pindexFork local_events st of None \<Rightarrow> None
                              | Some (False, local_events, st) \<Rightarrow> Some (SYSTEM_ERROR, events, st)
                              | Some (True, local_events, st) \<Rightarrow>
                                  (case connect_all (rev disconnected_blocks) local_events st of None \<Rightarrow> None
                                   | Some (False, local_events, st) \<Rightarrow> Some (SYSTEM_ERROR, events, st)
                                   | Some (True, local_events, st) \<Rightarrow>
                                       if GetTip st = None then Some (SYSTEM_ERROR, events, st)
                                       else Some (CONSENSUS_INVALID, events, st)))))"

section \<open>The activation loop\<close>

definition set_status :: "blob \<Rightarrow> (u32 \<Rightarrow> u32) \<Rightarrow> chainstate \<Rightarrow> chainstate" where
  "set_status k f st =
     (case map_of (the_index st) k of None \<Rightarrow> st
      | Some e \<Rightarrow> st\<lparr>cs_block_manager := (cs_block_manager st)\<lparr>m_block_index := om_update k (e\<lparr>nStatus := f (nStatus e)\<rparr>) (the_index st)\<rparr>\<rparr>)"

definition add_failed :: "blob \<Rightarrow> chainstate \<Rightarrow> chainstate" where
  "add_failed k st = (if k \<in> set (m_failed_blocks st) then st else st\<lparr>m_failed_blocks := m_failed_blocks st @ [k]\<rparr>)"

partial_function (option) activate_loop :: "blob option \<Rightarrow> notification list \<Rightarrow> chainstate \<Rightarrow> (bool \<times> notification list \<times> chainstate) option" where
  "activate_loop pindexMostWork events st =
     (let (most, st) = (case pindexMostWork of Some k \<Rightarrow> (Some k, st)
            | None \<Rightarrow> (let (r, cs) = FindMostWorkChain (the_index st) (cs_chain_selector st) in (r, st\<lparr>cs_chain_selector := cs\<rparr>))) in
      case most of None \<Rightarrow> Some (True, events, st)
      | Some k \<Rightarrow>
          if GetTip st = Some k then Some (True, events, st)
          else case ActivateBestChainStep (Some k) events st of None \<Rightarrow> None
          | Some (Activate_OK, events, st) \<Rightarrow> Some (True, events, st)
          | Some (POLICY_REFUSED, events, st) \<Rightarrow>
              activate_loop None events (st\<lparr>cs_chain_selector := RemoveCandidate (Some k) (cs_chain_selector st)\<rparr>)
          | Some (CONSENSUS_INVALID, events, st) \<Rightarrow>
              let st = add_failed k (set_status k (\<lambda>s. s OR BLOCK_FAILED_VALID) st)
              in activate_loop None events (st\<lparr>cs_chain_selector := RemoveCandidate (Some k) (cs_chain_selector st)\<rparr>)
          | Some (SYSTEM_ERROR, events, st) \<Rightarrow> Some (False, events, st))"

definition ActivateBestChain :: "blob option \<Rightarrow> chainstate \<Rightarrow> (bool \<times> chainstate) option" where
  "ActivateBestChain pindexMostWork st =
     (case activate_loop pindexMostWork [] st of None \<Rightarrow> None
      | Some (success, pending_events, st) \<Rightarrow> Some (success, st\<lparr>notified := notified st @ pending_events\<rparr>))"

section \<open>Branches\<close>

text \<open>The \<open>n\<close> blocks from \<open>k\<close> downwards.\<close>

primrec branch :: "('k \<Rightarrow> 'k option) \<Rightarrow> nat \<Rightarrow> 'k \<Rightarrow> 'k list" where
  "branch par 0 k = []"
| "branch par (Suc n) k = k # (case par k of None \<Rightarrow> [] | Some p \<Rightarrow> branch par n p)"

lemma branch_Suc: "par k = Some p \<Longrightarrow> branch par (Suc n) k = k # branch par n p"
  by simp

lemma path_to_child:
  assumes "index_inv m" "map_of m k = Some e" "pprev e = Some p"
  shows "path_to m k = path_to m p @ [Some k]"
proof -
  obtain f where f: "map_of m p = Some f" "nHeight e = nHeight f + 1" by (rule index_parent [OF assms])
  have par: "parent_of m k = Some p" using assms by (simp add: parent_of_Some)
  have h: "height_of m k = height_of m p + 1" "0 \<le> height_of m p"
    using assms(2) f index_height [OF assms(1) f(1)] by (simp_all add: height_of_Some)
  have km: "map_of m k \<noteq> None" and d: "descends (parent_of m) k p" using assms(2) descends_parent [of "parent_of m", OF par] by auto
  have below: "anc_at (parent_of m) (height_of m) k (int i) = anc_at (parent_of m) (height_of m) p (int i)"
    if "i < nat (height_of m p) + 1" for i
    by (rule tree.anc_at_via [OF assms(1) km d]) (use that h in simp)
  have "map (\<lambda>i. anc_at (parent_of m) (height_of m) k (int i)) [0..<nat (height_of m p) + 1] =
      map (\<lambda>i. anc_at (parent_of m) (height_of m) p (int i)) [0..<nat (height_of m p) + 1]"
    by (rule map_cong [OF refl], rule below) auto
  moreover have "anc_at (parent_of m) (height_of m) k (height_of m p + 1) = Some k" using h by (simp add: anc_at_def)
  moreover have "nat (height_of m k) + 1 = Suc (nat (height_of m p) + 1)" using h by simp
  ultimately show ?thesis using h unfolding path_to_def by (simp add: add.commute [of 1])
qed

section \<open>The invariant of the chainstate\<close>

definition state_inv :: "chainstate \<Rightarrow> bool" where
  "state_inv st \<longleftrightarrow> index_inv (the_index st) \<and> chain_inv (the_index st) (the_chain st) \<and> the_chain st \<noteq> [] \<and>
     cands_ok (the_index st) (m_candidates (cs_chain_selector st)) \<and>
     list_all (\<lambda>k. map_of (the_index st) k \<noteq> None) (m_candidates (cs_chain_selector st))"

lemma state_tip:
  assumes "state_inv st"
  obtains t where "GetTip st = Some t" "map_of (the_index st) t \<noteq> None" "the_chain st = path_to (the_index st) t"
  using assms chain_invD [of "the_index st" "the_chain st"] by (auto simp: state_inv_def GetTip_def bm_GetTip_def)

text \<open>The state with another active chain.\<close>

abbreviation with_chain :: "chainstate \<Rightarrow> CChain \<Rightarrow> chainstate" where
  "with_chain st v \<equiv> st\<lparr>cs_block_manager := (cs_block_manager st)\<lparr>m_active_chain := v\<rparr>\<rparr>"

lemma GetTip_with_path: "index_inv m \<Longrightarrow> map_of m k \<noteq> None \<Longrightarrow> GetTip (with_chain st (path_to m k)) = Some k"
  using path_to_tip tree.height_nonneg by (simp add: GetTip_def bm_GetTip_def)

lemma with_chain_same: "the_chain st = v \<Longrightarrow> with_chain st v = st"
  by simp

definition disconnected_event :: "block_map \<Rightarrow> blob \<Rightarrow> notification" where
  "disconnected_event m k = BlockDisconnected (GetBlockHeader (the (map_of m k))) k (height_of m k)"

definition connected_event :: "block_map \<Rightarrow> blob \<Rightarrow> notification" where
  "connected_event m k = BlockConnected (GetBlockHeader (the (map_of m k))) k (height_of m k)"

lemma DisconnectTip_path:
  assumes m: "index_inv m" "the_index st = m" and v: "the_chain st = path_to m k" and k: "map_of m k = Some e" "pprev e = Some p"
  shows "DisconnectTip events st = Some (True, events @ [disconnected_event m k], with_chain st (path_to m p))"
proof -
  obtain f where f: "map_of m p = Some f" by (rule index_parent [OF m(1) k])
  have t: "GetTip st = Some k" using v path_to_tip [of m k] tree.height_nonneg [OF m(1), of k] k(1) by (simp add: GetTip_def bm_GetTip_def)
  have "chain_inv m (path_to m k)" using chain_inv_path [OF m(1)] k(1) by simp
  from SetTip_path [OF m(1) this] f have "SetTip m (path_to m k) p = Some (path_to m p)" by simp
  then show ?thesis using m(2) v k
    by (simp add: DisconnectTip_def t SetActiveTip_def Let_def disconnected_event_def height_of_Some)
qed

lemma ConnectTip_path:
  assumes m: "index_inv m" "the_index st = m" and v: "chain_inv m (the_chain st)" and k: "map_of m k \<noteq> None"
  shows "ConnectTip (Some k) events st = Some (True, events @ [connected_event m k], with_chain st (path_to m k))"
  using SetTip_path [OF m(1) v k] m(2) k
  by (auto simp: ConnectTip_def SetActiveTip_def connected_event_def height_of_Some)

lemma disconnect_to_path:
  assumes m: "index_inv m"
  shows "the_index st = m \<Longrightarrow> the_chain st = path_to m t \<Longrightarrow> map_of m t \<noteq> None \<Longrightarrow> ancs (parent_of m) n t = Some c \<Longrightarrow>
    disconnect_to (Some t) (Some c) acc events st =
      Some (True, acc @ branch (parent_of m) n t, events @ map (disconnected_event m) (branch (parent_of m) n t), with_chain st (path_to m c))"
proof (induction n arbitrary: t acc events st)
  case 0
  then have "c = t" by simp
  then show ?case using with_chain_same [OF 0(2)] by (subst disconnect_to.simps) simp
next
  case (Suc n)
  obtain e where e: "map_of m t = Some e" using Suc.prems(3) by blast
  obtain p where p: "pprev e = Some p" "ancs (parent_of m) n p = Some c"
    using Suc.prems(4) by (auto simp: parent_of_Some [OF e] split: option.splits)
  obtain f where f: "map_of m p = Some f" "nHeight e = nHeight f + 1" by (rule index_parent [OF m e p(1)])
  have pm: "map_of m p \<noteq> None" using f by simp
  have "height_of m c = height_of m t - int (Suc n)" by (rule tree.ancs_height [OF m Suc.prems(3,4)])
  then have ct: "c \<noteq> t" by auto
  have d: "DisconnectTip events st = Some (True, events @ [disconnected_event m t], with_chain st (path_to m p))"
    by (rule DisconnectTip_path [OF m Suc.prems(1,2) e p(1)])
  have tip: "GetTip (with_chain st (path_to m p)) = Some p" by (rule GetTip_with_path [OF m pm])
  have b: "branch (parent_of m) (Suc n) t = t # branch (parent_of m) n p" using e p by (simp add: parent_of_Some)
  have "disconnect_to (Some p) (Some c) (acc @ [t]) (events @ [disconnected_event m t]) (with_chain st (path_to m p)) =
      Some (True, (acc @ [t]) @ branch (parent_of m) n p,
        (events @ [disconnected_event m t]) @ map (disconnected_event m) (branch (parent_of m) n p),
        with_chain (with_chain st (path_to m p)) (path_to m c))"
    by (rule Suc.IH) (use Suc.prems(1) pm p in simp_all)
  then show ?case using ct d tip by (subst disconnect_to.simps) (simp add: b del: branch.simps)
qed

lemma connect_list_branch:
  assumes m: "index_inv m"
  shows "map_of m k \<noteq> None \<Longrightarrow> ancs (parent_of m) n k = Some c \<Longrightarrow>
    connect_list m (Some k) (Some c) acc = Some (acc @ branch (parent_of m) n k)"
proof (induction n arbitrary: k acc)
  case 0
  then show ?case by (subst connect_list.simps) simp
next
  case (Suc n)
  obtain e where e: "map_of m k = Some e" using Suc.prems(1) by blast
  obtain p where p: "pprev e = Some p" "ancs (parent_of m) n p = Some c"
    using Suc.prems(2) by (auto simp: parent_of_Some [OF e] split: option.splits)
  have pm: "map_of m p \<noteq> None" by (rule index_parent [OF m e p(1)]) simp
  have "height_of m c = height_of m k - int (Suc n)" by (rule tree.ancs_height [OF m Suc.prems])
  then have ck: "c \<noteq> k" by auto
  then show ?case using Suc.IH [OF pm p(2), of "acc @ [k]"] p(1) by (subst connect_list.simps) (simp add: parent_of_Some [OF e])
qed

lemma connect_all_branch:
  assumes m: "index_inv m"
  shows "the_index st = m \<Longrightarrow> the_chain st = path_to m c \<Longrightarrow> map_of m k \<noteq> None \<Longrightarrow> ancs (parent_of m) n k = Some c \<Longrightarrow>
    connect_all (rev (branch (parent_of m) n k)) events st =
      Some (True, events @ map (connected_event m) (rev (branch (parent_of m) n k)), with_chain st (path_to m k))"
proof (induction n arbitrary: k)
  case 0
  then show ?case using with_chain_same by simp
next
  case (Suc n)
  obtain e where e: "map_of m k = Some e" using Suc.prems(3) by blast
  obtain p where p: "pprev e = Some p" "ancs (parent_of m) n p = Some c"
    using Suc.prems(4) by (auto simp: parent_of_Some [OF e] split: option.splits)
  have pm: "map_of m p \<noteq> None" by (rule index_parent [OF m e p(1)]) simp
  have app: "connect_all (xs @ [x]) ev s = (case connect_all xs ev s of None \<Rightarrow> None
      | Some (ok, ev, s) \<Rightarrow> if \<not> ok then Some (False, ev, s) else ConnectTip (Some x) ev s)" for xs x ev s
    by (induction xs arbitrary: ev s) (auto split: option.splits prod.splits)
  have c: "connect_all (rev (branch (parent_of m) n p)) events st =
      Some (True, events @ map (connected_event m) (rev (branch (parent_of m) n p)), with_chain st (path_to m p))"
    by (rule Suc.IH [OF Suc.prems(1,2) pm p(2)])
  have "ConnectTip (Some k) ev (with_chain st (path_to m p)) =
      Some (True, ev @ [connected_event m k], with_chain (with_chain st (path_to m p)) (path_to m k))" for ev
    by (rule ConnectTip_path [OF m]) (use Suc.prems chain_inv_path [OF m pm] in simp_all)
  then show ?case using p(1) by (simp add: parent_of_Some [OF e] app c)
qed


section \<open>One step\<close>

text \<open>The blocks \<open>t\<close> and \<open>k\<close> fork at \<open>c\<close>, \<open>i\<close> blocks below \<open>t\<close> and \<open>j\<close> blocks below \<open>k\<close>.\<close>

definition forks :: "block_map \<Rightarrow> blob \<Rightarrow> blob \<Rightarrow> blob \<Rightarrow> nat \<Rightarrow> nat \<Rightarrow> bool" where
  "forks m t k c i j \<longleftrightarrow> is_lca (parent_of m) t k c \<and> ancs (parent_of m) i t = Some c \<and> ancs (parent_of m) j k = Some c"

lemma forks_exist:
  assumes "index_inv m" "map_of m t \<noteq> None" "map_of m k \<noteq> None"
  obtains c i j where "LastCommonAncestor m (Some t) (Some k) = Some (Some c)" "forks m t k c i j" "map_of m c \<noteq> None"
    "height_of m c = height_of m t - int i"
proof -
  obtain c where c: "LastCommonAncestor m (Some t) (Some k) = Some (Some c)" "is_lca (parent_of m) t k c"
    using LastCommonAncestor_correct [OF assms] by blast
  then obtain i j where ij: "ancs (parent_of m) i t = Some c" "ancs (parent_of m) j k = Some c"
    by (auto simp: is_lca_def descends_def)
  show ?thesis
    using that [OF c(1), of i j] c(2) ij tree.ancs_member [OF assms(1,2) ij(1)] tree.ancs_height [OF assms(1,2) ij(1)]
    by (simp add: forks_def)
qed

text \<open>Whether activating \<open>k\<close> would disconnect at least as many blocks as the policy refuses.\<close>

definition suspicious :: "chainstate \<Rightarrow> blob \<Rightarrow> bool" where
  "suspicious st k \<longleftrightarrow> cs_suspicious_reorg_depth st > 0 \<and>
     (case GetTip st of None \<Rightarrow> False
      | Some t \<Rightarrow> (case LastCommonAncestor (the_index st) (Some t) (Some k) of
          Some (Some c) \<Rightarrow> height_of (the_index st) t - height_of (the_index st) c \<ge> cs_suspicious_reorg_depth st | _ \<Rightarrow> False))"

definition reorg_events :: "block_map \<Rightarrow> blob \<Rightarrow> blob \<Rightarrow> nat \<Rightarrow> nat \<Rightarrow> notification list" where
  "reorg_events m t k i j = map (disconnected_event m) (branch (parent_of m) i t) @
     map (connected_event m) (rev (branch (parent_of m) j k)) @ [ChainTip k (height_of m k)]"

definition activated :: "chainstate \<Rightarrow> blob \<Rightarrow> chainstate" where
  "activated st k = (with_chain st (path_to (the_index st) k))\<lparr>cs_chain_selector :=
     PruneBlockIndexCandidates (cs_block_manager (with_chain st (path_to (the_index st) k))) (cs_chain_selector st)\<rparr>"

lemma ActivateBestChainStep_spec:
  assumes inv: "state_inv st" and t: "GetTip st = Some t" and k: "map_of (the_index st) k \<noteq> None" "t \<noteq> k"
  shows "if work_of (the_index st) k \<le> work_of (the_index st) t
    then ActivateBestChainStep (Some k) events st = Some (Activate_OK, events, st)
    else if suspicious st k
    then \<exists>d. ActivateBestChainStep (Some k) events st =
        Some (POLICY_REFUSED, events, st\<lparr>notified := notified st @ [SuspiciousReorg d (cs_suspicious_reorg_depth st - 1)]\<rparr>)
    else \<exists>c i j. forks (the_index st) t k c i j \<and> ActivateBestChainStep (Some k) events st =
        Some (Activate_OK, events @ reorg_events (the_index st) t k i j, activated st k)"
proof -
  let ?m = "the_index st"
  have m: "index_inv ?m" using inv by (simp add: state_inv_def)
  have tm: "map_of ?m t \<noteq> None" and v: "the_chain st = path_to ?m t" using state_tip [OF inv] t by auto
  obtain c i j where c: "LastCommonAncestor ?m (Some t) (Some k) = Some (Some c)" "forks ?m t k c i j" "map_of ?m c \<noteq> None"
    "height_of ?m c = height_of ?m t - int i"
    by (rule forks_exist [OF m tm k(1)])
  have ai: "ancs (parent_of ?m) i t = Some c" and aj: "ancs (parent_of ?m) j k = Some c" using c(2) by (auto simp: forks_def)
  have d: "disconnect_to (Some t) (Some c) [] [] st = Some (True, branch (parent_of ?m) i t,
      map (disconnected_event ?m) (branch (parent_of ?m) i t), with_chain st (path_to ?m c))"
    using disconnect_to_path [OF m refl v tm ai] by simp
  have l: "connect_list ?m (Some k) (Some c) [] = Some (branch (parent_of ?m) j k)"
    using connect_list_branch [OF m k(1) aj] by simp
  have "connect_all (rev (branch (parent_of ?m) j k)) ev (with_chain st (path_to ?m c)) =
      Some (True, ev @ map (connected_event ?m) (rev (branch (parent_of ?m) j k)),
        with_chain (with_chain st (path_to ?m c)) (path_to ?m k))" for ev
    by (rule connect_all_branch [OF m _ _ k(1) aj]) simp_all
  then have conn: "connect_all (rev (branch (parent_of ?m) j k)) ev (with_chain st (path_to ?m c)) =
      Some (True, ev @ map (connected_event ?m) (rev (branch (parent_of ?m) j k)), with_chain st (path_to ?m k))" for ev by simp
  consider (less) "work_of ?m k \<le> work_of ?m t" | (deep) "\<not> work_of ?m k \<le> work_of ?m t" "suspicious st k"
    | (ok) "\<not> work_of ?m k \<le> work_of ?m t" "\<not> suspicious st k" by blast
  then show ?thesis
  proof cases
    case less
    then show ?thesis using k t by (simp add: ActivateBestChainStep_def)
  next
    case deep
    then show ?thesis using k t c(1) by (simp add: ActivateBestChainStep_def suspicious_def Let_def) (rule exI, rule refl)
  next
    case ok
    then have "ActivateBestChainStep (Some k) events st = Some (Activate_OK, events @ reorg_events ?m t k i j, activated st k)"
      using k t c(1) by (simp add: ActivateBestChainStep_def suspicious_def Let_def d l conn reorg_events_def activated_def)
    then show ?thesis using ok c(2) by auto
  qed
qed

section \<open>The loop\<close>

lemma prune_subset: "set (m_candidates (PruneBlockIndexCandidates bm cs)) \<subseteq> set (m_candidates cs)"
  by (auto simp: PruneBlockIndexCandidates_def split: option.splits)

lemma prune_ok: "cands_ok m (m_candidates cs) \<Longrightarrow> cands_ok m (m_candidates (PruneBlockIndexCandidates bm cs))"
  by (auto simp: PruneBlockIndexCandidates_def cands_ok_filter split: option.splits)

lemma state_inv_selector:
  assumes "state_inv st" "set (m_candidates cs) \<subseteq> set (m_candidates (cs_chain_selector st))" "cands_ok (the_index st) (m_candidates cs)"
  shows "state_inv (st\<lparr>cs_chain_selector := cs\<rparr>)"
  using assms by (auto simp: state_inv_def list_all_iff)

lemma state_inv_activated:
  assumes "state_inv st" "map_of (the_index st) k \<noteq> None"
  shows "state_inv (activated st k)" "GetTip (activated st k) = Some k"
proof -
  have m: "index_inv (the_index st)" using assms by (simp add: state_inv_def)
  have "path_to (the_index st) k \<noteq> []" by (simp add: path_to_def)
  then have "state_inv (with_chain st (path_to (the_index st) k))"
    using assms chain_inv_path [OF m assms(2)] by (simp add: state_inv_def)
  then show "state_inv (activated st k)"
    unfolding activated_def by (rule state_inv_selector [OF _ _ prune_ok]) (use assms prune_subset in \<open>auto simp: state_inv_def\<close>)
  show "GetTip (activated st k) = Some k" using GetTip_with_path [OF m assms(2)] by (simp add: activated_def GetTip_def)
qed

text \<open>What an activation that starts in \<open>st\<close> with the pending events \<open>ev\<close> may end in.\<close>

definition activation :: "chainstate \<Rightarrow> notification list \<Rightarrow> notification list \<Rightarrow> chainstate \<Rightarrow> blob \<Rightarrow> blob \<Rightarrow> notification list \<Rightarrow> bool" where
  "activation st ev ev' st' t k warns \<longleftrightarrow> state_inv st' \<and> GetTip st = Some t \<and> GetTip st' = Some k \<and>
     the_index st' = the_index st \<and> notified st' = notified st @ warns \<and> (\<forall>w \<in> set warns. \<exists>d l. w = SuspiciousReorg d l) \<and>
     cs_orphans st' = cs_orphans st \<and> m_failed_blocks st' = m_failed_blocks st \<and>
     m_cached_finished_ibd st' = m_cached_finished_ibd st \<and> cs_suspicious_reorg_depth st' = cs_suspicious_reorg_depth st \<and>
     set (m_candidates (cs_chain_selector st')) \<subseteq> set (m_candidates (cs_chain_selector st)) \<and>
     m_best_header (cs_chain_selector st') = m_best_header (cs_chain_selector st) \<and>
     (k = t \<and> ev' = ev \<or>
      work_of (the_index st) t < work_of (the_index st) k \<and> \<not> suspicious st k \<and> valid_tip (the_index st) k \<and>
        k \<in> set (m_candidates (cs_chain_selector st)) \<and>
        (\<exists>c i j. forks (the_index st) t k c i j \<and> ev' = ev @ reorg_events (the_index st) t k i j)) \<and>
     (\<forall>q \<in> set (m_candidates (cs_chain_selector st)). valid_tip (the_index st) q \<longrightarrow>
        work_of (the_index st) q \<le> work_of (the_index st) k \<or> suspicious st q)"

lemma suspicious_cong:
  "cs_block_manager st' = cs_block_manager st \<Longrightarrow> cs_suspicious_reorg_depth st' = cs_suspicious_reorg_depth st \<Longrightarrow>
   suspicious st' = suspicious st"
  by (simp add: suspicious_def [abs_def] GetTip_def cong: option.case_cong)

lemma activate_loop_best:
  "state_inv st \<Longrightarrow> \<exists>ev' st' t k warns. activate_loop None ev st = Some (True, ev', st') \<and> activation st ev ev' st' t k warns"
proof (induction "card (set (m_candidates (cs_chain_selector st)))" arbitrary: st rule: less_induct)
  case less
  let ?m = "the_index st" and ?cs = "cs_chain_selector st"
  have ok: "cands_ok ?m (m_candidates ?cs)" using less.prems by (simp add: state_inv_def)
  obtain t where t: "GetTip st = Some t" by (rule state_tip [OF less.prems])
  obtain r cs where f: "FindMostWorkChain ?m ?cs = (r, cs)" by fastforce
  let ?st = "st\<lparr>cs_chain_selector := cs\<rparr>"
  note frame = FindMostWorkChain_frame [OF f]
  have inv: "state_inv ?st" by (rule state_inv_selector [OF less.prems frame(1) frame(3) [OF ok]])
  have t': "GetTip ?st = Some t" using t by (simp add: GetTip_def)
  show ?case
  proof (cases r)
    case None
    then show ?thesis using f t t' inv frame FindMostWorkChain_None [of ?m ?cs cs]
      by (subst activate_loop.simps) (auto simp: activation_def)
  next
    case (Some k)
    with f have fk: "FindMostWorkChain ?m ?cs = (Some k, cs)" by simp
    note best = FindMostWorkChain_Some [OF ok fk]
    have kc: "k \<in> set (m_candidates ?cs)" using best(1) frame(1) by blast
    then have km: "map_of ?m k \<noteq> None" using less.prems by (auto simp: state_inv_def list_all_iff)
    show ?thesis
    proof (cases "work_of ?m k \<le> work_of ?m t")
      case True
      have all: "work_of ?m q \<le> work_of ?m t" if "q \<in> set (m_candidates ?cs)" "valid_tip ?m q" for q
        using best(3) [OF that] True by (rule order_trans)
      have "activate_loop None ev st = Some (True, ev, ?st)"
        using ActivateBestChainStep_spec [OF inv t', of k ev] km True t'
        by (subst activate_loop.simps) (auto simp: fk)
      moreover have "activation st ev ev ?st t t []" using t t' inv frame all by (auto simp: activation_def)
      ultimately show ?thesis by blast
    next
      case False
      then have tk: "t \<noteq> k" by auto
      note step = ActivateBestChainStep_spec [OF inv t' _ tk, of ev]
      show ?thesis
      proof (cases "suspicious st k")
        case True
        have sus: "suspicious ?st k" using True suspicious_cong [of ?st st] by simp
        then obtain d where d: "ActivateBestChainStep (Some k) ev ?st =
            Some (POLICY_REFUSED, ev, ?st\<lparr>notified := notified st @ [SuspiciousReorg d (cs_suspicious_reorg_depth st - 1)]\<rparr>)"
          using step km False by auto
        let ?w = "SuspiciousReorg d (cs_suspicious_reorg_depth st - 1)"
        let ?st2 = "st\<lparr>notified := notified st @ [?w], cs_chain_selector := RemoveCandidate (Some k) cs\<rparr>"
        have c2: "set (m_candidates (RemoveCandidate (Some k) cs)) = set (m_candidates cs) - {k}"
          by (simp add: RemoveCandidate_def cand.elems_erase)
        have e: "activate_loop None ev st = activate_loop None ev ?st2"
          using t' tk by (subst activate_loop.simps) (simp add: fk d)
        have "card (set (m_candidates cs) - {k}) < card (set (m_candidates cs))" by (rule card_Diff1_less) (use best(1) in auto)
        also have "\<dots> \<le> card (set (m_candidates ?cs))" by (rule card_mono) (use frame(1) in auto)
        finally have small: "card (set (m_candidates (cs_chain_selector ?st2))) < card (set (m_candidates ?cs))" by (simp add: c2)
        have "cands_ok ?m (m_candidates (RemoveCandidate (Some k) cs))"
          using cand.wf_erase [OF frame(3) [OF ok]] by (simp add: RemoveCandidate_def)
        then have inv2: "state_inv ?st2" using less.prems c2 frame(1) by (auto simp: state_inv_def list_all_iff)
        obtain ev' st' u k' warns where r: "activate_loop None ev ?st2 = Some (True, ev', st')" "activation ?st2 ev ev' st' u k' warns"
          using less.hyps [OF small inv2] by blast
        have keep: "\<forall>q \<in> set (m_candidates ?cs). valid_tip ?m q \<longrightarrow> q \<in> set (m_candidates (cs_chain_selector ?st2)) \<or> suspicious st q"
          using frame(4) True by (auto simp: c2)
        have s2: "suspicious ?st2 = suspicious st" "GetTip ?st2 = GetTip st"
          by (rule suspicious_cong) (simp_all add: GetTip_def)
        have "m_best_header (RemoveCandidate (Some k) cs) = m_best_header ?cs" using frame(2) by (simp add: RemoveCandidate_def)
        moreover have "set (m_candidates (RemoveCandidate (Some k) cs)) \<subseteq> set (m_candidates ?cs)" using c2 frame(1) by auto
        ultimately have "activation st ev ev' st' u k' (?w # warns)"
          using r(2) keep unfolding activation_def s2 by auto
        then show ?thesis using e r by auto
      next
        case no: False
        have "\<not> suspicious ?st k" using no suspicious_cong [of ?st st] by simp
        then obtain c i j where c: "forks ?m t k c i j" "ActivateBestChainStep (Some k) ev ?st =
            Some (Activate_OK, ev @ reorg_events ?m t k i j, activated ?st k)"
          using step km False by auto
        have e: "activate_loop None ev st = Some (True, ev @ reorg_events ?m t k i j, activated ?st k)"
          using t' tk by (subst activate_loop.simps) (simp add: fk c(2))
        have "state_inv (activated ?st k)" "GetTip (activated ?st k) = Some k"
          using state_inv_activated [OF inv] km by simp_all
        moreover have "set (m_candidates (cs_chain_selector (activated ?st k))) \<subseteq> set (m_candidates ?cs)"
          using prune_subset frame(1) by (fastforce simp: activated_def)
        moreover have "m_best_header (cs_chain_selector (activated ?st k)) = m_best_header ?cs"
          using frame(2) by (simp add: activated_def PruneBlockIndexCandidates_def split: option.splits)
        ultimately have "activation st ev (ev @ reorg_events ?m t k i j) (activated ?st k) t k []"
          using t c(1) no best kc False unfolding activation_def by (simp add: activated_def not_le) blast
        then show ?thesis using e by blast
      qed
    qed
  qed
qed


section \<open>Replaying notifications\<close>

text \<open>A subscriber's copy of the active chain, updated by one notification; \<open>None\<close> when the notification does not fit.\<close>

fun follow :: "notification \<Rightarrow> blob list \<Rightarrow> blob list option" where
  "follow (BlockConnected h k n) v =
     (if n = int (length v) \<and> (v \<noteq> [] \<longrightarrow> hashPrevBlock h = last v) then Some (v @ [k]) else None)"
| "follow (BlockDisconnected h k n) v = (if v \<noteq> [] \<and> last v = k \<and> n = int (length v) - 1 then Some (butlast v) else None)"
| "follow (ChainTip k n) v = (if v \<noteq> [] \<and> last v = k \<and> n = int (length v) - 1 then Some v else None)"
| "follow (SuspiciousReorg d l) v = Some v"
| "follow (NetworkExpired a b) v = Some v"

primrec follow_all :: "notification list \<Rightarrow> blob list \<Rightarrow> blob list option" where
  "follow_all [] v = Some v"
| "follow_all (n # ns) v = Option.bind (follow n v) (follow_all ns)"

lemma follow_all_append: "follow_all (xs @ ys) v = Option.bind (follow_all xs v) (follow_all ys)"
  by (induction xs arbitrary: v) (auto split: option.splits bind_splits)

definition hashes :: "block_map \<Rightarrow> blob \<Rightarrow> blob list" where
  "hashes m k = map the (path_to m k)"

lemma hashes_length: "index_inv m \<Longrightarrow> map_of m k \<noteq> None \<Longrightarrow> int (length (hashes m k)) = height_of m k + 1"
  using tree.height_nonneg [of m k] by (simp add: hashes_def length_path_to)

lemma hashes_last: "index_inv m \<Longrightarrow> map_of m k \<noteq> None \<Longrightarrow> hashes m k \<noteq> [] \<and> last (hashes m k) = k"
  using path_to_tip [of m k] tree.height_nonneg [of m k]
  by (auto simp: hashes_def chain_Tip_def path_to_def last_map simp del: upt_Suc split: if_splits)

lemma hashes_child: "index_inv m \<Longrightarrow> map_of m k = Some e \<Longrightarrow> pprev e = Some p \<Longrightarrow> hashes m k = hashes m p @ [k]"
  by (simp add: hashes_def path_to_child)

lemma follow_disconnect:
  assumes m: "index_inv m"
  shows "map_of m t \<noteq> None \<Longrightarrow> ancs (parent_of m) n t = Some c \<Longrightarrow>
    follow_all (map (disconnected_event m) (branch (parent_of m) n t)) (hashes m t) = Some (hashes m c)"
proof (induction n arbitrary: t)
  case (Suc n)
  obtain e where e: "map_of m t = Some e" using Suc.prems(1) by blast
  obtain p where p: "pprev e = Some p" "ancs (parent_of m) n p = Some c"
    using Suc.prems(2) by (auto simp: parent_of_Some [OF e] split: option.splits)
  have pm: "map_of m p \<noteq> None" by (rule index_parent [OF m e p(1)]) simp
  have "follow (disconnected_event m t) (hashes m t) = Some (hashes m p)"
    using hashes_length [OF m Suc.prems(1)] hashes_child [OF m e p(1)] by (simp add: disconnected_event_def)
  then show ?case using Suc.IH [OF pm p(2)] p(1) by (simp add: parent_of_Some [OF e])
qed simp

lemma follow_connect:
  assumes m: "index_inv m"
  shows "map_of m k \<noteq> None \<Longrightarrow> ancs (parent_of m) n k = Some c \<Longrightarrow>
    follow_all (map (connected_event m) (rev (branch (parent_of m) n k))) (hashes m c) = Some (hashes m k)"
proof (induction n arbitrary: k)
  case (Suc n)
  obtain e where e: "map_of m k = Some e" using Suc.prems(1) by blast
  obtain p where p: "pprev e = Some p" "ancs (parent_of m) n p = Some c"
    using Suc.prems(2) by (auto simp: parent_of_Some [OF e] split: option.splits)
  obtain f where f: "map_of m p = Some f" "nHeight e = nHeight f + 1" by (rule index_parent [OF m e p(1)])
  have pm: "map_of m p \<noteq> None" using f by simp
  have "follow (connected_event m k) (hashes m p) = Some (hashes m k)"
    using hashes_length [OF m pm] hashes_child [OF m e p(1)] hashes_last [OF m pm] f p(1) e
    by (simp add: connected_event_def GetBlockHeader_def height_of_Some)
  then show ?case using Suc.IH [OF pm p(2)] p(1) by (simp add: parent_of_Some [OF e] follow_all_append)
qed simp

lemma follow_reorg:
  assumes m: "index_inv m" "map_of m t \<noteq> None" "map_of m k \<noteq> None" and f: "forks m t k c i j"
  shows "follow_all (reorg_events m t k i j) (hashes m t) = Some (hashes m k)"
  using follow_disconnect [OF m(1,2), of i c] follow_connect [OF m(1,3), of j c] f hashes_length [OF m(1,3)] hashes_last [OF m(1,3)]
  by (simp add: reorg_events_def follow_all_append forks_def)

lemma follow_warnings: "\<forall>w \<in> set ws. \<exists>d l. w = SuspiciousReorg d l \<Longrightarrow> follow_all ws v = Some v"
  by (induction ws) auto

section \<open>Properties\<close>

text \<open>
  \<^bold>\<open>C8.\<close> Best-chain activation: in every well-formed chainstate \<open>ActivateBestChain(nullptr)\<close> terminates,
  passes its assertions and returns true; the index is untouched; the tip either stays or moves to a valid
  candidate with strictly more work whose reorganisation depth the policy allows; and afterwards every valid
  candidate that was on offer has at most the work of the tip or was refused by the reorganisation policy.
\<close>

theorem ActivateBestChain_best:
  assumes "state_inv st"
  shows "\<exists>st' t k. ActivateBestChain None st = Some (True, st') \<and> state_inv st' \<and> the_index st' = the_index st \<and>
    GetTip st = Some t \<and> GetTip st' = Some k \<and>
    (k = t \<or> work_of (the_index st) t < work_of (the_index st) k \<and> valid_tip (the_index st) k \<and>
       k \<in> set (m_candidates (cs_chain_selector st)) \<and> \<not> suspicious st k) \<and>
    (\<forall>q \<in> set (m_candidates (cs_chain_selector st)). valid_tip (the_index st) q \<longrightarrow>
       work_of (the_index st) q \<le> work_of (the_index st) k \<or> suspicious st q)"
proof -
  obtain ev' st' t k warns where a: "activate_loop None [] st = Some (True, ev', st')" "activation st [] ev' st' t k warns"
    using activate_loop_best [OF assms] by blast
  let ?st = "st'\<lparr>notified := notified st' @ ev'\<rparr>"
  have "ActivateBestChain None st = Some (True, ?st)" using a(1) by (simp add: ActivateBestChain_def)
  moreover have "state_inv ?st = state_inv st'" "GetTip ?st = GetTip st'" by (simp_all add: state_inv_def GetTip_def)
  ultimately show ?thesis using a(2) unfolding activation_def by (intro exI [of _ ?st] exI [of _ t] exI [of _ k]) auto
qed

definition sample_state :: chainstate where
  "sample_state = \<lparr>cs_block_manager = sample_manager\<lparr>m_active_chain := path_to sample_index [1]\<rparr>,
     cs_chain_selector = \<lparr>m_candidates = [[2], [3]], m_best_header = Some [2]\<rparr>, cs_suspicious_reorg_depth = 0,
     cs_orphans = empty_pool, m_failed_blocks = [], m_cached_finished_ibd = False, notified = []\<rparr>"

lemma sample_state_inv: "state_inv sample_state"
proof -
  have "chain_inv sample_index (path_to sample_index [1])"
    by (rule chain_inv_path [OF sample_index_inv]) (simp add: sample_index_def)
  moreover have "path_to sample_index [1] \<noteq> []" by (simp add: path_to_def)
  ultimately show ?thesis using sample_index_inv sample_known
    by (simp add: state_inv_def sample_state_def sample_manager_def cands_ok_def CBlockIndexWorkComparator_def work_of_def height_of_def)
      (simp add: sample_index_def sample_entry_def)
qed

theorem ActivateBestChain_best_witness:
  "\<exists>st'. ActivateBestChain None sample_state = Some (True, st') \<and> GetTip st' \<in> {Some [2], Some [3]}"
proof -
  have t: "GetTip sample_state = Some [1]"
    using path_to_tip [of sample_index "[1]"]
    by (simp add: GetTip_def bm_GetTip_def sample_state_def sample_manager_def height_of_def sample_index_def sample_entry_def)
  have v: "valid_tip (the_index sample_state) [2]"
    by (simp add: sample_state_def sample_manager_def valid_tip_def sample_index_def sample_entry_def IsValid_def BLOCK_FAILED_MASK_def
        BLOCK_FAILED_VALID_def BLOCK_FAILED_CHILD_def VALIDITY_LEVEL_MASK_def BLOCK_VALID_TREE_def)
  have w: "\<not> work_of (the_index sample_state) [2] \<le> work_of (the_index sample_state) [1]"
    by (simp add: sample_state_def sample_manager_def work_of_def sample_index_def sample_entry_def)
  have s: "\<not> suspicious sample_state k" for k by (simp add: suspicious_def sample_state_def)
  have c: "m_candidates (cs_chain_selector sample_state) = [[2], [3]]" by (simp add: sample_state_def)
  show ?thesis using ActivateBestChain_best [OF sample_state_inv] t v w s unfolding c by auto
qed

text \<open>
  \<^bold>\<open>C22.\<close> Notifications tell the whole story: a subscriber that holds the active chain before
  \<open>ActivateBestChain\<close> and applies the notifications it emits, in order, ends with the active chain after it.
  Every one of them fits: a disconnected block is the subscriber's tip at the reported height, a connected
  block's header names the subscriber's tip as its parent, and the final tip is the one reported.
\<close>

theorem notifications_replay:
  assumes "state_inv st" "ActivateBestChain None st = Some (ok, st')"
  shows "\<exists>new. notified st' = notified st @ new \<and> follow_all new (map the (the_chain st)) = Some (map the (the_chain st'))"
proof -
  let ?m = "the_index st"
  obtain ev s t k warns where a: "activate_loop None [] st = Some (True, ev, s)" "activation st [] ev s t k warns"
    using activate_loop_best [OF assms(1)] by blast
  have st': "st' = s\<lparr>notified := notified s @ ev\<rparr>" using assms(2) a(1) by (simp add: ActivateBestChain_def)
  have m: "index_inv ?m" using assms(1) by (simp add: state_inv_def)
  have i: "state_inv s" "GetTip s = Some k" "the_index s = ?m" "GetTip st = Some t" using a(2) by (simp_all add: activation_def)
  have t: "map_of ?m t \<noteq> None" "the_chain st = path_to ?m t" using state_tip [OF assms(1)] i(4) by auto
  have k: "map_of ?m k \<noteq> None" "the_chain s = path_to ?m k" using state_tip [OF i(1)] i(2,3) by auto
  have "follow_all ev (hashes ?m t) = Some (hashes ?m k)"
    using a(2) follow_reorg [OF m t(1) k(1)] by (auto simp: activation_def)
  moreover have "follow_all warns (hashes ?m t) = Some (hashes ?m t)"
    by (rule follow_warnings) (use a(2) in \<open>simp add: activation_def\<close>)
  ultimately have "follow_all (warns @ ev) (map the (the_chain st)) = Some (map the (the_chain st'))"
    using t(2) k(2) by (simp add: follow_all_append st' hashes_def)
  moreover have "notified st' = notified st @ warns @ ev" using a(2) by (simp add: st' activation_def)
  ultimately show ?thesis by blast
qed

theorem notifications_replay_witness:
  "\<exists>st' new. ActivateBestChain None sample_state = Some (True, st') \<and> notified st' = new \<and>
     follow_all new [[0], [1]] = Some (map the (the_chain st'))"
proof -
  obtain ev s t k warns where a: "activate_loop None [] sample_state = Some (True, ev, s)"
    using activate_loop_best [OF sample_state_inv] by blast
  then have r: "ActivateBestChain None sample_state = Some (True, s\<lparr>notified := notified s @ ev\<rparr>)" (is "_ = Some (True, ?s)")
    by (simp add: ActivateBestChain_def)
  have v: "map the (the_chain sample_state) = [[0], [1]]"
    by (simp add: sample_state_def sample_manager_def path_to_def anc_at_def height_of_def parent_of_def sample_index_def sample_entry_def)
  have "notified sample_state = []" by (simp add: sample_state_def)
  then show ?thesis using notifications_replay [OF sample_state_inv r] r v by auto
qed

end
