(* ===== verification/Index_Extension.thy ===== *)
theory Index_Extension
  imports Chainstate
begin

text \<open>
  What survives when the block index grows or when statuses change: heights, ancestors, median times,
  the difficulty rule, the active chain and the order of candidates, for every block already present.
\<close>

section \<open>Extending the index and changing statuses\<close>

text \<open>Every entry of \<open>m\<close> is in \<open>m'\<close>, with the same place in the tree.\<close>

definition index_sub :: "block_map \<Rightarrow> block_map \<Rightarrow> bool" where
  "index_sub m m' \<longleftrightarrow> (\<forall>k e. map_of m k = Some e \<longrightarrow> (\<exists>e'. map_of m' k = Some e' \<and> same_node e e'))"

lemma index_subD:
  assumes "index_sub m m'" "map_of m k = Some e"
  obtains e' where "map_of m' k = Some e'" "same_node e e'"
  using assms by (auto simp: index_sub_def)

lemma index_sub_new: "map_of m k = None \<Longrightarrow> index_sub m (om_update k e m)"
  by (auto simp: index_sub_def)

lemma index_sub_same: "map_of m k = Some e \<Longrightarrow> same_node e e' \<Longrightarrow> index_sub m (om_update k e' m)"
  by (auto simp: index_sub_def)

lemma same_node_trans: "same_node a b \<Longrightarrow> same_node b c \<Longrightarrow> same_node a c"
  by (simp add: same_node_def)

lemma index_sub_trans:
  assumes "index_sub a b" "index_sub b c"
  shows "index_sub a c"
  unfolding index_sub_def
proof (intro allI impI)
  fix k e assume "map_of a k = Some e"
  then obtain f where f: "map_of b k = Some f" "same_node e f" by (rule index_subD [OF assms(1)])
  obtain g where "map_of c k = Some g" "same_node f g" by (rule index_subD [OF assms(2) f(1)])
  then show "\<exists>e'. map_of c k = Some e' \<and> same_node e e'" using same_node_trans [OF f(2)] by blast
qed

lemma index_sub_fields:
  assumes "index_sub m m'" "map_of m q \<noteq> None"
  shows "map_of m' q \<noteq> None" "parent_of m' q = parent_of m q" "height_of m' q = height_of m q" "work_of m' q = work_of m q"
proof -
  obtain e where e: "map_of m q = Some e" using assms(2) by blast
  obtain e' where "map_of m' q = Some e'" "same_node e e'" by (rule index_subD [OF assms(1) e])
  then show "map_of m' q \<noteq> None" "parent_of m' q = parent_of m q" "height_of m' q = height_of m q" "work_of m' q = work_of m q"
    using e by (simp_all add: parent_of_def height_of_def work_of_def same_node_def)
qed

lemma index_sub_ancs:
  assumes "index_inv m" "index_sub m m'" "map_of m q \<noteq> None"
  shows "ancs (parent_of m') n q = ancs (parent_of m) n q"
proof (rule ancs_cong)
  fix x assume "descends (parent_of m) q x"
  then have "map_of m x \<noteq> None" by (rule tree.descends_member [OF assms(1,3)])
  then show "parent_of m' x = parent_of m x" by (rule index_sub_fields(2) [OF assms(2)])
qed

lemma index_sub_descends:
  "index_inv m \<Longrightarrow> index_sub m m' \<Longrightarrow> map_of m q \<noteq> None \<Longrightarrow> descends (parent_of m') q r \<longleftrightarrow> descends (parent_of m) q r"
  by (simp add: descends_def index_sub_ancs [of m m'])

lemma index_sub_anc_at:
  "index_inv m \<Longrightarrow> index_sub m m' \<Longrightarrow> map_of m q \<noteq> None \<Longrightarrow>
   anc_at (parent_of m') (height_of m') q h = anc_at (parent_of m) (height_of m) q h"
  using index_sub_ancs [of m m' q] index_sub_fields(3) [of m m' q] by (simp add: anc_at_def)

lemma index_sub_path: "index_inv m \<Longrightarrow> index_sub m m' \<Longrightarrow> map_of m q \<noteq> None \<Longrightarrow> path_to m' q = path_to m q"
  using index_sub_anc_at [of m m' q] index_sub_fields(3) [of m m' q] by (simp add: path_to_def)

lemma index_sub_chain: "index_inv m \<Longrightarrow> index_sub m m' \<Longrightarrow> chain_inv m v \<Longrightarrow> chain_inv m' v"
  using index_sub_path [of m m'] index_sub_fields(1) [of m m'] by (auto simp: chain_inv_def split: option.splits)

lemma sorted_wrt_cong:
  assumes "\<And>a b. a \<in> set xs \<Longrightarrow> b \<in> set xs \<Longrightarrow> P a b \<Longrightarrow> Q a b" "sorted_wrt P xs"
  shows "sorted_wrt Q xs"
  using assms by (induction xs) auto

lemma index_sub_cands:
  assumes "index_sub m m'" "list_all (\<lambda>k. map_of m k \<noteq> None) xs" "cands_ok m xs"
  shows "cands_ok m' xs"
  unfolding cands_ok_def
proof (rule sorted_wrt_cong [OF _ assms(3) [unfolded cands_ok_def]])
  fix a b assume "a \<in> set xs" "b \<in> set xs" and c: "CBlockIndexWorkComparator m a b"
  then have "map_of m a \<noteq> None" "map_of m b \<noteq> None" using assms(2) by (auto simp: list_all_iff)
  then show "CBlockIndexWorkComparator m' a b"
    using c index_sub_fields(3,4) [OF assms(1)] by (simp add: CBlockIndexWorkComparator_def)
qed

lemma index_sub_mtp_times:
  "index_inv m \<Longrightarrow> index_sub m m' \<Longrightarrow> map_of m q \<noteq> None \<Longrightarrow> mtp_times m' i (Some q) = mtp_times m i (Some q)"
proof (induction i arbitrary: q)
  case (Suc i)
  obtain e where e: "map_of m q = Some e" using Suc.prems(3) by blast
  obtain e' where e': "map_of m' q = Some e'" "same_node e e'" by (rule index_subD [OF Suc.prems(2) e])
  have "mtp_times m' i (pprev e) = mtp_times m i (pprev e)"
  proof (cases "pprev e")
    case None
    then show ?thesis by (cases i) auto
  next
    case (Some p)
    then show ?thesis using Suc.IH [OF Suc.prems(1,2), of p] index_parent [OF Suc.prems(1) e Some] by auto
  qed
  then show ?case using e e' by (simp add: same_node_def index_time_def)
qed simp

lemma index_sub_mtp: "index_inv m \<Longrightarrow> index_sub m m' \<Longrightarrow> map_of m q \<noteq> None \<Longrightarrow> GetMedianTimePast m' q = GetMedianTimePast m q"
  by (simp add: GetMedianTimePast_def index_sub_mtp_times [of m m'])

lemma GetAncestor_value:
  assumes "index_inv m" "map_of m q \<noteq> None"
  shows "GetAncestor m q h = Some (if h < 0 \<or> h > height_of m q then None else anc_at (parent_of m) (height_of m) q h)"
  using assms GetAncestor_correct [OF assms(1), of q] by (auto simp: height_of_Some)

lemma index_sub_GetAncestor:
  assumes "index_inv m" "index_inv m'" "index_sub m m'" "map_of m q \<noteq> None"
  shows "GetAncestor m' q h = GetAncestor m q h"
  using index_sub_fields [OF assms(3,4)]
  by (simp add: GetAncestor_value [OF assms(1,4)] GetAncestor_value [OF assms(2)] index_sub_anc_at [OF assms(1,3,4)])

lemma index_sub_work_required:
  assumes m: "index_inv m" "index_inv m'" "index_sub m m'" "map_of m q \<noteq> None"
  shows "GetNextWorkRequired m' (Some q) params = GetNextWorkRequired m (Some q) params"
proof -
  obtain e where e: "map_of m q = Some e" using m(4) by blast
  obtain e' where e': "map_of m' q = Some e'" "same_node e e'" by (rule index_subD [OF m(3) e])
  let ?h = "nASERTAnchorHeight (consensus params)"
  have s: "nHeight e' = nHeight e" "bi_nTime e' = bi_nTime e" using e'(2) by (simp_all add: same_node_def)
  show ?thesis
  proof (cases "GetAncestor m q ?h")
    case None
    then show ?thesis using e e'(1) s index_sub_GetAncestor [OF m, of ?h] by (simp add: GetNextWorkRequired_def Let_def)
  next
    case (Some r)
    show ?thesis
    proof (cases r)
      case None
      then show ?thesis using Some e e'(1) s index_sub_GetAncestor [OF m, of ?h] by (simp add: GetNextWorkRequired_def Let_def)
    next
      case a: (Some a)
      have "descends (parent_of m) q a" using Some a GetAncestor_value [OF m(1,4), of ?h] by (auto simp: descends_def anc_at_def split: if_splits)
      then have "map_of m a \<noteq> None" by (rule tree.descends_member [OF m(1,4)])
      then obtain g where g0: "map_of m a = Some g" by blast
      obtain g' where g: "map_of m a = Some g" "map_of m' a = Some g'" "same_node g g'" by (rule index_subD [OF m(3) g0]) (use g0 in simp)
      then have "nHeight g' = nHeight g" "bi_nTime g' = bi_nTime g" "bi_nBits g' = bi_nBits g" by (simp_all add: same_node_def)
      then show ?thesis using Some a e e'(1) s g(1,2) index_sub_GetAncestor [OF m, of ?h] by (simp add: GetNextWorkRequired_def Let_def)
    qed
  qed
qed

lemma times_okI: "om_invar m \<Longrightarrow> (\<And>k e p. map_of m k = Some e \<Longrightarrow> pprev e = Some p \<Longrightarrow> GetMedianTimePast m p < index_time e) \<Longrightarrow> times_ok m"
  by (auto simp: times_ok_def list_all_iff om_entries_iff split: option.splits)

lemma bits_okI: "om_invar m \<Longrightarrow> (\<And>k e p. map_of m k = Some e \<Longrightarrow> pprev e = Some p \<Longrightarrow>
    GetNextWorkRequired m (Some p) params = Some (bi_nBits e)) \<Longrightarrow> bits_ok m params"
  by (auto simp: bits_ok_def list_all_iff om_entries_iff split: option.splits)

text \<open>An index whose further entries obey a rule obeys it.\<close>

lemma rules_sub:
  assumes m: "index_inv m" "index_inv m'" "index_sub m m'" and r: "times_ok m" "bits_ok m params"
    and new: "\<And>k e' p. map_of m k = None \<Longrightarrow> map_of m' k = Some e' \<Longrightarrow> pprev e' = Some p \<Longrightarrow>
      map_of m p \<noteq> None \<and> GetMedianTimePast m p < index_time e' \<and> GetNextWorkRequired m (Some p) params = Some (bi_nBits e')"
  shows "times_ok m'" "bits_ok m' params"
proof -
  have a: "map_of m p \<noteq> None \<and> GetMedianTimePast m p < index_time e' \<and> GetNextWorkRequired m (Some p) params = Some (bi_nBits e')"
    if e': "map_of m' k = Some e'" "pprev e' = Some p" for k e' p
  proof (cases "map_of m k")
    case None
    then show ?thesis using new e' by blast
  next
    case (Some e)
    have s: "same_node e e'" by (rule index_subD [OF m(3) Some]) (use e'(1) in simp)
    then have p: "pprev e = Some p" using e'(2) by (simp add: same_node_def)
    have "map_of m p \<noteq> None" by (rule index_parent [OF m(1) Some p]) simp
    then show ?thesis using times_okD [OF r(1) Some p] bits_okD [OF r(2) Some p] s by (simp add: same_node_def index_time_def)
  qed
  show "times_ok m'"
  proof (rule times_okI [OF index_om [OF m(2)]])
    fix k e' p assume e': "map_of m' k = Some e'" "pprev e' = Some p"
    show "GetMedianTimePast m' p < index_time e'" using a [OF e'] index_sub_mtp [OF m(1,3), of p] by simp
  qed
  show "bits_ok m' params"
  proof (rule bits_okI [OF index_om [OF m(2)]])
    fix k e' p assume e': "map_of m' k = Some e'" "pprev e' = Some p"
    show "GetNextWorkRequired m' (Some p) params = Some (bi_nBits e')" using a [OF e'] index_sub_work_required [OF m, of p] by simp
  qed
qed

text \<open>A block sits below as many others as its height.\<close>

lemma height_less_size:
  assumes m: "index_inv m" and k: "map_of m k \<noteq> None"
  shows "height_of m k < int (length m)"
proof -
  let ?v = "path_to m k"
  have v: "chain_inv m ?v" by (rule chain_inv_path [OF m k])
  have e: "\<exists>q. ?v ! i = Some q \<and> map_of m q \<noteq> None \<and> height_of m q = int i" if "i < length ?v" for i
    using chain_entry_Some [OF m v that] chain_entry(1,2) [OF m v that] by blast
  have "distinct ?v"
  proof (rule distinct_conv_nth [THEN iffD2], intro allI impI)
    fix i j assume "i < length ?v" "j < length ?v" "i \<noteq> j"
    then show "?v ! i \<noteq> ?v ! j" using e [of i] e [of j] by auto
  qed
  moreover have "set ?v \<subseteq> Some ` fst ` set m"
  proof
    fix x assume "x \<in> set ?v"
    then obtain q where "x = Some q" "map_of m q \<noteq> None" using e by (metis in_set_conv_nth)
    then show "x \<in> Some ` fst ` set m" by (auto dest!: map_of_SomeD intro: rev_image_eqI)
  qed
  ultimately have "length ?v \<le> card (Some ` fst ` set m)" by (metis card_mono distinct_card finite_imageI finite_set)
  also have "\<dots> \<le> card (fst ` set m)" by (intro card_image_le) simp
  also have "\<dots> \<le> card (set m)" by (intro card_image_le) simp
  also have "\<dots> \<le> length m" by (rule card_length)
  finally show ?thesis using tree.height_nonneg [OF m k] by (simp add: length_path_to)
qed

end
