(* ===== verification/Header_Accept.thy ===== *)
theory Header_Accept
  imports Index_Extension
begin

text \<open>
  Accepting headers (src/chain/chainstate_manager.cpp): \<open>AcceptBlockHeader\<close> with the mutually recursive
  \<open>ProcessOrphanHeaders\<close>, \<open>ProcessNewBlockHeader\<close>, and the small operations around them.

  The two functions call each other; here the recursion is bounded by fuel one above the size of the
  orphan pool.  Every nested call runs with one orphan fewer, so the fuel is always enough:
  \<open>AcceptBlockHeader_eq\<close> is the recursion of the code, without fuel.
\<close>

section \<open>Environment\<close>

text \<open>What the chainstate manager reads but does not own: the hash functions, the chain parameters, the clock and the time data.\<close>

record node_env =
  env_crypto :: crypto
  env_params :: ChainParams
  env_now :: int
  env_timedata :: "byte list timedata"

section \<open>Steps of acceptance\<close>

type_synonym accept_result = "((pow_error + blob option) \<times> ValidationState \<times> chainstate) option"

definition rejected :: "string \<Rightarrow> string \<Rightarrow> ValidationState \<Rightarrow> chainstate \<Rightarrow> accept_result" where
  "rejected reason msg state st = Some (Inr None, snd (state_Invalid reason msg state), st)"

definition modify_entry :: "blob \<Rightarrow> (CBlockIndex \<Rightarrow> CBlockIndex) \<Rightarrow> chainstate \<Rightarrow> chainstate" where
  "modify_entry k f st =
     (case map_of (the_index st) k of None \<Rightarrow> st
      | Some e \<Rightarrow> st\<lparr>cs_block_manager := (cs_block_manager st)\<lparr>m_block_index := om_update k (f e) (the_index st)\<rparr>\<rparr>)"

fun find_failed :: "block_map \<Rightarrow> blob \<Rightarrow> blob list \<Rightarrow> blob option option" where
  "find_failed m pindexPrev [] = Some None"
| "find_failed m pindexPrev (failedit # rest) =
     (case GetAncestor m pindexPrev (height_of m failedit) of None \<Rightarrow> None
      | Some a \<Rightarrow> if a = Some failedit then Some (Some failedit) else find_failed m pindexPrev rest)"

partial_function (option) mark_failed_child :: "blob \<Rightarrow> blob \<Rightarrow> chainstate \<Rightarrow> chainstate option" where
  "mark_failed_child invalid_walk failedit st =
     (if invalid_walk = failedit then Some st
      else let st = modify_entry invalid_walk (\<lambda>e. e\<lparr>nStatus := nStatus e OR BLOCK_FAILED_CHILD\<rparr>) st in
        case parent_of (the_index st) invalid_walk of None \<Rightarrow> None | Some p \<Rightarrow> mark_failed_child p failedit st)"

definition ContextualCheckBlockHeaderWrapper :: "node_env \<Rightarrow> CBlockHeader \<Rightarrow> blob \<Rightarrow> int \<Rightarrow> ValidationState \<Rightarrow> chainstate \<Rightarrow>
    (bool \<times> ValidationState \<times> chainstate) option" where
  "ContextualCheckBlockHeaderWrapper env header pindexPrev adjusted_time state st =
     (case ContextualCheckBlockHeader (the_index st) header (Some pindexPrev) (env_params env) adjusted_time state of None \<Rightarrow> None
      | Some (result, state) \<Rightarrow>
          if \<not> result \<and> reject_reason state = ''network-expired''
          then Some (result, state, st\<lparr>notified := notified st @ [NetworkExpired (height_of (the_index st) pindexPrev + 1)
                 (nNetworkExpirationInterval (consensus (env_params env)))]\<rparr>)
          else Some (result, state, st))"

text \<open>Step 10: insert the header, mark it, update the best header, and process the orphans that waited for it.\<close>

definition accept_insert :: "(blob \<Rightarrow> chainstate \<Rightarrow> (pow_error option \<times> chainstate) option) \<Rightarrow> node_env \<Rightarrow> CBlockHeader \<Rightarrow>
    ValidationState \<Rightarrow> chainstate \<Rightarrow> accept_result" where
  "accept_insert process env header state st =
     (case AddToBlockIndex (env_crypto env) header (cs_block_manager st) of None \<Rightarrow> None
      | Some (None, bm) \<Rightarrow> Some (Inr None, snd (state_Error ''failed to add block to index'' [] state), st\<lparr>cs_block_manager := bm\<rparr>)
      | Some (Some k, bm) \<Rightarrow>
          let st = modify_entry k (\<lambda>e. e\<lparr>nTimeReceived := env_now env\<rparr>) (st\<lparr>cs_block_manager := bm\<rparr>);
              st = modify_entry k (\<lambda>e. fst (RaiseValidity e BLOCK_VALID_TREE)) st;
              st = st\<lparr>cs_chain_selector := UpdateBestHeader (the_index st) (Some k) (cs_chain_selector st)\<rparr> in
          (case process (header_hash (env_crypto env) header) st of None \<Rightarrow> None
           | Some (Some err, st) \<Rightarrow> Some (Inl err, state, st)
           | Some (None, st) \<Rightarrow> Some (Inr (Some k), state, st)))"

text \<open>Steps 5 to 9: the checks against the parent.\<close>

definition accept_child :: "(blob \<Rightarrow> chainstate \<Rightarrow> (pow_error option \<times> chainstate) option) \<Rightarrow> node_env \<Rightarrow> CBlockHeader \<Rightarrow> bool \<Rightarrow> blob \<Rightarrow>
    ValidationState \<Rightarrow> chainstate \<Rightarrow> accept_result" where
  "accept_child process env header min_pow_checked pindexPrev state st =
     (case map_of (the_index st) pindexPrev of None \<Rightarrow> None
      | Some f \<Rightarrow>
          if nStatus f AND BLOCK_FAILED_MASK \<noteq> 0 then rejected ''bad-prevblk'' ''previous block is invalid'' state st
          else case (if \<not> IsValid f BLOCK_VALID_TREE then find_failed (the_index st) pindexPrev (m_failed_blocks st) else Some None) of
            None \<Rightarrow> None
          | Some (Some failedit) \<Rightarrow>
              (case mark_failed_child pindexPrev failedit st of None \<Rightarrow> None
               | Some st \<Rightarrow> rejected ''bad-prevblk'' ''previous block descends from invalid block'' state st)
          | Some None \<Rightarrow>
              (case ContextualCheckBlockHeaderWrapper env header pindexPrev (GetAdjustedTime (env_now env) (env_timedata env)) state st of
                 None \<Rightarrow> None
               | Some (ok, state, st) \<Rightarrow>
                   if \<not> ok then Some (Inr None, state, st)
                   else case CheckBlockHeader (env_crypto env) header (env_params env) state of
                     Inl err \<Rightarrow> Some (Inl err, state, st)
                   | Inr (ok, state) \<Rightarrow>
                       if \<not> ok then Some (Inr None, state, st)
                       else if \<not> min_pow_checked then rejected ''too-little-chainwork'' ''missing anti-DoS work validation'' state st
                       else accept_insert process env header state st))"

definition accept_with :: "(blob \<Rightarrow> chainstate \<Rightarrow> (pow_error option \<times> chainstate) option) \<Rightarrow> node_env \<Rightarrow> CBlockHeader \<Rightarrow> bool \<Rightarrow>
    ValidationState \<Rightarrow> chainstate \<Rightarrow> accept_result" where
  "accept_with process env header min_pow_checked state st =
     (let h = header_hash (env_crypto env) header in
      case map_of (the_index st) h of
        Some e \<Rightarrow>
          if nStatus e AND BLOCK_FAILED_MASK \<noteq> 0 then rejected ''duplicate'' ''known invalid header re-announced'' state st
          else Some (Inr (Some h), state, st)
      | None \<Rightarrow>
          (case CheckProofOfWork (env_crypto env) header (nBits header) (env_params env) COMMITMENT_ONLY None of
             Inl err \<Rightarrow> Some (Inl err, state, st)
           | Inr (ok, out) \<Rightarrow>
               if \<not> ok then rejected ''high-hash'' ''proof of work commitment failed'' state st
               else if blob_IsNull (hashPrevBlock header)
               then (if h \<noteq> hashGenesisBlock (consensus (env_params env))
                     then rejected ''bad-genesis'' ''genesis block hash mismatch'' state st
                     else rejected ''genesis-via-accept'' ''genesis block must be added via Initialize()'' state st)
               else case LookupBlockIndex (cs_block_manager st) (hashPrevBlock header) of
                 None \<Rightarrow> rejected ''prev-blk-not-found'' ''parent block not found'' state st
               | Some p \<Rightarrow> accept_child process env header min_pow_checked p state st))"

section \<open>Orphans and the recursion\<close>

fun process_list :: "(CBlockHeader \<Rightarrow> bool \<Rightarrow> ValidationState \<Rightarrow> chainstate \<Rightarrow> accept_result) \<Rightarrow> blob list \<Rightarrow> chainstate \<Rightarrow>
    (pow_error option \<times> chainstate) option" where
  "process_list accept [] st = Some (None, st)"
| "process_list accept (h # hs) st =
     (case map_of (m_orphan_headers (cs_orphans st)) h of
        None \<Rightarrow> process_list accept hs st
      | Some orphan \<Rightarrow>
          (case accept (oh_header orphan) True new_ValidationState (st\<lparr>cs_orphans := drop_orphan h orphan (cs_orphans st)\<rparr>) of
             None \<Rightarrow> None
           | Some (Inl err, orphan_state, st) \<Rightarrow> Some (Some err, st)
           | Some (Inr pindex, orphan_state, st) \<Rightarrow> process_list accept hs st))"

primrec accept_fuel :: "nat \<Rightarrow> node_env \<Rightarrow> CBlockHeader \<Rightarrow> bool \<Rightarrow> ValidationState \<Rightarrow> chainstate \<Rightarrow> accept_result" where
  "accept_fuel 0 env header min_pow_checked state st = None"
| "accept_fuel (Suc n) env header min_pow_checked state st =
     accept_with (\<lambda>h st. process_list (accept_fuel n env) (orphans_of h (cs_orphans st)) st) env header min_pow_checked state st"

definition AcceptBlockHeader :: "node_env \<Rightarrow> CBlockHeader \<Rightarrow> bool \<Rightarrow> ValidationState \<Rightarrow> chainstate \<Rightarrow> accept_result" where
  "AcceptBlockHeader env header min_pow_checked state st =
     accept_fuel (Suc (length (m_orphan_headers (cs_orphans st)))) env header min_pow_checked state st"

definition ProcessOrphanHeaders :: "node_env \<Rightarrow> blob \<Rightarrow> chainstate \<Rightarrow> (pow_error option \<times> chainstate) option" where
  "ProcessOrphanHeaders env parentHash st = process_list (AcceptBlockHeader env) (orphans_of parentHash (cs_orphans st)) st"

definition ProcessNewBlockHeader :: "node_env \<Rightarrow> CBlockHeader \<Rightarrow> ValidationState \<Rightarrow> chainstate \<Rightarrow>
    ((pow_error + bool) \<times> ValidationState \<times> chainstate) option" where
  "ProcessNewBlockHeader env header state st =
     (case AcceptBlockHeader env header True state st of None \<Rightarrow> None
      | Some (Inl err, state, st) \<Rightarrow> Some (Inl err, state, st)
      | Some (Inr None, state, st) \<Rightarrow> Some (Inr False, state, st)
      | Some (Inr (Some k), state, st) \<Rightarrow>
          (case TryAddBlockIndexCandidate (the_index st) (Some k) (cs_chain_selector st) of None \<Rightarrow> None
           | Some cs \<Rightarrow>
               (case ActivateBestChain None (st\<lparr>cs_chain_selector := cs\<rparr>) of None \<Rightarrow> None
                | Some (ok, st) \<Rightarrow> Some (Inr ok, state, st))))"

section \<open>Other operations\<close>

definition AddOrphanHeader :: "node_env \<Rightarrow> CBlockHeader \<Rightarrow> int \<Rightarrow> chainstate \<Rightarrow> bool \<times> chainstate" where
  "AddOrphanHeader env header peer_id st =
     (let (ok, pool) = TryAddOrphanHeader (env_crypto env) (env_params env) (env_now env) header peer_id (cs_orphans st)
      in (ok, st\<lparr>cs_orphans := pool\<rparr>))"

definition GetOrphanHeaderCount :: "chainstate \<Rightarrow> nat" where
  "GetOrphanHeaderCount st = length (m_orphan_headers (cs_orphans st))"

definition IsInitialBlockDownload :: "node_env \<Rightarrow> chainstate \<Rightarrow> bool \<times> chainstate" where
  "IsInitialBlockDownload env st =
     (if m_cached_finished_ibd st then (False, st)
      else case GetTip st of None \<Rightarrow> (True, st)
      | Some tip \<Rightarrow>
          (case map_of (the_index st) tip of None \<Rightarrow> (True, st)
           | Some e \<Rightarrow>
               if nHeight e = 0 then (True, st)
               else if uint (bi_nTime e) < env_now env - 12 * 3600 then (True, st)
               else if nChainWork e < arith_of_blob (nMinimumChainWork (consensus (env_params env))) then (True, st)
               else (False, st\<lparr>m_cached_finished_ibd := True\<rparr>)))"

definition cs_Initialize :: "node_env \<Rightarrow> CBlockHeader \<Rightarrow> chainstate \<Rightarrow> (bool \<times> chainstate) option" where
  "cs_Initialize env genesis_header st =
     (case bm_Initialize (env_crypto env) genesis_header (cs_block_manager st) of None \<Rightarrow> None
      | Some (False, bm) \<Rightarrow> Some (False, st\<lparr>cs_block_manager := bm\<rparr>)
      | Some (True, bm) \<Rightarrow>
          let st = st\<lparr>cs_block_manager := bm\<rparr> in
          (case GetTip st of None \<Rightarrow> Some (True, st)
           | Some gen \<Rightarrow>
               let st = modify_entry gen (\<lambda>e. fst (RaiseValidity e BLOCK_VALID_TREE)) st;
                   cs = AddCandidateUnchecked (the_index st) (Some gen) (cs_chain_selector st)
               in Some (True, st\<lparr>cs_chain_selector := SetBestHeader (Some gen) cs\<rparr>)))"

section \<open>The recursion of the code\<close>

abbreviation pool_size :: "chainstate \<Rightarrow> nat" where
  "pool_size st \<equiv> length (m_orphan_headers (cs_orphans st))"

lemma modify_entry_fields [simp]:
  "cs_orphans (modify_entry k f st) = cs_orphans st" "cs_chain_selector (modify_entry k f st) = cs_chain_selector st"
  "m_failed_blocks (modify_entry k f st) = m_failed_blocks st" "notified (modify_entry k f st) = notified st"
  "the_chain (modify_entry k f st) = the_chain st" "cs_suspicious_reorg_depth (modify_entry k f st) = cs_suspicious_reorg_depth st"
  "m_cached_finished_ibd (modify_entry k f st) = m_cached_finished_ibd st"
  by (simp_all add: modify_entry_def split: option.splits)

lemma mark_failed_child_orphans: "mark_failed_child w f st = Some st' \<Longrightarrow> cs_orphans st' = cs_orphans st"
proof (rule mark_failed_child.raw_induct [where P = "\<lambda>w f st st'. cs_orphans st' = cs_orphans st"])
  fix g w f s s'
  assume g: "\<And>w f s s'. g w f s = Some s' \<Longrightarrow> cs_orphans s' = cs_orphans s"
    and b: "(if w = f then Some s
      else let st = modify_entry w (\<lambda>e. e\<lparr>nStatus := nStatus e OR BLOCK_FAILED_CHILD\<rparr>) s in
        case parent_of (the_index st) w of None \<Rightarrow> None | Some p \<Rightarrow> g p f st) = Some s'"
  then show "cs_orphans s' = cs_orphans s" by (auto simp: Let_def split: if_splits option.splits dest!: g)
qed

lemma contextual_orphans:
  "ContextualCheckBlockHeaderWrapper env header p t state st = Some (ok, state', st') \<Longrightarrow> cs_orphans st' = cs_orphans st"
  by (auto simp: ContextualCheckBlockHeaderWrapper_def split: option.splits prod.splits if_splits)

lemma accept_with_cong:
  assumes "\<And>h (s :: chainstate). cs_orphans s = cs_orphans st \<Longrightarrow> P h s = Q h s"
  shows "accept_with P env header mp state st = accept_with Q env header mp state st"
proof -
  have i: "accept_insert P env header state' s = accept_insert Q env header state' s" if "cs_orphans s = cs_orphans st" for state' s
    using assms that by (simp add: accept_insert_def Let_def split: option.split)
  have "accept_child P env header mp p state st = accept_child Q env header mp p state st" for p
    using i contextual_orphans [of env header p _ state st] unfolding accept_child_def
    by (auto split: option.splits sum.splits prod.splits if_splits)
  then show ?thesis unfolding accept_with_def Let_def by (simp split: option.split sum.split prod.split)
qed

lemma accept_with_orphans:
  assumes "accept_with P env header mp state st = Some (r, state', st')"
    and "\<And>h s e s'. cs_orphans s = cs_orphans st \<Longrightarrow> P h s = Some (e, s') \<Longrightarrow> pool_size s' \<le> pool_size st"
  shows "pool_size st' \<le> pool_size st"
proof -
  have i: "pool_size s' \<le> pool_size st"
    if "accept_insert P env header t s = Some (r, t', s')" "cs_orphans s = cs_orphans st" for r t t' s s'
    using that by (auto simp: accept_insert_def Let_def split: option.splits prod.splits dest!: assms(2) [rotated])
  have "pool_size s' \<le> pool_size st" if "accept_child P env header mp p state st = Some (r, t', s')" for r p t' s'
    using that i contextual_orphans [of env header p _ state st] mark_failed_child_orphans [of p _ st] unfolding accept_child_def
    by (fastforce simp: rejected_def split: option.splits sum.splits prod.splits if_splits)
  then show ?thesis using assms(1) unfolding accept_with_def
    by (fastforce simp: rejected_def Let_def split: option.splits sum.splits prod.splits if_splits)
qed

lemma drop_orphan_less: "map_of (m_orphan_headers pool) h = Some orphan \<Longrightarrow>
    length (m_orphan_headers (drop_orphan h orphan pool)) < length (m_orphan_headers pool)"
  by (auto simp: drop_orphan_def om_erase_def intro!: length_filter_less dest!: map_of_SomeD)

lemma process_list_orphans:
  assumes "\<And>h mp state s r state' s'. acc h mp state s = Some (r, state', s') \<Longrightarrow> pool_size s' \<le> pool_size s"
  shows "process_list acc hs st = Some (e, st') \<Longrightarrow> pool_size st' \<le> pool_size st"
proof (induction hs arbitrary: st)
  case (Cons h hs)
  show ?case
  proof (cases "map_of (m_orphan_headers (cs_orphans st)) h")
    case None
    then show ?thesis using Cons by simp
  next
    case (Some orphan)
    let ?s = "st\<lparr>cs_orphans := drop_orphan h orphan (cs_orphans st)\<rparr>"
    have l: "pool_size ?s < pool_size st" using drop_orphan_less [OF Some] by simp
    obtain r t s where a: "acc (oh_header orphan) True new_ValidationState ?s = Some (r, t, s)"
      using Cons.prems Some by (auto split: option.splits)
    have "pool_size s < pool_size st" using assms [OF a] l by simp
    then show ?thesis using Cons Some a by (fastforce split: sum.splits)
  qed
qed simp

lemma accept_fuel_orphans: "accept_fuel n env header mp state st = Some (r, state', st') \<Longrightarrow> pool_size st' \<le> pool_size st"
proof (induction n arbitrary: header mp state st r state' st')
  case (Suc n)
  show ?case
  proof (rule accept_with_orphans [OF Suc.prems [unfolded accept_fuel.simps]])
    fix h and s s' :: chainstate and e assume s: "cs_orphans s = cs_orphans st"
      and p: "process_list (accept_fuel n env) (orphans_of h (cs_orphans s)) s = Some (e, s')"
    show "pool_size s' \<le> pool_size st" using process_list_orphans [OF Suc.IH p] s by simp
  qed
qed simp

lemma process_list_cong:
  assumes "\<And>h mp state s. pool_size s < n \<Longrightarrow> acc h mp state s = acc' h mp state s"
    and "\<And>h mp state s r state' s'. acc h mp state s = Some (r, state', s') \<Longrightarrow> pool_size s' \<le> pool_size s"
  shows "pool_size st \<le> n \<Longrightarrow> process_list acc hs st = process_list acc' hs st"
proof (induction hs arbitrary: st)
  case (Cons h hs)
  show ?case
  proof (cases "map_of (m_orphan_headers (cs_orphans st)) h")
    case None
    then show ?thesis using Cons by simp
  next
    case (Some orphan)
    let ?s = "st\<lparr>cs_orphans := drop_orphan h orphan (cs_orphans st)\<rparr>"
    have l: "pool_size ?s < pool_size st" using drop_orphan_less [OF Some] by simp
    have a: "acc (oh_header orphan) True new_ValidationState ?s = acc' (oh_header orphan) True new_ValidationState ?s"
      by (rule assms(1)) (use l Cons.prems in simp)
    have "process_list acc hs s' = process_list acc' hs s'"
      if "acc (oh_header orphan) True new_ValidationState ?s = Some (r, t, s')" for r t s'
      by (rule Cons.IH) (use assms(2) [OF that] l Cons.prems in simp)
    then show ?thesis using Some a by (auto split: option.splits sum.splits prod.splits)
  qed
qed simp

lemma accept_fuel_enough:
  "pool_size st < n \<Longrightarrow> pool_size st < n' \<Longrightarrow> accept_fuel n env header mp state st = accept_fuel n' env header mp state st"
proof (induction n arbitrary: n' header mp state st)
  case (Suc n)
  then obtain k where k: "n' = Suc k" by (cases n') auto
  show ?case unfolding k accept_fuel.simps
  proof (rule accept_with_cong)
    fix h and s :: chainstate assume s: "cs_orphans s = cs_orphans st"
    have e: "accept_fuel n env header mp state s = accept_fuel k env header mp state s" if "pool_size s < min n k" for header mp state s
      by (rule Suc.IH) (use that in auto)
    show "process_list (accept_fuel n env) (orphans_of h (cs_orphans s)) s = process_list (accept_fuel k env) (orphans_of h (cs_orphans s)) s"
      by (rule process_list_cong [of "min n k", OF e accept_fuel_orphans]) (use s Suc.prems k in auto)
  qed
qed simp

lemma AcceptBlockHeader_fuel: "pool_size st < n \<Longrightarrow> accept_fuel n env header mp state st = AcceptBlockHeader env header mp state st"
  unfolding AcceptBlockHeader_def by (rule accept_fuel_enough) simp_all

text \<open>The recursion of the code: with enough fuel there is no fuel.\<close>

lemma AcceptBlockHeader_eq:
  "AcceptBlockHeader env header mp state st = accept_with (ProcessOrphanHeaders env) env header mp state st"
  unfolding AcceptBlockHeader_def accept_fuel.simps
proof (rule accept_with_cong)
  fix h and s :: chainstate assume s: "cs_orphans s = cs_orphans st"
  show "process_list (accept_fuel (pool_size st) env) (orphans_of h (cs_orphans s)) s = ProcessOrphanHeaders env h s"
    unfolding ProcessOrphanHeaders_def
    by (rule process_list_cong [of "pool_size st", OF _ accept_fuel_orphans]) (use s in \<open>auto intro: AcceptBlockHeader_fuel\<close>)
qed

end
