(* ===== verification/Node_Invariant.thy ===== *)
theory Node_Invariant
  imports Header_Accept
begin

text \<open>
  The invariant of a node that follows the protocol, and what acceptance of headers does to it.  Besides
  the shape of index, chain and candidates it says that every indexed header hashes to its key, has the full
  proof of work (genesis apart), the difficulty the rule asks for and a timestamp after the median of its
  ancestors, and that descendants of failed blocks are failed.
\<close>

section \<open>The invariant of the node\<close>

definition is_failed :: "CBlockIndex \<Rightarrow> bool" where
  "is_failed e \<longleftrightarrow> nStatus e AND BLOCK_FAILED_MASK \<noteq> 0"

text \<open>Every entry is marked failed or validated to tree level, and a child of a failed block is failed.\<close>

definition statuses_ok :: "block_map \<Rightarrow> bool" where
  "statuses_ok m \<longleftrightarrow> list_all (\<lambda>(k, e). (is_failed e \<or> IsValid e BLOCK_VALID_TREE) \<and>
     (case pprev e of None \<Rightarrow> True | Some p \<Rightarrow>
        (case map_of m p of None \<Rightarrow> True | Some f \<Rightarrow> is_failed f \<longrightarrow> is_failed e))) m"

lemma statuses_okD:
  assumes "statuses_ok m" "map_of m k = Some e"
  shows "is_failed e \<or> IsValid e BLOCK_VALID_TREE" "pprev e = Some p \<Longrightarrow> map_of m p = Some f \<Longrightarrow> is_failed f \<Longrightarrow> is_failed e"
  using assms by (fastforce simp: statuses_ok_def list_all_iff dest!: map_of_SomeD [of m k])+

lemma statuses_okI:
  assumes "om_invar m" "\<And>k e. map_of m k = Some e \<Longrightarrow> is_failed e \<or> IsValid e BLOCK_VALID_TREE"
    and "\<And>k e p f. map_of m k = Some e \<Longrightarrow> pprev e = Some p \<Longrightarrow> map_of m p = Some f \<Longrightarrow> is_failed f \<Longrightarrow> is_failed e"
  shows "statuses_ok m"
  using assms(1) by (auto simp: statuses_ok_def list_all_iff om_entries_iff split: option.splits dest: assms(2,3))

text \<open>Every entry is stored under the hash of its header, and every entry but genesis has its proof of work.\<close>

definition authentic :: "crypto \<Rightarrow> ChainParams \<Rightarrow> block_map \<Rightarrow> bool" where
  "authentic cr params m \<longleftrightarrow> list_all (\<lambda>(k, e). header_hash cr (GetBlockHeader e) = k \<and>
     (pprev e \<noteq> None \<longrightarrow> CheckProofOfWork cr (GetBlockHeader e) (bi_nBits e) params FULL None = Inr (True, None))) m"

lemma authentic_iff:
  "om_invar m \<Longrightarrow> authentic cr params m \<longleftrightarrow> (\<forall>k e. map_of m k = Some e \<longrightarrow> header_hash cr (GetBlockHeader e) = k \<and>
     (pprev e \<noteq> None \<longrightarrow> CheckProofOfWork cr (GetBlockHeader e) (bi_nBits e) params FULL None = Inr (True, None)))"
  unfolding authentic_def list_all_iff by (auto simp: om_entries_iff dest: map_of_SomeD)

definition node_inv :: "node_env \<Rightarrow> chainstate \<Rightarrow> bool" where
  "node_inv env st \<longleftrightarrow> state_inv st \<and> times_ok (the_index st) \<and> bits_ok (the_index st) (env_params env) \<and>
     statuses_ok (the_index st) \<and> authentic (env_crypto env) (env_params env) (the_index st) \<and> pool_inv (cs_orphans st)"

lemma node_inv_index: "node_inv env st \<Longrightarrow> index_inv (the_index st)"
  by (simp add: node_inv_def state_inv_def)

section \<open>Inserting an accepted header\<close>

definition accepted_entry :: "block_map \<Rightarrow> CBlockHeader \<Rightarrow> CBlockIndex \<Rightarrow> int \<Rightarrow> CBlockIndex" where
  "accepted_entry m header f now = (child_entry m header f)\<lparr>nTimeReceived := now, nStatus := BLOCK_VALID_TREE\<rparr>"

lemma child_entry_status [simp]: "nStatus (child_entry m header f) = 0"
  by (simp add: child_entry_def)

lemma accepted_entry_fields [simp]:
  "pprev (accepted_entry m header f now) = Some (hashPrevBlock header)" "bi_nBits (accepted_entry m header f now) = nBits header"
  "nHeight (accepted_entry m header f now) = nHeight f + 1"
  "nChainWork (accepted_entry m header f now) = nChainWork f + GetBlockProof (new_block_index header)"
  "index_time (accepted_entry m header f now) = uint (nTime header)" "\<not> is_failed (accepted_entry m header f now)"
  "IsValid (accepted_entry m header f now) BLOCK_VALID_TREE"
  by (simp_all add: accepted_entry_def child_entry_def is_failed_def IsValid_def BLOCK_VALID_TREE_def BLOCK_FAILED_MASK_def
      BLOCK_FAILED_VALID_def BLOCK_FAILED_CHILD_def VALIDITY_LEVEL_MASK_def)

lemma accepted_entry_header [simp]: "GetBlockHeader (accepted_entry m header f now) = header"
  by (simp add: accepted_entry_def child_entry_def GetBlockHeader_def new_block_index_def)

definition inserted :: "node_env \<Rightarrow> CBlockHeader \<Rightarrow> CBlockIndex \<Rightarrow> chainstate \<Rightarrow> chainstate" where
  "inserted env header f st =
     (let h = header_hash (env_crypto env) header;
          m = om_update h (accepted_entry (the_index st) header f (env_now env)) (the_index st)
      in st\<lparr>cs_block_manager := (cs_block_manager st)\<lparr>m_block_index := m\<rparr>,
            cs_chain_selector := UpdateBestHeader m (Some h) (cs_chain_selector st)\<rparr>)"

lemma UpdateBestHeader_candidates [simp]: "m_candidates (UpdateBestHeader m k cs) = m_candidates cs"
  by (simp add: UpdateBestHeader_def split: option.split)

lemma inserted_fields [simp]:
  "the_index (inserted env header f st) =
     om_update (header_hash (env_crypto env) header) (accepted_entry (the_index st) header f (env_now env)) (the_index st)"
  "the_chain (inserted env header f st) = the_chain st" "cs_orphans (inserted env header f st) = cs_orphans st"
  "m_candidates (cs_chain_selector (inserted env header f st)) = m_candidates (cs_chain_selector st)"
  "m_failed_blocks (inserted env header f st) = m_failed_blocks st" "notified (inserted env header f st) = notified st"
  "cs_suspicious_reorg_depth (inserted env header f st) = cs_suspicious_reorg_depth st"
  "m_cached_finished_ibd (inserted env header f st) = m_cached_finished_ibd st"
  by (simp_all add: inserted_def Let_def)

lemma raise_new: "nStatus e = 0 \<Longrightarrow> fst (RaiseValidity e BLOCK_VALID_TREE) = e\<lparr>nStatus := BLOCK_VALID_TREE\<rparr>"
  by (simp add: RaiseValidity_def BLOCK_VALID_TREE_def)

lemma accept_insert_eq:
  assumes m: "index_inv (the_index st)" and h: "map_of (the_index st) (header_hash (env_crypto env) header) = None"
    and p: "map_of (the_index st) (hashPrevBlock header) = Some f"
  shows "accept_insert P env header state st =
    (case P (header_hash (env_crypto env) header) (inserted env header f st) of None \<Rightarrow> None
     | Some (Some err, st) \<Rightarrow> Some (Inl err, state, st)
     | Some (None, st) \<Rightarrow> Some (Inr (Some (header_hash (env_crypto env) header)), state, st))"
proof -
  have a: "AddToBlockIndex (env_crypto env) header (cs_block_manager st) =
      Some (Some (header_hash (env_crypto env) header), (cs_block_manager st)\<lparr>m_block_index :=
        om_update (header_hash (env_crypto env) header) (child_entry (the_index st) header f) (the_index st)\<rparr>)"
    by (rule AddToBlockIndex_child [OF m h p])
  show ?thesis unfolding accept_insert_def a
    by (simp add: modify_entry_def om_update_twice raise_new inserted_def accepted_entry_def Let_def)
qed

lemma inserted_inv:
  assumes i: "node_inv env st" and h: "map_of (the_index st) (header_hash (env_crypto env) header) = None"
    and p: "map_of (the_index st) (hashPrevBlock header) = Some f" "\<not> is_failed f"
    and r: "GetMedianTimePast (the_index st) (hashPrevBlock header) < uint (nTime header)"
      "GetNextWorkRequired (the_index st) (Some (hashPrevBlock header)) (env_params env) = Some (nBits header)"
      "CheckProofOfWork (env_crypto env) header (nBits header) (env_params env) FULL None = Inr (True, None)"
  shows "node_inv env (inserted env header f st)"
proof -
  let ?m = "the_index st" and ?h = "header_hash (env_crypto env) header"
  define e where "e = accepted_entry ?m header f (env_now env)"
  define m' where "m' = om_update ?h e ?m"
  have m: "index_inv ?m" using i by (rule node_inv_index)
  have m': "index_inv m'" unfolding m'_def
    by (rule index_inv_add [OF m h p(1)]) (simp_all add: e_def accepted_entry_def child_entry_def)
  have s: "index_sub ?m m'" unfolding m'_def using h by (rule index_sub_new)
  have "times_ok m'" "bits_ok m' (env_params env)"
    by (rule rules_sub [OF m m' s]; use i p r in \<open>auto simp: node_inv_def m'_def e_def split: if_splits\<close>)+
  moreover have "statuses_ok m'"
  proof (rule statuses_okI [OF index_om [OF m']])
    have st: "statuses_ok ?m" using i by (simp add: node_inv_def)
    show "is_failed g \<or> IsValid g BLOCK_VALID_TREE" if "map_of m' k = Some g" for k g
      using that statuses_okD(1) [OF st] by (auto simp: m'_def e_def split: if_splits)
    show "is_failed g" if g: "map_of m' k = Some g" "pprev g = Some q" "map_of m' q = Some u" "is_failed u" for k g q u
    proof (cases "k = ?h")
      case True
      then have "q = hashPrevBlock header" using g by (auto simp: m'_def e_def)
      moreover have "hashPrevBlock header \<noteq> ?h" using p(1) h by auto
      ultimately have "u = f" using g p by (simp add: m'_def)
      then show ?thesis using g p by simp
    next
      case False
      then have g': "map_of ?m k = Some g" using g by (simp add: m'_def)
      have "map_of ?m q \<noteq> None" by (rule index_parent [OF m g' g(2)]) simp
      then have "map_of ?m q = Some u" using g h by (auto simp: m'_def split: if_splits)
      then show ?thesis using statuses_okD(2) [OF st g' g(2)] g(4) by blast
    qed
  qed
  moreover have "authentic (env_crypto env) (env_params env) m'"
  proof -
    have "authentic (env_crypto env) (env_params env) ?m" using i by (simp add: node_inv_def)
    then show ?thesis using r(3) unfolding authentic_iff [OF index_om [OF m']] authentic_iff [OF index_om [OF m]]
      by (simp add: m'_def e_def)
  qed
  moreover have "state_inv (inserted env header f st)"
    using i m' index_sub_chain [OF m s] index_sub_cands [OF s] index_sub_fields(1) [OF s]
    by (auto simp: node_inv_def state_inv_def m'_def e_def list_all_iff)
  ultimately show ?thesis using i by (simp add: node_inv_def m'_def e_def)
qed

section \<open>Which headers are accepted\<close>

definition valid_child :: "node_env \<Rightarrow> block_map \<Rightarrow> CBlockHeader \<Rightarrow> bool" where
  "valid_child env m header \<longleftrightarrow> \<not> blob_IsNull (hashPrevBlock header) \<and>
     (case map_of m (hashPrevBlock header) of None \<Rightarrow> False
      | Some f \<Rightarrow> \<not> is_failed f \<and> (let expiry = nNetworkExpirationInterval (consensus (env_params env)) in
          expiry > 0 \<longrightarrow> nHeight f + 1 < expiry)) \<and>
     GetNextWorkRequired m (Some (hashPrevBlock header)) (env_params env) = Some (nBits header) \<and>
     GetMedianTimePast m (hashPrevBlock header) < uint (nTime header) \<and>
     uint (nTime header) \<le> GetAdjustedTime (env_now env) (env_timedata env) + MAX_FUTURE_BLOCK_TIME \<and>
     1 \<le> sint (nVersion header) \<and>
     CheckProofOfWork (env_crypto env) header (nBits header) (env_params env) FULL None = Inr (True, None)"

lemma state_Invalid_simps [simp]:
  "fst (state_Invalid r g s) = False" "vs_result (snd (state_Invalid r g s)) = INVALID" "reject_reason (snd (state_Invalid r g s)) = r"
  by (simp_all add: state_Invalid_def)

lemma commitment_of_full:
  "CheckProofOfWork cr b bits params FULL None = Inr (True, h) \<Longrightarrow> CheckProofOfWork cr b bits params COMMITMENT_ONLY None = Inr (True, None)"
  by (auto simp: pow_defs split: prod.splits if_splits sum.splits)

lemma pow_no_output: "CheckProofOfWork cr b bits params mode None = Inr (ok, h) \<Longrightarrow> h = None"
  by (auto simp: pow_defs split: prod.splits if_splits sum.splits option.splits)

lemma commitment_no_throw: "\<exists>ok. CheckProofOfWork cr b bits params COMMITMENT_ONLY None = Inr (ok, None)"
  by (auto simp: pow_defs split: prod.splits)

definition only_expired :: "notification list \<Rightarrow> bool" where
  "only_expired ns \<longleftrightarrow> list_all (\<lambda>n. \<exists>a b. n = NetworkExpired a b) ns"

lemma contextual_spec:
  assumes "GetNextWorkRequired (the_index st) (Some p) (env_params env) = Some c" "map_of (the_index st) p = Some f"
  shows "\<exists>ok state' ns. ContextualCheckBlockHeaderWrapper env header p t state st = Some (ok, state', st\<lparr>notified := notified st @ ns\<rparr>) \<and>
    only_expired ns \<and> (ok \<longrightarrow> state' = state \<and> ns = []) \<and> (\<not> ok \<longrightarrow> vs_result state' = INVALID) \<and>
    (ok \<longleftrightarrow> nBits header = c \<and> GetMedianTimePast (the_index st) p < uint (nTime header) \<and>
       uint (nTime header) \<le> t + MAX_FUTURE_BLOCK_TIME \<and> 1 \<le> sint (nVersion header) \<and>
       (nNetworkExpirationInterval (consensus (env_params env)) > 0 \<longrightarrow> nHeight f + 1 < nNetworkExpirationInterval (consensus (env_params env))))"
proof -
  obtain r where "ContextualCheckBlockHeader (the_index st) header (Some p) (env_params env) t state = Some r"
    using assms(1) by (auto simp: ContextualCheckBlockHeader_def)
  then obtain ok state' where c0: "ContextualCheckBlockHeader (the_index st) header (Some p) (env_params env) t state = Some (ok, state')"
    by (cases r) auto
  then have c: "ContextualCheckBlockHeader (the_index st) header (Some p) (env_params env) t state = Some (ok, state')"
    "ok \<longrightarrow> state' = state" "\<not> ok \<longrightarrow> vs_result state' = INVALID"
    "ok \<longleftrightarrow> nBits header = c \<and> GetMedianTimePast (the_index st) p < uint (nTime header) \<and>
       uint (nTime header) \<le> t + MAX_FUTURE_BLOCK_TIME \<and> 1 \<le> sint (nVersion header) \<and>
       (nNetworkExpirationInterval (consensus (env_params env)) > 0 \<longrightarrow> nHeight f + 1 < nNetworkExpirationInterval (consensus (env_params env)))"
    using assms by (auto simp: ContextualCheckBlockHeader_def height_of_Some Let_def state_Invalid_def split: if_splits)
  define ns where "ns = (if \<not> ok \<and> reject_reason state' = ''network-expired'' then [NetworkExpired (height_of (the_index st) p + 1)
      (nNetworkExpirationInterval (consensus (env_params env)))] else [])"
  have "ContextualCheckBlockHeaderWrapper env header p t state st = Some (ok, state', st\<lparr>notified := notified st @ ns\<rparr>)"
    unfolding ContextualCheckBlockHeaderWrapper_def c(1) by (simp add: ns_def)
  moreover have "only_expired ns" "ok \<longrightarrow> ns = []" by (simp_all add: ns_def only_expired_def)
  ultimately show ?thesis using c(2-4) by blast
qed

lemma accept_with_valid:
  assumes i: "node_inv env st" and h: "map_of (the_index st) (header_hash (env_crypto env) header) = None"
    and v: "valid_child env (the_index st) header"
  shows "accept_with P env header True state st = accept_insert P env header state st"
proof -
  obtain f where f: "map_of (the_index st) (hashPrevBlock header) = Some f" using v by (auto simp: valid_child_def split: option.splits)
  have nf: "\<not> is_failed f" using v f by (simp add: valid_child_def)
  then have iv: "IsValid f BLOCK_VALID_TREE" using statuses_okD(1) [OF _ f] i by (auto simp: node_inv_def)
  have g: "GetNextWorkRequired (the_index st) (Some (hashPrevBlock header)) (env_params env) = Some (nBits header)"
    using v by (simp add: valid_child_def)
  have c: "ContextualCheckBlockHeaderWrapper env header (hashPrevBlock header) (GetAdjustedTime (env_now env) (env_timedata env)) state st =
      Some (True, state, st)"
    using contextual_spec [OF g f, of header "GetAdjustedTime (env_now env) (env_timedata env)" state] v f
    by (auto simp: valid_child_def Let_def)
  have pow: "CheckProofOfWork (env_crypto env) header (nBits header) (env_params env) FULL None = Inr (True, None)"
    using v by (simp add: valid_child_def)
  have "accept_child P env header True (hashPrevBlock header) state st = accept_insert P env header state st"
    using f nf iv c pow by (simp add: accept_child_def is_failed_def CheckBlockHeader_def)
  moreover have "\<not> blob_IsNull (hashPrevBlock header)" using v by (simp add: valid_child_def)
  ultimately show ?thesis using h f commitment_of_full [OF pow] by (simp add: accept_with_def LookupBlockIndex_def)
qed

lemma with_notified_same: "st\<lparr>notified := notified st @ []\<rparr> = st"
  by simp

lemma accept_with_invalid:
  assumes i: "node_inv env st" and a: "asert_params (env_params env)" and size: "int (length (the_index st)) < 2 ^ 31"
    and h: "map_of (the_index st) (header_hash (env_crypto env) header) = None"
    and v: "\<not> (valid_child env (the_index st) header \<and> mp)"
  shows "\<exists>r state' ns. accept_with P env header mp state st = Some (r, state', st\<lparr>notified := notified st @ ns\<rparr>) \<and> only_expired ns \<and>
    (r = Inr None \<and> vs_result state' = INVALID \<or> (\<exists>e. r = Inl e \<and> CheckProofOfWork (env_crypto env) header (nBits header) (env_params env) FULL None = Inl e))"
    (is "\<exists>r state' ns. ?A r state' ns")
proof -
  let ?m = "the_index st" and ?p = "hashPrevBlock header"
  have m: "index_inv ?m" using i by (rule node_inv_index)
  have rej: "\<exists>r state' ns. ?A r state' ns" if "accept_with P env header mp state st = rejected reason msg s st" for reason msg s
    using that by (intro exI [of _ "Inr None"] exI [of _ "snd (state_Invalid reason msg s)"] exI [of _ "[]"]) (simp add: rejected_def only_expired_def)
  obtain ok where cm: "CheckProofOfWork (env_crypto env) header (nBits header) (env_params env) COMMITMENT_ONLY None = Inr (ok, None)"
    using commitment_no_throw by blast
  show ?thesis
  proof (cases "\<not> ok \<or> blob_IsNull ?p \<or> map_of ?m ?p = None")
    case True
    then have "\<exists>reason msg. accept_with P env header mp state st = rejected reason msg state st"
      using h cm by (auto simp: accept_with_def LookupBlockIndex_def Let_def split: option.split)
    then show ?thesis using rej by blast
  next
    case False
    then obtain f where f: "map_of ?m ?p = Some f" and ok: "ok" "\<not> blob_IsNull ?p" by blast
    have step: "accept_with P env header mp state st = accept_child P env header mp ?p state st"
      using h cm ok f by (simp add: accept_with_def LookupBlockIndex_def)
    show ?thesis
    proof (cases "is_failed f")
      case True
      then show ?thesis using f by (intro rej) (simp add: step accept_child_def is_failed_def)
    next
      case nf: False
      then have iv: "IsValid f BLOCK_VALID_TREE" using statuses_okD(1) [OF _ f] i by (auto simp: node_inv_def)
      have "nHeight f < 2 ^ 31 - 1" using height_less_size [OF m, of ?p] f size by (simp add: height_of_Some)
      then obtain c where c: "GetNextWorkRequired ?m (Some ?p) (env_params env) = Some c"
        using GetNextWorkRequired_total [OF m _ _ a f] i by (auto simp: node_inv_def)
      obtain ok2 state2 ns where w: "ContextualCheckBlockHeaderWrapper env header ?p (GetAdjustedTime (env_now env) (env_timedata env)) state st =
          Some (ok2, state2, st\<lparr>notified := notified st @ ns\<rparr>)" "only_expired ns" "ok2 \<longrightarrow> state2 = state \<and> ns = []" "\<not> ok2 \<longrightarrow> vs_result state2 = INVALID"
        and w2: "ok2 \<longleftrightarrow> nBits header = c \<and> GetMedianTimePast ?m ?p < uint (nTime header) \<and>
          uint (nTime header) \<le> GetAdjustedTime (env_now env) (env_timedata env) + MAX_FUTURE_BLOCK_TIME \<and> 1 \<le> sint (nVersion header) \<and>
          (nNetworkExpirationInterval (consensus (env_params env)) > 0 \<longrightarrow> nHeight f + 1 < nNetworkExpirationInterval (consensus (env_params env)))"
        using contextual_spec [OF c f] by blast
      show ?thesis
      proof (cases ok2)
        case False
        then have "accept_with P env header mp state st = Some (Inr None, state2, st\<lparr>notified := notified st @ ns\<rparr>)"
          using nf iv f w(1) by (simp add: step accept_child_def is_failed_def)
        then show ?thesis using w(2,4) False by blast
      next
        case True
        then have w1: "ContextualCheckBlockHeaderWrapper env header ?p (GetAdjustedTime (env_now env) (env_timedata env)) state st =
          Some (True, state, st)" using w(1,3) by simp
        have rules: "valid_child env ?m header \<longleftrightarrow>
            CheckProofOfWork (env_crypto env) header (nBits header) (env_params env) FULL None = Inr (True, None)"
          using True w2 nf f ok c by (auto simp: valid_child_def Let_def)
        show ?thesis
        proof (cases "CheckProofOfWork (env_crypto env) header (nBits header) (env_params env) FULL None")
          case (Inl e)
          then have "accept_with P env header mp state st = Some (Inl e, state, st\<lparr>notified := notified st @ []\<rparr>)"
            using nf iv f w1 by (simp add: step accept_child_def is_failed_def CheckBlockHeader_def)
          moreover have "only_expired []" by (simp add: only_expired_def)
          ultimately show ?thesis using Inl by blast
        next
          case (Inr r)
          then obtain b where b: "r = (b, None)" using pow_no_output by (cases r) metis
          show ?thesis
          proof (cases b)
            case False
            then have "accept_with P env header mp state st = rejected ''high-hash'' ''proof of work failed'' state st"
              using nf iv f w1 Inr b by (simp add: step accept_child_def is_failed_def CheckBlockHeader_def rejected_def state_Invalid_def)
            then show ?thesis by (rule rej)
          next
            case True
            then have "\<not> mp" using v rules Inr b by simp
            then have "accept_with P env header mp state st =
                rejected ''too-little-chainwork'' ''missing anti-DoS work validation'' state st"
              unfolding step using nf iv f w1 Inr b True by (simp add: accept_child_def is_failed_def CheckBlockHeader_def)
            then show ?thesis by (rule rej)
          qed
        qed
      qed
    qed
  qed
qed

section \<open>What acceptance may change\<close>

definition grown :: "chainstate \<Rightarrow> chainstate \<Rightarrow> bool" where
  "grown st st' \<longleftrightarrow> (\<forall>k e. map_of (the_index st) k = Some e \<longrightarrow> map_of (the_index st') k = Some e) \<and>
     the_chain st' = the_chain st \<and> m_candidates (cs_chain_selector st') = m_candidates (cs_chain_selector st) \<and>
     m_failed_blocks st' = m_failed_blocks st \<and> cs_suspicious_reorg_depth st' = cs_suspicious_reorg_depth st \<and>
     m_cached_finished_ibd st' = m_cached_finished_ibd st \<and>
     set (m_orphan_headers (cs_orphans st')) \<subseteq> set (m_orphan_headers (cs_orphans st)) \<and>
     (\<exists>ns. notified st' = notified st @ ns \<and> only_expired ns)"

lemma grown_refl [simp]: "grown st st"
  by (auto simp: grown_def only_expired_def)

lemma grown_notified: "only_expired ns \<Longrightarrow> grown st (st\<lparr>notified := notified st @ ns\<rparr>)"
  by (auto simp: grown_def)

lemma grown_trans:
  assumes "grown a b" "grown b c"
  shows "grown a c"
proof -
  obtain x y where "notified b = notified a @ x" "only_expired x" "notified c = notified b @ y" "only_expired y"
    using assms by (auto simp: grown_def)
  then have "\<exists>ns. notified c = notified a @ ns \<and> only_expired ns"
    by (intro exI [of _ "x @ y"]) (simp add: only_expired_def)
  then show ?thesis using assms by (auto simp: grown_def)
qed

lemma grown_drop: "grown st (st\<lparr>cs_orphans := drop_orphan h orphan (cs_orphans st)\<rparr>)"
  by (auto simp: grown_def drop_orphan_def om_erase_def only_expired_def)

lemma grown_inserted:
  "map_of (the_index st) (header_hash (env_crypto env) header) = None \<Longrightarrow> grown st (inserted env header f st)"
  by (auto simp: grown_def only_expired_def)

definition weight :: "chainstate \<Rightarrow> nat" where
  "weight st = length (the_index st) + pool_size st"

text \<open>
  Room for work: no block of the index has wrapped around to work zero, and no chain would reach $2^{256}$ if the work of all orphans and
  \<open>n\<close> more were put on top of it.
\<close>

definition header_work :: "CBlockHeader \<Rightarrow> nat" where
  "header_work header = unat (GetBlockProof (new_block_index header))"

definition orphan_work :: "orphan_pool \<Rightarrow> nat" where
  "orphan_work pool = (\<Sum>x \<in> set (m_orphan_headers pool). header_work (oh_header (snd x)))"

definition work_room :: "chainstate \<Rightarrow> nat \<Rightarrow> bool" where
  "work_room st n \<longleftrightarrow> (\<forall>(k, e) \<in> set (the_index st). nChainWork e \<noteq> 0 \<and> unat (nChainWork e) + orphan_work (cs_orphans st) + n < 2 ^ 256)"

lemma orphan_work_mono: "set (m_orphan_headers pool') \<subseteq> set (m_orphan_headers pool) \<Longrightarrow> orphan_work pool' \<le> orphan_work pool"
  unfolding orphan_work_def by (rule sum_mono2) simp_all

lemma orphan_work_insert:
  assumes "set (m_orphan_headers pool') \<subseteq> insert (h, orphan) (set (m_orphan_headers pool))"
  shows "orphan_work pool' \<le> header_work (oh_header orphan) + orphan_work pool"
proof -
  let ?f = "\<lambda>x. header_work (oh_header (snd x))"
  have "orphan_work pool' \<le> sum ?f (insert (h, orphan) (set (m_orphan_headers pool)))"
    unfolding orphan_work_def by (rule sum_mono2) (use assms in simp_all)
  also have "\<dots> \<le> header_work (oh_header orphan) + orphan_work pool"
    by (simp add: orphan_work_def sum.insert_if)
  finally show ?thesis .
qed

lemma work_room_mono:
  assumes "work_room st n" and "set (the_index st') \<subseteq> set (the_index st)" and "orphan_work (cs_orphans st') + n' \<le> orphan_work (cs_orphans st) + n"
  shows "work_room st' n'"
  unfolding work_room_def
proof (clarify, intro conjI)
  fix k e assume "(k, e) \<in> set (the_index st')"
  then have e: "nChainWork e \<noteq> 0" "unat (nChainWork e) + orphan_work (cs_orphans st) + n < 2 ^ 256"
    using assms(1,2) by (auto simp: work_room_def)
  show "nChainWork e \<noteq> 0" by (rule e(1))
  show "unat (nChainWork e) + orphan_work (cs_orphans st') + n' < 2 ^ 256" using e(2) assms(3) by linarith
qed

lemma work_room_drop:
  assumes "work_room st n" and "map_of (m_orphan_headers (cs_orphans st)) h = Some orphan"
  shows "work_room (st\<lparr>cs_orphans := drop_orphan h orphan (cs_orphans st)\<rparr>) (header_work (oh_header orphan) + n)"
proof (rule work_room_mono [OF assms(1)])
  let ?f = "\<lambda>x. header_work (oh_header (snd x))" and ?m = "m_orphan_headers (cs_orphans st)"
  have "insert (h, orphan) (set (om_erase h ?m)) \<subseteq> set ?m" using map_of_SomeD [OF assms(2)] by (auto simp: om_erase_def)
  then have "sum ?f (insert (h, orphan) (set (om_erase h ?m))) \<le> sum ?f (set ?m)" by (rule sum_mono2 [rotated]) simp_all
  moreover have "(h, orphan) \<notin> set (om_erase h ?m)" by (simp add: om_erase_def)
  ultimately show "orphan_work (cs_orphans (st\<lparr>cs_orphans := drop_orphan h orphan (cs_orphans st)\<rparr>)) + (header_work (oh_header orphan) + n)
      \<le> orphan_work (cs_orphans st) + n"
    by (simp add: orphan_work_def drop_orphan_def)
qed simp

lemma pow_has_work: "CheckProofOfWork cr header (nBits header) params FULL None = Inr (True, None) \<Longrightarrow> GetBlockProof (new_block_index header) \<noteq> 0"
  by (auto simp: GetBlockProof_zero_iff CheckProofOfWork_def Let_def new_block_index_def split: prod.splits if_splits)

lemma work_room_inserted:
  assumes "work_room st (header_work header + n)" and "map_of (the_index st) (hashPrevBlock header) = Some f"
    and "GetBlockProof (new_block_index header) \<noteq> 0"
  shows "work_room (inserted env header f st) n"
proof -
  let ?e = "accepted_entry (the_index st) header f (env_now env)"
  have old: "nChainWork e \<noteq> 0" "unat (nChainWork e) + orphan_work (cs_orphans st) + n + header_work header < 2 ^ 256"
    if "(k, e) \<in> set (the_index st)" for k e
    using assms(1) that by (auto simp: work_room_def)
  note f = old [OF map_of_SomeD [OF assms(2)]]
  have u: "unat (nChainWork ?e) = unat (nChainWork f) + header_work header"
    using f(2) by (simp add: unat_plus_if' header_work_def)
  have "nChainWork ?e \<noteq> 0" using u assms(3) by (auto simp: header_work_def unat_eq_0)
  moreover have "unat (nChainWork ?e) + orphan_work (cs_orphans st) + n < 2 ^ 256" using u f(2) by linarith
  moreover have "unat (nChainWork e) + orphan_work (cs_orphans st) + n < 2 ^ 256" if "(k, e) \<in> set (the_index st)" for k e
    using old(2) [OF that] by linarith
  ultimately show ?thesis
    using old(1) set_om_update [of "header_hash (env_crypto env) header" ?e "the_index st"] by (auto simp: work_room_def)
qed

text \<open>The virtual machine can be created for every epoch.\<close>

definition vm_ok :: "node_env \<Rightarrow> bool" where
  "vm_ok env \<longleftrightarrow> (\<forall>epoch. \<exists>seed. vm_seed (env_crypto env) epoch = Inr seed)"

lemma vm_ok_no_throw: "vm_ok env \<Longrightarrow> CheckProofOfWork (env_crypto env) b bits params FULL None \<noteq> Inl e"
  by (auto simp: vm_ok_def pow_defs split: prod.splits if_splits sum.splits option.splits) (metis Inl_Inr_False)+

section \<open>Acceptance ends and keeps the invariant\<close>

definition accept_ok :: "node_env \<Rightarrow> CBlockHeader \<Rightarrow> bool \<Rightarrow> chainstate \<Rightarrow> accept_result \<Rightarrow> bool" where
  "accept_ok env header mp st res \<longleftrightarrow> (\<exists>r state' st'. res = Some (r, state', st') \<and> node_inv env st' \<and> grown st st' \<and>
     weight st' \<le> weight st + 1 \<and> (vm_ok env \<longrightarrow> (\<forall>e. r \<noteq> Inl e)) \<and>
     (\<forall>n. work_room st (header_work header + n) \<longrightarrow> work_room st' n) \<and>
     (r = Inr None \<longrightarrow> (\<forall>n. work_room st n \<longrightarrow> work_room st' n)) \<and>
     (let h = header_hash (env_crypto env) header in
      (\<forall>k. r = Inr (Some k) \<longrightarrow> k = h \<and> (case map_of (the_index st') h of None \<Rightarrow> False | Some e \<Rightarrow> \<not> is_failed e)) \<and>
      (map_of (the_index st) h = None \<longrightarrow>
        (if mp \<and> valid_child env (the_index st) header
         then r \<noteq> Inr None \<and> map_of (the_index st') h =
           Some (accepted_entry (the_index st) header (the (map_of (the_index st) (hashPrevBlock header))) (env_now env))
         else the_index st' = the_index st \<and> r \<noteq> Inr (Some h)))))"

definition process_ok :: "node_env \<Rightarrow> chainstate \<Rightarrow> (pow_error option \<times> chainstate) option \<Rightarrow> bool" where
  "process_ok env st res \<longleftrightarrow> (\<exists>e st'. res = Some (e, st') \<and> node_inv env st' \<and> grown st st' \<and> weight st' \<le> weight st \<and>
     (\<forall>n. work_room st n \<longrightarrow> work_room st' n) \<and> (vm_ok env \<longrightarrow> e = None))"

lemma node_inv_notified: "node_inv env st \<Longrightarrow> node_inv env (st\<lparr>notified := ns\<rparr>)"
  by (simp add: node_inv_def state_inv_def)

lemma node_inv_drop:
  "node_inv env st \<Longrightarrow> map_of (m_orphan_headers (cs_orphans st)) h = Some orphan \<Longrightarrow>
   node_inv env (st\<lparr>cs_orphans := drop_orphan h orphan (cs_orphans st)\<rparr>)"
  using drop_orphan_inv [of "cs_orphans st"] by (simp add: node_inv_def state_inv_def)

lemma process_list_ok:
  assumes "\<And>h s. node_inv env s \<Longrightarrow> pool_size s < n \<Longrightarrow> int (weight s) + 1 < 2 ^ 31 \<Longrightarrow>
      accept_ok env h True s (acc h True new_ValidationState s)"
  shows "node_inv env st \<Longrightarrow> pool_size st \<le> n \<Longrightarrow> int (weight st) < 2 ^ 31 \<Longrightarrow> process_ok env st (process_list acc hs st)"
proof (induction hs arbitrary: st)
  case Nil
  then show ?case by (simp add: process_ok_def)
next
  case (Cons h hs)
  show ?case
  proof (cases "map_of (m_orphan_headers (cs_orphans st)) h")
    case None
    then show ?thesis using Cons by simp
  next
    case (Some orphan)
    let ?s = "st\<lparr>cs_orphans := drop_orphan h orphan (cs_orphans st)\<rparr>"
    have l: "pool_size ?s < pool_size st" using drop_orphan_less [OF Some] by simp
    then have w: "weight ?s < weight st" by (simp add: weight_def)
    have i: "node_inv env ?s" by (rule node_inv_drop [OF Cons.prems(1) Some])
    have "accept_ok env (oh_header orphan) True ?s (acc (oh_header orphan) True new_ValidationState ?s)"
      by (rule assms [OF i]) (use l w Cons.prems in auto)
    then obtain r t s where a: "acc (oh_header orphan) True new_ValidationState ?s = Some (r, t, s)" "node_inv env s" "grown ?s s"
      "weight s \<le> weight ?s + 1" "vm_ok env \<longrightarrow> (\<forall>e. r \<noteq> Inl e)"
      and room: "\<forall>n. work_room ?s (header_work (oh_header orphan) + n) \<longrightarrow> work_room s n"
      unfolding accept_ok_def by auto
    have room: "\<forall>n. work_room st n \<longrightarrow> work_room s n" using room work_room_drop [OF _ Some] by blast
    have g: "grown st s" by (rule grown_trans [OF grown_drop a(3)])
    have ws: "weight s \<le> weight st" using a(4) w by simp
    show ?thesis
    proof (cases r)
      case (Inl e)
      then show ?thesis using Some a g ws room by (simp add: process_ok_def)
    next
      case (Inr x)

      have ps: "pool_size s \<le> n"
      proof -
        have "om_invar (m_orphan_headers (cs_orphans s))" using a(2) by (simp add: node_inv_def pool_inv_def pool_ok_def)
        then have "distinct (m_orphan_headers (cs_orphans s))" using om_distinct by (auto simp: distinct_map)
        then have "pool_size s = card (set (m_orphan_headers (cs_orphans s)))" by (simp add: distinct_card)
        also have "\<dots> \<le> card (set (m_orphan_headers (cs_orphans ?s)))" by (rule card_mono) (use a(3) in \<open>auto simp: grown_def\<close>)
        also have "\<dots> \<le> pool_size ?s" by (rule card_length)
        finally show ?thesis using l Cons.prems(2) by simp
      qed
      have "process_ok env s (process_list acc hs s)" by (rule Cons.IH [OF a(2) ps]) (use ws Cons.prems(3) in simp)
      then obtain e s' where "process_list acc hs s = Some (e, s')" "node_inv env s'" "grown s s'" "weight s' \<le> weight s" "vm_ok env \<longrightarrow> e = None"
          "\<forall>n. work_room s n \<longrightarrow> work_room s' n"
        by (auto simp: process_ok_def)
      then show ?thesis using Some a(1) Inr grown_trans [OF g] ws room by (auto simp: process_ok_def)
    qed
  qed
qed

lemma accept_with_ok:
  assumes P: "\<And>h s. node_inv env s \<Longrightarrow> cs_orphans s = cs_orphans st \<Longrightarrow> int (weight s) < 2 ^ 31 \<Longrightarrow> process_ok env s (P h s)"
    and i: "node_inv env st" and a: "asert_params (env_params env)" and w: "int (weight st) + 1 < 2 ^ 31"
  shows "accept_ok env header mp st (accept_with P env header mp state st)"
proof -
  let ?m = "the_index st" and ?h = "header_hash (env_crypto env) header"
  show ?thesis
  proof (cases "map_of ?m ?h")
    case (Some e)
    then show ?thesis using i by (auto simp: accept_with_def accept_ok_def rejected_def is_failed_def elim: work_room_mono)
  next
    case None
    show ?thesis
    proof (cases "valid_child env ?m header \<and> mp")
      case True
      then obtain f where f: "map_of ?m (hashPrevBlock header) = Some f" "\<not> is_failed f"
        by (auto simp: valid_child_def split: option.splits)
      have m: "index_inv ?m" using i by (rule node_inv_index)
      have e: "accept_with P env header mp state st = accept_insert P env header state st"
        using True accept_with_valid [OF i None] by simp
      let ?s = "inserted env header f st"
      have si: "node_inv env ?s"
        by (rule inserted_inv [OF i None f]) (use True in \<open>simp_all add: valid_child_def\<close>)
      have ws: "weight ?s = weight st + 1" using om.size_update_new [OF index_om [OF m] None] by (simp add: weight_def)
      obtain r s where r: "P ?h ?s = Some (r, s)" "node_inv env s" "grown ?s s" "weight s \<le> weight ?s" "vm_ok env \<longrightarrow> r = None"
          "\<forall>n. work_room ?s n \<longrightarrow> work_room s n"
        using P [OF si, of ?h] w ws by (auto simp: process_ok_def)
      have h: "map_of (the_index s) ?h = Some (accepted_entry ?m header f (env_now env))" using r(3) by (simp add: grown_def)
      have g: "grown st s" by (rule grown_trans [OF grown_inserted [OF None] r(3)])
      have "GetBlockProof (new_block_index header) \<noteq> 0" by (rule pow_has_work) (use True in \<open>auto simp: valid_child_def\<close>)
      then have room: "work_room s n" if "work_room st (header_work header + n)" for n
        using work_room_inserted [OF that f(1)] r(6) by blast
      show ?thesis unfolding e accept_insert_eq [OF m None f(1)] r(1)
        using r(2,4,5) g h f None True ws room by (cases r) (auto simp: accept_ok_def Let_def)
    next
      case False
      have size: "int (length ?m) < 2 ^ 31" using w by (simp add: weight_def)
      obtain r s ns where "accept_with P env header mp state st = Some (r, s, st\<lparr>notified := notified st @ ns\<rparr>)" "only_expired ns"
        "r = Inr None \<or> (\<exists>e. r = Inl e \<and> CheckProofOfWork (env_crypto env) header (nBits header) (env_params env) FULL None = Inl e)"
        using accept_with_invalid [OF i a size None False] by blast
      then show ?thesis using node_inv_notified [OF i] grown_notified None False vm_ok_no_throw
        by (auto simp: accept_ok_def Let_def weight_def elim: work_room_mono)
    qed
  qed
qed

lemma accept_fuel_ok:
  "asert_params (env_params env) \<Longrightarrow> node_inv env st \<Longrightarrow> pool_size st < n \<Longrightarrow> int (weight st) + 1 < 2 ^ 31 \<Longrightarrow>
   accept_ok env header mp st (accept_fuel n env header mp state st)"
proof (induction n arbitrary: header mp state st)
  case (Suc n)
  show ?case unfolding accept_fuel.simps
  proof (rule accept_with_ok [OF _ Suc.prems(2,1,4)])
    fix h and s :: chainstate
    assume s: "node_inv env s" "cs_orphans s = cs_orphans st" "int (weight s) < 2 ^ 31"
    show "process_ok env s (process_list (accept_fuel n env) (orphans_of h (cs_orphans s)) s)"
      by (rule process_list_ok [of env n], rule Suc.IH [OF Suc.prems(1)]) (use s Suc.prems in auto)
  qed
qed simp

lemma AcceptBlockHeader_ok:
  "asert_params (env_params env) \<Longrightarrow> node_inv env st \<Longrightarrow> int (weight st) + 1 < 2 ^ 31 \<Longrightarrow>
   accept_ok env header mp st (AcceptBlockHeader env header mp state st)"
  unfolding AcceptBlockHeader_def by (rule accept_fuel_ok) simp_all

section \<open>Progress\<close>

text \<open>The tip is not a failed block.\<close>

definition tip_ok :: "chainstate \<Rightarrow> bool" where
  "tip_ok st \<longleftrightarrow> (case GetTip st of None \<Rightarrow> False | Some t \<Rightarrow>
     (case map_of (the_index st) t of None \<Rightarrow> False | Some e \<Rightarrow> \<not> is_failed e))"

text \<open>What every operation but invalidation guarantees.\<close>

definition progress :: "chainstate \<Rightarrow> chainstate \<Rightarrow> bool" where
  "progress st st' \<longleftrightarrow> index_sub (the_index st) (the_index st') \<and> (m_cached_finished_ibd st \<longrightarrow> m_cached_finished_ibd st') \<and>
     (tip_ok st \<longrightarrow> tip_ok st') \<and>
     (\<exists>t t'. GetTip st = Some t \<and> GetTip st' = Some t' \<and> work_of (the_index st) t \<le> work_of (the_index st') t')"

lemma index_sub_refl [simp]: "index_sub m m"
  by (auto simp: index_sub_def)

lemma progress_trans:
  assumes "progress a b" "progress b c"
  shows "progress a c"
proof -
  have "index_sub (the_index a) (the_index c)"
    by (rule index_sub_trans [of _ "the_index b"]) (use assms in \<open>simp_all add: progress_def\<close>)
  then show ?thesis using assms by (auto simp: progress_def intro: order_trans)
qed

lemma progress_same:
  assumes "state_inv st" "cs_block_manager st' = cs_block_manager st" "m_cached_finished_ibd st \<longrightarrow> m_cached_finished_ibd st'"
  shows "progress st st'"
proof -
  have "GetTip st' = GetTip st" using assms(2) by (simp add: GetTip_def)
  moreover obtain t where "GetTip st = Some t" by (rule state_tip [OF assms(1)])
  ultimately show ?thesis using assms(2,3) by (simp add: progress_def tip_ok_def)
qed

lemma progress_grown:
  assumes "state_inv st" "grown st st'"
  shows "progress st st'"
proof -
  obtain t where t: "GetTip st = Some t" "map_of (the_index st) t \<noteq> None" by (rule state_tip [OF assms(1)])
  then obtain e where e: "map_of (the_index st) t = Some e" by blast
  have "the_chain st' = the_chain st" using assms(2) by (simp add: grown_def)
  then have t': "GetTip st' = Some t" using t(1) by (simp add: GetTip_def bm_GetTip_def)
  have e': "map_of (the_index st') t = Some e" using e assms(2) by (simp add: grown_def)
  have "index_sub (the_index st) (the_index st')" using assms(2) by (auto simp: index_sub_def grown_def)
  moreover have "m_cached_finished_ibd st' = m_cached_finished_ibd st" using assms(2) by (simp add: grown_def)
  ultimately show ?thesis using t(1) t' e e' by (simp add: progress_def tip_ok_def work_of_def)
qed

section \<open>New headers and activation\<close>

lemma activation_node:
  assumes "node_inv env st" "activate_loop None [] st = Some (True, ev, st')" "activation st [] ev st' t k warns"
  shows "node_inv env (st'\<lparr>notified := ns\<rparr>)"
proof -
  have "state_inv (st'\<lparr>notified := ns\<rparr>) = state_inv st'" by (simp add: state_inv_def)
  then show ?thesis using assms(1,3) by (simp add: node_inv_def activation_def)
qed

lemma ActivateBestChain_node:
  assumes "node_inv env st"
  obtains st' t k where "ActivateBestChain None st = Some (True, st')" "node_inv env st'" "the_index st' = the_index st"
    "GetTip st = Some t" "GetTip st' = Some k" "work_of (the_index st) t \<le> work_of (the_index st) k" "cs_orphans st' = cs_orphans st"
    "m_cached_finished_ibd st' = m_cached_finished_ibd st" "m_failed_blocks st' = m_failed_blocks st"
    "cs_suspicious_reorg_depth st' = cs_suspicious_reorg_depth st"
    "k = t \<or> k \<in> set (m_candidates (cs_chain_selector st)) \<and> valid_tip (the_index st) k"
    "\<forall>q \<in> set (m_candidates (cs_chain_selector st)). valid_tip (the_index st) q \<longrightarrow>
       work_of (the_index st) q \<le> work_of (the_index st) k \<or> suspicious st q"
proof -
  have "state_inv st" using assms by (simp add: node_inv_def)
  then obtain ev st' t k warns where a: "activate_loop None [] st = Some (True, ev, st')" "activation st [] ev st' t k warns"
    using activate_loop_best by blast
  let ?s = "st'\<lparr>notified := notified st' @ ev\<rparr>"
  have "ActivateBestChain None st = Some (True, ?s)" using a(1) by (simp add: ActivateBestChain_def)
  moreover have "GetTip ?s = GetTip st'" by (simp add: GetTip_def)
  ultimately show thesis using that [of ?s t k] activation_node [OF assms a] a(2) unfolding activation_def by auto
qed

lemma TryAdd_node:
  assumes i: "node_inv env st" and k: "map_of (the_index st) k = Some e" "nChainWork e \<noteq> 0"
  obtains cs where "TryAddBlockIndexCandidate (the_index st) (Some k) (cs_chain_selector st) = Some cs"
    "node_inv env (st\<lparr>cs_chain_selector := cs\<rparr>)"
    "set (m_candidates cs) \<subseteq> insert k (set (m_candidates (cs_chain_selector st)))"
    "IsValid e BLOCK_VALID_TREE \<Longrightarrow> \<not> has_children (the_index st) k \<Longrightarrow> k \<in> set (m_candidates cs)"
proof -
  let ?m = "the_index st" and ?cs = "cs_chain_selector st"
  have m: "index_inv ?m" using i by (rule node_inv_index)
  have h: "0 \<le> nHeight e" "0 < nChainWork e" using index_height [OF m k(1)] k(2) by (simp_all add: word_gt_0)
  have "TryAddBlockIndexCandidate ?m (Some k) ?cs \<noteq> None"
    using h k by (simp add: TryAddBlockIndexCandidate_def Let_def)
  then obtain cs where cs: "TryAddBlockIndexCandidate ?m (Some k) ?cs = Some cs" by blast
  let ?xs = "case pprev e of None \<Rightarrow> m_candidates ?cs | Some p \<Rightarrow> cand_erase p (m_candidates ?cs)"
  have xs: "set ?xs \<subseteq> set (m_candidates ?cs)" by (auto simp: cand.elems_erase split: option.splits)
  have "cands_ok ?m (m_candidates ?cs)" using i by (simp add: node_inv_def state_inv_def)
  then have ok: "cands_ok ?m ?xs" by (auto intro: cand.wf_erase split: option.splits)
  have r: "cs = ?cs \<or> cs = ?cs\<lparr>m_candidates := cand_insert ?m k ?xs\<rparr>"
    using cs h k by (auto simp: TryAddBlockIndexCandidate_def Let_def split: if_splits)
  then have sub: "set (m_candidates cs) \<subseteq> insert k (set (m_candidates ?cs))" using xs by (auto simp: cand.elems_insert)
  have "cands_ok ?m (m_candidates cs)" using r cand.wf_insert [OF ok, of k] i by (auto simp: node_inv_def state_inv_def)
  then have "node_inv env (st\<lparr>cs_chain_selector := cs\<rparr>)"
    using i sub k(1) by (auto simp: node_inv_def state_inv_def list_all_iff)
  moreover have "k \<in> set (m_candidates cs)" if "IsValid e BLOCK_VALID_TREE" "\<not> has_children ?m k"
    using that cs h k by (auto simp: TryAddBlockIndexCandidate_def Let_def cand.elems_insert)
  ultimately show thesis using that [OF cs _ sub] by blast
qed

lemma ActivateBestChain_progress:
  assumes "node_inv env st" "ActivateBestChain None st = Some (ok, st')"
  shows "node_inv env st'" "progress st st'"
proof -
  obtain s t k where s: "ActivateBestChain None st = Some (True, s)" "node_inv env s" "the_index s = the_index st"
      "GetTip st = Some t" "GetTip s = Some k" "work_of (the_index st) t \<le> work_of (the_index st) k"
      "m_cached_finished_ibd s = m_cached_finished_ibd st" "k = t \<or> k \<in> set (m_candidates (cs_chain_selector st)) \<and> valid_tip (the_index st) k"
    by (rule ActivateBestChain_node [OF assms(1)])
  have "s = st'" using s(1) assms(2) by simp
  moreover have "tip_ok st \<longrightarrow> tip_ok s"
    using s(3,4,5,8) by (auto simp: tip_ok_def valid_tip_def is_failed_def split: option.splits)
  ultimately show "node_inv env st'" "progress st st'" using s by (auto simp: progress_def)
qed

text \<open>The assertion that candidates have work can fail only when the 256-bit sum of work is zero.\<close>

lemma ProcessNewBlockHeader_ok:
  assumes "asert_params (env_params env)" "node_inv env st" "int (weight st) + 1 < 2 ^ 31"
  obtains (ends) r state' st' where "ProcessNewBlockHeader env header state st = Some (r, state', st')" "node_inv env st'" "progress st st'"
    | (wrapped) r state' st' k e where "ProcessNewBlockHeader env header state st = None"
        "AcceptBlockHeader env header True state st = Some (r, state', st')" "map_of (the_index st') k = Some e" "nChainWork e = 0"
proof -
  let ?h = "header_hash (env_crypto env) header"
  obtain r state' s where a: "AcceptBlockHeader env header True state st = Some (r, state', s)" "node_inv env s" "grown st s"
      and k: "\<forall>k. r = Inr (Some k) \<longrightarrow> k = ?h \<and> (case map_of (the_index s) ?h of None \<Rightarrow> False | Some e \<Rightarrow> \<not> is_failed e)"
    using AcceptBlockHeader_ok [OF assms, of header True state] by (auto simp: accept_ok_def Let_def)
  have pr: "progress st s" using progress_grown [OF _ a(3)] assms(2) by (simp add: node_inv_def)
  show thesis
  proof (cases "\<exists>k. r = Inr (Some k)")
    case False
    then obtain r' where "ProcessNewBlockHeader env header state st = Some (r', state', s)"
      using a(1) by (cases r) (auto simp: ProcessNewBlockHeader_def split: option.splits)
    then show thesis using ends a(2) pr by blast
  next
    case True
    then have r: "r = Inr (Some ?h)" using k by blast
    then have "map_of (the_index s) ?h \<noteq> None" using k by (cases "map_of (the_index s) ?h") simp_all
    then obtain e where e: "map_of (the_index s) ?h = Some e" by blast
    show thesis
    proof (cases "nChainWork e = 0")
      case True
      then have "ProcessNewBlockHeader env header state st = None"
        using a(1) r e by (simp add: ProcessNewBlockHeader_def TryAddBlockIndexCandidate_def)
      then show thesis using wrapped [OF _ a(1) e True] by blast
    next
      case False
      obtain cs where c: "TryAddBlockIndexCandidate (the_index s) (Some ?h) (cs_chain_selector s) = Some cs"
        "node_inv env (s\<lparr>cs_chain_selector := cs\<rparr>)" by (rule TryAdd_node [OF a(2) e False])
      obtain s' where s': "ActivateBestChain None (s\<lparr>cs_chain_selector := cs\<rparr>) = Some (True, s')" "node_inv env s'"
        by (rule ActivateBestChain_node [OF c(2)])
      have "progress s (s\<lparr>cs_chain_selector := cs\<rparr>)" by (rule progress_same) (use a(2) in \<open>simp_all add: node_inv_def\<close>)
      then have pr': "progress st s'"
        using progress_trans [OF pr] progress_trans ActivateBestChain_progress(2) [OF c(2) s'(1)] by blast
      have "ProcessNewBlockHeader env header state st = Some (Inr True, state', s')"
        using a(1) r c(1) s'(1) by (simp add: ProcessNewBlockHeader_def)
      then show thesis using ends s'(2) pr' by blast
    qed
  qed
qed

lemma accept_without_orphans:
  assumes i: "node_inv env st" and h: "map_of (the_index st) (header_hash (env_crypto env) header) = None"
    and v: "valid_child env (the_index st) header" and o: "orphans_of (header_hash (env_crypto env) header) (cs_orphans st) = []"
    and f: "map_of (the_index st) (hashPrevBlock header) = Some f"
  shows "AcceptBlockHeader env header True state st = Some (Inr (Some (header_hash (env_crypto env) header)), state, inserted env header f st)"
  using accept_with_valid [OF i h v] accept_insert_eq [OF node_inv_index [OF i] h f] o
  by (simp add: AcceptBlockHeader_eq ProcessOrphanHeaders_def)

lemma new_header_leaf:
  assumes m: "index_inv m" and h: "map_of m h = None" and e: "pprev e = Some p" "map_of m p \<noteq> None"
  shows "\<not> has_children (om_update h e m) h"
proof
  assume "has_children (om_update h e m) h"
  then obtain k g where g: "map_of (om_update h e m) k = Some g" "pprev g = Some h"
    using has_children_iff [of "om_update h e m" h] index_om [OF m] by auto
  show False
  proof (cases "k = h")
    case True
    then show False using g e h by auto
  next
    case False
    then have "map_of m k = Some g" using g by simp
    then show False using index_parent [OF m _ g(2)] h by (metis option.distinct(1))
  qed
qed

section \<open>A small node\<close>

definition small_env :: node_env where
  "small_env = \<lparr>env_crypto = sample_crypto, env_params = sample_params, env_now = 200, env_timedata = TestOnlyResetTimeData\<rparr>"

definition small_genesis :: CBlockIndex where
  "small_genesis = (sample_entry None None 0 2 100)\<lparr>bi_nNonce := 9\<rparr>"

definition small_index :: block_map where
  "small_index = [([9], small_genesis)]"

definition small_state :: chainstate where
  "small_state = \<lparr>cs_block_manager = \<lparr>m_block_index = small_index, m_active_chain = [Some [9]], m_genesis_hash = [9], m_initialized = True\<rparr>,
     cs_chain_selector = \<lparr>m_candidates = [[9]], m_best_header = Some [9]\<rparr>, cs_suspicious_reorg_depth = 0,
     cs_orphans = empty_pool, m_failed_blocks = [], m_cached_finished_ibd = False, notified = []\<rparr>"

lemmas status_defs = IsValid_def BLOCK_FAILED_MASK_def BLOCK_FAILED_VALID_def BLOCK_FAILED_CHILD_def VALIDITY_LEVEL_MASK_def BLOCK_VALID_TREE_def

lemma small_index_inv: "index_inv small_index"
  unfolding small_index_def by (rule index_inv_genesis) (simp_all add: small_genesis_def sample_entry_def regtest_proof index_time_def)

lemma small_path: "path_to small_index [9] = [Some [9]]"
  by (simp add: path_to_def small_index_def small_genesis_def sample_entry_def height_of_def anc_at_def)

lemma small_state_inv: "state_inv small_state"
  using small_index_inv chain_inv_path [OF small_index_inv, of "[9]"] small_path
  by (simp add: state_inv_def small_state_def cands_ok_def) (simp add: small_index_def)

lemma empty_pool_inv: "pool_inv empty_pool"
  by (simp add: pool_inv_def pool_ok_def empty_pool_def om_invar_def count_of_def peer_orphans_def MAX_ORPHAN_HEADERS_def)

lemma small_authentic: "authentic sample_crypto params small_index"
  by (simp add: authentic_def small_index_def small_genesis_def sample_entry_def sample_crypto_def GetBlockHeader_def)

lemma small_node_inv: "node_inv small_env small_state"
proof -
  have "times_ok small_index" "bits_ok small_index sample_params" "statuses_ok small_index"
    by (simp_all add: times_ok_def bits_ok_def statuses_ok_def small_index_def small_genesis_def sample_entry_def status_defs)
  then show ?thesis using small_state_inv empty_pool_inv small_authentic by (simp add: node_inv_def small_env_def) (simp add: small_state_def)
qed

lemma sample_pow: "CheckProofOfWork sample_crypto (sample_header p t n) 0x207fffff params FULL None = Inr (True, None)"
  by (simp add: pow_defs SetCompact_regtest sample_crypto_def toy_crypto_def GetRandomXCommitment_def sample_header_def blob_IsNull_def)

lemma sample_header_fields [simp]:
  "hashPrevBlock (sample_header p t n) = p" "nTime (sample_header p t n) = t" "nBits (sample_header p t n) = 0x207fffff"
  "nVersion (sample_header p t n) = 1" "header_hash sample_crypto (sample_header p t n) = [ucast n]"
  by (simp_all add: sample_header_def sample_crypto_def)

lemma small_mtp: "GetMedianTimePast small_index [9] = 100"
  by (simp add: GetMedianTimePast_def span_Suc small_index_def small_genesis_def sample_entry_def index_time_def)

lemma small_valid: "valid_child small_env small_index (sample_header [9] 150 1)"
  using sample_limit_compact sample_pow [of "[9]" 150 1 sample_params] small_mtp
  by (simp add: valid_child_def small_env_def GetAdjustedTime_def GetTimeOffset_def TestOnlyResetTimeData_def MAX_FUTURE_BLOCK_TIME_def blob_IsNull_def)
   (simp add: small_index_def small_genesis_def sample_entry_def is_failed_def GetNextWorkRequired_def Let_def sample_params_def status_defs)


section \<open>Properties\<close>

text \<open>
  \<^bold>\<open>C7.\<close> Header acceptance is total and exact: on every node state that satisfies the invariant,
  \<open>AcceptBlockHeader\<close> with its recursive processing of orphans ends without a failed assertion and
  re-establishes the invariant; it returns the new entry precisely when the caller vouched for the work and
  the header is valid on its parent (known, not failed, right difficulty, after the median time, not too far
  in the future, version at least one, network not expired, full proof of work); otherwise it returns null and the
  index is unchanged.  The new entry is the parent's child in height and work, no old entry, candidate or
  active block changes.
\<close>

theorem AcceptBlockHeader_exact:
  assumes "asert_params (env_params env)" and "node_inv env st" and "int (weight st) + 1 < 2 ^ 31" and "vm_ok env"
    and "map_of (the_index st) (header_hash (env_crypto env) header) = None"
  shows "\<exists>r state' st'. AcceptBlockHeader env header mp state st = Some (Inr r, state', st') \<and> node_inv env st' \<and>
    (if mp \<and> valid_child env (the_index st) header
     then r = Some (header_hash (env_crypto env) header) \<and>
       (\<exists>f e. map_of (the_index st) (hashPrevBlock header) = Some f \<and>
          map_of (the_index st') (header_hash (env_crypto env) header) = Some e \<and> pprev e = Some (hashPrevBlock header) \<and>
          nHeight e = nHeight f + 1 \<and> nChainWork e = nChainWork f + GetBlockProof (new_block_index header))
     else r = None \<and> the_index st' = the_index st) \<and>
    (\<forall>k e. map_of (the_index st) k = Some e \<longrightarrow> map_of (the_index st') k = Some e) \<and>
    the_chain st' = the_chain st \<and> m_candidates (cs_chain_selector st') = m_candidates (cs_chain_selector st)"
proof -
  let ?h = "header_hash (env_crypto env) header"
  obtain r state' st' where a: "AcceptBlockHeader env header mp state st = Some (r, state', st')" "node_inv env st'" "grown st st'"
      "\<forall>e. r \<noteq> Inl e" "\<forall>k. r = Inr (Some k) \<longrightarrow> k = ?h"
      and b: "if mp \<and> valid_child env (the_index st) header
         then r \<noteq> Inr None \<and> map_of (the_index st') ?h =
           Some (accepted_entry (the_index st) header (the (map_of (the_index st) (hashPrevBlock header))) (env_now env))
         else the_index st' = the_index st \<and> r \<noteq> Inr (Some ?h)"
    using AcceptBlockHeader_ok [OF assms(1-3), of header mp state] assms(4,5) by (auto simp: accept_ok_def Let_def)
  obtain x where x: "r = Inr x" using a(4) by (cases r) auto
  have f: "\<exists>f. map_of (the_index st) (hashPrevBlock header) = Some f" if "valid_child env (the_index st) header"
    using that by (auto simp: valid_child_def split: option.splits)
  show ?thesis
  proof (cases "mp \<and> valid_child env (the_index st) header")
    case True
    obtain y where y: "x = Some y" using b True x by (cases x) auto
    have "y = ?h" using a(5) x y by simp
    then show ?thesis using a(1-3) b True x y f by (auto simp: grown_def)
  next
    case False
    have "x = None"
    proof (cases x)
      case (Some y)
      then show ?thesis using a(5) b False x by auto
    qed
    then show ?thesis using a(1-3) b False x by (auto simp: grown_def)
  qed
qed

lemma small_vm: "vm_ok small_env"
  by (simp add: vm_ok_def small_env_def sample_crypto_def toy_crypto_def)

theorem AcceptBlockHeader_exact_witness:
  "\<exists>state' st' e. AcceptBlockHeader small_env (sample_header [9] 150 1) True new_ValidationState small_state = Some (Inr (Some [1]), state', st') \<and>
     map_of (the_index st') [1] = Some e \<and> nHeight e = 1 \<and> nChainWork e = 4"
proof -
  have p: "asert_params (env_params small_env)" using sample_params_asert by (simp add: small_env_def)
  have w: "int (weight small_state) + 1 < 2 ^ 31" by (simp add: weight_def small_state_def small_index_def empty_pool_def)
  have m: "the_index small_state = small_index" by (simp add: small_state_def)
  have h: "header_hash (env_crypto small_env) (sample_header [9] 150 1) = [1]" by (simp add: small_env_def)
  have n: "map_of (the_index small_state) (header_hash (env_crypto small_env) (sample_header [9] 150 1)) = None"
    by (simp add: m h small_index_def)
  have f: "map_of small_index [9] = Some small_genesis" by (simp add: small_index_def)
  have g: "GetBlockProof (new_block_index (sample_header [9] 150 1)) = 2" by (rule regtest_proof) simp
  have z: "nHeight small_genesis = 0" "nChainWork small_genesis = 2" by (simp_all add: small_genesis_def sample_entry_def)
  show ?thesis
    using AcceptBlockHeader_exact [OF p small_node_inv w small_vm n, of True new_ValidationState] small_valid f g z
    unfolding h m by auto
qed

text \<open>
  \<^bold>\<open>C15.\<close> Progress: a valid new header for which no orphan waits, whose chain work did not wrap to zero and whose
  activation the reorganisation policy would not refuse, is followed up to: after
  \<open>ProcessNewBlockHeader\<close>, which returns true, the active tip has at least the header's chain work.
\<close>

theorem new_header_activates:
  assumes "node_inv env st" and "map_of (the_index st) (header_hash (env_crypto env) header) = None"
    and "valid_child env (the_index st) header" and "orphans_of (header_hash (env_crypto env) header) (cs_orphans st) = []"
    and "map_of (the_index st) (hashPrevBlock header) = Some f"
    and "nChainWork f + GetBlockProof (new_block_index header) \<noteq> 0"
    and "\<not> suspicious (inserted env header f st) (header_hash (env_crypto env) header)"
  shows "\<exists>st' k. ProcessNewBlockHeader env header state st = Some (Inr True, state, st') \<and> node_inv env st' \<and> GetTip st' = Some k \<and>
    nChainWork f + GetBlockProof (new_block_index header) \<le> work_of (the_index st') k"
proof -
  let ?h = "header_hash (env_crypto env) header" and ?s = "inserted env header f st"
  define e where "e = accepted_entry (the_index st) header f (env_now env)"
  have m: "index_inv (the_index st)" using assms(1) by (rule node_inv_index)
  have a: "AcceptBlockHeader env header True state st = Some (Inr (Some ?h), state, ?s)"
    by (rule accept_without_orphans [OF assms(1-5)])
  have i: "node_inv env ?s"
    by (rule inserted_inv [OF assms(1,2,5)]) (use assms(3,5) in \<open>simp_all add: valid_child_def\<close>)
  have k: "map_of (the_index ?s) ?h = Some e" by (simp add: e_def)
  have v: "IsValid e BLOCK_VALID_TREE" "nChainWork e \<noteq> 0" "\<not> is_failed e" using assms(6) by (simp_all add: e_def)
  have l: "\<not> has_children (the_index ?s) ?h"
    using new_header_leaf [OF m assms(2), of e "hashPrevBlock header"] assms(5) by (simp add: e_def)
  obtain cs where c: "TryAddBlockIndexCandidate (the_index ?s) (Some ?h) (cs_chain_selector ?s) = Some cs"
      "node_inv env (?s\<lparr>cs_chain_selector := cs\<rparr>)" "?h \<in> set (m_candidates cs)"
    using TryAdd_node [OF i k v(2)] v(1) l by metis
  let ?t = "?s\<lparr>cs_chain_selector := cs\<rparr>"
  obtain st' q where q: "ActivateBestChain None ?t = Some (True, st')" "node_inv env st'" "the_index st' = the_index ?t" "GetTip st' = Some q"
      and best: "\<forall>q' \<in> set (m_candidates (cs_chain_selector ?t)). valid_tip (the_index ?t) q' \<longrightarrow>
        work_of (the_index ?t) q' \<le> work_of (the_index ?t) q \<or> suspicious ?t q'"
    using ActivateBestChain_node [OF c(2)] by metis
  have "\<not> suspicious ?t ?h" using assms(7) suspicious_cong [of ?t ?s] by simp
  moreover have "valid_tip (the_index ?t) ?h" using k v by (simp add: valid_tip_def is_failed_def)
  ultimately have "work_of (the_index ?t) ?h \<le> work_of (the_index ?t) q" using best c(3) by fastforce
  moreover have "work_of (the_index ?t) ?h = nChainWork e" using k by (simp add: work_of_def)
  ultimately have "nChainWork e \<le> work_of (the_index st') q" unfolding q(3) by simp
  moreover have "ProcessNewBlockHeader env header state st = Some (Inr True, state, st')"
    using a c(1) q(1) by (simp add: ProcessNewBlockHeader_def)
  ultimately show ?thesis using q(2,4) by (auto simp: e_def)
qed

theorem new_header_activates_witness:
  "\<exists>st' k. ProcessNewBlockHeader small_env (sample_header [9] 150 1) new_ValidationState small_state = Some (Inr True, new_ValidationState, st') \<and>
     GetTip st' = Some k \<and> 4 \<le> work_of (the_index st') k"
proof -
  let ?f = "small_genesis"
  have m: "the_index small_state = small_index" by (simp add: small_state_def)
  have h: "header_hash (env_crypto small_env) (sample_header [9] 150 1) = [1]" by (simp add: small_env_def)
  have n: "map_of (the_index small_state) (header_hash (env_crypto small_env) (sample_header [9] 150 1)) = None"
    by (simp add: m h small_index_def)
  have o: "orphans_of (header_hash (env_crypto small_env) (sample_header [9] 150 1)) (cs_orphans small_state) = []"
    by (simp add: orphans_of_def small_state_def empty_pool_def)
  have f: "map_of (the_index small_state) (hashPrevBlock (sample_header [9] 150 1)) = Some ?f" by (simp add: m small_index_def)
  have g: "GetBlockProof (new_block_index (sample_header [9] 150 1)) = 2" by (rule regtest_proof) simp
  have z: "nChainWork ?f = 2" by (simp add: small_genesis_def sample_entry_def)
  have v: "valid_child small_env (the_index small_state) (sample_header [9] 150 1)" using small_valid m by simp
  have s: "\<not> suspicious (inserted small_env (sample_header [9] 150 1) ?f small_state) (header_hash (env_crypto small_env) (sample_header [9] 150 1))"
    by (simp add: suspicious_def) (simp add: small_state_def)
  have nz: "nChainWork ?f + GetBlockProof (new_block_index (sample_header [9] 150 1)) \<noteq> 0" by (simp add: g z)
  show ?thesis using new_header_activates [OF small_node_inv n v o f nz s, of new_ValidationState] by (auto simp: g z)
qed

section \<open>Orphans adopted without becoming candidates\<close>

text \<open>
  The headers adopted by \<open>ProcessOrphanHeaders\<close> are never offered to the candidate set, and their
  adopted children keep the header just received out of it.  On the node below, the header [1] completes
  the chain [9], [1], [2]; both headers are valid, [2] has three times the work of the tip, and
  \<open>ProcessNewBlockHeader\<close> returns true; but the tip stays at [9] and the only candidate is [9].
\<close>

definition regtest_env :: node_env where
  "regtest_env = small_env\<lparr>env_params := sample_params\<lparr>chainType := REGTEST\<rparr>\<rparr>"

definition orphan_state :: chainstate where
  "orphan_state = snd (AddOrphanHeader regtest_env (sample_header [1] 160 2) 7 small_state)"

lemma orphan_pool_two: "cs_orphans orphan_state = \<lparr>m_orphan_headers = [([2], \<lparr>oh_header = sample_header [1] 160 2, oh_nTimeReceived = 200, oh_peer_id = 7\<rparr>)],
    m_peer_orphan_count = [(7, 1)]\<rparr>"
  by (simp add: orphan_state_def AddOrphanHeader_def TryAddOrphanHeader_def regtest_env_def small_env_def small_state_def empty_pool_def
      count_of_def MAX_ORPHAN_HEADERS_PER_PEER_def MAX_ORPHAN_HEADERS_def Let_def)

lemma regtest_fields [simp]: "env_crypto regtest_env = sample_crypto" "env_now regtest_env = 200"
  "env_timedata regtest_env = TestOnlyResetTimeData" "chainType (env_params regtest_env) = REGTEST"
  "nNetworkExpirationInterval (consensus (env_params regtest_env)) = 0"
  by (simp_all add: regtest_env_def small_env_def sample_params_def)

lemma regtest_bits: "GetNextWorkRequired m (Some p) (env_params regtest_env) = Some 0x207fffff"
  using sample_limit_compact by (simp add: GetNextWorkRequired_def Let_def) (simp add: regtest_env_def)

lemma orphan_state_fields [simp]: "cs_block_manager orphan_state = cs_block_manager small_state"
    "cs_chain_selector orphan_state = cs_chain_selector small_state" "cs_suspicious_reorg_depth orphan_state = 0"
  by (simp_all add: orphan_state_def AddOrphanHeader_def split_def Let_def small_state_def)

lemma small_the_index [simp]: "the_index small_state = small_index"
  by (simp add: small_state_def)

lemma orphan_node_inv: "node_inv regtest_env orphan_state"
proof -
  have "pool_inv (cs_orphans orphan_state)"
    using TryAddOrphanHeader_spec [OF empty_pool_inv, of sample_crypto "env_params regtest_env" 200 "sample_header [1] 160 2" 7]
    by (auto simp: orphan_state_def AddOrphanHeader_def split_def Let_def small_state_def)
  moreover have "state_inv orphan_state" using small_state_inv by (simp add: state_inv_def)
  moreover have "times_ok small_index" "bits_ok small_index (env_params regtest_env)" "statuses_ok small_index"
    by (simp_all add: times_ok_def bits_ok_def statuses_ok_def small_index_def small_genesis_def sample_entry_def status_defs)
  ultimately show ?thesis using small_authentic by (simp add: node_inv_def)
qed

lemma regtest_valid:
  assumes "map_of m p = Some f" "\<not> is_failed f" "\<not> blob_IsNull p" "GetMedianTimePast m p < uint t" "uint t \<le> 200"
  shows "valid_child regtest_env m (sample_header p t n)"
  using assms sample_pow [of p t n "env_params regtest_env"] regtest_bits
  by (simp add: valid_child_def GetAdjustedTime_def GetTimeOffset_def TestOnlyResetTimeData_def MAX_FUTURE_BLOCK_TIME_def Let_def)

lemma orphan_chain_not_activated:
  "\<exists>st'. ProcessNewBlockHeader regtest_env (sample_header [9] 150 1) new_ValidationState orphan_state = Some (Inr True, new_ValidationState, st') \<and>
     GetTip st' = Some [9] \<and> valid_tip (the_index st') [2] \<and> work_of (the_index st') [9] = 2 \<and> work_of (the_index st') [2] = 6 \<and>
     m_candidates (cs_chain_selector st') = [[9]] \<and> m_orphan_headers (cs_orphans st') = []"
proof -
  let ?f = "small_genesis" and ?h1 = "sample_header [9] 150 1" and ?h2 = "sample_header [1] 160 2"
  have idx: "the_index orphan_state = small_index" by simp
  have f: "map_of (the_index orphan_state) [9] = Some ?f" by (simp add: idx small_index_def)
  have nf: "\<not> is_failed ?f" by (simp add: is_failed_def small_genesis_def sample_entry_def status_defs)
  have v1: "valid_child regtest_env (the_index orphan_state) ?h1"
    by (rule regtest_valid [OF f nf]) (simp_all add: blob_IsNull_def idx small_mtp)
  have n1: "map_of (the_index orphan_state) (header_hash (env_crypto regtest_env) ?h1) = None" by (simp add: idx small_index_def)
  let ?s1 = "inserted regtest_env ?h1 ?f orphan_state"
  have i1: "node_inv regtest_env ?s1"
    by (rule inserted_inv [OF orphan_node_inv n1]) (use f nf v1 in \<open>simp_all add: valid_child_def\<close>)
  let ?o = "\<lparr>oh_header = ?h2, oh_nTimeReceived = 200, oh_peer_id = 7\<rparr>"
  let ?s2 = "?s1\<lparr>cs_orphans := drop_orphan [2] ?o (cs_orphans ?s1)\<rparr>"
  have o2: "map_of (m_orphan_headers (cs_orphans ?s1)) [2] = Some ?o" by (simp add: orphan_pool_two)
  have i2: "node_inv regtest_env ?s2" by (rule node_inv_drop [OF i1 o2])
  have d2: "m_orphan_headers (drop_orphan [2] ?o (cs_orphans ?s1)) = []" by (simp add: orphan_pool_two drop_orphan_def om_erase_def)
  define e1 where "e1 = accepted_entry small_index ?h1 ?f 200"
  have m2: "the_index ?s2 = om_update [1] e1 small_index" by (simp add: e1_def idx)
  have f2: "map_of (the_index ?s2) [1] = Some e1" unfolding m2 by simp
  have t2: "GetMedianTimePast (the_index ?s2) [1] = 150"
    unfolding m2 by (simp add: GetMedianTimePast_def span_Suc e1_def) (simp add: small_index_def small_genesis_def sample_entry_def index_time_def)
  have v2: "valid_child regtest_env (the_index ?s2) ?h2"
  proof (rule regtest_valid [OF f2])
    show "GetMedianTimePast (the_index ?s2) [1] < uint (160 :: u32)" unfolding t2 by simp
  qed (simp_all add: e1_def blob_IsNull_def)
  have n2: "map_of (the_index ?s2) (header_hash (env_crypto regtest_env) ?h2) = None" unfolding m2 by (simp add: small_index_def)
  have "AcceptBlockHeader regtest_env ?h2 True new_ValidationState ?s2 = Some (Inr (Some [2]), new_ValidationState, inserted regtest_env ?h2 e1 ?s2)"
    using accept_without_orphans [OF i2 n2 v2, of e1 new_ValidationState] f2 d2 by (simp add: orphans_of_def)
  moreover define s3 where "s3 = inserted regtest_env ?h2 e1 ?s2"
  moreover have "orphans_of [1] (cs_orphans ?s1) = [[2]]" by (simp add: orphans_of_def orphan_pool_two)
  ultimately have p1: "ProcessOrphanHeaders regtest_env [1] ?s1 = Some (None, s3)"
    using o2 by (simp add: ProcessOrphanHeaders_def)
  have a1: "AcceptBlockHeader regtest_env ?h1 True new_ValidationState orphan_state = Some (Inr (Some [1]), new_ValidationState, s3)"
    using accept_with_valid [OF orphan_node_inv n1 v1] accept_insert_eq [OF node_inv_index [OF orphan_node_inv] n1] f p1
    by (simp add: AcceptBlockHeader_eq)
  define e2 where "e2 = accepted_entry (the_index ?s2) ?h2 e1 200"
  have m3: "the_index s3 = om_update [2] e2 (om_update [1] e1 small_index)" by (simp add: s3_def e2_def e1_def)
  have w: "nChainWork e1 = 4" "nChainWork e2 = 6" by (simp_all add: e1_def e2_def regtest_proof small_genesis_def sample_entry_def)
  have i3: "node_inv regtest_env s3"
    unfolding s3_def by (rule inserted_inv [OF i2 n2]) (use f2 v2 in \<open>simp_all add: valid_child_def e1_def\<close>)
  have ch: "has_children (the_index s3) [1]"
    unfolding has_children_iff [OF index_om [OF node_inv_index [OF i3]]] by (rule exI [of _ "[2]"]) (simp add: m3 e2_def)
  have c: "TryAddBlockIndexCandidate (the_index s3) (Some [1]) (cs_chain_selector s3) = Some (cs_chain_selector s3)"
    using ch w by (simp add: TryAddBlockIndexCandidate_def m3 Let_def) (simp add: e1_def small_genesis_def sample_entry_def)
  have tip: "GetTip s3 = Some [9]" by (simp add: GetTip_def bm_GetTip_def s3_def small_state_def chain_Tip_def)
  have cands: "m_candidates (cs_chain_selector s3) = [[9]]" by (simp add: s3_def small_state_def)
  have vt: "valid_tip (the_index s3) [9]" by (simp add: m3 valid_tip_def) (simp add: small_index_def small_genesis_def sample_entry_def status_defs)
  have "drop_invalid (the_index s3) (m_candidates (cs_chain_selector s3)) = m_candidates (cs_chain_selector s3)"
    using vt cands by simp
  then have fm: "FindMostWorkChain (the_index s3) (cs_chain_selector s3) = (Some [9], cs_chain_selector s3)"
    by (simp add: FindMostWorkChain_def Let_def) (simp add: cands)
  have "activate_loop None [] s3 = Some (True, [], s3)" by (subst activate_loop.simps) (simp add: fm tip)
  then have "ActivateBestChain None s3 = Some (True, s3)" by (simp add: ActivateBestChain_def)
  then have "ProcessNewBlockHeader regtest_env ?h1 new_ValidationState orphan_state = Some (Inr True, new_ValidationState, s3)"
    using a1 c by (simp add: ProcessNewBlockHeader_def)
  moreover have "\<not> is_failed e2" "IsValid e2 BLOCK_VALID_TREE" unfolding e2_def by (rule accepted_entry_fields)+
  then have "valid_tip (the_index s3) [2]" by (simp add: m3 valid_tip_def is_failed_def)
  moreover have "work_of (the_index s3) [2] = 6" using w by (simp add: m3 work_of_def)
  moreover have "work_of (the_index s3) [9] = 2" by (simp add: m3 work_of_def) (simp add: small_index_def small_genesis_def sample_entry_def)
  moreover have "m_orphan_headers (cs_orphans s3) = []" using d2 by (simp add: s3_def)
  ultimately show ?thesis using tip cands by blast
qed

end
