(* ===== verification/Invalidate.thy ===== *)
theory Invalidate
  imports Node_Invariant
begin

text \<open>
  \<open>ChainstateManager::InvalidateBlock\<close> (src/chain/chainstate_manager.cpp): take a block and all its
  descendants out of the active chain and out of the candidates, and mark them failed.  The multimap of
  fork candidates is a list of pairs sorted by work; equal keys keep the order of insertion.
\<close>

section \<open>Fork candidates\<close>

fun mm_insert :: "arith_uint256 \<Rightarrow> blob \<Rightarrow> (arith_uint256 \<times> blob) list \<Rightarrow> (arith_uint256 \<times> blob) list" where
  "mm_insert w k [] = [(w, k)]"
| "mm_insert w k ((w', k') # rest) = (if w < w' then (w, k) # (w', k') # rest else (w', k') # mm_insert w k rest)"

fun fork_candidates :: "block_map \<Rightarrow> CChain \<Rightarrow> CBlockIndex \<Rightarrow> (blob \<times> CBlockIndex) list \<Rightarrow> (arith_uint256 \<times> blob) list \<Rightarrow> (arith_uint256 \<times> blob) list" where
  "fork_candidates m vChain pindex [] acc = acc"
| "fork_candidates m vChain pindex ((k, e) # rest) acc =
     fork_candidates m vChain pindex rest
       (if \<not> chain_Contains m vChain (Some k) \<and> (case pprev pindex of None \<Rightarrow> False | Some p \<Rightarrow> nChainWork e \<ge> work_of m p) \<and>
           IsValid e BLOCK_VALID_TREE
        then mm_insert (nChainWork e) k acc else acc)"

text \<open>The inner loop starts at \<open>lower_bound\<close> and moves every fork with enough work into the candidate set.\<close>

fun add_forks :: "block_map \<Rightarrow> arith_uint256 \<Rightarrow> (arith_uint256 \<times> blob) list \<Rightarrow> chain_selector \<Rightarrow> (arith_uint256 \<times> blob) list \<times> chain_selector" where
  "add_forks m w [] cs = ([], cs)"
| "add_forks m w ((w', k) # rest) cs =
     (if work_of m k \<ge> w then add_forks m w rest (AddCandidateUnchecked m (Some k) cs)
      else let (rest, cs) = add_forks m w rest cs in ((w', k) # rest, cs))"

definition add_forks_from :: "block_map \<Rightarrow> arith_uint256 \<Rightarrow> (arith_uint256 \<times> blob) list \<Rightarrow> chain_selector \<Rightarrow> (arith_uint256 \<times> blob) list \<times> chain_selector" where
  "add_forks_from m w pending cs =
     (let (rest, cs) = add_forks m w (dropWhile (\<lambda>(w', k). w' < w) pending) cs in (takeWhile (\<lambda>(w', k). w' < w) pending @ rest, cs))"

section \<open>The disconnect loop\<close>

partial_function (option) invalidate_loop :: "blob \<Rightarrow> (arith_uint256 \<times> blob) list \<Rightarrow> notification list \<Rightarrow> chainstate \<Rightarrow>
    (bool \<times> notification list \<times> chainstate) option" where
  "invalidate_loop pindex pending events st =
     (case GetTip st of None \<Rightarrow> Some (True, events, st)
      | Some invalid_walk_tip \<Rightarrow>
          if \<not> chain_Contains (the_index st) (the_chain st) (Some pindex) then Some (True, events, st)
          else case DisconnectTip events st of None \<Rightarrow> None
          | Some (ok, events, st) \<Rightarrow>
              if \<not> ok then Some (False, events, st)
              else let m = the_index st; cs = RemoveCandidate (Some invalid_walk_tip) (cs_chain_selector st) in
                case parent_of m invalid_walk_tip of
                  None \<Rightarrow> invalidate_loop pindex pending events (st\<lparr>cs_chain_selector := cs\<rparr>)
                | Some p \<Rightarrow>
                    let cs = AddCandidateUnchecked m (Some p) cs; (pending, cs) = add_forks_from m (work_of m p) pending cs
                    in invalidate_loop pindex pending events (st\<lparr>cs_chain_selector := cs\<rparr>))"

section \<open>Marking\<close>

definition drop_candidate :: "blob \<Rightarrow> chainstate \<Rightarrow> chainstate" where
  "drop_candidate k st = st\<lparr>cs_chain_selector := RemoveCandidate (Some k) (cs_chain_selector st)\<rparr>"

fun mark_descendants :: "blob \<Rightarrow> blob list \<Rightarrow> chainstate \<Rightarrow> chainstate option" where
  "mark_descendants pindex [] st = Some st"
| "mark_descendants pindex (k # ks) st =
     (if k = pindex then mark_descendants pindex ks st
      else case GetAncestor (the_index st) k (height_of (the_index st) pindex) of None \<Rightarrow> None
        | Some a \<Rightarrow>
            if a = Some pindex
            then mark_descendants pindex ks (drop_candidate k (add_failed k
                   (modify_entry k (\<lambda>e. e\<lparr>nStatus := (nStatus e AND NOT BLOCK_FAILED_VALID) OR BLOCK_FAILED_CHILD\<rparr>) st)))
            else mark_descendants pindex ks st)"

fun add_leaves :: "block_map \<Rightarrow> blob \<Rightarrow> (blob \<times> CBlockIndex) list \<Rightarrow> chain_selector \<Rightarrow> chain_selector" where
  "add_leaves m current_tip [] cs = cs"
| "add_leaves m current_tip ((k, e) # rest) cs =
     add_leaves m current_tip rest
       (if IsValid e BLOCK_VALID_TREE \<and> nChainWork e \<ge> work_of m current_tip \<and> \<not> has_children m k
        then AddCandidateUnchecked m (Some k) cs else cs)"

definition InvalidateBlock :: "blob \<Rightarrow> chainstate \<Rightarrow> (bool \<times> chainstate) option" where
  "InvalidateBlock h st =
     (case map_of (the_index st) h of None \<Rightarrow> Some (False, st)
      | Some pindex \<Rightarrow>
          if nHeight pindex = 0 then Some (False, st)
          else let pending = fork_candidates (the_index st) (the_chain st) pindex (the_index st) [] in
            case invalidate_loop h pending [] st of None \<Rightarrow> None
            | Some (ok, pending_events, st) \<Rightarrow>
                if \<not> ok then Some (False, st)
                else if chain_Contains (the_index st) (the_chain st) (Some h) then Some (False, st)
                else let st = drop_candidate h (add_failed h (modify_entry h (\<lambda>e. e\<lparr>nStatus := nStatus e OR BLOCK_FAILED_VALID\<rparr>) st)) in
                  case mark_descendants h (map fst (the_index st)) st of None \<Rightarrow> None
                  | Some st \<Rightarrow>
                      let st = (case GetTip st of None \<Rightarrow> st
                            | Some tip \<Rightarrow> st\<lparr>cs_chain_selector := add_leaves (the_index st) tip (the_index st) (cs_chain_selector st)\<rparr>)
                      in Some (True, st\<lparr>notified := notified st @ pending_events\<rparr>))"

section \<open>Candidates\<close>

text \<open>Candidates in comparator order, all in the index.\<close>

definition selector_ok :: "block_map \<Rightarrow> chain_selector \<Rightarrow> bool" where
  "selector_ok m cs \<longleftrightarrow> cands_ok m (m_candidates cs) \<and> list_all (\<lambda>k. map_of m k \<noteq> None) (m_candidates cs)"

lemma state_inv_selector_ok:
  "state_inv st \<longleftrightarrow> index_inv (the_index st) \<and> chain_inv (the_index st) (the_chain st) \<and> the_chain st \<noteq> [] \<and>
     selector_ok (the_index st) (cs_chain_selector st)"
  by (auto simp: state_inv_def selector_ok_def)

lemma selector_ok_add: "selector_ok m cs \<Longrightarrow> map_of m k \<noteq> None \<Longrightarrow> selector_ok m (AddCandidateUnchecked m (Some k) cs)"
  by (auto simp: selector_ok_def AddCandidateUnchecked_def cand.wf_insert cand.elems_insert list_all_iff)

lemma selector_ok_remove: "selector_ok m cs \<Longrightarrow> selector_ok m (RemoveCandidate (Some k) cs)"
  by (auto simp: selector_ok_def RemoveCandidate_def cand.wf_erase cand.elems_erase list_all_iff)

lemma add_forks_ok:
  "selector_ok m cs \<Longrightarrow> list_all (\<lambda>(w, k). map_of m k \<noteq> None) pending \<Longrightarrow>
   list_all (\<lambda>(w, k). map_of m k \<noteq> None) (fst (add_forks m w pending cs)) \<and> selector_ok m (snd (add_forks m w pending cs))"
  by (induction m w pending cs rule: add_forks.induct) (auto simp: selector_ok_add split: prod.splits)

lemma add_forks_from_ok:
  assumes "selector_ok m cs" "list_all (\<lambda>(w, k). map_of m k \<noteq> None) pending"
  shows "list_all (\<lambda>(w, k). map_of m k \<noteq> None) (fst (add_forks_from m w pending cs))" "selector_ok m (snd (add_forks_from m w pending cs))"
proof -
  have "list_all (\<lambda>(w, k). map_of m k \<noteq> None) (dropWhile (\<lambda>(w', k). w' < w) pending)"
    "list_all (\<lambda>(w, k). map_of m k \<noteq> None) (takeWhile (\<lambda>(w', k). w' < w) pending)"
    using assms(2) by (auto simp: list_all_iff dest: set_dropWhileD set_takeWhileD)
  then show "list_all (\<lambda>(w, k). map_of m k \<noteq> None) (fst (add_forks_from m w pending cs))" "selector_ok m (snd (add_forks_from m w pending cs))"
    using add_forks_ok [OF assms(1), of "dropWhile (\<lambda>(w', k). w' < w) pending" w] by (auto simp: add_forks_from_def split_def Let_def)
qed

lemma mm_insert_set: "set (mm_insert w k xs) = insert (w, k) (set xs)"
  by (induction w k xs rule: mm_insert.induct) auto

lemma fork_candidates_ok:
  "(\<forall>(k, e) \<in> set es. map_of m k \<noteq> None) \<Longrightarrow> list_all (\<lambda>(w, k). map_of m k \<noteq> None) acc \<Longrightarrow>
   list_all (\<lambda>(w, k). map_of m k \<noteq> None) (fork_candidates m v e0 es acc)"
proof (induction es arbitrary: acc)
  case (Cons x es)
  obtain k e where x: "x = (k, e)" by (cases x)
  have "list_all (\<lambda>(w, k). map_of m k \<noteq> None) (if c then mm_insert w k acc else acc)" for c w
    using Cons.prems by (cases c) (simp_all add: list_all_iff mm_insert_set x)
  then show ?case unfolding x fork_candidates.simps using Cons.prems(1) by (intro Cons.IH) simp_all
qed simp

lemma add_leaves_ok: "(\<forall>(k, e) \<in> set es. map_of m k \<noteq> None) \<Longrightarrow> selector_ok m cs \<Longrightarrow> selector_ok m (add_leaves m t es cs)"
  by (induction m t es cs rule: add_leaves.induct) (auto simp: selector_ok_add)

lemma add_leaves_set:
  "k \<in> set (m_candidates (add_leaves m t es cs)) \<longleftrightarrow> k \<in> set (m_candidates cs) \<or>
     (\<exists>e. (k, e) \<in> set es \<and> IsValid e BLOCK_VALID_TREE \<and> work_of m t \<le> nChainWork e \<and> \<not> has_children m k)"
  by (induction m t es cs rule: add_leaves.induct) (auto simp: AddCandidateUnchecked_def cand.elems_insert)

section \<open>Disconnecting\<close>

lemma invalidate_loop_out: "\<not> chain_Contains (the_index st) (the_chain st) (Some h) \<Longrightarrow> invalidate_loop h pending events st = Some (True, events, st)"
  by (subst invalidate_loop.simps) (simp split: option.split)

lemma invalidate_loop_step:
  assumes m: "index_inv m" and s: "the_index st = m" "the_chain st = path_to m t" "map_of m t \<noteq> None" "descends (parent_of m) t h"
    and q: "parent_of m t = Some q" and ok: "selector_ok m (cs_chain_selector st)" "list_all (\<lambda>(w, k). map_of m k \<noteq> None) pending"
  obtains cs pending' where "invalidate_loop h pending events st =
      invalidate_loop h pending' (events @ [disconnected_event m t]) ((with_chain st (path_to m q))\<lparr>cs_chain_selector := cs\<rparr>)"
    "selector_ok m cs" "list_all (\<lambda>(w, k). map_of m k \<noteq> None) pending'" "map_of m q \<noteq> None"
proof -
  obtain e where e: "map_of m t = Some e" using s(3) by blast
  then have pe: "pprev e = Some q" using q by (simp add: parent_of_Some)
  have qm: "map_of m q \<noteq> None" by (rule index_parent [OF m e pe]) simp
  have tip: "GetTip st = Some t" using s(2) path_to_tip [of m t] tree.height_nonneg [OF m s(3)] by (simp add: GetTip_def bm_GetTip_def)
  have c: "chain_Contains m (path_to m t) (Some h)" using s(4) chain_Contains_descends [OF m s(3), of h] by simp
  have dt: "DisconnectTip events st = Some (True, events @ [disconnected_event m t], with_chain st (path_to m q))"
    by (rule DisconnectTip_path [OF m s(1,2) e pe])
  let ?cs = "AddCandidateUnchecked m (Some q) (RemoveCandidate (Some t) (cs_chain_selector st))"
  have ok': "selector_ok m ?cs" by (intro selector_ok_add selector_ok_remove ok(1) qm)
  have "invalidate_loop h pending events st = invalidate_loop h (fst (add_forks_from m (work_of m q) pending ?cs))
      (events @ [disconnected_event m t])
      ((with_chain st (path_to m q))\<lparr>cs_chain_selector := snd (add_forks_from m (work_of m q) pending ?cs)\<rparr>)"
    using c by (subst invalidate_loop.simps) (simp add: tip dt s(1,2) q Let_def split_def)
  then show thesis using that add_forks_from_ok [OF ok' ok(2)] qm by blast
qed

lemma parent_not_below:
  assumes m: "index_inv m" and h: "map_of m h \<noteq> None" "parent_of m h = Some p"
  shows "map_of m p \<noteq> None" "\<not> descends (parent_of m) p h"
proof -
  obtain e where e: "map_of m h = Some e" using h by blast
  then have pe: "pprev e = Some p" using h by (simp add: parent_of_Some)
  obtain f where f: "map_of m p = Some f" "nHeight e = nHeight f + 1" by (rule index_parent [OF m e pe])
  then show "map_of m p \<noteq> None" by simp
  show "\<not> descends (parent_of m) p h"
    using tree.descends_height [OF m, of p h] f e by (auto simp: height_of_Some)
qed

lemma invalidate_loop_in:
  assumes m: "index_inv m" and hp: "map_of m h \<noteq> None" "parent_of m h = Some p"
  shows "the_index st = m \<Longrightarrow> the_chain st = path_to m t \<Longrightarrow> map_of m t \<noteq> None \<Longrightarrow> ancs (parent_of m) n t = Some h \<Longrightarrow>
    selector_ok m (cs_chain_selector st) \<Longrightarrow> list_all (\<lambda>(w, k). map_of m k \<noteq> None) pending \<Longrightarrow>
    \<exists>cs. invalidate_loop h pending events st = Some (True, events @ map (disconnected_event m) (branch (parent_of m) (Suc n) t),
        (with_chain st (path_to m p))\<lparr>cs_chain_selector := cs\<rparr>) \<and> selector_ok m cs"
proof (induction n arbitrary: t st events pending)
  case 0
  then have th: "t = h" by simp
  have dh: "descends (parent_of m) t h" using th by simp
  have tp: "parent_of m t = Some p" using th hp by simp
  obtain cs pending' where c: "invalidate_loop h pending events st =
        invalidate_loop h pending' (events @ [disconnected_event m t]) ((with_chain st (path_to m p))\<lparr>cs_chain_selector := cs\<rparr>)" "selector_ok m cs"
    by (rule invalidate_loop_step [OF m 0(1-3) dh tp 0(5,6)])
  have "\<not> chain_Contains m (path_to m p) (Some h)"
    using parent_not_below [OF m hp] chain_Contains_descends [OF m] by simp
  then have "invalidate_loop h pending events st = Some (True, events @ [disconnected_event m t], (with_chain st (path_to m p))\<lparr>cs_chain_selector := cs\<rparr>)"
    unfolding c(1) using 0(1) by (intro invalidate_loop_out) simp
  then show ?case using c(2) tp by auto
next
  case (Suc n)
  obtain q where q: "parent_of m t = Some q" "ancs (parent_of m) n q = Some h" using Suc.prems(4) by (auto split: option.splits)
  have dh: "descends (parent_of m) t h" using Suc.prems(4) unfolding descends_def by blast
  obtain cs pending' where c: "invalidate_loop h pending events st =
        invalidate_loop h pending' (events @ [disconnected_event m t]) ((with_chain st (path_to m q))\<lparr>cs_chain_selector := cs\<rparr>)"
      "selector_ok m cs" "list_all (\<lambda>(w, k). map_of m k \<noteq> None) pending'" "map_of m q \<noteq> None"
    by (rule invalidate_loop_step [OF m Suc.prems(1-3) dh q(1) Suc.prems(5,6)])
  let ?st = "(with_chain st (path_to m q))\<lparr>cs_chain_selector := cs\<rparr>"
  obtain cs' where "invalidate_loop h pending' (events @ [disconnected_event m t]) ?st = Some (True,
      (events @ [disconnected_event m t]) @ map (disconnected_event m) (branch (parent_of m) (Suc n) q),
      (with_chain ?st (path_to m p))\<lparr>cs_chain_selector := cs'\<rparr>)" "selector_ok m cs'"
    using Suc.IH [of ?st q pending' "events @ [disconnected_event m t]"] Suc.prems(1) c q(2) by auto
  then show ?case using c(1) q(1) by auto
qed

section \<open>Marking\<close>

definition mark_child :: "CBlockIndex \<Rightarrow> CBlockIndex" where
  "mark_child e = e\<lparr>nStatus := (nStatus e AND NOT BLOCK_FAILED_VALID) OR BLOCK_FAILED_CHILD\<rparr>"

lemma failed_bits: "(x OR BLOCK_FAILED_CHILD) AND BLOCK_FAILED_MASK \<noteq> 0" "(x OR BLOCK_FAILED_VALID) AND BLOCK_FAILED_MASK \<noteq> 0"
proof -
  have "bit ((x OR BLOCK_FAILED_CHILD) AND BLOCK_FAILED_MASK) 6" "bit ((x OR BLOCK_FAILED_VALID) AND BLOCK_FAILED_MASK) 5"
    by (simp_all add: BLOCK_FAILED_CHILD_def BLOCK_FAILED_VALID_def BLOCK_FAILED_MASK_def bit_and_iff bit_or_iff)
  then show "(x OR BLOCK_FAILED_CHILD) AND BLOCK_FAILED_MASK \<noteq> 0" "(x OR BLOCK_FAILED_VALID) AND BLOCK_FAILED_MASK \<noteq> 0" by auto
qed

text \<open>Only the status changed.\<close>

definition restatus :: "CBlockIndex \<Rightarrow> CBlockIndex \<Rightarrow> bool" where
  "restatus e e' \<longleftrightarrow> e' = e\<lparr>nStatus := nStatus e'\<rparr>"

lemma restatus_refl [simp]: "restatus e e"
  by (simp add: restatus_def)

lemma restatus_trans: "restatus a b \<Longrightarrow> restatus b c \<Longrightarrow> restatus a c"
  unfolding restatus_def by (cases a; cases b; cases c) simp

lemma restatus_same_node: "restatus e e' \<Longrightarrow> same_node e e'"
  unfolding restatus_def by (cases e; cases e') (simp add: same_node_def)

lemma restatus_header: "restatus e e' \<Longrightarrow> GetBlockHeader e' = GetBlockHeader e \<and> pprev e' = pprev e \<and> bi_nBits e' = bi_nBits e"
  unfolding restatus_def by (cases e; cases e') (simp add: GetBlockHeader_def)

lemma mark_fields [simp]:
  "restatus e (mark_child e)" "is_failed (mark_child e)" "restatus e (e\<lparr>nStatus := s\<rparr>)"
  "is_failed (e\<lparr>nStatus := nStatus e OR BLOCK_FAILED_VALID\<rparr>)"
  by (simp_all add: mark_child_def restatus_def is_failed_def failed_bits)

lemma add_failed_fields [simp]:
  "cs_block_manager (add_failed k st) = cs_block_manager st" "cs_orphans (add_failed k st) = cs_orphans st"
  "cs_chain_selector (add_failed k st) = cs_chain_selector st" "notified (add_failed k st) = notified st"
  "cs_suspicious_reorg_depth (add_failed k st) = cs_suspicious_reorg_depth st" "m_cached_finished_ibd (add_failed k st) = m_cached_finished_ibd st"
  by (simp_all add: add_failed_def)

lemma drop_candidate_fields [simp]:
  "cs_block_manager (drop_candidate k st) = cs_block_manager st" "cs_orphans (drop_candidate k st) = cs_orphans st"
  "m_candidates (cs_chain_selector (drop_candidate k st)) = cand_erase k (m_candidates (cs_chain_selector st))" "notified (drop_candidate k st) = notified st"
  "cs_suspicious_reorg_depth (drop_candidate k st) = cs_suspicious_reorg_depth st" "m_cached_finished_ibd (drop_candidate k st) = m_cached_finished_ibd st"
  by (simp_all add: drop_candidate_def RemoveCandidate_def)

lemma modify_entry_index: "map_of (the_index st) k = Some e \<Longrightarrow> the_index (modify_entry k f st) = om_update k (f e) (the_index st)"
  by (simp add: modify_entry_def)

text \<open>What the marking passes do: entries in \<open>D\<close> are marked and are no candidates; nothing else changes.\<close>

definition marks :: "blob set \<Rightarrow> chainstate \<Rightarrow> chainstate \<Rightarrow> bool" where
  "marks D st st' \<longleftrightarrow> index_inv (the_index st') \<and>
     (\<forall>k. map_of (the_index st') k = None \<longleftrightarrow> map_of (the_index st) k = None) \<and>
     (\<forall>k e. map_of (the_index st) k = Some e \<longrightarrow> (\<exists>e'. map_of (the_index st') k = Some e' \<and> restatus e e' \<and>
        (if k \<in> D then is_failed e' else e' = e))) \<and>
     m_candidates (cs_chain_selector st') = filter (\<lambda>k. k \<notin> D) (m_candidates (cs_chain_selector st)) \<and>
     the_chain st' = the_chain st \<and> cs_orphans st' = cs_orphans st \<and> notified st' = notified st \<and>
     cs_suspicious_reorg_depth st' = cs_suspicious_reorg_depth st \<and> m_cached_finished_ibd st' = m_cached_finished_ibd st"

lemma marks_refl: "index_inv (the_index st) \<Longrightarrow> marks {} st st"
  by (simp add: marks_def)

lemma marksD:
  assumes "marks D st st'" "map_of (the_index st) k = Some e"
  obtains e' where "map_of (the_index st') k = Some e'" "restatus e e'" "k \<in> D \<longrightarrow> is_failed e'" "k \<notin> D \<longrightarrow> e' = e"
proof -
  have "\<exists>e'. map_of (the_index st') k = Some e' \<and> restatus e e' \<and> (if k \<in> D then is_failed e' else e' = e)"
    using assms unfolding marks_def by blast
  then show thesis using that by (auto split: if_splits)
qed

lemma marks_trans:
  assumes "marks A a b" "marks B b c"
  shows "marks (A \<union> B) a c"
proof -
  have "\<exists>e''. map_of (the_index c) k = Some e'' \<and> restatus e e'' \<and> (if k \<in> A \<union> B then is_failed e'' else e'' = e)"
    if e: "map_of (the_index a) k = Some e" for k e
  proof -
    obtain e' where e': "map_of (the_index b) k = Some e'" "restatus e e'" "k \<in> A \<longrightarrow> is_failed e'" "k \<notin> A \<longrightarrow> e' = e"
      by (rule marksD [OF assms(1) e])
    obtain e'' where "map_of (the_index c) k = Some e''" "restatus e' e''" "k \<in> B \<longrightarrow> is_failed e''" "k \<notin> B \<longrightarrow> e'' = e'"
      by (rule marksD [OF assms(2) e'(1)])
    then show ?thesis using e'(3,4) restatus_trans [OF e'(2)] by auto
  qed
  then show ?thesis using assms by (auto simp: marks_def intro!: filter_cong)
qed

lemma marks_sub: "marks D st st' \<Longrightarrow> index_sub (the_index st) (the_index st')"
  unfolding index_sub_def using marksD restatus_same_node by metis

lemma mark_one:
  assumes m: "index_inv (the_index st)" and k: "map_of (the_index st) k = Some e" and f: "restatus e (f e)" "is_failed (f e)"
  shows "marks {k} st (drop_candidate k (add_failed k (modify_entry k f st)))"
proof -
  have i: "the_index (modify_entry k f st) = om_update k (f e) (the_index st)" by (rule modify_entry_index [OF k])
  have "index_inv (om_update k (f e) (the_index st))" by (rule index_inv_same [OF m k restatus_same_node [OF f(1)]])
  then show ?thesis using k f by (auto simp: marks_def i cand_erase_def intro!: filter_cong)
qed

lemma mark_descendants_marks:
  assumes h: "map_of (the_index st0) h \<noteq> None" and m0: "index_inv (the_index st0)"
  shows "index_inv (the_index st) \<Longrightarrow> index_sub (the_index st0) (the_index st) \<Longrightarrow> list_all (\<lambda>k. map_of (the_index st0) k \<noteq> None) ks \<Longrightarrow>
    \<exists>st'. mark_descendants h ks st = Some st' \<and> marks {k \<in> set ks. k \<noteq> h \<and> descends (parent_of (the_index st0)) k h} st st'"
proof (induction ks arbitrary: st)
  case Nil
  then show ?case using marks_refl by simp
next
  case (Cons k ks)
  let ?D = "\<lambda>ks. {k \<in> set ks. k \<noteq> h \<and> descends (parent_of (the_index st0)) k h}"
  note s = Cons.prems(2)
  have k0: "map_of (the_index st0) k \<noteq> None" using Cons.prems(3) by simp
  have kh: "map_of (the_index st) k \<noteq> None" "map_of (the_index st) h \<noteq> None" using index_sub_fields(1) [OF s] k0 h by auto
  have anc: "GetAncestor (the_index st) k (height_of (the_index st) h) = Some (Some h) \<longleftrightarrow> descends (parent_of (the_index st0)) k h"
    using GetAncestor_value [OF Cons.prems(1) kh(1), of "height_of (the_index st) h"] tree.descends_anc_at [OF Cons.prems(1) kh(1), of h]
      tree.height_nonneg [OF Cons.prems(1) kh(2)] index_sub_descends [OF m0 s k0, of h] by auto
  obtain a where a: "GetAncestor (the_index st) k (height_of (the_index st) h) = Some a"
    using GetAncestor_value [OF Cons.prems(1) kh(1)] by blast
  show ?case
  proof (cases "k \<noteq> h \<and> descends (parent_of (the_index st0)) k h")
    case True
    obtain e where e: "map_of (the_index st) k = Some e" using kh by blast
    let ?st = "drop_candidate k (add_failed k (modify_entry k mark_child st))"
    have mk: "marks {k} st ?st" by (rule mark_one [OF Cons.prems(1) e]) simp_all
    have "index_inv (the_index ?st)" "index_sub (the_index st0) (the_index ?st)"
      using mk index_sub_trans [OF s marks_sub [OF mk]] by (simp_all add: marks_def)
    then obtain st' where st': "mark_descendants h ks ?st = Some st'" "marks (?D ks) ?st st'"
      using Cons.IH [of ?st] Cons.prems(3) by auto
    have "marks ({k} \<union> ?D ks) st st'" by (rule marks_trans [OF mk st'(2)])
    moreover have "{k} \<union> ?D ks = ?D (k # ks)" using True by auto
    moreover have "mark_descendants h (k # ks) st = Some st'" using True a anc st'(1) by (simp add: mark_child_def [abs_def])
    ultimately show ?thesis by auto
  next
    case False
    obtain st' where st': "mark_descendants h ks st = Some st'" "marks (?D ks) st st'"
      using Cons.IH [OF Cons.prems(1,2)] Cons.prems(3) by auto
    moreover have "?D (k # ks) = ?D ks" using False by auto
    moreover have "mark_descendants h (k # ks) st = mark_descendants h ks st" using False a anc by auto
    ultimately show ?thesis by auto
  qed
qed

section \<open>Invalidation\<close>

lemma map_of_keys: "k \<in> fst ` set m \<longleftrightarrow> map_of m k \<noteq> None"
  by (simp add: map_of_eq_None_iff)

lemma index_keys: "(\<forall>(k, e) \<in> set m. map_of m k \<noteq> None)"
  by (auto dest: weak_map_of_SomeI)

lemma marks_dom: "marks D st st' \<Longrightarrow> map_of (the_index st') k = None \<longleftrightarrow> map_of (the_index st) k = None"
  by (simp add: marks_def)

lemma marks_statuses:
  assumes d: "marks {k. map_of (the_index st) k \<noteq> None \<and> descends (parent_of (the_index st)) k h} st st'"
    and m: "index_inv (the_index st)" and s: "statuses_ok (the_index st)"
  shows "statuses_ok (the_index st')"
proof (rule statuses_okI)
  let ?m = "the_index st" and ?m' = "the_index st'"
  have m': "index_inv ?m'" using d by (simp add: marks_def)
  show "om_invar ?m'" by (rule index_om [OF m'])
  have old: "\<exists>e. map_of ?m k = Some e" if "map_of ?m' k = Some e'" for k e'
    using that marks_dom [OF d, of k] by (cases "map_of ?m k") auto
  show "is_failed e' \<or> IsValid e' BLOCK_VALID_TREE" if e': "map_of ?m' k = Some e'" for k e'
  proof -
    obtain e where e: "map_of ?m k = Some e" using old [OF e'] by blast
    show ?thesis by (rule marksD [OF d e]) (use statuses_okD(1) [OF s e] e' in auto)
  qed
  show "is_failed e'" if e': "map_of ?m' k = Some e'" "pprev e' = Some p" "map_of ?m' p = Some f'" "is_failed f'" for k e' p f'
  proof -
    obtain e where e: "map_of ?m k = Some e" using old [OF e'(1)] by blast
    obtain f where f: "map_of ?m p = Some f" using old [OF e'(3)] by blast
    have "restatus e e'" by (rule marksD [OF d e]) (use e' in auto)
    then have se: "same_node e e'" by (rule restatus_same_node)
    then have pe: "pprev e = Some p" using e'(2) by (simp add: same_node_def)
    show ?thesis
    proof (cases "descends (parent_of ?m) k h")
      case True
      then show ?thesis using marksD [OF d e] e e'(1) by auto
    next
      case False
      have par: "parent_of ?m k = Some p" using e pe by (simp add: parent_of_Some)
      have np: "\<not> descends (parent_of ?m) p h" using False descends_trans [OF descends_parent [of "parent_of ?m", OF par]] by blast
      have "f' = f" by (rule marksD [OF d f]) (use e'(3) np in auto)
      moreover have "e' = e" by (rule marksD [OF d e]) (use e'(1) False in auto)
      ultimately show ?thesis using statuses_okD(2) [OF s e pe f] e'(4) by simp
    qed
  qed
qed

lemma marks_node_inv:
  assumes d: "marks {k. map_of (the_index st) k \<noteq> None \<and> descends (parent_of (the_index st)) k h} st st'" and i: "node_inv env st"
  shows "node_inv env st'"
proof -
  let ?m = "the_index st" and ?m' = "the_index st'"
  have m: "index_inv ?m" "index_inv ?m'" "index_sub ?m ?m'" using i d marks_sub [OF d] by (simp_all add: node_inv_index marks_def)
  have r: "times_ok ?m" "bits_ok ?m (env_params env)" using i by (simp_all add: node_inv_def)
  have "times_ok ?m'" "bits_ok ?m' (env_params env)"
    by (rule rules_sub [OF m r]; use marks_dom [OF d] in \<open>metis option.distinct(1)\<close>)+
  moreover have "statuses_ok ?m'" using marks_statuses [OF d m(1)] i by (simp add: node_inv_def)
  moreover have "authentic (env_crypto env) (env_params env) ?m'"
    unfolding authentic_iff [OF index_om [OF m(2)]]
  proof (intro allI impI)
    fix k e' assume e': "map_of ?m' k = Some e'"
    then obtain e where e: "map_of ?m k = Some e" using marks_dom [OF d, of k] by (cases "map_of ?m k") auto
    have "restatus e e'" by (rule marksD [OF d e]) (use e' in auto)
    moreover have "authentic (env_crypto env) (env_params env) ?m" using i by (simp add: node_inv_def)
    ultimately show "header_hash (env_crypto env) (GetBlockHeader e') = k \<and>
        (pprev e' \<noteq> None \<longrightarrow> CheckProofOfWork (env_crypto env) (GetBlockHeader e') (bi_nBits e') (env_params env) FULL None = Inr (True, None))"
      using e restatus_header [of e e'] unfolding authentic_iff [OF index_om [OF m(1)]] by simp
  qed
  moreover have "selector_ok ?m (cs_chain_selector st)" using i by (simp add: node_inv_def state_inv_selector_ok)
  then have "selector_ok ?m' (cs_chain_selector st')"
    using index_sub_cands [OF m(3), of "m_candidates (cs_chain_selector st')"] index_sub_fields(1) [OF m(3)] d
    by (auto simp: selector_ok_def marks_def cands_ok_filter list_all_iff)
  moreover have "chain_inv ?m' (the_chain st')" using index_sub_chain [OF m(1,3)] i d by (simp add: node_inv_def state_inv_def marks_def)
  ultimately show ?thesis using i d m(2) by (simp add: node_inv_def state_inv_selector_ok marks_def)
qed

lemma invalidate_disconnects:
  assumes i: "node_inv env st" and h: "map_of (the_index st) h = Some e" "nHeight e \<noteq> 0" and t: "GetTip st = Some t"
  obtains cs ev v where "invalidate_loop h (fork_candidates (the_index st) (the_chain st) e (the_index st) []) [] st =
      Some (True, ev, (with_chain st v)\<lparr>cs_chain_selector := cs\<rparr>)" "selector_ok (the_index st) cs"
    "v = path_to (the_index st) (if descends (parent_of (the_index st)) t h then the (pprev e) else t)"
    "map_of (the_index st) (if descends (parent_of (the_index st)) t h then the (pprev e) else t) \<noteq> None"
    "\<not> descends (parent_of (the_index st)) (if descends (parent_of (the_index st)) t h then the (pprev e) else t) h"
proof -
  let ?m = "the_index st" and ?F = "fork_candidates (the_index st) (the_chain st) e (the_index st) []"
  have m: "index_inv ?m" using i by (rule node_inv_index)
  have s: "state_inv st" using i by (simp add: node_inv_def)
  have tm: "map_of ?m t \<noteq> None" and v: "the_chain st = path_to ?m t" using state_tip [OF s] t by auto
  have ok: "selector_ok ?m (cs_chain_selector st)" using s by (simp add: state_inv_selector_ok)
  have F: "list_all (\<lambda>(w, k). map_of ?m k \<noteq> None) ?F" by (rule fork_candidates_ok [OF index_keys]) simp
  obtain p where p: "pprev e = Some p" using index_root [OF m h(1)] h(2) by (cases "pprev e") auto
  have hp: "map_of ?m h \<noteq> None" "parent_of ?m h = Some p" using h(1) p by (simp_all add: parent_of_Some)
  show thesis
  proof (cases "descends (parent_of ?m) t h")
    case True
    then obtain n where n: "ancs (parent_of ?m) n t = Some h" by (auto simp: descends_def)
    obtain cs where "invalidate_loop h ?F [] st = Some (True, [] @ map (disconnected_event ?m) (branch (parent_of ?m) (Suc n) t),
        (with_chain st (path_to ?m p))\<lparr>cs_chain_selector := cs\<rparr>)" "selector_ok ?m cs"
      using invalidate_loop_in [OF m hp refl v tm n ok F] by blast
    then show thesis using that True p parent_not_below [OF m hp] by simp
  next
    case False
    have "invalidate_loop h ?F [] st = Some (True, [], st)"
      by (rule invalidate_loop_out) (use False chain_Contains_descends [OF m tm] v in simp)
    moreover have "st = (with_chain st (path_to ?m t))\<lparr>cs_chain_selector := cs_chain_selector st\<rparr>" using v by simp
    ultimately have "invalidate_loop h ?F [] st = Some (True, [], (with_chain st (path_to ?m t))\<lparr>cs_chain_selector := cs_chain_selector st\<rparr>)"
      by argo
    from that [OF this ok] show thesis using False tm by simp
  qed
qed

lemma InvalidateBlock_spec:
  assumes i: "node_inv env st" and h: "map_of (the_index st) h = Some e" "nHeight e \<noteq> 0"
  shows "\<exists>st' t. InvalidateBlock h st = Some (True, st') \<and> node_inv env st' \<and> GetTip st = Some t \<and>
    GetTip st' = Some (if descends (parent_of (the_index st)) t h then the (pprev e) else t) \<and>
    (\<forall>k. map_of (the_index st') k = None \<longleftrightarrow> map_of (the_index st) k = None) \<and>
    (\<forall>k f. map_of (the_index st) k = Some f \<longrightarrow> (\<exists>f'. map_of (the_index st') k = Some f' \<and> restatus f f' \<and>
       (if descends (parent_of (the_index st)) k h then is_failed f' else f' = f))) \<and>
    (\<forall>k \<in> set (m_candidates (cs_chain_selector st')). \<not> descends (parent_of (the_index st)) k h) \<and>
    cs_orphans st' = cs_orphans st \<and> m_cached_finished_ibd st' = m_cached_finished_ibd st"
proof -
  let ?m = "the_index st"
  have m: "index_inv ?m" using i by (rule node_inv_index)
  obtain t where t: "GetTip st = Some t" using state_tip i by (metis node_inv_def)
  let ?u = "if descends (parent_of ?m) t h then the (pprev e) else t"
  obtain cs ev v where l: "invalidate_loop h (fork_candidates ?m (the_chain st) e ?m []) [] st = Some (True, ev, (with_chain st v)\<lparr>cs_chain_selector := cs\<rparr>)"
      "selector_ok ?m cs" and v: "v = path_to ?m ?u" "map_of ?m ?u \<noteq> None" "\<not> descends (parent_of ?m) ?u h"
    by (rule invalidate_disconnects [OF i h t])
  define s1 where "s1 = (with_chain st v)\<lparr>cs_chain_selector := cs\<rparr>"
  have m1: "the_index s1 = ?m" by (simp add: s1_def)
  have i1: "node_inv env s1" using i l(2) v chain_inv_path [OF m v(2)]
    by (simp add: node_inv_def state_inv_selector_ok s1_def) (simp add: path_to_def)
  define s2 where "s2 = drop_candidate h (add_failed h (modify_entry h (\<lambda>e. e\<lparr>nStatus := nStatus e OR BLOCK_FAILED_VALID\<rparr>) s1))"
  have k2: "marks {h} s1 s2" unfolding s2_def
    by (rule mark_one) (use m h(1) in \<open>simp_all add: m1\<close>)
  have m2: "index_inv (the_index s2)" using k2 by (simp add: marks_def)
  have h1: "map_of (the_index s1) h \<noteq> None" "index_inv (the_index s1)" using h m by (simp_all add: m1)
  have keys: "list_all (\<lambda>k. map_of (the_index s1) k \<noteq> None) (map fst (the_index s2))"
    unfolding list_all_iff set_map using k2 map_of_keys [of _ "the_index s2"] by (simp add: marks_def)
  obtain s3 where s3: "mark_descendants h (map fst (the_index s2)) s2 = Some s3"
      "marks {k \<in> set (map fst (the_index s2)). k \<noteq> h \<and> descends (parent_of (the_index s1)) k h} s2 s3"
    using mark_descendants_marks [OF h1 m2 marks_sub [OF k2] keys] by blast
  have D: "{h} \<union> {k \<in> set (map fst (the_index s2)). k \<noteq> h \<and> descends (parent_of (the_index s1)) k h} =
      {k. map_of (the_index s1) k \<noteq> None \<and> descends (parent_of (the_index s1)) k h}"
    using k2 h1 map_of_keys [of _ "the_index s2"] by (auto simp: marks_def)
  have k3: "marks {k. map_of (the_index s1) k \<noteq> None \<and> descends (parent_of (the_index s1)) k h} s1 s3"
    using marks_trans [OF k2 s3(2)] unfolding D .
  have i3: "node_inv env s3" by (rule marks_node_inv [OF k3 i1])
  have tip3: "GetTip s3 = Some ?u"
    using k3 path_to_tip [of ?m ?u] tree.height_nonneg [OF m v(2)] v(1) by (simp add: GetTip_def bm_GetTip_def marks_def s1_def)
  define cs4 where "cs4 = add_leaves (the_index s3) ?u (the_index s3) (cs_chain_selector s3)"
  define s5 where "s5 = s3\<lparr>cs_chain_selector := cs4, notified := notified s3 @ ev\<rparr>"
  have run: "InvalidateBlock h st = Some (True, s5)"
  proof -
    have "\<not> chain_Contains ?m v (Some h)" using v(3) chain_Contains_descends [OF m v(2), of h] v(1) by simp
    then show ?thesis using h l(1) s3(1) tip3
      by (simp add: InvalidateBlock_def Let_def s1_def [symmetric] s2_def [symmetric] m1 s5_def cs4_def) (simp add: s1_def)
  qed
  have "selector_ok (the_index s3) cs4" unfolding cs4_def
    by (rule add_leaves_ok [OF index_keys]) (use i3 in \<open>simp add: node_inv_def state_inv_selector_ok\<close>)
  then have i5: "node_inv env s5" using i3 by (simp add: s5_def node_inv_def state_inv_selector_ok)
  have c5: "\<not> descends (parent_of ?m) k h" if kc: "k \<in> set (m_candidates (cs_chain_selector s5))" for k
  proof
    assume dk: "descends (parent_of ?m) k h"
    have "k \<notin> set (m_candidates (cs_chain_selector s3))" if "map_of ?m k \<noteq> None" using that dk k3 by (simp add: marks_def m1)
    moreover have km: "map_of ?m k \<noteq> None"
    proof -
      have "map_of (the_index s5) k \<noteq> None" using i5 kc by (auto simp: node_inv_def state_inv_def list_all_iff)
      then show ?thesis using marks_dom [OF k3, of k] m1 by (auto simp: s5_def)
    qed
    ultimately obtain f where f: "(k, f) \<in> set (the_index s3)" "IsValid f BLOCK_VALID_TREE"
      using kc by (auto simp: s5_def cs4_def add_leaves_set)
    have "map_of (the_index s3) k = Some f" using f(1) om_entries_iff [OF index_om [OF node_inv_index [OF i3]]] by simp
    moreover obtain g where g: "map_of (the_index s1) k = Some g" using km by (auto simp: m1)
    ultimately have "is_failed f" using marksD [OF k3 g] dk km by (auto simp: m1)
    then show False using f(2) by (simp add: is_failed_def IsValid_def)
  qed
  have "GetTip s5 = Some ?u" using tip3 by (simp add: s5_def GetTip_def)
  moreover have "\<forall>k f. map_of ?m k = Some f \<longrightarrow> (\<exists>f'. map_of (the_index s5) k = Some f' \<and> restatus f f' \<and>
       (if descends (parent_of ?m) k h then is_failed f' else f' = f))"
    using k3 unfolding marks_def by (simp add: m1 s5_def)
  ultimately show ?thesis using run i5 t c5 k3
    by (intro exI [of _ s5] exI [of _ t]) (simp add: s5_def marks_def m1 s1_def)
qed

section \<open>Properties\<close>

text \<open>
  \<^bold>\<open>C10.\<close> Invalidation is exact: for every known block other than genesis, \<open>InvalidateBlock\<close> ends, returns
  true and keeps the node invariant; it marks as failed precisely the block and its descendants, changing
  nothing else in the index; the tip becomes the block's parent when the block was active and stays
  otherwise; and no descendant of the block remains a candidate.
\<close>

theorem InvalidateBlock_exact:
  assumes "node_inv env st" and "map_of (the_index st) h = Some e" and "nHeight e \<noteq> 0"
  shows "\<exists>st' t. InvalidateBlock h st = Some (True, st') \<and> node_inv env st' \<and> GetTip st = Some t \<and>
    GetTip st' = Some (if descends (parent_of (the_index st)) t h then the (pprev e) else t) \<and>
    (\<forall>k. map_of (the_index st') k = None \<longleftrightarrow> map_of (the_index st) k = None) \<and>
    (\<forall>k f. map_of (the_index st) k = Some f \<longrightarrow> (\<exists>f'. map_of (the_index st') k = Some f' \<and> restatus f f' \<and>
       (if descends (parent_of (the_index st)) k h then is_failed f' else f' = f))) \<and>
    (\<forall>k \<in> set (m_candidates (cs_chain_selector st')). \<not> descends (parent_of (the_index st)) k h)"
  using InvalidateBlock_spec [OF assms] by blast

definition two_state :: chainstate where
  "two_state = inserted small_env (sample_header [9] 150 1) small_genesis small_state"

lemma small_genesis_ok: "map_of small_index [9] = Some small_genesis" "\<not> is_failed small_genesis"
  by (simp_all add: small_index_def small_genesis_def sample_entry_def is_failed_def status_defs)

lemma two_node_inv: "node_inv small_env two_state"
  unfolding two_state_def
  by (rule inserted_inv [OF small_node_inv])
    (use small_valid small_genesis_ok in \<open>simp_all add: valid_child_def small_index_def small_env_def\<close>)

lemma two_entry: "map_of (the_index two_state) [1] = Some (accepted_entry small_index (sample_header [9] 150 1) small_genesis 200)"
  by (simp add: two_state_def small_env_def)

theorem InvalidateBlock_exact_witness:
  "\<exists>st' e. InvalidateBlock [1] two_state = Some (True, st') \<and> map_of (the_index st') [1] = Some e \<and> is_failed e \<and> GetTip st' = Some [9]"
proof -
  let ?e = "accepted_entry small_index (sample_header [9] 150 1) small_genesis 200"
  have h: "nHeight ?e \<noteq> 0" by (simp add: small_genesis_def sample_entry_def)
  have t: "GetTip two_state = Some [9]"
    by (simp add: GetTip_def bm_GetTip_def two_state_def small_state_def chain_Tip_def)
  have "parent_of (the_index two_state) [9] = None"
    by (simp add: two_state_def small_env_def parent_of_def small_index_def small_genesis_def sample_entry_def)
  then have "\<not> descends (parent_of (the_index two_state)) [9] [1]" using descends_step by fastforce
  then show ?thesis using InvalidateBlock_exact [OF two_node_inv two_entry h] t two_entry by fastforce
qed

text \<open>
  \<^bold>\<open>C21.\<close> An invalidated block stays out: after \<open>InvalidateBlock\<close> and a following \<open>ActivateBestChain\<close>, which
  both succeed, the active chain does not contain the block, so neither its descendants.
\<close>

theorem invalidated_not_reactivated:
  assumes "node_inv env st" and "map_of (the_index st) h = Some e" and "nHeight e \<noteq> 0"
  shows "\<exists>st1 st2 k. InvalidateBlock h st = Some (True, st1) \<and> ActivateBestChain None st1 = Some (True, st2) \<and>
    GetTip st2 = Some k \<and> \<not> descends (parent_of (the_index st)) k h \<and> \<not> chain_Contains (the_index st2) (the_chain st2) (Some h)"
proof -
  have m: "index_inv (the_index st)" using assms(1) by (rule node_inv_index)
  have hm: "map_of (the_index st) h \<noteq> None" using assms(2) by simp
  obtain p where p: "pprev e = Some p" using index_root [OF m assms(2)] assms(3) by (cases "pprev e") auto
  have hp: "parent_of (the_index st) h = Some p" using assms(2) p by (simp add: parent_of_Some)
  obtain st1 t where s1: "InvalidateBlock h st = Some (True, st1)" "node_inv env st1"
      "GetTip st1 = Some (if descends (parent_of (the_index st)) t h then the (pprev e) else t)"
      and dom: "\<forall>k. map_of (the_index st1) k = None \<longleftrightarrow> map_of (the_index st) k = None"
      and ent: "\<forall>k f. map_of (the_index st) k = Some f \<longrightarrow> (\<exists>f'. map_of (the_index st1) k = Some f' \<and> restatus f f' \<and>
         (if descends (parent_of (the_index st)) k h then is_failed f' else f' = f))"
      and c: "\<forall>k \<in> set (m_candidates (cs_chain_selector st1)). \<not> descends (parent_of (the_index st)) k h"
    using InvalidateBlock_spec [OF assms] by blast
  obtain st2 u k where s2: "ActivateBestChain None st1 = Some (True, st2)" "node_inv env st2" "the_index st2 = the_index st1"
      "GetTip st1 = Some u" "GetTip st2 = Some k" "k = u \<or> k \<in> set (m_candidates (cs_chain_selector st1)) \<and> valid_tip (the_index st1) k"
    by (rule ActivateBestChain_node [OF s1(2)])
  have "\<not> descends (parent_of (the_index st)) u h" using s1(3) s2(4) p parent_not_below(2) [OF m hm hp] by (auto split: if_splits)
  then have nd: "\<not> descends (parent_of (the_index st)) k h" using s2(6) c by blast
  have m2: "index_inv (the_index st2)" using s2(2) by (rule node_inv_index)
  have tip: "map_of (the_index st2) k \<noteq> None" "the_chain st2 = path_to (the_index st2) k"
    using state_tip [of st2] s2(2,5) by (auto simp: node_inv_def)
  have sub: "index_sub (the_index st) (the_index st2)" unfolding index_sub_def s2(3)
    using ent restatus_same_node by blast
  have km: "map_of (the_index st) k \<noteq> None" using tip(1) dom s2(3) by simp
  have "\<not> descends (parent_of (the_index st2)) k h" using nd index_sub_descends [OF m sub km] by simp
  then have "\<not> chain_Contains (the_index st2) (the_chain st2) (Some h)"
    using chain_Contains_descends [OF m2 tip(1)] tip(2) by simp
  then show ?thesis using s1(1) s2(1,5) nd by blast
qed

theorem invalidated_not_reactivated_witness:
  "\<exists>st1 st2 k. InvalidateBlock [1] two_state = Some (True, st1) \<and> ActivateBestChain None st1 = Some (True, st2) \<and>
    GetTip st2 = Some k \<and> \<not> chain_Contains (the_index st2) (the_chain st2) (Some [1])"
proof -
  have h: "nHeight (accepted_entry small_index (sample_header [9] 150 1) small_genesis 200) \<noteq> 0" by (simp add: small_genesis_def sample_entry_def)
  show ?thesis using invalidated_not_reactivated [OF two_node_inv two_entry h] by blast
qed

end
