(* ===== verification/Node.thy ===== *)
theory Node
  imports Invalidate
begin

text \<open>
  The chainstate as a state machine: the operations the network layer, the miner and the RPC server
  call, in any order, with any headers and any clock, from the genesis state on.
\<close>

section \<open>Steps\<close>

definition mk_env :: "crypto \<Rightarrow> ChainParams \<Rightarrow> int \<Rightarrow> byte list timedata \<Rightarrow> node_env" where
  "mk_env cr params now td = \<lparr>env_crypto = cr, env_params = params, env_now = now, env_timedata = td\<rparr>"

inductive protocol_step :: "crypto \<Rightarrow> ChainParams \<Rightarrow> chainstate \<Rightarrow> chainstate \<Rightarrow> bool" for cr params where
  accept: "int (weight st) + 1 < 2 ^ 31 \<Longrightarrow> AcceptBlockHeader (mk_env cr params now td) header mp state st = Some (r, state', st') \<Longrightarrow>
    protocol_step cr params st st'"
| new_header: "int (weight st) + 1 < 2 ^ 31 \<Longrightarrow> ProcessNewBlockHeader (mk_env cr params now td) header state st = Some (q, state', st') \<Longrightarrow>
    protocol_step cr params st st'"
| candidate: "map_of (the_index st) k \<noteq> None \<Longrightarrow> TryAddBlockIndexCandidate (the_index st) (Some k) (cs_chain_selector st) = Some cs \<Longrightarrow>
    protocol_step cr params st (st\<lparr>cs_chain_selector := cs\<rparr>)"
| activate: "ActivateBestChain None st = Some (ok, st') \<Longrightarrow> protocol_step cr params st st'"
| orphan: "AddOrphanHeader (mk_env cr params now td) header peer st = (ok, st') \<Longrightarrow> protocol_step cr params st st'"
| evict: "EvictOrphanHeaders params now (cs_orphans st) = (n, pool) \<Longrightarrow> protocol_step cr params st (st\<lparr>cs_orphans := pool\<rparr>)"
| ibd: "IsInitialBlockDownload (mk_env cr params now td) st = (b, st') \<Longrightarrow> protocol_step cr params st st'"

inductive node_reachable :: "crypto \<Rightarrow> ChainParams \<Rightarrow> CBlockHeader \<Rightarrow> chainstate \<Rightarrow> bool" for cr params gen where
  init: "cs_Initialize (mk_env cr params now td) gen (ChainstateManager params) = Some (True, st) \<Longrightarrow> node_reachable cr params gen st"
| protocol: "node_reachable cr params gen st \<Longrightarrow> protocol_step cr params st st' \<Longrightarrow> node_reachable cr params gen st'"
| invalidate: "node_reachable cr params gen st \<Longrightarrow> InvalidateBlock h st = Some (b, st') \<Longrightarrow> node_reachable cr params gen st'"

inductive_cases protocol_stepE: "protocol_step cr params st st'"

section \<open>Every step keeps the invariant\<close>

lemma mk_env_fields [simp]: "env_crypto (mk_env cr params now td) = cr" "env_params (mk_env cr params now td) = params"
  by (simp_all add: mk_env_def)

lemma node_inv_clock: "node_inv (mk_env cr params now td) st = node_inv (mk_env cr params now' td') st"
  by (simp add: node_inv_def)

lemma node_inv_selector_same: "node_inv env st \<Longrightarrow> selector_ok (the_index st) cs \<Longrightarrow> node_inv env (st\<lparr>cs_chain_selector := cs\<rparr>)"
  by (simp add: node_inv_def state_inv_selector_ok)

lemma node_inv_pool: "node_inv env st \<Longrightarrow> pool_inv pool \<Longrightarrow> node_inv env (st\<lparr>cs_orphans := pool\<rparr>)"
  by (simp add: node_inv_def state_inv_def)

lemma node_state_inv: "node_inv env st \<Longrightarrow> state_inv st"
  by (simp add: node_inv_def)

lemma protocol_step_keeps:
  assumes "asert_params params" "protocol_step cr params st st'" "node_inv (mk_env cr params 0 td0) st"
  shows "node_inv (mk_env cr params 0 td0) st' \<and> progress st st'"
  using assms(2)
proof (cases rule: protocol_step.cases)
  case (accept now td header mp state r state')
  have a: "asert_params (env_params (mk_env cr params now td))" using assms(1) by simp
  have i: "node_inv (mk_env cr params now td) st" using assms(3) node_inv_clock by metis
  have "node_inv (mk_env cr params now td) st'" "grown st st'"
    using AcceptBlockHeader_ok [OF a i accept(1), of header mp state] accept(2) by (auto simp: accept_ok_def)
  then show ?thesis using progress_grown [OF node_state_inv [OF assms(3)]] node_inv_clock by metis
next
  case (new_header now td header state q state')
  have a: "asert_params (env_params (mk_env cr params now td))" using assms(1) by simp
  have i: "node_inv (mk_env cr params now td) st" using assms(3) node_inv_clock by metis
  have "node_inv (mk_env cr params now td) st' \<and> progress st st'"
    by (rule ProcessNewBlockHeader_ok [OF a i new_header(1), of header state]) (use new_header(2) in auto)
  then show ?thesis using node_inv_clock by metis
next
  case (candidate k cs)
  then obtain e where e: "map_of (the_index st) k = Some e" by blast
  have w: "nChainWork e \<noteq> 0" using candidate(3) e by (auto simp: TryAddBlockIndexCandidate_def split: if_splits)
  have "node_inv (mk_env cr params 0 td0) st'"
    by (rule TryAdd_node [OF assms(3) e w]) (use candidate(1,3) in simp)
  moreover have "progress st st'" by (rule progress_same [OF node_state_inv [OF assms(3)]]) (simp_all add: candidate(1))
  ultimately show ?thesis by blast
next
  case (activate ok)
  then show ?thesis using ActivateBestChain_progress [OF assms(3)] by blast
next
  case (orphan now td header peer ok)
  have "pool_inv (cs_orphans st)" using assms(3) by (simp add: node_inv_def)
  then obtain ok' pool where p: "TryAddOrphanHeader cr params (env_now (mk_env cr params now td)) header peer (cs_orphans st) = (ok', pool)" "pool_inv pool"
    using TryAddOrphanHeader_spec [of "cs_orphans st" cr params "env_now (mk_env cr params now td)" header peer] by blast
  then have "st' = st\<lparr>cs_orphans := pool\<rparr>" using orphan by (simp add: AddOrphanHeader_def)
  then show ?thesis using p(2) node_inv_pool [OF assms(3)] progress_same [OF node_state_inv [OF assms(3)]] by simp
next
  case (evict now n pool)
  have "pool_ok (cs_orphans st)" "pool_inv (cs_orphans st)" using assms(3) by (simp_all add: node_inv_def pool_inv_def)
  then have "pool_inv pool" using EvictOrphanHeaders_spec [of "cs_orphans st" params now] evict(2) by (auto simp: pool_inv_def)
  then show ?thesis using node_inv_pool [OF assms(3)] progress_same [OF node_state_inv [OF assms(3)]] evict(1) by simp
next
  case (ibd now td b)
  then have "st' = st \<or> st' = st\<lparr>m_cached_finished_ibd := True\<rparr>"
    by (auto simp: IsInitialBlockDownload_def split: if_splits option.splits)
  moreover have "node_inv (mk_env cr params 0 td0) (st\<lparr>m_cached_finished_ibd := True\<rparr>)"
    using assms(3) by (simp add: node_inv_def state_inv_def)
  ultimately show ?thesis using assms(3) progress_same [OF node_state_inv [OF assms(3)]] by auto
qed

lemma failed_below:
  assumes m: "index_inv m" and s: "statuses_ok m"
  shows "ancs (parent_of m) n k = Some q \<Longrightarrow> map_of m k = Some e \<Longrightarrow> map_of m q = Some f \<Longrightarrow> is_failed f \<Longrightarrow> is_failed e"
proof (induction n arbitrary: k e)
  case (Suc n)
  then obtain p where p: "pprev e = Some p" "ancs (parent_of m) n p = Some q" by (auto simp: parent_of_Some split: option.splits)
  obtain g where g: "map_of m p = Some g" by (rule index_parent [OF m Suc.prems(2) p(1)])
  show ?case using Suc.IH [OF p(2) g] Suc.prems(3,4) statuses_okD(2) [OF s Suc.prems(2) p(1) g] by blast
qed simp

lemma invalidate_keeps:
  assumes i: "node_inv env st" and t: "tip_ok st" and r: "InvalidateBlock h st = Some (b, st')"
  shows "node_inv env st' \<and> tip_ok st' \<and> m_cached_finished_ibd st' = m_cached_finished_ibd st"
proof (cases "map_of (the_index st) h")
  case None
  then show ?thesis using assms by (simp add: InvalidateBlock_def)
next
  case (Some e)
  show ?thesis
  proof (cases "nHeight e = 0")
    case True
    then show ?thesis using assms Some by (simp add: InvalidateBlock_def)
  next
    case False
    let ?m = "the_index st"
    have m: "index_inv ?m" using i by (rule node_inv_index)
    obtain t' where s: "node_inv env st'" "GetTip st = Some t'"
        "GetTip st' = Some (if descends (parent_of ?m) t' h then the (pprev e) else t')"
        and ent: "\<forall>k f. map_of ?m k = Some f \<longrightarrow> (\<exists>f'. map_of (the_index st') k = Some f' \<and> restatus f f' \<and>
           (if descends (parent_of ?m) k h then is_failed f' else f' = f))"
        and c: "m_cached_finished_ibd st' = m_cached_finished_ibd st"
      using InvalidateBlock_spec [OF i Some False] r by auto
    obtain p where p: "pprev e = Some p" using index_root [OF m Some] False by (cases "pprev e") auto
    obtain g where g: "map_of ?m t' = Some g" "\<not> is_failed g" using t s(2) by (auto simp: tip_ok_def split: option.splits)
    have hm: "map_of ?m h \<noteq> None" "parent_of ?m h = Some p" using Some p by (simp_all add: parent_of_Some)
    let ?u = "if descends (parent_of ?m) t' h then p else t'"
    have "\<exists>f. map_of ?m ?u = Some f \<and> \<not> is_failed f \<and> \<not> descends (parent_of ?m) ?u h"
    proof (cases "descends (parent_of ?m) t' h")
      case True
      obtain f where f: "map_of ?m p = Some f" using parent_not_below(1) [OF m hm] by blast
      have "descends (parent_of ?m) t' p" using descends_trans [OF True descends_parent [of "parent_of ?m", OF hm(2)]] .
      then obtain n where "ancs (parent_of ?m) n t' = Some p" by (auto simp: descends_def)
      moreover have "statuses_ok ?m" using i by (simp add: node_inv_def)
      ultimately have "\<not> is_failed f" using failed_below [OF m _ _ g(1) f] g(2) by blast
      then show ?thesis using f True parent_not_below(2) [OF m hm] by auto
    next
      case False
      then show ?thesis using g by auto
    qed
    then obtain f where "map_of (the_index st') ?u = Some f" "\<not> is_failed f" using ent by fastforce
    moreover have "GetTip st' = Some ?u" using s(3) p by simp
    ultimately have "tip_ok st'" unfolding tip_ok_def by (simp only: option.case) simp
    then show ?thesis using s(1) c by blast
  qed
qed

section \<open>The genesis state\<close>

lemma genesis_state:
  assumes "hashPrevBlock gen = blob_SetNull 32" "header_hash cr gen \<noteq> blob_SetNull 32"
  shows "\<exists>e. cs_Initialize (mk_env cr params now td) gen (ChainstateManager params) = Some (True,
     (ChainstateManager params)\<lparr>cs_block_manager := \<lparr>m_block_index = [(header_hash cr gen, e)], m_active_chain = [Some (header_hash cr gen)],
        m_genesis_hash = header_hash cr gen, m_initialized = True\<rparr>,
      cs_chain_selector := \<lparr>m_candidates = [header_hash cr gen], m_best_header = Some (header_hash cr gen)\<rparr>\<rparr>) \<and>
     e = (genesis_entry gen)\<lparr>nStatus := BLOCK_VALID_TREE\<rparr>"
proof -
  let ?k = "header_hash cr gen"
  have i: "bm_Initialize cr gen BlockManager = Some (True, \<lparr>m_block_index = [(?k, genesis_entry gen)],
      m_active_chain = [Some ?k], m_genesis_hash = ?k, m_initialized = True\<rparr>)"
    by (rule bm_Initialize_fresh) (use assms in simp_all)
  have n: "nStatus (genesis_entry gen) = 0" by (simp add: genesis_entry_def)
  show ?thesis
    by (simp add: cs_Initialize_def i ChainstateManager_def GetTip_def bm_GetTip_def chain_Tip_def modify_entry_def raise_new [OF n]
        AddCandidateUnchecked_def SetBestHeader_def ChainSelector_def Let_def)
qed

lemma genesis_header: "hashPrevBlock gen = blob_SetNull 32 \<Longrightarrow> GetBlockHeader ((genesis_entry gen)\<lparr>nStatus := s\<rparr>) = gen"
  by (simp add: GetBlockHeader_def genesis_entry_def new_block_index_def)

lemma genesis_node_inv:
  assumes g: "hashPrevBlock gen = blob_SetNull 32" "header_hash cr gen \<noteq> blob_SetNull 32"
    and i: "cs_Initialize (mk_env cr params now td) gen (ChainstateManager params) = Some (True, st)"
  shows "node_inv (mk_env cr params 0 td0) st \<and> tip_ok st"
proof -
  let ?k = "header_hash cr gen"
  define e where "e = (genesis_entry gen)\<lparr>nStatus := BLOCK_VALID_TREE\<rparr>"
  define m where "m = [(?k, e)]"
  have st: "st = (ChainstateManager params)\<lparr>cs_block_manager := \<lparr>m_block_index = m, m_active_chain = [Some ?k],
        m_genesis_hash = ?k, m_initialized = True\<rparr>, cs_chain_selector := \<lparr>m_candidates = [?k], m_best_header = Some ?k\<rparr>\<rparr>"
    using genesis_state [OF g, of params now td] i by (simp add: m_def e_def)
  have e: "pprev e = None" "nHeight e = 0" "\<not> is_failed e" "IsValid e BLOCK_VALID_TREE" "GetBlockHeader e = gen"
    using genesis_header [OF g(1)] by (simp_all add: e_def) (simp_all add: genesis_entry_def is_failed_def status_defs)
  have ii: "index_inv m" unfolding m_def by (rule index_inv_genesis) (simp_all add: e_def genesis_entry_def)
  have p: "path_to m ?k = [Some ?k]" by (simp add: path_to_def anc_at_def height_of_def m_def e)
  have "chain_inv m [Some ?k]" using chain_inv_path [OF ii, of ?k] p by (simp add: m_def)
  then have "state_inv st" using ii by (simp add: state_inv_def st cands_ok_def) (simp add: m_def)
  moreover have "times_ok m" "bits_ok m params" "statuses_ok m" "authentic cr params m"
    using e by (simp_all add: times_ok_def bits_ok_def statuses_ok_def authentic_def m_def)
  moreover have "tip_ok st" using e by (simp add: tip_ok_def GetTip_def bm_GetTip_def chain_Tip_def st m_def)
  ultimately show ?thesis using empty_pool_inv by (simp add: node_inv_def st ChainstateManager_def)
qed

lemma reachable_keeps:
  assumes p: "asert_params params" and g: "hashPrevBlock gen = blob_SetNull 32" "header_hash cr gen \<noteq> blob_SetNull 32"
  shows "node_reachable cr params gen st \<Longrightarrow> node_inv (mk_env cr params 0 td0) st \<and> tip_ok st"
proof (induction rule: node_reachable.induct)
  case (init now td st)
  then show ?case by (rule genesis_node_inv [OF g])
next
  case (protocol st st')
  then show ?case using protocol_step_keeps [OF p protocol(2), of td0] by (auto simp: progress_def)
next
  case (invalidate st h b st')
  then show ?case using invalidate_keeps [of "mk_env cr params 0 td0" st h b st'] by auto
qed

section \<open>Properties\<close>

text \<open>
  \<^bold>\<open>C1.\<close> Consensus safety: in every state the node can reach from genesis, by any sequence of accepted or
  rejected headers, orphans, evictions, activations, invalidations and clock readings, every block of the
  active chain sits at its height, is not marked failed, is stored under the hash of its header, and every
  block but genesis names the block below it as parent, carries the difficulty the rule asks for, lies
  after the median time of its ancestors and passes the full proof-of-work check.
\<close>

theorem active_chain_valid:
  assumes "asert_params params" and "hashPrevBlock gen = blob_SetNull 32" and "header_hash cr gen \<noteq> blob_SetNull 32"
    and "node_reachable cr params gen st" and "i < length (the_chain st)"
  shows "\<exists>q e. the_chain st ! i = Some q \<and> map_of (the_index st) q = Some e \<and> nHeight e = int i \<and> \<not> is_failed e \<and>
    header_hash cr (GetBlockHeader e) = q \<and>
    (0 < i \<longrightarrow> (\<exists>p. the_chain st ! (i - 1) = Some p \<and> hashPrevBlock (GetBlockHeader e) = p \<and>
       GetNextWorkRequired (the_index st) (Some p) params = Some (bi_nBits e) \<and>
       GetMedianTimePast (the_index st) p < index_time e \<and>
       CheckProofOfWork cr (GetBlockHeader e) (bi_nBits e) params FULL None = Inr (True, None)))"
proof -
  have n: "node_inv (mk_env cr params 0 TestOnlyResetTimeData) st" and t: "tip_ok st"
    using reachable_keeps [OF assms(1-4), of TestOnlyResetTimeData] by simp_all
  let ?m = "the_index st"
  have m: "index_inv ?m" using n by (rule node_inv_index)
  have v: "chain_inv ?m (the_chain st)" using n by (simp add: node_inv_def state_inv_def)
  have r: "times_ok ?m" "bits_ok ?m params" "statuses_ok ?m" "authentic cr params ?m" using n by (simp_all add: node_inv_def)
  obtain q where q: "the_chain st ! i = Some q" using chain_entry_Some [OF m v assms(5)] by blast
  have qm: "map_of ?m q \<noteq> None" "height_of ?m q = int i" using chain_entry(1,2) [OF m v assms(5) q] by simp_all
  then obtain e where e: "map_of ?m q = Some e" "nHeight e = int i" by (auto simp: height_of_Some)
  obtain u where u: "GetTip st = Some u" "map_of ?m u \<noteq> None" "the_chain st = path_to ?m u"
    using state_tip [of st] n by (auto simp: node_inv_def)
  then obtain g where g: "map_of ?m u = Some g" "\<not> is_failed g" using t by (auto simp: tip_ok_def split: option.splits)
  have "chain_Contains ?m (path_to ?m u) (Some q)"
    using chain_Contains_iff [OF m v] q assms(5) u(3) by auto
  then have "descends (parent_of ?m) u q" using chain_Contains_descends [OF m u(2)] by simp
  then have nf: "\<not> is_failed e" using failed_below [OF m r(3) _ g(1) e(1)] g(2) by (auto simp: descends_def)
  have au: "header_hash cr (GetBlockHeader e) = q" "pprev e \<noteq> None \<longrightarrow> CheckProofOfWork cr (GetBlockHeader e) (bi_nBits e) params FULL None = Inr (True, None)"
    using r(4) e(1) by (simp_all add: authentic_iff [OF index_om [OF m]])
  have "\<exists>p. the_chain st ! (i - 1) = Some p \<and> pprev e = Some p" if i: "0 < i"
  proof -
    obtain p where p: "pprev e = Some p" using index_root [OF m e(1)] e(2) i by (cases "pprev e") auto
    have "the_chain st ! (i - 1) = anc_at (parent_of ?m) (height_of ?m) q (int (i - 1))"
      by (rule chain_entry(3) [OF m v assms(5) q]) simp
    also have "\<dots> = ancs (parent_of ?m) (Suc 0) q" using qm(2) i by (simp add: anc_at_def of_nat_diff)
    also have "\<dots> = Some p" using e(1) p by (simp add: parent_of_Some)
    finally show ?thesis using p by simp
  qed
  then show ?thesis using q e nf au times_okD [OF r(1) e(1)] bits_okD [OF r(2) e(1)]
    by (auto simp: GetBlockHeader_def)
qed

definition small_gen :: CBlockHeader where
  "small_gen = sample_header (blob_SetNull 32) 100 9"

lemma small_gen_ok: "hashPrevBlock small_gen = blob_SetNull 32" "header_hash sample_crypto small_gen \<noteq> blob_SetNull 32"
  by (auto simp: small_gen_def blob_SetNull_def dest: arg_cong [of _ _ length])

theorem active_chain_valid_witness:
  "\<exists>st e. node_reachable sample_crypto sample_params small_gen st \<and> the_chain st ! 0 = Some [9] \<and> map_of (the_index st) [9] = Some e \<and> \<not> is_failed e"
proof -
  let ?e = "(genesis_entry small_gen)\<lparr>nStatus := BLOCK_VALID_TREE\<rparr>"
  have k: "header_hash sample_crypto small_gen = [9]" by (simp add: small_gen_def)
  obtain st where st: "cs_Initialize (mk_env sample_crypto sample_params 0 TestOnlyResetTimeData) small_gen (ChainstateManager sample_params) = Some (True, st)"
      "the_chain st = [Some [9]]"
    using genesis_state [OF small_gen_ok, of sample_params 0 TestOnlyResetTimeData] k by auto
  have r: "node_reachable sample_crypto sample_params small_gen st" by (rule node_reachable.init [OF st(1)])
  have "0 < length (the_chain st)" using st(2) by simp
  from active_chain_valid [OF sample_params_asert small_gen_ok r this] show ?thesis using r st(2) by auto
qed

text \<open>
  \<^bold>\<open>C16.\<close> Monotone progress: no protocol operation, on a reachable state, lowers the work of the active tip,
  forgets a block or moves it in the tree, or reopens initial block download once it has finished.
\<close>

theorem protocol_progress:
  assumes "asert_params params" and "hashPrevBlock gen = blob_SetNull 32" and "header_hash cr gen \<noteq> blob_SetNull 32"
    and "node_reachable cr params gen st" and "protocol_step cr params st st'"
  shows "(\<exists>t t'. GetTip st = Some t \<and> GetTip st' = Some t' \<and> work_of (the_index st) t \<le> work_of (the_index st') t') \<and>
    index_sub (the_index st) (the_index st') \<and>
    (m_cached_finished_ibd st \<longrightarrow> \<not> fst (IsInitialBlockDownload env st'))"
proof -
  have "node_inv (mk_env cr params 0 TestOnlyResetTimeData) st" using reachable_keeps [OF assms(1-4)] by blast
  from protocol_step_keeps [OF assms(1,5) this] show ?thesis by (auto simp: progress_def IsInitialBlockDownload_def)
qed

theorem protocol_progress_witness:
  "\<exists>st st'. node_reachable sample_crypto sample_params small_gen st \<and> protocol_step sample_crypto sample_params st st' \<and>
     (\<exists>t'. GetTip st' = Some t' \<and> work_of (the_index st) [9] \<le> work_of (the_index st') t')"
proof -
  have k: "header_hash sample_crypto small_gen = [9]" by (simp add: small_gen_def)
  obtain st where st: "cs_Initialize (mk_env sample_crypto sample_params 0 TestOnlyResetTimeData) small_gen (ChainstateManager sample_params) = Some (True, st)"
      "the_chain st = [Some [9]]"
    using genesis_state [OF small_gen_ok, of sample_params 0 TestOnlyResetTimeData] k by auto
  have r: "node_reachable sample_crypto sample_params small_gen st" by (rule node_reachable.init [OF st(1)])
  have t: "GetTip st = Some [9]" using st(2) by (simp add: GetTip_def bm_GetTip_def chain_Tip_def)
  have s: "protocol_step sample_crypto sample_params st (snd (IsInitialBlockDownload (mk_env sample_crypto sample_params 0 TestOnlyResetTimeData) st))"
    by (rule protocol_step.ibd [OF surjective_pairing])
  from protocol_progress [OF sample_params_asert small_gen_ok r s, of small_env] show ?thesis using r s t
    by (intro exI [of _ st] exI [of _ "snd (IsInitialBlockDownload (mk_env sample_crypto sample_params 0 TestOnlyResetTimeData) st)"]) auto
qed

end
