(* ===== verification/Header_Sync.thy ===== *)
theory Header_Sync
  imports Node Peer_Manager
begin

text \<open>
  \<open>HeaderSyncManager\<close> (\<open>header_sync_manager.cpp\<close>): choosing a peer to sync from, requesting headers,
  processing batches of headers and answering requests.  It composes the chainstate with the peer table.
  A handler is given the id of the peer; sending to a peer that has left the table has no effect, because
  a removed peer is disconnected.  Handlers return \<open>Inl\<close> for an exception, which the message dispatcher
  turns into failure; \<open>None\<close> around a result is a failed assertion or a walk that does not end.
  The clock does not advance within one event.
\<close>

section \<open>State\<close>

record SyncState =
  sync_peer_id :: u64
  sync_start_time_us :: int
  last_headers_received_us :: int

definition NO_SYNC_PEER :: u64 where "NO_SYNC_PEER = - 1"
definition kMicrosPerSecond :: int where "kMicrosPerSecond = 1000000"
definition kHeadersSyncTimeoutUs :: int where "kHeadersSyncTimeoutUs = 120 * kMicrosPerSecond"
definition kMaxUnsolicitedAnnouncement :: nat where "kMaxUnsolicitedAnnouncement = 2"

definition new_SyncState :: SyncState where
  "new_SyncState = \<lparr>sync_peer_id = NO_SYNC_PEER, sync_start_time_us = 0, last_headers_received_us = 0\<rparr>"

record sync_node =
  sn_chain :: chainstate
  sn_peers :: PeerLifecycleManager
  sn_sync :: SyncState
  last_batch_size :: nat

record sync_env =
  se_crypto :: crypto
  se_params :: ChainParams
  se_timedata :: "byte list timedata"
  se_peer :: peer_env

definition se_node :: "sync_env \<Rightarrow> node_env" where
  "se_node env = mk_env (se_crypto env) (se_params env) (pe_time (se_peer env)) (se_timedata env)"

type_synonym sync_result = "((pow_error + bool) \<times> sync_node) option"

section \<open>The sync peer\<close>

definition GetSyncPeerId :: "sync_node \<Rightarrow> u64" where
  "GetSyncPeerId s = sync_peer_id (sn_sync s)"

definition HasSyncPeer :: "sync_node \<Rightarrow> bool" where
  "HasSyncPeer s \<longleftrightarrow> GetSyncPeerId s \<noteq> NO_SYNC_PEER"

definition SetSyncPeer :: "sync_env \<Rightarrow> u64 \<Rightarrow> sync_node \<Rightarrow> sync_node" where
  "SetSyncPeer env peer_id s =
     (let now_us = pe_time (se_peer env) * kMicrosPerSecond in
      s\<lparr>sn_sync := (sn_sync s)\<lparr>sync_peer_id := peer_id, sync_start_time_us := now_us, last_headers_received_us := now_us\<rparr>\<rparr>)"

definition ClearSyncPeer :: "sync_node \<Rightarrow> sync_node" where
  "ClearSyncPeer s = s\<lparr>sn_sync := (sn_sync s)\<lparr>sync_peer_id := NO_SYNC_PEER, sync_start_time_us := 0\<rparr>\<rparr>"

definition reset_sync_started :: "PeerLifecycleManager \<Rightarrow> PeerLifecycleManager" where
  "reset_sync_started pm =
     fold (\<lambda>p pm. if p_sync_started p then on_peer (p_id p) (\<lambda>p. p\<lparr>p_sync_started := False\<rparr>) pm else pm)
       (get_outbound_peers pm) pm"

definition OnPeerDisconnected :: "u64 \<Rightarrow> sync_node \<Rightarrow> sync_node" where
  "OnPeerDisconnected peer_id s =
     (if sync_peer_id (sn_sync s) = peer_id then
        let s = ClearSyncPeer s in s\<lparr>sn_peers := reset_sync_started (sn_peers s)\<rparr>
      else s)"

text \<open>Removing a peer notifies the subscriber, unless the manager is shutting down or the peer is unknown.\<close>

definition hs_remove_peer :: "sync_env \<Rightarrow> int \<Rightarrow> sync_node \<Rightarrow> sync_node" where
  "hs_remove_peer env peer_id s =
     (let known = (map_of (peer_states (sn_peers s)) peer_id \<noteq> None);
          notify = (known \<and> \<not> shutting_down (sn_peers s));
          s = s\<lparr>sn_peers := remove_peer (se_peer env) peer_id (sn_peers s)\<rparr>
      in if notify then OnPeerDisconnected (of_int peer_id) s else s)"

definition ProcessTimers :: "sync_env \<Rightarrow> sync_node \<Rightarrow> sync_node" where
  "ProcessTimers env s =
     (let sync_id = sync_peer_id (sn_sync s);
          last_us = last_headers_received_us (sn_sync s) in
      if sync_id = NO_SYNC_PEER then s
      else
        let now_us = pe_time (se_peer env) * kMicrosPerSecond in
        if last_us > 0 \<and> now_us - last_us > kHeadersSyncTimeoutUs
        then hs_remove_peer env (sint (ucast sync_id :: u32)) s
        else s)"

section \<open>Requests\<close>

definition GetLocatorFromPrev :: "chainstate \<Rightarrow> blob list option" where
  "GetLocatorFromPrev st =
     (case GetTip st of
        None \<Rightarrow> cs_GetLocator st None
      | Some tip \<Rightarrow>
          (case parent_of (the_index st) tip of
             Some p \<Rightarrow> cs_GetLocator st (Some p)
           | None \<Rightarrow> cs_GetLocator st None))"

definition getheaders_for :: "blob list \<Rightarrow> GetHeadersMessage" where
  "getheaders_for locator =
     \<lparr>gh_version = PROTOCOL_VERSION, gh_block_locator_hashes = locator, gh_hash_stop = replicate 32 0\<rparr>"

definition RequestHeadersFromPeer :: "sync_env \<Rightarrow> int \<Rightarrow> sync_node \<Rightarrow> sync_node option" where
  "RequestHeadersFromPeer env peer_id s =
     (case GetLocatorFromPrev (sn_chain s) of
        None \<Rightarrow> None
      | Some locator \<Rightarrow>
          Some (s\<lparr>sn_peers := on_peer peer_id (send_message (se_peer env) (GetHeaders (getheaders_for locator))) (sn_peers s)\<rparr>))"

definition eligible_sync_peer :: "peer \<Rightarrow> bool" where
  "eligible_sync_peer p \<longleftrightarrow> \<not> p_sync_started p \<and> \<not> is_feeler p \<and> p_successfully_connected p"

definition CheckInitialSync :: "sync_env \<Rightarrow> sync_node \<Rightarrow> sync_node option" where
  "CheckInitialSync env s =
     (if HasSyncPeer s then Some s
      else case find eligible_sync_peer (get_outbound_peers (sn_peers s)) of
          None \<Rightarrow> Some s
        | Some p \<Rightarrow>
            let s = SetSyncPeer env (of_int (p_id p)) s;
                s = s\<lparr>sn_peers := on_peer (p_id p) (\<lambda>p. p\<lparr>p_sync_started := True\<rparr>) (sn_peers s)\<rparr>
            in RequestHeadersFromPeer env (p_id p) s)"

definition IsSynced :: "sync_env \<Rightarrow> int \<Rightarrow> sync_node \<Rightarrow> bool" where
  "IsSynced env max_age_seconds s =
     (case GetTip (sn_chain s) of
        None \<Rightarrow> False
      | Some tip \<Rightarrow>
          (case map_of (the_index (sn_chain s)) tip of
             None \<Rightarrow> False
           | Some e \<Rightarrow> pe_time (se_peer env) - uint (bi_nTime e) < max_age_seconds))"

definition ShouldRequestMore :: "sync_node \<Rightarrow> bool" where
  "ShouldRequestMore s \<longleftrightarrow> last_batch_size s = MAX_HEADERS_SIZE"

section \<open>Batches of headers\<close>

definition hs_report :: "int \<Rightarrow> mb_op \<Rightarrow> sync_node \<Rightarrow> sync_node" where
  "hs_report peer_id op s =
     s\<lparr>sn_peers := (sn_peers s)\<lparr>peer_states := mb_apply (peer_id, op) (peer_states (sn_peers s))\<rparr>\<rparr>"

definition drop_if_bad :: "sync_env \<Rightarrow> int \<Rightarrow> sync_node \<Rightarrow> sync_node" where
  "drop_if_bad env peer_id s =
     (if ShouldDisconnect peer_id (peer_states (sn_peers s)) then hs_remove_peer env peer_id s else s)"

text \<open>The rejections for which a peer is penalised.\<close>

definition invalid_reasons :: "string list" where
  "invalid_reasons = [''high-hash'', ''bad-diffbits'', ''time-too-old'', ''time-too-new'', ''bad-version'', ''bad-prevblk'',
     ''bad-genesis'', ''genesis-via-accept'']"

definition penalise_invalid :: "sync_env \<Rightarrow> int \<Rightarrow> blob \<Rightarrow> sync_node \<Rightarrow> sync_node" where
  "penalise_invalid env peer_id h s =
     ClearSyncPeer (drop_if_bad env peer_id (hs_report peer_id (InvalidHash h) (hs_report peer_id InvalidHeader s)))"

text \<open>The loop over the headers; \<open>Inr True\<close> when it runs to the end, \<open>Inr False\<close> when the handler gives up.\<close>

fun accept_headers :: "sync_env \<Rightarrow> int \<Rightarrow> bool \<Rightarrow> CBlockHeader list \<Rightarrow> sync_node \<Rightarrow> sync_result" where
  "accept_headers env peer_id skip_dos_checks [] s = Some (Inr True, s)"
| "accept_headers env peer_id skip_dos_checks (header # headers) s =
     (case AcceptBlockHeader (se_node env) header True new_ValidationState (sn_chain s) of
        None \<Rightarrow> None
      | Some (Inl err, state, st) \<Rightarrow> Some (Inl err, s\<lparr>sn_chain := st\<rparr>)
      | Some (Inr None, state, st) \<Rightarrow>
          let s = s\<lparr>sn_chain := st\<rparr>; reason = reject_reason state; h = header_hash (se_crypto env) header in
          if reason = ''prev-blk-not-found'' then
            (case AddOrphanHeader (se_node env) header peer_id st of (ok, st) \<Rightarrow>
               let s = s\<lparr>sn_chain := st\<rparr> in
               if ok then accept_headers env peer_id skip_dos_checks headers s
               else Some (Inr False, ClearSyncPeer (drop_if_bad env peer_id (hs_report peer_id TooManyOrphans s))))
          else if reason = ''duplicate'' then
            let existing = LookupBlockIndex (cs_block_manager st) h in
            if skip_dos_checks then accept_headers env peer_id skip_dos_checks headers s
            else if (case existing of None \<Rightarrow> False
                | Some k \<Rightarrow> (case map_of (the_index st) k of None \<Rightarrow> False | Some e \<Rightarrow> IsValid e BLOCK_VALID_TREE))
            then accept_headers env peer_id skip_dos_checks headers s
            else if HasInvalidHeaderHash peer_id h (peer_states (sn_peers s))
            then accept_headers env peer_id skip_dos_checks headers s
            else Some (Inr False, penalise_invalid env peer_id h s)
          else if reason \<in> set invalid_reasons then
            if HasInvalidHeaderHash peer_id h (peer_states (sn_peers s))
            then accept_headers env peer_id skip_dos_checks headers s
            else Some (Inr False, penalise_invalid env peer_id h s)
          else Some (Inr False, ClearSyncPeer s)
      | Some (Inr (Some pindex), state, st) \<Rightarrow>
          (case TryAddBlockIndexCandidate (the_index st) (Some pindex) (cs_chain_selector st) of
             None \<Rightarrow> None
           | Some cs \<Rightarrow> accept_headers env peer_id skip_dos_checks headers (s\<lparr>sn_chain := st\<lparr>cs_chain_selector := cs\<rparr>\<rparr>)))"

definition activate_batch :: "sync_env \<Rightarrow> int \<Rightarrow> sync_node \<Rightarrow> sync_result" where
  "activate_batch env peer_id s =
     (case ActivateBestChain None (sn_chain s) of
        None \<Rightarrow> None
      | Some (activate_result, st) \<Rightarrow>
          let s = s\<lparr>sn_chain := st\<rparr> in
          if \<not> activate_result then Some (Inr False, ClearSyncPeer s)
          else
            let (ibd, st) = IsInitialBlockDownload (se_node env) (sn_chain s); s = s\<lparr>sn_chain := st\<rparr> in
            if ShouldRequestMore s then map_option (\<lambda>s. (Inr True, s)) (RequestHeadersFromPeer env peer_id s)
            else Some (Inr True, s))"

definition last_on_active_chain :: "sync_env \<Rightarrow> CBlockHeader list \<Rightarrow> chainstate \<Rightarrow> bool" where
  "last_on_active_chain env headers st \<longleftrightarrow> headers \<noteq> [] \<and>
     (case LookupBlockIndex (cs_block_manager st) (header_hash (se_crypto env) (last headers)) of
        None \<Rightarrow> False
      | Some k \<Rightarrow> IsOnActiveChain st (Some k))"

text \<open>The total work of a batch that connects and the threshold it is compared with.\<close>

definition low_work :: "sync_env \<Rightarrow> CBlockHeader list \<Rightarrow> sync_node \<Rightarrow> bool \<times> sync_node" where
  "low_work env headers s =
     (case map_of (the_index (sn_chain s)) (hashPrevBlock (hd headers)) of
        None \<Rightarrow> (False, s)
      | Some chain_start \<Rightarrow>
          let total_work = nChainWork chain_start + CalculateHeadersWork headers;
              (ibd, st) = IsInitialBlockDownload (se_node env) (sn_chain s);
              s = s\<lparr>sn_chain := st\<rparr>;
              tip = (case GetTip st of None \<Rightarrow> None | Some t \<Rightarrow> map_of (the_index st) t);
              minimum_work = GetAntiDoSWorkThreshold tip (se_params env) ibd
          in (total_work < minimum_work, s))"

text \<open>From the work check to the end of the handler.\<close>

definition process_checked :: "sync_env \<Rightarrow> int \<Rightarrow> bool \<Rightarrow> CBlockHeader list \<Rightarrow> sync_node \<Rightarrow> sync_result" where
  "process_checked env peer_id skip_dos_checks headers s =
     (case (if skip_dos_checks then (False, s) else low_work env headers s) of (low, s) \<Rightarrow>
        if low then
          if length headers \<noteq> MAX_HEADERS_SIZE then Some (Inr True, s)
          else map_option (\<lambda>s. (Inr True, s)) (RequestHeadersFromPeer env peer_id s)
        else
          (case accept_headers env peer_id skip_dos_checks headers (s\<lparr>last_batch_size := length headers\<rparr>) of
             None \<Rightarrow> None
           | Some (Inr True, s) \<Rightarrow> activate_batch env peer_id s
           | Some (r, s) \<Rightarrow> Some (r, s)))"

text \<open>From the size check to the continuity check.\<close>

definition process_batch :: "sync_env \<Rightarrow> int \<Rightarrow> bool \<Rightarrow> CBlockHeader list \<Rightarrow> sync_node \<Rightarrow> sync_result" where
  "process_batch env peer_id skip_dos_checks headers s =
     (if length headers > MAX_HEADERS_SIZE
      then Some (Inr False, ClearSyncPeer (drop_if_bad env peer_id (hs_report peer_id OversizedMessage s)))
      else
        let prev_exists = (LookupBlockIndex (cs_block_manager (sn_chain s)) (hashPrevBlock (hd headers)) \<noteq> None);
            s = (if \<not> prev_exists then drop_if_bad env peer_id (hs_report peer_id UnconnectingHeaders s)
                 else hs_report peer_id ConnectingHeaders s) in
        case CheckHeadersPoW (se_crypto env) headers (se_params env) of
          Inl err \<Rightarrow> Some (Inl err, s)
        | Inr pow_ok \<Rightarrow>
            if \<not> pow_ok then Some (Inr False, ClearSyncPeer (drop_if_bad env peer_id (hs_report peer_id InvalidPoW s)))
            else if \<not> CheckHeadersAreContinuous (se_crypto env) headers
            then Some (Inr False, ClearSyncPeer (drop_if_bad env peer_id (hs_report peer_id NonContinuousHeaders s)))
            else process_checked env peer_id skip_dos_checks headers s)"

definition HandleHeadersMessage :: "sync_env \<Rightarrow> int \<Rightarrow> CBlockHeader list \<Rightarrow> sync_node \<Rightarrow> sync_result" where
  "HandleHeadersMessage env peer_id headers s =
     (let (ibd, st) = IsInitialBlockDownload (se_node env) (sn_chain s);
          s = s\<lparr>sn_chain := st\<rparr>;
          sync_id = GetSyncPeerId s in
      if ibd \<and> headers \<noteq> [] \<and> length headers > kMaxUnsolicitedAnnouncement \<and> (sync_id = NO_SYNC_PEER \<or> of_int peer_id \<noteq> sync_id)
      then Some (Inr True, s)
      else
        let skip_dos_checks = last_on_active_chain env headers (sn_chain s);
            s = s\<lparr>sn_sync := (sn_sync s)\<lparr>last_headers_received_us := pe_time (se_peer env) * kMicrosPerSecond\<rparr>\<rparr> in
        if headers = [] then Some (Inr True, s)
        else process_batch env peer_id skip_dos_checks headers s)"

section \<open>Answering requests\<close>

fun find_fork_point :: "chainstate \<Rightarrow> blob list \<Rightarrow> blob option" where
  "find_fork_point st [] = None"
| "find_fork_point st (h # hs) =
     (let pindex = LookupBlockIndex (cs_block_manager st) h in
      if IsOnActiveChain st pindex then pindex else find_fork_point st hs)"

partial_function (option) walk_to_genesis :: "block_map \<Rightarrow> blob \<Rightarrow> blob option" where
  "walk_to_genesis m k = (case parent_of m k of None \<Rightarrow> Some k | Some p \<Rightarrow> walk_to_genesis m p)"

text \<open>\<open>room\<close> is how many more headers the response may take.\<close>

fun collect_headers :: "nat \<Rightarrow> chainstate \<Rightarrow> blob \<Rightarrow> blob option \<Rightarrow> CBlockHeader list \<Rightarrow> CBlockHeader list" where
  "collect_headers 0 st stop_hash pindex headers = headers"
| "collect_headers (Suc room) st stop_hash pindex headers =
     (case pindex of
        None \<Rightarrow> headers
      | Some k \<Rightarrow>
          (case map_of (the_index st) k of
             None \<Rightarrow> headers
           | Some e \<Rightarrow>
               let headers = headers @ [GetBlockHeader e] in
               if \<not> blob_IsNull stop_hash \<and> k = stop_hash then headers
               else if Some k = GetTip st then headers
               else collect_headers room st stop_hash (GetBlockAtHeight st (nHeight e + 1)) headers))"

definition HandleGetHeadersMessage :: "sync_env \<Rightarrow> int \<Rightarrow> GetHeadersMessage \<Rightarrow> sync_node \<Rightarrow> (bool \<times> sync_node) option" where
  "HandleGetHeadersMessage env peer_id msg s =
     (let st = sn_chain s in
      case (case find_fork_point st (gh_block_locator_hashes msg) of
              Some k \<Rightarrow> Some (Some k)
            | None \<Rightarrow> (case GetTip st of None \<Rightarrow> Some None | Some t \<Rightarrow> map_option Some (walk_to_genesis (the_index st) t))) of
        None \<Rightarrow> None
      | Some None \<Rightarrow> Some (False, s)
      | Some (Some fork_point) \<Rightarrow>
          let pindex = GetBlockAtHeight st (height_of (the_index st) fork_point + 1);
              response = collect_headers MAX_HEADERS_SIZE st (gh_hash_stop msg) pindex []
          in Some (True, s\<lparr>sn_peers := on_peer peer_id (send_message (se_peer env) (Headers response)) (sn_peers s)\<rparr>))"

end
