(* ===== verification/Sync_Chain.thy ===== *)
theory Sync_Chain
  imports Header_Sync
begin

text \<open>
  Header synchronisation against the consensus layer: whatever a peer sends, the handler ends, and the
  chainstate moves by protocol steps only, so everything shown about reachable nodes holds for a node that
  is driven by the network.
\<close>

section \<open>Operations that leave the chainstate alone\<close>

lemma chain_frame [simp]:
  "sn_chain (ClearSyncPeer s) = sn_chain s" "sn_chain (SetSyncPeer env i s) = sn_chain s"
  "sn_chain (OnPeerDisconnected i s) = sn_chain s" "sn_chain (hs_report p op s) = sn_chain s"
  by (simp_all add: ClearSyncPeer_def SetSyncPeer_def OnPeerDisconnected_def hs_report_def Let_def)

lemma chain_remove [simp]: "sn_chain (hs_remove_peer env p s) = sn_chain s"
  by (simp add: hs_remove_peer_def Let_def)

lemma chain_drop [simp]: "sn_chain (drop_if_bad env p s) = sn_chain s" "sn_chain (penalise_invalid env p h s) = sn_chain s"
  by (simp_all add: drop_if_bad_def penalise_invalid_def)

lemma chain_request: "RequestHeadersFromPeer env p s = Some s' \<Longrightarrow> sn_chain s' = sn_chain s"
  by (auto simp: RequestHeadersFromPeer_def split: option.splits)

section \<open>Chains of protocol steps\<close>

abbreviation protocol_steps :: "crypto \<Rightarrow> ChainParams \<Rightarrow> chainstate \<Rightarrow> chainstate \<Rightarrow> bool" where
  "protocol_steps cr params \<equiv> (protocol_step cr params)\<^sup>*\<^sup>*"

lemma reachable_steps:
  "protocol_steps cr params st st' \<Longrightarrow> node_reachable cr params gen st \<Longrightarrow> node_reachable cr params gen st'"
  by (induction rule: rtranclp_induct) (auto intro: node_reachable.protocol)

lemma steps_keep:
  assumes "protocol_steps cr params st st'" and "asert_params params" and "node_inv (mk_env cr params 0 td0) st"
  shows "node_inv (mk_env cr params 0 td0) st' \<and> progress st st'"
  using assms(1)
proof (induction rule: rtranclp_induct)
  case base
  show ?case using assms(3) progress_same [OF node_state_inv [OF assms(3)]] by simp
next
  case (step y z)
  then show ?case using protocol_step_keeps [OF assms(2) step(2), of td0] progress_trans by blast
qed

lemma orphan_room:
  assumes "pool_ok pool"
  shows "length (m_orphan_headers (snd (TryAddOrphanHeader cr params now header peer pool))) \<le> Suc (length (m_orphan_headers pool))"
proof -
  have len: "length (om_update k v m) \<le> Suc (length m)" for k :: blob and v :: OrphanHeader and m
    by (induction k v m rule: om_update.induct) auto
  define n where "n = count_of (m_peer_orphan_count pool) peer"
  define p0 where "p0 = pool\<lparr>m_peer_orphan_count := om_update peer n (m_peer_orphan_count pool)\<rparr>"
  have ok: "pool_ok p0" unfolding p0_def n_def by (rule pool_ok_touch [OF assms])
  obtain e p1 where e: "EvictOrphanHeaders params now p0 = (e, p1)"
      "e + length (m_orphan_headers p1) = length (m_orphan_headers p0)"
    using EvictOrphanHeaders_spec [OF ok, of params now] by blast
  have p0: "m_orphan_headers p0 = m_orphan_headers pool" by (simp add: p0_def)
  have "length (m_orphan_headers p1) \<le> length (m_orphan_headers pool)" using e(2) p0 by (metis le_add2)
  then show ?thesis
    unfolding TryAddOrphanHeader_def Let_def n_def [symmetric] p0_def [symmetric] e(1)
    using order_trans [OF len, of "m_orphan_headers p1"] len by (auto simp: p0)
qed

lemma weight_orphan:
  "pool_ok (cs_orphans st) \<Longrightarrow> weight (snd (AddOrphanHeader env header peer st)) \<le> weight st + 1"
  using orphan_room [of "cs_orphans st" "env_crypto env" "env_params env" "env_now env" header peer]
  by (auto simp: AddOrphanHeader_def weight_def split: prod.split)

lemma orphan_set:
  assumes "pool_ok pool"
  shows "set (m_orphan_headers (snd (TryAddOrphanHeader cr params now header peer pool)))
    \<subseteq> insert (header_hash cr header, \<lparr>oh_header = header, oh_nTimeReceived = now, oh_peer_id = peer\<rparr>) (set (m_orphan_headers pool))"
proof -
  define n where "n = count_of (m_peer_orphan_count pool) peer"
  define p0 where "p0 = pool\<lparr>m_peer_orphan_count := om_update peer n (m_peer_orphan_count pool)\<rparr>"
  have ok: "pool_ok p0" unfolding p0_def n_def by (rule pool_ok_touch [OF assms])
  obtain e p1 where e: "EvictOrphanHeaders params now p0 = (e, p1)" "set (m_orphan_headers p1) \<subseteq> set (m_orphan_headers p0)"
    using EvictOrphanHeaders_spec [OF ok, of params now] by blast
  have p0: "m_orphan_headers p0 = m_orphan_headers pool" by (simp add: p0_def)
  have "set (om_update k v (m_orphan_headers p1)) \<subseteq> insert (k, v) (set (m_orphan_headers pool))" for k v
    using set_om_update [of k v "m_orphan_headers p1"] e(2) p0 by auto
  then show ?thesis
    unfolding TryAddOrphanHeader_def Let_def n_def [symmetric] p0_def [symmetric] e(1)
    using e(2) p0 set_om_update [of _ _ "m_orphan_headers pool"] by auto
qed

lemma work_room_orphan:
  assumes "pool_ok (cs_orphans st)" and "work_room st (header_work header + n)"
  shows "work_room (snd (AddOrphanHeader env header peer st)) n"
proof (rule work_room_mono [OF assms(2)])
  note o = orphan_work_insert [OF orphan_set [OF assms(1), of "env_crypto env" "env_params env" "env_now env" header peer]]
  show "orphan_work (cs_orphans (snd (AddOrphanHeader env header peer st))) + n \<le> orphan_work (cs_orphans st) + (header_work header + n)"
    using o by (simp add: AddOrphanHeader_def split_def Let_def)
qed (simp add: AddOrphanHeader_def split_def Let_def)

text \<open>
  The result of an operation with work \<open>n\<close> to add: it moves the chainstate by protocol steps, or it fails an assertion, but only if
  there is no room for that work.
\<close>

definition batch_work :: "CBlockHeader list \<Rightarrow> nat" where
  "batch_work headers = sum_list (map header_work headers)"

definition steps_or_full :: "crypto \<Rightarrow> ChainParams \<Rightarrow> chainstate \<Rightarrow> nat \<Rightarrow> sync_result \<Rightarrow> bool" where
  "steps_or_full cr params st n res \<longleftrightarrow>
     (case res of Some (r, s') \<Rightarrow> protocol_steps cr params st (sn_chain s') | None \<Rightarrow> \<not> work_room st n)"

lemma steps_or_full_more:
  "protocol_steps cr params st st' \<Longrightarrow> (work_room st n \<Longrightarrow> work_room st' n') \<Longrightarrow> steps_or_full cr params st' n' res \<Longrightarrow>
   steps_or_full cr params st n res"
  unfolding steps_or_full_def by (auto split: option.splits)

lemma work_room_ibd: "work_room st n \<Longrightarrow> work_room (snd (IsInitialBlockDownload env st)) n"
  by (erule work_room_mono) (simp_all add: IsInitialBlockDownload_def split: option.split)

lemma ibd_step: "protocol_steps (se_crypto env) (se_params env) st (snd (IsInitialBlockDownload (se_node env) st))"
  unfolding se_node_def by (rule r_into_rtranclp, rule protocol_step.ibd [OF surjective_pairing])

lemma accept_headers_steps:
  assumes params: "asert_params (se_params env)"
  shows "node_inv (mk_env (se_crypto env) (se_params env) 0 td0) (sn_chain s) \<Longrightarrow>
    int (weight (sn_chain s)) + 2 * int (length headers) < 2 ^ 31 \<Longrightarrow>
    steps_or_full (se_crypto env) (se_params env) (sn_chain s) (batch_work headers) (accept_headers env peer_id skip headers s)"
proof (induction headers arbitrary: s)
  case Nil
  then show ?case by (simp add: steps_or_full_def)
next
  case (Cons header headers)
  let ?cr = "se_crypto env" and ?params = "se_params env" and ?st = "sn_chain s"
  have i: "node_inv (se_node env) ?st" using Cons.prems(1) node_inv_clock unfolding se_node_def by metis
  have w: "int (weight ?st) + 1 < 2 ^ 31" using Cons.prems(2) by simp
  have ap: "asert_params (env_params (se_node env))" using params by (simp add: se_node_def)
  let ?h = "header_hash ?cr header"
  obtain r state' st' where a: "AcceptBlockHeader (se_node env) header True new_ValidationState ?st = Some (r, state', st')"
      "node_inv (se_node env) st'" "weight st' \<le> weight ?st + 1"
      and room: "\<forall>n. work_room ?st (header_work header + n) \<longrightarrow> work_room st' n" "r = Inr None \<longrightarrow> (\<forall>n. work_room ?st n \<longrightarrow> work_room st' n)"
      and k: "\<forall>k. r = Inr (Some k) \<longrightarrow> k = ?h \<and> (case map_of (the_index st') ?h of None \<Rightarrow> False | Some e \<Rightarrow> \<not> is_failed e)"
    using AcceptBlockHeader_ok [OF ap i w, of header True new_ValidationState]
    by (auto simp: accept_ok_def Let_def se_node_def)
  have one: "protocol_steps ?cr ?params ?st st'"
    by (rule r_into_rtranclp, rule protocol_step.accept [OF w a(1) [unfolded se_node_def]])
  have i': "node_inv (mk_env ?cr ?params 0 td0) st'" using a(2) node_inv_clock unfolding se_node_def by metis
  have w': "int (weight st') + 1 + 2 * int (length headers) < 2 ^ 31" using a(3) Cons.prems(2) by simp
  have batch: "batch_work (header # headers) = header_work header + batch_work headers" by (simp add: batch_work_def)
  let ?n = "batch_work (header # headers)"
  have IH: "steps_or_full ?cr ?params ?st ?n (accept_headers env peer_id skip headers s')"
    if "protocol_steps ?cr ?params st' (sn_chain s')" "weight (sn_chain s') \<le> weight st' + 1"
      "work_room ?st ?n \<Longrightarrow> work_room (sn_chain s') (batch_work headers)" for s'
  proof -
    have "node_inv (mk_env ?cr ?params 0 td0) (sn_chain s')" using steps_keep [OF that(1) params i'] by blast
    moreover have "int (weight (sn_chain s')) + 2 * int (length headers) < 2 ^ 31" using w' that(2) by linarith
    ultimately show ?thesis using Cons.IH steps_or_full_more [OF rtranclp_trans [OF one that(1)] that(3)] by blast
  qed
  have stop: "steps_or_full ?cr ?params ?st ?n (Some (r', s'))" if "protocol_steps ?cr ?params st' (sn_chain s')" for r' s'
    using rtranclp_trans [OF one that] by (simp add: steps_or_full_def)
  show ?case
  proof (cases r)
    case (Inl err)
    then show ?thesis using a(1) stop by simp
  next
    case r: (Inr res)
    show ?thesis
    proof (cases res)
      case None
      obtain ok st2 where o: "AddOrphanHeader (se_node env) header peer_id st' = (ok, st2)" by force
      have step2: "protocol_steps ?cr ?params st' st2"
        by (rule r_into_rtranclp, rule protocol_step.orphan [OF o [unfolded se_node_def]])
      have w2: "weight st2 \<le> weight st' + 1"
        using weight_orphan [of st' "se_node env" header peer_id] o a(2) by (simp add: node_inv_def pool_inv_def)
      have pool: "pool_ok (cs_orphans st')" using a(2) by (simp add: node_inv_def pool_inv_def)
      have room2: "work_room st2 (batch_work headers)" if "work_room ?st ?n"
        using work_room_orphan [OF pool, of header "batch_work headers" "se_node env" peer_id] room(2) r None that o by (simp add: batch)
      have c1: "steps_or_full ?cr ?params ?st ?n (accept_headers env peer_id skip headers (s\<lparr>sn_chain := st'\<rparr>))"
        by (rule IH) (use room(1) in \<open>simp_all add: batch\<close>)
      have c2: "steps_or_full ?cr ?params ?st ?n (accept_headers env peer_id skip headers (s\<lparr>sn_chain := st2\<rparr>))"
        by (rule IH) (use step2 w2 room2 in simp_all)
      have c3: "steps_or_full ?cr ?params ?st ?n (Some (r', s'))" if "sn_chain s' = st' \<or> sn_chain s' = st2" for r' s'
        using stop step2 that by auto
      show ?thesis unfolding accept_headers.simps a(1) r None using c1 c2
        by (cases skip) (simp_all add: o Let_def c3)
    next
      case (Some pindex)
      then have p: "pindex = ?h" and "map_of (the_index st') ?h \<noteq> None" using k r by (auto split: option.splits)
      then obtain e where e: "map_of (the_index st') ?h = Some e" by blast
      show ?thesis
      proof (cases "nChainWork e = 0")
        case True
        then have "TryAddBlockIndexCandidate (the_index st') (Some ?h) (cs_chain_selector st') = None"
          using e by (simp add: TryAddBlockIndexCandidate_def)
        then have "accept_headers env peer_id skip (header # headers) s = None" using a(1) r Some p by simp
        moreover have "\<not> work_room st' (batch_work headers)" using map_of_SomeD [OF e] True by (auto simp: work_room_def)
        ultimately show ?thesis using room(1) by (auto simp: steps_or_full_def batch)
      next
        case False
        obtain cs where c: "TryAddBlockIndexCandidate (the_index st') (Some ?h) (cs_chain_selector st') = Some cs"
          by (rule TryAdd_node [OF a(2) e False])
        have "protocol_steps ?cr ?params st' (st'\<lparr>cs_chain_selector := cs\<rparr>)"
          by (rule r_into_rtranclp, rule protocol_step.candidate [OF _ c]) (simp add: e)
        moreover have "work_room (st'\<lparr>cs_chain_selector := cs\<rparr>) (batch_work headers)" if "work_room ?st ?n"
          by (rule work_room_mono [of st' "batch_work headers"]) (use room(1) that in \<open>simp_all add: batch\<close>)
        ultimately have "steps_or_full ?cr ?params ?st ?n
            (accept_headers env peer_id skip headers (s\<lparr>sn_chain := st'\<lparr>cs_chain_selector := cs\<rparr>\<rparr>))"
          by (intro IH) (simp_all add: weight_def)
        then show ?thesis using a(1) r Some p c by simp
      qed
    qed
  qed
qed

lemma locator_exists:
  assumes "index_inv m" and "map_of m k \<noteq> None"
  shows "\<exists>hashes. LocatorEntries m (Some k) = Some hashes \<and> locator_ok m k hashes"
proof -
  have "height_of m k = int (nat (height_of m k))" using tree.height_nonneg [OF assms] by simp
  from LocatorEntries_loop_correct [OF assms this, of 1 "[]"] show ?thesis by (simp add: LocatorEntries_def)
qed

lemma locator_from_prev:
  assumes "node_inv env st"
  obtains k hashes where "GetLocatorFromPrev st = Some hashes" "map_of (the_index st) k \<noteq> None" "locator_ok (the_index st) k hashes"
proof -
  have m: "index_inv (the_index st)" using assms by (rule node_inv_index)
  obtain t where t: "GetTip st = Some t" "map_of (the_index st) t \<noteq> None"
    by (rule state_tip [OF node_state_inv [OF assms]])
  have tip: "chain_Tip (the_chain st) = Some t" using t(1) by (simp add: GetTip_def bm_GetTip_def)
  show ?thesis
  proof (cases "parent_of (the_index st) t")
    case None
    then have "GetLocatorFromPrev st = LocatorEntries (the_index st) (Some t)"
      using t tip by (simp add: GetLocatorFromPrev_def cs_GetLocator_def chain_GetLocator_def)
    then show ?thesis using locator_exists [OF m t(2)] t(2) by (metis that)
  next
    case (Some p)
    then obtain e where e: "map_of (the_index st) t = Some e" "pprev e = Some p" using t(2) by (auto simp: parent_of_Some)
    obtain f where f: "map_of (the_index st) p = Some f" by (rule index_parent [OF m e])
    have "GetLocatorFromPrev st = LocatorEntries (the_index st) (Some p)"
      using t Some by (simp add: GetLocatorFromPrev_def cs_GetLocator_def)
    then show ?thesis using locator_exists [OF m, of p] f by (metis option.distinct(1) that)
  qed
qed

lemma request_ends:
  assumes "node_inv env0 (sn_chain s)"
  shows "\<exists>s'. RequestHeadersFromPeer env p s = Some s' \<and> sn_chain s' = sn_chain s"
  by (rule locator_from_prev [OF assms]) (simp add: RequestHeadersFromPeer_def)

lemma activate_batch_steps:
  assumes params: "asert_params (se_params env)" and i: "node_inv (mk_env (se_crypto env) (se_params env) 0 td0) (sn_chain s)"
  shows "\<exists>r s'. activate_batch env p s = Some (r, s') \<and> protocol_steps (se_crypto env) (se_params env) (sn_chain s) (sn_chain s')"
proof -
  obtain st where st: "ActivateBestChain None (sn_chain s) = Some (True, st)" by (rule ActivateBestChain_node [OF i])
  let ?st = "snd (IsInitialBlockDownload (se_node env) st)"
  have "protocol_step (se_crypto env) (se_params env) (sn_chain s) st" by (rule protocol_step.activate [OF st])
  then have steps: "protocol_steps (se_crypto env) (se_params env) (sn_chain s) ?st"
    using converse_rtranclp_into_rtranclp ibd_step by metis
  have "node_inv (mk_env (se_crypto env) (se_params env) 0 td0) ?st" using steps_keep [OF steps params i] by blast
  then have "\<exists>s'. RequestHeadersFromPeer env p (s\<lparr>sn_chain := ?st\<rparr>) = Some s' \<and> sn_chain s' = ?st"
    using request_ends [of _ "s\<lparr>sn_chain := ?st\<rparr>" env p] by simp
  then show ?thesis using st steps by (auto simp: activate_batch_def Let_def split: prod.split)
qed

lemma low_work_chain: "sn_chain (snd (low_work env headers s)) = sn_chain s
    \<or> sn_chain (snd (low_work env headers s)) = snd (IsInitialBlockDownload (se_node env) (sn_chain s))"
  by (simp add: low_work_def Let_def split: option.split prod.split)

lemma weight_ibd: "weight (snd (IsInitialBlockDownload env st)) = weight st"
  by (simp add: IsInitialBlockDownload_def weight_def split: option.split)

lemma pow_check_total: "\<exists>ok. CheckHeadersPoW cr headers params = Inr ok"
proof (induction headers)
  case (Cons header headers)
  obtain ok where "CheckProofOfWork cr header (nBits header) params COMMITMENT_ONLY None = Inr (ok, None)"
    using commitment_no_throw by blast
  then show ?case using Cons by auto
qed auto

lemma process_checked_steps:
  assumes params: "asert_params (se_params env)" and i: "node_inv (mk_env (se_crypto env) (se_params env) 0 td0) (sn_chain s)"
    and w: "int (weight (sn_chain s)) + 2 * int (length headers) < 2 ^ 31"
  shows "steps_or_full (se_crypto env) (se_params env) (sn_chain s) (batch_work headers) (process_checked env p skip headers s)"
proof -
  let ?cr = "se_crypto env" and ?params = "se_params env"
  obtain low s2 where l: "(if skip then (False, s) else low_work env headers s) = (low, s2)" by force
  have steps: "protocol_steps ?cr ?params (sn_chain s) (sn_chain s2)"
    using l low_work_chain [of env headers s] ibd_step [of env "sn_chain s"] by (auto split: if_splits)
  have wt: "weight (sn_chain s2) = weight (sn_chain s)"
    using l low_work_chain [of env headers s] weight_ibd by (auto split: if_splits)
  have room: "work_room (sn_chain s) n \<Longrightarrow> work_room (sn_chain s2) n" for n
    using l low_work_chain [of env headers s] work_room_ibd [of "sn_chain s" n "se_node env"] by (auto split: if_splits)
  have i2: "node_inv (mk_env ?cr ?params 0 td0) (sn_chain s2)" using steps_keep [OF steps params i] by blast
  show ?thesis
  proof (cases low)
    case True
    obtain s3 where "RequestHeadersFromPeer env p s2 = Some s3" "sn_chain s3 = sn_chain s2" using request_ends [OF i2] by blast
    then show ?thesis using True steps by (simp add: process_checked_def l steps_or_full_def)
  next
    case False
    let ?s = "s2\<lparr>last_batch_size := length headers\<rparr>"
    have acc: "steps_or_full ?cr ?params (sn_chain s2) (batch_work headers) (accept_headers env p skip headers ?s)"
      using accept_headers_steps [OF params, of td0 ?s headers p skip] i2 w wt by simp
    show ?thesis
    proof (cases "accept_headers env p skip headers ?s")
      case None
      then show ?thesis using steps_or_full_more [OF steps room acc] False by (simp add: process_checked_def l)
    next
      case (Some rs)
      obtain r s4 where rs: "rs = (r, s4)" by force
      have steps4: "protocol_steps ?cr ?params (sn_chain s) (sn_chain s4)"
        using acc rtranclp_trans [OF steps] by (simp add: Some rs steps_or_full_def)
      have i4: "node_inv (mk_env ?cr ?params 0 td0) (sn_chain s4)" using steps_keep [OF steps4 params i] by blast
      have act: "steps_or_full ?cr ?params (sn_chain s) (batch_work headers) (activate_batch env p s4)"
        using activate_batch_steps [OF params i4, of p] rtranclp_trans [OF steps4] by (auto simp: steps_or_full_def)
      have end4: "steps_or_full ?cr ?params (sn_chain s) (batch_work headers) (Some (r, s4))" using steps4 by (simp add: steps_or_full_def)
      show ?thesis using act end4 False by (cases r) (auto simp: process_checked_def l Some rs split: bool.split)
    qed
  qed
qed

lemma process_batch_steps:
  assumes params: "asert_params (se_params env)" and i: "node_inv (mk_env (se_crypto env) (se_params env) 0 td0) (sn_chain s)"
    and w: "int (weight (sn_chain s)) + 2 * int (length headers) < 2 ^ 31"
  shows "steps_or_full (se_crypto env) (se_params env) (sn_chain s) (batch_work headers) (process_batch env p skip headers s)"
proof -
  let ?cr = "se_crypto env" and ?params = "se_params env"
  obtain ok where pow: "CheckHeadersPoW ?cr headers ?params = Inr ok" using pow_check_total by blast
  have stay: "steps_or_full ?cr ?params (sn_chain s) (batch_work headers) (Some (r, s'))" if "sn_chain s' = sn_chain s" for r s'
    using that by (simp add: steps_or_full_def)
  have rest: "steps_or_full ?cr ?params (sn_chain s) (batch_work headers) (process_checked env p skip headers s1)"
    if "sn_chain s1 = sn_chain s" for s1
    using process_checked_steps [OF params, of td0 s1 headers p skip] i w that by simp
  show ?thesis unfolding process_batch_def Let_def pow by (simp add: stay rest)
qed

lemma HandleHeaders_steps:
  assumes params: "asert_params (se_params env)" and i: "node_inv (mk_env (se_crypto env) (se_params env) 0 td0) (sn_chain s)"
    and w: "int (weight (sn_chain s)) + 2 * int (length headers) < 2 ^ 31"
  shows "steps_or_full (se_crypto env) (se_params env) (sn_chain s) (batch_work headers) (HandleHeadersMessage env p headers s)"
proof -
  obtain ibd st where d: "IsInitialBlockDownload (se_node env) (sn_chain s) = (ibd, st)" by force
  have steps: "protocol_steps (se_crypto env) (se_params env) (sn_chain s) st" using ibd_step [of env "sn_chain s"] d by simp
  have room: "work_room (sn_chain s) n \<Longrightarrow> work_room st n" for n using work_room_ibd [of "sn_chain s" n "se_node env"] d by simp
  have i': "node_inv (mk_env (se_crypto env) (se_params env) 0 td0) st" using steps_keep [OF steps params i] by blast
  have w': "int (weight st) + 2 * int (length headers) < 2 ^ 31" using w weight_ibd [of "se_node env" "sn_chain s"] d by simp
  have rest: "steps_or_full (se_crypto env) (se_params env) (sn_chain s) (batch_work headers) (process_batch env p skip headers s')" if "sn_chain s' = st" for skip s'
    using process_batch_steps [OF params, of td0 s' headers p skip] i' w' that steps_or_full_more [OF steps room] by simp
  have "steps_or_full (se_crypto env) (se_params env) (sn_chain s) n (Some (r, s'))" if "sn_chain s' = st" for n r s'
    using steps that by (simp add: steps_or_full_def)
  with rest show ?thesis by (simp add: HandleHeadersMessage_def d Let_def)
qed

section \<open>Properties\<close>

text \<open>
  \<^bold>\<open>C3.\<close> The network cannot break consensus.  On a reachable node (below $2^{31}$ headers and orphans, twice the batch included), for any peer and any
  batch of headers: if the handler of the \<open>HEADERS\<close> message ends, the chainstate it leaves behind is again a reachable one, its tip has
  at least as much work as before and no block is forgotten.  And it does end, with no assertion failed, whenever no known chain
  would reach work $2^{256}$ with the work of the orphans and of this batch on top of it.
\<close>

theorem headers_keep_consensus:
  assumes "asert_params (se_params env)" and "hashPrevBlock gen = blob_SetNull 32" and "header_hash (se_crypto env) gen \<noteq> blob_SetNull 32"
    and "node_reachable (se_crypto env) (se_params env) gen (sn_chain s)"
    and "int (weight (sn_chain s)) + 2 * int (length headers) < 2 ^ 31"
  shows "(work_room (sn_chain s) (batch_work headers) \<longrightarrow> (\<exists>r s'. HandleHeadersMessage env peer_id headers s = Some (r, s')))
    \<and> (\<forall>r s'. HandleHeadersMessage env peer_id headers s = Some (r, s') \<longrightarrow>
        node_reachable (se_crypto env) (se_params env) gen (sn_chain s')
        \<and> (\<exists>t t'. GetTip (sn_chain s) = Some t \<and> GetTip (sn_chain s') = Some t'
            \<and> work_of (the_index (sn_chain s)) t \<le> work_of (the_index (sn_chain s')) t')
        \<and> index_sub (the_index (sn_chain s)) (the_index (sn_chain s')))"
proof -
  note i = conjunct1 [OF reachable_keeps [OF assms(1-4), of TestOnlyResetTimeData]]
  note h = HandleHeaders_steps [OF assms(1) i assms(5), of peer_id]
  have "node_reachable (se_crypto env) (se_params env) gen (sn_chain s') \<and> progress (sn_chain s) (sn_chain s')"
    if "HandleHeadersMessage env peer_id headers s = Some (r, s')" for r s'
  proof -
    have steps: "protocol_steps (se_crypto env) (se_params env) (sn_chain s) (sn_chain s')" using h by (simp add: that steps_or_full_def)
    then show ?thesis using steps_keep [OF steps assms(1) i] reachable_steps [OF steps assms(4)] by blast
  qed
  moreover have "\<exists>r s'. HandleHeadersMessage env peer_id headers s = Some (r, s')" if "work_room (sn_chain s) (batch_work headers)"
    using h that by (auto simp: steps_or_full_def split: option.splits)
  ultimately show ?thesis by (auto simp: progress_def)
qed

text \<open>A node at genesis and a peer that sends it one header.\<close>

definition sample_sync_env :: sync_env where
  "sample_sync_env = \<lparr>se_crypto = sample_crypto, se_params = sample_params, se_timedata = TestOnlyResetTimeData, se_peer = sample_penv\<rparr>"

definition sample_node :: "chainstate \<Rightarrow> sync_node" where
  "sample_node st = \<lparr>sn_chain = st, sn_peers = new_PeerLifecycleManager default_config (sample_ban_env 0) [] (\<lambda>_. None),
     sn_sync = new_SyncState, last_batch_size = 0\<rparr>"

lemma sample_genesis:
  "\<exists>st. node_reachable sample_crypto sample_params small_gen st \<and> GetTip st = Some [9] \<and> weight st = 1 \<and> work_room st 2
     \<and> the_index st = [([9], (genesis_entry small_gen)\<lparr>nStatus := BLOCK_VALID_TREE\<rparr>)]"
proof -
  have k: "header_hash sample_crypto small_gen = [9]" by (simp add: small_gen_def)
  obtain st where st: "cs_Initialize (mk_env sample_crypto sample_params 0 TestOnlyResetTimeData) small_gen (ChainstateManager sample_params) = Some (True, st)"
      "the_chain st = [Some [9]]" "the_index st = [([9], (genesis_entry small_gen)\<lparr>nStatus := BLOCK_VALID_TREE\<rparr>)]" "cs_orphans st = empty_pool"
    using genesis_state [OF small_gen_ok, of sample_params 0 TestOnlyResetTimeData] k by (auto simp: ChainstateManager_def)
  have "GetTip st = Some [9]" using st(2) by (simp add: GetTip_def bm_GetTip_def chain_Tip_def)
  moreover have "weight st = 1" using st(3,4) by (simp add: weight_def empty_pool_def)
  moreover have "GetBlockProof (new_block_index small_gen) = 2" by (rule regtest_proof) (simp add: small_gen_def new_block_index_def)
  then have "work_room st 2" by (simp add: work_room_def st(3,4) genesis_entry_def orphan_work_def empty_pool_def)
  ultimately show ?thesis using node_reachable.init [OF st(1)] st(3) by blast
qed

theorem headers_keep_consensus_witness:
  "\<exists>st r s' t'. GetTip st = Some [9] \<and> HandleHeadersMessage sample_sync_env 0 [sample_header [9] 150 1] (sample_node st) = Some (r, s')
     \<and> node_reachable sample_crypto sample_params small_gen (sn_chain s')
     \<and> GetTip (sn_chain s') = Some t' \<and> work_of (the_index st) [9] \<le> work_of (the_index (sn_chain s')) t'"
proof -
  let ?h = "sample_header [9] 150 1"
  obtain st where st: "node_reachable sample_crypto sample_params small_gen st" "GetTip st = Some [9]" "weight st = 1" "work_room st 2"
    using sample_genesis by blast
  have "batch_work [?h] = 2" using regtest_proof [of "new_block_index ?h"] by (simp add: batch_work_def header_work_def)
  with headers_keep_consensus [of sample_sync_env small_gen "sample_node st" "[?h]" 0]
  show ?thesis using st sample_params_asert small_gen_ok
    by (intro exI [of _ st]) (auto simp: sample_sync_env_def sample_node_def)
qed

end
