(* ===== verification/Sync_Service.thy ===== *)
theory Sync_Service
  imports Sync_Chain
begin

text \<open>
  Serving headers and following them: what the answer to \<open>GETHEADERS\<close> contains, that the answer of an
  honest node passes the checks of the node that asked, the choice of the sync peer, and the timers.
\<close>

section \<open>The active chain as a list of hashes\<close>

definition chain_hashes :: "chainstate \<Rightarrow> blob list" where
  "chain_hashes st = map the (the_chain st)"

definition header_at :: "chainstate \<Rightarrow> blob \<Rightarrow> CBlockHeader" where
  "header_at st k = GetBlockHeader (the (map_of (the_index st) k))"

lemma length_chain_hashes [simp]: "length (chain_hashes st) = length (the_chain st)"
  by (simp add: chain_hashes_def)

lemma chain_hash:
  assumes inv: "node_inv env st" and i: "i < length (the_chain st)"
  obtains e where "the_chain st ! i = Some (chain_hashes st ! i)" "map_of (the_index st) (chain_hashes st ! i) = Some e"
    "nHeight e = int i" "header_at st (chain_hashes st ! i) = GetBlockHeader e"
    "i = 0 \<longrightarrow> pprev e = None" "0 < i \<longrightarrow> pprev e = Some (chain_hashes st ! (i - 1))"
proof -
  have m: "index_inv (the_index st)" and v: "chain_inv (the_index st) (the_chain st)"
    using inv by (simp_all add: node_inv_def state_inv_def)
  obtain q where q: "the_chain st ! i = Some q" using chain_entry_Some [OF m v i] by blast
  then have h: "chain_hashes st ! i = q" using i by (simp add: chain_hashes_def)
  have qm: "map_of (the_index st) q \<noteq> None" "height_of (the_index st) q = int i" using chain_entry(1,2) [OF m v i q] by simp_all
  then obtain e where e: "map_of (the_index st) q = Some e" "nHeight e = int i" by (auto simp: height_of_Some)
  have root: "i = 0 \<longrightarrow> pprev e = None" using index_root [OF m e(1)] e(2) by auto
  have "pprev e = Some (chain_hashes st ! (i - 1))" if pos: "0 < i"
  proof -
    obtain p where p: "pprev e = Some p" using index_root [OF m e(1)] e(2) pos by (cases "pprev e") auto
    have "the_chain st ! (i - 1) = anc_at (parent_of (the_index st)) (height_of (the_index st)) q (int (i - 1))"
      by (rule chain_entry(3) [OF m v i q]) simp
    also have "\<dots> = ancs (parent_of (the_index st)) (Suc 0) q" using qm(2) pos by (simp add: anc_at_def of_nat_diff)
    also have "\<dots> = Some p" using e(1) p by (simp add: parent_of_Some)
    finally show ?thesis using p i by (simp add: chain_hashes_def)
  qed
  with q h e root show thesis by (intro that [of e]) (auto simp: header_at_def)
qed

lemma chain_hash_inj:
  assumes "node_inv env st" and "i < length (the_chain st)" and "j < length (the_chain st)" and "chain_hashes st ! i = chain_hashes st ! j"
  shows "i = j"
proof -
  obtain e where "map_of (the_index st) (chain_hashes st ! i) = Some e" "nHeight e = int i" by (rule chain_hash [OF assms(1,2)])
  moreover obtain f where "map_of (the_index st) (chain_hashes st ! j) = Some f" "nHeight f = int j" by (rule chain_hash [OF assms(1,3)])
  ultimately show ?thesis using assms(4) by simp
qed

lemma chain_nonempty: "node_inv env st \<Longrightarrow> 0 < length (the_chain st)"
  by (simp add: node_inv_def state_inv_def)

lemma tip_hash:
  assumes "node_inv env st"
  shows "GetTip st = Some (chain_hashes st ! (length (the_chain st) - 1))"
proof -
  have n: "0 < length (the_chain st)" by (rule chain_nonempty [OF assms])
  obtain e where "the_chain st ! (length (the_chain st) - 1) = Some (chain_hashes st ! (length (the_chain st) - 1))"
    by (rule chain_hash [OF assms, of "length (the_chain st) - 1"]) (use n in simp)
  then show ?thesis using n by (simp add: GetTip_def bm_GetTip_def chain_Tip_def)
qed

lemma on_active_iff:
  assumes "node_inv env st"
  shows "IsOnActiveChain st (LookupBlockIndex (cs_block_manager st) h) = (h \<in> set (chain_hashes st))"
proof -
  have m: "index_inv (the_index st)" and v: "chain_inv (the_index st) (the_chain st)"
    using assms by (simp_all add: node_inv_def state_inv_def)
  have "h \<in> set (chain_hashes st) \<longleftrightarrow> (\<exists>i < length (the_chain st). the_chain st ! i = Some h)"
  proof
    assume "h \<in> set (chain_hashes st)"
    then obtain i where i: "i < length (the_chain st)" "chain_hashes st ! i = h" by (auto simp: in_set_conv_nth)
    obtain e where "the_chain st ! i = Some (chain_hashes st ! i)" by (rule chain_hash [OF assms i(1)])
    then show "\<exists>i < length (the_chain st). the_chain st ! i = Some h" using i by auto
  next
    assume "\<exists>i < length (the_chain st). the_chain st ! i = Some h"
    then show "h \<in> set (chain_hashes st)" by (force simp: chain_hashes_def in_set_conv_nth)
  qed
  moreover have "map_of (the_index st) h \<noteq> None" if "i < length (the_chain st)" "the_chain st ! i = Some h" for i
    using chain_entry(1) [OF m v that] .
  ultimately show ?thesis
    using chain_Contains_iff [OF m v, of h]
    by (cases "map_of (the_index st) h") (auto simp: IsOnActiveChain_def LookupBlockIndex_def)
qed

section \<open>Answering a request\<close>

fun upto_stop :: "blob \<Rightarrow> blob list \<Rightarrow> blob list" where
  "upto_stop stop [] = []"
| "upto_stop stop (k # ks) = k # (if \<not> blob_IsNull stop \<and> k = stop then [] else upto_stop stop ks)"

lemma block_at_height:
  assumes "node_inv env st"
  shows "GetBlockAtHeight st (int n) = (if n < length (the_chain st) then Some (chain_hashes st ! n) else None)"
proof (cases "n < length (the_chain st)")
  case True
  obtain e where "the_chain st ! n = Some (chain_hashes st ! n)" by (rule chain_hash [OF assms True])
  then show ?thesis using True by (simp add: GetBlockAtHeight_def chain_at_def chain_Height_def)
next
  case False
  then show ?thesis by (simp add: GetBlockAtHeight_def chain_Height_def)
qed

lemma collect_headers_spec:
  assumes inv: "node_inv env st"
  shows "collect_headers room st stop (GetBlockAtHeight st (int n)) acc =
     acc @ map (header_at st) (upto_stop stop (take room (drop n (chain_hashes st))))"
proof (induction room arbitrary: n acc)
  case (Suc room)
  show ?case
  proof (cases "n < length (the_chain st)")
    case True
    let ?k = "chain_hashes st ! n"
    obtain e where e: "map_of (the_index st) ?k = Some e" "nHeight e = int n" "header_at st ?k = GetBlockHeader e"
      by (rule chain_hash [OF inv True])
    have d: "drop n (chain_hashes st) = ?k # drop (Suc n) (chain_hashes st)" using True by (simp add: Cons_nth_drop_Suc)
    have tip: "Some ?k = GetTip st \<longleftrightarrow> Suc n = length (the_chain st)"
    proof
      assume "Some ?k = GetTip st"
      then have "?k = chain_hashes st ! (length (the_chain st) - 1)" unfolding tip_hash [OF inv] by simp
      then show "Suc n = length (the_chain st)" using chain_hash_inj [OF inv True, of "length (the_chain st) - 1"] True by linarith
    next
      assume "Suc n = length (the_chain st)"
      then have "n = length (the_chain st) - 1" by linarith
      then show "Some ?k = GetTip st" unfolding tip_hash [OF inv] by simp
    qed
    show ?thesis
    proof (cases "Suc n = length (the_chain st)")
      case last: True
      then have t: "GetTip st = Some ?k" using tip by simp
      show ?thesis unfolding block_at_height [OF inv] d using True last e t by (simp add: Let_def)
    next
      case False
      then have t: "GetTip st \<noteq> Some ?k" using tip by metis
      show ?thesis
        unfolding block_at_height [OF inv, of n] d using True e t Suc.IH [of "Suc n" "acc @ [GetBlockHeader e]"]
        by (simp add: Let_def add.commute)
    qed
  next
    case False
    then show ?thesis by (simp add: block_at_height [OF inv])
  qed
qed simp

lemma walk_to_genesis_chain:
  assumes inv: "node_inv env st"
  shows "i < length (the_chain st) \<Longrightarrow> walk_to_genesis (the_index st) (chain_hashes st ! i) = Some (chain_hashes st ! 0)"
proof (induction i)
  case 0
  obtain e where "map_of (the_index st) (chain_hashes st ! 0) = Some e" "0 = (0::nat) \<longrightarrow> pprev e = None" by (rule chain_hash [OF inv 0])
  then show ?case by (subst walk_to_genesis.simps) (simp add: parent_of_Some)
next
  case (Suc i)
  obtain e where "map_of (the_index st) (chain_hashes st ! Suc i) = Some e" "0 < Suc i \<longrightarrow> pprev e = Some (chain_hashes st ! (Suc i - 1))"
    by (rule chain_hash [OF inv Suc.prems])
  then show ?case using Suc by (subst walk_to_genesis.simps) (simp add: parent_of_Some)
qed

lemma find_fork_point_spec:
  assumes "node_inv env st"
  shows "find_fork_point st locator = find (\<lambda>h. h \<in> set (chain_hashes st)) locator"
proof (induction locator)
  case (Cons h hs)
  have "h \<in> set (chain_hashes st) \<Longrightarrow> LookupBlockIndex (cs_block_manager st) h = Some h"
    using on_active_iff [OF assms, of h] by (auto simp: IsOnActiveChain_def LookupBlockIndex_def split: option.splits)
  then show ?case using Cons on_active_iff [OF assms, of h] by (simp add: Let_def)
qed simp

text \<open>The position on the chain the answer to a locator starts from.\<close>

definition fork_height :: "chainstate \<Rightarrow> blob list \<Rightarrow> nat" where
  "fork_height st locator =
     (case find (\<lambda>h. h \<in> set (chain_hashes st)) locator of None \<Rightarrow> 0 | Some h \<Rightarrow> nat (height_of (the_index st) h))"

definition headers_after :: "chainstate \<Rightarrow> blob list \<Rightarrow> blob \<Rightarrow> CBlockHeader list" where
  "headers_after st locator stop =
     map (header_at st) (upto_stop stop (take MAX_HEADERS_SIZE (drop (Suc (fork_height st locator)) (chain_hashes st))))"

lemma height_of_chain_hash:
  assumes "node_inv env st" and "i < length (the_chain st)"
  shows "height_of (the_index st) (chain_hashes st ! i) = int i"
proof -
  obtain e where "map_of (the_index st) (chain_hashes st ! i) = Some e" "nHeight e = int i" by (rule chain_hash [OF assms])
  then show ?thesis by (simp add: height_of_Some)
qed

lemma HandleGetHeaders_sends:
  assumes "node_inv env0 (sn_chain s)"
  shows "HandleGetHeadersMessage env peer_id msg s =
    Some (True, s\<lparr>sn_peers := on_peer peer_id (send_message (se_peer env)
      (Headers (headers_after (sn_chain s) (gh_block_locator_hashes msg) (gh_hash_stop msg)))) (sn_peers s)\<rparr>)"
proof -
  let ?st = "sn_chain s" and ?loc = "gh_block_locator_hashes msg"
  have n: "0 < length (the_chain ?st)" by (rule chain_nonempty [OF assms])
  have resp: "collect_headers MAX_HEADERS_SIZE ?st (gh_hash_stop msg) (GetBlockAtHeight ?st (int f + 1)) [] =
      map (header_at ?st) (upto_stop (gh_hash_stop msg) (take MAX_HEADERS_SIZE (drop (Suc f) (chain_hashes ?st))))" for f
    using collect_headers_spec [OF assms, of MAX_HEADERS_SIZE "gh_hash_stop msg" "Suc f" "[]"] by (simp add: add.commute)
  show ?thesis
  proof (cases "find (\<lambda>h. h \<in> set (chain_hashes ?st)) ?loc")
    case None
    have "walk_to_genesis (the_index ?st) (chain_hashes ?st ! (length (the_chain ?st) - 1)) = Some (chain_hashes ?st ! 0)"
      by (rule walk_to_genesis_chain [OF assms]) (use n in simp)
    then show ?thesis using None resp [of 0] height_of_chain_hash [OF assms n]
      by (simp add: HandleGetHeadersMessage_def Let_def find_fork_point_spec [OF assms] tip_hash [OF assms] headers_after_def fork_height_def)
  next
    case (Some h)
    then have "h \<in> set (chain_hashes ?st)" by (auto simp: find_Some_iff)
    then obtain i where i: "i < length (the_chain ?st)" "h = chain_hashes ?st ! i" by (auto simp: in_set_conv_nth)
    then show ?thesis using Some resp [of i] height_of_chain_hash [OF assms i(1)]
      by (simp add: HandleGetHeadersMessage_def Let_def find_fork_point_spec [OF assms] headers_after_def fork_height_def)
  qed
qed

section \<open>An honest answer is not punished\<close>

lemma upto_stop_prefix: "\<exists>n. upto_stop stop ks = take n ks"
proof (induction ks)
  case (Cons k ks)
  then obtain n where "upto_stop stop ks = take n ks" by blast
  then have "upto_stop stop (k # ks) = take (if \<not> blob_IsNull stop \<and> k = stop then 1 else Suc n) (k # ks)" by simp
  then show ?case by blast
qed simp

lemma upto_stop_null: "blob_IsNull stop \<Longrightarrow> upto_stop stop ks = ks"
  by (induction ks) simp_all

text \<open>A contiguous stretch of the active chain above genesis.\<close>

definition chain_headers :: "chainstate \<Rightarrow> nat \<Rightarrow> nat \<Rightarrow> CBlockHeader list" where
  "chain_headers st from n = map (header_at st) (take n (drop from (chain_hashes st)))"

lemma headers_after_segment: "\<exists>n. n \<le> MAX_HEADERS_SIZE \<and> headers_after st locator stop = chain_headers st (Suc (fork_height st locator)) n"
proof -
  let ?ks = "drop (Suc (fork_height st locator)) (chain_hashes st)"
  obtain n where "upto_stop stop (take MAX_HEADERS_SIZE ?ks) = take n (take MAX_HEADERS_SIZE ?ks)" using upto_stop_prefix by blast
  then have "headers_after st locator stop = chain_headers st (Suc (fork_height st locator)) (min n MAX_HEADERS_SIZE)"
    by (simp add: headers_after_def chain_headers_def)
  then show ?thesis by (intro exI [of _ "min n MAX_HEADERS_SIZE"]) simp
qed

lemma chain_headers_Suc:
  assumes "node_inv env st" and "i < length (the_chain st)"
  shows "chain_headers st i (Suc n) = header_at st (chain_hashes st ! i) # chain_headers st (Suc i) n"
  using assms(2) by (simp add: chain_headers_def Cons_nth_drop_Suc [symmetric])

lemma chain_headers_end: "length (the_chain st) \<le> i \<Longrightarrow> chain_headers st i n = []"
  by (simp add: chain_headers_def)

lemma chain_header_facts:
  assumes "node_inv env st" and "Suc i < length (the_chain st)"
  shows "hashPrevBlock (header_at st (chain_hashes st ! Suc i)) = chain_hashes st ! i"
    and "header_hash (env_crypto env) (header_at st (chain_hashes st ! Suc i)) = chain_hashes st ! Suc i"
    and "CheckProofOfWork (env_crypto env) (header_at st (chain_hashes st ! Suc i)) (nBits (header_at st (chain_hashes st ! Suc i)))
           (env_params env) COMMITMENT_ONLY None = Inr (True, None)"
proof -
  let ?k = "chain_hashes st ! Suc i"
  obtain e where e: "map_of (the_index st) ?k = Some e" "header_at st ?k = GetBlockHeader e"
      "0 < Suc i \<longrightarrow> pprev e = Some (chain_hashes st ! (Suc i - 1))"
    by (rule chain_hash [OF assms])
  then have p: "pprev e = Some (chain_hashes st ! i)" by simp
  have "authentic (env_crypto env) (env_params env) (the_index st)" using assms(1) by (simp add: node_inv_def)
  then have a: "header_hash (env_crypto env) (GetBlockHeader e) = ?k"
      "CheckProofOfWork (env_crypto env) (GetBlockHeader e) (bi_nBits e) (env_params env) FULL None = Inr (True, None)"
    using e(1) p by (simp_all add: authentic_iff [OF index_om [OF node_inv_index [OF assms(1)]]])
  show "hashPrevBlock (header_at st ?k) = chain_hashes st ! i" using e(2) p by (simp add: GetBlockHeader_def)
  show "header_hash (env_crypto env) (header_at st ?k) = ?k" using a(1) e(2) by simp
  show "CheckProofOfWork (env_crypto env) (header_at st ?k) (nBits (header_at st ?k)) (env_params env) COMMITMENT_ONLY None = Inr (True, None)"
    using commitment_of_full [OF a(2)] e(2) by (simp add: GetBlockHeader_def)
qed

lemma chain_headers_pow:
  assumes "node_inv env st"
  shows "CheckHeadersPoW (env_crypto env) (chain_headers st (Suc i) n) (env_params env) = Inr True"
proof (induction n arbitrary: i)
  case (Suc n)
  show ?case
  proof (cases "Suc i < length (the_chain st)")
    case True
    then show ?thesis using Suc chain_header_facts(3) [OF assms True] by (simp add: chain_headers_Suc [OF assms True])
  next
    case False
    then show ?thesis by (simp add: chain_headers_end)
  qed
qed (simp add: chain_headers_def)

lemma chain_headers_continuous:
  assumes "node_inv env st"
  shows "Suc i < length (the_chain st) \<Longrightarrow>
    continuous_from (env_crypto env) (header_at st (chain_hashes st ! Suc i)) (chain_headers st (Suc (Suc i)) n)"
proof (induction n arbitrary: i)
  case (Suc n)
  show ?case
  proof (cases "Suc (Suc i) < length (the_chain st)")
    case True
    then show ?thesis
      using Suc.IH [OF True] chain_header_facts(2) [OF assms Suc.prems] chain_header_facts(1) [OF assms True]
      by (simp add: chain_headers_Suc [OF assms True])
  next
    case False
    then show ?thesis by (simp add: chain_headers_end)
  qed
qed (simp add: chain_headers_def)

lemma chain_headers_check:
  assumes "node_inv env st"
  shows "CheckHeadersAreContinuous (env_crypto env) (chain_headers st (Suc i) n)"
proof (cases "Suc i < length (the_chain st) \<and> 0 < n")
  case True
  then obtain n' where "n = Suc n'" by (cases n) auto
  then show ?thesis using True chain_headers_continuous [OF assms, of i n']
    by (simp add: CheckHeadersAreContinuous_def chain_headers_Suc [OF assms])
next
  case False
  then have "chain_headers st (Suc i) n = []" by (cases n) (auto simp: chain_headers_def)
  then show ?thesis by (simp add: CheckHeadersAreContinuous_def)
qed

lemma fork_point_known:
  assumes "node_inv env st" and "node_inv env' client" and "GetBlockAtHeight st 0 = GetBlockAtHeight client 0"
    and "GetLocatorFromPrev client = Some locator"
  shows "fork_height st locator < length (the_chain st)"
    and "map_of (the_index client) (chain_hashes st ! fork_height st locator) \<noteq> None"
proof -
  let ?m = "the_index client"
  have m: "index_inv ?m" using assms(2) by (rule node_inv_index)
  have n: "0 < length (the_chain st)" "0 < length (the_chain client)" using chain_nonempty assms(1,2) by blast+
  have same: "chain_hashes st ! 0 = chain_hashes client ! 0"
    using assms(3) block_at_height [OF assms(1), of 0] block_at_height [OF assms(2), of 0] n by simp
  obtain k where k: "map_of ?m k \<noteq> None" "locator_ok ?m k locator" by (rule locator_from_prev [OF assms(2)]) (use assms(4) in simp)
  have known: "map_of ?m q \<noteq> None" if "q \<in> set locator" for q
    using tree.descends_member [OF m k(1)] k(2) that by (auto simp: locator_ok_def)
  have last: "last locator \<in> set locator" "height_of ?m (last locator) = 0" using k(2) by (simp_all add: locator_ok_def)
  obtain g where g: "map_of ?m (chain_hashes client ! 0) = Some g" "nHeight g = int 0" by (rule chain_hash [OF assms(2) n(2)])
  have gm: "map_of ?m (chain_hashes client ! 0) \<noteq> None" "height_of ?m (chain_hashes client ! 0) = 0"
    using g by (simp_all add: height_of_Some)
  have "chain_hashes client ! 0 = last locator" by (rule tree.one_root [OF m known [OF last(1)] gm(1) last(2) gm(2)])
  then have "last locator \<in> set (chain_hashes st)" using same n(1) by (metis length_chain_hashes nth_mem)
  then obtain h where h: "find (\<lambda>h. h \<in> set (chain_hashes st)) locator = Some h"
    using last(1) by (cases "find (\<lambda>h. h \<in> set (chain_hashes st)) locator") (auto simp: find_None_iff)
  then have hm: "h \<in> set locator" "h \<in> set (chain_hashes st)" by (auto simp: find_Some_iff)
  then obtain i where i: "i < length (the_chain st)" "h = chain_hashes st ! i" by (auto simp: in_set_conv_nth)
  have "fork_height st locator = i" using h i height_of_chain_hash [OF assms(1) i(1)] by (simp add: fork_height_def)
  then show "fork_height st locator < length (the_chain st)" "map_of ?m (chain_hashes st ! fork_height st locator) \<noteq> None"
    using i known [OF hm(1)] by simp_all
qed

lemma honest_batch:
  assumes "node_inv env st" and "node_inv env' client" and "GetBlockAtHeight st 0 = GetBlockAtHeight client 0"
    and "GetLocatorFromPrev client = Some locator" and "headers_after st locator stop = headers" and "headers \<noteq> []"
  shows "length headers \<le> MAX_HEADERS_SIZE" "map_of (the_index client) (hashPrevBlock (hd headers)) \<noteq> None"
    "CheckHeadersPoW (env_crypto env) headers (env_params env) = Inr True" "CheckHeadersAreContinuous (env_crypto env) headers"
proof -
  let ?f = "fork_height st locator"
  obtain n where n: "n \<le> MAX_HEADERS_SIZE" "headers = chain_headers st (Suc ?f) n" using headers_after_segment assms(5) by metis
  show "length headers \<le> MAX_HEADERS_SIZE" using n by (simp add: chain_headers_def)
  show "CheckHeadersPoW (env_crypto env) headers (env_params env) = Inr True" unfolding n(2) by (rule chain_headers_pow [OF assms(1)])
  show "CheckHeadersAreContinuous (env_crypto env) headers" unfolding n(2) by (rule chain_headers_check [OF assms(1)])
  have "Suc ?f < length (the_chain st)" using assms(6) n(2) chain_headers_end [of st "Suc ?f" n] by force
  moreover obtain n' where "n = Suc n'" using assms(6) n(2) by (cases n) (auto simp: chain_headers_def)
  ultimately have "hd headers = header_at st (chain_hashes st ! Suc ?f)" "Suc ?f < length (the_chain st)"
    using n(2) by (simp_all add: chain_headers_Suc [OF assms(1)])
  then show "map_of (the_index client) (hashPrevBlock (hd headers)) \<noteq> None"
    using chain_header_facts(1) [OF assms(1)] fork_point_known(2) [OF assms(1-4)] by simp
qed

lemma honest_silence:
  assumes "node_inv env st" and "node_inv env' client" and "GetBlockAtHeight st 0 = GetBlockAtHeight client 0"
    and "GetLocatorFromPrev client = Some locator" and "headers_after st locator (replicate 32 0) = []"
  shows "\<exists>t. GetTip st = Some t \<and> map_of (the_index client) t \<noteq> None"
proof -
  let ?f = "fork_height st locator"
  have "take MAX_HEADERS_SIZE (drop (Suc ?f) (chain_hashes st)) = []"
    using assms(5) upto_stop_null [of "replicate 32 0"] by (simp add: headers_after_def blob_IsNull_def list_all_iff)
  then have "length (the_chain st) \<le> Suc ?f" by (simp add: MAX_HEADERS_SIZE_def)
  then have "length (the_chain st) - 1 = ?f" using fork_point_known(1) [OF assms(1-4)] by linarith
  then show ?thesis using tip_hash [OF assms(1)] fork_point_known(2) [OF assms(1-4)] by simp
qed

section \<open>Properties\<close>

text \<open>
  \<^bold>\<open>C24.\<close> The answer to \<open>GETHEADERS\<close>.  On a well-formed chainstate the handler ends and sends one \<open>HEADERS\<close> message: the
  headers of the active chain that follow the first locator hash on the active chain (genesis when there is none), in order,
  up to and including the stop hash, at most 2000 of them; the rest of the node is unchanged.
\<close>

theorem getheaders_response:
  assumes "node_inv env0 (sn_chain s)"
  shows "\<exists>headers. HandleGetHeadersMessage env peer_id msg s =
      Some (True, s\<lparr>sn_peers := on_peer peer_id (send_message (se_peer env) (Headers headers)) (sn_peers s)\<rparr>)
    \<and> headers = map (header_at (sn_chain s)) (upto_stop (gh_hash_stop msg)
        (take 2000 (drop (Suc (fork_height (sn_chain s) (gh_block_locator_hashes msg))) (chain_hashes (sn_chain s)))))
    \<and> length headers \<le> 2000"
proof -
  let ?hs = "headers_after (sn_chain s) (gh_block_locator_hashes msg) (gh_hash_stop msg)"
  obtain n where "n \<le> MAX_HEADERS_SIZE"
      "?hs = chain_headers (sn_chain s) (Suc (fork_height (sn_chain s) (gh_block_locator_hashes msg))) n"
    using headers_after_segment by blast
  then have "length ?hs \<le> 2000" by (simp add: chain_headers_def MAX_HEADERS_SIZE_def)
  then show ?thesis using HandleGetHeaders_sends [OF assms, of env peer_id msg] by (simp add: headers_after_def MAX_HEADERS_SIZE_def)
qed

text \<open>
  \<^bold>\<open>C4.\<close> Two honest nodes.  When a node asks another node of the same network (same parameters, same genesis) for headers, the
  other one answers; an empty answer means that the asking node already knows the tip of the other; and the
  asking node takes any other answer of its sync peer through the size, connection, proof-of-work and
  continuity checks to the work check: the only mark it leaves on the peer is that its headers connect.
\<close>

theorem honest_answer_passes:
  assumes "node_inv (se_node env) (sn_chain s)" and "node_inv (se_node env) (sn_chain server)"
    and "GetBlockAtHeight (sn_chain server) 0 = GetBlockAtHeight (sn_chain s) 0" and "of_int peer_id = GetSyncPeerId s" and "HasSyncPeer s"
  shows "\<exists>locator headers. GetLocatorFromPrev (sn_chain s) = Some locator \<and> headers = headers_after (sn_chain server) locator (replicate 32 0)
    \<and> HandleGetHeadersMessage env' client_id (getheaders_for locator) server =
        Some (True, server\<lparr>sn_peers := on_peer client_id (send_message (se_peer env') (Headers headers)) (sn_peers server)\<rparr>)
    \<and> (if headers = [] then \<exists>t. GetTip (sn_chain server) = Some t \<and> LookupBlockIndex (cs_block_manager (sn_chain s)) t = Some t
       else HandleHeadersMessage env peer_id headers s =
         (let s1 = s\<lparr>sn_chain := snd (IsInitialBlockDownload (se_node env) (sn_chain s)),
                sn_sync := (sn_sync s)\<lparr>last_headers_received_us := pe_time (se_peer env) * 1000000\<rparr>\<rparr>
          in process_checked env peer_id (last_on_active_chain env headers (sn_chain s1)) headers
               (hs_report peer_id ConnectingHeaders s1)))"
proof -
  obtain locator where l: "GetLocatorFromPrev (sn_chain s) = Some locator" by (rule locator_from_prev [OF assms(1)])
  define headers where "headers = headers_after (sn_chain server) locator (replicate 32 0)"
  have send: "HandleGetHeadersMessage env' client_id (getheaders_for locator) server =
        Some (True, server\<lparr>sn_peers := on_peer client_id (send_message (se_peer env') (Headers headers)) (sn_peers server)\<rparr>)"
    using HandleGetHeaders_sends [OF assms(2), of env' client_id "getheaders_for locator"] by (simp add: getheaders_for_def headers_def)
  have none: "\<exists>t. GetTip (sn_chain server) = Some t \<and> LookupBlockIndex (cs_block_manager (sn_chain s)) t = Some t" if "headers = []"
    using honest_silence [OF assms(2,1,3) l] that by (auto simp: headers_def LookupBlockIndex_def split: option.splits)
  have crypto: "env_crypto (se_node env) = se_crypto env" "env_params (se_node env) = se_params env" by (simp_all add: se_node_def)
  have index: "the_index (snd (IsInitialBlockDownload e st)) = the_index st" for e st
    by (simp add: IsInitialBlockDownload_def split: option.split)
  have pass: "process_batch env peer_id skip headers s1 = process_checked env peer_id skip headers (hs_report peer_id ConnectingHeaders s1)"
    if "headers \<noteq> []" "the_index (sn_chain s1) = the_index (sn_chain s)" for skip s1
    using honest_batch [OF assms(2,1,3) l headers_def [symmetric] that(1), unfolded crypto] that(2)
    by (auto simp: process_batch_def LookupBlockIndex_def Let_def split: option.split)
  obtain ibd st where d: "IsInitialBlockDownload (se_node env) (sn_chain s) = (ibd, st)" by force
  then have "the_index st = the_index (sn_chain s)" using index [of "se_node env" "sn_chain s"] by simp
  then show ?thesis
    using l send none pass assms(4,5) headers_def
    by (intro exI [of _ locator] exI [of _ headers])
       (simp add: HandleHeadersMessage_def d Let_def kMicrosPerSecond_def GetSyncPeerId_def HasSyncPeer_def)
qed

section \<open>A node one block ahead\<close>

definition ahead_state :: chainstate where
  "ahead_state = (let st = inserted small_env (sample_header [9] 150 1) small_genesis small_state in
     st\<lparr>cs_block_manager := (cs_block_manager st)\<lparr>m_active_chain := [Some [9], Some [1]]\<rparr>\<rparr>)"

lemma ahead_index: "the_index ahead_state = [([1], accepted_entry small_index (sample_header [9] 150 1) small_genesis 200), ([9], small_genesis)]"
  by (simp add: ahead_state_def Let_def inserted_def small_state_def small_index_def small_env_def)

lemma ahead_chain: "chain_hashes ahead_state = [[9], [1]]" "length (the_chain ahead_state) = 2" "the_chain ahead_state = [Some [9], Some [1]]"
  by (simp_all add: chain_hashes_def ahead_state_def Let_def)

lemma ahead_node_inv: "node_inv small_env ahead_state"
proof -
  let ?st = "inserted small_env (sample_header [9] 150 1) small_genesis small_state"
  have f: "map_of (the_index small_state) [9] = Some small_genesis" and m: "the_index small_state = small_index"
    by (simp_all add: small_state_def small_index_def)
  have i: "node_inv small_env ?st"
    by (rule inserted_inv [OF small_node_inv])
       (use small_valid f m in \<open>simp_all add: valid_child_def small_env_def small_index_def\<close>)
  have idx: "the_index ?st = the_index ahead_state" by (simp add: ahead_state_def Let_def)
  have mi: "index_inv (the_index ahead_state)" using node_inv_index [OF i] idx by simp
  have h: "height_of (the_index ahead_state) [1] = 1" "height_of (the_index ahead_state) [9] = 0"
      "parent_of (the_index ahead_state) [1] = Some [9]"
    by (simp_all add: ahead_index height_of_def parent_of_def accepted_entry_def child_entry_def small_genesis_def sample_entry_def)
  have "path_to (the_index ahead_state) [1] = [Some [9], Some [1]]"
    by (simp add: path_to_def anc_at_def h)
  then have "chain_inv (the_index ahead_state) [Some [9], Some [1]]"
    using chain_inv_path [OF mi, of "[1]"] by (simp add: ahead_index)
  then show ?thesis using i idx by (simp add: node_inv_def state_inv_def ahead_state_def Let_def)
qed

lemma small_chain: "chain_hashes small_state = [[9]]" "the_chain small_state = [Some [9]]"
  by (simp_all add: chain_hashes_def small_state_def)

lemma ahead_header: "header_at ahead_state [1] = sample_header [9] 150 1"
  by (simp add: header_at_def ahead_index accepted_entry_def child_entry_def GetBlockHeader_def new_block_index_def sample_header_def)

theorem getheaders_response_witness:
  "HandleGetHeadersMessage sample_sync_env 3 (getheaders_for [[5], [9]]) (sample_node ahead_state) =
     Some (True, (sample_node ahead_state)\<lparr>sn_peers :=
       on_peer 3 (send_message sample_penv (Headers [sample_header [9] 150 1])) (sn_peers (sample_node ahead_state))\<rparr>)"
proof -
  let ?s = "sample_node ahead_state"
  have s: "sn_chain ?s = ahead_state" by (simp add: sample_node_def)
  have inv: "node_inv small_env (sn_chain ?s)" using ahead_node_inv by (simp add: s)
  have f: "fork_height ahead_state [[5], [9]] = 0"
    by (simp add: fork_height_def ahead_chain) (simp add: height_of_def ahead_index small_genesis_def sample_entry_def)
  from getheaders_response [OF inv, of sample_sync_env 3 "getheaders_for [[5], [9]]"]
  show ?thesis by (simp add: s getheaders_for_def f ahead_chain ahead_header sample_sync_env_def)
qed

theorem honest_answer_passes_witness:
  "HandleGetHeadersMessage sample_sync_env 3 (getheaders_for [[9]]) (sample_node ahead_state) =
     Some (True, (sample_node ahead_state)\<lparr>sn_peers := on_peer 3 (send_message sample_penv (Headers [sample_header [9] 150 1])) (sn_peers (sample_node ahead_state))\<rparr>)
   \<and> (\<exists>s skip. sn_chain s = snd (IsInitialBlockDownload (se_node sample_sync_env) small_state) \<and>
       HandleHeadersMessage sample_sync_env 0 [sample_header [9] 150 1] (SetSyncPeer sample_sync_env 0 (sample_node small_state)) =
       process_checked sample_sync_env 0 skip [sample_header [9] 150 1] (hs_report 0 ConnectingHeaders s))"
proof -
  let ?s = "SetSyncPeer sample_sync_env 0 (sample_node small_state)" and ?server = "sample_node ahead_state"
  have c: "sn_chain ?s = small_state" "sn_chain ?server = ahead_state" by (simp_all add: sample_node_def)
  have i: "node_inv (se_node sample_sync_env) st = node_inv small_env st" for st
    by (simp add: node_inv_def se_node_def sample_sync_env_def small_env_def)
  have g: "GetBlockAtHeight (sn_chain ?server) 0 = GetBlockAtHeight (sn_chain ?s) 0"
    using block_at_height [OF ahead_node_inv, of 0] block_at_height [OF small_node_inv, of 0]
    unfolding c by (simp add: ahead_chain small_chain)
  have p: "of_int 0 = GetSyncPeerId ?s" "HasSyncPeer ?s"
    by (simp_all add: GetSyncPeerId_def HasSyncPeer_def SetSyncPeer_def NO_SYNC_PEER_def Let_def)
  have l: "GetLocatorFromPrev small_state = Some [[9]]"
    by (simp add: GetLocatorFromPrev_def GetTip_def bm_GetTip_def chain_Tip_def cs_GetLocator_def chain_GetLocator_def LocatorEntries_def
        LocatorEntries_loop.simps parent_of_def height_of_def Let_def small_state_def small_index_def small_genesis_def sample_entry_def)
  have f: "fork_height ahead_state [[9]] = 0"
    by (simp add: fork_height_def ahead_chain) (simp add: height_of_def ahead_index small_genesis_def sample_entry_def)
  have h: "headers_after ahead_state [[9]] (replicate 32 0) = [sample_header [9] 150 1]"
    by (simp add: headers_after_def f ahead_chain ahead_header MAX_HEADERS_SIZE_def)
  show ?thesis
    using honest_answer_passes [of sample_sync_env ?s ?server 0 sample_sync_env 3, OF _ _ g p] small_node_inv ahead_node_inv
    unfolding c i l
    by (simp add: h sample_sync_env_def [THEN arg_cong [of _ _ se_peer]] Let_def)
       (rule exI, rule conjI [rotated], rule exI, rule refl, simp)
qed

section \<open>Choosing the sync peer\<close>

lemma initial_sync_stays: "HasSyncPeer s \<Longrightarrow> CheckInitialSync env s = Some s"
  by (simp add: CheckInitialSync_def)

lemma initial_sync_picks:
  assumes "node_inv env0 (sn_chain s)" and "\<not> HasSyncPeer s" and "p \<in> set (get_outbound_peers (sn_peers s))" and "eligible_sync_peer p"
  shows "\<exists>q s'. q \<in> set (get_outbound_peers (sn_peers s)) \<and> eligible_sync_peer q \<and> CheckInitialSync env s = Some s'
    \<and> sync_peer_id (sn_sync s') = of_int (p_id q) \<and> sn_chain s' = sn_chain s
    \<and> last_headers_received_us (sn_sync s') = pe_time (se_peer env) * kMicrosPerSecond"
proof -
  obtain q where q: "find eligible_sync_peer (get_outbound_peers (sn_peers s)) = Some q"
    using assms(3,4) by (cases "find eligible_sync_peer (get_outbound_peers (sn_peers s))") (auto simp: find_None_iff)
  then have "q \<in> set (get_outbound_peers (sn_peers s))" "eligible_sync_peer q" by (auto simp: find_Some_iff)
  moreover obtain locator where "GetLocatorFromPrev (sn_chain s) = Some locator" by (rule locator_from_prev [OF assms(1)])
  ultimately show ?thesis using q assms(2)
    by (intro exI [of _ q]) (simp add: CheckInitialSync_def RequestHeadersFromPeer_def SetSyncPeer_def Let_def)
qed

section \<open>Behaviour at odds with the documentation\<close>

text \<open>
  A full batch whose work is below the threshold is dropped, and the same locator is sent again: the next
  answer is the same batch.
\<close>

lemma low_work_repeats:
  assumes "low_work env headers s = (True, s1)" and "length headers = MAX_HEADERS_SIZE"
  shows "process_checked env p False headers s = map_option (\<lambda>s. (Inr True, s)) (RequestHeadersFromPeer env p s1)"
    and "the_index (sn_chain s1) = the_index (sn_chain s)" and "the_chain (sn_chain s1) = the_chain (sn_chain s)"
    and "GetLocatorFromPrev (sn_chain s1) = GetLocatorFromPrev (sn_chain s)"
proof -
  show "process_checked env p False headers s = map_option (\<lambda>s. (Inr True, s)) (RequestHeadersFromPeer env p s1)"
    using assms by (simp add: process_checked_def)
  have b: "cs_block_manager (sn_chain s1) = cs_block_manager (sn_chain s)"
    using low_work_chain [of env headers s] assms(1) by (auto simp: IsInitialBlockDownload_def split: option.splits)
  show "the_index (sn_chain s1) = the_index (sn_chain s)" "the_chain (sn_chain s1) = the_chain (sn_chain s)" using b by simp_all
  show "GetLocatorFromPrev (sn_chain s1) = GetLocatorFromPrev (sn_chain s)"
    unfolding GetLocatorFromPrev_def cs_GetLocator_def GetTip_def bm_GetTip_def b ..
qed

text \<open>An empty \<open>HEADERS\<close> message of any peer refreshes the clock of the stall timer, which then does not fire.\<close>

lemma stall_masked:
  "\<exists>s'. HandleHeadersMessage env p [] s = Some (Inr True, s') \<and> sync_peer_id (sn_sync s') = sync_peer_id (sn_sync s) \<and>
     ProcessTimers env s' = s'"
proof -
  obtain ibd st where "IsInitialBlockDownload (se_node env) (sn_chain s) = (ibd, st)" by force
  then have "HandleHeadersMessage env p [] s = Some (Inr True,
      s\<lparr>sn_chain := st, sn_sync := (sn_sync s)\<lparr>last_headers_received_us := pe_time (se_peer env) * kMicrosPerSecond\<rparr>\<rparr>)"
    by (simp add: HandleHeadersMessage_def Let_def)
  then show ?thesis by (simp add: ProcessTimers_def Let_def kHeadersSyncTimeoutUs_def kMicrosPerSecond_def)
qed

text \<open>The timer does not ask whether initial download has finished: a synced node without new blocks drops its sync peer.\<close>

lemma idle_sync_peer_dropped:
  assumes "HasSyncPeer s" and "last_headers_received_us (sn_sync s) > 0"
    and "pe_time (se_peer env) * 1000000 > last_headers_received_us (sn_sync s) + 120000000"
  shows "ProcessTimers env s = hs_remove_peer env (sint (ucast (sync_peer_id (sn_sync s)) :: u32)) s"
  using assms by (simp add: ProcessTimers_def HasSyncPeer_def GetSyncPeerId_def Let_def kHeadersSyncTimeoutUs_def kMicrosPerSecond_def)

end
