(* ===== verification/Json_View.thy ===== *)
theory Json_View
  imports Prelude
begin

text \<open>
  How the stored documents are read.  The JSON library is a parameter of the components that store
  documents; what they read of a document is a record of fields.  A field is absent, of a type on which the
  accessor raises an exception, or present.
\<close>

datatype 'a json_field = Absent | Mistyped | Field 'a

text \<open>\<open>value(key, default)\<close>: the default for an absent key, an exception (\<open>None\<close>) for a value of another type.\<close>

definition value_or :: "'a \<Rightarrow> 'a json_field \<Rightarrow> 'a option" where
  "value_or d f = (case f of Absent \<Rightarrow> Some d | Mistyped \<Rightarrow> None | Field v \<Rightarrow> Some v)"

text \<open>\<open>get\<close> on a key that is known to be there.\<close>

definition field_get :: "'a json_field \<Rightarrow> 'a option" where
  "field_get f = (case f of Field v \<Rightarrow> Some v | _ \<Rightarrow> None)"

end
