(* ===== verification/Block_Store.thy ===== *)
theory Block_Store
  imports Node Json_View "HOL-Library.Multiset"
begin

text \<open>
  The block index on disk: \<open>BlockManager::Save\<close> and \<open>Load\<close> (src/chain/block_manager.cpp) and
  \<open>ChainstateManager::Save\<close> and \<open>Load\<close> (src/chain/chainstate_manager.cpp).

  The JSON library is a parameter: \<open>hj_dump\<close> prints the document the manager builds, \<open>hj_parse\<close> gives
  the fields the loader reads, each absent, of a type that the accessor raises on, or present; a
  number is what the library holds, and the accessor casts it to the width of the field.
  \<open>std::sort\<close> orders by height and leaves the order of equal heights open, so the sorting function is a
  parameter too.  The file system is a map from paths to contents; the outcome of opening the stream and the
  number of bytes that reach the disk are part of the environment.

  \<open>None\<close> around a result is a failed assertion or a walk that does not end.
\<close>

section \<open>Documents\<close>

record block_doc =
  bd_hash :: "string json_field"
  bd_prev_hash :: "string json_field"
  bd_version :: "int json_field"
  bd_miner_address :: "string json_field"
  bd_time :: "int json_field"
  bd_bits :: "int json_field"
  bd_nonce :: "int json_field"
  bd_hash_randomx :: "string json_field"
  bd_height :: "int json_field"
  bd_chainwork :: "string json_field"
  bd_status :: "int json_field"

record headers_doc =
  hd_version :: "int json_field"
  hd_block_count :: "int json_field"
  hd_genesis_hash :: "string json_field"
  hd_tip_hash :: "string json_field"
  hd_blocks :: "block_doc list json_field"

record headers_json =
  hj_dump :: "headers_doc \<Rightarrow> string option"
  hj_parse :: "string \<Rightarrow> headers_doc option"

record store_env =
  so_json :: headers_json
  so_sort :: "(blob \<times> CBlockIndex) list \<Rightarrow> (blob \<times> CBlockIndex) list"
  so_open :: bool
  so_written :: nat

section \<open>Saving\<close>

definition work_GetHex :: "arith_uint256 \<Rightarrow> string" where
  "work_GetHex w = GetHex (le_bytes 32 w)"

definition work_SetHex :: "string \<Rightarrow> arith_uint256" where
  "work_SetHex s = arith_of_blob (SetHex 32 s)"

definition block_data :: "blob \<times> CBlockIndex \<Rightarrow> block_doc" where
  "block_data = (\<lambda>(k, e).
     \<lparr>bd_hash = Field (GetHex k),
      bd_prev_hash = Field (GetHex (case pprev e of Some p \<Rightarrow> p | None \<Rightarrow> blob_SetNull 32)),
      bd_version = Field (sint (bi_nVersion e)),
      bd_miner_address = Field (GetHex (bi_minerAddress e)),
      bd_time = Field (uint (bi_nTime e)),
      bd_bits = Field (uint (bi_nBits e)),
      bd_nonce = Field (uint (bi_nNonce e)),
      bd_hash_randomx = Field (GetHex (bi_hashRandomX e)),
      bd_height = Field (nHeight e),
      bd_chainwork = Field (work_GetHex (nChainWork e)),
      bd_status = Field (uint (nStatus e))\<rparr>)"

definition headers_document :: "store_env \<Rightarrow> block_manager \<Rightarrow> headers_doc" where
  "headers_document env bm =
     \<lparr>hd_version = Field 1, hd_block_count = Field (int (length (m_block_index bm))),
      hd_genesis_hash = Field (GetHex (m_genesis_hash bm)),
      hd_tip_hash = Field (case chain_Tip (m_active_chain bm) of None \<Rightarrow> [] | Some t \<Rightarrow> GetHex t),
      hd_blocks = Field (map block_data (so_sort env (m_block_index bm)))\<rparr>"

definition bm_Save :: "store_env \<Rightarrow> string \<Rightarrow> block_manager \<Rightarrow> (string \<Rightarrow> string option) \<Rightarrow> bool \<times> (string \<Rightarrow> string option)" where
  "bm_Save env filepath bm disk =
     (if \<not> so_open env then (False, disk)
      else case hj_dump (so_json env) (headers_document env bm) of
          None \<Rightarrow> (False, disk(filepath := Some []))
        | Some data \<Rightarrow> (True, disk(filepath := Some (take (so_written env) data))))"

section \<open>Loading\<close>

text \<open>How a pass of the loader ends: to its end, by \<open>return false\<close>, or by an exception.\<close>

datatype load_step = Done | Refused | Raised

definition missing_field :: "block_doc \<Rightarrow> bool" where
  "missing_field d \<longleftrightarrow> bd_hash d = Absent \<or> bd_prev_hash d = Absent \<or> bd_version d = Absent \<or> bd_miner_address d = Absent \<or>
     bd_time d = Absent \<or> bd_bits d = Absent \<or> bd_nonce d = Absent \<or> bd_hash_randomx d = Absent \<or>
     bd_height d = Absent \<or> bd_chainwork d = Absent \<or> bd_status d = Absent"

definition read_header :: "block_doc \<Rightarrow> (blob \<times> CBlockHeader) option" where
  "read_header d =
     (case (field_get (bd_hash d), field_get (bd_prev_hash d), field_get (bd_version d), field_get (bd_miner_address d),
            field_get (bd_time d), field_get (bd_bits d), field_get (bd_nonce d), field_get (bd_hash_randomx d)) of
        (Some h, Some p, Some v, Some a, Some t, Some b, Some n, Some r) \<Rightarrow>
          Some (SetHex 32 h, \<lparr>nVersion = word_of_int v, hashPrevBlock = SetHex 32 p, minerAddress = SetHex 20 a,
             nTime = word_of_int t, nBits = word_of_int b, nNonce = word_of_int n, hashRandomX = SetHex 32 r\<rparr>)
      | _ \<Rightarrow> None)"

definition read_metadata :: "block_doc \<Rightarrow> (int \<times> arith_uint256 \<times> u32) option" where
  "read_metadata d =
     (case (field_get (bd_height d), field_get (bd_chainwork d), field_get (bd_status d)) of
        (Some h, Some w, Some s) \<Rightarrow> Some (sint (word_of_int h :: u32), work_SetHex w, word_of_int s)
      | _ \<Rightarrow> None)"

text \<open>
  The first pass also gives the parents for the second, \<open>block_map\<close> of the code.  The message about a hash that does not match reads
  the height, which raises on one of another type.
\<close>

fun first_pass :: "crypto \<Rightarrow> block_doc list \<Rightarrow> block_map \<Rightarrow> (blob, blob) std_map \<Rightarrow> load_step \<times> block_map \<times> (blob, blob) std_map" where
  "first_pass cr [] m prevs = (Done, m, prevs)"
| "first_pass cr (d # ds) m prevs =
     (if missing_field d then (Refused, m, prevs)
      else case read_header d of
          None \<Rightarrow> (Raised, m, prevs)
        | Some (h, header) \<Rightarrow>
            if header_hash cr header \<noteq> h then (if bd_height d = Mistyped then Raised else Refused, m, prevs)
            else if map_of m h \<noteq> None then (Refused, m, prevs)
            else case read_metadata d of
                None \<Rightarrow> (Raised, om_update h (new_block_index header) m, prevs)
              | Some (height, work, status) \<Rightarrow>
                  first_pass cr ds
                    (om_update h ((new_block_index header)\<lparr>nHeight := height, nChainWork := work, nStatus := status\<rparr>) m)
                    (om_update h (hashPrevBlock header) prevs))"

definition modify_index :: "blob \<Rightarrow> (CBlockIndex \<Rightarrow> CBlockIndex) \<Rightarrow> block_map \<Rightarrow> block_map" where
  "modify_index k f m = (case map_of m k of None \<Rightarrow> m | Some e \<Rightarrow> om_update k (f e) m)"

fun second_pass :: "(blob, blob) std_map \<Rightarrow> block_map \<Rightarrow> bool \<times> block_map" where
  "second_pass [] m = (True, m)"
| "second_pass ((h, prev) # ps) m =
     (if \<not> blob_IsNull prev then
        (case map_of m prev of
           None \<Rightarrow> (False, modify_index h (\<lambda>e. e\<lparr>pprev := None\<rparr>) m)
         | Some f \<Rightarrow> second_pass ps (modify_index h (\<lambda>e. e\<lparr>pprev := Some prev\<rparr>) m))
      else second_pass ps (modify_index h (\<lambda>e. e\<lparr>pprev := None\<rparr>) m))"

text \<open>The blocks without a parent, in the order of the map; the code counts them and keeps the last.\<close>

definition roots :: "block_map \<Rightarrow> blob list" where
  "roots m = map fst (filter (\<lambda>(k, e). pprev e = None) m)"

text \<open>The third pass visits the blocks by height; the parents of a block have their skip pointers by then.\<close>

fun third_pass :: "blob list \<Rightarrow> block_map \<Rightarrow> (bool \<times> block_map) option" where
  "third_pass [] m = Some (True, m)"
| "third_pass (k # ks) m =
     (case map_of m k of
        None \<Rightarrow> None
      | Some e \<Rightarrow>
          if nHeight e < 0 then Some (False, m)
          else
            (case pprev e of
               Some p \<Rightarrow>
                 (case map_of m p of
                    None \<Rightarrow> None
                  | Some f \<Rightarrow>
                      if nHeight f + 1 \<noteq> nHeight e then Some (False, m)
                      else
                        let e = e\<lparr>nTimeMax := max (nTimeMax f) (index_time e)\<rparr> in
                        (case BuildSkip (om_update k e m) e of None \<Rightarrow> None | Some e \<Rightarrow> third_pass ks (om_update k e m)))
             | None \<Rightarrow>
                 if nHeight e \<noteq> 0 then Some (False, m)
                 else
                   let e = e\<lparr>nTimeMax := index_time e\<rparr> in
                   (case BuildSkip (om_update k e m) e of None \<Rightarrow> None | Some e \<Rightarrow> third_pass ks (om_update k e m))))"

fun best_tip :: "blob \<Rightarrow> block_map \<Rightarrow> blob option \<times> arith_uint256 \<Rightarrow> blob option \<times> arith_uint256" where
  "best_tip gen_hash [] best = best"
| "best_tip gen_hash ((k, e) # m) (tip, best_work) =
     (if nStatus e AND BLOCK_FAILED_MASK \<noteq> 0 then best_tip gen_hash m (tip, best_work)
      else if pprev e = None \<and> k \<noteq> gen_hash then best_tip gen_hash m (tip, best_work)
      else if nChainWork e > best_work then best_tip gen_hash m (Some k, nChainWork e)
      else best_tip gen_hash m (tip, best_work))"

text \<open>From the choice of the tip to the end; the comparison with the saved tip only logs.\<close>

definition load_tip :: "block_manager \<Rightarrow> (bool \<times> block_manager) option" where
  "load_tip bm =
     (case fst (best_tip (m_genesis_hash bm) (m_block_index bm) (None, 0)) of
        None \<Rightarrow> Some (False, bm)
      | Some t \<Rightarrow>
          (case SetActiveTip bm t of
             None \<Rightarrow> None
           | Some bm \<Rightarrow>
               if \<not> fst (VerifyChainContinuity (m_block_index bm) (Some t) (m_genesis_hash bm)) then Some (False, bm)
               else Some (True, bm\<lparr>m_initialized := True\<rparr>)))"

definition cleared :: "block_manager \<Rightarrow> block_manager" where
  "cleared bm = bm\<lparr>m_block_index := [], m_active_chain := [], m_initialized := False\<rparr>"

text \<open>From the second pass to the end.\<close>

definition load_connect :: "store_env \<Rightarrow> blob \<Rightarrow> blob \<Rightarrow> (blob, blob) std_map \<Rightarrow> block_manager \<Rightarrow> (bool \<times> block_manager) option" where
  "load_connect env expected_genesis_hash loaded_genesis prevs bm =
     (case second_pass prevs (m_block_index bm) of (ok, m) \<Rightarrow>
        let bm = bm\<lparr>m_block_index := m\<rparr> in
        if \<not> ok then Some (False, bm)
        else if length (roots m) \<noteq> 1 then Some (False, bm)
        else if last (roots m) \<noteq> expected_genesis_hash then Some (False, bm)
        else case third_pass (map fst (so_sort env m)) m of
            None \<Rightarrow> None
          | Some (ok, m) \<Rightarrow>
              let bm = bm\<lparr>m_block_index := m\<rparr> in
              if \<not> ok then Some (False, bm)
              else load_tip (bm\<lparr>m_genesis_hash := loaded_genesis\<rparr>))"

definition bm_Load :: "crypto \<Rightarrow> store_env \<Rightarrow> string \<Rightarrow> blob \<Rightarrow> (string \<Rightarrow> string option) \<Rightarrow> block_manager \<Rightarrow> (bool \<times> block_manager) option" where
  "bm_Load cr env filepath expected_genesis_hash disk bm =
     (case disk filepath of
        None \<Rightarrow> Some (False, bm)
      | Some content \<Rightarrow>
          (case hj_parse (so_json env) content of
             None \<Rightarrow> Some (False, cleared bm)
           | Some root \<Rightarrow>
               (case value_or 0 (hd_version root) of
                  None \<Rightarrow> Some (False, cleared bm)
                | Some version \<Rightarrow>
                    if (word_of_int version :: u32) \<noteq> 1 then Some (False, bm)
                    else
                      (case (value_or 0 (hd_block_count root), value_or [] (hd_genesis_hash root), value_or [] (hd_tip_hash root)) of
                         (Some block_count, Some genesis_hash_str, Some tip_hash_str) \<Rightarrow>
                           let loaded_genesis = SetHex 32 genesis_hash_str in
                           if loaded_genesis \<noteq> expected_genesis_hash then Some (False, bm)
                           else
                             let bm = bm\<lparr>m_block_index := [], m_active_chain := []\<rparr> in
                             (case hd_blocks root of
                                Field blocks \<Rightarrow>
                                  (case first_pass cr blocks [] [] of
                                     (Done, m, prevs) \<Rightarrow> load_connect env expected_genesis_hash loaded_genesis prevs (bm\<lparr>m_block_index := m\<rparr>)
                                   | (Refused, m, prevs) \<Rightarrow> Some (False, bm\<lparr>m_block_index := m\<rparr>)
                                   | (Raised, m, prevs) \<Rightarrow> Some (False, cleared bm))
                              | _ \<Rightarrow> Some (False, bm))
                       | _ \<Rightarrow> Some (False, cleared bm)))))"

section \<open>The chainstate\<close>

definition cs_Save :: "store_env \<Rightarrow> string \<Rightarrow> chainstate \<Rightarrow> (string \<Rightarrow> string option) \<Rightarrow> bool \<times> (string \<Rightarrow> string option)" where
  "cs_Save env filepath st disk = bm_Save env filepath (cs_block_manager st) disk"

fun load_leaves :: "block_map \<Rightarrow> (blob \<times> CBlockIndex) list \<Rightarrow> chain_selector \<Rightarrow> chain_selector" where
  "load_leaves m [] cs = cs"
| "load_leaves m ((k, e) # es) cs =
     (if \<not> has_children m k \<and> IsValid e BLOCK_VALID_TREE
      then load_leaves m es (UpdateBestHeader m (Some k) (AddCandidateUnchecked m (Some k) cs))
      else load_leaves m es cs)"

definition cs_Load :: "crypto \<Rightarrow> ChainParams \<Rightarrow> store_env \<Rightarrow> string \<Rightarrow> (string \<Rightarrow> string option) \<Rightarrow> chainstate \<Rightarrow> (bool \<times> chainstate) option" where
  "cs_Load cr params env filepath disk st =
     (case bm_Load cr env filepath (hashGenesisBlock (consensus params)) disk (cs_block_manager st) of
        None \<Rightarrow> None
      | Some (ok, bm) \<Rightarrow>
          let st = st\<lparr>cs_block_manager := bm\<rparr> in
          if \<not> ok then Some (False, st)
          else Some (True, st\<lparr>cs_chain_selector :=
                 load_leaves (the_index st) (the_index st) (SetBestHeader None (ClearCandidates (cs_chain_selector st)))\<rparr>))"

section \<open>Fields survive\<close>

lemma work_hex_roundtrip [simp]: "work_SetHex (work_GetHex w) = w"
proof -
  have l: "is_uint256 (le_bytes 32 w)" by (simp add: is_uint256_def)
  have "unat (work_SetHex (work_GetHex w)) = unat w"
    using unat_arith_of_blob [OF l] unat_bound [of w]
    by (simp add: work_SetHex_def work_GetHex_def SetHex_GetHex le_nat_le_bytes)
  then show ?thesis by (rule word_eq_unatI)
qed

text \<open>An entry with the fields that are saved, as the first pass creates it.\<close>

definition raw_entry :: "CBlockIndex \<Rightarrow> CBlockIndex" where
  "raw_entry e = e\<lparr>pprev := None, pskip := None, nTimeReceived := 0, nTimeMax := 0\<rparr>"

text \<open>An entry as the loader leaves it: only the time of arrival is not stored.\<close>

definition forget_arrival :: "CBlockIndex \<Rightarrow> CBlockIndex" where
  "forget_arrival e = e\<lparr>nTimeReceived := 0\<rparr>"

text \<open>The static types of the stored fields: sizes of the arrays, a height in \<open>int\<close>.\<close>

definition entry_typed :: "blob \<Rightarrow> CBlockIndex \<Rightarrow> bool" where
  "entry_typed k e \<longleftrightarrow> is_uint256 k \<and> header_typed (GetBlockHeader e) \<and> - (2 ^ 31) \<le> nHeight e \<and> nHeight e < 2 ^ 31"

definition index_typed :: "block_map \<Rightarrow> bool" where
  "index_typed m \<longleftrightarrow> list_all (\<lambda>(k, e). entry_typed k e) m"

lemma sint_word_of_int_height: "- (2 ^ 31) \<le> h \<Longrightarrow> h < 2 ^ 31 \<Longrightarrow> sint (word_of_int h :: u32) = h"
  by (simp add: sint_sbintrunc' signed_take_bit_int_eq_self)

lemma read_block_data:
  assumes "entry_typed k e"
  shows "\<not> missing_field (block_data (k, e))" "read_header (block_data (k, e)) = Some (k, GetBlockHeader e)"
    "read_metadata (block_data (k, e)) = Some (nHeight e, nChainWork e, nStatus e)"
proof -
  have l: "length k = 32" "length (hashPrevBlock (GetBlockHeader e)) = 32" "length (bi_minerAddress e) = 20" "length (bi_hashRandomX e) = 32"
    using assms by (auto simp: entry_typed_def header_typed_def is_uint256_def is_uint160_def GetBlockHeader_def)
  then have p: "length (case pprev e of Some p \<Rightarrow> p | None \<Rightarrow> blob_SetNull 32) = 32" by (simp add: GetBlockHeader_def)
  show "\<not> missing_field (block_data (k, e))" by (simp add: missing_field_def block_data_def)
  show "read_header (block_data (k, e)) = Some (k, GetBlockHeader e)"
    using l p by (simp add: read_header_def block_data_def field_get_def SetHex_GetHex GetBlockHeader_def)
  show "read_metadata (block_data (k, e)) = Some (nHeight e, nChainWork e, nStatus e)"
    using assms by (simp add: read_metadata_def block_data_def field_get_def entry_typed_def sint_word_of_int_height)
qed

lemma raw_entry_new: "(new_block_index (GetBlockHeader e))\<lparr>nHeight := nHeight e, nChainWork := nChainWork e, nStatus := nStatus e\<rparr> = raw_entry e"
  by (cases e) (simp add: raw_entry_def new_block_index_def GetBlockHeader_def)

section \<open>Ordered maps built entry by entry\<close>

lemma om_ext:
  assumes "om_invar a" "om_invar b" "map_of a = map_of b"
  shows "a = b"
proof -
  have "set a = set b" using om_entries_iff [OF assms(1)] om_entries_iff [OF assms(2)] assms(3) by auto
  moreover have "sorted_wrt (<) (map fst a)" "sorted_wrt (<) (map fst b)" using assms(1,2) by (simp_all add: om_invar_def)
  ultimately have f: "map fst a = map fst b" by (metis set_map strict_sorted_iff sorted_distinct_set_unique)
  show ?thesis
  proof (rule nth_equalityI)
    show l: "length a = length b" using f by (metis length_map)
    fix i assume i: "i < length a"
    have "map_of a (fst (a ! i)) = Some (snd (a ! i))" using i om_entries_iff [OF assms(1)] by (metis nth_mem prod.collapse)
    moreover have "map_of b (fst (b ! i)) = Some (snd (b ! i))" using i l om_entries_iff [OF assms(2)] by (metis nth_mem prod.collapse)
    moreover have "fst (a ! i) = fst (b ! i)" using f i l by (metis nth_map)
    ultimately show "a ! i = b ! i" using assms(3) by (simp add: prod_eq_iff)
  qed
qed

lemma om_invar_map_snd: "om_invar m \<Longrightarrow> om_invar (map (\<lambda>(k, v). (k, f v)) m)"
  by (simp add: om_invar_def comp_def case_prod_beta)

lemma map_of_map_snd: "map_of (map (\<lambda>(k, v). (k, f v)) m) k = map_option f (map_of m k)"
  by (induction m) auto

section \<open>The passes\<close>

lemma first_pass_spec:
  assumes "\<And>k e. (k, e) \<in> set xs \<Longrightarrow> entry_typed k e \<and> header_hash cr (GetBlockHeader e) = k"
    and "distinct (map fst xs)" and "\<And>k. k \<in> fst ` set xs \<Longrightarrow> map_of m k = None" and "om_invar m" "om_invar prevs"
  shows "\<exists>m' prevs'. first_pass cr (map block_data xs) m prevs = (Done, m', prevs') \<and> om_invar m' \<and> om_invar prevs' \<and>
    (\<forall>q. map_of m' q = (case map_of xs q of None \<Rightarrow> map_of m q | Some e \<Rightarrow> Some (raw_entry e)) \<and>
         map_of prevs' q = (case map_of xs q of None \<Rightarrow> map_of prevs q | Some e \<Rightarrow> Some (hashPrevBlock (GetBlockHeader e))))"
  using assms
proof (induction xs arbitrary: m prevs)
  case (Cons x xs)
  obtain k e where x: "x = (k, e)" by force
  have t: "entry_typed k e" "header_hash cr (GetBlockHeader e) = k" using Cons.prems(1) x by auto
  let ?m = "om_update k (raw_entry e) m" and ?p = "om_update k (hashPrevBlock (GetBlockHeader e)) prevs"
  have new: "map_of m k = None" using Cons.prems(3) x by simp
  have step: "first_pass cr (map block_data (x # xs)) m prevs = first_pass cr (map block_data xs) ?m ?p"
    using read_block_data [OF t(1)] t(2) new by (simp add: x raw_entry_new)
  have nk: "k \<notin> fst ` set xs" using Cons.prems(2) x by simp
  then have n: "map_of xs k = None" by (simp add: map_of_eq_None_iff)
  have "\<exists>m' prevs'. first_pass cr (map block_data xs) ?m ?p = (Done, m', prevs') \<and> om_invar m' \<and> om_invar prevs' \<and>
      (\<forall>q. map_of m' q = (case map_of xs q of None \<Rightarrow> map_of ?m q | Some e \<Rightarrow> Some (raw_entry e)) \<and>
           map_of prevs' q = (case map_of xs q of None \<Rightarrow> map_of ?p q | Some e \<Rightarrow> Some (hashPrevBlock (GetBlockHeader e))))"
    by (rule Cons.IH) (use Cons.prems x nk in auto)
  then show ?case unfolding step using n by (auto simp: x split: option.split)
qed auto

lemma map_of_modify_index: "map_of (modify_index k f m) q = (if q = k then map_option f (map_of m k) else map_of m q)"
  by (auto simp: modify_index_def split: option.split)

lemma om_invar_modify_index [simp]: "om_invar m \<Longrightarrow> om_invar (modify_index k f m)"
  by (auto simp: modify_index_def split: option.split)

lemma second_pass_spec:
  assumes "\<And>k p. (k, p) \<in> set ps \<Longrightarrow> blob_IsNull p \<or> map_of m p \<noteq> None" and "om_invar m" and "distinct (map fst ps)"
  shows "\<exists>m'. second_pass ps m = (True, m') \<and> om_invar m' \<and> (\<forall>k. map_of m' k =
    map_option (\<lambda>e. case map_of ps k of None \<Rightarrow> e | Some p \<Rightarrow> e\<lparr>pprev := if blob_IsNull p then None else Some p\<rparr>) (map_of m k))"
  using assms
proof (induction ps arbitrary: m)
  case (Cons x ps)
  obtain k p where x: "x = (k, p)" by force
  let ?m = "modify_index k (\<lambda>e. e\<lparr>pprev := if blob_IsNull p then None else Some p\<rparr>) m"
  have dom: "map_of ?m q = None \<longleftrightarrow> map_of m q = None" for q by (simp add: map_of_modify_index)
  have step: "second_pass (x # ps) m = second_pass ps ?m" using Cons.prems(1) [of k p] by (auto simp: x)
  have n: "map_of ps k = None" using Cons.prems(3) x by (simp add: map_of_eq_None_iff)
  have "\<exists>m'. second_pass ps ?m = (True, m') \<and> om_invar m' \<and> (\<forall>k. map_of m' k =
      map_option (\<lambda>e. case map_of ps k of None \<Rightarrow> e | Some p \<Rightarrow> e\<lparr>pprev := if blob_IsNull p then None else Some p\<rparr>) (map_of ?m k))"
    by (rule Cons.IH) (use Cons.prems x dom in auto)
  then show ?case unfolding step using n
    by (auto simp: x map_of_modify_index option.map_comp comp_def intro!: option.map_cong)
qed (auto simp: option.map_ident)

text \<open>The ancestor search only follows the pointers of ancestors.\<close>

lemma GetAncestor_loop_cong:
  assumes m: "index_inv m"
    and same: "\<And>x. descends (parent_of m) k x \<Longrightarrow> \<exists>e e'. map_of m x = Some e \<and> map_of m' x = Some e' \<and> pprev e' = pprev e \<and> pskip e' = pskip e"
  shows "GetAncestor_loop m' h k hw = GetAncestor_loop m h k hw"
  using same
proof (induction hw arbitrary: k rule: less_induct)
  case (less hw)
  obtain e e' where e: "map_of m k = Some e" "map_of m' k = Some e'" "pprev e' = pprev e" "pskip e' = pskip e"
    using less.prems [of k] by auto
  show ?case
  proof (cases "hw \<le> h")
    case True
    then show ?thesis by (simp add: GetAncestor_loop.simps)
  next
    case False
    have go: "GetAncestor_loop m' h q j = GetAncestor_loop m h q j" if "descends (parent_of m) k q" "j < hw" for q j
      by (rule less.IH [OF that(2)]) (use less.prems descends_trans [OF that(1)] in blast)
    have s: "GetAncestor_loop m' h q (nat (GetSkipHeight (int hw))) = GetAncestor_loop m h q (nat (GetSkipHeight (int hw)))"
      if "pskip e = Some q" for q
      by (rule go [OF index_skip(2) [OF m e(1) that]]) (use False GetSkipHeight_bounds [of "int hw"] in \<open>simp add: nat_less_iff\<close>)
    have p: "GetAncestor_loop m' h q (hw - 1) = GetAncestor_loop m h q (hw - 1)" if "pprev e = Some q" for q
      by (rule go [OF descends_parent]) (use that e(1) False in \<open>simp_all add: parent_of_Some\<close>)
    show ?thesis using False e s p
      by (subst (1 2) GetAncestor_loop.simps) (auto simp: Let_def split: option.splits)
  qed
qed

lemma GetAncestor_cong:
  assumes m: "index_inv m" "map_of m k = Some e" "map_of m' k = Some e'" "nHeight e' = nHeight e"
    and same: "\<And>x. descends (parent_of m) k x \<Longrightarrow> \<exists>e e'. map_of m x = Some e \<and> map_of m' x = Some e' \<and> pprev e' = pprev e \<and> pskip e' = pskip e"
  shows "GetAncestor m' k h = GetAncestor m k h"
  using assms(2-4) GetAncestor_loop_cong [OF m(1) same] by (simp add: GetAncestor_def height_of_def)

text \<open>What the third pass has left of an index, with the blocks in \<open>D\<close> still to come.\<close>

definition unfinished :: "blob set \<Rightarrow> block_map \<Rightarrow> block_map \<Rightarrow> bool" where
  "unfinished D m m' \<longleftrightarrow> om_invar m' \<and> (\<forall>k. map_of m' k =
     map_option (\<lambda>e. if k \<in> D then (raw_entry e)\<lparr>pprev := pprev e\<rparr> else forget_arrival e) (map_of m k))"

lemma third_pass_spec:
  assumes m: "index_inv m"
  shows "unfinished (set ks) m m' \<Longrightarrow> distinct ks \<Longrightarrow> list_all (\<lambda>k. map_of m k \<noteq> None) ks \<Longrightarrow>
    sorted_wrt (\<lambda>a b. height_of m a \<le> height_of m b) ks \<Longrightarrow>
    \<exists>m''. third_pass ks m' = Some (True, m'') \<and> unfinished {} m m''"
proof (induction ks arbitrary: m')
  case (Cons k ks)
  obtain e where e: "map_of m k = Some e" using Cons.prems(3) by auto
  let ?e = "(raw_entry e)\<lparr>pprev := pprev e\<rparr>"
  have e': "map_of m' k = Some ?e" using Cons.prems(1) e by (simp add: unfinished_def)
  have f: "nHeight ?e = nHeight e" "pprev ?e = pprev e" "index_time ?e = index_time e" by (simp_all add: raw_entry_def index_time_def)
  have low: "q \<notin> set (k # ks)" if "map_of m q \<noteq> None" "height_of m q < nHeight e" for q
    using Cons.prems(4) that e by (auto simp: height_of_Some)
  have step: "unfinished (set ks) m (om_update k (forget_arrival e) m')"
    using Cons.prems(1,2) e by (auto simp: unfinished_def)
  have go: "\<exists>m''. third_pass ks (om_update k (forget_arrival e) m') = Some (True, m'') \<and> unfinished {} m m''"
    by (rule Cons.IH [OF step]) (use Cons.prems in auto)
  show ?case
  proof (cases "pprev e")
    case None
    have ok: "entry_ok m k e" by (rule index_entry [OF m e])
    then have z: "nHeight e = 0" "?e\<lparr>nTimeMax := index_time ?e\<rparr> = forget_arrival e"
      using None f(3) by (cases e; simp add: entry_ok_def raw_entry_def forget_arrival_def)+
    show ?thesis using go e' None z f by (simp add: Let_def BuildSkip_def) (simp add: forget_arrival_def None)
  next
    case (Some p)
    obtain g where g: "map_of m p = Some g" "nHeight e = nHeight g + 1" "nTimeMax e = max (nTimeMax g) (index_time e)"
        "pskip e = anc_at (parent_of m) (height_of m) p (GetSkipHeight (nHeight e))"
      by (rule index_parent [OF m e Some])
    have g': "map_of m' p = Some (forget_arrival g)"
      using Cons.prems(1) g low [of p] by (simp add: unfinished_def height_of_Some)
    have pk: "p \<noteq> k" using g(2) e g(1) by auto
    let ?e1 = "?e\<lparr>nTimeMax := max (nTimeMax (forget_arrival g)) (index_time ?e)\<rparr>"
    have same: "\<exists>f f'. map_of m x = Some f \<and> map_of (om_update k ?e1 m') x = Some f' \<and> pprev f' = pprev f \<and> pskip f' = pskip f"
      if "descends (parent_of m) p x" for x
    proof -
      have xm: "map_of m x \<noteq> None" "height_of m x \<le> height_of m p"
        using tree.descends_member [OF m _ that] tree.descends_height [OF m _ that] g(1) by simp_all
      then obtain u where u: "map_of m x = Some u" by blast
      have "x \<notin> set (k # ks)" using low xm g(1,2) by (simp add: height_of_Some)
      then show ?thesis using u Cons.prems(1) by (simp add: unfinished_def forget_arrival_def)
    qed
    have b: "0 \<le> GetSkipHeight (nHeight e)" "GetSkipHeight (nHeight e) \<le> nHeight g"
      using GetSkipHeight_bounds [of "nHeight e"] index_height [OF m g(1)] g(2) by auto
    have "GetAncestor (om_update k ?e1 m') p (GetSkipHeight (nHeight e)) = GetAncestor m p (GetSkipHeight (nHeight e))"
      by (rule GetAncestor_cong [where e' = "forget_arrival g", OF m g(1) _ _ same]) (use g' pk in \<open>auto simp: forget_arrival_def\<close>)
    also have "\<dots> = Some (pskip e)" using GetAncestor_correct [OF m g(1)] b g(4) by simp
    finally have "BuildSkip (om_update k ?e1 m') ?e1 = Some (?e1\<lparr>pskip := pskip e\<rparr>)"
      using Some f(1) by (simp add: BuildSkip_def)
    moreover have "?e1\<lparr>pskip := pskip e\<rparr> = forget_arrival e"
      using g(3) f(3) by (cases e) (simp add: raw_entry_def forget_arrival_def)
    moreover have "0 \<le> nHeight e" by (rule index_height [OF m e])
    ultimately show ?thesis using go e' g' Some f g(2) by (simp add: Let_def forget_arrival_def)
  qed
qed (simp add: unfinished_def)

section \<open>The whole load\<close>

text \<open>The order \<open>std::sort\<close> leaves.\<close>

definition sort_ok :: "((blob \<times> CBlockIndex) list \<Rightarrow> (blob \<times> CBlockIndex) list) \<Rightarrow> bool" where
  "sort_ok f \<longleftrightarrow> (\<forall>xs. mset (f xs) = mset xs \<and> sorted_wrt (\<lambda>a b. nHeight (snd a) \<le> nHeight (snd b)) (f xs))"

definition headers_json_ok :: "headers_json \<Rightarrow> bool" where
  "headers_json_ok J \<longleftrightarrow> (\<forall>d data. hj_dump J d = Some data \<longrightarrow> hj_parse J data = Some d)"

abbreviation loaded_index :: "block_map \<Rightarrow> block_map" where
  "loaded_index m \<equiv> map (\<lambda>(k, e). (k, forget_arrival e)) m"

lemma forget_same_node: "same_node e (forget_arrival e)"
  by (simp add: same_node_def forget_arrival_def)

lemma forget_fields [simp]:
  "pprev (forget_arrival e) = pprev e" "is_failed (forget_arrival e) = is_failed e" "nHeight (forget_arrival e) = nHeight e"
  "IsValid (forget_arrival e) v = IsValid e v" "GetBlockHeader (forget_arrival e) = GetBlockHeader e"
  "bi_nBits (forget_arrival e) = bi_nBits e" "nChainWork (forget_arrival e) = nChainWork e"
  by (simp_all add: forget_arrival_def is_failed_def IsValid_def GetBlockHeader_def)

lemma loaded_sub: "index_sub m (loaded_index m)"
  using forget_same_node by (auto simp: index_sub_def map_of_map_snd)

lemma loaded_index_inv:
  assumes m: "index_inv m"
  shows "index_inv (loaded_index m)"
proof (rule index_invI)
  show "om_invar (loaded_index m)" by (rule om_invar_map_snd [OF index_om [OF m]])
  have p: "parent_of (loaded_index m) = parent_of m" "height_of (loaded_index m) = height_of m"
    by (auto simp: fun_eq_iff parent_of_def height_of_def map_of_map_snd forget_arrival_def split: option.split)
  show "entry_ok (loaded_index m) k e'" if l: "map_of (loaded_index m) k = Some e'" for k e'
  proof -
    obtain e where e: "map_of m k = Some e" "e' = forget_arrival e" using l by (auto simp: map_of_map_snd)
    show ?thesis unfolding e(2)
      by (rule entry_ok_same_map [OF p _ index_entry [OF m e(1)] forget_same_node]) (auto simp: map_of_map_snd forget_same_node)
  qed
  show "k' = k" if "map_of (loaded_index m) k = Some e" "map_of (loaded_index m) k' = Some e'" "nHeight e = 0" "nHeight e' = 0" for k e k' e'
    using that index_one_root [OF m] by (auto simp: map_of_map_snd forget_arrival_def)
qed

lemma loaded_node_inv:
  assumes i: "node_inv env st" and ix: "the_index st' = loaded_index (the_index st)"
    and s: "chain_inv (the_index st') (the_chain st')" "the_chain st' \<noteq> []" "selector_ok (the_index st') (cs_chain_selector st')"
    and o: "pool_inv (cs_orphans st')"
  shows "node_inv env st'"
proof -
  let ?m = "the_index st"
  have m: "index_inv ?m" using i by (rule node_inv_index)
  have m': "index_inv (loaded_index ?m)" by (rule loaded_index_inv [OF m])
  have r: "times_ok ?m" "bits_ok ?m (env_params env)" using i by (simp_all add: node_inv_def)
  have "times_ok (loaded_index ?m)" "bits_ok (loaded_index ?m) (env_params env)"
    by (rule rules_sub [OF m m' loaded_sub r]; simp add: map_of_map_snd)+
  moreover have "statuses_ok (loaded_index ?m)"
    unfolding statuses_ok_def list_all_iff
  proof (rule ballI)
    fix x assume "x \<in> set (loaded_index ?m)"
    then obtain k e where x: "x = (k, forget_arrival e)" and e: "map_of ?m k = Some e" by (auto simp: om_entries_iff [OF index_om [OF m]])
    have s: "statuses_ok ?m" using i by (simp add: node_inv_def)
    have "case map_option forget_arrival (map_of ?m p) of None \<Rightarrow> True | Some f \<Rightarrow> is_failed f \<longrightarrow> is_failed e" if "pprev e = Some p" for p
      using statuses_okD(2) [OF s e that] by (cases "map_of ?m p") auto
    note up = this [unfolded map_of_map_snd [symmetric]]
    show "case x of (k, e) \<Rightarrow> (is_failed e \<or> IsValid e BLOCK_VALID_TREE) \<and>
        (case pprev e of None \<Rightarrow> True | Some p \<Rightarrow> (case map_of (loaded_index ?m) p of None \<Rightarrow> True | Some f \<Rightarrow> is_failed f \<longrightarrow> is_failed e))"
      using statuses_okD(1) [OF s e] up by (cases "pprev e") (auto simp: x split: option.splits)
  qed
  moreover have "authentic (env_crypto env) (env_params env) (loaded_index ?m)"
    using i by (auto simp: node_inv_def authentic_def list_all_iff)
  ultimately show ?thesis using s o m' by (simp add: node_inv_def state_inv_selector_ok ix)
qed

lemma one_root:
  assumes m: "index_inv m" and g: "map_of m g = Some e" "nHeight e = 0"
  shows "map fst (filter (\<lambda>(k, e). pprev e = None) m) = [g]"
proof -
  let ?r = "map fst (filter (\<lambda>(k, e). pprev e = None) m)"
  have d: "distinct ?r" using om_distinct [OF index_om [OF m]] by (simp add: distinct_map_filter)
  have "set ?r = {g}"
  proof
    show "set ?r \<subseteq> {g}"
    proof
      fix k assume "k \<in> set ?r"
      then obtain f where f: "map_of m k = Some f" "pprev f = None" by (auto simp: om_entries_iff [OF index_om [OF m]])
      then have "nHeight f = 0" using index_root [OF m f(1)] by simp
      then show "k \<in> {g}" using index_one_root [OF m g(1) f(1) g(2)] by simp
    qed
    have "(g, e) \<in> set m" using g(1) om_entries_iff [OF index_om [OF m]] by simp
    moreover have "pprev e = None" using index_root [OF m g(1)] g(2) by simp
    ultimately show "{g} \<subseteq> set ?r" by force
  qed
  then show ?thesis using d by (cases ?r) (auto simp: subset_singleton_iff)
qed

lemma best_tip_spec:
  assumes "\<forall>k e. (k, e) \<in> set m \<longrightarrow> pprev e = None \<longrightarrow> k = g" and "best_tip g m (tip, w) = (tip', w')"
  shows "w \<le> w' \<and> (\<forall>k e. (k, e) \<in> set m \<longrightarrow> \<not> is_failed e \<longrightarrow> nChainWork e \<le> w') \<and>
    (tip' = tip \<and> w' = w \<or> (\<exists>k e. tip' = Some k \<and> (k, e) \<in> set m \<and> \<not> is_failed e \<and> nChainWork e = w' \<and> w < w'))"
  using assms
proof (induction m arbitrary: tip w)
  case (Cons x m)
  obtain k e where x: "x = (k, e)" by force
  have r: "\<forall>k e. (k, e) \<in> set m \<longrightarrow> pprev e = None \<longrightarrow> k = g" using Cons.prems(1) by auto
  have ke: "\<not> (pprev e = None \<and> k \<noteq> g)" using Cons.prems(1) x by auto
  show ?case
  proof (cases "\<not> is_failed e \<and> w < nChainWork e")
    case True
    then have "best_tip g m (Some k, nChainWork e) = (tip', w')" using Cons.prems(2) ke by (simp add: x is_failed_def)
    from Cons.IH [OF r this] show ?thesis using True x less_trans [of w "nChainWork e" w'] by (auto simp: order_less_imp_le)
  next
    case False
    then have "best_tip g m (tip, w) = (tip', w')" using Cons.prems(2) ke by (auto simp: x is_failed_def split: if_splits)
    from Cons.IH [OF r this] show ?thesis using False x by (auto simp: not_less)
  qed
qed simp

lemma load_leaves_spec:
  assumes "selector_ok m cs" "list_all (\<lambda>(k, e). map_of m k \<noteq> None) es"
  shows "selector_ok m (load_leaves m es cs) \<and> set (m_candidates (load_leaves m es cs)) =
    set (m_candidates cs) \<union> {k. \<exists>e. (k, e) \<in> set es \<and> \<not> has_children m k \<and> IsValid e BLOCK_VALID_TREE}"
  using assms
proof (induction m es cs rule: load_leaves.induct)
  case (2 m k e es cs)
  let ?cs = "UpdateBestHeader m (Some k) (AddCandidateUnchecked m (Some k) cs)"
  have k: "map_of m k \<noteq> None" and es: "list_all (\<lambda>(k, e). map_of m k \<noteq> None) es" using 2(4) by simp_all
  have s: "selector_ok m ?cs" using selector_ok_add [OF 2(3) k] by (simp add: selector_ok_def)
  have c: "set (m_candidates ?cs) = insert k (set (m_candidates cs))"
    by (simp add: AddCandidateUnchecked_def set_cand_insert)
  show ?case
  proof (cases "\<not> has_children m k \<and> IsValid e BLOCK_VALID_TREE")
    case True
    then show ?thesis using 2(1) [OF True s es] c by auto
  next
    case False
    then show ?thesis using 2(2) [OF False 2(3) es] by auto
  qed
qed auto

lemma best_loaded:
  assumes m: "index_inv m" and g: "map_of m g = Some ge" "nHeight ge = 0"
    and t: "map_of m t = Some e" "\<not> is_failed e" "nChainWork e \<noteq> 0"
  obtains b f where "fst (best_tip g (loaded_index m) (None, 0)) = Some b" "map_of m b = Some f" "\<not> is_failed f"
    "\<forall>k e. map_of m k = Some e \<longrightarrow> \<not> is_failed e \<longrightarrow> nChainWork e \<le> nChainWork f"
proof -
  let ?l = "loaded_index m"
  have mem: "(k, e') \<in> set ?l \<longleftrightarrow> (\<exists>e. map_of m k = Some e \<and> e' = forget_arrival e)" for k e'
    by (auto simp: om_entries_iff [OF index_om [OF m], symmetric])
  have root: "\<forall>k e'. (k, e') \<in> set ?l \<longrightarrow> pprev e' = None \<longrightarrow> k = g"
    using index_root [OF m] index_one_root [OF m g(1) _ g(2)] unfolding mem by (metis forget_fields(1))
  obtain b w where bw: "best_tip g ?l (None, 0) = (b, w)" by force
  note r = best_tip_spec [OF root bw]
  have "nChainWork e \<le> w" using r t(1,2) mem [of t "forget_arrival e"] by (metis forget_fields(2,7))
  then have "w \<noteq> 0" using t(3) by auto
  then obtain k f' where k: "b = Some k" "(k, f') \<in> set ?l" "\<not> is_failed f'" "nChainWork f' = w" using r by blast
  then obtain f where f: "map_of m k = Some f" "f' = forget_arrival f" unfolding mem by blast
  have "\<forall>q e. map_of m q = Some e \<longrightarrow> \<not> is_failed e \<longrightarrow> nChainWork e \<le> nChainWork f"
    using r k(4) f(2) mem by (metis forget_fields(2,7))
  then show thesis using that [of k f] bw k f by simp
qed

lemma load_tip_spec:
  assumes m: "index_inv m" and g: "map_of m g = Some ge" "nHeight ge = 0"
    and t: "map_of m t = Some e" "\<not> is_failed e" "nChainWork e \<noteq> 0"
    and h: "\<forall>k e. map_of m k = Some e \<longrightarrow> nHeight e \<le> 1000000"
    and bm: "m_block_index bm = loaded_index m" "m_active_chain bm = []" "m_genesis_hash bm = g"
  obtains b f where "load_tip bm = Some (True, bm\<lparr>m_active_chain := path_to m b, m_initialized := True\<rparr>)" "map_of m b = Some f" "\<not> is_failed f"
    "\<forall>k e. map_of m k = Some e \<longrightarrow> \<not> is_failed e \<longrightarrow> nChainWork e \<le> nChainWork f"
proof -
  obtain b f where b: "fst (best_tip g (loaded_index m) (None, 0)) = Some b" "map_of m b = Some f" "\<not> is_failed f"
    "\<forall>k e. map_of m k = Some e \<longrightarrow> \<not> is_failed e \<longrightarrow> nChainWork e \<le> nChainWork f"
    by (rule best_loaded [OF m g t])
  let ?l = "loaded_index m"
  have l: "index_inv ?l" by (rule loaded_index_inv [OF m])
  have bl: "map_of ?l b = Some (forget_arrival f)" using b(2) by (simp add: map_of_map_snd)
  have "SetTip ?l [] b = Some (path_to ?l b)" by (rule SetTip_path [OF l]) (simp_all add: bl chain_inv_def)
  moreover have "path_to ?l b = path_to m b" by (rule index_sub_path [OF m loaded_sub]) (simp add: b(2))
  ultimately have tip: "SetActiveTip bm b = Some (bm\<lparr>m_active_chain := path_to m b\<rparr>)" using bm by (simp add: SetActiveTip_def)
  have "fst (VerifyChainContinuity ?l (Some b) g)"
    unfolding VerifyChainContinuity_iff
  proof (intro exI [of _ "nat (nHeight f)"] conjI)
    have hb: "height_of ?l b = nHeight f" using bl by (simp add: height_of_Some)
    have "0 \<le> nHeight f" by (rule index_height [OF m b(2)])
    then show "nat (nHeight f) \<le> 1000000" "height_of ?l b = int (nat (nHeight f))" using h [rule_format, OF b(2)] hb by auto
    obtain r where r: "anc_at (parent_of ?l) (height_of ?l) b 0 = Some r" "map_of ?l r \<noteq> None" "height_of ?l r = 0"
      by (rule tree.anc_at_defined [OF l, of b 0]) (use bl hb \<open>0 \<le> nHeight f\<close> in auto)
    have gl: "map_of ?l g \<noteq> None" "height_of ?l g = 0" using g by (simp_all add: map_of_map_snd height_of_def)
    have "g = r" by (rule tree.one_root [OF l r(2) gl(1) r(3) gl(2)])
    then show "ancs (parent_of ?l) (nat (nHeight f)) b = Some g" using r(1) hb by (simp add: anc_at_def split: if_splits)
    show "parent_of ?l g = None" "height_of ?l g = 0" using tree.root_iff [OF l gl(1)] gl(2) by simp_all
  qed
  then have "load_tip bm = Some (True, bm\<lparr>m_active_chain := path_to m b, m_initialized := True\<rparr>)"
    using b(1) tip bm by (simp add: load_tip_def)
  then show thesis using that b by blast
qed

lemma length_roots: "roots m = [g] \<Longrightarrow> length (roots m) = 1 \<and> last (roots m) = g"
  by simp

text \<open>Sorting keeps the entries.\<close>

lemma sort_entries:
  assumes "sort_ok f" "distinct (map fst m)"
  shows "distinct (map fst (f m))" "set (f m) = set m" "map_of (f m) = map_of m"
    "sorted_wrt (\<lambda>a b. nHeight (snd a) \<le> nHeight (snd b)) (f m)"
proof -
  have p: "mset (f m) = mset m" "sorted_wrt (\<lambda>a b. nHeight (snd a) \<le> nHeight (snd b)) (f m)" using assms(1) by (simp_all add: sort_ok_def)
  show s: "set (f m) = set m" using p(1) by (metis set_mset_mset)
  have "mset (map fst (f m)) = mset (map fst m)" using p(1) by simp
  then show d: "distinct (map fst (f m))" using assms(2) by (metis mset_eq_imp_distinct_iff)
  show "map_of (f m) = map_of m" using map_of_inject_set [OF d assms(2)] s by blast
  show "sorted_wrt (\<lambda>a b. nHeight (snd a) \<le> nHeight (snd b)) (f m)" by (rule p(2))
qed

lemma load_connect_spec:
  assumes m: "index_inv m" and g: "map_of m g = Some ge" "nHeight ge = 0"
    and t: "map_of m t = Some e" "\<not> is_failed e" "nChainWork e \<noteq> 0"
    and h: "\<forall>k e. map_of m k = Some e \<longrightarrow> nHeight e \<le> 1000000" and null: "\<forall>k. blob_IsNull k \<longrightarrow> map_of m k = None"
    and env: "sort_ok (so_sort env)"
    and raw: "om_invar m1" "\<forall>q. map_of m1 q = map_option raw_entry (map_of m q)"
    and prevs: "om_invar prevs" "\<forall>q. map_of prevs q = map_option (\<lambda>e. hashPrevBlock (GetBlockHeader e)) (map_of m q)"
    and bm: "m_block_index bm = m1" "m_active_chain bm = []"
  obtains b f where "load_connect env g g prevs bm = Some (True, \<lparr>m_block_index = loaded_index m, m_active_chain = path_to m b,
      m_genesis_hash = g, m_initialized = True\<rparr>)" "map_of m b = Some f" "\<not> is_failed f"
    "\<forall>k e. map_of m k = Some e \<longrightarrow> \<not> is_failed e \<longrightarrow> nChainWork e \<le> nChainWork f"
proof -
  let ?conn = "\<lambda>e. (raw_entry e)\<lparr>pprev := pprev e\<rparr>"
  have parent: "(if blob_IsNull (hashPrevBlock (GetBlockHeader e)) then None else Some (hashPrevBlock (GetBlockHeader e))) = pprev e"
    if e: "map_of m k = Some e" for k e
  proof (cases "pprev e")
    case (Some p)
    obtain f where "map_of m p = Some f" by (rule index_parent [OF m e Some])
    then show ?thesis using null Some by (auto simp: GetBlockHeader_def)
  qed (simp add: GetBlockHeader_def)
  have "blob_IsNull p \<or> map_of m1 p \<noteq> None" if kp: "(k, p) \<in> set prevs" for k p
  proof -
    obtain e where e: "map_of m k = Some e" "p = hashPrevBlock (GetBlockHeader e)"
      using kp prevs by (auto simp: om_entries_iff)
    show ?thesis
    proof (cases "pprev e")
      case (Some q)
      obtain f where "map_of m q = Some f" by (rule index_parent [OF m e(1) Some])
      then show ?thesis using Some e(2) raw(2) by (simp add: GetBlockHeader_def)
    qed (simp add: e(2) GetBlockHeader_def)
  qed
  then obtain m2 where m2: "second_pass prevs m1 = (True, m2)" "om_invar m2" "\<forall>k. map_of m2 k =
      map_option (\<lambda>e. case map_of prevs k of None \<Rightarrow> e | Some p \<Rightarrow> e\<lparr>pprev := if blob_IsNull p then None else Some p\<rparr>) (map_of m1 k)"
    using second_pass_spec [of prevs m1] raw(1) om_distinct [OF prevs(1)] by blast
  have c: "map_of m2 k = map_option ?conn (map_of m k)" for k
    using m2(3) [rule_format, of k] raw(2) prevs(2) parent [of k] by (cases "map_of m k") auto
  have l2: "m2 = map (\<lambda>(k, e). (k, ?conn e)) m"
    by (rule om_ext [OF m2(2) om_invar_map_snd [OF index_om [OF m]]]) (simp add: fun_eq_iff c map_of_map_snd)
  have "roots m2 = [g]"
    using one_root [OF m g] by (simp add: roots_def l2 filter_map comp_def case_prod_unfold)
  note r = length_roots [OF this]
  let ?ks = "map fst (so_sort env m2)"
  note so = sort_entries [OF env om_distinct [OF m2(2)]]
  have hc: "height_of m k = nHeight e" if "(k, e) \<in> set m2" for k e
    using that by (auto simp: om_entries_iff [OF m2(2)] c height_of_def raw_entry_def)
  have "sorted_wrt (\<lambda>a b. height_of m (fst a) \<le> height_of m (fst b)) (so_sort env m2)"
    using sorted_wrt_mono_rel [OF _ so(4), of "\<lambda>a b. height_of m (fst a) \<le> height_of m (fst b)"] hc so(2) by auto
  then have sorted: "sorted_wrt (\<lambda>a b. height_of m a \<le> height_of m b) ?ks" by (simp add: sorted_wrt_map)
  have dom: "set ?ks = {k. map_of m k \<noteq> None}"
    by (simp add: so(2) dom_map_of_conv_image_fst [symmetric] dom_def c)
  have known: "list_all (\<lambda>k. map_of m k \<noteq> None) ?ks" unfolding list_all_iff dom by simp
  have "unfinished (set ?ks) m m2" unfolding unfinished_def dom c using m2(2) by (auto intro!: option.map_cong)
  then obtain m3 where m3: "third_pass ?ks m2 = Some (True, m3)" "unfinished {} m m3"
    using third_pass_spec [OF m _ so(1) known sorted] by blast
  have l3: "m3 = loaded_index m"
    by (rule om_ext [OF _ om_invar_map_snd [OF index_om [OF m]]]) (use m3(2) in \<open>auto simp: unfinished_def fun_eq_iff map_of_map_snd\<close>)
  obtain b f where b: "load_tip (bm\<lparr>m_block_index := loaded_index m, m_genesis_hash := g\<rparr>) =
      Some (True, bm\<lparr>m_block_index := loaded_index m, m_genesis_hash := g, m_active_chain := path_to m b, m_initialized := True\<rparr>)"
      "map_of m b = Some f" "\<not> is_failed f" "\<forall>k e. map_of m k = Some e \<longrightarrow> \<not> is_failed e \<longrightarrow> nChainWork e \<le> nChainWork f"
    by (rule load_tip_spec [OF m g t h, of "bm\<lparr>m_block_index := loaded_index m, m_genesis_hash := g\<rparr>"]) (use bm in simp_all)
  have "load_connect env g g prevs bm = Some (True, bm\<lparr>m_block_index := loaded_index m, m_genesis_hash := g, m_active_chain := path_to m b, m_initialized := True\<rparr>)"
    using b(1) r m2(1) m3(1) bm l3 by (simp add: load_connect_def Let_def)
  then have "load_connect env g g prevs bm = Some (True, \<lparr>m_block_index = loaded_index m, m_active_chain = path_to m b,
      m_genesis_hash = g, m_initialized = True\<rparr>)" by (cases bm) simp
  from that [OF this b(2-4)] show thesis .
qed

section \<open>Arbitrary files\<close>

text \<open>What the first pass guarantees of any file it accepts.\<close>

definition from_header :: "crypto \<Rightarrow> (blob, blob) std_map \<Rightarrow> blob \<Rightarrow> CBlockIndex \<Rightarrow> bool" where
  "from_header cr prevs k e \<longleftrightarrow> (\<exists>header h w s. header_hash cr header = k \<and> length (hashPrevBlock header) = 32 \<and>
     map_of prevs k = Some (hashPrevBlock header) \<and> e = (new_block_index header)\<lparr>nHeight := h, nChainWork := w, nStatus := s\<rparr>)"

lemma from_header_other: "k \<noteq> q \<Longrightarrow> from_header cr (om_update q p prevs) k e = from_header cr prevs k e"
  by (simp add: from_header_def)

lemma first_pass_sound:
  assumes "first_pass cr ds m prevs = (Done, m', prevs')" "om_invar m" "om_invar prevs" "\<forall>k e. map_of m k = Some e \<longrightarrow> from_header cr prevs k e"
  shows "om_invar m' \<and> om_invar prevs' \<and> (\<forall>k e. map_of m' k = Some e \<longrightarrow> from_header cr prevs' k e)"
  using assms
proof (induction cr ds m prevs rule: first_pass.induct)
  case (2 cr d ds m prevs)
  obtain k header where r: "read_header d = Some (k, header)" "header_hash cr header = k" "map_of m k = None"
    using 2(2) by (auto split: if_splits option.splits)
  obtain h w s where md: "read_metadata d = Some (h, w, s)" using 2(2) r by (auto split: if_splits option.splits)
  have mf: "\<not> missing_field d" using 2(2) by (auto split: if_splits)
  have len: "length (hashPrevBlock header) = 32" using r(1) by (auto simp: read_header_def split: option.splits)
  let ?e = "(new_block_index header)\<lparr>nHeight := h, nChainWork := w, nStatus := s\<rparr>"
  have go: "first_pass cr ds (om_update k ?e m) (om_update k (hashPrevBlock header) prevs) = (Done, m', prevs')"
    using 2(2) r md mf by simp
  have new: "from_header cr (om_update k (hashPrevBlock header) prevs) k ?e"
    unfolding from_header_def using r(2) len by (intro exI [of _ header] exI [of _ h] exI [of _ w] exI [of _ s]) simp
  have "\<forall>q e. map_of (om_update k ?e m) q = Some e \<longrightarrow> from_header cr (om_update k (hashPrevBlock header) prevs) q e"
    using new 2(5) by (simp add: from_header_other)
  then show ?case using 2(1) [OF mf r(1) refl _ _ md refl refl go] 2(3,4) r by simp
qed simp

lemma second_pass_sound:
  assumes "second_pass ps m = (True, m')" "om_invar m" "distinct (map fst ps)"
  shows "om_invar m' \<and> (\<forall>k. map_of m' k =
    map_option (\<lambda>e. case map_of ps k of None \<Rightarrow> e | Some p \<Rightarrow> e\<lparr>pprev := if blob_IsNull p then None else Some p\<rparr>) (map_of m k)) \<and>
    (\<forall>(k, p) \<in> set ps. blob_IsNull p \<or> map_of m p \<noteq> None)"
  using assms
proof (induction ps arbitrary: m)
  case (Cons x ps)
  obtain k p where x: "x = (k, p)" by force
  let ?m = "modify_index k (\<lambda>e. e\<lparr>pprev := if blob_IsNull p then None else Some p\<rparr>) m"
  have dom: "map_of ?m q = None \<longleftrightarrow> map_of m q = None" for q by (simp add: map_of_modify_index)
  have p: "blob_IsNull p \<or> map_of m p \<noteq> None" using Cons.prems(1) by (auto simp: x split: if_splits option.splits)
  have step: "second_pass ps ?m = (True, m')" using Cons.prems(1) p by (auto simp: x split: if_splits)
  have n: "map_of ps k = None" using Cons.prems(3) x by (simp add: map_of_eq_None_iff)
  have IH: "om_invar m'" "\<And>k. map_of m' k =
      map_option (\<lambda>e. case map_of ps k of None \<Rightarrow> e | Some p \<Rightarrow> e\<lparr>pprev := if blob_IsNull p then None else Some p\<rparr>) (map_of ?m k)"
      "\<forall>(k, p) \<in> set ps. blob_IsNull p \<or> map_of m p \<noteq> None"
    using Cons.IH [OF step] Cons.prems(2,3) x unfolding dom by simp_all
  have "map_of m' q = map_option (\<lambda>e. case map_of (x # ps) q of None \<Rightarrow> e | Some p \<Rightarrow> e\<lparr>pprev := if blob_IsNull p then None else Some p\<rparr>) (map_of m q)" for q
    using n by (auto simp: IH(2) x map_of_modify_index option.map_comp comp_def intro!: option.map_cong)
  then show ?case using IH(1,3) p x by simp
qed (auto simp: option.map_ident)

text \<open>The third pass checks the height of every block it visits and changes only \<open>nTimeMax\<close> and the skip pointer.\<close>

definition linked :: "block_map \<Rightarrow> CBlockIndex \<Rightarrow> bool" where
  "linked m e \<longleftrightarrow> 0 \<le> nHeight e \<and> (case pprev e of None \<Rightarrow> nHeight e = 0
     | Some p \<Rightarrow> (case map_of m p of None \<Rightarrow> False | Some f \<Rightarrow> nHeight e = nHeight f + 1))"

definition same_but_skip :: "CBlockIndex \<Rightarrow> CBlockIndex \<Rightarrow> bool" where
  "same_but_skip e e' \<longleftrightarrow> e' = e\<lparr>nTimeMax := nTimeMax e', pskip := pskip e'\<rparr>"

lemma same_but_skip_fields:
  assumes "same_but_skip e e'"
  shows "pprev e' = pprev e" "nHeight e' = nHeight e" "GetBlockHeader e' = GetBlockHeader e"
  using assms by (cases e, cases e', simp add: same_but_skip_def GetBlockHeader_def)+

lemma same_but_skip_trans: "same_but_skip a b \<Longrightarrow> same_but_skip b c \<Longrightarrow> same_but_skip a c"
  by (cases a; cases b; cases c) (simp add: same_but_skip_def)

lemma rel_skip_trans: "rel_option same_but_skip a b \<Longrightarrow> rel_option same_but_skip b c \<Longrightarrow> rel_option same_but_skip a c"
  by (cases a; cases b; cases c) (auto intro: same_but_skip_trans)

lemma linked_same:
  assumes "\<forall>k. rel_option same_but_skip (map_of m k) (map_of m' k)" "same_but_skip e e'"
  shows "linked m' e' = linked m e"
proof -
  have "(case map_of m' p of None \<Rightarrow> False | Some f \<Rightarrow> h = nHeight f + 1) = (case map_of m p of None \<Rightarrow> False | Some f \<Rightarrow> h = nHeight f + 1)" for h p
    using assms(1) [rule_format, of p] same_but_skip_fields(2) by (cases "map_of m p"; cases "map_of m' p") auto
  then show ?thesis unfolding linked_def same_but_skip_fields(1,2) [OF assms(2)] by (cases "pprev e") simp_all
qed

lemma third_pass_sound:
  "third_pass ks m = Some (True, m') \<Longrightarrow> om_invar m \<Longrightarrow>
    om_invar m' \<and> (\<forall>k. rel_option same_but_skip (map_of m k) (map_of m' k)) \<and> (\<forall>k \<in> set ks. \<exists>e. map_of m k = Some e \<and> linked m e)"
proof (induction ks arbitrary: m)
  case Nil
  have "rel_option same_but_skip x x" for x by (cases x) (simp_all add: same_but_skip_def)
  then show ?case using Nil by simp
next
  case (Cons k ks)
  obtain e where e: "map_of m k = Some e" "0 \<le> nHeight e" using Cons.prems(1) by (auto split: option.splits if_splits)
  have "\<exists>e1. third_pass ks (om_update k e1 m) = Some (True, m') \<and> same_but_skip e e1 \<and> linked m e"
  proof (cases "pprev e")
    case None
    then show ?thesis using Cons.prems(1) e
      by (auto simp: Let_def linked_def BuildSkip_def same_but_skip_def split: if_splits)
  next
    case (Some p)
    obtain f where f: "map_of m p = Some f" "nHeight f + 1 = nHeight e"
      using Cons.prems(1) e Some by (auto split: option.splits if_splits)
    let ?e = "e\<lparr>nTimeMax := max (nTimeMax f) (index_time e)\<rparr>"
    obtain e1 where e1: "BuildSkip (om_update k ?e m) ?e = Some e1" "third_pass ks (om_update k e1 m) = Some (True, m')"
      using Cons.prems(1) e f Some by (auto simp: Let_def split: option.splits)
    have "same_but_skip e e1" using e1(1) Some by (auto simp: BuildSkip_def same_but_skip_def)
    then show ?thesis using e1(2) e(2) f Some by (auto simp: linked_def)
  qed
  then obtain e1 where e1: "third_pass ks (om_update k e1 m) = Some (True, m')" "same_but_skip e e1" "linked m e" by blast
  let ?m = "om_update k e1 m"
  have "rel_option same_but_skip x x" for x by (cases x) (simp_all add: same_but_skip_def)
  then have one: "\<forall>q. rel_option same_but_skip (map_of m q) (map_of ?m q)" using e(1) e1(2) by simp
  have IH: "om_invar m'" "\<forall>q. rel_option same_but_skip (map_of ?m q) (map_of m' q)" "\<forall>q \<in> set ks. \<exists>e. map_of ?m q = Some e \<and> linked ?m e"
    using Cons.IH [OF e1(1)] Cons.prems(2) by simp_all
  have "rel_option same_but_skip (map_of m q) (map_of m' q)" for q
    by (rule rel_skip_trans [OF one [rule_format] IH(2) [rule_format]])
  moreover have "\<exists>e. map_of m q = Some e \<and> linked m e" if q: "q \<in> set ks" for q
  proof -
    obtain f where f: "map_of ?m q = Some f" "linked ?m f" using IH(3) q by blast
    obtain g where g: "map_of m q = Some g" "same_but_skip g f"
      using one [rule_format, of q] f(1) by (cases "map_of m q") (auto simp del: map_of_om_update)
    then show ?thesis using linked_same [OF one g(2)] f(2) by simp
  qed
  ultimately show ?case using IH(1) e(1) e1(3) by simp
qed

section \<open>Properties\<close>

definition genesis_is :: "chainstate \<Rightarrow> blob \<Rightarrow> bool" where
  "genesis_is st g \<longleftrightarrow> m_genesis_hash (cs_block_manager st) = g \<and>
     (case map_of (the_index st) g of None \<Rightarrow> False | Some e \<Rightarrow> nHeight e = 0)"

lemma case_of_empty: "(case x of None \<Rightarrow> map_of [] q | Some e \<Rightarrow> Some (f e)) = map_option f x"
  by (cases x) simp_all

lemma saved_headers_load:
  assumes inv: "node_inv (mk_env cr params now td) st" and tip: "tip_ok st" "GetTip st = Some t" "work_of (the_index st) t \<noteq> 0"
    and typed: "index_typed (the_index st)" and height: "\<forall>k e. map_of (the_index st) k = Some e \<longrightarrow> nHeight e \<le> 1000000"
    and null: "\<forall>k. blob_IsNull k \<longrightarrow> map_of (the_index st) k = None" and gen: "genesis_is st g"
    and lib: "sort_ok (so_sort env)" "headers_json_ok (so_json env)"
    and io: "hj_dump (so_json env) (headers_document env (cs_block_manager st)) = Some data"
  obtains b f where "bm_Load cr env path g (disk(path := Some data)) BlockManager =
      Some (True, \<lparr>m_block_index = loaded_index (the_index st), m_active_chain = path_to (the_index st) b,
        m_genesis_hash = g, m_initialized = True\<rparr>)" "map_of (the_index st) b = Some f" "\<not> is_failed f"
      "\<forall>k e. map_of (the_index st) k = Some e \<longrightarrow> \<not> is_failed e \<longrightarrow> nChainWork e \<le> nChainWork f"
proof -
  let ?m = "the_index st"
  have m: "index_inv ?m" using inv by (rule node_inv_index)
  obtain e where e: "map_of ?m t = Some e" "\<not> is_failed e" "nChainWork e \<noteq> 0"
    using tip by (auto simp: tip_ok_def work_of_def split: option.splits)
  obtain ge where ge: "map_of ?m g = Some ge" "nHeight ge = 0" using gen by (auto simp: genesis_is_def split: option.splits)
  have auth: "entry_typed k e \<and> header_hash cr (GetBlockHeader e) = k" if "(k, e) \<in> set (so_sort env ?m)" for k e
    using that inv typed sort_entries(2) [OF lib(1) om_distinct [OF index_om [OF m]]]
    by (auto simp: node_inv_def authentic_def index_typed_def list_all_iff)
  note so = sort_entries [OF lib(1) om_distinct [OF index_om [OF m]]]
  obtain m1 prevs where p1: "first_pass cr (map block_data (so_sort env ?m)) [] [] = (Done, m1, prevs)" "om_invar m1" "om_invar prevs"
      "\<forall>q. map_of m1 q = map_option raw_entry (map_of ?m q)"
      "\<forall>q. map_of prevs q = map_option (\<lambda>e. hashPrevBlock (GetBlockHeader e)) (map_of ?m q)"
    using first_pass_spec [of "so_sort env ?m" cr "[]" "[]", OF auth so(1)] unfolding so(3) case_of_empty
    by (auto simp: om_invar_def)
  let ?bm = "\<lparr>m_block_index = m1, m_active_chain = [], m_genesis_hash = blob_SetNull 32, m_initialized = False\<rparr>"
  obtain b f where b: "load_connect env g g prevs ?bm = Some (True, \<lparr>m_block_index = loaded_index ?m, m_active_chain = path_to ?m b,
      m_genesis_hash = g, m_initialized = True\<rparr>)" "map_of ?m b = Some f" "\<not> is_failed f"
      "\<forall>k e. map_of ?m k = Some e \<longrightarrow> \<not> is_failed e \<longrightarrow> nChainWork e \<le> nChainWork f"
    by (rule load_connect_spec [OF m ge e height null lib(1) p1(2,4,3,5), of ?bm]) simp_all
  have doc: "hj_parse (so_json env) data = Some (headers_document env (cs_block_manager st))" using lib(2) io by (simp add: headers_json_ok_def)
  have "is_uint256 g" using typed ge(1) by (auto simp: index_typed_def list_all_iff entry_typed_def dest!: map_of_SomeD)
  then have gh: "SetHex 32 (GetHex (m_genesis_hash (cs_block_manager st))) = g"
    using gen by (simp add: genesis_is_def is_uint256_def SetHex_GetHex)
  have "bm_Load cr env path g (disk(path := Some data)) BlockManager = Some (True, \<lparr>m_block_index = loaded_index ?m,
      m_active_chain = path_to ?m b, m_genesis_hash = g, m_initialized = True\<rparr>)"
    using doc gh p1(1) b(1) by (simp add: bm_Load_def headers_document_def value_or_def Let_def BlockManager_def)
  then show thesis using b(2-4) by (rule that)
qed

text \<open>
  \<^bold>\<open>C27.\<close> The headers survive a restart.  Take a node in a well-formed state with no block above height 1,000,000 (the loader walks no
  further back from the tip) and a tip of non-zero work, whose stream opens and whose bytes all reach the disk.  With a JSON library that reads
  back what it prints and a sort that orders by height, a new node loads what it saved: the load succeeds, the index is the same up to the time of arrival, with parents, skip
  pointers, heights, work and statuses; the active chain ends in a block that is not failed and has the most work among
  those that are not; the candidates are exactly the valid leaves; and the new state is well-formed again.
\<close>

theorem headers_survive_restart:
  assumes inv: "node_inv (mk_env cr params now td) st" and tip: "tip_ok st" "GetTip st = Some t" "work_of (the_index st) t \<noteq> 0"
    and typed: "index_typed (the_index st)" and height: "\<forall>k e. map_of (the_index st) k = Some e \<longrightarrow> nHeight e \<le> 1000000"
    and null: "\<forall>k. blob_IsNull k \<longrightarrow> map_of (the_index st) k = None" and gen: "genesis_is st (hashGenesisBlock (consensus params))"
    and lib: "sort_ok (so_sort env)" "headers_json_ok (so_json env)"
    and io: "so_open env" "hj_dump (so_json env) (headers_document env (cs_block_manager st)) = Some data" "length data \<le> so_written env"
  shows "\<exists>disk' st' b. cs_Save env path st disk = (True, disk') \<and>
    cs_Load cr params env path disk' (ChainstateManager params) = Some (True, st') \<and>
    the_index st' = map (\<lambda>(k, e). (k, e\<lparr>nTimeReceived := 0\<rparr>)) (the_index st) \<and>
    GetTip st' = Some b \<and> the_chain st' = path_to (the_index st) b \<and>
    (\<forall>k e. map_of (the_index st) k = Some e \<longrightarrow> \<not> is_failed e \<longrightarrow> nChainWork e \<le> work_of (the_index st) b) \<and>
    set (m_candidates (cs_chain_selector st')) =
      {k. \<exists>e. map_of (the_index st) k = Some e \<and> \<not> has_children (the_index st) k \<and> IsValid e BLOCK_VALID_TREE} \<and>
    node_inv (mk_env cr params now td) st' \<and> tip_ok st'"
proof -
  let ?m = "the_index st" and ?g = "hashGenesisBlock (consensus params)" and ?disk = "disk(path := Some data)"
  have m: "index_inv ?m" using inv by (rule node_inv_index)
  have save: "cs_Save env path st disk = (True, ?disk)" using io by (simp add: cs_Save_def bm_Save_def)
  obtain b f where load: "bm_Load cr env path ?g ?disk BlockManager = Some (True, \<lparr>m_block_index = loaded_index ?m,
      m_active_chain = path_to ?m b, m_genesis_hash = ?g, m_initialized = True\<rparr>)"
    and b: "map_of ?m b = Some f" "\<not> is_failed f" "\<forall>k e. map_of ?m k = Some e \<longrightarrow> \<not> is_failed e \<longrightarrow> nChainWork e \<le> nChainWork f"
    by (rule saved_headers_load [OF inv tip typed height null gen lib io(2)])
  let ?cs = "load_leaves (loaded_index ?m) (loaded_index ?m) (SetBestHeader None (ClearCandidates ChainSelector))"
  define st' where "st' = (ChainstateManager params)\<lparr>cs_block_manager := \<lparr>m_block_index = loaded_index ?m, m_active_chain = path_to ?m b,
      m_genesis_hash = ?g, m_initialized = True\<rparr>, cs_chain_selector := ?cs\<rparr>"
  have l: "cs_Load cr params env path ?disk (ChainstateManager params) = Some (True, st')"
    using load by (simp add: cs_Load_def ChainstateManager_def st'_def)
  have known: "list_all (\<lambda>(k, e). map_of (loaded_index ?m) k \<noteq> None) (loaded_index ?m)"
    by (auto simp: list_all_iff map_of_map_snd om_entries_iff [OF index_om [OF m]])
  have empty: "selector_ok (loaded_index ?m) (SetBestHeader None (ClearCandidates ChainSelector))"
      "m_candidates (SetBestHeader None (ClearCandidates ChainSelector)) = []"
    by (simp_all add: selector_ok_def SetBestHeader_def ClearCandidates_def cands_ok_def)
  have sel: "selector_ok (loaded_index ?m) ?cs" "set (m_candidates ?cs) =
      {k. \<exists>e. (k, e) \<in> set (loaded_index ?m) \<and> \<not> has_children (loaded_index ?m) k \<and> IsValid e BLOCK_VALID_TREE}"
    using load_leaves_spec [OF empty(1) known] unfolding empty(2) by auto
  have ch: "has_children (loaded_index ?m) k = has_children ?m k" for k by (simp add: has_children_def list_ex_iff case_prod_unfold)
  have bl: "map_of (loaded_index ?m) b = Some (forget_arrival f)" using b(1) by (simp add: map_of_map_snd)
  have path: "path_to ?m b = path_to (loaded_index ?m) b" by (rule index_sub_path [OF m loaded_sub, symmetric]) (simp add: b(1))
  have top: "chain_Tip (path_to ?m b) = Some b" by (rule path_to_tip) (use index_height [OF m b(1)] b(1) in \<open>simp add: height_of_Some\<close>)
  have chain: "chain_inv (loaded_index ?m) (path_to ?m b)" unfolding path
    by (rule chain_inv_path [OF loaded_index_inv [OF m]]) (simp add: bl)
  have ix: "the_index st' = loaded_index ?m" "the_chain st' = path_to ?m b" "cs_chain_selector st' = ?cs" "cs_orphans st' = empty_pool"
    by (simp_all add: st'_def ChainstateManager_def)
  have ne: "path_to ?m b \<noteq> []" using length_path_to [of ?m b] by force
  have "node_inv (mk_env cr params now td) st'"
    by (rule loaded_node_inv [OF inv ix(1)]; unfold ix; fact chain ne sel(1) empty_pool_inv)
  moreover have tip': "GetTip st' = Some b" using top ix(2) by (simp add: GetTip_def bm_GetTip_def)
  moreover have "tip_ok st'" using tip' bl b(2) unfolding tip_ok_def ix(1) by simp
  moreover have "set (m_candidates (cs_chain_selector st')) =
      {k. \<exists>e. map_of ?m k = Some e \<and> \<not> has_children ?m k \<and> IsValid e BLOCK_VALID_TREE}"
  proof -
    have mem: "(k, e') \<in> set (loaded_index ?m) \<longleftrightarrow> (\<exists>e. map_of ?m k = Some e \<and> e' = forget_arrival e)" for k e'
      by (auto simp: om_entries_iff [OF index_om [OF m], symmetric])
    show ?thesis unfolding ix(3) sel(2) ch mem by (auto simp only: forget_fields(4))
  qed
  moreover have "the_index st' = map (\<lambda>(k, e). (k, e\<lparr>nTimeReceived := 0\<rparr>)) ?m" unfolding ix(1) forget_arrival_def ..
  moreover have "\<forall>k e. map_of ?m k = Some e \<longrightarrow> \<not> is_failed e \<longrightarrow> nChainWork e \<le> work_of ?m b" using b(1,3) by (simp add: work_of_def)
  ultimately show ?thesis using save l ix(2) by blast
qed

lemma roots_eq:
  assumes "om_invar a" "om_invar b" "\<forall>k. rel_option same_but_skip (map_of a k) (map_of b k)"
  shows "roots b = roots a"
proof -
  have srt: "sorted_wrt (<) (roots m)" if "om_invar m" for m
    using that by (simp add: roots_def om_invar_def sorted_wrt_map sorted_wrt_filter)
  have mem: "k \<in> set (roots m) \<longleftrightarrow> (\<exists>e. map_of m k = Some e \<and> pprev e = None)" if "om_invar m" for m k
    by (auto simp: roots_def om_entries_iff [OF that] image_iff)
  have "set (roots b) = set (roots a)"
  proof (rule set_eqI)
    fix k show "k \<in> set (roots b) \<longleftrightarrow> k \<in> set (roots a)"
      using assms(3) [rule_format, of k] same_but_skip_fields(1) unfolding mem [OF assms(1)] mem [OF assms(2)]
      by (cases "map_of a k"; cases "map_of b k") auto
  qed
  then show ?thesis using srt [OF assms(1)] srt [OF assms(2)] by (metis strict_sorted_iff sorted_distinct_set_unique)
qed

lemma load_tip_sound:
  assumes "load_tip bm = Some (True, bm')" "om_invar (m_block_index bm)" "roots (m_block_index bm) = [m_genesis_hash bm]"
  obtains t e n where "m_block_index bm' = m_block_index bm" "m_genesis_hash bm' = m_genesis_hash bm" "m_initialized bm'"
    "map_of (m_block_index bm) t = Some e" "\<not> is_failed e"
    "\<forall>k f. map_of (m_block_index bm) k = Some f \<longrightarrow> \<not> is_failed f \<longrightarrow> nChainWork f \<le> nChainWork e"
    "n \<le> 1000000" "nHeight e = int n" "ancs (parent_of (m_block_index bm)) n t = Some (m_genesis_hash bm)"
proof -
  let ?m = "m_block_index bm" and ?g = "m_genesis_hash bm"
  have root: "\<forall>k e. (k, e) \<in> set ?m \<longrightarrow> pprev e = None \<longrightarrow> k = ?g"
  proof (intro allI impI)
    fix k e assume "(k, e) \<in> set ?m" "pprev e = None"
    then have "k \<in> set (roots ?m)" by (force simp: roots_def)
    then show "k = ?g" using assms(3) by simp
  qed
  obtain tip w where bw: "best_tip ?g ?m (None, 0) = (tip, w)" by force
  obtain t v where t: "tip = Some t" "SetTip ?m (m_active_chain bm) t = Some v" "fst (VerifyChainContinuity ?m (Some t) ?g)"
      "bm' = bm\<lparr>m_active_chain := v, m_initialized := True\<rparr>"
    using assms(1) bw by (auto simp: load_tip_def SetActiveTip_def split: option.splits if_splits)
  note b = best_tip_spec [OF root bw]
  obtain e where e: "(t, e) \<in> set ?m" "\<not> is_failed e" "nChainWork e = w" using b t(1) by auto
  have em: "map_of ?m t = Some e" using e(1) om_entries_iff [OF assms(2)] by simp
  obtain n where n: "n \<le> 1000000" "ancs (parent_of ?m) n t = Some ?g" "height_of ?m t = int n"
    using t(3) unfolding VerifyChainContinuity_iff by blast
  have "\<forall>k f. map_of ?m k = Some f \<longrightarrow> \<not> is_failed f \<longrightarrow> nChainWork f \<le> nChainWork e"
    using conjunct1 [OF conjunct2 [OF b]] unfolding om_entries_iff [OF assms(2)] e(3) .
  then show thesis using that [of t e n] t(4) em e(2) n by (simp add: height_of_Some)
qed

text \<open>
  \<^bold>\<open>C39.\<close> No file can smuggle a foreign block into the index.  Whatever the file contains, when loading it succeeds, every
  entry is stored under the hash of its header, there is exactly one block without a parent, the genesis block of the
  network, every other block has its parent in the index one height below, and the active chain runs to a tip that is not failed.
\<close>

theorem load_sound:
  assumes "bm_Load cr env path g disk bm = Some (True, bm')" and "sort_ok (so_sort env)"
  shows "m_genesis_hash bm' = g \<and> m_initialized bm' \<and> roots (m_block_index bm') = [g] \<and>
    (\<forall>k e. map_of (m_block_index bm') k = Some e \<longrightarrow> header_hash cr (GetBlockHeader e) = k \<and> linked (m_block_index bm') e) \<and>
    (\<exists>t e. map_of (m_block_index bm') t = Some e \<and> \<not> is_failed e \<and>
       (\<forall>k f. map_of (m_block_index bm') k = Some f \<longrightarrow> \<not> is_failed f \<longrightarrow> nChainWork f \<le> nChainWork e) \<and>
       (\<exists>n \<le> 1000000. nHeight e = int n \<and> ancs (parent_of (m_block_index bm')) n t = Some g))"
proof -
  obtain blocks m1 prevs where r: "first_pass cr blocks [] [] = (Done, m1, prevs)"
      "load_connect env g g prevs (bm\<lparr>m_active_chain := [], m_block_index := m1\<rparr>) = Some (True, bm')"
    using assms(1) by (auto simp: bm_Load_def Let_def split: option.splits if_splits json_field.splits load_step.splits prod.splits)
  have p1: "om_invar m1" "om_invar prevs" "\<forall>k e. map_of m1 k = Some e \<longrightarrow> from_header cr prevs k e"
    using first_pass_sound [OF r(1)] by (simp_all add: om_invar_def)
  obtain m2 m3 where c: "second_pass prevs m1 = (True, m2)" "roots m2 = [g]" "third_pass (map fst (so_sort env m2)) m2 = Some (True, m3)"
      "load_tip (bm\<lparr>m_active_chain := [], m_block_index := m3, m_genesis_hash := g\<rparr>) = Some (True, bm')"
    using r(2) by (auto simp: load_connect_def Let_def length_Suc_conv split: prod.splits if_splits option.splits)
  have p2: "om_invar m2" "\<And>k. map_of m2 k = map_option (\<lambda>e. case map_of prevs k of None \<Rightarrow> e
      | Some p \<Rightarrow> e\<lparr>pprev := if blob_IsNull p then None else Some p\<rparr>) (map_of m1 k)"
    using second_pass_sound [OF c(1) p1(1) om_distinct [OF p1(2)]] by blast+
  note so = sort_entries [OF assms(2) om_distinct [OF p2(1)]]
  have p3: "om_invar m3" "\<forall>k. rel_option same_but_skip (map_of m2 k) (map_of m3 k)"
      "\<forall>k \<in> set (map fst (so_sort env m2)). \<exists>e. map_of m2 k = Some e \<and> linked m2 e"
    using third_pass_sound [OF c(3) p2(1)] by blast+
  have auth: "header_hash cr (GetBlockHeader e) = k \<and> linked m3 e" if k: "map_of m3 k = Some e" for k e
  proof -
    obtain e2 where e2: "map_of m2 k = Some e2" "same_but_skip e2 e" using p3(2) [rule_format, of k] k by (cases "map_of m2 k") auto
    then obtain e1 where e1: "map_of m1 k = Some e1" using p2(2) [of k] by (cases "map_of m1 k") auto
    obtain header h w s where hd: "header_hash cr header = k" "length (hashPrevBlock header) = 32" "map_of prevs k = Some (hashPrevBlock header)"
        "e1 = (new_block_index header)\<lparr>nHeight := h, nChainWork := w, nStatus := s\<rparr>"
      using p1(3) e1 unfolding from_header_def by blast
    have "GetBlockHeader e2 = header"
      using p2(2) [of k] e1 e2(1) hd by (auto simp: GetBlockHeader_def new_block_index_def blob_IsNull_iff blob_SetNull_def)
    moreover have "linked m2 e2"
    proof -
      have "k \<in> set (map fst (so_sort env m2))" using e2(1) so(2) om_entries_iff [OF p2(1)] by force
      then show ?thesis using p3(3) e2(1) by fastforce
    qed
    ultimately show ?thesis using hd(1) same_but_skip_fields(3) [OF e2(2)] linked_same [OF p3(2) e2(2)] by simp
  qed
  have rt: "roots m3 = [g]" using roots_eq [OF p2(1) p3(1,2)] c(2) by simp
  obtain t e n where l: "m_block_index bm' = m3" "m_genesis_hash bm' = g" "m_initialized bm'" "map_of m3 t = Some e" "\<not> is_failed e"
      "\<forall>k f. map_of m3 k = Some f \<longrightarrow> \<not> is_failed f \<longrightarrow> nChainWork f \<le> nChainWork e"
      "n \<le> 1000000" "nHeight e = int n" "ancs (parent_of m3) n t = Some g"
    by (rule load_tip_sound [OF c(4)]) (use p3(1) rt in simp_all)
  show ?thesis unfolding l(1,2) using rt auth l(3-9) by blast
qed

section \<open>A node that restarts\<close>

text \<open>A hash function with values of the right size, and a network whose genesis block has that hash.\<close>

definition disk_crypto :: crypto where
  "disk_crypto = sample_crypto\<lparr>header_hash := \<lambda>h. ucast (nNonce h) # replicate 31 0\<rparr>"

definition disk_genesis :: CBlockHeader where
  "disk_genesis = sample_header (blob_SetNull 32) 100 9"

definition disk_hash :: blob where
  "disk_hash = 9 # replicate 31 0"

definition disk_params :: ChainParams where
  "disk_params = sample_params\<lparr>consensus := (consensus sample_params)\<lparr>hashGenesisBlock := disk_hash\<rparr>\<rparr>"

definition disk_state :: chainstate where
  "disk_state = (ChainstateManager disk_params)\<lparr>cs_block_manager := \<lparr>m_block_index =
       [(disk_hash, (genesis_entry disk_genesis)\<lparr>nStatus := BLOCK_VALID_TREE\<rparr>)], m_active_chain = [Some disk_hash],
       m_genesis_hash = disk_hash, m_initialized = True\<rparr>,
     cs_chain_selector := \<lparr>m_candidates = [disk_hash], m_best_header = Some disk_hash\<rparr>\<rparr>"

definition plain_sort :: "(blob \<times> CBlockIndex) list \<Rightarrow> (blob \<times> CBlockIndex) list" where
  "plain_sort xs = sort_key (\<lambda>(k, e). nHeight e) xs"

definition one_document :: headers_doc where
  "one_document = headers_document \<lparr>so_json = \<lparr>hj_dump = Map.empty, hj_parse = Map.empty\<rparr>, so_sort = plain_sort, so_open = True, so_written = 0\<rparr>
     (cs_block_manager disk_state)"

definition disk_env :: store_env where
  "disk_env = \<lparr>so_json = \<lparr>hj_dump = [one_document \<mapsto> ''{}''], hj_parse = [''{}'' \<mapsto> one_document]\<rparr>,
     so_sort = plain_sort, so_open = True, so_written = 2\<rparr>"

lemma plain_sort_ok: "sort_ok plain_sort"
proof -
  have "sorted_wrt (\<lambda>a b. nHeight (snd a) \<le> nHeight (snd b)) (sort_key (\<lambda>(k, e). nHeight e) xs)" for xs :: "(blob \<times> CBlockIndex) list"
    using sorted_sort_key [of "\<lambda>(k, e). nHeight e" xs] by (simp add: sorted_wrt_map case_prod_unfold)
  then show ?thesis by (simp add: sort_ok_def plain_sort_def)
qed

lemma disk_genesis_hash: "header_hash disk_crypto disk_genesis = disk_hash"
  by (simp add: disk_crypto_def disk_genesis_def disk_hash_def sample_header_def)

lemma disk_hash_not_null: "\<not> blob_IsNull disk_hash" "disk_hash \<noteq> blob_SetNull 32"
  by (simp_all add: disk_hash_def blob_IsNull_def blob_SetNull_def Cons_replicate_eq)

lemma disk_state_reached:
  "cs_Initialize (mk_env disk_crypto disk_params 0 TestOnlyResetTimeData) disk_genesis (ChainstateManager disk_params) = Some (True, disk_state)"
proof -
  have g: "hashPrevBlock disk_genesis = blob_SetNull 32" "header_hash disk_crypto disk_genesis \<noteq> blob_SetNull 32"
    using disk_hash_not_null by (simp_all add: disk_genesis_hash) (simp add: disk_genesis_def)
  show ?thesis using genesis_state [OF g, of disk_params 0 TestOnlyResetTimeData]
    unfolding disk_genesis_hash disk_state_def by blast
qed

lemma disk_node_inv: "node_inv (mk_env disk_crypto disk_params 0 TestOnlyResetTimeData) disk_state" "tip_ok disk_state"
proof -
  have g: "hashPrevBlock disk_genesis = blob_SetNull 32" "header_hash disk_crypto disk_genesis \<noteq> blob_SetNull 32"
    using disk_hash_not_null by (simp_all add: disk_genesis_hash) (simp add: disk_genesis_def)
  show "node_inv (mk_env disk_crypto disk_params 0 TestOnlyResetTimeData) disk_state" "tip_ok disk_state"
    using genesis_node_inv [OF g disk_state_reached] by blast+
qed

lemma disk_index: "the_index disk_state = [(disk_hash, (genesis_entry disk_genesis)\<lparr>nStatus := BLOCK_VALID_TREE\<rparr>)]"
  by (simp add: disk_state_def)

lemma disk_tip: "GetTip disk_state = Some disk_hash" "work_of (the_index disk_state) disk_hash \<noteq> 0"
proof -
  have "GetBlockProof (new_block_index disk_genesis) = 2" by (rule regtest_proof) (simp add: disk_genesis_def)
  then show "work_of (the_index disk_state) disk_hash \<noteq> 0" by (simp add: work_of_def disk_index genesis_entry_def)
qed (simp add: disk_state_def GetTip_def bm_GetTip_def chain_Tip_def)

lemma disk_typed: "index_typed (the_index disk_state)"
  by (simp add: index_typed_def disk_index entry_typed_def header_typed_def is_uint256_def is_uint160_def GetBlockHeader_def genesis_entry_def
      new_block_index_def disk_hash_def disk_genesis_def sample_header_def blob_SetNull_def)

lemma disk_low: "\<forall>k e. map_of (the_index disk_state) k = Some e \<longrightarrow> nHeight e \<le> 1000000"
  by (auto simp: disk_index genesis_entry_def)

lemma disk_not_null: "\<forall>k. blob_IsNull k \<longrightarrow> map_of (the_index disk_state) k = None"
  using disk_hash_not_null by (auto simp: disk_index)

lemma disk_genesis_is: "genesis_is disk_state disk_hash"
  by (simp add: genesis_is_def disk_index genesis_entry_def) (simp add: disk_state_def)

lemma disk_lib: "sort_ok (so_sort disk_env)" "headers_json_ok (so_json disk_env)"
  using plain_sort_ok by (auto simp: disk_env_def headers_json_ok_def split: if_splits)

lemma disk_io:
  "so_open disk_env" "hj_dump (so_json disk_env) (headers_document disk_env (cs_block_manager disk_state)) = Some ''{}''"
  "length ''{}'' \<le> so_written disk_env"
  by (simp_all add: disk_env_def one_document_def headers_document_def)

lemma disk_params_genesis: "hashGenesisBlock (consensus disk_params) = disk_hash"
  by (simp add: disk_params_def)

theorem headers_survive_restart_witness:
  "\<exists>disk' st'. cs_Save disk_env ''headers.json'' disk_state Map.empty = (True, disk') \<and>
    cs_Load disk_crypto disk_params disk_env ''headers.json'' disk' (ChainstateManager disk_params) = Some (True, st') \<and>
    GetTip st' = Some disk_hash"
proof -
  obtain disk' st' b where r: "cs_Save disk_env ''headers.json'' disk_state Map.empty = (True, disk')"
      "cs_Load disk_crypto disk_params disk_env ''headers.json'' disk' (ChainstateManager disk_params) = Some (True, st')"
      "GetTip st' = Some b" "the_index st' = map (\<lambda>(k, e). (k, e\<lparr>nTimeReceived := 0\<rparr>)) (the_index disk_state)" "tip_ok st'"
    using headers_survive_restart [OF disk_node_inv disk_tip disk_typed disk_low disk_not_null
      disk_genesis_is [folded disk_params_genesis] disk_lib disk_io, of "''headers.json''" Map.empty] by blast
  have "b = disk_hash" using r(3-5) by (auto simp: tip_ok_def disk_index split: option.splits if_splits)
  then show ?thesis using r by blast
qed

theorem load_sound_witness:
  "\<exists>bm'. bm_Load disk_crypto disk_env ''headers.json'' disk_hash [''headers.json'' \<mapsto> ''{}''] BlockManager = Some (True, bm') \<and>
     roots (m_block_index bm') = [disk_hash]"
proof -
  obtain b f where "bm_Load disk_crypto disk_env ''headers.json'' disk_hash (Map.empty(''headers.json'' := Some ''{}'')) BlockManager =
      Some (True, \<lparr>m_block_index = loaded_index (the_index disk_state), m_active_chain = path_to (the_index disk_state) b,
        m_genesis_hash = disk_hash, m_initialized = True\<rparr>)"
    by (rule saved_headers_load [OF disk_node_inv disk_tip disk_typed disk_low disk_not_null disk_genesis_is disk_lib disk_io(2)])
  then show ?thesis using load_sound [OF _ disk_lib(1)] by blast
qed

section \<open>What a save and a load do not check\<close>

text \<open>The stream is not checked after writing: a file that was cut short counts as saved.\<close>

lemma short_write_unnoticed:
  assumes "so_open env" "hj_dump (so_json env) (headers_document env (cs_block_manager st)) = Some data"
  shows "cs_Save env path st disk = (True, disk(path := Some (take (so_written env) data)))"
  using assms by (simp add: cs_Save_def bm_Save_def)

text \<open>The chain work and the status of a block are taken from the file: the hash does not cover them.\<close>

lemma stored_work_trusted:
  assumes "entry_typed k e" "header_hash cr (GetBlockHeader e) = k"
  shows "first_pass cr [(block_data (k, e))\<lparr>bd_chainwork := Field (work_GetHex w), bd_status := Field (uint s)\<rparr>] [] [] =
    (Done, [(k, (raw_entry e)\<lparr>nChainWork := w, nStatus := s\<rparr>)], [(k, hashPrevBlock (GetBlockHeader e))])"
proof -
  let ?d = "(block_data (k, e))\<lparr>bd_chainwork := Field (work_GetHex w), bd_status := Field (uint s)\<rparr>"
  have "\<not> missing_field ?d" "read_header ?d = Some (k, GetBlockHeader e)"
    using read_block_data(1,2) [OF assms(1)] by (simp_all add: missing_field_def read_header_def)
  moreover have "read_metadata ?d = Some (nHeight e, w, s)"
    using read_block_data(3) [OF assms(1)] by (auto simp: read_metadata_def field_get_def block_data_def)
  moreover have "(raw_entry e)\<lparr>nChainWork := w, nStatus := s\<rparr> = (new_block_index (GetBlockHeader e))\<lparr>nHeight := nHeight e, nChainWork := w, nStatus := s\<rparr>"
    by (cases e) (simp add: raw_entry_def new_block_index_def GetBlockHeader_def)
  ultimately show ?thesis using assms(2) by simp
qed

end
