(* ===== verification/Addr_Manager.thy ===== *)
theory Addr_Manager
  imports Protocol Std_Map Json_View "HOL-Library.Multiset"
begin

text \<open>
  \<open>AddressManager\<close> of \<open>addr_manager.cpp\<close>: the table of tried addresses and the table of new ones, selection of an
  address to dial, the answer to an address request, and the file of addresses.

  The draws of the random number generator are a parameter: \<open>draw i n\<close> is the \<open>i\<close>-th number drawn in one request,
  below \<open>n\<close>; so are the shuffle, the JSON library, the outcome of every system call, and the clock in seconds, which
  does not advance within one operation.  \<open>None\<close> around the result of a load is a key that is missing from an
  entry of the file: the code reads it with the constant index operator, whose precondition is that the key exists.
\<close>

section \<open>State\<close>

definition STALE_AFTER_DAYS :: u32 where "STALE_AFTER_DAYS = 30"
definition MAX_FAILURES :: u32 where "MAX_FAILURES = 10"
definition SECONDS_PER_DAY :: u32 where "SECONDS_PER_DAY = 86400"
definition SELECT_MAX_CHECKS :: nat where "SELECT_MAX_CHECKS = 64"
definition SELECT_TRIED_BIAS_PERCENT :: nat where "SELECT_TRIED_BIAS_PERCENT = 80"
definition SELECT_COOLDOWN_SEC :: u32 where "SELECT_COOLDOWN_SEC = 600"
definition SELECT_ATTEMPT_BYPASS :: int where "SELECT_ATTEMPT_BYPASS = 30"

definition AddrKey :: "NetworkAddress \<Rightarrow> byte list" where
  "AddrKey a = na_ip a @ [ucast ((drop_bit 8 (na_port a)) AND 0xFF), ucast (na_port a AND 0xFF)]"

record AddrInfo =
  ai_address :: NetworkAddress
  ai_timestamp :: u32
  ai_last_try :: u32
  ai_last_success :: u32
  ai_attempts :: int
  ai_tried :: bool

definition AddrInfo_new :: "NetworkAddress \<Rightarrow> u32 \<Rightarrow> AddrInfo" where
  "AddrInfo_new addr ts = \<lparr>ai_address = addr, ai_timestamp = ts, ai_last_try = 0, ai_last_success = 0, ai_attempts = 0, ai_tried = False\<rparr>"

definition is_stale :: "AddrInfo \<Rightarrow> u32 \<Rightarrow> bool" where
  "is_stale info now =
     (if ai_timestamp info = 0 \<or> ai_timestamp info > now then False
      else now - ai_timestamp info > STALE_AFTER_DAYS * SECONDS_PER_DAY)"

text \<open>The comparison with the unsigned constant converts the number of attempts.\<close>

definition is_terrible :: "AddrInfo \<Rightarrow> u32 \<Rightarrow> bool" where
  "is_terrible info now \<longleftrightarrow> (word_of_int (ai_attempts info) :: u32) \<ge> MAX_FAILURES \<or> \<not> ai_tried info \<and> is_stale info now"

type_synonym addr_table = "(byte list, AddrInfo) std_map"

record AddressManager =
  tried_table :: addr_table
  new_table :: addr_table

definition AddressManager_new :: AddressManager where
  "AddressManager_new = \<lparr>tried_table = [], new_table = []\<rparr>"

section \<open>Learning about addresses\<close>

definition usable_address :: "NetworkAddress \<Rightarrow> bool" where
  "usable_address addr \<longleftrightarrow> na_port addr \<noteq> 0 \<and> \<not> list_all (\<lambda>b. b = 0) (na_ip addr)"

definition TEN_YEARS :: u32 where "TEN_YEARS = 10 * 365 * 24 * 60 * 60"

definition effective_timestamp :: "u32 \<Rightarrow> u32 \<Rightarrow> u32" where
  "effective_timestamp now_s timestamp =
     (let eff_ts = (if timestamp = 0 then now_s else timestamp) in
      if eff_ts > now_s \<or> now_s - eff_ts > TEN_YEARS then now_s else eff_ts)"

definition refresh :: "u32 \<Rightarrow> AddrInfo \<Rightarrow> AddrInfo" where
  "refresh eff_ts info = (if eff_ts > ai_timestamp info then info\<lparr>ai_timestamp := eff_ts\<rparr> else info)"

definition add_internal :: "u32 \<Rightarrow> NetworkAddress \<Rightarrow> u32 \<Rightarrow> AddressManager \<Rightarrow> bool \<times> AddressManager" where
  "add_internal now_s addr timestamp am =
     (if na_port addr = 0 then (False, am)
      else if list_all (\<lambda>b. b = 0) (na_ip addr) then (False, am)
      else
        let eff_ts = effective_timestamp now_s timestamp;
            info = AddrInfo_new addr eff_ts;
            key = AddrKey addr in
        case map_of (tried_table am) key of
          Some old \<Rightarrow> (False, am\<lparr>tried_table := om_update key (refresh eff_ts old) (tried_table am)\<rparr>)
        | None \<Rightarrow>
            (case map_of (new_table am) key of
               Some old \<Rightarrow> (False, am\<lparr>new_table := om_update key (refresh eff_ts old) (new_table am)\<rparr>)
             | None \<Rightarrow>
                 if is_terrible info now_s then (False, am)
                 else (True, am\<lparr>new_table := om_update key info (new_table am)\<rparr>)))"

definition am_add :: "u32 \<Rightarrow> NetworkAddress \<Rightarrow> u32 \<Rightarrow> AddressManager \<Rightarrow> bool \<times> AddressManager" where
  "am_add now_s addr timestamp am = add_internal now_s addr timestamp am"

fun add_multiple :: "u32 \<Rightarrow> TimestampedAddress list \<Rightarrow> AddressManager \<Rightarrow> nat \<times> AddressManager" where
  "add_multiple now_s [] am = (0, am)"
| "add_multiple now_s (ts_addr # addresses) am =
     (case add_internal now_s (ta_address ts_addr) (ta_timestamp ts_addr) am of (ok, am) \<Rightarrow>
        (case add_multiple now_s addresses am of (added, am) \<Rightarrow> ((if ok then added + 1 else added), am)))"

section \<open>Connection history\<close>

definition attempt :: "u32 \<Rightarrow> NetworkAddress \<Rightarrow> AddressManager \<Rightarrow> AddressManager" where
  "attempt t addr am =
     (let key = AddrKey addr in
      case map_of (new_table am) key of
        Some e \<Rightarrow> am\<lparr>new_table := om_update key (e\<lparr>ai_last_try := t, ai_attempts := ai_attempts e + 1\<rparr>) (new_table am)\<rparr>
      | None \<Rightarrow>
          (case map_of (tried_table am) key of
             Some e \<Rightarrow> am\<lparr>tried_table := om_update key (e\<lparr>ai_last_try := t\<rparr>) (tried_table am)\<rparr>
           | None \<Rightarrow> am))"

definition good :: "u32 \<Rightarrow> NetworkAddress \<Rightarrow> AddressManager \<Rightarrow> AddressManager" where
  "good current_time addr am =
     (let key = AddrKey addr in
      case map_of (new_table am) key of
        Some e \<Rightarrow>
          let e = e\<lparr>ai_tried := True, ai_last_success := current_time, ai_attempts := 0\<rparr> in
          am\<lparr>tried_table := om_update key e (tried_table am), new_table := om_erase key (new_table am)\<rparr>
      | None \<Rightarrow>
          (case map_of (tried_table am) key of
             Some e \<Rightarrow> am\<lparr>tried_table := om_update key (e\<lparr>ai_last_success := current_time, ai_attempts := 0\<rparr>) (tried_table am)\<rparr>
           | None \<Rightarrow> am))"

definition failed :: "u32 \<Rightarrow> NetworkAddress \<Rightarrow> AddressManager \<Rightarrow> AddressManager" where
  "failed now_s addr am =
     (let key = AddrKey addr in
      case map_of (new_table am) key of
        Some e \<Rightarrow>
          let e = e\<lparr>ai_attempts := ai_attempts e + 1\<rparr> in
          if is_terrible e now_s then am\<lparr>new_table := om_erase key (new_table am)\<rparr>
          else am\<lparr>new_table := om_update key e (new_table am)\<rparr>
      | None \<Rightarrow>
          (case map_of (tried_table am) key of
             Some e \<Rightarrow>
               let e = e\<lparr>ai_attempts := ai_attempts e + 1\<rparr> in
               if (word_of_int (ai_attempts e) :: u32) \<ge> MAX_FAILURES
               then am\<lparr>new_table := om_update key (e\<lparr>ai_tried := False\<rparr>) (new_table am), tried_table := om_erase key (tried_table am)\<rparr>
               else am\<lparr>tried_table := om_update key e (tried_table am)\<rparr>
           | None \<Rightarrow> am))"

definition cleanup_stale :: "u32 \<Rightarrow> AddressManager \<Rightarrow> AddressManager" where
  "cleanup_stale current_time am =
     am\<lparr>new_table := filter (\<lambda>(key, info). \<not> (is_stale info current_time \<or> is_terrible info current_time)) (new_table am)\<rparr>"

definition am_size :: "AddressManager \<Rightarrow> nat" where
  "am_size am = length (tried_table am) + length (new_table am)"

section \<open>Selection\<close>

definition select_ok :: "u32 \<Rightarrow> AddrInfo \<Rightarrow> bool" where
  "select_ok now_ts info \<longleftrightarrow> ai_last_try info = 0 \<or> now_ts - ai_last_try info \<ge> SELECT_COOLDOWN_SEC \<or> ai_attempts info \<ge> SELECT_ATTEMPT_BYPASS"

definition nth_entry :: "(nat \<Rightarrow> nat \<Rightarrow> nat) \<Rightarrow> nat \<Rightarrow> addr_table \<Rightarrow> AddrInfo" where
  "nth_entry draw i table = snd (table ! draw i (length table))"

text \<open>At most \<open>checks\<close> random probes into a table; also gives the number of draws made so far.\<close>

fun probe :: "nat \<Rightarrow> (nat \<Rightarrow> nat \<Rightarrow> nat) \<Rightarrow> u32 \<Rightarrow> addr_table \<Rightarrow> nat \<Rightarrow> NetworkAddress option \<times> nat" where
  "probe 0 draw now_ts table i = (None, i)"
| "probe (Suc checks) draw now_ts table i =
     (let info = nth_entry draw i table in
      if select_ok now_ts info then (Some (ai_address info), Suc i) else probe checks draw now_ts table (Suc i))"

definition probe_table :: "(nat \<Rightarrow> nat \<Rightarrow> nat) \<Rightarrow> u32 \<Rightarrow> addr_table \<Rightarrow> nat \<Rightarrow> NetworkAddress option \<times> nat" where
  "probe_table draw now_ts table i = probe (min (length table) SELECT_MAX_CHECKS) draw now_ts table i"

text \<open>The preferred table, then the other one, then any entry: the two branches of \<open>select\<close>.\<close>

definition select_from :: "(nat \<Rightarrow> nat \<Rightarrow> nat) \<Rightarrow> u32 \<Rightarrow> addr_table \<Rightarrow> addr_table \<Rightarrow> nat \<Rightarrow> NetworkAddress" where
  "select_from draw now_ts preferred other i =
     (case probe_table draw now_ts preferred i of
        (Some addr, i) \<Rightarrow> addr
      | (None, i) \<Rightarrow>
          if other \<noteq> [] then
            (case probe_table draw now_ts other i of
               (Some addr, i) \<Rightarrow> addr
             | (None, i) \<Rightarrow> ai_address (nth_entry draw i other))
          else ai_address (nth_entry draw i preferred))"

definition select :: "(nat \<Rightarrow> nat \<Rightarrow> nat) \<Rightarrow> u32 \<Rightarrow> AddressManager \<Rightarrow> NetworkAddress option" where
  "select draw now_ts am =
     (let (use_tried, i) =
        (if tried_table am = [] then (False, 0)
         else (draw 0 100 < SELECT_TRIED_BIAS_PERCENT \<or> new_table am = [], 1)) in
      if use_tried \<and> tried_table am \<noteq> [] then Some (select_from draw now_ts (tried_table am) (new_table am) i)
      else if new_table am \<noteq> [] then Some (select_from draw now_ts (new_table am) (tried_table am) i)
      else None)"

definition select_new_for_feeler :: "(nat \<Rightarrow> nat \<Rightarrow> nat) \<Rightarrow> AddressManager \<Rightarrow> NetworkAddress option" where
  "select_new_for_feeler draw am =
     (if new_table am = [] then None else Some (ai_address (nth_entry draw 0 (new_table am))))"

section \<open>Answering address requests\<close>

fun collect_addresses :: "nat \<Rightarrow> u32 \<Rightarrow> addr_table \<Rightarrow> TimestampedAddress list \<Rightarrow> TimestampedAddress list" where
  "collect_addresses max_count now_s [] acc = acc"
| "collect_addresses max_count now_s ((key, info) # table) acc =
     (if length acc \<ge> max_count then acc
      else if na_port (ai_address info) = 0 then collect_addresses max_count now_s table acc
      else if list_all (\<lambda>b. b = 0) (na_ip (ai_address info)) then collect_addresses max_count now_s table acc
      else if is_terrible info now_s then collect_addresses max_count now_s table acc
      else collect_addresses max_count now_s table (acc @ [\<lparr>ta_timestamp = ai_timestamp info, ta_address = ai_address info\<rparr>]))"

definition get_addresses :: "(TimestampedAddress list \<Rightarrow> TimestampedAddress list) \<Rightarrow> u32 \<Rightarrow> nat \<Rightarrow> AddressManager \<Rightarrow> TimestampedAddress list" where
  "get_addresses shuffle now_s max_count am =
     shuffle (collect_addresses max_count now_s (new_table am) (collect_addresses max_count now_s (tried_table am) []))"

section \<open>The file of addresses\<close>

text \<open>
  \<open>ad_ip\<close> holds the values the index operator finds (\<open>None\<close> for a missing key); a value that is not an array counts
  as many of them as the library's \<open>size\<close> says, none of them a number.  A value that is not an object is \<open>NotObject\<close>.
\<close>

record addr_doc =
  ad_ip :: "int json_field list option"
  ad_port :: "int json_field"
  ad_services :: "int json_field"
  ad_timestamp :: "int json_field"
  ad_last_try :: "int json_field"
  ad_last_success :: "int json_field"
  ad_attempts :: "int json_field"

datatype addr_view = NotObject | Entry addr_doc

record peers_doc =
  pd_version :: "int json_field"
  pd_tried_count :: "int json_field"
  pd_new_count :: "int json_field"
  pd_tried :: "addr_view list option"
  pd_new :: "addr_view list option"

record peers_json =
  pj_dump :: "peers_doc \<Rightarrow> string option"
  pj_parse :: "string \<Rightarrow> peers_doc option"

record peers_io =
  po_open :: bool
  po_write :: bool
  po_written :: nat
  po_fsync :: bool
  po_rename :: bool
  po_remove_dest :: bool
  po_rename_again :: bool
  po_remove :: bool

definition addr_document :: "AddrInfo \<Rightarrow> addr_doc" where
  "addr_document info =
     \<lparr>ad_ip = Some (map (\<lambda>b. Field (uint b)) (na_ip (ai_address info))),
      ad_port = Field (uint (na_port (ai_address info))), ad_services = Field (uint (na_services (ai_address info))),
      ad_timestamp = Field (uint (ai_timestamp info)), ad_last_try = Field (uint (ai_last_try info)),
      ad_last_success = Field (uint (ai_last_success info)), ad_attempts = Field (ai_attempts info)\<rparr>"

definition peers_document :: "AddressManager \<Rightarrow> peers_doc" where
  "peers_document am =
     \<lparr>pd_version = Field 1, pd_tried_count = Field (int (length (tried_table am))), pd_new_count = Field (int (length (new_table am))),
      pd_tried = Some (map (\<lambda>(key, info). Entry (addr_document info)) (tried_table am)),
      pd_new = Some (map (\<lambda>(key, info). Entry (addr_document info)) (new_table am))\<rparr>"

definition write_peers :: "peers_io \<Rightarrow> string \<Rightarrow> string \<Rightarrow> (string \<Rightarrow> string option) \<Rightarrow> bool \<times> (string \<Rightarrow> string option)" where
  "write_peers io filepath data files =
     (let tmp = filepath @ ''.tmp'';
          cleanup = (\<lambda>left files. if po_remove io then files(tmp := None) else files(tmp := Some left)) in
      if \<not> po_open io then (False, files)
      else if \<not> po_write io then (False, cleanup (take (po_written io) data) files)
      else if \<not> po_fsync io then (False, cleanup data files)
      else if po_rename io then (True, files(tmp := None, filepath := Some data))
      else
        let files = (if po_remove_dest io then files(filepath := None) else files) in
        if po_rename_again io then (True, files(tmp := None, filepath := Some data))
        else (False, cleanup data files))"

definition am_Save :: "peers_json \<Rightarrow> peers_io \<Rightarrow> string \<Rightarrow> AddressManager \<Rightarrow> (string \<Rightarrow> string option) \<Rightarrow> bool \<times> (string \<Rightarrow> string option)" where
  "am_Save J io filepath am files =
     (case pj_dump J (peers_document am) of None \<Rightarrow> (False, files) | Some data \<Rightarrow> write_peers io filepath data files)"

datatype addr_read = Missing | Raises | Skip | Got AddrInfo

text \<open>The first of the fields, in the order they are read, that cannot be read.\<close>

fun fields_of :: "int json_field list \<Rightarrow> int list \<Rightarrow> addr_read + int list" where
  "fields_of [] vs = Inr (rev vs)"
| "fields_of (Absent # fs) vs = Inl Missing"
| "fields_of (Mistyped # fs) vs = Inl Raises"
| "fields_of (Field v # fs) vs = fields_of fs (v # vs)"

definition read_addr :: "bool \<Rightarrow> addr_doc \<Rightarrow> addr_read" where
  "read_addr tried d =
     (case ad_ip d of
        None \<Rightarrow> Missing
      | Some ip \<Rightarrow>
          if length ip \<noteq> 16 then Skip
          else case fields_of ip [] of
              Inl r \<Rightarrow> r
            | Inr bs \<Rightarrow>
                (case fields_of [ad_port d, ad_services d, ad_timestamp d, ad_last_try d, ad_last_success d, ad_attempts d] [] of
                   Inl r \<Rightarrow> r
                 | Inr vs \<Rightarrow>
                     Got \<lparr>ai_address = \<lparr>na_services = word_of_int (vs ! 1), na_ip = map word_of_int bs, na_port = word_of_int (vs ! 0)\<rparr>,
                          ai_timestamp = word_of_int (vs ! 2), ai_last_try = word_of_int (vs ! 3), ai_last_success = word_of_int (vs ! 4),
                          ai_attempts = sint (word_of_int (vs ! 5) :: u32), ai_tried = tried\<rparr>))"

text \<open>The loop over one of the arrays: \<open>False\<close> when it raises.\<close>

fun load_addrs :: "bool \<Rightarrow> addr_view list \<Rightarrow> addr_table \<Rightarrow> (bool \<times> addr_table) option" where
  "load_addrs tried [] table = Some (True, table)"
| "load_addrs tried (NotObject # vs) table = Some (False, table)"
| "load_addrs tried (Entry d # vs) table =
     (case read_addr tried d of
        Missing \<Rightarrow> None
      | Raises \<Rightarrow> Some (False, table)
      | Skip \<Rightarrow> load_addrs tried vs table
      | Got info \<Rightarrow> load_addrs tried vs (om_update (AddrKey (ai_address info)) info table))"

definition am_Load :: "peers_json \<Rightarrow> string \<Rightarrow> (string \<Rightarrow> string option) \<Rightarrow> AddressManager \<Rightarrow> (bool \<times> AddressManager) option" where
  "am_Load J filepath files am =
     (let entries = (\<lambda>a. case a of None \<Rightarrow> [] | Some vs \<Rightarrow> vs); failure = Some (False, AddressManager_new) in
      case files filepath of
        None \<Rightarrow> Some (False, am)
      | Some content \<Rightarrow>
          (case pj_parse J content of
             None \<Rightarrow> failure
           | Some root \<Rightarrow>
               (case value_or 0 (pd_version root) of
                  None \<Rightarrow> failure
                | Some version \<Rightarrow>
                    if version \<noteq> 1 then Some (False, am)
                    else
                      (case load_addrs True (entries (pd_tried root)) [] of
                         None \<Rightarrow> None
                       | Some (False, t) \<Rightarrow> failure
                       | Some (True, t) \<Rightarrow>
                           (case load_addrs False (entries (pd_new root)) [] of
                              None \<Rightarrow> None
                            | Some (False, n) \<Rightarrow> failure
                            | Some (True, n) \<Rightarrow> Some (True, \<lparr>tried_table = t, new_table = n\<rparr>))))))"

section \<open>One book of addresses\<close>

text \<open>
  The invariant of the two tables: no address is in both, every entry is filed under the key of its address and
  carries the flag of its table, the addresses are usable, and a tried entry has less than ten failures.
\<close>

definition addr_entry_ok :: "bool \<Rightarrow> byte list \<times> AddrInfo \<Rightarrow> bool" where
  "addr_entry_ok tried = (\<lambda>(k, e). k = AddrKey (ai_address e) \<and> ai_tried e = tried \<and> usable_address (ai_address e) \<and>
     0 \<le> ai_attempts e \<and> (tried \<longrightarrow> ai_attempts e < 10))"

definition addr_inv :: "AddressManager \<Rightarrow> bool" where
  "addr_inv am \<longleftrightarrow> om_invar (tried_table am) \<and> om_invar (new_table am) \<and>
     list_all (addr_entry_ok True) (tried_table am) \<and> list_all (addr_entry_ok False) (new_table am) \<and>
     (\<forall>k. map_of (tried_table am) k = None \<or> map_of (new_table am) k = None)"

text \<open>What the manager stands for: one map from keys to entries.\<close>

type_synonym addr_book = "byte list \<Rightarrow> AddrInfo option"

definition book :: "AddressManager \<Rightarrow> addr_book" where
  "book am k = (case map_of (tried_table am) k of Some e \<Rightarrow> Some e | None \<Rightarrow> map_of (new_table am) k)"

datatype addr_op = Learn NetworkAddress u32 | Attempt NetworkAddress | Good NetworkAddress | Fail NetworkAddress | Cleanup

fun addr_run :: "u32 \<times> addr_op \<Rightarrow> AddressManager \<Rightarrow> AddressManager" where
  "addr_run (t, Learn a ts) am = snd (am_add t a ts am)"
| "addr_run (t, Attempt a) am = attempt t a am"
| "addr_run (t, Good a) am = good t a am"
| "addr_run (t, Fail a) am = failed t a am"
| "addr_run (t, Cleanup) am = cleanup_stale t am"

definition on_known :: "byte list \<Rightarrow> (AddrInfo \<Rightarrow> AddrInfo option) \<Rightarrow> addr_book \<Rightarrow> addr_book" where
  "on_known k f b = (case b k of None \<Rightarrow> b | Some e \<Rightarrow> b(k := f e))"

definition book_failed :: "u32 \<Rightarrow> AddrInfo \<Rightarrow> AddrInfo option" where
  "book_failed t e =
     (let e' = e\<lparr>ai_attempts := ai_attempts e + 1\<rparr> in
      if ai_tried e then Some (if ai_attempts e = 9 then e'\<lparr>ai_tried := False\<rparr> else e')
      else if is_terrible e' t then None else Some e')"

fun book_run :: "u32 \<times> addr_op \<Rightarrow> addr_book \<Rightarrow> addr_book" where
  "book_run (t, Learn a ts) b =
     (let new = AddrInfo_new a (effective_timestamp t ts) in
      if \<not> usable_address a then b
      else if b (AddrKey a) = None then (if is_stale new t then b else b(AddrKey a \<mapsto> new))
      else on_known (AddrKey a) (\<lambda>e. Some (refresh (effective_timestamp t ts) e)) b)"
| "book_run (t, Attempt a) b =
     on_known (AddrKey a) (\<lambda>e. Some (e\<lparr>ai_last_try := t, ai_attempts := ai_attempts e + (if ai_tried e then 0 else 1)\<rparr>)) b"
| "book_run (t, Good a) b =
     on_known (AddrKey a) (\<lambda>e. Some (e\<lparr>ai_tried := True, ai_last_success := t, ai_attempts := 0\<rparr>)) b"
| "book_run (t, Fail a) b = on_known (AddrKey a) (book_failed t) b"
| "book_run (t, Cleanup) b =
     (\<lambda>k. case b k of None \<Rightarrow> None | Some e \<Rightarrow> if \<not> ai_tried e \<and> is_terrible e t then None else Some e)"

lemma entry_lookup: "om_invar m \<Longrightarrow> list_all (addr_entry_ok b) m \<Longrightarrow> map_of m k = Some e \<Longrightarrow> addr_entry_ok b (k, e)"
  by (simp add: list_all_iff om_entries_iff [symmetric])

lemma list_all_update: "om_invar m \<Longrightarrow> list_all P m \<Longrightarrow> P (k, e) \<Longrightarrow> list_all P (om_update k e m)"
  by (auto simp: list_all_iff om_entries_iff split: if_splits)

lemma list_all_erase: "list_all P m \<Longrightarrow> list_all P (om_erase k m)"
  by (auto simp: list_all_iff om_erase_def)

lemma failures_below: "0 \<le> n \<Longrightarrow> n < 10 \<Longrightarrow> (word_of_int (n + 1) :: u32) \<ge> MAX_FAILURES \<longleftrightarrow> n = 9"
proof -
  assume n: "0 \<le> n" "n < 10"
  have "uint (word_of_int (n + 1) :: u32) = n + 1"
    unfolding uint_word_of_int_eq by (rule take_bit_int_eq_self) (use n in simp_all)
  then show ?thesis using n unfolding MAX_FAILURES_def word_le_def by auto
qed

lemma new_not_terrible: "is_terrible (AddrInfo_new a ts) t = is_stale (AddrInfo_new a ts) t"
  by (simp add: is_terrible_def AddrInfo_new_def MAX_FAILURES_def)

lemma table_cases:
  assumes "addr_inv am"
  obtains (unknown) "map_of (tried_table am) k = None" "map_of (new_table am) k = None" "book am k = None"
  | (tried) e where "map_of (tried_table am) k = Some e" "map_of (new_table am) k = None" "book am k = Some e" "addr_entry_ok True (k, e)"
  | (new) e where "map_of (tried_table am) k = None" "map_of (new_table am) k = Some e" "book am k = Some e" "addr_entry_ok False (k, e)"
proof (cases "map_of (tried_table am) k")
  case None
  then show thesis
    using assms that entry_lookup [of "new_table am" False k]
    by (cases "map_of (new_table am) k") (auto simp: book_def addr_inv_def)
next
  case (Some e)
  then have "map_of (new_table am) k = None" using assms by (auto simp: addr_inv_def dest!: spec [of _ k])
  then show thesis using Some assms that entry_lookup [of "tried_table am" True k] by (auto simp: book_def addr_inv_def)
qed

text \<open>Changing an entry in its table, moving it to the other one, or dropping it.\<close>

lemma set_tried:
  assumes "addr_inv am" "map_of (new_table am) k = None" "addr_entry_ok True (k, e)"
  shows "addr_inv (am\<lparr>tried_table := om_update k e (tried_table am)\<rparr>)" "book (am\<lparr>tried_table := om_update k e (tried_table am)\<rparr>) = (book am)(k \<mapsto> e)"
  using assms by (auto simp: addr_inv_def book_def fun_eq_iff split: option.split intro: list_all_update)

lemma set_new:
  assumes "addr_inv am" "map_of (tried_table am) k = None" "addr_entry_ok False (k, e)"
  shows "addr_inv (am\<lparr>new_table := om_update k e (new_table am)\<rparr>)" "book (am\<lparr>new_table := om_update k e (new_table am)\<rparr>) = (book am)(k \<mapsto> e)"
  using assms by (auto simp: addr_inv_def book_def fun_eq_iff split: option.split intro: list_all_update)

lemma promote:
  assumes "addr_inv am" "addr_entry_ok True (k, e)"
  shows "addr_inv (am\<lparr>tried_table := om_update k e (tried_table am), new_table := om_erase k (new_table am)\<rparr>)"
    "book (am\<lparr>tried_table := om_update k e (tried_table am), new_table := om_erase k (new_table am)\<rparr>) = (book am)(k \<mapsto> e)"
  using assms by (auto simp: addr_inv_def book_def fun_eq_iff split: option.split intro: list_all_update list_all_erase)

lemma demote:
  assumes "addr_inv am" "addr_entry_ok False (k, e)"
  shows "addr_inv (am\<lparr>new_table := om_update k e (new_table am), tried_table := om_erase k (tried_table am)\<rparr>)"
    "book (am\<lparr>new_table := om_update k e (new_table am), tried_table := om_erase k (tried_table am)\<rparr>) = (book am)(k \<mapsto> e)"
  using assms by (auto simp: addr_inv_def book_def fun_eq_iff split: option.split intro: list_all_update list_all_erase)

lemma drop_new:
  assumes "addr_inv am" "map_of (tried_table am) k = None"
  shows "addr_inv (am\<lparr>new_table := om_erase k (new_table am)\<rparr>)" "book (am\<lparr>new_table := om_erase k (new_table am)\<rparr>) = (book am)(k := None)"
  using assms by (auto simp: addr_inv_def book_def fun_eq_iff split: option.split intro: list_all_erase)


lemma add_refines:
  assumes inv: "addr_inv am"
  shows "addr_inv (snd (am_add t a ts am)) \<and> book (snd (am_add t a ts am)) = book_run (t, Learn a ts) (book am)"
proof (cases "usable_address a")
  case False
  then have "snd (am_add t a ts am) = am" by (auto simp: am_add_def add_internal_def usable_address_def)
  then show ?thesis using inv False by simp
next
  case True
  let ?t = "effective_timestamp t ts" and ?k = "AddrKey a"
  have u: "na_port a \<noteq> 0" "\<not> list_all (\<lambda>b. b = 0) (na_ip a)" using True by (auto simp: usable_address_def)
  have fresh: "addr_entry_ok b (k, refresh s e) = addr_entry_ok b (k, e)" for b k s e by (simp add: addr_entry_ok_def refresh_def)
  show ?thesis
    using inv
  proof (cases am rule: table_cases [where k = ?k])
    case unknown
    have "addr_entry_ok False (?k, AddrInfo_new a ?t)" using True by (simp add: addr_entry_ok_def AddrInfo_new_def)
    then show ?thesis using unknown True u inv set_new [OF inv unknown(1)]
      by (simp add: am_add_def add_internal_def Let_def new_not_terrible)
  next
    case (tried e)
    then show ?thesis using u True set_tried [OF inv tried(2)]
      by (simp add: am_add_def add_internal_def Let_def fresh on_known_def)
  next
    case (new e)
    then show ?thesis using u True set_new [OF inv new(1)]
      by (simp add: am_add_def add_internal_def Let_def fresh on_known_def)
  qed
qed

lemma attempt_refines:
  assumes inv: "addr_inv am"
  shows "addr_inv (attempt t a am) \<and> book (attempt t a am) = book_run (t, Attempt a) (book am)"
  using inv
proof (cases am rule: table_cases [where k = "AddrKey a"])
  case (tried e)
  let ?e = "e\<lparr>ai_last_try := t\<rparr>"
  have ok: "addr_entry_ok True (AddrKey a, ?e)" "ai_tried e" using tried(4) by (simp_all add: addr_entry_ok_def)
  have "?e = e\<lparr>ai_last_try := t, ai_attempts := ai_attempts e + 0\<rparr>" by simp
  then show ?thesis using tried ok set_tried [OF inv tried(2) ok(1)] by (simp add: attempt_def on_known_def)
next
  case (new e)
  let ?e = "e\<lparr>ai_last_try := t, ai_attempts := ai_attempts e + 1\<rparr>"
  have "addr_entry_ok False (AddrKey a, ?e)" "\<not> ai_tried e" using new(4) by (simp_all add: addr_entry_ok_def)
  then show ?thesis using new set_new [OF inv new(1), of ?e] by (simp add: attempt_def on_known_def)
qed (simp add: attempt_def on_known_def inv)

lemma good_refines:
  assumes inv: "addr_inv am"
  shows "addr_inv (good t a am) \<and> book (good t a am) = book_run (t, Good a) (book am)"
  using inv
proof (cases am rule: table_cases [where k = "AddrKey a"])
  case (tried e)
  let ?e = "e\<lparr>ai_last_success := t, ai_attempts := 0\<rparr>"
  have ok: "addr_entry_ok True (AddrKey a, ?e)" "e\<lparr>ai_tried := True\<rparr> = e" using tried(4) by (simp_all add: addr_entry_ok_def)
  then have "?e = e\<lparr>ai_tried := True, ai_last_success := t, ai_attempts := 0\<rparr>" by (cases e) simp
  then show ?thesis using tried ok set_tried [OF inv tried(2) ok(1)] by (simp add: good_def on_known_def)
next
  case (new e)
  have "addr_entry_ok True (AddrKey a, e\<lparr>ai_tried := True, ai_last_success := t, ai_attempts := 0\<rparr>)" using new(4) by (simp add: addr_entry_ok_def)
  then show ?thesis using new promote [OF inv] by (simp add: good_def on_known_def Let_def)
qed (simp add: good_def on_known_def inv)

lemma failed_refines:
  assumes inv: "addr_inv am"
  shows "addr_inv (failed t a am) \<and> book (failed t a am) = book_run (t, Fail a) (book am)"
  using inv
proof (cases am rule: table_cases [where k = "AddrKey a"])
  case (tried e)
  let ?e = "e\<lparr>ai_attempts := ai_attempts e + 1\<rparr>"
  have n: "0 \<le> ai_attempts e" "ai_attempts e < 10" "ai_tried e" using tried(4) by (simp_all add: addr_entry_ok_def)
  have lim: "(word_of_int (ai_attempts e + 1) :: u32) \<ge> MAX_FAILURES \<longleftrightarrow> ai_attempts e = 9" by (rule failures_below) (use n in simp_all)
  have f: "failed t a am = (if ai_attempts e = 9
      then am\<lparr>new_table := om_update (AddrKey a) (?e\<lparr>ai_tried := False\<rparr>) (new_table am), tried_table := om_erase (AddrKey a) (tried_table am)\<rparr>
      else am\<lparr>tried_table := om_update (AddrKey a) ?e (tried_table am)\<rparr>)"
    by (simp add: failed_def Let_def tried(1,2) lim [simplified])
  have ok: "addr_entry_ok False (AddrKey a, ?e\<lparr>ai_tried := False\<rparr>)" "ai_attempts e \<noteq> 9 \<Longrightarrow> addr_entry_ok True (AddrKey a, ?e)"
    using tried(4) n by (auto simp: addr_entry_ok_def)
  show ?thesis using tried(3) n(3) demote [OF inv ok(1)] set_tried [OF inv tried(2) ok(2)] unfolding f
    by (cases "ai_attempts e = 9") (simp_all add: on_known_def book_failed_def)
next
  case (new e)
  let ?e = "e\<lparr>ai_attempts := ai_attempts e + 1\<rparr>"
  have "addr_entry_ok False (AddrKey a, ?e)" "\<not> ai_tried e" using new(4) by (simp_all add: addr_entry_ok_def)
  then show ?thesis using new set_new [OF inv new(1)] drop_new [OF inv new(1)]
    by (simp add: failed_def on_known_def book_failed_def Let_def)
qed (simp add: failed_def on_known_def inv)

lemma cleanup_refines:
  assumes inv: "addr_inv am"
  shows "addr_inv (cleanup_stale t am) \<and> book (cleanup_stale t am) = book_run (t, Cleanup) (book am)"
proof
  let ?P = "\<lambda>info. \<not> is_stale info t \<and> \<not> is_terrible info t"
  have om: "om_invar (new_table am)" using inv by (simp add: addr_inv_def)
  note look = om_filter_lookup [OF om, of ?P]
  show "addr_inv (cleanup_stale t am)"
    using inv look by (auto simp: addr_inv_def cleanup_stale_def om_invar_filter list_all_iff split: option.split)
  show "book (cleanup_stale t am) = book_run (t, Cleanup) (book am)"
  proof
    fix k
    show "book (cleanup_stale t am) k = book_run (t, Cleanup) (book am) k"
      using inv
    proof (cases am rule: table_cases [where k = k])
      case (new e)
      then have "\<not> ai_tried e" by (simp add: addr_entry_ok_def)
      then show ?thesis using new look by (auto simp: cleanup_stale_def book_def is_terrible_def)
    qed (auto simp: cleanup_stale_def book_def look addr_entry_ok_def)
  qed
qed

lemma addr_run_refines:
  assumes "addr_inv am"
  shows "addr_inv (addr_run op am) \<and> book (addr_run op am) = book_run op (book am)"
proof -
  obtain t o' where op: "op = (t, o')" by force
  show ?thesis unfolding op
    using add_refines [OF assms] attempt_refines [OF assms] good_refines [OF assms] failed_refines [OF assms] cleanup_refines [OF assms]
    by (cases o') (simp_all del: book_run.simps)
qed

section \<open>Selecting and answering\<close>

definition draw_ok :: "(nat \<Rightarrow> nat \<Rightarrow> nat) \<Rightarrow> bool" where
  "draw_ok draw \<longleftrightarrow> (\<forall>i n. 0 < n \<longrightarrow> draw i n < n)"

lemma nth_entry_mem: "draw_ok draw \<Longrightarrow> table \<noteq> [] \<Longrightarrow> \<exists>k. (k, nth_entry draw i table) \<in> set table"
proof -
  assume "draw_ok draw" "table \<noteq> []"
  then have "table ! draw i (length table) \<in> set table" by (simp add: draw_ok_def)
  then show ?thesis unfolding nth_entry_def by (metis prod.collapse)
qed

lemma probe_sound:
  assumes "draw_ok draw" and "table \<noteq> []"
  shows "probe n draw now_ts table i = (r, j) \<Longrightarrow> (case r of
      Some a \<Rightarrow> \<exists>k info. (k, info) \<in> set table \<and> ai_address info = a \<and> select_ok now_ts info
    | None \<Rightarrow> j = i + n \<and> (\<forall>d \<in> {i ..< i + n}. \<not> select_ok now_ts (nth_entry draw d table)))"
proof (induction n arbitrary: i)
  case (Suc n)
  show ?case
  proof (cases "select_ok now_ts (nth_entry draw i table)")
    case True
    then show ?thesis using Suc.prems nth_entry_mem [OF assms, of i] by (auto simp: Let_def) blast
  next
    case False
    have "{i ..< i + Suc n} = insert i {Suc i ..< Suc i + n}" by auto
    then show ?thesis using Suc.IH [of "Suc i"] Suc.prems False by (auto simp: Let_def split: option.splits)
  qed
qed auto

text \<open>
  A selected address is in a table; when it is in its cooling-off time, every probe into the preferred table
  was.
\<close>

lemma select_from_sound:
  assumes d: "draw_ok draw" and ne: "preferred \<noteq> []"
  shows "\<exists>k info. (k, info) \<in> set preferred \<union> set other \<and> ai_address info = select_from draw now_ts preferred other i \<and>
    (select_ok now_ts info \<or>
     (\<forall>d \<in> {i ..< i + min (length preferred) SELECT_MAX_CHECKS}. \<not> select_ok now_ts (nth_entry draw d preferred)))"
proof (cases "probe_table draw now_ts preferred i")
  case (Pair r j)
  have p: "case r of Some a \<Rightarrow> \<exists>k info. (k, info) \<in> set preferred \<and> ai_address info = a \<and> select_ok now_ts info
    | None \<Rightarrow> \<forall>d \<in> {i ..< i + min (length preferred) SELECT_MAX_CHECKS}. \<not> select_ok now_ts (nth_entry draw d preferred)"
    using probe_sound [OF d ne Pair [unfolded probe_table_def]] by (auto split: option.splits)
  show ?thesis
  proof (cases r)
    case (Some a)
    then show ?thesis using p Pair by (force simp: select_from_def)
  next
    case None
    show ?thesis
    proof (cases "other = []")
      case True
      then show ?thesis using p None Pair nth_entry_mem [OF d ne, of j] by (auto simp: select_from_def)
    next
      case False
      obtain r' l where q: "probe_table draw now_ts other j = (r', l)" by force
      have "\<exists>k info. (k, info) \<in> set other \<and> ai_address info = select_from draw now_ts preferred other i"
        using probe_sound [OF d False q [unfolded probe_table_def]] Pair None False q nth_entry_mem [OF d False, of l]
        by (cases r') (auto simp: select_from_def)
      then show ?thesis using p None by auto
    qed
  qed
qed

definition wanted :: "u32 \<Rightarrow> AddrInfo \<Rightarrow> bool" where
  "wanted now_s info \<longleftrightarrow> usable_address (ai_address info) \<and> \<not> is_terrible info now_s"

lemma collect_filter:
  "length acc \<le> n \<Longrightarrow> collect_addresses n now_s table acc =
     take n (acc @ map (\<lambda>(k, e). \<lparr>ta_timestamp = ai_timestamp e, ta_address = ai_address e\<rparr>) (filter (\<lambda>(k, e). wanted now_s e) table))"
  by (induction n now_s table acc rule: collect_addresses.induct) (auto simp: wanted_def usable_address_def)

section \<open>Properties\<close>

lemma runs_refine: "addr_inv am \<Longrightarrow> addr_inv (fold addr_run ops am) \<and> book (fold addr_run ops am) = fold book_run ops (book am)"
proof (induction ops arbitrary: am)
  case (Cons op ops)
  then show ?case using addr_run_refines [OF Cons.prems, of op] Cons.IH [of "addr_run op am"] by simp
qed simp

lemma new_manager: "addr_inv AddressManager_new" "book AddressManager_new = (\<lambda>k. None)"
  by (simp_all add: addr_inv_def AddressManager_new_def om_invar_Nil book_def fun_eq_iff)

text \<open>
  \<^bold>\<open>C18.\<close> The two tables implement one book of addresses: after any sequence of learned addresses, dial attempts,
  successes, failures and cleanups, at any times, no address is in both tables, every entry is filed under its own
  key with the flag of its table, and the union of the tables is what the same sequence makes of a single map, in
  which a success marks an address as tried, the tenth failure in a row takes the mark away, and an unmarked
  address is dropped when it has ten failures or has not been heard of for thirty days.
\<close>

theorem tables_implement_book:
  "addr_inv (fold addr_run ops AddressManager_new) \<and> book (fold addr_run ops AddressManager_new) = fold book_run ops (\<lambda>k. None)"
  using runs_refine [OF new_manager(1)] by (simp add: new_manager(2))

lemma book_mem:
  assumes inv: "addr_inv am" and k: "(k, e) \<in> set (tried_table am) \<union> set (new_table am)"
  shows "book am (AddrKey (ai_address e)) = Some e \<and> usable_address (ai_address e)"
  using inv
proof (cases am rule: table_cases [where k = k])
  case unknown
  then show ?thesis using k inv by (auto simp: addr_inv_def om_entries_iff)
next
  case (tried e')
  then have "e' = e" using k inv by (auto simp: addr_inv_def om_entries_iff)
  then show ?thesis using tried by (simp add: addr_entry_ok_def)
next
  case (new e')
  then have "e' = e" using k inv by (auto simp: addr_inv_def om_entries_iff)
  then show ?thesis using new by (simp add: addr_entry_ok_def)
qed

lemma book_empty: "book am = (\<lambda>k. None) \<longleftrightarrow> tried_table am = [] \<and> new_table am = []"
proof
  assume "book am = (\<lambda>k. None)"
  then have "map_of (tried_table am) k = None" "map_of (new_table am) k = None" for k
    by (auto simp: book_def fun_eq_iff split: option.splits dest!: spec [of _ k])
  then show "tried_table am = [] \<and> new_table am = []" by (metis map_of_eq_empty_iff ext)
qed (simp add: book_def fun_eq_iff)

text \<open>
  Selection: nothing is selected exactly when both tables are empty.  A selected address is in the book and usable,
  and it is one that may be dialled now, unless none of the probes into the preferred table, as many as the table has
  entries but at most 64, met one that may.  What is sent in answer to an address request is, up to order, the first
  \<open>max_count\<close> entries that are usable and not terrible, tried ones first.
\<close>

theorem selection_sound:
  assumes "addr_inv am" and "draw_ok draw" and "\<forall>xs. mset (shuffle xs) = mset xs"
  shows "(select draw now_ts am = None \<longleftrightarrow> book am = (\<lambda>k. None)) \<and>
    (\<forall>a. select draw now_ts am = Some a \<longrightarrow> usable_address a \<and>
       (\<exists>info. book am (AddrKey a) = Some info \<and> ai_address info = a \<and>
          (select_ok now_ts info \<or>
           (\<exists>table i. table \<in> {tried_table am, new_table am} \<and> table \<noteq> [] \<and>
              (\<forall>d \<in> {i ..< i + min (length table) 64}. \<not> select_ok now_ts (snd (table ! draw d (length table)))))))) \<and>
    mset (get_addresses shuffle now_s max_count am) = mset (take max_count
      (map (\<lambda>(k, e). \<lparr>ta_timestamp = ai_timestamp e, ta_address = ai_address e\<rparr>)
        (filter (\<lambda>(k, e). usable_address (ai_address e) \<and> \<not> is_terrible e now_s) (tried_table am @ new_table am))))"
proof (intro conjI allI impI)
  have none: "select draw now_ts am = None \<longleftrightarrow> tried_table am = [] \<and> new_table am = []"
    by (auto simp: select_def Let_def)
  then show "select draw now_ts am = None \<longleftrightarrow> book am = (\<lambda>k. None)" unfolding book_empty .
  fix a assume a: "select draw now_ts am = Some a"
  obtain p o' i where p: "p \<noteq> []" "a = select_from draw now_ts p o' i" "(p = tried_table am \<and> o' = new_table am) \<or> (p = new_table am \<and> o' = tried_table am)"
    using a by (auto simp: select_def Let_def split: if_splits)
  obtain k e where e: "(k, e) \<in> set p \<union> set o'" "ai_address e = a"
      "select_ok now_ts e \<or> (\<forall>d \<in> {i ..< i + min (length p) 64}. \<not> select_ok now_ts (snd (p ! draw d (length p))))"
    using select_from_sound [OF assms(2) p(1), of o' now_ts i] unfolding p(2) SELECT_MAX_CHECKS_def nth_entry_def by blast
  have b: "book am (AddrKey (ai_address e)) = Some e \<and> usable_address (ai_address e)"
    by (rule book_mem [OF assms(1), of k]) (use e(1) p(3) in auto)
  then show "usable_address a" using e(2) by simp
  have "p \<in> {tried_table am, new_table am}" using p(3) by auto
  then show "\<exists>info. book am (AddrKey a) = Some info \<and> ai_address info = a \<and> (select_ok now_ts info \<or>
      (\<exists>table i. table \<in> {tried_table am, new_table am} \<and> table \<noteq> [] \<and>
         (\<forall>d \<in> {i ..< i + min (length table) 64}. \<not> select_ok now_ts (snd (table ! draw d (length table))))))"
    using e b p(1) by metis
next
  let ?f = "\<lambda>(k, e). \<lparr>ta_timestamp = ai_timestamp e, ta_address = ai_address e\<rparr>" and ?P = "\<lambda>(k, e). wanted now_s e"
  have "collect_addresses max_count now_s (new_table am) (collect_addresses max_count now_s (tried_table am) []) =
      take max_count (map ?f (filter ?P (tried_table am @ new_table am)))"
    by (simp add: collect_filter min_def)
  then show "mset (get_addresses shuffle now_s max_count am) = mset (take max_count
      (map ?f (filter (\<lambda>(k, e). usable_address (ai_address e) \<and> \<not> is_terrible e now_s) (tried_table am @ new_table am))))"
    using assms(3) by (simp add: get_addresses_def wanted_def [symmetric])
qed

section \<open>The file is read back\<close>

definition peers_json_ok :: "peers_json \<Rightarrow> bool" where
  "peers_json_ok J \<longleftrightarrow> (\<forall>d data. pj_dump J d = Some data \<longrightarrow> pj_parse J data = Some d)"

definition info_typed :: "AddrInfo \<Rightarrow> bool" where
  "info_typed e \<longleftrightarrow> na_typed (ai_address e) \<and> ai_attempts e < 2 ^ 31"

lemma om_update_last: "\<forall>x \<in> set m. fst x < k \<Longrightarrow> om_update k v m = m @ [(k, v)]"
  by (induction m) auto

lemma fields_of_Field: "fields_of (map Field vs) acc = Inr (rev acc @ vs)"
  by (induction vs arbitrary: acc) auto

lemma read_addr_document:
  assumes "info_typed e" "0 \<le> ai_attempts e" "ai_tried e = tried"
  shows "read_addr tried (addr_document e) = Got e"
proof -
  have a: "sint (word_of_int (ai_attempts e) :: u32) = ai_attempts e"
    by (rule sint_word_of_int32) (use assms in \<open>simp add: in_int32_def info_typed_def\<close>)
  have l: "length (na_ip (ai_address e)) = 16" using assms by (simp add: info_typed_def na_typed_def)
  have ip: "fields_of (map (\<lambda>b. Field (uint b)) bs) [] = Inr (map uint bs)" for bs :: "byte list"
    using fields_of_Field [of "map uint bs" "[]"] by (simp add: comp_def)
  show ?thesis
    using assms(3) l a by (cases e; cases "ai_address e") (simp add: read_addr_def addr_document_def ip comp_def)
qed

lemma load_addrs_document:
  assumes "om_invar (acc @ m)" "list_all (addr_entry_ok tried) m" "\<forall>(k, e) \<in> set m. info_typed e"
  shows "load_addrs tried (map (\<lambda>(k, e). Entry (addr_document e)) m) acc = Some (True, acc @ m)"
  using assms
proof (induction m arbitrary: acc)
  case (Cons x m)
  obtain k e where x: "x = (k, e)" by force
  have e: "k = AddrKey (ai_address e)" "ai_tried e = tried" "0 \<le> ai_attempts e" "info_typed e"
    using Cons.prems(2,3) by (auto simp: x addr_entry_ok_def)
  have "om_update k e acc = acc @ [(k, e)]"
    by (rule om_update_last) (use Cons.prems(1) in \<open>auto simp: x om_invar_def sorted_wrt_append\<close>)
  then show ?case using Cons.IH [of "acc @ [x]"] Cons.prems read_addr_document [OF e(4,3,2)] by (simp add: x e(1))
qed simp

text \<open>
  \<^bold>\<open>C28.\<close> The addresses survive a restart: when a save reports success, a new manager that loads the file has the same
  two tables, whatever happened on the way (the second attempt to rename included); when a save reports failure and the
  first rename was not what failed, the old file is still there.
\<close>

theorem peers_survive_restart:
  assumes "addr_inv am" and "\<forall>(k, e) \<in> set (tried_table am) \<union> set (new_table am). info_typed e"
    and "peers_json_ok J" and "am_Save J io path am files = (ok, files')"
  shows "(ok \<longrightarrow> am_Load J path files' AddressManager_new = Some (True, am)) \<and>
    (\<not> ok \<and> (po_rename io \<or> \<not> po_fsync io \<or> \<not> po_write io \<or> \<not> po_open io) \<longrightarrow> files' path = files path)"
proof (intro conjI impI)
  assume ok
  then obtain data where d: "pj_dump J (peers_document am) = Some data" "files' path = Some data"
    using assms(4) by (auto simp: am_Save_def write_peers_def Let_def split: option.splits if_splits)
  have t: "load_addrs True (map (\<lambda>(k, e). Entry (addr_document e)) (tried_table am)) [] = Some (True, tried_table am)"
    using load_addrs_document [of "[]" "tried_table am" True] assms(1,2) by (auto simp: addr_inv_def)
  have n: "load_addrs False (map (\<lambda>(k, e). Entry (addr_document e)) (new_table am)) [] = Some (True, new_table am)"
    using load_addrs_document [of "[]" "new_table am" False] assms(1,2) by (auto simp: addr_inv_def)
  show "am_Load J path files' AddressManager_new = Some (True, am)"
    using assms(3) d t n by (simp add: am_Load_def peers_json_ok_def peers_document_def value_or_def Let_def)
next
  assume "\<not> ok \<and> (po_rename io \<or> \<not> po_fsync io \<or> \<not> po_write io \<or> \<not> po_open io)"
  then show "files' path = files path"
    using assms(4) by (auto simp: am_Save_def write_peers_def Let_def split: option.splits if_splits)
qed

text \<open>Two addresses, one of which has been dialled with success.\<close>

definition sample_addr :: "byte \<Rightarrow> NetworkAddress" where
  "sample_addr b = \<lparr>na_services = 1, na_ip = replicate 15 0 @ [b], na_port = 9590\<rparr>"

definition sample_book :: AddressManager where
  "sample_book = fold addr_run [(1000, Learn (sample_addr 7) 0), (1001, Attempt (sample_addr 7)), (1002, Good (sample_addr 7)),
     (1003, Learn (sample_addr 9) 900)] AddressManager_new"

lemma sample_book_inv: "addr_inv sample_book"
  using runs_refine [OF new_manager(1)] by (simp only: sample_book_def)

lemma sample_book_tables: "sample_book =
   \<lparr>tried_table = [(AddrKey (sample_addr 7), \<lparr>ai_address = sample_addr 7, ai_timestamp = 1000, ai_last_try = 1001, ai_last_success = 1002,
        ai_attempts = 0, ai_tried = True\<rparr>)],
    new_table = [(AddrKey (sample_addr 9), \<lparr>ai_address = sample_addr 9, ai_timestamp = 900, ai_last_try = 0, ai_last_success = 0,
        ai_attempts = 0, ai_tried = False\<rparr>)]\<rparr>"
  by code_simp

definition sample_peers_json :: peers_json where
  "sample_peers_json = \<lparr>pj_dump = [peers_document sample_book \<mapsto> ''{}''], pj_parse = [''{}'' \<mapsto> peers_document sample_book]\<rparr>"

theorem selection_sound_witness:
  "select (\<lambda>i n. i mod n) 1100 sample_book = Some (sample_addr 9) \<and> usable_address (sample_addr 9) \<and>
   mset (get_addresses rev 1100 1 sample_book) = {#\<lparr>ta_timestamp = 1000, ta_address = sample_addr 7\<rparr>#}"
proof -
  have d: "draw_ok (\<lambda>i n. i mod n)" by (simp add: draw_ok_def)
  have s: "select (\<lambda>i n. i mod n) 1100 sample_book = Some (sample_addr 9)" by code_simp
  have t: "take 1 (map (\<lambda>(k, e). \<lparr>ta_timestamp = ai_timestamp e, ta_address = ai_address e\<rparr>)
      (filter (\<lambda>(k, e). usable_address (ai_address e) \<and> \<not> is_terrible e 1100) (tried_table sample_book @ new_table sample_book))) =
    [\<lparr>ta_timestamp = 1000, ta_address = sample_addr 7\<rparr>]" by code_simp
  show ?thesis using selection_sound [OF sample_book_inv d, of rev 1100 1100 1] s unfolding t by simp
qed

theorem peers_survive_restart_witness:
  "am_Load sample_peers_json ''peers.json'' [''peers.json'' \<mapsto> ''{}''] AddressManager_new = Some (True, sample_book)"
proof -
  let ?io = "\<lparr>po_open = True, po_write = True, po_written = 2, po_fsync = True, po_rename = True, po_remove_dest = False,
    po_rename_again = False, po_remove = False\<rparr>"
  have t: "\<forall>(k, e) \<in> set (tried_table sample_book) \<union> set (new_table sample_book). info_typed e"
    unfolding sample_book_tables by (simp add: info_typed_def na_typed_def sample_addr_def)
  have j: "peers_json_ok sample_peers_json" by (simp add: peers_json_ok_def sample_peers_json_def)
  have s: "am_Save sample_peers_json ?io ''peers.json'' sample_book Map.empty = (True, [''peers.json'' \<mapsto> ''{}''])"
    by (simp add: am_Save_def write_peers_def sample_peers_json_def)
  show ?thesis using peers_survive_restart [OF sample_book_inv t j s] by simp
qed

section \<open>What modelling showed\<close>

text \<open>
  The replacement is not atomic when the rename fails: the old file is removed first, so a second failure leaves
  neither file.
\<close>

lemma failed_replace_loses_file:
  assumes "pj_dump J (peers_document am) = Some data" "po_open io" "po_write io" "po_fsync io" "\<not> po_rename io"
    "po_remove_dest io" "\<not> po_rename_again io"
  shows "fst (am_Save J io path am files) = False \<and> snd (am_Save J io path am files) path = None"
  using assms by (simp add: am_Save_def write_peers_def Let_def)

text \<open>
  An entry of the file without one of its keys is not skipped and does not raise: the constant index operator has
  no defined result for it.
\<close>

lemma missing_key_unguarded:
  assumes "ad_ip d = None"
  shows "load_addrs tried (Entry d # vs) table = None"
  using assms by (simp add: read_addr_def)

text \<open>
  Recording attempts alone, however many, never takes the mark from a tried address and never changes its count of
  failures.
\<close>

lemma attempts_never_demote:
  assumes "addr_inv am" "book am (AddrKey a) = Some e" "ai_tried e"
  shows "\<exists>e'. book (fold (\<lambda>t am. attempt t a am) ts am) (AddrKey a) = Some e' \<and> ai_tried e' \<and> ai_attempts e' = ai_attempts e"
  using assms
proof (induction ts arbitrary: am e)
  case (Cons t ts)
  have r: "addr_inv (attempt t a am)" "book (attempt t a am) (AddrKey a) = Some (e\<lparr>ai_last_try := t, ai_attempts := ai_attempts e\<rparr>)"
    using attempt_refines [OF Cons.prems(1), of t a] Cons.prems(2,3) by (simp_all add: on_known_def)
  show ?case using Cons.IH [OF r] Cons.prems(3) by simp
qed simp

text \<open>A tried address never has the thirty failures that let it bypass the cooling-off time.\<close>

lemma tried_never_bypasses:
  assumes "addr_inv am" "(k, e) \<in> set (tried_table am)"
  shows "\<not> ai_attempts e \<ge> SELECT_ATTEMPT_BYPASS"
  using assms by (auto simp: addr_inv_def list_all_iff addr_entry_ok_def SELECT_ATTEMPT_BYPASS_def)

end
