(* ===== verification/Anchor_Manager.thy ===== *)
theory Anchor_Manager
  imports Addr_Manager Peer_Manager Peer_Stream "HOL-Library.Product_Lexorder"
begin

text \<open>
  \<open>AnchorManager\<close> of \<open>anchor_manager.cpp\<close>: the two outbound peers remembered across a restart.  The order \<open>std::shuffle\<close>
  and \<open>std::sort\<close> leave the candidates in is a parameter, fixed by the comparison only up to ties.  The file is written
  with the same steps as the file of addresses.
\<close>

section \<open>Choosing anchors\<close>

record anchor_candidate =
  ac_addr :: NetworkAddress
  ac_age_s :: int
  ac_ping_ms :: int

definition peer_network_address :: "ip_lib \<Rightarrow> peer \<Rightarrow> NetworkAddress option" where
  "peer_network_address lib p =
     (let addr = null_NetworkAddress\<lparr>na_services := p_peer_services p, na_port := peer_port p\<rparr> in
      case make_address lib (peer_address p) of
        None \<Rightarrow> None
      | Some (V4 v) \<Rightarrow> Some (addr\<lparr>na_ip := make_address_v6 lib v\<rparr>)
      | Some (V6 bytes) \<Rightarrow> Some (addr\<lparr>na_ip := bytes\<rparr>))"

definition anchor_candidate_of :: "peer_env \<Rightarrow> peer \<Rightarrow> anchor_candidate option" where
  "anchor_candidate_of env p =
     (if \<not> is_connected p \<or> p_state p \<noteq> READY then None
      else if is_feeler p then None
      else map_option (\<lambda>addr. \<lparr>ac_addr = addr,
             ac_age_s = max 0 (to_seconds (pe_steady env - 1000 * st_connected_time (p_stats p))),
             ac_ping_ms = (if st_ping_time_ms (p_stats p) \<ge> 0 then st_ping_time_ms (p_stats p) else INT64_MAX)\<rparr>)
           (peer_network_address (pe_ip env) p))"

definition older_anchor :: "anchor_candidate \<Rightarrow> anchor_candidate \<Rightarrow> bool" where
  "older_anchor a b = (if ac_age_s a \<noteq> ac_age_s b then ac_age_s a > ac_age_s b else ac_ping_ms a < ac_ping_ms b)"

definition MAX_ANCHORS :: nat where "MAX_ANCHORS = 2"

definition anchor_candidates :: "peer_env \<Rightarrow> PeerLifecycleManager \<Rightarrow> anchor_candidate list" where
  "anchor_candidates env pm = List.map_filter (anchor_candidate_of env) (get_outbound_peers pm)"

definition GetAnchors :: "peer_env \<Rightarrow> (anchor_candidate list \<Rightarrow> anchor_candidate list) \<Rightarrow> PeerLifecycleManager \<Rightarrow> NetworkAddress list" where
  "GetAnchors env shuffle_sort pm =
     (let candidates = anchor_candidates env pm in
      if candidates = [] then []
      else
        let candidates = shuffle_sort candidates;
            count = min (length candidates) MAX_ANCHORS in
        map ac_addr (take count candidates))"

section \<open>The file\<close>

text \<open>
  What the loader finds: an anchor that is not an object, or one with fields; an element of the address that is not an integer is
  \<open>None\<close>, and so is an address that is missing; a port or a service word is \<open>Mistyped\<close> when it is not an unsigned number.
\<close>

record anchor_fields =
  af_ip :: "int option list option"
  af_port :: "int json_field"
  af_services :: "int json_field"

datatype anchor_view = AnchorNotObject | Anchor anchor_fields

record anchors_doc =
  an_version :: "int json_field"
  an_count :: "int json_field"
  an_anchors :: "anchor_view list option"

record anchors_json =
  aj_dump :: "anchors_doc \<Rightarrow> string option"
  aj_parse :: "string \<Rightarrow> anchors_doc option"

definition anchor_document :: "NetworkAddress \<Rightarrow> anchor_view" where
  "anchor_document addr =
     Anchor \<lparr>af_ip = Some (map (\<lambda>b. Some (uint b)) (na_ip addr)), af_port = Field (uint (na_port addr)),
       af_services = Field (uint (na_services addr))\<rparr>"

definition SaveAnchors :: "peer_env \<Rightarrow> (anchor_candidate list \<Rightarrow> anchor_candidate list) \<Rightarrow> anchors_json \<Rightarrow> peers_io \<Rightarrow> string
    \<Rightarrow> PeerLifecycleManager \<Rightarrow> (string \<Rightarrow> string option) \<Rightarrow> bool \<times> (string \<Rightarrow> string option)" where
  "SaveAnchors env shuffle_sort J io filepath pm files =
     (let anchors = GetAnchors env shuffle_sort pm in
      if anchors = [] then (True, files)
      else case aj_dump J \<lparr>an_version = Field 1, an_count = Field (int (length anchors)), an_anchors = Some (map anchor_document anchors)\<rparr> of
          None \<Rightarrow> (False, files)
        | Some data \<Rightarrow> write_peers io filepath data files)"

text \<open>\<open>get<int>\<close> of an integer of the document.\<close>

definition get_int :: "int \<Rightarrow> int" where
  "get_int v = sint (word_of_int v :: u32)"

definition valid_ip_array :: "int option list \<Rightarrow> bool" where
  "valid_ip_array ip \<longleftrightarrow> length ip = 16 \<and> list_all (\<lambda>v. case v of None \<Rightarrow> False | Some x \<Rightarrow> 0 \<le> get_int x \<and> get_int x \<le> 255) ip"

definition read_anchor :: "anchor_view \<Rightarrow> NetworkAddress option" where
  "read_anchor v =
     (case v of
        AnchorNotObject \<Rightarrow> None
      | Anchor f \<Rightarrow>
          if af_ip f = None \<or> af_port f = Absent \<or> af_services f = Absent then None
          else if \<not> valid_ip_array (the (af_ip f)) then None
          else case (af_port f, af_services f) of
              (Field port, Field services) \<Rightarrow>
                Some \<lparr>na_services = word_of_int services, na_ip = map (\<lambda>x. word_of_int (get_int (the x))) (the (af_ip f)), na_port = word_of_int port\<rparr>
            | _ \<Rightarrow> None)"

fun load_anchor_list :: "anchor_view list \<Rightarrow> NetworkAddress list \<Rightarrow> NetworkAddress list" where
  "load_anchor_list [] anchors = anchors"
| "load_anchor_list (v # vs) anchors =
     (case read_anchor v of
        None \<Rightarrow> load_anchor_list vs anchors
      | Some addr \<Rightarrow>
          let anchors = anchors @ [addr] in
          if length anchors = 2 then anchors else load_anchor_list vs anchors)"

text \<open>The file is deleted on every path that opened it; \<open>removable\<close> is the outcome of that.\<close>

definition LoadAnchors :: "anchors_json \<Rightarrow> bool \<Rightarrow> string \<Rightarrow> (string \<Rightarrow> string option) \<Rightarrow> NetworkAddress list \<times> (string \<Rightarrow> string option)" where
  "LoadAnchors J removable filepath files =
     (let removed = (if removable then files(filepath := None) else files) in
      case files filepath of
        None \<Rightarrow> ([], files)
      | Some content \<Rightarrow>
          (case aj_parse J content of
             None \<Rightarrow> ([], removed)
           | Some root \<Rightarrow>
               (case value_or 0 (an_version root) of
                  None \<Rightarrow> ([], removed)
                | Some version \<Rightarrow>
                    (case an_anchors root of
                       None \<Rightarrow> ([], removed)
                     | Some anchors_array \<Rightarrow>
                         if version \<noteq> 1 then ([], removed) else (load_anchor_list anchors_array [], removed)))))"

section \<open>Properties\<close>

definition anchor_order_ok :: "(anchor_candidate list \<Rightarrow> anchor_candidate list) \<Rightarrow> bool" where
  "anchor_order_ok f \<longleftrightarrow> (\<forall>cs. mset (f cs) = mset cs \<and> sorted_wrt (\<lambda>a b. \<not> older_anchor b a) (f cs))"

definition anchors_json_ok :: "anchors_json \<Rightarrow> bool" where
  "anchors_json_ok J \<longleftrightarrow> (\<forall>d data. aj_dump J d = Some data \<longrightarrow> aj_parse J data = Some d)"

text \<open>The bytes of an IPv6 address are sixteen.\<close>

definition sixteen_bytes :: "ip_lib \<Rightarrow> bool" where
  "sixteen_bytes lib \<longleftrightarrow> (\<forall>v. length (make_address_v6 lib v) = 16) \<and> (\<forall>s b. make_address lib s = Some (V6 b) \<longrightarrow> length b = 16)"

lemma read_anchor_document: "na_typed a \<Longrightarrow> read_anchor (anchor_document a) = Some a"
proof -
  assume a: "na_typed a"
  have g: "get_int (uint b) = uint b" for b :: byte
    unfolding get_int_def by (rule sint_word_of_int32) (use uint_lt2p [of b] order_trans [OF _ uint_ge_0, of _ b] in \<open>simp add: in_int32_def\<close>)
  have "uint b \<le> 255" for b :: byte using uint_lt2p [of b] by simp
  then show ?thesis using a
    by (cases a) (simp add: read_anchor_def anchor_document_def valid_ip_array_def na_typed_def list_all_iff g comp_def)
qed

lemma load_anchor_documents:
  assumes "\<forall>a \<in> set as. na_typed a" "length as \<le> 2"
  shows "load_anchor_list (map anchor_document as) [] = as"
proof -
  consider "as = []" | a where "as = [a]" | a b where "as = [a, b]"
    using assms(2) by (cases as rule: list.exhaust; cases "tl as" rule: list.exhaust) auto
  then show ?thesis using assms(1) by cases (simp_all add: read_anchor_document)
qed

lemma anchors_sound:
  assumes "anchor_order_ok f" "sixteen_bytes (pe_ip env)"
  shows "length (GetAnchors env f pm) \<le> 2" "\<forall>a \<in> set (GetAnchors env f pm). na_typed a \<and>
    (\<exists>p \<in> set (get_outbound_peers pm). p_state p = READY \<and> \<not> is_feeler p \<and> peer_network_address (pe_ip env) p = Some a)"
proof -
  show "length (GetAnchors env f pm) \<le> 2" by (simp add: GetAnchors_def Let_def MAX_ANCHORS_def)
  have s: "set (f cs) = set cs" for cs using assms(1) by (metis anchor_order_ok_def mset_eq_setD)
  have t: "na_typed a" if "peer_network_address (pe_ip env) p = Some a" for p a
    using that assms(2) by (auto simp: peer_network_address_def na_typed_def sixteen_bytes_def Let_def split: option.splits ip_address.splits)
  have c: "\<exists>p \<in> set (get_outbound_peers pm). p_state p = READY \<and> \<not> is_feeler p \<and> peer_network_address (pe_ip env) p = Some (ac_addr c)"
    if "c \<in> set (anchor_candidates env pm)" for c
    using that by (auto simp: anchor_candidates_def List.map_filter_def anchor_candidate_of_def split: if_splits)
  show "\<forall>a \<in> set (GetAnchors env f pm). na_typed a \<and>
      (\<exists>p \<in> set (get_outbound_peers pm). p_state p = READY \<and> \<not> is_feeler p \<and> peer_network_address (pe_ip env) p = Some a)"
    using c t by (auto simp: GetAnchors_def Let_def s dest!: in_set_takeD split: if_splits) (metis t)
qed

lemma first_are_oldest:
  assumes "anchor_order_ok f" "a \<in> set (GetAnchors env f pm)"
  shows "\<exists>c \<in> set (anchor_candidates env pm). ac_addr c = a \<and>
    (\<forall>d \<in> set (anchor_candidates env pm). ac_addr d \<in> set (GetAnchors env f pm) \<or> \<not> older_anchor d c)"
proof -
  let ?cs = "f (anchor_candidates env pm)"
  have s: "set ?cs = set (anchor_candidates env pm)" "sorted_wrt (\<lambda>a b. \<not> older_anchor b a) ?cs"
    using assms(1) by (auto simp: anchor_order_ok_def dest: mset_eq_setD)
  have g: "GetAnchors env f pm = map ac_addr (take 2 ?cs)"
  proof (cases "anchor_candidates env pm = []")
    case True
    then have "?cs = []" using s(1) by simp
    then show ?thesis using True by (simp add: GetAnchors_def)
  qed (simp add: GetAnchors_def Let_def MAX_ANCHORS_def min_def)
  then obtain c where c: "c \<in> set (take 2 ?cs)" "ac_addr c = a" using assms(2) by auto
  have "ac_addr d \<in> set (GetAnchors env f pm) \<or> \<not> older_anchor d c" if "d \<in> set (anchor_candidates env pm)" for d
  proof -
    have "d \<in> set (take 2 ?cs) \<or> d \<in> set (drop 2 ?cs)" using that s(1) by (metis Un_iff append_take_drop_id set_append)
    moreover have "\<forall>x \<in> set (take 2 ?cs). \<forall>y \<in> set (drop 2 ?cs). \<not> older_anchor y x"
      using s(2) by (metis append_take_drop_id sorted_wrt_append)
    ultimately show ?thesis using c(1) g by auto
  qed
  then show ?thesis using c s(1) by (metis in_set_takeD)
qed

text \<open>
  Anchors: at most two are chosen, all from outbound peers that have finished the handshake and are not
  feelers, and no candidate left out has been connected for longer than one that was chosen, or for as long with a
  lower ping.  When saving them reports success, the next load gives exactly these anchors and removes the file, so that
  a further load gives none.
\<close>

theorem anchors_survive_restart:
  assumes "anchor_order_ok f" and "sixteen_bytes (pe_ip env)" and "anchors_json_ok J"
    and "GetAnchors env f pm = as" and "as \<noteq> []" and "SaveAnchors env f J io path pm files = (True, files')"
  shows "length as \<le> 2 \<and>
    (\<forall>a \<in> set as. \<exists>c \<in> set (anchor_candidates env pm). ac_addr c = a \<and>
       (\<forall>d \<in> set (anchor_candidates env pm). ac_addr d \<in> set as \<or> \<not> older_anchor d c)) \<and>
    (\<forall>a \<in> set as. \<exists>p \<in> set (get_outbound_peers pm). p_state p = READY \<and> \<not> is_feeler p \<and> peer_network_address (pe_ip env) p = Some a) \<and>
    LoadAnchors J True path files' = (as, files'(path := None)) \<and>
    fst (LoadAnchors J removable path (files'(path := None))) = []"
proof -
  let ?doc = "\<lparr>an_version = Field 1, an_count = Field (int (length as)), an_anchors = Some (map anchor_document as)\<rparr>"
  obtain data where d: "aj_dump J ?doc = Some data" "files' path = Some data"
    using assms(4-6) by (auto simp: SaveAnchors_def write_peers_def Let_def split: option.splits if_splits)
  have p: "aj_parse J data = Some ?doc" using assms(3) d(1) by (simp add: anchors_json_ok_def)
  have "LoadAnchors J True path files' = (as, files'(path := None))"
    using load_anchor_documents [of as] anchors_sound [OF assms(1,2), of pm] assms(4) d(2) p by (simp add: LoadAnchors_def value_or_def)
  moreover have "fst (LoadAnchors J removable path (files'(path := None))) = []" by (simp add: LoadAnchors_def)
  ultimately show ?thesis using anchors_sound [OF assms(1,2), of pm] first_are_oldest [OF assms(1), of _ env pm] unfolding assms(4) by blast
qed

definition anchor_peer :: peer where
  "anchor_peer = sample_peer\<lparr>p_state := READY, p_is_inbound := False, p_connection_type := OUTBOUND, p_id := 1, p_connection := Some (''a'', 9590)\<rparr>"

definition anchor_env :: peer_env where
  "anchor_env = sample_penv\<lparr>pe_ip := \<lparr>make_address = (\<lambda>s. Some (V6 (replicate 15 0 @ [7]))), make_address_v6 = (\<lambda>v. replicate 16 0),
     is_v4_mapped = (\<lambda>b. False), make_address_v4 = (\<lambda>b. 0), v4_to_string = (\<lambda>v. None), v6_to_string = (\<lambda>b. None)\<rparr>\<rparr>"

definition anchor_pm :: PeerLifecycleManager where
  "anchor_pm = (new_PeerLifecycleManager default_config \<lparr>be_now = 0, be_json = \<lparr>json_dump = Map.empty, json_parse = Map.empty\<rparr>,
       be_io = \<lparr>io_open = True, io_write = True, io_written = 0, io_fsync = True, io_rename = True, io_remove = True\<rparr>\<rparr> [] Map.empty)
     \<lparr>peer_states := [(1, new_PerPeerState anchor_peer 0)]\<rparr>"

definition anchor_sort :: "anchor_candidate list \<Rightarrow> anchor_candidate list" where
  "anchor_sort = sort_key (\<lambda>c. (- ac_age_s c, ac_ping_ms c))"

definition anchor_addr :: NetworkAddress where
  "anchor_addr = \<lparr>na_services = p_peer_services anchor_peer, na_ip = replicate 15 0 @ [7], na_port = 9590\<rparr>"

lemma anchor_sort_ok: "anchor_order_ok anchor_sort"
proof -
  have "sorted_wrt (\<lambda>a b. \<not> older_anchor b a) (anchor_sort cs)" for cs
    by (rule sorted_wrt_mono_rel [OF _ sorted_sort_key [unfolded sorted_wrt_map, of "\<lambda>c. (- ac_age_s c, ac_ping_ms c)" cs, folded anchor_sort_def]])
      (auto simp: older_anchor_def)
  then show ?thesis by (simp add: anchor_order_ok_def anchor_sort_def)
qed

theorem anchors_survive_restart_witness:
  "\<exists>J files'. SaveAnchors anchor_env anchor_sort J \<lparr>po_open = True, po_write = True, po_written = 2, po_fsync = True, po_rename = True,
       po_remove_dest = False, po_rename_again = False, po_remove = False\<rparr> ''anchors.json'' anchor_pm Map.empty = (True, files') \<and>
     LoadAnchors J True ''anchors.json'' files' = ([anchor_addr], files'(''anchors.json'' := None))"
proof -
  let ?doc = "\<lparr>an_version = Field 1, an_count = Field 1, an_anchors = Some [anchor_document anchor_addr]\<rparr>"
  let ?J = "\<lparr>aj_dump = [?doc \<mapsto> ''{}''], aj_parse = [''{}'' \<mapsto> ?doc]\<rparr>"
  let ?io = "\<lparr>po_open = True, po_write = True, po_written = 2, po_fsync = True, po_rename = True,
       po_remove_dest = False, po_rename_again = False, po_remove = False\<rparr>"
  have "anchor_candidates anchor_env anchor_pm \<noteq> [] \<and> map ac_addr (anchor_candidates anchor_env anchor_pm) = [anchor_addr]"
    by (simp add: anchor_candidates_def get_outbound_peers_def all_peers_def anchor_pm_def new_PerPeerState_def anchor_peer_def anchor_candidate_of_def
        is_connected_def is_feeler_def peer_network_address_def anchor_env_def peer_address_def peer_port_def anchor_addr_def null_NetworkAddress_def List.map_filter_def)
  then obtain c where "anchor_candidates anchor_env anchor_pm = [c]" "ac_addr c = anchor_addr" by auto
  then have g: "GetAnchors anchor_env anchor_sort anchor_pm = [anchor_addr]"
    by (simp add: GetAnchors_def anchor_sort_def MAX_ANCHORS_def)
  have b: "sixteen_bytes (pe_ip anchor_env)" by (simp add: sixteen_bytes_def anchor_env_def)
  have j: "anchors_json_ok ?J" by (simp add: anchors_json_ok_def)
  have s: "SaveAnchors anchor_env anchor_sort ?J ?io ''anchors.json'' anchor_pm Map.empty = (True, [''anchors.json'' \<mapsto> ''{}''])"
    by (simp add: SaveAnchors_def g write_peers_def)
  have "LoadAnchors ?J True ''anchors.json'' [''anchors.json'' \<mapsto> ''{}''] = ([anchor_addr], [''anchors.json'' \<mapsto> ''{}''](''anchors.json'' := None))"
    using anchors_survive_restart [OF anchor_sort_ok b j g _ s, of True] by blast
  then show ?thesis using s by blast
qed

end
