(* ===== verification/Discovery.thy ===== *)
theory Discovery
  imports Anchor_Manager Header_Sync Peer_Limits
begin

text \<open>
  \<open>PeerDiscoveryManager\<close> of \<open>peer_discovery_manager.cpp\<close>: address messages and requests, the ring of recent addresses,
  the addresses learned from each peer, bootstrapping, and what the manager does when the peer manager reports on
  its peers.  It composes the address manager with the peer table; removing a peer tells the header sync too, so the
  handlers work on the state of \<open>Header_Sync\<close>.

  The iteration order of a hash map is a parameter (\<open>de_order\<close>), and so are the two shuffles.
\<close>

section \<open>State\<close>

definition ECHO_SUPPRESS_TTL_SEC :: int where "ECHO_SUPPRESS_TTL_SEC = 600"
definition MAX_LEARNED_PER_PEER :: nat where "MAX_LEARNED_PER_PEER = 2000"
definition RECENT_ADDRS_MAX :: nat where "RECENT_ADDRS_MAX = 5000"

record GetAddrDebugStats =
  ga_total :: u64
  ga_served :: u64
  ga_ignored_outbound :: u64
  ga_ignored_prehandshake :: u64
  ga_ignored_repeat :: u64
  ga_last_from_addrman :: nat
  ga_last_from_recent :: nat
  ga_last_from_learned :: nat
  ga_last_suppressed :: nat

record PeerDiscoveryManager =
  dm_datadir :: string
  dm_addr :: AddressManager
  dm_recent :: "TimestampedAddress list"
  dm_stats :: GetAddrDebugStats

definition PeerDiscoveryManager_new :: "string \<Rightarrow> PeerDiscoveryManager" where
  "PeerDiscoveryManager_new datadir =
     \<lparr>dm_datadir = datadir, dm_addr = AddressManager_new, dm_recent = [],
      dm_stats = \<lparr>ga_total = 0, ga_served = 0, ga_ignored_outbound = 0, ga_ignored_prehandshake = 0, ga_ignored_repeat = 0,
        ga_last_from_addrman = 0, ga_last_from_recent = 0, ga_last_from_learned = 0, ga_last_suppressed = 0\<rparr>\<rparr>"

record disc_env =
  de_sync :: sync_env
  de_order :: "LearnedMap \<Rightarrow> LearnedMap"
  de_sample :: "TimestampedAddress list \<Rightarrow> TimestampedAddress list"
  de_shuffle :: "TimestampedAddress list \<Rightarrow> TimestampedAddress list"

abbreviation de_peer :: "disc_env \<Rightarrow> peer_env" where
  "de_peer env \<equiv> se_peer (de_sync env)"

definition de_now :: "disc_env \<Rightarrow> u32" where
  "de_now env = word_of_int (pe_time (de_peer env))"

definition MakeKey :: "NetworkAddress \<Rightarrow> AddressKey" where
  "MakeKey a = \<lparr>ak_ip = na_ip a, ak_port = na_port a\<rparr>"

section \<open>Address messages\<close>

definition prune_learned :: "int \<Rightarrow> LearnedMap \<Rightarrow> LearnedMap" where
  "prune_learned now_s learned = filter (\<lambda>(k, e). \<not> now_s - last_seen_s e > ECHO_SUPPRESS_TTL_SEC) learned"

definition learn_one :: "int \<Rightarrow> TimestampedAddress \<Rightarrow> LearnedMap \<Rightarrow> LearnedMap" where
  "learn_one now_s ta learned =
     (let k = MakeKey (ta_address ta);
          e = (case map_of learned k of None \<Rightarrow> \<lparr>ts_addr = null_TimestampedAddress, last_seen_s = 0\<rparr> | Some e \<Rightarrow> e);
          e = (if last_seen_s e = 0 \<or> ta_timestamp ta \<ge> ta_timestamp (ts_addr e) then e\<lparr>ts_addr := ta\<rparr> else e)
      in AList.update k (e\<lparr>last_seen_s := now_s\<rparr>) learned)"

text \<open>The first entry with the earliest time, as the loop finds it.\<close>

fun oldest_learned :: "LearnedMap \<Rightarrow> AddressKey \<times> LearnedEntry \<Rightarrow> AddressKey \<times> LearnedEntry" where
  "oldest_learned [] victim = victim"
| "oldest_learned (x # xs) victim = oldest_learned xs (if last_seen_s (snd x) < last_seen_s (snd victim) then x else victim)"

lemma oldest_learned_mem: "oldest_learned xs v \<in> insert v (set xs)"
  by (induction xs arbitrary: v) auto

function evict_learned :: "LearnedMap \<Rightarrow> LearnedMap" where
  "evict_learned learned =
     (if length learned > MAX_LEARNED_PER_PEER
      then evict_learned (remove1 (oldest_learned (tl learned) (hd learned)) learned)
      else learned)"
  by auto

termination evict_learned
proof (relation "measure length")
  fix learned :: LearnedMap
  assume "length learned > MAX_LEARNED_PER_PEER"
  then obtain x xs where l: "learned = x # xs" by (cases learned) auto
  have "oldest_learned (tl learned) (hd learned) \<in> set learned" using oldest_learned_mem [of xs x] by (simp add: l)
  then have "length (remove1 (oldest_learned (tl learned) (hd learned)) learned) = length learned - 1" by (simp add: length_remove1)
  then show "(remove1 (oldest_learned (tl learned) (hd learned)) learned, learned) \<in> measure length" by (simp add: l)
qed simp

declare evict_learned.simps [simp del]

definition learn_addresses :: "disc_env \<Rightarrow> TimestampedAddress list \<Rightarrow> LearnedMap \<Rightarrow> LearnedMap" where
  "learn_addresses env addresses learned =
     (let now_s = pe_time (de_peer env);
          learned = prune_learned now_s learned;
          learned = fold (learn_one now_s) addresses learned
      in evict_learned (de_order env learned))"

definition ModifyLearnedAddresses :: "int \<Rightarrow> (LearnedMap \<Rightarrow> LearnedMap) \<Rightarrow> PeerLifecycleManager \<Rightarrow> PeerLifecycleManager" where
  "ModifyLearnedAddresses peer_id modifier pm =
     pm\<lparr>peer_states := Modify peer_id (\<lambda>state. state\<lparr>learned_addresses := modifier (learned_addresses state)\<rparr>) (peer_states pm)\<rparr>"

definition push_recent :: "TimestampedAddress \<Rightarrow> TimestampedAddress list \<Rightarrow> TimestampedAddress list" where
  "push_recent ta recent = (let recent = recent @ [ta] in if length recent > RECENT_ADDRS_MAX then tl recent else recent)"

type_synonym disc_state = "sync_node \<times> PeerDiscoveryManager"

definition HandleAddr :: "disc_env \<Rightarrow> peer \<Rightarrow> TimestampedAddress list \<Rightarrow> disc_state \<Rightarrow> bool \<times> disc_state" where
  "HandleAddr env p addresses = (\<lambda>(s, dm).
     if \<not> p_successfully_connected p then (True, s, dm)
     else
       let oversized = (length addresses > MAX_ADDR_SIZE);
           s = (if oversized then hs_report (p_id p) OversizedMessage s else s) in
       if oversized \<and> ShouldDisconnect (p_id p) (peer_states (sn_peers s)) then (False, hs_remove_peer (de_sync env) (p_id p) s, dm)
       else
         let addresses = take MAX_ADDR_SIZE addresses;
             dm = dm\<lparr>dm_addr := snd (add_multiple (de_now env) addresses (dm_addr dm))\<rparr>;
             s = s\<lparr>sn_peers := ModifyLearnedAddresses (p_id p) (learn_addresses env addresses) (sn_peers s)\<rparr>;
             dm = dm\<lparr>dm_recent := fold push_recent addresses (dm_recent dm)\<rparr>
         in (True, s, dm))"

section \<open>Address requests\<close>

definition is_suppressed :: "int \<Rightarrow> LearnedMap \<Rightarrow> AddressKey \<Rightarrow> AddressKey \<Rightarrow> bool" where
  "is_suppressed now_s suppression peer_self_key key \<longleftrightarrow>
     (case map_of suppression key of
        Some e \<Rightarrow> (let age = now_s - last_seen_s e in age \<ge> 0 \<and> age \<le> ECHO_SUPPRESS_TTL_SEC)
      | None \<Rightarrow> False) \<or> key = peer_self_key"

record getaddr_reply =
  gr_addresses :: "TimestampedAddress list"
  gr_included :: "AddressKey list"
  gr_added :: nat
  gr_suppressed :: nat

text \<open>One of the three loops that fill the reply.\<close>

fun fill_reply :: "(AddressKey \<Rightarrow> bool) \<Rightarrow> (AddressKey \<times> TimestampedAddress) list \<Rightarrow> getaddr_reply \<Rightarrow> getaddr_reply" where
  "fill_reply suppressed [] r = r"
| "fill_reply suppressed ((k, ta) # xs) r =
     (if length (gr_addresses r) \<ge> MAX_ADDR_SIZE then r
      else if suppressed k then fill_reply suppressed xs (r\<lparr>gr_suppressed := gr_suppressed r + 1\<rparr>)
      else if k \<in> set (gr_included r) then fill_reply suppressed xs r
      else fill_reply suppressed xs (r\<lparr>gr_addresses := gr_addresses r @ [ta], gr_included := k # gr_included r, gr_added := gr_added r + 1\<rparr>))"

definition keyed :: "TimestampedAddress list \<Rightarrow> (AddressKey \<times> TimestampedAddress) list" where
  "keyed tas = map (\<lambda>ta. (MakeKey (ta_address ta), ta)) tas"

definition learned_from_others :: "disc_env \<Rightarrow> int \<Rightarrow> PeerLifecycleManager \<Rightarrow> (AddressKey \<times> TimestampedAddress) list" where
  "learned_from_others env peer_id pm =
     concat (map (\<lambda>(i, m). map (\<lambda>(k, e). (k, ts_addr e)) (de_order env m)) (filter (\<lambda>(i, m). i \<noteq> peer_id) (GetAllLearnedAddresses pm)))"

definition peer_self_key :: "disc_env \<Rightarrow> peer \<Rightarrow> AddressKey" where
  "peer_self_key env p = MakeKey (from_string (pe_ip (de_peer env)) (peer_address p) (peer_port p) NODE_NETWORK)"

definition suppression_map :: "disc_env \<Rightarrow> peer \<Rightarrow> PeerLifecycleManager \<Rightarrow> LearnedMap" where
  "suppression_map env p pm =
     (case GetLearnedAddresses (p_id p) pm of None \<Rightarrow> [] | Some learned \<Rightarrow> prune_learned (pe_time (de_peer env)) learned)"

text \<open>The reply before it is shuffled, with the counts from the ring, from the address manager, and from other peers.\<close>

definition build_reply :: "disc_env \<Rightarrow> peer \<Rightarrow> PeerLifecycleManager \<Rightarrow> PeerDiscoveryManager \<Rightarrow> getaddr_reply \<times> nat \<times> nat \<times> nat" where
  "build_reply env p pm dm =
     (let suppressed = is_suppressed (pe_time (de_peer env)) (suppression_map env p pm) (peer_self_key env p);
          r = fill_reply suppressed (keyed (rev (dm_recent dm))) \<lparr>gr_addresses = [], gr_included = [], gr_added = 0, gr_suppressed = 0\<rparr>;
          from_recent = gr_added r;
          r = (if length (gr_addresses r) < MAX_ADDR_SIZE
               then fill_reply suppressed (keyed (get_addresses (de_sample env) (de_now env) MAX_ADDR_SIZE (dm_addr dm))) r else r);
          from_addrman = gr_added r - from_recent;
          r = (if gr_addresses r = [] then fill_reply suppressed (learned_from_others env (p_id p) pm) r else r);
          from_learned = gr_added r - from_recent - from_addrman
      in (r, from_recent, from_addrman, from_learned))"

definition HandleGetAddr :: "disc_env \<Rightarrow> peer \<Rightarrow> disc_state \<Rightarrow> bool \<times> disc_state" where
  "HandleGetAddr env p = (\<lambda>(s, dm).
     if \<not> p_successfully_connected p then (True, s, dm)
     else
       let stats = (\<lambda>f dm. dm\<lparr>dm_stats := f (dm_stats dm)\<rparr>);
           dm = stats (\<lambda>t. t\<lparr>ga_total := ga_total t + 1\<rparr>) dm in
       if \<not> p_is_inbound p then (True, s, stats (\<lambda>t. t\<lparr>ga_ignored_outbound := ga_ignored_outbound t + 1\<rparr>) dm)
       else if HasRepliedToGetAddr (p_id p) (sn_peers s) then (True, s, stats (\<lambda>t. t\<lparr>ga_ignored_repeat := ga_ignored_repeat t + 1\<rparr>) dm)
       else
         let s = s\<lparr>sn_peers := MarkGetAddrReplied (p_id p) (sn_peers s)\<rparr>;
             (r, from_recent, from_addrman, from_learned) = build_reply env p (sn_peers s) dm;
             dm = stats (\<lambda>t. t\<lparr>ga_last_from_addrman := from_addrman, ga_last_from_recent := from_recent,
                    ga_last_from_learned := from_learned, ga_last_suppressed := gr_suppressed r\<rparr>) dm in
         if \<not> is_connected p then (True, s, dm)
         else
           let addresses = (if gr_addresses r \<noteq> [] then de_shuffle env (gr_addresses r) else gr_addresses r) in
           (True, s\<lparr>sn_peers := on_peer (p_id p) (send_message (de_peer env) (Addr addresses)) (sn_peers s)\<rparr>,
            stats (\<lambda>t. t\<lparr>ga_served := ga_served t + 1\<rparr>) dm))"

section \<open>Reports of the peer manager\<close>

text \<open>The two subscriptions; \<open>known\<close> is whether the peer table has the peer when the report arrives.\<close>

definition on_peer_connected :: "disc_env \<Rightarrow> bool \<Rightarrow> string \<Rightarrow> u16 \<Rightarrow> string \<Rightarrow> PeerDiscoveryManager \<Rightarrow> PeerDiscoveryManager" where
  "on_peer_connected env known address port connection_type dm =
     (if \<not> known then dm
      else if connection_type = ''outbound'' then
        let net_addr = from_string (pe_ip (de_peer env)) address port NODE_NETWORK in
        dm\<lparr>dm_addr := good (de_now env) net_addr (snd (am_add (de_now env) net_addr 0 (dm_addr dm)))\<rparr>
      else dm)"

definition on_peer_disconnected :: "disc_env \<Rightarrow> bool \<Rightarrow> string \<Rightarrow> u16 \<Rightarrow> bool \<Rightarrow> PeerDiscoveryManager \<Rightarrow> PeerDiscoveryManager" where
  "on_peer_disconnected env known address port mark_addr_good dm =
     (if \<not> known then dm
      else if mark_addr_good \<and> port \<noteq> 0 \<and> address \<noteq> [] then
        dm\<lparr>dm_addr := good (de_now env) (from_string (pe_ip (de_peer env)) address port NODE_NETWORK) (dm_addr dm)\<rparr>
      else dm)"

text \<open>What a call of the peer manager does here, with the peer table it leaves.\<close>

definition dm_call :: "disc_env \<Rightarrow> PeerLifecycleManager \<Rightarrow> pm_call \<Rightarrow> PeerDiscoveryManager \<Rightarrow> PeerDiscoveryManager" where
  "dm_call env pm c dm =
     (case c of
        NotifyPeerConnected peer_id address port connection_type \<Rightarrow>
          on_peer_connected env (get_peer peer_id pm \<noteq> None) address port connection_type dm
      | NotifyPeerDisconnected peer_id address port reason mark_addr_good \<Rightarrow>
          on_peer_disconnected env (get_peer peer_id pm \<noteq> None) address port mark_addr_good dm
      | CleanupStale \<Rightarrow> dm\<lparr>dm_addr := cleanup_stale (de_now env) (dm_addr dm)\<rparr>
      | AddrGood addr \<Rightarrow> dm\<lparr>dm_addr := good (de_now env) addr (dm_addr dm)\<rparr>
      | AddrAttempt addr \<Rightarrow> dm\<lparr>dm_addr := attempt (de_now env) addr (dm_addr dm)\<rparr>
      | AddrFailed addr \<Rightarrow> dm\<lparr>dm_addr := failed (de_now env) addr (dm_addr dm)\<rparr>
      | TransportConnect address port \<Rightarrow> dm
      | CloseTransport address port \<Rightarrow> dm)"

section \<open>Bootstrapping\<close>

text \<open>\<open>std::stoi\<close>: leading white space, an optional sign and the longest run of digits; \<open>None\<close> when it raises.\<close>

definition stoi :: "string \<Rightarrow> int option" where
  "stoi s =
     (let s = dropWhile (\<lambda>c. c \<in> {CHR '' '', CHR 0x09, CHR 0x0A, CHR 0x0B, CHR 0x0C, CHR 0x0D}) s;
          (negative, s) = (case s of c # cs \<Rightarrow> if c = CHR ''-'' then (True, cs) else if c = CHR ''+'' then (False, cs) else (False, s) | [] \<Rightarrow> (False, s));
          digits = takeWhile (\<lambda>c. digit_val c \<noteq> None) s in
      if digits = [] then None
      else
        let v = int (the (dec_parse 0 digits)); v = (if negative then - v else v) in
        if in_int32 v then Some v else None)"

definition parse_seed :: "ip_lib \<Rightarrow> string \<Rightarrow> NetworkAddress option" where
  "parse_seed lib seed_str =
     (let ip_str = takeWhile (\<lambda>c. c \<noteq> CHR '':'') seed_str in
      if length ip_str = length seed_str then None
      else case stoi (drop (length ip_str + 1) seed_str) of
          None \<Rightarrow> None
        | Some port_int \<Rightarrow>
            if port_int \<le> 0 \<or> port_int > 65535 then None
            else
              let addr = null_NetworkAddress\<lparr>na_services := NODE_NETWORK, na_port := word_of_int port_int\<rparr> in
              (case make_address lib ip_str of
                 None \<Rightarrow> None
               | Some (V4 v) \<Rightarrow> Some (addr\<lparr>na_ip := make_address_v6 lib v\<rparr>)
               | Some (V6 bytes) \<Rightarrow> Some (addr\<lparr>na_ip := bytes\<rparr>)))"

definition BootstrapFromFixedSeeds :: "disc_env \<Rightarrow> string list \<Rightarrow> PeerDiscoveryManager \<Rightarrow> PeerDiscoveryManager" where
  "BootstrapFromFixedSeeds env fixed_seeds dm =
     fold (\<lambda>seed_str dm. case parse_seed (pe_ip (de_peer env)) seed_str of
         None \<Rightarrow> dm
       | Some addr \<Rightarrow> dm\<lparr>dm_addr := snd (am_add (de_now env) addr (de_now env) (dm_addr dm))\<rparr>) fixed_seeds dm"

definition anchors_path :: "PeerDiscoveryManager \<Rightarrow> string" where
  "anchors_path dm = dm_datadir dm @ ''/anchors.json''"

text \<open>
  \<open>Start\<close> up to the connection to the anchors, and after it: between the two the callback of the network manager dials the
  anchors, which reports to this manager.
\<close>

definition dm_Start_anchors :: "anchors_json \<Rightarrow> bool \<Rightarrow> PeerDiscoveryManager \<Rightarrow> (string \<Rightarrow> string option) \<Rightarrow> NetworkAddress list \<times> (string \<Rightarrow> string option)" where
  "dm_Start_anchors J removable dm files =
     (if dm_datadir dm \<noteq> [] \<and> files (anchors_path dm) \<noteq> None then LoadAnchors J removable (anchors_path dm) files else ([], files))"

definition dm_Start_bootstrap :: "disc_env \<Rightarrow> PeerDiscoveryManager \<Rightarrow> PeerDiscoveryManager" where
  "dm_Start_bootstrap env dm =
     (if am_size (dm_addr dm) = 0 then BootstrapFromFixedSeeds env (vFixedSeeds (se_params (de_sync env))) dm else dm)"

section \<open>What is kept of addresses is bounded\<close>

definition orders_ok :: "disc_env \<Rightarrow> bool" where
  "orders_ok env \<longleftrightarrow> (\<forall>m. mset (de_order env m) = mset m) \<and> (\<forall>xs. mset (de_sample env xs) = mset xs) \<and> (\<forall>xs. mset (de_shuffle env xs) = mset xs)"

definition learned_ok :: "LearnedMap \<Rightarrow> bool" where
  "learned_ok m \<longleftrightarrow> distinct (map fst m) \<and> (\<forall>(k, e) \<in> set m. k = MakeKey (ta_address (ts_addr e)))"

definition disc_inv :: "disc_state \<Rightarrow> bool" where
  "disc_inv = (\<lambda>(s, dm). addr_inv (dm_addr dm) \<and> length (dm_recent dm) \<le> RECENT_ADDRS_MAX \<and>
     (\<forall>(i, st) \<in> set (peer_states (sn_peers s)).
        learned_ok (learned_addresses st) \<and> length (learned_addresses st) \<le> MAX_LEARNED_PER_PEER))"

lemma learned_ok_mset: "mset m = mset m' \<Longrightarrow> learned_ok m = learned_ok m'"
proof -
  assume m: "mset m = mset m'"
  then have "mset (map fst m) = mset (map fst m')" by simp
  then show ?thesis using mset_eq_setD [OF m] unfolding learned_ok_def by (metis mset_eq_imp_distinct_iff)
qed

lemma learned_ok_remove: "learned_ok m \<Longrightarrow> learned_ok (remove1 x m)"
proof -
  assume m: "learned_ok m"
  have "distinct (map fst (remove1 x m))" using m
    by (induction m) (auto simp: learned_ok_def image_iff dest: notin_set_remove1)
  then show ?thesis using m by (auto simp: learned_ok_def dest: notin_set_remove1)
qed

lemma learned_ok_prune: "learned_ok m \<Longrightarrow> learned_ok (prune_learned t m)"
  by (auto simp: learned_ok_def prune_learned_def distinct_map_filter)

lemma alist_update_mem: "(k', v') \<in> set (AList.update k v m) \<Longrightarrow> (k', v') = (k, v) \<or> (k', v') \<in> set m"
  by (induction m) (auto split: if_splits)

lemma learned_ok_update: "learned_ok m \<Longrightarrow> MakeKey (ta_address (ts_addr e)) = k \<Longrightarrow> learned_ok (AList.update k e m)"
  by (auto simp: learned_ok_def distinct_update dest: alist_update_mem)

lemma learned_ok_learn: "learned_ok m \<Longrightarrow> learned_ok (learn_one t ta m)"
proof -
  assume m: "learned_ok m"
  let ?k = "MakeKey (ta_address ta)"
  have "MakeKey (ta_address (ts_addr e)) = ?k" if "map_of m ?k = Some e" for e
    using m map_of_SomeD [OF that] by (auto simp: learned_ok_def)
  then show ?thesis using m
    by (cases "map_of m ?k") (simp_all add: learn_one_def Let_def learned_ok_update)
qed

lemma evict_learned_ok: "learned_ok m \<Longrightarrow> learned_ok (evict_learned m) \<and> length (evict_learned m) \<le> MAX_LEARNED_PER_PEER"
proof (induction m rule: evict_learned.induct)
  case (1 learned)
  show ?case
  proof (cases "length learned > MAX_LEARNED_PER_PEER")
    case True
    then show ?thesis using 1(1) [OF True learned_ok_remove [OF 1(2)]] by (subst (1 2) evict_learned.simps) simp
  next
    case False
    then show ?thesis using 1(2) by (subst (1 2) evict_learned.simps) simp
  qed
qed

lemma learn_addresses_ok:
  assumes "orders_ok env" "learned_ok m"
  shows "learned_ok (learn_addresses env tas m) \<and> length (learn_addresses env tas m) \<le> MAX_LEARNED_PER_PEER"
proof -
  have "learned_ok (fold (learn_one t) tas m)" if "learned_ok m" for t m
    using that by (induction tas arbitrary: m) (simp_all add: learned_ok_learn)
  then have "learned_ok (fold (learn_one t) tas (prune_learned t m))" for t by (simp add: learned_ok_prune assms(2))
  moreover have "mset (de_order env l) = mset l" for l using assms(1) by (simp add: orders_ok_def)
  ultimately have "learned_ok (de_order env (fold (learn_one t) tas (prune_learned t m)))" for t
    using learned_ok_mset [of "de_order env (fold (learn_one t) tas (prune_learned t m))"] by simp
  then show ?thesis unfolding learn_addresses_def Let_def by (rule evict_learned_ok)
qed

lemma add_internal_inv: "addr_inv am \<Longrightarrow> addr_inv (snd (add_internal t a ts am))"
  using add_refines [of am t a ts] by (simp add: am_add_def)

lemma add_multiple_inv: "addr_inv am \<Longrightarrow> addr_inv (snd (add_multiple t tas am))"
proof (induction tas arbitrary: am)
  case (Cons ta tas)
  obtain ok am' where a: "add_internal t (ta_address ta) (ta_timestamp ta) am = (ok, am')" by force
  then have "addr_inv am'" using add_internal_inv [OF Cons.prems, of t "ta_address ta" "ta_timestamp ta"] by simp
  then show ?case using Cons.IH [of am'] a by (auto split: prod.splits)
qed simp

lemma push_recent_bound: "length r \<le> RECENT_ADDRS_MAX \<Longrightarrow> length (fold push_recent tas r) \<le> RECENT_ADDRS_MAX"
  by (induction tas arbitrary: r) (simp_all add: push_recent_def Let_def)

text \<open>Operations on the peer table that leave the learned addresses of every peer that stays alone.\<close>

definition keeps_learned :: "PeerLifecycleManager \<Rightarrow> PeerLifecycleManager \<Rightarrow> bool" where
  "keeps_learned pm pm' \<longleftrightarrow> (\<forall>(i, st) \<in> set (peer_states pm').
     \<exists>st0. (i, st0) \<in> set (peer_states pm) \<and> learned_addresses st = learned_addresses st0)"

lemma kl_refl: "keeps_learned pm pm"
  by (auto simp: keeps_learned_def)

lemma kl_trans: "keeps_learned a b \<Longrightarrow> keeps_learned b c \<Longrightarrow> keeps_learned a c"
  unfolding keeps_learned_def by fastforce

lemma om_update_mem: "x \<in> set (om_update k v m) \<Longrightarrow> x = (k, v) \<or> x \<in> set m"
  by (induction k v m rule: om_update.induct) (auto split: if_splits)

lemma Modify_mem: "(i, st) \<in> set (Modify k f m) \<Longrightarrow> (i, st) \<in> set m \<or> (\<exists>st0. i = k \<and> (k, st0) \<in> set m \<and> st = f st0)"
  by (auto simp: Modify_def split: option.splits dest!: om_update_mem map_of_SomeD)

lemma kl_Modify:
  assumes "\<And>st. learned_addresses (f st) = learned_addresses st"
  shows "keeps_learned pm (pm\<lparr>peer_states := Modify i f (peer_states pm)\<rparr>)"
  using assms by (auto simp: keeps_learned_def dest!: Modify_mem)

lemma kl_on_peer: "keeps_learned pm (on_peer i f pm)"
  unfolding on_peer_def by (rule kl_Modify) simp

lemma kl_remove: "keeps_learned pm (remove_peer env i pm)"
  by (auto simp: keeps_learned_def om_erase_def)

lemma kl_reset: "keeps_learned pm (reset_sync_started pm)"
proof -
  have "keeps_learned a (fold (\<lambda>p pm. if p_sync_started p then on_peer (p_id p) (\<lambda>p. p\<lparr>p_sync_started := False\<rparr>) pm else pm) ps a)" for a ps
  proof (induction ps arbitrary: a)
    case (Cons p ps)
    let ?a = "if p_sync_started p then on_peer (p_id p) (\<lambda>p. p\<lparr>p_sync_started := False\<rparr>) a else a"
    have "keeps_learned a ?a" by (simp add: kl_refl kl_on_peer)
    then show ?case using kl_trans [OF _ Cons.IH [of ?a]] by simp
  qed (simp add: kl_refl)
  then show ?thesis unfolding reset_sync_started_def .
qed

lemma kl_hs_remove: "keeps_learned (sn_peers s) (sn_peers (hs_remove_peer env i s))"
  using kl_trans [OF kl_remove kl_reset] kl_remove
  by (simp add: hs_remove_peer_def OnPeerDisconnected_def ClearSyncPeer_def Let_def)

lemma kl_report: "keeps_learned (sn_peers s) (sn_peers (hs_report i op s))"
  unfolding hs_report_def mb_apply_local sync_node.simps by (simp add: kl_Modify on_misbehavior_def)

lemma disc_inv_keeps: "disc_inv (s, dm) \<Longrightarrow> keeps_learned (sn_peers s) (sn_peers s') \<Longrightarrow> disc_inv (s', dm)"
  unfolding disc_inv_def keeps_learned_def by fastforce

lemma HandleAddr_inv:
  assumes o: "orders_ok env" and inv: "disc_inv (s, dm)" and h: "HandleAddr env p tas (s, dm) = (ok, s', dm')"
  shows "disc_inv (s', dm')"
proof (cases "p_successfully_connected p")
  case False
  then show ?thesis using inv h by (simp add: HandleAddr_def)
next
  case True
  define s1 where "s1 = (if length tas > MAX_ADDR_SIZE then hs_report (p_id p) OversizedMessage s else s)"
  have inv1: "disc_inv (s1, dm)"
    using disc_inv_keeps [OF inv kl_report] inv by (simp add: s1_def)
  show ?thesis
  proof (cases "length tas > MAX_ADDR_SIZE \<and> ShouldDisconnect (p_id p) (peer_states (sn_peers s1))")
    case True
    then show ?thesis using h \<open>p_successfully_connected p\<close> disc_inv_keeps [OF inv1 kl_hs_remove]
      by (auto simp: HandleAddr_def Let_def s1_def)
  next
    case False
    let ?l = "learn_addresses env (take MAX_ADDR_SIZE tas)"
    have r: "s' = s1\<lparr>sn_peers := ModifyLearnedAddresses (p_id p) ?l (sn_peers s1)\<rparr>"
      "dm' = dm\<lparr>dm_addr := snd (add_multiple (de_now env) (take MAX_ADDR_SIZE tas) (dm_addr dm)),
         dm_recent := fold push_recent (take MAX_ADDR_SIZE tas) (dm_recent dm)\<rparr>"
      using h False \<open>p_successfully_connected p\<close> unfolding HandleAddr_def prod.case Let_def s1_def [symmetric] by auto
    have "learned_ok (learned_addresses st) \<and> length (learned_addresses st) \<le> MAX_LEARNED_PER_PEER"
      if st: "(i, st) \<in> set (peer_states (sn_peers s'))" for i st
    proof -
      obtain st0 where st0: "(i, st0) \<in> set (peer_states (sn_peers s1))"
          "st = st0 \<or> st = st0\<lparr>learned_addresses := ?l (learned_addresses st0)\<rparr>"
        using st by (auto simp: r(1) ModifyLearnedAddresses_def dest!: Modify_mem)
      have old: "learned_ok (learned_addresses st0)" "length (learned_addresses st0) \<le> MAX_LEARNED_PER_PEER"
        using inv1 st0(1) by (auto simp: disc_inv_def)
      show ?thesis using st0(2) old learn_addresses_ok [OF o old(1)] by auto
    qed
    then show ?thesis using inv by (auto simp: disc_inv_def r(2) add_multiple_inv push_recent_bound)
  qed
qed

section \<open>What an address request gets\<close>

definition reply_ok :: "(AddressKey \<Rightarrow> bool) \<Rightarrow> TimestampedAddress set \<Rightarrow> getaddr_reply \<Rightarrow> bool" where
  "reply_ok suppressed sources r \<longleftrightarrow> length (gr_addresses r) \<le> MAX_ADDR_SIZE \<and>
     map (\<lambda>ta. MakeKey (ta_address ta)) (gr_addresses r) = rev (gr_included r) \<and> distinct (gr_included r) \<and>
     (\<forall>k \<in> set (gr_included r). \<not> suppressed k) \<and> set (gr_addresses r) \<subseteq> sources"

lemma fill_reply_ok:
  assumes "\<forall>(k, ta) \<in> set xs. k = MakeKey (ta_address ta) \<and> ta \<in> sources" "reply_ok suppressed sources r"
  shows "reply_ok suppressed sources (fill_reply suppressed xs r)"
  using assms
proof (induction suppressed xs r rule: fill_reply.induct)
  case (2 suppressed k ta xs r)
  show ?case
  proof (cases "length (gr_addresses r) \<ge> MAX_ADDR_SIZE \<or> suppressed k \<or> k \<in> set (gr_included r)")
    case True
    have "reply_ok suppressed sources (r\<lparr>gr_suppressed := gr_suppressed r + 1\<rparr>)" using 2(5) by (simp add: reply_ok_def)
    then show ?thesis using True 2 by auto
  next
    case False
    let ?r = "r\<lparr>gr_addresses := gr_addresses r @ [ta], gr_included := k # gr_included r, gr_added := gr_added r + 1\<rparr>"
    have "reply_ok suppressed sources ?r" using False 2(4,5) by (auto simp: reply_ok_def)
    then show ?thesis using False 2 by auto
  qed
qed simp

text \<open>What the node knows that it may send to a peer: the ring, the book, and what others have told it.\<close>

definition known_addresses :: "peer \<Rightarrow> PeerLifecycleManager \<Rightarrow> PeerDiscoveryManager \<Rightarrow> TimestampedAddress set" where
  "known_addresses p pm dm = set (dm_recent dm) \<union>
     {\<lparr>ta_timestamp = ai_timestamp e, ta_address = ai_address e\<rparr> | k e. book (dm_addr dm) k = Some e \<and> usable_address (ai_address e)} \<union>
     {ts_addr e | i st k e. i \<noteq> p_id p \<and> (i, st) \<in> set (peer_states pm) \<and> (k, e) \<in> set (learned_addresses st)}"

definition told_by :: "int \<Rightarrow> peer \<Rightarrow> PeerLifecycleManager \<Rightarrow> AddressKey \<Rightarrow> bool" where
  "told_by now_s p pm k \<longleftrightarrow> (\<exists>st e. map_of (peer_states pm) (p_id p) = Some st \<and> map_of (learned_addresses st) k = Some e \<and>
     0 \<le> now_s - last_seen_s e \<and> now_s - last_seen_s e \<le> 600)"

lemma prune_lookup:
  "distinct (map fst m) \<Longrightarrow> map_of (prune_learned t m) k =
     (case map_of m k of None \<Rightarrow> None | Some e \<Rightarrow> if t - last_seen_s e > 600 then None else Some e)"
proof (induction m arbitrary: k)
  case (Cons x m)
  have "map_of m (fst x) = None" using Cons.prems by (simp add: map_of_eq_None_iff)
  then have "map_of (prune_learned t m) (fst x) = None" using Cons by simp
  then show ?case using Cons by (cases x) (auto simp: prune_learned_def ECHO_SUPPRESS_TTL_SEC_def)
qed (simp add: prune_learned_def)

lemma suppressed_iff:
  assumes inv: "disc_inv (s, dm)"
  shows "is_suppressed (pe_time (de_peer env)) (suppression_map env p (sn_peers s)) self k \<longleftrightarrow>
    told_by (pe_time (de_peer env)) p (sn_peers s) k \<or> k = self"
proof (cases "map_of (peer_states (sn_peers s)) (p_id p)")
  case None
  then show ?thesis by (simp add: is_suppressed_def suppression_map_def GetLearnedAddresses_def told_by_def)
next
  case (Some st)
  let ?t = "pe_time (de_peer env)"
  have "distinct (map fst (learned_addresses st))"
    using inv map_of_SomeD [OF Some] by (auto simp: disc_inv_def learned_ok_def)
  note look = prune_lookup [OF this, of ?t k]
  show ?thesis using Some look
    by (auto simp: is_suppressed_def suppression_map_def GetLearnedAddresses_def told_by_def ECHO_SUPPRESS_TTL_SEC_def Let_def split: option.splits if_splits)
qed

lemma sampled_known:
  assumes "addr_inv am" "\<forall>xs. mset (f xs) = mset xs" "ta \<in> set (get_addresses f t n am)"
  shows "\<exists>k e. book am k = Some e \<and> usable_address (ai_address e) \<and> ta = \<lparr>ta_timestamp = ai_timestamp e, ta_address = ai_address e\<rparr>"
proof -
  have "set (f xs) = set xs" for xs using assms(2) by (metis mset_eq_setD)
  then have "ta \<in> set (collect_addresses n t (new_table am) (collect_addresses n t (tried_table am) []))"
    using assms(3) by (simp add: get_addresses_def)
  then obtain k e where "(k, e) \<in> set (tried_table am) \<union> set (new_table am)" "ta = \<lparr>ta_timestamp = ai_timestamp e, ta_address = ai_address e\<rparr>"
    by (auto simp: collect_filter min_def dest!: in_set_takeD split: if_splits) blast+
  then show ?thesis using book_mem [OF assms(1)] by metis
qed

lemma build_reply_ok:
  assumes inv: "disc_inv (s, dm)" and o: "orders_ok env" and r: "build_reply env p (sn_peers s) dm = (r, c)"
  shows "reply_ok (is_suppressed (pe_time (de_peer env)) (suppression_map env p (sn_peers s)) (peer_self_key env p))
    (known_addresses p (sn_peers s) dm) r"
proof -
  let ?S = "is_suppressed (pe_time (de_peer env)) (suppression_map env p (sn_peers s)) (peer_self_key env p)"
  let ?K = "known_addresses p (sn_peers s) dm"
  have recent: "\<forall>(k, ta) \<in> set (keyed (rev (dm_recent dm))). k = MakeKey (ta_address ta) \<and> ta \<in> ?K"
    by (auto simp: keyed_def known_addresses_def)
  have sample: "\<forall>(k, ta) \<in> set (keyed (get_addresses (de_sample env) (de_now env) MAX_ADDR_SIZE (dm_addr dm))). k = MakeKey (ta_address ta) \<and> ta \<in> ?K"
  proof -
    have "addr_inv (dm_addr dm)" "\<forall>xs. mset (de_sample env xs) = mset xs" using inv o by (simp_all add: disc_inv_def orders_ok_def)
    from sampled_known [OF this] show ?thesis by (auto simp: keyed_def known_addresses_def) blast
  qed
  have others: "\<forall>(k, ta) \<in> set (learned_from_others env (p_id p) (sn_peers s)). k = MakeKey (ta_address ta) \<and> ta \<in> ?K"
  proof -
    have ord: "set (de_order env m) = set m" for m using o by (metis orders_ok_def mset_eq_setD)
    have "k = MakeKey (ta_address (ts_addr e)) \<and> ts_addr e \<in> ?K"
      if "(i, st) \<in> set (peer_states (sn_peers s))" "i \<noteq> p_id p" "(k, e) \<in> set (learned_addresses st)" for i st k e
      using that inv by (fastforce simp: disc_inv_def learned_ok_def known_addresses_def)
    then show ?thesis by (auto simp: learned_from_others_def GetAllLearnedAddresses_def ord)
  qed
  have start: "reply_ok ?S ?K \<lparr>gr_addresses = [], gr_included = [], gr_added = 0, gr_suppressed = 0\<rparr>" by (simp add: reply_ok_def)
  note f = fill_reply_ok [OF recent start] fill_reply_ok [OF sample fill_reply_ok [OF recent start]]
    fill_reply_ok [OF others fill_reply_ok [OF recent start]] fill_reply_ok [OF others fill_reply_ok [OF sample fill_reply_ok [OF recent start]]]
  show ?thesis using r f by (auto simp: build_reply_def Let_def split: if_splits)
qed

lemma known_mono: "keeps_learned pm pm' \<Longrightarrow> known_addresses p pm' dm \<subseteq> known_addresses p pm dm"
  unfolding known_addresses_def keeps_learned_def by fastforce

lemma mark_told: "told_by t p (MarkGetAddrReplied i pm) k = told_by t p pm k"
  by (auto simp: told_by_def MarkGetAddrReplied_def map_of_Modify split: if_splits)

lemma mark_replied:
  "get_peer i pm \<noteq> None \<Longrightarrow> HasRepliedToGetAddr i (MarkGetAddrReplied i pm)"
  "HasRepliedToGetAddr i (on_peer i f pm) = HasRepliedToGetAddr i pm"
  by (auto simp: get_peer_def HasRepliedToGetAddr_def MarkGetAddrReplied_def on_peer_def map_of_Modify split: option.splits)

lemma reply_facts:
  assumes inv: "disc_inv (s, dm)" and o: "orders_ok env" and r: "build_reply env p (MarkGetAddrReplied (p_id p) (sn_peers s)) dm = (r, c)"
  defines "as \<equiv> if gr_addresses r \<noteq> [] then de_shuffle env (gr_addresses r) else gr_addresses r"
  shows "length as \<le> 1000" "distinct (map (\<lambda>a. MakeKey (ta_address a)) as)" "set as \<subseteq> known_addresses p (sn_peers s) dm"
    "\<forall>a \<in> set as. MakeKey (ta_address a) \<noteq> peer_self_key env p \<and> \<not> told_by (pe_time (de_peer env)) p (sn_peers s) (MakeKey (ta_address a))"
proof -
  let ?pm = "MarkGetAddrReplied (p_id p) (sn_peers s)" and ?s = "s\<lparr>sn_peers := MarkGetAddrReplied (p_id p) (sn_peers s)\<rparr>"
  let ?key = "\<lambda>a. MakeKey (ta_address a)"
  have k: "keeps_learned (sn_peers s) ?pm" unfolding MarkGetAddrReplied_def by (rule kl_Modify) simp
  then have inv1: "disc_inv (?s, dm)" using disc_inv_keeps [OF inv, of ?s] by simp
  have m: "mset as = mset (gr_addresses r)" using o by (simp add: orders_ok_def as_def)
  have s: "set as = set (gr_addresses r)" "length as = length (gr_addresses r)" using mset_eq_setD [OF m] mset_eq_length [OF m] .
  have "mset (map ?key as) = mset (map ?key (gr_addresses r))" using m by simp
  then have d: "distinct (map ?key as) = distinct (map ?key (gr_addresses r))" by (rule mset_eq_imp_distinct_iff)
  have ok: "reply_ok (is_suppressed (pe_time (de_peer env)) (suppression_map env p ?pm) (peer_self_key env p)) (known_addresses p ?pm dm) r"
    using build_reply_ok [OF inv1 o, of p r c] r by simp
  then have i: "map ?key (gr_addresses r) = rev (gr_included r)" "distinct (gr_included r)" by (simp_all add: reply_ok_def)
  show "length as \<le> 1000" using ok s(2) by (simp add: reply_ok_def MAX_ADDR_SIZE_def)
  show "distinct (map ?key as)" unfolding d i(1) using i(2) by simp
  show "set as \<subseteq> known_addresses p (sn_peers s) dm" using ok s(1) known_mono [OF k, of p dm] by (auto simp: reply_ok_def)
  have "set (gr_included r) = set (map ?key (gr_addresses r))" unfolding i(1) by simp
  then have "\<forall>a \<in> set (gr_addresses r). \<not> is_suppressed (pe_time (de_peer env)) (suppression_map env p ?pm) (peer_self_key env p) (?key a)"
    using ok by (auto simp: reply_ok_def)
  then show "\<forall>a \<in> set as. ?key a \<noteq> peer_self_key env p \<and> \<not> told_by (pe_time (de_peer env)) p (sn_peers s) (?key a)"
    using suppressed_iff [OF inv1, of env p] by (simp add: s(1) mark_told)
qed

section \<open>Properties\<close>

text \<open>
  \<^bold>\<open>C19.\<close> Address requests are answered once per connection and never echo: only an inbound peer that has finished the
  handshake and has not been answered before gets a reply, and from then on it counts as answered.  The reply has at
  most 1000 addresses, no two the same, none of them the peer's own or one the peer itself has told in the last ten
  minutes, and every one of them is in the ring of recent addresses, in the book, or was learned from another peer.
  The chain, the book and the ring are not touched, and what is kept per peer stays within its bounds.
\<close>

theorem getaddr_answered_once:
  assumes inv: "disc_inv (s, dm)" and o: "orders_ok env" and h: "HandleGetAddr env p (s, dm) = (ok, s', dm')"
  shows "ok \<and> disc_inv (s', dm') \<and> sn_chain s' = sn_chain s \<and> dm_addr dm' = dm_addr dm \<and> dm_recent dm' = dm_recent dm \<and>
    (sn_peers s' = sn_peers s \<or>
     p_successfully_connected p \<and> p_is_inbound p \<and> \<not> HasRepliedToGetAddr (p_id p) (sn_peers s) \<and>
     (get_peer (p_id p) (sn_peers s) \<noteq> None \<longrightarrow> HasRepliedToGetAddr (p_id p) (sn_peers s')) \<and>
     (sn_peers s' = MarkGetAddrReplied (p_id p) (sn_peers s) \<or>
      (\<exists>as. sn_peers s' = on_peer (p_id p) (send_message (de_peer env) (Addr as)) (MarkGetAddrReplied (p_id p) (sn_peers s)) \<and>
         length as \<le> 1000 \<and> distinct (map (\<lambda>a. MakeKey (ta_address a)) as) \<and> set as \<subseteq> known_addresses p (sn_peers s) dm \<and>
         (\<forall>a \<in> set as. MakeKey (ta_address a) \<noteq> peer_self_key env p \<and>
            \<not> told_by (pe_time (de_peer env)) p (sn_peers s) (MakeKey (ta_address a))))))"
proof (cases "p_successfully_connected p \<and> p_is_inbound p \<and> \<not> HasRepliedToGetAddr (p_id p) (sn_peers s)")
  case False
  then show ?thesis using h inv by (auto simp: HandleGetAddr_def Let_def disc_inv_def split: if_splits)
next
  case True
  let ?pm = "MarkGetAddrReplied (p_id p) (sn_peers s)" and ?s = "s\<lparr>sn_peers := MarkGetAddrReplied (p_id p) (sn_peers s)\<rparr>"
  define dm0 where "dm0 = dm\<lparr>dm_stats := (dm_stats dm)\<lparr>ga_total := ga_total (dm_stats dm) + 1\<rparr>\<rparr>"
  have k: "keeps_learned (sn_peers s) ?pm" unfolding MarkGetAddrReplied_def by (rule kl_Modify) simp
  have inv1: "disc_inv (?s, d)" if "dm_addr d = dm_addr dm" "dm_recent d = dm_recent dm" for d
    using disc_inv_keeps [OF inv, of ?s] k that by (simp add: disc_inv_def)
  obtain r c where r: "build_reply env p ?pm dm0 = (r, c)" using prod.exhaust by blast
  let ?as = "if gr_addresses r \<noteq> [] then de_shuffle env (gr_addresses r) else gr_addresses r"
  have res: "ok" "dm_addr dm' = dm_addr dm" "dm_recent dm' = dm_recent dm"
      "s' = (if is_connected p then ?s\<lparr>sn_peers := on_peer (p_id p) (send_message (de_peer env) (Addr ?as)) ?pm\<rparr> else ?s)"
    using h True r [unfolded dm0_def] by (auto simp: HandleGetAddr_def Let_def split: if_splits prod.splits)
  have as: "length ?as \<le> 1000" "distinct (map (\<lambda>a. MakeKey (ta_address a)) ?as)" "set ?as \<subseteq> known_addresses p (sn_peers s) dm0"
      "\<forall>a \<in> set ?as. MakeKey (ta_address a) \<noteq> peer_self_key env p \<and> \<not> told_by (pe_time (de_peer env)) p (sn_peers s) (MakeKey (ta_address a))"
    using reply_facts [OF _ o r] inv by (simp_all add: disc_inv_def dm0_def del: if_split)
  have "keeps_learned (sn_peers ?s) (sn_peers s')" unfolding res(4) by (simp add: kl_on_peer kl_refl)
  then have inv': "disc_inv (s', dm')" by (rule disc_inv_keeps [OF inv1 [OF res(2,3)]])
  have rep: "get_peer (p_id p) (sn_peers s) \<noteq> None \<longrightarrow> HasRepliedToGetAddr (p_id p) (sn_peers s')"
    using mark_replied by (simp add: res(4))
  have ch: "sn_chain s' = sn_chain s" by (simp add: res(4))
  have known0: "known_addresses p (sn_peers s) dm0 = known_addresses p (sn_peers s) dm" by (simp add: known_addresses_def dm0_def)
  show ?thesis
  proof (cases "is_connected p")
    case False
    then have "sn_peers s' = ?pm" by (simp add: res(4))
    then show ?thesis using res(1-3) inv' ch True rep by blast
  next
    case c: True
    then have "sn_peers s' = on_peer (p_id p) (send_message (de_peer env) (Addr ?as)) ?pm" by (simp add: res(4))
    then show ?thesis using res(1-3) inv' ch True rep as known0 by blast
  qed
qed

definition getaddr_peer :: peer where
  "getaddr_peer = anchor_peer\<lparr>p_is_inbound := True, p_successfully_connected := True\<rparr>"

definition getaddr_node :: sync_node where
  "getaddr_node = \<lparr>sn_chain = small_state, sn_peers = anchor_pm\<lparr>peer_states := [(1, new_PerPeerState getaddr_peer 0)]\<rparr>,
     sn_sync = new_SyncState, last_batch_size = 0\<rparr>"

definition getaddr_env :: disc_env where
  "getaddr_env = \<lparr>de_sync = \<lparr>se_crypto = sample_crypto, se_params = sample_params, se_timedata = TestOnlyResetTimeData, se_peer = anchor_env\<rparr>,
     de_order = (\<lambda>m. m), de_sample = (\<lambda>xs. xs), de_shuffle = rev\<rparr>"

definition getaddr_disc :: PeerDiscoveryManager where
  "getaddr_disc = (PeerDiscoveryManager_new ''d'')\<lparr>dm_recent := [\<lparr>ta_timestamp = 5, ta_address = sample_addr 3\<rparr>]\<rparr>"

theorem getaddr_answered_once_witness:
  "\<exists>s' dm'. HandleGetAddr getaddr_env getaddr_peer (getaddr_node, getaddr_disc) = (True, s', dm') \<and>
     HasRepliedToGetAddr 1 (sn_peers s') \<and> disc_inv (s', dm')"
proof -
  have i: "disc_inv (getaddr_node, getaddr_disc)"
    using new_manager(1) by (simp add: disc_inv_def getaddr_node_def getaddr_disc_def PeerDiscoveryManager_new_def RECENT_ADDRS_MAX_def
        new_PerPeerState_def learned_ok_def)
  have o: "orders_ok getaddr_env" by (simp add: orders_ok_def getaddr_env_def)
  have p: "p_id getaddr_peer = 1" "p_successfully_connected getaddr_peer" "p_is_inbound getaddr_peer" "is_connected getaddr_peer"
    by (simp_all add: getaddr_peer_def anchor_peer_def is_connected_def)
  have n: "get_peer 1 (sn_peers getaddr_node) \<noteq> None" "\<not> HasRepliedToGetAddr 1 (sn_peers getaddr_node)"
    by (simp_all add: get_peer_def getaddr_node_def HasRepliedToGetAddr_def new_PerPeerState_def)
  obtain ok s' dm' where h: "HandleGetAddr getaddr_env getaddr_peer (getaddr_node, getaddr_disc) = (ok, s', dm')" using prod_cases3 by blast
  have "\<exists>pm. sn_peers s' = on_peer 1 pm (MarkGetAddrReplied 1 (sn_peers getaddr_node))"
    using h p n(2) by (auto simp: HandleGetAddr_def Let_def split: prod.splits)
  then have r: "HasRepliedToGetAddr 1 (sn_peers s')" using mark_replied n(1) by auto
  note t = getaddr_answered_once [OF i o h]
  have "ok" "disc_inv (s', dm')" using conjunct1 [OF t] conjunct1 [OF conjunct2 [OF t]] .
  then show ?thesis using h r by simp
qed

section \<open>What modelling showed\<close>

text \<open>
  Removing a peer reports after the table has dropped it, and the subscription ignores peers the table does not have: a
  clean disconnect never marks the address as good.
\<close>

lemma clean_disconnect_not_recorded:
  assumes "map_of (peer_states pm) i = Some st" "\<not> shutting_down pm"
  shows "\<exists>c. pm_calls (remove_peer penv i pm) = pm_calls pm @ [c] \<and> dm_call env (remove_peer penv i pm) c dm = dm"
proof -
  have e: "get_peer i (remove_peer penv i pm) = None" by (simp add: get_peer_def)
  show ?thesis using assms e
    by (auto simp: remove_peer_def pm_call_def Let_def dm_call_def on_peer_disconnected_def get_peer_def)
qed

text \<open>
  An outbound peer is reported as connected when it enters the table, which is before the transport has connected:
  dialling an address puts it into the table of tried addresses, with no failures, whether or not anything answers.
\<close>

lemma dialled_address_is_tried:
  assumes inv: "addr_inv (dm_addr dm)" and p: "\<not> p_is_inbound p" "\<not> is_feeler p"
    and a: "a = from_string (pe_ip (de_peer env)) address (peer_port p) NODE_NETWORK" "usable_address a" "address \<noteq> []"
    and c: "pm_calls (insert_peer penv i perms address p pm) = pm_calls pm @ [c]"
  shows "\<exists>e. map_of (tried_table (dm_addr (dm_call env (insert_peer penv i perms address p pm) c dm))) (AddrKey a) = Some e \<and> ai_attempts e = 0"
proof -
  let ?t = "de_now env" and ?am = "snd (am_add (de_now env) a 0 (dm_addr dm))"
  have c': "c = NotifyPeerConnected i address (peer_port p) ''outbound''"
    using c a(3) p by (simp add: insert_peer_def pm_call_def Let_def)
  have k: "get_peer i (insert_peer penv i perms address p pm) \<noteq> None"
    by (simp add: insert_peer_def pm_call_def Let_def get_peer_def)
  have d: "dm_addr (dm_call env (insert_peer penv i perms address p pm) c dm) = good ?t a ?am"
    using k by (simp add: dm_call_def c' on_peer_connected_def a(1) Let_def)
  have "\<not> is_stale (AddrInfo_new a (effective_timestamp ?t 0)) ?t"
    by (simp add: is_stale_def AddrInfo_new_def effective_timestamp_def STALE_AFTER_DAYS_def SECONDS_PER_DAY_def)
  then have "book ?am (AddrKey a) \<noteq> None"
    using add_refines [OF inv, of ?t a 0] a(2) by (auto simp: on_known_def Let_def)
  then obtain e where e: "book (good ?t a ?am) (AddrKey a) = Some e" "ai_tried e" "ai_attempts e = 0" "addr_inv (good ?t a ?am)"
    using good_refines [of ?am ?t a] add_refines [OF inv, of ?t a 0] by (auto simp: on_known_def)
  from e(4) have "map_of (tried_table (good ?t a ?am)) (AddrKey a) = Some e"
  proof (cases rule: table_cases [where k = "AddrKey a"])
    case (new e')
    then show ?thesis using e by (simp add: addr_entry_ok_def)
  qed (use e in auto)
  then show ?thesis using e(3) by (simp add: d)
qed

end
