(* ===== verification/Block_Relay.thy ===== *)
theory Block_Relay
  imports Sync_Service Peer_Limits "HOL-Library.Multiset"
begin

text \<open>
  \<open>BlockRelayManager\<close> of \<open>block_relay_manager.cpp\<close>: queueing announcements of the tip, flushing the queues into inventory
  messages, relaying a block at once, and reacting to the inventory messages of peers.  The loops run over the peers of
  the table in the order of their ids; a step of a loop works on the entry of one peer.
\<close>

section \<open>Announcements\<close>

definition REANNOUNCE_INTERVAL_SEC :: int where "REANNOUNCE_INTERVAL_SEC = 10 * 60"

definition for_all_peers :: "(PerPeerState \<Rightarrow> PerPeerState) \<Rightarrow> PeerLifecycleManager \<Rightarrow> PeerLifecycleManager" where
  "for_all_peers f pm = fold (\<lambda>i pm. pm\<lparr>peer_states := Modify i f (peer_states pm)\<rparr>) (map p_id (get_all_peers pm)) pm"

definition relay_ready :: "peer \<Rightarrow> bool" where
  "relay_ready p \<longleftrightarrow> is_connected p \<and> p_state p = READY"

definition enqueue_tip :: "int \<Rightarrow> blob \<Rightarrow> PerPeerState \<Rightarrow> PerPeerState" where
  "enqueue_tip now_s tip st =
     (let queue = p_blocks_for_inv_relay (ps_peer st) in
      if tip \<in> set queue then st
      else st\<lparr>ps_peer := (ps_peer st)\<lparr>p_blocks_for_inv_relay := queue @ [tip]\<rparr>, last_announced_block := tip, last_announce_time_s := now_s\<rparr>)"

definition announce_tip_entry :: "int \<Rightarrow> blob \<Rightarrow> PerPeerState \<Rightarrow> PerPeerState" where
  "announce_tip_entry now_s tip st =
     (if relay_ready (ps_peer st) then
        let same_tip = (last_announced_block st = tip);
            last_time = last_announce_time_s st;
            within_ttl = (same_tip \<and> last_time > 0 \<and> now_s - last_time < REANNOUNCE_INTERVAL_SEC) in
        if same_tip \<and> within_ttl then st else enqueue_tip now_s tip st
      else st)"

text \<open>The tip that is announced: none at genesis.\<close>

definition tip_to_announce :: "chainstate \<Rightarrow> blob option" where
  "tip_to_announce st = (case GetTip st of None \<Rightarrow> None | Some tip \<Rightarrow> if height_of (the_index st) tip = 0 then None else Some tip)"

definition AnnounceTipToAllPeers :: "sync_env \<Rightarrow> sync_node \<Rightarrow> sync_node" where
  "AnnounceTipToAllPeers env s =
     (case tip_to_announce (sn_chain s) of
        None \<Rightarrow> s
      | Some tip \<Rightarrow> s\<lparr>sn_peers := for_all_peers (announce_tip_entry (pe_time (se_peer env)) tip) (sn_peers s)\<rparr>)"

definition AnnounceTipToPeer :: "sync_env \<Rightarrow> int \<Rightarrow> sync_node \<Rightarrow> sync_node" where
  "AnnounceTipToPeer env peer_id s =
     (case get_peer peer_id (sn_peers s) of
        None \<Rightarrow> s
      | Some p \<Rightarrow>
          if \<not> relay_ready p then s
          else case tip_to_announce (sn_chain s) of
              None \<Rightarrow> s
            | Some tip \<Rightarrow>
                s\<lparr>sn_peers := (sn_peers s)\<lparr>peer_states := Modify peer_id (enqueue_tip (pe_time (se_peer env)) tip) (peer_states (sn_peers s))\<rparr>\<rparr>)"

section \<open>Inventory messages\<close>

definition block_inv :: "blob \<Rightarrow> InventoryVector" where
  "block_inv h = \<lparr>iv_type = MSG_BLOCK, iv_hash = h\<rparr>"

function inv_chunks :: "blob list \<Rightarrow> blob list list" where
  "inv_chunks blocks = (if blocks = [] then [] else take MAX_INV_SIZE blocks # inv_chunks (drop MAX_INV_SIZE blocks))"
  by auto

termination inv_chunks
  by (relation "measure length") (auto simp: MAX_INV_SIZE_def)

declare inv_chunks.simps [simp del]

definition flush_entry :: "peer_env \<Rightarrow> PerPeerState \<Rightarrow> PerPeerState" where
  "flush_entry env st =
     (if \<not> relay_ready (ps_peer st) then st
      else
        let blocks_to_announce = p_blocks_for_inv_relay (ps_peer st);
            p = (if blocks_to_announce \<noteq> [] then (ps_peer st)\<lparr>p_blocks_for_inv_relay := []\<rparr> else ps_peer st) in
        if blocks_to_announce = [] then st
        else st\<lparr>ps_peer := fold (\<lambda>chunk. send_message env (Inv (map block_inv chunk))) (inv_chunks blocks_to_announce) p\<rparr>)"

definition FlushBlockAnnouncements :: "sync_env \<Rightarrow> sync_node \<Rightarrow> sync_node" where
  "FlushBlockAnnouncements env s = s\<lparr>sn_peers := for_all_peers (flush_entry (se_peer env)) (sn_peers s)\<rparr>"

definition relay_entry :: "peer_env \<Rightarrow> blob \<Rightarrow> PerPeerState \<Rightarrow> PerPeerState" where
  "relay_entry env block_hash st =
     (if relay_ready (ps_peer st) then
        let p = (ps_peer st)\<lparr>p_blocks_for_inv_relay := removeAll block_hash (p_blocks_for_inv_relay (ps_peer st))\<rparr>;
            p = send_message env (Inv [block_inv block_hash]) p in
        st\<lparr>ps_peer := p, last_announced_block := block_hash, last_announce_time_s := pe_time env\<rparr>
      else st)"

definition RelayBlock :: "sync_env \<Rightarrow> blob \<Rightarrow> sync_node \<Rightarrow> sync_node" where
  "RelayBlock env block_hash s = s\<lparr>sn_peers := for_all_peers (relay_entry (se_peer env) block_hash) (sn_peers s)\<rparr>"

text \<open>The loop over the items: whether to request headers, and whether a new block was found.\<close>

fun inv_loop :: "sync_env \<Rightarrow> peer \<Rightarrow> InventoryVector list \<Rightarrow> bool \<Rightarrow> sync_node \<Rightarrow> bool \<times> bool \<times> sync_node" where
  "inv_loop env p [] found s = (False, found, s)"
| "inv_loop env p (item # invs) found s =
     (if iv_type item \<noteq> MSG_BLOCK then inv_loop env p invs found s
      else if LookupBlockIndex (cs_block_manager (sn_chain s)) (iv_hash item) \<noteq> None then inv_loop env p invs found s
      else
        let (in_ibd, st) = IsInitialBlockDownload (se_node env) (sn_chain s); s = s\<lparr>sn_chain := st\<rparr> in
        if in_ibd then
          if HasSyncPeer s then
            if GetSyncPeerId s = of_int (p_id p) then (True, True, s) else inv_loop env p invs True s
          else if \<not> p_is_inbound p then
            let s = SetSyncPeer env (of_int (p_id p)) s;
                s = s\<lparr>sn_peers := on_peer (p_id p) (\<lambda>p. p\<lparr>p_sync_started := True\<rparr>) (sn_peers s)\<rparr>
            in (True, True, s)
          else inv_loop env p invs True s
        else (True, True, s))"

definition HandleInvMessage :: "sync_env \<Rightarrow> peer \<Rightarrow> InventoryVector list \<Rightarrow> sync_node \<Rightarrow> (bool \<times> sync_node) option" where
  "HandleInvMessage env p inventory s =
     (case inv_loop env p inventory False s of (should_request_headers, found_new_block, s) \<Rightarrow>
        if should_request_headers \<and> found_new_block then
          let (in_ibd, st) = IsInitialBlockDownload (se_node env) (sn_chain s); s = s\<lparr>sn_chain := st\<rparr> in
          map_option (\<lambda>s. (True, s)) (RequestHeadersFromPeer env (p_id p) s)
        else Some (True, s))"

section \<open>Every peer gets its own announcements\<close>

definition ids_ok :: "PeerLifecycleManager \<Rightarrow> bool" where
  "ids_ok pm \<longleftrightarrow> om_invar (peer_states pm) \<and> (\<forall>i st. map_of (peer_states pm) i = Some st \<longrightarrow> p_id (ps_peer st) = i)"

lemma pm_inv_ids: "pm_inv lib c pm \<Longrightarrow> ids_ok pm"
  by (auto simp: pm_inv_def ids_ok_def peer_ok_def)

lemma ids_of_peers:
  assumes "ids_ok pm"
  shows "distinct (map p_id (get_all_peers pm))" "set (map p_id (get_all_peers pm)) = dom (map_of (peer_states pm))"
proof -
  have om: "om_invar (peer_states pm)" using assms by (simp add: ids_ok_def)
  have k: "map p_id (all_peers pm) = map fst (peer_states pm)"
    using assms by (auto simp: all_peers_def ids_ok_def om_entries_iff [OF om, symmetric])
  have m: "mset (map p_id (get_all_peers pm)) = mset (map fst (peer_states pm))" by (simp add: get_all_peers_def k [symmetric])
  show "distinct (map p_id (get_all_peers pm))" using om_distinct [OF om] mset_eq_imp_distinct_iff [OF m] by simp
  show "set (map p_id (get_all_peers pm)) = dom (map_of (peer_states pm))" using mset_eq_setD [OF m] by (simp add: dom_map_of_conv_image_fst)
qed

lemma for_all_peers_lookup:
  assumes "ids_ok pm"
  shows "map_of (peer_states (for_all_peers f pm)) i = map_option f (map_of (peer_states pm) i)"
proof -
  have "distinct is \<Longrightarrow> map_of (peer_states (fold (\<lambda>i pm. pm\<lparr>peer_states := Modify i f (peer_states pm)\<rparr>) is a)) i =
      (if i \<in> set is then map_option f (map_of (peer_states a) i) else map_of (peer_states a) i)" for "is" and a :: PeerLifecycleManager
    by (induction "is" arbitrary: a) (auto simp: map_of_Modify)
  then show ?thesis using ids_of_peers [OF assms] by (auto simp: for_all_peers_def dom_def)
qed

lemma for_all_peers_keys: "om_invar (peer_states pm) \<Longrightarrow> om_invar (peer_states (for_all_peers f pm))"
proof -
  have "om_invar (peer_states a) \<Longrightarrow> om_invar (peer_states (fold (\<lambda>i pm. pm\<lparr>peer_states := Modify i f (peer_states pm)\<rparr>) ns a))"
    for ns and a :: PeerLifecycleManager
    by (induction ns arbitrary: a) (simp_all add: om_invar_Modify)
  then show "om_invar (peer_states pm) \<Longrightarrow> ?thesis" by (simp add: for_all_peers_def)
qed

lemma for_all_peers_ids:
  assumes "ids_ok pm" "\<And>st. p_id (ps_peer (f st)) = p_id (ps_peer st)"
  shows "ids_ok (for_all_peers f pm)"
  using assms for_all_peers_lookup [OF assms(1), of f] for_all_peers_keys [of pm f] by (auto simp: ids_ok_def)

lemma inv_chunks_props:
  "concat (inv_chunks hs) = hs" "\<forall>c \<in> set (inv_chunks hs). length c \<le> 50000 \<and> c \<noteq> []"
proof (induction hs rule: inv_chunks.induct)
  case (1 blocks)
  {
    case 1
    show ?case using "1.IH"(1) by (subst inv_chunks.simps) simp
  next
    case 2
    show ?case using "1.IH"(2) by (subst inv_chunks.simps) (auto simp: MAX_INV_SIZE_def)
  }
qed

lemma inv_chunks_one: "hs \<noteq> [] \<Longrightarrow> length hs \<le> 50000 \<Longrightarrow> inv_chunks hs = [hs]"
  by (subst inv_chunks.simps) (simp add: MAX_INV_SIZE_def inv_chunks.simps)

text \<open>The bytes of a message on the wire of a peer, and a transport that takes everything.\<close>

definition wire :: "peer \<Rightarrow> Message \<Rightarrow> peer_action" where
  "wire p msg = Send (serialize_header (create_header (p_network_magic p) (command msg) (serialize msg)) @ serialize msg)"

definition sends :: "peer_env \<Rightarrow> bool" where
  "sends env \<longleftrightarrow> (\<forall>as bs. pe_send env as bs)"

lemma send_message_wire:
  assumes "sends env" "is_connected p" "p_connection p \<noteq> None"
  shows "p_actions (send_message env m p) = p_actions p @ [wire p m]"
    "is_connected (send_message env m p)" "p_connection (send_message env m p) \<noteq> None"
    "p_network_magic (send_message env m p) = p_network_magic p" "p_state (send_message env m p) = p_state p"
    "p_blocks_for_inv_relay (send_message env m p) = p_blocks_for_inv_relay p" "p_id (send_message env m p) = p_id p"
  using assms by (auto simp: send_message_def is_connected_def sends_def act_def wire_def Let_def)

lemma send_all_wire:
  assumes "sends env" "is_connected p" "p_connection p \<noteq> None"
  shows "p_actions (fold (\<lambda>m. send_message env m) ms p) = p_actions p @ map (wire p) ms \<and>
    p_blocks_for_inv_relay (fold (\<lambda>m. send_message env m) ms p) = p_blocks_for_inv_relay p \<and>
    p_state (fold (\<lambda>m. send_message env m) ms p) = p_state p \<and> p_connection (fold (\<lambda>m. send_message env m) ms p) \<noteq> None"
  using assms
proof (induction ms arbitrary: p)
  case (Cons m ms)
  note f = send_message_wire [OF Cons.prems, of m]
  have "wire (send_message env m p) = wire p" by (simp add: wire_def f(4) fun_eq_iff)
  then show ?case using Cons.IH [OF Cons.prems(1) f(2,3)] f by simp
qed simp

text \<open>What flushing does to one peer.\<close>

lemma flush_entry_wire:
  assumes "sends env" "relay_ready (ps_peer st)" "p_connection (ps_peer st) \<noteq> None"
  defines "p \<equiv> ps_peer (flush_entry env st)" and "hs \<equiv> p_blocks_for_inv_relay (ps_peer st)"
  shows "p_actions p = p_actions (ps_peer st) @ map (\<lambda>c. wire (ps_peer st) (Inv (map block_inv c))) (inv_chunks hs)"
    "p_blocks_for_inv_relay p = []" "relay_ready p" "p_connection p \<noteq> None"
    "last_announced_block (flush_entry env st) = last_announced_block st" "last_announce_time_s (flush_entry env st) = last_announce_time_s st"
proof -
  let ?q = "(ps_peer st)\<lparr>p_blocks_for_inv_relay := []\<rparr>" and ?ms = "map (\<lambda>c. Inv (map block_inv c)) (inv_chunks hs)"
  have q: "is_connected ?q" "p_connection ?q \<noteq> None" using assms(2,3) by (simp_all add: relay_ready_def is_connected_def)
  have w: "wire ?q = wire (ps_peer st)" by (simp add: wire_def fun_eq_iff)
  have f: "fold (\<lambda>chunk. send_message env (Inv (map block_inv chunk))) cs x = fold (\<lambda>m. send_message env m) (map (\<lambda>c. Inv (map block_inv c)) cs) x" for cs x
    by (induction cs arbitrary: x) simp_all
  note s = send_all_wire [OF assms(1) q, of ?ms]
  have e: "hs \<noteq> [] \<Longrightarrow> p = fold (\<lambda>m. send_message env m) ?ms ?q" "hs = [] \<Longrightarrow> p = ps_peer st" "hs = [] \<Longrightarrow> inv_chunks hs = []"
    using assms(2) by (simp_all add: p_def flush_entry_def Let_def hs_def f inv_chunks.simps)
  show "p_actions p = p_actions (ps_peer st) @ map (\<lambda>c. wire (ps_peer st) (Inv (map block_inv c))) (inv_chunks hs)"
    "p_blocks_for_inv_relay p = []" "relay_ready p" "p_connection p \<noteq> None"
    using s e assms(2,3) by (cases "hs = []"; simp add: w comp_def hs_def [symmetric] relay_ready_def is_connected_def)+
  show "last_announced_block (flush_entry env st) = last_announced_block st" "last_announce_time_s (flush_entry env st) = last_announce_time_s st"
    by (simp_all add: flush_entry_def Let_def)
qed

section \<open>Properties\<close>

text \<open>Whether the last announcement to a peer was this block, less than ten minutes ago.\<close>

definition recently_announced :: "int \<Rightarrow> blob \<Rightarrow> PerPeerState \<Rightarrow> bool" where
  "recently_announced now_s tip st \<longleftrightarrow> last_announced_block st = tip \<and> last_announce_time_s st > 0 \<and> now_s - last_announce_time_s st < 600"

definition announcement_round :: "sync_env \<Rightarrow> sync_node \<Rightarrow> sync_node" where
  "announcement_round env s = FlushBlockAnnouncements env (AnnounceTipToAllPeers env s)"

lemma announce_tip_ids: "p_id (ps_peer (announce_tip_entry t tip st)) = p_id (ps_peer st)"
  by (simp add: announce_tip_entry_def enqueue_tip_def Let_def)

lemma announcement_round_entry:
  assumes "ids_ok (sn_peers s)" "tip_to_announce (sn_chain s) = Some tip"
  shows "map_of (peer_states (sn_peers (announcement_round env s))) i =
    map_option (\<lambda>st. flush_entry (se_peer env) (announce_tip_entry (pe_time (se_peer env)) tip st)) (map_of (peer_states (sn_peers s)) i)"
proof -
  have "ids_ok (for_all_peers (announce_tip_entry (pe_time (se_peer env)) tip) (sn_peers s))"
    by (rule for_all_peers_ids [OF assms(1)]) (rule announce_tip_ids)
  then show ?thesis using assms
    by (simp add: announcement_round_def FlushBlockAnnouncements_def AnnounceTipToAllPeers_def for_all_peers_lookup option.map_comp comp_def)
qed

lemma announce_entry_ready:
  assumes "relay_ready (ps_peer st)"
  shows "announce_tip_entry t tip st =
    (if recently_announced t tip st \<or> tip \<in> set (p_blocks_for_inv_relay (ps_peer st)) then st
     else st\<lparr>ps_peer := (ps_peer st)\<lparr>p_blocks_for_inv_relay := p_blocks_for_inv_relay (ps_peer st) @ [tip]\<rparr>,
       last_announced_block := tip, last_announce_time_s := t\<rparr>)"
  using assms by (auto simp: announce_tip_entry_def recently_announced_def REANNOUNCE_INTERVAL_SEC_def enqueue_tip_def Let_def)

text \<open>
  \<^bold>\<open>C20.\<close> Announcements arrive, once.  In a round of announcing and flushing, every connected peer that has finished the
  handshake is sent exactly the blocks of its queue and, unless it has been told in the last ten minutes, the tip, in
  order, in inventory messages of at most 50000 items; its queue is empty afterwards.  A peer that has just been told
  the tip is sent nothing more by any round of the next ten minutes in which the tip has not changed, and no round
  touches a peer that is not ready.
\<close>

theorem tip_announced_once:
  assumes "ids_ok (sn_peers s)" and "sends (se_peer env)" and "tip_to_announce (sn_chain s) = Some tip" and "pe_time (se_peer env) > 0"
    and "map_of (peer_states (sn_peers s)) i = Some st" and "relay_ready (ps_peer st)" and "p_connection (ps_peer st) \<noteq> None"
  defines "queue \<equiv> p_blocks_for_inv_relay (ps_peer st)" and "told \<equiv> recently_announced (pe_time (se_peer env)) tip st"
  shows "\<exists>st' cs. map_of (peer_states (sn_peers (announcement_round env s))) i = Some st' \<and>
      p_actions (ps_peer st') = p_actions (ps_peer st) @ map (\<lambda>c. wire (ps_peer st) (Inv (map block_inv c))) cs \<and>
      concat cs = queue @ (if told \<or> tip \<in> set queue then [] else [tip]) \<and> (\<forall>c \<in> set cs. 0 < length c \<and> length c \<le> 50000) \<and>
      p_blocks_for_inv_relay (ps_peer st') = [] \<and>
      (\<not> told \<and> tip \<notin> set queue \<longrightarrow> (\<forall>env2 s2. pe_time (se_peer env2) < pe_time (se_peer env) + 600 \<and> ids_ok (sn_peers s2) \<and>
         tip_to_announce (sn_chain s2) = Some tip \<and> map_of (peer_states (sn_peers s2)) i = Some st' \<longrightarrow>
           map_of (peer_states (sn_peers (announcement_round env2 s2))) i = Some st')) \<and>
      (\<forall>j st2. map_of (peer_states (sn_peers s)) j = Some st2 \<and> \<not> relay_ready (ps_peer st2) \<longrightarrow>
         map_of (peer_states (sn_peers (announcement_round env s))) j = Some st2)"
proof -
  let ?t = "pe_time (se_peer env)"
  define st1 where "st1 = announce_tip_entry ?t tip st"
  define st' where "st' = flush_entry (se_peer env) st1"
  have q1: "p_blocks_for_inv_relay (ps_peer st1) = queue @ (if told \<or> tip \<in> set queue then [] else [tip])" "relay_ready (ps_peer st1)"
      "p_connection (ps_peer st1) \<noteq> None" "p_actions (ps_peer st1) = p_actions (ps_peer st)" "wire (ps_peer st1) = wire (ps_peer st)"
    using assms(6,7) announce_entry_ready [OF assms(6), of ?t tip]
    by (auto simp: st1_def queue_def told_def relay_ready_def is_connected_def wire_def fun_eq_iff)
  note f = flush_entry_wire [OF assms(2) q1(2,3), folded st'_def]
  have look: "map_of (peer_states (sn_peers (announcement_round env s))) i = Some st'"
    using announcement_round_entry [OF assms(1,3)] assms(5) by (simp add: st'_def st1_def)
  have again: "map_of (peer_states (sn_peers (announcement_round env2 s2))) i = Some st'"
    if r: "\<not> told" "tip \<notin> set queue" "pe_time (se_peer env2) < ?t + 600" "ids_ok (sn_peers s2)" "tip_to_announce (sn_chain s2) = Some tip"
      "map_of (peer_states (sn_peers s2)) i = Some st'" for env2 s2
  proof -
    have "last_announced_block st1 = tip" "last_announce_time_s st1 = ?t"
      using r(1,2) announce_entry_ready [OF assms(6), of ?t tip] by (auto simp: st1_def told_def queue_def)
    then have "recently_announced (pe_time (se_peer env2)) tip st'" using f(5,6) r(3) assms(4) by (simp add: recently_announced_def)
    then have "announce_tip_entry (pe_time (se_peer env2)) tip st' = st'" using announce_entry_ready [OF f(3)] by simp
    moreover have "flush_entry (se_peer env2) st' = st'" using f(2,3) by (simp add: flush_entry_def Let_def)
    ultimately show ?thesis using announcement_round_entry [OF r(4,5)] r(6) by simp
  qed
  have idle: "map_of (peer_states (sn_peers (announcement_round env s))) j = Some st2"
    if "map_of (peer_states (sn_peers s)) j = Some st2" "\<not> relay_ready (ps_peer st2)" for j st2
    using announcement_round_entry [OF assms(1,3)] that by (simp add: announce_tip_entry_def flush_entry_def)
  have chunks: "concat (inv_chunks (p_blocks_for_inv_relay (ps_peer st1))) = queue @ (if told \<or> tip \<in> set queue then [] else [tip])"
    "\<forall>c \<in> set (inv_chunks (p_blocks_for_inv_relay (ps_peer st1))). 0 < length c \<and> length c \<le> 50000"
    using inv_chunks_props [of "p_blocks_for_inv_relay (ps_peer st1)"] unfolding q1(1) by auto
  show ?thesis using look f(1,2) chunks again idle unfolding q1(4,5)
    by (intro exI [of _ st'] exI [of _ "inv_chunks (p_blocks_for_inv_relay (ps_peer st1))"]) blast
qed

definition relay_peer :: peer where
  "relay_peer = sample_peer\<lparr>p_state := READY, p_id := 1\<rparr>"

definition relay_node :: sync_node where
  "relay_node = (sample_node ahead_state)\<lparr>sn_peers := (sn_peers (sample_node ahead_state))\<lparr>peer_states := [(1, new_PerPeerState relay_peer 0)]\<rparr>\<rparr>"

lemma relay_node_facts:
  "ids_ok (sn_peers relay_node)" "sends (se_peer sample_sync_env)" "tip_to_announce (sn_chain relay_node) = Some [1]"
  "pe_time (se_peer sample_sync_env) > 0" "map_of (peer_states (sn_peers relay_node)) 1 = Some (new_PerPeerState relay_peer 0)"
  "relay_ready (ps_peer (new_PerPeerState relay_peer 0))" "p_connection (ps_peer (new_PerPeerState relay_peer 0)) \<noteq> None"
proof -
  show "ids_ok (sn_peers relay_node)" by (simp add: ids_ok_def relay_node_def om_invar_def new_PerPeerState_def relay_peer_def)
  show "sends (se_peer sample_sync_env)" "pe_time (se_peer sample_sync_env) > 0" by (simp_all add: sends_def sample_sync_env_def sample_penv_def)
  have "GetTip ahead_state = Some [1]" using ahead_chain(3) by (simp add: GetTip_def bm_GetTip_def chain_Tip_def)
  moreover have "height_of (the_index ahead_state) [1] \<noteq> 0"
    by (simp add: ahead_index height_of_def accepted_entry_def small_genesis_def child_entry_def sample_entry_def)
  ultimately show "tip_to_announce (sn_chain relay_node) = Some [1]" by (simp add: tip_to_announce_def relay_node_def sample_node_def)
  show "map_of (peer_states (sn_peers relay_node)) 1 = Some (new_PerPeerState relay_peer 0)" by (simp add: relay_node_def)
  show "relay_ready (ps_peer (new_PerPeerState relay_peer 0))" "p_connection (ps_peer (new_PerPeerState relay_peer 0)) \<noteq> None"
    by (simp_all add: new_PerPeerState_def relay_peer_def relay_ready_def is_connected_def sample_peer_def new_Peer_def)
qed

theorem tip_announced_once_witness:
  "\<exists>st'. map_of (peer_states (sn_peers (announcement_round sample_sync_env relay_node))) 1 = Some st' \<and>
     p_actions (ps_peer st') = [wire relay_peer (Inv [block_inv [1]])]"
proof -
  let ?st = "new_PerPeerState relay_peer 0"
  have q: "p_blocks_for_inv_relay (ps_peer ?st) = []" "p_actions (ps_peer ?st) = []" "ps_peer ?st = relay_peer"
      "\<not> recently_announced (pe_time (se_peer sample_sync_env)) [1] ?st"
    by (simp_all add: new_PerPeerState_def relay_peer_def sample_peer_def new_Peer_def recently_announced_def)
  obtain st' cs where r: "map_of (peer_states (sn_peers (announcement_round sample_sync_env relay_node))) 1 = Some st'"
      "p_actions (ps_peer st') = map (\<lambda>c. wire relay_peer (Inv (map block_inv c))) cs" "concat cs = [[1]]" "\<forall>c \<in> set cs. 0 < length c"
    using tip_announced_once [OF relay_node_facts] q by auto
  have "cs = [[[1]]]"
  proof (cases cs)
    case (Cons c ds)
    then have "c = [[1]]" "concat ds = []" using r(3,4) by (auto simp: append_eq_Cons_conv)
    moreover have "ds = []" using r(4) \<open>concat ds = []\<close> Cons by (cases ds) auto
    ultimately show ?thesis using Cons by simp
  qed (use r(3) in simp)
  then show ?thesis using r(1,2) by auto
qed

text \<open>One pass over the items: nothing happens, or a request is due to a peer that may be asked.\<close>

lemma ibd_stays: "IsInitialBlockDownload env st = (True, st') \<Longrightarrow> st' = st"
  by (auto simp: IsInitialBlockDownload_def split: option.splits if_splits)

lemma ibd_same: "IsInitialBlockDownload env st = (b, st') \<Longrightarrow> the_index st' = the_index st \<and> the_chain st' = the_chain st \<and> IsInitialBlockDownload env st' = (b, st')"
  by (auto simp: IsInitialBlockDownload_def GetTip_def bm_GetTip_def split: option.splits if_splits)

definition unknown_block :: "chainstate \<Rightarrow> InventoryVector \<Rightarrow> bool" where
  "unknown_block st item \<longleftrightarrow> iv_type item = MSG_BLOCK \<and> map_of (the_index st) (iv_hash item) = None"

lemma inv_loop_cases:
  assumes d: "IsInitialBlockDownload (se_node env) (sn_chain s) = (ibd, st)"
  shows "inv_loop env p items found s = (should, found', s') \<Longrightarrow>
    (\<not> should \<and> s' = s) \<or> (should \<and> found' \<and> list_ex (unknown_block (sn_chain s)) items \<and>
       (s' = s\<lparr>sn_chain := st\<rparr> \<and> (ibd \<longrightarrow> HasSyncPeer s \<and> GetSyncPeerId s = of_int (p_id p)) \<or>
        ibd \<and> \<not> HasSyncPeer s \<and> \<not> p_is_inbound p \<and>
          s' = (SetSyncPeer env (of_int (p_id p)) s)\<lparr>sn_peers := on_peer (p_id p) (\<lambda>p. p\<lparr>p_sync_started := True\<rparr>) (sn_peers s)\<rparr>))"
proof (induction items arbitrary: found)
  case (Cons item items)
  have look: "LookupBlockIndex (cs_block_manager (sn_chain s)) h = None \<longleftrightarrow> map_of (the_index (sn_chain s)) h = None" for h
    by (auto simp: LookupBlockIndex_def split: option.split)
  have st: "ibd \<Longrightarrow> st = sn_chain s" using ibd_stays [of "se_node env" "sn_chain s" st] d by simp
  show ?case
  proof (cases "unknown_block (sn_chain s) item")
    case False
    then show ?thesis using Cons look by (auto simp: unknown_block_def split: if_splits)
  next
    case True
    then have n: "iv_type item = MSG_BLOCK" "LookupBlockIndex (cs_block_manager (sn_chain s)) (iv_hash item) = None"
      using look by (auto simp: unknown_block_def)
    show ?thesis using Cons n st True by (auto simp: d Let_def HasSyncPeer_def GetSyncPeerId_def SetSyncPeer_def split: if_splits)
  qed
qed simp

lemma GetLocatorFromPrev_cong:
  "the_index st' = the_index st \<Longrightarrow> the_chain st' = the_chain st \<Longrightarrow> GetLocatorFromPrev st' = GetLocatorFromPrev st"
  by (simp add: GetLocatorFromPrev_def GetTip_def bm_GetTip_def cs_GetLocator_def split: option.split)

lemma HandleInvMessage_returns:
  assumes "node_inv env0 (sn_chain s)"
  shows "\<exists>s'. HandleInvMessage env p items s = Some (True, s')"
proof -
  obtain k hashes where g: "GetLocatorFromPrev (sn_chain s) = Some hashes" by (rule locator_from_prev [OF assms])
  obtain b st where d: "IsInitialBlockDownload (se_node env) (sn_chain s) = (b, st)" by force
  obtain should found s1 where l: "inv_loop env p items False s = (should, found, s1)" using prod_cases3 by blast
  obtain b' st' where d': "IsInitialBlockDownload (se_node env) (sn_chain s1) = (b', st')" by force
  have "the_index (sn_chain s1) = the_index (sn_chain s) \<and> the_chain (sn_chain s1) = the_chain (sn_chain s)"
    using inv_loop_cases [OF d l] ibd_same [OF d] by (auto simp: SetSyncPeer_def Let_def)
  then have "GetLocatorFromPrev st' = Some hashes"
    using ibd_same [OF d'] GetLocatorFromPrev_cong [of st' "sn_chain s"] g by simp
  then show ?thesis using l d' by (simp add: HandleInvMessage_def RequestHeadersFromPeer_def)
qed

text \<open>
  Reacting to an inventory message: the block index and the active chain do not change.  Nothing at all happens unless
  the message names a block the node does not have; then at most one request goes out, to the announcing peer, from
  the current locator.  While the node is still syncing, only its sync peer is asked; a peer becomes the sync peer here
  only when there is none and the connection is outbound.
\<close>

theorem inv_asks_allowed_peer:
  assumes "HandleInvMessage env p items s = Some (ok, s')"
  defines "ibd \<equiv> fst (IsInitialBlockDownload (se_node env) (sn_chain s))"
  shows "ok \<and> the_index (sn_chain s') = the_index (sn_chain s) \<and> the_chain (sn_chain s') = the_chain (sn_chain s) \<and>
    (s' = s \<or>
     list_ex (unknown_block (sn_chain s)) items \<and>
     (\<exists>locator. GetLocatorFromPrev (sn_chain s') = Some locator \<and>
        (sn_sync s' = sn_sync s \<and> (ibd \<longrightarrow> HasSyncPeer s \<and> GetSyncPeerId s = of_int (p_id p)) \<and>
           sn_peers s' = on_peer (p_id p) (send_message (se_peer env) (GetHeaders (getheaders_for locator))) (sn_peers s) \<or>
         ibd \<and> \<not> HasSyncPeer s \<and> \<not> p_is_inbound p \<and> GetSyncPeerId s' = of_int (p_id p) \<and>
           sn_peers s' = on_peer (p_id p) (send_message (se_peer env) (GetHeaders (getheaders_for locator)))
             (on_peer (p_id p) (\<lambda>p. p\<lparr>p_sync_started := True\<rparr>) (sn_peers s)))))"
proof -
  obtain b st where d: "IsInitialBlockDownload (se_node env) (sn_chain s) = (b, st)" by force
  have b: "ibd = b" by (simp add: ibd_def d)
  note same = ibd_same [OF d]
  have st: "b \<Longrightarrow> st = sn_chain s" using ibd_stays [of "se_node env" "sn_chain s" st] d by simp
  obtain should found s1 where l: "inv_loop env p items False s = (should, found, s1)" using prod_cases3 by blast
  consider (idle) "\<not> should" "s1 = s" | (asked) "should" "found" "list_ex (unknown_block (sn_chain s)) items" "s1 = s\<lparr>sn_chain := st\<rparr>"
      "b \<longrightarrow> HasSyncPeer s \<and> GetSyncPeerId s = of_int (p_id p)"
    | (adopted) "should" "found" "list_ex (unknown_block (sn_chain s)) items" "b" "\<not> HasSyncPeer s" "\<not> p_is_inbound p"
      "s1 = (SetSyncPeer env (of_int (p_id p)) s)\<lparr>sn_peers := on_peer (p_id p) (\<lambda>p. p\<lparr>p_sync_started := True\<rparr>) (sn_peers s)\<rparr>"
    using inv_loop_cases [OF d l] by blast
  then show ?thesis
  proof cases
    case idle
    then show ?thesis using assms(1) l by (simp add: HandleInvMessage_def)
  next
    case asked
    then obtain locator where "GetLocatorFromPrev st = Some locator" "ok"
        "s' = s\<lparr>sn_chain := st, sn_peers := on_peer (p_id p) (send_message (se_peer env) (GetHeaders (getheaders_for locator))) (sn_peers s)\<rparr>"
      using assms(1) l same by (auto simp: HandleInvMessage_def RequestHeadersFromPeer_def Let_def split: option.splits)
    then show ?thesis using asked(3,5) same unfolding b by simp
  next
    case adopted
    have "IsInitialBlockDownload (se_node env) (sn_chain s1) = (True, sn_chain s)" using d adopted(4,7) st by (simp add: SetSyncPeer_def Let_def)
    then obtain locator where "GetLocatorFromPrev (sn_chain s) = Some locator" "ok"
        "s' = s1\<lparr>sn_chain := sn_chain s, sn_peers := on_peer (p_id p) (send_message (se_peer env) (GetHeaders (getheaders_for locator))) (sn_peers s1)\<rparr>"
      using assms(1) l adopted(1,2) by (auto simp: HandleInvMessage_def RequestHeadersFromPeer_def Let_def split: option.splits)
    then show ?thesis using adopted(3-7) unfolding b by (simp add: SetSyncPeer_def Let_def GetSyncPeerId_def)
  qed
qed

theorem inv_asks_allowed_peer_witness:
  "\<exists>s'. HandleInvMessage sample_sync_env relay_peer [block_inv [7]] relay_node = Some (True, s') \<and>
     the_chain (sn_chain s') = [Some [9], Some [1]] \<and> the_index (sn_chain s') = the_index ahead_state"
proof -
  have c: "sn_chain relay_node = ahead_state" by (simp add: relay_node_def sample_node_def)
  obtain s' where h: "HandleInvMessage sample_sync_env relay_peer [block_inv [7]] relay_node = Some (True, s')"
    using HandleInvMessage_returns [of small_env relay_node sample_sync_env relay_peer "[block_inv [7]]"] ahead_node_inv c by metis
  from inv_asks_allowed_peer [OF h] h show ?thesis by (auto simp: c ahead_chain)
qed

end
