(* ===== verification/Network.thy ===== *)
theory Network
  imports Complex_Main Discovery Block_Relay
begin

text \<open>
  The parts of the network layer put together: \<open>MessageDispatcher\<close> of \<open>message_dispatcher.cpp\<close>, \<open>BlockchainSyncManager\<close> of
  \<open>blockchain_sync_manager.cpp\<close> and \<open>NetworkManager\<close> of \<open>network_manager.cpp\<close>.  The networking reactor has one thread, so
  a state of the network is changed by one event after the other: a message of a peer, an inbound connection, the end of
  a dial, a timer, or a call from outside.

  The peer manager records its calls to the other managers in a journal; an event ends with handing the new entries to
  the subscribers.  \<open>ne_draw\<close> are the random choices of the address manager (by position in the journal), \<open>ne_connect\<close> the
  transport, \<open>ne_anchors\<close>, \<open>ne_io\<close> and \<open>ne_removable\<close> the JSON library and the file system.  Port mapping, the listening socket and the
  threads are not modelled.
\<close>

section \<open>Dispatching by command\<close>

type_synonym 'h MessageDispatcher = "(string, 'h) std_map"
type_synonym ('p, 's) MessageHandler = "'p \<Rightarrow> Message \<Rightarrow> 's \<Rightarrow> ((pow_error + bool) \<times> 's) option"

definition RegisterHandler :: "string \<Rightarrow> 'h \<Rightarrow> 'h MessageDispatcher \<Rightarrow> 'h MessageDispatcher" where
  "RegisterHandler cmd handler handlers = om_update cmd handler handlers"

definition UnregisterHandler :: "string \<Rightarrow> 'h MessageDispatcher \<Rightarrow> 'h MessageDispatcher" where
  "UnregisterHandler cmd handlers = om_erase cmd handlers"

definition HasHandler :: "string \<Rightarrow> 'h MessageDispatcher \<Rightarrow> bool" where
  "HasHandler cmd handlers \<longleftrightarrow> map_of handlers cmd \<noteq> None"

definition GetRegisteredCommands :: "'h MessageDispatcher \<Rightarrow> string list" where
  "GetRegisteredCommands handlers = sort (map fst handlers)"

text \<open>An exception of the handler ends in \<open>False\<close>, with what the handler has done so far.\<close>

definition Dispatch :: "('p, 's) MessageHandler MessageDispatcher \<Rightarrow> 'p \<Rightarrow> string \<Rightarrow> Message option \<Rightarrow> 's \<Rightarrow> (bool \<times> 's) option" where
  "Dispatch handlers p cmd msg s =
     (case msg of
        None \<Rightarrow> Some (False, s)
      | Some msg \<Rightarrow>
          (case map_of handlers cmd of
             None \<Rightarrow> Some (False, s)
           | Some handler \<Rightarrow>
               (case handler p msg s of
                  None \<Rightarrow> None
                | Some (Inl err, s) \<Rightarrow> Some (False, s)
                | Some (Inr ok, s) \<Rightarrow> Some (ok, s))))"

section \<open>State\<close>

record net_config =
  nc_network_magic :: u32
  nc_datadir :: string
  nc_feeler_max_delay_multiplier :: rat
  nc_local_nonce :: u64
  nc_inbound_permissions :: u32

record network =
  nw_node :: sync_node
  nw_disc :: PeerDiscoveryManager
  nw_running :: bool
  nw_fully_stopped :: bool
  nw_files :: "string \<Rightarrow> string option"

record net_env =
  ne_disc :: disc_env
  ne_ban :: ban_env
  ne_process_nonce :: u64
  ne_connect :: "pm_call list \<Rightarrow> string \<Rightarrow> u16 \<Rightarrow> ((string \<times> u16) \<times> bool) option"
  ne_draw :: "nat \<Rightarrow> nat \<Rightarrow> nat \<Rightarrow> nat"
  ne_anchor_order :: "anchor_candidate list \<Rightarrow> anchor_candidate list"
  ne_anchors :: anchors_json
  ne_io :: peers_io
  ne_removable :: bool

abbreviation ne_sync :: "net_env \<Rightarrow> sync_env" where
  "ne_sync env \<equiv> de_sync (ne_disc env)"

abbreviation ne_peer :: "net_env \<Rightarrow> peer_env" where
  "ne_peer env \<equiv> se_peer (ne_sync env)"

abbreviation nw_peers :: "network \<Rightarrow> PeerLifecycleManager" where
  "nw_peers nw \<equiv> sn_peers (nw_node nw)"

abbreviation nw_chain :: "network \<Rightarrow> chainstate" where
  "nw_chain nw \<equiv> sn_chain (nw_node nw)"

section \<open>Subscribers of the peer manager\<close>

text \<open>
  A peer is in the table when its connection is reported and is not when its end is, except in \<open>disconnect_all\<close>, whose
  reports do not mark an address as good.
\<close>

definition told :: "disc_env \<Rightarrow> pm_call \<Rightarrow> PeerDiscoveryManager \<Rightarrow> PeerDiscoveryManager" where
  "told env c dm =
     (case c of
        NotifyPeerConnected peer_id address port connection_type \<Rightarrow> on_peer_connected env True address port connection_type dm
      | NotifyPeerDisconnected peer_id address port reason mark_addr_good \<Rightarrow> on_peer_disconnected env False address port mark_addr_good dm
      | CleanupStale \<Rightarrow> dm\<lparr>dm_addr := cleanup_stale (de_now env) (dm_addr dm)\<rparr>
      | AddrGood addr \<Rightarrow> dm\<lparr>dm_addr := good (de_now env) addr (dm_addr dm)\<rparr>
      | AddrAttempt addr \<Rightarrow> dm\<lparr>dm_addr := attempt (de_now env) addr (dm_addr dm)\<rparr>
      | AddrFailed addr \<Rightarrow> dm\<lparr>dm_addr := failed (de_now env) addr (dm_addr dm)\<rparr>
      | TransportConnect address port \<Rightarrow> dm
      | CloseTransport address port \<Rightarrow> dm)"

definition hs_call :: "pm_call \<Rightarrow> sync_node \<Rightarrow> sync_node" where
  "hs_call c s = (case c of NotifyPeerDisconnected peer_id _ _ _ _ \<Rightarrow> OnPeerDisconnected (of_int peer_id) s | _ \<Rightarrow> s)"

definition new_calls :: "PeerLifecycleManager \<Rightarrow> PeerLifecycleManager \<Rightarrow> pm_call list" where
  "new_calls pm pm' = drop (length (pm_calls pm)) (pm_calls pm')"

text \<open>An operation of the peer manager, and one of the sync managers, which have told the header sync themselves.\<close>

definition on_peers :: "net_env \<Rightarrow> (PeerLifecycleManager \<Rightarrow> PeerLifecycleManager) \<Rightarrow> network \<Rightarrow> network" where
  "on_peers env f nw =
     (let pm = f (nw_peers nw); calls = new_calls (nw_peers nw) pm in
      nw\<lparr>nw_node := fold hs_call calls ((nw_node nw)\<lparr>sn_peers := pm\<rparr>), nw_disc := fold (told (ne_disc env)) calls (nw_disc nw)\<rparr>)"

definition with_node :: "net_env \<Rightarrow> sync_node \<Rightarrow> network \<Rightarrow> network" where
  "with_node env s nw =
     nw\<lparr>nw_node := s, nw_disc := fold (told (ne_disc env)) (new_calls (nw_peers nw) (sn_peers s)) (nw_disc nw)\<rparr>"

text \<open>The environment of the peer manager: addresses are selected from the book as it is at that point of the journal.\<close>

definition net_pm_env :: "net_env \<Rightarrow> network \<Rightarrow> pm_env" where
  "net_pm_env env nw =
     (let known = length (pm_calls (nw_peers nw));
          book_at = (\<lambda>calls. dm_addr (fold (told (ne_disc env)) (drop known calls) (nw_disc nw))) in
      \<lparr>pw_peer = ne_peer env, pw_process_nonce = ne_process_nonce env, pw_connect = ne_connect env,
       pw_select = (\<lambda>calls. select (ne_draw env (length calls)) (de_now (ne_disc env)) (book_at calls)),
       pw_select_new = (\<lambda>calls. select_new_for_feeler (ne_draw env (length calls)) (book_at calls))\<rparr>)"

section \<open>Message handlers\<close>

definition on_verack :: "net_env \<Rightarrow> (peer, network) MessageHandler" where
  "on_verack env p msg nw =
     (case HandleVerack (ne_peer env) p of
        None \<Rightarrow> None
      | Some (ok, _) \<Rightarrow>
          Some (Inr ok, on_peers env (on_peer (p_id p) (\<lambda>p. case HandleVerack (ne_peer env) p of None \<Rightarrow> p | Some (ok, p) \<Rightarrow> p)) nw))"

definition on_addr :: "net_env \<Rightarrow> (peer, network) MessageHandler" where
  "on_addr env p msg nw =
     (case msg of
        Addr addresses \<Rightarrow>
          (case HandleAddr (ne_disc env) p addresses (nw_node nw, nw_disc nw) of (ok, s, dm) \<Rightarrow>
             Some (Inr ok, with_node env s (nw\<lparr>nw_disc := dm\<rparr>)))
      | _ \<Rightarrow> Some (Inr False, nw))"

definition on_getaddr :: "net_env \<Rightarrow> (peer, network) MessageHandler" where
  "on_getaddr env p msg nw =
     (case HandleGetAddr (ne_disc env) p (nw_node nw, nw_disc nw) of (ok, s, dm) \<Rightarrow>
        Some (Inr ok, with_node env s (nw\<lparr>nw_disc := dm\<rparr>)))"

text \<open>The gate in front of the three sync messages.\<close>

definition gated :: "net_env \<Rightarrow> peer \<Rightarrow> network \<Rightarrow> ((pow_error + bool) \<times> sync_node) option \<Rightarrow> ((pow_error + bool) \<times> network) option" where
  "gated env p nw result =
     (if \<not> p_successfully_connected p then Some (Inr False, on_peers env (on_peer (p_id p) do_disconnect) nw)
      else map_option (\<lambda>(r, s). (r, with_node env s nw)) result)"

definition HandleInv :: "sync_env \<Rightarrow> peer \<Rightarrow> InventoryVector list \<Rightarrow> sync_node \<Rightarrow> ((pow_error + bool) \<times> sync_node) option" where
  "HandleInv env p inventory s = map_option (\<lambda>(ok, s). (Inr ok, s)) (HandleInvMessage env p inventory s)"

definition HandleHeaders :: "sync_env \<Rightarrow> peer \<Rightarrow> CBlockHeader list \<Rightarrow> sync_node \<Rightarrow> ((pow_error + bool) \<times> sync_node) option" where
  "HandleHeaders env p headers s = HandleHeadersMessage env (p_id p) headers s"

definition HandleGetHeaders :: "sync_env \<Rightarrow> peer \<Rightarrow> GetHeadersMessage \<Rightarrow> sync_node \<Rightarrow> ((pow_error + bool) \<times> sync_node) option" where
  "HandleGetHeaders env p msg s = map_option (\<lambda>(ok, s). (Inr ok, s)) (HandleGetHeadersMessage env (p_id p) msg s)"

definition on_inv :: "net_env \<Rightarrow> (peer, network) MessageHandler" where
  "on_inv env p msg nw =
     (case msg of Inv inventory \<Rightarrow> gated env p nw (HandleInv (ne_sync env) p inventory (nw_node nw)) | _ \<Rightarrow> Some (Inr False, nw))"

definition on_headers :: "net_env \<Rightarrow> (peer, network) MessageHandler" where
  "on_headers env p msg nw =
     (case msg of Headers headers \<Rightarrow> gated env p nw (HandleHeaders (ne_sync env) p headers (nw_node nw)) | _ \<Rightarrow> Some (Inr False, nw))"

definition on_getheaders :: "net_env \<Rightarrow> (peer, network) MessageHandler" where
  "on_getheaders env p msg nw =
     (case msg of GetHeaders request \<Rightarrow> gated env p nw (HandleGetHeaders (ne_sync env) p request (nw_node nw)) | _ \<Rightarrow> Some (Inr False, nw))"

definition net_handlers :: "net_env \<Rightarrow> (peer, network) MessageHandler MessageDispatcher" where
  "net_handlers env =
     RegisterHandler ''getheaders'' (on_getheaders env)
       (RegisterHandler ''headers'' (on_headers env)
         (RegisterHandler ''inv'' (on_inv env)
           (RegisterHandler ''getaddr'' (on_getaddr env)
             (RegisterHandler ''addr'' (on_addr env)
               (RegisterHandler ''verack'' (on_verack env) [])))))"

definition handle_message :: "net_config \<Rightarrow> net_env \<Rightarrow> peer \<Rightarrow> Message \<Rightarrow> network \<Rightarrow> (bool \<times> network) option" where
  "handle_message cfg env p msg nw =
     (if \<not> nw_running nw then Some (False, nw)
      else if (case msg of Version v \<Rightarrow> \<not> CheckIncomingNonce (vm_nonce v) (nc_local_nonce cfg) (nw_peers nw) | _ \<Rightarrow> False)
      then Some (False, on_peers env (\<lambda>pm. remove_peer (ne_peer env) (p_id p) (on_peer (p_id p) do_disconnect pm)) nw)
      else Dispatch (net_handlers env) p (command msg) (Some msg) nw)"

section \<open>Connections\<close>

definition connect_to_with_permissions :: "net_config \<Rightarrow> net_env \<Rightarrow> NetworkAddress \<Rightarrow> u32 \<Rightarrow> network \<Rightarrow> ConnectionResult \<times> network" where
  "connect_to_with_permissions cfg env addr perms nw =
     (if \<not> nw_running nw then (NotRunning, nw)
      else
        let connect = ConnectTo (net_pm_env env nw) addr perms (nc_network_magic cfg) (GetChainHeight (nw_chain nw)) (nc_local_nonce cfg)
        in (fst (connect (nw_peers nw)), on_peers env (\<lambda>pm. snd (connect pm)) nw))"

definition connect_to :: "net_config \<Rightarrow> net_env \<Rightarrow> NetworkAddress \<Rightarrow> network \<Rightarrow> ConnectionResult \<times> network" where
  "connect_to cfg env addr nw = connect_to_with_permissions cfg env addr None_permissions nw"

definition disconnect_from :: "net_env \<Rightarrow> int \<Rightarrow> network \<Rightarrow> bool \<times> network" where
  "disconnect_from env peer_id nw =
     (if get_peer peer_id (nw_peers nw) = None then (False, nw) else (True, on_peers env (remove_peer (ne_peer env) peer_id) nw))"

definition on_accept :: "net_config \<Rightarrow> net_env \<Rightarrow> ((string \<times> u16) \<times> bool) option \<Rightarrow> network \<Rightarrow> network" where
  "on_accept cfg env connection nw =
     on_peers env (HandleInboundConnection (net_pm_env env nw) (nw_running nw) connection (nc_network_magic cfg)
       (GetChainHeight (nw_chain nw)) (nc_local_nonce cfg) (nc_inbound_permissions cfg)) nw"

definition connect_timer_fired :: "net_config \<Rightarrow> net_env \<Rightarrow> network \<Rightarrow> network" where
  "connect_timer_fired cfg env nw =
     (if \<not> nw_running nw then nw
      else on_peers env (AttemptOutboundConnections (nw_running nw) (net_pm_env env nw) (nc_network_magic cfg)
             (GetChainHeight (nw_chain nw)) (nc_local_nonce cfg)) nw)"

definition attempt_feeler_connection :: "net_config \<Rightarrow> net_env \<Rightarrow> network \<Rightarrow> network" where
  "attempt_feeler_connection cfg env nw =
     on_peers env (AttemptFeelerConnection (nw_running nw) (net_pm_env env nw) (nc_network_magic cfg)
       (GetChainHeight (nw_chain nw)) (nc_local_nonce cfg)) nw"

definition feeler_timer_fired :: "net_config \<Rightarrow> net_env \<Rightarrow> network \<Rightarrow> network" where
  "feeler_timer_fired cfg env nw = (if \<not> nw_running nw then nw else attempt_feeler_connection cfg env nw)"

text \<open>
  The seconds until the next feeler, from the sample of the exponential distribution around 120 seconds; the
  interval is a duration of two minutes.
\<close>

definition FEELER_INTERVAL_count :: rat where "FEELER_INTERVAL_count = 2"

definition feeler_delay :: "net_config \<Rightarrow> rat \<Rightarrow> int" where
  "feeler_delay cfg delay_s =
     (let delay_s = (if nc_feeler_max_delay_multiplier cfg > 0
        then min (nc_feeler_max_delay_multiplier cfg * FEELER_INTERVAL_count) delay_s else delay_s)
      in max 1 \<lfloor>delay_s\<rfloor>)"

section \<open>Maintenance\<close>

definition check_initial_sync :: "net_env \<Rightarrow> network \<Rightarrow> network option" where
  "check_initial_sync env nw = map_option (\<lambda>s. with_node env s nw) (CheckInitialSync (ne_sync env) (nw_node nw))"

definition announce_tip_to_peers :: "net_env \<Rightarrow> network \<Rightarrow> network" where
  "announce_tip_to_peers env nw = with_node env (AnnounceTipToAllPeers (ne_sync env) (nw_node nw)) nw"

definition announce_tip_to_peer :: "net_env \<Rightarrow> int \<Rightarrow> network \<Rightarrow> network" where
  "announce_tip_to_peer env peer_id nw = with_node env (AnnounceTipToPeer (ne_sync env) peer_id (nw_node nw)) nw"

definition flush_block_announcements :: "net_env \<Rightarrow> network \<Rightarrow> network" where
  "flush_block_announcements env nw = with_node env (FlushBlockAnnouncements (ne_sync env) (nw_node nw)) nw"

definition relay_block :: "net_env \<Rightarrow> blob \<Rightarrow> network \<Rightarrow> network" where
  "relay_block env block_hash nw = with_node env (RelayBlock (ne_sync env) block_hash (nw_node nw)) nw"

definition sweep :: "net_env \<Rightarrow> PeerLifecycleManager \<Rightarrow> PeerLifecycleManager" where
  "sweep env pm = pm\<lparr>ban_manager := SweepDiscouraged (pe_time (ne_peer env)) (SweepBanned (ne_ban env) (ban_manager pm))\<rparr>"

definition run_maintenance :: "net_env \<Rightarrow> network \<Rightarrow> network option" where
  "run_maintenance env nw =
     (if \<not> nw_running nw then Some nw
      else
        let nw = on_peers env (process_periodic (ne_peer env)) nw;
            nw = with_node env (ProcessTimers (ne_sync env) (nw_node nw)) nw;
            nw = on_peers env (sweep env) nw;
            nw = announce_tip_to_peers env nw
        in check_initial_sync env nw)"

definition run_sendmessages :: "net_env \<Rightarrow> network \<Rightarrow> network option" where
  "run_sendmessages env nw =
     (if \<not> nw_running nw then Some nw
      else map_option (flush_block_announcements env) (check_initial_sync env nw))"

section \<open>Start and stop\<close>

definition connect_anchors :: "net_config \<Rightarrow> net_env \<Rightarrow> NetworkAddress list \<Rightarrow> network \<Rightarrow> network" where
  "connect_anchors cfg env anchors nw =
     (if anchors = [] then nw
      else on_peers env (ConnectToAnchors anchors (net_pm_env env nw) (nc_network_magic cfg) (GetChainHeight (nw_chain nw)) (nc_local_nonce cfg)) nw)"

text \<open>\<open>None\<close>: the call waits for a \<open>stop\<close> that does not end.\<close>

definition net_start :: "net_config \<Rightarrow> net_env \<Rightarrow> network \<Rightarrow> (bool \<times> network) option" where
  "net_start cfg env nw =
     (if nw_running nw then Some (False, nw)
      else if \<not> nw_fully_stopped nw then None
      else
        let nw = nw\<lparr>nw_running := True, nw_fully_stopped := False\<rparr>;
            (anchors, files) = dm_Start_anchors (ne_anchors env) (ne_removable env) (nw_disc nw) (nw_files nw);
            nw = connect_anchors cfg env anchors (nw\<lparr>nw_files := files\<rparr>)
        in Some (True, nw\<lparr>nw_disc := dm_Start_bootstrap (ne_disc env) (nw_disc nw)\<rparr>))"

definition net_LoadAnchors :: "net_config \<Rightarrow> net_env \<Rightarrow> string \<Rightarrow> network \<Rightarrow> bool \<times> network" where
  "net_LoadAnchors cfg env filepath nw =
     (case LoadAnchors (ne_anchors env) (ne_removable env) filepath (nw_files nw) of (anchors, files) \<Rightarrow>
        (anchors \<noteq> [], connect_anchors cfg env anchors (nw\<lparr>nw_files := files\<rparr>)))"

definition net_stop :: "net_config \<Rightarrow> net_env \<Rightarrow> network \<Rightarrow> network" where
  "net_stop cfg env nw =
     (if \<not> nw_running nw then nw
      else
        let nw = nw\<lparr>nw_running := False\<rparr>;
            nw = (if nc_datadir cfg \<noteq> []
                  then nw\<lparr>nw_files := snd (SaveAnchors (ne_peer env) (ne_anchor_order env) (ne_anchors env) (ne_io env)
                         (nc_datadir cfg @ ''/anchors.json'') (nw_peers nw) (nw_files nw))\<rparr>
                  else nw);
            nw = on_peers env (\<lambda>pm. disconnect_all (Shutdown pm)) nw
        in nw\<lparr>nw_fully_stopped := True\<rparr>)"

definition new_network :: "net_config \<Rightarrow> net_env \<Rightarrow> chainstate \<Rightarrow> (string \<Rightarrow> string option) \<Rightarrow> network" where
  "new_network cfg env chain files =
     \<lparr>nw_node = \<lparr>sn_chain = chain,
        sn_peers = SetDiscoveryManager True (new_PeerLifecycleManager default_config (ne_ban env) (nc_datadir cfg) files),
        sn_sync = new_SyncState, last_batch_size = 0\<rparr>,
      nw_disc = PeerDiscoveryManager_new (nc_datadir cfg), nw_running = False, nw_fully_stopped = True, nw_files = files\<rparr>"

section \<open>Events\<close>

text \<open>
  \<open>Deliver\<close> is a message that a peer of the table has parsed, \<open>PeerStep\<close> the work of a peer object on its own (bytes
  received, its timers, the end of its connection).
\<close>

datatype net_event =
    Start | Stop
  | Accept "((string \<times> u16) \<times> bool) option"
  | Dialled int NetworkAddress bool bool
  | PeerStep int "peer \<Rightarrow> peer"
  | Deliver int Message
  | ConnectTimer | FeelerTimer | MaintenanceTimer | SendTimer
  | Connect NetworkAddress | Disconnect int | Relay blob | AnnounceTo int

fun net_do :: "net_config \<Rightarrow> net_env \<Rightarrow> net_event \<Rightarrow> network \<Rightarrow> network option" where
  "net_do cfg env Start nw = map_option snd (net_start cfg env nw)"
| "net_do cfg env Stop nw = Some (net_stop cfg env nw)"
| "net_do cfg env (Accept connection) nw = Some (on_accept cfg env connection nw)"
| "net_do cfg env (Dialled i addr success is_open) nw = Some (on_peers env (connect_completed (net_pm_env env nw) i addr success is_open) nw)"
| "net_do cfg env (PeerStep i f) nw = Some (on_peers env (on_peer i f) nw)"
| "net_do cfg env (Deliver i msg) nw =
     (case get_peer i (nw_peers nw) of None \<Rightarrow> Some nw | Some p \<Rightarrow> map_option snd (handle_message cfg env p msg nw))"
| "net_do cfg env ConnectTimer nw = Some (connect_timer_fired cfg env nw)"
| "net_do cfg env FeelerTimer nw = Some (feeler_timer_fired cfg env nw)"
| "net_do cfg env MaintenanceTimer nw = run_maintenance env nw"
| "net_do cfg env SendTimer nw = run_sendmessages env nw"
| "net_do cfg env (Connect addr) nw = Some (snd (connect_to cfg env addr nw))"
| "net_do cfg env (Disconnect i) nw = Some (snd (disconnect_from env i nw))"
| "net_do cfg env (Relay h) nw = Some (relay_block env h nw)"
| "net_do cfg env (AnnounceTo i) nw = Some (announce_tip_to_peer env i nw)"

end
