(* ===== verification/Network_Safety.thy ===== *)
theory Network_Safety
  imports Network
begin

text \<open>
  The network layer as a whole: whatever sequence of events runs, the peer table keeps its limits, what is remembered of
  addresses stays well formed and bounded, and the chain moves by protocol steps only.
\<close>

section \<open>How the peer table evolves\<close>

text \<open>
  An operation on the table keeps its invariant, and every peer that is in it afterwards is new or has the learned
  addresses it had.
\<close>

definition learns :: "PeerLifecycleManager \<Rightarrow> PeerLifecycleManager \<Rightarrow> bool" where
  "learns pm pm' \<longleftrightarrow> (\<forall>(i, st) \<in> set (peer_states pm'). learned_addresses st = [] \<or>
     (\<exists>st0. (i, st0) \<in> set (peer_states pm) \<and> learned_addresses st = learned_addresses st0))"

definition evolves :: "ip_lib \<Rightarrow> PeerLifecycleManager \<Rightarrow> PeerLifecycleManager \<Rightarrow> bool" where
  "evolves lib pm pm' \<longleftrightarrow> (\<forall>c. pm_inv lib c pm \<longrightarrow> pm_inv lib c pm') \<and> learns pm pm'"

lemma learns_refl [simp]: "learns pm pm"
  by (auto simp: learns_def)

lemma learns_trans: "learns a b \<Longrightarrow> learns b c \<Longrightarrow> learns a c"
  unfolding learns_def by fastforce

lemma learns_keeps: "keeps_learned pm pm' \<Longrightarrow> learns pm pm'"
  by (fastforce simp: learns_def keeps_learned_def)

lemma learns_states: "peer_states pm' = peer_states pm \<Longrightarrow> learns pm pm'"
  by (auto simp: learns_def)

lemma ev_refl [simp]: "evolves lib pm pm"
  by (simp add: evolves_def)

lemma ev_trans: "evolves lib a b \<Longrightarrow> evolves lib b c \<Longrightarrow> evolves lib a c"
  unfolding evolves_def using learns_trans by blast

lemma evI: "(\<And>c. pm_inv lib c pm \<Longrightarrow> pm_inv lib c pm') \<Longrightarrow> keeps_learned pm pm' \<Longrightarrow> evolves lib pm pm'"
  by (simp add: evolves_def learns_keeps)

lemma ev_same:
  assumes "pm_config pm' = pm_config pm" and "peer_states pm' = peer_states pm" and "next_peer_id pm \<le> next_peer_id pm'"
  shows "evolves lib pm pm'"
  by (rule evI) (use assms in \<open>auto intro: pm_inv_same simp: keeps_learned_def\<close>)

lemma ev_Modify:
  assumes "\<And>st. keeps (ps_peer st) (ps_peer (f st)) \<and> (mb_ok (misbehavior st) \<longrightarrow> mb_ok (misbehavior (f st))) \<and> learned_addresses (f st) = learned_addresses st"
  shows "evolves lib pm (pm\<lparr>peer_states := Modify i f (peer_states pm)\<rparr>)"
  by (rule evI) (use assms in \<open>auto intro: pm_inv_Modify kl_Modify\<close>)

lemma ev_on_peer: "(\<And>p. keeps p (f p)) \<Longrightarrow> evolves lib pm (on_peer i f pm)"
  unfolding on_peer_def by (rule ev_Modify) simp

lemma ev_remove: "evolves lib pm (remove_peer env i pm)"
  by (rule evI) (auto intro: pm_inv_remove_peer kl_remove)

lemma ev_call [simp]: "evolves lib pm (pm_call c pm)"
  by (rule ev_same) (simp_all add: pm_call_def)

lemma ev_fold: "(\<And>x pm. evolves lib pm (f x pm)) \<Longrightarrow> evolves lib pm (fold f xs pm)"
  by (induction xs arbitrary: pm) (auto intro: ev_trans)

lemma ev_reset: "evolves lib pm (reset_sync_started pm)"
  unfolding reset_sync_started_def by (rule ev_fold) (auto intro: ev_on_peer)

lemma ev_report: "evolves lib (sn_peers s) (sn_peers (hs_report i op s))"
  unfolding hs_report_def mb_apply_local sync_node.simps
  by (simp, rule ev_Modify) (simp add: on_misbehavior_def mb_ok_data)

lemma ev_disconnected: "evolves lib (sn_peers s) (sn_peers (OnPeerDisconnected i s))"
  by (simp add: OnPeerDisconnected_def ClearSyncPeer_def Let_def ev_reset)

lemma ev_hs_remove: "evolves lib (sn_peers s) (sn_peers (hs_remove_peer env i s))"
proof -
  let ?s = "s\<lparr>sn_peers := remove_peer (se_peer env) i (sn_peers s)\<rparr>"
  have "evolves lib (sn_peers s) (sn_peers ?s)" by (simp add: ev_remove)
  then show ?thesis using ev_trans [OF _ ev_disconnected [of lib ?s]] by (simp add: hs_remove_peer_def Let_def)
qed

lemma ev_clear [simp]: "sn_peers (ClearSyncPeer s) = sn_peers s" "sn_peers (SetSyncPeer env i s) = sn_peers s"
  by (simp_all add: ClearSyncPeer_def SetSyncPeer_def Let_def)

lemma ev_drop: "evolves lib (sn_peers s) (sn_peers (drop_if_bad env i s))"
  by (simp add: drop_if_bad_def ev_hs_remove)

lemma ev_punish: "evolves lib (sn_peers s) (sn_peers (drop_if_bad env i (hs_report i op s)))"
  by (rule ev_trans [OF ev_report ev_drop])

lemma ev_penalise: "evolves lib (sn_peers s) (sn_peers (penalise_invalid env i h s))"
  unfolding penalise_invalid_def ev_clear by (rule ev_trans [OF ev_report ev_punish])

lemma ev_request: "RequestHeadersFromPeer env i s = Some s' \<Longrightarrow> evolves lib (sn_peers s) (sn_peers s')"
  by (auto simp: RequestHeadersFromPeer_def ev_on_peer split: option.splits)

section \<open>The handlers\<close>

lemma ev_accept:
  "accept_headers env i skip headers s = Some (r, s') \<Longrightarrow> evolves lib (sn_peers s) (sn_peers s')"
proof (induction headers arbitrary: s)
  case (Cons header headers)
  have go: "evolves lib (sn_peers s) (sn_peers s')" if "accept_headers env i skip headers (s\<lparr>sn_chain := st\<rparr>) = Some (r, s')" for st
    using Cons.IH [OF that] by simp
  have stop: "evolves lib (sn_peers s) (sn_peers (drop_if_bad env i (hs_report i op (s\<lparr>sn_chain := st\<rparr>))))"
      "evolves lib (sn_peers s) (sn_peers (penalise_invalid env i h (s\<lparr>sn_chain := st\<rparr>)))" for op st h
    using ev_punish [of lib "s\<lparr>sn_chain := st\<rparr>" env i op] ev_penalise [of lib "s\<lparr>sn_chain := st\<rparr>" env i h] by simp_all
  show ?case using Cons.prems
    by (auto simp: Let_def go stop split: option.splits sum.splits prod.splits if_splits)
qed simp

lemma ev_activate: "activate_batch env i s = Some (r, s') \<Longrightarrow> evolves lib (sn_peers s) (sn_peers s')"
  by (auto simp: activate_batch_def Let_def split: option.splits prod.splits if_splits dest!: ev_request [where lib = lib])

lemma ev_low_work: "low_work env headers s = (b, s') \<Longrightarrow> sn_peers s' = sn_peers s"
  by (auto simp: low_work_def Let_def split: option.splits prod.splits)

lemma ev_checked:
  assumes "process_checked env i skip headers s = Some (r, s')"
  shows "evolves lib (sn_peers s) (sn_peers s')"
proof -
  obtain low s1 where l: "(if skip then (False, s) else low_work env headers s) = (low, s1)" by force
  have p: "sn_peers s1 = sn_peers s" using l ev_low_work [of env headers s] by (auto split: if_splits)
  show ?thesis
  proof (cases low)
    case True
    then show ?thesis using assms l p
      by (auto simp: process_checked_def split: if_splits dest!: ev_request [where lib = lib])
  next
    case False
    then obtain r2 s2 where a: "accept_headers env i skip headers (s1\<lparr>last_batch_size := length headers\<rparr>) = Some (r2, s2)"
        "(r2, s2) = (r, s') \<or> activate_batch env i s2 = Some (r, s')"
      using assms l by (auto simp: process_checked_def split: option.splits sum.splits bool.splits)
    have "evolves lib (sn_peers s) (sn_peers s2)" using ev_accept [OF a(1), of lib] p by simp
    then show ?thesis using a(2) ev_trans ev_activate by blast
  qed
qed

lemma ev_batch:
  assumes "process_batch env i skip headers s = Some (r, s')"
  shows "evolves lib (sn_peers s) (sn_peers s')"
proof (cases "length headers > MAX_HEADERS_SIZE")
  case True
  then show ?thesis using assms by (auto simp: process_batch_def ev_punish)
next
  case False
  define s1 where "s1 = (if LookupBlockIndex (cs_block_manager (sn_chain s)) (hashPrevBlock (hd headers)) = None
    then drop_if_bad env i (hs_report i UnconnectingHeaders s) else hs_report i ConnectingHeaders s)"
  have s1: "evolves lib (sn_peers s) (sn_peers s1)" by (simp add: s1_def ev_punish ev_report)
  have "s' = s1 \<or> (\<exists>op. sn_peers s' = sn_peers (drop_if_bad env i (hs_report i op s1))) \<or> process_checked env i skip headers s1 = Some (r, s')"
    using assms False unfolding process_batch_def Let_def s1_def [symmetric] by (auto split: sum.splits if_splits simp: s1_def)
  then show ?thesis using s1 ev_trans [OF s1 ev_punish] ev_trans [OF s1 ev_checked] by auto
qed

lemma ev_headers:
  assumes "HandleHeadersMessage env i headers s = Some (r, s')"
  shows "evolves lib (sn_peers s) (sn_peers s')"
proof -
  obtain ibd st where d: "IsInitialBlockDownload (se_node env) (sn_chain s) = (ibd, st)" by force
  show ?thesis using assms ev_batch [of env i _ headers _ r s' lib]
    by (auto simp: HandleHeadersMessage_def d Let_def split: if_splits dest!: ev_batch [where lib = lib])
qed

lemma ev_getheaders: "HandleGetHeadersMessage env i msg s = Some (ok, s') \<Longrightarrow> evolves lib (sn_peers s) (sn_peers s') \<and> sn_chain s' = sn_chain s"
  by (auto simp: HandleGetHeadersMessage_def Let_def ev_on_peer split: option.splits)

lemma ev_inv:
  assumes "HandleInvMessage env p items s = Some (ok, s')"
  shows "evolves lib (sn_peers s) (sn_peers s') \<and> (sn_chain s' = sn_chain s \<or> sn_chain s' = snd (IsInitialBlockDownload (se_node env) (sn_chain s)))"
proof -
  obtain ibd st where d: "IsInitialBlockDownload (se_node env) (sn_chain s) = (ibd, st)" by force
  obtain should found s1 where l: "inv_loop env p items False s = (should, found, s1)" using prod_cases3 by blast
  have s1: "evolves lib (sn_peers s) (sn_peers s1)" "sn_chain s1 = sn_chain s \<or> sn_chain s1 = st"
    using inv_loop_cases [OF d l] by (auto simp: ev_on_peer)
  have "snd (IsInitialBlockDownload (se_node env) (sn_chain s1)) \<in> {sn_chain s, st}" using s1(2) ibd_same [OF d] d by auto
  moreover have "evolves lib (sn_peers s1) (sn_peers s') \<and>
      (sn_chain s' = sn_chain s1 \<or> sn_chain s' = snd (IsInitialBlockDownload (se_node env) (sn_chain s1)))"
  proof (cases "should \<and> found")
    case True
    then have r: "RequestHeadersFromPeer env (p_id p) (s1\<lparr>sn_chain := snd (IsInitialBlockDownload (se_node env) (sn_chain s1))\<rparr>) = Some s'"
      using assms l by (auto simp: HandleInvMessage_def Let_def split: prod.splits)
    show ?thesis using ev_request [OF r, of lib] chain_request [OF r] by simp
  next
    case False
    then show ?thesis using assms l by (auto simp: HandleInvMessage_def)
  qed
  ultimately show ?thesis using s1 ev_trans d by auto
qed

lemma ev_for_all:
  assumes "\<And>st. keeps (ps_peer st) (ps_peer (f st)) \<and> misbehavior (f st) = misbehavior st \<and> learned_addresses (f st) = learned_addresses st"
  shows "evolves lib pm (for_all_peers f pm)"
  unfolding for_all_peers_def by (intro ev_fold ev_Modify) (simp add: assms)

lemma keeps_queue [simp]: "keeps p (p\<lparr>p_blocks_for_inv_relay := q\<rparr>)"
  by (simp add: keeps_def)

lemma keeps_sends: "keeps p (fold (\<lambda>c. send_message env (g c)) cs p)"
  by (induction cs arbitrary: p) (auto intro: keeps_trans [OF keeps_basic(5)])

lemma ev_announce: "evolves lib (sn_peers s) (sn_peers (AnnounceTipToAllPeers env s))" "sn_chain (AnnounceTipToAllPeers env s) = sn_chain s"
  by (auto simp: AnnounceTipToAllPeers_def announce_tip_entry_def enqueue_tip_def Let_def intro!: ev_for_all split: option.split)

lemma ev_announce_one: "evolves lib (sn_peers s) (sn_peers (AnnounceTipToPeer env i s))" "sn_chain (AnnounceTipToPeer env i s) = sn_chain s"
  by (auto simp: AnnounceTipToPeer_def enqueue_tip_def Let_def intro!: ev_Modify split: option.split)

lemma ev_flush: "evolves lib (sn_peers s) (sn_peers (FlushBlockAnnouncements env s))" "sn_chain (FlushBlockAnnouncements env s) = sn_chain s"
  by (auto simp: FlushBlockAnnouncements_def flush_entry_def Let_def intro!: ev_for_all keeps_trans [OF keeps_queue keeps_sends])

lemma ev_relay: "evolves lib (sn_peers s) (sn_peers (RelayBlock env h s))" "sn_chain (RelayBlock env h s) = sn_chain s"
  by (auto simp: RelayBlock_def relay_entry_def Let_def intro!: ev_for_all keeps_trans [OF keeps_queue keeps_basic(5)])

lemma ev_initial:
  assumes "CheckInitialSync env s = Some s'"
  shows "evolves lib (sn_peers s) (sn_peers s') \<and> sn_chain s' = sn_chain s"
proof (cases "HasSyncPeer s \<or> find eligible_sync_peer (get_outbound_peers (sn_peers s)) = None")
  case True
  then show ?thesis using assms by (auto simp: CheckInitialSync_def split: if_splits)
next
  case False
  then obtain p where p: "find eligible_sync_peer (get_outbound_peers (sn_peers s)) = Some p" "\<not> HasSyncPeer s" by auto
  let ?s = "(SetSyncPeer env (of_int (p_id p)) s)\<lparr>sn_peers := on_peer (p_id p) (\<lambda>p. p\<lparr>p_sync_started := True\<rparr>) (sn_peers s)\<rparr>"
  have r: "RequestHeadersFromPeer env (p_id p) ?s = Some s'" using assms p by (simp add: CheckInitialSync_def Let_def)
  have "evolves lib (sn_peers s) (sn_peers ?s)" by (simp add: ev_on_peer)
  then show ?thesis using ev_trans [OF _ ev_request [OF r]] chain_request [OF r] by simp
qed

lemma ev_timers: "evolves lib (sn_peers s) (sn_peers (ProcessTimers env s))" "sn_chain (ProcessTimers env s) = sn_chain s"
  by (auto simp: ProcessTimers_def Let_def ev_hs_remove)

lemma keeps_verack: "keeps p (case HandleVerack env p of None \<Rightarrow> p | Some (ok, q) \<Rightarrow> q)"
  by (auto simp: HandleVerack_def intro: keeps_trans [OF keeps_basic(5) keeps_basic(20)])

section \<open>Connections\<close>

lemma learns_frame [simp]:
  "learns pm (pm_call c pm') = learns pm pm'" "learns (pm_call c pm) pm' = learns pm pm'"
  "learns pm (pm'\<lparr>next_peer_id := n\<rparr>) = learns pm pm'" "learns (pm\<lparr>next_peer_id := n\<rparr>) pm' = learns pm pm'"
  "learns (pm\<lparr>ban_manager := b\<rparr>) pm' = learns pm pm'"
  by (simp_all add: learns_def pm_call_def)

lemma learns_evict: "learns pm (snd (evict_inbound_peer env pm))"
  by (simp add: evict_inbound_peer_def Let_def learns_keeps kl_remove)

lemma learns_room: "make_room env p pm = (room, pm') \<Longrightarrow> learns pm pm'"
  using learns_evict [of pm env] by (auto simp: make_room_def Let_def split: if_splits prod.splits)

lemma learns_insert: "learns pm (insert_peer env k perms address p pm)"
  by (auto simp: learns_def insert_peer_def Let_def pm_call_def new_PerPeerState_def dest!: om_update_mem)

lemma learns_add_with_id: "learns pm (snd (add_peer_with_id env i q perms address pm))"
  by (auto simp: add_peer_with_id_def intro: learns_trans [OF learns_room learns_insert] learns_room split: option.split prod.split)

lemma learns_add: "learns pm (snd (add_peer env q perms address pm))"
proof -
  have "learns pm (insert_peer env i perms address p (pm'\<lparr>next_peer_id := n\<rparr>))" if "make_room env r pm = (room, pm')" for r room i p pm' n
    using learns_trans [OF learns_room [OF that]] learns_insert [of "pm'\<lparr>next_peer_id := n\<rparr>"] by simp
  then show ?thesis
    by (auto simp: add_peer_def allocate_peer_id_def intro: learns_room split: option.split prod.split)
qed

lemma learns_added:
  assumes "add_peer_with_id penv i q perms address (pm_call c (pm\<lparr>next_peer_id := n\<rparr>)) = (b, pm')"
  shows "learns pm pm'"
  using learns_add_with_id [of "pm_call c (pm\<lparr>next_peer_id := n\<rparr>)" penv i q perms address] assms by simp

lemma learns_connect: "learns pm (snd (ConnectTo env addr perms magic height nonce pm))"
  by (auto simp: ConnectTo_def Let_def allocate_peer_id_def intro: learns_added split: option.split prod.split)

lemma learns_attempt: "learns pm (attempt_loop n env magic height nonce pm)"
proof (induction n arbitrary: pm)
  case (Suc n)
  have one: "learns pm (attempt_one env magic height nonce addr pm)" for addr
    using learns_connect [of "pm_call (AddrAttempt addr) pm" env addr None_permissions magic height nonce]
    by (auto simp: attempt_one_def Let_def split: option.split prod.split)
  show ?case by (auto intro: learns_trans [OF one Suc.IH] split: option.split)
qed simp

lemma learns_anchors: "learns pm (ConnectToAnchors anchors env magic height nonce pm)"
proof (induction anchors arbitrary: pm)
  case (Cons addr anchors)
  let ?pm = "case NetworkAddressToString (pe_ip (pw_peer env)) addr of None \<Rightarrow> pm
      | Some ip \<Rightarrow> pm\<lparr>ban_manager := AddToWhitelist ip (ban_manager pm)\<rparr>"
  have "learns pm ?pm" by (rule learns_states) (simp split: option.split)
  from learns_trans [OF learns_trans [OF this learns_connect] Cons.IH] show ?case
    by (simp add: Let_def split: prod.split) (metis snd_conv)
qed simp

lemma learns_inbound: "learns pm (HandleInboundConnection env is_running connection magic height nonce perms pm)"
proof -
  have "learns pm pm'" "learns pm (on_peer j f pm')" if "add_peer penv q perms [] pm = (i, pm')" for penv q i pm' f j
    using learns_add [of pm penv q perms "[]"] that learns_trans [OF _ learns_keeps [OF kl_on_peer]] by auto
  then show ?thesis by (auto simp: HandleInboundConnection_def Let_def split: option.split prod.split)
qed

lemma ev_connections:
  assumes "pe_ip (pw_peer env) = lib"
  shows "evolves lib pm (snd (ConnectTo env addr perms magic height nonce pm))"
    "evolves lib pm (AttemptOutboundConnections is_running env magic height nonce pm)"
    "evolves lib pm (AttemptFeelerConnection is_running env magic height nonce pm)"
    "evolves lib pm (ConnectToAnchors anchors env magic height nonce pm)"
    "evolves lib pm (connect_completed env i addr success is_open pm)"
    "\<forall>a port is_open. connection = Some ((a, port), is_open) \<longrightarrow> a \<noteq> [] \<Longrightarrow>
      evolves lib pm (HandleInboundConnection env is_running connection magic height nonce perms pm)"
proof -
  note lib = assms [symmetric]
  show "evolves lib pm (snd (ConnectTo env addr perms magic height nonce pm))"
    unfolding evolves_def lib using ConnectTo_inv learns_connect by blast
  show "evolves lib pm (AttemptOutboundConnections is_running env magic height nonce pm)"
    unfolding evolves_def lib AttemptOutboundConnections_def using attempt_loop_inv learns_attempt by auto
  show "evolves lib pm (AttemptFeelerConnection is_running env magic height nonce pm)"
    unfolding evolves_def lib using AttemptFeeler_inv
    by (auto simp: AttemptFeelerConnection_def Let_def allocate_peer_id_def intro: learns_added split: option.split prod.split)
  show "evolves lib pm (ConnectToAnchors anchors env magic height nonce pm)"
    unfolding evolves_def lib using ConnectToAnchors_inv learns_anchors by blast
  show "evolves lib pm (connect_completed env i addr success is_open pm)"
    unfolding evolves_def lib
  proof (intro conjI allI impI)
    have "learns pm (on_peer i f (pm_call c pm))" "learns pm (remove_peer penv i (pm_call c pm))" for f c penv
      using learns_keeps [OF kl_on_peer, of "pm_call c pm"] learns_keeps [OF kl_remove, of "pm_call c pm"] by simp_all
    then show "learns pm (connect_completed env i addr success is_open pm)" by (simp add: connect_completed_def split: option.split)
  qed (rule connect_completed_inv)
  show "evolves lib pm (HandleInboundConnection env is_running connection magic height nonce perms pm)"
    if "\<forall>a port is_open. connection = Some ((a, port), is_open) \<longrightarrow> a \<noteq> []"
    unfolding evolves_def lib using HandleInbound_inv [OF _ that] learns_inbound by blast
qed

section \<open>The state of the network\<close>

definition net_ok :: "ip_lib \<Rightarrow> network \<Rightarrow> bool" where
  "net_ok lib nw \<longleftrightarrow> pm_inv lib default_config (nw_peers nw) \<and> disc_inv (nw_node nw, nw_disc nw) \<and> nw_fully_stopped nw = (\<not> nw_running nw)"

lemma disc_evolves: "disc_inv (s, dm) \<Longrightarrow> evolves lib (sn_peers s) (sn_peers s') \<Longrightarrow> disc_inv (s', dm)"
  by (fastforce simp: disc_inv_def evolves_def learns_def learned_ok_def)

lemma addr_ops_inv:
  assumes "addr_inv am"
  shows "addr_inv (snd (am_add t a ts am))" "addr_inv (attempt t a am)" "addr_inv (good t a am)" "addr_inv (failed t a am)" "addr_inv (cleanup_stale t am)"
  using addr_run_refines [OF assms, of "(t, Learn a ts)"] addr_run_refines [OF assms, of "(t, Attempt a)"]
    addr_run_refines [OF assms, of "(t, Good a)"] addr_run_refines [OF assms, of "(t, Fail a)"] addr_run_refines [OF assms, of "(t, Cleanup)"]
  by simp_all

lemma told_inv: "disc_inv (s, dm) \<Longrightarrow> disc_inv (s, told env c dm)"
  by (auto simp: addr_ops_inv disc_inv_def told_def on_peer_connected_def on_peer_disconnected_def Let_def split: pm_call.split)

lemma fold_told_inv: "disc_inv (s, dm) \<Longrightarrow> disc_inv (s, fold (told env) cs dm)"
  by (induction cs arbitrary: dm) (simp_all add: told_inv)

lemma hs_calls: "evolves lib (sn_peers s) (sn_peers (fold hs_call cs s)) \<and> sn_chain (fold hs_call cs s) = sn_chain s"
proof (induction cs arbitrary: s)
  case (Cons c cs)
  have "evolves lib (sn_peers s) (sn_peers (hs_call c s))" "sn_chain (hs_call c s) = sn_chain s"
    by (simp_all add: hs_call_def ev_disconnected split: pm_call.split)
  then show ?case using Cons.IH [of "hs_call c s"] ev_trans by auto
qed simp

lemma on_peers_frame [simp]:
  "nw_chain (on_peers env f nw) = nw_chain nw" "nw_running (on_peers env f nw) = nw_running nw"
  "nw_fully_stopped (on_peers env f nw) = nw_fully_stopped nw"
  using hs_calls by (simp_all add: on_peers_def Let_def)

lemma with_node_frame [simp]:
  "nw_node (with_node env s nw) = s" "nw_running (with_node env s nw) = nw_running nw" "nw_fully_stopped (with_node env s nw) = nw_fully_stopped nw"
  by (simp_all add: with_node_def)

lemma on_peers_ok:
  assumes "net_ok lib nw" and "evolves lib (nw_peers nw) (f (nw_peers nw))"
  shows "net_ok lib (on_peers env f nw)"
proof -
  define cs where "cs = new_calls (nw_peers nw) (f (nw_peers nw))"
  let ?s = "fold hs_call cs ((nw_node nw)\<lparr>sn_peers := f (nw_peers nw)\<rparr>)"
  have e: "evolves lib (nw_peers nw) (sn_peers ?s)"
    using ev_trans [OF assms(2)] hs_calls [of lib "(nw_node nw)\<lparr>sn_peers := f (nw_peers nw)\<rparr>" cs] by simp
  have "disc_inv (?s, fold (told (ne_disc env)) cs (nw_disc nw))"
    using assms(1) fold_told_inv disc_evolves [OF _ e] by (simp add: net_ok_def)
  then show ?thesis using assms(1) e by (simp add: net_ok_def on_peers_def Let_def cs_def evolves_def)
qed

lemma with_node_ok:
  assumes "net_ok lib nw" and "evolves lib (nw_peers nw) (sn_peers s)"
  shows "net_ok lib (with_node env s nw)"
  using assms fold_told_inv disc_evolves [OF _ assms(2)] by (simp add: net_ok_def with_node_def evolves_def)

text \<open>The environment belongs to the network, and the random orders are permutations.\<close>

definition env_ok :: "crypto \<Rightarrow> ChainParams \<Rightarrow> ip_lib \<Rightarrow> net_env \<Rightarrow> bool" where
  "env_ok cr params lib env \<longleftrightarrow> se_crypto (ne_sync env) = cr \<and> se_params (ne_sync env) = params \<and> pe_ip (ne_peer env) = lib \<and> orders_ok (ne_disc env)"

text \<open>
  What an event may carry: a peer object does what peer objects do, the transport names the remote end of a connection,
  and the index has room for the headers of a message (heights are 32-bit integers).
\<close>

definition event_ok :: "net_event \<Rightarrow> network \<Rightarrow> bool" where
  "event_ok ev nw \<longleftrightarrow>
     (case ev of
        PeerStep i f \<Rightarrow> peer_event f
      | Accept (Some ((a, port), is_open)) \<Rightarrow> a \<noteq> []
      | Deliver i (Headers hs) \<Rightarrow> int (weight (nw_chain nw)) + 2 * int (length hs) < 2 ^ 31
      | _ \<Rightarrow> True)"

lemma net_pm_env_fields [simp]: "pw_peer (net_pm_env env nw) = ne_peer env"
  by (simp add: net_pm_env_def Let_def)

section \<open>Messages\<close>

lemma map_of_handlers:
  "map_of (net_handlers env) cmd =
     (if cmd = ''verack'' then Some (on_verack env) else if cmd = ''addr'' then Some (on_addr env)
      else if cmd = ''getaddr'' then Some (on_getaddr env) else if cmd = ''inv'' then Some (on_inv env)
      else if cmd = ''headers'' then Some (on_headers env) else if cmd = ''getheaders'' then Some (on_getheaders env) else None)"
  by (simp add: net_handlers_def RegisterHandler_def)

definition collides :: "net_config \<Rightarrow> Message \<Rightarrow> network \<Rightarrow> bool" where
  "collides cfg msg nw \<longleftrightarrow> (case msg of Version v \<Rightarrow> \<not> CheckIncomingNonce (vm_nonce v) (nc_local_nonce cfg) (nw_peers nw) | _ \<Rightarrow> False)"

definition caught :: "((pow_error + bool) \<times> network) option \<Rightarrow> (bool \<times> network) option" where
  "caught res = map_option (\<lambda>(r, nw). (case r of Inl _ \<Rightarrow> False | Inr ok \<Rightarrow> ok, nw)) res"

text \<open>The whole of \<open>handle_message\<close>, message by message.\<close>

lemma handle_message_cases:
  "handle_message cfg env p msg nw =
     (if \<not> nw_running nw then Some (False, nw)
      else case msg of
        Version v \<Rightarrow> if collides cfg msg nw
          then Some (False, on_peers env (\<lambda>pm. remove_peer (ne_peer env) (p_id p) (on_peer (p_id p) do_disconnect pm)) nw)
          else Some (False, nw)
      | Verack \<Rightarrow> caught (on_verack env p msg nw)
      | Addr as \<Rightarrow> caught (on_addr env p msg nw)
      | GetAddr \<Rightarrow> caught (on_getaddr env p msg nw)
      | Inv is \<Rightarrow> caught (on_inv env p msg nw)
      | GetHeaders r \<Rightarrow> caught (on_getheaders env p msg nw)
      | Headers hs \<Rightarrow> caught (on_headers env p msg nw)
      | _ \<Rightarrow> Some (False, nw))"
proof -
  have "Dispatch (net_handlers env) p cmd (Some msg) nw = (case map_of (net_handlers env) cmd of None \<Rightarrow> Some (False, nw) | Some h \<Rightarrow> caught (h p msg nw))" for cmd
    by (auto simp: Dispatch_def caught_def split: option.split sum.split)
  then show ?thesis unfolding handle_message_def collides_def [symmetric] map_of_handlers
    by (cases msg) (simp_all add: collides_def)
qed

lemma ev_both: "evolves lib pm (remove_peer penv i (on_peer i do_disconnect pm))"
  by (rule ev_trans [OF ev_on_peer ev_remove]) simp

lemma gated_ok:
  assumes "net_ok lib nw" and "gated env p nw res = Some (r, nw')" and "\<And>r s. res = Some (r, s) \<Longrightarrow> evolves lib (nw_peers nw) (sn_peers s)"
  shows "net_ok lib nw'"
  using assms by (auto simp: gated_def on_peers_ok with_node_ok ev_on_peer split: if_splits)

lemma ev_getaddr:
  assumes "HandleGetAddr env p (s, dm) = (ok, s', dm')"
  shows "evolves lib (sn_peers s) (sn_peers s')" "sn_chain s' = sn_chain s" "dm_addr dm' = dm_addr dm" "dm_recent dm' = dm_recent dm"
proof -
  have m: "evolves lib (sn_peers s) (MarkGetAddrReplied (p_id p) (sn_peers s))"
    unfolding MarkGetAddrReplied_def by (rule ev_Modify) simp
  have "evolves lib (sn_peers s) (on_peer (p_id p) (send_message penv msg) (MarkGetAddrReplied (p_id p) (sn_peers s)))" for penv msg
    by (rule ev_trans [OF m ev_on_peer]) simp
  with m assms show "evolves lib (sn_peers s) (sn_peers s')" "sn_chain s' = sn_chain s" "dm_addr dm' = dm_addr dm" "dm_recent dm' = dm_recent dm"
    by (auto simp: HandleGetAddr_def Let_def split: if_splits prod.splits)
qed

lemma pm_inv_addr:
  assumes "HandleAddr env p as (s, dm) = (ok, s', dm')" and "pm_inv lib c (sn_peers s)"
  shows "pm_inv lib c (sn_peers s')"
proof -
  define s1 where "s1 = (if length as > MAX_ADDR_SIZE then hs_report (p_id p) OversizedMessage s else s)"
  have p: "pm_inv lib c (sn_peers s1)" using assms(2) ev_report [of lib s "p_id p" OversizedMessage] by (simp add: s1_def evolves_def)
  have "pm_inv lib c (ModifyLearnedAddresses (p_id p) f (sn_peers s1))" for f
    unfolding ModifyLearnedAddresses_def by (rule pm_inv_Modify [OF p]) simp
  moreover have "pm_inv lib c (sn_peers (hs_remove_peer (de_sync env) (p_id p) s1))" using p ev_hs_remove [of lib s1] by (simp add: evolves_def)
  ultimately show ?thesis using assms by (auto simp: HandleAddr_def Let_def s1_def split: if_splits)
qed

lemma discovery_ok:
  assumes "net_ok lib nw" and "env_ok cr params lib env"
  shows "on_addr env p (Addr as) nw = Some (r, nw') \<Longrightarrow> net_ok lib nw'"
    "on_getaddr env p msg nw = Some (r, nw') \<Longrightarrow> net_ok lib nw'"
proof -
  have o: "orders_ok (ne_disc env)" and inv: "disc_inv (nw_node nw, nw_disc nw)" "pm_inv lib default_config (nw_peers nw)"
    using assms by (simp_all add: env_ok_def net_ok_def)
  have fin: "net_ok lib (with_node env s (nw\<lparr>nw_disc := dm\<rparr>))" if "disc_inv (s, dm)" "pm_inv lib default_config (sn_peers s)" for s dm
    using assms(1) that fold_told_inv by (simp add: net_ok_def with_node_def)
  show "net_ok lib nw'" if "on_addr env p (Addr as) nw = Some (r, nw')"
  proof -
    obtain ok s dm where h: "HandleAddr (ne_disc env) p as (nw_node nw, nw_disc nw) = (ok, s, dm)" using prod_cases3 by blast
    show ?thesis using that fin [OF HandleAddr_inv [OF o inv(1) h] pm_inv_addr [OF h inv(2)]] by (auto simp: on_addr_def h)
  qed
  show "net_ok lib nw'" if "on_getaddr env p msg nw = Some (r, nw')"
  proof -
    obtain ok s dm where h: "HandleGetAddr (ne_disc env) p (nw_node nw, nw_disc nw) = (ok, s, dm)" using prod_cases3 by blast
    note e = ev_getaddr(1) [OF h, of lib] ev_getaddr(2-4) [OF h]
    have "disc_inv (s, nw_disc nw)" by (rule disc_evolves [OF inv(1) e(1)])
    then have "disc_inv (s, dm)" using e(3,4) by (simp add: disc_inv_def)
    moreover have "pm_inv lib default_config (sn_peers s)" using e(1) inv(2) by (simp add: evolves_def)
    ultimately show ?thesis using that fin by (auto simp: on_getaddr_def h)
  qed
qed

lemma verack_ok:
  assumes "net_ok lib nw" and "on_verack env p msg nw = Some (r, nw')"
  shows "net_ok lib nw'"
  using assms by (auto simp: on_verack_def keeps_verack intro!: on_peers_ok ev_on_peer split: option.splits)

lemma message_ok:
  assumes ok: "net_ok lib nw" and env: "env_ok cr params lib env" and h: "handle_message cfg env p msg nw = Some (b, nw')"
  shows "net_ok lib nw'"
proof -
  have c: "\<exists>r. res = Some (r, nw')" if "caught res = Some (b, nw')" for res
    using that by (auto simp: caught_def)
  have g: "net_ok lib nw'" if "gated env p nw res = Some (r, nw')" "\<And>r s. res = Some (r, s) \<Longrightarrow> evolves lib (nw_peers nw) (sn_peers s)" for r res
    using gated_ok [OF ok that] .
  show ?thesis
  proof (cases "nw_running nw")
    case True
    show ?thesis
    proof (cases msg)
      case (Version v)
      have "net_ok lib (on_peers env (\<lambda>pm. remove_peer (ne_peer env) (p_id p) (on_peer (p_id p) do_disconnect pm)) nw)"
        by (rule on_peers_ok [OF ok]) (rule ev_both)
      then show ?thesis using h True ok Version by (auto simp: handle_message_cases split: if_splits)
    next
      case Verack
      then show ?thesis using h True c verack_ok [OF ok] by (auto simp: handle_message_cases dest!: c)
    next
      case (Addr as)
      then show ?thesis using h True discovery_ok(1) [OF ok env] by (auto simp: handle_message_cases dest!: c)
    next
      case GetAddr
      then show ?thesis using h True discovery_ok(2) [OF ok env] by (auto simp: handle_message_cases dest!: c)
    next
      case (Inv items)
      then obtain r where "gated env p nw (HandleInv (ne_sync env) p items (nw_node nw)) = Some (r, nw')"
        using h True by (auto simp: handle_message_cases on_inv_def dest!: c)
      then show ?thesis by (rule g) (auto simp: HandleInv_def dest: ev_inv)
    next
      case (Headers hs)
      then obtain r where "gated env p nw (HandleHeaders (ne_sync env) p hs (nw_node nw)) = Some (r, nw')"
        using h True by (auto simp: handle_message_cases on_headers_def dest!: c)
      then show ?thesis by (rule g) (auto simp: HandleHeaders_def dest: ev_headers)
    next
      case (GetHeaders q)
      then obtain r where "gated env p nw (HandleGetHeaders (ne_sync env) p q (nw_node nw)) = Some (r, nw')"
        using h True by (auto simp: handle_message_cases on_getheaders_def dest!: c)
      then show ?thesis by (rule g) (auto simp: HandleGetHeaders_def dest: ev_getheaders)
    qed (use h True ok in \<open>auto simp: handle_message_cases\<close>)
  qed (use h ok in \<open>auto simp: handle_message_cases\<close>)
qed

section \<open>Every event keeps the network well formed\<close>

lemma ev_periodic: "evolves lib pm (process_periodic env pm)"
  unfolding process_periodic_def Let_def by (auto intro: ev_trans [OF ev_fold [OF ev_remove] ev_call] ev_fold [OF ev_remove])

lemma maintenance_ok:
  assumes "net_ok lib nw" and "run_maintenance env nw = Some nw'"
  shows "net_ok lib nw' \<and> nw_chain nw' = nw_chain nw"
proof (cases "nw_running nw")
  case True
  define nw1 where "nw1 = on_peers env (process_periodic (ne_peer env)) nw"
  define nw2 where "nw2 = with_node env (ProcessTimers (ne_sync env) (nw_node nw1)) nw1"
  define nw3 where "nw3 = on_peers env (sweep env) nw2"
  define nw4 where "nw4 = announce_tip_to_peers env nw3"
  have 1: "net_ok lib nw1" unfolding nw1_def by (rule on_peers_ok [OF assms(1)]) (rule ev_periodic)
  have 2: "net_ok lib nw2" unfolding nw2_def by (rule with_node_ok [OF 1 ev_timers(1)])
  have 3: "net_ok lib nw3" unfolding nw3_def by (rule on_peers_ok [OF 2], rule ev_same) (simp_all add: sweep_def)
  have 4: "net_ok lib nw4" unfolding nw4_def announce_tip_to_peers_def by (rule with_node_ok [OF 3 ev_announce(1)])
  obtain s where s: "CheckInitialSync (ne_sync env) (nw_node nw4) = Some s" "nw' = with_node env s nw4"
    using assms(2) True by (auto simp: run_maintenance_def check_initial_sync_def Let_def nw1_def nw2_def nw3_def nw4_def)
  have "net_ok lib nw'" unfolding s(2) using with_node_ok [OF 4] ev_initial [OF s(1)] by blast
  moreover have "sn_chain s = nw_chain nw4" using ev_initial [OF s(1)] by blast
  ultimately show ?thesis by (simp add: s(2) nw4_def nw3_def nw2_def nw1_def announce_tip_to_peers_def ev_announce ev_timers)
qed (use assms in \<open>auto simp: run_maintenance_def\<close>)

lemma sendmessages_ok:
  assumes "net_ok lib nw" and "run_sendmessages env nw = Some nw'"
  shows "net_ok lib nw' \<and> nw_chain nw' = nw_chain nw"
proof (cases "nw_running nw")
  case True
  then obtain s where s: "CheckInitialSync (ne_sync env) (nw_node nw) = Some s" "nw' = flush_block_announcements env (with_node env s nw)"
    using assms(2) by (auto simp: run_sendmessages_def check_initial_sync_def)
  have "net_ok lib (with_node env s nw)" using with_node_ok [OF assms(1)] ev_initial [OF s(1)] by blast
  then have "net_ok lib nw'" unfolding s(2) flush_block_announcements_def by (rule with_node_ok) (simp add: ev_flush)
  then show ?thesis using ev_initial [OF s(1)] by (simp add: s(2) flush_block_announcements_def ev_flush)
qed (use assms in \<open>auto simp: run_sendmessages_def\<close>)

lemma anchors_ok:
  assumes "net_ok lib nw" and "env_ok cr params lib env"
  shows "net_ok lib (connect_anchors cfg env anchors nw)" "nw_chain (connect_anchors cfg env anchors nw) = nw_chain nw"
proof -
  have "net_ok lib (on_peers env (ConnectToAnchors anchors (net_pm_env env nw) m h n) nw)" for m h n
    by (rule on_peers_ok [OF assms(1)]) (use assms(2) in \<open>simp add: ev_connections env_ok_def\<close>)
  then show "net_ok lib (connect_anchors cfg env anchors nw)" "nw_chain (connect_anchors cfg env anchors nw) = nw_chain nw"
    using assms(1) by (simp_all add: connect_anchors_def)
qed

lemma bootstrap_inv: "disc_inv (s, dm) \<Longrightarrow> disc_inv (s, dm_Start_bootstrap env dm)"
proof -
  have "disc_inv (s, fold (\<lambda>seed dm. case parse_seed lib seed of None \<Rightarrow> dm
      | Some addr \<Rightarrow> dm\<lparr>dm_addr := snd (am_add t addr t (dm_addr dm))\<rparr>) seeds dm)" if "disc_inv (s, dm)" for lib t seeds dm
    using that
  proof (induction seeds arbitrary: dm)
    case (Cons seed seeds)
    have "disc_inv (s, case parse_seed lib seed of None \<Rightarrow> dm | Some addr \<Rightarrow> dm\<lparr>dm_addr := snd (am_add t addr t (dm_addr dm))\<rparr>)"
      using Cons.prems by (auto simp: disc_inv_def addr_ops_inv split: option.split)
    then show ?case using Cons.IH by simp
  qed simp
  then show "disc_inv (s, dm) \<Longrightarrow> disc_inv (s, dm_Start_bootstrap env dm)"
    by (simp add: dm_Start_bootstrap_def BootstrapFromFixedSeeds_def)
qed

lemma start_ok:
  assumes "net_ok lib nw" and "env_ok cr params lib env" and "net_start cfg env nw = Some (b, nw')"
  shows "net_ok lib nw' \<and> nw_chain nw' = nw_chain nw"
proof (cases "nw_running nw")
  case False
  define nw1 where "nw1 = nw\<lparr>nw_running := True, nw_fully_stopped := False\<rparr>"
  obtain anchors files where a: "dm_Start_anchors (ne_anchors env) (ne_removable env) (nw_disc nw) (nw_files nw) = (anchors, files)" by force
  define nw2 where "nw2 = connect_anchors cfg env anchors (nw1\<lparr>nw_files := files\<rparr>)"
  have "net_ok lib (nw1\<lparr>nw_files := files\<rparr>)" using assms(1) by (simp add: net_ok_def nw1_def)
  then have 2: "net_ok lib nw2" "nw_chain nw2 = nw_chain nw" using anchors_ok [OF _ assms(2)] by (simp_all add: nw2_def nw1_def)
  have "nw' = nw2\<lparr>nw_disc := dm_Start_bootstrap (ne_disc env) (nw_disc nw2)\<rparr>"
    using assms(1,3) False a by (simp add: net_start_def Let_def nw2_def nw1_def net_ok_def)
  then show ?thesis using 2 bootstrap_inv by (simp add: net_ok_def)
qed (use assms in \<open>auto simp: net_start_def\<close>)

lemma stop_ok:
  assumes "net_ok lib nw"
  shows "net_ok lib (net_stop cfg env nw) \<and> nw_chain (net_stop cfg env nw) = nw_chain nw"
proof (cases "nw_running nw")
  case True
  have e: "evolves lib pm (disconnect_all (Shutdown pm))" for pm
    unfolding evolves_def
  proof (intro conjI allI impI)
    show "pm_inv lib c (disconnect_all (Shutdown pm))" if "pm_inv lib c pm" for c
      by (rule pm_inv_empty) (use that in \<open>simp_all add: disconnect_all_frame Shutdown_def pm_inv_def\<close>)
  qed (simp add: learns_def disconnect_all_frame)
  define files where "files = (if nc_datadir cfg = [] then nw_files nw else snd (SaveAnchors (ne_peer env) (ne_anchor_order env)
      (ne_anchors env) (ne_io env) (nc_datadir cfg @ ''/anchors.json'') (nw_peers nw) (nw_files nw)))"
  have f: "net_stop cfg env nw = (on_peers env (\<lambda>pm. disconnect_all (Shutdown pm)) (nw\<lparr>nw_running := False, nw_files := files\<rparr>))\<lparr>nw_fully_stopped := True\<rparr>"
    using True by (simp add: net_stop_def Let_def files_def)
  let ?nw = "nw\<lparr>nw_running := False, nw_files := files, nw_fully_stopped := True\<rparr>"
  have "net_ok lib (on_peers env (\<lambda>pm. disconnect_all (Shutdown pm)) ?nw)"
    by (rule on_peers_ok, use assms in \<open>simp add: net_ok_def\<close>) (rule e)
  then show ?thesis unfolding f by (simp add: net_ok_def on_peers_def Let_def hs_calls)
qed (use assms in \<open>auto simp: net_stop_def\<close>)

lemma net_do_ok:
  assumes ok: "net_ok lib nw" and env: "env_ok cr params lib env" and ev: "event_ok ev nw" and d: "net_do cfg env ev nw = Some nw'"
  shows "net_ok lib nw'"
proof -
  have lib: "pe_ip (pw_peer (net_pm_env env nw)) = lib" using env by (simp add: env_ok_def)
  note conn = ev_connections [OF lib]
  have go: "net_ok lib (on_peers env f nw)" if "evolves lib (nw_peers nw) (f (nw_peers nw))" for f
    by (rule on_peers_ok [OF ok]) (rule that)
  have sync: "net_ok lib (with_node env s nw)" if "evolves lib (nw_peers nw) (sn_peers s)" for s
    by (rule with_node_ok [OF ok that])
  show ?thesis
  proof (cases ev)
    case Start
    then show ?thesis using d start_ok [OF ok env] by auto
  next
    case Stop
    then show ?thesis using d stop_ok [OF ok] by auto
  next
    case (Accept connection)
    then have "\<forall>a port is_open. connection = Some ((a, port), is_open) \<longrightarrow> a \<noteq> []" using ev by (auto simp: event_ok_def)
    then show ?thesis using d Accept by (auto simp: on_accept_def intro!: go conn(6))
  next
    case (Dialled i addr success is_open)
    then show ?thesis using d by (auto intro!: go conn(5))
  next
    case (PeerStep i f)
    then have "\<And>p. keeps p (f p)" using ev peer_event_keeps by (simp add: event_ok_def)
    then show ?thesis using d PeerStep by (auto intro!: go ev_on_peer)
  next
    case (Deliver i msg)
    then show ?thesis using d ok message_ok [OF ok env] by (auto split: option.splits)
  next
    case ConnectTimer
    then show ?thesis using d ok by (auto simp: connect_timer_fired_def intro!: go conn(2))
  next
    case FeelerTimer
    then show ?thesis using d ok by (auto simp: feeler_timer_fired_def attempt_feeler_connection_def intro!: go conn(3))
  next
    case MaintenanceTimer
    then show ?thesis using d maintenance_ok [OF ok] by auto
  next
    case SendTimer
    then show ?thesis using d sendmessages_ok [OF ok] by auto
  next
    case (Connect addr)
    then show ?thesis using d ok by (auto simp: connect_to_def connect_to_with_permissions_def Let_def intro!: go conn(1))
  next
    case (Disconnect i)
    then show ?thesis using d ok by (auto simp: disconnect_from_def intro!: go ev_remove)
  next
    case (Relay h)
    then show ?thesis using d sync [OF ev_relay(1)] by (auto simp: relay_block_def)
  next
    case (AnnounceTo i)
    then show ?thesis using d sync [OF ev_announce_one(1)] by (auto simp: announce_tip_to_peer_def)
  qed
qed

section \<open>The chain moves by protocol steps\<close>

text \<open>Handlers that give up, and the reasons they may: the assertion about feelers and a chain work that would wrap around.\<close>

definition message_fails :: "peer \<Rightarrow> Message \<Rightarrow> network \<Rightarrow> bool" where
  "message_fails p msg nw \<longleftrightarrow>
     (msg = Verack \<and> is_connected p \<and> \<not> p_successfully_connected p) \<or>
     (\<exists>hs. msg = Headers hs \<and> \<not> work_room (nw_chain nw) (batch_work hs))"

lemma HandleAddr_chain: "HandleAddr env p as (s, dm) = (ok, s', dm') \<Longrightarrow> sn_chain s' = sn_chain s"
  by (auto simp: HandleAddr_def Let_def split: if_splits)

lemma message_chain:
  assumes env: "env_ok cr params lib env" and params: "asert_params params" and i: "node_inv (mk_env cr params 0 td) (nw_chain nw)"
    and room: "\<And>hs. msg = Headers hs \<Longrightarrow> int (weight (nw_chain nw)) + 2 * int (length hs) < 2 ^ 31"
  shows "case handle_message cfg env p msg nw of None \<Rightarrow> message_fails p msg nw
    | Some (b, nw') \<Rightarrow> protocol_steps cr params (nw_chain nw) (nw_chain nw')"
proof -
  have E: "se_crypto (ne_sync env) = cr" "se_params (ne_sync env) = params" using env by (simp_all add: env_ok_def)
  let ?steps = "\<lambda>res. case res of None \<Rightarrow> message_fails p msg nw | Some (r, nw') \<Rightarrow> protocol_steps cr params (nw_chain nw) (nw_chain nw')"
  have c: "?steps (caught res)" if "?steps res" for res
    using that by (auto simp: caught_def split: option.splits)
  have g: "?steps (gated env p nw res)"
    if "case res of None \<Rightarrow> message_fails p msg nw | Some (r, s) \<Rightarrow> protocol_steps cr params (nw_chain nw) (sn_chain s)"
    for res :: "((pow_error + bool) \<times> sync_node) option"
    using that by (auto simp: gated_def split: option.splits)
  have same: "?steps (Some (r, nw'))" if "nw_chain nw' = nw_chain nw" for r and nw' :: network using that by simp
  show ?thesis
  proof (cases "nw_running nw")
    case True
    show ?thesis
    proof (cases msg)
      case Verack
      have "?steps (on_verack env p msg nw)"
        using Verack by (auto simp: on_verack_def HandleVerack_def message_fails_def)
      then show ?thesis using True Verack c by (simp add: handle_message_cases)
    next
      case (Addr as)
      obtain ok s dm where h: "HandleAddr (ne_disc env) p as (nw_node nw, nw_disc nw) = (ok, s, dm)" using prod_cases3 by blast
      have "?steps (on_addr env p msg nw)" using Addr HandleAddr_chain [OF h] by (simp add: on_addr_def h)
      then show ?thesis using True Addr c by (simp add: handle_message_cases)
    next
      case GetAddr
      obtain ok s dm where h: "HandleGetAddr (ne_disc env) p (nw_node nw, nw_disc nw) = (ok, s, dm)" using prod_cases3 by blast
      have "?steps (on_getaddr env p msg nw)" using GetAddr ev_getaddr(2) [OF h] by (simp add: on_getaddr_def h)
      then show ?thesis using True GetAddr c by (simp add: handle_message_cases)
    next
      case (Inv items)
      obtain s where s: "HandleInvMessage (ne_sync env) p items (nw_node nw) = Some (True, s)" using HandleInvMessage_returns i by blast
      have "protocol_steps cr params (nw_chain nw) (sn_chain s)"
        using ev_inv [OF s, of lib] ibd_step [of "ne_sync env" "nw_chain nw"] E by auto
      then have "?steps (on_inv env p msg nw)" using g [of "HandleInv (ne_sync env) p items (nw_node nw)"] by (simp add: Inv on_inv_def HandleInv_def s)
      then show ?thesis using True Inv c by (simp add: handle_message_cases)
    next
      case (Headers hs)
      have "steps_or_full cr params (nw_chain nw) (batch_work hs) (HandleHeadersMessage (ne_sync env) (p_id p) hs (nw_node nw))"
        using HandleHeaders_steps [of "ne_sync env" td "nw_node nw" hs "p_id p"] E params i room Headers by simp
      then have "case HandleHeaders (ne_sync env) p hs (nw_node nw) of None \<Rightarrow> message_fails p msg nw
          | Some (r, s) \<Rightarrow> protocol_steps cr params (nw_chain nw) (sn_chain s)"
        by (auto simp: HandleHeaders_def steps_or_full_def message_fails_def Headers split: option.splits)
      from g [OF this] have "?steps (on_headers env p msg nw)" by (simp add: Headers on_headers_def)
      then show ?thesis using True Headers c by (simp add: handle_message_cases)
    next
      case (GetHeaders q)
      have "?steps (on_getheaders env p msg nw)" using g [of "HandleGetHeaders (ne_sync env) p q (nw_node nw)"]
        by (simp add: GetHeaders on_getheaders_def HandleGetHeaders_def HandleGetHeaders_sends [OF i])
      then show ?thesis using True GetHeaders c by (simp add: handle_message_cases)
    qed (use True in \<open>simp_all add: handle_message_cases\<close>)
  qed (simp add: handle_message_cases)
qed

lemma initial_sync_ends:
  assumes "node_inv env0 (sn_chain s)"
  shows "\<exists>s'. CheckInitialSync env s = Some s'"
proof (cases "find eligible_sync_peer (get_outbound_peers (sn_peers s))")
  case (Some p)
  let ?s = "(SetSyncPeer env (of_int (p_id p)) s)\<lparr>sn_peers := on_peer (p_id p) (\<lambda>p. p\<lparr>p_sync_started := True\<rparr>) (sn_peers s)\<rparr>"
  have "\<exists>s'. RequestHeadersFromPeer env (p_id p) ?s = Some s'" using request_ends [of env0 ?s env] assms by auto
  then show ?thesis using Some by (auto simp: CheckInitialSync_def Let_def)
qed (simp add: CheckInitialSync_def)

lemma net_do_chain:
  assumes ok: "net_ok lib nw" and env: "env_ok cr params lib env" and params: "asert_params params"
    and i: "node_inv (mk_env cr params 0 td) (nw_chain nw)" and ev: "event_ok ev nw"
  shows "case net_do cfg env ev nw of
      None \<Rightarrow> \<exists>i p msg. ev = Deliver i msg \<and> get_peer i (nw_peers nw) = Some p \<and> message_fails p msg nw
    | Some nw' \<Rightarrow> protocol_steps cr params (nw_chain nw) (nw_chain nw')"
proof (cases ev)
  case Start
  have "\<exists>b nw'. net_start cfg env nw = Some (b, nw')" using ok by (auto simp: net_start_def net_ok_def Let_def split: prod.split)
  then show ?thesis using Start start_ok [OF ok env, of cfg] by auto
next
  case Stop
  then show ?thesis using stop_ok [OF ok] by simp
next
  case (Deliver j msg)
  have room: "int (weight (nw_chain nw)) + 2 * int (length hs) < 2 ^ 31" if "msg = Headers hs" for hs
    using ev that Deliver by (simp add: event_ok_def)
  show ?thesis
  proof (cases "get_peer j (nw_peers nw)")
    case (Some p)
    then show ?thesis using Deliver message_chain [OF env params i room, where msg = msg and p = p and cfg = cfg] by (auto split: option.splits)
  qed (simp add: Deliver)
next
  case MaintenanceTimer
  have "\<exists>nw'. run_maintenance env nw = Some nw'"
    using initial_sync_ends i by (auto simp: run_maintenance_def check_initial_sync_def announce_tip_to_peers_def ev_announce ev_timers Let_def)
  then show ?thesis using MaintenanceTimer maintenance_ok [OF ok, of env] by auto
next
  case SendTimer
  have "\<exists>nw'. run_sendmessages env nw = Some nw'"
    using initial_sync_ends i by (auto simp: run_sendmessages_def check_initial_sync_def)
  then show ?thesis using SendTimer sendmessages_ok [OF ok, of env] by auto
qed (simp_all add: on_accept_def connect_timer_fired_def feeler_timer_fired_def attempt_feeler_connection_def connect_to_def
    connect_to_with_permissions_def Let_def disconnect_from_def relay_block_def announce_tip_to_peer_def ev_relay ev_announce_one)

section \<open>Runs of the network\<close>

inductive net_reachable :: "net_config \<Rightarrow> crypto \<Rightarrow> ChainParams \<Rightarrow> CBlockHeader \<Rightarrow> ip_lib \<Rightarrow> network \<Rightarrow> bool" for cfg cr params gen lib where
  boot: "node_reachable cr params gen chain \<Longrightarrow> net_reachable cfg cr params gen lib (new_network cfg env chain files)"
| event: "net_reachable cfg cr params gen lib nw \<Longrightarrow> env_ok cr params lib env \<Longrightarrow> event_ok ev nw \<Longrightarrow>
    net_do cfg env ev nw = Some nw' \<Longrightarrow> net_reachable cfg cr params gen lib nw'"

lemma boot_ok: "net_ok lib (new_network cfg env chain files)"
proof -
  have "pm_inv lib default_config (nw_peers (new_network cfg env chain files))"
    by (rule pm_inv_empty) (simp_all add: new_network_def SetDiscoveryManager_def new_PeerLifecycleManager_def)
  moreover have "disc_inv (nw_node (new_network cfg env chain files), nw_disc (new_network cfg env chain files))"
    using new_manager(1) by (simp add: disc_inv_def new_network_def SetDiscoveryManager_def new_PeerLifecycleManager_def PeerDiscoveryManager_new_def)
  ultimately show ?thesis by (simp add: net_ok_def new_network_def)
qed

lemma net_reachable_inv:
  assumes params: "asert_params params" and gen: "hashPrevBlock gen = blob_SetNull 32" "header_hash cr gen \<noteq> blob_SetNull 32"
  shows "net_reachable cfg cr params gen lib nw \<Longrightarrow> net_ok lib nw \<and> node_reachable cr params gen (nw_chain nw)"
proof (induction rule: net_reachable.induct)
  case (boot chain env files)
  then show ?case using boot_ok by (simp add: new_network_def)
next
  case (event nw env ev nw')
  have i: "node_inv (mk_env cr params 0 TestOnlyResetTimeData) (nw_chain nw)"
    using reachable_keeps [OF params gen] event.IH by blast
  show ?case using net_do_ok [OF _ event(2,3,4)] net_do_chain [OF _ event(2) params i event(3), of cfg] reachable_steps event(4) event.IH by auto
qed

section \<open>Properties\<close>

text \<open>
  \<^bold>\<open>C2.\<close> The network as a whole is safe.  In whatever order connections, messages of any peers, timers and calls from outside
  drive the node, through any number of starts and stops: the chainstate is a reachable one, so that all that is shown
  of reachable nodes holds; the table never exceeds its limits for inbound, outbound and same-address peers; the address
  tables are well formed; what is remembered of recent addresses and of the addresses learned from each peer is
  bounded; and no event gives the tip less work or forgets a block.
\<close>

theorem network_keeps_consensus:
  assumes "asert_params params" and "hashPrevBlock gen = blob_SetNull 32" and "header_hash cr gen \<noteq> blob_SetNull 32"
    and "net_reachable cfg cr params gen lib nw"
  shows "node_reachable cr params gen (nw_chain nw)
    \<and> inbound_count (nw_peers nw) \<le> max_inbound_peers default_config \<and> outbound_nonfeeler (nw_peers nw) \<le> max_outbound_peers default_config
    \<and> (\<forall>ip. same_ip_inbound lib ip (nw_peers nw) \<le> MAX_INBOUND_PER_IP)
    \<and> addr_inv (dm_addr (nw_disc nw)) \<and> length (dm_recent (nw_disc nw)) \<le> 5000
    \<and> (\<forall>i st. map_of (peer_states (nw_peers nw)) i = Some st \<longrightarrow> length (learned_addresses st) \<le> 2000)
    \<and> (\<forall>env ev nw'. env_ok cr params lib env \<and> event_ok ev nw \<and> net_do cfg env ev nw = Some nw' \<longrightarrow>
         (\<exists>t t'. GetTip (nw_chain nw) = Some t \<and> GetTip (nw_chain nw') = Some t' \<and>
            work_of (the_index (nw_chain nw)) t \<le> work_of (the_index (nw_chain nw')) t') \<and>
         index_sub (the_index (nw_chain nw)) (the_index (nw_chain nw')))"
proof -
  note inv = net_reachable_inv [OF assms]
  have i: "node_inv (mk_env cr params 0 TestOnlyResetTimeData) (nw_chain nw)" using reachable_keeps [OF assms(1-3)] inv by blast
  have "progress (nw_chain nw) (nw_chain nw')"
    if "env_ok cr params lib env" "event_ok ev nw" "net_do cfg env ev nw = Some nw'" for env ev nw'
    using net_do_chain [OF _ that(1) assms(1) i that(2), of cfg] that(3) inv steps_keep [OF _ assms(1) i] by auto
  moreover have "length (learned_addresses st) \<le> 2000" if "map_of (peer_states (nw_peers nw)) j = Some st" for j st
    using inv map_of_SomeD [OF that] by (fastforce simp: net_ok_def disc_inv_def MAX_LEARNED_PER_PEER_def)
  ultimately show ?thesis using inv
    by (auto simp: net_ok_def pm_inv_def limits_ok_def disc_inv_def RECENT_ADDRS_MAX_def progress_def)
qed

text \<open>
  \<^bold>\<open>C6.\<close> Every event is dealt with: in a reachable network every connection, timer, call and message has its handler run to the
  end, with two exceptions, both messages.  A verack of a peer that is connected but not marked as such, which is what the
  verack of a feeler is, runs into an assertion; and the handler of a batch of headers may run into the assertion that no work is
  zero, but only if some chain of this node would reach work $2^{256}$ with the work of the orphans and of that batch on top of it.
\<close>

theorem network_answers:
  assumes "asert_params params" and "hashPrevBlock gen = blob_SetNull 32" and "header_hash cr gen \<noteq> blob_SetNull 32"
    and "net_reachable cfg cr params gen lib nw" and "env_ok cr params lib env" and "event_ok ev nw"
  shows "(\<exists>nw'. net_do cfg env ev nw = Some nw') \<or>
    (\<exists>i p. ev = Deliver i Verack \<and> get_peer i (nw_peers nw) = Some p \<and> is_connected p \<and> \<not> p_successfully_connected p) \<or>
    (\<exists>i hs. ev = Deliver i (Headers hs) \<and> \<not> work_room (nw_chain nw) (batch_work hs))"
proof (cases "net_do cfg env ev nw")
  case None
  note inv = net_reachable_inv [OF assms(1-4)]
  have i: "node_inv (mk_env cr params 0 TestOnlyResetTimeData) (nw_chain nw)" using reachable_keeps [OF assms(1-3)] inv by blast
  have "\<exists>i p msg. ev = Deliver i msg \<and> get_peer i (nw_peers nw) = Some p \<and> message_fails p msg nw"
    using net_do_chain [OF _ assms(5,1) i assms(6), of cfg] inv None by auto
  then show ?thesis by (auto simp: message_fails_def)
qed simp

lemma quiet_peers:
  assumes "pm_calls (f (nw_peers nw)) = pm_calls (nw_peers nw)"
  shows "on_peers env f nw = nw\<lparr>nw_node := (nw_node nw)\<lparr>sn_peers := f (nw_peers nw)\<rparr>\<rparr>"
  using assms by (simp add: on_peers_def new_calls_def Let_def)

lemma disconnect_not_connected: "\<not> is_connected (do_disconnect p)"
  by (simp add: do_disconnect_def is_connected_def on_disconnect_def Let_def)

lemma remove_calls:
  "new_calls pm (remove_peer env i (on_peer i f pm)) \<in> {[]} \<union> {[NotifyPeerDisconnected i a port r g] | a port r g. True}"
  by (auto simp: new_calls_def remove_peer_def on_peer_def pm_call_def Let_def split: option.split)

lemma told_end [simp]: "told env (NotifyPeerDisconnected i a port r g) dm = dm"
  by (simp add: told_def on_peer_disconnected_def)

lemma collision_frame:
  defines "nw2 env i nw \<equiv> on_peers env (\<lambda>pm. remove_peer (ne_peer env) i (on_peer i do_disconnect pm)) nw"
  shows "nw_disc (nw2 env i nw) = nw_disc nw" "nw_chain (nw2 env i nw) = nw_chain nw"
    "GetSyncPeerId (nw_node nw) \<noteq> of_int i \<Longrightarrow> j \<noteq> i \<Longrightarrow> map_of (peer_states (nw_peers (nw2 env i nw))) j = map_of (peer_states (nw_peers nw)) j"
proof -
  define cs where "cs = new_calls (nw_peers nw) (remove_peer (ne_peer env) i (on_peer i do_disconnect (nw_peers nw)))"
  have n: "nw2 env i nw = nw\<lparr>nw_node := fold hs_call cs ((nw_node nw)\<lparr>sn_peers := remove_peer (ne_peer env) i (on_peer i do_disconnect (nw_peers nw))\<rparr>),
      nw_disc := fold (told (ne_disc env)) cs (nw_disc nw)\<rparr>"
    by (simp add: nw2_def on_peers_def Let_def cs_def)
  have cs: "cs = [] \<or> (\<exists>a port r g. cs = [NotifyPeerDisconnected i a port r g])"
    using remove_calls [of "nw_peers nw" "ne_peer env" i do_disconnect] by (auto simp: cs_def)
  have s: "fold hs_call cs t = t" if "sync_peer_id (sn_sync t) \<noteq> of_int i" for t
    using cs that by (auto simp: hs_call_def OnPeerDisconnected_def)
  show "nw_disc (nw2 env i nw) = nw_disc nw" unfolding n using cs by auto
  show "nw_chain (nw2 env i nw) = nw_chain nw" by (simp add: nw2_def)
  show "map_of (peer_states (nw_peers (nw2 env i nw))) j = map_of (peer_states (nw_peers nw)) j"
    if "GetSyncPeerId (nw_node nw) \<noteq> of_int i" "j \<noteq> i"
    unfolding n using that by (simp add: s GetSyncPeerId_def on_peer_def map_of_Modify)
qed

text \<open>
  \<^bold>\<open>C12.\<close> Before the handshake a peer is harmless: whatever message comes from a peer that has not finished it, the chain, the
  address tables and the recent addresses stay as they are, and so do the entries of all other peers (unless the peer was
  the one headers are synchronised from).  If the message is about headers or inventory and the node is running, the peer
  is disconnected.
\<close>

theorem unready_peer_harmless:
  assumes "get_peer i (nw_peers nw) = Some p" and "p_id p = i" and "om_invar (peer_states (nw_peers nw))" and "\<not> p_successfully_connected p"
    and "net_do cfg env (Deliver i msg) nw = Some nw'"
  shows "nw_chain nw' = nw_chain nw \<and> dm_addr (nw_disc nw') = dm_addr (nw_disc nw) \<and> dm_recent (nw_disc nw') = dm_recent (nw_disc nw) \<and>
    (GetSyncPeerId (nw_node nw) \<noteq> of_int i \<longrightarrow>
       (\<forall>j. j \<noteq> i \<longrightarrow> map_of (peer_states (nw_peers nw')) j = map_of (peer_states (nw_peers nw)) j)) \<and>
    (nw_running nw \<and> command msg \<in> {''inv'', ''headers'', ''getheaders''} \<longrightarrow>
       (\<exists>p'. get_peer i (nw_peers nw') = Some p' \<and> \<not> is_connected p'))"
proof -
  obtain b where h: "handle_message cfg env p msg nw = Some (b, nw')" using assms(1,5) by auto
  have g: "nw' = on_peers env (on_peer i do_disconnect) nw" if "caught (gated env p nw res) = Some (b, nw')" for res
    using that assms(2,4) by (simp add: caught_def gated_def)
  have off: "?thesis" if "nw' = on_peers env (on_peer i do_disconnect) nw"
    using that assms(1,3) by (auto simp: quiet_peers on_peer_def get_peer_def map_of_Modify disconnect_not_connected)
  have same: "?thesis" if "nw' = nw" "command msg \<notin> {''inv'', ''headers'', ''getheaders''} \<or> \<not> nw_running nw" using that by auto
  show ?thesis
  proof (cases "nw_running nw")
    case True
    show ?thesis
    proof (cases msg)
      case (Version v)
      then have "nw' = on_peers env (\<lambda>pm. remove_peer (ne_peer env) i (on_peer i do_disconnect pm)) nw \<or> nw' = nw"
        using h True assms(2) by (auto simp: handle_message_cases split: if_splits)
      then show ?thesis
      proof
        assume "nw' = on_peers env (\<lambda>pm. remove_peer (ne_peer env) i (on_peer i do_disconnect pm)) nw"
        then show ?thesis using collision_frame [where env = env and i = i and nw = nw] by (simp add: Version)
      next
        assume "nw' = nw"
        then show ?thesis by (rule same) (simp add: Version)
      qed
    next
      case Verack
      then have n: "\<not> is_connected p" "nw' = on_peers env (on_peer i (\<lambda>p. case HandleVerack (ne_peer env) p of None \<Rightarrow> p | Some (ok, p) \<Rightarrow> p)) nw"
        using h True assms(2,4) by (auto simp: handle_message_cases caught_def on_verack_def HandleVerack_def split: if_splits)
      show ?thesis unfolding n(2) by (simp add: quiet_peers on_peer_def map_of_Modify Verack)
    next
      case (Inv items)
      then show ?thesis using h True off g by (auto simp: handle_message_cases on_inv_def)
    next
      case (Headers hs)
      then show ?thesis using h True off g by (auto simp: handle_message_cases on_headers_def)
    next
      case (GetHeaders q)
      then show ?thesis using h True off g by (auto simp: handle_message_cases on_getheaders_def)
    next
      case (Addr as)
      then show ?thesis using h True assms(4) by (auto simp: handle_message_cases caught_def on_addr_def HandleAddr_def with_node_def new_calls_def)
    next
      case GetAddr
      then show ?thesis using h True assms(4) by (auto simp: handle_message_cases caught_def on_getaddr_def HandleGetAddr_def with_node_def new_calls_def)
    next
      case (Ping n)
      then show ?thesis using h True by (intro same) (simp_all add: handle_message_cases)
    next
      case (Pong n)
      then show ?thesis using h True by (intro same) (simp_all add: handle_message_cases)
    qed
  next
    case False
    then show ?thesis using h by (intro same) (simp_all add: handle_message_cases)
  qed
qed

section \<open>A small network\<close>

definition small_cfg :: net_config where
  "small_cfg = \<lparr>nc_network_magic = magic_REGTEST, nc_datadir = [], nc_feeler_max_delay_multiplier = 3, nc_local_nonce = 5,
     nc_inbound_permissions = None_permissions\<rparr>"

definition small_net_env :: net_env where
  "small_net_env = \<lparr>ne_disc = getaddr_env, ne_ban = sample_ban_env 0, ne_process_nonce = 5, ne_connect = (\<lambda>_ a port. Some ((a, port), False)),
     ne_draw = (\<lambda>_ i n. i mod n), ne_anchor_order = anchor_sort, ne_anchors = \<lparr>aj_dump = (\<lambda>_. None), aj_parse = (\<lambda>_. None)\<rparr>,
     ne_io = \<lparr>po_open = True, po_write = True, po_written = 0, po_fsync = True, po_rename = True, po_remove_dest = False,
       po_rename_again = False, po_remove = False\<rparr>, ne_removable = True\<rparr>"

abbreviation small_boot :: "chainstate \<Rightarrow> network" where
  "small_boot st \<equiv> new_network small_cfg small_net_env st (\<lambda>_. None)"

lemma small_env_ok: "env_ok sample_crypto sample_params (pe_ip anchor_env) small_net_env"
  by (simp add: env_ok_def small_net_env_def getaddr_env_def orders_ok_def)

lemma small_start:
  "\<exists>nw. net_do small_cfg small_net_env Start (small_boot st) = Some nw \<and> nw_running nw \<and> nw_chain nw = st"
  by (simp add: net_start_def new_network_def dm_Start_anchors_def connect_anchors_def PeerDiscoveryManager_new_def small_cfg_def)

lemma small_reachable:
  assumes "node_reachable sample_crypto sample_params small_gen st" and "net_do small_cfg small_net_env Start (small_boot st) = Some nw"
  shows "net_reachable small_cfg sample_crypto sample_params small_gen (pe_ip anchor_env) nw"
  by (rule net_reachable.event [OF net_reachable.boot [OF assms(1)] small_env_ok _ assms(2)]) (simp add: event_ok_def)

theorem network_keeps_consensus_witness:
  "\<exists>st nw. GetTip st = Some [9] \<and> net_do small_cfg small_net_env Start (small_boot st) = Some nw \<and> nw_running nw \<and>
     node_reachable sample_crypto sample_params small_gen (nw_chain nw) \<and> inbound_count (nw_peers nw) \<le> max_inbound_peers default_config"
proof -
  obtain st where st: "node_reachable sample_crypto sample_params small_gen st" "GetTip st = Some [9]" using sample_genesis by blast
  obtain nw where nw: "net_do small_cfg small_net_env Start (small_boot st) = Some nw" "nw_running nw" using small_start by blast
  from network_keeps_consensus [OF sample_params_asert small_gen_ok small_reachable [OF st(1) nw(1)]]
  show ?thesis using st(2) nw by blast
qed

theorem network_answers_witness:
  "\<exists>st nw nw'. GetTip st = Some [9] \<and> net_do small_cfg small_net_env Start (small_boot st) = Some nw \<and>
     net_do small_cfg small_net_env MaintenanceTimer nw = Some nw'"
proof -
  obtain st where st: "node_reachable sample_crypto sample_params small_gen st" "GetTip st = Some [9]" using sample_genesis by blast
  obtain nw where nw: "net_do small_cfg small_net_env Start (small_boot st) = Some nw" using small_start by blast
  have e: "event_ok MaintenanceTimer nw" by (simp add: event_ok_def)
  from network_answers [OF sample_params_asert small_gen_ok small_reachable [OF st(1) nw] small_env_ok e]
  show ?thesis using st(2) nw by blast
qed

definition unready_net :: network where
  "unready_net = (small_boot small_state)\<lparr>nw_node := getaddr_node\<lparr>sn_peers := anchor_pm\<lparr>peer_states :=
     [(1, new_PerPeerState (getaddr_peer\<lparr>p_successfully_connected := False\<rparr>) 0)]\<rparr>\<rparr>, nw_running := True\<rparr>"

theorem unready_peer_harmless_witness:
  "\<exists>nw' p'. net_do small_cfg small_net_env (Deliver 1 (Headers [small_gen])) unready_net = Some nw' \<and>
     nw_chain nw' = small_state \<and> get_peer 1 (nw_peers nw') = Some p' \<and> \<not> is_connected p'"
proof -
  let ?p = "getaddr_peer\<lparr>p_successfully_connected := False\<rparr>"
  have g: "get_peer 1 (nw_peers unready_net) = Some ?p" by (simp add: get_peer_def unready_net_def new_PerPeerState_def)
  have p: "p_id ?p = 1" "om_invar (peer_states (nw_peers unready_net))" "\<not> p_successfully_connected ?p"
    by (simp_all add: getaddr_peer_def anchor_peer_def unready_net_def om_invar_def)
  have r: "nw_running unready_net" "nw_chain unready_net = small_state" by (simp_all add: unready_net_def getaddr_node_def)
  obtain nw' where d: "net_do small_cfg small_net_env (Deliver 1 (Headers [small_gen])) unready_net = Some nw'"
    using g p(3) r(1) by (auto simp: handle_message_cases on_headers_def gated_def caught_def)
  from unready_peer_harmless [OF g p d] show ?thesis using d r by simp
qed

section \<open>What modelling showed\<close>

text \<open>
  The cap on the delay between feelers multiplies a number of minutes and is compared with seconds: with the default
  multiplier of three a feeler is sent at least every six seconds, not with a mean of two minutes.
\<close>

lemma feeler_cap_in_seconds: "nc_feeler_max_delay_multiplier cfg = 3 \<Longrightarrow> feeler_delay cfg delay_s \<le> 6"
  by (simp add: feeler_delay_def FEELER_INTERVAL_count_def Let_def floor_le_iff)

text \<open>
  Stopping marks the peer manager as shutting down, and starting again does not take the mark back: after a restart the
  end of a connection is not reported, so that the header sync does not notice that its sync peer is gone.
\<close>

lemma restart_silent:
  assumes "nw_running nw" and "net_start cfg env (net_stop cfg env nw) = Some (b, nw')" and "dm_datadir (nw_disc nw) = []"
  shows "b \<and> nw_running nw' \<and> shutting_down (nw_peers nw') \<and> sn_sync (nw_node (snd (disconnect_from env i nw'))) = sn_sync (nw_node nw')"
proof -
  have frame: "shutting_down (disconnect_all (Shutdown pm))" "pm_calls (disconnect_all (Shutdown pm)) = pm_calls pm" for pm
    by (simp_all add: disconnect_all_def Shutdown_def Let_def)
  have n: "b" "nw_running nw'" "nw_peers nw' = disconnect_all (Shutdown (nw_peers nw))"
    using assms by (auto simp: net_stop_def net_start_def Let_def quiet_peers frame dm_Start_anchors_def connect_anchors_def split: if_splits)
  have "pm_calls (remove_peer penv i pm) = pm_calls pm" if "shutting_down pm" for pm penv
    using that by (simp add: remove_peer_def Let_def split: option.split)
  then show ?thesis using n frame(1) by (simp add: disconnect_from_def quiet_peers)
qed

end
