(* ===== verification/Notifications.thy ===== *)
theory Notifications
  imports Block_Header
begin

text \<open>
  The two registries of callbacks: \<open>NetworkNotifications\<close> of \<open>network/notifications.cpp\<close> and \<open>ChainNotifications\<close> of
  \<open>chain/notifications.cpp\<close>.  A callback is a function on the state of its subscriber; every subscription sets one of the
  callbacks of an entry, so that an entry is one of the kinds of callback.  The handle a subscriber holds removes its
  entry when it goes away.
\<close>

section \<open>Registries and handles\<close>

record 'c registry =
  callbacks :: "(u64 \<times> 'c) list"
  next_id :: u64

record Subscription =
  sub_owner :: bool
  sub_id :: u64
  sub_active :: bool

definition new_registry :: "'c registry" where
  "new_registry = \<lparr>callbacks = [], next_id = 1\<rparr>"

definition no_Subscription :: Subscription where
  "no_Subscription = \<lparr>sub_owner = False, sub_id = 0, sub_active = False\<rparr>"

definition subscribe :: "'c \<Rightarrow> 'c registry \<Rightarrow> Subscription \<times> 'c registry" where
  "subscribe callback r =
     (let i = next_id r in
      (\<lparr>sub_owner = True, sub_id = i, sub_active = True\<rparr>, \<lparr>callbacks = callbacks r @ [(i, callback)], next_id = i + 1\<rparr>))"

definition Unsubscribe :: "u64 \<Rightarrow> 'c registry \<Rightarrow> 'c registry" where
  "Unsubscribe i r =
     r\<lparr>callbacks := (case dropWhile (\<lambda>e. fst e \<noteq> i) (callbacks r) of
        [] \<Rightarrow> callbacks r
      | e # es \<Rightarrow> takeWhile (\<lambda>e. fst e \<noteq> i) (callbacks r) @ es)\<rparr>"

definition Subscription_Unsubscribe :: "Subscription \<Rightarrow> 'c registry \<Rightarrow> Subscription \<times> 'c registry" where
  "Subscription_Unsubscribe h r =
     (if sub_active h \<and> sub_owner h then (h\<lparr>sub_active := False\<rparr>, Unsubscribe (sub_id h) r) else (h, r))"

text \<open>Moving out of a handle, and move assignment: the old subscription of the target ends.\<close>

definition moved_from :: "Subscription \<Rightarrow> Subscription" where
  "moved_from h = h\<lparr>sub_owner := False, sub_active := False\<rparr>"

definition move_assign :: "Subscription \<Rightarrow> Subscription \<Rightarrow> 'c registry \<Rightarrow> Subscription \<times> Subscription \<times> 'c registry" where
  "move_assign target other r = (other, moved_from other, snd (Subscription_Unsubscribe target r))"

section \<open>Network notifications\<close>

datatype 's network_callback =
    PeerConnectedCb "int \<Rightarrow> string \<Rightarrow> u16 \<Rightarrow> string \<Rightarrow> 's \<Rightarrow> 's"
  | PeerDisconnectedCb "int \<Rightarrow> string \<Rightarrow> u16 \<Rightarrow> string \<Rightarrow> bool \<Rightarrow> 's \<Rightarrow> 's"
  | InvalidHeaderCb "int \<Rightarrow> blob \<Rightarrow> string \<Rightarrow> 's \<Rightarrow> 's"
  | LowWorkHeadersCb "int \<Rightarrow> nat \<Rightarrow> string \<Rightarrow> 's \<Rightarrow> 's"
  | InvalidBlockCb "int \<Rightarrow> blob \<Rightarrow> string \<Rightarrow> 's \<Rightarrow> 's"
  | MisbehaviorCb "int \<Rightarrow> int \<Rightarrow> string \<Rightarrow> 's \<Rightarrow> 's"

type_synonym 's NetworkNotifications = "'s network_callback registry"

definition SubscribePeerConnected :: "(int \<Rightarrow> string \<Rightarrow> u16 \<Rightarrow> string \<Rightarrow> 's \<Rightarrow> 's) \<Rightarrow> 's NetworkNotifications \<Rightarrow> Subscription \<times> 's NetworkNotifications" where
  "SubscribePeerConnected callback = subscribe (PeerConnectedCb callback)"

definition SubscribePeerDisconnected :: "(int \<Rightarrow> string \<Rightarrow> u16 \<Rightarrow> string \<Rightarrow> bool \<Rightarrow> 's \<Rightarrow> 's) \<Rightarrow> 's NetworkNotifications \<Rightarrow> Subscription \<times> 's NetworkNotifications" where
  "SubscribePeerDisconnected callback = subscribe (PeerDisconnectedCb callback)"

definition SubscribeInvalidHeader :: "(int \<Rightarrow> blob \<Rightarrow> string \<Rightarrow> 's \<Rightarrow> 's) \<Rightarrow> 's NetworkNotifications \<Rightarrow> Subscription \<times> 's NetworkNotifications" where
  "SubscribeInvalidHeader callback = subscribe (InvalidHeaderCb callback)"

definition SubscribeLowWorkHeaders :: "(int \<Rightarrow> nat \<Rightarrow> string \<Rightarrow> 's \<Rightarrow> 's) \<Rightarrow> 's NetworkNotifications \<Rightarrow> Subscription \<times> 's NetworkNotifications" where
  "SubscribeLowWorkHeaders callback = subscribe (LowWorkHeadersCb callback)"

definition SubscribeInvalidBlock :: "(int \<Rightarrow> blob \<Rightarrow> string \<Rightarrow> 's \<Rightarrow> 's) \<Rightarrow> 's NetworkNotifications \<Rightarrow> Subscription \<times> 's NetworkNotifications" where
  "SubscribeInvalidBlock callback = subscribe (InvalidBlockCb callback)"

definition SubscribeMisbehavior :: "(int \<Rightarrow> int \<Rightarrow> string \<Rightarrow> 's \<Rightarrow> 's) \<Rightarrow> 's NetworkNotifications \<Rightarrow> Subscription \<times> 's NetworkNotifications" where
  "SubscribeMisbehavior callback = subscribe (MisbehaviorCb callback)"

definition NotifyPeerConnected :: "int \<Rightarrow> string \<Rightarrow> u16 \<Rightarrow> string \<Rightarrow> 's NetworkNotifications \<Rightarrow> 's \<Rightarrow> 's" where
  "NotifyPeerConnected peer_id address port connection_type r =
     fold (\<lambda>(i, c). case c of PeerConnectedCb f \<Rightarrow> f peer_id address port connection_type | _ \<Rightarrow> (\<lambda>s. s)) (callbacks r)"

definition NotifyPeerDisconnected :: "int \<Rightarrow> string \<Rightarrow> u16 \<Rightarrow> string \<Rightarrow> bool \<Rightarrow> 's NetworkNotifications \<Rightarrow> 's \<Rightarrow> 's" where
  "NotifyPeerDisconnected peer_id address port reason mark_addr_good r =
     fold (\<lambda>(i, c). case c of PeerDisconnectedCb f \<Rightarrow> f peer_id address port reason mark_addr_good | _ \<Rightarrow> (\<lambda>s. s)) (callbacks r)"

definition NotifyInvalidHeader :: "int \<Rightarrow> blob \<Rightarrow> string \<Rightarrow> 's NetworkNotifications \<Rightarrow> 's \<Rightarrow> 's" where
  "NotifyInvalidHeader peer_id h reason r =
     fold (\<lambda>(i, c). case c of InvalidHeaderCb f \<Rightarrow> f peer_id h reason | _ \<Rightarrow> (\<lambda>s. s)) (callbacks r)"

definition NotifyLowWorkHeaders :: "int \<Rightarrow> nat \<Rightarrow> string \<Rightarrow> 's NetworkNotifications \<Rightarrow> 's \<Rightarrow> 's" where
  "NotifyLowWorkHeaders peer_id count reason r =
     fold (\<lambda>(i, c). case c of LowWorkHeadersCb f \<Rightarrow> f peer_id count reason | _ \<Rightarrow> (\<lambda>s. s)) (callbacks r)"

definition NotifyInvalidBlock :: "int \<Rightarrow> blob \<Rightarrow> string \<Rightarrow> 's NetworkNotifications \<Rightarrow> 's \<Rightarrow> 's" where
  "NotifyInvalidBlock peer_id h reason r =
     fold (\<lambda>(i, c). case c of InvalidBlockCb f \<Rightarrow> f peer_id h reason | _ \<Rightarrow> (\<lambda>s. s)) (callbacks r)"

definition NotifyMisbehavior :: "int \<Rightarrow> int \<Rightarrow> string \<Rightarrow> 's NetworkNotifications \<Rightarrow> 's \<Rightarrow> 's" where
  "NotifyMisbehavior peer_id penalty reason r =
     fold (\<lambda>(i, c). case c of MisbehaviorCb f \<Rightarrow> f peer_id penalty reason | _ \<Rightarrow> (\<lambda>s. s)) (callbacks r)"

section \<open>Chain notifications\<close>

text \<open>A block index pointer is the key of the block; the progress of \<open>SyncState\<close> is a fraction.\<close>

datatype 's chain_callback =
    BlockConnectedCb "CBlockHeader \<Rightarrow> blob \<Rightarrow> 's \<Rightarrow> 's"
  | BlockDisconnectedCb "CBlockHeader \<Rightarrow> blob \<Rightarrow> 's \<Rightarrow> 's"
  | ChainTipCb "blob \<Rightarrow> int \<Rightarrow> 's \<Rightarrow> 's"
  | SyncStateCb "bool \<Rightarrow> int \<times> int \<Rightarrow> 's \<Rightarrow> 's"
  | SuspiciousReorgCb "int \<Rightarrow> int \<Rightarrow> 's \<Rightarrow> 's"
  | NetworkExpiredCb "int \<Rightarrow> int \<Rightarrow> 's \<Rightarrow> 's"

type_synonym 's ChainNotifications = "'s chain_callback registry"

definition SubscribeBlockConnected :: "(CBlockHeader \<Rightarrow> blob \<Rightarrow> 's \<Rightarrow> 's) \<Rightarrow> 's ChainNotifications \<Rightarrow> Subscription \<times> 's ChainNotifications" where
  "SubscribeBlockConnected callback = subscribe (BlockConnectedCb callback)"

definition SubscribeBlockDisconnected :: "(CBlockHeader \<Rightarrow> blob \<Rightarrow> 's \<Rightarrow> 's) \<Rightarrow> 's ChainNotifications \<Rightarrow> Subscription \<times> 's ChainNotifications" where
  "SubscribeBlockDisconnected callback = subscribe (BlockDisconnectedCb callback)"

definition SubscribeChainTip :: "(blob \<Rightarrow> int \<Rightarrow> 's \<Rightarrow> 's) \<Rightarrow> 's ChainNotifications \<Rightarrow> Subscription \<times> 's ChainNotifications" where
  "SubscribeChainTip callback = subscribe (ChainTipCb callback)"

definition SubscribeSyncState :: "(bool \<Rightarrow> int \<times> int \<Rightarrow> 's \<Rightarrow> 's) \<Rightarrow> 's ChainNotifications \<Rightarrow> Subscription \<times> 's ChainNotifications" where
  "SubscribeSyncState callback = subscribe (SyncStateCb callback)"

definition SubscribeSuspiciousReorg :: "(int \<Rightarrow> int \<Rightarrow> 's \<Rightarrow> 's) \<Rightarrow> 's ChainNotifications \<Rightarrow> Subscription \<times> 's ChainNotifications" where
  "SubscribeSuspiciousReorg callback = subscribe (SuspiciousReorgCb callback)"

definition SubscribeNetworkExpired :: "(int \<Rightarrow> int \<Rightarrow> 's \<Rightarrow> 's) \<Rightarrow> 's ChainNotifications \<Rightarrow> Subscription \<times> 's ChainNotifications" where
  "SubscribeNetworkExpired callback = subscribe (NetworkExpiredCb callback)"

definition NotifyBlockConnected :: "CBlockHeader \<Rightarrow> blob \<Rightarrow> 's ChainNotifications \<Rightarrow> 's \<Rightarrow> 's" where
  "NotifyBlockConnected block pindex r =
     fold (\<lambda>(i, c). case c of BlockConnectedCb f \<Rightarrow> f block pindex | _ \<Rightarrow> (\<lambda>s. s)) (callbacks r)"

definition NotifyBlockDisconnected :: "CBlockHeader \<Rightarrow> blob \<Rightarrow> 's ChainNotifications \<Rightarrow> 's \<Rightarrow> 's" where
  "NotifyBlockDisconnected block pindex r =
     fold (\<lambda>(i, c). case c of BlockDisconnectedCb f \<Rightarrow> f block pindex | _ \<Rightarrow> (\<lambda>s. s)) (callbacks r)"

definition NotifyChainTip :: "blob \<Rightarrow> int \<Rightarrow> 's ChainNotifications \<Rightarrow> 's \<Rightarrow> 's" where
  "NotifyChainTip pindexNew height r =
     fold (\<lambda>(i, c). case c of ChainTipCb f \<Rightarrow> f pindexNew height | _ \<Rightarrow> (\<lambda>s. s)) (callbacks r)"

definition NotifySyncState :: "bool \<Rightarrow> int \<times> int \<Rightarrow> 's ChainNotifications \<Rightarrow> 's \<Rightarrow> 's" where
  "NotifySyncState syncing progress r =
     fold (\<lambda>(i, c). case c of SyncStateCb f \<Rightarrow> f syncing progress | _ \<Rightarrow> (\<lambda>s. s)) (callbacks r)"

definition NotifySuspiciousReorg :: "int \<Rightarrow> int \<Rightarrow> 's ChainNotifications \<Rightarrow> 's \<Rightarrow> 's" where
  "NotifySuspiciousReorg reorg_depth max_allowed r =
     fold (\<lambda>(i, c). case c of SuspiciousReorgCb f \<Rightarrow> f reorg_depth max_allowed | _ \<Rightarrow> (\<lambda>s. s)) (callbacks r)"

definition NotifyNetworkExpired :: "int \<Rightarrow> int \<Rightarrow> 's ChainNotifications \<Rightarrow> 's \<Rightarrow> 's" where
  "NotifyNetworkExpired current_height expiration_height r =
     fold (\<lambda>(i, c). case c of NetworkExpiredCb f \<Rightarrow> f current_height expiration_height | _ \<Rightarrow> (\<lambda>s. s)) (callbacks r)"

section \<open>Live subscriptions\<close>

text \<open>What subscribers do with a registry: subscribe, and end the \<open>n\<close>th subscription ever made.\<close>

datatype 'c sub_op = Sub 'c | End nat

fun sub_run :: "'c sub_op \<Rightarrow> Subscription list \<times> 'c registry \<Rightarrow> Subscription list \<times> 'c registry" where
  "sub_run (Sub c) (hs, r) = (let (h, r) = subscribe c r in (hs @ [h], r))"
| "sub_run (End n) (hs, r) =
     (if n < length hs then let (h, r) = Subscription_Unsubscribe (hs ! n) r in (hs[n := h], r) else (hs, r))"

text \<open>The specification: the list of what was subscribed, with an ended subscription crossed out.\<close>

fun sub_spec :: "'c sub_op \<Rightarrow> 'c option list \<Rightarrow> 'c option list" where
  "sub_spec (Sub c) cs = cs @ [Some c]"
| "sub_spec (End n) cs = cs[n := None]"

fun subs :: "'c sub_op list \<Rightarrow> nat" where
  "subs [] = 0"
| "subs (Sub c # ops) = Suc (subs ops)"
| "subs (End n # ops) = subs ops"

fun live :: "nat \<Rightarrow> 'c option list \<Rightarrow> (u64 \<times> 'c) list" where
  "live i [] = []"
| "live i (None # cs) = live (Suc i) cs"
| "live i (Some c # cs) = (of_nat i, c) # live (Suc i) cs"

definition sub_inv :: "Subscription list \<times> 'c registry \<Rightarrow> 'c option list \<Rightarrow> bool" where
  "sub_inv = (\<lambda>(hs, r) cs. length hs = length cs \<and> next_id r = of_nat (Suc (length cs)) \<and> callbacks r = live 1 cs \<and>
     (\<forall>n < length cs. hs ! n = \<lparr>sub_owner = True, sub_id = of_nat (Suc n), sub_active = (cs ! n \<noteq> None)\<rparr>))"

lemma live_append: "live i (cs @ ds) = live i cs @ live (i + length cs) ds"
  by (induction i cs rule: live.induct) auto

lemma live_ids: "(k, c) \<in> set (live i cs) \<Longrightarrow> \<exists>n < length cs. k = of_nat (i + n)"
proof (induction i cs rule: live.induct)
  case (2 i cs)
  then obtain n where "n < length cs" "k = of_nat (Suc i + n)" by auto
  then show ?case by (intro exI [of _ "Suc n"]) simp
next
  case (3 i c' cs)
  show ?case
  proof (cases "k = of_nat i")
    case False
    then obtain n where "n < length cs" "k = of_nat (Suc i + n)" using 3 by auto
    then show ?thesis by (intro exI [of _ "Suc n"]) simp
  qed (intro exI [of _ 0], simp)
qed simp

lemma ids_apart:
  assumes "i < 2 ^ 64" and "j < 2 ^ 64" and "(of_nat i :: u64) = of_nat j"
  shows "i = j"
  using assms by (simp add: word_of_nat_eq_iff take_bit_nat_eq_self)

lemma live_remove:
  assumes "n < length cs" and "cs ! n \<noteq> None" and "length cs < 2 ^ 64 - 1"
  shows "callbacks (Unsubscribe (of_nat (Suc n)) \<lparr>callbacks = live 1 cs, next_id = k\<rparr>) = live 1 (cs[n := None])"
proof -
  obtain c where c: "cs ! n = Some c" using assms(2) by blast
  define a b where "a = take n cs" and "b = drop (Suc n) cs"
  have cs: "cs = a @ Some c # b" "length a = n" using id_take_nth_drop [OF assms(1)] assms(1) c by (simp_all add: a_def b_def)
  have apart: "fst e \<noteq> of_nat (Suc n)" if mem: "e \<in> set (live 1 a)" for e
  proof -
    obtain m where m: "m < length a" "fst e = of_nat (1 + m)" using live_ids [of "fst e" "snd e" 1 a] mem by auto
    then show ?thesis using ids_apart [of "1 + m" "Suc n"] assms(1,3) cs(2) by auto
  qed
  have u: "cs[n := None] = a @ None # b" using cs by (simp add: list_update_append)
  have l: "live 1 cs = live 1 a @ (of_nat (Suc n), c) # live (Suc (Suc n)) b" unfolding cs(1) live_append by (simp add: cs(2))
  have t: "takeWhile (\<lambda>e. fst e \<noteq> of_nat (Suc n)) (live 1 cs) = live 1 a" "dropWhile (\<lambda>e. fst e \<noteq> of_nat (Suc n)) (live 1 cs) = (of_nat (Suc n), c) # live (Suc (Suc n)) b"
    unfolding l using apart by (simp_all add: takeWhile_append dropWhile_append3 del: of_nat_Suc)
  show ?thesis unfolding u live_append by (simp add: Unsubscribe_def t [unfolded One_nat_def] cs(2) del: of_nat_Suc)
qed

lemma sub_run_inv:
  assumes "sub_inv st cs" and "length cs < 2 ^ 64 - 1"
  shows "sub_inv (sub_run op st) (sub_spec op cs)"
proof -
  obtain hs r where st: "st = (hs, r)" by force
  have i: "length hs = length cs" "r = \<lparr>callbacks = live 1 cs, next_id = of_nat (Suc (length cs))\<rparr>"
      "\<And>n. n < length cs \<Longrightarrow> hs ! n = \<lparr>sub_owner = True, sub_id = of_nat (Suc n), sub_active = (cs ! n \<noteq> None)\<rparr>"
    using assms(1) by (auto simp: sub_inv_def st)
  show ?thesis
  proof (cases op)
    case (Sub c)
    then show ?thesis using i by (auto simp: st sub_inv_def subscribe_def live_append nth_append Let_def less_Suc_eq)
  next
    case (End n)
    show ?thesis
    proof (cases "n < length cs \<and> cs ! n \<noteq> None")
      case True
      let ?r = "Unsubscribe (of_nat (Suc n)) r"
      have "callbacks ?r = live 1 (cs[n := None])" "next_id ?r = of_nat (Suc (length cs))"
        using live_remove [of n cs] True assms(2) by (simp_all add: i(2) Unsubscribe_def)
      then show ?thesis using True i(1,3) by (auto simp: End st sub_inv_def Subscription_Unsubscribe_def nth_list_update simp del: of_nat_Suc)
    next
      case False
      then have "cs[n := None] = cs" by (metis list_update_beyond list_update_id not_le)
      then show ?thesis using False i assms(1) by (auto simp: End st Subscription_Unsubscribe_def sub_inv_def nth_list_update)
    qed
  qed
qed

text \<open>
  \<^bold>\<open>C32.\<close> Subscriptions are exact: after any sequence of subscribing and ending subscriptions (fewer than $2^{64} - 1$ of them, so that the
  identifiers do not wrap around), the registry holds exactly the callbacks whose subscription has not ended, in the
  order of subscribing, each once; ending one a second time changes nothing.
\<close>

theorem subscriptions_exact:
  assumes "subs ops < 2 ^ 64 - 1"
  shows "callbacks (snd (fold sub_run ops ([], new_registry))) = live 1 (fold sub_spec ops [])"
proof -
  have "sub_inv (fold sub_run ops st) (fold sub_spec ops cs)" if "sub_inv st cs" "length cs + subs ops < 2 ^ 64 - 1" for st and cs :: "'a option list"
    using that
  proof (induction ops arbitrary: st cs)
    case (Cons op ops)
    have "length (sub_spec op cs) + subs ops \<le> length cs + subs (op # ops)" "length cs \<le> length cs + subs (op # ops)" by (cases op; simp)+
    then show ?case using Cons.IH [OF sub_run_inv [OF Cons.prems(1), of op]] Cons.prems(2) by simp
  qed simp
  from this [of "([], new_registry)" "[]"] assms show ?thesis
    by (auto simp: sub_inv_def new_registry_def split: prod.splits)
qed

theorem subscriptions_exact_witness:
  "callbacks (snd (fold sub_run [Sub (7 :: nat), Sub 8, End 0, Sub 9, End 0] ([], new_registry))) = [(2, 8), (3, 9)]"
  using subscriptions_exact [of "[Sub (7 :: nat), Sub 8, End 0, Sub 9, End 0]"] by simp

text \<open>A moved handle takes the subscription along: the handle it was moved from does nothing any more.\<close>

lemma moved_handle: "Subscription_Unsubscribe (moved_from h) r = (moved_from h, r)"
  by (simp add: Subscription_Unsubscribe_def moved_from_def)

end
