(* ===== verification/Miner.thy ===== *)
theory Miner
  imports Sync_Chain
begin

text \<open>
  \<open>CPUMiner\<close> of \<open>miner.cpp\<close>: templates, the loop of the mining thread one iteration at a time, and the operations that
  start and stop it.  The thread and its clock for the hash rate are not modelled; an iteration gets the clock of its
  environment and the chainstate as it finds it.  \<open>None\<close> is a failed assertion, \<open>Inl\<close> an exception, which ends the thread.
\<close>

section \<open>State\<close>

record BlockTemplate =
  tmpl_header :: CBlockHeader
  tmpl_nBits :: u32
  tmpl_nHeight :: int
  tmpl_hashPrevBlock :: blob

record CPUMiner =
  mining_address :: blob
  mining :: bool
  total_hashes :: u64
  blocks_found :: int
  template_invalidated :: bool
  target_height :: int

record worker =
  local_template :: BlockTemplate
  template_prev_hash :: blob
  wk_nonce :: u32

section \<open>Templates\<close>

definition CreateBlockTemplate :: "node_env \<Rightarrow> blob \<Rightarrow> chainstate \<Rightarrow> BlockTemplate option" where
  "CreateBlockTemplate env address st =
     (let tip = GetTip st;
          hashPrev = (case tip of None \<Rightarrow> blob_SetNull 32 | Some t \<Rightarrow> t);
          height = (case tip of None \<Rightarrow> 0 | Some t \<Rightarrow> height_of (the_index st) t + 1) in
      case GetNextWorkRequired (the_index st) tip (env_params env) of
        None \<Rightarrow> None
      | Some bits \<Rightarrow>
          let time = of_int (env_now env) :: u32;
              time = (case tip of None \<Rightarrow> time
                      | Some t \<Rightarrow> let median_time_past = GetMedianTimePast (the_index st) t in
                          if uint time \<le> median_time_past then of_int (median_time_past + 1) else time)
          in Some \<lparr>tmpl_header = \<lparr>nVersion = 1, hashPrevBlock = hashPrev, minerAddress = address, nTime = time, nBits = bits,
                    nNonce = 0, hashRandomX = blob_SetNull 32\<rparr>,
                  tmpl_nBits = bits, tmpl_nHeight = height, tmpl_hashPrevBlock = hashPrev\<rparr>)"

definition ShouldRegenerateTemplate :: "blob \<Rightarrow> CPUMiner \<Rightarrow> chainstate \<Rightarrow> bool \<times> CPUMiner" where
  "ShouldRegenerateTemplate prev_hash mn st =
     (let invalidated = template_invalidated mn; mn = mn\<lparr>template_invalidated := False\<rparr> in
      if invalidated then (True, mn)
      else case GetTip st of None \<Rightarrow> (False, mn) | Some t \<Rightarrow> (t \<noteq> prev_hash, mn))"

definition fresh_work :: "node_env \<Rightarrow> CPUMiner \<Rightarrow> chainstate \<Rightarrow> worker option" where
  "fresh_work env mn st =
     map_option (\<lambda>t. \<lparr>local_template = t, template_prev_hash = tmpl_hashPrevBlock t, wk_nonce = 0\<rparr>)
       (CreateBlockTemplate env (mining_address mn) st)"

section \<open>The mining loop\<close>

type_synonym mine_state = "CPUMiner \<times> worker \<times> chainstate"

text \<open>After a hash that is not below the target: the next nonce, and after the last one the next second.\<close>

definition next_nonce :: "node_env \<Rightarrow> mine_state \<Rightarrow> mine_state option" where
  "next_nonce env = (\<lambda>(mn, w, st).
     let w = w\<lparr>wk_nonce := wk_nonce w + 1\<rparr> in
     if wk_nonce w \<noteq> 0 then Some (mn, w, st)
     else
       let current_time = of_int (env_now env) :: u32;
           max_future_time = current_time + 2 * 60 * 60;
           t = local_template w; header = tmpl_header t in
       if nTime header < max_future_time
       then Some (mn, w\<lparr>local_template := t\<lparr>tmpl_header := header\<lparr>nTime := nTime header + 1\<rparr>\<rparr>\<rparr>, st)
       else map_option (\<lambda>w. (mn, w, st)) (fresh_work env mn st))"

text \<open>A block that was found, up to the next iteration; the flag says whether the loop is left (\<open>break\<close>).\<close>

definition submit :: "node_env \<Rightarrow> CBlockHeader \<Rightarrow> mine_state \<Rightarrow> (pow_error + bool \<times> mine_state) option" where
  "submit env found_header = (\<lambda>(mn, w, st).
     case ProcessNewBlockHeader env found_header new_ValidationState st of
       None \<Rightarrow> None
     | Some (Inl err, state, st) \<Rightarrow> Some (Inl err)
     | Some (Inr False, state, st) \<Rightarrow> Some (Inr (False, mn, w, st))
     | Some (Inr True, state, st) \<Rightarrow>
         let target = target_height mn;
             actual_height = (case GetTip st of None \<Rightarrow> -1 | Some t \<Rightarrow> height_of (the_index st) t) in
         if target \<noteq> -1 \<and> actual_height \<ge> target then Some (Inr (True, mn\<lparr>mining := False\<rparr>, w, st))
         else map_option (\<lambda>w. Inr (False, mn, w, st)) (fresh_work env mn st))"

definition attempt_nonce :: "node_env \<Rightarrow> mine_state \<Rightarrow> (pow_error + bool \<times> mine_state) option" where
  "attempt_nonce env = (\<lambda>(mn, w, st).
     let t = local_template w;
         w = w\<lparr>local_template := t\<lparr>tmpl_header := (tmpl_header t)\<lparr>nNonce := wk_nonce w\<rparr>\<rparr>\<rparr>;
         header = tmpl_header (local_template w);
         mn = mn\<lparr>total_hashes := total_hashes mn + 1\<rparr> in
     case CheckProofOfWork (env_crypto env) header (tmpl_nBits t) (env_params env) MINING (Some (blob_SetNull 32)) of
       Inl err \<Rightarrow> Some (Inl err)
     | Inr (found_block, mined_hash) \<Rightarrow>
         if found_block
         then submit env (header\<lparr>hashRandomX := the mined_hash\<rparr>) (mn\<lparr>blocks_found := blocks_found mn + 1\<rparr>, w, st)
         else map_option (\<lambda>s. Inr (False, s)) (next_nonce env (mn, w, st)))"

definition mine_step :: "node_env \<Rightarrow> mine_state \<Rightarrow> (pow_error + bool \<times> mine_state) option" where
  "mine_step env = (\<lambda>(mn, w, st).
     case ShouldRegenerateTemplate (template_prev_hash w) mn st of (regenerate, mn) \<Rightarrow>
       if regenerate then (case fresh_work env mn st of None \<Rightarrow> None | Some w \<Rightarrow> attempt_nonce env (mn, w, st))
       else attempt_nonce env (mn, w, st))"

text \<open>
  The worker over its iterations: each reads the clock of its environment and finds the flags of the miner and the
  chainstate as the other threads have left them, which a function on the two says.
\<close>

type_synonym interference = "CPUMiner \<times> chainstate \<Rightarrow> CPUMiner \<times> chainstate"

fun mine_loop :: "(node_env \<times> interference) list \<Rightarrow> mine_state \<Rightarrow> (pow_error + mine_state) option" where
  "mine_loop [] s = Some (Inr s)"
| "mine_loop ((env, others) # its) (mn, w, st) =
     (case others (mn, st) of (mn, st) \<Rightarrow>
       if \<not> mining mn then Some (Inr (mn, w, st))
       else case mine_step env (mn, w, st) of
           None \<Rightarrow> None
         | Some (Inl err) \<Rightarrow> Some (Inl err)
         | Some (Inr (True, s)) \<Rightarrow> Some (Inr s)
         | Some (Inr (False, s)) \<Rightarrow> mine_loop its s)"

definition MiningWorker :: "node_env \<Rightarrow> (node_env \<times> interference) list \<Rightarrow> CPUMiner \<Rightarrow> chainstate \<Rightarrow> (pow_error + mine_state) option" where
  "MiningWorker env its mn st =
     (case fresh_work env mn st of None \<Rightarrow> None | Some w \<Rightarrow> mine_loop its (mn, w, st))"

section \<open>Control\<close>

definition miner_Start :: "int \<Rightarrow> CPUMiner \<Rightarrow> bool \<times> CPUMiner" where
  "miner_Start target mn =
     (if mining mn then (False, mn)
      else (True, mn\<lparr>mining := True, target_height := target, total_hashes := 0, blocks_found := 0\<rparr>))"

definition miner_Stop :: "CPUMiner \<Rightarrow> CPUMiner" where
  "miner_Stop mn = mn\<lparr>mining := False\<rparr>"

definition InvalidateTemplate :: "CPUMiner \<Rightarrow> CPUMiner" where
  "InvalidateTemplate mn = mn\<lparr>template_invalidated := True\<rparr>"

definition SetMiningAddress :: "blob \<Rightarrow> CPUMiner \<Rightarrow> CPUMiner" where
  "SetMiningAddress address mn = mn\<lparr>mining_address := address\<rparr>"

section \<open>Mining as a run\<close>

text \<open>
  The states of the mining thread between two iterations, while other threads move the chain: a template made on the tip, protocol
  steps and control operations of the others, iterations of the loop.  All environments have the same hash functions and
  parameters; the clock is arbitrary.
\<close>

inductive mining_run :: "crypto \<Rightarrow> ChainParams \<Rightarrow> CBlockHeader \<Rightarrow> mine_state \<Rightarrow> bool" for cr params gen where
  start: "node_reachable cr params gen st \<Longrightarrow> fresh_work (mk_env cr params now td) mn st = Some w \<Longrightarrow> mining_run cr params gen (mn, w, st)"
| others: "mining_run cr params gen (mn, w, st) \<Longrightarrow> protocol_steps cr params st st' \<Longrightarrow> mining_run cr params gen (mn', w, st')"
| step: "mining_run cr params gen (mn, w, st) \<Longrightarrow> mining mn \<Longrightarrow> int (weight st) + 1 < 2 ^ 31 \<Longrightarrow>
    mine_step (mk_env cr params now td) (mn, w, st) = Some (Inr (b, s)) \<Longrightarrow> mining_run cr params gen s"

text \<open>What a template keeps while the chain moves: it extends a block of the index by the rules, whatever has become of the tip.\<close>

definition template_ok :: "ChainParams \<Rightarrow> block_map \<Rightarrow> worker \<Rightarrow> bool" where
  "template_ok params m w \<longleftrightarrow>
     (let t = local_template w; header = tmpl_header t; p = template_prev_hash w in
      hashPrevBlock header = p \<and> map_of m p \<noteq> None \<and> tmpl_nHeight t = height_of m p + 1 \<and> nVersion header = 1 \<and>
      nBits header = tmpl_nBits t \<and> GetNextWorkRequired m (Some p) params = Some (tmpl_nBits t) \<and>
      (GetMedianTimePast m p + 1 < 2 ^ 32 \<longrightarrow> GetMedianTimePast m p < uint (nTime header)))"

lemma GetMedianTimePast_nonneg:
  assumes "map_of m k \<noteq> None"
  shows "0 \<le> GetMedianTimePast m k"
proof -
  let ?ts = "mtp_times m MEDIAN_TIME_SPAN (Some k)"
  have pos: "0 \<le> t" if "t \<in> set (mtp_times m n q)" for n q t
    using that by (induction n arbitrary: q) (auto simp: index_time_def split: option.splits)
  have "?ts \<noteq> []" using assms by (auto simp: MEDIAN_TIME_SPAN_def numeral_eq_Suc)
  then have "length (sort ?ts) div 2 < length (sort ?ts)" by simp
  from nth_mem [OF this] have "GetMedianTimePast m k \<in> set ?ts" by (simp add: GetMedianTimePast_def Let_def)
  then show ?thesis by (rule pos)
qed

lemma fresh_template_ok:
  assumes "fresh_work env mn st = Some w" and "GetTip st = Some tip" and "map_of (the_index st) tip \<noteq> None"
  shows "template_ok (env_params env) (the_index st) w"
proof -
  let ?mtp = "GetMedianTimePast (the_index st) tip"
  have "uint (of_int (?mtp + 1) :: u32) = ?mtp + 1" if "?mtp + 1 < 2 ^ 32"
    using that GetMedianTimePast_nonneg [OF assms(3)] by (simp add: uint_word_of_int_eq take_bit_int_eq_self del: of_int_add)
  then show ?thesis using assms
    by (auto simp: fresh_work_def CreateBlockTemplate_def template_ok_def Let_def simp del: of_int_add split: option.splits)
qed

lemma template_ok_sub:
  "index_inv m \<Longrightarrow> index_inv m' \<Longrightarrow> index_sub m m' \<Longrightarrow> template_ok params m w \<Longrightarrow> template_ok params m' w"
  using index_sub_fields [of m m'] index_sub_mtp [of m m'] index_sub_work_required [of m m'] by (simp add: template_ok_def Let_def)

lemma template_ok_nonce:
  "template_ok params m (w\<lparr>local_template := t\<lparr>tmpl_header := (tmpl_header t)\<lparr>nNonce := n\<rparr>\<rparr>\<rparr>) = template_ok params m (w\<lparr>local_template := t\<rparr>)"
  "template_ok params m (w\<lparr>wk_nonce := n\<rparr>) = template_ok params m w"
  by (simp_all add: template_ok_def Let_def)

lemma template_ok_later:
  assumes "template_ok params m w" and "nTime (tmpl_header (local_template w)) < t"
  shows "template_ok params m (w\<lparr>local_template := (local_template w)\<lparr>tmpl_header := (tmpl_header (local_template w))\<lparr>nTime := nTime (tmpl_header (local_template w)) + 1\<rparr>\<rparr>\<rparr>)"
proof -
  let ?n = "nTime (tmpl_header (local_template w))"
  have "uint ?n + 1 < 2 ^ 32" using assms(2) uint_lt2p [of t] by (simp add: word_less_def)
  then have "uint (?n + 1) = uint ?n + 1" by (simp add: uint_word_ariths)
  then show ?thesis using assms(1) by (auto simp: template_ok_def Let_def)
qed

text \<open>A node that is reachable, with a template that fits it.\<close>

definition mine_ok :: "crypto \<Rightarrow> ChainParams \<Rightarrow> CBlockHeader \<Rightarrow> mine_state \<Rightarrow> bool" where
  "mine_ok cr params gen = (\<lambda>(mn, w, st). node_reachable cr params gen st \<and> template_ok params (the_index st) w)"

definition genesis_ok :: "crypto \<Rightarrow> ChainParams \<Rightarrow> CBlockHeader \<Rightarrow> bool" where
  "genesis_ok cr params gen \<longleftrightarrow> asert_params params \<and> hashPrevBlock gen = blob_SetNull 32 \<and> header_hash cr gen \<noteq> blob_SetNull 32"

lemma reachable_node:
  assumes "genesis_ok cr params gen" "node_reachable cr params gen st"
  shows "node_inv (mk_env cr params now td) st \<and> tip_ok st"
  using assms reachable_keeps [of params gen cr st] node_inv_clock unfolding genesis_ok_def by metis

lemma fresh_ok: "genesis_ok cr params gen \<Longrightarrow> node_reachable cr params gen st \<Longrightarrow> fresh_work (mk_env cr params now td) mn st = Some w \<Longrightarrow> mine_ok cr params gen (mn', w, st)"
proof -
  assume k: "genesis_ok cr params gen" and r: "node_reachable cr params gen st" and f: "fresh_work (mk_env cr params now td) mn st = Some w"
  obtain t where "GetTip st = Some t" "map_of (the_index st) t \<noteq> None"
    using reachable_node [OF k r, of now td] by (auto simp: tip_ok_def split: option.splits)
  from fresh_template_ok [OF f this] r show ?thesis by (simp add: mine_ok_def)
qed

lemma others_ok: "genesis_ok cr params gen \<Longrightarrow> mine_ok cr params gen (mn, w, st) \<Longrightarrow> protocol_steps cr params st st' \<Longrightarrow> mine_ok cr params gen (mn', w, st')"
proof -
  assume k: "genesis_ok cr params gen" and o: "mine_ok cr params gen (mn, w, st)" and p: "protocol_steps cr params st st'"
  let ?inv = "node_inv (mk_env cr params 0 TestOnlyResetTimeData)"
  have params: "asert_params params" using k by (simp add: genesis_ok_def)
  have i: "?inv st" using reachable_node [OF k] o by (auto simp: mine_ok_def)
  have "?inv st'" "index_sub (the_index st) (the_index st')" using steps_keep [OF p params i] by (auto simp: progress_def)
  then show ?thesis
    using o reachable_steps [OF p] template_ok_sub [OF node_inv_index [OF i] node_inv_index] by (auto simp: mine_ok_def)
qed

lemma next_nonce_ok:
  assumes k: "genesis_ok cr params gen" and o: "mine_ok cr params gen (mn, w, st)" and n: "next_nonce (mk_env cr params now td) (mn, w, st) = Some s"
  shows "mine_ok cr params gen s"
proof (cases "wk_nonce w + 1 = 0")
  case False
  then show ?thesis using o n by (auto simp: next_nonce_def mine_ok_def template_ok_nonce)
next
  case True
  let ?w = "w\<lparr>wk_nonce := 0\<rparr>"
  have o': "mine_ok cr params gen (mn, ?w, st)" using o by (simp add: mine_ok_def template_ok_nonce)
  show ?thesis
  proof (cases "nTime (tmpl_header (local_template w)) < of_int now + 2 * 60 * 60")
    case t: True
    then show ?thesis using o' n True template_ok_later [of params "the_index st" ?w]
      by (auto simp: next_nonce_def mine_ok_def mk_env_def Let_def)
  next
    case False
    then show ?thesis using o n True fresh_ok [OF k] by (auto simp: next_nonce_def mine_ok_def mk_env_def Let_def)
  qed
qed

lemma submit_ok:
  assumes k: "genesis_ok cr params gen" and o: "mine_ok cr params gen (mn, w, st)" and wt: "int (weight st) + 1 < 2 ^ 31"
    and s: "submit (mk_env cr params now td) header (mn, w, st) = Some (Inr (b, s))"
  shows "mine_ok cr params gen s"
proof -
  obtain q state' st' where p: "ProcessNewBlockHeader (mk_env cr params now td) header new_ValidationState st = Some (Inr q, state', st')"
    using s by (auto simp: submit_def split: option.splits sum.splits)
  have "protocol_steps cr params st st'" by (rule r_into_rtranclp, rule protocol_step.new_header [OF wt p])
  then have o': "mine_ok cr params gen (mn', w, st')" for mn' by (rule others_ok [OF k o])
  then have r: "node_reachable cr params gen st'" by (simp add: mine_ok_def)
  show ?thesis using s o' fresh_ok [OF k r] by (cases q) (auto simp: submit_def p Let_def split: if_splits)
qed

lemma attempt_ok:
  assumes k: "genesis_ok cr params gen" and o: "mine_ok cr params gen (mn, w, st)" and wt: "int (weight st) + 1 < 2 ^ 31"
    and s: "attempt_nonce (mk_env cr params now td) (mn, w, st) = Some (Inr (b, s))"
  shows "mine_ok cr params gen s"
proof -
  let ?t = "local_template w" and ?env = "mk_env cr params now td"
  let ?w = "w\<lparr>local_template := ?t\<lparr>tmpl_header := (tmpl_header ?t)\<lparr>nNonce := wk_nonce w\<rparr>\<rparr>\<rparr>"
  have o': "mine_ok cr params gen (mn', ?w, st)" for mn' using o by (simp add: mine_ok_def template_ok_nonce)
  obtain found h where c: "CheckProofOfWork cr ((tmpl_header ?t)\<lparr>nNonce := wk_nonce w\<rparr>) (tmpl_nBits ?t) params MINING (Some (blob_SetNull 32)) = Inr (found, h)"
    using s by (cases "CheckProofOfWork cr ((tmpl_header ?t)\<lparr>nNonce := wk_nonce w\<rparr>) (tmpl_nBits ?t) params MINING (Some (blob_SetNull 32))")
      (auto simp: attempt_nonce_def Let_def)
  show ?thesis
  proof (cases found)
    case True
    then show ?thesis using s c by (intro submit_ok [OF k o' wt]) (simp add: attempt_nonce_def Let_def)
  next
    case False
    then have "next_nonce ?env (mn\<lparr>total_hashes := total_hashes mn + 1\<rparr>, ?w, st) = Some s"
      using s c by (simp add: attempt_nonce_def Let_def) blast
    then show ?thesis by (rule next_nonce_ok [OF k o'])
  qed
qed

lemma mine_step_ok:
  assumes k: "genesis_ok cr params gen" and o: "mine_ok cr params gen (mn, w, st)" and wt: "int (weight st) + 1 < 2 ^ 31"
    and s: "mine_step (mk_env cr params now td) (mn, w, st) = Some (Inr (b, s))"
  shows "mine_ok cr params gen s"
proof -
  obtain regen mn' where g: "ShouldRegenerateTemplate (template_prev_hash w) mn st = (regen, mn')" by force
  have r: "node_reachable cr params gen st" and o': "mine_ok cr params gen (mn', w, st)" using o by (simp_all add: mine_ok_def)
  show ?thesis
  proof (cases regen)
    case True
    then obtain v where v: "fresh_work (mk_env cr params now td) mn' st = Some v" "attempt_nonce (mk_env cr params now td) (mn', v, st) = Some (Inr (b, s))"
      using s g by (auto simp: mine_step_def split: option.splits)
    show ?thesis by (rule attempt_ok [OF k fresh_ok [OF k r v(1)] wt v(2)])
  next
    case False
    then have "attempt_nonce (mk_env cr params now td) (mn', w, st) = Some (Inr (b, s))" using s g by (simp add: mine_step_def)
    then show ?thesis by (rule attempt_ok [OF k o' wt])
  qed
qed

lemma mining_run_ok:
  assumes k: "genesis_ok cr params gen"
  shows "mining_run cr params gen s \<Longrightarrow> mine_ok cr params gen s"
proof (induction rule: mining_run.induct)
  case (start st now td mn w)
  then show ?case by (rule fresh_ok [OF k])
next
  case (others mn w st st' mn')
  then show ?case using others_ok [OF k] by blast
next
  case (step mn w st now td b s)
  then show ?case using mine_step_ok [OF k] by blast
qed

section \<open>What the miner finds is valid\<close>

text \<open>A valid child of a block of the index is processed to the end, whatever orphans wait for it.\<close>

lemma ProcessNewBlockHeader_valid:
  assumes params: "asert_params (env_params env)" and i: "node_inv env st" and wt: "int (weight st) + 1 < 2 ^ 31" and vm: "vm_ok env"
    and new: "map_of (the_index st) (header_hash (env_crypto env) header) = None" and v: "valid_child env (the_index st) header"
    and room: "work_room st (header_work header)" and f: "map_of (the_index st) (hashPrevBlock header) = Some f"
  obtains state' st' where "ProcessNewBlockHeader env header state st = Some (Inr True, state', st')" "node_inv env st'"
    "map_of (the_index st') (header_hash (env_crypto env) header) = Some (accepted_entry (the_index st) header f (env_now env))"
proof -
  let ?h = "header_hash (env_crypto env) header" and ?e = "accepted_entry (the_index st) header f (env_now env)"
  obtain r state' s where a: "AcceptBlockHeader env header True state st = Some (r, state', s)" "node_inv env s" "\<forall>e. r \<noteq> Inl e"
      "\<forall>k. r = Inr (Some k) \<longrightarrow> k = ?h" "r \<noteq> Inr None" "map_of (the_index s) ?h = Some ?e" "work_room s 0"
    using AcceptBlockHeader_ok [OF params i wt, of header True state] vm new v room f by (auto simp: accept_ok_def Let_def)
  have r: "r = Inr (Some ?h)"
  proof (cases r)
    case (Inr x)
    then show ?thesis using a(4,5) by (cases x) auto
  qed (use a(3) in blast)
  have "nChainWork ?e \<noteq> 0" using a(7) map_of_SomeD [OF a(6)] by (auto simp: work_room_def)
  then obtain cs where c: "TryAddBlockIndexCandidate (the_index s) (Some ?h) (cs_chain_selector s) = Some cs"
      "node_inv env (s\<lparr>cs_chain_selector := cs\<rparr>)" by (rule TryAdd_node [OF a(2,6)])
  obtain s' where s': "ActivateBestChain None (s\<lparr>cs_chain_selector := cs\<rparr>) = Some (True, s')" "node_inv env s'"
      "the_index s' = the_index (s\<lparr>cs_chain_selector := cs\<rparr>)" by (rule ActivateBestChain_node [OF c(2)])
  have "ProcessNewBlockHeader env header state st = Some (Inr True, state', s')"
    using a(1) r c(1) s'(1) by (simp add: ProcessNewBlockHeader_def)
  then show thesis using that s'(2,3) a(6) by simp
qed


definition small_template :: BlockTemplate where
  "small_template = \<lparr>tmpl_header = (sample_header [9] 200 0)\<lparr>hashRandomX := blob_SetNull 32\<rparr>, tmpl_nBits = 0x207fffff,
     tmpl_nHeight = 1, tmpl_hashPrevBlock = [9]\<rparr>"

lemma small_CreateBlockTemplate:
  assumes "GetTip st = Some [9]" and "the_index st = [([9], (genesis_entry small_gen)\<lparr>nStatus := BLOCK_VALID_TREE\<rparr>)]"
  shows "CreateBlockTemplate small_env (replicate 20 0) st = Some small_template" "GetMedianTimePast (the_index st) [9] = 100"
proof -
  have "height_of (the_index st) [9] = 0" by (simp add: height_of_def assms(2) genesis_entry_def)
  moreover show m: "GetMedianTimePast (the_index st) [9] = 100"
    by (simp add: GetMedianTimePast_def span_Suc assms(2) genesis_entry_def index_time_def small_gen_def new_block_index_def sample_header_def)
  moreover have "GetNextWorkRequired (the_index st) (Some [9]) sample_params = Some 0x207fffff"
    using sample_limit_compact by (simp add: GetNextWorkRequired_def Let_def assms(2) genesis_entry_def sample_params_def)
  ultimately show "CreateBlockTemplate small_env (replicate 20 0) st = Some small_template"
    by (simp add: CreateBlockTemplate_def Let_def small_template_def sample_header_def small_env_def assms(1))
qed

lemma small_mined:
  "CheckProofOfWork sample_crypto ((tmpl_header small_template)\<lparr>nNonce := 0\<rparr>) 0x207fffff sample_params MINING (Some (blob_SetNull 32))
    = Inr (True, Some (1 # replicate 31 0))"
  by (simp add: pow_defs SetCompact_regtest sample_crypto_def toy_crypto_def GetRandomXCommitment_def)


section \<open>A rejected block\<close>

text \<open>
  When the chainstate refuses the block, the loop continues with the nonce that found it: the comment announces the
  next nonce, but the increment is skipped.  While the tip stays and the refusal lasts, the same block is found and
  refused for ever.
\<close>

lemma rejected_nonce_retried:
  assumes "ShouldRegenerateTemplate (template_prev_hash w) mn st = (False, mn)"
    and "CheckProofOfWork (env_crypto env) ((tmpl_header (local_template w))\<lparr>nNonce := wk_nonce w\<rparr>) (tmpl_nBits (local_template w))
       (env_params env) MINING (Some (blob_SetNull 32)) = Inr (True, Some h)"
    and "ProcessNewBlockHeader env ((tmpl_header (local_template w))\<lparr>nNonce := wk_nonce w, hashRandomX := h\<rparr>) new_ValidationState st
       = Some (Inr False, state, st')"
  obtains mn' w' where "mine_step env (mn, w, st) = Some (Inr (False, mn', w', st'))"
    "wk_nonce w' = wk_nonce w" "template_prev_hash w' = template_prev_hash w"
    "tmpl_header (local_template w') = (tmpl_header (local_template w))\<lparr>nNonce := wk_nonce w\<rparr>"
    "mining mn' = mining mn"
  using assms by (simp add: mine_step_def attempt_nonce_def submit_def Let_def)

end
