(* ===== verification/Spec2Isabelle.thy ===== *)
theory Spec2Isabelle
  imports Transport Peer_Limits Sync_Service Block_Store Network_Safety Notifications Miner
begin

text \<open>
  \<^bold>\<open>A verification development of the coinbasechain node.\<close>

  The program (under \<open>src/\<close>; the paths below are relative to it) is a node of a headers-only proof-of-work network:
  a C++ derivative of Bitcoin Core without transactions, with RandomX as its hash and ASERT as its difficulty rule.

  \<^bold>\<open>Parts and how they interact.\<close>
  A byte stream of a peer enters through the transport (\<open>network/real_transport.cpp\<close>) and is cut into messages by the peer
  (\<open>network/peer.cpp\<close>, \<open>network/message.cpp\<close>), which keeps the handshake.  The network manager
  (\<open>network/network_manager.cpp\<close>) hands every message by command to its handler: to the peer lifecycle manager (connections,
  limits, bans, misbehavior), the discovery manager (addresses, anchors), the header sync manager or the block relay
  manager.  Headers go to the chainstate manager (\<open>chain/chainstate_manager.cpp\<close>), which checks them
  (\<open>chain/validation.cpp\<close>, \<open>chain/pow.cpp\<close>), stores them in the block index (\<open>chain/block_manager.cpp\<close>), keeps orphans, and
  moves the active chain to the best candidate (\<open>chain/chain_selector.cpp\<close>).  The miner feeds its own headers in the
  same way.  Headers, addresses, anchors and bans are kept in files across restarts.

  \<^bold>\<open>How the code is rendered.\<close>
  Machine integers keep their width where they can wrap (\<open>byte\<close>, \<open>u16\<close> to \<open>u64\<close>, \<open>arith_uint256\<close>); signed C++ integers are \<open>int\<close>; hashes
  are byte lists.  Structures are records, tagged unions datatypes, \<open>std::map\<close> an association list in key order
  (\<open>Std_Map\<close>), a null pointer \<open>None\<close>.  A pointer into the block index is the hash it is stored under.  Stateful code passes
  its state; exceptions are \<open>Inl\<close> or a constructor of their own; an outer \<open>None\<close> is a failed assertion, a self-deadlock, a
  violated precondition of the library, or a loop that does not end.  Code that is not part of the
  repository is a parameter: RandomX and the header hash where only its distinctness matters (\<open>crypto\<close>), the
  JSON library (\<open>Json_View\<close>), address parsing of asio (\<open>ip_lib\<close>), the file system, random draws, shuffles, the iteration
  order of unordered maps, clocks.  Every operation is atomic: the locks are not modelled, except where a handler
  takes one it already holds (\<open>Transport\<close>).

  \<^bold>\<open>Theories.\<close>
  \<^item> \<open>Prelude\<close>, \<open>Std_Map\<close>, \<open>Std_String\<close>, \<open>Json_View\<close>: the shared library; the locale \<open>ordered_map\<close> is the contract of
    \<open>std::map\<close>, interpreted on the association lists that every table below uses.
  \<^item> \<open>Blob\<close>, \<open>Endian\<close> (\<open>util/uint.cpp\<close>, \<open>chain/endian.hpp\<close>); \<open>Arith_Uint\<close>, \<open>Compact\<close> (\<open>util/arith_uint256.cpp\<close>): the arithmetic on
    limbs, loop by loop, refines words of every width, 256 and 512 bits in particular (locale \<open>big_uint\<close>, with one interpretation for the limbs and
    one for the words), division included; compact targets round-trip.
  \<^item> \<open>Sha256\<close> (\<open>util/sha256.cpp\<close>): the buffered hasher gives the digest of the concatenated input however it is cut up, and
    the unrolled compression function is the one of the standard.
  \<^item> \<open>Block_Header\<close>, \<open>Chain_Params\<close>, \<open>Block_Index\<close>, \<open>Block_Tree\<close>, \<open>Index_Extension\<close>, \<open>Median_Time\<close>, \<open>Chain_Active\<close> (\<open>chain/block.cpp\<close>,
    \<open>chainparams.cpp\<close>, \<open>block_index.cpp\<close>, \<open>chain.cpp\<close>): the index as a tree (locale \<open>block_tree\<close>); skip pointers find the ancestor that walking back finds;
    locators, forks and tips.
  \<^item> \<open>Pow\<close>, \<open>Pow_Check\<close>, \<open>Timedata\<close>, \<open>Validation\<close> (\<open>chain/pow.cpp\<close>, \<open>randomx_pow.cpp\<close>, \<open>timedata.cpp\<close>, \<open>validation.cpp\<close>): the difficulty is defined
    and within the limit; the three modes of the proof-of-work check; the checks of a header.
  \<^item> \<open>Block_Manager\<close>, \<open>Chain_Selector\<close>, \<open>Orphan_Pool\<close>, \<open>Chainstate\<close>, \<open>Header_Accept\<close>, \<open>Invalidate\<close> (\<open>chain/block_manager.cpp\<close>,
    \<open>chain_selector.cpp\<close>, \<open>chainstate_manager.cpp\<close>): candidate tips as a priority set (locale \<open>priority_set\<close>), activation ends at the
    best one, its notifications replay the change of the chain, invalidation marks exactly the descendants.
  \<^item> \<open>Node_Invariant\<close>, \<open>Node\<close>: the invariant of the chainstate, what exactly acceptance accepts, and the reachable states of
    the consensus layer: their active chain satisfies every consensus rule.
  \<^item> \<open>Block_Store\<close>: saving and loading the headers.  \<open>Miner\<close> (\<open>chain/miner.cpp\<close>): the states of the mining thread
    while others move the chain (\<open>mining_run\<close>); what the miner finds in them is accepted.
    \<open>Notifications\<close> (both \<open>notifications.cpp\<close>): subscriptions.
  \<^item> \<open>Protocol\<close>, \<open>Wire\<close>, \<open>Message\<close> (\<open>network/protocol.cpp\<close>, \<open>message.cpp\<close>): encodings that round-trip, reject truncated input and
    produce typed values only (locales \<open>wire_codec\<close>, \<open>item_codec\<close>, \<open>payload_codec\<close>, interpreted for every encoding).
  \<^item> \<open>Peer\<close>, \<open>Peer_Stream\<close>, \<open>Peer_Handshake\<close>, \<open>Transport\<close> (\<open>network/peer.cpp\<close>, \<open>real_transport.cpp\<close>): framing does not depend on how the
    stream is cut; nothing is handled before the handshake; buffers are bounded; the send queue keeps its order.
  \<^item> \<open>Misbehavior\<close>, \<open>Ban_Manager\<close>, \<open>Peer_Manager\<close>, \<open>Peer_Limits\<close> (\<open>network/misbehavior_manager.cpp\<close>, \<open>ban_manager.cpp\<close>,
    \<open>peer_lifecycle_manager.cpp\<close>): scores, bans across restarts, connection limits in every reachable table.
  \<^item> \<open>Addr_Manager\<close>, \<open>Anchor_Manager\<close>, \<open>Discovery\<close> (\<open>network/addr_manager.cpp\<close>, \<open>anchor_manager.cpp\<close>, \<open>peer_discovery_manager.cpp\<close>): the two tables
    implement one address book; files; address requests are answered once.
  \<^item> \<open>Header_Sync\<close>, \<open>Sync_Chain\<close>, \<open>Sync_Service\<close>, \<open>Block_Relay\<close> (\<open>network/header_sync_manager.cpp\<close>, \<open>block_relay_manager.cpp\<close>): no batch of headers
    harms the chain; requests are answered with the right headers; tips are announced once.
  \<^item> \<open>Network\<close>, \<open>Network_Safety\<close> (\<open>network/network_manager.cpp\<close>, \<open>message_dispatcher.cpp\<close>, \<open>blockchain_sync_manager.cpp\<close>): all managers put
    together, driven by events; every reachable network is safe and every event is dealt with.

  \<^bold>\<open>Loops and bounds.\<close>
  Loops over the index that may not end on a malformed one are \<open>partial_function (option)\<close>, and their lemmas show that they end on a
  well-formed index.  The mutual recursion of \<open>AcceptBlockHeader\<close> and \<open>ProcessOrphanHeaders\<close> runs on fuel one above the number
  of orphans; every nested call removes an orphan, and the recursive equation without fuel is proved in \<open>Header_Accept\<close>.
  \<open>AcceptBlockHeader_exact\<close> assumes fewer than $2^{31}$ headers and orphans (heights are C++ integers), \<open>subscriptions_exact\<close> fewer than
  $2^{64} - 1$ subscriptions.  The accumulated work may wrap around at $2^{256}$, and the code asserts that no candidate has work zero:
  \<open>work_room st n\<close> (\<open>Node_Invariant\<close>) says that no known chain reaches $2^{256}$ with the work of all orphans and \<open>n\<close> more on top of it,
  and with that room for a batch its handler is shown to end.  The misbehaviour score is a signed 32-bit sum (\<open>int32\<close>).  The loader of
  the headers gives up on chains above height 1,000,000.

  \<^bold>\<open>Not modelled.\<close>
  Port mapping (\<open>network/nat_manager.cpp\<close>, a library on its own thread); the RPC server and client (\<open>network/rpc_server.cpp\<close>, \<open>rpc_client.cpp\<close>: a
  socket and JSON text around the modelled operations); \<open>application.cpp\<close>, \<open>main.cpp\<close>, \<open>cli.cpp\<close> (wiring, signals, command
  line); thread pool, containers under a lock, file helpers, file locks, clock and logging (\<open>util/\<close>: system calls and
  threads); the listener and the I/O threads of the transport; \<open>TransformD64\<close> and \<open>SHA256D64\<close> of \<open>util/sha256.cpp\<close>, which the node
  never calls; floating-point code for display (\<open>GetDifficulty\<close>, \<open>getdouble\<close>, \<open>GetHashrate\<close>); the global choice of the
  chain parameters; interleavings finer than one operation; the stale header \<open>network/peer_manager.hpp\<close>; fuzz targets and tools.
\<close>

end
